(* ===== verification/Prelude.thy ===== *)
theory Prelude
  imports Main "HOL-Library.Word" "HOL-Library.Monad_Syntax"
begin

text \<open>
  Shared vocabulary of the development: the C integer types as words, the conventions for
  pointers and undefined behaviour, the named collections the component proofs use, and
  generic lemmas on lists, options and words.

  A pointer that may be \<open>NULL\<close> is an \<open>'a option\<close>. A computation that reads or writes
  through a pointer is an \<open>'a option\<close> too: \<open>None\<close> is undefined behaviour of the C
  program (a \<open>NULL\<close> or dangling dereference, an access outside an allocated array) or a loop
  that does not end, so a theorem that such a computation returns \<open>Some\<close> is a memory-safety
  and termination theorem at once.
\<close>

unbundle bit_operations_syntax

type_synonym u8 = "8 word"
type_synonym u16 = "16 word"
type_synonym u32 = "32 word"
type_synonym u64 = "64 word"
type_synonym addr = nat
type_synonym ptr = "addr option"

definition INT_MAX :: int where "INT_MAX = 2147483647"

text \<open>
  The result of an operation on C's signed \<open>int\<close>. Leaving the range of the type is undefined
  behaviour.
\<close>

definition c_int :: "int \<Rightarrow> int option" where
  "c_int x = (if - INT_MAX - 1 \<le> x \<and> x \<le> INT_MAX then Some x else None)"

lemma c_int_ok [simp]: "- INT_MAX - 1 \<le> x \<Longrightarrow> x \<le> INT_MAX \<Longrightarrow> c_int x = Some x"
  by (simp add: c_int_def)

lemma c_int_pos [simp]: "0 \<le> x \<Longrightarrow> x \<le> INT_MAX \<Longrightarrow> c_int x = Some x"
  by (simp add: c_int_def INT_MAX_def)

named_theorems heap_simps \<open>how the field updates of a heap object act on the selectors\<close>
named_theorems wf_intros \<open>operations that keep a component's well-formedness\<close>

subsection \<open>Lists\<close>

lemma filter_id_iff: "filter P xs = xs \<longleftrightarrow> (\<forall>x \<in> set xs. P x)"
  by (induction xs) (auto dest: filter_eq_ConsD simp: order.trans [OF length_filter_le]
      intro: ccontr)

lemma concat_update:
  assumes "i < length xss"
  shows "concat (xss[i := ys]) = concat (take i xss) @ ys @ concat (drop (Suc i) xss)"
  using assms by (simp add: upd_conv_take_nth_drop)

lemma concat_nth:
  assumes "i < length xss"
  shows "concat xss = concat (take i xss) @ xss ! i @ concat (drop (Suc i) xss)"
  using assms by (metis concat.simps(2) concat_append id_take_nth_drop)

subsection \<open>Arrays\<close>

text \<open>
  An allocated C array is a list of its allocated length. Reading or writing outside it is
  undefined behaviour. \<open>arr_realloc\<close> keeps the common prefix; the new cells hold a default.
\<close>

definition arr_get :: "'a list \<Rightarrow> nat \<Rightarrow> 'a option" where
  "arr_get xs i = (if i < length xs then Some (xs ! i) else None)"

definition arr_set :: "'a list \<Rightarrow> nat \<Rightarrow> 'a \<Rightarrow> 'a list option" where
  "arr_set xs i v = (if i < length xs then Some (xs[i := v]) else None)"

definition arr_realloc :: "'a \<Rightarrow> 'a list \<Rightarrow> nat \<Rightarrow> 'a list" where
  "arr_realloc d xs n = take n xs @ replicate (n - length xs) d"

lemma length_arr_realloc [simp]: "length (arr_realloc d xs n) = n"
  by (simp add: arr_realloc_def)

lemma arr_realloc_nth [simp]:
  "i < n \<Longrightarrow> arr_realloc d xs n ! i = (if i < length xs then xs ! i else d)"
  by (auto simp: arr_realloc_def nth_append)

subsection \<open>Options\<close>

lemma bind_Some_iff: "(m \<bind> f = Some y) \<longleftrightarrow> (\<exists>x. m = Some x \<and> f x = Some y)"
  by (cases m) auto

subsection \<open>Running a component, and functional refinement\<close>

text \<open>
  A component is driven by commands: a step takes a command and a state to an output and the
  next state. \<open>run\<close> feeds it a list of commands and collects the outputs.
\<close>

fun run :: "('c \<Rightarrow> 's \<Rightarrow> 'o \<times> 's) \<Rightarrow> 'c list \<Rightarrow> 's \<Rightarrow> 'o list \<times> 's" where
  "run step [] s = ([], s)"
| "run step (c # cs) s =
     (let (out, s') = step c s; (outs, s'') = run step cs s' in (out # outs, s''))"

text \<open>
  The contract of a data refinement: under the invariant, a concrete step answers what the
  abstract step answers on the abstraction, commutes with it and keeps the invariant. Commands
  may carry a precondition on the abstract state.
\<close>

locale data_refinement =
  fixes inv :: "'s \<Rightarrow> bool"
    and abs :: "'s \<Rightarrow> 'a"
    and pre :: "'c \<Rightarrow> 'a \<Rightarrow> bool"
    and cstep :: "'c \<Rightarrow> 's \<Rightarrow> 'o \<times> 's"
    and astep :: "'c \<Rightarrow> 'a \<Rightarrow> 'o \<times> 'a"
  assumes step_out: "inv s \<Longrightarrow> pre c (abs s) \<Longrightarrow> fst (cstep c s) = fst (astep c (abs s))"
    and step_abs: "inv s \<Longrightarrow> pre c (abs s) \<Longrightarrow> abs (snd (cstep c s)) = snd (astep c (abs s))"
    and step_inv: "inv s \<Longrightarrow> pre c (abs s) \<Longrightarrow> inv (snd (cstep c s))"
begin

fun pre_run :: "'c list \<Rightarrow> 'a \<Rightarrow> bool" where
  "pre_run [] a = True"
| "pre_run (c # cs) a = (pre c a \<and> pre_run cs (snd (astep c a)))"

lemma run_refines:
  "inv s \<Longrightarrow> pre_run cs (abs s) \<Longrightarrow>
     fst (run cstep cs s) = fst (run astep cs (abs s)) \<and>
     abs (snd (run cstep cs s)) = snd (run astep cs (abs s)) \<and>
     inv (snd (run cstep cs s))"
proof (induction cs arbitrary: s)
  case Nil
  then show ?case by simp
next
  case (Cons c cs)
  then have p: "pre c (abs s)" by simp
  note step = step_out [OF Cons.prems(1) p] step_abs [OF Cons.prems(1) p]
    step_inv [OF Cons.prems(1) p]
  from Cons.prems have "pre_run cs (abs (snd (cstep c s)))" by (simp add: step)
  note IH = Cons.IH [OF step(3) this]
  show ?case
    using IH step by (simp add: Let_def split_beta)
qed

lemma run_refines_always:
  assumes "inv s" and "\<And>c a. pre c a"
  shows "fst (run cstep cs s) = fst (run astep cs (abs s))"
    and "abs (snd (run cstep cs s)) = snd (run astep cs (abs s))"
    and "inv (snd (run cstep cs s))"
proof -
  have "pre_run cs a" for a
    by (induction cs arbitrary: a) (simp_all add: assms(2))
  from run_refines [OF assms(1) this] show
    "fst (run cstep cs s) = fst (run astep cs (abs s))"
    "abs (snd (run cstep cs s)) = snd (run astep cs (abs s))"
    "inv (snd (run cstep cs s))" by simp_all
qed

end

end
