(* ===== verification/PonStats.thy ===== *)
theory PonStats
  imports Prelude
begin

text \<open>
  The instrumentation counters of \<^verbatim>\<open>pon_stats.h\<close> and the map that
  \<^verbatim>\<open>erlang:system_info(pon_stats)\<close> builds from them in \<^verbatim>\<open>erl_bif_info.c\<close>.
  The C object is one thread-local struct per scheduler; the model is a record that the
  operations of the other components thread through.
\<close>

record PonStats =
  premises_registered :: u64
  premise_notifications :: u64
  mailbox_scans_avoided :: u64
  messages_classified :: u64
  messages_type_collision :: u64
  messages_pon_queued :: u64
  timerfd_created :: u64
  timerfd_expirations :: u64
  timer_wheel_fallback :: u64
  timer_instigations :: u64
  timer_scans_avoided :: u64
  condition_wakeups :: u64
  condition_notifications :: u64
  scheduler_idle_blocks :: u64
  ets_watchers_registered :: u64
  ets_watcher_hits :: u64
  gc_notifications_sent :: u64
  gc_scans_avoided :: u64
  gc_incremental_steps :: u64
  pon_overhead_us :: u64

text \<open>
  The macros \<open>PON_STATS_INC\<close> and \<open>PON_STATS_ADD\<close> take a field name; here they take the
  record's update function for that field.
\<close>

definition PON_STATS_INC :: "((u64 \<Rightarrow> u64) \<Rightarrow> PonStats \<Rightarrow> PonStats) \<Rightarrow> PonStats \<Rightarrow> PonStats" where
  "PON_STATS_INC fld st = fld (\<lambda>x. x + 1) st"

definition PON_STATS_ADD ::
    "((u64 \<Rightarrow> u64) \<Rightarrow> PonStats \<Rightarrow> PonStats) \<Rightarrow> u64 \<Rightarrow> PonStats \<Rightarrow> PonStats" where
  "PON_STATS_ADD fld n st = fld (\<lambda>x. x + n) st"

definition pon_stats_zero :: PonStats where
  "pon_stats_zero =
     \<lparr>premises_registered = 0, premise_notifications = 0, mailbox_scans_avoided = 0,
      messages_classified = 0, messages_type_collision = 0, messages_pon_queued = 0,
      timerfd_created = 0, timerfd_expirations = 0, timer_wheel_fallback = 0,
      timer_instigations = 0, timer_scans_avoided = 0, condition_wakeups = 0,
      condition_notifications = 0, scheduler_idle_blocks = 0, ets_watchers_registered = 0,
      ets_watcher_hits = 0, gc_notifications_sent = 0, gc_scans_avoided = 0,
      gc_incremental_steps = 0, pon_overhead_us = 0\<rparr>"

end
