(* ===== verification/PonGc.thy ===== *)
theory PonGc
  imports PonStats
begin

text \<open>
  The notification-driven collector (\<^verbatim>\<open>pon_gc.h\<close>, \<^verbatim>\<open>pon_gc.c\<close>): a tri-colour
  mark and sweep over a graph of nodes that the BIFs build explicitly.

  The node objects live in a heap \<open>mem\<close>, kept inside the state record: an address that is not
  in its domain has not been allocated or has been freed, and following it is undefined behaviour
  (\<open>None\<close>). Every pointer field of the C structs is a \<open>ptr\<close>: the list of all nodes and the
  grey queue are the pointer structures of the source, not lists. \<open>released\<close> records the payload
  blocks handed to \<open>erts_free\<close>. The answers of the allocator are parameters of the operations
  that allocate. A C \<open>int\<close> (\<open>num_roots\<close>, \<open>gray_count\<close>, the loop counters) is an \<open>int\<close>;
  the \<open>uint16_t\<close> and \<open>uint64_t\<close> fields are words and wrap.
\<close>

subsection \<open>Data\<close>

definition PON_GC_WHITE :: u8 where "PON_GC_WHITE = 0"

definition PON_GC_GRAY :: u8 where "PON_GC_GRAY = 1"

definition PON_GC_BLACK :: u8 where "PON_GC_BLACK = 2"

record PonGcNode =
  color :: u8
  num_refs :: u16
  refs_cap :: u16
  refs :: "ptr list option"
  next_gray :: ptr
  prev_all :: ptr
  next_all :: ptr
  data :: ptr
  data_size :: u64
  node_id :: u64

record PonGcState =
  roots :: "ptr list option"
  num_roots :: int
  roots_cap :: int
  gray_head :: ptr
  gray_tail :: ptr
  gray_count :: int
  nodes_head :: ptr
  nodes_tail :: ptr
  total_nodes :: u64
  by_id :: "ptr list option"
  by_id_cap :: u64
  next_id :: u64
  live_nodes :: u64
  dead_nodes :: u64
  bytes_freed :: u64
  notifications_sent :: u64
  scan_count :: u64
  cycles :: u64
  mem :: "addr \<rightharpoonup> PonGcNode"
  released :: "addr list"

text \<open>Writing a field of the object at an address, and indexing an array through a pointer.\<close>

definition upd_node :: "addr \<Rightarrow> (PonGcNode \<Rightarrow> PonGcNode) \<Rightarrow> PonGcState \<Rightarrow> PonGcState option" where
  "upd_node a f gc =
     (case mem gc a of None \<Rightarrow> None | Some n \<Rightarrow> Some (gc\<lparr>mem := (mem gc)(a \<mapsto> f n)\<rparr>))"

definition load :: "ptr list option \<Rightarrow> nat \<Rightarrow> ptr option" where
  "load arr i = (case arr of None \<Rightarrow> None | Some xs \<Rightarrow> arr_get xs i)"

definition store :: "ptr list option \<Rightarrow> nat \<Rightarrow> ptr \<Rightarrow> ptr list option option" where
  "store arr i v = (case arr of None \<Rightarrow> None | Some xs \<Rightarrow> map_option Some (arr_set xs i v))"

definition grow :: "ptr list option \<Rightarrow> nat \<Rightarrow> ptr list" where
  "grow arr n = arr_realloc None (case arr of None \<Rightarrow> [] | Some xs \<Rightarrow> xs) n"

subsection \<open>The grey queue and propagation\<close>

definition enqueue_gray :: "PonGcState \<Rightarrow> ptr \<Rightarrow> PonGcState option" where
  "enqueue_gray gc node =
     (case node of
        None \<Rightarrow> Some gc
      | Some a \<Rightarrow> do {
          n \<leftarrow> mem gc a;
          if color n \<noteq> PON_GC_WHITE then Some gc
          else do {
            gc \<leftarrow> upd_node a (\<lambda>n. n\<lparr>color := PON_GC_GRAY\<rparr>) gc;
            gc \<leftarrow> Some (gc\<lparr>live_nodes := live_nodes gc + 1\<rparr>);
            gc \<leftarrow> upd_node a (\<lambda>n. n\<lparr>next_gray := None\<rparr>) gc;
            gc \<leftarrow> (case gray_tail gc of
                      Some t \<Rightarrow> upd_node t (\<lambda>n. n\<lparr>next_gray := Some a\<rparr>) gc
                    | None \<Rightarrow> Some (gc\<lparr>gray_head := Some a\<rparr>));
            Some (gc\<lparr>gray_tail := Some a, gray_count := gray_count gc + 1\<rparr>)
          }
        })"

definition dequeue_gray :: "PonGcState \<Rightarrow> (ptr \<times> PonGcState) option" where
  "dequeue_gray gc =
     (case gray_head gc of
        None \<Rightarrow> Some (None, gc)
      | Some a \<Rightarrow> do {
          n \<leftarrow> mem gc a;
          gc \<leftarrow> Some (gc\<lparr>gray_head := next_gray n\<rparr>);
          gc \<leftarrow> Some (if gray_head gc = None then gc\<lparr>gray_tail := None\<rparr> else gc);
          gc \<leftarrow> upd_node a (\<lambda>n. n\<lparr>next_gray := None\<rparr>) gc;
          Some (Some a, gc\<lparr>gray_count := gray_count gc - 1\<rparr>)
        })"

partial_function (option) propagate_loop ::
    "addr \<Rightarrow> nat \<Rightarrow> int \<Rightarrow> PonGcState \<Rightarrow> (int \<times> PonGcState) option" where
  "propagate_loop a i sent gc = do {
     n \<leftarrow> mem gc a;
     if i < unat (num_refs n) then do {
       ref \<leftarrow> load (refs n) i;
       (case ref of
          None \<Rightarrow> propagate_loop a (Suc i) sent gc
        | Some r \<Rightarrow> do {
            rn \<leftarrow> mem gc r;
            if color rn = PON_GC_WHITE then do {
              gc \<leftarrow> enqueue_gray gc (Some r);
              propagate_loop a (Suc i) (sent + 1) gc
            } else propagate_loop a (Suc i) sent gc
          })
     } else Some (sent, gc)
   }"

definition propagate :: "PonGcState \<Rightarrow> addr \<Rightarrow> (int \<times> PonGcState) option" where
  "propagate gc a = do {
     (sent, gc) \<leftarrow> propagate_loop a 0 0 gc;
     gc \<leftarrow> upd_node a (\<lambda>n. n\<lparr>color := PON_GC_BLACK\<rparr>) gc;
     Some (sent, gc\<lparr>notifications_sent := notifications_sent gc + of_int sent,
                   scan_count := scan_count gc + 1\<rparr>)
   }"

subsection \<open>Building the graph\<close>

definition pon_gc_zero :: PonGcState where
  "pon_gc_zero =
     \<lparr>roots = None, num_roots = 0, roots_cap = 0, gray_head = None, gray_tail = None,
      gray_count = 0, nodes_head = None, nodes_tail = None, total_nodes = 0, by_id = None,
      by_id_cap = 0, next_id = 0, live_nodes = 0, dead_nodes = 0, bytes_freed = 0,
      notifications_sent = 0, scan_count = 0, cycles = 0, mem = Map.empty, released = []\<rparr>"

text \<open>\<open>pon_gc_init\<close> zeroes the struct; the heap of nodes is not part of it.\<close>

definition pon_gc_init :: "PonGcState option \<Rightarrow> PonGcState option" where
  "pon_gc_init gc =
     (case gc of
        None \<Rightarrow> None
      | Some g \<Rightarrow> Some (pon_gc_zero\<lparr>mem := mem g, released := released g\<rparr>))"

partial_function (option) by_id_new_cap :: "u64 \<Rightarrow> u64 \<Rightarrow> u64 option" where
  "by_id_new_cap cap i = (if cap \<le> i then by_id_new_cap (cap * 2) i else Some cap)"

text \<open>
  \<open>node\<close> is the answer of \<open>erts_alloc\<close> (\<open>None\<close>: no memory) and \<open>realloc_ok\<close> that of
  \<open>erts_realloc\<close>, used only when the id table grows. The result is the node pointer, \<open>None\<close>
  for \<open>NULL\<close>.
\<close>

definition pon_gc_node_create ::
    "PonGcState option \<Rightarrow> ptr \<Rightarrow> u64 \<Rightarrow> ptr \<Rightarrow> bool \<Rightarrow> (ptr \<times> PonGcState option) option" where
  "pon_gc_node_create g dat sz node realloc_ok =
     (case g of
        None \<Rightarrow> Some (None, None)
      | Some gc \<Rightarrow>
        (case node of
           None \<Rightarrow> Some (None, Some gc)
         | Some a \<Rightarrow> do {
             i \<leftarrow> Some (next_id gc);
             gc \<leftarrow> Some (gc\<lparr>mem := (mem gc)(a \<mapsto>
                \<lparr>color = PON_GC_WHITE, num_refs = 0, refs_cap = 0, refs = None,
                 next_gray = None, prev_all = None, next_all = None, data = dat,
                 data_size = sz, node_id = i\<rparr>), next_id := next_id gc + 1\<rparr>);
             gc \<leftarrow> upd_node a (\<lambda>n. n\<lparr>next_all := nodes_head gc\<rparr>) gc;
             gc \<leftarrow> (case nodes_head gc of
                      Some h \<Rightarrow> upd_node h (\<lambda>n. n\<lparr>prev_all := Some a\<rparr>) gc
                    | None \<Rightarrow> Some (gc\<lparr>nodes_tail := Some a\<rparr>));
             gc \<leftarrow> Some (gc\<lparr>nodes_head := Some a, total_nodes := total_nodes gc + 1\<rparr>);
             if i \<ge> by_id_cap gc then do {
               new_cap \<leftarrow> by_id_new_cap (if by_id_cap gc \<noteq> 0 then by_id_cap gc * 2 else 64) i;
               if \<not> realloc_ok then Some (None, Some (gc\<lparr>mem := (mem gc)(a := None)\<rparr>))
               else do {
                 gc \<leftarrow> Some (gc\<lparr>by_id := Some (grow (by_id gc) (unat new_cap)),
                               by_id_cap := new_cap\<rparr>);
                 arr \<leftarrow> store (by_id gc) (unat i) (Some a);
                 Some (Some a, Some (gc\<lparr>by_id := arr\<rparr>))
               }
             } else do {
               arr \<leftarrow> store (by_id gc) (unat i) (Some a);
               Some (Some a, Some (gc\<lparr>by_id := arr\<rparr>))
             }
           }))"

definition pon_gc_node_free :: "PonGcState option \<Rightarrow> ptr \<Rightarrow> PonGcState option option" where
  "pon_gc_node_free g node =
     (case g of
        None \<Rightarrow> Some None
      | Some gc \<Rightarrow>
        (case node of
           None \<Rightarrow> Some (Some gc)
         | Some a \<Rightarrow> do {
             n \<leftarrow> mem gc a;
             gc \<leftarrow> (case prev_all n of
                      Some p \<Rightarrow> upd_node p (\<lambda>m. m\<lparr>next_all := next_all n\<rparr>) gc
                    | None \<Rightarrow> Some (gc\<lparr>nodes_head := next_all n\<rparr>));
             n \<leftarrow> mem gc a;
             gc \<leftarrow> (case next_all n of
                      Some q \<Rightarrow> upd_node q (\<lambda>m. m\<lparr>prev_all := prev_all n\<rparr>) gc
                    | None \<Rightarrow> Some (gc\<lparr>nodes_tail := prev_all n\<rparr>));
             n \<leftarrow> mem gc a;
             arr \<leftarrow> (if node_id n < by_id_cap gc then store (by_id gc) (unat (node_id n)) None
                    else Some (by_id gc));
             gc \<leftarrow> Some (gc\<lparr>by_id := arr\<rparr>);
             gc \<leftarrow> Some (case data n of
                          None \<Rightarrow> gc | Some d \<Rightarrow> gc\<lparr>released := released gc @ [d]\<rparr>);
             Some (Some (gc\<lparr>mem := (mem gc)(a := None), total_nodes := total_nodes gc - 1\<rparr>))
           }))"

definition pon_gc_node_by_id :: "PonGcState option \<Rightarrow> u64 \<Rightarrow> ptr option" where
  "pon_gc_node_by_id g i =
     (case g of
        None \<Rightarrow> Some None
      | Some gc \<Rightarrow> if i \<ge> by_id_cap gc then Some None else load (by_id gc) (unat i))"

text \<open>
  \<open>realloc_ok\<close> answers \<open>erts_realloc\<close>. The capacity is a \<open>Uint16\<close>: doubling it wraps.
\<close>

definition pon_gc_add_ref :: "PonGcState \<Rightarrow> ptr \<Rightarrow> ptr \<Rightarrow> bool \<Rightarrow> PonGcState option" where
  "pon_gc_add_ref gc from to realloc_ok =
     (case (from, to) of
        (Some a, Some b) \<Rightarrow> do {
          n \<leftarrow> mem gc a;
          if num_refs n = refs_cap n \<and> \<not> realloc_ok then Some gc
          else do {
            gc \<leftarrow> (if num_refs n = refs_cap n
                   then (let new_cap = (if refs_cap n \<noteq> 0 then refs_cap n * 2 else 4)
                         in upd_node a (\<lambda>n. n\<lparr>refs := Some (grow (refs n) (unat new_cap)),
                                             refs_cap := new_cap\<rparr>) gc)
                   else Some gc);
            n \<leftarrow> mem gc a;
            arr \<leftarrow> store (refs n) (unat (num_refs n)) (Some b);
            upd_node a (\<lambda>n. n\<lparr>refs := arr, num_refs := num_refs n + 1\<rparr>) gc
          }
        }
      | _ \<Rightarrow> Some gc)"

text \<open>The search loop of \<open>pon_gc_remove_ref\<close>; \<open>k\<close> is the number of cells left.\<close>

fun find_ref :: "ptr list option \<Rightarrow> ptr \<Rightarrow> nat \<Rightarrow> nat \<Rightarrow> bool option" where
  "find_ref arr to i 0 = Some False"
| "find_ref arr to i (Suc k) = do {
     r \<leftarrow> load arr i;
     if r = to then Some True else find_ref arr to (Suc i) k
   }"

text \<open>The shifting loop: \<open>refs[i] = refs[i + 1]\<close> for \<open>k\<close> consecutive indices from \<open>i\<close>.\<close>

fun shift_refs :: "ptr list option \<Rightarrow> nat \<Rightarrow> nat \<Rightarrow> ptr list option option" where
  "shift_refs arr i 0 = Some arr"
| "shift_refs arr i (Suc k) = do {
     r \<leftarrow> load arr (Suc i);
     arr \<leftarrow> store arr i r;
     shift_refs arr (Suc i) k
   }"

text \<open>
  The shift starts at the value of the flag \<open>found\<close>, that is at index 1, as in the source; it
  runs while \<open>i < num_refs - 1\<close>.
\<close>

definition pon_gc_remove_ref :: "PonGcState \<Rightarrow> ptr \<Rightarrow> ptr \<Rightarrow> PonGcState option" where
  "pon_gc_remove_ref gc from to =
     (case from of
        None \<Rightarrow> Some gc
      | Some a \<Rightarrow> do {
          n \<leftarrow> mem gc a;
          if refs n = None then Some gc
          else do {
            found \<leftarrow> find_ref (refs n) to 0 (unat (num_refs n));
            if found then do {
              arr \<leftarrow> shift_refs (refs n) 1 (nat (int (unat (num_refs n)) - 1 - 1));
              upd_node a (\<lambda>n. n\<lparr>refs := arr, num_refs := num_refs n - 1\<rparr>) gc
            } else Some gc
          }
        })"

text \<open>Doubling the capacity, a C \<open>int\<close>, beyond \<open>INT_MAX\<close> is undefined.\<close>

definition pon_gc_add_root :: "PonGcState option \<Rightarrow> ptr \<Rightarrow> bool \<Rightarrow> PonGcState option option" where
  "pon_gc_add_root g root realloc_ok =
     (case g of
        None \<Rightarrow> Some None
      | Some gc \<Rightarrow>
        (if root = None then Some (Some gc)
         else if num_roots gc = roots_cap gc \<and> \<not> realloc_ok then Some (Some gc)
         else do {
           gc \<leftarrow>
             (if num_roots gc = roots_cap gc
              then (let new_cap = (if roots_cap gc \<noteq> 0 then roots_cap gc * 2 else 16)
                    in if INT_MAX < new_cap then None
                       else Some (gc\<lparr>roots := Some (grow (roots gc) (nat new_cap)),
                                     roots_cap := new_cap\<rparr>))
              else Some gc);
           arr \<leftarrow> store (roots gc) (nat (num_roots gc)) root;
           Some (Some (gc\<lparr>roots := arr, num_roots := num_roots gc + 1\<rparr>))
         }))"

subsection \<open>Mark, sweep and the rest of the interface\<close>

fun mark_roots :: "nat \<Rightarrow> nat \<Rightarrow> PonGcState \<Rightarrow> PonGcState option" where
  "mark_roots i 0 gc = Some gc"
| "mark_roots i (Suc k) gc = do {
     r \<leftarrow> load (roots gc) i;
     gc \<leftarrow> enqueue_gray gc r;
     mark_roots (Suc i) k gc
   }"

partial_function (option) mark_loop :: "PonGcState \<Rightarrow> PonGcState option" where
  "mark_loop gc =
     (if gray_head gc = None then Some gc
      else do {
        (node, gc) \<leftarrow> dequeue_gray gc;
        (case node of
           None \<Rightarrow> None
         | Some a \<Rightarrow> do {
             (sent, gc) \<leftarrow> propagate gc a;
             mark_loop gc
           })
      })"

definition pon_gc_mark :: "PonGcState option \<Rightarrow> (u64 \<times> PonGcState option) option" where
  "pon_gc_mark g =
     (case g of
        None \<Rightarrow> Some (0, None)
      | Some gc \<Rightarrow> do {
          gc \<leftarrow> mark_roots 0 (nat (num_roots gc)) gc;
          gc \<leftarrow> mark_loop gc;
          gc \<leftarrow> Some (gc\<lparr>cycles := cycles gc + 1\<rparr>);
          Some (live_nodes gc, Some gc)
        })"

partial_function (option) step_loop :: "int \<Rightarrow> int \<Rightarrow> PonGcState \<Rightarrow> PonGcState option" where
  "step_loop max_notifications processed gc =
     (if gray_head gc \<noteq> None \<and> processed < max_notifications then do {
        (node, gc) \<leftarrow> dequeue_gray gc;
        (case node of
           None \<Rightarrow> None
         | Some a \<Rightarrow> do {
             (sent, gc) \<leftarrow> propagate gc a;
             step_loop max_notifications (processed + (if sent > 0 then sent else 1)) gc
           })
      } else Some gc)"

definition pon_gc_step :: "PonGcState option \<Rightarrow> int \<Rightarrow> (int \<times> PonGcState option) option" where
  "pon_gc_step g max_notifications =
     (case g of
        None \<Rightarrow> Some (1, None)
      | Some gc \<Rightarrow>
        (if gray_head gc = None then Some (1, Some gc)
         else do {
           gc \<leftarrow> step_loop max_notifications 0 gc;
           if gray_head gc = None then Some (1, Some (gc\<lparr>cycles := cycles gc + 1\<rparr>))
           else Some (0, Some gc)
         }))"

partial_function (option) sweep_loop ::
    "ptr \<Rightarrow> u64 \<Rightarrow> PonGcState \<Rightarrow> (u64 \<times> PonGcState) option" where
  "sweep_loop node freed gc =
     (case node of
        None \<Rightarrow> Some (freed, gc)
      | Some a \<Rightarrow> do {
          n \<leftarrow> mem gc a;
          if color n = PON_GC_WHITE then do {
            gc \<leftarrow> Some (gc\<lparr>dead_nodes := dead_nodes gc + 1,
                         bytes_freed := bytes_freed gc + data_size n\<rparr>);
            g \<leftarrow> pon_gc_node_free (Some gc) (Some a);
            (case g of None \<Rightarrow> None | Some gc \<Rightarrow> sweep_loop (next_all n) (freed + data_size n) gc)
          } else do {
            gc \<leftarrow> upd_node a (\<lambda>n. n\<lparr>color := PON_GC_WHITE\<rparr>) gc;
            sweep_loop (next_all n) freed gc
          }
        })"

definition pon_gc_sweep :: "PonGcState option \<Rightarrow> (u64 \<times> PonGcState option) option" where
  "pon_gc_sweep g =
     (case g of
        None \<Rightarrow> Some (0, None)
      | Some gc \<Rightarrow> do {
          gc \<leftarrow> Some (gc\<lparr>dead_nodes := 0, bytes_freed := 0\<rparr>);
          (freed, gc) \<leftarrow> sweep_loop (nodes_head gc) 0 gc;
          Some (freed, Some (gc\<lparr>live_nodes := 0\<rparr>))
        })"

definition pon_gc_mark_sweep :: "PonGcState option \<Rightarrow> (u64 \<times> PonGcState option) option" where
  "pon_gc_mark_sweep g =
     (case g of
        None \<Rightarrow> Some (0, None)
      | Some gc \<Rightarrow> do {
          (live, g) \<leftarrow> pon_gc_mark (Some gc);
          (freed, g) \<leftarrow> pon_gc_sweep g;
          (case g of None \<Rightarrow> None | Some gc \<Rightarrow> Some (dead_nodes gc, Some gc))
        })"

partial_function (option) reset_loop :: "ptr \<Rightarrow> PonGcState \<Rightarrow> PonGcState option" where
  "reset_loop node gc =
     (case node of
        None \<Rightarrow> Some gc
      | Some a \<Rightarrow> do {
          gc \<leftarrow> upd_node a (\<lambda>n. n\<lparr>color := PON_GC_WHITE, next_gray := None\<rparr>) gc;
          n \<leftarrow> mem gc a;
          reset_loop (next_all n) gc
        })"

definition pon_gc_reset :: "PonGcState option \<Rightarrow> PonGcState option option" where
  "pon_gc_reset g =
     (case g of
        None \<Rightarrow> Some None
      | Some gc \<Rightarrow> do {
          gc \<leftarrow> reset_loop (nodes_head gc)
                  (gc\<lparr>gray_head := None, gray_tail := None, gray_count := 0\<rparr>);
          Some (Some (gc\<lparr>live_nodes := 0, dead_nodes := 0, notifications_sent := 0,
                         scan_count := 0\<rparr>))
        })"

text \<open>
  \<open>pon_gc_stats\<close> writes four counters through pointers that may be \<open>NULL\<close>; the result is what
  each pointed-to variable holds afterwards.
\<close>

definition pon_gc_stats ::
    "PonGcState option \<Rightarrow> u64 option \<Rightarrow> u64 option \<Rightarrow> u64 option \<Rightarrow> u64 option
      \<Rightarrow> u64 option \<times> u64 option \<times> u64 option \<times> u64 option" where
  "pon_gc_stats g live dead notifications scanned =
     (case g of
        None \<Rightarrow> (live, dead, notifications, scanned)
      | Some gc \<Rightarrow>
         (map_option (\<lambda>_. live_nodes gc) live,
          map_option (\<lambda>_. dead_nodes gc) dead,
          map_option (\<lambda>_. notifications_sent gc) notifications,
          map_option (\<lambda>_. scan_count gc) scanned))"

partial_function (option) destroy_loop :: "ptr \<Rightarrow> PonGcState \<Rightarrow> PonGcState option" where
  "destroy_loop node gc =
     (case node of
        None \<Rightarrow> Some gc
      | Some a \<Rightarrow> do {
          n \<leftarrow> mem gc a;
          gc \<leftarrow> Some (case data n of
                       None \<Rightarrow> gc | Some d \<Rightarrow> gc\<lparr>released := released gc @ [d]\<rparr>);
          destroy_loop (next_all n) (gc\<lparr>mem := (mem gc)(a := None)\<rparr>)
        })"

definition pon_gc_destroy :: "PonGcState option \<Rightarrow> PonGcState option option" where
  "pon_gc_destroy g =
     (case g of
        None \<Rightarrow> Some None
      | Some gc \<Rightarrow> do {
          gc \<leftarrow> destroy_loop (nodes_head gc) gc;
          Some (Some (pon_gc_zero\<lparr>mem := mem gc, released := released gc\<rparr>))
        })"

subsection \<open>The state of a process\<close>

text \<open>
  \<open>p->pon_gc\<close> is the first argument; \<open>alloc_ok\<close> answers \<open>erts_alloc\<close>. The fresh struct is
  zeroed by \<open>pon_gc_init\<close> before use, so its content before does not matter.
\<close>

definition erts_pon_gc_state :: "PonGcState option \<Rightarrow> bool \<Rightarrow> PonGcState option" where
  "erts_pon_gc_state pgc alloc_ok =
     (case pgc of
        None \<Rightarrow> (if \<not> alloc_ok then None else pon_gc_init (Some pon_gc_zero))
      | Some gc \<Rightarrow> Some gc)"

text \<open>
  The nodes live in the heap, not in the struct that is freed here: the result is the new
  \<open>p->pon_gc\<close>, the nodes that are still allocated afterwards and the payloads handed to
  \<open>erts_free\<close>, in order.
\<close>

definition erts_pon_gc_destroy_state ::
    "PonGcState option \<Rightarrow> (PonGcState option \<times> (addr \<rightharpoonup> PonGcNode) \<times> addr list) option" where
  "erts_pon_gc_destroy_state pgc =
     (case pgc of
        None \<Rightarrow> Some (None, Map.empty, [])
      | Some gc \<Rightarrow> do {
          g \<leftarrow> pon_gc_destroy (Some gc);
          gc \<leftarrow> g;
          Some (None, mem gc, released gc)
        })"

text \<open>The hook of the process collector only counts the call; \<open>p\<close> is whether the process pointer is set.\<close>

definition erts_pon_gc_process_gc :: "bool \<Rightarrow> PonStats \<Rightarrow> PonStats" where
  "erts_pon_gc_process_gc p st =
     (if \<not> p then st else PON_STATS_INC gc_incremental_steps_update st)"

declare propagate_loop.simps [code] by_id_new_cap.simps [code] mark_loop.simps [code]
  step_loop.simps [code] sweep_loop.simps [code] reset_loop.simps [code] destroy_loop.simps [code]

end
