(* ===== verification/PonGcMark.thy ===== *)
theory PonGcMark
  imports PonGc
begin

text \<open>
  Correctness of the mark phase. The pointer queue of grey nodes is related to a list, marking
  is described by how the colour of each address changes, and everything else of a node (its
  \<^emph>\<open>shape\<close>) and of the state is shown to be left alone. The main lemma says that the mark loop
  returns and blackens exactly the nodes reachable from the roots.
\<close>

subsection \<open>Views of the heap\<close>

definition colors :: "PonGcState \<Rightarrow> addr \<Rightarrow> u8 option" where
  "colors gc a = map_option color (mem gc a)"

definition shape :: "PonGcState \<Rightarrow> addr \<Rightarrow> PonGcNode option" where
  "shape gc a = map_option (\<lambda>n. n\<lparr>color := 0, next_gray := None\<rparr>) (mem gc a)"

definition frame :: "PonGcState \<Rightarrow> PonGcState" where
  "frame gc = gc\<lparr>mem := Map.empty, gray_head := None, gray_tail := None, gray_count := 0,
                 live_nodes := 0, notifications_sent := 0, scan_count := 0\<rparr>"

definition out_refs :: "PonGcNode \<Rightarrow> ptr list" where
  "out_refs n = (case refs n of None \<Rightarrow> [] | Some arr \<Rightarrow> take (unat (num_refs n)) arr)"

definition node_ok :: "addr set \<Rightarrow> PonGcNode \<Rightarrow> bool" where
  "node_ok D n \<longleftrightarrow>
     (case refs n of
        None \<Rightarrow> num_refs n = 0 \<and> refs_cap n = 0
      | Some arr \<Rightarrow> length arr = unat (refs_cap n) \<and> num_refs n \<le> refs_cap n) \<and>
     set (out_refs n) \<subseteq> Some ` D"

definition graph_ok :: "PonGcState \<Rightarrow> bool" where
  "graph_ok gc \<longleftrightarrow> (\<forall>a n. mem gc a = Some n \<longrightarrow> node_ok (dom (mem gc)) n)"

definition edges :: "PonGcState \<Rightarrow> (addr \<times> addr) set" where
  "edges gc = {(a, b). \<exists>n. mem gc a = Some n \<and> Some b \<in> set (out_refs n)}"

definition root_ptrs :: "PonGcState \<Rightarrow> ptr list" where
  "root_ptrs gc = (case roots gc of None \<Rightarrow> [] | Some arr \<Rightarrow> take (nat (num_roots gc)) arr)"

definition roots_ok :: "PonGcState \<Rightarrow> bool" where
  "roots_ok gc \<longleftrightarrow>
     (case roots gc of
        None \<Rightarrow> num_roots gc = 0 \<and> roots_cap gc = 0
      | Some arr \<Rightarrow> int (length arr) = roots_cap gc \<and> 0 \<le> num_roots gc \<and> num_roots gc \<le> roots_cap gc) \<and>
     set (root_ptrs gc) \<subseteq> Some ` dom (mem gc)"

definition root_set :: "PonGcState \<Rightarrow> addr set" where
  "root_set gc = {a. Some a \<in> set (root_ptrs gc)}"

definition reachable :: "PonGcState \<Rightarrow> addr set" where
  "reachable gc = (edges gc)\<^sup>* `` root_set gc"

lemma colors_upd_node:
  "upd_node a f gc = Some gc' \<Longrightarrow>
     colors gc' = (colors gc)(a := map_option (\<lambda>n. color (f n)) (mem gc a))"
  by (auto simp: upd_node_def colors_def split: option.splits)

lemma shape_cong_refs:
  assumes "shape gc = shape gc'" and "mem gc a = Some n"
  obtains n' where "mem gc' a = Some n'" "out_refs n' = out_refs n" "refs n' = refs n"
    "num_refs n' = num_refs n" "refs_cap n' = refs_cap n" "prev_all n' = prev_all n"
    "next_all n' = next_all n" "data n' = data n" "data_size n' = data_size n"
    "node_id n' = node_id n"
proof -
  from assms have "shape gc' a = Some (n\<lparr>color := 0, next_gray := None\<rparr>)"
    by (metis shape_def option.simps(9))
  then obtain n' where n': "mem gc' a = Some n'"
    "n'\<lparr>color := 0, next_gray := None\<rparr> = n\<lparr>color := 0, next_gray := None\<rparr>"
    by (auto simp: shape_def)
  from n'(2) have "PonGcNode.more n' = PonGcNode.more n \<and> num_refs n' = num_refs n \<and>
      refs_cap n' = refs_cap n \<and> refs n' = refs n \<and> prev_all n' = prev_all n \<and>
      next_all n' = next_all n \<and> data n' = data n \<and> data_size n' = data_size n \<and>
      node_id n' = node_id n"
    by (cases n; cases n') simp
  then show thesis using n'(1) by (intro that [of n']) (simp_all add: out_refs_def split: option.split)
qed

lemma shape_dom: "shape gc = shape gc' \<Longrightarrow> dom (mem gc) = dom (mem gc')"
proof -
  have "dom (mem gc) = {a. shape gc a \<noteq> None}" for gc
    by (auto simp: shape_def)
  then show "shape gc = shape gc' \<Longrightarrow> dom (mem gc) = dom (mem gc')" by simp
qed

lemma shape_edges: "shape gc = shape gc' \<Longrightarrow> edges gc = edges gc'"
proof -
  have "edges gc \<subseteq> edges gc'" if "shape gc = shape gc'" for gc gc'
    using that by (fastforce simp: edges_def elim: shape_cong_refs)
  then show "shape gc = shape gc' \<Longrightarrow> edges gc = edges gc'" by (metis subset_antisym)
qed

lemma shape_graph_ok:
  assumes "shape gc = shape gc'" and "graph_ok gc"
  shows "graph_ok gc'"
  unfolding graph_ok_def
proof (intro allI impI)
  fix a n' assume n': "mem gc' a = Some n'"
  obtain n where n: "mem gc a = Some n" "out_refs n = out_refs n'" "refs n = refs n'"
    "num_refs n = num_refs n'" "refs_cap n = refs_cap n'"
    using shape_cong_refs [OF assms(1) [symmetric] n'] .
  with assms(2) have "node_ok (dom (mem gc)) n" by (simp add: graph_ok_def)
  with n shape_dom [OF assms(1)] show "node_ok (dom (mem gc')) n'"
    by (simp add: node_ok_def split: option.splits)
qed

lemma colors_dom: "colors gc a = None \<longleftrightarrow> a \<notin> dom (mem gc)"
  by (auto simp: colors_def)

lemma frame_fields:
  assumes "frame gc = frame gc'"
  shows "roots gc = roots gc'"
    "num_roots gc = num_roots gc'"
    "roots_cap gc = roots_cap gc'"
    "nodes_head gc = nodes_head gc'"
    "nodes_tail gc = nodes_tail gc'"
    "total_nodes gc = total_nodes gc'"
    "by_id gc = by_id gc'"
    "by_id_cap gc = by_id_cap gc'"
    "next_id gc = next_id gc'"
    "dead_nodes gc = dead_nodes gc'"
    "bytes_freed gc = bytes_freed gc'"
    "cycles gc = cycles gc'"
    "released gc = released gc'"
  using arg_cong [OF assms, of roots]
    arg_cong [OF assms, of num_roots]
    arg_cong [OF assms, of roots_cap]
    arg_cong [OF assms, of nodes_head]
    arg_cong [OF assms, of nodes_tail]
    arg_cong [OF assms, of total_nodes]
    arg_cong [OF assms, of by_id]
    arg_cong [OF assms, of by_id_cap]
    arg_cong [OF assms, of next_id]
    arg_cong [OF assms, of dead_nodes]
    arg_cong [OF assms, of bytes_freed]
    arg_cong [OF assms, of cycles]
    arg_cong [OF assms, of released]
  by (simp_all add: frame_def)

lemma frame_cycles: "frame (gc\<lparr>cycles := c\<rparr>) = (frame gc)\<lparr>cycles := c\<rparr>"
  by (simp add: frame_def)

lemma frame_roots:
  assumes "frame gc = frame gc'"
  shows "root_ptrs gc = root_ptrs gc'" and "root_set gc = root_set gc'"
  using frame_fields [OF assms] by (simp_all add: root_ptrs_def root_set_def split: option.split)

subsection \<open>The grey queue as a list\<close>

fun gray_path :: "(addr \<rightharpoonup> PonGcNode) \<Rightarrow> ptr \<Rightarrow> addr list \<Rightarrow> bool" where
  "gray_path m p [] \<longleftrightarrow> p = None"
| "gray_path m p (a # as) \<longleftrightarrow>
     p = Some a \<and> (case m a of None \<Rightarrow> False | Some n \<Rightarrow> gray_path m (next_gray n) as)"

definition gray_queue :: "PonGcState \<Rightarrow> addr list \<Rightarrow> bool" where
  "gray_queue gc gs \<longleftrightarrow>
     gray_path (mem gc) (gray_head gc) gs \<and> distinct gs \<and>
     gray_tail gc = (if gs = [] then None else Some (last gs)) \<and>
     gray_count gc = int (length gs)"

lemma gray_path_other: "a \<notin> set gs \<Longrightarrow> gray_path (m(a := v)) p gs = gray_path m p gs"
  by (induction gs arbitrary: p) (auto split: option.splits)

lemma gray_path_same_next:
  "m a = Some n \<Longrightarrow> next_gray n' = next_gray n \<Longrightarrow> gray_path (m(a \<mapsto> n')) p gs = gray_path m p gs"
  by (induction gs arbitrary: p) (auto split: option.splits)

lemma gray_path_dom: "gray_path m p gs \<Longrightarrow> set gs \<subseteq> dom m"
  by (induction gs arbitrary: p) (auto split: option.splits)

lemma gray_path_snoc:
  assumes "gray_path m p (gs @ [t])" and "distinct (gs @ [t])" and "a \<notin> set (gs @ [t])"
    and "m a = Some n" and "next_gray n = None" and "m t = Some nt"
  shows "gray_path (m(t \<mapsto> nt\<lparr>next_gray := Some a\<rparr>)) p (gs @ [t, a])"
  using assms
proof (induction gs arbitrary: p)
  case Nil
  then show ?case by simp
next
  case (Cons g gs)
  then show ?case by (auto split: option.splits)
qed

lemma enqueue_gray_white:
  assumes q: "gray_queue gc gs" and a: "mem gc a = Some n" "color n = PON_GC_WHITE" "a \<notin> set gs"
  obtains gc' where "enqueue_gray gc (Some a) = Some gc'" "gray_queue gc' (gs @ [a])"
    "colors gc' = (colors gc)(a \<mapsto> PON_GC_GRAY)" "shape gc' = shape gc" "frame gc' = frame gc"
    "live_nodes gc' = live_nodes gc + 1" "notifications_sent gc' = notifications_sent gc"
    "scan_count gc' = scan_count gc"
proof -
  let ?n = "n\<lparr>color := PON_GC_GRAY, next_gray := None\<rparr>"
  let ?m = "(mem gc)(a \<mapsto> ?n)"
  show thesis
  proof (cases "gs = []")
    case True
    let ?gc = "gc\<lparr>mem := ?m, live_nodes := live_nodes gc + 1, gray_head := Some a,
                  gray_tail := Some a, gray_count := gray_count gc + 1\<rparr>"
    from True q have "gray_tail gc = None" "gray_head gc = None" "gray_count gc = 0"
      by (simp_all add: gray_queue_def)
    with a True show thesis
      by (intro that [of ?gc])
        (auto simp: enqueue_gray_def upd_node_def gray_queue_def colors_def shape_def frame_def)
  next
    case False
    then obtain hs t where gs: "gs = hs @ [t]" by (metis rev_exhaust)
    from q have path: "gray_path (mem gc) (gray_head gc) gs" and tail: "gray_tail gc = Some t"
      by (simp_all add: gray_queue_def gs)
    from gray_path_dom [OF path] obtain nt where nt: "mem gc t = Some nt" by (auto simp: gs)
    have t: "t \<noteq> a" using a(3) gs by auto
    let ?m' = "?m(t \<mapsto> nt\<lparr>next_gray := Some a\<rparr>)"
    let ?gc = "gc\<lparr>mem := ?m', live_nodes := live_nodes gc + 1, gray_tail := Some a,
                  gray_count := gray_count gc + 1\<rparr>"
    have "gray_path ?m (gray_head gc) (hs @ [t])"
      using path a(3) by (simp add: gs gray_path_other)
    then have "gray_path ?m' (gray_head gc) (hs @ [t, a])"
      using gray_path_snoc [of ?m "gray_head gc" hs t a ?n nt] q a(3) t nt
      by (simp add: gray_queue_def gs)
    then have "gray_queue ?gc (gs @ [a])" using q a(3) by (auto simp: gray_queue_def gs)
    moreover have "enqueue_gray gc (Some a) = Some ?gc"
      using a tail nt t by (simp add: enqueue_gray_def upd_node_def)
    ultimately show thesis using a nt t
      by (intro that [of ?gc]) (auto simp: colors_def shape_def frame_def fun_eq_iff)
  qed
qed

lemma enqueue_gray_skip:
  "mem gc a = Some n \<Longrightarrow> color n \<noteq> PON_GC_WHITE \<Longrightarrow> enqueue_gray gc (Some a) = Some gc"
  by (simp add: enqueue_gray_def)

lemma dequeue_gray_Cons:
  assumes q: "gray_queue gc (a # gs)"
  obtains gc' where "dequeue_gray gc = Some (Some a, gc')" "gray_queue gc' gs"
    "colors gc' = colors gc" "shape gc' = shape gc" "frame gc' = frame gc"
    "live_nodes gc' = live_nodes gc" "notifications_sent gc' = notifications_sent gc"
    "scan_count gc' = scan_count gc"
proof -
  from q obtain n where n: "mem gc a = Some n" "gray_path (mem gc) (next_gray n) gs" "a \<notin> set gs"
    by (auto simp: gray_queue_def split: option.splits)
  let ?m = "(mem gc)(a \<mapsto> n\<lparr>next_gray := None\<rparr>)"
  let ?gc = "gc\<lparr>gray_head := next_gray n,
                gray_tail := (if next_gray n = None then None else gray_tail gc),
                mem := ?m, gray_count := gray_count gc - 1\<rparr>"
  have "dequeue_gray gc = Some (Some a, ?gc)"
    using q n(1) by (simp add: dequeue_gray_def gray_queue_def upd_node_def)
  moreover have "gray_queue ?gc gs"
  proof -
    have "next_gray n = None \<longleftrightarrow> gs = []" using n(2) by (cases gs) auto
    moreover have "gray_path ?m (next_gray n) gs" using n by (simp add: gray_path_other)
    ultimately show ?thesis using q by (auto simp: gray_queue_def)
  qed
  ultimately show thesis using n(1)
    by (intro that [of ?gc]) (auto simp: colors_def shape_def frame_def fun_eq_iff)
qed

subsection \<open>Propagation\<close>

lemma graph_okD: "graph_ok gc \<Longrightarrow> mem gc a = Some n \<Longrightarrow> node_ok (dom (mem gc)) n"
  by (simp add: graph_ok_def)

lemma node_ok_length: "node_ok D n \<Longrightarrow> length (out_refs n) = unat (num_refs n)"
  by (auto simp: node_ok_def out_refs_def word_le_nat_alt split: option.splits)

lemma node_ok_load:
  assumes "node_ok D n" and "i < unat (num_refs n)"
  obtains b where "load (refs n) i = Some (Some b)" "out_refs n ! i = Some b" "b \<in> D"
proof -
  have len: "i < length (out_refs n)" using assms by (simp add: node_ok_length)
  then have "out_refs n ! i \<in> Some ` D"
    using assms(1) nth_mem by (auto simp: node_ok_def)
  then obtain b where b: "out_refs n ! i = Some b" "b \<in> D" by blast
  from assms obtain arr where "refs n = Some arr" "i < length arr" "arr ! i = out_refs n ! i"
    using len by (auto simp: node_ok_def out_refs_def split: option.splits)
  with b show thesis by (intro that [of b]) (simp_all add: load_def arr_get_def)
qed

definition marks :: "addr list \<Rightarrow> (addr \<Rightarrow> u8 option) \<Rightarrow> addr \<Rightarrow> u8 option" where
  "marks new C b = (if b \<in> set new then Some PON_GC_GRAY else C b)"

lemma white_ne [simp]:
  "PON_GC_WHITE \<noteq> PON_GC_GRAY" "PON_GC_GRAY \<noteq> PON_GC_WHITE"
  "PON_GC_WHITE \<noteq> PON_GC_BLACK" "PON_GC_BLACK \<noteq> PON_GC_WHITE"
  "PON_GC_GRAY \<noteq> PON_GC_BLACK" "PON_GC_BLACK \<noteq> PON_GC_GRAY"
  by (simp_all add: PON_GC_WHITE_def PON_GC_GRAY_def PON_GC_BLACK_def)

text \<open>
  What a piece of marking does: it appends \<open>new\<close> to the queue, turns those nodes grey and
  counts them as live; shapes, the rest of the state and the other counters stay.
\<close>

definition notifies :: "PonGcState \<Rightarrow> addr list \<Rightarrow> addr list \<Rightarrow> PonGcState \<Rightarrow> bool" where
  "notifies gc gs new gc' \<longleftrightarrow>
     gray_queue gc' (gs @ new) \<and> distinct new \<and> colors gc' = marks new (colors gc) \<and>
     shape gc' = shape gc \<and> frame gc' = frame gc \<and>
     live_nodes gc' = live_nodes gc + of_nat (length new) \<and>
     notifications_sent gc' = notifications_sent gc \<and> scan_count gc' = scan_count gc"

lemma notifies_none: "gray_queue gc gs \<Longrightarrow> notifies gc gs [] gc"
  by (simp add: notifies_def marks_def fun_eq_iff)

lemma notifies_trans:
  assumes "notifies gc gs xs gc1" and "notifies gc1 (gs @ xs) ys gc2" and "set xs \<inter> set ys = {}"
  shows "notifies gc gs (xs @ ys) gc2"
  using assms by (auto simp: notifies_def marks_def fun_eq_iff)

lemma enqueue_gray_notifies:
  assumes q: "gray_queue gc gs" and gray: "\<forall>x \<in> set gs. colors gc x = Some PON_GC_GRAY"
    and a: "colors gc a = Some PON_GC_WHITE"
  obtains gc' where "enqueue_gray gc (Some a) = Some gc'" "notifies gc gs [a] gc'"
proof -
  from a obtain n where n: "mem gc a = Some n" "color n = PON_GC_WHITE"
    by (auto simp: colors_def)
  have "a \<notin> set gs" using gray a by auto
  from enqueue_gray_white [OF q n this] obtain gc' where
    "enqueue_gray gc (Some a) = Some gc'" "gray_queue gc' (gs @ [a])"
    "colors gc' = (colors gc)(a \<mapsto> PON_GC_GRAY)" "shape gc' = shape gc" "frame gc' = frame gc"
    "live_nodes gc' = live_nodes gc + 1" "notifications_sent gc' = notifications_sent gc"
    "scan_count gc' = scan_count gc" .
  then show thesis by (intro that [of gc']) (auto simp: notifies_def marks_def fun_eq_iff)
qed

lemma propagate_loop_notifies:
  assumes "graph_ok gc" and "mem gc a = Some n" and "gray_queue gc gs"
    and "\<forall>x \<in> set gs. colors gc x = Some PON_GC_GRAY" and "i \<le> unat (num_refs n)"
  shows "\<exists>gc' new. propagate_loop a i sent gc = Some (sent + int (length new), gc') \<and>
           notifies gc gs new gc' \<and>
           set new = {b. Some b \<in> set (drop i (out_refs n)) \<and> colors gc b = Some PON_GC_WHITE}"
  using assms
proof (induction "unat (num_refs n) - i" arbitrary: i sent gc gs n)
  case 0
  then have "i = unat (num_refs n)" "length (out_refs n) = i"
    using node_ok_length [OF graph_okD [OF 0(2,3)]] by simp_all
  with 0 show ?case
    by (intro exI [of _ gc] exI [of _ "[]"])
      (simp add: propagate_loop.simps [of a "unat (num_refs n)"] notifies_none)
next
  case (Suc k)
  then have ok: "node_ok (dom (mem gc)) n" by (auto simp: graph_ok_def)
  have i: "i < unat (num_refs n)" using Suc.hyps(2) by simp
  obtain b where b: "load (refs n) i = Some (Some b)" "out_refs n ! i = Some b" "b \<in> dom (mem gc)"
    using node_ok_load [OF ok i] .
  then obtain bn where bn: "mem gc b = Some bn" by auto
  have drop: "drop i (out_refs n) = Some b # drop (Suc i) (out_refs n)"
    using i b(2) node_ok_length [OF ok] by (metis Cons_nth_drop_Suc)
  have k: "k = unat (num_refs n) - Suc i" and le: "Suc i \<le> unat (num_refs n)"
    using Suc.hyps(2) i by simp_all
  show ?case
  proof (cases "colors gc b = Some PON_GC_WHITE")
    case False
    from Suc.hyps(1) [OF k Suc.prems(1-4) le, of sent] obtain gc' new where
      r: "propagate_loop a (Suc i) sent gc = Some (sent + int (length new), gc')"
      "notifies gc gs new gc'"
      "set new = {x. Some x \<in> set (drop (Suc i) (out_refs n)) \<and> colors gc x = Some PON_GC_WHITE}"
      by blast
    have "propagate_loop a i sent gc = propagate_loop a (Suc i) sent gc"
      using Suc.prems(2) i b(1) bn False
      by (simp add: propagate_loop.simps [of a i] colors_def)
    with r False show ?thesis by (intro exI [of _ gc'] exI [of _ new]) (auto simp: drop)
  next
    case True
    from enqueue_gray_notifies [OF Suc.prems(3,4) True] obtain gc1 where
      gc1: "enqueue_gray gc (Some b) = Some gc1" "notifies gc gs [b] gc1" .
    then have sh: "shape gc = shape gc1" and q1: "gray_queue gc1 (gs @ [b])"
      and c1: "colors gc1 = marks [b] (colors gc)" by (simp_all add: notifies_def)
    obtain n1 where n1: "mem gc1 a = Some n1" "out_refs n1 = out_refs n" "num_refs n1 = num_refs n"
      using shape_cong_refs [OF sh Suc.prems(2)] .
    have g1: "\<forall>x \<in> set (gs @ [b]). colors gc1 x = Some PON_GC_GRAY"
      using Suc.prems(4) by (auto simp: c1 marks_def)
    from Suc.hyps(1) [OF k [folded n1(3)] shape_graph_ok [OF sh Suc.prems(1)] n1(1) q1 g1
        le [folded n1(3)], of "sent + 1"]
    obtain gc' new where r: "propagate_loop a (Suc i) (sent + 1) gc1 = Some (sent + 1 + int (length new), gc')"
      "notifies gc1 (gs @ [b]) new gc'"
      "set new = {x. Some x \<in> set (drop (Suc i) (out_refs n)) \<and> colors gc1 x = Some PON_GC_WHITE}"
      by (auto simp: n1)
    have "propagate_loop a i sent gc = propagate_loop a (Suc i) (sent + 1) gc1"
      using Suc.prems(2) i b(1) bn True gc1(1)
      by (simp add: propagate_loop.simps [of a i] colors_def)
    moreover have "notifies gc gs ([b] @ new) gc'"
      using gc1(2) r(2,3) by (intro notifies_trans) (auto simp: c1 marks_def)
    moreover have "set ([b] @ new) = {x. Some x \<in> set (drop i (out_refs n)) \<and> colors gc x = Some PON_GC_WHITE}"
      using r(3) True by (auto simp: drop c1 marks_def split: if_splits)
    ultimately show ?thesis using r(1)
      by (intro exI [of _ gc'] exI [of _ "[b] @ new"]) simp
  qed
qed

lemma edges_iff: "mem gc a = Some n \<Longrightarrow> (a, b) \<in> edges gc \<longleftrightarrow> Some b \<in> set (out_refs n)"
  by (simp add: edges_def)

lemma mark_iteration:
  assumes ok: "graph_ok gc" and q: "gray_queue gc (a # gs)"
    and gray: "\<forall>x \<in> set (a # gs). colors gc x = Some PON_GC_GRAY"
  obtains gc1 gc' new where "dequeue_gray gc = Some (Some a, gc1)"
    "propagate gc1 a = Some (int (length new), gc')" "gray_queue gc' (gs @ new)" "distinct new"
    "set new = {b. (a, b) \<in> edges gc \<and> colors gc b = Some PON_GC_WHITE}"
    "colors gc' = (marks new (colors gc))(a \<mapsto> PON_GC_BLACK)"
    "shape gc' = shape gc" "frame gc' = frame gc"
    "live_nodes gc' = live_nodes gc + of_nat (length new)"
    "notifications_sent gc' = notifications_sent gc + of_nat (length new)"
    "scan_count gc' = scan_count gc + 1"
proof -
  obtain gc1 where gc1: "dequeue_gray gc = Some (Some a, gc1)" "gray_queue gc1 gs"
    "colors gc1 = colors gc" "shape gc1 = shape gc" "frame gc1 = frame gc"
    "live_nodes gc1 = live_nodes gc" "notifications_sent gc1 = notifications_sent gc"
    "scan_count gc1 = scan_count gc" using dequeue_gray_Cons [OF q] .
  from gray obtain n0 where "mem gc a = Some n0" by (auto simp: colors_def)
  then obtain n where n: "mem gc1 a = Some n" using shape_dom [OF gc1(4)] by blast
  from gray have g1: "\<forall>x \<in> set gs. colors gc1 x = Some PON_GC_GRAY" by (simp add: gc1(3))
  from propagate_loop_notifies [OF shape_graph_ok [OF gc1(4) [symmetric] ok] n gc1(2) g1, of 0 0]
  obtain gc2 new where p: "propagate_loop a 0 0 gc1 = Some (int (length new), gc2)"
    "notifies gc1 gs new gc2"
    "set new = {b. Some b \<in> set (out_refs n) \<and> colors gc1 b = Some PON_GC_WHITE}"
    by auto
  have sh2: "shape gc2 = shape gc1" using p(2) by (simp add: notifies_def)
  then obtain n2 where n2: "mem gc2 a = Some n2" using n shape_dom by blast
  let ?gc = "gc2\<lparr>mem := (mem gc2)(a \<mapsto> n2\<lparr>color := PON_GC_BLACK\<rparr>),
     notifications_sent := notifications_sent gc2 + of_nat (length new),
     scan_count := scan_count gc2 + 1\<rparr>"
  have "propagate gc1 a = Some (int (length new), ?gc)"
    using p(1) n2 by (simp add: propagate_def upd_node_def)
  moreover have "gray_queue ?gc (gs @ new)"
    using p(2) n2 by (simp add: notifies_def gray_queue_def gray_path_same_next)
  moreover have "set new = {b. (a, b) \<in> edges gc \<and> colors gc b = Some PON_GC_WHITE}"
    using p(3) shape_edges [OF gc1(4)] gc1(3) edges_iff [OF n] by simp
  moreover have "colors ?gc = (marks new (colors gc))(a \<mapsto> PON_GC_BLACK)"
    using p(2) gc1(3) by (auto simp: notifies_def colors_def fun_eq_iff)
  moreover have "shape ?gc = shape gc"
    unfolding gc1(4) [symmetric] sh2 [symmetric] using n2 by (auto simp: shape_def)
  moreover have "frame ?gc = frame gc"
    using p(2) gc1(5) by (simp add: notifies_def frame_def)
  ultimately show thesis
    using gc1 p(2) by (intro that [of gc1 new ?gc]) (simp_all add: notifies_def)
qed

subsection \<open>The mark loop\<close>

definition black :: "PonGcState \<Rightarrow> addr set" where
  "black gc = {a. colors gc a = Some PON_GC_BLACK}"

definition marked :: "PonGcState \<Rightarrow> addr set" where
  "marked gc = {a. colors gc a = Some PON_GC_GRAY} \<union> black gc"

text \<open>
  The tri-colour invariant, for a set \<open>S\<close> the marking starts from: the queue holds exactly the
  grey nodes, no black node points to a white one, \<open>S\<close> is marked and only nodes reachable from
  \<open>S\<close> are.
\<close>

definition mark_inv :: "addr set \<Rightarrow> PonGcState \<Rightarrow> addr list \<Rightarrow> bool" where
  "mark_inv S gc gs \<longleftrightarrow>
     graph_ok gc \<and> gray_queue gc gs \<and>
     {x. colors gc x = Some PON_GC_GRAY} = set gs \<and>
     (\<forall>x c. colors gc x = Some c \<longrightarrow> c \<in> {PON_GC_WHITE, PON_GC_GRAY, PON_GC_BLACK}) \<and>
     S \<subseteq> marked gc \<and> marked gc \<subseteq> (edges gc)\<^sup>* `` S \<and>
     (\<forall>a b. a \<in> black gc \<longrightarrow> (a, b) \<in> edges gc \<longrightarrow> b \<in> marked gc)"

text \<open>What marking never changes: the graph, the frame and the balance of the counters.\<close>

definition mark_kept :: "PonGcState \<Rightarrow> PonGcState \<Rightarrow> bool" where
  "mark_kept gc gc' \<longleftrightarrow>
     shape gc' = shape gc \<and> frame gc' = frame gc \<and>
     live_nodes gc' - of_nat (card (marked gc')) = live_nodes gc - of_nat (card (marked gc)) \<and>
     notifications_sent gc' - of_nat (card (marked gc')) =
       notifications_sent gc - of_nat (card (marked gc)) \<and>
     scan_count gc' - of_nat (card (black gc')) = scan_count gc - of_nat (card (black gc))"

lemma mark_kept_refl: "mark_kept gc gc"
  by (simp add: mark_kept_def)

lemma mark_kept_trans: "mark_kept gc gc1 \<Longrightarrow> mark_kept gc1 gc2 \<Longrightarrow> mark_kept gc gc2"
  by (simp add: mark_kept_def)

lemma marked_dom: "marked gc \<subseteq> dom (mem gc)" "black gc \<subseteq> dom (mem gc)"
  by (auto simp: marked_def black_def colors_def)

lemma edges_dom: "graph_ok gc \<Longrightarrow> (a, b) \<in> edges gc \<Longrightarrow> a \<in> dom (mem gc) \<and> b \<in> dom (mem gc)"
  by (auto simp: edges_def graph_ok_def node_ok_def)

lemma mark_inv_step:
  assumes inv: "mark_inv S gc (a # gs)" and fin: "finite (dom (mem gc))"
  obtains gc1 gc' new where "dequeue_gray gc = Some (Some a, gc1)"
    "propagate gc1 a = Some (int (length new), gc')" "mark_inv S gc' (gs @ new)"
    "mark_kept gc gc'" "black gc' = insert a (black gc)" "a \<notin> black gc"
proof -
  have ok: "graph_ok gc" and q: "gray_queue gc (a # gs)"
    and gray: "{x. colors gc x = Some PON_GC_GRAY} = insert a (set gs)"
    and tri: "\<And>x y. x \<in> black gc \<Longrightarrow> (x, y) \<in> edges gc \<Longrightarrow> y \<in> marked gc"
    and dom_col: "\<And>x c. colors gc x = Some c \<Longrightarrow> c \<in> {PON_GC_WHITE, PON_GC_GRAY, PON_GC_BLACK}"
    and S: "S \<subseteq> marked gc" "marked gc \<subseteq> (edges gc)\<^sup>* `` S"
    using inv by (auto simp: mark_inv_def)
  have notin: "a \<notin> set gs" using q by (simp add: gray_queue_def)
  from gray have g: "\<forall>x \<in> set (a # gs). colors gc x = Some PON_GC_GRAY" by auto
  obtain gc1 gc' new where it: "dequeue_gray gc = Some (Some a, gc1)"
    "propagate gc1 a = Some (int (length new), gc')" "gray_queue gc' (gs @ new)" "distinct new"
    "set new = {b. (a, b) \<in> edges gc \<and> colors gc b = Some PON_GC_WHITE}"
    "colors gc' = (marks new (colors gc))(a \<mapsto> PON_GC_BLACK)"
    "shape gc' = shape gc" "frame gc' = frame gc"
    "live_nodes gc' = live_nodes gc + of_nat (length new)"
    "notifications_sent gc' = notifications_sent gc + of_nat (length new)"
    "scan_count gc' = scan_count gc + 1" using mark_iteration [OF ok q g] .
  have a: "colors gc a = Some PON_GC_GRAY" "a \<notin> set new" using g it(5) by auto
  have bl: "black gc' = insert a (black gc)" and na: "a \<notin> black gc"
    using it(5,6) a by (auto simp: black_def marks_def)
  have mk: "marked gc' = marked gc \<union> set new"
    using it(6) a bl by (auto simp: marked_def black_def marks_def)
  have disj: "marked gc \<inter> set new = {}" using it(5) by (auto simp: marked_def black_def)
  note E = shape_edges [OF it(7)]
  have "set new \<subseteq> (edges gc)\<^sup>* `` S"
  proof
    fix b assume "b \<in> set new"
    then have "(a, b) \<in> edges gc" using it(5) by simp
    moreover have "a \<in> (edges gc)\<^sup>* `` S" using S(2) a(1) by (auto simp: marked_def)
    ultimately show "b \<in> (edges gc)\<^sup>* `` S" by (auto intro: rtrancl_into_rtrancl)
  qed
  moreover have "b \<in> marked gc'" if "x \<in> black gc'" "(x, b) \<in> edges gc'" for x b
  proof (cases "x = a")
    case True
    with that(2) have e: "(a, b) \<in> edges gc" by (simp add: E)
    from edges_dom [OF ok e] obtain c where "colors gc b = Some c" by (auto simp: colors_def)
    with e show ?thesis
      unfolding mk using dom_col [of b c] it(5) by (auto simp: marked_def black_def)
  next
    case False
    with that tri show ?thesis by (auto simp: bl mk E)
  qed
  moreover have "{x. colors gc' x = Some PON_GC_GRAY} = set (gs @ new)"
    using it(6) a notin gray by (auto simp: marks_def split: if_splits)
  moreover have "\<forall>x c. colors gc' x = Some c \<longrightarrow> c \<in> {PON_GC_WHITE, PON_GC_GRAY, PON_GC_BLACK}"
    using it(6) dom_col by (auto simp: marks_def split: if_splits)
  ultimately have "mark_inv S gc' (gs @ new)"
    using it(3) S shape_graph_ok [OF it(7) [symmetric] ok] by (auto simp: mark_inv_def mk E)
  moreover have "mark_kept gc gc'"
  proof -
    have f: "finite (marked gc)" "finite (black gc)"
      using fin marked_dom by (meson finite_subset)+
    have "card (marked gc') = card (marked gc) + length new"
      using f(1) disj it(4) by (simp add: mk card_Un_disjoint distinct_card)
    moreover have "card (black gc') = card (black gc) + 1" using f(2) na by (simp add: bl)
    ultimately show ?thesis using it by (simp add: mark_kept_def)
  qed
  ultimately show thesis using it(1,2) bl na by (intro that)
qed

lemma mark_loop_total:
  assumes "mark_inv S gc gs" and "finite (dom (mem gc))"
  shows "\<exists>gc'. mark_loop gc = Some gc' \<and> mark_inv S gc' [] \<and> mark_kept gc gc'"
  using assms
proof (induction "card (dom (mem gc) - black gc)" arbitrary: gc gs rule: less_induct)
  case less
  show ?case
  proof (cases gs)
    case Nil
    with less.prems(1) have "gray_head gc = None" by (simp add: mark_inv_def gray_queue_def)
    with less.prems(1) Nil show ?thesis
      by (intro exI [of _ gc]) (simp add: mark_loop.simps mark_kept_refl)
  next
    case (Cons a gs')
    from less.prems(1) have head: "gray_head gc = Some a" by (simp add: mark_inv_def gray_queue_def Cons)
    obtain gc1 gc2 new where st: "dequeue_gray gc = Some (Some a, gc1)"
      "propagate gc1 a = Some (int (length new), gc2)" "mark_inv S gc2 (gs' @ new)"
      "mark_kept gc gc2" "black gc2 = insert a (black gc)" "a \<notin> black gc"
      using mark_inv_step [OF less.prems(1) [unfolded Cons] less.prems(2)] .
    from st(4) have "shape gc2 = shape gc" by (simp add: mark_kept_def)
    note dom = shape_dom [OF this]
    have "a \<in> dom (mem gc2)" using marked_dom(2) [of gc2] st(5) by auto
    then have "dom (mem gc2) - black gc2 \<subset> dom (mem gc) - black gc"
      using st(5,6) dom by auto
    then have "card (dom (mem gc2) - black gc2) < card (dom (mem gc) - black gc)"
      using less.prems(2) by (intro psubset_card_mono) auto
    from less.hyps [OF this st(3)] less.prems(2) dom obtain gc' where
      "mark_loop gc2 = Some gc'" "mark_inv S gc' []" "mark_kept gc2 gc'" by auto
    with st head show ?thesis
      by (intro exI [of _ gc']) (auto simp: mark_loop.simps [of gc] intro: mark_kept_trans)
  qed
qed

lemma mark_inv_done:
  assumes "mark_inv S gc []"
  shows "black gc = (edges gc)\<^sup>* `` S" and "marked gc = black gc"
proof -
  have m: "marked gc = black gc" using assms by (auto simp: mark_inv_def marked_def)
  have "b \<in> black gc" if "(a, b) \<in> (edges gc)\<^sup>*" "a \<in> S" for a b
    using that
  proof (induction rule: rtrancl_induct)
    case base
    then show ?case using assms m by (auto simp: mark_inv_def)
  next
    case (step y z)
    then show ?case using assms m by (auto simp: mark_inv_def)
  qed
  then show "black gc = (edges gc)\<^sup>* `` S" using assms m by (auto simp: mark_inv_def)
  show "marked gc = black gc" by (rule m)
qed

subsection \<open>The whole mark phase\<close>

lemma roots_ok_length: "roots_ok gc \<Longrightarrow> length (root_ptrs gc) = nat (num_roots gc)"
  by (auto simp: roots_ok_def root_ptrs_def split: option.splits)

lemma roots_ok_load:
  assumes "roots_ok gc" and "i < nat (num_roots gc)"
  obtains b where "load (roots gc) i = Some (Some b)" "root_ptrs gc ! i = Some b" "b \<in> dom (mem gc)"
proof -
  have len: "i < length (root_ptrs gc)" using assms by (simp add: roots_ok_length)
  then have "root_ptrs gc ! i \<in> Some ` dom (mem gc)"
    using assms(1) nth_mem by (auto simp: roots_ok_def)
  then obtain b where b: "root_ptrs gc ! i = Some b" "b \<in> dom (mem gc)" by blast
  from assms obtain arr where "roots gc = Some arr" "i < length arr" "arr ! i = root_ptrs gc ! i"
    using len by (auto simp: roots_ok_def root_ptrs_def split: option.splits)
  with b show thesis by (intro that [of b]) (simp_all add: load_def arr_get_def)
qed

lemma roots_ok_cong:
  assumes "shape gc' = shape gc" and "frame gc' = frame gc" and "roots_ok gc"
  shows "roots_ok gc'"
  using assms(3) frame_fields(1-3) [OF assms(2)] frame_roots [OF assms(2)] shape_dom [OF assms(1)]
  by (simp add: roots_ok_def split: option.splits)

lemma mark_roots_notifies:
  assumes "roots_ok gc" and "gray_queue gc gs" and "\<forall>x \<in> set gs. colors gc x = Some PON_GC_GRAY"
    and "i + k = nat (num_roots gc)"
  shows "\<exists>gc' new. mark_roots i k gc = Some gc' \<and> notifies gc gs new gc' \<and>
           set new = {b. Some b \<in> set (drop i (root_ptrs gc)) \<and> colors gc b = Some PON_GC_WHITE}"
  using assms
proof (induction k arbitrary: i gc gs)
  case 0
  then have "drop i (root_ptrs gc) = []" by (simp add: roots_ok_length)
  with 0 show ?case
    by (intro exI [of _ gc] exI [of _ "[]"]) (simp add: notifies_none)
next
  case (Suc k)
  have i: "i < nat (num_roots gc)" using Suc.prems(4) by simp
  obtain b where b: "load (roots gc) i = Some (Some b)" "root_ptrs gc ! i = Some b"
    "b \<in> dom (mem gc)" using roots_ok_load [OF Suc.prems(1) i] .
  have drop: "drop i (root_ptrs gc) = Some b # drop (Suc i) (root_ptrs gc)"
    using i b(2) roots_ok_length [OF Suc.prems(1)] by (metis Cons_nth_drop_Suc)
  show ?case
  proof (cases "colors gc b = Some PON_GC_WHITE")
    case False
    then have "mark_roots i (Suc k) gc = mark_roots (Suc i) k gc"
      using b by (auto simp: colors_def enqueue_gray_skip)
    with Suc.IH [OF Suc.prems(1-3), of "Suc i"] Suc.prems(4) False show ?thesis
      by (auto simp: drop)
  next
    case True
    from enqueue_gray_notifies [OF Suc.prems(2,3) True] obtain gc1 where
      gc1: "enqueue_gray gc (Some b) = Some gc1" "notifies gc gs [b] gc1" .
    then have sh: "shape gc1 = shape gc" and fr: "frame gc1 = frame gc"
      and q1: "gray_queue gc1 (gs @ [b])" and c1: "colors gc1 = marks [b] (colors gc)"
      by (simp_all add: notifies_def)
    have g1: "\<forall>x \<in> set (gs @ [b]). colors gc1 x = Some PON_GC_GRAY"
      using Suc.prems(3) by (auto simp: c1 marks_def)
    have n1: "Suc i + k = nat (num_roots gc1)" using Suc.prems(4) frame_fields(2) [OF fr] by simp
    from Suc.IH [OF roots_ok_cong [OF sh fr Suc.prems(1)] q1 g1 n1, unfolded frame_roots [OF fr]]
    obtain gc' new where r: "mark_roots (Suc i) k gc1 = Some gc'"
      "notifies gc1 (gs @ [b]) new gc'"
      "set new = {x. Some x \<in> set (drop (Suc i) (root_ptrs gc)) \<and> colors gc1 x = Some PON_GC_WHITE}"
      by blast
    moreover have "notifies gc gs ([b] @ new) gc'"
      using gc1(2) r(2,3) by (intro notifies_trans) (auto simp: c1 marks_def)
    moreover have "set ([b] @ new) = {x. Some x \<in> set (drop i (root_ptrs gc)) \<and> colors gc x = Some PON_GC_WHITE}"
      using r(3) True by (auto simp: drop c1 marks_def split: if_splits)
    ultimately show ?thesis using b(1) gc1(1)
      by (intro exI [of _ gc'] exI [of _ "[b] @ new"]) simp
  qed
qed

text \<open>
  A state in which a mark may start: the graph and the roots hold live pointers, no node is grey,
  and the nodes that are already black (from an earlier mark that was not swept) are closed under
  references.
\<close>

definition markable :: "PonGcState \<Rightarrow> bool" where
  "markable gc \<longleftrightarrow>
     graph_ok gc \<and> roots_ok gc \<and> finite (dom (mem gc)) \<and> gray_queue gc [] \<and>
     (\<forall>a c. colors gc a = Some c \<longrightarrow> c = PON_GC_WHITE \<or> c = PON_GC_BLACK) \<and>
     edges gc `` black gc \<subseteq> black gc"

lemma pon_gc_mark_total:
  assumes "markable gc"
  obtains gc' where "pon_gc_mark (Some gc) = Some (live_nodes gc', Some gc')"
    "black gc' = (edges gc)\<^sup>* `` (black gc \<union> root_set gc)" "shape gc' = shape gc"
    "frame gc' = frame (gc\<lparr>cycles := cycles gc + 1\<rparr>)" "markable gc'"
    "live_nodes gc' = live_nodes gc - of_nat (card (black gc)) + of_nat (card (black gc'))"
    "scan_count gc' = scan_count gc - of_nat (card (black gc)) + of_nat (card (black gc'))"
proof -
  have ok: "graph_ok gc" and rok: "roots_ok gc" and fin: "finite (dom (mem gc))"
    and q: "gray_queue gc []" and closed: "edges gc `` black gc \<subseteq> black gc"
    and wb: "\<And>a c. colors gc a = Some c \<Longrightarrow> c = PON_GC_WHITE \<or> c = PON_GC_BLACK"
    using assms by (auto simp: markable_def)
  let ?S = "black gc \<union> root_set gc"
  from mark_roots_notifies [OF rok q, of 0 "nat (num_roots gc)"] obtain gc1 new where
    r: "mark_roots 0 (nat (num_roots gc)) gc = Some gc1" "notifies gc [] new gc1"
    "set new = {b. b \<in> root_set gc \<and> colors gc b = Some PON_GC_WHITE}"
    by (auto simp: root_set_def)
  then have sh: "shape gc1 = shape gc" and fr: "frame gc1 = frame gc"
    and q1: "gray_queue gc1 new" and dn: "distinct new" and c1: "colors gc1 = marks new (colors gc)"
    by (simp_all add: notifies_def)
  have nogray: "colors gc x \<noteq> Some PON_GC_GRAY" for x using wb by fastforce
  have bl1: "black gc1 = black gc" using r(3) by (auto simp: black_def c1 marks_def)
  have mk1: "marked gc1 = black gc \<union> set new"
    using bl1 nogray by (auto simp: marked_def c1 marks_def)
  have S: "?S = black gc \<union> set new"
  proof -
    have "x \<in> black gc \<union> set new" if "x \<in> root_set gc" for x
    proof -
      from that rok obtain n where "mem gc x = Some n"
        by (auto simp: root_set_def roots_ok_def)
      then have "colors gc x = Some (color n)" by (simp add: colors_def)
      with wb [OF this] that show ?thesis by (auto simp: r(3) black_def)
    qed
    then show ?thesis using r(3) by auto
  qed
  have "mark_inv ?S gc1 new"
    unfolding mark_inv_def
    using shape_graph_ok [OF sh [symmetric] ok] q1 wb closed nogray
    by (auto simp: S mk1 bl1 shape_edges [OF sh] c1 marks_def split: if_splits)
  from mark_loop_total [OF this] fin shape_dom [OF sh] obtain gc2 where
    l: "mark_loop gc1 = Some gc2" "mark_inv ?S gc2 []" "mark_kept gc1 gc2" by auto
  let ?gc = "gc2\<lparr>cycles := cycles gc2 + 1\<rparr>"
  have same: "colors ?gc = colors gc2" "shape ?gc = shape gc2" "black ?gc = black gc2"
    "edges ?gc = edges gc2" "marked ?gc = marked gc2"
    by (simp_all add: colors_def shape_def black_def edges_def marked_def fun_eq_iff)
  have sh2: "shape gc2 = shape gc" and fr2: "frame gc2 = frame gc"
    using l(3) sh fr by (simp_all add: mark_kept_def)
  have bl: "black gc2 = (edges gc)\<^sup>* `` ?S"
    using mark_inv_done(1) [OF l(2)] shape_edges [OF sh2] by simp
  have "black gc \<inter> set new = {}" using r(3) by (auto simp: black_def)
  then have fin_n: "card (marked gc1) = card (black gc) + length new"
    using finite_subset [OF marked_dom(2) fin] dn
    by (simp add: mk1 card_Un_disjoint distinct_card)
  have count: "live_nodes gc2 = live_nodes gc - of_nat (card (black gc)) + of_nat (card (black gc2))"
    "scan_count gc2 = scan_count gc - of_nat (card (black gc)) + of_nat (card (black gc2))"
    using l(3) r(2) fin_n mark_inv_done(2) [OF l(2)]
    by (simp_all add: mark_kept_def notifies_def bl1 algebra_simps)
  have "markable ?gc"
  proof -
    have "graph_ok ?gc" "roots_ok ?gc" "finite (dom (mem ?gc))"
      using shape_graph_ok [OF sh2 [symmetric] ok] roots_ok_cong [OF sh2 fr2 rok] fin shape_dom [OF sh2]
      by (simp_all add: graph_ok_def roots_ok_def root_ptrs_def split: option.splits)
    moreover have "edges gc2 `` black gc2 \<subseteq> black gc2"
      by (auto simp: bl shape_edges [OF sh2] intro: rtrancl_into_rtrancl)
    moreover have "gray_queue ?gc []" using l(2) by (simp add: mark_inv_def gray_queue_def)
    moreover have "c = PON_GC_WHITE \<or> c = PON_GC_BLACK" if "colors gc2 a = Some c" for a c
      using l(2) that by (fastforce simp: mark_inv_def)
    ultimately show ?thesis by (simp add: markable_def same)
  qed
  moreover have "frame ?gc = frame (gc\<lparr>cycles := cycles gc + 1\<rparr>)"
    using fr2 frame_fields(12) [OF fr2] by (simp add: frame_cycles)
  ultimately show thesis
    using r(1) l(1) bl count sh2 by (intro that [of ?gc]) (simp_all add: pon_gc_mark_def same)
qed

end
