(* ===== verification/PonGcSweep.thy ===== *)
theory PonGcSweep
  imports PonGcMark
begin

text \<open>
  The list of all nodes, the id table, and the operations that add, free and sweep nodes. The
  well-formedness of a collector state is defined here, with the lemmas that the operations of
  the interface keep it.
\<close>

subsection \<open>The list of all nodes\<close>

fun dseg :: "(addr \<rightharpoonup> PonGcNode) \<Rightarrow> ptr \<Rightarrow> ptr \<Rightarrow> addr list \<Rightarrow> ptr \<Rightarrow> bool" where
  "dseg m pr p [] q \<longleftrightarrow> p = q"
| "dseg m pr p (a # as) q \<longleftrightarrow>
     p = Some a \<and>
     (case m a of None \<Rightarrow> False | Some n \<Rightarrow> prev_all n = pr \<and> dseg m (Some a) (next_all n) as q)"

definition end_of :: "ptr \<Rightarrow> addr list \<Rightarrow> ptr" where
  "end_of pr xs = (if xs = [] then pr else Some (last xs))"

definition first_of :: "addr list \<Rightarrow> ptr" where
  "first_of xs = (case xs of [] \<Rightarrow> None | a # _ \<Rightarrow> Some a)"

definition all_nodes :: "PonGcState \<Rightarrow> addr list \<Rightarrow> bool" where
  "all_nodes gc xs \<longleftrightarrow>
     dseg (mem gc) None (nodes_head gc) xs None \<and> distinct xs \<and> set xs = dom (mem gc) \<and>
     nodes_tail gc = end_of None xs \<and> total_nodes gc = of_nat (length xs)"

lemma end_of_simps [simp]:
  "end_of pr [] = pr" "end_of pr (xs @ [a]) = Some a" "end_of pr (a # xs) = end_of (Some a) xs"
  "first_of [] = None" "first_of (a # xs) = Some a"
  by (simp_all add: end_of_def first_of_def)

lemma dseg_first: "dseg m pr p xs None \<Longrightarrow> p = first_of xs"
  by (cases xs) auto

lemma dseg_append:
  "dseg m pr p (xs @ ys) q \<longleftrightarrow> (\<exists>r. dseg m pr p xs r \<and> dseg m (end_of pr xs) r ys q)"
  by (induction xs arbitrary: pr p) (auto split: option.splits)

lemma dseg_other: "a \<notin> set xs \<Longrightarrow> dseg (m(a := v)) pr p xs q = dseg m pr p xs q"
  by (induction xs arbitrary: pr p) (auto split: option.splits)

lemma dseg_same_links:
  "m a = Some n \<Longrightarrow> prev_all n' = prev_all n \<Longrightarrow> next_all n' = next_all n \<Longrightarrow>
     dseg (m(a \<mapsto> n')) pr p xs q = dseg m pr p xs q"
  by (induction xs arbitrary: pr p) (auto split: option.splits)

lemma dseg_set_next:
  assumes "dseg m pr p (xs @ [l]) r" and "l \<notin> set xs" and "m l = Some n"
  shows "dseg (m(l \<mapsto> n\<lparr>next_all := r'\<rparr>)) pr p (xs @ [l]) r'"
  using assms by (auto simp: dseg_append dseg_other)

lemma dseg_set_prev:
  assumes "dseg m pr p (b # ys) r" and "b \<notin> set ys" and "m b = Some n"
  shows "dseg (m(b \<mapsto> n\<lparr>prev_all := pr'\<rparr>)) pr' p (b # ys) r"
  using assms by (auto simp: dseg_other)

lemma dseg_dom: "dseg m pr p xs q \<Longrightarrow> set xs \<subseteq> dom m"
  by (induction xs arbitrary: pr p) (auto split: option.splits)

lemma dseg_mid:
  assumes "dseg m pr p (xs @ a # ys) None" and "m a = Some n"
  shows "prev_all n = end_of pr xs" and "next_all n = first_of ys"
  using assms by (auto simp: dseg_append dest: dseg_first)

subsection \<open>The id table\<close>

definition idtab :: "PonGcState \<Rightarrow> nat \<Rightarrow> ptr" where
  "idtab gc i = (case by_id gc of None \<Rightarrow> None | Some arr \<Rightarrow> if i < length arr then arr ! i else None)"

definition ids_ok :: "PonGcState \<Rightarrow> bool" where
  "ids_ok gc \<longleftrightarrow>
     (case by_id gc of None \<Rightarrow> by_id_cap gc = 0 | Some arr \<Rightarrow> length arr = unat (by_id_cap gc)) \<and>
     (\<forall>i a. idtab gc i = Some a \<longleftrightarrow> (\<exists>n. mem gc a = Some n \<and> unat (node_id n) = i)) \<and>
     (\<forall>a n. mem gc a = Some n \<longrightarrow> node_id n < next_id gc)"

lemma ids_ok_cap:
  assumes "ids_ok gc" and "mem gc a = Some n"
  obtains arr where "by_id gc = Some arr" "unat (node_id n) < length arr" "node_id n < by_id_cap gc"
    "arr ! unat (node_id n) = Some a"
proof -
  from assms have "idtab gc (unat (node_id n)) = Some a" by (auto simp: ids_ok_def)
  then obtain arr where arr: "by_id gc = Some arr" "unat (node_id n) < length arr"
    "arr ! unat (node_id n) = Some a" by (auto simp: idtab_def split: option.splits if_splits)
  moreover from this assms(1) have "node_id n < by_id_cap gc"
    by (simp add: ids_ok_def word_less_nat_alt)
  ultimately show thesis by (intro that [of arr])
qed

lemma node_id_inj:
  assumes "ids_ok gc" and "mem gc a = Some n" and "mem gc b = Some m" and "node_id n = node_id m"
  shows "a = b"
  using assms by (metis ids_ok_def option.inject)

definition content :: "PonGcState \<Rightarrow> addr \<Rightarrow> PonGcNode option" where
  "content gc a = map_option (\<lambda>n. n\<lparr>prev_all := None, next_all := None\<rparr>) (mem gc a)"

definition payload_of :: "PonGcState \<Rightarrow> addr \<Rightarrow> addr list" where
  "payload_of gc a =
     (case mem gc a of None \<Rightarrow> [] | Some n \<Rightarrow> (case data n of None \<Rightarrow> [] | Some d \<Rightarrow> [d]))"

definition size_of :: "PonGcState \<Rightarrow> addr \<Rightarrow> u64" where
  "size_of gc a = (case mem gc a of None \<Rightarrow> 0 | Some n \<Rightarrow> data_size n)"

definition list_frame :: "PonGcState \<Rightarrow> PonGcState" where
  "list_frame gc = gc\<lparr>mem := Map.empty, nodes_head := None, nodes_tail := None, total_nodes := 0,
                      by_id := None, released := []\<rparr>"

lemma content_cong:
  assumes "content gc' a = content gc a" and "mem gc a = Some n"
  obtains n' where "mem gc' a = Some n'" "color n' = color n" "next_gray n' = next_gray n"
    "out_refs n' = out_refs n" "refs n' = refs n" "num_refs n' = num_refs n"
    "refs_cap n' = refs_cap n" "data n' = data n" "data_size n' = data_size n"
    "node_id n' = node_id n"
proof -
  from assms obtain n' where n': "mem gc' a = Some n'"
    "n'\<lparr>prev_all := None, next_all := None\<rparr> = n\<lparr>prev_all := None, next_all := None\<rparr>"
    by (auto simp: content_def)
  from n'(2) have "color n' = color n \<and> next_gray n' = next_gray n \<and> num_refs n' = num_refs n \<and>
      refs_cap n' = refs_cap n \<and> refs n' = refs n \<and> data n' = data n \<and>
      data_size n' = data_size n \<and> node_id n' = node_id n"
    by (cases n; cases n') simp
  then show thesis using n'(1) by (intro that [of n']) (simp_all add: out_refs_def split: option.split)
qed

lemma content_views:
  assumes "content gc' a = content gc a"
  shows "colors gc' a = colors gc a" and "payload_of gc' a = payload_of gc a"
    and "size_of gc' a = size_of gc a"
proof -
  have "colors gc' a = colors gc a \<and> payload_of gc' a = payload_of gc a \<and> size_of gc' a = size_of gc a"
  proof (cases "mem gc a")
    case None
    with assms have "mem gc' a = None" by (simp add: content_def)
    with None show ?thesis by (simp add: colors_def payload_of_def size_of_def)
  next
    case (Some n)
    obtain n' where "mem gc' a = Some n'" "color n' = color n" "data n' = data n"
      "data_size n' = data_size n" using content_cong [OF assms Some] .
    with Some show ?thesis by (simp add: colors_def payload_of_def size_of_def)
  qed
  then show "colors gc' a = colors gc a" "payload_of gc' a = payload_of gc a"
    "size_of gc' a = size_of gc a" by simp_all
qed

subsection \<open>Freeing a node\<close>

text \<open>The two link updates of \<open>pon_gc_node_free\<close>, on the heap alone.\<close>

definition unlink_mem :: "(addr \<rightharpoonup> PonGcNode) \<Rightarrow> PonGcNode \<Rightarrow> addr \<rightharpoonup> PonGcNode" where
  "unlink_mem m n =
     (let m = (case prev_all n of
                 None \<Rightarrow> m | Some p \<Rightarrow> m(p := map_option (\<lambda>k. k\<lparr>next_all := next_all n\<rparr>) (m p)))
      in (case next_all n of
            None \<Rightarrow> m | Some q \<Rightarrow> m(q := map_option (\<lambda>k. k\<lparr>prev_all := prev_all n\<rparr>) (m q))))"

lemma unlink_mem_dseg:
  assumes seg: "dseg m None h (xs @ a # ys) None" and dist: "distinct (xs @ a # ys)"
    and a: "m a = Some n"
  shows "dseg (unlink_mem m n) None (if xs = [] then next_all n else h) (xs @ ys) None"
    and "unlink_mem m n a = Some n" and "dom (unlink_mem m n) = dom m"
    and "map_option (\<lambda>k. k\<lparr>prev_all := None, next_all := None\<rparr>) (unlink_mem m n b) =
         map_option (\<lambda>k. k\<lparr>prev_all := None, next_all := None\<rparr>) (m b)"
proof -
  note mid = dseg_mid [OF seg a]
  from seg a have left: "dseg m None h xs (Some a)" and right: "dseg m (Some a) (next_all n) ys None"
    by (auto simp: dseg_append)
  have dom: "set (xs @ a # ys) \<subseteq> dom m" using dseg_dom [OF seg] .
  have disj: "a \<notin> set xs" "a \<notin> set ys" "set xs \<inter> set ys = {}" "distinct xs" "distinct ys"
    using dist by auto
  have l: "dseg (case prev_all n of None \<Rightarrow> m
             | Some p \<Rightarrow> m(p := map_option (\<lambda>k. k\<lparr>next_all := next_all n\<rparr>) (m p)))
          None (if xs = [] then next_all n else h) xs (next_all n)"
  proof (cases xs rule: rev_cases)
    case Nil
    then show ?thesis by simp
  next
    case (snoc ws l)
    then obtain k where k: "m l = Some k" using dom by auto
    show ?thesis
      using dseg_set_next [OF left [unfolded snoc] _ k, of "next_all n"] disj(4) mid(1) k
      by (simp add: snoc)
  qed
  show "dseg (unlink_mem m n) None (if xs = [] then next_all n else h) (xs @ ys) None"
  proof (cases ys)
    case Nil
    with mid l show ?thesis by (simp add: unlink_mem_def)
  next
    case (Cons b zs)
    then obtain k where k: "m b = Some k" using dom by auto
    let ?m = "case prev_all n of None \<Rightarrow> m
        | Some p \<Rightarrow> m(p := map_option (\<lambda>k. k\<lparr>next_all := next_all n\<rparr>) (m p))"
    have pb: "prev_all n \<noteq> Some b" using mid(1) disj(3) Cons
      by (auto simp: end_of_def split: if_splits)
    have other: "dseg ?m (Some a) (next_all n) ys None"
    proof (cases "prev_all n")
      case (Some p)
      then have "p \<notin> set ys" using mid(1) disj(3) by (auto simp: end_of_def split: if_splits dest: last_in_set)
      then show ?thesis using right Some by (simp add: dseg_other)
    qed (use right in simp)
    have kb: "?m b = Some k" using k pb by (auto split: option.split)
    have nb: "b \<notin> set zs" "b \<notin> set xs" using disj Cons by auto
    have r: "dseg (?m(b \<mapsto> k\<lparr>prev_all := prev_all n\<rparr>)) (prev_all n) (next_all n) ys None"
      using dseg_set_prev [OF other [unfolded Cons] nb(1) kb] Cons by simp
    have "unlink_mem m n = ?m(b \<mapsto> k\<lparr>prev_all := prev_all n\<rparr>)"
      using mid(2) Cons kb by (simp add: unlink_mem_def Let_def)
    then show ?thesis
      using l r mid(1) nb(2) by (auto simp: dseg_append dseg_other)
  qed
  have pa: "prev_all n \<noteq> Some a" and na: "next_all n \<noteq> Some a"
    using mid disj(1,2) by (auto simp: end_of_def first_of_def split: if_splits list.splits)
  then show "unlink_mem m n a = Some n"
    using a by (auto simp: unlink_mem_def Let_def split: option.split)
  show "dom (unlink_mem m n) = dom m"
    by (auto simp: unlink_mem_def Let_def split: option.splits if_splits)
  show "map_option (\<lambda>k. k\<lparr>prev_all := None, next_all := None\<rparr>) (unlink_mem m n b) =
      map_option (\<lambda>k. k\<lparr>prev_all := None, next_all := None\<rparr>) (m b)"
    by (auto simp: unlink_mem_def Let_def option.map_comp comp_def split: option.split)
qed

lemma content_mem: "content gc a = None \<longleftrightarrow> mem gc a = None"
  by (simp add: content_def)

lemma content_dom: "dom (mem gc) = dom (content gc)"
  by (auto simp: content_def)

text \<open>Transferring the id table along an operation that keeps the ids of the surviving nodes.\<close>

definition id_of :: "PonGcState \<Rightarrow> addr \<Rightarrow> u64 option" where
  "id_of gc a = map_option node_id (mem gc a)"

lemma ids_ok_alt:
  "ids_ok gc \<longleftrightarrow>
     (case by_id gc of None \<Rightarrow> by_id_cap gc = 0 | Some arr \<Rightarrow> length arr = unat (by_id_cap gc)) \<and>
     (\<forall>i a. idtab gc i = Some a \<longleftrightarrow> map_option unat (id_of gc a) = Some i) \<and>
     (\<forall>a j. id_of gc a = Some j \<longrightarrow> j < next_id gc)"
proof -
  have "(map_option unat (id_of gc a) = Some i) = (\<exists>n. mem gc a = Some n \<and> unat (node_id n) = i)"
    "(id_of gc a = Some j) = (\<exists>n. mem gc a = Some n \<and> node_id n = j)" for a i j
    by (auto simp: id_of_def)
  then show ?thesis by (simp only: ids_ok_def) blast
qed

lemma id_of_content: "id_of gc a = map_option node_id (content gc a)"
  by (simp add: id_of_def content_def option.map_comp comp_def)

lemmas free_simps = pon_gc_node_free_def upd_node_def unlink_mem_def Let_def payload_of_def
  store_def arr_set_def

lemma pon_gc_node_free_ok:
  assumes l: "all_nodes gc (xs @ a # ys)" and ids: "ids_ok gc"
  obtains gc' where "pon_gc_node_free (Some gc) (Some a) = Some (Some gc')"
    "all_nodes gc' (xs @ ys)" "ids_ok gc'" "content gc' = (content gc)(a := None)"
    "list_frame gc' = list_frame gc" "released gc' = released gc @ payload_of gc a"
proof -
  from l have seg: "dseg (mem gc) None (nodes_head gc) (xs @ a # ys) None"
    and dist: "distinct (xs @ a # ys)" and dom: "set (xs @ a # ys) = dom (mem gc)"
    and tl: "nodes_tail gc = end_of None (xs @ a # ys)"
    and tot: "total_nodes gc = of_nat (length (xs @ a # ys))"
    by (simp_all add: all_nodes_def)
  from dom obtain n where n: "mem gc a = Some n" by auto
  note mid = dseg_mid [OF seg n] and un = unlink_mem_dseg [OF seg dist n]
  obtain arr where arr: "by_id gc = Some arr" "unat (node_id n) < length arr"
    "node_id n < by_id_cap gc" "arr ! unat (node_id n) = Some a"
    using ids_ok_cap [OF ids n] .
  let ?gc = "gc\<lparr>mem := (unlink_mem (mem gc) n)(a := None),
     nodes_head := (if xs = [] then next_all n else nodes_head gc),
     nodes_tail := (if ys = [] then prev_all n else nodes_tail gc),
     by_id := Some (arr[unat (node_id n) := None]), released := released gc @ payload_of gc a,
     total_nodes := total_nodes gc - 1\<rparr>"
  have pn: "prev_all n = None \<longleftrightarrow> xs = []" "next_all n = None \<longleftrightarrow> ys = []"
    using mid by (auto simp: end_of_def first_of_def split: list.splits if_splits)
  have ne: "prev_all n \<noteq> Some a" "next_all n \<noteq> Some a"
    using mid dist by (auto simp: end_of_def first_of_def split: if_splits list.splits dest: last_in_set)
  have pdom: "\<exists>k. mem gc p = Some k" if "prev_all n = Some p" for p
    using that mid(1) dom by (auto simp: end_of_def split: if_splits dest: last_in_set)
  have qdom: "\<exists>k. mem gc q = Some k" if "next_all n = Some q" for q
    using that mid(2) dom by (auto simp: first_of_def split: list.splits)
  have "pon_gc_node_free (Some gc) (Some a) = Some (Some ?gc)"
  proof (cases "prev_all n")
    case None
    show ?thesis
    proof (cases "next_all n")
      case None
      with \<open>prev_all n = None\<close> n arr pn show ?thesis
        by (simp add: free_simps split: option.split)
    next
      case (Some q)
      with \<open>prev_all n = None\<close> n arr pn ne qdom [OF Some] show ?thesis
        by (auto simp: free_simps split: option.split)
    qed
  next
    case (Some p)
    obtain k where k: "mem gc p = Some k" using pdom [OF Some] by blast
    show ?thesis
    proof (cases "next_all n")
      case None
      with Some n k arr pn ne show ?thesis by (simp add: free_simps split: option.split)
    next
      case (Some q)
      with \<open>prev_all n = Some p\<close> n k arr pn ne qdom [OF Some] show ?thesis
        by (auto simp: free_simps split: option.split)
    qed
  qed
  moreover have "all_nodes ?gc (xs @ ys)"
    unfolding all_nodes_def
  proof (intro conjI)
    show "dseg (mem ?gc) None (nodes_head ?gc) (xs @ ys) None"
      using un(1) dist by (simp add: dseg_other)
    show "set (xs @ ys) = dom (mem ?gc)" using un(3) dom dist by auto
    show "nodes_tail ?gc = end_of None (xs @ ys)"
      using mid(1) tl by (auto simp: end_of_def)
  qed (use dist tot in simp_all)
  moreover have c: "content ?gc = (content gc)(a := None)"
    using un(4) by (auto simp: content_def fun_eq_iff)
  moreover have "ids_ok ?gc"
    unfolding ids_ok_alt
  proof (intro conjI allI)
    have idt: "idtab ?gc i = (if i = unat (node_id n) then None else idtab gc i)" for i
      using arr by (simp add: idtab_def)
    have ido: "id_of ?gc = (id_of gc)(a := None)"
      using c by (auto simp: id_of_content)
    show "idtab ?gc i = Some b \<longleftrightarrow> map_option unat (id_of ?gc b) = Some i" for i b
    proof -
      have key: "idtab gc i = Some b \<longleftrightarrow> map_option unat (id_of gc b) = Some i" for i b
        using ids by (simp add: ids_ok_alt)
      have at: "idtab gc i = Some a \<longleftrightarrow> i = unat (node_id n)"
        using n key [of i a] by (auto simp: id_of_def)
      show ?thesis
      proof (cases "b = a")
        case True
        with at show ?thesis by (simp add: idt ido)
      next
        case False
        with at key [of i b] show ?thesis by (simp add: idt ido) auto
      qed
    qed
    show "id_of ?gc b = Some j \<longrightarrow> j < next_id ?gc" for b j
      using ids by (simp add: ido ids_ok_alt)
    show "case by_id ?gc of None \<Rightarrow> by_id_cap ?gc = 0 | Some arr \<Rightarrow> length arr = unat (by_id_cap ?gc)"
      using ids arr by (simp add: ids_ok_def)
  qed
  ultimately show thesis by (intro that [of ?gc]) (simp_all add: list_frame_def)
qed


subsection \<open>Sweeping\<close>

definition white_at :: "PonGcState \<Rightarrow> addr \<Rightarrow> bool" where
  "white_at gc a \<longleftrightarrow> colors gc a = Some PON_GC_WHITE"

definition sweep_frame :: "PonGcState \<Rightarrow> PonGcState" where
  "sweep_frame gc = (list_frame gc)\<lparr>dead_nodes := 0, bytes_freed := 0\<rparr>"

text \<open>What one pass over the addresses \<open>zs\<close> leaves of a node.\<close>

definition swept :: "addr list \<Rightarrow> PonGcState \<Rightarrow> addr \<Rightarrow> PonGcNode option" where
  "swept zs gc b =
     (if b \<notin> set zs then content gc b
      else if white_at gc b then None
      else map_option (\<lambda>n. n\<lparr>color := PON_GC_WHITE\<rparr>) (content gc b))"

definition bytes_of :: "addr list \<Rightarrow> PonGcState \<Rightarrow> u64" where
  "bytes_of zs gc = sum_list (map (size_of gc) zs)"

lemma bytes_of_Cons [simp]: "bytes_of [] gc = 0" "bytes_of (a # zs) gc = size_of gc a + bytes_of zs gc"
  by (simp_all add: bytes_of_def)

definition sweeps :: "addr list \<Rightarrow> addr list \<Rightarrow> PonGcState \<Rightarrow> PonGcState \<Rightarrow> bool" where
  "sweeps ks zs gc gc' \<longleftrightarrow>
     all_nodes gc' (ks @ filter (\<lambda>b. \<not> white_at gc b) zs) \<and> ids_ok gc' \<and>
     content gc' = swept zs gc \<and> sweep_frame gc' = sweep_frame gc \<and>
     released gc' = released gc @ concat (map (payload_of gc) (filter (white_at gc) zs)) \<and>
     dead_nodes gc' = dead_nodes gc + of_nat (length (filter (white_at gc) zs)) \<and>
     bytes_freed gc' = bytes_freed gc + bytes_of (filter (white_at gc) zs) gc"

lemma list_frame_fields:
  assumes "list_frame gc' = list_frame gc"
  shows "dead_nodes gc' = dead_nodes gc" "bytes_freed gc' = bytes_freed gc"
    "sweep_frame gc' = sweep_frame gc"
proof -
  show "sweep_frame gc' = sweep_frame gc" by (simp add: sweep_frame_def assms)
  show "dead_nodes gc' = dead_nodes gc" "bytes_freed gc' = bytes_freed gc"
    using arg_cong [OF assms, of dead_nodes] arg_cong [OF assms, of bytes_freed]
    by (simp_all add: list_frame_def)
qed

lemma counters_irrelevant [simp]:
  "all_nodes (gc\<lparr>dead_nodes := d, bytes_freed := f\<rparr>) xs = all_nodes gc xs"
  "ids_ok (gc\<lparr>dead_nodes := d, bytes_freed := f\<rparr>) = ids_ok gc"
  "content (gc\<lparr>dead_nodes := d, bytes_freed := f\<rparr>) = content gc"
  "payload_of (gc\<lparr>dead_nodes := d, bytes_freed := f\<rparr>) = payload_of gc"
  "sweep_frame (gc\<lparr>dead_nodes := d, bytes_freed := f\<rparr>) = sweep_frame gc"
  by (simp_all add: all_nodes_def ids_ok_def idtab_def content_def payload_of_def sweep_frame_def
      list_frame_def fun_eq_iff split: option.split)

lemma content_of_colors: "colors gc a = map_option color (content gc a)"
  by (simp add: content_def colors_def option.map_comp comp_def)

lemma sweep_views_cong:
  assumes "\<And>b. b \<in> set zs \<Longrightarrow> content gc' b = content gc b"
  shows "filter (white_at gc') zs = filter (white_at gc) zs"
    and "filter (\<lambda>b. \<not> white_at gc' b) zs = filter (\<lambda>b. \<not> white_at gc b) zs"
    and "map (payload_of gc') (filter (white_at gc) zs) = map (payload_of gc) (filter (white_at gc) zs)"
    and "bytes_of (filter (white_at gc) zs) gc' = bytes_of (filter (white_at gc) zs) gc"
proof -
  have w: "white_at gc' b = white_at gc b" if "b \<in> set zs" for b
    using content_views(1) [OF assms [OF that]] by (simp add: white_at_def)
  show "filter (white_at gc') zs = filter (white_at gc) zs"
    "filter (\<lambda>b. \<not> white_at gc' b) zs = filter (\<lambda>b. \<not> white_at gc b) zs"
    by (auto intro: filter_cong simp: w)
  show "map (payload_of gc') (filter (white_at gc) zs) = map (payload_of gc) (filter (white_at gc) zs)"
    "bytes_of (filter (white_at gc) zs) gc' = bytes_of (filter (white_at gc) zs) gc"
    using content_views(2,3) [OF assms]
    by (auto simp: bytes_of_def intro!: arg_cong [of _ _ sum_list] map_cong)
qed

lemma sweep_step_dead:
  assumes l: "all_nodes gc (ks @ a # zs)" and ids: "ids_ok gc" and w: "white_at gc a"
  obtains gc1 where
    "sweep_loop (Some a) freed gc = sweep_loop (first_of zs) (freed + size_of gc a) gc1"
    "all_nodes gc1 (ks @ zs)" "ids_ok gc1" "content gc1 = (content gc)(a := None)"
    "sweep_frame gc1 = sweep_frame gc" "released gc1 = released gc @ payload_of gc a"
    "dead_nodes gc1 = dead_nodes gc + 1" "bytes_freed gc1 = bytes_freed gc + size_of gc a"
proof -
  from w obtain n where n: "mem gc a = Some n" "color n = PON_GC_WHITE"
    by (auto simp: white_at_def colors_def)
  let ?gc = "gc\<lparr>dead_nodes := dead_nodes gc + 1, bytes_freed := bytes_freed gc + data_size n\<rparr>"
  have "all_nodes ?gc (ks @ a # zs)" "ids_ok ?gc" using l ids by simp_all
  then obtain gc1 where g: "pon_gc_node_free (Some ?gc) (Some a) = Some (Some gc1)"
    "all_nodes gc1 (ks @ zs)" "ids_ok gc1" "content gc1 = (content ?gc)(a := None)"
    "list_frame gc1 = list_frame ?gc" "released gc1 = released ?gc @ payload_of ?gc a"
    by (rule pon_gc_node_free_ok)
  have "next_all n = first_of zs" using l n(1) by (auto simp: all_nodes_def dest: dseg_mid(2))
  moreover have "data_size n = size_of gc a" using n(1) by (simp add: size_of_def)
  ultimately show thesis
    using n g list_frame_fields [OF g(5)]
    by (intro that [of gc1]) (simp_all add: sweep_loop.simps [of "Some a"])
qed

lemma sweep_step_live:
  assumes l: "all_nodes gc (ks @ a # zs)" and ids: "ids_ok gc" and w: "\<not> white_at gc a"
  obtains gc1 where "sweep_loop (Some a) freed gc = sweep_loop (first_of zs) freed gc1"
    "all_nodes gc1 (ks @ a # zs)" "ids_ok gc1"
    "content gc1 = (content gc)(a := map_option (\<lambda>n. n\<lparr>color := PON_GC_WHITE\<rparr>) (content gc a))"
    "sweep_frame gc1 = sweep_frame gc" "released gc1 = released gc"
    "dead_nodes gc1 = dead_nodes gc" "bytes_freed gc1 = bytes_freed gc"
proof -
  from l obtain n where n: "mem gc a = Some n" by (auto simp: all_nodes_def)
  with w have c: "color n \<noteq> PON_GC_WHITE" by (simp add: white_at_def colors_def)
  let ?gc = "gc\<lparr>mem := (mem gc)(a \<mapsto> n\<lparr>color := PON_GC_WHITE\<rparr>)\<rparr>"
  have "next_all n = first_of zs" using l n by (auto simp: all_nodes_def dest: dseg_mid(2))
  then have "sweep_loop (Some a) freed gc = sweep_loop (first_of zs) freed ?gc"
    using n c by (simp add: sweep_loop.simps [of "Some a"] upd_node_def)
  moreover have "all_nodes ?gc (ks @ a # zs)"
    using l n by (auto simp: all_nodes_def dseg_same_links)
  moreover have "ids_ok ?gc"
  proof -
    have "id_of ?gc = id_of gc" "idtab ?gc = idtab gc"
      using n by (auto simp: id_of_def idtab_def fun_eq_iff)
    then show ?thesis using ids by (simp add: ids_ok_alt split: option.splits)
  qed
  ultimately show thesis
    using n by (intro that [of ?gc]) (auto simp: content_def sweep_frame_def list_frame_def)
qed

lemma sweep_loop_total:
  assumes "all_nodes gc (ks @ zs)" and "ids_ok gc"
  shows "\<exists>gc'. sweep_loop (first_of zs) freed gc =
                 Some (freed + bytes_of (filter (white_at gc) zs) gc, gc') \<and> sweeps ks zs gc gc'"
  using assms
proof (induction zs arbitrary: ks freed gc)
  case Nil
  then show ?case
    by (intro exI [of _ gc])
      (simp add: sweep_loop.simps sweeps_def bytes_of_def swept_def fun_eq_iff)
next
  case (Cons a zs)
  have nin: "a \<notin> set zs" using Cons.prems(1) by (simp add: all_nodes_def)
  show ?case
  proof (cases "white_at gc a")
    case True
    obtain gc1 where g: "sweep_loop (Some a) freed gc = sweep_loop (first_of zs) (freed + size_of gc a) gc1"
      "all_nodes gc1 (ks @ zs)" "ids_ok gc1" "content gc1 = (content gc)(a := None)"
      "sweep_frame gc1 = sweep_frame gc" "released gc1 = released gc @ payload_of gc a"
      "dead_nodes gc1 = dead_nodes gc + 1" "bytes_freed gc1 = bytes_freed gc + size_of gc a"
      using sweep_step_dead [OF Cons.prems True] .
    have "content gc1 b = content gc b" if "b \<in> set zs" for b using that nin g(4) by auto
    note cong = sweep_views_cong [OF this]
    from Cons.IH [OF g(2,3), of "freed + size_of gc a"] obtain gc' where
      r: "sweep_loop (first_of zs) (freed + size_of gc a) gc1 =
            Some (freed + size_of gc a + bytes_of (filter (white_at gc) zs) gc, gc')"
      "sweeps ks zs gc1 gc'" by (auto simp: cong)
    have "swept zs gc1 = swept (a # zs) gc"
      using g(4) True nin by (auto simp: swept_def white_at_def content_of_colors fun_eq_iff)
    with r g True show ?thesis
      by (intro exI [of _ gc']) (simp add: sweeps_def cong)
  next
    case False
    obtain gc1 where g: "sweep_loop (Some a) freed gc = sweep_loop (first_of zs) freed gc1"
      "all_nodes gc1 (ks @ a # zs)" "ids_ok gc1"
      "content gc1 = (content gc)(a := map_option (\<lambda>n. n\<lparr>color := PON_GC_WHITE\<rparr>) (content gc a))"
      "sweep_frame gc1 = sweep_frame gc" "released gc1 = released gc"
      "dead_nodes gc1 = dead_nodes gc" "bytes_freed gc1 = bytes_freed gc"
      using sweep_step_live [OF Cons.prems False] .
    have "content gc1 b = content gc b" if "b \<in> set zs" for b using that nin g(4) by auto
    note cong = sweep_views_cong [OF this]
    from g(2) have "all_nodes gc1 ((ks @ [a]) @ zs)" by simp
    from Cons.IH [OF this g(3), of freed] obtain gc' where
      r: "sweep_loop (first_of zs) freed gc1 = Some (freed + bytes_of (filter (white_at gc) zs) gc, gc')"
      "sweeps (ks @ [a]) zs gc1 gc'" by (auto simp: cong)
    have "swept zs gc1 = swept (a # zs) gc"
      using g(4) False nin by (auto simp: swept_def white_at_def content_of_colors fun_eq_iff)
    with r g False show ?thesis
      by (intro exI [of _ gc']) (simp add: sweeps_def cong)
  qed
qed


lemma pon_gc_sweep_total:
  assumes "all_nodes gc xs" and "ids_ok gc"
  obtains gc' where "pon_gc_sweep (Some gc) = Some (bytes_of (filter (white_at gc) xs) gc, Some gc')"
    "sweeps [] xs (gc\<lparr>dead_nodes := 0, bytes_freed := 0, live_nodes := 0\<rparr>) gc'"
proof -
  let ?g = "gc\<lparr>dead_nodes := 0, bytes_freed := 0\<rparr>"
  have l: "all_nodes ?g ([] @ xs)" "ids_ok ?g" using assms by simp_all
  have hd: "nodes_head gc = first_of xs" using assms(1) by (auto simp: all_nodes_def dest: dseg_first)
  have same: "white_at ?g = white_at gc" "bytes_of zs ?g = bytes_of zs gc" for zs
    by (simp_all add: white_at_def colors_def bytes_of_def size_of_def [abs_def] fun_eq_iff)
  from sweep_loop_total [OF l, of 0] obtain g where
    g: "sweep_loop (first_of xs) 0 ?g = Some (bytes_of (filter (white_at gc) xs) gc, g)"
    "sweeps [] xs ?g g" by (auto simp: same)
  let ?r = "g\<lparr>live_nodes := 0\<rparr>" and ?h = "gc\<lparr>dead_nodes := 0, bytes_freed := 0, live_nodes := 0\<rparr>"
  have same2: "all_nodes ?r = all_nodes g" "ids_ok ?r = ids_ok g" "content ?r = content g"
    "white_at ?h = white_at ?g" "payload_of ?h = payload_of ?g" "bytes_of zs ?h = bytes_of zs ?g"
    "swept xs ?h = swept xs ?g" for zs
    by (auto simp: all_nodes_def ids_ok_def idtab_def content_def white_at_def colors_def
        bytes_of_def size_of_def [abs_def] payload_of_def swept_def fun_eq_iff split: option.splits)
  have "sweep_frame ?r = (sweep_frame g)\<lparr>live_nodes := 0\<rparr>"
    "sweep_frame ?h = (sweep_frame ?g)\<lparr>live_nodes := 0\<rparr>"
    by (simp_all add: sweep_frame_def list_frame_def)
  with g(2) have "sweeps [] xs ?h ?r" by (simp add: sweeps_def same2)
  moreover have "pon_gc_sweep (Some gc) = Some (bytes_of (filter (white_at gc) xs) gc, Some ?r)"
    using g(1) by (simp add: pon_gc_sweep_def hd)
  ultimately show thesis by (rule that [rotated])
qed

subsection \<open>Well-formed states\<close>

text \<open>
  \<open>gc_wf\<close>: the linked list holds exactly the allocated nodes, every reference and every root
  points to an allocated node, and the id table maps each id to its node. \<open>quiescent\<close>: no
  mark is under way.
\<close>

definition gc_wf :: "PonGcState \<Rightarrow> bool" where
  "gc_wf gc \<longleftrightarrow> (\<exists>xs. all_nodes gc xs) \<and> graph_ok gc \<and> ids_ok gc \<and> roots_ok gc"

definition quiescent :: "PonGcState \<Rightarrow> bool" where
  "quiescent gc \<longleftrightarrow>
     gray_queue gc [] \<and> (\<forall>a c. colors gc a = Some c \<longrightarrow> c = PON_GC_WHITE) \<and> live_nodes gc = 0"

text \<open>A node without its colour and links: what the program put there.\<close>

definition object :: "PonGcState \<Rightarrow> addr \<Rightarrow> PonGcNode option" where
  "object gc a = map_option (\<lambda>n. n\<lparr>color := 0, next_gray := None, prev_all := None,
                                  next_all := None\<rparr>) (mem gc a)"

lemma object_views:
  "object gc a = map_option (\<lambda>n. n\<lparr>color := 0, next_gray := None\<rparr>) (content gc a)"
  "object gc a = map_option (\<lambda>n. n\<lparr>prev_all := None, next_all := None\<rparr>) (shape gc a)"
  by (cases "mem gc a"; simp add: object_def content_def shape_def)+

lemma object_cong:
  assumes "object gc' a = object gc a" and "mem gc a = Some n"
  obtains n' where "mem gc' a = Some n'" "out_refs n' = out_refs n" "refs n' = refs n"
    "num_refs n' = num_refs n" "refs_cap n' = refs_cap n" "data n' = data n"
    "data_size n' = data_size n" "node_id n' = node_id n"
proof -
  from assms obtain n' where n': "mem gc' a = Some n'"
    "n'\<lparr>color := 0, next_gray := None, prev_all := None, next_all := None\<rparr> =
     n\<lparr>color := 0, next_gray := None, prev_all := None, next_all := None\<rparr>"
    by (auto simp: object_def)
  from n'(2) have "num_refs n' = num_refs n \<and> refs_cap n' = refs_cap n \<and> refs n' = refs n \<and>
      data n' = data n \<and> data_size n' = data_size n \<and> node_id n' = node_id n"
    by (cases n; cases n') simp
  then show thesis using n'(1) by (intro that [of n']) (simp_all add: out_refs_def split: option.split)
qed

lemma object_None: "object gc a = None \<longleftrightarrow> mem gc a = None"
  by (simp add: object_def)

lemma gc_wf_finite: "gc_wf gc \<Longrightarrow> finite (dom (mem gc))"
  unfolding gc_wf_def all_nodes_def by (metis List.finite_set)

lemma gc_wf_markable: "gc_wf gc \<Longrightarrow> quiescent gc \<Longrightarrow> markable gc \<and> black gc = {}"
  using gc_wf_finite by (fastforce simp: gc_wf_def quiescent_def markable_def black_def)

lemma reachable_dom: "graph_ok gc \<Longrightarrow> roots_ok gc \<Longrightarrow> reachable gc \<subseteq> dom (mem gc)"
proof
  fix b assume ok: "graph_ok gc" "roots_ok gc" and "b \<in> reachable gc"
  then obtain a where a: "(a, b) \<in> (edges gc)\<^sup>*" "a \<in> root_set gc" by (auto simp: reachable_def)
  from a(2) ok(2) have "a \<in> dom (mem gc)" by (auto simp: root_set_def roots_ok_def)
  with a(1) show "b \<in> dom (mem gc)"
    by (induction rule: rtrancl_induct) (auto dest: edges_dom [OF ok(1)])
qed

lemma shape_views:
  assumes "shape gc' = shape gc"
  shows "payload_of gc' = payload_of gc" "size_of gc' = size_of gc" "object gc' = object gc"
proof -
  have "payload_of gc' a = payload_of gc a \<and> size_of gc' a = size_of gc a" for a
  proof (cases "mem gc a")
    case None
    then have "mem gc' a = None" using shape_dom [OF assms] by auto
    with None show ?thesis by (simp add: payload_of_def size_of_def)
  next
    case (Some n)
    obtain n' where "mem gc' a = Some n'" "data n' = data n" "data_size n' = data_size n"
      using shape_cong_refs [OF assms [symmetric] Some] .
    with Some show ?thesis by (simp add: payload_of_def size_of_def)
  qed
  then show "payload_of gc' = payload_of gc" "size_of gc' = size_of gc" by auto
  show "object gc' = object gc" using assms by (simp add: object_views(2) fun_eq_iff)
qed

lemma shape_list:
  assumes "shape gc' = shape gc" and "frame gc' = frame gc"
  shows "all_nodes gc' xs = all_nodes gc xs"
proof -
  have "dseg (mem gc) pr p xs q" if d: "dseg (mem gc') pr p xs q" and sh: "shape gc' = shape gc" for pr p q gc gc'
    using d
  proof (induction xs arbitrary: pr p)
    case (Cons a xs)
    then obtain n where n: "mem gc' a = Some n" by (auto split: option.splits)
    obtain n' where "mem gc a = Some n'" "prev_all n' = prev_all n" "next_all n' = next_all n"
      using shape_cong_refs [OF sh n] .
    with Cons n show ?case by auto
  qed simp
  from this [of gc' _ _ _ gc] this [of gc _ _ _ gc'] assms(1) show ?thesis
    using frame_fields [OF assms(2)] shape_dom [OF assms(1)] by (auto simp: all_nodes_def)
qed

lemma shape_ids:
  assumes "shape gc' = shape gc" and "frame gc' = frame gc" and "ids_ok gc"
  shows "ids_ok gc'"
proof -
  have "id_of gc a = map_option node_id (shape gc a)" for gc a
    by (simp add: id_of_def shape_def option.map_comp comp_def)
  with assms(1) have "id_of gc' = id_of gc" by (simp add: fun_eq_iff)
  then show ?thesis using assms(3) frame_fields [OF assms(2)]
    by (simp add: ids_ok_alt idtab_def split: option.splits)
qed


text \<open>
  The properties above, carried from a state to the state after a sweep: the surviving nodes are
  the marked ones, which are closed under references.
\<close>

lemma sweep_frame_fields:
  assumes "sweep_frame gc' = sweep_frame gc"
  shows "roots gc' = roots gc" "num_roots gc' = num_roots gc" "roots_cap gc' = roots_cap gc"
    "gray_head gc' = gray_head gc" "gray_tail gc' = gray_tail gc" "gray_count gc' = gray_count gc"
    "live_nodes gc' = live_nodes gc" "by_id_cap gc' = by_id_cap gc" "next_id gc' = next_id gc"
    "notifications_sent gc' = notifications_sent gc" "scan_count gc' = scan_count gc"
    "cycles gc' = cycles gc"
  using arg_cong [OF assms, of roots] arg_cong [OF assms, of num_roots]
    arg_cong [OF assms, of roots_cap] arg_cong [OF assms, of gray_head]
    arg_cong [OF assms, of gray_tail] arg_cong [OF assms, of gray_count]
    arg_cong [OF assms, of live_nodes] arg_cong [OF assms, of by_id_cap]
    arg_cong [OF assms, of next_id] arg_cong [OF assms, of notifications_sent]
    arg_cong [OF assms, of scan_count] arg_cong [OF assms, of cycles]
  by (simp_all add: sweep_frame_def list_frame_def)

lemma swept_object:
  assumes "content gc' = swept xs gc" and "set xs = dom (mem gc)"
  shows "object gc' a = (if white_at gc a then None else object gc a)"
proof (cases "mem gc a")
  case None
  with assms show ?thesis
    by (simp add: object_views(1) swept_def white_at_def content_of_colors content_def domIff)
next
  case (Some n)
  with assms show ?thesis
    by (auto simp: object_views(1) swept_def content_def)
qed

lemma object_graph_ok:
  assumes sub: "\<And>a. object gc' a = (if a \<in> K then object gc a else None)"
    and ok: "graph_ok gc" and closed: "edges gc `` K \<subseteq> K" and K: "K \<subseteq> dom (mem gc)"
  shows "graph_ok gc'" and "dom (mem gc') = K"
proof -
  have "dom (mem gc') = {a. object gc' a \<noteq> None}" by (auto simp: object_None)
  also have "\<dots> = K"
  proof -
    have "object gc x \<noteq> None" if "x \<in> K" for x using that K by (auto simp: object_def)
    then show ?thesis by (auto simp: sub)
  qed
  finally show d: "dom (mem gc') = K" .
  show "graph_ok gc'" unfolding graph_ok_def
  proof (intro allI impI)
    fix a n' assume n': "mem gc' a = Some n'"
    then have aK: "a \<in> K" using d by auto
    then have "object gc a = object gc' a" using sub by simp
    from object_cong [OF this n'] obtain n where n: "mem gc a = Some n" "out_refs n = out_refs n'"
      "refs n = refs n'" "num_refs n = num_refs n'" "refs_cap n = refs_cap n'" .
    from graph_okD [OF ok n(1)] have "node_ok (dom (mem gc)) n" .
    moreover have "b \<in> K" if "Some b \<in> set (out_refs n)" for b
      using that n(1) aK closed by (auto simp: edges_def)
    ultimately show "node_ok (dom (mem gc')) n'"
      using n by (fastforce simp: d node_ok_def split: option.splits)
  qed
qed

text \<open>
  The whole collection, on the pointer structures. \<open>xs\<close> is the list of all nodes before.
\<close>

lemma collect_total:
  assumes l: "all_nodes gc xs" and ok: "graph_ok gc" "ids_ok gc" "roots_ok gc" and qt: "quiescent gc"
  obtains gc' where
    "pon_gc_mark_sweep (Some gc) = Some (of_nat (card (dom (mem gc) - reachable gc)), Some gc')"
    "all_nodes gc' (filter (\<lambda>a. a \<in> reachable gc) xs)" "gc_wf gc'" "quiescent gc'"
    "object gc' = object gc |` reachable gc"
    "released gc' = released gc @ concat (map (payload_of gc) (filter (\<lambda>a. a \<notin> reachable gc) xs))"
    "bytes_freed gc' = bytes_of (filter (\<lambda>a. a \<notin> reachable gc) xs) gc"
    "scan_count gc' = scan_count gc + of_nat (card (reachable gc))"
    "root_ptrs gc' = root_ptrs gc" "next_id gc' = next_id gc"
proof -
  have wf: "gc_wf gc" using l ok by (auto simp: gc_wf_def)
  have mk: "markable gc" and nb: "black gc = {}" using gc_wf_markable [OF wf qt] by simp_all
  obtain g where g: "pon_gc_mark (Some gc) = Some (live_nodes g, Some g)"
    "black g = (edges gc)\<^sup>* `` (black gc \<union> root_set gc)" "shape g = shape gc"
    "frame g = frame (gc\<lparr>cycles := cycles gc + 1\<rparr>)" "markable g"
    "live_nodes g = live_nodes gc - of_nat (card (black gc)) + of_nat (card (black g))"
    "scan_count g = scan_count gc - of_nat (card (black gc)) + of_nat (card (black g))"
    using pon_gc_mark_total [OF mk] .
  have R: "black g = reachable gc" using g(2) nb by (simp add: reachable_def)
  let ?gc = "gc\<lparr>cycles := cycles gc + 1\<rparr>"
  have sh: "shape g = shape ?gc" using g(3) by (simp add: shape_def fun_eq_iff)
  have lg: "all_nodes g xs" using shape_list [OF sh g(4), of xs] l by (simp add: all_nodes_def)
  have "ids_ok ?gc" using ok(2) by (simp add: ids_ok_def idtab_def split: option.splits)
  from shape_ids [OF sh g(4) this] have ig: "ids_ok g" .
  have dom: "set xs = dom (mem gc)" "dom (mem g) = dom (mem gc)"
    using l shape_dom [OF g(3)] by (simp_all add: all_nodes_def)
  obtain h where h: "pon_gc_sweep (Some g) = Some (bytes_of (filter (white_at g) xs) g, Some h)"
    "sweeps [] xs (g\<lparr>dead_nodes := 0, bytes_freed := 0, live_nodes := 0\<rparr>) h"
    using pon_gc_sweep_total [OF lg ig] .
  let ?s = "g\<lparr>dead_nodes := 0, bytes_freed := 0, live_nodes := 0\<rparr>"
  have wb: "c = PON_GC_WHITE \<or> c = PON_GC_BLACK" if "colors g a = Some c" for a c
    using g(5) that by (auto simp: markable_def)
  have white: "white_at ?s a \<longleftrightarrow> a \<notin> reachable gc" if a: "a \<in> dom (mem gc)" for a
  proof -
    from a obtain c where "colors g a = Some c" unfolding dom(2) [symmetric] by (auto simp: colors_def)
    with wb [OF this] show ?thesis
      by (auto simp: white_at_def R [symmetric] black_def colors_def)
  qed
  have same: "payload_of ?s = payload_of gc" "size_of ?s = size_of gc" "object ?s = object gc"
    using shape_views [OF g(3)] by (simp_all add: payload_of_def size_of_def object_def fun_eq_iff)
  have fil: "filter (white_at ?s) xs = filter (\<lambda>a. a \<notin> reachable gc) xs"
    "filter (\<lambda>a. \<not> white_at ?s a) xs = filter (\<lambda>a. a \<in> reachable gc) xs"
    using white dom(1) by (auto intro!: filter_cong)
  have len: "length (filter (\<lambda>a. a \<notin> reachable gc) xs) = card (dom (mem gc) - reachable gc)"
    using l dom(1) by (metis all_nodes_def distinct_card distinct_filter set_diff_eq set_filter)
  have H: "all_nodes h (filter (\<lambda>a. a \<in> reachable gc) xs)" "ids_ok h" "content h = swept xs ?s"
    "sweep_frame h = sweep_frame ?s"
    "released h = released g @ concat (map (payload_of gc) (filter (\<lambda>a. a \<notin> reachable gc) xs))"
    "dead_nodes h = of_nat (card (dom (mem gc) - reachable gc))"
    "bytes_freed h = bytes_of (filter (\<lambda>a. a \<notin> reachable gc) xs) gc"
    using h(2) by (simp_all add: sweeps_def fil same len bytes_of_def)
  note ff = frame_fields [OF g(4)] and sf = sweep_frame_fields [OF H(4)]
  have Rdom: "reachable gc \<subseteq> dom (mem gc)" by (rule reachable_dom [OF ok(1,3)])
  have obj: "object h a = (if a \<in> reachable gc then object gc a else None)" for a
  proof (cases "a \<in> dom (mem gc)")
    case True
    with swept_object [OF H(3), of a] dom white [OF True] show ?thesis by (simp add: same)
  next
    case False
    then have "a \<notin> set xs" "content ?s a = None" using dom by (auto simp: content_def)
    with H(3) False Rdom show ?thesis by (auto simp: object_views(1) swept_def)
  qed
  have "edges gc `` reachable gc \<subseteq> reachable gc"
    by (auto simp: reachable_def intro: rtrancl_into_rtrancl)
  note G = object_graph_ok [OF obj ok(1) this Rdom]
  have rp: "root_ptrs h = root_ptrs gc" using sf ff by (simp add: root_ptrs_def split: option.split)
  have "set (root_ptrs gc) \<subseteq> Some ` reachable gc"
  proof
    fix x assume x: "x \<in> set (root_ptrs gc)"
    then obtain a where "x = Some a" using ok(3) by (auto simp: roots_ok_def)
    with x show "x \<in> Some ` reachable gc" by (auto simp: reachable_def root_set_def)
  qed
  then have "roots_ok h" using ok(3) sf ff rp G(2) by (simp add: roots_ok_def split: option.splits)
  moreover have "quiescent h"
    unfolding quiescent_def
  proof (intro conjI allI impI)
    show "gray_queue h []" using g(5) sf by (simp add: markable_def gray_queue_def)
    show "live_nodes h = 0" using sf by simp
    have in_xs: "a \<in> dom (mem gc)" if "content ?s a = Some z" for a z
      using that unfolding dom(2) [symmetric] by (auto simp: content_def)
    show "c = PON_GC_WHITE" if "colors h a = Some c" for a c
      using that in_xs by (auto simp: content_of_colors H(3) swept_def dom white_at_def split: if_splits)
  qed
  moreover have "pon_gc_mark_sweep (Some gc) = Some (dead_nodes h, Some h)"
    using g(1) h(1) by (simp add: pon_gc_mark_sweep_def)
  ultimately show thesis
    using H G obj rp sf ff g(7) R nb
    by (intro that [of h]) (auto simp: gc_wf_def restrict_map_def fun_eq_iff)
qed


subsection \<open>The operations that build the graph\<close>

lemma by_id_new_cap_total:
  assumes "0 < cap" and "i < 2 ^ 62" and "cap \<le> 2 ^ 63"
  shows "\<exists>c. by_id_new_cap cap i = Some c \<and> i < c \<and> cap \<le> c"
  using assms
proof (induction "2 ^ 64 - unat cap" arbitrary: cap rule: less_induct)
  case less
  show ?case
  proof (cases "cap \<le> i")
    case False
    then show ?thesis by (subst by_id_new_cap.simps) auto
  next
    case True
    then have lt: "unat cap < 2 ^ 62" using less.prems(2) by (simp add: word_le_nat_alt word_less_nat_alt)
    then have u: "unat (cap * 2) = 2 * unat cap" by (simp add: unat_word_ariths)
    have "0 < unat cap" using less.prems(1) by (simp add: word_less_nat_alt)
    with u lt have "2 ^ 64 - unat (cap * 2) < 2 ^ 64 - unat cap" "0 < cap * 2" "cap * 2 \<le> 2 ^ 63"
      "cap \<le> cap * 2"
      by (auto simp: word_less_nat_alt word_le_nat_alt)
    with less.hyps [of "cap * 2"] less.prems(2) True show ?thesis
      by (subst by_id_new_cap.simps) (auto intro: order.trans)
  qed
qed

text \<open>Creating a node at a fresh address, with room for its id.\<close>

definition new_node :: "ptr \<Rightarrow> u64 \<Rightarrow> u64 \<Rightarrow> PonGcNode" where
  "new_node dat sz i =
     \<lparr>color = PON_GC_WHITE, num_refs = 0, refs_cap = 0, refs = None, next_gray = None,
      prev_all = None, next_all = None, data = dat, data_size = sz, node_id = i\<rparr>"

definition link_mem :: "(addr \<rightharpoonup> PonGcNode) \<Rightarrow> ptr \<Rightarrow> addr \<Rightarrow> PonGcNode \<Rightarrow> addr \<rightharpoonup> PonGcNode" where
  "link_mem m h a n =
     (let m = m(a \<mapsto> n\<lparr>next_all := h\<rparr>)
      in (case h of None \<Rightarrow> m | Some b \<Rightarrow> m(b := map_option (\<lambda>k. k\<lparr>prev_all := Some a\<rparr>) (m b))))"

lemma link_mem_dseg:
  assumes seg: "dseg m None h xs None" and dist: "distinct xs" and a: "m a = None" "a \<notin> set xs"
    and n: "prev_all n = None"
  shows "dseg (link_mem m h a n) None (Some a) (a # xs) None"
    and "dom (link_mem m h a n) = insert a (dom m)"
    and "map_option (\<lambda>k. k\<lparr>prev_all := None, next_all := None\<rparr>) (link_mem m h a n b) =
         map_option (\<lambda>k. k\<lparr>prev_all := None, next_all := None\<rparr>) ((m(a \<mapsto> n)) b)"
proof -
  have hd: "h = first_of xs" using seg by (rule dseg_first)
  have s: "dseg (m(a \<mapsto> n\<lparr>next_all := h\<rparr>)) None h xs None" using seg a(2) by (simp add: dseg_other)
  show "dseg (link_mem m h a n) None (Some a) (a # xs) None"
  proof (cases xs)
    case Nil
    with hd n show ?thesis by (simp add: link_mem_def)
  next
    case (Cons b ys)
    then obtain k where k: "m b = Some k" using dseg_dom [OF seg] by auto
    have ab: "a \<noteq> b" using a(2) Cons by auto
    have b: "b \<notin> set ys" using dist Cons by simp
    from dseg_set_prev [OF s [unfolded Cons] b, of k "Some a"] k ab Cons hd n show ?thesis
      by (simp add: link_mem_def Let_def)
  qed
  have hdom: "b \<in> dom m" if "h = Some b" for b
    using that hd dseg_dom [OF seg] by (auto simp: first_of_def split: list.splits)
  show "dom (link_mem m h a n) = insert a (dom m)"
    using hdom by (auto simp: link_mem_def Let_def split: option.splits)
  show "map_option (\<lambda>k. k\<lparr>prev_all := None, next_all := None\<rparr>) (link_mem m h a n b) =
      map_option (\<lambda>k. k\<lparr>prev_all := None, next_all := None\<rparr>) ((m(a \<mapsto> n)) b)"
    using hdom a(1) by (auto simp: link_mem_def Let_def option.map_comp comp_def split: option.split)
qed


lemma grow_nth: "i < n \<Longrightarrow> grow arr n ! i = (case arr of None \<Rightarrow> None | Some xs \<Rightarrow> if i < length xs then xs ! i else None)"
  by (simp add: grow_def split: option.split)

lemma length_grow [simp]: "length (grow arr n) = n"
  by (simp add: grow_def)

lemma id_table_room:
  assumes ids: "ids_ok gc" and small: "next_id gc < 2 ^ 62"
  obtains arr cap where
    "(if next_id gc \<ge> by_id_cap gc
      then map_option (\<lambda>c. (Some (grow (by_id gc) (unat c)), c))
             (by_id_new_cap (if by_id_cap gc \<noteq> 0 then by_id_cap gc * 2 else 64) (next_id gc))
      else Some (by_id gc, by_id_cap gc)) = Some (Some arr, cap)"
    "length arr = unat cap" "next_id gc < cap" "\<forall>i. (if i < length arr then arr ! i else None) = idtab gc i"
proof (cases "next_id gc \<ge> by_id_cap gc")
  case False
  then have lt: "next_id gc < by_id_cap gc" by simp
  then have "by_id_cap gc \<noteq> 0" by auto
  with ids obtain arr where "by_id gc = Some arr" "length arr = unat (by_id_cap gc)"
    by (auto simp: ids_ok_def split: option.splits)
  with False lt show thesis by (intro that [of arr "by_id_cap gc"]) (simp_all add: idtab_def)
next
  case True
  let ?c = "if by_id_cap gc \<noteq> 0 then by_id_cap gc * 2 else 64"
  have u: "unat (by_id_cap gc) < 2 ^ 62"
    using True small by (simp add: word_le_nat_alt word_less_nat_alt)
  have "0 < ?c \<and> ?c \<le> 2 ^ 63 \<and> by_id_cap gc \<le> ?c"
  proof (cases "by_id_cap gc = 0")
    case False
    then have "0 < unat (by_id_cap gc)" by (simp add: unat_gt_0)
    with u False show ?thesis by (simp add: word_le_nat_alt word_less_nat_alt unat_word_ariths)
  qed simp
  with by_id_new_cap_total [of ?c "next_id gc"] small obtain c where
    c: "by_id_new_cap ?c (next_id gc) = Some c" "next_id gc < c" "?c \<le> c" "by_id_cap gc \<le> c"
    by (auto intro: order.trans)
  have len: "length arr \<le> unat c" if "by_id gc = Some arr" for arr
    using that ids c(4) by (simp add: ids_ok_def word_le_nat_alt)
  then have "(if i < unat c then grow (by_id gc) (unat c) ! i else None) = idtab gc i" for i
    by (cases "by_id gc") (auto simp: grow_nth idtab_def dest: order.strict_trans2)
  with True c show thesis
    by (intro that [of "grow (by_id gc) (unat c)" c]) simp_all
qed

lemma pon_gc_node_create_ok:
  assumes l: "all_nodes gc xs" and ids: "ids_ok gc" and fresh: "mem gc a = None"
    and small: "next_id gc < 2 ^ 62"
  obtains gc' where
    "pon_gc_node_create (Some gc) dat sz (Some a) True = Some (Some a, Some gc')"
    "all_nodes gc' (a # xs)" "ids_ok gc'" "next_id gc' = next_id gc + 1"
    "content gc' = (content gc)(a \<mapsto> new_node dat sz (next_id gc))"
    "sweep_frame (gc'\<lparr>next_id := 0, by_id_cap := 0\<rparr>) = sweep_frame (gc\<lparr>next_id := 0, by_id_cap := 0\<rparr>)"
    "released gc' = released gc"
proof -
  from l have seg: "dseg (mem gc) None (nodes_head gc) xs None"
    and dist: "distinct xs" and dom: "set xs = dom (mem gc)"
    and tl: "nodes_tail gc = end_of None xs"
    and tot: "total_nodes gc = of_nat (length xs)"
    by (simp_all add: all_nodes_def)
  have nin: "a \<notin> set xs" using dom fresh by auto
  let ?i = "next_id gc"
  let ?n = "new_node dat sz ?i"
  note lk = link_mem_dseg [OF seg dist fresh nin, of ?n]
  obtain arr cap where room:
    "(if next_id gc \<ge> by_id_cap gc
      then map_option (\<lambda>c. (Some (grow (by_id gc) (unat c)), c))
             (by_id_new_cap (if by_id_cap gc \<noteq> 0 then by_id_cap gc * 2 else 64) (next_id gc))
      else Some (by_id gc, by_id_cap gc)) = Some (Some arr, cap)"
    "length arr = unat cap" "next_id gc < cap" "\<forall>i. (if i < length arr then arr ! i else None) = idtab gc i"
    by (rule id_table_room [OF ids small])
  let ?gc = "gc\<lparr>mem := link_mem (mem gc) (nodes_head gc) a ?n, next_id := ?i + 1,
     nodes_tail := (if xs = [] then Some a else nodes_tail gc), nodes_head := Some a,
     total_nodes := total_nodes gc + 1, by_id := Some (arr[unat ?i := Some a]), by_id_cap := cap\<rparr>"
  have hd: "nodes_head gc = first_of xs" using seg by (rule dseg_first)
  have hx: "nodes_head gc = None \<longleftrightarrow> xs = []" by (auto simp: hd first_of_def split: list.splits)
  have hdom: "\<exists>k. mem gc b = Some k \<and> b \<noteq> a" if "nodes_head gc = Some b" for b
    using that hd dom nin by (auto simp: first_of_def split: list.splits)
  have lt: "unat ?i < unat cap" using room(3) by (simp add: word_less_nat_alt)
  have "pon_gc_node_create (Some gc) dat sz (Some a) True = Some (Some a, Some ?gc)"
  proof (cases "nodes_head gc")
    case None
    with hx room(1) lt room(2) show ?thesis
      by (auto simp: pon_gc_node_create_def upd_node_def link_mem_def new_node_def store_def arr_set_def
          split: if_splits)
  next
    case (Some b)
    with hx hdom [OF Some] room(1) lt room(2) show ?thesis
      by (auto simp: pon_gc_node_create_def upd_node_def link_mem_def new_node_def store_def arr_set_def Let_def
          split: if_splits)
  qed
  moreover have "all_nodes ?gc (a # xs)"
    using lk(1,2) dist nin dom tl tot by (auto simp: all_nodes_def new_node_def end_of_def)
  moreover have c: "content ?gc = (content gc)(a \<mapsto> ?n)"
    using lk(3) by (auto simp: content_def new_node_def fun_eq_iff)
  moreover have "ids_ok ?gc"
    unfolding ids_ok_alt
  proof (intro conjI allI)
    have idt: "idtab ?gc j = (if j = unat ?i then Some a else idtab gc j)" for j
      using room(2) lt spec [OF room(4), of j] by (cases "j < unat cap") (simp_all add: idtab_def)
    have ido: "id_of ?gc = (id_of gc)(a \<mapsto> ?i)"
      using c by (auto simp: id_of_content new_node_def)
    have key: "idtab gc i = Some b \<longleftrightarrow> map_option unat (id_of gc b) = Some i" for i b
      using ids by (simp add: ids_ok_alt)
    have old: "j < ?i" if "id_of gc b = Some j" for b j using ids that by (simp add: ids_ok_alt)
    have na: "id_of gc a = None" using fresh by (simp add: id_of_def)
    show "idtab ?gc j = Some b \<longleftrightarrow> map_option unat (id_of ?gc b) = Some j" for j b
      using key [of j b] old [of b] na by (auto simp: idt ido word_less_nat_alt)
    show "id_of ?gc b = Some j \<longrightarrow> j < next_id ?gc" for b j
    proof
      assume "id_of ?gc b = Some j"
      then have "j \<le> ?i" using old [of b j] by (auto simp: ido split: if_splits)
      moreover have "?i < ?i + 1" using small by (simp add: word_less_nat_alt unat_word_ariths)
      ultimately show "j < next_id ?gc" by simp
    qed
    show "case by_id ?gc of None \<Rightarrow> by_id_cap ?gc = 0 | Some arr \<Rightarrow> length arr = unat (by_id_cap ?gc)"
      using room(2) by simp
  qed
  ultimately show thesis by (intro that [of ?gc]) (simp_all add: sweep_frame_def list_frame_def)
qed


text \<open>A reference to a live node, while the node has fewer than 32768 of them.\<close>

lemma node_ok_grow:
  assumes ok: "node_ok D n" and room: "num_refs n < 2 ^ 15" and b: "b \<in> D"
    and n1: "n1 = (if num_refs n = refs_cap n
                   then n\<lparr>refs := Some (grow (refs n) (unat (if refs_cap n \<noteq> 0 then refs_cap n * 2 else 4))),
                         refs_cap := (if refs_cap n \<noteq> 0 then refs_cap n * 2 else 4)\<rparr> else n)"
  obtains arr where "store (refs n1) (unat (num_refs n1)) (Some b) = Some (Some arr)"
    "node_ok D (n1\<lparr>refs := Some arr, num_refs := num_refs n1 + 1\<rparr>)"
    "out_refs (n1\<lparr>refs := Some arr, num_refs := num_refs n1 + 1\<rparr>) = out_refs n @ [Some b]"
proof -
  let ?k = "unat (num_refs n)"
  have k: "?k < 2 ^ 15" using room by (simp add: word_less_nat_alt)
  have u: "unat (num_refs n + 1) = ?k + 1" using k by (simp add: unat_word_ariths)
  have "\<exists>xs. refs n1 = Some xs \<and> ?k < length xs \<and> length xs = unat (refs_cap n1) \<and> take ?k xs = out_refs n \<and>
          num_refs n1 = num_refs n"
  proof (cases "num_refs n = refs_cap n")
    case False
    with ok n1 show ?thesis
      by (auto simp: node_ok_def out_refs_def word_le_nat_alt le_less word_unat_eq_iff split: option.splits)
  next
    case True
    let ?c = "if refs_cap n \<noteq> 0 then refs_cap n * 2 else 4"
    have "?k < unat ?c"
      using True k by (auto simp: unat_word_ariths unat_gt_0 [symmetric])
    moreover have "take ?k (grow (refs n) (unat ?c)) = out_refs n"
    proof (rule nth_equalityI)
      have len: "length (out_refs n) = ?k" by (rule node_ok_length [OF ok])
      then show "length (take ?k (grow (refs n) (unat ?c))) = length (out_refs n)"
        using \<open>?k < unat ?c\<close> by simp
      fix i assume "i < length (take ?k (grow (refs n) (unat ?c)))"
      then have i: "i < ?k" "i < unat ?c" by simp_all
      from node_ok_load [OF ok i(1)] obtain b where "load (refs n) i = Some (Some b)"
        "out_refs n ! i = Some b" .
      with i show "take ?k (grow (refs n) (unat ?c)) ! i = out_refs n ! i"
        by (auto simp: grow_nth load_def arr_get_def split: option.splits if_splits)
    qed
    ultimately show ?thesis using True n1 by simp
  qed
  then obtain xs where xs: "refs n1 = Some xs" "?k < length xs" "length xs = unat (refs_cap n1)"
    "take ?k xs = out_refs n" "num_refs n1 = num_refs n" by blast
  let ?arr = "xs[?k := Some b]"
  let ?r = "n1\<lparr>refs := Some ?arr, num_refs := num_refs n1 + 1\<rparr>"
  have out: "out_refs ?r = out_refs n @ [Some b]"
    using xs u by (simp add: out_refs_def take_Suc_conv_app_nth)
  moreover have "node_ok D ?r"
    using ok b xs u out by (simp add: node_ok_def word_le_nat_alt)
  ultimately show thesis
    using xs by (intro that [of ?arr]) (simp_all add: store_def arr_set_def)
qed


lemma gc_wf_same_nodes:
  assumes wf: "gc_wf gc" and a: "mem gc a = Some n"
    and links: "prev_all n' = prev_all n" "next_all n' = next_all n" "node_id n' = node_id n"
    and ok: "node_ok (dom (mem gc)) n'"
  shows "gc_wf (gc\<lparr>mem := (mem gc)(a \<mapsto> n')\<rparr>)"
proof -
  let ?gc = "gc\<lparr>mem := (mem gc)(a \<mapsto> n')\<rparr>"
  from wf obtain xs where "all_nodes gc xs" by (auto simp: gc_wf_def)
  then have "all_nodes ?gc xs"
    using a dseg_same_links [where m = "mem gc" and a = a, OF a links(1,2)] by (auto simp: all_nodes_def)
  moreover have d: "dom (mem ?gc) = dom (mem gc)" using a by auto
  moreover have "graph_ok ?gc"
    using wf ok unfolding graph_ok_def d by (auto simp: gc_wf_def graph_ok_def)
  moreover have "id_of ?gc = id_of gc" "idtab ?gc = idtab gc"
    using a links(3) by (auto simp: id_of_def idtab_def fun_eq_iff)
  ultimately show ?thesis
    using wf unfolding gc_wf_def
    by (auto simp: ids_ok_alt roots_ok_def root_ptrs_def split: option.splits)
qed

lemma pon_gc_add_ref_ok:
  assumes wf: "gc_wf gc" and qt: "quiescent gc" and a: "mem gc a = Some n"
    and b: "b \<in> dom (mem gc)" and room: "num_refs n < 2 ^ 15"
  obtains n' gc' where "pon_gc_add_ref gc (Some a) (Some b) True = Some gc'"
    "gc_wf gc'" "quiescent gc'" "gc' = gc\<lparr>mem := (mem gc)(a \<mapsto> n')\<rparr>"
    "out_refs n' = out_refs n @ [Some b]" "data n' = data n" "data_size n' = data_size n"
    "node_id n' = node_id n"
proof -
  define n1 where "n1 = (if num_refs n = refs_cap n
                   then n\<lparr>refs := Some (grow (refs n) (unat (if refs_cap n \<noteq> 0 then refs_cap n * 2 else 4))),
                         refs_cap := (if refs_cap n \<noteq> 0 then refs_cap n * 2 else 4)\<rparr> else n)"
  have ok: "node_ok (dom (mem gc)) n" using wf a by (auto simp: gc_wf_def graph_ok_def)
  obtain arr where arr: "store (refs n1) (unat (num_refs n1)) (Some b) = Some (Some arr)"
    "node_ok (dom (mem gc)) (n1\<lparr>refs := Some arr, num_refs := num_refs n1 + 1\<rparr>)"
    "out_refs (n1\<lparr>refs := Some arr, num_refs := num_refs n1 + 1\<rparr>) = out_refs n @ [Some b]"
    using node_ok_grow [OF ok room b n1_def] .
  let ?n = "n1\<lparr>refs := Some arr, num_refs := num_refs n1 + 1\<rparr>"
  let ?gc = "gc\<lparr>mem := (mem gc)(a \<mapsto> ?n)\<rparr>"
  have keep: "prev_all ?n = prev_all n" "next_all ?n = next_all n" "node_id ?n = node_id n"
    "data ?n = data n" "data_size ?n = data_size n" "color ?n = color n" "next_gray ?n = next_gray n"
    by (simp_all add: n1_def)
  have "pon_gc_add_ref gc (Some a) (Some b) True = Some ?gc"
    using a arr(1) by (auto simp: pon_gc_add_ref_def upd_node_def n1_def Let_def split: if_splits)
  moreover have "gc_wf ?gc" by (rule gc_wf_same_nodes [OF wf a keep(1-3) arr(2)])
  moreover have "colors ?gc = colors gc" using a keep(6) by (auto simp: colors_def)
  then have "quiescent ?gc" using qt by (simp add: quiescent_def gray_queue_def)
  ultimately show thesis using arr(3) keep by (intro that [of ?gc ?n]) simp_all
qed

lemma pon_gc_add_root_ok:
  assumes wf: "gc_wf gc" and qt: "quiescent gc" and r: "r \<in> dom (mem gc)"
    and room: "num_roots gc < 2 ^ 30"
  obtains gc' where "pon_gc_add_root (Some gc) (Some r) True = Some (Some gc')"
    "gc_wf gc'" "quiescent gc'" "mem gc' = mem gc" "root_ptrs gc' = root_ptrs gc @ [Some r]"
proof -
  let ?k = "nat (num_roots gc)"
  have rok: "roots_ok gc" using wf by (simp add: gc_wf_def)
  then have pos: "0 \<le> num_roots gc" by (auto simp: roots_ok_def split: option.splits)
  let ?c = "if roots_cap gc \<noteq> 0 then roots_cap gc * 2 else 16"
  have "\<exists>g xs. (if num_roots gc = roots_cap gc
              then (if INT_MAX < ?c then None
                       else Some (gc\<lparr>roots := Some (grow (roots gc) (nat ?c)), roots_cap := ?c\<rparr>))
              else Some gc) = Some g \<and>
        g = gc\<lparr>roots := Some xs, roots_cap := int (length xs)\<rparr> \<and> ?k < length xs \<and>
        take ?k xs = root_ptrs gc"
  proof (cases "num_roots gc = roots_cap gc")
    case False
    with rok obtain xs where "roots gc = Some xs" "int (length xs) = roots_cap gc" "?k < length xs"
      by (auto simp: roots_ok_def split: option.splits)
    with False show ?thesis
      by (intro exI [of _ gc] exI [of _ xs]) (auto simp: root_ptrs_def)
  next
    case True
    have c: "?k < nat ?c" "?c \<le> INT_MAX" "0 \<le> ?c"
      using True room pos by (auto simp: INT_MAX_def)
    have "take ?k (grow (roots gc) (nat ?c)) = root_ptrs gc"
    proof (rule nth_equalityI)
      have len: "length (root_ptrs gc) = ?k" by (rule roots_ok_length [OF rok])
      then show "length (take ?k (grow (roots gc) (nat ?c))) = length (root_ptrs gc)"
        using c(1) by simp
      fix i assume "i < length (take ?k (grow (roots gc) (nat ?c)))"
      then have i: "i < ?k" "i < nat ?c" by simp_all
      from roots_ok_load [OF rok i(1)] obtain b where "load (roots gc) i = Some (Some b)"
        "root_ptrs gc ! i = Some b" .
      with i show "take ?k (grow (roots gc) (nat ?c)) ! i = root_ptrs gc ! i"
        by (auto simp: grow_nth load_def arr_get_def split: option.splits if_splits)
    qed
    with True c show ?thesis
      by (intro exI [of _ "grow (roots gc) (nat ?c)"] exI) (auto simp: )
  qed
  then obtain g xs where g: "(if num_roots gc = roots_cap gc
              then (if INT_MAX < ?c then None
                       else Some (gc\<lparr>roots := Some (grow (roots gc) (nat ?c)), roots_cap := ?c\<rparr>))
              else Some gc) = Some g"
        "g = gc\<lparr>roots := Some xs, roots_cap := int (length xs)\<rparr>" "?k < length xs"
        "take ?k xs = root_ptrs gc" by blast
  let ?gc = "gc\<lparr>roots := Some (xs[?k := Some r]), roots_cap := int (length xs), num_roots := num_roots gc + 1\<rparr>"
  have "pon_gc_add_root (Some gc) (Some r) True = Some (Some ?gc)"
  proof -
    let ?E = "if num_roots gc = roots_cap gc
              then (if INT_MAX < ?c then None
                       else Some (gc\<lparr>roots := Some (grow (roots gc) (nat ?c)), roots_cap := ?c\<rparr>))
              else Some gc"
    have "pon_gc_add_root (Some gc) (Some r) True = do {
        gc \<leftarrow> ?E;
        arr \<leftarrow> store (roots gc) (nat (num_roots gc)) (Some r);
        Some (Some (gc\<lparr>roots := arr, num_roots := num_roots gc + 1\<rparr>))}"
      unfolding pon_gc_add_root_def Let_def by simp
    then show ?thesis unfolding g(1) using g(2,3) by (simp add: store_def arr_set_def)
  qed
  moreover have rp: "root_ptrs ?gc = root_ptrs gc @ [Some r]"
    using g(3,4) pos by (simp add: root_ptrs_def nat_add_distrib take_Suc_conv_app_nth)
  moreover have "gc_wf ?gc"
  proof -
    have "num_roots gc + 1 \<le> int (length xs)" using g(3) pos by linarith
    then have "roots_ok ?gc" using rok r rp pos by (auto simp: roots_ok_def)
    then show ?thesis
      using wf unfolding gc_wf_def
      by (auto simp: all_nodes_def graph_ok_def ids_ok_def idtab_def split: option.splits)
  qed
  moreover have "quiescent ?gc" using qt by (simp add: quiescent_def gray_queue_def colors_def)
  ultimately show thesis by (intro that [of ?gc]) simp_all
qed


subsection \<open>Resetting and destroying\<close>

definition reset_mem :: "addr set \<Rightarrow> (addr \<rightharpoonup> PonGcNode) \<Rightarrow> addr \<rightharpoonup> PonGcNode" where
  "reset_mem A m a =
     (if a \<in> A then map_option (\<lambda>n. n\<lparr>color := PON_GC_WHITE, next_gray := None\<rparr>) (m a) else m a)"

lemma reset_mem_insert:
  "m a = Some n \<Longrightarrow> a \<notin> A \<Longrightarrow>
     reset_mem A (m(a \<mapsto> n\<lparr>color := PON_GC_WHITE, next_gray := None\<rparr>)) = reset_mem (insert a A) m"
  by (auto simp: reset_mem_def fun_eq_iff)

lemma reset_loop_total:
  assumes "dseg (mem gc) pr p zs None" and "distinct zs"
  shows "reset_loop p gc = Some (gc\<lparr>mem := reset_mem (set zs) (mem gc)\<rparr>)"
  using assms
proof (induction zs arbitrary: pr p gc)
  case Nil
  then have "reset_mem (set []) (mem gc) = mem gc" by (simp add: reset_mem_def fun_eq_iff)
  with Nil show ?case by (simp add: reset_loop.simps [of None])
next
  case (Cons a zs)
  then obtain n where n: "mem gc a = Some n" "p = Some a" "dseg (mem gc) (Some a) (next_all n) zs None"
    by (auto split: option.splits)
  let ?gc = "gc\<lparr>mem := (mem gc)(a \<mapsto> n\<lparr>color := PON_GC_WHITE, next_gray := None\<rparr>)\<rparr>"
  have "dseg (mem ?gc) (Some a) (next_all n) zs None" using n(3) Cons.prems(2) by (simp add: dseg_other)
  note IH = Cons.IH [OF this]
  have "reset_loop p gc = reset_loop (next_all n) ?gc"
    using n by (simp add: reset_loop.simps [of "Some a"] upd_node_def)
  also have "\<dots> = Some (?gc\<lparr>mem := reset_mem (set zs) (mem ?gc)\<rparr>)" by (rule IH) (use Cons.prems(2) in simp)
  also have "reset_mem (set zs) (mem ?gc) = reset_mem (set (a # zs)) (mem gc)"
    using reset_mem_insert [of "mem gc", OF n(1)] Cons.prems(2) by simp
  finally show ?case by simp
qed

lemma swap_fields: "gc\<lparr>released := r, mem := m\<rparr> = gc\<lparr>mem := m, released := r\<rparr>"
  by simp

lemma destroy_loop_total:
  assumes "dseg (mem gc) pr p zs None" and "distinct zs"
  shows "destroy_loop p gc = Some (gc\<lparr>mem := (mem gc) |` (- set zs),
           released := released gc @ concat (map (payload_of gc) zs)\<rparr>)"
  using assms
proof (induction zs arbitrary: pr p gc)
  case Nil
  then show ?case by (simp add: destroy_loop.simps [of None])
next
  case (Cons a zs)
  then obtain n where n: "mem gc a = Some n" "p = Some a" "dseg (mem gc) (Some a) (next_all n) zs None"
    by (auto split: option.splits)
  let ?gc = "gc\<lparr>mem := (mem gc)(a := None), released := released gc @ payload_of gc a\<rparr>"
  have seg: "dseg (mem ?gc) (Some a) (next_all n) zs None" using n(3) Cons.prems(2) by (simp add: dseg_other)
  have "payload_of ?gc b = payload_of gc b" if "b \<in> set zs" for b
    using that Cons.prems(2) by (auto simp: payload_of_def)
  then have pay: "map (payload_of ?gc) zs = map (payload_of gc) zs" by simp
  have "destroy_loop p gc = destroy_loop (next_all n) ?gc"
    using n by (cases "data n")
      (simp_all add: destroy_loop.simps [of "Some a"] payload_of_def swap_fields)
  also have "\<dots> = Some (?gc\<lparr>mem := (mem ?gc) |` (- set zs),
      released := released ?gc @ concat (map (payload_of ?gc) zs)\<rparr>)"
    by (rule Cons.IH [OF seg]) (use Cons.prems(2) in simp)
  also have "(mem ?gc) |` (- set zs) = (mem gc) |` (- set (a # zs))"
    by (auto simp: restrict_map_def fun_eq_iff)
  also note pay
  finally show ?case by simp
qed

lemma pon_gc_reset_ok:
  assumes "gc_wf gc"
  obtains gc' where "pon_gc_reset (Some gc) = Some (Some gc')" "gc_wf gc'" "quiescent gc'"
    "object gc' = object gc" "root_ptrs gc' = root_ptrs gc"
proof -
  from assms obtain xs where l: "all_nodes gc xs" by (auto simp: gc_wf_def)
  let ?m = "reset_mem (set xs) (mem gc)"
  let ?gc = "gc\<lparr>gray_head := None, gray_tail := None, gray_count := 0, mem := ?m,
     live_nodes := 0, dead_nodes := 0, notifications_sent := 0, scan_count := 0\<rparr>"
  have seg: "dseg (mem gc) None (nodes_head gc) xs None" "distinct xs" using l by (simp_all add: all_nodes_def)
  have "pon_gc_reset (Some gc) = Some (Some ?gc)"
    using reset_loop_total [of "gc\<lparr>gray_head := None, gray_tail := None, gray_count := 0\<rparr>" None "nodes_head gc" xs] seg
    by (simp add: pon_gc_reset_def)
  moreover have sh: "shape ?gc = shape gc"
    by (auto simp: shape_def reset_mem_def fun_eq_iff option.map_comp comp_def)
  have fr: "frame ?gc = frame (gc\<lparr>dead_nodes := 0\<rparr>)" by (simp add: frame_def)
  have sh': "shape ?gc = shape (gc\<lparr>dead_nodes := 0\<rparr>)" using sh by (simp add: shape_def fun_eq_iff)
  have "gc_wf (gc\<lparr>dead_nodes := 0\<rparr>)"
    using assms unfolding gc_wf_def
    by (auto simp: all_nodes_def graph_ok_def ids_ok_def idtab_def roots_ok_def root_ptrs_def split: option.splits)
  then have "gc_wf ?gc"
    unfolding gc_wf_def
    using shape_list [OF sh' fr] shape_ids [OF sh' fr] roots_ok_cong [OF sh' fr]
      shape_graph_ok [OF sh' [symmetric]] by blast
  moreover have "quiescent ?gc"
    using l by (auto simp: quiescent_def gray_queue_def colors_def reset_mem_def all_nodes_def split: if_splits)
  moreover have "object ?gc = object gc" by (rule shape_views(3) [OF sh])
  moreover have "root_ptrs ?gc = root_ptrs gc" by (simp add: root_ptrs_def split: option.split)
  ultimately show thesis by (rule that)
qed

end
