(* ===== verification/PonGcThms.thy ===== *)
theory PonGcThms
  imports PonGcSweep
begin

text \<open>
  The properties of the collector's interface, over the definitions of \<open>PonGc\<close>: marking and
  collection are exact, resetting and destroying leave nothing behind, and the limits of
  \<open>pon_gc_add_ref\<close>, \<open>pon_gc_remove_ref\<close> and \<open>pon_gc_node_create\<close>.
\<close>

subsection \<open>Creation keeps the state well formed\<close>

lemma gc_wf_zero: "gc_wf pon_gc_zero" "quiescent pon_gc_zero"
  by (auto simp: gc_wf_def all_nodes_def graph_ok_def ids_ok_def roots_ok_def quiescent_def pon_gc_zero_def
      idtab_def root_ptrs_def gray_queue_def colors_def intro: exI [of _ "[]"])

lemma create_wf:
  assumes wf: "gc_wf gc" and qt: "quiescent gc" and fresh: "mem gc a = None"
    and small: "next_id gc < 2 ^ 62"
  obtains gc' where
    "pon_gc_node_create (Some gc) dat sz (Some a) True = Some (Some a, Some gc')"
    "gc_wf gc'" "quiescent gc'" "next_id gc' = next_id gc + 1" "root_ptrs gc' = root_ptrs gc"
    "num_roots gc' = num_roots gc"
    "content gc' = (content gc)(a \<mapsto> new_node dat sz (next_id gc))"
    "idtab gc' (unat (next_id gc)) = Some a" "released gc' = released gc"
proof -
  from wf obtain xs where l: "all_nodes gc xs" by (auto simp: gc_wf_def)
  have ids: "ids_ok gc" using wf by (simp add: gc_wf_def)
  obtain gc' where c: "pon_gc_node_create (Some gc) dat sz (Some a) True = Some (Some a, Some gc')"
    "all_nodes gc' (a # xs)" "ids_ok gc'" "next_id gc' = next_id gc + 1"
    "content gc' = (content gc)(a \<mapsto> new_node dat sz (next_id gc))"
    "sweep_frame (gc'\<lparr>next_id := 0, by_id_cap := 0\<rparr>) = sweep_frame (gc\<lparr>next_id := 0, by_id_cap := 0\<rparr>)"
    "released gc' = released gc"
    using pon_gc_node_create_ok [OF l ids fresh small] .
  note f = sweep_frame_fields [OF c(6), simplified]
  have d: "dom (mem gc') = insert a (dom (mem gc))" by (simp add: content_dom c(5))
  have "graph_ok gc'"
    unfolding graph_ok_def
  proof (intro allI impI)
    fix b n' assume n': "mem gc' b = Some n'"
    show "node_ok (dom (mem gc')) n'"
    proof (cases "b = a")
      case True
      then have "content gc' b = Some (new_node dat sz (next_id gc))" using c(5) by simp
      with n' have "n'\<lparr>prev_all := None, next_all := None\<rparr> = new_node dat sz (next_id gc)"
        by (simp add: content_def)
      from arg_cong [OF this, of num_refs] arg_cong [OF this, of refs_cap] arg_cong [OF this, of refs]
      show ?thesis by (simp add: new_node_def node_ok_def out_refs_def)
    next
      case False
      then have "content gc b = content gc' b" using c(5) by simp
      from content_cong [OF this n'] obtain n where n: "mem gc b = Some n" "out_refs n = out_refs n'"
        "refs n = refs n'" "num_refs n = num_refs n'" "refs_cap n = refs_cap n'" .
      from wf n(1) have "node_ok (dom (mem gc)) n" by (simp add: gc_wf_def graph_ok_def)
      with n d show ?thesis by (auto simp: node_ok_def split: option.splits)
    qed
  qed
  moreover have rp: "root_ptrs gc' = root_ptrs gc" using f by (simp add: root_ptrs_def split: option.split)
  moreover have "roots_ok gc'"
    using wf f rp d by (auto simp: gc_wf_def roots_ok_def split: option.splits)
  moreover have "quiescent gc'"
    using qt f c(5) by (auto simp: quiescent_def gray_queue_def content_of_colors new_node_def split: if_splits)
  moreover have "idtab gc' (unat (next_id gc)) = Some a"
    using c(3,5) by (simp add: ids_ok_alt id_of_content new_node_def)
  ultimately show thesis using c f(2) by (intro that [of gc']) (auto simp: gc_wf_def)
qed

subsection \<open>A concrete graph\<close>

text \<open>
  Three nodes, ids 0, 1, 2, at addresses 10, 11, 12 with payload blocks 100, 101, 102; the root is
  node 0 and it refers to node 1. Node 2 refers to itself and is garbage.
\<close>

definition demo_gc :: "PonGcState option" where
  "demo_gc = do {
     (n0, g) \<leftarrow> pon_gc_node_create (Some pon_gc_zero) (Some 100) 8 (Some 10) True;
     (n1, g) \<leftarrow> pon_gc_node_create g (Some 101) 16 (Some 11) True;
     (n2, g) \<leftarrow> pon_gc_node_create g (Some 102) 24 (Some 12) True;
     g \<leftarrow> pon_gc_add_root g n0 True;
     gc \<leftarrow> g;
     gc \<leftarrow> pon_gc_add_ref gc n0 n1 True;
     pon_gc_add_ref gc n2 n2 True
   }"


lemma demo_gc_wf: "\<exists>gc. demo_gc = Some gc \<and> gc_wf gc \<and> quiescent gc"
proof -
  obtain g0 where g0: "pon_gc_node_create (Some pon_gc_zero) (Some 100) 8 (Some 10) True = Some (Some 10, Some g0)"
    "gc_wf g0" "quiescent g0" "next_id g0 = next_id pon_gc_zero + 1" "num_roots g0 = num_roots pon_gc_zero"
    "content g0 = (content pon_gc_zero)(10 \<mapsto> new_node (Some 100) 8 (next_id pon_gc_zero))"
    by (rule create_wf [OF gc_wf_zero, of 10]) (auto simp: pon_gc_zero_def)
  have z: "content pon_gc_zero = Map.empty" "next_id pon_gc_zero = 0" "num_roots pon_gc_zero = 0"
    by (auto simp: pon_gc_zero_def content_def)
  have c0: "mem g0 11 = None" "next_id g0 < 2 ^ 62" "num_roots g0 = 0"
    using g0(4-6) by (simp_all add: z content_mem [symmetric])
  obtain g1 where g1: "pon_gc_node_create (Some g0) (Some 101) 16 (Some 11) True = Some (Some 11, Some g1)"
    "gc_wf g1" "quiescent g1" "next_id g1 = next_id g0 + 1" "num_roots g1 = num_roots g0"
    "content g1 = (content g0)(11 \<mapsto> new_node (Some 101) 16 (next_id g0))"
    by (rule create_wf [OF g0(2,3) c0(1,2)])
  have c1: "mem g1 12 = None" "next_id g1 < 2 ^ 62" "num_roots g1 = 0"
    using g0(4-6) g1(4-6) by (simp_all add: z content_mem [symmetric])
  obtain g2 where g2: "pon_gc_node_create (Some g1) (Some 102) 24 (Some 12) True = Some (Some 12, Some g2)"
    "gc_wf g2" "quiescent g2" "num_roots g2 = num_roots g1"
    "content g2 = (content g1)(12 \<mapsto> new_node (Some 102) 24 (next_id g1))"
    by (rule create_wf [OF g1(2,3) c1(1,2)])
  have con: "content g2 10 = Some (new_node (Some 100) 8 0)" "content g2 11 = Some (new_node (Some 101) 16 1)"
    "content g2 12 = Some (new_node (Some 102) 24 2)"
    using g0(4,6) g1(4,6) g2(5) by (simp_all add: z)
  have dom2: "10 \<in> dom (mem g2)" "11 \<in> dom (mem g2)" "12 \<in> dom (mem g2)"
    by (auto simp: content_dom con)
  obtain g3 where g3: "pon_gc_add_root (Some g2) (Some 10) True = Some (Some g3)"
    "gc_wf g3" "quiescent g3" "mem g3 = mem g2"
    using pon_gc_add_root_ok [OF g2(2,3) dom2(1)] c1(3) g2(4) by auto
  have fresh: "num_refs n = 0" if "mem g2 a = Some n" "content g2 a = Some (new_node d sz i)" for a n d sz i
  proof -
    from that have "n\<lparr>prev_all := None, next_all := None\<rparr> = new_node d sz i" by (simp add: content_def)
    from arg_cong [OF this, of num_refs] show ?thesis by (simp add: new_node_def)
  qed
  from dom2 obtain k0 k2 where k: "mem g2 10 = Some k0" "mem g2 12 = Some k2" by auto
  have r: "num_refs k0 < 2 ^ 15" "num_refs k2 < 2 ^ 15"
    using fresh [OF k(1) con(1)] fresh [OF k(2) con(3)] by simp_all
  obtain n' g4 where g4: "pon_gc_add_ref g3 (Some 10) (Some 11) True = Some g4" "gc_wf g4" "quiescent g4"
    "g4 = g3\<lparr>mem := (mem g3)(10 \<mapsto> n')\<rparr>"
    by (rule pon_gc_add_ref_ok [OF g3(2,3), of 10 k0 11]) (use k r dom2 g3(4) in auto)
  obtain g5 where g5: "pon_gc_add_ref g4 (Some 12) (Some 12) True = Some g5" "gc_wf g5" "quiescent g5"
    by (rule pon_gc_add_ref_ok [OF g4(2,3), of 12 k2 12]) (use k r dom2 g3(4) g4(4) in auto)
  show ?thesis
    using g0(1) g1(1) g2(1) g3(1) g4(1) g5 by (simp add: demo_gc_def)
qed

lemma demo_gc_sweep:
  "map_option (\<lambda>(n, g). (n, map_option released g, map_option (\<lambda>g. map (\<lambda>a. mem g a = None) [10, 11, 12]) g))
     (demo_gc \<bind> (\<lambda>gc. pon_gc_mark_sweep (Some gc))) = Some (1, Some [102], Some [False, False, True])"
  by code_simp

subsection \<open>Marking and collecting\<close>

text \<open>
  C3. Marking is exact and terminates: on a well-formed state with no mark under way,
  \<open>pon_gc_mark\<close> returns, without following a dangling pointer, the number of nodes reachable
  from the roots; afterwards exactly these are black, every other node is still white, no node
  was changed otherwise, and each reachable node was scanned once.
\<close>

theorem pon_gc_mark_exact:
  assumes "gc_wf gc" and "quiescent gc"
  shows "\<exists>gc'. pon_gc_mark (Some gc) = Some (of_nat (card (reachable gc)), Some gc') \<and>
               colors gc' = (\<lambda>a. if a \<in> reachable gc then Some PON_GC_BLACK else colors gc a) \<and>
               object gc' = object gc \<and>
               scan_count gc' = scan_count gc + of_nat (card (reachable gc))"
proof -
  from gc_wf_markable [OF assms] have mk: "markable gc" and nb: "black gc = {}" by simp_all
  obtain g where g: "pon_gc_mark (Some gc) = Some (live_nodes g, Some g)"
    "black g = (edges gc)\<^sup>* `` (black gc \<union> root_set gc)" "shape g = shape gc" "markable g"
    "live_nodes g = live_nodes gc - of_nat (card (black gc)) + of_nat (card (black g))"
    "scan_count g = scan_count gc - of_nat (card (black gc)) + of_nat (card (black g))"
    by (rule pon_gc_mark_total [OF mk])
  have R: "black g = reachable gc" using g(2) nb by (simp add: reachable_def)
  have "colors g a = (if a \<in> reachable gc then Some PON_GC_BLACK else colors gc a)" for a
  proof (cases "mem gc a")
    case None
    then have "mem g a = None" using shape_dom [OF g(3)] by auto
    with None show ?thesis by (auto simp: colors_def R [symmetric] black_def)
  next
    case (Some n)
    then obtain n' where "mem g a = Some n'" using shape_dom [OF g(3)] by auto
    then have c: "colors g a = Some (color n')" by (simp add: colors_def)
    have "color n' = PON_GC_WHITE \<or> color n' = PON_GC_BLACK" using g(4) c by (simp add: markable_def)
    moreover have "colors gc a = Some PON_GC_WHITE"
      using assms(2) Some by (auto simp: quiescent_def colors_def)
    ultimately show ?thesis using c by (auto simp: R [symmetric] black_def)
  qed
  with g R nb assms(2) shape_views(3) [OF g(3)] show ?thesis
    by (intro exI [of _ g]) (simp add: quiescent_def fun_eq_iff)
qed

theorem pon_gc_mark_exact_witness:
  "\<exists>gc gc'. demo_gc = Some gc \<and> gc_wf gc \<and> quiescent gc \<and>
     pon_gc_mark (Some gc) = Some (of_nat (card (reachable gc)), Some gc') \<and> object gc' = object gc"
  using demo_gc_wf pon_gc_mark_exact by metis

text \<open>
  C4. A full collection is exact and terminates: \<open>pon_gc_mark_sweep\<close> returns the number of
  unreachable nodes, frees exactly these nodes, leaves every reachable node as it was, hands the
  payload of each freed node to \<open>erts_free\<close> once and no other block, and restores a well-formed
  quiescent state, so that collections can follow each other.
\<close>

theorem pon_gc_mark_sweep_exact:
  assumes "gc_wf gc" and "quiescent gc"
  shows "\<exists>gc' dead. pon_gc_mark_sweep (Some gc) = Some (of_nat (length dead), Some gc') \<and>
           distinct dead \<and> set dead = dom (mem gc) - reachable gc \<and>
           object gc' = object gc |` reachable gc \<and>
           released gc' = released gc @ concat (map (payload_of gc) dead) \<and>
           bytes_freed gc' = sum_list (map (size_of gc) dead) \<and>
           gc_wf gc' \<and> quiescent gc'"
proof -
  from assms(1) obtain xs where l: "all_nodes gc xs" and ok: "graph_ok gc" "ids_ok gc" "roots_ok gc"
    by (auto simp: gc_wf_def)
  obtain g where g:
    "pon_gc_mark_sweep (Some gc) = Some (of_nat (card (dom (mem gc) - reachable gc)), Some g)"
    "gc_wf g" "quiescent g"
    "object g = object gc |` reachable gc"
    "released g = released gc @ concat (map (payload_of gc) (filter (\<lambda>a. a \<notin> reachable gc) xs))"
    "bytes_freed g = bytes_of (filter (\<lambda>a. a \<notin> reachable gc) xs) gc"
    using collect_total [OF l ok assms(2)] .
  let ?dead = "filter (\<lambda>a. a \<notin> reachable gc) xs"
  have d: "distinct ?dead" "set ?dead = dom (mem gc) - reachable gc"
    using l by (auto simp: all_nodes_def)
  then have "card (dom (mem gc) - reachable gc) = length ?dead" using distinct_card by metis
  with g d show ?thesis
    by (intro exI [of _ g] exI [of _ ?dead]) (auto simp: bytes_of_def)
qed

theorem pon_gc_mark_sweep_exact_witness:
  "\<exists>gc gc' dead. demo_gc = Some gc \<and> pon_gc_mark_sweep (Some gc) = Some (1, Some gc') \<and>
     released gc' = [102] \<and> mem gc' 12 = None \<and> set dead = dom (mem gc) - reachable gc \<and>
     object gc' = object gc |` reachable gc"
proof -
  obtain gc where gc: "demo_gc = Some gc" "gc_wf gc" "quiescent gc" using demo_gc_wf by blast
  from pon_gc_mark_sweep_exact [OF gc(2,3)] obtain gc' dead where
    r: "pon_gc_mark_sweep (Some gc) = Some (of_nat (length dead), Some gc')"
    "set dead = dom (mem gc) - reachable gc" "object gc' = object gc |` reachable gc" by blast
  moreover from demo_gc_sweep [unfolded gc(1)] r(1) have "of_nat (length dead) = (1 :: u64)" "released gc' = [102]"
    "mem gc' 12 = None" by simp_all
  ultimately show ?thesis using gc(1) by (intro exI [of _ gc] exI [of _ gc'] exI [of _ dead]) simp
qed


subsection \<open>Reset and destruction\<close>

text \<open>
  C5. After a mark that was not swept, \<open>pon_gc_reset\<close> makes the state ready for a new cycle: it
  returns, every node is white again, the grey queue is empty and no object has changed.
\<close>

theorem pon_gc_reset_after_mark:
  assumes "gc_wf gc" and "quiescent gc"
  shows "\<exists>n gc1 gc2. pon_gc_mark (Some gc) = Some (n, Some gc1) \<and>
           pon_gc_reset (Some gc1) = Some (Some gc2) \<and>
           gc_wf gc2 \<and> quiescent gc2 \<and> object gc2 = object gc \<and> root_ptrs gc2 = root_ptrs gc"
proof -
  from gc_wf_markable [OF assms] have mk: "markable gc" by simp
  obtain g where g: "pon_gc_mark (Some gc) = Some (live_nodes g, Some g)" "shape g = shape gc"
    "frame g = frame (gc\<lparr>cycles := cycles gc + 1\<rparr>)" "markable g"
    by (rule pon_gc_mark_total [OF mk])
  have sh: "shape g = shape (gc\<lparr>cycles := cycles gc + 1\<rparr>)" using g(2) by (simp add: shape_def fun_eq_iff)
  have "gc_wf (gc\<lparr>cycles := cycles gc + 1\<rparr>)"
    using assms(1) unfolding gc_wf_def
    by (auto simp: all_nodes_def graph_ok_def ids_ok_def idtab_def roots_ok_def root_ptrs_def split: option.splits)
  then have "gc_wf g"
    unfolding gc_wf_def
    using shape_list [OF sh g(3)] shape_ids [OF sh g(3)] roots_ok_cong [OF sh g(3)]
      shape_graph_ok [OF sh [symmetric]] by blast
  then obtain h where "pon_gc_reset (Some g) = Some (Some h)" "gc_wf h" "quiescent h"
    "object h = object g" "root_ptrs h = root_ptrs g" by (rule pon_gc_reset_ok)
  moreover have "root_ptrs g = root_ptrs gc"
    using frame_fields [OF g(3)] by (simp add: root_ptrs_def split: option.split)
  ultimately show ?thesis using g(1) shape_views(3) [OF g(2)] by auto
qed

theorem pon_gc_reset_after_mark_witness:
  "\<exists>gc gc1 n gc2. demo_gc = Some gc \<and> pon_gc_mark (Some gc) = Some (n, Some gc1) \<and>
     pon_gc_reset (Some gc1) = Some (Some gc2) \<and> quiescent gc2"
  using demo_gc_wf pon_gc_reset_after_mark by metis

text \<open>
  C6. Destroying a well-formed state frees every node and hands every payload to
  \<open>erts_free\<close> exactly once, also in the middle of a mark; the state left is the initial one.
\<close>

theorem pon_gc_destroy_frees_all:
  assumes "gc_wf gc"
  shows "\<exists>gc' xs. pon_gc_destroy (Some gc) = Some (Some gc') \<and>
           distinct xs \<and> set xs = dom (mem gc) \<and> mem gc' = Map.empty \<and>
           released gc' = released gc @ concat (map (payload_of gc) xs) \<and>
           gc' = pon_gc_zero\<lparr>released := released gc'\<rparr>"
proof -
  from assms obtain xs where l: "dseg (mem gc) None (nodes_head gc) xs None" "distinct xs"
    "set xs = dom (mem gc)" by (auto simp: gc_wf_def all_nodes_def)
  have e: "mem gc |` (- set xs) = Map.empty" by (auto simp: l(3) restrict_map_def)
  show ?thesis
    using l destroy_loop_total [OF l(1,2)]
    by (intro exI [of _ "pon_gc_zero\<lparr>released := released gc @ concat (map (payload_of gc) xs)\<rparr>"]
        exI [of _ xs]) (simp add: pon_gc_destroy_def e [unfolded l(3)] pon_gc_zero_def)
qed

theorem pon_gc_destroy_frees_all_witness:
  "\<exists>gc gc' xs. demo_gc = Some gc \<and> pon_gc_destroy (Some gc) = Some (Some gc') \<and>
     mem gc' = Map.empty \<and> released gc' = released gc @ concat (map (payload_of gc) xs)"
  using demo_gc_wf pon_gc_destroy_frees_all by metis

subsection \<open>Limits of the interface\<close>

text \<open>
  C7. A node that already has 32768 references, its array being full, makes
  \<open>pon_gc_add_ref\<close> double its 16-bit capacity to zero and write outside the (empty) array:
  undefined behaviour, whatever the target.
\<close>

theorem pon_gc_add_ref_capacity_wraps:
  assumes "mem gc a = Some n" and "num_refs n = 32768" and "refs_cap n = 32768"
  shows "pon_gc_add_ref gc (Some a) (Some b) True = None"
proof -
  have w: "(32768 :: u16) * 2 = 0" by simp
  show ?thesis
    using assms by (simp add: pon_gc_add_ref_def upd_node_def w store_def arr_set_def grow_def)
qed

theorem pon_gc_add_ref_capacity_wraps_witness:
  "pon_gc_add_ref
     (pon_gc_zero\<lparr>mem := [10 \<mapsto> (new_node None 0 0)\<lparr>num_refs := 32768, refs_cap := 32768,
                              refs := Some (replicate 32768 (Some 10))\<rparr>]\<rparr>)
     (Some 10) (Some 10) True = None"
  by (rule pon_gc_add_ref_capacity_wraps
      [where n = "(new_node None 0 0)\<lparr>num_refs := 32768, refs_cap := 32768,
                              refs := Some (replicate 32768 (Some 10))\<rparr>"])
    (simp_all add: new_node_def)

text \<open>
  \<open>pon_gc_remove_ref\<close> drops the second reference of the array, whichever one was asked
  for: when the first of three distinct references is removed, it stays and the second is lost.
\<close>

lemma pon_gc_remove_ref_drops_second:
  assumes "mem gc a = Some n" and "refs n = Some (x # y # z # rest)" and "num_refs n = 3"
    and "to = x \<or> to = y \<or> to = z"
  shows "\<exists>gc' n'. pon_gc_remove_ref gc (Some a) to = Some gc' \<and> mem gc' a = Some n' \<and>
           out_refs n' = [x, z]"
proof -
  have f: "find_ref (refs n) to 0 3 = Some True"
    using assms(2,4) by (auto simp: numeral_3_eq_3 load_def arr_get_def)
  have "shift_refs (refs n) 1 1 = Some (Some (x # z # z # rest))"
    using assms(2) by (simp add: load_def store_def arr_get_def arr_set_def)
  with f assms show ?thesis
    by (simp add: pon_gc_remove_ref_def upd_node_def out_refs_def)
qed

lemma pon_gc_remove_ref_drops_second_witness:
  "\<exists>gc' n'. pon_gc_remove_ref
     (pon_gc_zero\<lparr>mem := [10 \<mapsto> (new_node None 0 0)\<lparr>num_refs := 3, refs_cap := 4,
                              refs := Some [Some 1, Some 2, Some 3, None]\<rparr>]\<rparr>)
     (Some 10) (Some 1) = Some gc' \<and> mem gc' 10 = Some n' \<and> out_refs n' = [Some 1, Some 3]"
  by (rule pon_gc_remove_ref_drops_second
      [where n = "(new_node None 0 0)\<lparr>num_refs := 3, refs_cap := 4,
                              refs := Some [Some 1, Some 2, Some 3, None]\<rparr>"
         and y = "Some 2" and rest = "[None]"])
    (simp_all add: new_node_def)

text \<open>
  When the id table cannot grow, \<open>pon_gc_node_create\<close> frees the node but leaves it at the
  head of the list of all nodes: the next sweep follows a dangling pointer.
\<close>

lemma pon_gc_node_create_dangling:
  assumes "gc_wf gc" and "mem gc a = None" and "by_id_cap gc \<le> next_id gc" and "next_id gc < 2 ^ 62"
  shows "\<exists>gc'. pon_gc_node_create (Some gc) dat sz (Some a) False = Some (None, Some gc') \<and>
           nodes_head gc' = Some a \<and> mem gc' a = None \<and> pon_gc_sweep (Some gc') = None"
proof -
  have ids: "ids_ok gc" using assms(1) by (simp add: gc_wf_def)
  obtain c where room:
    "by_id_new_cap (if by_id_cap gc \<noteq> 0 then by_id_cap gc * 2 else 64) (next_id gc) = Some c"
    by (rule id_table_room [OF ids assms(4)]) (use assms(3) in auto)
  have head: "\<exists>k. mem gc b = Some k \<and> b \<noteq> a" if "nodes_head gc = Some b" for b
  proof -
    from assms(1) obtain xs where "dseg (mem gc) None (nodes_head gc) xs None" by (auto simp: gc_wf_def all_nodes_def)
    with that assms(2) show ?thesis by (cases xs) (auto split: option.splits)
  qed
  obtain gc' where "pon_gc_node_create (Some gc) dat sz (Some a) False = Some (None, Some gc')"
    "nodes_head gc' = Some a" "mem gc' a = None"
  proof (cases "nodes_head gc")
    case None
    with room assms(3) show ?thesis
      by (auto intro!: that simp: pon_gc_node_create_def upd_node_def split: if_splits)
  next
    case (Some b)
    with head [OF Some] room assms(3) show ?thesis
      by (auto intro!: that simp: pon_gc_node_create_def upd_node_def split: if_splits)
  qed
  then show ?thesis by (simp add: pon_gc_sweep_def sweep_loop.simps [of "Some a"])
qed

lemma pon_gc_node_create_dangling_witness:
  "\<exists>gc'. pon_gc_node_create (Some pon_gc_zero) None 0 (Some 10) False = Some (None, Some gc') \<and>
     nodes_head gc' = Some 10 \<and> mem gc' 10 = None \<and> pon_gc_sweep (Some gc') = None"
  by (rule pon_gc_node_create_dangling [OF gc_wf_zero(1)]) (simp_all add: pon_gc_zero_def)

end
