(* ===== verification/ErlTerm.thy ===== *)
theory ErlTerm
  imports Prelude
begin

text \<open>
  Tagged terms (\<^verbatim>\<open>erl_term.h\<close>), on a 64-bit machine without debug checks: the tag
  macros the PON code uses, over machine words, and a memory of words. An address that is not in
  the memory's domain is not allocated; reading it is undefined (\<open>None\<close>).
\<close>

type_synonym eterm = u64
type_synonym memory = "u64 \<rightharpoonup> u64"

subsection \<open>Tags\<close>

definition TAG_PRIMARY_LIST :: u64 where "TAG_PRIMARY_LIST = 1"
definition TAG_PRIMARY_BOXED :: u64 where "TAG_PRIMARY_BOXED = 2"
definition TAG_PRIMARY_IMMED1 :: u64 where "TAG_PRIMARY_IMMED1 = 3"
definition TAG_PTR_MASK :: u64 where "TAG_PTR_MASK = 7"
definition TAG_IMMED1_SMALL :: u64 where "TAG_IMMED1_SMALL = 15"
definition NIL :: eterm where "NIL = 0x3B"
definition THE_NON_VALUE :: eterm where "THE_NON_VALUE = 0"

definition is_non_value :: "eterm \<Rightarrow> bool" where "is_non_value x \<longleftrightarrow> x = THE_NON_VALUE"

text \<open>The one-bit tests the headers use in place of comparing the two tag bits.\<close>

definition is_boxed :: "eterm \<Rightarrow> bool" where "is_boxed x \<longleftrightarrow> x AND (3 - TAG_PRIMARY_BOXED) = 0"
definition is_list :: "eterm \<Rightarrow> bool" where "is_list x \<longleftrightarrow> x AND (3 - TAG_PRIMARY_LIST) = 0"

definition ptr_val :: "eterm \<Rightarrow> u64" where "ptr_val x = x AND NOT TAG_PTR_MASK"
definition boxed_val :: "eterm \<Rightarrow> u64" where "boxed_val x = ptr_val x"
definition list_val :: "eterm \<Rightarrow> u64" where "list_val x = ptr_val x"
definition make_boxed :: "u64 \<Rightarrow> eterm" where "make_boxed a = a + TAG_PRIMARY_BOXED"
definition make_list :: "u64 \<Rightarrow> eterm" where "make_list a = a + TAG_PRIMARY_LIST"

text \<open>Indexing a pointer to words.\<close>

definition word_at :: "memory \<Rightarrow> u64 \<Rightarrow> nat \<Rightarrow> u64 option" where
  "word_at m a i = m (a + of_nat i * 8)"

subsection \<open>Small integers\<close>

definition make_small :: "u64 \<Rightarrow> eterm" where "make_small x = push_bit 4 x + TAG_IMMED1_SMALL"
definition is_small :: "eterm \<Rightarrow> bool" where "is_small x \<longleftrightarrow> x AND 15 = TAG_IMMED1_SMALL"
definition unsigned_val :: "eterm \<Rightarrow> u64" where "unsigned_val x = drop_bit 4 x"
definition signed_val :: "eterm \<Rightarrow> int" where "signed_val x = sint x div 16"

lemma mask4: "(15 :: u64) = mask 4"
  by (simp add: mask_eq_exp_minus_1)

lemma make_small_or: "make_small x = push_bit 4 x OR mask 4"
proof -
  have "push_bit 4 x AND mask 4 = (0 :: u64)"
    by (rule bit_word_eqI) (auto simp: bit_simps)
  then show ?thesis
    by (simp add: make_small_def TAG_IMMED1_SMALL_def mask4 del: mask_numeral)
      (metis disjunctive_add_eq_or)
qed

lemma is_small_make_small [simp]: "is_small (make_small x)"
proof -
  have "(push_bit 4 x OR mask 4) AND mask 4 = (mask 4 :: u64)"
    by (rule bit_word_eqI) (auto simp: bit_simps)
  then show ?thesis by (simp only: is_small_def make_small_or TAG_IMMED1_SMALL_def mask4)
qed

lemma signed_val_make_small:
  assumes "- (2 ^ 59) \<le> i" and "i < 2 ^ 59"
  shows "signed_val (make_small (word_of_int i)) = i"
proof -
  have "make_small (word_of_int i) = word_of_int (i * 16 + 15)"
    by (simp add: make_small_def TAG_IMMED1_SMALL_def push_bit_eq_mult)
  moreover have "sint (word_of_int (i * 16 + 15) :: u64) = i * 16 + 15"
    unfolding sint_sbintrunc' using assms by (simp add: signed_take_bit_int_eq_self)
  ultimately show ?thesis by (simp add: signed_val_def)
qed

lemma tag_tests: "is_boxed x \<longleftrightarrow> \<not> bit x 0" "is_list x \<longleftrightarrow> \<not> bit x 1"
  using and_exp_eq_0_iff_not_bit [of x 0] and_exp_eq_0_iff_not_bit [of x 1]
  by (simp_all add: is_boxed_def is_list_def TAG_PRIMARY_BOXED_def TAG_PRIMARY_LIST_def)

lemma small_bits: "is_small x \<Longrightarrow> n < 4 \<Longrightarrow> bit x n"
proof -
  assume "is_small x" and n: "n < 4"
  then have "x AND mask 4 = mask 4" by (simp add: is_small_def TAG_IMMED1_SMALL_def mask4 del: mask_numeral)
  then have "bit (x AND mask 4) n = bit (mask 4 :: u64) n" by simp
  with n show "bit x n" by (simp add: bit_simps del: mask_numeral)
qed

lemma small_tags: "is_small x \<Longrightarrow> \<not> is_list x" "is_small x \<Longrightarrow> \<not> is_boxed x"
  using small_bits [of x 0] small_bits [of x 1] by (auto simp: tag_tests)

lemma NIL_tags [simp]: "\<not> is_list NIL" "\<not> is_boxed NIL" "\<not> is_small NIL"
  by (simp_all add: is_list_def is_boxed_def is_small_def NIL_def TAG_PRIMARY_LIST_def
      TAG_PRIMARY_BOXED_def TAG_IMMED1_SMALL_def)

subsection \<open>Tuples\<close>

definition is_arity_value :: "u64 \<Rightarrow> bool" where "is_arity_value x \<longleftrightarrow> x AND 0x3F = 0"
definition arityval :: "u64 \<Rightarrow> u64" where "arityval x = drop_bit 6 x"
definition make_arityval :: "u64 \<Rightarrow> u64" where "make_arityval n = push_bit 6 n"
definition tuple_val :: "eterm \<Rightarrow> u64" where "tuple_val x = boxed_val x"

definition is_tuple :: "memory \<Rightarrow> eterm \<Rightarrow> bool option" where
  "is_tuple m x =
     (if \<not> is_boxed x then Some False
      else map_option is_arity_value (m (boxed_val x)))"

text \<open>A tuple of the given elements: at an aligned address, header and elements in the memory.\<close>

definition aligned :: "u64 \<Rightarrow> bool" where "aligned a \<longleftrightarrow> a AND TAG_PTR_MASK = 0"

definition tuple_in :: "memory \<Rightarrow> eterm \<Rightarrow> eterm list \<Rightarrow> bool" where
  "tuple_in m x es \<longleftrightarrow>
     (\<exists>a. aligned a \<and> x = make_boxed a \<and> m a = Some (make_arityval (of_nat (length es))) \<and>
          (\<forall>i < length es. word_at m a (Suc i) = Some (es ! i)))"

lemma aligned_bits: "aligned a \<Longrightarrow> n < 3 \<Longrightarrow> \<not> bit a n"
proof -
  assume "aligned a" and n: "n < 3"
  moreover have "(7 :: u64) = mask 3" by (simp add: mask_eq_exp_minus_1)
  ultimately have "a AND mask 3 = 0" by (simp add: aligned_def TAG_PTR_MASK_def del: mask_numeral)
  then have "bit (a AND mask 3) n = bit (0 :: u64) n" by simp
  with n show "\<not> bit a n" by (simp add: bit_simps del: mask_numeral)
qed

lemma aligned_add:
  assumes "aligned a" and "k < 3"
  shows "a + 2 ^ k = a OR 2 ^ k" and "(a OR 2 ^ k) AND NOT (mask 3) = a"
proof -
  have "a AND 2 ^ k = 0" using aligned_bits [OF assms] by (simp add: and_exp_eq_0_iff_not_bit)
  then show "a + 2 ^ k = a OR 2 ^ k" by (rule disjunctive_add_eq_or)
  show "(a OR 2 ^ k) AND NOT (mask 3) = a"
    by (rule bit_word_eqI) (use aligned_bits [OF assms(1)] assms(2) in \<open>auto simp: bit_simps\<close>)
qed

lemma aligned_tags:
  assumes "aligned a"
  shows "ptr_val (make_boxed a) = a" "ptr_val (make_list a) = a" "is_boxed (make_boxed a)"
    "is_list (make_list a)" "\<not> is_boxed (make_list a)" "\<not> is_list (make_boxed a)"
proof -
  have m: "TAG_PTR_MASK = mask 3" by (simp add: TAG_PTR_MASK_def mask_eq_exp_minus_1)
  have b: "make_boxed a = a OR 2 ^ 1" and l: "make_list a = a OR 2 ^ 0"
    using aligned_add(1) [OF assms, of 1] aligned_add(1) [OF assms, of 0]
    by (simp_all add: make_boxed_def make_list_def TAG_PRIMARY_BOXED_def TAG_PRIMARY_LIST_def)
  show "ptr_val (make_boxed a) = a" "ptr_val (make_list a) = a"
    using aligned_add(2) [OF assms, of 1] aligned_add(2) [OF assms, of 0]
    by (simp_all only: ptr_val_def b l m)
  have "\<not> bit a 0" "\<not> bit a 1" using aligned_bits [OF assms, of 0] aligned_bits [OF assms, of 1] by simp_all
  then show "is_boxed (make_boxed a)" "is_list (make_list a)" "\<not> is_boxed (make_list a)"
    "\<not> is_list (make_boxed a)"
    by (simp_all only: tag_tests b l bit_or_iff bit_exp_iff) simp_all
qed

lemma arityval_make [simp]: "n < 2 ^ 58 \<Longrightarrow> arityval (make_arityval n) = n"
proof -
  assume "n < 2 ^ 58"
  then have "unat n < 2 ^ 58" by (simp add: word_less_nat_alt)
  then have "unat (push_bit 6 n) = unat n * 64"
    by (simp add: push_bit_eq_mult unat_word_ariths)
  then show ?thesis
    by (simp add: arityval_def make_arityval_def word_unat_eq_iff drop_bit_eq_div unat_div)
qed

lemma is_arity_value_make [simp]: "is_arity_value (make_arityval n)"
proof -
  have "(0x3F :: u64) = mask 6" by (simp add: mask_eq_exp_minus_1)
  moreover have "push_bit 6 n AND mask 6 = (0 :: u64)" by (rule bit_word_eqI) (auto simp: bit_simps)
  ultimately show ?thesis by (simp only: is_arity_value_def make_arityval_def)
qed

end
