(* ===== verification/PonPremise.thy ===== *)
theory PonPremise
  imports PonStats ErlTerm
begin

text \<open>
  Premises (\<^verbatim>\<open>pon_premise.h\<close>, \<^verbatim>\<open>pon_premise.c\<close>): the patterns a process registers for
  its selective receive. The premises of a process are a linked list in a store of their own; the
  notification at enqueue and the fast path of the receive are switched off in the source (they
  return 0), and so they are here.
\<close>

subsection \<open>Data\<close>

definition PON_TYPE_TAG_BITS :: nat where "PON_TYPE_TAG_BITS = 8"
definition PON_NUM_TYPE_BUCKETS :: u64 where "PON_NUM_TYPE_BUCKETS = push_bit PON_TYPE_TAG_BITS 1"
definition pon_type_tag :: "eterm \<Rightarrow> u64" where "pon_type_tag t = t AND (PON_NUM_TYPE_BUCKETS - 1)"

record ErtsPremise =
  pattern :: eterm
  match_fn :: ptr
  has_match :: int
  matched_term :: eterm
  matched_msg :: ptr
  clause_index :: u64
  next_premise :: ptr

definition ERTS_INIT_PREMISE :: "eterm \<Rightarrow> ptr \<Rightarrow> u64 \<Rightarrow> ErtsPremise" where
  "ERTS_INIT_PREMISE pat mfn cidx =
     \<lparr>pattern = pat, match_fn = mfn, has_match = 0, matched_term = THE_NON_VALUE,
      matched_msg = None, clause_index = cidx, next_premise = None\<rparr>"

text \<open>The part of a process the premises use: the head of its list and the premise objects.\<close>

record prem_proc =
  pon_premises :: ptr
  prem_mem :: "addr \<rightharpoonup> ErtsPremise"

subsection \<open>Matching\<close>

text \<open>
  The loop of \<open>erts_pon_default_match\<close> over the elements, \<open>k\<close> iterations from index \<open>i\<close>.
\<close>

fun match_elems :: "memory \<Rightarrow> u64 \<Rightarrow> u64 \<Rightarrow> nat \<Rightarrow> nat \<Rightarrow> int option" where
  "match_elems m ptr_p ptr_t i 0 = Some 1"
| "match_elems m ptr_p ptr_t i (Suc k) = do {
     pe \<leftarrow> word_at m ptr_p i;
     if is_non_value pe then match_elems m ptr_p ptr_t (Suc i) k
     else do {
       te \<leftarrow> word_at m ptr_t i;
       if pe \<noteq> te then Some 0 else match_elems m ptr_p ptr_t (Suc i) k
     }
   }"

text \<open>The arities are stored in a C \<open>int\<close>.\<close>

definition int_arity :: "u64 \<Rightarrow> int" where
  "int_arity hdr = sint (ucast (arityval hdr) :: u32)"

definition erts_pon_default_match :: "memory \<Rightarrow> eterm \<Rightarrow> eterm \<Rightarrow> int option" where
  "erts_pon_default_match m pat trm =
     (if pat = trm then Some 1
      else do {
        tp \<leftarrow> is_tuple m pat;
        tt \<leftarrow> (if tp then is_tuple m trm else Some False);
        if tp \<and> tt then do {
          hp \<leftarrow> m (tuple_val pat);
          ht \<leftarrow> m (tuple_val trm);
          if int_arity hp \<noteq> int_arity ht then Some 0
          else match_elems m (tuple_val pat) (tuple_val trm) 1 (nat (int_arity hp))
        } else Some 0
      })"

subsection \<open>The list of premises\<close>

partial_function (option) free_premises ::
    "ptr \<Rightarrow> (addr \<rightharpoonup> ErtsPremise) \<Rightarrow> (addr \<rightharpoonup> ErtsPremise) option" where
  "free_premises old m =
     (case old of
        None \<Rightarrow> Some m
      | Some a \<Rightarrow> do {
          pr \<leftarrow> m a;
          free_premises (next_premise pr) (m(a := None))
        })"

definition erts_pon_register_premises ::
    "prem_proc \<Rightarrow> ptr \<Rightarrow> PonStats \<Rightarrow> (prem_proc \<times> PonStats) option" where
  "erts_pon_register_premises p premises st = do {
     m \<leftarrow> free_premises (pon_premises p) (prem_mem p);
     Some (p\<lparr>prem_mem := m, pon_premises := premises\<rparr>,
           PON_STATS_INC premises_registered_update st)
   }"

definition erts_pon_unregister_premises :: "prem_proc \<Rightarrow> prem_proc option" where
  "erts_pon_unregister_premises p = do {
     m \<leftarrow> free_premises (pon_premises p) (prem_mem p);
     Some (p\<lparr>prem_mem := m, pon_premises := None\<rparr>)
   }"

definition erts_pon_notify_premises :: "prem_proc \<Rightarrow> addr \<Rightarrow> eterm \<Rightarrow> int \<times> prem_proc" where
  "erts_pon_notify_premises p msg term = (if pon_premises p = None then (0, p) else (0, p))"

definition erts_pon_receive :: "prem_proc \<Rightarrow> eterm" where
  "erts_pon_receive p = THE_NON_VALUE"

definition erts_pon_advance_to_matched :: "prem_proc \<Rightarrow> int \<times> prem_proc" where
  "erts_pon_advance_to_matched p = (if pon_premises p = None then (0, p) else (0, p))"

text \<open>The body of the loop of \<open>erts_pon_note_message_consumed\<close> on one premise.\<close>

definition clear_match :: "addr \<Rightarrow> ErtsPremise \<Rightarrow> ErtsPremise" where
  "clear_match msgp prem =
     (if matched_msg prem = Some msgp
      then prem\<lparr>has_match := 0, matched_term := THE_NON_VALUE, matched_msg := None\<rparr>
      else prem)"

partial_function (option) consumed_loop ::
    "ptr \<Rightarrow> addr \<Rightarrow> (addr \<rightharpoonup> ErtsPremise) \<Rightarrow> (addr \<rightharpoonup> ErtsPremise) option" where
  "consumed_loop prem msgp m =
     (case prem of
        None \<Rightarrow> Some m
      | Some a \<Rightarrow> do {
          pr \<leftarrow> m a;
          consumed_loop (next_premise (clear_match msgp pr)) msgp (m(a \<mapsto> clear_match msgp pr))
        })"

definition erts_pon_note_message_consumed :: "prem_proc \<Rightarrow> addr \<Rightarrow> prem_proc option" where
  "erts_pon_note_message_consumed p msgp = do {
     m \<leftarrow> consumed_loop (pon_premises p) msgp (prem_mem p);
     Some (p\<lparr>prem_mem := m\<rparr>)
   }"

text \<open>The arrival counter: an atomic increment that returns the new value.\<close>

definition erts_pon_next_msg_seq :: "u64 \<Rightarrow> u64 \<times> u64" where
  "erts_pon_next_msg_seq pon_msg_seq = (pon_msg_seq + 1, pon_msg_seq + 1)"

text \<open>
  The lazy state of the type queues, which hangs off the signal queues of a process
  (\<^verbatim>\<open>erl_message.h\<close>); \<open>al\<close> is the block \<open>erts_alloc\<close> gives. The code that fills the queues is
  switched off by \<open>#if 0\<close>.
\<close>

record ErtsPonState =
  type_queues :: "ptr list"
  type_queue_len :: "int list"
  type_save :: "ptr list"

record pon_sig_qs =
  pon_state :: ptr
  pon_state_mem :: "addr \<rightharpoonup> ErtsPonState"

definition pon_state_zero :: ErtsPonState where
  "pon_state_zero =
     \<lparr>type_queues = replicate (unat PON_NUM_TYPE_BUCKETS) None,
      type_queue_len = replicate (unat PON_NUM_TYPE_BUCKETS) 0,
      type_save = replicate (unat PON_NUM_TYPE_BUCKETS) None\<rparr>"

definition erts_pon_ensure_state :: "addr \<Rightarrow> pon_sig_qs \<Rightarrow> ptr \<times> pon_sig_qs" where
  "erts_pon_ensure_state al qs =
     (let qs = (if pon_state qs = None
                then qs\<lparr>pon_state_mem := (pon_state_mem qs)(al \<mapsto> pon_state_zero), pon_state := Some al\<rparr>
                else qs)
      in (pon_state qs, qs))"

definition erts_pon_free_state :: "pon_sig_qs \<Rightarrow> pon_sig_qs option" where
  "erts_pon_free_state qs =
     (case pon_state qs of
        None \<Rightarrow> Some qs
      | Some a \<Rightarrow> do {
          st \<leftarrow> pon_state_mem qs a;
          Some (qs\<lparr>pon_state_mem := (pon_state_mem qs)(a := None), pon_state := None\<rparr>)
        })"

declare free_premises.simps [code] consumed_loop.simps [code]

subsection \<open>Matching is element-wise identity with wildcards\<close>

lemma tuple_in_header:
  assumes "tuple_in m x es" and "length es < 2 ^ 24"
  shows "is_tuple m x = Some True"
    and "m (tuple_val x) = Some (make_arityval (of_nat (length es)))"
    and "int_arity (make_arityval (of_nat (length es))) = int (length es)"
    and "i < length es \<Longrightarrow> word_at m (tuple_val x) (Suc i) = Some (es ! i)"
proof -
  from assms(1) obtain a where a: "aligned a" "x = make_boxed a"
    "m a = Some (make_arityval (of_nat (length es)))"
    "\<forall>i < length es. word_at m a (Suc i) = Some (es ! i)" by (auto simp: tuple_in_def)
  have v: "tuple_val x = a" "boxed_val x = a"
    using aligned_tags(1) [OF a(1)] by (simp_all add: tuple_val_def boxed_val_def a(2))
  show "is_tuple m x = Some True"
    using a aligned_tags(3) [OF a(1)] v by (simp add: is_tuple_def)
  show "m (tuple_val x) = Some (make_arityval (of_nat (length es)))" using a v by simp
  show "i < length es \<Longrightarrow> word_at m (tuple_val x) (Suc i) = Some (es ! i)" using a v by simp
  have "(of_nat (length es) :: u64) < 2 ^ 58"
    using assms(2) by (simp add: word_less_nat_alt unat_of_nat)
  then have "arityval (make_arityval (of_nat (length es))) = of_nat (length es)" by simp
  moreover have "ucast (of_nat (length es) :: u64) = (of_nat (length es) :: u32)"
    using assms(2) by (simp add: unsigned_of_nat take_bit_nat_eq_self)
  moreover have "sint (word_of_int (int (length es)) :: u32) = int (length es)"
    unfolding sint_sbintrunc' using assms(2) by (simp add: signed_take_bit_int_eq_self)
  ultimately show "int_arity (make_arityval (of_nat (length es))) = int (length es)"
    by (simp add: int_arity_def)
qed


lemma match_elems_iff:
  assumes "i + k = Suc (length ps)" and "length ts = length ps" and "0 < i"
    and "\<And>j. j < length ps \<Longrightarrow> word_at m a (Suc j) = Some (ps ! j)"
    and "\<And>j. j < length ts \<Longrightarrow> word_at m b (Suc j) = Some (ts ! j)"
  shows "match_elems m a b i k =
    Some (if \<forall>j < length ps. i \<le> Suc j \<longrightarrow> ps ! j = THE_NON_VALUE \<or> ps ! j = ts ! j then 1 else 0)"
  using assms
proof (induction k arbitrary: i)
  case 0
  then show ?case by auto
next
  case (Suc k)
  then obtain j where j: "i = Suc j" "j < length ps" by (cases i) auto
  have IH: "match_elems m a b (Suc i) k =
      Some (if \<forall>j < length ps. Suc i \<le> Suc j \<longrightarrow> ps ! j = THE_NON_VALUE \<or> ps ! j = ts ! j then 1 else 0)"
    using Suc by simp
  have split: "(\<forall>l < length ps. i \<le> Suc l \<longrightarrow> Q l) \<longleftrightarrow> Q j \<and> (\<forall>l < length ps. Suc i \<le> Suc l \<longrightarrow> Q l)" for Q
    using j by (auto simp: le_Suc_eq Suc_le_eq)
  have "match_elems m a b i (Suc k) =
      (if ps ! j = THE_NON_VALUE \<or> ps ! j = ts ! j then match_elems m a b (Suc i) k else Some 0)"
    using Suc.prems(4) [of j] Suc.prems(5) [of j] Suc.prems(2) j by (simp add: is_non_value_def)
  then show ?case
    unfolding IH split [of "\<lambda>l. ps ! l = THE_NON_VALUE \<or> ps ! l = ts ! l"] by simp
qed

lemma default_match_tuples:
  assumes "tuple_in m pat ps" and "tuple_in m trm ts" and "length ps < 2 ^ 24" and "length ts < 2 ^ 24"
  shows "erts_pon_default_match m pat trm =
    Some (if pat = trm \<or> list_all2 (\<lambda>p t. p = THE_NON_VALUE \<or> p = t) ps ts then 1 else 0)"
proof (cases "length ps = length ts")
  case False
  with tuple_in_header [OF assms(1,3)] tuple_in_header [OF assms(2,4)] show ?thesis
    by (auto simp: erts_pon_default_match_def dest: list_all2_lengthD)
next
  case True
  note p = tuple_in_header [OF assms(1,3)] and t = tuple_in_header [OF assms(2,4)]
  have "match_elems m (tuple_val pat) (tuple_val trm) 1 (length ps) =
      Some (if \<forall>j < length ps. 1 \<le> Suc j \<longrightarrow> ps ! j = THE_NON_VALUE \<or> ps ! j = ts ! j then 1 else 0)"
    using True p(4) t(4) by (intro match_elems_iff) auto
  with p t True show ?thesis
    by (simp add: erts_pon_default_match_def list_all2_conv_all_nth)
qed

text \<open>
  C17. What \<open>erts_pon_default_match\<close> decides for a tuple pattern and a tuple message in memory:
  it reads only the two tuples and answers 1 exactly when they are the same object or have the
  same arity and every element of the pattern is the wildcard or the same word as the element of
  the message.
\<close>

theorem erts_pon_default_match_tuples:
  assumes "tuple_in m pat ps" and "tuple_in m trm ts" and "length ps < 2 ^ 24" and "length ts < 2 ^ 24"
  shows "erts_pon_default_match m pat trm =
    Some (if pat = trm \<or> list_all2 (\<lambda>p t. p = THE_NON_VALUE \<or> p = t) ps ts then 1 else 0)"
  using assms by (rule default_match_tuples)

definition demo_mem :: memory where
  "demo_mem = [0x1000 \<mapsto> 0x80, 0x1008 \<mapsto> 0x10B, 0x1010 \<mapsto> 0,
               0x2000 \<mapsto> 0x80, 0x2008 \<mapsto> 0x10B, 0x2010 \<mapsto> 0x2F]"

theorem erts_pon_default_match_tuples_witness:
  "erts_pon_default_match demo_mem 0x1002 0x2002 = Some 1"
proof -
  have "tuple_in demo_mem 0x1002 [0x10B, 0]" "tuple_in demo_mem 0x2002 [0x10B, 0x2F]"
    by (auto intro!: exI [of _ "0x1000 :: u64"] exI [of _ "0x2000 :: u64"]
        simp: tuple_in_def aligned_def TAG_PTR_MASK_def make_boxed_def TAG_PRIMARY_BOXED_def
          demo_mem_def make_arityval_def word_at_def less_Suc_eq)
  from erts_pon_default_match_tuples [OF this] show ?thesis
    by (simp add: THE_NON_VALUE_def)
qed

text \<open>
  The comparison is not the deep \<open>=:=\<close> of Erlang: two messages whose only element is an
  equal tuple, stored at two addresses, do not match each other.
\<close>

lemma erts_pon_default_match_shallow:
  assumes "tuple_in m pat [x]" and "tuple_in m trm [y]" and "tuple_in m x es" and "tuple_in m y es"
    and "x \<noteq> y" and "pat \<noteq> trm"
  shows "erts_pon_default_match m pat trm = Some 0"
proof -
  have "x \<noteq> THE_NON_VALUE"
  proof
    assume "x = THE_NON_VALUE"
    then have z: "x = 0" by (simp add: THE_NON_VALUE_def)
    from assms(3) obtain a where "aligned a" "x = make_boxed a" by (auto simp: tuple_in_def)
    then have "\<not> is_list x" using aligned_tags(6) by simp
    then show False by (simp add: z is_list_def)
  qed
  with assms default_match_tuples [OF assms(1,2)] show ?thesis by simp
qed


definition demo_mem2 :: memory where
  "demo_mem2 = [0x1000 \<mapsto> 0x40, 0x1008 \<mapsto> 0x3002, 0x2000 \<mapsto> 0x40, 0x2008 \<mapsto> 0x4002,
                0x3000 \<mapsto> 0x40, 0x3008 \<mapsto> 0x2F, 0x4000 \<mapsto> 0x40, 0x4008 \<mapsto> 0x2F]"

lemma erts_pon_default_match_shallow_witness:
  "erts_pon_default_match demo_mem2 0x1002 0x2002 = Some 0"
proof (rule erts_pon_default_match_shallow [where x = "0x3002" and y = "0x4002" and es = "[0x2F]"])
  note defs = tuple_in_def aligned_def TAG_PTR_MASK_def make_boxed_def TAG_PRIMARY_BOXED_def
    demo_mem2_def make_arityval_def word_at_def
  show "tuple_in demo_mem2 0x1002 [0x3002]" by (auto intro!: exI [of _ "0x1000 :: u64"] simp: defs)
  show "tuple_in demo_mem2 0x2002 [0x4002]" by (auto intro!: exI [of _ "0x2000 :: u64"] simp: defs)
  show "tuple_in demo_mem2 0x3002 [0x2F]" by (auto intro!: exI [of _ "0x3000 :: u64"] simp: defs)
  show "tuple_in demo_mem2 0x4002 [0x2F]" by (auto intro!: exI [of _ "0x4000 :: u64"] simp: defs)
qed simp_all

subsection \<open>Ownership of the premises\<close>

fun prem_list :: "(addr \<rightharpoonup> ErtsPremise) \<Rightarrow> ptr \<Rightarrow> addr list \<Rightarrow> bool" where
  "prem_list m p [] \<longleftrightarrow> p = None"
| "prem_list m p (a # as) \<longleftrightarrow>
     p = Some a \<and> (case m a of None \<Rightarrow> False | Some pr \<Rightarrow> prem_list m (next_premise pr) as)"

lemma prem_list_other: "a \<notin> set as \<Longrightarrow> prem_list (m(a := v)) p as = prem_list m p as"
  by (induction as arbitrary: p) (auto split: option.splits)

lemma prem_list_dom: "prem_list m p as \<Longrightarrow> set as \<subseteq> dom m"
  by (induction as arbitrary: p) (auto split: option.splits)

lemma prem_list_mono: "prem_list m p as \<Longrightarrow> (\<And>a. a \<in> set as \<Longrightarrow> m' a = m a) \<Longrightarrow> prem_list m' p as"
  by (induction as arbitrary: p) (auto split: option.splits)

lemma free_premises_total:
  assumes "prem_list m p as" and "distinct as"
  shows "free_premises p m = Some (m |` (- set as))"
  using assms
proof (induction as arbitrary: p m)
  case Nil
  then show ?case by (simp add: free_premises.simps)
next
  case (Cons a as)
  then obtain pr where pr: "m a = Some pr" "p = Some a" "prem_list m (next_premise pr) as"
    by (auto split: option.splits)
  have "prem_list (m(a := None)) (next_premise pr) as" using pr(3) Cons.prems(2) by (simp add: prem_list_other)
  have
    "free_premises (next_premise pr) (m(a := None)) = Some ((m(a := None)) |` (- set as))"
    by (rule Cons.IH [OF \<open>prem_list (m(a := None)) (next_premise pr) as\<close>]) (use Cons.prems(2) in simp)
  moreover have "(m(a := None)) |` (- set as) = m |` (- set (a # as))"
    by (auto simp: restrict_map_def fun_eq_iff)
  ultimately show ?case using pr by (simp add: free_premises.simps [of "Some a"])
qed

text \<open>A process owns exactly the premises of its list.\<close>

definition prem_wf :: "prem_proc \<Rightarrow> addr list \<Rightarrow> bool" where
  "prem_wf p as \<longleftrightarrow> prem_list (prem_mem p) (pon_premises p) as \<and> distinct as \<and> set as = dom (prem_mem p)"

lemma clear_match_simps [simp]:
  "next_premise (clear_match msg pr) = next_premise pr" "matched_msg (clear_match msg pr) \<noteq> Some msg"
  "matched_msg pr \<noteq> Some msg \<Longrightarrow> clear_match msg pr = pr"
  by (simp_all add: clear_match_def)

definition clear_all :: "addr set \<Rightarrow> addr \<Rightarrow> (addr \<rightharpoonup> ErtsPremise) \<Rightarrow> addr \<rightharpoonup> ErtsPremise" where
  "clear_all A msg m a = (if a \<in> A then map_option (clear_match msg) (m a) else m a)"

lemma consumed_loop_total:
  assumes "prem_list m p as" and "distinct as"
  shows "consumed_loop p msg m = Some (clear_all (set as) msg m)"
  using assms
proof (induction as arbitrary: p m)
  case Nil
  then show ?case by (simp add: consumed_loop.simps clear_all_def [abs_def])
next
  case (Cons a as)
  then obtain pr where pr: "m a = Some pr" "p = Some a" "prem_list m (next_premise pr) as"
    by (auto split: option.splits)
  have l: "prem_list (m(a \<mapsto> clear_match msg pr)) (next_premise pr) as"
    using pr(3) Cons.prems(2) by (simp add: prem_list_other)
  have "consumed_loop p msg m = consumed_loop (next_premise pr) msg (m(a \<mapsto> clear_match msg pr))"
    using pr(1,2) by (simp add: consumed_loop.simps [of "Some a"])
  also have "\<dots> = Some (clear_all (set as) msg (m(a \<mapsto> clear_match msg pr)))"
    by (rule Cons.IH [OF l]) (use Cons.prems(2) in simp)
  also have "clear_all (set as) msg (m(a \<mapsto> clear_match msg pr)) = clear_all (set (a # as)) msg m"
    using pr(1) Cons.prems(2) by (auto simp: clear_all_def fun_eq_iff)
  finally show ?case .
qed

lemma prem_list_clear_all: "prem_list m p as \<Longrightarrow> prem_list (clear_all A msg m) p as"
  by (induction as arbitrary: p) (auto simp: clear_all_def split: option.splits)

text \<open>
  After a message is consumed no premise of the process refers to it any more, premises that
  refer to other messages are unchanged, and the list itself is unchanged; the call returns.
\<close>

lemma erts_pon_note_message_consumed_clears:
  assumes "prem_wf p as"
  shows "\<exists>p'. erts_pon_note_message_consumed p msg = Some p' \<and> prem_wf p' as \<and>
    (\<forall>a pr. prem_mem p' a = Some pr \<longrightarrow> matched_msg pr \<noteq> Some msg) \<and>
    (\<forall>a pr. prem_mem p a = Some pr \<longrightarrow> matched_msg pr \<noteq> Some msg \<longrightarrow> prem_mem p' a = Some pr)"
proof -
  from assms have l: "prem_list (prem_mem p) (pon_premises p) as" "distinct as" "set as = dom (prem_mem p)"
    by (simp_all add: prem_wf_def)
  let ?m = "clear_all (set as) msg (prem_mem p)"
  have "dom ?m = dom (prem_mem p)" by (auto simp: clear_all_def dom_def)
  with l consumed_loop_total [OF l(1,2), of msg] prem_list_clear_all [OF l(1)] show ?thesis
    by (intro exI [of _ "p\<lparr>prem_mem := ?m\<rparr>"])
      (auto simp: erts_pon_note_message_consumed_def prem_wf_def clear_all_def split: if_splits)
qed

lemma erts_pon_note_message_consumed_clears_witness:
  "\<exists>p'. erts_pon_note_message_consumed
      \<lparr>pon_premises = Some 1, prem_mem = [1 \<mapsto> (ERTS_INIT_PREMISE 0x10B None 0)\<lparr>matched_msg := Some 50\<rparr>]\<rparr> 50 = Some p' \<and>
    (\<forall>a pr. prem_mem p' a = Some pr \<longrightarrow> matched_msg pr \<noteq> Some 50)"
  using erts_pon_note_message_consumed_clears [of
      "\<lparr>pon_premises = Some 1, prem_mem = [1 \<mapsto> (ERTS_INIT_PREMISE 0x10B None 0)\<lparr>matched_msg := Some 50\<rparr>]\<rparr>" "[1]" 50]
  by (auto simp: prem_wf_def ERTS_INIT_PREMISE_def)

end
