(* ===== verification/PonBif.thy ===== *)
theory PonBif
  imports PonGcThms PonPremise
begin

text \<open>
  The BIFs of PON-BEAM (\<^verbatim>\<open>bif.c\<close>): \<open>pon_register_premises/1\<close>,
  \<open>pon_unregister_premises/0\<close>, \<open>pon_gc_register_objects/1\<close>, \<open>pon_gc_add_root/1\<close>,
  \<open>pon_gc_add_ref/2\<close>, \<open>pon_gc_collect/0\<close> and \<open>pon_gc_dump/0\<close>, and the map of
  \<open>system_info(pon_stats)\<close> (\<^verbatim>\<open>erl_bif_info.c\<close>).

  The arguments are tagged terms in a memory; allocator answers are parameters, functions of the
  position in the argument list where a loop allocates. The result is the Erlang value returned,
  \<open>BadArg\<close> for \<open>BIF_ERROR(BIF_P, BADARG)\<close>; lists and maps are given by their elements, since
  the heap factory that lays them out is not part of the model. \<open>tmp_blocks\<close> counts the live
  blocks of the temporary allocator; \<open>gc_orphans\<close> are the collector's nodes that are allocated and
  belong to no collector any more, \<open>gc_freed\<close> the payloads that were freed with a collector.
\<close>

subsection \<open>State and results\<close>

datatype bif_ret = BadArg | RTrue | RFalse | RList "eterm list" | RMap "(string \<times> eterm) list"

record bif_proc =
  prem :: prem_proc
  gcs :: "PonGcState option"
  tmp_blocks :: nat
  sig_qs :: pon_sig_qs
  gc_orphans :: "addr \<rightharpoonup> PonGcNode"
  gc_freed :: "addr list"

definition proc_init :: bif_proc where
  "proc_init = \<lparr>prem = \<lparr>pon_premises = None, prem_mem = Map.empty\<rparr>, gcs = None, tmp_blocks = 0,
     sig_qs = \<lparr>pon_state = None, pon_state_mem = Map.empty\<rparr>, gc_orphans = Map.empty, gc_freed = []\<rparr>"

subsection \<open>Premises\<close>

text \<open>
  The loop of \<open>pon_register_premises_1\<close>. \<open>al i\<close> is the block of the \<open>i\<close>-th premise; \<open>tail\<close> is
  \<open>None\<close> for \<open>&prems\<close> and \<open>Some a\<close> for \<open>&a->next_premise\<close>.
\<close>

partial_function (option) premises_loop ::
    "memory \<Rightarrow> (nat \<Rightarrow> addr) \<Rightarrow> eterm \<Rightarrow> nat \<Rightarrow> ptr \<Rightarrow> ptr \<Rightarrow> (addr \<rightharpoonup> ErtsPremise)
      \<Rightarrow> (eterm \<times> ptr \<times> (addr \<rightharpoonup> ErtsPremise)) option" where
  "premises_loop m al l idx prems tail st =
     (if is_list l then do {
        e \<leftarrow> word_at m (list_val l) 0;
        st \<leftarrow> Some (st(al idx \<mapsto> ERTS_INIT_PREMISE e None (of_nat idx)));
        (prems, st) \<leftarrow> (case tail of
            None \<Rightarrow> Some (Some (al idx), st)
          | Some t \<Rightarrow> do {
              pt \<leftarrow> st t;
              Some (prems, st(t \<mapsto> pt\<lparr>next_premise := Some (al idx)\<rparr>))
            });
        d \<leftarrow> word_at m (list_val l) 1;
        premises_loop m al d (Suc idx) prems (Some (al idx)) st
      } else Some (l, prems, st))"

definition pon_register_premises_1 ::
    "memory \<Rightarrow> (nat \<Rightarrow> addr) \<Rightarrow> eterm \<Rightarrow> bif_proc \<Rightarrow> PonStats \<Rightarrow> (bif_ret \<times> bif_proc \<times> PonStats) option" where
  "pon_register_premises_1 m al arg p st =
     (if \<not> is_list arg then Some (BadArg, p, st)
      else do {
        (l, prems, pm) \<leftarrow> premises_loop m al arg 0 None None (prem_mem (prem p));
        if l \<noteq> NIL then do {
          pm \<leftarrow> free_premises prems pm;
          Some (BadArg, p\<lparr>prem := (prem p)\<lparr>prem_mem := pm\<rparr>\<rparr>, st)
        } else do {
          (q, st) \<leftarrow> erts_pon_register_premises ((prem p)\<lparr>prem_mem := pm\<rparr>) prems st;
          Some (RTrue, p\<lparr>prem := q\<rparr>, st)
        }
      })"

definition pon_unregister_premises_0 :: "bif_proc \<Rightarrow> (bif_ret \<times> bif_proc) option" where
  "pon_unregister_premises_0 p = do {
     q \<leftarrow> erts_pon_unregister_premises (prem p);
     Some (RTrue, p\<lparr>prem := q\<rparr>)
   }"

subsection \<open>The collector\<close>

text \<open>
  What the allocators answer to \<open>pon_gc_register_objects_1\<close>: the block of the state, of the
  array of ids and of its growth, and for the \<open>i\<close>-th element the payload, the node and the
  growth of the id table.
\<close>

record gc_allocs =
  state_ok :: bool
  ids_alloc :: bool
  ids_grow :: "nat \<Rightarrow> bool"
  payload_at :: "nat \<Rightarrow> ptr"
  node_at :: "nat \<Rightarrow> ptr"
  table_ok :: "nat \<Rightarrow> bool"

text \<open>
  One round of the loop: the element, the \<open>int\<close>s \<open>n\<close> and \<open>cap\<close>, the array \<open>ids\<close> of
  \<open>cap\<close> cells, whose first \<open>n\<close> are the ids collected so far; \<open>Inl\<close> is an error return.
\<close>

definition grow_ids :: "bool \<Rightarrow> int \<Rightarrow> int \<Rightarrow> u64 list \<Rightarrow> (int \<times> u64 list) option option" where
  "grow_ids ok n cap ids =
     (if n = cap then do {
        cap \<leftarrow> c_int (cap * 2);
        Some (if ok then Some (cap, arr_realloc 0 ids (nat cap)) else None)
      } else Some (Some (cap, ids)))"

definition register_object ::
    "gc_allocs \<Rightarrow> eterm \<Rightarrow> int \<Rightarrow> int \<Rightarrow> u64 list \<Rightarrow> PonGcState
      \<Rightarrow> (PonGcState + int \<times> int \<times> u64 list \<times> PonGcState) option" where
  "register_object al e n cap ids gc =
     (if \<not> is_small e \<or> signed_val e < 0 then Some (Inl gc)
      else if signed_val e > 0 \<and> payload_at al (nat n) = None then Some (Inl gc)
      else do {
        payload \<leftarrow> Some (if signed_val e > 0 then payload_at al (nat n) else None);
        (node, g) \<leftarrow> pon_gc_node_create (Some gc) payload (word_of_int (signed_val e))
                       (node_at al (nat n)) (table_ok al (nat n));
        gc \<leftarrow> g;
        (case node of
           None \<Rightarrow> Some (Inl (case payload of
                                None \<Rightarrow> gc | Some d \<Rightarrow> gc\<lparr>released := released gc @ [d]\<rparr>))
         | Some a \<Rightarrow> do {
             grown \<leftarrow> grow_ids (ids_grow al (nat n)) n cap ids;
             (case grown of
                None \<Rightarrow> Some (Inl gc)
              | Some (cap, ids) \<Rightarrow> do {
                  nd \<leftarrow> mem gc a;
                  ids \<leftarrow> arr_set ids (nat n) (node_id nd);
                  n \<leftarrow> c_int (n + 1);
                  Some (Inr (n, cap, ids, gc))
                })
           })
      })"

partial_function (option) objects_loop ::
    "memory \<Rightarrow> gc_allocs \<Rightarrow> eterm \<Rightarrow> int \<Rightarrow> int \<Rightarrow> u64 list \<Rightarrow> PonGcState
      \<Rightarrow> (PonGcState + eterm \<times> int \<times> u64 list \<times> PonGcState) option" where
  "objects_loop m al l n cap ids gc =
     (if is_list l then do {
        e \<leftarrow> word_at m (list_val l) 0;
        r \<leftarrow> register_object al e n cap ids gc;
        (case r of
           Inl gc \<Rightarrow> Some (Inl gc)
         | Inr (n, cap, ids, gc) \<Rightarrow> do {
             d \<leftarrow> word_at m (list_val l) 1;
             objects_loop m al d n cap ids gc
           })
      } else Some (Inr (l, n, ids, gc)))"

text \<open>The loop that builds the result, from the last id to the first.\<close>

fun ids_list :: "u64 list \<Rightarrow> nat \<Rightarrow> eterm list \<Rightarrow> eterm list option" where
  "ids_list ids 0 res = Some res"
| "ids_list ids (Suc i) res = do {
     v \<leftarrow> arr_get ids i;
     ids_list ids i (make_small v # res)
   }"

text \<open>
  The error returns of the loop and the improper-list return leave the array of ids allocated,
  as in the source.
\<close>

definition pon_gc_register_objects_1 ::
    "memory \<Rightarrow> gc_allocs \<Rightarrow> eterm \<Rightarrow> bif_proc \<Rightarrow> (bif_ret \<times> bif_proc) option" where
  "pon_gc_register_objects_1 m al arg p =
     (if \<not> is_list arg then Some (BadArg, p)
      else
        (case erts_pon_gc_state (gcs p) (state_ok al) of
           None \<Rightarrow> Some (BadArg, p)
         | Some gc \<Rightarrow>
            (if \<not> ids_alloc al then Some (BadArg, p\<lparr>gcs := Some gc\<rparr>)
             else do {
               p \<leftarrow> Some (p\<lparr>tmp_blocks := tmp_blocks p + 1\<rparr>);
               r \<leftarrow> objects_loop m al arg 0 16 (replicate 16 0) gc;
               (case r of
                  Inl gc \<Rightarrow> Some (BadArg, p\<lparr>gcs := Some gc\<rparr>)
                | Inr (l, n, ids, gc) \<Rightarrow>
                    (if l \<noteq> NIL then Some (BadArg, p\<lparr>gcs := Some gc\<rparr>)
                     else do {
                       res \<leftarrow> ids_list ids (nat n) [];
                       Some (RList res, p\<lparr>gcs := Some gc, tmp_blocks := tmp_blocks p - 1\<rparr>)
                     }))
             })))"

definition pon_gc_add_root_1 ::
    "bool \<Rightarrow> bool \<Rightarrow> eterm \<Rightarrow> bif_proc \<Rightarrow> (bif_ret \<times> bif_proc) option" where
  "pon_gc_add_root_1 alloc_ok realloc_ok arg p =
     (if \<not> is_small arg then Some (BadArg, p)
      else
        (case erts_pon_gc_state (gcs p) alloc_ok of
           None \<Rightarrow> Some (RFalse, p)
         | Some gc \<Rightarrow> do {
             node \<leftarrow> pon_gc_node_by_id (Some gc) (word_of_int (signed_val arg));
             if node = None then Some (RFalse, p\<lparr>gcs := Some gc\<rparr>)
             else do {
               g \<leftarrow> pon_gc_add_root (Some gc) node realloc_ok;
               Some (RTrue, p\<lparr>gcs := g\<rparr>)
             }
           }))"

definition pon_gc_add_ref_2 ::
    "bool \<Rightarrow> bool \<Rightarrow> eterm \<Rightarrow> eterm \<Rightarrow> bif_proc \<Rightarrow> (bif_ret \<times> bif_proc) option" where
  "pon_gc_add_ref_2 alloc_ok realloc_ok arg1 arg2 p =
     (if \<not> is_small arg1 \<or> \<not> is_small arg2 then Some (BadArg, p)
      else
        (case erts_pon_gc_state (gcs p) alloc_ok of
           None \<Rightarrow> Some (RFalse, p)
         | Some gc \<Rightarrow> do {
             from \<leftarrow> pon_gc_node_by_id (Some gc) (word_of_int (signed_val arg1));
             to \<leftarrow> pon_gc_node_by_id (Some gc) (word_of_int (signed_val arg2));
             if from = None \<or> to = None then Some (RFalse, p\<lparr>gcs := Some gc\<rparr>)
             else do {
               gc \<leftarrow> pon_gc_add_ref gc from to realloc_ok;
               Some (RTrue, p\<lparr>gcs := Some gc\<rparr>)
             }
           }))"

definition pon_gc_collect_0 ::
    "bool \<Rightarrow> bif_proc \<Rightarrow> PonStats \<Rightarrow> (bif_ret \<times> bif_proc \<times> PonStats) option" where
  "pon_gc_collect_0 alloc_ok p st =
     (case erts_pon_gc_state (gcs p) alloc_ok of
        None \<Rightarrow> Some (BadArg, p, st)
      | Some gc \<Rightarrow> do {
          (removed, g) \<leftarrow> pon_gc_mark_sweep (Some gc);
          gc \<leftarrow> g;
          st \<leftarrow> Some (PON_STATS_ADD gc_notifications_sent_update (notifications_sent gc) st);
          st \<leftarrow> Some (PON_STATS_ADD gc_scans_avoided_update removed st);
          st \<leftarrow> Some (PON_STATS_INC gc_incremental_steps_update st);
          Some (RMap
            [(''collected'', make_small removed), (''live'', make_small (live_nodes gc)),
             (''total'', make_small (total_nodes gc)),
             (''notifications_sent'', make_small (notifications_sent gc)),
             (''scans'', make_small (scan_count gc)), (''bytes_freed'', make_small (bytes_freed gc)),
             (''cycles'', make_small (cycles gc)), (''scans_avoided'', make_small removed)],
            p\<lparr>gcs := Some gc\<rparr>, st)
        })"

definition pon_gc_dump_0 :: "bool \<Rightarrow> bif_proc \<Rightarrow> bif_ret \<times> bif_proc" where
  "pon_gc_dump_0 alloc_ok p =
     (case erts_pon_gc_state (gcs p) alloc_ok of
        None \<Rightarrow> (BadArg, p)
      | Some gc \<Rightarrow>
         (RMap [(''total'', make_small (total_nodes gc)), (''live'', make_small (live_nodes gc)),
                (''dead'', make_small (dead_nodes gc)),
                (''notifications_sent'', make_small (notifications_sent gc)),
                (''scans'', make_small (scan_count gc)), (''cycles'', make_small (cycles gc))],
          p\<lparr>gcs := Some gc\<rparr>))"

text \<open>What \<open>delete_process\<close> frees of the PON state when a process exits.\<close>

definition pon_delete_process :: "bif_proc \<Rightarrow> bif_proc option" where
  "pon_delete_process p = do {
     q \<leftarrow> (if pon_premises (prem p) \<noteq> None then erts_pon_unregister_premises (prem p)
          else Some (prem p));
     (g, left, freed) \<leftarrow> erts_pon_gc_destroy_state (gcs p);
     qs \<leftarrow> erts_pon_free_state (sig_qs p);
     Some (p\<lparr>prem := q, gcs := g, gc_orphans := gc_orphans p ++ left, gc_freed := gc_freed p @ freed,
             sig_qs := qs\<rparr>)
   }"

declare premises_loop.simps [code] objects_loop.simps [code]

subsection \<open>Statistics\<close>

definition pon_stats_map :: "PonStats \<Rightarrow> bif_ret" where
  "pon_stats_map st =
     RMap
       [(''premises_registered'', make_small (premises_registered st)),
        (''premise_notifications'', make_small (premise_notifications st)),
        (''mailbox_scans_avoided'', make_small (mailbox_scans_avoided st)),
        (''messages_classified'', make_small (messages_classified st)),
        (''messages_type_collision'', make_small (messages_type_collision st)),
        (''messages_pon_queued'', make_small (messages_pon_queued st)),
        (''condition_notifications'', make_small (condition_notifications st)),
        (''pon_overhead_us'', make_small (pon_overhead_us st)),
        (''timerfd_created'', make_small (timerfd_created st)),
        (''timer_instigations'', make_small (timer_instigations st)),
        (''timer_scans_avoided'', make_small (timer_scans_avoided st)),
        (''timer_wheel_fallback'', make_small (timer_wheel_fallback st)),
        (''timerfd_expirations'', make_small (timerfd_expirations st)),
        (''condition_wakeups'', make_small (condition_wakeups st)),
        (''scheduler_idle_blocks'', make_small (scheduler_idle_blocks st)),
        (''ets_watchers_registered'', make_small (ets_watchers_registered st)),
        (''ets_watcher_hits'', make_small (ets_watcher_hits st)),
        (''gc_notifications_sent'', make_small (gc_notifications_sent st)),
        (''gc_scans_avoided'', make_small (gc_scans_avoided st)),
        (''gc_incremental_steps'', make_small (gc_incremental_steps st))]"

text \<open>The hook of the scheduler: it only counts.\<close>

definition erts_pon_schedule_notify :: "PonStats \<Rightarrow> PonStats" where
  "erts_pon_schedule_notify st = PON_STATS_INC condition_notifications_update st"


subsection \<open>Erlang lists in memory\<close>

fun list_in :: "memory \<Rightarrow> eterm \<Rightarrow> eterm list \<Rightarrow> eterm \<Rightarrow> bool" where
  "list_in m l [] fin \<longleftrightarrow> l = fin"
| "list_in m l (e # es) fin \<longleftrightarrow>
     (\<exists>a d. aligned a \<and> l = make_list a \<and> word_at m a 0 = Some e \<and> word_at m a 1 = Some d \<and>
            list_in m d es fin)"

lemma list_in_Cons:
  assumes "list_in m l (e # es) fin"
  obtains d where "is_list l" "word_at m (list_val l) 0 = Some e" "word_at m (list_val l) 1 = Some d"
    "list_in m d es fin"
proof -
  from assms obtain a d where a: "aligned a" "l = make_list a" "word_at m a 0 = Some e"
    "word_at m a 1 = Some d" "list_in m d es fin" by auto
  have "list_val l = a" "is_list l" using aligned_tags [OF a(1)] by (simp_all add: list_val_def a(2))
  with a show thesis by (intro that [of d]) simp_all
qed

subsection \<open>Registering premises\<close>

definition body :: "(addr \<rightharpoonup> ErtsPremise) \<Rightarrow> addr \<rightharpoonup> ErtsPremise" where
  "body st a = map_option (\<lambda>pr. pr\<lparr>next_premise := None\<rparr>) (st a)"

fun built :: "(nat \<Rightarrow> addr) \<Rightarrow> nat \<Rightarrow> eterm list \<Rightarrow> (addr \<rightharpoonup> ErtsPremise) \<Rightarrow> addr \<rightharpoonup> ErtsPremise" where
  "built al idx [] b = b"
| "built al idx (e # es) b = built al (Suc idx) es (b(al idx \<mapsto> ERTS_INIT_PREMISE e None (of_nat idx)))"

lemma prem_list_snoc:
  assumes "prem_list st p (ds @ [t])" and "distinct (ds @ [t])" and "a \<notin> set (ds @ [t])"
    and "st t = Some pt" and "next_premise new = None"
  shows "prem_list (st(a \<mapsto> new, t \<mapsto> pt\<lparr>next_premise := Some a\<rparr>)) p (ds @ [t, a])"
  using assms by (induction ds arbitrary: p) (auto split: option.splits)

lemma premises_loop_total:
  assumes "list_in m l es fin" and "\<not> is_list fin" and "prem_list st prems ds" and "distinct ds"
    and "tail = (if ds = [] then None else Some (last ds))"
    and "\<And>i. idx \<le> i \<Longrightarrow> al i \<notin> dom st" and "inj al"
  shows "\<exists>prems' st'. premises_loop m al l idx prems tail st = Some (fin, prems', st') \<and>
           prem_list st' prems' (ds @ map al [idx..<idx + length es]) \<and> body st' = built al idx es (body st) \<and>
           (\<forall>a \<in> dom st - set ds. st' a = st a)"
  using assms
proof (induction es arbitrary: l idx prems tail st ds)
  case Nil
  then show ?case by (simp add: premises_loop.simps)
next
  case (Cons e es)
  obtain d where d: "is_list l" "word_at m (list_val l) 0 = Some e" "word_at m (list_val l) 1 = Some d"
    "list_in m d es fin" using list_in_Cons [OF Cons.prems(1)] .
  let ?a = "al idx" and ?new = "ERTS_INIT_PREMISE e None (of_nat idx)"
  have fresh: "?a \<notin> dom st" using Cons.prems(6) by simp
  have nd: "?a \<notin> set ds" using prem_list_dom [OF Cons.prems(3)] fresh by auto
  have new: "next_premise ?new = None" by (simp add: ERTS_INIT_PREMISE_def)
  obtain prems1 st1 where s1: "(case tail of
            None \<Rightarrow> Some (Some ?a, st(?a \<mapsto> ?new))
          | Some t \<Rightarrow> do {
              pt \<leftarrow> (st(?a \<mapsto> ?new)) t;
              Some (prems, (st(?a \<mapsto> ?new))(t \<mapsto> pt\<lparr>next_premise := Some ?a\<rparr>))
            }) = Some (prems1, st1)" "prem_list st1 prems1 (ds @ [?a])" "dom st1 = insert ?a (dom st)"
    "body st1 = (body st)(?a \<mapsto> ?new)" "\<forall>a \<in> dom st - set ds. st1 a = st a"
  proof (cases ds rule: rev_cases)
    case Nil
    then show ?thesis
      using Cons.prems(5) new fresh
      by (intro that [of "Some ?a" "st(?a \<mapsto> ?new)"]) (auto simp: body_def ERTS_INIT_PREMISE_def)
  next
    case (snoc cs t)
    then obtain pt where pt: "st t = Some pt" "t \<noteq> ?a"
      using prem_list_dom [OF Cons.prems(3)] nd by auto
    let ?st = "st(?a \<mapsto> ?new, t \<mapsto> pt\<lparr>next_premise := Some ?a\<rparr>)"
    have "prem_list ?st prems (cs @ [t, ?a])"
      using prem_list_snoc [of st prems cs t ?a pt ?new] Cons.prems(3,4) nd pt new snoc by simp
    moreover have "body ?st = (body st)(?a \<mapsto> ?new)"
      using pt by (auto simp: body_def fun_eq_iff ERTS_INIT_PREMISE_def)
    ultimately show ?thesis
      using Cons.prems(5) snoc pt fresh by (intro that [of prems ?st]) auto
  qed
  have "al i \<notin> dom st1" if "Suc idx \<le> i" for i
    using that Cons.prems(6) [of i] injD [OF Cons.prems(7), of i idx] by (auto simp: s1(3))
  with Cons.IH [OF d(4) Cons.prems(2) s1(2), of "Some ?a" "Suc idx"] Cons.prems(4,7) nd
  obtain prems' st' where r: "premises_loop m al d (Suc idx) prems1 (Some ?a) st1 = Some (fin, prems', st')"
    "prem_list st' prems' ((ds @ [?a]) @ map al [Suc idx..<Suc idx + length es])"
    "body st' = built al (Suc idx) es (body st1)" "\<forall>a \<in> dom st1 - set (ds @ [?a]). st' a = st1 a" by auto
  have "premises_loop m al l idx prems tail st = Some (fin, prems', st')"
    using d s1(1) r(1) by (simp add: premises_loop.simps [of m al l])
  moreover have "[idx..<idx + length (e # es)] = idx # [Suc idx..<Suc idx + length es]"
    by (simp add: upt_conv_Cons del: upt_Suc)
  moreover have "\<forall>a \<in> dom st - set ds. st' a = st a" using r(4) s1(3,5) fresh by auto
  ultimately show ?case using r(2,3) s1(4) by simp
qed

lemma built_other: "a \<notin> al ` {idx..<idx + length es} \<Longrightarrow> built al idx es b a = b a"
proof (induction es arbitrary: idx b)
  case (Cons e es)
  have "al ` {Suc idx..<Suc idx + length es} \<subseteq> al ` {idx..<idx + length (e # es)}" by auto
  with Cons.prems have "a \<notin> al ` {Suc idx..<Suc idx + length es}" "a \<noteq> al idx" by auto
  with Cons.IH show ?case by simp
qed simp

lemma built_at:
  assumes "inj al" and "i < length es"
  shows "built al idx es b (al (idx + i)) = Some (ERTS_INIT_PREMISE (es ! i) None (of_nat (idx + i)))"
  using assms(2)
proof (induction es arbitrary: idx i b)
  case (Cons e es)
  show ?case
  proof (cases i)
    case 0
    have "al idx \<notin> al ` {Suc idx..<Suc idx + length es}" using assms(1) by (auto simp: inj_eq)
    with 0 show ?thesis by (simp add: built_other)
  next
    case (Suc j)
    with Cons.IH [of j "Suc idx"] Cons.prems show ?thesis by simp
  qed
qed simp


lemma body_dom: "dom (body st) = dom st"
  by (auto simp: body_def)

lemma built_dom: "dom (built al idx es b) = dom b \<union> al ` {idx..<idx + length es}"
proof (induction es arbitrary: idx b)
  case (Cons e es)
  have "{idx..<idx + length (e # es)} = insert idx {Suc idx..<Suc idx + length es}" by auto
  with Cons.IH show ?case by auto
qed simp

lemma register_new:
  assumes wf: "prem_wf q as" and l: "list_in m arg es fin" and nl: "\<not> is_list fin"
    and fresh: "\<And>i. al i \<notin> dom (prem_mem q)" and inj: "inj al"
  obtains prems st' where
    "premises_loop m al arg 0 None None (prem_mem q) = Some (fin, prems, st')"
    "prem_list st' prems (map al [0..<length es])" "prem_list st' (pon_premises q) as"
    "body st' = built al 0 es (body (prem_mem q))" "dom st' = set as \<union> al ` {0..<length es}"
    "st' |` set as = prem_mem q"
proof -
  from wf have w: "prem_list (prem_mem q) (pon_premises q) as" "distinct as" "set as = dom (prem_mem q)"
    by (simp_all add: prem_wf_def)
  from premises_loop_total [OF l nl, of "prem_mem q" None "[]" None 0 al] fresh inj
  obtain prems st' where r: "premises_loop m al arg 0 None None (prem_mem q) = Some (fin, prems, st')"
    "prem_list st' prems (map al [0..<length es])" "body st' = built al 0 es (body (prem_mem q))"
    "\<forall>a \<in> dom (prem_mem q). st' a = prem_mem q a" by auto
  have "prem_list st' (pon_premises q) as"
    by (rule prem_list_mono [OF w(1)]) (use r(4) w(3) in simp)
  moreover have "dom st' = set as \<union> al ` {0..<length es}"
    using arg_cong [OF r(3), of dom] by (simp add: body_dom built_dom w(3))
  moreover have "st' |` set as = prem_mem q"
    using r(4) w(3) by (auto simp: restrict_map_def fun_eq_iff domIff)
  ultimately show thesis using r by (intro that)
qed

text \<open>
  On an improper list, or on something that is no list, \<open>pon_register_premises/1\<close> fails with
  \<open>badarg\<close>, frees every premise it had allocated and leaves the process as it was. The empty list
  is such an argument: the test of \<open>is_list\<close> is a test for a cons cell.
\<close>

lemma pon_register_premises_refused:
  assumes "prem_wf (prem p) as" and "list_in m arg es fin" and "\<not> is_list fin" and "es = [] \<or> fin \<noteq> NIL"
    and "\<forall>i. al i \<notin> dom (prem_mem (prem p))" and "inj al"
  shows "pon_register_premises_1 m al arg p st = Some (BadArg, p, st)"
proof (cases es)
  case Nil
  with assms show ?thesis by (simp add: pon_register_premises_1_def)
next
  case (Cons e es')
  then have lst: "is_list arg" using assms(2) by (auto simp: aligned_tags)
  obtain prems st1 where r: "premises_loop m al arg 0 None None (prem_mem (prem p)) = Some (fin, prems, st1)"
    "prem_list st1 prems (map al [0..<length es])" "dom st1 = set as \<union> al ` {0..<length es}"
    "st1 |` set as = prem_mem (prem p)"
    by (rule register_new [OF assms(1,2,3)]) (use assms(5,6) in auto)
  have disj: "al i \<notin> set as" for i using assms(1,5) by (auto simp: prem_wf_def)
  have "distinct (map al [0..<length es])" by (simp add: distinct_map inj_on_subset [OF assms(6)])
  with free_premises_total [OF r(2)] have
    fr: "free_premises prems st1 = Some (st1 |` (- al ` {0..<length es}))" by simp
  have "st1 |` (- al ` {0..<length es}) = st1 |` set as"
  proof
    fix a
    show "(st1 |` (- al ` {0..<length es})) a = (st1 |` set as) a"
      using r(3) disj by (cases "a \<in> dom st1") (auto simp: restrict_map_def)
  qed
  then show ?thesis
    using r(1,4) lst fr assms(4) Cons by (simp add: pon_register_premises_1_def)
qed

lemma pon_register_premises_proper:
  assumes "prem_wf (prem p) as" and "list_in m arg es NIL" and "es \<noteq> []"
    and "\<forall>i. al i \<notin> dom (prem_mem (prem p))" and "inj al"
  shows "\<exists>p' st'. pon_register_premises_1 m al arg p st = Some (RTrue, p', st') \<and>
    prem_wf (prem p') (map al [0..<length es]) \<and>
    (\<forall>i < length es. map_option (\<lambda>pr. pr\<lparr>next_premise := None\<rparr>) (prem_mem (prem p') (al i)) =
       Some (ERTS_INIT_PREMISE (es ! i) None (of_nat i))) \<and>
    (\<forall>a \<in> set as. prem_mem (prem p') a = None) \<and>
    premises_registered st' = premises_registered st + 1"
proof -
  from assms(1) have w: "distinct as" by (simp add: prem_wf_def)
  obtain prems st1 where r: "premises_loop m al arg 0 None None (prem_mem (prem p)) = Some (NIL, prems, st1)"
    "prem_list st1 prems (map al [0..<length es])" "prem_list st1 (pon_premises (prem p)) as"
    "body st1 = built al 0 es (body (prem_mem (prem p)))" "dom st1 = set as \<union> al ` {0..<length es}"
    by (rule register_new [OF assms(1,2) NIL_tags(1)]) (use assms(4,5) in auto)
  have disj: "al i \<notin> set as" for i using assms(1,4) by (auto simp: prem_wf_def)
  have lst: "is_list arg" using assms(2,3) by (cases es) (auto simp: aligned_tags)
  have fr: "free_premises (pon_premises (prem p)) st1 = Some (st1 |` (- set as))"
    by (rule free_premises_total [OF r(3) w])
  let ?q = "(prem p)\<lparr>prem_mem := st1 |` (- set as), pon_premises := prems\<rparr>"
  have "pon_register_premises_1 m al arg p st =
      Some (RTrue, p\<lparr>prem := ?q\<rparr>, PON_STATS_INC premises_registered_update st)"
    using r(1) lst fr by (simp add: pon_register_premises_1_def erts_pon_register_premises_def)
  moreover have "prem_wf ?q (map al [0..<length es])"
  proof -
    have "prem_list (st1 |` (- set as)) prems (map al [0..<length es])"
      by (rule prem_list_mono [OF r(2)]) (use disj in auto)
    moreover have "dom (st1 |` (- set as)) = al ` {0..<length es}" using r(5) disj by auto
    ultimately show ?thesis
      using assms(5) by (auto simp: prem_wf_def distinct_map inj_on_def dest: injD)
  qed
  moreover have "map_option (\<lambda>pr. pr\<lparr>next_premise := None\<rparr>) ((st1 |` (- set as)) (al i)) =
      Some (ERTS_INIT_PREMISE (es ! i) None (of_nat i))" if "i < length es" for i
    using fun_cong [OF r(4), of "al i"] built_at [OF assms(5) that, of 0] disj [of i]
    by (simp add: body_def)
  ultimately show ?thesis by (auto simp: PON_STATS_INC_def)
qed

text \<open>
  C20. \<open>pon_register_premises/1\<close> on a proper non-empty list returns \<open>true\<close> and leaves the
  process with exactly one premise per element, in the order of the list: pattern, clause index,
  no match yet. All the premises registered before are freed; none of the new ones is shared. On every other
  argument (the empty list, an improper list, any other term) it fails with \<open>badarg\<close>, frees what it had
  allocated and changes nothing. The blocks of the allocator are new ones.
\<close>

theorem pon_register_premises_replaces:
  assumes "prem_wf (prem p) as" and "list_in m arg es fin" and "\<not> is_list fin"
    and "\<forall>i. al i \<notin> dom (prem_mem (prem p))" and "inj al"
  shows "(es \<noteq> [] \<and> fin = NIL \<longrightarrow>
      (\<exists>p' st'. pon_register_premises_1 m al arg p st = Some (RTrue, p', st') \<and>
        prem_wf (prem p') (map al [0..<length es]) \<and>
        (\<forall>i < length es. map_option (\<lambda>pr. pr\<lparr>next_premise := None\<rparr>) (prem_mem (prem p') (al i)) =
           Some (ERTS_INIT_PREMISE (es ! i) None (of_nat i))) \<and>
        (\<forall>a \<in> set as. prem_mem (prem p') a = None) \<and>
        premises_registered st' = premises_registered st + 1)) \<and>
    (es = [] \<or> fin \<noteq> NIL \<longrightarrow> pon_register_premises_1 m al arg p st = Some (BadArg, p, st))"
  using pon_register_premises_proper [OF assms(1) _ _ assms(4,5), of m arg es st]
    pon_register_premises_refused [OF assms(1-3) _ assms(4,5), of st] assms(2) by blast

subsection \<open>The collector BIFs keep the graph well formed\<close>

definition bif_wf :: "bif_proc \<Rightarrow> bool" where
  "bif_wf p \<longleftrightarrow> (case gcs p of None \<Rightarrow> True | Some gc \<Rightarrow> gc_wf gc \<and> quiescent gc)"

lemma gc_state_wf:
  assumes "bif_wf p"
  obtains gc where "erts_pon_gc_state (gcs p) True = Some gc" "gc_wf gc" "quiescent gc"
    "gcs p = None \<longrightarrow> gc = pon_gc_zero" "\<And>g. gcs p = Some g \<Longrightarrow> gc = g"
proof (cases "gcs p")
  case None
  have "pon_gc_init (Some pon_gc_zero) = Some pon_gc_zero"
    by (simp add: pon_gc_init_def pon_gc_zero_def)
  with None show thesis
    by (intro that [of pon_gc_zero]) (simp_all add: erts_pon_gc_state_def gc_wf_zero)
next
  case (Some gc)
  with assms show thesis by (intro that [of gc]) (simp_all add: erts_pon_gc_state_def bif_wf_def)
qed

lemma node_by_id_wf:
  assumes "gc_wf gc"
  shows "pon_gc_node_by_id (Some gc) i = Some (idtab gc (unat i))"
  using assms
  by (auto simp: gc_wf_def ids_ok_def pon_gc_node_by_id_def idtab_def load_def arr_get_def
      word_le_nat_alt not_le word_less_nat_alt split: option.splits)

lemma idtab_dom:
  assumes "gc_wf gc" and "idtab gc i = Some a"
  shows "a \<in> dom (mem gc)"
  using assms by (auto simp: gc_wf_def ids_ok_def)

text \<open>
  The nodes come from the allocator at addresses that are not in use, or not at all; the id
  table can grow.
\<close>

definition allocs_ok :: "gc_allocs \<Rightarrow> nat \<Rightarrow> PonGcState \<Rightarrow> bool" where
  "allocs_ok al n gc \<longleftrightarrow>
     (\<forall>i a. n \<le> i \<longrightarrow> node_at al i = Some a \<longrightarrow> a \<notin> dom (mem gc)) \<and>
     (\<forall>i j a. node_at al i = Some a \<longrightarrow> node_at al j = Some a \<longrightarrow> i = j) \<and> (\<forall>i. table_ok al i)"

lemma gc_wf_released: "gc_wf (gc\<lparr>released := r\<rparr>) = gc_wf gc" "quiescent (gc\<lparr>released := r\<rparr>) = quiescent gc"
  by (auto simp: gc_wf_def all_nodes_def graph_ok_def ids_ok_def idtab_def roots_ok_def root_ptrs_def
      quiescent_def gray_queue_def colors_def split: option.splits)

text \<open>The array of ids has room for the next one, grown if it must, while \<open>n\<close> is below 2^30.\<close>

lemma grow_ids_total:
  assumes "int n \<le> cap" "n < 2 ^ 30" "length ids = nat cap" "0 < cap"
  obtains (refused) "grow_ids ok (int n) cap ids = Some None"
  | (room) cap' ids' where "grow_ids ok (int n) cap ids = Some (Some (cap', ids'))" "int n < cap'"
      "length ids' = nat cap'" "take n ids' = take n ids"
proof (cases "int n = cap")
  case True
  then have "cap * 2 \<le> INT_MAX" using assms(2) by (simp add: INT_MAX_def)
  then have c: "c_int (cap * 2) = Some (cap * 2)" using assms(4) by simp
  have "take n (arr_realloc 0 ids (nat (cap * 2))) = take n ids"
    using True assms(3,4) by (simp add: arr_realloc_def)
  then show thesis
    using True c assms(3,4) refused room [of "cap * 2" "arr_realloc 0 ids (nat (cap * 2))"]
    by (cases ok) (simp_all add: grow_ids_def)
next
  case False
  with assms show thesis by (intro room [of cap ids]) (simp_all add: grow_ids_def)
qed

lemma ids_list_total: "i \<le> length ids \<Longrightarrow> ids_list ids i res = Some (map make_small (take i ids) @ res)"
  by (induction i arbitrary: res) (simp_all add: arr_get_def take_Suc_conv_app_nth)

lemma register_object_wf:
  assumes wf: "gc_wf gc" "quiescent gc" and al: "allocs_ok al n gc" and small: "next_id gc < 2 ^ 62"
    and arr: "int n \<le> cap" "n < 2 ^ 30" "length ids = nat cap" "0 < cap"
  obtains (err) gc' where "register_object al e (int n) cap ids gc = Some (Inl gc')" "gc_wf gc'" "quiescent gc'"
  | (ok) cap' ids' gc' where
      "register_object al e (int n) cap ids gc = Some (Inr (int (Suc n), cap', ids', gc'))"
      "gc_wf gc'" "quiescent gc'" "next_id gc' = next_id gc + 1" "allocs_ok al (Suc n) gc'"
      "idtab gc' (unat (next_id gc)) \<noteq> None" "int (Suc n) \<le> cap'" "length ids' = nat cap'"
      "take (Suc n) ids' = take n ids @ [next_id gc]"
proof (cases "(\<not> is_small e \<or> signed_val e < 0) \<or> (signed_val e > 0 \<and> payload_at al n = None)")
  case True
  then have "register_object al e (int n) cap ids gc = Some (Inl gc)" by (auto simp: register_object_def)
  with wf show thesis by (intro err)
next
  case False
  let ?pay = "if signed_val e > 0 then payload_at al n else None"
  let ?sz = "word_of_int (signed_val e) :: u64"
  have tab: "table_ok al n" using al by (simp add: allocs_ok_def)
  have c: "\<not> (\<not> is_small e \<or> signed_val e < 0)" "\<not> (signed_val e > 0 \<and> payload_at al n = None)"
    using False by auto
  have unf: "register_object al e (int n) cap ids gc = do {
        (node, g) \<leftarrow> pon_gc_node_create (Some gc) ?pay ?sz (node_at al n) True;
        gc \<leftarrow> g;
        (case node of
           None \<Rightarrow> Some (Inl (case ?pay of
                                None \<Rightarrow> gc | Some d \<Rightarrow> gc\<lparr>released := released gc @ [d]\<rparr>))
         | Some a \<Rightarrow> do {
             grown \<leftarrow> grow_ids (ids_grow al n) (int n) cap ids;
             (case grown of
                None \<Rightarrow> Some (Inl gc)
              | Some (cap, ids) \<Rightarrow> do {
                  nd \<leftarrow> mem gc a;
                  ids \<leftarrow> arr_set ids n (node_id nd);
                  n \<leftarrow> c_int (int n + 1);
                  Some (Inr (n, cap, ids, gc))
                })
           })}"
    unfolding register_object_def nat_int if_not_P [OF c(1)] if_not_P [OF c(2)] using tab by simp
  show thesis
  proof (cases "node_at al n")
    case None
    then have "register_object al e (int n) cap ids gc = Some (Inl (case ?pay of
        None \<Rightarrow> gc | Some d \<Rightarrow> gc\<lparr>released := released gc @ [d]\<rparr>))"
      unfolding unf by (simp add: pon_gc_node_create_def)
    then show thesis by (rule err) (use wf in \<open>auto simp: gc_wf_released split: option.split\<close>)
  next
    case (Some a)
    then have fresh: "mem gc a = None" using al by (auto simp: allocs_ok_def)
    obtain gc' where c: "pon_gc_node_create (Some gc) ?pay ?sz (Some a) True = Some (Some a, Some gc')"
      "gc_wf gc'" "quiescent gc'" "next_id gc' = next_id gc + 1"
      "content gc' = (content gc)(a \<mapsto> new_node ?pay ?sz (next_id gc))"
      "idtab gc' (unat (next_id gc)) = Some a"
      using create_wf [OF wf fresh small] .
    have "content gc' a = Some (new_node ?pay ?sz (next_id gc))" using c(5) by simp
    then obtain nd where nd: "mem gc' a = Some nd"
      "nd\<lparr>prev_all := None, next_all := None\<rparr> = new_node ?pay ?sz (next_id gc)"
      by (auto simp: content_def)
    from arg_cong [OF nd(2), of node_id] have nid: "node_id nd = next_id gc" by (simp add: new_node_def)
    have dom: "dom (mem gc') = insert a (dom (mem gc))" by (simp add: content_dom c(5))
    have al': "allocs_ok al (Suc n) gc'"
      using al Some unfolding allocs_ok_def dom by (metis Suc_leD insertE not_less_eq_eq order_refl)
    show thesis
    proof (cases rule: grow_ids_total [OF arr, of "ids_grow al n"])
      case 1
      then have "register_object al e (int n) cap ids gc = Some (Inl gc')" unfolding unf using c(1) Some by simp
      with c(2,3) show thesis by (intro err)
    next
      case (2 cap' ids')
      note room = 2
      then have n: "n < length ids'" by simp
      have i: "c_int (int n + 1) = Some (int n + 1)" using arr(2) by (simp add: INT_MAX_def)
      have "take (Suc n) (ids'[n := next_id gc]) = take n ids @ [next_id gc]"
        using n room(4) by (simp add: take_Suc_conv_app_nth)
      moreover have "register_object al e (int n) cap ids gc =
          Some (Inr (int (Suc n), cap', ids'[n := next_id gc], gc'))"
        unfolding unf using c(1) Some nd(1) nid room(1) n i by (simp add: arr_set_def)
      ultimately show thesis using c al' room(2,3) by (intro ok) auto
    qed
  qed
qed

lemma objects_loop_wf:
  assumes "list_in m l es fin" and "\<not> is_list fin" and "gc_wf gc" and "quiescent gc"
    and "allocs_ok al n gc" and "unat (next_id gc) + length es < 2 ^ 62"
    and "int n \<le> cap" "n + length es \<le> 2 ^ 30" "length ids = nat cap" "0 < cap"
  shows "(\<exists>gc'. objects_loop m al l (int n) cap ids gc = Some (Inl gc') \<and> gc_wf gc' \<and> quiescent gc') \<or>
    (\<exists>gc' ids'. objects_loop m al l (int n) cap ids gc =
       Some (Inr (fin, int (n + length es), ids', gc')) \<and>
       take (n + length es) ids' = take n ids @ map (\<lambda>i. next_id gc + of_nat i) [0..<length es] \<and>
       n + length es \<le> length ids' \<and> gc_wf gc' \<and> quiescent gc')"
  using assms
proof (induction es arbitrary: l n cap ids gc)
  case Nil
  then show ?case by (simp add: objects_loop.simps)
next
  case (Cons e es)
  obtain d where d: "is_list l" "word_at m (list_val l) 0 = Some e" "word_at m (list_val l) 1 = Some d"
    "list_in m d es fin" using list_in_Cons [OF Cons.prems(1)] .
  have small: "next_id gc < 2 ^ 62" using Cons.prems(6) by (simp add: word_less_nat_alt)
  have n: "n < 2 ^ 30" using Cons.prems(8) by simp
  show ?case
  proof (cases rule: register_object_wf [OF Cons.prems(3,4,5) small Cons.prems(7) n Cons.prems(9,10), of e])
    case (1 gc')
    with d show ?thesis by (intro disjI1 exI [of _ gc']) (simp add: objects_loop.simps [of m al l])
  next
    case (2 cap' ids' gc')
    note ok = 2
    have u: "unat (next_id gc') = unat (next_id gc) + 1"
      using Cons.prems(6) by (simp add: ok(4) unat_word_ariths)
    have step: "objects_loop m al l (int n) cap ids gc = objects_loop m al d (int (Suc n)) cap' ids' gc'"
      using d ok(1) by (simp add: objects_loop.simps [of m al l])
    have ids: "take n ids @ map (\<lambda>i. next_id gc + of_nat i) [0..<length (e # es)] =
        take (Suc n) ids' @ map (\<lambda>i. next_id gc' + of_nat i) [0..<length es]"
      by (simp add: map_upt_Suc ok(4,9) add.assoc del: upt_Suc)
    have len: "n + length (e # es) = Suc n + length es" by simp
    show ?thesis
      unfolding step ids len
      by (rule Cons.IH [OF d(4) Cons.prems(2) ok(2,3,5) _ ok(7) _ ok(8)])
        (use Cons.prems(6,8) u ok(7) in auto)
  qed
qed


text \<open>
  The calls a process can make, with the allocators of ERTS, which do not return \<open>NULL\<close>, except
  that a node may be refused. \<open>gc_pre\<close> is what the calls rely on: the argument of
  \<open>pon_gc_register_objects/1\<close> is a term in memory, and the counters are below the limits at
  which they wrap.
\<close>

datatype gc_cmd = C_register memory gc_allocs eterm | C_root eterm | C_ref eterm eterm | C_collect | C_dump

fun gc_bif :: "gc_cmd \<Rightarrow> bif_proc \<times> PonStats \<Rightarrow> (bif_ret \<times> bif_proc \<times> PonStats) option" where
  "gc_bif (C_register m al arg) (p, st) =
     map_option (\<lambda>(r, p). (r, p, st)) (pon_gc_register_objects_1 m al arg p)"
| "gc_bif (C_root arg) (p, st) = map_option (\<lambda>(r, p). (r, p, st)) (pon_gc_add_root_1 True True arg p)"
| "gc_bif (C_ref a b) (p, st) = map_option (\<lambda>(r, p). (r, p, st)) (pon_gc_add_ref_2 True True a b p)"
| "gc_bif C_collect (p, st) = pon_gc_collect_0 True p st"
| "gc_bif C_dump (p, st) = (case pon_gc_dump_0 True p of (r, p) \<Rightarrow> Some (r, p, st))"

definition cur_gc :: "bif_proc \<Rightarrow> PonGcState" where
  "cur_gc p = (case gcs p of None \<Rightarrow> pon_gc_zero | Some gc \<Rightarrow> gc)"

fun gc_pre :: "gc_cmd \<Rightarrow> bif_proc \<Rightarrow> bool" where
  "gc_pre (C_register m al arg) p \<longleftrightarrow>
     state_ok al \<and> allocs_ok al 0 (cur_gc p) \<and>
     (\<exists>es fin. list_in m arg es fin \<and> \<not> is_list fin \<and> length es \<le> 2 ^ 30 \<and>
        unat (next_id (cur_gc p)) + length es < 2 ^ 62)"
| "gc_pre (C_root _) p \<longleftrightarrow> num_roots (cur_gc p) < 2 ^ 30"
| "gc_pre (C_ref _ _) p \<longleftrightarrow> (\<forall>a n. mem (cur_gc p) a = Some n \<longrightarrow> num_refs n < 2 ^ 15)"
| "gc_pre _ p \<longleftrightarrow> True"

lemma cur_gc_wf:
  assumes "bif_wf p"
  shows "erts_pon_gc_state (gcs p) True = Some (cur_gc p)" "gc_wf (cur_gc p)" "quiescent (cur_gc p)"
proof -
  obtain gc where g: "erts_pon_gc_state (gcs p) True = Some gc" "gc_wf gc" "quiescent gc"
    "gcs p = None \<longrightarrow> gc = pon_gc_zero" "\<And>g. gcs p = Some g \<Longrightarrow> gc = g"
    using gc_state_wf [OF assms] by blast
  then have "cur_gc p = gc" by (cases "gcs p") (auto simp: cur_gc_def)
  with g show "erts_pon_gc_state (gcs p) True = Some (cur_gc p)" "gc_wf (cur_gc p)" "quiescent (cur_gc p)"
    by simp_all
qed

lemma add_root_bif:
  assumes "bif_wf p" and "num_roots (cur_gc p) < 2 ^ 30"
  shows "\<exists>r p'. pon_gc_add_root_1 True True arg p = Some (r, p') \<and> bif_wf p'"
proof (cases "is_small arg \<and> idtab (cur_gc p) (unat (word_of_int (signed_val arg) :: u64)) \<noteq> None")
  case True
  then obtain a where a: "idtab (cur_gc p) (unat (word_of_int (signed_val arg) :: u64)) = Some a" by auto
  note w = cur_gc_wf [OF assms(1)]
  obtain gc' where "pon_gc_add_root (Some (cur_gc p)) (Some a) True = Some (Some gc')"
    "gc_wf gc'" "quiescent gc'"
    using pon_gc_add_root_ok [OF w(2,3) idtab_dom [OF w(2) a] assms(2)] .
  with True a w show ?thesis
    by (simp add: pon_gc_add_root_1_def node_by_id_wf bif_wf_def)
next
  case False
  with cur_gc_wf [OF assms(1)] assms(1) show ?thesis
    by (auto simp: pon_gc_add_root_1_def node_by_id_wf bif_wf_def)
qed

lemma add_ref_bif:
  assumes "bif_wf p" and "\<forall>a n. mem (cur_gc p) a = Some n \<longrightarrow> num_refs n < 2 ^ 15"
  shows "\<exists>r p'. pon_gc_add_ref_2 True True x y p = Some (r, p') \<and> bif_wf p'"
proof -
  note w = cur_gc_wf [OF assms(1)]
  let ?at = "\<lambda>e. idtab (cur_gc p) (unat (word_of_int (signed_val e) :: u64))"
  show ?thesis
  proof (cases "is_small x \<and> is_small y \<and> ?at x \<noteq> None \<and> ?at y \<noteq> None")
    case True
    then obtain a b where ab: "?at x = Some a" "?at y = Some b" by auto
    from idtab_dom [OF w(2) ab(1)] obtain n where n: "mem (cur_gc p) a = Some n" by auto
    obtain gc' where "pon_gc_add_ref (cur_gc p) (Some a) (Some b) True = Some gc'"
      "gc_wf gc'" "quiescent gc'"
      using pon_gc_add_ref_ok [OF w(2,3) n idtab_dom [OF w(2) ab(2)]] assms(2) n by blast
    with True ab w show ?thesis
      by (simp add: pon_gc_add_ref_2_def node_by_id_wf bif_wf_def)
  next
    case False
    with w assms(1) show ?thesis
      by (auto simp: pon_gc_add_ref_2_def node_by_id_wf bif_wf_def)
  qed
qed

lemma register_bif:
  assumes "bif_wf p" and "gc_pre (C_register m al arg) p"
  shows "\<exists>r p'. pon_gc_register_objects_1 m al arg p = Some (r, p') \<and> bif_wf p'"
proof -
  note w = cur_gc_wf [OF assms(1)]
  from assms(2) obtain es fin where l: "list_in m arg es fin" "\<not> is_list fin" "length es \<le> 2 ^ 30"
    "unat (next_id (cur_gc p)) + length es < 2 ^ 62" and ok: "state_ok al" "allocs_ok al 0 (cur_gc p)" by auto
  consider "\<not> is_list arg \<or> \<not> ids_alloc al"
    | gc' where "objects_loop m al arg 0 16 (replicate 16 0) (cur_gc p) = Some (Inl gc')" "gc_wf gc'" "quiescent gc'"
    | gc' ids where "objects_loop m al arg 0 16 (replicate 16 0) (cur_gc p) =
        Some (Inr (fin, int (length es), ids, gc'))" "length es \<le> length ids" "gc_wf gc'" "quiescent gc'"
    using objects_loop_wf [OF l(1,2) w(2,3) ok(2), of 16 "replicate 16 0"] l(3,4) by fastforce
  then show ?thesis
  proof cases
    case 1
    with w ok assms(1) show ?thesis by (auto simp: pon_gc_register_objects_1_def bif_wf_def)
  qed (use w ok assms(1) in \<open>auto simp: pon_gc_register_objects_1_def bif_wf_def ids_list_total\<close>)
qed

lemma collect_bif:
  assumes "bif_wf p"
  obtains gc' where "pon_gc_mark_sweep (Some (cur_gc p)) =
      Some (of_nat (card (dom (mem (cur_gc p)) - reachable (cur_gc p))), Some gc')"
    "gc_wf gc'" "quiescent gc'" "dom (mem gc') = reachable (cur_gc p)"
    "total_nodes gc' = of_nat (card (reachable (cur_gc p)))"
proof -
  note w = cur_gc_wf [OF assms]
  from w(2) obtain xs where l: "all_nodes (cur_gc p) xs" and ok: "graph_ok (cur_gc p)" "ids_ok (cur_gc p)"
    "roots_ok (cur_gc p)" by (auto simp: gc_wf_def)
  obtain gc' where g: "pon_gc_mark_sweep (Some (cur_gc p)) =
      Some (of_nat (card (dom (mem (cur_gc p)) - reachable (cur_gc p))), Some gc')"
    "all_nodes gc' (filter (\<lambda>a. a \<in> reachable (cur_gc p)) xs)" "gc_wf gc'" "quiescent gc'"
    using collect_total [OF l ok w(3)] .
  have "reachable (cur_gc p) \<subseteq> dom (mem (cur_gc p))" by (rule reachable_dom [OF ok(1,3)])
  then have s: "set (filter (\<lambda>a. a \<in> reachable (cur_gc p)) xs) = reachable (cur_gc p)"
    using l by (auto simp: all_nodes_def)
  have f: "total_nodes gc' = of_nat (length (filter (\<lambda>a. a \<in> reachable (cur_gc p)) xs))"
    "distinct (filter (\<lambda>a. a \<in> reachable (cur_gc p)) xs)" "dom (mem gc') = reachable (cur_gc p)"
    using g(2) unfolding all_nodes_def s by blast+
  have "length (filter (\<lambda>a. a \<in> reachable (cur_gc p)) xs) = card (reachable (cur_gc p))"
    using distinct_card [OF f(2)] by (simp only: s)
  with f g show thesis by (intro that [of gc']) simp_all
qed

lemma gc_bif_wf:
  assumes "bif_wf p" and "gc_pre c p"
  shows "\<exists>r p' st'. gc_bif c (p, st) = Some (r, p', st') \<and> bif_wf p'"
proof (cases c)
  case (C_register m al arg)
  with register_bif assms show ?thesis by force
next
  case (C_root arg)
  with add_root_bif [OF assms(1)] assms(2) show ?thesis by force
next
  case (C_ref x y)
  with add_ref_bif [OF assms(1)] assms(2) show ?thesis by force
next
  case C_collect
  obtain gc' where "pon_gc_mark_sweep (Some (cur_gc p)) =
      Some (of_nat (card (dom (mem (cur_gc p)) - reachable (cur_gc p))), Some gc')"
    "gc_wf gc'" "quiescent gc'" using collect_bif [OF assms(1)] .
  with C_collect cur_gc_wf(1) [OF assms(1)] show ?thesis
    by (simp add: pon_gc_collect_0_def bif_wf_def)
next
  case C_dump
  with cur_gc_wf [OF assms(1)] show ?thesis by (simp add: pon_gc_dump_0_def bif_wf_def)
qed

fun gc_run :: "gc_cmd list \<Rightarrow> bif_proc \<times> PonStats \<Rightarrow> (bif_ret list \<times> bif_proc \<times> PonStats) option" where
  "gc_run [] (p, st) = Some ([], p, st)"
| "gc_run (c # cs) (p, st) = do {
     (r, p, st) \<leftarrow> gc_bif c (p, st);
     (rs, p, st) \<leftarrow> gc_run cs (p, st);
     Some (r # rs, p, st)
   }"

fun gc_pre_run :: "gc_cmd list \<Rightarrow> bif_proc \<times> PonStats \<Rightarrow> bool" where
  "gc_pre_run [] (p, st) = True"
| "gc_pre_run (c # cs) (p, st) \<longleftrightarrow>
     gc_pre c p \<and> (case gc_bif c (p, st) of None \<Rightarrow> True | Some (r, p, st) \<Rightarrow> gc_pre_run cs (p, st))"

text \<open>
  C22. Memory safety of the collector's interface: whatever sequence of the collector BIFs a
  process calls, with arguments that may name dead, unknown or negative ids or ill-formed lists,
  every call returns and no dangling pointer is followed; between the calls the graph is well
  formed and no mark is under way. No access leaves the array it is made in, the growing array of ids
  included, and no \<open>int\<close> of the interface overflows. The limits are those of the C counters: 2^30 elements
  of one list, 2^62 ids, 2^30 roots, 2^15 references of one node.
\<close>

theorem pon_gc_bifs_safe:
  assumes "bif_wf p" and "gc_pre_run cs (p, st)"
  shows "\<exists>rs p' st'. gc_run cs (p, st) = Some (rs, p', st') \<and> length rs = length cs \<and> bif_wf p'"
  using assms
proof (induction cs arbitrary: p st)
  case (Cons c cs)
  have pre: "gc_pre c p" using Cons.prems(2) by simp
  obtain r p1 st1 where
    s: "gc_bif c (p, st) = Some (r, p1, st1)" "bif_wf p1"
    using gc_bif_wf [OF Cons.prems(1) pre, of st] by blast
  with Cons.IH [OF s(2), of st1] Cons.prems(2) show ?case by auto
qed simp

text \<open>
  C23. \<open>pon_gc_collect/0\<close> reports as \<open>collected\<close> the number of unreachable nodes and as
  \<open>total\<close> the number of nodes left, which are the reachable ones; but \<open>live\<close> is always 0,
  however many nodes survive, because the sweep has reset the counter.
\<close>

theorem pon_gc_collect_report:
  assumes "bif_wf p"
  shows "\<exists>p' st' kvs. pon_gc_collect_0 True p st = Some (RMap kvs, p', st') \<and> bif_wf p' \<and>
    dom (mem (cur_gc p')) = reachable (cur_gc p) \<and>
    map_of kvs ''collected'' = Some (make_small (of_nat (card (dom (mem (cur_gc p)) - reachable (cur_gc p))))) \<and>
    map_of kvs ''total'' = Some (make_small (of_nat (card (reachable (cur_gc p))))) \<and>
    map_of kvs ''live'' = Some (make_small 0)"
proof -
  obtain gc' where g: "pon_gc_mark_sweep (Some (cur_gc p)) =
      Some (of_nat (card (dom (mem (cur_gc p)) - reachable (cur_gc p))), Some gc')"
    "gc_wf gc'" "quiescent gc'" "dom (mem gc') = reachable (cur_gc p)"
    "total_nodes gc' = of_nat (card (reachable (cur_gc p)))" using collect_bif [OF assms] .
  then show ?thesis using cur_gc_wf(1) [OF assms]
    by (simp add: pon_gc_collect_0_def bif_wf_def cur_gc_def quiescent_def)
qed


subsection \<open>Concrete runs\<close>

text \<open>
  A memory with the list \<open>[8, 16]\<close> at address \<open>0x1000\<close>, and allocators that hand out nodes at
  10, 11, ... and payloads at 100, 101, ...
\<close>

definition run_mem :: memory where
  "run_mem = [0x1000 \<mapsto> make_small 8, 0x1008 \<mapsto> make_list 0x2000,
              0x2000 \<mapsto> make_small 16, 0x2008 \<mapsto> NIL]"

definition run_allocs :: gc_allocs where
  "run_allocs = \<lparr>state_ok = True, ids_alloc = True, ids_grow = (\<lambda>_. True),
     payload_at = (\<lambda>i. Some (100 + i)), node_at = (\<lambda>i. Some (10 + i)), table_ok = (\<lambda>_. True)\<rparr>"

lemma run_list: "list_in run_mem (make_list 0x1000) [make_small 8, make_small 16] NIL"
proof -
  have al: "aligned 0x1000" "aligned 0x2000" by (simp_all add: aligned_def TAG_PTR_MASK_def)
  have w: "word_at run_mem 0x1000 0 = Some (make_small 8)" "word_at run_mem 0x1000 1 = Some (make_list 0x2000)"
    "word_at run_mem 0x2000 0 = Some (make_small 16)" "word_at run_mem 0x2000 1 = Some NIL"
    by (simp_all add: run_mem_def word_at_def)
  have "list_in run_mem (make_list 0x2000) [make_small 16] NIL" using al(2) w(3,4) by auto
  with al(1) w(1,2) show ?thesis unfolding list_in.simps(2) [of _ _ "make_small 8"] by blast
qed

lemma run_allocs_ok: "allocs_ok run_allocs 0 pon_gc_zero"
  by (auto simp: allocs_ok_def run_allocs_def pon_gc_zero_def)

lemma proc_init_wf: "bif_wf proc_init" "cur_gc proc_init = pon_gc_zero" "prem_wf (prem proc_init) []"
  by (simp_all add: bif_wf_def proc_init_def cur_gc_def prem_wf_def)

theorem pon_gc_bifs_safe_witness:
  "\<exists>rs p' st'. gc_run [C_register run_mem run_allocs (make_list 0x1000), C_collect, C_dump]
      (proc_init, pon_stats_zero) = Some (rs, p', st') \<and> length rs = 3 \<and> bif_wf p'"
proof -
  have "gc_pre (C_register run_mem run_allocs (make_list 0x1000)) proc_init"
  proof -
    have "state_ok run_allocs" "length [make_small 8, make_small 16] \<le> 2 ^ 30"
      "unat (next_id pon_gc_zero) + length [make_small 8, make_small 16] < 2 ^ 62"
      by (simp_all add: run_allocs_def pon_gc_zero_def)
    with run_list run_allocs_ok NIL_tags(1) show ?thesis unfolding gc_pre.simps proc_init_wf by blast
  qed
  then have "gc_pre_run [C_register run_mem run_allocs (make_list 0x1000), C_collect, C_dump]
      (proc_init, pon_stats_zero)" by (auto split: option.split)
  from pon_gc_bifs_safe [OF proc_init_wf(1) this] show ?thesis
    by (simp only: length_Cons list.size(3) numeral_3_eq_3 One_nat_def)
qed

theorem pon_gc_collect_report_witness:
  "\<exists>p' st' kvs. pon_gc_collect_0 True proc_init pon_stats_zero = Some (RMap kvs, p', st') \<and>
    map_of kvs ''live'' = Some (make_small 0) \<and> dom (mem (cur_gc p')) = reachable pon_gc_zero"
  using pon_gc_collect_report [OF proc_init_wf(1), of pon_stats_zero] by (auto simp: proc_init_wf)

text \<open>A process that has two premises registers two others, after an attempt with an improper list.\<close>

theorem pon_register_premises_replaces_witness:
  "\<exists>p q st st'. prem_wf (prem p) [60, 61] \<and>
     pon_register_premises_1 [0x1000 \<mapsto> make_small 8, 0x1008 \<mapsto> make_small 9] (\<lambda>i. 70 + i) (make_list 0x1000) p st =
       Some (BadArg, p, st) \<and>
     pon_register_premises_1 run_mem (\<lambda>i. 70 + i) (make_list 0x1000) p st = Some (RTrue, q, st') \<and>
     prem_wf (prem q) [70, 71] \<and> prem_mem (prem q) 60 = None \<and> prem_mem (prem q) 61 = None"
proof -
  have two: "map f [0..<length [make_small 8, make_small 16]] = [f 0, f 1]" for f :: "nat \<Rightarrow> nat"
    by (simp add: eval_nat_numeral)
  have "\<forall>i. (60 :: nat) + i \<notin> dom (prem_mem (prem proc_init))" "inj (\<lambda>i :: nat. 60 + i)"
    by (simp_all add: proc_init_def inj_def)
  from pon_register_premises_replaces [OF proc_init_wf(3) run_list NIL_tags(1) this, of pon_stats_zero, unfolded two]
  have "\<exists>p :: bif_proc. prem_wf (prem p) [60, 61]" by auto
  then obtain p :: bif_proc where p: "prem_wf (prem p) [60, 61]" ..
  then have "dom (prem_mem (prem p)) = {60, 61}" by (simp add: prem_wf_def)
  then have new: "\<forall>i. (70 :: nat) + i \<notin> dom (prem_mem (prem p))" "inj (\<lambda>i :: nat. 70 + i)"
    by (simp_all add: inj_def)
  have bad: "list_in [0x1000 \<mapsto> make_small 8, 0x1008 \<mapsto> make_small 9] (make_list 0x1000) [make_small 8] (make_small 9)"
    by (auto intro!: exI [of _ "0x1000 :: u64"] simp: word_at_def aligned_def TAG_PTR_MASK_def)
  have small: "\<not> is_list (make_small 9)" "make_small 9 \<noteq> NIL"
    using small_tags is_small_make_small [of 9] NIL_tags(3) by (simp, metis)
  from pon_register_premises_replaces [OF p run_list NIL_tags(1) new, of pon_stats_zero, unfolded two]
    pon_register_premises_replaces [OF p bad small(1) new, of pon_stats_zero] small(2) p
  show ?thesis by auto
qed

text \<open>
  Ill-formed arguments of \<open>pon_gc_register_objects/1\<close> leak: when the first element is not a
  small integer the call fails with \<open>badarg\<close> and the temporary array of ids is never freed.
\<close>

lemma pon_gc_register_objects_leak:
  assumes "is_list arg" and "word_at m (list_val arg) 0 = Some e" and "\<not> is_small e"
    and "state_ok al" and "ids_alloc al"
  shows "\<exists>p'. pon_gc_register_objects_1 m al arg p = Some (BadArg, p') \<and> tmp_blocks p' = tmp_blocks p + 1"
proof -
  obtain gc where "erts_pon_gc_state (gcs p) True = Some gc"
    by (cases "gcs p") (auto simp: erts_pon_gc_state_def pon_gc_init_def)
  with assms show ?thesis
    by (simp add: pon_gc_register_objects_1_def objects_loop.simps [of m al arg] register_object_def)
qed

lemma pon_gc_register_objects_leak_witness:
  "\<exists>p'. pon_gc_register_objects_1 [0x1000 \<mapsto> NIL] run_allocs (make_list 0x1000) proc_init = Some (BadArg, p') \<and>
     tmp_blocks p' = 1"
proof -
  have a: "aligned 0x1000" by (simp add: aligned_def TAG_PTR_MASK_def)
  have "\<exists>p'. pon_gc_register_objects_1 [0x1000 \<mapsto> NIL] run_allocs (make_list 0x1000) proc_init = Some (BadArg, p') \<and>
      tmp_blocks p' = tmp_blocks proc_init + 1"
    by (rule pon_gc_register_objects_leak [where e = NIL])
      (simp_all add: aligned_tags [OF a] list_val_def word_at_def run_allocs_def)
  then show ?thesis by (simp add: proc_init_def)
qed

subsection \<open>Process exit\<close>

text \<open>A process owns the state of its type queues and no other block of that kind.\<close>

definition sig_wf :: "pon_sig_qs \<Rightarrow> bool" where
  "sig_wf qs \<longleftrightarrow> dom (pon_state_mem qs) = set_option (pon_state qs)"

lemma ensure_state_wf: "sig_wf qs \<Longrightarrow> sig_wf (snd (erts_pon_ensure_state a qs))"
  by (auto simp: sig_wf_def erts_pon_ensure_state_def Let_def)

lemma free_state_total:
  assumes "sig_wf qs"
  shows "erts_pon_free_state qs = Some \<lparr>pon_state = None, pon_state_mem = Map.empty\<rparr>"
proof (cases "pon_state qs")
  case None
  with assms show ?thesis by (cases qs) (simp add: sig_wf_def erts_pon_free_state_def)
next
  case (Some a)
  with assms obtain st where "pon_state_mem qs = [a \<mapsto> st]"
    by (auto simp: sig_wf_def dom_eq_singleton_conv)
  with Some show ?thesis by (cases qs) (simp add: erts_pon_free_state_def)
qed

lemma destroy_state_total:
  assumes "bif_wf p"
  obtains xs where "distinct xs" "set xs = dom (mem (cur_gc p))"
    "erts_pon_gc_destroy_state (gcs p) =
       Some (None, Map.empty, released (cur_gc p) @ concat (map (payload_of (cur_gc p)) xs))"
proof (cases "gcs p")
  case None
  then show thesis
    by (intro that [of "[]"]) (simp_all add: erts_pon_gc_destroy_state_def cur_gc_def pon_gc_zero_def)
next
  case (Some gc)
  then have "gc_wf gc" using assms by (simp add: bif_wf_def)
  then obtain xs where l: "dseg (mem gc) None (nodes_head gc) xs None" "distinct xs" "set xs = dom (mem gc)"
    by (auto simp: gc_wf_def all_nodes_def)
  have e: "mem gc |` (- dom (mem gc)) = Map.empty" by (auto simp: restrict_map_def)
  show thesis
    using l Some destroy_loop_total [OF l(1,2)]
    by (intro that [of xs]) (simp_all add: erts_pon_gc_destroy_state_def pon_gc_destroy_def cur_gc_def e)
qed

lemma unregister_at_exit:
  assumes "prem_wf q as"
  shows "\<exists>q'. (if pon_premises q \<noteq> None then erts_pon_unregister_premises q else Some q) = Some q' \<and>
    prem_wf q' []"
proof -
  from assms have l: "prem_list (prem_mem q) (pon_premises q) as" "distinct as"
    "set as = dom (prem_mem q)" by (simp_all add: prem_wf_def)
  have e: "prem_mem q |` (- set as) = Map.empty" by (auto simp: l(3) restrict_map_def)
  show ?thesis
  proof (cases "pon_premises q")
    case None
    with l have "as = []" by (cases as) auto
    with None assms show ?thesis by simp
  next
    case (Some a)
    then show ?thesis using free_premises_total [OF l(1,2)]
      by (simp add: erts_pon_unregister_premises_def e prem_wf_def)
  qed
qed

text \<open>
  C25. Process exit frees all of the PON state, and each part once: \<open>delete_process\<close> returns, with no
  premise left; every node of the collector is freed, none stays allocated without an owner, and the
  payload of every node is freed exactly once; the collector's state and the state of the
  type queues are freed and their pointers cleared.
\<close>

theorem pon_delete_process_frees:
  assumes "bif_wf p" and "prem_wf (prem p) as" and "sig_wf (sig_qs p)"
  shows "\<exists>p' xs. pon_delete_process p = Some p' \<and> prem_wf (prem p') [] \<and> gcs p' = None \<and>
    gc_orphans p' = gc_orphans p \<and> distinct xs \<and> set xs = dom (mem (cur_gc p)) \<and>
    gc_freed p' = gc_freed p @ released (cur_gc p) @ concat (map (payload_of (cur_gc p)) xs) \<and>
    sig_qs p' = \<lparr>pon_state = None, pon_state_mem = Map.empty\<rparr>"
proof -
  obtain xs where xs: "distinct xs" "set xs = dom (mem (cur_gc p))" "erts_pon_gc_destroy_state (gcs p) =
       Some (None, Map.empty, released (cur_gc p) @ concat (map (payload_of (cur_gc p)) xs))"
    using destroy_state_total [OF assms(1)] .
  with unregister_at_exit [OF assms(2)] free_state_total [OF assms(3)] show ?thesis
    by (auto simp: pon_delete_process_def)
qed

text \<open>A process with two premises, a collector with three nodes and the state of the type queues exits.\<close>

definition exit_prem :: prem_proc where
  "exit_prem = \<lparr>pon_premises = Some 50,
     prem_mem = [50 \<mapsto> (ERTS_INIT_PREMISE NIL None 0)\<lparr>next_premise := Some 51\<rparr>, 51 \<mapsto> ERTS_INIT_PREMISE NIL None 1]\<rparr>"

lemma demo_gc_payloads: "map_option (\<lambda>gc. map (payload_of gc) [10, 11, 12]) demo_gc = Some [[100], [101], [102]]"
  by code_simp

theorem pon_delete_process_frees_witness:
  "\<exists>gc p'. demo_gc = Some gc \<and>
     pon_delete_process (proc_init\<lparr>prem := exit_prem, gcs := Some gc,
       sig_qs := \<lparr>pon_state = Some 7, pon_state_mem = [7 \<mapsto> pon_state_zero]\<rparr>\<rparr>) = Some p' \<and>
     prem_mem (prem p') = Map.empty \<and> gcs p' = None \<and> gc_orphans p' = Map.empty \<and>
     {100, 101, 102} \<subseteq> set (gc_freed p') \<and> pon_state_mem (sig_qs p') = Map.empty"
proof -
  obtain gc where gc: "demo_gc = Some gc" "gc_wf gc" "quiescent gc" using demo_gc_wf by blast
  define p where "p = proc_init\<lparr>prem := exit_prem, gcs := Some gc,
     sig_qs := \<lparr>pon_state = Some 7, pon_state_mem = [7 \<mapsto> pon_state_zero]\<rparr>\<rparr>"
  have w: "bif_wf p" "prem_wf (prem p) [50, 51]" "sig_wf (sig_qs p)" "cur_gc p = gc" "gc_orphans p = Map.empty"
    using gc(2,3) by (auto simp: p_def bif_wf_def prem_wf_def sig_wf_def cur_gc_def exit_prem_def proc_init_def
        ERTS_INIT_PREMISE_def)
  have pay: "payload_of gc 10 = [100]" "payload_of gc 11 = [101]" "payload_of gc 12 = [102]"
    using demo_gc_payloads unfolding gc(1) by simp_all
  then have nodes: "{10, 11, 12} \<subseteq> dom (mem gc)" by (auto simp: payload_of_def split: option.splits)
  obtain p' xs where p': "pon_delete_process p = Some p'" "prem_wf (prem p') []" "gcs p' = None"
    "gc_orphans p' = Map.empty" "set xs = dom (mem gc)"
    "gc_freed p' = gc_freed p @ released gc @ concat (map (payload_of gc) xs)"
    "sig_qs p' = \<lparr>pon_state = None, pon_state_mem = Map.empty\<rparr>"
    using pon_delete_process_frees [OF w(1-3), unfolded w(4,5)] by blast
  have "set (payload_of gc a) \<subseteq> set (gc_freed p')" if "a \<in> {10, 11, 12}" for a
    using that nodes p'(5) unfolding p'(6) by auto
  from this [of 10] this [of 11] this [of 12] have "{100, 101, 102} \<subseteq> set (gc_freed p')" by (simp add: pay)
  moreover have "prem_mem (prem p') = Map.empty" "pon_state_mem (sig_qs p') = Map.empty"
    using p'(2,7) by (simp_all add: prem_wf_def eq_commute [of "{}"])
  ultimately show ?thesis using p'(1,3,4) gc(1) unfolding p_def by blast
qed

end
