(* ===== verification/PonTimer.thy ===== *)
theory PonTimer
  imports PonStats
begin

text \<open>
  Timer instigations on Linux timerfds (\<^verbatim>\<open>pon_instigation.h\<close>, \<^verbatim>\<open>pon_timer.c\<close>).

  The kernel is a record of what the code can observe of it: the open descriptors, how each
  timerfd is armed and what each epoll instance watches. A system call is a function on it whose
  answer (a descriptor, or whether it succeeds) is a parameter; a failing call changes nothing.
  The instigations live in a store, because epoll hands their addresses back.
\<close>

subsection \<open>The kernel\<close>

record itimerspec =
  it_interval_sec :: int
  it_interval_nsec :: int
  it_value_sec :: int
  it_value_nsec :: int

record kernel =
  open_fds :: "int set"
  armed :: "int \<rightharpoonup> itimerspec"
  interest :: "int \<times> int \<Rightarrow> ptr"

definition sys_open :: "int \<Rightarrow> kernel \<Rightarrow> kernel" where
  "sys_open fd k = (if fd = -1 then k else k\<lparr>open_fds := insert fd (open_fds k)\<rparr>)"

definition sys_close :: "int \<Rightarrow> kernel \<Rightarrow> kernel" where
  "sys_close fd k =
     k\<lparr>open_fds := open_fds k - {fd}, armed := (armed k)(fd := None),
       interest := (\<lambda>(ep, d). if ep = fd \<or> d = fd then None else interest k (ep, d))\<rparr>"

definition sys_timerfd_settime :: "int \<Rightarrow> itimerspec \<Rightarrow> bool \<Rightarrow> kernel \<Rightarrow> kernel" where
  "sys_timerfd_settime fd spec ok k = (if ok then k\<lparr>armed := (armed k)(fd \<mapsto> spec)\<rparr> else k)"

definition sys_epoll_add :: "int \<Rightarrow> int \<Rightarrow> ptr \<Rightarrow> bool \<Rightarrow> kernel \<Rightarrow> kernel" where
  "sys_epoll_add ep fd p ok k = (if ok then k\<lparr>interest := (interest k)((ep, fd) := p)\<rparr> else k)"

definition sys_epoll_del :: "int \<Rightarrow> int \<Rightarrow> bool \<Rightarrow> kernel \<Rightarrow> kernel" where
  "sys_epoll_del ep fd ok k = (if ok then k\<lparr>interest := (interest k)((ep, fd) := None)\<rparr> else k)"

subsection \<open>Instigations\<close>

definition PON_INSTIGATION_TYPE_TIMER :: int where "PON_INSTIGATION_TYPE_TIMER = 1"

definition PON_TIMER_MIN_MS :: u64 where "PON_TIMER_MIN_MS = 1"

definition PON_TIMER_MAX_EVENTS :: int where "PON_TIMER_MAX_EVENTS = 64"

definition EPOLLIN :: u32 where "EPOLLIN = 1"

record ErtsInstigation =
  inst_type :: int
  fired :: int
  inst_target :: ptr
  inst_message :: u64
  inst_next :: ptr

record ErtsTimerInstigation =
  base :: ErtsInstigation
  timer_fd :: int
  expiration_ms :: u64

definition ERTS_INIT_TIMER_INSTIGATION :: "ptr \<Rightarrow> u64 \<Rightarrow> u64 \<Rightarrow> ErtsTimerInstigation" where
  "ERTS_INIT_TIMER_INSTIGATION target msg timeout_ms =
     \<lparr>base = \<lparr>inst_type = PON_INSTIGATION_TYPE_TIMER, fired = 0, inst_target = target,
              inst_message = msg, inst_next = None\<rparr>,
      timer_fd = -1, expiration_ms = timeout_ms\<rparr>"

record timer_state =
  pon_timer_epoll_fd :: int
  kern :: kernel
  insts :: "addr \<rightharpoonup> ErtsTimerInstigation"
  tstats :: PonStats

text \<open>\<open>ep\<close> answers \<open>epoll_create1\<close>: a descriptor or \<open>-1\<close>.\<close>

definition pon_timer_init :: "int \<Rightarrow> timer_state \<Rightarrow> timer_state" where
  "pon_timer_init ep s =
     (if pon_timer_epoll_fd s = -1
      then s\<lparr>pon_timer_epoll_fd := ep, kern := sys_open ep (kern s)\<rparr>
      else s)"

definition pon_timer_destroy :: "timer_state \<Rightarrow> timer_state" where
  "pon_timer_destroy s =
     (if pon_timer_epoll_fd s \<noteq> -1
      then s\<lparr>kern := sys_close (pon_timer_epoll_fd s) (kern s), pon_timer_epoll_fd := -1\<rparr>
      else s)"

text \<open>The \<open>itimerspec\<close> of a relative one-shot timer, from unsigned 64-bit arithmetic.\<close>

definition timer_spec :: "u64 \<Rightarrow> itimerspec" where
  "timer_spec timeout_ms =
     \<lparr>it_interval_sec = 0, it_interval_nsec = 0,
      it_value_sec = sint (timeout_ms div 1000),
      it_value_nsec = sint ((timeout_ms mod 1000) * 1000000)\<rparr>"

text \<open>
  \<open>tfd\<close>, \<open>settime_ok\<close> and \<open>ctl_ok\<close> answer \<open>timerfd_create\<close>, \<open>timerfd_settime\<close> and
  \<open>epoll_ctl\<close>. The result is the C return value and the state; \<open>None\<close> is a dangling pointer.
\<close>

definition pon_timer_instigation_create ::
    "ptr \<Rightarrow> int \<Rightarrow> bool \<Rightarrow> bool \<Rightarrow> timer_state \<Rightarrow> (int \<times> timer_state) option" where
  "pon_timer_instigation_create inst tfd settime_ok ctl_ok s =
     (case inst of
        None \<Rightarrow> Some (-1, s)
      | Some a \<Rightarrow> do {
          i \<leftarrow> insts s a;
          timeout_ms \<leftarrow> Some (expiration_ms i);
          if timeout_ms < PON_TIMER_MIN_MS then Some (-1, s)
          else if tfd = -1 then Some (-1, s)
          else do {
            k \<leftarrow> Some (sys_open tfd (kern s));
            k \<leftarrow> Some (sys_timerfd_settime tfd (timer_spec timeout_ms) settime_ok k);
            if \<not> settime_ok then Some (-1, s\<lparr>kern := sys_close tfd k\<rparr>)
            else do {
              k \<leftarrow> Some (if pon_timer_epoll_fd s \<noteq> -1
                         then sys_epoll_add (pon_timer_epoll_fd s) tfd (Some a) ctl_ok k else k);
              if pon_timer_epoll_fd s \<noteq> -1 \<and> \<not> ctl_ok then Some (-1, s\<lparr>kern := sys_close tfd k\<rparr>)
              else Some (0, s\<lparr>kern := k, insts := (insts s)(a \<mapsto> i\<lparr>timer_fd := tfd\<rparr>)\<rparr>)
            }
          }
        })"

definition pon_timer_instigation_cancel :: "ptr \<Rightarrow> bool \<Rightarrow> timer_state \<Rightarrow> timer_state option" where
  "pon_timer_instigation_cancel inst ctl_ok s =
     (case inst of
        None \<Rightarrow> Some s
      | Some a \<Rightarrow> do {
          i \<leftarrow> insts s a;
          if timer_fd i = -1 then Some s
          else do {
            k \<leftarrow> Some (if pon_timer_epoll_fd s \<noteq> -1
                       then sys_epoll_del (pon_timer_epoll_fd s) (timer_fd i) ctl_ok (kern s)
                       else kern s);
            k \<leftarrow> Some (sys_close (timer_fd i) k);
            Some (s\<lparr>kern := k, insts := (insts s)(a \<mapsto>
                     i\<lparr>timer_fd := -1, base := (base i)\<lparr>fired := 1\<rparr>\<rparr>)\<rparr>)
          }
        })"

text \<open>\<open>rd\<close> is what \<open>read\<close> returns.\<close>

definition pon_timer_instigation_fire :: "ptr \<Rightarrow> int \<Rightarrow> timer_state \<Rightarrow> timer_state option" where
  "pon_timer_instigation_fire inst rd s =
     (case inst of
        None \<Rightarrow> Some s
      | Some a \<Rightarrow> do {
          i \<leftarrow> insts s a;
          if fired (base i) \<noteq> 0 then Some s
          else if timer_fd i = -1 then Some s
          else if rd \<le> 0 then Some s
          else Some (s\<lparr>insts := (insts s)(a \<mapsto> i\<lparr>base := (base i)\<lparr>fired := 1\<rparr>\<rparr>),
                       tstats := PON_STATS_INC timerfd_expirations_update (tstats s)\<rparr>)
        })"

text \<open>The loop over the events: masks, data pointers and the answer of each \<open>read\<close>.\<close>

fun expire_loop :: "(u32 \<times> ptr \<times> int) list \<Rightarrow> int \<Rightarrow> timer_state \<Rightarrow> (int \<times> timer_state) option" where
  "expire_loop [] processed s = Some (processed, s)"
| "expire_loop ((ev, inst, rd) # evs) processed s =
     (if ev AND EPOLLIN \<noteq> 0 \<and> inst \<noteq> None then do {
        s \<leftarrow> pon_timer_instigation_fire inst rd s;
        expire_loop evs (processed + 1) s
      } else expire_loop evs processed s)"

text \<open>
  \<open>evs\<close> is what \<open>epoll_wait\<close> wrote to the array of \<open>PON_TIMER_MAX_EVENTS\<close> cells and \<open>nfds\<close>
  its return value.
\<close>

definition pon_timer_process_expirations ::
    "int \<Rightarrow> (u32 \<times> ptr \<times> int) list \<Rightarrow> timer_state \<Rightarrow> (int \<times> timer_state) option" where
  "pon_timer_process_expirations nfds evs s =
     (if pon_timer_epoll_fd s = -1 then Some (0, s)
      else if nfds \<le> 0 then Some (0, s)
      else if int (length evs) < nfds then None
      else expire_loop (take (nat nfds) evs) 0 s)"


subsection \<open>Arming and cancelling\<close>

text \<open>What \<open>timerfd_create\<close> promises of the descriptor it returns: nothing refers to it yet.\<close>

definition fresh_fd :: "int \<Rightarrow> kernel \<Rightarrow> bool" where
  "fresh_fd fd k \<longleftrightarrow> fd \<noteq> -1 \<and> fd \<notin> open_fds k \<and> armed k fd = None \<and>
     (\<forall>d. interest k (d, fd) = None \<and> interest k (fd, d) = None)"

lemmas sys_simps = sys_open_def sys_close_def sys_timerfd_settime_def sys_epoll_add_def
  sys_epoll_del_def

lemma close_restores:
  assumes "fresh_fd fd k" and "open_fds k' = insert fd (open_fds k)"
    and "\<And>d. d \<noteq> fd \<Longrightarrow> armed k' d = armed k d"
    and "\<And>e d. e \<noteq> fd \<Longrightarrow> d \<noteq> fd \<Longrightarrow> interest k' (e, d) = interest k (e, d)"
  shows "sys_close fd k' = k"
proof -
  have "armed (sys_close fd k') d = armed k d" for d
    using assms(1,3) by (simp add: sys_close_def fresh_fd_def)
  moreover have "interest (sys_close fd k') p = interest k p" for p
    using assms(1,4) by (cases p) (auto simp: sys_close_def fresh_fd_def)
  moreover have "open_fds (sys_close fd k') = open_fds k"
    using assms(1,2) by (auto simp: sys_close_def fresh_fd_def)
  ultimately show ?thesis by (simp add: fun_eq_iff kernel.equality)
qed

lemma timer_spec_exact:
  "it_value_sec (timer_spec ms) = uint ms div 1000"
  "it_value_nsec (timer_spec ms) = uint ms mod 1000 * 1000000"
proof -
  have b: "uint ms < 2 ^ 64" using uint_bounded [of ms] by simp
  have d: "uint (ms div 1000) = uint ms div 1000" "uint (ms mod 1000) = uint ms mod 1000"
    by (simp_all add: uint_div uint_mod)
  have "uint ((ms mod 1000) * 1000000) = uint ms mod 1000 * 1000000"
    by (simp add: uint_word_ariths d)
  moreover have "uint ms div 1000 < 2 ^ 63" "- (2 ^ 63) \<le> uint ms div 1000"
    using b by (simp_all add: order.trans [of _ 0] pos_imp_zdiv_nonneg_iff)
  moreover have "uint ms mod 1000 * 1000000 < 2 ^ 63" "- (2 ^ 63) \<le> uint ms mod 1000 * 1000000"
    using pos_mod_bound [of 1000 "uint ms"] pos_mod_sign [of 1000 "uint ms"]
    by (simp_all del: pos_mod_bound pos_mod_sign)
  ultimately show "it_value_sec (timer_spec ms) = uint ms div 1000"
    "it_value_nsec (timer_spec ms) = uint ms mod 1000 * 1000000"
    using d by (simp_all only: timer_spec_def sint_uint itimerspec.simps signed_take_bit_int_eq_self
        len_num0 len_bit0 len_num1 One_nat_def) (simp_all add: signed_take_bit_int_eq_self)
qed

text \<open>
  C10. Creating a timer is all or nothing. It succeeds exactly when the timeout is at least one
  millisecond and every system call succeeds; then the new descriptor is armed once, with the
  requested number of milliseconds from now, and watched by epoll on behalf of this instigation.
  Otherwise it returns -1 and nothing is left behind: no descriptor stays open or watched.
\<close>

theorem pon_timer_create_all_or_nothing:
  assumes "insts s a = Some i" and "tfd = -1 \<or> fresh_fd tfd (kern s)"
  shows "if expiration_ms i \<noteq> 0 \<and> tfd \<noteq> -1 \<and> settime_ok \<and> (pon_timer_epoll_fd s = -1 \<or> ctl_ok)
         then \<exists>s'. pon_timer_instigation_create (Some a) tfd settime_ok ctl_ok s = Some (0, s') \<and>
                insts s' = (insts s)(a \<mapsto> i\<lparr>timer_fd := tfd\<rparr>) \<and>
                open_fds (kern s') = insert tfd (open_fds (kern s)) \<and>
                (\<exists>spec. armed (kern s') tfd = Some spec \<and> it_interval_sec spec = 0 \<and> it_interval_nsec spec = 0 \<and>
                   it_value_sec spec * 1000000000 + it_value_nsec spec = uint (expiration_ms i) * 1000000) \<and>
                (pon_timer_epoll_fd s \<noteq> -1 \<longrightarrow> interest (kern s') (pon_timer_epoll_fd s, tfd) = Some a)
         else pon_timer_instigation_create (Some a) tfd settime_ok ctl_ok s = Some (-1, s)"
proof -
  have lt: "expiration_ms i < PON_TIMER_MIN_MS \<longleftrightarrow> expiration_ms i = 0"
    by (simp add: PON_TIMER_MIN_MS_def)
  have dur: "it_value_sec (timer_spec ms) * 1000000000 + it_value_nsec (timer_spec ms) = uint ms * 1000000" for ms
  proof -
    have "uint ms div 1000 * 1000 + uint ms mod 1000 = uint ms" by (rule div_mult_mod_eq)
    then show ?thesis unfolding timer_spec_exact by linarith
  qed
  have cl: "sys_close tfd (sys_open tfd (kern s)) = kern s" if "tfd \<noteq> -1"
    using assms(2) that by (intro close_restores) (auto simp: sys_open_def)
  have cl2: "sys_close tfd (sys_timerfd_settime tfd sp True (sys_open tfd (kern s))) = kern s"
    if "tfd \<noteq> -1" for sp
    using assms(2) that by (intro close_restores) (auto simp: sys_simps)
  show ?thesis
    using assms(1) lt dur [of "expiration_ms i"] cl cl2
    by (auto simp: pon_timer_instigation_create_def sys_epoll_add_def sys_timerfd_settime_def
        timer_spec_def sys_open_def)
qed

theorem pon_timer_create_all_or_nothing_witness:
  "\<exists>s'. pon_timer_instigation_create (Some 7) 5 True True
     \<lparr>pon_timer_epoll_fd = 3, kern = \<lparr>open_fds = {3}, armed = Map.empty, interest = (\<lambda>_. None)\<rparr>,
      insts = [7 \<mapsto> ERTS_INIT_TIMER_INSTIGATION None 0 2500], tstats = pon_stats_zero\<rparr> = Some (0, s') \<and>
     open_fds (kern s') = {5, 3}"
  using pon_timer_create_all_or_nothing [where a = 7 and tfd = 5 and settime_ok = True and ctl_ok = True
    and i = "ERTS_INIT_TIMER_INSTIGATION None 0 2500"
    and s = "\<lparr>pon_timer_epoll_fd = 3, kern = \<lparr>open_fds = {3}, armed = Map.empty, interest = (\<lambda>_. None)\<rparr>,
      insts = [7 \<mapsto> ERTS_INIT_TIMER_INSTIGATION None 0 2500], tstats = pon_stats_zero\<rparr>"]
  by (auto simp: fresh_fd_def ERTS_INIT_TIMER_INSTIGATION_def)

text \<open>
  C11. Cancelling a timer that was just created gives the kernel back as it was before, and
  an expiration event that arrives afterwards for the cancelled instigation has no effect.
\<close>

theorem pon_timer_cancel_undoes_create:
  assumes "insts s a = Some i" and "fresh_fd tfd (kern s)"
    and "pon_timer_instigation_create (Some a) tfd True True s = Some (0, s1)"
  shows "\<exists>s2. pon_timer_instigation_cancel (Some a) ctl_ok s1 = Some s2 \<and> kern s2 = kern s \<and>
           pon_timer_instigation_fire (Some a) rd s2 = Some s2"
proof -
  have tfd: "tfd \<noteq> -1" using assms(2) by (simp add: fresh_fd_def)
  have r: "insts s1 a = Some (i\<lparr>timer_fd := tfd\<rparr>)" "pon_timer_epoll_fd s1 = pon_timer_epoll_fd s"
    "open_fds (kern s1) = insert tfd (open_fds (kern s))"
    "\<And>d. d \<noteq> tfd \<Longrightarrow> armed (kern s1) d = armed (kern s) d"
    "\<And>e d. e \<noteq> tfd \<Longrightarrow> d \<noteq> tfd \<Longrightarrow> interest (kern s1) (e, d) = interest (kern s) (e, d)"
    using assms(1,3) tfd
    by (auto simp: pon_timer_instigation_create_def sys_simps split: if_splits)
  let ?k = "if pon_timer_epoll_fd s1 \<noteq> -1
            then sys_epoll_del (pon_timer_epoll_fd s1) tfd ctl_ok (kern s1) else kern s1"
  have "sys_close tfd ?k = kern s"
    using r by (intro close_restores [OF assms(2)]) (auto simp: sys_epoll_del_def)
  then show ?thesis using r(1) tfd
    by (auto simp: pon_timer_instigation_cancel_def pon_timer_instigation_fire_def)
qed

theorem pon_timer_cancel_undoes_create_witness:
  "\<exists>s1 s2. pon_timer_instigation_create (Some 7) 5 True True
     \<lparr>pon_timer_epoll_fd = -1, kern = \<lparr>open_fds = {}, armed = Map.empty, interest = (\<lambda>_. None)\<rparr>,
      insts = [7 \<mapsto> ERTS_INIT_TIMER_INSTIGATION None 0 1], tstats = pon_stats_zero\<rparr> = Some (0, s1) \<and>
     pon_timer_instigation_cancel (Some 7) True s1 = Some s2 \<and>
     kern s2 = \<lparr>open_fds = {}, armed = Map.empty, interest = (\<lambda>_. None)\<rparr>"
proof -
  let ?s = "\<lparr>pon_timer_epoll_fd = -1, kern = \<lparr>open_fds = {}, armed = Map.empty, interest = (\<lambda>_. None)\<rparr>,
      insts = [7 \<mapsto> ERTS_INIT_TIMER_INSTIGATION None 0 1], tstats = pon_stats_zero\<rparr>"
  obtain s1 where s1: "pon_timer_instigation_create (Some 7) 5 True True ?s = Some (0, s1)"
    by (simp add: pon_timer_instigation_create_def ERTS_INIT_TIMER_INSTIGATION_def PON_TIMER_MIN_MS_def)
  have "insts ?s 7 = Some (ERTS_INIT_TIMER_INSTIGATION None 0 1)" "fresh_fd 5 (kern ?s)"
    by (simp_all add: fresh_fd_def)
  from pon_timer_cancel_undoes_create [OF this s1, of True 8] s1 show ?thesis by auto
qed

subsection \<open>Expirations\<close>

definition unfired :: "timer_state \<Rightarrow> addr set" where
  "unfired s = {a. \<exists>i. insts s a = Some i \<and> fired (base i) = 0}"

lemma fire_step:
  assumes "pon_timer_instigation_fire (Some a) rd s = Some s'"
  shows "unfired s' = unfired s \<and> tstats s' = tstats s \<or>
    a \<in> unfired s \<and> unfired s' = unfired s - {a} \<and>
      timerfd_expirations (tstats s') = timerfd_expirations (tstats s) + 1"
    and "dom (insts s') = dom (insts s)"
  using assms
  by (auto simp: pon_timer_instigation_fire_def unfired_def PON_STATS_INC_def bind_Some_iff split: if_splits)

lemma expire_loop_counts:
  assumes "expire_loop evs n s = Some (m, s')" and "finite (unfired s)"
  shows "unfired s' \<subseteq> unfired s \<and> dom (insts s') = dom (insts s) \<and>
    timerfd_expirations (tstats s') = timerfd_expirations (tstats s) + of_nat (card (unfired s - unfired s')) \<and>
    m - n = int (length (filter (\<lambda>(ev, p, rd). ev AND EPOLLIN \<noteq> 0 \<and> p \<noteq> None) evs)) \<and>
    int (card (unfired s - unfired s')) \<le> m - n"
  using assms
proof (induction evs n s rule: expire_loop.induct)
  case (2 ev inst rd evs n s)
  show ?case
  proof (cases "ev AND EPOLLIN \<noteq> 0 \<and> inst \<noteq> None")
    case False
    with 2 show ?thesis by (auto split: if_splits)
  next
    case True
    then obtain a where a: "inst = Some a" by auto
    from 2(3) True obtain s1 where s1: "pon_timer_instigation_fire (Some a) rd s = Some s1"
      "expire_loop evs (n + 1) s1 = Some (m, s')" by (auto simp: a bind_Some_iff)
    note st = fire_step [OF s1(1)]
    have fin: "finite (unfired s1)" using st(1) 2(4) by (metis finite_Diff)
    have IH: "unfired s' \<subseteq> unfired s1 \<and> dom (insts s') = dom (insts s1) \<and>
      timerfd_expirations (tstats s') = timerfd_expirations (tstats s1) + of_nat (card (unfired s1 - unfired s')) \<and>
      m - (n + 1) = int (length (filter (\<lambda>(ev, p, rd). ev AND EPOLLIN \<noteq> 0 \<and> p \<noteq> None) evs)) \<and>
      int (card (unfired s1 - unfired s')) \<le> m - (n + 1)"
      by (rule 2(1) [OF True _ s1(2) fin]) (use s1(1) a in simp)
    from st(1) show ?thesis
    proof
      assume "unfired s1 = unfired s \<and> tstats s1 = tstats s"
      with IH st(2) True show ?thesis by auto
    next
      assume h: "a \<in> unfired s \<and> unfired s1 = unfired s - {a} \<and>
        timerfd_expirations (tstats s1) = timerfd_expirations (tstats s) + 1"
      then have "unfired s - unfired s' = insert a (unfired s1 - unfired s')" "a \<notin> unfired s1 - unfired s'"
        using IH by auto
      then have c: "card (unfired s - unfired s') = Suc (card (unfired s1 - unfired s'))"
        using fin by (metis card_insert_disjoint finite_Diff)
      have "unfired s' \<subseteq> unfired s" using IH h by blast
      moreover have "timerfd_expirations (tstats s') =
          timerfd_expirations (tstats s) + of_nat (card (unfired s - unfired s'))"
        unfolding c using IH h by simp
      ultimately show ?thesis unfolding c using IH st(2) True by auto
    qed
  qed
qed auto

text \<open>
  C12. Every instigation is counted as expired at most once: over a call of
  \<open>pon_timer_process_expirations\<close>, whatever epoll and \<open>read\<close> answer, the counter
  \<open>timerfd_expirations\<close> grows by exactly the number of instigations that went from pending to
  fired, and none goes back; the returned number of processed events is at least that.
\<close>

theorem pon_timer_expirations_once:
  assumes "pon_timer_process_expirations nfds evs s = Some (n, s')" and "finite (unfired s)"
  shows "unfired s' \<subseteq> unfired s \<and>
    timerfd_expirations (tstats s') = timerfd_expirations (tstats s) + of_nat (card (unfired s - unfired s')) \<and>
    int (card (unfired s - unfired s')) \<le> n"
  using assms expire_loop_counts [of "take (nat nfds) evs" 0 s n s']
  by (auto simp: pon_timer_process_expirations_def split: if_splits)

theorem pon_timer_expirations_once_witness:
  "\<exists>s'. pon_timer_process_expirations 2 [(1, Some 7, 8), (1, Some 7, 8)]
     \<lparr>pon_timer_epoll_fd = 3, kern = \<lparr>open_fds = {3, 5}, armed = Map.empty, interest = (\<lambda>_. None)\<rparr>,
      insts = [7 \<mapsto> (ERTS_INIT_TIMER_INSTIGATION None 0 1)\<lparr>timer_fd := 5\<rparr>], tstats = pon_stats_zero\<rparr> =
       Some (2, s') \<and>
     timerfd_expirations (tstats s') = of_nat (card ({7 :: addr} - unfired s')) \<and> unfired s' \<subseteq> {7}"
proof -
  let ?s = "\<lparr>pon_timer_epoll_fd = 3, kern = \<lparr>open_fds = {3, 5}, armed = Map.empty, interest = (\<lambda>_. None)\<rparr>,
      insts = [7 \<mapsto> (ERTS_INIT_TIMER_INSTIGATION None 0 1)\<lparr>timer_fd := 5\<rparr>], tstats = pon_stats_zero\<rparr>"
  have u: "unfired ?s = {7}" by (auto simp: unfired_def ERTS_INIT_TIMER_INSTIGATION_def)
  obtain s' where s': "pon_timer_process_expirations 2 [(1, Some 7, 8), (1, Some 7, 8)] ?s = Some (2, s')"
    by (simp add: pon_timer_process_expirations_def pon_timer_instigation_fire_def EPOLLIN_def
        ERTS_INIT_TIMER_INSTIGATION_def numeral_2_eq_2)
  have "timerfd_expirations (tstats ?s) = 0" by (simp add: pon_stats_zero_def)
  with pon_timer_expirations_once [OF s'] u s' show ?thesis by auto
qed

end
