(* ===== verification/PonCondition.thy ===== *)
theory PonCondition
  imports PonStats "HOL-Library.Multiset"
begin

text \<open>
  The Condition of the scheduler (\<^verbatim>\<open>pon_condition.h\<close>, \<^verbatim>\<open>pon_condition.c\<close>): a lock-free
  stack of ready processes with an eventfd to wake the thread that waits for them.

  The operations run concurrently, so the two that loop are given step by step: a program counter
  names the next access to shared memory or the next system call of a thread, and \<open>tstep\<close> lists
  what that access can do (a weak compare-and-swap may also fail spuriously; an empty list means
  that the thread is blocked). Accesses interleave sequentially consistently. \<open>nxt\<close> is the
  first machine word of every process object, which the code uses as the link of the stack, and
  \<open>efd\<close> the counter of the eventfd. Run alone, the operations are those of a stack.
\<close>

subsection \<open>Data and the operations without loops\<close>

record ErtsCondition =
  wake_fd :: int
  epoll_fd :: int
  satisfied :: int
  ready_list :: ptr
  ready_list_tail :: ptr
  wakeup_count :: u64
  notify_count :: u64

record world =
  cnd :: ErtsCondition
  nxt :: "addr \<Rightarrow> ptr"
  efd :: u64

text \<open>
  \<open>evfd\<close>, \<open>epfd\<close> and \<open>ctl_ok\<close> answer \<open>eventfd\<close>, \<open>epoll_create1\<close> and \<open>epoll_ctl\<close>. The
  third component of the result lists the descriptors that were closed again.
\<close>

definition pon_condition_create ::
    "ErtsCondition option \<Rightarrow> int \<Rightarrow> int \<Rightarrow> bool \<Rightarrow> int \<times> ErtsCondition option \<times> int list" where
  "pon_condition_create cond evfd epfd ctl_ok =
     (case cond of
        None \<Rightarrow> (-1, None, [])
      | Some c \<Rightarrow>
        (let c = c\<lparr>wake_fd := evfd\<rparr>
         in if evfd = -1 then (-1, Some c, [])
            else let c = c\<lparr>epoll_fd := epfd\<rparr>
                 in if epfd = -1 then (-1, Some c, [evfd])
                    else if \<not> ctl_ok then (-1, Some c, [epfd, evfd])
                    else (0, Some (c\<lparr>satisfied := 0, ready_list := None, ready_list_tail := None,
                                     wakeup_count := 0, notify_count := 0\<rparr>), [])))"

definition pon_condition_destroy :: "ErtsCondition option \<Rightarrow> ErtsCondition option \<times> int list" where
  "pon_condition_destroy cond =
     (case cond of
        None \<Rightarrow> (None, [])
      | Some c \<Rightarrow>
          (Some (c\<lparr>wake_fd := -1, epoll_fd := -1, satisfied := 0, ready_list := None\<rparr>),
           (if epoll_fd c \<noteq> -1 then [epoll_fd c] else []) @
           (if wake_fd c \<noteq> -1 then [wake_fd c] else [])))"

definition pon_condition_get_epoll_fd :: "ErtsCondition option \<Rightarrow> int" where
  "pon_condition_get_epoll_fd cond = (case cond of None \<Rightarrow> -1 | Some c \<Rightarrow> epoll_fd c)"

text \<open>
  The eventfd, non-blocking: writing adds one unless the counter is at its maximum; reading
  resets the counter and fails when it is zero.
\<close>

definition efd_write :: "world \<Rightarrow> world" where
  "efd_write w = (if efd w \<ge> 2 ^ 64 - 2 then w else w\<lparr>efd := efd w + 1\<rparr>)"

definition efd_read :: "world \<Rightarrow> bool \<times> world" where
  "efd_read w = (if efd w > 0 then (True, w\<lparr>efd := 0\<rparr>) else (False, w))"

definition set_sat :: "int \<Rightarrow> world \<Rightarrow> world" where
  "set_sat v w = w\<lparr>cnd := (cnd w)\<lparr>satisfied := v\<rparr>\<rparr>"

definition set_ready :: "ptr \<Rightarrow> world \<Rightarrow> world" where
  "set_ready p w = w\<lparr>cnd := (cnd w)\<lparr>ready_list := p\<rparr>\<rparr>"

subsection \<open>The operations as threads\<close>

datatype pc =
    Idle
  | N_load addr \<comment> \<open>\<open>pon_condition_notify\<close>: load the head\<close>
  | N_store addr ptr \<comment> \<open>write it to the first word of the process\<close>
  | N_cas addr ptr \<comment> \<open>compare and swap the head\<close>
  | N_cnt_load addr \<comment> \<open>\<open>notify_count++\<close>, not atomic\<close>
  | N_cnt_store addr u64
  | N_check addr \<comment> \<open>test \<open>satisfied\<close>\<close>
  | N_set addr
  | N_write addr
  | W_load \<comment> \<open>\<open>pon_condition_wait\<close>: load the head\<close>
  | W_cas addr
  | W_clear addr \<comment> \<open>took the list: \<open>satisfied = 0\<close>\<close>
  | W_count addr
  | W_drain addr \<comment> \<open>\<open>while (read(...) > 0)\<close>\<close>
  | W_ret addr \<comment> \<open>returned this head\<close>
  | W_check \<comment> \<open>the list was empty: test \<open>satisfied\<close>\<close>
  | W_read
  | W_clear_retry
  | W_clear_block
  | W_epoll
  | W_woken
  | T_load \<comment> \<open>\<open>pon_condition_try_dequeue\<close>\<close>
  | T_next addr
  | T_cas addr ptr
  | T_clear addr
  | T_ret ptr
  | S_check \<comment> \<open>\<open>pon_condition_is_satisfied\<close>\<close>
  | S_load
  | S_set
  | S_ret int

text \<open>
  \<open>intr\<close>: whether a signal may interrupt \<open>epoll_wait\<close>. The call returns a positive number only
  when the eventfd is readable.
\<close>

fun tstep :: "bool \<Rightarrow> pc \<Rightarrow> world \<Rightarrow> (pc \<times> world) list" where
  "tstep intr Idle w = []"
| "tstep intr (N_load p) w = [(N_store p (ready_list (cnd w)), w)]"
| "tstep intr (N_store p old) w = [(N_cas p old, w\<lparr>nxt := (nxt w)(p := old)\<rparr>)]"
| "tstep intr (N_cas p old) w =
     (if ready_list (cnd w) = old then [(N_cnt_load p, set_ready (Some p) w), (N_load p, w)]
      else [(N_load p, w)])"
| "tstep intr (N_cnt_load p) w = [(N_cnt_store p (notify_count (cnd w)), w)]"
| "tstep intr (N_cnt_store p v) w = [(N_check p, w\<lparr>cnd := (cnd w)\<lparr>notify_count := v + 1\<rparr>\<rparr>)]"
| "tstep intr (N_check p) w = [(if satisfied (cnd w) = 0 then N_set p else Idle, w)]"
| "tstep intr (N_set p) w = [(N_write p, set_sat 1 w)]"
| "tstep intr (N_write p) w = [(Idle, efd_write w)]"
| "tstep intr W_load w =
     [(case ready_list (cnd w) of None \<Rightarrow> W_check | Some h \<Rightarrow> W_cas h, w)]"
| "tstep intr (W_cas h) w =
     (if ready_list (cnd w) = Some h then [(W_clear h, set_ready None w)] else [(W_load, w)])"
| "tstep intr (W_clear h) w = [(W_count h, set_sat 0 w)]"
| "tstep intr (W_count h) w =
     [(W_drain h, w\<lparr>cnd := (cnd w)\<lparr>wakeup_count := wakeup_count (cnd w) + 1\<rparr>\<rparr>)]"
| "tstep intr (W_drain h) w =
     (case efd_read w of (ok, w') \<Rightarrow> [(if ok then W_drain h else W_ret h, w')])"
| "tstep intr (W_ret h) w = []"
| "tstep intr W_check w = [(if satisfied (cnd w) \<noteq> 0 then W_read else W_epoll, w)]"
| "tstep intr W_read w =
     (case efd_read w of (ok, w') \<Rightarrow> [(if ok then W_clear_retry else W_clear_block, w')])"
| "tstep intr W_clear_retry w = [(W_load, set_sat 0 w)]"
| "tstep intr W_clear_block w = [(W_epoll, set_sat 0 w)]"
| "tstep intr W_epoll w =
     (if efd w > 0 then [(W_woken, w)] else []) @ (if intr then [(W_load, w)] else [])"
| "tstep intr W_woken w = [(W_load, set_sat 1 w)]"
| "tstep intr T_load w =
     [(case ready_list (cnd w) of None \<Rightarrow> T_ret None | Some h \<Rightarrow> T_next h, w)]"
| "tstep intr (T_next h) w = [(T_cas h (nxt w h), w)]"
| "tstep intr (T_cas h n) w =
     (if ready_list (cnd w) = Some h
      then [(if n = None then T_clear h else T_ret (Some h), set_ready n w)]
      else [(T_ret None, w)])"
| "tstep intr (T_clear h) w = [(T_ret (Some h), set_sat 0 w)]"
| "tstep intr (T_ret r) w = []"
| "tstep intr S_check w = [(if satisfied (cnd w) \<noteq> 0 then S_ret 1 else S_load, w)]"
| "tstep intr S_load w = [(if ready_list (cnd w) = None then S_ret 0 else S_set, w)]"
| "tstep intr S_set w = [(S_ret 1, set_sat 1 w)]"
| "tstep intr (S_ret v) w = []"

subsection \<open>Running an operation alone\<close>

text \<open>
  \<open>pon_condition_notify\<close> when no other thread runs (or under a lock). The arguments that may be
  \<open>NULL\<close> are options.
\<close>

definition pon_condition_notify :: "ptr \<Rightarrow> world \<Rightarrow> world" where
  "pon_condition_notify process w =
     (case process of
        None \<Rightarrow> w
      | Some p \<Rightarrow>
         (let w = w\<lparr>nxt := (nxt w)(p := ready_list (cnd w))\<rparr>;
              w = set_ready (Some p) w;
              w = w\<lparr>cnd := (cnd w)\<lparr>notify_count := notify_count (cnd w) + 1\<rparr>\<rparr>
          in if satisfied (cnd w) = 0 then efd_write (set_sat 1 w) else w))"

definition pon_condition_try_dequeue :: "world \<Rightarrow> ptr \<times> world" where
  "pon_condition_try_dequeue w =
     (case ready_list (cnd w) of
        None \<Rightarrow> (None, w)
      | Some h \<Rightarrow>
         (let n = nxt w h; w = set_ready n w
          in (Some h, if n = None then set_sat 0 w else w)))"

definition pon_condition_is_satisfied :: "world \<Rightarrow> int \<times> world" where
  "pon_condition_is_satisfied w =
     (if satisfied (cnd w) \<noteq> 0 then (1, w)
      else if ready_list (cnd w) \<noteq> None then (1, set_sat 1 w)
      else (0, w))"

inductive thread_run :: "bool \<Rightarrow> pc \<times> world \<Rightarrow> pc \<times> world \<Rightarrow> bool" for intr where
  thread_refl: "thread_run intr c c"
| thread_step: "(pc1, w1) \<in> set (tstep intr pc w) \<Longrightarrow> thread_run intr (pc1, w1) c \<Longrightarrow>
    thread_run intr (pc, w) c"



fun solo :: "nat \<Rightarrow> pc \<times> world \<Rightarrow> pc \<times> world" where
  "solo 0 c = c"
| "solo (Suc n) (pc, w) = (case tstep False pc w of [] \<Rightarrow> (pc, w) | c # _ \<Rightarrow> solo n c)"

lemma solo_run: "thread_run False c (solo n c)"
proof (induction n arbitrary: c)
  case 0
  show ?case by (simp add: thread_refl)
next
  case (Suc n)
  obtain pc w where c: "c = (pc, w)" by (cases c)
  show ?case
  proof (cases "tstep False pc w")
    case Nil
    then show ?thesis by (simp add: c thread_refl)
  next
    case (Cons d ds)
    then have "d \<in> set (tstep False pc w)" by simp
    with Suc.IH [of d] Cons show ?thesis by (cases d) (auto simp: c intro: thread_step)
  qed
qed

lemmas cond_simps = set_sat_def set_ready_def efd_write_def efd_read_def

lemma solo_notify: "solo 8 (N_load p, w) = (Idle, pon_condition_notify (Some p) w)"
  by (cases "satisfied (cnd w) = 0")
    (simp_all add: pon_condition_notify_def eval_nat_numeral set_sat_def set_ready_def Let_def)

text \<open>
  \<open>finishes c d\<close>: nothing more happens in \<open>d\<close>, and from every point a run that starts in \<open>c\<close>
  can get to, whatever compare-and-swaps failed spuriously before, \<open>d\<close> can still be reached. So
  \<open>d\<close> is the only place where a run from \<open>c\<close> can stop.
\<close>

definition finishes :: "pc \<times> world \<Rightarrow> pc \<times> world \<Rightarrow> bool" where
  "finishes c d \<longleftrightarrow>
     tstep False (fst d) (snd d) = [] \<and> (\<forall>e. thread_run False c e \<longrightarrow> thread_run False e d)"

inductive_cases thread_runE: "thread_run intr (pc, w) c"

lemma finishes_end: "tstep False pc w = [] \<Longrightarrow> finishes (pc, w) (pc, w)"
  by (auto simp: finishes_def elim: thread_runE intro: thread_refl)

lemma finishes_run: "finishes c d \<Longrightarrow> thread_run False c d"
  by (auto simp: finishes_def simp del: split_paired_All intro: thread_refl)

lemma finishes_loop:
  assumes closed: "\<And>pc w c. I (pc, w) \<Longrightarrow> c \<in> set (tstep False pc w) \<Longrightarrow> I c \<or> finishes c d"
    and reach: "\<And>c. I c \<Longrightarrow> thread_run False c d"
    and stop: "tstep False (fst d) (snd d) = []" and start: "I c"
  shows "finishes c d"
proof -
  have "thread_run False e d" if "thread_run False c e" "I c" for c e
    using that
  proof (induction rule: thread_run.induct)
    case (thread_refl c)
    then show ?case by (rule reach)
  next
    case (thread_step pc1 w1 pc w c)
    then show ?case using closed [of pc w "(pc1, w1)"] by (auto simp: finishes_def simp del: split_paired_All)
  qed
  with stop start show ?thesis by (auto simp: finishes_def)
qed

lemma finishes_step:
  assumes "tstep False pc w = [c]" and "finishes c d"
  shows "finishes (pc, w) d"
proof (rule finishes_loop [where I = "\<lambda>c. c = (pc, w)"])
  show "thread_run False c' d" if "c' = (pc, w)" for c'
    using that assms finishes_run [OF assms(2)] by (cases c) (auto intro: thread_step)
qed (use assms in \<open>auto simp: finishes_def\<close>)

text \<open>
  The loop of \<open>pon_condition_notify\<close>: whatever the weak compare-and-swap does, the call ends
  where the first attempt that succeeds takes it.
\<close>

lemma notify_alone: "finishes (N_load p, w) (Idle, pon_condition_notify (Some p) w)"
proof -
  let ?old = "ready_list (cnd w)"
  let ?w1 = "w\<lparr>nxt := (nxt w)(p := ?old)\<rparr>"
  let ?d = "(Idle, pon_condition_notify (Some p) w)"
  let ?I = "\<lambda>c. c \<in> {(N_load p, w), (N_load p, ?w1), (N_store p ?old, w), (N_store p ?old, ?w1), (N_cas p ?old, ?w1)}"
  have pushed: "finishes (N_cnt_load p, set_ready (Some p) ?w1) ?d"
    by (cases "satisfied (cnd w) = 0")
      (auto intro!: finishes_step [OF tstep.simps(5)] finishes_step [OF tstep.simps(6)]
        finishes_step [OF tstep.simps(7)] finishes_step [OF tstep.simps(8)]
        finishes_step [OF tstep.simps(9)]
        simp: pon_condition_notify_def Let_def finishes_end set_ready_def)
  have cas: "thread_run False (N_cas p ?old, ?w1) ?d"
    using finishes_run [OF pushed] by (auto intro: thread_step)
  have store: "thread_run False (N_store p ?old, v) ?d" if "v = w \<or> v = ?w1" for v
    using that cas by (auto intro!: thread_step [of "N_cas p ?old" ?w1])
  have load: "thread_run False (N_load p, v) ?d" if "v = w \<or> v = ?w1" for v
    using that store [of v] by (auto intro!: thread_step [of "N_store p ?old" v])
  show ?thesis
  proof (rule finishes_loop [where I = ?I])
    show "?I c \<or> finishes c ?d" if "?I (pc, v)" "c \<in> set (tstep False pc v)" for pc v c
      using that pushed by auto
    show "thread_run False c ?d" if "?I c" for c
      using that load store cas by auto
  qed simp_all
qed

lemma try_dequeue_alone:
  "finishes (T_load, w)
     (T_ret (fst (pon_condition_try_dequeue w)), snd (pon_condition_try_dequeue w))"
proof (cases "ready_list (cnd w)")
  case None
  then show ?thesis
    by (simp add: pon_condition_try_dequeue_def finishes_step finishes_end)
next
  case (Some h)
  then have "finishes (T_cas h (nxt w h), w)
      (T_ret (fst (pon_condition_try_dequeue w)), snd (pon_condition_try_dequeue w))"
    by (cases "nxt w h") (simp_all add: pon_condition_try_dequeue_def Let_def finishes_step finishes_end)
  with Some show ?thesis
    by (intro finishes_step [OF tstep.simps(22)]) (simp add: finishes_step)
qed

lemma is_satisfied_alone:
  "finishes (S_check, w)
     (S_ret (fst (pon_condition_is_satisfied w)), snd (pon_condition_is_satisfied w))"
  by (cases "satisfied (cnd w) = 0"; cases "ready_list (cnd w)")
    (rule finishes_step, simp, simp add: pon_condition_is_satisfied_def finishes_step finishes_end)+

fun link_chain :: "(addr \<Rightarrow> ptr) \<Rightarrow> ptr \<Rightarrow> addr list \<Rightarrow> bool" where
  "link_chain m p [] \<longleftrightarrow> p = None"
| "link_chain m p (a # as) \<longleftrightarrow> p = Some a \<and> link_chain m (m a) as"

lemma link_chain_other: "p \<notin> set xs \<Longrightarrow> link_chain (m(p := v)) q xs = link_chain m q xs"
  by (induction xs arbitrary: q) auto

lemma drain_alone: "finishes (W_drain h, w) (W_ret h, w\<lparr>efd := 0\<rparr>)"
proof -
  have empty: "finishes (W_drain h, v) (W_ret h, v)" if "efd v = 0" for v
    using that by (simp add: finishes_step finishes_end efd_read_def)
  show ?thesis
  proof (cases "efd w = 0")
    case True
    then have "w\<lparr>efd := 0\<rparr> = w" by (cases w) simp
    with empty [OF True] show ?thesis by (simp only:)
  next
    case False
    then have "tstep False (W_drain h) w = [(W_drain h, w\<lparr>efd := 0\<rparr>)]"
      by (simp add: efd_read_def word_neq_0_conv)
    with empty [of "w\<lparr>efd := 0\<rparr>"] show ?thesis by (auto intro: finishes_step)
  qed
qed

lemma wait_takes:
  assumes "ready_list (cnd w) = Some h"
  shows "finishes (W_load, w) (W_ret h, w\<lparr>cnd := (cnd w)\<lparr>ready_list := None, satisfied := 0,
           wakeup_count := wakeup_count (cnd w) + 1\<rparr>, efd := 0\<rparr>)"
proof -
  have "finishes (W_clear h, v)
      (W_ret h, v\<lparr>cnd := (cnd v)\<lparr>satisfied := 0, wakeup_count := wakeup_count (cnd v) + 1\<rparr>, efd := 0\<rparr>)" for v
    using drain_alone [of h "v\<lparr>cnd := (cnd v)\<lparr>satisfied := 0, wakeup_count := wakeup_count (cnd v) + 1\<rparr>\<rparr>"]
    by (intro finishes_step [OF tstep.simps(12)] finishes_step [OF tstep.simps(13)])
      (simp add: set_sat_def)
  from this [of "set_ready None w"] assms show ?thesis
    by (intro finishes_step [OF tstep.simps(10)]) (simp add: finishes_step set_ready_def)
qed

lemma wait_blocks_empty:
  assumes "ready_list (cnd w) = None" "satisfied (cnd w) = 0" "efd w = 0"
  shows "finishes (W_load, w) (W_epoll, w)"
  using assms
  by (intro finishes_step [OF tstep.simps(10)]) (simp add: finishes_step finishes_end)

lemma wait_blocks:
  assumes "ready_list (cnd w) = None"
  shows "finishes (W_load, w) (W_epoll, w\<lparr>cnd := (cnd w)\<lparr>satisfied := 0\<rparr>, efd := 0\<rparr>)"
proof -
  let ?v = "w\<lparr>cnd := (cnd w)\<lparr>satisfied := 0\<rparr>, efd := 0\<rparr>"
  have again: "finishes (W_load, ?v) (W_epoll, ?v)"
    using assms by (intro wait_blocks_empty) simp_all
  have idle: "finishes (W_epoll, ?v) (W_epoll, ?v)" by (rule finishes_end) simp
  have read: "finishes (W_read, u) (W_epoll, ?v)"
    if "u\<lparr>cnd := (cnd u)\<lparr>satisfied := 0\<rparr>, efd := 0\<rparr> = ?v" for u
  proof (cases "efd u = 0")
    case True
    then have "set_sat 0 u = ?v" using that by (cases u) (simp add: set_sat_def)
    with True idle show ?thesis by (simp add: finishes_step efd_read_def)
  next
    case False
    then have "tstep False W_read u = [(W_clear_retry, u\<lparr>efd := 0\<rparr>)]"
      by (simp add: efd_read_def word_neq_0_conv)
    moreover have "set_sat 0 (u\<lparr>efd := 0\<rparr>) = ?v" using that by (cases u) (simp add: set_sat_def)
    ultimately show ?thesis using again by (auto intro!: finishes_step)
  qed
  have check: "finishes (W_load, u) (W_epoll, ?v)"
    if "u\<lparr>cnd := (cnd u)\<lparr>satisfied := 0\<rparr>, efd := 0\<rparr> = ?v" "satisfied (cnd u) \<noteq> 0" "ready_list (cnd u) = None" for u
    using that read [OF that(1)] by (intro finishes_step [OF tstep.simps(10)]) (simp add: finishes_step)
  show ?thesis
  proof (cases "satisfied (cnd w) = 0")
    case False
    with assms show ?thesis by (intro check) simp_all
  next
    case sat: True
    show ?thesis
    proof (cases "efd w = 0")
      case True
      with sat have "?v = w" by (cases w; cases "cnd w") simp
      with again show ?thesis by simp
    next
      case False
      then have "tstep False W_epoll w = [(W_woken, w)]" by (simp add: word_neq_0_conv)
      moreover have "finishes (W_load, set_sat 1 w) (W_epoll, ?v)"
        using assms by (intro check) (simp_all add: set_sat_def)
      ultimately have "finishes (W_epoll, w) (W_epoll, ?v)" by (simp add: finishes_step)
      with sat assms show ?thesis
        by (intro finishes_step [OF tstep.simps(10)]) (simp add: finishes_step)
    qed
  qed
qed

text \<open>
  C13. With no other thread at work the Condition is a stack of processes. If the ready list links
  the processes \<open>xs\<close>, then, however often the weak compare-and-swap fails, the only place where a
  call can stop, and one it can always get to, is the following. \<open>pon_condition_notify\<close> of a
  process that is not in the list: it is linked in front, \<open>satisfied\<close> is set, and the eventfd is
  written exactly if \<open>satisfied\<close> was clear. \<open>pon_condition_try_dequeue\<close>: it returns the first
  process, or \<open>NULL\<close> for none, unlinks it and clears \<open>satisfied\<close> with the last one.
  \<open>pon_condition_is_satisfied\<close>: it answers 1 if the flag is set or the list is not empty, sets the
  flag then and keeps the list. \<open>pon_condition_wait\<close>: it returns the head of a non-empty list with all
  links intact, leaving the list empty, the flag clear and the eventfd drained; on an empty list it sleeps
  in \<open>epoll_wait\<close>, with flag and eventfd clear.
\<close>

theorem pon_condition_is_a_stack:
  assumes "link_chain (nxt w) (ready_list (cnd w)) xs" and "p \<notin> set xs"
  shows "(\<exists>w'. finishes (N_load p, w) (Idle, w') \<and> link_chain (nxt w') (ready_list (cnd w')) (p # xs) \<and>
      cnd w' = (cnd w)\<lparr>ready_list := Some p, notify_count := notify_count (cnd w) + 1,
        satisfied := if satisfied (cnd w) = 0 then 1 else satisfied (cnd w)\<rparr> \<and>
      efd w' = (if satisfied (cnd w) = 0 \<and> efd w < 2 ^ 64 - 2 then efd w + 1 else efd w))
    \<and> (\<exists>w'. finishes (T_load, w) (T_ret (if xs = [] then None else Some (hd xs)), w') \<and>
      link_chain (nxt w') (ready_list (cnd w')) (tl xs) \<and> nxt w' = nxt w \<and> efd w' = efd w \<and>
      satisfied (cnd w') = (if length xs = 1 then 0 else satisfied (cnd w)))
    \<and> (\<exists>w'. finishes (S_check, w) (S_ret (if satisfied (cnd w) = 0 \<and> xs = [] then 0 else 1), w') \<and>
      link_chain (nxt w') (ready_list (cnd w')) xs \<and> nxt w' = nxt w \<and> efd w' = efd w \<and>
      satisfied (cnd w') = (if satisfied (cnd w) = 0 \<and> xs \<noteq> [] then 1 else satisfied (cnd w)))
    \<and> (\<exists>w'. finishes (W_load, w) (if xs = [] then W_epoll else W_ret (hd xs), w') \<and>
      ready_list (cnd w') = None \<and> nxt w' = nxt w \<and> efd w' = 0 \<and> satisfied (cnd w') = 0 \<and>
      wakeup_count (cnd w') = wakeup_count (cnd w) + (if xs = [] then 0 else 1))"
proof (intro conjI)
  note stack = assms(1)
  show "\<exists>w'. finishes (N_load p, w) (Idle, w') \<and> link_chain (nxt w') (ready_list (cnd w')) (p # xs) \<and>
      cnd w' = (cnd w)\<lparr>ready_list := Some p, notify_count := notify_count (cnd w) + 1,
        satisfied := if satisfied (cnd w) = 0 then 1 else satisfied (cnd w)\<rparr> \<and>
      efd w' = (if satisfied (cnd w) = 0 \<and> efd w < 2 ^ 64 - 2 then efd w + 1 else efd w)"
    using notify_alone [of p w] assms
    by (intro exI [of _ "pon_condition_notify (Some p) w"])
      (auto simp: pon_condition_notify_def Let_def cond_simps link_chain_other linorder_not_le)
  show "\<exists>w'. finishes (T_load, w) (T_ret (if xs = [] then None else Some (hd xs)), w') \<and>
      link_chain (nxt w') (ready_list (cnd w')) (tl xs) \<and> nxt w' = nxt w \<and> efd w' = efd w \<and>
      satisfied (cnd w') = (if length xs = 1 then 0 else satisfied (cnd w))"
    using try_dequeue_alone [of w] stack
    by (cases xs; cases "tl xs")
      (auto simp: pon_condition_try_dequeue_def Let_def cond_simps split: if_splits option.splits)
  show "\<exists>w'. finishes (S_check, w) (S_ret (if satisfied (cnd w) = 0 \<and> xs = [] then 0 else 1), w') \<and>
      link_chain (nxt w') (ready_list (cnd w')) xs \<and> nxt w' = nxt w \<and> efd w' = efd w \<and>
      satisfied (cnd w') = (if satisfied (cnd w) = 0 \<and> xs \<noteq> [] then 1 else satisfied (cnd w))"
    using is_satisfied_alone [of w] stack
    by (cases xs) (auto simp: pon_condition_is_satisfied_def cond_simps split: if_splits)
  show "\<exists>w'. finishes (W_load, w) (if xs = [] then W_epoll else W_ret (hd xs), w') \<and>
      ready_list (cnd w') = None \<and> nxt w' = nxt w \<and> efd w' = 0 \<and> satisfied (cnd w') = 0 \<and>
      wakeup_count (cnd w') = wakeup_count (cnd w) + (if xs = [] then 0 else 1)"
  proof (cases xs)
    case Nil
    with stack wait_blocks [of w] show ?thesis
      by (intro exI [of _ "w\<lparr>cnd := (cnd w)\<lparr>satisfied := 0\<rparr>, efd := 0\<rparr>"]) simp
  next
    case (Cons x ys)
    with stack wait_takes [of w x] show ?thesis
      by (intro exI [of _ "w\<lparr>cnd := (cnd w)\<lparr>ready_list := None, satisfied := 0,
           wakeup_count := wakeup_count (cnd w) + 1\<rparr>, efd := 0\<rparr>"]) simp
  qed
qed

definition two_ready :: world where
  "two_ready =
     \<lparr>cnd = \<lparr>wake_fd = 3, epoll_fd = 4, satisfied = 1, ready_list = Some 102,
             ready_list_tail = None, wakeup_count = 0, notify_count = 2\<rparr>,
      nxt = (\<lambda>_. None)(102 := Some 101), efd = 1\<rparr>"

theorem pon_condition_is_a_stack_witness:
  "(\<exists>w'. finishes (N_load 103, two_ready) (Idle, w') \<and>
      link_chain (nxt w') (ready_list (cnd w')) [103, 102, 101] \<and> efd w' = 1) \<and>
   (\<exists>w'. finishes (T_load, two_ready) (T_ret (Some 102), w') \<and>
      link_chain (nxt w') (ready_list (cnd w')) [101]) \<and>
   (\<exists>w'. finishes (W_load, two_ready) (W_ret 102, w') \<and> ready_list (cnd w') = None \<and> efd w' = 0)"
proof -
  have w: "link_chain (nxt two_ready) (ready_list (cnd two_ready)) [102, 101]"
    "satisfied (cnd two_ready) = 1" "efd two_ready = 1" by (simp_all add: two_ready_def)
  have "103 \<notin> set [102, 101 :: addr]" by simp
  note st = pon_condition_is_a_stack [OF w(1) this]
  from st [THEN conjunct1] st [THEN conjunct2, THEN conjunct1]
    st [THEN conjunct2, THEN conjunct2, THEN conjunct2] show ?thesis by (auto simp: w)
qed

subsection \<open>The system\<close>

text \<open>
  Any number of threads run the operations on one Condition. Beside the shared state, the system
  records what the interface promises: \<open>pend\<close>, the processes notified and not yet handed out,
  most recent first; \<open>sent\<close>, all that were ever pushed; \<open>got\<close>, all that the callers of
  \<open>pon_condition_wait\<close> got. What a caller gets is read off the shared memory: the processes on the
  links that start at the head the call returns, at the moment it takes the list. (A list has at most
  as many processes as were ever pushed, the bound for \<open>follow\<close>.)
\<close>

fun follow :: "(addr \<Rightarrow> ptr) \<Rightarrow> nat \<Rightarrow> ptr \<Rightarrow> addr list" where
  "follow m 0 p = []"
| "follow m (Suc n) None = []"
| "follow m (Suc n) (Some a) = a # follow m n (m a)"

lemma follow_chain: "link_chain m p xs \<Longrightarrow> length xs \<le> n \<Longrightarrow> follow m n p = xs"
proof (induction xs arbitrary: n p)
  case Nil
  then show ?case by (cases n) simp_all
next
  case (Cons a xs)
  then show ?case by (cases n) simp_all
qed

record sys =
  wld :: world
  ths :: "nat \<Rightarrow> pc"
  pend :: "addr list"
  sent :: "addr list"
  got :: "addr list"

definition observe :: "pc \<Rightarrow> pc \<Rightarrow> sys \<Rightarrow> sys" where
  "observe pc pc' s =
     (case (pc, pc') of
        (N_cas p _, N_cnt_load _) \<Rightarrow> s\<lparr>pend := p # pend s, sent := sent s @ [p]\<rparr>
      | (W_cas _, W_clear h) \<Rightarrow>
          s\<lparr>got := got s @ follow (nxt (wld s)) (length (sent s)) (Some h), pend := []\<rparr>
      | _ \<Rightarrow> s)"

fun pushing :: "pc \<Rightarrow> ptr" where
  "pushing (N_load p) = Some p"
| "pushing (N_store p _) = Some p"
| "pushing (N_cas p _) = Some p"
| "pushing _ = None"

fun popping :: "pc \<Rightarrow> bool" where
  "popping T_load = True"
| "popping (T_next _) = True"
| "popping (T_cas _ _) = True"
| "popping (T_clear _) = True"
| "popping (T_ret _) = True"
| "popping _ = False"

fun idle :: "pc \<Rightarrow> bool" where
  "idle Idle = True"
| "idle (W_ret _) = True"
| "idle (S_ret _) = True"
| "idle _ = False"

text \<open>
  A free thread may call \<open>notify\<close> for a process that is not in the list and that no other thread
  is pushing, \<open>wait\<close>, or \<open>is_satisfied\<close>.
\<close>

inductive sys_step :: "bool \<Rightarrow> sys \<Rightarrow> sys \<Rightarrow> bool" for intr where
  run_thread: "(pc', w') \<in> set (tstep intr (ths s t) (wld s)) \<Longrightarrow>
    sys_step intr s ((observe (ths s t) pc' s)\<lparr>wld := w', ths := (ths s)(t := pc')\<rparr>)"
| call_notify: "idle (ths s t) \<Longrightarrow> p \<notin> set (pend s) \<Longrightarrow> (\<forall>u. pushing (ths s u) \<noteq> Some p) \<Longrightarrow>
    sys_step intr s (s\<lparr>ths := (ths s)(t := N_load p)\<rparr>)"
| call_wait: "idle (ths s t) \<Longrightarrow> sys_step intr s (s\<lparr>ths := (ths s)(t := W_load)\<rparr>)"
| call_is_satisfied: "idle (ths s t) \<Longrightarrow> sys_step intr s (s\<lparr>ths := (ths s)(t := S_check)\<rparr>)"

definition cond_init :: "sys \<Rightarrow> bool" where
  "cond_init s \<longleftrightarrow>
     satisfied (cnd (wld s)) = 0 \<and> ready_list (cnd (wld s)) = None \<and> efd (wld s) = 0 \<and>
     ths s = (\<lambda>_. Idle) \<and> pend s = [] \<and> sent s = [] \<and> got s = []"

text \<open>
  The invariant: the linked list is the list of pending processes, a thread between its store
  and its compare-and-swap has linked its process to the head it read, and the processes being
  pushed are distinct from each other and from the pending ones.
\<close>

definition cond_inv :: "sys \<Rightarrow> bool" where
  "cond_inv s \<longleftrightarrow>
     link_chain (nxt (wld s)) (ready_list (cnd (wld s))) (pend s) \<and> distinct (pend s) \<and>
     mset (sent s) = mset (got s) + mset (pend s) \<and>
     (\<forall>t p. pushing (ths s t) = Some p \<longrightarrow> p \<notin> set (pend s)) \<and>
     (\<forall>t u p. pushing (ths s t) = Some p \<longrightarrow> pushing (ths s u) = Some p \<longrightarrow> t = u) \<and>
     (\<forall>t p old. ths s t = N_cas p old \<longrightarrow> nxt (wld s) p = old) \<and>
     (\<forall>t. \<not> popping (ths s t))"

fun touches_list :: "pc \<Rightarrow> bool" where
  "touches_list (N_store _ _) = True"
| "touches_list (N_cas _ _) = True"
| "touches_list (W_cas _) = True"
| "touches_list (T_cas _ _) = True"
| "touches_list _ = False"

lemma tstep_frame:
  assumes "(pc', w') \<in> set (tstep intr pc w)" and "\<not> touches_list pc"
  shows "nxt w' = nxt w" and "ready_list (cnd w') = ready_list (cnd w)"
    and "pushing pc' = pushing pc \<or> pushing pc' = None" and "pc' \<noteq> N_cas p old"
    and "observe pc pc' s = s" and "\<not> popping pc \<Longrightarrow> \<not> popping pc'"
  using assms
  by (cases pc; auto simp: cond_simps observe_def split: if_splits option.splits)+

lemma cond_inv_step:
  assumes "sys_step intr s s'" and "cond_inv s"
  shows "cond_inv s'"
  using assms
proof (induction rule: sys_step.induct)
  case (run_thread pc' w' s t)
  have inv: "link_chain (nxt (wld s)) (ready_list (cnd (wld s))) (pend s)" "distinct (pend s)"
    "mset (sent s) = mset (got s) + mset (pend s)"
    "\<And>t p. pushing (ths s t) = Some p \<Longrightarrow> p \<notin> set (pend s)"
    "\<And>t u p. pushing (ths s t) = Some p \<Longrightarrow> pushing (ths s u) = Some p \<Longrightarrow> t = u"
    "\<And>t p old. ths s t = N_cas p old \<Longrightarrow> nxt (wld s) p = old" "\<And>t. \<not> popping (ths s t)"
    using run_thread(2) by (auto simp: cond_inv_def)
  show ?case
  proof (cases "touches_list (ths s t)")
    case False
    note fr = tstep_frame [OF run_thread(1) False]
    have push: "pushing pc' = Some p \<Longrightarrow> pushing (ths s t) = Some p" for p using fr(3) by auto
    show ?thesis
      using inv fr(1,2,4,6) push by (auto simp: cond_inv_def fr(5) split: if_splits) 
  next
    case True
    then consider (store) p old where "ths s t = N_store p old" | (cas) p old where "ths s t = N_cas p old"
      | (take) h where "ths s t = W_cas h"
      using inv(7) [of t] by (cases "ths s t") auto
    then show ?thesis
    proof cases
      case store
      then have "p \<notin> set (pend s)" using inv(4) [of t p] by simp
      moreover have "u = t" if "pushing (ths s u) = Some p" for u using inv(5) [of u p t] that store by simp
      ultimately show ?thesis
        using run_thread(1) store inv by (auto simp: cond_inv_def observe_def link_chain_other split: if_splits)
    next
      case cas
      then have p: "p \<notin> set (pend s)" "nxt (wld s) p = old" using inv(4) [of t p] inv(6) [of t] by simp_all
      have one: "u = t" if "pushing (ths s u) = Some p" for u using inv(5) [of u p t] that cas by simp
      show ?thesis
      proof (cases "pc' = N_cnt_load p")
        case True
        then have w': "w' = set_ready (Some p) (wld s)" "ready_list (cnd (wld s)) = old"
          using run_thread(1) cas by (auto split: if_splits)
        show ?thesis
          using inv p one by (auto simp: True cas w' cond_inv_def observe_def set_ready_def split: if_splits)
      next
        case False
        then have "pc' = N_load p" "w' = wld s" using run_thread(1) cas by (auto split: if_splits)
        then show ?thesis using inv p cas by (auto simp: cond_inv_def observe_def split: if_splits)
      qed
    next
      case take
      show ?thesis
      proof (cases "pc' = W_clear h")
        case True
        then have "w' = set_ready None (wld s)" "ready_list (cnd (wld s)) = Some h"
          using run_thread(1) take by (auto split: if_splits)
        moreover have "length (pend s) \<le> length (sent s)"
          using arg_cong [OF inv(3), of size] by simp
        ultimately have "w' = set_ready None (wld s)"
          "follow (nxt (wld s)) (length (sent s)) (Some h) = pend s"
          using follow_chain [OF inv(1), of "length (sent s)"] by simp_all
        with True take inv show ?thesis
          by (auto simp: cond_inv_def observe_def set_ready_def split: if_splits)
      next
        case False
        then have "pc' = W_load" "w' = wld s" using run_thread(1) take by (auto split: if_splits)
        then show ?thesis using inv take by (auto simp: cond_inv_def observe_def split: if_splits)
      qed
    qed
  qed
qed (auto simp: cond_inv_def split: if_splits)

lemma cond_inv_init: "cond_init s \<Longrightarrow> cond_inv s"
  by (simp add: cond_init_def cond_inv_def)

lemma cond_inv_reachable:
  assumes "(sys_step intr)\<^sup>*\<^sup>* s s'" and "cond_inv s"
  shows "cond_inv s'"
  using assms by (induction rule: rtranclp_induct) (auto intro: cond_inv_step)


text \<open>
  C14. Nothing is lost and nothing is delivered twice, for any number of threads that
  notify, wait and test concurrently, with spurious failures of the compare-and-swap: in every
  reachable state the linked list holds exactly the processes notified and not yet taken, most
  recent first, without repetition, and the processes pushed so far are those that the callers of
  \<open>pon_condition_wait\<close> found linked to the heads they were given, together with those still in the
  list. A process must not be notified again while it is in the list.
\<close>

theorem pon_condition_exactly_once:
  assumes "cond_init s0" and "(sys_step intr)\<^sup>*\<^sup>* s0 s"
  shows "link_chain (nxt (wld s)) (ready_list (cnd (wld s))) (pend s) \<and> distinct (pend s) \<and>
         mset (sent s) = mset (got s) + mset (pend s)"
  using cond_inv_reachable [OF assms(2) cond_inv_init [OF assms(1)]] by (simp_all add: cond_inv_def)

subsection \<open>Schedules\<close>

datatype act = Run nat nat | Notify nat addr | Wait nat | Test nat

text \<open>One chosen step; \<open>ts\<close> lists the threads in use, and \<open>Run t i\<close> takes the \<open>i\<close>-th outcome.\<close>

fun exec :: "nat list \<Rightarrow> act \<Rightarrow> sys \<Rightarrow> sys option" where
  "exec ts (Run t i) s =
     (let outs = tstep False (ths s t) (wld s) in
      if t \<in> set ts \<and> i < length outs
      then (case outs ! i of (pc', w') \<Rightarrow>
              Some ((observe (ths s t) pc' s)\<lparr>wld := w', ths := (ths s)(t := pc')\<rparr>))
      else None)"
| "exec ts (Notify t p) s =
     (if t \<in> set ts \<and> idle (ths s t) \<and> p \<notin> set (pend s) \<and> list_all (\<lambda>u. pushing (ths s u) \<noteq> Some p) ts
      then Some (s\<lparr>ths := (ths s)(t := N_load p)\<rparr>) else None)"
| "exec ts (Wait t) s =
     (if t \<in> set ts \<and> idle (ths s t) then Some (s\<lparr>ths := (ths s)(t := W_load)\<rparr>) else None)"
| "exec ts (Test t) s =
     (if t \<in> set ts \<and> idle (ths s t) then Some (s\<lparr>ths := (ths s)(t := S_check)\<rparr>) else None)"

fun exec_all :: "nat list \<Rightarrow> act list \<Rightarrow> sys \<Rightarrow> sys option" where
  "exec_all ts [] s = Some s"
| "exec_all ts (a # as) s = (case exec ts a s of None \<Rightarrow> None | Some s' \<Rightarrow> exec_all ts as s')"

lemma exec_sound:
  assumes "exec ts a s = Some s'" and "\<And>u. u \<notin> set ts \<Longrightarrow> ths s u = Idle"
  shows "sys_step False s s' \<and> (\<forall>u. u \<notin> set ts \<longrightarrow> ths s' u = Idle)"
proof (cases a)
  case (Run t i)
  with assms have t: "t \<in> set ts" "i < length (tstep False (ths s t) (wld s))"
    by (auto simp: Let_def split: if_splits)
  obtain pc' w' where o: "tstep False (ths s t) (wld s) ! i = (pc', w')" by fastforce
  with t have "(pc', w') \<in> set (tstep False (ths s t) (wld s))" by (metis nth_mem)
  from run_thread [where intr = False, OF this] show ?thesis
    using assms t o by (auto simp: Run Let_def)
next
  case (Notify t p)
  have "pushing (ths s u) \<noteq> Some p" if "list_all (\<lambda>u. pushing (ths s u) \<noteq> Some p) ts" for u
    using that assms(2) [of u] by (cases "u \<in> set ts") (auto simp: list_all_iff)
  with assms Notify show ?thesis
    by (auto split: if_splits intro!: call_notify)
next
  case (Wait t)
  with assms show ?thesis by (auto split: if_splits intro!: call_wait)
next
  case (Test t)
  with assms show ?thesis by (auto split: if_splits intro!: call_is_satisfied)
qed

lemma exec_all_sound:
  assumes "exec_all ts as s = Some s'" and "\<And>u. u \<notin> set ts \<Longrightarrow> ths s u = Idle"
  shows "(sys_step False)\<^sup>*\<^sup>* s s' \<and> (\<forall>u. u \<notin> set ts \<longrightarrow> ths s' u = Idle)"
  using assms
proof (induction as arbitrary: s)
  case (Cons a as)
  then obtain s1 where s1: "exec ts a s = Some s1" "exec_all ts as s1 = Some s'"
    by (auto split: option.splits)
  note st = exec_sound [OF s1(1) Cons.prems(2)]
  from Cons.IH [OF s1(2)] st show ?case by (auto intro: converse_rtranclp_into_rtranclp)
qed simp

definition sys0 :: sys where
  "sys0 = \<lparr>wld = \<lparr>cnd = \<lparr>wake_fd = 3, epoll_fd = 4, satisfied = 0, ready_list = None,
                        ready_list_tail = None, wakeup_count = 0, notify_count = 0\<rparr>,
                  nxt = (\<lambda>_. None), efd = 0\<rparr>,
           ths = (\<lambda>_. Idle), pend = [], sent = [], got = []\<rparr>"

lemma sys0_init: "cond_init sys0"
  by (simp add: sys0_def cond_init_def)

lemma sys0_idle: "ths sys0 u = Idle"
  by (simp add: sys0_def)

theorem pon_condition_exactly_once_witness:
  "\<exists>s. (sys_step False)\<^sup>*\<^sup>* sys0 s \<and> link_chain (nxt (wld s)) (ready_list (cnd (wld s))) (pend s) \<and>
     mset (sent s) = mset (got s) + mset (pend s) \<and> got s = [102, 101] \<and> pend s = [103]"
proof -
  let ?as = "Notify 1 101 # replicate 8 (Run 1 0) @ Notify 2 102 # replicate 6 (Run 2 0) @
    Wait 0 # replicate 4 (Run 0 0) @ Notify 2 103 # replicate 6 (Run 2 0)"
  have ev: "map_option (\<lambda>s. (got s, pend s)) (exec_all [0, 1, 2] ?as sys0) = Some ([102, 101], [103])"
    by code_simp
  then obtain s where s: "exec_all [0, 1, 2] ?as sys0 = Some s" "got s = [102, 101]" "pend s = [103]"
    by auto
  have r: "(sys_step False)\<^sup>*\<^sup>* sys0 s" using exec_all_sound [OF s(1)] sys0_idle by simp
  with pon_condition_exactly_once [OF sys0_init r] s(2,3) show ?thesis by blast
qed

text \<open>
  The schedule of the lost wakeup. Thread 0 waits; thread 1 notifies process 101 and is slow
  between its push and its test of \<open>satisfied\<close>; meanwhile thread 0 takes the list. Thread 1 then
  sets \<open>satisfied\<close> and writes, thread 0 drains the eventfd, so \<open>satisfied\<close> stays 1 with nothing
  to read. When thread 0 waits again and finds the list empty, thread 2 pushes process 102, sees
  \<open>satisfied\<close> and does not write.
\<close>

definition lost_wakeup :: "act list" where
  "lost_wakeup =
     Notify 1 101 # replicate 5 (Run 1 0) @
     Wait 0 # replicate 3 (Run 0 0) @
     replicate 3 (Run 1 0) @
     replicate 3 (Run 0 0) @
     [Wait 0, Run 0 0] @
     Notify 2 102 # replicate 6 (Run 2 0) @
     replicate 3 (Run 0 0)"

text \<open>
  C15. With one waiting thread and two notifications a wakeup can be lost: there is an
  interleaving after which every notifier has returned, process 102 is in the list and has not
  been delivered, and the waiting thread sleeps in \<open>epoll_wait\<close> with nothing that would wake it.
\<close>

theorem pon_condition_lost_wakeup:
  "\<exists>s. cond_init sys0 \<and> (sys_step False)\<^sup>*\<^sup>* sys0 s \<and> {t. ths s t \<noteq> Idle} = {0} \<and>
     ready_list (cnd (wld s)) = Some 102 \<and> pend s = [102] \<and>
     ths s 0 = W_epoll \<and> tstep False (ths s 0) (wld s) = []"
proof -
  have "map_option (\<lambda>s. (ready_list (cnd (wld s)), pend s, map (ths s) [0, 1, 2], efd (wld s)))
      (exec_all [0, 1, 2] lost_wakeup sys0) = Some (Some 102, [102], [W_epoll, Idle, Idle], 0)"
    by code_simp
  then obtain s where s: "exec_all [0, 1, 2] lost_wakeup sys0 = Some s"
    "ready_list (cnd (wld s)) = Some 102" "pend s = [102]" "ths s 0 = W_epoll" "ths s 1 = Idle"
    "ths s 2 = Idle" "efd (wld s) = 0" by auto
  from exec_all_sound [OF s(1)] sys0_idle
  have r: "(sys_step False)\<^sup>*\<^sup>* sys0 s" and i: "\<And>u. u \<notin> {0, 1, 2} \<Longrightarrow> ths s u = Idle" by auto
  have "ths s t = Idle" if "t \<noteq> 0" for t
    using that s(5,6) i [of t] by (cases "t = 1 \<or> t = 2") auto
  then have "{t. ths s t \<noteq> Idle} = {0}" using s(4) by force
  then show ?thesis using s r sys0_init by (intro exI [of _ s]) simp
qed


subsection \<open>Atomic notifications\<close>

text \<open>
  One waiting thread, and notifications that run without being interleaved with its steps or
  with each other (\<open>pon_condition_notify\<close> as one step).
\<close>

inductive atomic_step :: "bool \<Rightarrow> pc \<times> world \<Rightarrow> pc \<times> world \<Rightarrow> bool" for intr where
  wait_step: "(pc', w') \<in> set (tstep intr pc w) \<Longrightarrow> atomic_step intr (pc, w) (pc', w')"
| wait_again: "atomic_step intr (W_ret h, w) (W_load, w)"
| notify_step: "atomic_step intr (pc, w) (pc, pon_condition_notify (Some p) w)"

fun wait_inv :: "pc \<Rightarrow> world \<Rightarrow> bool" where
  "wait_inv W_load w \<longleftrightarrow> (satisfied (cnd w) \<noteq> 0 \<longrightarrow> efd w > 0 \<or> ready_list (cnd w) \<noteq> None)"
| "wait_inv (W_cas _) w \<longleftrightarrow> (satisfied (cnd w) \<noteq> 0 \<longrightarrow> efd w > 0 \<or> ready_list (cnd w) \<noteq> None)"
| "wait_inv (W_ret _) w \<longleftrightarrow> (satisfied (cnd w) \<noteq> 0 \<longrightarrow> efd w > 0 \<or> ready_list (cnd w) \<noteq> None)"
| "wait_inv (W_clear _) w \<longleftrightarrow> True"
| "wait_inv W_clear_retry w \<longleftrightarrow> True"
| "wait_inv (W_count _) w \<longleftrightarrow> (satisfied (cnd w) \<noteq> 0 \<longrightarrow> ready_list (cnd w) \<noteq> None)"
| "wait_inv (W_drain _) w \<longleftrightarrow> (satisfied (cnd w) \<noteq> 0 \<longrightarrow> ready_list (cnd w) \<noteq> None)"
| "wait_inv W_check w \<longleftrightarrow> (satisfied (cnd w) \<noteq> 0 \<or> ready_list (cnd w) \<noteq> None \<longrightarrow> efd w > 0)"
| "wait_inv W_epoll w \<longleftrightarrow> (satisfied (cnd w) \<noteq> 0 \<or> ready_list (cnd w) \<noteq> None \<longrightarrow> efd w > 0)"
| "wait_inv W_read w \<longleftrightarrow> efd w > 0"
| "wait_inv W_woken w \<longleftrightarrow> efd w > 0"
| "wait_inv _ w \<longleftrightarrow> False"

lemma efd_write_pos: "efd (efd_write w) > 0"
proof (cases "efd w \<ge> 2 ^ 64 - 2")
  case True
  then show ?thesis by (auto simp: efd_write_def word_less_nat_alt word_le_nat_alt)
next
  case False
  then have "unat (efd w) < 18446744073709551614" by (simp add: word_le_nat_alt)
  then have "efd w + 1 \<noteq> 0" by (simp add: word_unat_eq_iff unat_word_ariths)
  then show ?thesis using False by (simp add: efd_write_def word_neq_0_conv)
qed

lemma notify_effect:
  "ready_list (cnd (pon_condition_notify (Some p) w)) = Some p"
  "satisfied (cnd (pon_condition_notify (Some p) w)) \<noteq> 0"
  "satisfied (cnd w) = 0 \<Longrightarrow> efd (pon_condition_notify (Some p) w) > 0"
  "efd w > 0 \<Longrightarrow> efd (pon_condition_notify (Some p) w) > 0"
proof -
  have r: "ready_list (cnd (efd_write v)) = ready_list (cnd v)" "satisfied (cnd (efd_write v)) = satisfied (cnd v)" for v
    by (simp_all add: efd_write_def)
  show "ready_list (cnd (pon_condition_notify (Some p) w)) = Some p"
    "satisfied (cnd (pon_condition_notify (Some p) w)) \<noteq> 0"
    by (simp_all add: pon_condition_notify_def Let_def r) (simp_all add: set_sat_def set_ready_def)
  show "satisfied (cnd w) = 0 \<Longrightarrow> efd (pon_condition_notify (Some p) w) > 0"
    by (simp add: pon_condition_notify_def Let_def set_ready_def efd_write_pos)
  show "efd w > 0 \<Longrightarrow> efd (pon_condition_notify (Some p) w) > 0"
    by (simp add: pon_condition_notify_def Let_def set_ready_def efd_write_pos)
qed

lemma wait_inv_step:
  assumes "atomic_step intr c c'" and "wait_inv (fst c) (snd c)"
  shows "wait_inv (fst c') (snd c')"
  using assms
proof (induction rule: atomic_step.induct)
  case (wait_step pc' w' pc w)
  then show ?case by (cases pc) (auto simp: cond_simps split: if_splits option.splits)
next
  case (wait_again h w)
  then show ?case by simp
next
  case (notify_step pc w p)
  then show ?case
    using notify_effect [where p = p and w = w] by (cases pc; cases "satisfied (cnd w) = 0") auto
qed

lemma wait_inv_reachable:
  "(atomic_step intr)\<^sup>*\<^sup>* c c' \<Longrightarrow> wait_inv (fst c) (snd c) \<Longrightarrow> wait_inv (fst c') (snd c')"
  by (induction rule: rtranclp_induct) (auto intro: wait_inv_step)

lemma solo_add: "solo (m + n) c = solo n (solo m c)"
proof (induction m arbitrary: c)
  case (Suc m)
  obtain pc w where c: "c = (pc, w)" by (cases c)
  show ?case
  proof (cases "tstep False pc w")
    case Nil
    then have "solo n (pc, w) = (pc, w)" by (cases n) simp_all
    with Nil show ?thesis by (simp add: c)
  qed (simp add: c Suc.IH)
qed simp

lemma deliver_from_load:
  assumes "ready_list (cnd w) = Some h"
  shows "fst (solo 7 (W_load, w)) = W_ret h"
  using assms by (simp add: eval_nat_numeral cond_simps)


lemma deliver:
  assumes "wait_inv pc w" and "ready_list (cnd w) \<noteq> None"
  shows "\<exists>n h. n \<le> 10 \<and> fst (solo n (pc, w)) = W_ret h"
proof -
  from assms(2) obtain h where h: "ready_list (cnd w) = Some h" by auto
  have ret: "fst (solo 3 (W_count k, v)) = W_ret k" if "efd v = 0" for k v
    using that by (simp add: eval_nat_numeral cond_simps)
  have after: "\<exists>n h. n \<le> 10 \<and> fst (solo n (pc, w)) = W_ret h"
    if "m \<le> 3" "solo m (pc, w) = (W_load, v)" "ready_list (cnd v) = Some h" for m v
    using that deliver_from_load [OF that(3)]
    by (intro exI [of _ "m + 7"] exI [of _ h]) (simp add: solo_add)
  have drains: "fst (solo 4 (W_clear k, w)) = W_ret k" "fst (solo 3 (W_count k, w)) = W_ret k"
    "fst (solo 2 (W_drain k, w)) = W_ret k" for k
    by (simp_all add: eval_nat_numeral cond_simps)
  show ?thesis
  proof (cases pc)
    case W_load
    then show ?thesis using after [of 0] h by simp
  next
    case (W_cas k)
    show ?thesis
    proof (cases "k = h")
      case True
      then have "fst (solo 6 (pc, w)) = W_ret k" using W_cas h by (simp add: eval_nat_numeral cond_simps)
      then show ?thesis by (auto intro: exI [of _ 6])
    next
      case False
      then show ?thesis using W_cas h after [of 1 w] by (simp add: eval_nat_numeral)
    qed
  next
    case (W_clear k)
    then show ?thesis using drains(1) [of k] by (auto intro: exI [of _ 4])
  next
    case (W_count k)
    then show ?thesis using drains(2) [of k] by (auto intro: exI [of _ 3])
  next
    case (W_drain k)
    then show ?thesis using drains(3) [of k] by (auto intro: exI [of _ 2])
  next
    case (W_ret k)
    then show ?thesis by (auto intro: exI [of _ 0])
  next
    case W_check
    with assms h have e: "efd w > 0" by simp
    have "solo 3 (pc, w) = (W_load, snd (solo 3 (pc, w)))" "ready_list (cnd (snd (solo 3 (pc, w)))) = Some h"
      using W_check e h by (simp_all add: eval_nat_numeral cond_simps)
    then show ?thesis using after [of 3] by blast
  next
    case W_read
    with assms have e: "efd w > 0" by simp
    have "solo 2 (pc, w) = (W_load, snd (solo 2 (pc, w)))" "ready_list (cnd (snd (solo 2 (pc, w)))) = Some h"
      using W_read e h by (simp_all add: eval_nat_numeral cond_simps)
    then show ?thesis using after [of 2] by simp
  next
    case W_epoll
    with assms h have e: "efd w > 0" by simp
    have "solo 2 (pc, w) = (W_load, snd (solo 2 (pc, w)))" "ready_list (cnd (snd (solo 2 (pc, w)))) = Some h"
      using W_epoll e h by (simp_all add: eval_nat_numeral cond_simps)
    then show ?thesis using after [of 2] by simp
  next
    case W_woken
    then show ?thesis using h after [of 1 "set_sat 1 w"] by (simp add: eval_nat_numeral set_sat_def)
  next
    case W_clear_retry
    then show ?thesis using h after [of 1 "set_sat 0 w"] by (simp add: eval_nat_numeral set_sat_def)
  qed (use assms in simp_all)
qed

text \<open>
  C16. When every \<open>pon_condition_notify\<close> is atomic with respect to the steps of the one waiting
  thread, no wakeup is lost: in every reachable state with a non-empty list, the waiting thread,
  scheduled alone, leaves \<open>epoll_wait\<close> if it is there and returns a list within ten steps.
\<close>

theorem pon_condition_wait_returns:
  assumes "satisfied (cnd w0) = 0" and "(atomic_step intr)\<^sup>*\<^sup>* (W_load, w0) (pc, w)"
    and "ready_list (cnd w) \<noteq> None"
  shows "\<exists>n h. n \<le> 10 \<and> fst (solo n (pc, w)) = W_ret h"
  using deliver [OF _ assms(3), of pc] wait_inv_reachable [OF assms(2)] assms(1) by simp

theorem pon_condition_wait_returns_witness:
  "\<exists>n h. n \<le> 10 \<and> fst (solo n (W_epoll, pon_condition_notify (Some 7) (wld sys0))) = W_ret h"
proof (rule pon_condition_wait_returns [where intr = False])
  show "satisfied (cnd (wld sys0)) = 0" by (simp add: sys0_def)
  have "atomic_step False (W_load, wld sys0) (W_check, wld sys0)"
    by (rule wait_step) (simp add: sys0_def)
  moreover have "atomic_step False (W_check, wld sys0) (W_epoll, wld sys0)"
    by (rule wait_step) (simp add: sys0_def)
  moreover have "atomic_step False (W_epoll, wld sys0) (W_epoll, pon_condition_notify (Some 7) (wld sys0))"
    by (rule notify_step)
  ultimately show "(atomic_step False)\<^sup>*\<^sup>* (W_load, wld sys0) (W_epoll, pon_condition_notify (Some 7) (wld sys0))"
    by (meson converse_rtranclp_into_rtranclp rtranclp.rtrancl_refl)
  show "ready_list (cnd (pon_condition_notify (Some 7) (wld sys0))) \<noteq> None"
    by (simp add: notify_effect)
qed

end
