(* ===== verification/PonEts.thy ===== *)
theory PonEts
  imports PonStats
begin

text \<open>
  The registry of ETS watchers (\<^verbatim>\<open>pon_ets.h\<close>, \<^verbatim>\<open>pon_ets.c\<close>): a hash table of
  1024 buckets whose entries say that a process watches a key of a table. A bucket is a
  singly linked list that only the registry refers to; it is a HOL list, and the
  \<open>prev\<close>/\<open>w\<close> loops are recursions over it. The registry argument is an option because
  every entry point tests it for \<open>NULL\<close>; the answer of \<open>malloc\<close> is a parameter. The
  counters are C \<open>int\<close>s: every \<open>++\<close>, \<open>--\<close> and \<open>-=\<close> goes through
  \<^const>\<open>c_int\<close>, so an operation answers \<open>None\<close> when one of them would overflow.
\<close>

subsection \<open>Data\<close>

definition PON_ETS_WATCHER_BUCKETS :: nat where
  "PON_ETS_WATCHER_BUCKETS = 1024"

record PonEtsWatcher =
  table_id :: u64
  key_hash :: u64
  process_id :: u64
  active :: int

record PonEtsWatcherRegistry =
  buckets :: "PonEtsWatcher list list"
  count :: int

subsection \<open>Operations\<close>

definition pon_ets_watcher_bucket :: "u64 \<Rightarrow> u64 \<Rightarrow> u32" where
  "pon_ets_watcher_bucket t k =
     (let h = t XOR k;
          h = h XOR drop_bit 32 h;
          h = h XOR drop_bit 16 h;
          h = h XOR drop_bit 8 h
      in ucast (h mod of_nat PON_ETS_WATCHER_BUCKETS))"

definition pon_ets_watcher_init ::
    "PonEtsWatcherRegistry option \<Rightarrow> PonEtsWatcherRegistry option" where
  "pon_ets_watcher_init reg =
     (case reg of
        None \<Rightarrow> None
      | Some r \<Rightarrow> Some (r\<lparr>buckets := replicate PON_ETS_WATCHER_BUCKETS [], count := 0\<rparr>))"

text \<open>The condition both search loops test on a list cell.\<close>

definition watcher_is :: "u64 \<Rightarrow> u64 \<Rightarrow> u64 \<Rightarrow> PonEtsWatcher \<Rightarrow> bool" where
  "watcher_is t k p w \<longleftrightarrow>
     table_id w = t \<and> key_hash w = k \<and> process_id w = p \<and> active w \<noteq> 0"

fun watcher_registered :: "u64 \<Rightarrow> u64 \<Rightarrow> u64 \<Rightarrow> PonEtsWatcher list \<Rightarrow> bool" where
  "watcher_registered t k p [] = False"
| "watcher_registered t k p (w # ws) =
     (if watcher_is t k p w then True else watcher_registered t k p ws)"

definition pon_ets_watcher_add ::
    "bool \<Rightarrow> PonEtsWatcherRegistry option \<Rightarrow> u64 \<Rightarrow> u64 \<Rightarrow> u64 \<Rightarrow> PonStats
      \<Rightarrow> (int \<times> PonEtsWatcherRegistry option \<times> PonStats) option" where
  "pon_ets_watcher_add malloc_ok reg t k p st =
     (case reg of
        None \<Rightarrow> Some (-1, None, st)
      | Some r \<Rightarrow>
         let bucket = unat (pon_ets_watcher_bucket t k);
             ws = buckets r ! bucket
         in if watcher_registered t k p ws then Some (-1, Some r, st)
            else if \<not> malloc_ok then Some (-1, Some r, st)
            else
              let w = \<lparr>table_id = t, key_hash = k, process_id = p, active = 1\<rparr>
              in do {
                n \<leftarrow> c_int (count r + 1);
                Some (0, Some (r\<lparr>buckets := (buckets r)[bucket := w # ws], count := n\<rparr>),
                      PON_STATS_INC ets_watchers_registered_update st)
              })"

text \<open>
  The removal loop: \<open>None\<close> when it runs off the list, otherwise the list with the found
  cell unlinked.
\<close>

fun watcher_unlink :: "u64 \<Rightarrow> u64 \<Rightarrow> u64 \<Rightarrow> PonEtsWatcher list \<Rightarrow> PonEtsWatcher list option" where
  "watcher_unlink t k p [] = None"
| "watcher_unlink t k p (w # ws) =
     (if watcher_is t k p w then Some ws
      else map_option (\<lambda>ws'. w # ws') (watcher_unlink t k p ws))"

definition pon_ets_watcher_remove ::
    "PonEtsWatcherRegistry option \<Rightarrow> u64 \<Rightarrow> u64 \<Rightarrow> u64
      \<Rightarrow> (int \<times> PonEtsWatcherRegistry option) option" where
  "pon_ets_watcher_remove reg t k p =
     (case reg of
        None \<Rightarrow> Some (-1, None)
      | Some r \<Rightarrow>
         let bucket = unat (pon_ets_watcher_bucket t k)
         in (case watcher_unlink t k p (buckets r ! bucket) of
               None \<Rightarrow> Some (-1, Some r)
             | Some ws \<Rightarrow> do {
                 n \<leftarrow> c_int (count r - 1);
                 Some (0, Some (r\<lparr>buckets := (buckets r)[bucket := ws], count := n\<rparr>))
               }))"

fun watcher_notify_loop ::
    "u64 \<Rightarrow> u64 \<Rightarrow> PonEtsWatcher list \<Rightarrow> int \<Rightarrow> PonStats \<Rightarrow> (int \<times> PonStats) option" where
  "watcher_notify_loop t k [] notified st = Some (notified, st)"
| "watcher_notify_loop t k (w # ws) notified st =
     (if active w \<noteq> 0 \<and> table_id w = t \<and> key_hash w = k
      then do {
        notified \<leftarrow> c_int (notified + 1);
        watcher_notify_loop t k ws notified (PON_STATS_INC ets_watcher_hits_update st)
      }
      else watcher_notify_loop t k ws notified st)"

definition pon_ets_watcher_notify ::
    "PonEtsWatcherRegistry option \<Rightarrow> u64 \<Rightarrow> u64 \<Rightarrow> PonStats \<Rightarrow> (int \<times> PonStats) option" where
  "pon_ets_watcher_notify reg t k st =
     (case reg of
        None \<Rightarrow> Some (0, st)
      | Some r \<Rightarrow>
          watcher_notify_loop t k (buckets r ! unat (pon_ets_watcher_bucket t k)) 0 st)"

fun watcher_drop_process ::
    "u64 \<Rightarrow> PonEtsWatcher list \<Rightarrow> int \<Rightarrow> (PonEtsWatcher list \<times> int) option" where
  "watcher_drop_process p [] removed = Some ([], removed)"
| "watcher_drop_process p (w # ws) removed =
     (if process_id w = p
      then do { removed \<leftarrow> c_int (removed + 1); watcher_drop_process p ws removed }
      else do { (ws', removed) \<leftarrow> watcher_drop_process p ws removed; Some (w # ws', removed) })"

fun watcher_drop_buckets ::
    "u64 \<Rightarrow> PonEtsWatcher list list \<Rightarrow> int \<Rightarrow> (PonEtsWatcher list list \<times> int) option" where
  "watcher_drop_buckets p [] removed = Some ([], removed)"
| "watcher_drop_buckets p (ws # bs) removed =
     do {
       (ws', removed) \<leftarrow> watcher_drop_process p ws removed;
       (bs', removed) \<leftarrow> watcher_drop_buckets p bs removed;
       Some (ws' # bs', removed)
     }"

definition pon_ets_watcher_remove_process ::
    "PonEtsWatcherRegistry option \<Rightarrow> u64 \<Rightarrow> (int \<times> PonEtsWatcherRegistry option) option" where
  "pon_ets_watcher_remove_process reg p =
     (case reg of
        None \<Rightarrow> Some (-1, None)
      | Some r \<Rightarrow> do {
          (bs, removed) \<leftarrow> watcher_drop_buckets p (buckets r) 0;
          n \<leftarrow> c_int (count r - removed);
          Some (removed, Some (r\<lparr>buckets := bs, count := n\<rparr>))
        })"

subsection \<open>Abstraction and invariant\<close>

text \<open>
  What the registry means is a set of (table, key, process) triples. The invariant says that
  every entry is active and sits in the bucket of its key, that no triple occurs twice and that
  \<open>count\<close>, a number that fits an \<open>int\<close>, is the number of entries.
\<close>

type_synonym watch = "u64 \<times> u64 \<times> u64"

definition watcher_key :: "PonEtsWatcher \<Rightarrow> watch" where
  "watcher_key w = (table_id w, key_hash w, process_id w)"

definition ets_entries :: "PonEtsWatcherRegistry \<Rightarrow> PonEtsWatcher list" where
  "ets_entries r = concat (buckets r)"

definition ets_watchers :: "PonEtsWatcherRegistry \<Rightarrow> watch set" where
  "ets_watchers r = watcher_key ` set (ets_entries r)"

definition home_bucket :: "PonEtsWatcher \<Rightarrow> nat" where
  "home_bucket w = unat (pon_ets_watcher_bucket (table_id w) (key_hash w))"

definition ets_wf :: "PonEtsWatcherRegistry \<Rightarrow> bool" where
  "ets_wf r \<longleftrightarrow>
     length (buckets r) = PON_ETS_WATCHER_BUCKETS \<and>
     (\<forall>i < length (buckets r). \<forall>w \<in> set (buckets r ! i). active w \<noteq> 0 \<and> home_bucket w = i) \<and>
     distinct (map watcher_key (ets_entries r)) \<and>
     count r = int (length (ets_entries r)) \<and> count r \<le> INT_MAX"

lemma bucket_in_range: "unat (pon_ets_watcher_bucket t k) < PON_ETS_WATCHER_BUCKETS"
proof -
  have "unat (ucast (x mod 1024) :: u32) < 1024" for x :: u64
    by (simp add: unsigned_ucast_eq unat_mod take_bit_eq_mod mod_less_eq_dividend
        order.strict_trans1 [OF mod_less_eq_dividend])
  then show ?thesis
    by (simp add: pon_ets_watcher_bucket_def PON_ETS_WATCHER_BUCKETS_def Let_def)
qed

subsection \<open>The loops\<close>

lemma watcher_registered_iff: "watcher_registered t k p ws \<longleftrightarrow> (\<exists>w \<in> set ws. watcher_is t k p w)"
  by (induction ws) auto

lemma watcher_unlink_None: "watcher_unlink t k p ws = None \<longleftrightarrow> (\<forall>w \<in> set ws. \<not> watcher_is t k p w)"
  by (induction ws) auto

lemma watcher_unlink_Some:
  "watcher_unlink t k p ws = Some ws' \<Longrightarrow>
     \<exists>xs w ys. ws = xs @ w # ys \<and> ws' = xs @ ys \<and> watcher_is t k p w"
proof (induction ws arbitrary: ws')
  case Nil
  then show ?case by simp
next
  case (Cons v ws)
  show ?case
  proof (cases "watcher_is t k p v")
    case True
    with Cons.prems show ?thesis by (intro exI [of _ "[]"]) simp
  next
    case False
    with Cons.prems obtain vs where vs: "watcher_unlink t k p ws = Some vs" "ws' = v # vs"
      by auto
    from Cons.IH [OF vs(1)] obtain xs w ys where
      "ws = xs @ w # ys" "vs = xs @ ys" "watcher_is t k p w" by blast
    with vs(2) show ?thesis by (intro exI [of _ "v # xs"]) simp
  qed
qed

lemma watcher_notify_loop_eq:
  "0 \<le> n \<Longrightarrow>
   n + int (length (filter (\<lambda>w. active w \<noteq> 0 \<and> table_id w = t \<and> key_hash w = k) ws)) \<le> INT_MAX \<Longrightarrow>
     watcher_notify_loop t k ws n st =
       Some (n + int (length (filter (\<lambda>w. active w \<noteq> 0 \<and> table_id w = t \<and> key_hash w = k) ws)),
             st\<lparr>ets_watcher_hits := ets_watcher_hits st +
               of_nat (length (filter (\<lambda>w. active w \<noteq> 0 \<and> table_id w = t \<and> key_hash w = k) ws))\<rparr>)"
proof (induction ws arbitrary: n st)
  case Nil
  then show ?case by simp
next
  case (Cons w ws)
  show ?case
  proof (cases "active w \<noteq> 0 \<and> table_id w = t \<and> key_hash w = k")
    case True
    with Cons.prems have "c_int (n + 1) = Some (n + 1)" by simp
    with True Cons.IH [of "n + 1"] Cons.prems show ?thesis
      by (simp add: PON_STATS_INC_def add.assoc)
  next
    case False
    then show ?thesis using Cons.IH [of n st] Cons.prems by auto
  qed
qed

lemma watcher_drop_process_eq:
  "0 \<le> n \<Longrightarrow> n + int (length (filter (\<lambda>w. process_id w = p) ws)) \<le> INT_MAX \<Longrightarrow>
   watcher_drop_process p ws n = Some
     (filter (\<lambda>w. process_id w \<noteq> p) ws, n + int (length (filter (\<lambda>w. process_id w = p) ws)))"
  by (induction ws arbitrary: n) auto

lemma watcher_drop_buckets_eq:
  "0 \<le> n \<Longrightarrow> n + int (length (filter (\<lambda>w. process_id w = p) (concat bs))) \<le> INT_MAX \<Longrightarrow>
   watcher_drop_buckets p bs n = Some
     (map (filter (\<lambda>w. process_id w \<noteq> p)) bs,
      n + int (length (filter (\<lambda>w. process_id w = p) (concat bs))))"
proof (induction bs arbitrary: n)
  case Nil
  then show ?case by simp
next
  case (Cons ws bs)
  let ?m = "int (length (filter (\<lambda>w. process_id w = p) ws))"
  have le: "n + ?m + int (length (filter (\<lambda>w. process_id w = p) (concat bs))) \<le> INT_MAX"
    using Cons.prems by simp
  then have "watcher_drop_process p ws n = Some (filter (\<lambda>w. process_id w \<noteq> p) ws, n + ?m)"
    using Cons.prems(1) by (intro watcher_drop_process_eq) simp_all
  with Cons.IH [of "n + ?m"] Cons.prems(1) le show ?case by simp
qed

subsection \<open>Reading the registry through the abstraction\<close>

lemma watcher_is_key: "active w \<noteq> 0 \<Longrightarrow> watcher_is t k p w \<longleftrightarrow> watcher_key w = (t, k, p)"
  by (auto simp: watcher_is_def watcher_key_def)

lemma ets_entry_bucket:
  assumes "ets_wf r" and "w \<in> set (ets_entries r)"
  shows "active w \<noteq> 0" and "w \<in> set (buckets r ! home_bucket w)"
proof -
  from assms(2) obtain i where "i < length (buckets r)" "w \<in> set (buckets r ! i)"
    by (auto simp: ets_entries_def) (metis in_set_conv_nth)
  with assms(1) show "active w \<noteq> 0" "w \<in> set (buckets r ! home_bucket w)"
    by (auto simp: ets_wf_def)
qed

lemma bucket_entries:
  assumes "ets_wf r" and "i < PON_ETS_WATCHER_BUCKETS" and "w \<in> set (buckets r ! i)"
  shows "w \<in> set (ets_entries r)" and "active w \<noteq> 0" and "home_bucket w = i"
  using assms by (auto simp: ets_wf_def ets_entries_def)

lemma watchers_bucket_iff:
  assumes "ets_wf r"
  shows "(\<exists>w \<in> set (buckets r ! unat (pon_ets_watcher_bucket t k)). watcher_is t k p w)
           \<longleftrightarrow> (t, k, p) \<in> ets_watchers r" (is "?L \<longleftrightarrow> ?R")
proof
  assume ?L
  then obtain w where w: "w \<in> set (buckets r ! unat (pon_ets_watcher_bucket t k))"
    "watcher_is t k p w" by blast
  from bucket_entries [OF assms bucket_in_range w(1)] w(2) show ?R
    by (auto simp: ets_watchers_def watcher_is_key intro: image_eqI [where x = w])
next
  assume ?R
  then obtain w where w: "w \<in> set (ets_entries r)" "watcher_key w = (t, k, p)"
    by (auto simp: ets_watchers_def)
  then have "home_bucket w = unat (pon_ets_watcher_bucket t k)"
    by (simp add: home_bucket_def watcher_key_def)
  with ets_entry_bucket [OF assms w(1)] w(2) show ?L
    by (metis watcher_is_key)
qed

lemma ets_entries_bucket_filter:
  assumes "ets_wf r"
  shows "filter (\<lambda>w. active w \<noteq> 0 \<and> table_id w = t \<and> key_hash w = k)
             (buckets r ! unat (pon_ets_watcher_bucket t k))
           = filter (\<lambda>w. table_id w = t \<and> key_hash w = k) (ets_entries r)"
proof -
  let ?b = "unat (pon_ets_watcher_bucket t k)"
  let ?P = "\<lambda>w. table_id w = t \<and> key_hash w = k"
  have len: "length (buckets r) = PON_ETS_WATCHER_BUCKETS" using assms by (simp add: ets_wf_def)
  have other: "filter ?P (buckets r ! i) = []" if "i < length (buckets r)" "i \<noteq> ?b" for i
    using bucket_entries(3) [OF assms] that len by (auto simp: filter_empty_conv home_bucket_def)
  have "filter ?P (concat (take ?b (buckets r))) = []"
    using other bucket_in_range [of t k] len
    by (auto simp: filter_concat in_set_conv_nth)
  moreover have "filter ?P (concat (drop (Suc ?b) (buckets r))) = []"
    using other bucket_in_range [of t k] len
    by (auto simp: filter_concat in_set_conv_nth)
  ultimately have "filter ?P (ets_entries r) = filter ?P (buckets r ! ?b)"
    using bucket_in_range [of t k] len
    by (simp add: ets_entries_def concat_nth [of ?b "buckets r"])
  then show ?thesis
    using bucket_entries(2) [OF assms bucket_in_range] by (auto intro: filter_cong)
qed

lemma ets_watchers_process:
  "{x \<in> ets_watchers r. snd (snd x) = p} =
     watcher_key ` set (filter (\<lambda>w. process_id w = p) (ets_entries r))"
  by (auto simp: ets_watchers_def watcher_key_def)

lemma card_watchers_filter:
  assumes "ets_wf r"
  shows "card (watcher_key ` set (filter P (ets_entries r))) = length (filter P (ets_entries r))"
proof -
  have "distinct (map watcher_key (filter P (ets_entries r)))"
    using assms by (simp add: ets_wf_def distinct_map_filter)
  from distinct_card [OF this] show ?thesis by simp
qed

lemma card_key_watchers:
  assumes "ets_wf r"
  shows "card {p. (t, k, p) \<in> ets_watchers r} =
           length (filter (\<lambda>w. table_id w = t \<and> key_hash w = k) (ets_entries r))"
proof -
  let ?F = "filter (\<lambda>w. table_id w = t \<and> key_hash w = k) (ets_entries r)"
  have "(\<lambda>p. (t, k, p)) ` {p. (t, k, p) \<in> ets_watchers r} = watcher_key ` set ?F"
    by (auto simp: ets_watchers_def watcher_key_def)
  moreover have "card ((\<lambda>p. (t, k, p)) ` {p. (t, k, p) \<in> ets_watchers r}) =
      card {p. (t, k, p) \<in> ets_watchers r}"
    by (intro card_image) (auto simp: inj_on_def)
  ultimately show ?thesis using card_watchers_filter [OF assms] by simp
qed

subsection \<open>The operations keep the invariant and act on the abstraction\<close>

lemma ets_update_bucket:
  assumes wf: "ets_wf r" and b: "b < PON_ETS_WATCHER_BUCKETS"
    and ws: "buckets r ! b = xs @ ys" and w: "active w \<noteq> 0" "home_bucket w = b"
  shows ets_insert_entries: "set (ets_entries (r\<lparr>buckets := (buckets r)[b := xs @ w # ys]\<rparr>))
           = insert w (set (ets_entries r))"
    and ets_insert_wf: "watcher_key w \<notin> ets_watchers r \<Longrightarrow> count r < INT_MAX \<Longrightarrow>
           ets_wf (r\<lparr>buckets := (buckets r)[b := xs @ w # ys], count := count r + 1\<rparr>)"
proof -
  have len: "b < length (buckets r)" using wf b by (simp add: ets_wf_def)
  note split = concat_update [OF len, of "xs @ w # ys"] concat_nth [OF len]
  show "set (ets_entries (r\<lparr>buckets := (buckets r)[b := xs @ w # ys]\<rparr>)) =
      insert w (set (ets_entries r))"
    by (simp add: ets_entries_def split ws)
  assume new: "watcher_key w \<notin> ets_watchers r" and room: "count r < INT_MAX"
  have "distinct (map watcher_key (concat ((buckets r)[b := xs @ w # ys])))"
    using wf new by (auto simp: ets_wf_def ets_entries_def ets_watchers_def split ws)
  moreover have "\<forall>i < length (buckets r). \<forall>v \<in> set ((buckets r)[b := xs @ w # ys] ! i).
      active v \<noteq> 0 \<and> home_bucket v = i"
    using wf w ws len by (auto simp: ets_wf_def nth_list_update)
  moreover have "count r + 1 = int (length (concat ((buckets r)[b := xs @ w # ys])))"
    using wf by (simp add: ets_wf_def ets_entries_def split ws)
  ultimately show "ets_wf (r\<lparr>buckets := (buckets r)[b := xs @ w # ys], count := count r + 1\<rparr>)"
    using wf room by (simp add: ets_wf_def ets_entries_def)
qed

lemma ets_delete_bucket:
  assumes wf: "ets_wf r" and b: "b < PON_ETS_WATCHER_BUCKETS"
    and ws: "buckets r ! b = xs @ w # ys"
  shows ets_delete_watchers: "ets_watchers (r\<lparr>buckets := (buckets r)[b := xs @ ys], count := c\<rparr>)
           = ets_watchers r - {watcher_key w}"
    and ets_delete_wf: "ets_wf (r\<lparr>buckets := (buckets r)[b := xs @ ys], count := count r - 1\<rparr>)"
proof -
  have len: "b < length (buckets r)" using wf b by (simp add: ets_wf_def)
  note split = concat_update [OF len, of "xs @ ys"] concat_nth [OF len]
  have dist: "distinct (map watcher_key (concat (buckets r)))"
    using wf by (simp add: ets_wf_def ets_entries_def)
  then show "ets_watchers (r\<lparr>buckets := (buckets r)[b := xs @ ys], count := c\<rparr>) =
      ets_watchers r - {watcher_key w}"
    by (auto simp: ets_watchers_def ets_entries_def split ws)
  have "distinct (map watcher_key (concat ((buckets r)[b := xs @ ys])))"
    using dist by (auto simp: split ws)
  moreover have "\<forall>i < length (buckets r). \<forall>v \<in> set ((buckets r)[b := xs @ ys] ! i).
      active v \<noteq> 0 \<and> home_bucket v = i"
    using wf ws len by (auto simp: ets_wf_def nth_list_update)
  moreover have "count r - 1 = int (length (concat ((buckets r)[b := xs @ ys])))"
    using wf by (simp add: ets_wf_def ets_entries_def split ws)
  ultimately show "ets_wf (r\<lparr>buckets := (buckets r)[b := xs @ ys], count := count r - 1\<rparr>)"
    using wf by (simp add: ets_wf_def ets_entries_def)
qed

lemma ets_init_wf: "ets_wf (r\<lparr>buckets := replicate PON_ETS_WATCHER_BUCKETS [], count := 0\<rparr>)"
  and ets_init_watchers:
    "ets_watchers (r\<lparr>buckets := replicate PON_ETS_WATCHER_BUCKETS [], count := 0\<rparr>) = {}"
  by (simp_all add: ets_wf_def ets_entries_def ets_watchers_def INT_MAX_def)

lemma ets_wf_count:
  assumes "ets_wf r"
  shows "count r = int (card (ets_watchers r))"
    and "int (card (ets_watchers r)) \<le> INT_MAX"
    and "int (length (filter P (ets_entries r))) \<le> INT_MAX"
    and "- INT_MAX - 1 \<le> count r - int (length (filter P (ets_entries r)))"
proof -
  show eq: "count r = int (card (ets_watchers r))"
    using assms card_watchers_filter [OF assms, of "\<lambda>_. True"]
    by (simp add: ets_wf_def ets_watchers_def)
  show "int (card (ets_watchers r)) \<le> INT_MAX"
    using assms eq by (simp add: ets_wf_def)
  have "length (filter P (ets_entries r)) \<le> length (ets_entries r)" by simp
  then have le: "int (length (filter P (ets_entries r))) \<le> count r"
    using assms by (simp add: ets_wf_def)
  moreover have "count r \<le> INT_MAX" using assms by (simp add: ets_wf_def)
  ultimately show "int (length (filter P (ets_entries r))) \<le> INT_MAX"
    by (rule order.trans)
  from le show "- INT_MAX - 1 \<le> count r - int (length (filter P (ets_entries r)))"
    by (simp add: INT_MAX_def)
qed

lemma pon_ets_watcher_add_cases:
  assumes wf: "ets_wf r"
  shows "(t, k, p) \<in> ets_watchers r \<Longrightarrow>
           pon_ets_watcher_add ok (Some r) t k p st = Some (-1, Some r, st)"
    and "\<not> ok \<Longrightarrow> pon_ets_watcher_add ok (Some r) t k p st = Some (-1, Some r, st)"
    and "(t, k, p) \<notin> ets_watchers r \<Longrightarrow> ok \<Longrightarrow> count r < INT_MAX \<Longrightarrow>
           \<exists>r'. pon_ets_watcher_add ok (Some r) t k p st =
                  Some (0, Some r', PON_STATS_INC ets_watchers_registered_update st) \<and>
                ets_wf r' \<and> ets_watchers r' = insert (t, k, p) (ets_watchers r)"
proof -
  let ?b = "unat (pon_ets_watcher_bucket t k)"
  let ?w = "\<lparr>table_id = t, key_hash = k, process_id = p, active = 1\<rparr> :: PonEtsWatcher"
  note reg = watcher_registered_iff watchers_bucket_iff [OF wf, of t k p]
  show "pon_ets_watcher_add ok (Some r) t k p st = Some (-1, Some r, st)"
    if "(t, k, p) \<in> ets_watchers r" using that by (simp add: pon_ets_watcher_add_def reg)
  show "pon_ets_watcher_add ok (Some r) t k p st = Some (-1, Some r, st)"
    if "\<not> ok" using that by (simp add: pon_ets_watcher_add_def Let_def)
  assume new: "(t, k, p) \<notin> ets_watchers r" and ok and room: "count r < INT_MAX"
  have w: "active ?w \<noteq> 0" "home_bucket ?w = ?b" "watcher_key ?w = (t, k, p)"
    by (simp_all add: home_bucket_def watcher_key_def)
  note upd = ets_update_bucket [OF wf bucket_in_range, where xs = "[]", OF append_Nil [symmetric] w(1,2)]
  let ?r = "r\<lparr>buckets := (buckets r)[?b := ?w # buckets r ! ?b], count := count r + 1\<rparr>"
  have "ets_watchers ?r = insert (t, k, p) (ets_watchers r)"
    using upd(1) w(3) by (simp add: ets_watchers_def ets_entries_def)
  moreover have "ets_wf ?r" using upd(2) new w(3) room by simp
  moreover have "c_int (count r + 1) = Some (count r + 1)"
    using wf room by (intro c_int_pos) (simp_all add: ets_wf_def)
  then have "pon_ets_watcher_add ok (Some r) t k p st =
      Some (0, Some ?r, PON_STATS_INC ets_watchers_registered_update st)"
    using new \<open>ok\<close> by (simp add: pon_ets_watcher_add_def reg Let_def)
  ultimately show "\<exists>r'. pon_ets_watcher_add ok (Some r) t k p st =
        Some (0, Some r', PON_STATS_INC ets_watchers_registered_update st) \<and>
      ets_wf r' \<and> ets_watchers r' = insert (t, k, p) (ets_watchers r)" by blast
qed

lemma pon_ets_watcher_remove_cases:
  assumes wf: "ets_wf r"
  shows "(t, k, p) \<notin> ets_watchers r \<Longrightarrow> pon_ets_watcher_remove (Some r) t k p = Some (-1, Some r)"
    and "(t, k, p) \<in> ets_watchers r \<Longrightarrow>
           \<exists>r'. pon_ets_watcher_remove (Some r) t k p = Some (0, Some r') \<and>
                ets_wf r' \<and> ets_watchers r' = ets_watchers r - {(t, k, p)}"
proof -
  let ?b = "unat (pon_ets_watcher_bucket t k)"
  note none = watcher_unlink_None [of t k p "buckets r ! ?b"] watchers_bucket_iff [OF wf, of t k p]
  show "pon_ets_watcher_remove (Some r) t k p = Some (-1, Some r)" if "(t, k, p) \<notin> ets_watchers r"
    using that none by (auto simp: pon_ets_watcher_remove_def)
  assume "(t, k, p) \<in> ets_watchers r"
  with none obtain ws where ws: "watcher_unlink t k p (buckets r ! ?b) = Some ws" by fastforce
  from watcher_unlink_Some [OF this] obtain xs w ys where
    split: "buckets r ! ?b = xs @ w # ys" "ws = xs @ ys" "watcher_is t k p w" by blast
  from split(3) have key: "watcher_key w = (t, k, p)"
    by (simp add: watcher_is_def watcher_key_def)
  note del = ets_delete_bucket [OF wf bucket_in_range split(1)]
  have "0 \<le> count r" "count r \<le> INT_MAX" using wf by (simp_all add: ets_wf_def)
  then have "c_int (count r - 1) = Some (count r - 1)"
    by (intro c_int_ok) (simp_all add: INT_MAX_def)
  with ws del split(2) show "\<exists>r'. pon_ets_watcher_remove (Some r) t k p = Some (0, Some r') \<and>
      ets_wf r' \<and> ets_watchers r' = ets_watchers r - {(t, k, p)}"
    by (simp add: pon_ets_watcher_remove_def key)
qed

lemma pon_ets_watcher_notify_count:
  assumes "ets_wf r"
  shows "pon_ets_watcher_notify (Some r) t k st =
           Some (int (card {p. (t, k, p) \<in> ets_watchers r}),
             st\<lparr>ets_watcher_hits :=
                ets_watcher_hits st + of_nat (card {p. (t, k, p) \<in> ets_watchers r})\<rparr>)"
  using ets_wf_count(3) [OF assms, of "\<lambda>w. table_id w = t \<and> key_hash w = k"]
  by (simp add: pon_ets_watcher_notify_def watcher_notify_loop_eq
      ets_entries_bucket_filter [OF assms] card_key_watchers [OF assms])

lemma pon_ets_watcher_remove_process_effect:
  assumes wf: "ets_wf r"
  shows "\<exists>r'. pon_ets_watcher_remove_process (Some r) p = Some
                (int (card {x \<in> ets_watchers r. snd (snd x) = p}), Some r') \<and>
              ets_wf r' \<and> ets_watchers r' = {x \<in> ets_watchers r. snd (snd x) \<noteq> p}"
proof -
  let ?keep = "\<lambda>w. process_id w \<noteq> p" and ?gone = "\<lambda>w. process_id w = p"
  let ?n = "length (filter ?gone (ets_entries r))"
  let ?r = "r\<lparr>buckets := map (filter ?keep) (buckets r), count := count r - int ?n\<rparr>"
  have ent: "ets_entries ?r = filter ?keep (ets_entries r)"
    by (simp add: ets_entries_def filter_concat)
  have "ets_wf ?r"
  proof -
    have "length (ets_entries r) = length (filter ?keep (ets_entries r)) + ?n"
      using sum_length_filter_compl [of ?gone "ets_entries r"] by simp
    with wf show ?thesis
      unfolding ets_wf_def ent by (auto simp: distinct_map_filter)
  qed
  moreover have "ets_watchers ?r = {x \<in> ets_watchers r. snd (snd x) \<noteq> p}"
    unfolding ets_watchers_def ent by (auto simp: watcher_key_def)
  moreover have "pon_ets_watcher_remove_process (Some r) p = Some (int ?n, Some ?r)"
  proof -
    have "watcher_drop_buckets p (buckets r) 0 = Some (map (filter ?keep) (buckets r), int ?n)"
      using watcher_drop_buckets_eq [of 0 p "buckets r"] ets_wf_count(3) [OF wf, of ?gone]
      by (simp add: ets_entries_def)
    moreover have "c_int (count r - int ?n) = Some (count r - int ?n)"
      using ets_wf_count(4) [OF wf, of ?gone] wf
      by (intro c_int_ok) (simp_all add: ets_wf_def)
    ultimately show ?thesis by (simp add: pon_ets_watcher_remove_process_def)
  qed
  moreover have "card {x \<in> ets_watchers r. snd (snd x) = p} = ?n"
    unfolding ets_watchers_process by (rule card_watchers_filter [OF wf])
  ultimately show ?thesis by simp
qed

subsection \<open>Refinement to a set of triples\<close>

text \<open>
  The registry as its clients see it. A command is one call of the interface, with the answer
  \<open>malloc\<close> gives during it; the abstract machine is a set of triples.
\<close>

datatype ets_cmd =
    EtsAdd bool u64 u64 u64
  | EtsRemove u64 u64 u64
  | EtsNotify u64 u64
  | EtsProcessExit u64

fun ets_step ::
    "ets_cmd \<Rightarrow> PonEtsWatcherRegistry \<times> PonStats
      \<Rightarrow> int option \<times> (PonEtsWatcherRegistry \<times> PonStats)" where
  "ets_step (EtsAdd ok t k p) (r, st) =
     (case pon_ets_watcher_add ok (Some r) t k p st of
        Some (res, Some r', st') \<Rightarrow> (Some res, (r', st')) | _ \<Rightarrow> (None, (r, st)))"
| "ets_step (EtsRemove t k p) (r, st) =
     (case pon_ets_watcher_remove (Some r) t k p of
        Some (res, Some r') \<Rightarrow> (Some res, (r', st)) | _ \<Rightarrow> (None, (r, st)))"
| "ets_step (EtsNotify t k) (r, st) =
     (case pon_ets_watcher_notify (Some r) t k st of
        Some (res, st') \<Rightarrow> (Some res, (r, st')) | None \<Rightarrow> (None, (r, st)))"
| "ets_step (EtsProcessExit p) (r, st) =
     (case pon_ets_watcher_remove_process (Some r) p of
        Some (res, Some r') \<Rightarrow> (Some res, (r', st)) | _ \<Rightarrow> (None, (r, st)))"

fun ets_spec :: "ets_cmd \<Rightarrow> watch set \<Rightarrow> int option \<times> watch set" where
  "ets_spec (EtsAdd ok t k p) S =
     (if (t, k, p) \<in> S \<or> \<not> ok then (Some (-1), S) else (Some 0, insert (t, k, p) S))"
| "ets_spec (EtsRemove t k p) S =
     (if (t, k, p) \<in> S then (Some 0, S - {(t, k, p)}) else (Some (-1), S))"
| "ets_spec (EtsNotify t k) S = (Some (int (card {p. (t, k, p) \<in> S})), S)"
| "ets_spec (EtsProcessExit p) S =
     (Some (int (card {x \<in> S. snd (snd x) = p})), {x \<in> S. snd (snd x) \<noteq> p})"

text \<open>
  The precondition of a call: a registration needs room in \<open>count\<close>, so fewer than
  \<^const>\<open>INT_MAX\<close> triples registered before it. The other calls have none.
\<close>

fun ets_pre :: "ets_cmd \<Rightarrow> watch set \<Rightarrow> bool" where
  "ets_pre (EtsAdd ok t k p) S \<longleftrightarrow> int (card S) < INT_MAX"
| "ets_pre _ S \<longleftrightarrow> True"

fun ets_pre_run :: "ets_cmd list \<Rightarrow> watch set \<Rightarrow> bool" where
  "ets_pre_run [] S = True"
| "ets_pre_run (c # cs) S \<longleftrightarrow> ets_pre c S \<and> ets_pre_run cs (snd (ets_spec c S))"

lemma ets_step_refines:
  assumes wf: "ets_wf (fst s)" and pre: "ets_pre c (ets_watchers (fst s))"
  shows "fst (ets_step c s) = fst (ets_spec c (ets_watchers (fst s)))"
    and "ets_watchers (fst (snd (ets_step c s))) = snd (ets_spec c (ets_watchers (fst s)))"
    and "ets_wf (fst (snd (ets_step c s)))"
proof -
  obtain r st where s: "s = (r, st)" by (cases s)
  with wf have r: "ets_wf r" by simp
  have "fst (ets_step c s) = fst (ets_spec c (ets_watchers (fst s))) \<and>
      ets_watchers (fst (snd (ets_step c s))) = snd (ets_spec c (ets_watchers (fst s))) \<and>
      ets_wf (fst (snd (ets_step c s)))"
  proof (cases c)
    case (EtsAdd ok t k p)
    with pre s have "count r < INT_MAX" by (simp add: ets_wf_count(1) [OF r])
    then show ?thesis
      using pon_ets_watcher_add_cases [OF r, where t = t and k = k and p = p and ok = ok and st = st] r
      by (cases "(t, k, p) \<in> ets_watchers r"; cases ok) (auto simp: s EtsAdd)
  next
    case (EtsRemove t k p)
    show ?thesis
    proof (cases "(t, k, p) \<in> ets_watchers r")
      case True
      from pon_ets_watcher_remove_cases(2) [OF r this] obtain r' where
        "pon_ets_watcher_remove (Some r) t k p = Some (0, Some r')" "ets_wf r'"
        "ets_watchers r' = ets_watchers r - {(t, k, p)}" by blast
      with True show ?thesis by (simp add: s EtsRemove)
    next
      case False
      from pon_ets_watcher_remove_cases(1) [OF r this] False r show ?thesis
        by (simp add: s EtsRemove)
    qed
  next
    case (EtsNotify t k)
    show ?thesis
      using pon_ets_watcher_notify_count [OF r, of t k st] r by (simp add: s EtsNotify)
  next
    case (EtsProcessExit p)
    from pon_ets_watcher_remove_process_effect [OF r, of p] obtain r' where
      "pon_ets_watcher_remove_process (Some r) p =
         Some (int (card {x \<in> ets_watchers r. snd (snd x) = p}), Some r')"
      "ets_wf r'" "ets_watchers r' = {x \<in> ets_watchers r. snd (snd x) \<noteq> p}" by blast
    then show ?thesis by (simp add: s EtsProcessExit)
  qed
  then show "fst (ets_step c s) = fst (ets_spec c (ets_watchers (fst s)))"
    "ets_watchers (fst (snd (ets_step c s))) = snd (ets_spec c (ets_watchers (fst s)))"
    "ets_wf (fst (snd (ets_step c s)))" by simp_all
qed

interpretation ets: data_refinement
  "\<lambda>s. ets_wf (fst s)" "\<lambda>s. ets_watchers (fst s)" ets_pre ets_step ets_spec
  by unfold_locales (simp_all add: ets_step_refines)

lemma ets_pre_run_iff: "ets_pre_run cs S \<longleftrightarrow> ets.pre_run cs S"
  by (induction cs arbitrary: S) simp_all

lemma ets_registry_run:
  assumes "pon_ets_watcher_init (Some r0) = Some r" and "ets_pre_run cs {}"
  shows "fst (run ets_step cs (r, st)) = fst (run ets_spec cs {})"
    and "ets_watchers (fst (snd (run ets_step cs (r, st)))) = snd (run ets_spec cs {})"
    and "ets_wf (fst (snd (run ets_step cs (r, st))))"
proof -
  from assms(1) have r: "r = r0\<lparr>buckets := replicate PON_ETS_WATCHER_BUCKETS [], count := 0\<rparr>"
    by (simp add: pon_ets_watcher_init_def)
  note wf = ets_init_wf [of r0, folded r] and empty = ets_init_watchers [of r0, folded r]
  show "fst (run ets_step cs (r, st)) = fst (run ets_spec cs {})"
    "ets_watchers (fst (snd (run ets_step cs (r, st)))) = snd (run ets_spec cs {})"
    "ets_wf (fst (snd (run ets_step cs (r, st))))"
    using ets.run_refines [of "(r, st)" cs] assms(2) wf by (simp_all add: empty ets_pre_run_iff)
qed

text \<open>
  C1. From an initialised registry, every sequence of registrations, removals, notifications and
  process exits in which no registration is made with \<open>INT_MAX\<close> triples present gives exactly the
  answers of a set of (table, key, process) triples, and no \<open>int\<close> counter overflows: adding a
  triple that is present (or without memory) returns -1, removing an absent one returns -1, a
  notification returns the number of processes that watch the key, a process exit returns the
  number of its watchers and removes them all. Hash collisions, bucket order and the counters are
  invisible, and \<open>count\<close> stays the number of registered triples.
\<close>

theorem pon_ets_registry_is_a_set:
  assumes "pon_ets_watcher_init (Some r0) = Some r" and "ets_pre_run cs {}"
  shows "fst (run ets_step cs (r, st)) = fst (run ets_spec cs {}) \<and>
     ets_watchers (fst (snd (run ets_step cs (r, st)))) = snd (run ets_spec cs {}) \<and>
     count (fst (snd (run ets_step cs (r, st)))) = int (card (snd (run ets_spec cs {}))) \<and>
     count (fst (snd (run ets_step cs (r, st)))) \<le> INT_MAX"
  using ets_registry_run [OF assms, of st]
    ets_wf_count(1,2) [OF ets_registry_run(3) [OF assms, of st]] by simp

theorem pon_ets_registry_is_a_set_witness:
  "\<exists>r. pon_ets_watcher_init (Some \<lparr>buckets = [], count = 7\<rparr>) = Some r \<and>
     fst (run ets_step [EtsAdd True 1 2 3, EtsAdd True 1 2 3, EtsNotify 1 2, EtsProcessExit 3]
            (r, pon_stats_zero)) = [Some 0, Some (-1), Some 1, Some 1]"
proof -
  let ?cs = "[EtsAdd True 1 2 3, EtsAdd True 1 2 3, EtsNotify 1 2, EtsProcessExit 3]"
  obtain r where r: "pon_ets_watcher_init (Some \<lparr>buckets = [], count = 7\<rparr>) = Some r"
    by (simp add: pon_ets_watcher_init_def)
  have mine: "{x \<in> {(1, 2, 3 :: u64)}. snd (snd x) = 3} = {(1 :: u64, 2 :: u64, 3)}" by auto
  have "ets_spec (EtsProcessExit 3) {(1, 2, 3)} = (Some 1, {x \<in> {(1, 2, 3)}. snd (snd x) \<noteq> 3})"
    by (simp only: ets_spec.simps mine) simp
  then have "fst (run ets_spec ?cs {}) = [Some 0, Some (-1), Some 1, Some 1]"
    by (simp del: ets_spec.simps(4))
  moreover have "ets_pre_run ?cs {}" by (simp add: INT_MAX_def)
  ultimately show ?thesis
    using pon_ets_registry_is_a_set [OF r, of ?cs pon_stats_zero] r by auto
qed

text \<open>
  C2. On a well-formed registry a notification returns the number of processes that watch the key,
  without overflowing its counter, adds that number to \<open>ets_watcher_hits\<close> and touches no other
  counter: the statistics count exactly the notifications.
\<close>

theorem pon_ets_notify_counts_hits:
  assumes "ets_wf r"
  shows "pon_ets_watcher_notify (Some r) t k st =
           Some (int (card {p. (t, k, p) \<in> ets_watchers r}),
            st\<lparr>ets_watcher_hits := ets_watcher_hits st + of_nat (card {p. (t, k, p) \<in> ets_watchers r})\<rparr>) \<and>
         int (card {p. (t, k, p) \<in> ets_watchers r}) \<le> INT_MAX"
  using pon_ets_watcher_notify_count [OF assms, of t k st]
    ets_wf_count(3) [OF assms, of "\<lambda>w. table_id w = t \<and> key_hash w = k"]
  by (simp add: card_key_watchers [OF assms])

text \<open>Two processes watch one key of a table and one of them another key as well.\<close>

theorem pon_ets_notify_counts_hits_witness:
  "\<exists>r. ets_wf r \<and> ets_watchers r = {(1, 2, 3), (1, 2, 4), (1, 5, 3)} \<and>
     pon_ets_watcher_notify (Some r) 1 2 pon_stats_zero =
       Some (2, pon_stats_zero\<lparr>ets_watcher_hits := 2\<rparr>)"
proof -
  let ?cs = "[EtsAdd True 1 2 3, EtsAdd True 1 2 4, EtsAdd True 1 5 3]"
  obtain r0 where r0: "pon_ets_watcher_init (Some \<lparr>buckets = [], count = 0\<rparr>) = Some r0"
    by (simp add: pon_ets_watcher_init_def)
  define r where "r = fst (snd (run ets_step ?cs (r0, pon_stats_zero)))"
  have "ets_pre_run ?cs {}" by (simp add: INT_MAX_def)
  note run = ets_registry_run [OF r0 this, of pon_stats_zero, folded r_def]
  from run(2) have ws: "ets_watchers r = {(1, 2, 3), (1, 2, 4), (1, 5, 3)}"
    by (simp add: insert_commute)
  then have "{p. (1, 2, p) \<in> ets_watchers r} = {3, 4}" by auto
  with pon_ets_notify_counts_hits [OF run(3), of 1 2 pon_stats_zero] run(3) ws show ?thesis
    by (intro exI [of _ r]) (simp add: pon_stats_zero_def)
qed

end
