(* ===== verification/TimerWheel.thy ===== *)
theory TimerWheel
  imports PonTimer
begin

text \<open>
  The timer wheel of a scheduler with the PON deadline cache (\<^verbatim>\<open>time.c\<close>, \<^verbatim>\<open>erl_time.h\<close>), in the
  build the program ships: \<open>PON_BEAM\<close> set, the wheel debugging switches off, Linux (monotonic time in
  nanoseconds, clock ticks of a millisecond).

  Timers live in a store \<open>tmr\<close> at their addresses and are linked into circular doubly linked lists, as
  in the C code; the sentinel is one more cell of the store. What the code asks of the outside (the
  monotonic clock, the timerfd system calls) is answered by the environment functions of the state,
  one answer per call. Times are unbounded integers: clock ticks of 64-bit nanoseconds stay far from
  the ends of the range. The timer counts are 64-bit words. A loop is an \<open>option\<close>: \<open>None\<close> is a loop
  that does not end.
\<close>

subsection \<open>Time units\<close>

text \<open>C division on signed integers, for a positive divisor.\<close>

definition cdiv :: "int \<Rightarrow> int \<Rightarrow> int" where
  "cdiv a b = (if a < 0 then - ((- a) div b) else a div b)"

definition ERTS_MONOTONIC_TO_CLKTCKS :: "int \<Rightarrow> int" where
  "ERTS_MONOTONIC_TO_CLKTCKS x = cdiv x (1000000000 div 1000)"

definition ERTS_CLKTCKS_TO_MONOTONIC :: "int \<Rightarrow> int" where
  "ERTS_CLKTCKS_TO_MONOTONIC x = x * (1000000000 div 1000)"

definition ERTS_MONOTONIC_TO_USEC :: "int \<Rightarrow> int" where
  "ERTS_MONOTONIC_TO_USEC x = cdiv x 1000"

definition ERTS_MONOTONIC_TIME_MAX :: int where
  "ERTS_MONOTONIC_TIME_MAX = 2 ^ 63 - 1"

definition ERTS_MAX_CLKTCKS :: int where
  "ERTS_MAX_CLKTCKS = ERTS_MONOTONIC_TO_CLKTCKS ERTS_MONOTONIC_TIME_MAX"

definition ERTS_CLKTCKS_WEEK :: int where
  "ERTS_CLKTCKS_WEEK = ERTS_MONOTONIC_TO_CLKTCKS (7 * 60 * 60 * 24 * 1000000000)"

subsection \<open>Dimensions\<close>

definition ERTS_TW_SOON_WHEEL_BITS :: nat where "ERTS_TW_SOON_WHEEL_BITS = 14"

definition ERTS_TW_LATER_WHEEL_BITS :: nat where "ERTS_TW_LATER_WHEEL_BITS = 14"

definition ERTS_TW_SOON_WHEEL_SIZE :: int where
  "ERTS_TW_SOON_WHEEL_SIZE = push_bit ERTS_TW_SOON_WHEEL_BITS 1"

definition ERTS_TW_LATER_WHEEL_SIZE :: int where
  "ERTS_TW_LATER_WHEEL_SIZE = push_bit ERTS_TW_LATER_WHEEL_BITS 1"

definition ERTS_TW_SOON_WHEEL_FIRST_SLOT :: int where "ERTS_TW_SOON_WHEEL_FIRST_SLOT = 0"

definition ERTS_TW_SOON_WHEEL_END_SLOT :: int where
  "ERTS_TW_SOON_WHEEL_END_SLOT = ERTS_TW_SOON_WHEEL_FIRST_SLOT + ERTS_TW_SOON_WHEEL_SIZE"

definition ERTS_TW_SOON_WHEEL_MASK :: int where
  "ERTS_TW_SOON_WHEEL_MASK = ERTS_TW_SOON_WHEEL_SIZE - 1"

definition ERTS_TW_LATER_WHEEL_SHIFT :: nat where
  "ERTS_TW_LATER_WHEEL_SHIFT = ERTS_TW_SOON_WHEEL_BITS - 1"

definition ERTS_TW_LATER_WHEEL_SLOT_SIZE :: int where
  "ERTS_TW_LATER_WHEEL_SLOT_SIZE = push_bit ERTS_TW_LATER_WHEEL_SHIFT 1"

definition ERTS_TW_LATER_WHEEL_POS_MASK :: int where
  "ERTS_TW_LATER_WHEEL_POS_MASK = NOT (push_bit ERTS_TW_LATER_WHEEL_SHIFT 1 - 1)"

definition ERTS_TW_LATER_WHEEL_FIRST_SLOT :: int where
  "ERTS_TW_LATER_WHEEL_FIRST_SLOT = ERTS_TW_SOON_WHEEL_SIZE"

definition ERTS_TW_LATER_WHEEL_END_SLOT :: int where
  "ERTS_TW_LATER_WHEEL_END_SLOT = ERTS_TW_LATER_WHEEL_FIRST_SLOT + ERTS_TW_LATER_WHEEL_SIZE"

definition ERTS_TW_LATER_WHEEL_MASK :: int where
  "ERTS_TW_LATER_WHEEL_MASK = ERTS_TW_LATER_WHEEL_SIZE - 1"

definition ERTS_TW_SCNT_BITS :: nat where "ERTS_TW_SCNT_BITS = 9"

definition ERTS_TW_SCNT_SIZE :: int where
  "ERTS_TW_SCNT_SIZE =
     drop_bit ERTS_TW_SCNT_BITS (ERTS_TW_SOON_WHEEL_SIZE + ERTS_TW_LATER_WHEEL_SIZE)"

definition ERTS_TW_SLOT_AT_ONCE :: int where "ERTS_TW_SLOT_AT_ONCE = -1"

definition ERTS_TW_SLOT_INACTIVE :: int where "ERTS_TW_SLOT_INACTIVE = -2"

definition ERTS_TWHEEL_BUMP_YIELD_LIMIT :: int where "ERTS_TWHEEL_BUMP_YIELD_LIMIT = 10000"

definition ERTS_TW_COST_SLOT :: int where "ERTS_TW_COST_SLOT = 1"

definition ERTS_TW_COST_SLOT_MOVE :: int where "ERTS_TW_COST_SLOT_MOVE = 5"

definition ERTS_TW_COST_TIMEOUT :: int where "ERTS_TW_COST_TIMEOUT = 100"

subsection \<open>State\<close>

record ErtsTWheelTimer =
  timeout_pos :: int
  tnext :: addr
  tprev :: addr
  ttimeout :: addr
  targ :: addr
  tslot :: int

record ErtsTimerWheel =
  tw_w :: "int \<Rightarrow> ptr"
  tw_scnt :: "int \<Rightarrow> int"
  tw_bump_scnt :: "int \<Rightarrow> int"
  tw_pos :: int
  tw_nto :: u64
  at_once_nto :: u64
  soon_min_tpos :: int
  soon_nto :: u64
  later_min_tpos :: int
  later_min_tpos_slot :: int
  later_pos :: int
  later_nto :: u64
  yield_slot :: int
  yield_slots_left :: int
  sentinel :: addr
  true_next_timeout_time :: bool
  next_timeout_pos :: int
  next_timeout_time :: int
  pon_fd :: int
  pon_armed_deadline :: int

text \<open>
  The answers of the outside: the clock, \<open>timerfd_create\<close>, whether \<open>timerfd_settime\<close> succeeds, and
  what \<open>timerfd_gettime\<close> reports (\<open>None\<close> on failure). \<open>calls\<close> counts the calls made so far.
  \<open>fired_log\<close> records the calls of timeout procedures: the timer's address and timeout, and the
  position of the wheel at the call.
\<close>

record tw_state =
  tmr :: "addr \<Rightarrow> ErtsTWheelTimer"
  tiw :: ErtsTimerWheel
  wkern :: kernel
  wstats :: PonStats
  env_mtime :: "nat \<Rightarrow> int"
  env_create :: "nat \<Rightarrow> int"
  env_settime :: "nat \<Rightarrow> bool"
  env_gettime :: "nat \<Rightarrow> itimerspec option"
  calls :: nat
  fired_log :: "(addr \<times> int \<times> int) list"

definition erts_get_monotonic_time :: "tw_state \<Rightarrow> int \<times> tw_state" where
  "erts_get_monotonic_time s = (env_mtime s (calls s), s\<lparr>calls := Suc (calls s)\<rparr>)"

definition wheel :: "(ErtsTimerWheel \<Rightarrow> ErtsTimerWheel) \<Rightarrow> tw_state \<Rightarrow> tw_state" where
  "wheel f s = s\<lparr>tiw := f (tiw s)\<rparr>"

definition timer :: "addr \<Rightarrow> (ErtsTWheelTimer \<Rightarrow> ErtsTWheelTimer) \<Rightarrow> tw_state \<Rightarrow> tw_state" where
  "timer p f s = s\<lparr>tmr := (tmr s)(p := f (tmr s p))\<rparr>"

definition stat :: "((u64 \<Rightarrow> u64) \<Rightarrow> PonStats \<Rightarrow> PonStats) \<Rightarrow> tw_state \<Rightarrow> tw_state" where
  "stat fld s = s\<lparr>wstats := PON_STATS_INC fld (wstats s)\<rparr>"

subsection \<open>Slot counters\<close>

definition scnt_get_ix :: "int \<Rightarrow> int" where
  "scnt_get_ix slot = drop_bit ERTS_TW_SCNT_BITS slot"

definition scnt_inc :: "(int \<Rightarrow> int) \<Rightarrow> int \<Rightarrow> int \<Rightarrow> int" where
  "scnt_inc scnt slot =
     (let ix = drop_bit ERTS_TW_SCNT_BITS slot in scnt(ix := scnt ix + 1))"

definition scnt_dec :: "(int \<Rightarrow> int) \<Rightarrow> int \<Rightarrow> int \<Rightarrow> int" where
  "scnt_dec scnt slot =
     (let ix = drop_bit ERTS_TW_SCNT_BITS slot in scnt(ix := scnt ix - 1))"

definition scnt_ix_dec :: "(int \<Rightarrow> int) \<Rightarrow> int \<Rightarrow> int \<Rightarrow> int" where
  "scnt_ix_dec scnt six = scnt(six := scnt six - 1)"

text \<open>The loop of \<open>scnt_wheel_next\<close> on its locals \<open>slot\<close>, \<open>left\<close>, \<open>ix\<close>.\<close>

partial_function (option) scnt_skip ::
    "(int \<Rightarrow> int) \<Rightarrow> int \<Rightarrow> int \<Rightarrow> int \<Rightarrow> int \<Rightarrow> int \<Rightarrow> (int \<times> int \<times> int) option" where
  "scnt_skip scnt first_slot end_slot slot left ix =
     (if scnt ix = 0 \<and> left > 0 then
        (let old_slot = slot;
             ix = ix + 1;
             slot = push_bit ERTS_TW_SCNT_BITS ix;
             diff = slot - old_slot;
             (slot, diff) = (if left < diff then (old_slot + left, left) else (slot, diff))
         in if slot < end_slot then scnt_skip scnt first_slot end_slot slot (left - diff) ix
            else scnt_skip scnt first_slot end_slot first_slot (left - (end_slot - old_slot))
                   (drop_bit ERTS_TW_SCNT_BITS first_slot))
      else Some (slot, left, ix))"

declare scnt_skip.simps [code]

text \<open>Result: the new \<open>*slotp\<close>, \<open>*leftp\<close>, \<open>*posp\<close> and \<open>*sixp\<close>.\<close>

definition scnt_wheel_next ::
    "int \<Rightarrow> int \<Rightarrow> int \<Rightarrow> (int \<Rightarrow> int) \<Rightarrow> int \<Rightarrow> int \<Rightarrow> int \<Rightarrow> (int \<times> int \<times> int \<times> int) option" where
  "scnt_wheel_next slot0 left0 pos scnt first_slot end_slot slot_sz =
     (let left = left0 - 1;
          slot = slot0 + 1;
          slot = (if slot = end_slot then first_slot else slot);
          ix = drop_bit ERTS_TW_SCNT_BITS slot
      in do {
        (slot, left, ix) \<leftarrow> scnt_skip scnt first_slot end_slot slot left ix;
        Some (slot, left, pos + slot_sz * (left0 - left), drop_bit ERTS_TW_SCNT_BITS slot)
      })"

definition scnt_soon_wheel_next ::
    "int \<Rightarrow> int \<Rightarrow> int \<Rightarrow> (int \<Rightarrow> int) \<Rightarrow> (int \<times> int \<times> int \<times> int) option" where
  "scnt_soon_wheel_next slot left pos scnt =
     scnt_wheel_next slot left pos scnt ERTS_TW_SOON_WHEEL_FIRST_SLOT ERTS_TW_SOON_WHEEL_END_SLOT 1"

definition scnt_later_wheel_next ::
    "int \<Rightarrow> int \<Rightarrow> int \<Rightarrow> (int \<Rightarrow> int) \<Rightarrow> (int \<times> int \<times> int \<times> int) option" where
  "scnt_later_wheel_next slot left pos scnt =
     scnt_wheel_next slot left pos scnt ERTS_TW_LATER_WHEEL_FIRST_SLOT
       ERTS_TW_LATER_WHEEL_END_SLOT ERTS_TW_LATER_WHEEL_SLOT_SIZE"

definition soon_slot :: "int \<Rightarrow> int" where
  "soon_slot spos = spos AND ERTS_TW_SOON_WHEEL_MASK"

definition later_slot :: "int \<Rightarrow> int" where
  "later_slot lpos =
     (drop_bit ERTS_TW_LATER_WHEEL_SHIFT lpos AND ERTS_TW_LATER_WHEEL_MASK)
       + ERTS_TW_LATER_WHEEL_FIRST_SLOT"

subsection \<open>The canary timerfd\<close>

text \<open>The first block of \<open>pon_timer_wheel_arm\<close>; the flag says whether the function goes on.\<close>

definition pon_timer_wheel_open :: "tw_state \<Rightarrow> bool \<times> tw_state" where
  "pon_timer_wheel_open s =
     (if pon_fd (tiw s) = -1 then
        (let fd = env_create s (calls s);
             s = s\<lparr>calls := Suc (calls s), wkern := sys_open fd (wkern s)\<rparr>;
             s = wheel (\<lambda>t. t\<lparr>pon_fd := fd\<rparr>) s
         in if fd = -1 then (False, wheel (\<lambda>t. t\<lparr>pon_armed_deadline := -1\<rparr>) s)
            else (True, stat timerfd_created_update s))
      else (True, s))"

definition wheel_settime :: "itimerspec \<Rightarrow> tw_state \<Rightarrow> bool \<times> tw_state" where
  "wheel_settime spec s =
     (let ok = env_settime s (calls s) in
      (ok, s\<lparr>calls := Suc (calls s),
             wkern := sys_timerfd_settime (pon_fd (tiw s)) spec ok (wkern s)\<rparr>))"

text \<open>The division by \<open>1000000ULL\<close> converts the signed deadline to 64 unsigned bits.\<close>

definition deadline_spec :: "int \<Rightarrow> itimerspec" where
  "deadline_spec deadline_us =
     \<lparr>it_interval_sec = 0, it_interval_nsec = 0,
      it_value_sec = sint ((of_int deadline_us :: u64) div 1000000),
      it_value_nsec = sint (((of_int deadline_us :: u64) mod 1000000) * 1000)\<rparr>"

definition pon_timer_wheel_arm :: "tw_state \<Rightarrow> tw_state" where
  "pon_timer_wheel_arm s =
     (let (go_on, s) = pon_timer_wheel_open s in
      if \<not> go_on then s
      else if next_timeout_time (tiw s) = pon_armed_deadline (tiw s) then s
      else
        (let deadline_us = ERTS_MONOTONIC_TO_USEC (next_timeout_time (tiw s));
             (now, s) = erts_get_monotonic_time s;
             remaining_us = deadline_us - ERTS_MONOTONIC_TO_USEC now
         in if remaining_us < 1000 then
              stat timer_wheel_fallback_update
                (if pon_armed_deadline (tiw s) \<noteq> -1 then
                   (let (ok, s) = wheel_settime \<lparr>it_interval_sec = 0, it_interval_nsec = 0,
                                                  it_value_sec = 0, it_value_nsec = 0\<rparr> s
                    in if ok then wheel (\<lambda>t. t\<lparr>pon_armed_deadline := -1\<rparr>) s else s)
                 else s)
            else
              (let (ok, s) = wheel_settime (deadline_spec deadline_us) s in
               if \<not> ok then stat timer_wheel_fallback_update s
               else stat timer_instigations_update
                 (wheel (\<lambda>t. t\<lparr>pon_armed_deadline := next_timeout_time t\<rparr>) s))))"

definition pon_timer_wheel_can_skip_scan :: "tw_state \<Rightarrow> bool \<times> tw_state" where
  "pon_timer_wheel_can_skip_scan s =
     (if pon_fd (tiw s) = -1 \<or> pon_armed_deadline (tiw s) = -1 then (False, s)
      else
        (let r = env_gettime s (calls s); s = s\<lparr>calls := Suc (calls s)\<rparr> in
         case r of
           None \<Rightarrow> (False, s)
         | Some remain \<Rightarrow> (\<not> (it_value_sec remain = 0 \<and> it_value_nsec remain = 0), s)))"

subsection \<open>Linking and unlinking timers\<close>

text \<open>The tail of \<open>insert_timer_into_slot\<close>: counts and known minima.\<close>

definition insert_count :: "int \<Rightarrow> int \<Rightarrow> ErtsTimerWheel \<Rightarrow> ErtsTimerWheel" where
  "insert_count slot tpos t =
     (if slot = ERTS_TW_SLOT_AT_ONCE then t\<lparr>at_once_nto := at_once_nto t + 1\<rparr>
      else
        (let t =
           (if slot < ERTS_TW_SOON_WHEEL_END_SLOT then
              (let t = t\<lparr>soon_nto := soon_nto t + 1\<rparr>
               in if soon_min_tpos t > tpos then t\<lparr>soon_min_tpos := tpos\<rparr> else t)
            else
              (let t = t\<lparr>later_nto := later_nto t + 1\<rparr>
               in if later_min_tpos t > tpos
                  then t\<lparr>later_min_tpos := tpos, later_min_tpos_slot := slot\<rparr> else t))
         in t\<lparr>tw_scnt := scnt_inc (tw_scnt t) slot\<rparr>))"

definition insert_timer_into_slot :: "int \<Rightarrow> addr \<Rightarrow> tw_state \<Rightarrow> tw_state" where
  "insert_timer_into_slot slot p s =
     (let s = timer p (\<lambda>t. t\<lparr>tslot := slot\<rparr>) s;
          s = (case tw_w (tiw s) slot of
                 None \<Rightarrow>
                   timer p (\<lambda>t. t\<lparr>tnext := p, tprev := p\<rparr>)
                     (wheel (\<lambda>t. t\<lparr>tw_w := (tw_w t)(slot := Some p)\<rparr>) s)
               | Some next \<Rightarrow>
                   (let prev = tprev (tmr s next);
                        s = timer p (\<lambda>t. t\<lparr>tnext := next\<rparr>) s;
                        s = timer p (\<lambda>t. t\<lparr>tprev := prev\<rparr>) s;
                        s = timer prev (\<lambda>t. t\<lparr>tnext := p\<rparr>) s
                    in timer next (\<lambda>t. t\<lparr>tprev := p\<rparr>) s))
      in wheel (insert_count slot (timeout_pos (tmr s p))) s)"

text \<open>The second half of \<open>remove_timer\<close>.\<close>

definition remove_count :: "int \<Rightarrow> int \<Rightarrow> bool \<Rightarrow> ErtsTimerWheel \<Rightarrow> ErtsTimerWheel" where
  "remove_count slot tpos empty_slot t =
     (if slot = ERTS_TW_SLOT_AT_ONCE then t\<lparr>at_once_nto := at_once_nto t - 1\<rparr>
      else
        (let t = t\<lparr>tw_scnt := scnt_dec (tw_scnt t) slot\<rparr> in
         if slot < ERTS_TW_SOON_WHEEL_END_SLOT then
           (let t = (if empty_slot \<and> true_next_timeout_time t \<and> tpos = next_timeout_pos t
                        \<and> yield_slot t = ERTS_TW_SLOT_INACTIVE
                     then t\<lparr>true_next_timeout_time := False\<rparr> else t);
                t = t\<lparr>soon_nto := soon_nto t - 1\<rparr>
            in if soon_nto t = 0 then t\<lparr>soon_min_tpos := ERTS_MAX_CLKTCKS\<rparr> else t)
         else
           (let t = (if empty_slot \<and> true_next_timeout_time t \<and> later_min_tpos_slot t = slot
                     then (let tpos = later_min_tpos t AND ERTS_TW_LATER_WHEEL_POS_MASK;
                               tpos = tpos - ERTS_TW_LATER_WHEEL_SLOT_SIZE
                           in if tpos = next_timeout_pos t
                                 \<and> yield_slot t = ERTS_TW_SLOT_INACTIVE
                              then t\<lparr>true_next_timeout_time := False\<rparr> else t)
                     else t);
                t = t\<lparr>later_nto := later_nto t - 1\<rparr>
            in if later_nto t = 0
               then t\<lparr>later_min_tpos := ERTS_MAX_CLKTCKS,
                      later_min_tpos_slot := ERTS_TW_LATER_WHEEL_END_SLOT\<rparr>
               else t)))"

definition remove_timer :: "addr \<Rightarrow> tw_state \<Rightarrow> tw_state" where
  "remove_timer p s =
     (let slot = tslot (tmr s p);
          (s, empty_slot) =
            (if tnext (tmr s p) = p then
               (wheel (\<lambda>t. t\<lparr>tw_w := (tw_w t)(slot := None)\<rparr>) s, True)
             else
               (let s = (if tw_w (tiw s) slot = Some p
                         then wheel (\<lambda>t. t\<lparr>tw_w := (tw_w t)(slot := Some (tnext (tmr s p)))\<rparr>) s
                         else s);
                    s = timer (tprev (tmr s p)) (\<lambda>t. t\<lparr>tnext := tnext (tmr s p)\<rparr>) s;
                    s = timer (tnext (tmr s p)) (\<lambda>t. t\<lparr>tprev := tprev (tmr s p)\<rparr>) s
                in (s, False)));
          s = wheel (remove_count slot (timeout_pos (tmr s p)) empty_slot) s
      in timer p (\<lambda>t. t\<lparr>tslot := ERTS_TW_SLOT_INACTIVE\<rparr>) s)"

definition erts_twheel_init_timer :: "addr \<Rightarrow> tw_state \<Rightarrow> tw_state" where
  "erts_twheel_init_timer p s = timer p (\<lambda>t. t\<lparr>tslot := ERTS_TW_SLOT_INACTIVE\<rparr>) s"

definition erts_tweel_read_timeout :: "addr \<Rightarrow> tw_state \<Rightarrow> int" where
  "erts_tweel_read_timeout p s = timeout_pos (tmr s p)"

subsection \<open>Setting and cancelling\<close>

text \<open>The slot, and the tick at which the wheel has to be looked at because of the timer.\<close>

definition calculate_slot :: "int \<Rightarrow> int \<Rightarrow> int \<times> int" where
  "calculate_slot cpos tpos =
     (if tpos \<le> cpos then (ERTS_TW_SLOT_AT_ONCE, cpos)
      else if tpos < cpos + ERTS_TW_SOON_WHEEL_SIZE then (soon_slot tpos, tpos)
      else (later_slot tpos,
            (tpos AND ERTS_TW_LATER_WHEEL_POS_MASK) - ERTS_TW_LATER_WHEEL_SLOT_SIZE))"

definition erts_twheel_set_timer ::
    "addr \<Rightarrow> addr \<Rightarrow> addr \<Rightarrow> int \<Rightarrow> tw_state \<Rightarrow> tw_state" where
  "erts_twheel_set_timer p timeout arg tpos0 s =
     (let s = timer p (\<lambda>t. t\<lparr>ttimeout := timeout, targ := arg\<rparr>) s;
          s = wheel (\<lambda>t. t\<lparr>tw_nto := tw_nto t + 1\<rparr>) s;
          cpos = tw_pos (tiw s);
          s = timer p (\<lambda>t. t\<lparr>timeout_pos := (if tpos0 \<le> cpos then cpos else tpos0)\<rparr>) s;
          (slot, tpos) = calculate_slot cpos tpos0;
          s = (if cpos < tpos0 \<and> tpos0 < cpos + ERTS_TW_SOON_WHEEL_SIZE
                  \<and> soon_min_tpos (tiw s) > tpos0
               then wheel (\<lambda>t. t\<lparr>soon_min_tpos := tpos0\<rparr>) s else s);
          s = insert_timer_into_slot slot p s
      in if tpos \<le> next_timeout_pos (tiw s) then
           (let s = wheel (\<lambda>t. t\<lparr>true_next_timeout_time := True\<rparr>) s in
            if tpos < next_timeout_pos (tiw s) then
              pon_timer_wheel_arm
                (wheel (\<lambda>t. t\<lparr>next_timeout_pos := tpos,
                              next_timeout_time := ERTS_CLKTCKS_TO_MONOTONIC tpos\<rparr>) s)
            else s)
         else s)"

definition erts_twheel_cancel_timer :: "addr \<Rightarrow> tw_state \<Rightarrow> tw_state" where
  "erts_twheel_cancel_timer p s =
     (if tslot (tmr s p) \<noteq> ERTS_TW_SLOT_INACTIVE then
        wheel (\<lambda>t. t\<lparr>tw_nto := tw_nto t - 1\<rparr>) (remove_timer p s)
      else s)"

subsection \<open>Finding the next timeout\<close>

text \<open>The search of the later wheel, when the soon wheel is empty: \<open>min_timeout_pos\<close> and \<open>true_min_timeout\<close>.\<close>

definition find_later :: "tw_state \<Rightarrow> (int \<times> bool \<times> tw_state) option" where
  "find_later s =
     (let t = tiw s;
          min_tpos = later_min_tpos t AND ERTS_TW_LATER_WHEEL_POS_MASK;
          tmp = cdiv (min_tpos - later_pos t) ERTS_TW_LATER_WHEEL_SLOT_SIZE
      in if \<not> min_tpos \<le> later_pos t \<and> tmp \<ge> ERTS_TW_LATER_WHEEL_SIZE
         then Some (min_tpos - ERTS_TW_LATER_WHEEL_SLOT_SIZE, False, s)
         else
           (let (tpos, slots) = (if min_tpos \<le> later_pos t
                                 then (later_pos t, ERTS_TW_LATER_WHEEL_SIZE)
                                 else (min_tpos, ERTS_TW_LATER_WHEEL_SIZE - tmp));
                slot = later_slot tpos
            in do {
              (slot, tpos, true_min) \<leftarrow>
                (if tw_w t slot \<noteq> None then Some (slot, tpos, True)
                 else do {
                   (slot, slots, tpos, ix) \<leftarrow> scnt_later_wheel_next slot slots tpos (tw_scnt t);
                   Some (slot, tpos, False)
                 });
              s \<leftarrow> Some (wheel (\<lambda>t. t\<lparr>later_min_tpos := tpos, later_min_tpos_slot := slot\<rparr>) s);
              Some (tpos - ERTS_TW_LATER_WHEEL_SLOT_SIZE, true_min, s)
            }))"

text \<open>The two later slots that can time out before the soon wheel does.\<close>

definition find_soon_limit :: "ErtsTimerWheel \<Rightarrow> int" where
  "find_soon_limit t =
     (let min_timeout_pos = tw_pos t + ERTS_TW_SOON_WHEEL_SIZE in
      if later_min_tpos t > later_pos t + 2 * ERTS_TW_LATER_WHEEL_SLOT_SIZE then min_timeout_pos
      else
        (let tpos = later_pos t - ERTS_TW_LATER_WHEEL_SLOT_SIZE;
             fslot = later_slot (later_pos t)
         in if tw_w t fslot \<noteq> None then tpos
            else
              (let tpos = tpos + ERTS_TW_LATER_WHEEL_SLOT_SIZE in
               if tpos < min_timeout_pos then
                 (let fslot = fslot + 1;
                      fslot = (if fslot = ERTS_TW_LATER_WHEEL_END_SLOT
                               then ERTS_TW_LATER_WHEEL_FIRST_SLOT else fslot)
                  in if tw_w t fslot \<noteq> None then tpos else min_timeout_pos)
               else min_timeout_pos)))"

text \<open>The loop over the soon wheel.\<close>

partial_function (option) find_soon_loop ::
    "ErtsTimerWheel \<Rightarrow> int \<Rightarrow> int \<Rightarrow> int \<Rightarrow> int \<Rightarrow> int option" where
  "find_soon_loop t slot slots tpos min_timeout_pos =
     (if tpos < min_timeout_pos then
        if tw_w t slot \<noteq> None then Some tpos
        else do {
          (slot, slots, tpos, ix) \<leftarrow> scnt_soon_wheel_next slot slots tpos (tw_scnt t);
          find_soon_loop t slot slots tpos min_timeout_pos
        }
      else Some min_timeout_pos)"

declare find_soon_loop.simps [code]

definition find_soon :: "tw_state \<Rightarrow> (int \<times> bool \<times> tw_state) option" where
  "find_soon s =
     (let t = tiw s;
          min_timeout_pos = find_soon_limit t;
          (tpos, slots) = (if soon_min_tpos t \<le> tw_pos t
                           then (tw_pos t, ERTS_TW_SOON_WHEEL_SIZE)
                           else (soon_min_tpos t,
                                 ERTS_TW_SOON_WHEEL_SIZE - (soon_min_tpos t - tw_pos t)));
          slot = soon_slot tpos
      in do {
        min_timeout_pos \<leftarrow> find_soon_loop t slot slots tpos min_timeout_pos;
        Some (min_timeout_pos, True, wheel (\<lambda>t. t\<lparr>soon_min_tpos := min_timeout_pos\<rparr>) s)
      })"

text \<open>The code after the label \<open>done\<close>.\<close>

definition find_done :: "int \<Rightarrow> bool \<Rightarrow> tw_state \<Rightarrow> int \<times> tw_state" where
  "find_done min_timeout_pos true_min_timeout s =
     (let timeout_pos_limit = tw_pos (tiw s) + ERTS_CLKTCKS_WEEK;
          (min_timeout_pos, true_min_timeout) =
            (if min_timeout_pos > timeout_pos_limit then (timeout_pos_limit, False)
             else (min_timeout_pos, true_min_timeout));
          min_timeout = ERTS_CLKTCKS_TO_MONOTONIC min_timeout_pos
      in (min_timeout,
          wheel (\<lambda>t. t\<lparr>next_timeout_pos := min_timeout_pos, next_timeout_time := min_timeout,
                        true_next_timeout_time := true_min_timeout\<rparr>) s))"

definition find_next_timeout :: "tw_state \<Rightarrow> (int \<times> tw_state) option" where
  "find_next_timeout s =
     (if tw_nto (tiw s) = 0 then
        (let (curr_time, s) = erts_get_monotonic_time s;
             cpos = ERTS_MONOTONIC_TO_CLKTCKS curr_time;
             s = wheel (\<lambda>t. t\<lparr>tw_pos := cpos,
                   later_pos := (cpos + ERTS_TW_SOON_WHEEL_SIZE) AND ERTS_TW_LATER_WHEEL_POS_MASK\<rparr>) s
         in Some (find_done (cpos + ERTS_CLKTCKS_WEEK) False s))
      else do {
        (min_timeout_pos, true_min_timeout, s) \<leftarrow>
          (if soon_nto (tiw s) = 0 then find_later s else find_soon s);
        Some (find_done min_timeout_pos true_min_timeout s)
      })"

definition erts_check_next_timeout_time :: "tw_state \<Rightarrow> (int \<times> tw_state) option" where
  "erts_check_next_timeout_time s =
     (if true_next_timeout_time (tiw s) then Some (next_timeout_time (tiw s), s)
      else if next_timeout_pos (tiw s) > tw_pos (tiw s) + ERTS_TW_SOON_WHEEL_SIZE
      then Some (next_timeout_time (tiw s), s)
      else
        (let (skip, s) = pon_timer_wheel_can_skip_scan s in
         if skip then
           (let s = stat timer_scans_avoided_update s in Some (next_timeout_time (tiw s), s))
         else find_next_timeout (stat timer_wheel_fallback_update s)))"

subsection \<open>Creating a wheel\<close>

text \<open>
  \<open>sn\<close> is the address of the embedded sentinel. \<open>tmr\<close>, the kernel, the statistics and the
  environment are those of \<open>s\<close>; the fields the code leaves uninitialised (\<open>bump_scnt\<close>,
  \<open>yield_slots_left\<close>) keep the contents of the allocated memory.
\<close>

definition erts_create_timer_wheel :: "addr \<Rightarrow> tw_state \<Rightarrow> tw_state" where
  "erts_create_timer_wheel sn s =
     (let (mtime, s) = erts_get_monotonic_time s;
          cpos = ERTS_MONOTONIC_TO_CLKTCKS mtime;
          s = wheel (\<lambda>t.
            \<lparr>tw_w = (\<lambda>i. if ERTS_TW_SLOT_AT_ONCE \<le> i \<and> i < ERTS_TW_LATER_WHEEL_END_SLOT
                         then None else tw_w t i),
             tw_scnt = (\<lambda>i. if 0 \<le> i \<and> i < ERTS_TW_SCNT_SIZE then 0 else tw_scnt t i),
             tw_bump_scnt = tw_bump_scnt t, tw_pos = cpos, tw_nto = 0, at_once_nto = 0,
             soon_min_tpos = ERTS_MAX_CLKTCKS, soon_nto = 0,
             later_min_tpos = ERTS_MAX_CLKTCKS,
             later_min_tpos_slot = ERTS_TW_LATER_WHEEL_END_SLOT,
             later_pos = (cpos + ERTS_TW_SOON_WHEEL_SIZE) AND ERTS_TW_LATER_WHEEL_POS_MASK,
             later_nto = 0, yield_slot = ERTS_TW_SLOT_INACTIVE,
             yield_slots_left = yield_slots_left t, sentinel = sn,
             true_next_timeout_time = False,
             next_timeout_pos = cpos + ERTS_CLKTCKS_WEEK,
             next_timeout_time = ERTS_CLKTCKS_TO_MONOTONIC (cpos + ERTS_CLKTCKS_WEEK),
             pon_fd = -1, pon_armed_deadline = -1\<rparr>) s;
          s = timer sn (\<lambda>t. t\<lparr>tnext := sn, tprev := sn, ttimeout := 0, targ := 0\<rparr>) s
      in pon_timer_wheel_arm s)"

definition erts_get_next_timeout_reference :: "tw_state \<Rightarrow> int" where
  "erts_get_next_timeout_reference s = next_timeout_time (tiw s)"

end
