(* ===== verification/TimerWheelInv.thy ===== *)
theory TimerWheelInv
  imports TimerWheel
begin

text \<open>
  The invariant of the timer wheel and the lemmas that linking, unlinking, setting and cancelling keep
  it: the circular lists, the counters of the wheels and of the slot ranges, the position of every
  timer, and the bound that the cached next timeout gives.
\<close>

subsection \<open>Dimensions as numbers\<close>

lemma tw_num [simp]:
  "ERTS_TW_SOON_WHEEL_SIZE = 16384" "ERTS_TW_LATER_WHEEL_SIZE = 16384"
  "ERTS_TW_SOON_WHEEL_FIRST_SLOT = 0" "ERTS_TW_SOON_WHEEL_END_SLOT = 16384"
  "ERTS_TW_LATER_WHEEL_SLOT_SIZE = 8192" "ERTS_TW_LATER_WHEEL_FIRST_SLOT = 16384"
  "ERTS_TW_LATER_WHEEL_END_SLOT = 32768" "ERTS_TW_SCNT_SIZE = 64"
  "ERTS_TW_SLOT_AT_ONCE = -1" "ERTS_TW_SLOT_INACTIVE = -2"
  "ERTS_CLKTCKS_WEEK = 604800000" "ERTS_MAX_CLKTCKS = 9223372036854"
  by (simp_all add: ERTS_TW_SOON_WHEEL_SIZE_def ERTS_TW_LATER_WHEEL_SIZE_def
      ERTS_TW_SOON_WHEEL_FIRST_SLOT_def ERTS_TW_SOON_WHEEL_END_SLOT_def
      ERTS_TW_LATER_WHEEL_SLOT_SIZE_def ERTS_TW_LATER_WHEEL_FIRST_SLOT_def
      ERTS_TW_LATER_WHEEL_END_SLOT_def ERTS_TW_SCNT_SIZE_def ERTS_TW_SLOT_AT_ONCE_def
      ERTS_TW_SLOT_INACTIVE_def ERTS_TW_SOON_WHEEL_BITS_def ERTS_TW_LATER_WHEEL_BITS_def
      ERTS_TW_LATER_WHEEL_SHIFT_def ERTS_TW_SCNT_BITS_def push_bit_eq_mult drop_bit_eq_div
      ERTS_CLKTCKS_WEEK_def ERTS_MAX_CLKTCKS_def ERTS_MONOTONIC_TO_CLKTCKS_def cdiv_def
      ERTS_MONOTONIC_TIME_MAX_def)

lemma and_mask_mod: "(x :: int) AND (2 ^ n - 1) = x mod 2 ^ n"
  by (metis mask_eq_exp_minus_1 take_bit_eq_mask take_bit_eq_mod)

lemma and_not_mask: "(x :: int) AND NOT (2 ^ n - 1) = x - x mod 2 ^ n"
proof -
  have "(x AND m) + (x AND NOT m) = (x AND m) OR (x AND NOT m)" for m
    by (rule disjunctive_add_eq_or) (auto simp: bit_eq_iff bit_simps)
  moreover have "(x AND m) OR (x AND NOT m) = x" for m
    by (auto simp: bit_eq_iff bit_simps)
  ultimately have "x = (x AND (2 ^ n - 1)) + (x AND NOT (2 ^ n - 1))" by metis
  then show ?thesis unfolding and_mask_mod by simp
qed

lemma soon_slot_mod: "soon_slot x = x mod 16384"
  using and_mask_mod [of x 14] by (simp add: soon_slot_def ERTS_TW_SOON_WHEEL_MASK_def)

lemma later_slot_mod: "later_slot x = x div 8192 mod 16384 + 16384"
  using and_mask_mod [of "x div 8192" 14]
  by (simp add: later_slot_def ERTS_TW_LATER_WHEEL_MASK_def ERTS_TW_LATER_WHEEL_SHIFT_def
      ERTS_TW_SOON_WHEEL_BITS_def drop_bit_eq_div)

lemma pos_mask: "x AND ERTS_TW_LATER_WHEEL_POS_MASK = x - x mod 8192"
  using and_not_mask [of x 13]
  by (simp add: ERTS_TW_LATER_WHEEL_POS_MASK_def ERTS_TW_LATER_WHEEL_SHIFT_def
      ERTS_TW_SOON_WHEEL_BITS_def push_bit_eq_mult)

lemma scnt_ix: "drop_bit ERTS_TW_SCNT_BITS slot = slot div 512"
  for slot :: int
  by (simp add: ERTS_TW_SCNT_BITS_def drop_bit_eq_div)

lemma clktcks_mono: "x \<le> y \<Longrightarrow> ERTS_CLKTCKS_TO_MONOTONIC x \<le> ERTS_CLKTCKS_TO_MONOTONIC y"
  by (simp add: ERTS_CLKTCKS_TO_MONOTONIC_def)

subsection \<open>Circular lists\<close>

text \<open>\<open>chain h a xs b\<close>: from \<open>a\<close> the \<open>next\<close> fields lead through \<open>xs\<close> to \<open>b\<close>, the \<open>prev\<close> fields back.\<close>

fun chain :: "(addr \<Rightarrow> ErtsTWheelTimer) \<Rightarrow> addr \<Rightarrow> addr list \<Rightarrow> addr \<Rightarrow> bool" where
  "chain h a [] b = (tnext (h a) = b \<and> tprev (h b) = a)"
| "chain h a (x # xs) b = (tnext (h a) = x \<and> tprev (h x) = a \<and> chain h x xs b)"

fun circ :: "(addr \<Rightarrow> ErtsTWheelTimer) \<Rightarrow> ptr \<Rightarrow> addr list \<Rightarrow> bool" where
  "circ h q [] = (q = None)"
| "circ h q (x # xs) = (q = Some x \<and> chain h x xs x)"

lemma chain_append:
  "chain h a (xs @ y # ys) b \<longleftrightarrow> chain h a xs y \<and> chain h y ys b"
  by (induction xs arbitrary: a) auto

lemma chain_frame:
  assumes "\<And>x. x = a \<or> x \<in> set xs \<Longrightarrow> tnext (h' x) = tnext (h x)"
    and "\<And>x. x = b \<or> x \<in> set xs \<Longrightarrow> tprev (h' x) = tprev (h x)"
  shows "chain h' a xs b \<longleftrightarrow> chain h a xs b"
  using assms
proof (induction xs arbitrary: a)
  case Nil
  then show ?case by simp
next
  case (Cons x xs)
  have "chain h' x xs b = chain h x xs b"
    by (rule Cons.IH) (use Cons.prems in auto)
  with Cons.prems show ?case by simp
qed

lemma circ_frame:
  assumes "\<And>x. x \<in> set xs \<Longrightarrow> tnext (h' x) = tnext (h x)"
    and "\<And>x. x \<in> set xs \<Longrightarrow> tprev (h' x) = tprev (h x)"
  shows "circ h' q xs \<longleftrightarrow> circ h q xs"
proof (cases xs)
  case (Cons x ys)
  have "chain h' x ys x \<longleftrightarrow> chain h x ys x"
    by (rule chain_frame) (use assms Cons in auto)
  with Cons show ?thesis by simp
qed simp

lemma chain_last: "chain h a xs b \<Longrightarrow> tprev (h b) = last (a # xs)"
  by (induction xs arbitrary: a) auto

lemma chain_first: "chain h a xs b \<Longrightarrow> tnext (h a) = hd (xs @ [b])"
  by (cases xs) auto

text \<open>Unlinking: the neighbours of the last cell of a chain are joined.\<close>

lemma chain_join:
  assumes "chain h a xs p" and "chain h p ys b"
    and "distinct (a # xs)" "distinct (ys @ [b])"
    and "set (a # xs) \<inter> set ys = {}" "b \<notin> set xs" "p \<notin> insert a (insert b (set xs \<union> set ys))"
    and nx: "tnext (h' (last (a # xs))) = hd (ys @ [b])"
            "\<And>x. x \<noteq> last (a # xs) \<Longrightarrow> tnext (h' x) = tnext (h x)"
    and pv: "tprev (h' (hd (ys @ [b]))) = last (a # xs)"
            "\<And>x. x \<noteq> hd (ys @ [b]) \<Longrightarrow> tprev (h' x) = tprev (h x)"
  shows "chain h' a (xs @ ys) b"
  using assms(1,3,5,6,7) nx pv
proof (induction xs arbitrary: a)
  case Nil
  then show ?case
  proof (cases ys)
    case Nil
    with Nil.prems show ?thesis by simp
  next
    case (Cons y zs)
    have "chain h' y zs b \<longleftrightarrow> chain h y zs b"
    proof (rule chain_frame)
      fix x assume "x = y \<or> x \<in> set zs"
      then have "x \<noteq> a" using Nil.prems Cons by auto
      then show "tnext (h' x) = tnext (h x)" using Nil.prems(7) by simp
    next
      fix x assume "x = b \<or> x \<in> set zs"
      then have "x \<noteq> y" using assms(4) Cons by auto
      then show "tprev (h' x) = tprev (h x)" using Nil.prems(9) Cons by simp
    qed
    with Nil.prems Cons assms(2) show ?thesis by simp
  qed
next
  case (Cons x xs)
  have ne: "x \<noteq> hd (ys @ [b])" using Cons.prems(3,4) by (cases ys) auto
  have na: "a \<noteq> last (x # xs)" using Cons.prems(2) by (auto simp: last_ConsR split: if_splits)
  have "chain h' x (xs @ ys) b"
    by (rule Cons.IH) (use Cons.prems in auto)
  moreover have "tnext (h' a) = x" using Cons.prems na by auto
  moreover have "tprev (h' x) = a" using Cons.prems ne by auto
  ultimately show ?case by simp
qed


text \<open>Appending: the last cell of a chain gets a new successor.\<close>

lemma chain_retarget:
  assumes "chain h a xs b" and "distinct (a # xs)"
    and "tnext (h' (last (a # xs))) = c" "tprev (h' c) = last (a # xs)"
    and "\<And>x. x \<in> set (a # xs) \<Longrightarrow> x \<noteq> last (a # xs) \<Longrightarrow> tnext (h' x) = tnext (h x)"
    and "\<And>x. x \<in> set xs \<Longrightarrow> tprev (h' x) = tprev (h x)"
  shows "chain h' a xs c"
  using assms
proof (induction xs arbitrary: a)
  case Nil
  then show ?case by simp
next
  case (Cons x xs)
  have "chain h' x xs c" by (rule Cons.IH) (use Cons.prems in auto)
  moreover have "a \<noteq> last (x # xs)"
    using Cons.prems(2) by (auto simp: last_ConsR split: if_splits)
  ultimately show ?case using Cons.prems by auto
qed

subsection \<open>The lists of a wheel\<close>

definition active :: "tw_state \<Rightarrow> addr set" where
  "active s = {p. p \<noteq> sentinel (tiw s) \<and> tslot (tmr s p) \<noteq> ERTS_TW_SLOT_INACTIVE}"

definition is_slot :: "int \<Rightarrow> bool" where
  "is_slot sl \<longleftrightarrow> -1 \<le> sl \<and> sl < 32768"

definition links :: "(int \<Rightarrow> addr list) \<Rightarrow> addr list \<Rightarrow> tw_state \<Rightarrow> bool" where
  "links L S s \<longleftrightarrow>
     (\<forall>sl. is_slot sl \<longrightarrow> circ (tmr s) (tw_w (tiw s) sl) (L sl) \<and> distinct (L sl)) \<and>
     chain (tmr s) (sentinel (tiw s)) S (sentinel (tiw s)) \<and> distinct S \<and>
     (\<forall>sl p. p \<in> set (L sl) \<longrightarrow>
        p \<noteq> sentinel (tiw s) \<and> is_slot sl \<and> tslot (tmr s p) = sl \<and> p \<notin> set S) \<and>
     (\<forall>p \<in> set S. p \<noteq> sentinel (tiw s) \<and> is_slot (tslot (tmr s p))) \<and>
     (\<forall>p \<in> active s. p \<in> set S \<or> p \<in> set (L (tslot (tmr s p))))"

lemma linksD:
  assumes "links L S s"
  shows "is_slot sl \<Longrightarrow> circ (tmr s) (tw_w (tiw s) sl) (L sl)" "is_slot sl \<Longrightarrow> distinct (L sl)"
    and "chain (tmr s) (sentinel (tiw s)) S (sentinel (tiw s))" "distinct S"
    and "p \<in> set (L sl) \<Longrightarrow> p \<noteq> sentinel (tiw s)" "p \<in> set (L sl) \<Longrightarrow> is_slot sl"
    and "p \<in> set (L sl) \<Longrightarrow> tslot (tmr s p) = sl" "p \<in> set (L sl) \<Longrightarrow> p \<notin> set S"
    and "p \<in> set S \<Longrightarrow> p \<noteq> sentinel (tiw s)" "p \<in> set S \<Longrightarrow> is_slot (tslot (tmr s p))"
    and "p \<in> active s \<Longrightarrow> p \<in> set S \<or> p \<in> set (L (tslot (tmr s p)))"
  using assms by (auto simp: links_def)

lemma links_active_slot: "links L S s \<Longrightarrow> p \<in> active s \<Longrightarrow> is_slot (tslot (tmr s p))"
  using linksD(6) [of L S s p "tslot (tmr s p)"] linksD(10) [of L S s p] linksD(11) [of L S s p]
  by blast

lemma links_mem_active:
  assumes "links L S s" and "p \<in> set (L sl) \<or> p \<in> set S"
  shows "p \<in> active s"
proof -
  have "p \<noteq> sentinel (tiw s)" "is_slot (tslot (tmr s p))"
    using assms linksD(5,6,7,9,10) by metis+
  then show ?thesis by (auto simp: active_def is_slot_def)
qed

lemma links_empty_iff:
  assumes "links L S s" "is_slot sl"
  shows "tw_w (tiw s) sl = None \<longleftrightarrow> L sl = []"
  using linksD(1) [OF assms] by (cases "L sl") auto

text \<open>What linking a timer does to the timers, and that it appends to the list of the slot.\<close>

lemma insert_timer_fields [simp]:
  "tslot (tmr (insert_timer_into_slot slot p s) x) = (if x = p then slot else tslot (tmr s x))"
  "timeout_pos (tmr (insert_timer_into_slot slot p s) x) = timeout_pos (tmr s x)"
  "ttimeout (tmr (insert_timer_into_slot slot p s) x) = ttimeout (tmr s x)"
  "targ (tmr (insert_timer_into_slot slot p s) x) = targ (tmr s x)"
  by (auto simp: insert_timer_into_slot_def timer_def wheel_def Let_def split: option.splits)

lemma insert_timer_tiw:
  "tiw (insert_timer_into_slot slot p s) =
     insert_count slot (timeout_pos (tmr s p))
       (case tw_w (tiw s) slot of
          None \<Rightarrow> (tiw s)\<lparr>tw_w := (tw_w (tiw s))(slot := Some p)\<rparr> | Some next \<Rightarrow> tiw s)"
  by (auto simp: insert_timer_into_slot_def timer_def wheel_def Let_def split: option.splits)

lemma insert_count_fields [simp]:
  "tw_w (insert_count slot tpos t) = tw_w t" "sentinel (insert_count slot tpos t) = sentinel t"
  "tw_pos (insert_count slot tpos t) = tw_pos t" "later_pos (insert_count slot tpos t) = later_pos t"
  "tw_nto (insert_count slot tpos t) = tw_nto t" "yield_slot (insert_count slot tpos t) = yield_slot t"
  "next_timeout_pos (insert_count slot tpos t) = next_timeout_pos t"
  "next_timeout_time (insert_count slot tpos t) = next_timeout_time t"
  by (simp_all add: insert_count_def Let_def)

lemma insert_timer_links:
  assumes l: "links L S s" and p: "p \<noteq> sentinel (tiw s)" "p \<notin> active s" and sl: "is_slot slot"
  shows "links (L(slot := L slot @ [p])) S (insert_timer_into_slot slot p s)" (is "links ?L S ?s")
proof -
  have fresh: "p \<notin> set (L sl')" "p \<notin> set S" for sl'
    using links_mem_active [OF l] p(2) by blast+
  have sn [simp]: "sentinel (tiw ?s) = sentinel (tiw s)"
    by (simp add: insert_timer_tiw split: option.splits)
  have nx: "tnext (tmr ?s x) = tnext (tmr s x)" and pv: "tprev (tmr ?s x) = tprev (tmr s x)"
    if "x \<notin> insert p (set (L slot))" for x
    using that linksD(1) [OF l sl] chain_last [of "tmr s" _ "tl (L slot)"]
    by (cases "L slot"; fastforce simp: insert_timer_into_slot_def timer_def wheel_def Let_def
        split: if_splits)+
  have circ: "circ (tmr ?s) (tw_w (tiw ?s) slot) (L slot @ [p])"
  proof (cases "L slot")
    case Nil
    then show ?thesis using linksD(1) [OF l sl]
      by (simp add: insert_timer_into_slot_def timer_def wheel_def Let_def)
  next
    case (Cons y ys)
    then have w: "tw_w (tiw s) slot = Some y" and c: "chain (tmr s) y ys y"
      using linksD(1) [OF l sl] by simp_all
    have d: "distinct (y # ys)" and py: "p \<notin> set (y # ys)"
      using linksD(2) [OF l sl] fresh(1) [of slot] Cons by simp_all
    note la = chain_last [OF c]
    have h: "tnext (tmr ?s x) = (if x = p then y else if x = last (y # ys) then p else tnext (tmr s x))"
      "tprev (tmr ?s x) = (if x = p then last (y # ys) else if x = y then p else tprev (tmr s x))" for x
      using w la py by (auto simp: insert_timer_into_slot_def timer_def wheel_def Let_def)
    have "chain (tmr ?s) y ys p"
      by (rule chain_retarget [OF c d]) (use h py d in auto)
    moreover have "chain (tmr ?s) p [] y" using h py by auto
    ultimately have "chain (tmr ?s) y (ys @ [p]) y" by (simp only: chain_append)
    moreover have "tw_w (tiw ?s) slot = Some y" using w by (simp add: insert_timer_tiw)
    ultimately show ?thesis using Cons by simp
  qed
  have other: "circ (tmr ?s) (tw_w (tiw ?s) sl') (L sl')" if "sl' \<noteq> slot" "is_slot sl'" for sl'
  proof -
    have "x \<notin> insert p (set (L slot))" if "x \<in> set (L sl')" for x
      using that fresh linksD(7) [OF l] \<open>sl' \<noteq> slot\<close> by (metis insertE)
    then have "circ (tmr ?s) (tw_w (tiw s) sl') (L sl')"
      using circ_frame [of "L sl'" "tmr ?s" "tmr s"] nx pv linksD(1) [OF l that(2)] by metis
    moreover have "tw_w (tiw ?s) sl' = tw_w (tiw s) sl'"
      using that by (simp add: insert_timer_tiw split: option.splits)
    ultimately show ?thesis by simp
  qed
  have "chain (tmr ?s) (sentinel (tiw s)) S (sentinel (tiw s))"
  proof -
    have "x \<notin> insert p (set (L slot))" if "x = sentinel (tiw s) \<or> x \<in> set S" for x
      using that fresh p linksD(5,8) [OF l] by (metis insertE)
    then show ?thesis using chain_frame [of _ S "tmr ?s" "tmr s"] nx pv linksD(3) [OF l] by metis
  qed
  moreover have "active ?s = insert p (active s)"
    using p sl by (auto simp: active_def is_slot_def)
  ultimately show ?thesis
    using l circ other fresh p(1) sl linksD(2) [OF l sl]
    unfolding links_def sn by (auto split: if_splits)
qed

text \<open>What unlinking does to the timers, and that it deletes from the list the timer is in.\<close>

lemma remove_timer_fields [simp]:
  "tslot (tmr (remove_timer p s) x) = (if x = p then ERTS_TW_SLOT_INACTIVE else tslot (tmr s x))"
  "timeout_pos (tmr (remove_timer p s) x) = timeout_pos (tmr s x)"
  "ttimeout (tmr (remove_timer p s) x) = ttimeout (tmr s x)"
  "targ (tmr (remove_timer p s) x) = targ (tmr s x)"
  by (auto simp: remove_timer_def timer_def wheel_def Let_def)

lemma remove_count_fields [simp]:
  "tw_w (remove_count slot tpos e t) = tw_w t" "sentinel (remove_count slot tpos e t) = sentinel t"
  "tw_pos (remove_count slot tpos e t) = tw_pos t" "later_pos (remove_count slot tpos e t) = later_pos t"
  "tw_nto (remove_count slot tpos e t) = tw_nto t" "yield_slot (remove_count slot tpos e t) = yield_slot t"
  "next_timeout_pos (remove_count slot tpos e t) = next_timeout_pos t"
  "next_timeout_time (remove_count slot tpos e t) = next_timeout_time t"
  by (simp_all add: remove_count_def Let_def)

lemma remove_timer_alone:
  assumes "tnext (tmr s p) = p"
  shows "tnext (tmr (remove_timer p s) x) = tnext (tmr s x)"
    and "tprev (tmr (remove_timer p s) x) = tprev (tmr s x)"
    and "tiw (remove_timer p s) = remove_count (tslot (tmr s p)) (timeout_pos (tmr s p)) True
           ((tiw s)\<lparr>tw_w := (tw_w (tiw s))(tslot (tmr s p) := None)\<rparr>)"
  using assms by (auto simp: remove_timer_def timer_def wheel_def Let_def)

lemma remove_timer_linked:
  assumes "tnext (tmr s p) \<noteq> p" "tprev (tmr s p) \<noteq> p"
  shows "tnext (tmr (remove_timer p s) x) =
           (if x = tprev (tmr s p) then tnext (tmr s p) else tnext (tmr s x))"
    and "tprev (tmr (remove_timer p s) x) =
           (if x = tnext (tmr s p) then tprev (tmr s p) else tprev (tmr s x))"
    and "tiw (remove_timer p s) = remove_count (tslot (tmr s p)) (timeout_pos (tmr s p)) False
           (if tw_w (tiw s) (tslot (tmr s p)) = Some p
            then (tiw s)\<lparr>tw_w := (tw_w (tiw s))(tslot (tmr s p) := Some (tnext (tmr s p)))\<rparr>
            else tiw s)"
  using assms by (auto simp: remove_timer_def timer_def wheel_def Let_def)

lemma remove_timer_sentinel [simp]: "sentinel (tiw (remove_timer p s)) = sentinel (tiw s)"
  by (simp add: remove_timer_def timer_def wheel_def Let_def)

lemma remove_timer_tiw_ex:
  "\<exists>e w. tiw (remove_timer p s) = remove_count (tslot (tmr s p)) (timeout_pos (tmr s p)) e
     ((tiw s)\<lparr>tw_w := w\<rparr>)"
proof (cases "tnext (tmr s p) = p")
  case True
  then show ?thesis using remove_timer_alone(3) by blast
next
  case False
  then have "tiw (remove_timer p s) = remove_count (tslot (tmr s p)) (timeout_pos (tmr s p)) False
     ((tiw s)\<lparr>tw_w := (if tw_w (tiw s) (tslot (tmr s p)) = Some p
        then (tw_w (tiw s))(tslot (tmr s p) := Some (tnext (tmr s p))) else tw_w (tiw s))\<rparr>)"
    by (simp add: remove_timer_def timer_def wheel_def Let_def)
  then show ?thesis by blast
qed

text \<open>The cells touched are the timer's neighbours.\<close>

lemma remove_timer_frame:
  assumes "x \<noteq> tprev (tmr s p)" "x \<noteq> tnext (tmr s p)" "x \<noteq> p"
  shows "tnext (tmr (remove_timer p s) x) = tnext (tmr s x)"
    and "tprev (tmr (remove_timer p s) x) = tprev (tmr s x)"
  using assms by (auto simp: remove_timer_def timer_def wheel_def Let_def)

lemma remove_timer_slot_circ:
  assumes c: "circ (tmr s) (tw_w (tiw s) sl) (xs @ p # ys)" and d: "distinct (xs @ p # ys)"
    and sl: "tslot (tmr s p) = sl"
  shows "circ (tmr (remove_timer p s)) (tw_w (tiw (remove_timer p s)) sl) (xs @ ys)"
    and "tprev (tmr s p) \<in> set (xs @ p # ys)" "tnext (tmr s p) \<in> set (xs @ p # ys)"
proof -
  have *: "circ (tmr (remove_timer p s)) (tw_w (tiw (remove_timer p s)) sl) (xs @ ys) \<and>
    tprev (tmr s p) \<in> set (xs @ p # ys) \<and> tnext (tmr s p) \<in> set (xs @ p # ys)"
  proof (cases xs)
    case Nil
    then have w: "tw_w (tiw s) sl = Some p" and ch: "chain (tmr s) p ys p" using c by simp_all
    show ?thesis
    proof (cases ys)
      case ys: Nil
      with ch have "tnext (tmr s p) = p" "tprev (tmr s p) = p" by simp_all
      then show ?thesis using Nil ys sl by (simp add: remove_timer_alone)
    next
      case (Cons y zs)
      then have n: "tnext (tmr s p) = y" "tprev (tmr s y) = p" and cy: "chain (tmr s) y zs p"
        using ch by simp_all
      have pv: "tprev (tmr s p) = last (y # zs)" using chain_last [OF cy] .
      have ne: "tnext (tmr s p) \<noteq> p" "tprev (tmr s p) \<noteq> p"
        using n pv d Cons by (auto split: if_splits)
      note h = remove_timer_linked [OF ne]
      have "chain (tmr (remove_timer p s)) y zs y"
        by (rule chain_retarget [OF cy]) (use h n pv d Cons Nil in auto)
      then show ?thesis using Nil Cons h(3) w sl n pv by auto
    qed
  next
    case (Cons x xs')
    then have w: "tw_w (tiw s) sl = Some x" and ch: "chain (tmr s) x xs' p" "chain (tmr s) p ys x"
      using c by (simp_all add: chain_append)
    have pv: "tprev (tmr s p) = last (x # xs')" using chain_last [OF ch(1)] .
    have nx: "tnext (tmr s p) = hd (ys @ [x])" using chain_first [OF ch(2)] .
    have mem: "tprev (tmr s p) \<in> set (xs @ p # ys)" "tnext (tmr s p) \<in> set (xs @ p # ys)"
      using pv nx Cons by (auto simp: hd_append)
    have ne: "tnext (tmr s p) \<noteq> p" "tprev (tmr s p) \<noteq> p"
      using pv nx d Cons by (auto simp: hd_append split: if_splits)
    note h = remove_timer_linked [OF ne]
    have "chain (tmr (remove_timer p s)) x (xs' @ ys) x"
      by (rule chain_join [OF ch]) (use h pv nx d Cons in auto)
    then show ?thesis using h(3) w sl Cons mem d by auto
  qed
  then show "circ (tmr (remove_timer p s)) (tw_w (tiw (remove_timer p s)) sl) (xs @ ys)"
    and "tprev (tmr s p) \<in> set (xs @ p # ys)" "tnext (tmr s p) \<in> set (xs @ p # ys)" by simp_all
qed

lemma remove_timer_sentinel_chain:
  assumes c: "chain (tmr s) sn (xs @ p # ys) sn" and d: "distinct (xs @ p # ys)"
    and sn: "sn \<notin> set (xs @ p # ys)" and w: "tw_w (tiw s) (tslot (tmr s p)) \<noteq> Some p"
  shows "chain (tmr (remove_timer p s)) sn (xs @ ys) sn"
    and "tprev (tmr s p) \<in> insert sn (set (xs @ p # ys))"
    and "tnext (tmr s p) \<in> insert sn (set (xs @ p # ys))"
    and "tw_w (tiw (remove_timer p s)) = tw_w (tiw s)"
proof -
  have ch: "chain (tmr s) sn xs p" "chain (tmr s) p ys sn" using c by (simp_all add: chain_append)
  have pv: "tprev (tmr s p) = last (sn # xs)" using chain_last [OF ch(1)] .
  have nx: "tnext (tmr s p) = hd (ys @ [sn])" using chain_first [OF ch(2)] .
  show mem: "tprev (tmr s p) \<in> insert sn (set (xs @ p # ys))"
    "tnext (tmr s p) \<in> insert sn (set (xs @ p # ys))"
    using pv nx by (auto simp: hd_append)
  have ne: "tnext (tmr s p) \<noteq> p" "tprev (tmr s p) \<noteq> p"
    using pv nx d sn by (auto simp: hd_append split: if_splits)
  note h = remove_timer_linked [OF ne]
  show "chain (tmr (remove_timer p s)) sn (xs @ ys) sn"
    by (rule chain_join [OF ch]) (use h pv nx d sn in auto)
  show "tw_w (tiw (remove_timer p s)) = tw_w (tiw s)" using h(3) w by simp
qed

lemma remove1_split: "distinct (xs @ p # ys) \<Longrightarrow> remove1 p (xs @ p # ys) = xs @ ys"
  by (simp add: remove1_append)

lemma links_distinct: "links L S s \<Longrightarrow> distinct (L sl)"
  using linksD(2,6) [of L S s] by (metis distinct.simps(1) list.set_intros(1) neq_Nil_conv)

lemma links_removeI:
  assumes l: "links L S s"
    and 1: "\<And>sl. is_slot sl \<Longrightarrow>
      circ (tmr (remove_timer p s)) (tw_w (tiw (remove_timer p s)) sl) (remove1 p (L sl))"
    and 2: "chain (tmr (remove_timer p s)) (sentinel (tiw s)) (remove1 p S) (sentinel (tiw s))"
  shows "links (\<lambda>sl. remove1 p (L sl)) (remove1 p S) (remove_timer p s)"
proof -
  have a: "active (remove_timer p s) = active s - {p}" by (auto simp: active_def)
  have sL: "set (remove1 p (L sl)) = set (L sl) - {p}" for sl
    by (rule set_remove1_eq) (rule links_distinct [OF l])
  have sS: "set (remove1 p S) = set S - {p}"
    by (rule set_remove1_eq) (rule linksD(4) [OF l])
  have "x \<in> set S - {p} \<or> x \<in> set (L (tslot (tmr (remove_timer p s) x))) - {p}"
    if "x \<in> active s - {p}" for x using linksD(11) [OF l, of x] that by auto
  moreover have "x \<noteq> sentinel (tiw s) \<and> is_slot sl \<and> tslot (tmr (remove_timer p s) x) = sl
      \<and> x \<notin> set S - {p}" if "x \<in> set (L sl) - {p}" for x sl
    using linksD(5-8) [OF l, of x sl] that by simp
  moreover have "x \<noteq> sentinel (tiw s) \<and> is_slot (tslot (tmr (remove_timer p s) x))"
    if "x \<in> set S - {p}" for x using linksD(9,10) [OF l, of x] that by simp
  ultimately show ?thesis
    unfolding links_def remove_timer_sentinel a sL sS
    using 1 2 distinct_remove1 [OF links_distinct [OF l]] distinct_remove1 [OF linksD(4) [OF l]]
    by blast
qed

lemma remove_timer_slot_links:
  assumes l: "links L S s" and p: "p \<in> set (L sl)"
  shows "links (\<lambda>sl. remove1 p (L sl)) (remove1 p S) (remove_timer p s)" (is "links ?L ?S ?s")
proof -
  have sl: "is_slot sl" "tslot (tmr s p) = sl" "p \<notin> set S" using linksD(6,7,8) [OF l p] .
  obtain xs ys where L: "L sl = xs @ p # ys" using p by (meson split_list)
  have d: "distinct (xs @ p # ys)" using linksD(2) [OF l sl(1)] L by simp
  note c = linksD(1) [OF l sl(1), unfolded L]
  note r = remove_timer_slot_circ [OF c d sl(2)]
  have other: "p \<notin> set (L sl')" if "sl' \<noteq> sl" for sl' using that linksD(7) [OF l] sl(2) by metis
  have frame: "tnext (tmr ?s x) = tnext (tmr s x)" "tprev (tmr ?s x) = tprev (tmr s x)"
    if "x \<notin> set (L sl)" for x
    using remove_timer_frame [of x s p] r(2,3) that p L by metis+
  have w: "tw_w (tiw ?s) sl' = tw_w (tiw s) sl'" if "sl' \<noteq> sl" for sl'
    using that sl(2) by (auto simp: remove_timer_def timer_def wheel_def Let_def)
  have 1: "circ (tmr ?s) (tw_w (tiw ?s) sl') (?L sl')" if "is_slot sl'" for sl'
  proof (cases "sl' = sl")
    case True
    then show ?thesis using r(1) L remove1_split [OF d] by simp
  next
    case False
    have "x \<notin> set (L sl)" if "x \<in> set (L sl')" for x using that False linksD(7) [OF l] by metis
    then have "circ (tmr ?s) (tw_w (tiw s) sl') (L sl')"
      using circ_frame [of "L sl'" "tmr ?s" "tmr s"] frame linksD(1) [OF l that] by metis
    then show ?thesis using w [OF False] other [OF False] by (simp add: remove1_idem)
  qed
  have 2: "chain (tmr ?s) (sentinel (tiw s)) ?S (sentinel (tiw s))"
  proof -
    have "x \<notin> set (L sl)" if "x = sentinel (tiw s) \<or> x \<in> set S" for x
      using that linksD(5,8) [OF l] by metis
    then have "chain (tmr ?s) (sentinel (tiw s)) S (sentinel (tiw s))"
      using chain_frame [of _ S "tmr ?s" "tmr s"] frame linksD(3) [OF l] by metis
    then show ?thesis using sl(3) by (simp add: remove1_idem)
  qed
  from 1 2 show ?thesis by (rule links_removeI [OF l])
qed

lemma remove_timer_sentinel_links:
  assumes l: "links L S s" and p: "p \<in> set S"
  shows "links (\<lambda>sl. remove1 p (L sl)) (remove1 p S) (remove_timer p s)" (is "links ?L ?S ?s")
proof (rule links_removeI [OF l])
  let ?sn = "sentinel (tiw s)"
  obtain xs ys where S: "S = xs @ p # ys" using p by (meson split_list)
  have d: "distinct (xs @ p # ys)" using linksD(4) [OF l] S by simp
  have sn: "?sn \<notin> set (xs @ p # ys)" using linksD(9) [OF l] S by blast
  have notL: "p \<notin> set (L sl)" for sl using linksD(8) [OF l] p by blast
  have "circ (tmr s) (tw_w (tiw s) (tslot (tmr s p))) (L (tslot (tmr s p)))"
    by (rule linksD(1) [OF l linksD(10) [OF l p]])
  then have w: "tw_w (tiw s) (tslot (tmr s p)) \<noteq> Some p"
    using notL [of "tslot (tmr s p)"] by (cases "L (tslot (tmr s p))") auto
  note r = remove_timer_sentinel_chain [OF linksD(3) [OF l, unfolded S] d sn w]
  show "chain (tmr ?s) ?sn ?S ?sn" using r(1) S remove1_split [OF d] by simp
  fix sl assume sl: "is_slot sl"
  have "x \<notin> insert ?sn (set S)" if "x \<in> set (L sl)" for x
    using that linksD(5,8) [OF l] by (metis insertE)
  then have "tnext (tmr ?s x) = tnext (tmr s x)" "tprev (tmr ?s x) = tprev (tmr s x)"
    if "x \<in> set (L sl)" for x
    using remove_timer_frame [of x s p] r(2,3) that p S by (metis insertCI)+
  then have "circ (tmr ?s) (tw_w (tiw s) sl) (L sl)"
    using circ_frame [of "L sl" "tmr ?s" "tmr s"] linksD(1) [OF l sl] by metis
  then show "circ (tmr ?s) (tw_w (tiw ?s) sl) (remove1 p (L sl))"
    using r(4) notL by (simp add: remove1_idem)
qed

lemma remove_timer_links:
  assumes "links L S s" and "p \<in> active s"
  shows "links (\<lambda>sl. remove1 p (L sl)) (remove1 p S) (remove_timer p s)"
  using linksD(11) [OF assms] remove_timer_slot_links [OF assms(1)]
    remove_timer_sentinel_links [OF assms(1)] by blast

subsection \<open>The counters\<close>

definition cnt :: "tw_state \<Rightarrow> (int \<Rightarrow> bool) \<Rightarrow> nat" where
  "cnt s P = card {p \<in> active s. P (tslot (tmr s p))}"

definition in_soon :: "int \<Rightarrow> bool" where "in_soon sl \<longleftrightarrow> 0 \<le> sl \<and> sl < 16384"

definition in_later :: "int \<Rightarrow> bool" where "in_later sl \<longleftrightarrow> 16384 \<le> sl"

definition in_range :: "int \<Rightarrow> int \<Rightarrow> bool" where
  "in_range ix sl \<longleftrightarrow> 0 \<le> sl \<and> sl div 512 = ix"

definition wheel_counts :: "tw_state \<Rightarrow> bool" where
  "wheel_counts s \<longleftrightarrow>
     at_once_nto (tiw s) = of_nat (cnt s (\<lambda>sl. sl = -1)) \<and>
     soon_nto (tiw s) = of_nat (cnt s in_soon) \<and>
     later_nto (tiw s) = of_nat (cnt s in_later) \<and>
     (\<forall>ix. 0 \<le> ix \<and> ix < 64 \<longrightarrow> tw_scnt (tiw s) ix = int (cnt s (in_range ix)))"

definition counts :: "tw_state \<Rightarrow> bool" where
  "counts s \<longleftrightarrow> finite (active s) \<and> card (active s) < 2 ^ 64 \<and>
     tw_nto (tiw s) = of_nat (card (active s)) \<and> wheel_counts s"

lemma cnt_insert:
  assumes "finite (active s)" "p \<notin> active s" "active s' = insert p (active s)"
    and "tslot (tmr s' p) = sl" "\<And>x. x \<noteq> p \<Longrightarrow> tslot (tmr s' x) = tslot (tmr s x)"
  shows "cnt s' P = cnt s P + (if P sl then 1 else 0)"
proof -
  let ?A = "{x \<in> active s. P (tslot (tmr s x))}"
  have "P (tslot (tmr s' x)) = P (tslot (tmr s x))" if "x \<in> active s" for x
    using assms(2,5) that by metis
  then have "{x \<in> active s'. P (tslot (tmr s' x))} = (if P sl then insert p ?A else ?A)"
    using assms(3,4) by auto
  moreover have "finite ?A" "p \<notin> ?A" using assms(1,2) by auto
  ultimately show ?thesis by (simp add: cnt_def)
qed

lemma cnt_remove:
  assumes "finite (active s)" "p \<in> active s" "active s' = active s - {p}"
    and "tslot (tmr s p) = sl" "\<And>x. x \<noteq> p \<Longrightarrow> tslot (tmr s' x) = tslot (tmr s x)"
  shows "cnt s P = cnt s' P + (if P sl then 1 else 0)"
proof -
  let ?A = "{x \<in> active s'. P (tslot (tmr s' x))}"
  have "P (tslot (tmr s' x)) = P (tslot (tmr s x))" if "x \<noteq> p" for x
    using assms(5) that by metis
  then have "{x \<in> active s. P (tslot (tmr s x))} = (if P sl then insert p ?A else ?A)"
    using assms(2-4) by auto
  moreover have "finite ?A" "p \<notin> ?A" using assms(1,3) by auto
  ultimately show ?thesis by (simp add: cnt_def)
qed

lemma slot_cases:
  assumes "is_slot sl"
  obtains "sl = -1" | "in_soon sl" | "in_later sl"
  using assms unfolding is_slot_def in_soon_def in_later_def by linarith

lemma insert_count_counts:
  assumes "is_slot slot"
  shows "at_once_nto (insert_count slot tpos t) = at_once_nto t + (if slot = -1 then 1 else 0)"
    and "soon_nto (insert_count slot tpos t) = soon_nto t + (if in_soon slot then 1 else 0)"
    and "later_nto (insert_count slot tpos t) = later_nto t + (if in_later slot then 1 else 0)"
    and "tw_scnt (insert_count slot tpos t) ix = tw_scnt t ix + (if in_range ix slot then 1 else 0)"
  using assms by (auto simp: insert_count_def Let_def in_soon_def in_later_def in_range_def
      scnt_inc_def scnt_ix is_slot_def)

lemma remove_count_counts:
  assumes "is_slot slot"
  shows "at_once_nto (remove_count slot tpos e t) = at_once_nto t - (if slot = -1 then 1 else 0)"
    and "soon_nto (remove_count slot tpos e t) = soon_nto t - (if in_soon slot then 1 else 0)"
    and "later_nto (remove_count slot tpos e t) = later_nto t - (if in_later slot then 1 else 0)"
    and "tw_scnt (remove_count slot tpos e t) ix = tw_scnt t ix - (if in_range ix slot then 1 else 0)"
  by (rule slot_cases [OF assms]; simp add: remove_count_def Let_def in_soon_def in_later_def
      in_range_def scnt_dec_def scnt_ix)+

lemma insert_timer_active:
  assumes "p \<noteq> sentinel (tiw s)" "is_slot slot"
  shows "active (insert_timer_into_slot slot p s) = insert p (active s)"
proof -
  have "sentinel (tiw (insert_timer_into_slot slot p s)) = sentinel (tiw s)"
    by (simp add: insert_timer_tiw split: option.splits)
  then show ?thesis using assms by (auto simp: active_def is_slot_def)
qed

lemma insert_timer_counts:
  assumes c: "wheel_counts s" "finite (active s)"
    and p: "p \<noteq> sentinel (tiw s)" "p \<notin> active s" and sl: "is_slot slot"
  shows "wheel_counts (insert_timer_into_slot slot p s)" (is "wheel_counts ?s")
proof -
  have n: "cnt ?s P = cnt s P + (if P slot then 1 else 0)" for P
    by (rule cnt_insert [OF c(2) p(2) insert_timer_active [OF p(1) sl]]) simp_all
  have "\<exists>w. tiw ?s = insert_count slot (timeout_pos (tmr s p)) ((tiw s)\<lparr>tw_w := w\<rparr>)"
  proof (cases "tw_w (tiw s) slot")
    case None
    then show ?thesis unfolding insert_timer_tiw by auto
  next
    case (Some a)
    have "tiw s = (tiw s)\<lparr>tw_w := tw_w (tiw s)\<rparr>" by simp
    then show ?thesis unfolding insert_timer_tiw Some by (metis option.simps(5))
  qed
  then obtain w where "tiw ?s = insert_count slot (timeout_pos (tmr s p)) ((tiw s)\<lparr>tw_w := w\<rparr>)" ..
  then show ?thesis
    using c(1) by (simp add: wheel_counts_def n insert_count_counts [OF sl])
qed

lemma remove_timer_active: "active (remove_timer p s) = active s - {p}"
  by (auto simp: active_def)

lemma remove_timer_counts:
  assumes c: "wheel_counts s" "finite (active s)" and p: "p \<in> active s"
    and sl: "is_slot (tslot (tmr s p))"
  shows "wheel_counts (remove_timer p s)" (is "wheel_counts ?s")
proof -
  have n: "cnt s P = cnt ?s P + (if P (tslot (tmr s p)) then 1 else 0)" for P
    by (rule cnt_remove [OF c(2) p remove_timer_active refl]) simp
  obtain e w where "tiw ?s = remove_count (tslot (tmr s p)) (timeout_pos (tmr s p)) e
     ((tiw s)\<lparr>tw_w := w\<rparr>)" using remove_timer_tiw_ex by blast
  then show ?thesis
    using c(1) by (simp add: wheel_counts_def n remove_count_counts [OF sl])
qed

subsection \<open>Where timers are, and the invariant\<close>

text \<open>
  The tick at which the wheel has to be looked at because of a timer: its timeout, or one later slot
  before the start of its slot when it still has to be moved to the soon wheel.
\<close>

definition due :: "ErtsTWheelTimer \<Rightarrow> int" where
  "due m = (if in_later (tslot m)
            then (timeout_pos m AND ERTS_TW_LATER_WHEEL_POS_MASK) - ERTS_TW_LATER_WHEEL_SLOT_SIZE
            else timeout_pos m)"

definition placed :: "ErtsTimerWheel \<Rightarrow> ErtsTWheelTimer \<Rightarrow> bool" where
  "placed t m \<longleftrightarrow>
     (tslot m = -1 \<longrightarrow> timeout_pos m \<le> tw_pos t) \<and>
     (in_soon (tslot m) \<longrightarrow> soon_slot (timeout_pos m) = tslot m \<and> tw_pos t < timeout_pos m \<and>
        timeout_pos m < tw_pos t + ERTS_TW_SOON_WHEEL_SIZE \<and> soon_min_tpos t \<le> timeout_pos m) \<and>
     (in_later (tslot m) \<longrightarrow> later_slot (timeout_pos m) = tslot m \<and>
        later_pos t \<le> timeout_pos m \<and> later_min_tpos t \<le> timeout_pos m)"

definition aligned :: "ErtsTimerWheel \<Rightarrow> bool" where
  "aligned t \<longleftrightarrow> later_pos t mod 8192 = 0 \<and>
     tw_pos t + ERTS_TW_LATER_WHEEL_SLOT_SIZE < later_pos t \<and>
     later_pos t \<le> tw_pos t + ERTS_TW_SOON_WHEEL_SIZE \<and>
     next_timeout_time t = ERTS_CLKTCKS_TO_MONOTONIC (next_timeout_pos t)"

definition tw_inv :: "tw_state \<Rightarrow> bool" where
  "tw_inv s \<longleftrightarrow>
     (\<exists>L. links L [] s) \<and> counts s \<and> aligned (tiw s) \<and>
     yield_slot (tiw s) = ERTS_TW_SLOT_INACTIVE \<and>
     (\<forall>p \<in> active s. placed (tiw s) (tmr s p) \<and> next_timeout_pos (tiw s) \<le> due (tmr s p))"

subsection \<open>Arming, setting and cancelling\<close>

lemmas env_defs = wheel_def timer_def stat_def erts_get_monotonic_time_def wheel_settime_def

text \<open>The fields of the wheel that the lists, counters and positions are about.\<close>

definition same_wheel :: "ErtsTimerWheel \<Rightarrow> ErtsTimerWheel \<Rightarrow> bool" where
  "same_wheel t t' \<longleftrightarrow>
     tw_w t' = tw_w t \<and> tw_scnt t' = tw_scnt t \<and> tw_pos t' = tw_pos t \<and> tw_nto t' = tw_nto t \<and>
     at_once_nto t' = at_once_nto t \<and> soon_nto t' = soon_nto t \<and> later_nto t' = later_nto t \<and>
     soon_min_tpos t' = soon_min_tpos t \<and> later_min_tpos t' = later_min_tpos t \<and>
     later_pos t' = later_pos t \<and> yield_slot t' = yield_slot t \<and> sentinel t' = sentinel t"

lemma pon_timer_wheel_arm_frame [simp]:
  shows "tmr (pon_timer_wheel_arm s) = tmr s"
    and "next_timeout_pos (tiw (pon_timer_wheel_arm s)) = next_timeout_pos (tiw s)"
    and "next_timeout_time (tiw (pon_timer_wheel_arm s)) = next_timeout_time (tiw s)"
    and "true_next_timeout_time (tiw (pon_timer_wheel_arm s)) = true_next_timeout_time (tiw s)"
    and "same_wheel (tiw s) (tiw (pon_timer_wheel_arm s))"
  by (simp_all add: pon_timer_wheel_arm_def pon_timer_wheel_open_def env_defs Let_def split_beta
      same_wheel_def)

lemma links_cong:
  assumes "\<And>x. tslot (tmr s' x) = tslot (tmr s x)" "\<And>x. tnext (tmr s' x) = tnext (tmr s x)"
    "\<And>x. tprev (tmr s' x) = tprev (tmr s x)"
    and "tw_w (tiw s') = tw_w (tiw s)" "sentinel (tiw s') = sentinel (tiw s)"
  shows "links L S s' \<longleftrightarrow> links L S s"
proof -
  have "circ (tmr s') q xs = circ (tmr s) q xs" for q xs by (rule circ_frame) (simp_all add: assms)
  moreover have "chain (tmr s') a xs b = chain (tmr s) a xs b" for a xs b
    by (rule chain_frame) (simp_all add: assms)
  ultimately show ?thesis by (simp add: links_def active_def assms)
qed

lemma active_cong:
  assumes "\<And>x. tslot (tmr s' x) = tslot (tmr s x)" "sentinel (tiw s') = sentinel (tiw s)"
  shows "active s' = active s" "cnt s' P = cnt s P"
  by (simp_all add: active_def cnt_def assms)

lemma tw_inv_frame:
  assumes "tw_inv s" "tmr s' = tmr s" "same_wheel (tiw s) (tiw s')"
    and "next_timeout_pos (tiw s') = next_timeout_pos (tiw s)"
    and "next_timeout_time (tiw s') = next_timeout_time (tiw s)"
  shows "tw_inv s'" "active s' = active s"
proof -
  note w = assms(3) [unfolded same_wheel_def]
  show a: "active s' = active s"
    using active_cong [of s' s] assms(2) w by auto
  have "cnt s' P = cnt s P" for P using active_cong [of s' s] assms(2) w by auto
  moreover have "links L [] s' = links L [] s" for L by (rule links_cong) (simp_all add: assms w)
  ultimately show "tw_inv s'" using assms(1)
    by (simp add: tw_inv_def counts_def wheel_counts_def aligned_def placed_def a assms w)
qed

text \<open>\<open>set_prepare\<close> and \<open>set_next\<close> are what \<open>erts_twheel_set_timer\<close> does before and after linking.\<close>

definition set_prepare :: "addr \<Rightarrow> addr \<Rightarrow> addr \<Rightarrow> int \<Rightarrow> tw_state \<Rightarrow> tw_state" where
  "set_prepare p timeout arg tpos0 s =
     (let s = timer p (\<lambda>t. t\<lparr>ttimeout := timeout, targ := arg\<rparr>) s;
          s = wheel (\<lambda>t. t\<lparr>tw_nto := tw_nto t + 1\<rparr>) s;
          cpos = tw_pos (tiw s);
          s = timer p (\<lambda>t. t\<lparr>timeout_pos := (if tpos0 \<le> cpos then cpos else tpos0)\<rparr>) s
      in if cpos < tpos0 \<and> tpos0 < cpos + ERTS_TW_SOON_WHEEL_SIZE \<and> soon_min_tpos (tiw s) > tpos0
         then wheel (\<lambda>t. t\<lparr>soon_min_tpos := tpos0\<rparr>) s else s)"

definition set_next :: "int \<Rightarrow> tw_state \<Rightarrow> tw_state" where
  "set_next tpos s =
     (if tpos \<le> next_timeout_pos (tiw s) then
        (let s = wheel (\<lambda>t. t\<lparr>true_next_timeout_time := True\<rparr>) s in
         if tpos < next_timeout_pos (tiw s) then
           pon_timer_wheel_arm
             (wheel (\<lambda>t. t\<lparr>next_timeout_pos := tpos,
                           next_timeout_time := ERTS_CLKTCKS_TO_MONOTONIC tpos\<rparr>) s)
         else s)
      else s)"

lemma set_timer_steps:
  "erts_twheel_set_timer p timeout arg tpos s =
     set_next (snd (calculate_slot (tw_pos (tiw s)) tpos))
       (insert_timer_into_slot (fst (calculate_slot (tw_pos (tiw s)) tpos)) p
          (set_prepare p timeout arg tpos s))"
proof -
  have pos: "tw_pos (tiw (wheel (\<lambda>t. t\<lparr>tw_nto := tw_nto t + 1\<rparr>) (timer p f s))) = tw_pos (tiw s)" for f
    by (simp add: wheel_def timer_def)
  show ?thesis
    unfolding erts_twheel_set_timer_def set_next_def set_prepare_def Let_def split_beta pos
    by (rule refl)
qed

lemma set_prepare_fields [simp]:
  "tslot (tmr (set_prepare p timeout arg tpos s) x) = tslot (tmr s x)"
  "tnext (tmr (set_prepare p timeout arg tpos s) x) = tnext (tmr s x)"
  "tprev (tmr (set_prepare p timeout arg tpos s) x) = tprev (tmr s x)"
  "timeout_pos (tmr (set_prepare p timeout arg tpos s) x) =
     (if x = p then max tpos (tw_pos (tiw s)) else timeout_pos (tmr s x))"
  "tw_w (tiw (set_prepare p timeout arg tpos s)) = tw_w (tiw s)"
  "tw_pos (tiw (set_prepare p timeout arg tpos s)) = tw_pos (tiw s)"
  "sentinel (tiw (set_prepare p timeout arg tpos s)) = sentinel (tiw s)"
  "later_pos (tiw (set_prepare p timeout arg tpos s)) = later_pos (tiw s)"
  "later_min_tpos (tiw (set_prepare p timeout arg tpos s)) = later_min_tpos (tiw s)"
  "next_timeout_pos (tiw (set_prepare p timeout arg tpos s)) = next_timeout_pos (tiw s)"
  "next_timeout_time (tiw (set_prepare p timeout arg tpos s)) = next_timeout_time (tiw s)"
  "yield_slot (tiw (set_prepare p timeout arg tpos s)) = yield_slot (tiw s)"
  "tw_nto (tiw (set_prepare p timeout arg tpos s)) = tw_nto (tiw s) + 1"
  "tw_scnt (tiw (set_prepare p timeout arg tpos s)) = tw_scnt (tiw s)"
  "at_once_nto (tiw (set_prepare p timeout arg tpos s)) = at_once_nto (tiw s)"
  "soon_nto (tiw (set_prepare p timeout arg tpos s)) = soon_nto (tiw s)"
  "later_nto (tiw (set_prepare p timeout arg tpos s)) = later_nto (tiw s)"
  "soon_min_tpos (tiw (set_prepare p timeout arg tpos s)) \<le> soon_min_tpos (tiw s)"
  by (simp_all add: set_prepare_def Let_def timer_def wheel_def)

lemma set_next_frame [simp]:
  shows "tmr (set_next tpos s) = tmr s"
    and "same_wheel (tiw s) (tiw (set_next tpos s))"
    and "next_timeout_pos (tiw (set_next tpos s)) = min tpos (next_timeout_pos (tiw s))"
    and "next_timeout_time (tiw (set_next tpos s)) =
           (if tpos < next_timeout_pos (tiw s) then ERTS_CLKTCKS_TO_MONOTONIC tpos
            else next_timeout_time (tiw s))"
proof -
  show "tmr (set_next tpos s) = tmr s" by (simp add: set_next_def Let_def wheel_def)
  show "same_wheel (tiw s) (tiw (set_next tpos s))"
    using pon_timer_wheel_arm_frame(5)
    by (simp add: set_next_def Let_def wheel_def same_wheel_def)
  show "next_timeout_pos (tiw (set_next tpos s)) = min tpos (next_timeout_pos (tiw s))"
    by (simp add: set_next_def Let_def wheel_def)
  show "next_timeout_time (tiw (set_next tpos s)) =
           (if tpos < next_timeout_pos (tiw s) then ERTS_CLKTCKS_TO_MONOTONIC tpos
            else next_timeout_time (tiw s))"
    by (simp add: set_next_def Let_def wheel_def)
qed

lemma calculate_slot_is_slot: "is_slot (fst (calculate_slot cpos tpos))"
  by (simp add: calculate_slot_def is_slot_def soon_slot_mod later_slot_mod
      pos_mod_bound [THEN order.strict_trans2] add.commute)
   (smt (verit) pos_mod_bound pos_mod_sign)

text \<open>The slot chosen for a timer places it correctly, and the second result is when it is due.\<close>

lemma calculate_slot_placed:
  assumes "aligned t" "tslot m = fst (calculate_slot (tw_pos t) tpos)"
    and "timeout_pos m = max tpos (tw_pos t)"
    and "soon_min_tpos t \<le> timeout_pos m \<or> \<not> in_soon (tslot m)"
    and "later_min_tpos t \<le> timeout_pos m \<or> \<not> in_later (tslot m)"
  shows "placed t m" "snd (calculate_slot (tw_pos t) tpos) = due m"
proof -
  have soon: "0 \<le> soon_slot x" "soon_slot x < 16384" for x by (simp_all add: soon_slot_mod)
  have later: "16384 \<le> later_slot x" for x by (simp add: later_slot_mod)
  consider "tpos \<le> tw_pos t" | "tw_pos t < tpos" "tpos < tw_pos t + 16384" | "tw_pos t + 16384 \<le> tpos"
    by linarith
  then have "placed t m \<and> snd (calculate_slot (tw_pos t) tpos) = due m"
  proof cases
    case 1
    with assms(2,3) show ?thesis
      by (simp add: calculate_slot_def placed_def due_def in_soon_def in_later_def)
  next
    case 2
    with assms(2,3,4) soon [of tpos] show ?thesis
      by (auto simp: calculate_slot_def placed_def due_def in_soon_def in_later_def)
  next
    case 3
    with assms(1,2,3,5) later [of tpos] show ?thesis
      by (auto simp: calculate_slot_def placed_def due_def in_soon_def in_later_def aligned_def)
  qed
  then show "placed t m" "snd (calculate_slot (tw_pos t) tpos) = due m" by simp_all
qed

lemma insert_count_min:
  assumes "is_slot slot"
  shows "soon_min_tpos (insert_count slot tpos t) =
           (if in_soon slot then min tpos (soon_min_tpos t) else soon_min_tpos t)"
    and "later_min_tpos (insert_count slot tpos t) =
           (if in_later slot then min tpos (later_min_tpos t) else later_min_tpos t)"
  using assms by (auto simp: insert_count_def Let_def in_soon_def in_later_def is_slot_def)

lemma placed_mono:
  assumes "placed t m" "tw_pos t' = tw_pos t" "later_pos t' = later_pos t"
    and "in_soon (tslot m) \<Longrightarrow> soon_min_tpos t' \<le> soon_min_tpos t"
    and "in_later (tslot m) \<Longrightarrow> later_min_tpos t' \<le> later_min_tpos t"
  shows "placed t' m"
  using assms by (auto simp: placed_def)

lemma insert_timer_sel:
  "sentinel (tiw (insert_timer_into_slot slot p s)) = sentinel (tiw s)"
  "tw_pos (tiw (insert_timer_into_slot slot p s)) = tw_pos (tiw s)"
  "later_pos (tiw (insert_timer_into_slot slot p s)) = later_pos (tiw s)"
  "tw_nto (tiw (insert_timer_into_slot slot p s)) = tw_nto (tiw s)"
  "yield_slot (tiw (insert_timer_into_slot slot p s)) = yield_slot (tiw s)"
  "next_timeout_pos (tiw (insert_timer_into_slot slot p s)) = next_timeout_pos (tiw s)"
  "next_timeout_time (tiw (insert_timer_into_slot slot p s)) = next_timeout_time (tiw s)"
  "is_slot slot \<Longrightarrow> soon_min_tpos (tiw (insert_timer_into_slot slot p s)) =
     (if in_soon slot then min (timeout_pos (tmr s p)) (soon_min_tpos (tiw s))
      else soon_min_tpos (tiw s))"
  "is_slot slot \<Longrightarrow> later_min_tpos (tiw (insert_timer_into_slot slot p s)) =
     (if in_later slot then min (timeout_pos (tmr s p)) (later_min_tpos (tiw s))
      else later_min_tpos (tiw s))"
  by (simp_all add: insert_timer_tiw insert_count_min split: option.splits)

lemma links_same:
  assumes "tmr s' = tmr s" "same_wheel (tiw s) (tiw s')"
  shows "links L S s' = links L S s"
  by (rule links_cong) (use assms in \<open>simp_all add: same_wheel_def\<close>)

lemma set_timer_fields:
  assumes "p \<noteq> sentinel (tiw s)"
  shows "tslot (tmr (erts_twheel_set_timer p timeout arg tpos s) x) =
           (if x = p then fst (calculate_slot (tw_pos (tiw s)) tpos) else tslot (tmr s x))"
    and "timeout_pos (tmr (erts_twheel_set_timer p timeout arg tpos s) x) =
           (if x = p then max tpos (tw_pos (tiw s)) else timeout_pos (tmr s x))"
    and "active (erts_twheel_set_timer p timeout arg tpos s) = insert p (active s)"
    and "tw_pos (tiw (erts_twheel_set_timer p timeout arg tpos s)) = tw_pos (tiw s)"
    and "sentinel (tiw (erts_twheel_set_timer p timeout arg tpos s)) = sentinel (tiw s)"
proof -
  let ?s = "erts_twheel_set_timer p timeout arg tpos s"
  have w: "same_wheel (tiw (insert_timer_into_slot (fst (calculate_slot (tw_pos (tiw s)) tpos)) p
     (set_prepare p timeout arg tpos s))) (tiw ?s)" by (simp add: set_timer_steps)
  then show sn: "sentinel (tiw ?s) = sentinel (tiw s)" and "tw_pos (tiw ?s) = tw_pos (tiw s)"
    by (simp_all add: same_wheel_def insert_timer_sel)
  show 1: "tslot (tmr ?s x) =
      (if x = p then fst (calculate_slot (tw_pos (tiw s)) tpos) else tslot (tmr s x))" for x
    by (simp add: set_timer_steps)
  show "timeout_pos (tmr ?s x) = (if x = p then max tpos (tw_pos (tiw s)) else timeout_pos (tmr s x))"
    by (simp add: set_timer_steps)
  have "fst (calculate_slot (tw_pos (tiw s)) tpos) \<noteq> -2"
    using calculate_slot_is_slot [of "tw_pos (tiw s)" tpos] by (auto simp: is_slot_def)
  then show "active ?s = insert p (active s)"
    using assms by (auto simp: active_def 1 sn)
qed

lemma set_timer_inv:
  assumes inv: "tw_inv s" and p: "p \<noteq> sentinel (tiw s)" "p \<notin> active s"
    and room: "card (active s) + 1 < 2 ^ 64"
  shows "tw_inv (erts_twheel_set_timer p timeout arg tpos s)" (is "tw_inv ?s'")
proof -
  define slot where "slot = fst (calculate_slot (tw_pos (tiw s)) tpos)"
  define s1 where "s1 = set_prepare p timeout arg tpos s"
  define s2 where "s2 = insert_timer_into_slot slot p s1"
  have s': "?s' = set_next (snd (calculate_slot (tw_pos (tiw s)) tpos)) s2"
    by (simp add: set_timer_steps s2_def s1_def slot_def)
  have same: "same_wheel (tiw s2) (tiw ?s')" "tmr ?s' = tmr s2" by (simp_all add: s')
  have sl: "is_slot slot" unfolding slot_def by (rule calculate_slot_is_slot)
  obtain L where L: "links L [] s" using inv by (auto simp: tw_inv_def)
  have al: "aligned (tiw s)" and cn: "counts s" and fin: "finite (active s)"
    using inv by (simp_all add: tw_inv_def counts_def)
  have a1: "active s1 = active s" "cnt s1 P = cnt s P" for P
    by (rule active_cong; simp add: s1_def)+
  have sn: "sentinel (tiw s1) = sentinel (tiw s)" by (simp add: s1_def)
  have "links L [] s1 = links L [] s" by (rule links_cong) (simp_all add: s1_def)
  then have "links (L(slot := L slot @ [p])) [] s2"
    unfolding s2_def by (intro insert_timer_links) (use L p sl a1 sn in simp_all)
  then have 1: "links (L(slot := L slot @ [p])) [] ?s'" using links_same [OF same(2,1)] by simp
  have "wheel_counts s1" using cn by (simp add: counts_def wheel_counts_def a1) (simp add: s1_def)
  then have "wheel_counts s2"
    unfolding s2_def by (intro insert_timer_counts) (use fin p sl a1 sn in simp_all)
  moreover have a2: "active s2 = insert p (active s)"
    using insert_timer_active [OF _ sl, of p s1] p(1) a1 sn by (simp add: s2_def)
  moreover have a3: "active ?s' = active s2" "cnt ?s' P = cnt s2 P" for P
    by (rule active_cong; use same in \<open>simp add: same_wheel_def\<close>)+
  ultimately have 2: "counts ?s'"
    using cn same p(2) fin room
    by (simp add: counts_def wheel_counts_def same_wheel_def insert_timer_sel s2_def s1_def)
  have n: "next_timeout_pos (tiw ?s') =
      min (snd (calculate_slot (tw_pos (tiw s)) tpos)) (next_timeout_pos (tiw s))"
    by (simp add: s' s2_def insert_timer_sel s1_def)
  have 3: "aligned (tiw ?s')"
    using al same by (simp add: aligned_def same_wheel_def s2_def insert_timer_sel s1_def
        set_next_frame s' min_def)
  have old: "placed (tiw ?s') (tmr ?s' x) \<and> due (tmr ?s' x) = due (tmr s x)"
    if "x \<in> active s" for x
  proof -
    have m: "tslot (tmr ?s' x) = tslot (tmr s x)" "timeout_pos (tmr ?s' x) = timeout_pos (tmr s x)"
      using that p by (auto simp: set_timer_fields)
    have "placed (tiw s) (tmr s x)" using inv that by (simp add: tw_inv_def)
    then have "placed (tiw s) (tmr ?s' x)" by (simp add: placed_def m)
    then have "placed (tiw ?s') (tmr ?s' x)"
      by (rule placed_mono) (use same in \<open>simp_all add: same_wheel_def s2_def insert_timer_sel sl s1_def
          min.coboundedI2\<close>)
    then show ?thesis by (simp add: due_def m)
  qed
  have new: "placed (tiw ?s') (tmr ?s' p) \<and> snd (calculate_slot (tw_pos (tiw s)) tpos) = due (tmr ?s' p)"
    using calculate_slot_placed [of "tiw ?s'" "tmr ?s' p" tpos] 3 same sl
    by (simp add: set_timer_fields [OF p(1)] same_wheel_def s2_def insert_timer_sel slot_def [symmetric]
        s1_def)
  have "placed (tiw ?s') (tmr ?s' x) \<and> next_timeout_pos (tiw ?s') \<le> due (tmr ?s' x)"
    if "x \<in> active ?s'" for x
    using that old [of x] new n inv a2 a3 by (cases "x = p") (auto simp: tw_inv_def)
  moreover have "yield_slot (tiw ?s') = ERTS_TW_SLOT_INACTIVE"
    using inv same by (simp add: tw_inv_def same_wheel_def s2_def insert_timer_sel s1_def)
  ultimately show ?thesis using 1 2 3 unfolding tw_inv_def by blast
qed

end
