(* ===== verification/TimerWheelThms.thy ===== *)
theory TimerWheelThms
  imports TimerWheelInv
begin

text \<open>
  Cancelling and creating keep and establish the invariant of the wheel; the search for the next
  timeout terminates and never passes a timer; the properties of the wheel.
\<close>

subsection \<open>Cancelling\<close>

lemma remove_count_min:
  assumes "is_slot slot"
  shows "soon_min_tpos (remove_count slot tpos e t) =
           (if in_soon slot \<and> soon_nto t = 1 then ERTS_MAX_CLKTCKS else soon_min_tpos t)"
    and "later_min_tpos (remove_count slot tpos e t) =
           (if in_later slot \<and> later_nto t = 1 then ERTS_MAX_CLKTCKS else later_min_tpos t)"
  using assms by (auto simp: remove_count_def Let_def in_soon_def in_later_def is_slot_def)

lemma cnt_le: "finite (active s) \<Longrightarrow> cnt s P \<le> card (active s)"
  unfolding cnt_def by (rule card_mono) auto

lemma of_nat_u64_iff: "n < 2 ^ 64 \<Longrightarrow> m < 2 ^ 64 \<Longrightarrow> (of_nat n :: u64) = of_nat m \<longleftrightarrow> n = m"
  by (simp add: word_of_nat_eq_iff take_bit_nat_eq_self)

lemmas of_nat_1_iff = of_nat_u64_iff [of _ 1, simplified]
  and of_nat_0_iff = of_nat_u64_iff [of _ 0, simplified]

lemma cnt_0_iff: "finite (active s) \<Longrightarrow> cnt s P = 0 \<longleftrightarrow> (\<forall>p \<in> active s. \<not> P (tslot (tmr s p)))"
  by (auto simp: cnt_def)

lemma remove_timer_inv:
  assumes inv: "tw_inv s" and p: "p \<in> active s"
  shows "tw_inv (wheel (\<lambda>t. t\<lparr>tw_nto := tw_nto t - 1\<rparr>) (remove_timer p s))" (is "tw_inv ?s'")
proof -
  let ?s = "remove_timer p s"
  obtain L where L: "links L [] s" using inv by (auto simp: tw_inv_def)
  have al: "aligned (tiw s)" and cn: "counts s" and fin: "finite (active s)" "card (active s) < 2 ^ 64"
    using inv by (simp_all add: tw_inv_def counts_def)
  have sl: "is_slot (tslot (tmr s p))" by (rule links_active_slot [OF L p])
  have c: "cnt s P \<noteq> 0" if "P (tslot (tmr s p))" for P using that p fin cnt_0_iff by blast
  obtain e w where t: "tiw ?s = remove_count (tslot (tmr s p)) (timeout_pos (tmr s p)) e
     ((tiw s)\<lparr>tw_w := w\<rparr>)" using remove_timer_tiw_ex by blast
  have tm: "tmr ?s' = tmr ?s" by (simp add: wheel_def)
  have ti: "tiw ?s' = (tiw ?s)\<lparr>tw_nto := tw_nto (tiw ?s) - 1\<rparr>" by (simp add: wheel_def)
  have "links (\<lambda>sl. remove1 p (L sl)) [] ?s" using remove_timer_links [OF L p] by simp
  then have 1: "links (\<lambda>sl. remove1 p (L sl)) [] ?s'"
    by (subst links_cong [of _ ?s]) (simp_all add: tm ti)
  have a: "active ?s' = active s - {p}" "cnt ?s' P = cnt ?s P" for P
    using active_cong [of ?s' ?s] remove_timer_active [of p s] by (simp_all add: tm ti)
  have "wheel_counts ?s" using cn fin p sl by (intro remove_timer_counts) (simp_all add: counts_def)
  moreover have "card (active s) = Suc (card (active s - {p}))"
    using fin(1) p by (rule card.remove)
  ultimately have 2: "counts ?s'" using cn
    by (simp add: counts_def wheel_counts_def a ti t)
  have 3: "aligned (tiw ?s')" using al by (simp add: aligned_def ti t)
  have none: "\<not> P (tslot (tmr s x))" if "cnt s P = 1" "P (tslot (tmr s p))" "x \<in> active s" "x \<noteq> p" for x P
  proof -
    have "cnt s P = cnt ?s P + 1"
      using cnt_remove [OF fin(1) p remove_timer_active refl, of P] that(2) by simp
    then have "cnt ?s P = 0" using that(1) by simp
    moreover have "finite (active ?s)" using fin(1) by (simp add: remove_timer_active)
    ultimately have "\<not> P (tslot (tmr ?s x))"
      using that(3,4) cnt_0_iff [of ?s P] by (simp add: remove_timer_active)
    then show ?thesis using that(4) by simp
  qed
  have one: "(of_nat (cnt s P) :: u64) = 1 \<longleftrightarrow> cnt s P = 1" for P
    using of_nat_1_iff [of "cnt s P"] cnt_le [OF fin(1), of P] fin(2) by simp
  have "placed (tiw ?s') (tmr ?s' x) \<and> next_timeout_pos (tiw ?s') \<le> due (tmr ?s' x)"
    if "x \<in> active ?s'" for x
  proof -
    have x: "x \<in> active s" "x \<noteq> p" using that a(1) by auto
    then have m: "tslot (tmr ?s' x) = tslot (tmr s x)" "timeout_pos (tmr ?s' x) = timeout_pos (tmr s x)"
      by (simp_all add: tm)
    have i: "placed (tiw s) (tmr s x)" "next_timeout_pos (tiw s) \<le> due (tmr s x)"
      using inv x by (simp_all add: tw_inv_def)
    then have "placed (tiw s) (tmr ?s' x)" by (simp add: placed_def m)
    then have "placed (tiw ?s') (tmr ?s' x)"
      using none [of in_soon] none [of in_later] x cn one
      by (elim placed_mono) (auto simp: ti t remove_count_min [OF sl] m counts_def wheel_counts_def)
    moreover have "due (tmr ?s' x) = due (tmr s x)" by (simp add: due_def m)
    ultimately show ?thesis using i(2) by (simp add: ti t)
  qed
  moreover have "yield_slot (tiw ?s') = ERTS_TW_SLOT_INACTIVE" using inv by (simp add: tw_inv_def ti t)
  ultimately show ?thesis using 1 2 3 unfolding tw_inv_def by blast
qed

lemma cancel_timer_inv:
  assumes "tw_inv s" "p \<noteq> sentinel (tiw s)"
  shows "tw_inv (erts_twheel_cancel_timer p s)"
    and "active (erts_twheel_cancel_timer p s) = active s - {p}"
    and "x \<noteq> p \<Longrightarrow> timeout_pos (tmr (erts_twheel_cancel_timer p s) x) = timeout_pos (tmr s x)"
    and "tw_pos (tiw (erts_twheel_cancel_timer p s)) = tw_pos (tiw s)"
    and "sentinel (tiw (erts_twheel_cancel_timer p s)) = sentinel (tiw s)"
proof -
  have a: "p \<in> active s \<longleftrightarrow> tslot (tmr s p) \<noteq> ERTS_TW_SLOT_INACTIVE"
    using assms(2) by (simp add: active_def)
  obtain e w where t: "tiw (remove_timer p s) = remove_count (tslot (tmr s p)) (timeout_pos (tmr s p)) e
     ((tiw s)\<lparr>tw_w := w\<rparr>)" using remove_timer_tiw_ex by blast
  show "tw_inv (erts_twheel_cancel_timer p s)"
    using remove_timer_inv [OF assms(1), of p] a assms(1) by (simp add: erts_twheel_cancel_timer_def)
  show "active (erts_twheel_cancel_timer p s) = active s - {p}"
    using a assms(2) by (auto simp: erts_twheel_cancel_timer_def active_def wheel_def)
  show "x \<noteq> p \<Longrightarrow> timeout_pos (tmr (erts_twheel_cancel_timer p s) x) = timeout_pos (tmr s x)"
    by (simp add: erts_twheel_cancel_timer_def wheel_def)
  show "tw_pos (tiw (erts_twheel_cancel_timer p s)) = tw_pos (tiw s)"
    and "sentinel (tiw (erts_twheel_cancel_timer p s)) = sentinel (tiw s)"
    by (simp_all add: erts_twheel_cancel_timer_def wheel_def t)
qed

subsection \<open>Creating\<close>

lemma later_pos_aligned:
  fixes cpos :: int
  defines "lpos \<equiv> (cpos + ERTS_TW_SOON_WHEEL_SIZE) AND ERTS_TW_LATER_WHEEL_POS_MASK"
  shows "lpos mod 8192 = 0" "cpos + 8192 < lpos" "lpos \<le> cpos + 16384"
proof -
  have l: "lpos = (cpos + 16384) - (cpos + 16384) mod 8192" unfolding lpos_def pos_mask by simp
  show "lpos mod 8192 = 0" unfolding l by (simp add: mod_diff_right_eq)
  show "cpos + 8192 < lpos" "lpos \<le> cpos + 16384"
    using pos_mod_bound [of 8192 "cpos + 16384"] pos_mod_sign [of 8192 "cpos + 16384"]
    unfolding l by linarith+
qed

lemma create_timer_wheel_fields:
  fixes s sn defines "s' \<equiv> erts_create_timer_wheel sn s"
    and "cpos \<equiv> ERTS_MONOTONIC_TO_CLKTCKS (env_mtime s (calls s))"
  shows "sentinel (tiw s') = sn" "tw_pos (tiw s') = cpos"
    and "tmr s' = (tmr s)(sn := (tmr s sn)\<lparr>tnext := sn, tprev := sn, ttimeout := 0, targ := 0\<rparr>)"
    and "is_slot sl \<Longrightarrow> tw_w (tiw s') sl = None"
    and "0 \<le> ix \<Longrightarrow> ix < 64 \<Longrightarrow> tw_scnt (tiw s') ix = 0"
    and "tw_nto (tiw s') = 0" "at_once_nto (tiw s') = 0" "soon_nto (tiw s') = 0"
      "later_nto (tiw s') = 0" "yield_slot (tiw s') = ERTS_TW_SLOT_INACTIVE" "aligned (tiw s')"
proof -
  note w = pon_timer_wheel_arm_frame(5) [unfolded same_wheel_def]
  note d = erts_create_timer_wheel_def Let_def split_beta erts_get_monotonic_time_def wheel_def timer_def
  show "sentinel (tiw s') = sn" "tw_pos (tiw s') = cpos"
    "tmr s' = (tmr s)(sn := (tmr s sn)\<lparr>tnext := sn, tprev := sn, ttimeout := 0, targ := 0\<rparr>)"
    "is_slot sl \<Longrightarrow> tw_w (tiw s') sl = None"
    "0 \<le> ix \<Longrightarrow> ix < 64 \<Longrightarrow> tw_scnt (tiw s') ix = 0"
    "tw_nto (tiw s') = 0" "at_once_nto (tiw s') = 0" "soon_nto (tiw s') = 0"
    "later_nto (tiw s') = 0" "yield_slot (tiw s') = ERTS_TW_SLOT_INACTIVE"
    by (simp_all add: s'_def cpos_def d w is_slot_def)
  show "aligned (tiw s')"
    using later_pos_aligned [of cpos]
    by (simp add: s'_def cpos_def d w aligned_def)
qed

lemma create_timer_wheel_inv:
  assumes "\<And>p. p \<noteq> sn \<Longrightarrow> tslot (tmr s p) = ERTS_TW_SLOT_INACTIVE"
  shows "tw_inv (erts_create_timer_wheel sn s)" "active (erts_create_timer_wheel sn s) = {}"
proof -
  let ?s = "erts_create_timer_wheel sn s"
  note f = create_timer_wheel_fields [where sn = sn and s = s]
  show a: "active ?s = {}" using assms by (simp add: active_def f)
  have "links (\<lambda>_. []) [] ?s" using a by (simp add: links_def f)
  moreover have "counts ?s"
    using a by (simp add: counts_def wheel_counts_def cnt_def f)
  ultimately show "tw_inv ?s" using a f by (auto simp: tw_inv_def)
qed

subsection \<open>Stepping over empty slot ranges\<close>

text \<open>The slot \<open>k\<close> steps after \<open>slot\<close> in the wheel \<open>[f, e)\<close>.\<close>

definition wrap :: "int \<Rightarrow> int \<Rightarrow> int \<Rightarrow> int \<Rightarrow> int" where
  "wrap f e slot k = f + (slot - f + k) mod (e - f)"

lemma wrap_0: "f \<le> slot \<Longrightarrow> slot < e \<Longrightarrow> wrap f e slot 0 = slot"
  by (simp add: wrap_def)

lemma wrap_add: "wrap f e (wrap f e slot j) k = wrap f e slot (j + k)"
  by (simp add: wrap_def mod_add_left_eq add.assoc)

lemma wrap_range: "f < e \<Longrightarrow> f \<le> wrap f e slot k \<and> wrap f e slot k < e"
  by (simp add: wrap_def) (smt (verit) pos_mod_bound)

lemma wrap_small: "f \<le> slot \<Longrightarrow> 0 \<le> k \<Longrightarrow> slot + k < e \<Longrightarrow> wrap f e slot k = slot + k"
  by (simp add: wrap_def)

lemma wrap_end: "f \<le> slot \<Longrightarrow> slot < e \<Longrightarrow> wrap f e slot (e - slot) = f"
  by (simp add: wrap_def)

text \<open>
  The loop skips whole ranges whose counter is zero; it stops at a range with timers or when
  \<open>left\<close> is used up. It always ends.
\<close>

lemma scnt_skip_spec:
  assumes fe: "f mod 512 = 0" "e mod 512 = 0" "f < e"
    and "f \<le> slot" "slot < e" "ix = slot div 512"
  shows "\<exists>k ix'. scnt_skip scnt f e slot left ix = Some (wrap f e slot k, left - k, ix') \<and>
     0 \<le> k \<and> k \<le> max left 0 \<and> (\<forall>j. 0 \<le> j \<and> j < k \<longrightarrow> scnt (wrap f e slot j div 512) = 0) \<and>
     (k < left \<longrightarrow> scnt (wrap f e slot k div 512) \<noteq> 0)"
  using assms(4-6)
proof (induction "nat left" arbitrary: slot left ix rule: less_induct)
  case less
  note sl = less.prems
  show ?case
  proof (cases "scnt ix = 0 \<and> left > 0")
    case False
    then show ?thesis using sl
      by (intro exI [of _ "0::int"] exI [of _ ix]) (auto simp: scnt_skip.simps [of _ _ _ slot] wrap_0)
  next
    case True
    define diff where "diff = (ix + 1) * 512 - slot"
    have d: "0 < diff" "slot + diff = (ix + 1) * 512" unfolding diff_def using sl(3) by auto
    have "ix + 1 \<le> e div 512" using sl(2,3) fe(2) by auto
    then have de: "slot + diff \<le> e" using d(2) fe(2) by auto
    have same: "(slot + j) div 512 = ix" if "0 \<le> j" "j < diff" for j
      using that d sl(3) by auto
    have pb: "push_bit ERTS_TW_SCNT_BITS (ix + 1) = slot + diff"
      by (simp add: d(2) ERTS_TW_SCNT_BITS_def push_bit_eq_mult)
    have zero: "scnt (wrap f e slot j div 512) = 0" if "0 \<le> j" "j < diff" for j
    proof -
      have "wrap f e slot j = slot + j" using that sl de by (intro wrap_small) auto
      then show ?thesis using same [OF that] True by simp
    qed
    note unf = scnt_skip.simps [of scnt f e slot left ix]
    show ?thesis
    proof (cases "left < diff")
      case lt: True
      then have "slot + left < e" using de by simp
      then have "scnt_skip scnt f e slot left ix = scnt_skip scnt f e (slot + left) 0 (ix + 1)"
        using True lt by (simp add: unf Let_def pb)
      also have "\<dots> = Some (slot + left, 0, ix + 1)" by (simp add: scnt_skip.simps)
      finally have "scnt_skip scnt f e slot left ix = Some (slot + left, left - left, ix + 1)" by simp
      moreover have "wrap f e slot left = slot + left"
        using True sl \<open>slot + left < e\<close> by (intro wrap_small) auto
      ultimately show ?thesis using True zero lt
        by (intro exI [of _ left] exI [of _ "ix + 1"]) auto
    next
      case ge: False
      define slot' where "slot' = wrap f e slot diff"
      have s': "slot' = (if slot + diff < e then slot + diff else f)"
        using wrap_small [of f slot diff e] wrap_end [of f slot e] sl d(1) de
        by (auto simp: slot'_def)
      have ix': "drop_bit ERTS_TW_SCNT_BITS slot' = slot' div 512" by (rule scnt_ix)
      have "scnt_skip scnt f e slot left ix = scnt_skip scnt f e slot' (left - diff) (slot' div 512)"
      proof (cases "slot + diff < e")
        case True
        have "(slot + diff) div 512 = ix + 1" using d(2) by simp
        with True ge \<open>scnt ix = 0 \<and> left > 0\<close> show ?thesis by (simp add: unf Let_def pb s')
      next
        case False
        then have "e - slot = diff" using de by simp
        with False ge \<open>scnt ix = 0 \<and> left > 0\<close> show ?thesis
          by (simp add: unf Let_def pb s' scnt_ix)
      qed
      moreover have "f \<le> slot'" "slot' < e" using wrap_range [OF fe(3)] by (auto simp: slot'_def)
      moreover have "nat (left - diff) < nat left" using True d(1) ge by simp
      ultimately obtain k ix'' where k: "scnt_skip scnt f e slot left ix =
           Some (wrap f e slot' k, left - diff - k, ix'')" "0 \<le> k" "k \<le> max (left - diff) 0"
        "\<forall>j. 0 \<le> j \<and> j < k \<longrightarrow> scnt (wrap f e slot' j div 512) = 0"
        "k < left - diff \<longrightarrow> scnt (wrap f e slot' k div 512) \<noteq> 0"
        using less.hyps [of "left - diff" slot' "slot' div 512"] by auto
      have "scnt (wrap f e slot j div 512) = 0" if "0 \<le> j" "j < diff + k" for j
      proof (cases "j < diff")
        case True
        then show ?thesis using that zero by simp
      next
        case False
        then have "scnt (wrap f e slot' (j - diff) div 512) = 0" using that k(4) by simp
        then show ?thesis by (simp add: slot'_def wrap_add)
      qed
      then show ?thesis using k ge True d(1)
        by (intro exI [of _ "diff + k"] exI [of _ ix'']) (auto simp: slot'_def wrap_add algebra_simps)
    qed
  qed
qed

lemma scnt_wheel_next_spec:
  assumes fe: "f mod 512 = 0" "e mod 512 = 0" "f < e" and sl: "f \<le> slot" "slot < e" and l: "0 < left"
  obtains k where
    "scnt_wheel_next slot left pos scnt f e sz =
       Some (wrap f e slot k, left - k, pos + sz * k, wrap f e slot k div 512)"
    and "1 \<le> k" "k \<le> left"
    and "\<forall>j. 1 \<le> j \<and> j < k \<longrightarrow> scnt (wrap f e slot j div 512) = 0"
    and "k < left \<longrightarrow> scnt (wrap f e slot k div 512) \<noteq> 0"
proof -
  define slot1 where "slot1 = wrap f e slot 1"
  have s1: "slot1 = (if slot + 1 = e then f else slot + 1)"
    using wrap_small [of f slot 1 e] wrap_end [of f slot e] sl by (auto simp: slot1_def)
  have r: "f \<le> slot1" "slot1 < e" using wrap_range [OF fe(3)] by (auto simp: slot1_def)
  obtain k ix where k: "scnt_skip scnt f e slot1 (left - 1) (slot1 div 512) =
       Some (wrap f e slot1 k, left - 1 - k, ix)" "0 \<le> k" "k \<le> max (left - 1) 0"
    "\<forall>j. 0 \<le> j \<and> j < k \<longrightarrow> scnt (wrap f e slot1 j div 512) = 0"
    "k < left - 1 \<longrightarrow> scnt (wrap f e slot1 k div 512) \<noteq> 0"
    using scnt_skip_spec [OF fe r refl] by blast
  show thesis
  proof (rule that [of "1 + k"])
    show "scnt_wheel_next slot left pos scnt f e sz =
       Some (wrap f e slot (1 + k), left - (1 + k), pos + sz * (1 + k), wrap f e slot (1 + k) div 512)"
    proof -
      have "scnt_wheel_next slot left pos scnt f e sz =
          do { (slot, l, ix) \<leftarrow> scnt_skip scnt f e slot1 (left - 1) (slot1 div 512);
               Some (slot, l, pos + sz * (left - l), slot div 512) }"
        by (simp add: scnt_wheel_next_def Let_def s1 scnt_ix)
      then show ?thesis unfolding k(1) by (simp add: slot1_def wrap_add algebra_simps)
    qed
    show "\<forall>j. 1 \<le> j \<and> j < 1 + k \<longrightarrow> scnt (wrap f e slot j div 512) = 0"
    proof (intro allI impI)
      fix j assume "1 \<le> j \<and> j < 1 + k"
      then have "scnt (wrap f e slot1 (j - 1) div 512) = 0" using k(4) by simp
      then show "scnt (wrap f e slot j div 512) = 0" by (simp add: slot1_def wrap_add)
    qed
    show "1 + k < left \<longrightarrow> scnt (wrap f e slot (1 + k) div 512) \<noteq> 0"
      using k(5) by (simp add: slot1_def wrap_add)
  qed (use k l in auto)
qed

subsection \<open>The search for the next timeout\<close>

lemma slot_occupied:
  assumes "tw_inv s" "is_slot sl"
  shows "tw_w (tiw s) sl \<noteq> None \<longleftrightarrow> (\<exists>p \<in> active s. tslot (tmr s p) = sl)"
proof -
  obtain L where L: "links L [] s" using assms(1) by (auto simp: tw_inv_def)
  have "p \<in> set (L sl) \<longleftrightarrow> p \<in> active s \<and> tslot (tmr s p) = sl" for p
    using links_mem_active [OF L] linksD(7,11) [OF L] by (metis empty_iff empty_set)
  then show ?thesis using links_empty_iff [OF L assms(2)]
    by (metis all_not_in_conv set_empty)
qed

lemma range_empty:
  assumes "tw_inv s" "tw_scnt (tiw s) ix = 0" "0 \<le> ix" "ix < 64"
    and "p \<in> active s" "0 \<le> tslot (tmr s p)"
  shows "tslot (tmr s p) div 512 \<noteq> ix"
proof -
  have "counts s" using assms(1) by (simp add: tw_inv_def)
  then have "finite (active s)" "cnt s (in_range ix) = 0"
    using assms(2-4) by (auto simp: counts_def wheel_counts_def)
  then show ?thesis using assms(5,6) cnt_0_iff [of s "in_range ix"] by (auto simp: in_range_def)
qed

lemma soon_wrap: "wrap 0 16384 (soon_slot tpos) j = soon_slot (tpos + j)"
  by (simp add: wrap_def soon_slot_mod mod_add_left_eq)

lemma later_wrap:
  assumes "tpos mod 8192 = 0"
  shows "wrap 16384 32768 (later_slot tpos) j = later_slot (tpos + 8192 * j)"
proof -
  have "(tpos + 8192 * j) div 8192 = tpos div 8192 + j" by simp
  then show ?thesis by (simp add: wrap_def later_slot_mod mod_add_left_eq) (simp add: add.commute)
qed

lemma soon_placed:
  assumes "tw_inv s" "x \<in> active s" "in_soon (tslot (tmr s x))"
  shows "tslot (tmr s x) = soon_slot (timeout_pos (tmr s x))" "tw_pos (tiw s) < timeout_pos (tmr s x)"
    "timeout_pos (tmr s x) < tw_pos (tiw s) + 16384" "soon_min_tpos (tiw s) \<le> timeout_pos (tmr s x)"
  using assms by (auto simp: tw_inv_def placed_def)

lemma later_placed:
  assumes "tw_inv s" "x \<in> active s" "in_later (tslot (tmr s x))"
  shows "tslot (tmr s x) = later_slot (timeout_pos (tmr s x))"
    "later_pos (tiw s) \<le> timeout_pos (tmr s x)" "later_min_tpos (tiw s) \<le> timeout_pos (tmr s x)"
    "due (tmr s x) = timeout_pos (tmr s x) - timeout_pos (tmr s x) mod 8192 - 8192"
  using assms by (auto simp: tw_inv_def placed_def due_def pos_mask)

lemma in_soon_slot: "in_soon (soon_slot x)" "is_slot (soon_slot x)"
  using pos_mod_bound [of 16384 x] pos_mod_sign [of 16384 x]
  by (simp_all only: in_soon_def soon_slot_mod is_slot_def) linarith+

lemma in_later_slot: "in_later (later_slot x)" "is_slot (later_slot x)"
  using pos_mod_bound [of 16384 "x div 8192"] pos_mod_sign [of 16384 "x div 8192"]
  by (simp_all only: in_later_def later_slot_mod is_slot_def) linarith+

text \<open>A soon timer is found at its tick.\<close>

lemma soon_tick_empty:
  assumes "tw_inv s" "x \<in> active s" "in_soon (tslot (tmr s x))"
    and "tw_w (tiw s) (soon_slot tpos) = None \<or> tw_scnt (tiw s) (soon_slot tpos div 512) = 0"
  shows "timeout_pos (tmr s x) \<noteq> tpos"
proof
  assume eq: "timeout_pos (tmr s x) = tpos"
  have sl: "tslot (tmr s x) = soon_slot tpos" using soon_placed(1) [OF assms(1-3)] eq by simp
  have r: "0 \<le> soon_slot tpos" "soon_slot tpos div 512 < 64" "0 \<le> soon_slot tpos div 512"
    using in_soon_slot(1) [of tpos] by (auto simp: in_soon_def)
  show False
    using assms(4) slot_occupied [OF assms(1) in_soon_slot(2) [of tpos]] assms(2) sl
      range_empty [OF assms(1) _ r(3,2) assms(2)] r(1) by auto
qed

lemma find_soon_loop_spec:
  assumes inv: "tw_inv s" and M: "M \<le> tw_pos (tiw s) + 16384"
    and "tw_pos (tiw s) \<le> tpos" "slot = soon_slot tpos" "slots = tw_pos (tiw s) + 16384 - tpos"
    and "\<forall>x \<in> active s. in_soon (tslot (tmr s x)) \<longrightarrow> tpos \<le> timeout_pos (tmr s x)"
  shows "\<exists>r. find_soon_loop (tiw s) slot slots tpos M = Some r \<and> r \<le> M \<and>
     (\<forall>x \<in> active s. in_soon (tslot (tmr s x)) \<longrightarrow> r \<le> timeout_pos (tmr s x)) \<and>
     (r = M \<or> (\<exists>x \<in> active s. in_soon (tslot (tmr s x)) \<and> timeout_pos (tmr s x) = r))"
  using assms(3-6)
proof (induction "nat (M - tpos)" arbitrary: tpos slot slots rule: less_induct)
  case less
  note unf = find_soon_loop.simps [of "tiw s" slot slots tpos M]
  show ?case
  proof (cases "tpos < M")
    case False
    then show ?thesis using less.prems(4) by (auto simp: unf)
  next
    case lt: True
    show ?thesis
    proof (cases "tw_w (tiw s) slot = None")
      case False
      then obtain x where x: "x \<in> active s" "tslot (tmr s x) = slot"
        using slot_occupied [OF inv in_soon_slot(2) [of tpos]] less.prems(2) by auto
      then have so: "in_soon (tslot (tmr s x))" using in_soon_slot less.prems(2) by simp
      have "soon_slot (timeout_pos (tmr s x)) = soon_slot tpos"
        using soon_placed(1) [OF inv x(1) so] x(2) less.prems(2) by simp
      then have "(timeout_pos (tmr s x) - tpos) mod 16384 = 0"
        unfolding soon_slot_mod by (simp add: mod_eq_dvd_iff)
      moreover have "0 \<le> timeout_pos (tmr s x) - tpos" "timeout_pos (tmr s x) - tpos < 16384"
        using less.prems(1,4) x(1) so soon_placed(3) [OF inv x(1) so] by auto
      ultimately have "timeout_pos (tmr s x) = tpos" by simp
      then show ?thesis using False lt less.prems(4) x(1) so by (auto simp: unf)
    next
      case True
      obtain k where k: "scnt_wheel_next slot slots tpos (tw_scnt (tiw s)) 0 16384 1 =
           Some (wrap 0 16384 slot k, slots - k, tpos + 1 * k, wrap 0 16384 slot k div 512)"
        "1 \<le> k" "k \<le> slots"
        "\<forall>j. 1 \<le> j \<and> j < k \<longrightarrow> tw_scnt (tiw s) (wrap 0 16384 slot j div 512) = 0"
        using scnt_wheel_next_spec [of 0 16384 slot slots tpos "tw_scnt (tiw s)" 1]
          less.prems(2,3) lt M in_soon_slot(1) [of tpos] by (auto simp: in_soon_def)
      have "tpos + k \<le> timeout_pos (tmr s x)" if "x \<in> active s" "in_soon (tslot (tmr s x))" for x
      proof (rule ccontr)
        assume c: "\<not> tpos + k \<le> timeout_pos (tmr s x)"
        define j where "j = timeout_pos (tmr s x) - tpos"
        have j: "0 \<le> j" "j < k" "timeout_pos (tmr s x) = tpos + j"
          using c less.prems(4) that by (auto simp: j_def)
        have "tw_w (tiw s) (soon_slot (tpos + j)) = None \<or>
            tw_scnt (tiw s) (soon_slot (tpos + j) div 512) = 0"
        proof (cases "j = 0")
          case False
          then have "tw_scnt (tiw s) (wrap 0 16384 slot j div 512) = 0" using k(4) j by simp
          then show ?thesis using less.prems(2) by (simp add: soon_wrap)
        qed (use True less.prems(2) in simp)
        then show False using soon_tick_empty [OF inv that] j(3) by blast
      qed
      moreover have "find_soon_loop (tiw s) slot slots tpos M =
          find_soon_loop (tiw s) (soon_slot (tpos + k)) (slots - k) (tpos + k) M"
        unfolding unf using lt True k(1) less.prems(2) by (simp add: scnt_soon_wheel_next_def soon_wrap)
      ultimately show ?thesis
        using less.hyps [of "tpos + k" "soon_slot (tpos + k)" "slots - k"] lt k(2) less.prems(1,3) by auto
    qed
  qed
qed

text \<open>A later timer is found in the slot of its block of 8192 ticks.\<close>

lemma later_block_empty:
  assumes "tw_inv s" "x \<in> active s" "in_later (tslot (tmr s x))"
    and "tw_w (tiw s) (later_slot b) = None \<or> tw_scnt (tiw s) (later_slot b div 512) = 0"
    and "b mod 8192 = 0"
  shows "timeout_pos (tmr s x) - timeout_pos (tmr s x) mod 8192 \<noteq> b"
proof
  let ?T = "timeout_pos (tmr s x)"
  assume "?T - ?T mod 8192 = b"
  then have "?T div 8192 = b div 8192"
    by (metis minus_mod_eq_div_mult nonzero_mult_div_cancel_right numeral_eq_iff zero_neq_numeral)
  then have sl: "tslot (tmr s x) = later_slot b"
    using later_placed(1) [OF assms(1-3)] by (simp add: later_slot_mod)
  have r: "0 \<le> later_slot b" "later_slot b div 512 < 64" "0 \<le> later_slot b div 512"
    using in_later_slot [of b] by (auto simp: in_later_def is_slot_def)
  show False
    using assms(4) slot_occupied [OF assms(1) in_later_slot(2) [of b]] assms(2) sl
      range_empty [OF assms(1) _ r(3,2) assms(2)] r(1) by auto
qed

text \<open>From a block on which no later timer starts earlier, empty blocks can be passed.\<close>

lemma later_block_skip:
  assumes "tw_inv s" "x \<in> active s" "in_later (tslot (tmr s x))"
    and "b mod 8192 = 0" "b \<le> timeout_pos (tmr s x)"
    and "\<forall>j. 0 \<le> j \<and> j < k \<longrightarrow> tw_w (tiw s) (later_slot (b + 8192 * j)) = None \<or>
           tw_scnt (tiw s) (later_slot (b + 8192 * j) div 512) = 0"
  shows "b + 8192 * k \<le> timeout_pos (tmr s x) - timeout_pos (tmr s x) mod 8192"
proof (rule ccontr)
  let ?T = "timeout_pos (tmr s x)"
  assume c: "\<not> b + 8192 * k \<le> ?T - ?T mod 8192"
  define j where "j = ?T div 8192 - b div 8192"
  have b: "b = 8192 * (b div 8192)" using assms(4) by auto
  have T: "?T - ?T mod 8192 = 8192 * (?T div 8192)" by (simp add: minus_mod_eq_mult_div)
  have e: "?T - ?T mod 8192 = b + 8192 * j" using b T by (simp add: j_def algebra_simps)
  have "b div 8192 \<le> ?T div 8192" using assms(5) by (rule zdiv_mono1) simp
  then have "0 \<le> j" by (simp add: j_def)
  moreover have "j < k" using c e by simp
  ultimately have em: "tw_w (tiw s) (later_slot (b + 8192 * j)) = None \<or>
      tw_scnt (tiw s) (later_slot (b + 8192 * j) div 512) = 0" using assms(6) by blast
  have "(b + 8192 * j) mod 8192 = 0" using assms(4) by simp
  from later_block_empty [OF assms(1-3) em this] e show False by contradiction
qed

lemma find_soon_limit_spec:
  assumes inv: "tw_inv s"
  shows "tw_pos (tiw s) < find_soon_limit (tiw s)" "find_soon_limit (tiw s) \<le> tw_pos (tiw s) + 16384"
    and "x \<in> active s \<Longrightarrow> in_later (tslot (tmr s x)) \<Longrightarrow> find_soon_limit (tiw s) \<le> due (tmr s x)"
proof -
  let ?t = "tiw s"
  have al: "later_pos ?t mod 8192 = 0" "tw_pos ?t + 8192 < later_pos ?t" "later_pos ?t \<le> tw_pos ?t + 16384"
    using inv by (simp_all add: tw_inv_def aligned_def)
  define n where "n = (if later_slot (later_pos ?t) + 1 = 32768 then 16384
                       else later_slot (later_pos ?t) + 1)"
  have n: "n = later_slot (later_pos ?t + 8192)"
    using later_wrap [OF al(1), of 1] wrap_small [of 16384 "later_slot (later_pos ?t)" 1 32768]
      wrap_end [of 16384 "later_slot (later_pos ?t)" 32768] in_later_slot [of "later_pos ?t"]
    by (auto simp: n_def in_later_def is_slot_def)
  have lim: "find_soon_limit ?t =
    (if later_min_tpos ?t > later_pos ?t + 16384 then tw_pos ?t + 16384
     else if tw_w ?t (later_slot (later_pos ?t)) \<noteq> None then later_pos ?t - 8192
     else if later_pos ?t < tw_pos ?t + 16384 \<and> tw_w ?t n \<noteq> None then later_pos ?t
     else tw_pos ?t + 16384)"
    by (simp add: find_soon_limit_def Let_def n_def)
  show "tw_pos ?t < find_soon_limit ?t" "find_soon_limit ?t \<le> tw_pos ?t + 16384"
    using al by (simp_all add: lim)
  assume x: "x \<in> active s" "in_later (tslot (tmr s x))"
  let ?T = "timeout_pos (tmr s x)"
  note p = later_placed [OF inv x]
  note skip = later_block_skip [OF inv x al(1) p(2)]
  have m: "?T mod 8192 < 8192" "0 \<le> ?T mod 8192" by simp_all
  have lb: "later_pos ?t \<le> ?T - ?T mod 8192" using skip [of 0] by simp
  consider "later_min_tpos ?t > later_pos ?t + 16384"
    | "\<not> later_min_tpos ?t > later_pos ?t + 16384" "tw_w ?t (later_slot (later_pos ?t)) \<noteq> None"
    | "\<not> later_min_tpos ?t > later_pos ?t + 16384" "tw_w ?t (later_slot (later_pos ?t)) = None"
      "later_pos ?t < tw_pos ?t + 16384" "tw_w ?t n = None"
    | "\<not> later_min_tpos ?t > later_pos ?t + 16384" "tw_w ?t (later_slot (later_pos ?t)) = None"
      "\<not> (later_pos ?t < tw_pos ?t + 16384 \<and> tw_w ?t n = None)"
    by argo
  then show "find_soon_limit ?t \<le> due (tmr s x)"
  proof cases
    case 1
    then have "find_soon_limit ?t = tw_pos ?t + 16384" by (simp add: lim)
    moreover have "(later_pos ?t + 16384) mod 8192 = 0"
      using mod_0_imp_dvd [OF al(1)] by (intro dvd_imp_mod_0 dvd_add) simp_all
    then have "later_pos ?t + 16384 \<le> ?T - ?T mod 8192"
      using later_block_skip [OF inv x, of "later_pos ?t + 16384" 0] 1 p(3) by simp
    ultimately show ?thesis using p(4) al by linarith
  next
    case 2
    then show ?thesis using lb p(4) by (simp add: lim)
  next
    case 3
    have "tw_w ?t (later_slot (later_pos ?t + 8192 * j)) = None" if "0 \<le> j" "j < 2" for j
    proof -
      have "j = 0 \<or> j = 1" using that by linarith
      then show ?thesis using 3(2,4) n by auto
    qed
    then have "later_pos ?t + 8192 * 2 \<le> ?T - ?T mod 8192" using skip [of 2] by blast
    then show ?thesis using p(4) al 3 by (simp add: lim)
  next
    case 4
    have "later_pos ?t + 8192 * 1 \<le> ?T - ?T mod 8192"
      by (rule skip) (use 4(2) in \<open>auto simp: order_le_less\<close>)
    then show ?thesis using p(4) al 4 by (auto simp: lim)
  qed
qed

lemma tw_inv_minI:
  assumes inv: "tw_inv s" and t: "tmr s' = tmr s"
    and "tw_w (tiw s') = tw_w (tiw s)" "tw_scnt (tiw s') = tw_scnt (tiw s)"
      "tw_pos (tiw s') = tw_pos (tiw s)" "later_pos (tiw s') = later_pos (tiw s)"
      "tw_nto (tiw s') = tw_nto (tiw s)" "at_once_nto (tiw s') = at_once_nto (tiw s)"
      "soon_nto (tiw s') = soon_nto (tiw s)" "later_nto (tiw s') = later_nto (tiw s)"
      "yield_slot (tiw s') = yield_slot (tiw s)" "sentinel (tiw s') = sentinel (tiw s)"
      "next_timeout_time (tiw s') = ERTS_CLKTCKS_TO_MONOTONIC (next_timeout_pos (tiw s'))"
    and "\<And>x. x \<in> active s \<Longrightarrow> in_soon (tslot (tmr s x)) \<Longrightarrow> soon_min_tpos (tiw s') \<le> timeout_pos (tmr s x)"
    and "\<And>x. x \<in> active s \<Longrightarrow> in_later (tslot (tmr s x)) \<Longrightarrow> later_min_tpos (tiw s') \<le> timeout_pos (tmr s x)"
    and "\<And>x. x \<in> active s \<Longrightarrow> next_timeout_pos (tiw s') \<le> due (tmr s x)"
  shows "tw_inv s'" "active s' = active s"
proof -
  show a: "active s' = active s" using active_cong [of s' s] assms by auto
  have "cnt s' P = cnt s P" for P using active_cong [of s' s] assms by auto
  moreover have "links L [] s' = links L [] s" for L by (rule links_cong) (simp_all add: assms)
  ultimately show "tw_inv s'" using inv assms(14-16)
    by (simp add: tw_inv_def counts_def wheel_counts_def aligned_def placed_def a assms(2-13))
qed

text \<open>
  The search of the later wheel: it returns, its result is after the current position and no later
  than any timer is due, and the minimum it stores is one.
\<close>

lemma find_later_spec:
  assumes inv: "tw_inv s"
  obtains m b mp ms where
    "find_later s = Some (m, b, wheel (\<lambda>t. t\<lparr>later_min_tpos := mp, later_min_tpos_slot := ms\<rparr>) s)"
    "tw_pos (tiw s) < m"
    "\<And>x. x \<in> active s \<Longrightarrow> in_later (tslot (tmr s x)) \<Longrightarrow> m \<le> due (tmr s x)"
    "\<And>x. x \<in> active s \<Longrightarrow> in_later (tslot (tmr s x)) \<Longrightarrow> mp \<le> timeout_pos (tmr s x)"
    "later_pos (tiw s) \<le> mp"
proof -
  let ?t = "tiw s"
  have al: "later_pos ?t mod 8192 = 0" "tw_pos ?t + 8192 < later_pos ?t"
    using inv by (simp_all add: tw_inv_def aligned_def)
  define mt where "mt = later_min_tpos ?t - later_min_tpos ?t mod 8192"
  have mt: "mt mod 8192 = 0" "mt \<le> later_min_tpos ?t" by (simp_all add: mt_def mod_diff_right_eq)
  have unch: "s = wheel (\<lambda>t. t\<lparr>later_min_tpos := later_min_tpos ?t,
     later_min_tpos_slot := later_min_tpos_slot ?t\<rparr>) s" by (simp add: wheel_def)
  define tmp where "tmp = (mt - later_pos ?t) div 8192"
  have cd: "cdiv (mt - later_pos ?t) 8192 = tmp" if "\<not> mt \<le> later_pos ?t"
    using that by (simp add: cdiv_def tmp_def)
  define b where "b = max (later_pos ?t) mt"
  have b: "b mod 8192 = 0" using al(1) mt(1) by (auto simp: b_def max_def)
  have low: "b \<le> timeout_pos (tmr s x)" if "x \<in> active s" "in_later (tslot (tmr s x))" for x
    using later_placed(2,3) [OF inv that] mt(2) by (auto simp: b_def)
  have bl: "b + 8192 * k \<le> due (tmr s x) + 8192"
    if "x \<in> active s" "in_later (tslot (tmr s x))"
      "\<forall>j. 0 \<le> j \<and> j < k \<longrightarrow> tw_w ?t (later_slot (b + 8192 * j)) = None \<or>
           tw_scnt ?t (later_slot (b + 8192 * j) div 512) = 0" for x k
    using later_block_skip [OF inv that(1,2) b low [OF that(1,2)] that(3)] later_placed(4) [OF inv that(1,2)]
    by simp
  show thesis
  proof (cases "\<not> mt \<le> later_pos ?t \<and> tmp \<ge> 16384")
    case True
    then have "find_later s = Some (mt - 8192, False, s)"
      by (simp add: find_later_def Let_def pos_mask mt_def [symmetric] cd)
    then have "find_later s = Some (mt - 8192, False, wheel (\<lambda>t. t\<lparr>later_min_tpos := later_min_tpos ?t,
         later_min_tpos_slot := later_min_tpos_slot ?t\<rparr>) s)" using unch by simp
    then show thesis
    proof (rule that)
      show "tw_pos ?t < mt - 8192" using True al by simp
      show "mt - 8192 \<le> due (tmr s x)" if "x \<in> active s" "in_later (tslot (tmr s x))" for x
        using bl [OF that, of 0] True by (simp add: b_def max_def)
      show "later_pos ?t \<le> later_min_tpos ?t" using True mt(2) by simp
    qed (rule later_placed(3) [OF inv])
  next
    case False
    define slots where "slots = (if mt \<le> later_pos ?t then 16384 else 16384 - tmp)"
    have sl: "slots > 0" using False by (auto simp: slots_def)
    have pr: "(if mt \<le> later_pos ?t then (later_pos ?t, 16384) else (mt, 16384 - tmp)) = (b, slots)"
      by (auto simp: b_def slots_def)
    have eq: "find_later s =
      do { (slot, tpos, true_min) \<leftarrow>
             (if tw_w ?t (later_slot b) \<noteq> None then Some (later_slot b, b, True)
              else do { (slot, slots, tpos, ix) \<leftarrow> scnt_later_wheel_next (later_slot b) slots b (tw_scnt ?t);
                        Some (slot, tpos, False) });
           Some (tpos - 8192, true_min,
             wheel (\<lambda>t. t\<lparr>later_min_tpos := tpos, later_min_tpos_slot := slot\<rparr>) s) }"
      using False pr cd
      by (auto simp: find_later_def Let_def pos_mask mt_def [symmetric] b_def slots_def)
    show thesis
    proof (cases "tw_w ?t (later_slot b) = None")
      case no: False
      then have "find_later s = Some (b - 8192, True,
          wheel (\<lambda>t. t\<lparr>later_min_tpos := b, later_min_tpos_slot := later_slot b\<rparr>) s)"
        using eq by auto
      then show thesis
      proof (rule that)
        show "tw_pos ?t < b - 8192" using al by (simp add: b_def)
        show "b - 8192 \<le> due (tmr s x)" if "x \<in> active s" "in_later (tslot (tmr s x))" for x
          using bl [OF that, of 0] by simp
        show "later_pos ?t \<le> b" by (simp add: b_def)
      qed (rule low)
    next
      case em: True
      obtain k where k: "scnt_wheel_next (later_slot b) slots b (tw_scnt ?t) 16384 32768 8192 =
         Some (wrap 16384 32768 (later_slot b) k, slots - k, b + 8192 * k,
               wrap 16384 32768 (later_slot b) k div 512)" "1 \<le> k"
        "\<forall>j. 1 \<le> j \<and> j < k \<longrightarrow> tw_scnt ?t (wrap 16384 32768 (later_slot b) j div 512) = 0"
        using scnt_wheel_next_spec [of 16384 32768 "later_slot b" slots b "tw_scnt ?t" 8192]
          in_later_slot [of b] sl by (auto simp: in_later_def is_slot_def)
      have sk: "\<forall>j. 0 \<le> j \<and> j < k \<longrightarrow> tw_w ?t (later_slot (b + 8192 * j)) = None \<or>
           tw_scnt ?t (later_slot (b + 8192 * j) div 512) = 0"
      proof (intro allI impI)
        fix j assume j: "0 \<le> j \<and> j < k"
        show "tw_w ?t (later_slot (b + 8192 * j)) = None \<or>
           tw_scnt ?t (later_slot (b + 8192 * j) div 512) = 0"
        proof (cases "j = 0")
          case False
          then have "tw_scnt ?t (wrap 16384 32768 (later_slot b) j div 512) = 0" using j k(3) by simp
          then show ?thesis by (simp add: later_wrap [OF b])
        qed (use em in simp)
      qed
      have "find_later s = Some (b + 8192 * k - 8192, False,
          wheel (\<lambda>t. t\<lparr>later_min_tpos := b + 8192 * k,
                        later_min_tpos_slot := later_slot (b + 8192 * k)\<rparr>) s)"
        unfolding eq using em k(1) by (simp add: scnt_later_wheel_next_def later_wrap [OF b])
      moreover have "b + 8192 * k \<le> timeout_pos (tmr s x)"
        if "x \<in> active s" "in_later (tslot (tmr s x))" for x
        using bl [OF that sk] later_placed(4) [OF inv that] pos_mod_sign [of 8192 "timeout_pos (tmr s x)"]
        by linarith
      moreover have "tw_pos ?t < b + 8192 * k - 8192" using al k(2) by (auto simp: b_def)
      moreover have "b + 8192 * k - 8192 \<le> due (tmr s x)"
        if "x \<in> active s" "in_later (tslot (tmr s x))" for x using bl [OF that sk] by simp
      moreover have "later_pos ?t \<le> b + 8192 * k" using k(2) by (simp add: b_def)
      ultimately show thesis by (intro that)
    qed
  qed
qed

lemma find_soon_spec:
  assumes inv: "tw_inv s"
  obtains m where
    "find_soon s = Some (m, True, wheel (\<lambda>t. t\<lparr>soon_min_tpos := m\<rparr>) s)"
    "tw_pos (tiw s) < m"
    "\<And>x. x \<in> active s \<Longrightarrow> in_later (tslot (tmr s x)) \<Longrightarrow> m \<le> due (tmr s x)"
    "\<And>x. x \<in> active s \<Longrightarrow> in_soon (tslot (tmr s x)) \<Longrightarrow> m \<le> timeout_pos (tmr s x)"
proof -
  let ?t = "tiw s"
  define b where "b = max (tw_pos ?t) (soon_min_tpos ?t)"
  note lim = find_soon_limit_spec [OF inv]
  have low: "\<forall>x \<in> active s. in_soon (tslot (tmr s x)) \<longrightarrow> b \<le> timeout_pos (tmr s x)"
    using soon_placed(2,4) [OF inv] by (auto simp: b_def less_imp_le)
  obtain m where m: "find_soon_loop ?t (soon_slot b) (tw_pos ?t + 16384 - b) b (find_soon_limit ?t) = Some m"
    "m \<le> find_soon_limit ?t"
    "\<forall>x \<in> active s. in_soon (tslot (tmr s x)) \<longrightarrow> m \<le> timeout_pos (tmr s x)"
    "m = find_soon_limit ?t \<or> (\<exists>x \<in> active s. in_soon (tslot (tmr s x)) \<and> timeout_pos (tmr s x) = m)"
    using find_soon_loop_spec [OF inv lim(2) _ refl refl low] by (auto simp: b_def)
  have pr: "(if soon_min_tpos ?t \<le> tw_pos ?t then (tw_pos ?t, ERTS_TW_SOON_WHEEL_SIZE)
         else (soon_min_tpos ?t, ERTS_TW_SOON_WHEEL_SIZE - (soon_min_tpos ?t - tw_pos ?t)))
       = (b, tw_pos ?t + 16384 - b)"
    by (auto simp: b_def)
  have "find_soon s = Some (m, True, wheel (\<lambda>t. t\<lparr>soon_min_tpos := m\<rparr>) s)"
    unfolding find_soon_def Let_def pr using m(1) by simp
  moreover have "tw_pos ?t < m" using m(4) lim(1) soon_placed(2) [OF inv] by auto
  ultimately show thesis using that m(2,3) lim(3) by (meson order_trans)
qed

lemma find_done_fields:
  "fst (find_done m b s) = ERTS_CLKTCKS_TO_MONOTONIC (min m (tw_pos (tiw s) + 604800000))"
  "tmr (snd (find_done m b s)) = tmr s" "same_wheel (tiw s) (tiw (snd (find_done m b s)))"
  "next_timeout_pos (tiw (snd (find_done m b s))) = min m (tw_pos (tiw s) + 604800000)"
  "next_timeout_time (tiw (snd (find_done m b s))) =
     ERTS_CLKTCKS_TO_MONOTONIC (min m (tw_pos (tiw s) + 604800000))"
  "env_mtime (snd (find_done m b s)) = env_mtime s"
  by (simp_all add: find_done_def Let_def wheel_def same_wheel_def min_def)

lemma no_at_once:
  assumes "tw_inv s" "at_once_nto (tiw s) = 0" "x \<in> active s"
  shows "in_soon (tslot (tmr s x)) \<or> in_later (tslot (tmr s x))"
proof -
  obtain L where L: "links L [] s" and c: "counts s" using assms(1) by (auto simp: tw_inv_def)
  have "cnt s (\<lambda>sl. sl = -1) < 2 ^ 64" "finite (active s)"
    using c cnt_le [of s "\<lambda>sl. sl = -1"] by (auto simp: counts_def)
  moreover have "(of_nat (cnt s (\<lambda>sl. sl = -1)) :: u64) = 0"
    using c assms(2) by (simp add: counts_def wheel_counts_def)
  ultimately have "tslot (tmr s x) \<noteq> -1"
    using of_nat_0_iff [of "cnt s (\<lambda>sl. sl = -1)"] cnt_0_iff [of s "\<lambda>sl. sl = -1"] assms(3) by auto
  then show ?thesis using slot_cases [OF links_active_slot [OF L assms(3)]] by blast
qed

lemma no_soon:
  assumes "tw_inv s" "soon_nto (tiw s) = 0" "x \<in> active s"
  shows "\<not> in_soon (tslot (tmr s x))"
proof -
  have c: "counts s" using assms(1) by (auto simp: tw_inv_def)
  have "cnt s in_soon < 2 ^ 64" "finite (active s)" "(of_nat (cnt s in_soon) :: u64) = 0"
    using c cnt_le [of s in_soon] assms(2) by (auto simp: counts_def wheel_counts_def)
  then show ?thesis using of_nat_0_iff [of "cnt s in_soon"] cnt_0_iff [of s in_soon] assms(3) by auto
qed

text \<open>
  \<open>find_next_timeout\<close> under its own assertion that nothing is to be triggered at once: it returns
  the time of a tick after the current position at which no timer is overdue, and keeps the wheel.
\<close>

lemma find_next_timeout_spec:
  assumes inv: "tw_inv s" and ao: "at_once_nto (tiw s) = 0"
  obtains s' where "find_next_timeout s = Some (next_timeout_time (tiw s'), s')"
    "tw_inv s'" "tmr s' = tmr s" "active s' = active s" "tw_pos (tiw s') < next_timeout_pos (tiw s')"
    "active s \<noteq> {} \<Longrightarrow> tw_pos (tiw s') = tw_pos (tiw s)" "sentinel (tiw s') = sentinel (tiw s)"
    "at_once_nto (tiw s') = 0" "env_mtime s' = env_mtime s"
    "active s = {} \<Longrightarrow> tw_pos (tiw s') = ERTS_MONOTONIC_TO_CLKTCKS (env_mtime s (calls s))"
    "later_min_tpos (tiw s') = later_min_tpos (tiw s) \<or>
       later_pos (tiw s') \<le> later_min_tpos (tiw s') \<and>
         (\<exists>x \<in> active s. in_later (tslot (tmr s x)))"
    "active s \<noteq> {} \<Longrightarrow> later_pos (tiw s') = later_pos (tiw s)"
proof (cases "tw_nto (tiw s) = 0")
  case True
  define c where "c = ERTS_MONOTONIC_TO_CLKTCKS (env_mtime s (calls s))"
  define s1 where "s1 = wheel (\<lambda>t. t\<lparr>tw_pos := c, later_pos :=
     (c + 16384) AND ERTS_TW_LATER_WHEEL_POS_MASK\<rparr>) (s\<lparr>calls := Suc (calls s)\<rparr>)"
  let ?s = "snd (find_done (c + 604800000) False s1)"
  have cn: "counts s" using inv by (simp add: tw_inv_def)
  then have a: "active s = {}"
    using True of_nat_0_iff [of "card (active s)"] by (simp add: counts_def)
  have s1: "tmr s1 = tmr s" "tw_pos (tiw s1) = c" "sentinel (tiw s1) = sentinel (tiw s)"
    "later_pos (tiw s1) = (c + 16384) AND ERTS_TW_LATER_WHEEL_POS_MASK"
    "tw_w (tiw s1) = tw_w (tiw s)" "tw_scnt (tiw s1) = tw_scnt (tiw s)"
    "tw_nto (tiw s1) = tw_nto (tiw s)" "at_once_nto (tiw s1) = at_once_nto (tiw s)"
    "soon_nto (tiw s1) = soon_nto (tiw s)" "later_nto (tiw s1) = later_nto (tiw s)"
    "yield_slot (tiw s1) = yield_slot (tiw s)" "env_mtime s1 = env_mtime s"
    "later_min_tpos (tiw s1) = later_min_tpos (tiw s)" by (simp_all add: s1_def wheel_def)
  note d = find_done_fields [where m = "c + 604800000" and b = False and s = s1]
  have w: "sentinel (tiw ?s) = sentinel (tiw s)" "tw_pos (tiw ?s) = c" "tw_w (tiw ?s) = tw_w (tiw s)"
    using d(3) s1 by (simp_all add: same_wheel_def)
  have a': "active ?s = active s" "cnt ?s P = cnt s P" for P
    by (rule active_cong; simp add: d s1 w)+
  obtain L where L: "links L [] s" using inv by (auto simp: tw_inv_def)
  have "links L [] ?s" using L by (subst links_cong [of _ s]) (simp_all add: d s1 w)
  moreover have "counts ?s" using cn d(3)
    by (simp add: counts_def wheel_counts_def a' same_wheel_def s1)
  moreover have "aligned (tiw ?s)" using d(3) later_pos_aligned [of c]
    by (simp add: aligned_def d same_wheel_def s1)
  moreover have "yield_slot (tiw ?s) = ERTS_TW_SLOT_INACTIVE"
    using inv d(3) by (simp add: tw_inv_def same_wheel_def s1)
  ultimately have i: "tw_inv ?s" using a a' unfolding tw_inv_def by auto
  have n: "find_next_timeout s = Some (next_timeout_time (tiw ?s), ?s)"
    using True d(1,5) by (simp add: find_next_timeout_def erts_get_monotonic_time_def Let_def
        c_def [symmetric] s1_def [symmetric] prod_eq_iff)
  moreover have "at_once_nto (tiw ?s) = 0" "later_min_tpos (tiw ?s) = later_min_tpos (tiw s)"
    using ao d(3) by (simp_all add: same_wheel_def s1)
  ultimately show thesis using that [OF n i] d s1(1,2,12) a a' w by (simp add: c_def [symmetric])
next
  case False
  obtain m b s1 where r: "(if soon_nto (tiw s) = 0 then find_later s else find_soon s) = Some (m, b, s1)"
    and m: "tw_pos (tiw s) < m" "\<And>x. x \<in> active s \<Longrightarrow> m \<le> due (tmr s x)"
    and s1: "tmr s1 = tmr s" "tw_w (tiw s1) = tw_w (tiw s)" "tw_scnt (tiw s1) = tw_scnt (tiw s)"
      "tw_pos (tiw s1) = tw_pos (tiw s)" "later_pos (tiw s1) = later_pos (tiw s)"
      "tw_nto (tiw s1) = tw_nto (tiw s)" "at_once_nto (tiw s1) = at_once_nto (tiw s)"
      "soon_nto (tiw s1) = soon_nto (tiw s)" "later_nto (tiw s1) = later_nto (tiw s)"
      "yield_slot (tiw s1) = yield_slot (tiw s)" "sentinel (tiw s1) = sentinel (tiw s)"
      "env_mtime s1 = env_mtime s"
    and lm: "later_min_tpos (tiw s1) = later_min_tpos (tiw s) \<or>
       later_pos (tiw s) \<le> later_min_tpos (tiw s1) \<and> (\<exists>x \<in> active s. in_later (tslot (tmr s x)))"
    and mins: "\<And>x. x \<in> active s \<Longrightarrow> in_soon (tslot (tmr s x)) \<Longrightarrow> soon_min_tpos (tiw s1) \<le> timeout_pos (tmr s x)"
      "\<And>x. x \<in> active s \<Longrightarrow> in_later (tslot (tmr s x)) \<Longrightarrow> later_min_tpos (tiw s1) \<le> timeout_pos (tmr s x)"
  proof (cases "soon_nto (tiw s) = 0")
    case True
    obtain m b mp ms where l:
      "find_later s = Some (m, b, wheel (\<lambda>t. t\<lparr>later_min_tpos := mp, later_min_tpos_slot := ms\<rparr>) s)"
      "tw_pos (tiw s) < m"
      "\<And>x. x \<in> active s \<Longrightarrow> in_later (tslot (tmr s x)) \<Longrightarrow> m \<le> due (tmr s x)"
      "\<And>x. x \<in> active s \<Longrightarrow> in_later (tslot (tmr s x)) \<Longrightarrow> mp \<le> timeout_pos (tmr s x)"
      "later_pos (tiw s) \<le> mp"
      using find_later_spec [OF inv] by metis
    have "m \<le> due (tmr s x)" if "x \<in> active s" for x
      using no_at_once [OF inv ao that] no_soon [OF inv True that] l(3) [OF that] by blast
    moreover have "\<exists>x \<in> active s. in_later (tslot (tmr s x))"
    proof -
      have "card (active s) \<noteq> 0"
        using False inv by (auto simp: tw_inv_def counts_def)
      then obtain x where "x \<in> active s" by force
      then show ?thesis using no_at_once [OF inv ao] no_soon [OF inv True] by blast
    qed
    ultimately show thesis using True l soon_placed(4) [OF inv]
      by (intro that [of m b "wheel (\<lambda>t. t\<lparr>later_min_tpos := mp, later_min_tpos_slot := ms\<rparr>) s"])
        (simp_all add: wheel_def)
  next
    case False
    obtain m where l: "find_soon s = Some (m, True, wheel (\<lambda>t. t\<lparr>soon_min_tpos := m\<rparr>) s)"
      "tw_pos (tiw s) < m"
      "\<And>x. x \<in> active s \<Longrightarrow> in_later (tslot (tmr s x)) \<Longrightarrow> m \<le> due (tmr s x)"
      "\<And>x. x \<in> active s \<Longrightarrow> in_soon (tslot (tmr s x)) \<Longrightarrow> m \<le> timeout_pos (tmr s x)"
      using find_soon_spec [OF inv] by metis
    have "m \<le> due (tmr s x)" if "x \<in> active s" for x
    proof (cases "in_later (tslot (tmr s x))")
      case False
      then have "in_soon (tslot (tmr s x))" using no_at_once [OF inv ao that] by blast
      then show ?thesis using l(4) [OF that] False by (simp add: due_def)
    qed (rule l(3) [OF that])
    then show thesis using False l later_placed(3) [OF inv]
      by (intro that [of m True "wheel (\<lambda>t. t\<lparr>soon_min_tpos := m\<rparr>) s"]) (simp_all add: wheel_def)
  qed
  let ?s = "snd (find_done m b s1)"
  note d = find_done_fields [where m = m and b = b and s = s1]
  have n: "find_next_timeout s = Some (next_timeout_time (tiw ?s), ?s)"
    using False r d(1,5) by (simp add: find_next_timeout_def prod_eq_iff)
  have "next_timeout_pos (tiw ?s) \<le> due (tmr s x)" if "x \<in> active s" for x
    using m(2) [OF that] by (simp add: d min.coboundedI1)
  then have "tw_inv ?s" "active ?s = active s"
    by (intro tw_inv_minI [OF inv]; use d(3) in \<open>simp add: d s1 mins same_wheel_def\<close>)+
  moreover have "tw_pos (tiw ?s) = tw_pos (tiw s)" "sentinel (tiw ?s) = sentinel (tiw s)"
    "at_once_nto (tiw ?s) = 0" using d(3) s1 ao by (simp_all add: same_wheel_def)
  moreover have "tmr ?s = tmr s" "tw_pos (tiw s) < next_timeout_pos (tiw ?s)" "env_mtime ?s = env_mtime s"
    using m(1) by (simp_all add: d s1)
  moreover have "active s \<noteq> {}" using False inv by (auto simp: tw_inv_def counts_def)
  moreover have "later_min_tpos (tiw ?s) = later_min_tpos (tiw s1)" "later_pos (tiw ?s) = later_pos (tiw s)"
    using d(3) s1 by (simp_all add: same_wheel_def)
  ultimately show thesis using that [OF n] lm by simp
qed

end
