(* ===== verification/TimerWheelReach.thy ===== *)
theory TimerWheelReach
  imports TimerWheelThms
begin

text \<open>
  The wheel before its first bump: a state machine whose steps are setting, cancelling and asking for the
  next timeout. Setting and cancelling refine updates of a finite map from timers to ticks; asking
  always answers, and never with a time after that of a pending timer. (The states that bumps lead to are
  the subject of \<open>TimerBumpThms\<close>.)
\<close>

subsection \<open>Setting and cancelling refine map updates\<close>

text \<open>
  The pending timers are read off the wheel: those on the circular list of a slot, with the tick they
  carry. The timer's own \<open>slot\<close> field has no say in it.
\<close>

definition in_wheel :: "tw_state \<Rightarrow> addr \<Rightarrow> bool" where
  "in_wheel s p \<longleftrightarrow>
     (\<exists>sl xs. is_slot sl \<and> circ (tmr s) (tw_w (tiw s) sl) xs \<and> distinct xs \<and> p \<in> set xs)"

definition pending :: "tw_state \<Rightarrow> addr \<rightharpoonup> int" where
  "pending s p = (if in_wheel s p then Some (timeout_pos (tmr s p)) else None)"

lemma chain_unique:
  "chain h a xs b \<Longrightarrow> chain h a ys b \<Longrightarrow> b \<notin> set xs \<Longrightarrow> b \<notin> set ys \<Longrightarrow> xs = ys"
proof (induction xs arbitrary: a ys)
  case Nil
  then show ?case by (cases ys) auto
next
  case (Cons x xs)
  then show ?case by (cases ys) auto
qed

lemma circ_unique:
  assumes "circ h q xs" "circ h q ys" "distinct xs" "distinct ys"
  shows "xs = ys"
  using assms by (cases xs; cases ys) (auto intro: chain_unique)

lemma in_wheel_active:
  assumes "tw_inv s"
  shows "in_wheel s p \<longleftrightarrow> p \<in> active s"
proof
  obtain L where L: "links L [] s" using assms by (auto simp: tw_inv_def)
  {
    assume "in_wheel s p"
    then obtain sl xs where x: "is_slot sl" "circ (tmr s) (tw_w (tiw s) sl) xs" "distinct xs" "p \<in> set xs"
      by (auto simp: in_wheel_def)
    have "xs = L sl" by (rule circ_unique [OF x(2) linksD(1) [OF L x(1)] x(3) linksD(2) [OF L x(1)]])
    with x(4) links_mem_active [OF L] show "p \<in> active s" by blast
  }
  assume a: "p \<in> active s"
  let ?sl = "tslot (tmr s p)"
  have "is_slot ?sl" "p \<in> set (L ?sl)" using links_active_slot [OF L a] linksD(11) [OF L a] by simp_all
  then show "in_wheel s p" using linksD(1,2) [OF L, of ?sl] by (auto simp: in_wheel_def)
qed

lemma pending_active:
  "tw_inv s \<Longrightarrow> pending s p = (if p \<in> active s then Some (timeout_pos (tmr s p)) else None)"
  by (simp add: pending_def in_wheel_active)

lemma dom_pending: "tw_inv s \<Longrightarrow> dom (pending s) = active s"
  by (auto simp: pending_active split: if_splits)

datatype tw_cmd = Set addr addr addr int | Cancel addr

fun tw_exec :: "tw_cmd \<Rightarrow> tw_state \<Rightarrow> unit \<times> tw_state" where
  "tw_exec (Set p timeout arg tpos) s = ((), erts_twheel_set_timer p timeout arg tpos s)"
| "tw_exec (Cancel p) s = ((), erts_twheel_cancel_timer p s)"

record tw_abs =
  abs_pos :: int
  abs_sentinel :: addr
  abs_pending :: "addr \<rightharpoonup> int"

definition tw_abs_of :: "tw_state \<Rightarrow> tw_abs" where
  "tw_abs_of s = \<lparr>abs_pos = tw_pos (tiw s), abs_sentinel = sentinel (tiw s), abs_pending = pending s\<rparr>"

fun abs_exec :: "tw_cmd \<Rightarrow> tw_abs \<Rightarrow> unit \<times> tw_abs" where
  "abs_exec (Set p _ _ tpos) a =
     ((), a\<lparr>abs_pending := (abs_pending a)(p \<mapsto> max tpos (abs_pos a))\<rparr>)"
| "abs_exec (Cancel p) a = ((), a\<lparr>abs_pending := (abs_pending a)(p := None)\<rparr>)"

text \<open>A timer is set when it is not pending; the counters have 64 bits.\<close>

fun abs_pre :: "tw_cmd \<Rightarrow> tw_abs \<Rightarrow> bool" where
  "abs_pre (Set p _ _ _) a \<longleftrightarrow> p \<noteq> abs_sentinel a \<and> p \<notin> dom (abs_pending a) \<and>
     card (dom (abs_pending a)) + 1 < 2 ^ 64"
| "abs_pre (Cancel p) a \<longleftrightarrow> p \<noteq> abs_sentinel a"

lemma set_timer_pending:
  assumes "tw_inv s" "p \<noteq> sentinel (tiw s)" "p \<notin> active s" "card (active s) + 1 < 2 ^ 64"
  shows "pending (erts_twheel_set_timer p timeout arg tpos s) = (pending s)(p \<mapsto> max tpos (tw_pos (tiw s)))"
  using assms
  by (auto simp: pending_active set_timer_inv [OF assms] set_timer_fields fun_eq_iff)

lemma cancel_timer_pending:
  assumes "tw_inv s" "p \<noteq> sentinel (tiw s)"
  shows "pending (erts_twheel_cancel_timer p s) = (pending s)(p := None)"
  using cancel_timer_inv(2,3) [OF assms]
  by (auto simp: pending_active assms(1) cancel_timer_inv(1) [OF assms] fun_eq_iff)

interpretation tw: data_refinement tw_inv tw_abs_of abs_pre tw_exec abs_exec
proof
  fix s c assume inv: "tw_inv s" and pre: "abs_pre c (tw_abs_of s)"
  show "fst (tw_exec c s) = fst (abs_exec c (tw_abs_of s))" by (cases c) simp_all
  show "tw_abs_of (snd (tw_exec c s)) = snd (abs_exec c (tw_abs_of s))"
  proof (cases c)
    case (Set p timeout arg tpos)
    then have "p \<noteq> sentinel (tiw s)" "p \<notin> active s" "card (active s) + 1 < 2 ^ 64"
      using pre by (auto simp: tw_abs_of_def dom_pending [OF inv])
    with Set show ?thesis by (simp add: tw_abs_of_def set_timer_pending [OF inv] set_timer_fields)
  next
    case (Cancel p)
    then have "p \<noteq> sentinel (tiw s)" using pre by (simp add: tw_abs_of_def)
    with Cancel show ?thesis
      by (simp add: tw_abs_of_def cancel_timer_pending [OF inv] cancel_timer_inv(4,5) [OF inv])
  qed
  show "tw_inv (snd (tw_exec c s))"
  proof (cases c)
    case (Set p timeout arg tpos)
    then have "p \<noteq> sentinel (tiw s)" "p \<notin> active s" "card (active s) + 1 < 2 ^ 64"
      using pre by (auto simp: tw_abs_of_def dom_pending [OF inv])
    with Set show ?thesis by (simp add: set_timer_inv [OF inv])
  next
    case (Cancel p)
    then show ?thesis using pre cancel_timer_inv(1) [OF inv, of p] by (simp add: tw_abs_of_def)
  qed
qed

subsection \<open>The cache of the next timeout\<close>

text \<open>
  Before the first bump the cached next timeout is after the current position unless it is exact, and the
  minimum known for the later wheel is not before the wheel's position. The clock stays one wheel
  width before the end of its range.
\<close>

definition clock_ok :: "tw_state \<Rightarrow> bool" where
  "clock_ok s \<longleftrightarrow> (\<forall>n. ERTS_MONOTONIC_TO_CLKTCKS (env_mtime s n) + ERTS_TW_SOON_WHEEL_SIZE \<le> ERTS_MAX_CLKTCKS)"

definition tw_ready :: "tw_state \<Rightarrow> bool" where
  "tw_ready s \<longleftrightarrow> tw_inv s \<and> clock_ok s \<and>
     tw_pos (tiw s) + ERTS_TW_SOON_WHEEL_SIZE \<le> ERTS_MAX_CLKTCKS \<and>
     (true_next_timeout_time (tiw s) \<or> tw_pos (tiw s) < next_timeout_pos (tiw s)) \<and>
     later_pos (tiw s) \<le> later_min_tpos (tiw s) \<and>
     ((\<forall>x \<in> active s. \<not> in_later (tslot (tmr s x))) \<longrightarrow> later_min_tpos (tiw s) = ERTS_MAX_CLKTCKS)"

lemma pon_timer_wheel_arm_env [simp]: "env_mtime (pon_timer_wheel_arm s) = env_mtime s"
  by (simp add: pon_timer_wheel_arm_def pon_timer_wheel_open_def env_defs Let_def split_beta)

lemma set_timer_cache:
  fixes s p timeout arg tpos
  defines "s' \<equiv> erts_twheel_set_timer p timeout arg tpos s"
    and "slot \<equiv> fst (calculate_slot (tw_pos (tiw s)) tpos)"
    and "at \<equiv> snd (calculate_slot (tw_pos (tiw s)) tpos)"
  shows "env_mtime s' = env_mtime s" "later_pos (tiw s') = later_pos (tiw s)"
    and "true_next_timeout_time (tiw s') =
           (at \<le> next_timeout_pos (tiw s) \<or> true_next_timeout_time (tiw s))"
    and "next_timeout_pos (tiw s') = min at (next_timeout_pos (tiw s))"
    and "later_min_tpos (tiw s') =
           (if in_later slot then min (max tpos (tw_pos (tiw s))) (later_min_tpos (tiw s))
            else later_min_tpos (tiw s))"
proof -
  let ?s = "insert_timer_into_slot slot p (set_prepare p timeout arg tpos s)"
  have s': "s' = set_next at ?s" unfolding s'_def slot_def at_def by (rule set_timer_steps)
  have sl: "is_slot slot" unfolding slot_def by (rule calculate_slot_is_slot)
  have w: "same_wheel (tiw ?s) (tiw s')" by (simp add: s')
  have e: "env_mtime ?s = env_mtime s"
    by (simp add: insert_timer_into_slot_def set_prepare_def env_defs Let_def split: option.split)
  have "true_next_timeout_time (insert_count sl tp t) = true_next_timeout_time t" for sl tp t
    by (simp add: insert_count_def Let_def)
  then have e2: "true_next_timeout_time (tiw ?s) = true_next_timeout_time (tiw s)"
    by (simp add: insert_timer_tiw set_prepare_def env_defs Let_def split: option.split)
  show "env_mtime s' = env_mtime s"
    using e by (simp add: s' set_next_def Let_def wheel_def)
  show "true_next_timeout_time (tiw s') =
      (at \<le> next_timeout_pos (tiw s) \<or> true_next_timeout_time (tiw s))"
    using e2 by (simp add: s' set_next_def Let_def wheel_def insert_timer_sel)
  show "next_timeout_pos (tiw s') = min at (next_timeout_pos (tiw s))"
    by (simp add: s' insert_timer_sel)
  show "later_pos (tiw s') = later_pos (tiw s)" using w by (simp add: same_wheel_def insert_timer_sel)
  show "later_min_tpos (tiw s') =
           (if in_later slot then min (max tpos (tw_pos (tiw s))) (later_min_tpos (tiw s))
            else later_min_tpos (tiw s))"
    using w by (simp add: same_wheel_def insert_timer_sel [OF] sl)
qed

lemma set_timer_ready:
  assumes r: "tw_ready s" and p: "p \<noteq> sentinel (tiw s)" "p \<notin> active s"
    and room: "card (active s) + 1 < 2 ^ 64"
  shows "tw_ready (erts_twheel_set_timer p timeout arg tpos s)" (is "tw_ready ?s'")
proof -
  define slot where "slot = fst (calculate_slot (tw_pos (tiw s)) tpos)"
  note c = set_timer_cache [of p timeout arg tpos s, folded slot_def]
  note f = set_timer_fields [OF p(1), where timeout = timeout and arg = arg and tpos = tpos, folded slot_def]
  have inv: "tw_inv s" and al: "later_pos (tiw s) \<le> tw_pos (tiw s) + 16384"
    using r by (simp_all add: tw_ready_def tw_inv_def aligned_def)
  have late: "tw_pos (tiw s) + 16384 \<le> tpos" if "in_later slot"
    using that in_soon_slot(1) [of tpos]
    by (auto simp: slot_def calculate_slot_def in_later_def in_soon_def split: if_splits)
  have "tw_inv ?s'" by (rule set_timer_inv [OF inv p room])
  moreover have "true_next_timeout_time (tiw ?s') \<or> tw_pos (tiw ?s') < next_timeout_pos (tiw ?s')"
    using r by (auto simp: c f tw_ready_def)
  moreover have "later_pos (tiw ?s') \<le> later_min_tpos (tiw ?s')"
    using r al late by (auto simp: c tw_ready_def)
  moreover have "later_min_tpos (tiw ?s') = ERTS_MAX_CLKTCKS"
    if n: "\<forall>x \<in> active ?s'. \<not> in_later (tslot (tmr ?s' x))"
  proof -
    have "\<not> in_later slot" using n f(1) [of p] f(3) by auto
    moreover have "\<forall>x \<in> active s. \<not> in_later (tslot (tmr s x))"
      using n f(1,3) p(2) by (metis insertCI)
    ultimately show ?thesis using r by (simp add: c tw_ready_def)
  qed
  ultimately show ?thesis using r by (simp add: tw_ready_def clock_ok_def c f)
qed

lemma remove_count_true:
  assumes "is_slot slot" "yield_slot t = ERTS_TW_SLOT_INACTIVE" "later_pos t mod 8192 = 0"
    and "tw_pos t + 8192 < later_pos t" "later_pos t \<le> later_min_tpos t"
    and "in_soon slot \<Longrightarrow> tw_pos t < tpos"
    and "true_next_timeout_time t \<or> tw_pos t < next_timeout_pos t"
  shows "true_next_timeout_time (remove_count slot tpos e t) \<or> tw_pos t < next_timeout_pos t"
proof -
  have "later_pos t \<le> later_min_tpos t - later_min_tpos t mod 8192"
  proof -
    have "later_pos t div 8192 \<le> later_min_tpos t div 8192" using assms(5) by (rule zdiv_mono1) simp
    moreover have "later_pos t = 8192 * (later_pos t div 8192)" using assms(3) by auto
    ultimately show ?thesis by (simp add: minus_mod_eq_mult_div)
  qed
  with assms show ?thesis
    by (auto simp: remove_count_def Let_def pos_mask in_soon_def is_slot_def)
qed

lemma cancel_timer_ready:
  assumes r: "tw_ready s" and p: "p \<noteq> sentinel (tiw s)"
  shows "tw_ready (erts_twheel_cancel_timer p s)" (is "tw_ready ?s'")
proof (cases "tslot (tmr s p) = ERTS_TW_SLOT_INACTIVE")
  case True
  then show ?thesis using r by (simp add: erts_twheel_cancel_timer_def)
next
  case False
  have inv: "tw_inv s" using r by (simp add: tw_ready_def)
  have a: "p \<in> active s" using False p by (simp add: active_def)
  obtain L where L: "links L [] s" using inv by (auto simp: tw_inv_def)
  have sl: "is_slot (tslot (tmr s p))" by (rule links_active_slot [OF L a])
  obtain e w where t: "tiw (remove_timer p s) = remove_count (tslot (tmr s p)) (timeout_pos (tmr s p)) e
     ((tiw s)\<lparr>tw_w := w\<rparr>)" using remove_timer_tiw_ex by blast
  have t': "tiw ?s' = (tiw (remove_timer p s))\<lparr>tw_nto := tw_nto (tiw (remove_timer p s)) - 1\<rparr>"
    "tmr ?s' = tmr (remove_timer p s)" "env_mtime ?s' = env_mtime s"
    using False by (auto simp: erts_twheel_cancel_timer_def wheel_def remove_timer_def timer_def Let_def)
  note ca = cancel_timer_inv [OF inv p]
  have "true_next_timeout_time (tiw ?s') \<or> tw_pos (tiw ?s') < next_timeout_pos (tiw ?s')"
    using remove_count_true [OF sl, of "(tiw s)\<lparr>tw_w := w\<rparr>" "timeout_pos (tmr s p)" e] r
      soon_placed(2) [OF inv a]
    by (simp add: t' t tw_ready_def tw_inv_def aligned_def)
  moreover have "later_pos (tiw ?s') \<le> later_min_tpos (tiw ?s')"
    using r by (auto simp: t' t remove_count_min [OF sl] tw_ready_def tw_inv_def aligned_def)
  moreover have "later_min_tpos (tiw ?s') = ERTS_MAX_CLKTCKS"
    if n: "\<forall>x \<in> active ?s'. \<not> in_later (tslot (tmr ?s' x))"
  proof (cases "in_later (tslot (tmr s p))")
    case True
    have cn: "counts s" using inv by (simp add: tw_inv_def)
    have "cnt s in_later = cnt (remove_timer p s) in_later + 1"
      using cnt_remove [OF _ a remove_timer_active refl, of in_later] cn True by (simp add: counts_def)
    moreover have "cnt (remove_timer p s) in_later = 0"
      using n ca(2) cn by (subst cnt_0_iff) (auto simp: remove_timer_active t' counts_def)
    ultimately have "later_nto (tiw s) = 1" using cn by (simp add: counts_def wheel_counts_def)
    then show ?thesis using True by (simp add: t' t remove_count_min [OF sl])
  next
    case no: False
    then have "\<forall>x \<in> active s. \<not> in_later (tslot (tmr s x))"
      using n ca(2) by (metis DiffI remove_timer_fields(1) singletonD t'(2))
    then show ?thesis using r no by (simp add: t' t remove_count_min [OF sl] tw_ready_def)
  qed
  ultimately show ?thesis using r ca(1) by (simp add: tw_ready_def clock_ok_def t' t)
qed

lemma can_skip_frame:
  "tmr (snd (pon_timer_wheel_can_skip_scan s)) = tmr s"
  "tiw (snd (pon_timer_wheel_can_skip_scan s)) = tiw s"
  "env_mtime (snd (pon_timer_wheel_can_skip_scan s)) = env_mtime s"
  by (simp_all add: pon_timer_wheel_can_skip_scan_def Let_def split: option.split)

lemma stat_frame [simp]:
  "tmr (stat f s) = tmr s" "tiw (stat f s) = tiw s" "env_mtime (stat f s) = env_mtime s"
  by (simp_all add: stat_def)

lemma tw_ready_frame:
  assumes "tw_ready s" "tmr s' = tmr s" "tiw s' = tiw s" "env_mtime s' = env_mtime s"
  shows "tw_ready s'" "active s' = active s"
proof -
  have "same_wheel (tiw s) (tiw s')" by (simp add: assms same_wheel_def)
  then show "active s' = active s" using tw_inv_frame(2) [of s s'] assms by (simp add: tw_ready_def)
  moreover have "tw_inv s'" using tw_inv_frame(1) [of s s'] \<open>same_wheel _ _\<close> assms by (simp add: tw_ready_def)
  ultimately show "tw_ready s'" using assms by (simp add: tw_ready_def clock_ok_def)
qed

text \<open>A timer is never due after its timeout.\<close>

lemma due_le: "due m \<le> timeout_pos m"
proof -
  have "0 \<le> timeout_pos m mod 8192" by simp
  then show ?thesis unfolding due_def pos_mask tw_num
    by (cases "in_later (tslot m)"; simp only: if_True if_False; linarith)
qed

text \<open>Without an exact cached timeout nothing waits to be triggered at once.\<close>

lemma ready_at_once:
  assumes r: "tw_ready s" and "\<not> true_next_timeout_time (tiw s)"
  shows "at_once_nto (tiw s) = 0"
proof -
  have inv: "tw_inv s" and n: "tw_pos (tiw s) < next_timeout_pos (tiw s)"
    using assms by (simp_all add: tw_ready_def)
  have "tslot (tmr s x) \<noteq> -1" if "x \<in> active s" for x
  proof
    assume "tslot (tmr s x) = -1"
    moreover from this have "due (tmr s x) = timeout_pos (tmr s x)" by (simp add: due_def in_later_def)
    ultimately show False using inv n that by (force simp: tw_inv_def placed_def)
  qed
  moreover have "finite (active s)" using inv by (simp add: tw_inv_def counts_def)
  ultimately have "cnt s (\<lambda>sl. sl = -1) = 0" by (simp add: cnt_0_iff)
  then show ?thesis using inv by (simp add: tw_inv_def counts_def wheel_counts_def)
qed

lemma find_next_ready:
  assumes r: "tw_ready s" and n: "\<not> true_next_timeout_time (tiw s)"
  obtains s' where "find_next_timeout s = Some (next_timeout_time (tiw s'), s')" "tw_ready s'"
    "tmr s' = tmr s" "active s' = active s"
proof -
  have inv: "tw_inv s" using r by (simp add: tw_ready_def)
  obtain s' where s': "find_next_timeout s = Some (next_timeout_time (tiw s'), s')"
    "tw_inv s'" "tmr s' = tmr s" "active s' = active s" "tw_pos (tiw s') < next_timeout_pos (tiw s')"
    "active s \<noteq> {} \<Longrightarrow> tw_pos (tiw s') = tw_pos (tiw s)" "env_mtime s' = env_mtime s"
    "active s = {} \<Longrightarrow> tw_pos (tiw s') = ERTS_MONOTONIC_TO_CLKTCKS (env_mtime s (calls s))"
    "later_min_tpos (tiw s') = later_min_tpos (tiw s) \<or>
       later_pos (tiw s') \<le> later_min_tpos (tiw s') \<and> (\<exists>x \<in> active s. in_later (tslot (tmr s x)))"
    "active s \<noteq> {} \<Longrightarrow> later_pos (tiw s') = later_pos (tiw s)"
    by (rule find_next_timeout_spec [OF inv ready_at_once [OF r n]]) blast
  have ck: "clock_ok s'" using r by (simp add: tw_ready_def clock_ok_def s'(7))
  have pos: "tw_pos (tiw s') + 16384 \<le> ERTS_MAX_CLKTCKS"
    using r s'(6,8) by (cases "active s = {}") (auto simp: tw_ready_def clock_ok_def)
  have "later_pos (tiw s') \<le> later_min_tpos (tiw s')"
  proof (cases "active s = {}")
    case True
    then have "later_min_tpos (tiw s') = ERTS_MAX_CLKTCKS" using r s'(9) by (auto simp: tw_ready_def)
    moreover have "later_pos (tiw s') \<le> tw_pos (tiw s') + 16384"
      using s'(2) by (simp add: tw_inv_def aligned_def)
    ultimately show ?thesis using pos by simp
  next
    case False
    then show ?thesis using r s'(9,10) by (auto simp: tw_ready_def)
  qed
  then have "tw_ready s'"
    using s'(2-5,9) ck pos r unfolding tw_ready_def by auto
  then show thesis using that s'(1,3,4) by blast
qed

lemma check_next_ready:
  assumes r: "tw_ready s"
  obtains s' where "erts_check_next_timeout_time s = Some (next_timeout_time (tiw s'), s')" "tw_ready s'"
    "tmr s' = tmr s" "active s' = active s"
proof -
  let ?k = "pon_timer_wheel_can_skip_scan s"
  note k = tw_ready_frame [OF r, of "stat f (snd ?k)" for f, simplified can_skip_frame stat_frame, simplified]
  consider "true_next_timeout_time (tiw s) \<or>
      next_timeout_pos (tiw s) > tw_pos (tiw s) + ERTS_TW_SOON_WHEEL_SIZE"
    | "\<not> true_next_timeout_time (tiw s)"
      "\<not> next_timeout_pos (tiw s) > tw_pos (tiw s) + ERTS_TW_SOON_WHEEL_SIZE" "fst ?k"
    | "\<not> true_next_timeout_time (tiw s)"
      "\<not> next_timeout_pos (tiw s) > tw_pos (tiw s) + ERTS_TW_SOON_WHEEL_SIZE" "\<not> fst ?k"
    by blast
  then show thesis
  proof cases
    case 1
    then show thesis using r by (intro that [of s]) (auto simp: erts_check_next_timeout_time_def)
  next
    case 2
    then show thesis using k
      by (intro that [of "stat timer_scans_avoided_update (snd ?k)"])
        (simp_all add: erts_check_next_timeout_time_def Let_def split_beta can_skip_frame)
  next
    case 3
    let ?s = "stat timer_wheel_fallback_update (snd ?k)"
    have "\<not> true_next_timeout_time (tiw ?s)" using 3(1) by (simp add: can_skip_frame)
    from find_next_ready [OF k(1) this] obtain s' where
      "find_next_timeout ?s = Some (next_timeout_time (tiw s'), s')" "tw_ready s'"
      "tmr s' = tmr ?s" "active s' = active ?s" by blast
    then show thesis using 3 k
      by (intro that [of s'])
        (simp_all add: erts_check_next_timeout_time_def Let_def split_beta can_skip_frame)
  qed
qed

lemma create_ready:
  assumes "\<And>p. p \<noteq> sn \<Longrightarrow> tslot (tmr s p) = ERTS_TW_SLOT_INACTIVE" and "clock_ok s"
  shows "tw_ready (erts_create_timer_wheel sn s)" (is "tw_ready ?s")
proof -
  note i = create_timer_wheel_inv [OF assms(1), of sn]
  note f = create_timer_wheel_fields [where sn = sn and s = s]
  have e: "env_mtime ?s = env_mtime s" "later_min_tpos (tiw ?s) = ERTS_MAX_CLKTCKS"
    "next_timeout_pos (tiw ?s) = tw_pos (tiw ?s) + ERTS_CLKTCKS_WEEK"
    using pon_timer_wheel_arm_frame(5) [unfolded same_wheel_def]
    by (simp_all add: erts_create_timer_wheel_def env_defs Let_def)
  have "later_pos (tiw ?s) \<le> tw_pos (tiw ?s) + 16384" using f(11) by (simp add: aligned_def)
  moreover have "tw_pos (tiw ?s) + 16384 \<le> ERTS_MAX_CLKTCKS"
    using assms(2) f(2) unfolding clock_ok_def tw_num by metis
  ultimately show ?thesis using i assms(2) e by (simp add: tw_ready_def clock_ok_def)
qed

subsection \<open>The states before the first bump\<close>

inductive tw_reach :: "tw_state \<Rightarrow> bool" where
  create: "\<lbrakk>\<forall>p. p \<noteq> sn \<longrightarrow> tslot (tmr s p) = ERTS_TW_SLOT_INACTIVE; clock_ok s\<rbrakk> \<Longrightarrow>
     tw_reach (erts_create_timer_wheel sn s)"
| set: "\<lbrakk>tw_reach s; p \<noteq> sentinel (tiw s); tslot (tmr s p) = ERTS_TW_SLOT_INACTIVE;
          card (active s) + 1 < 2 ^ 64\<rbrakk> \<Longrightarrow>
     tw_reach (erts_twheel_set_timer p timeout arg tpos s)"
| cancel: "\<lbrakk>tw_reach s; p \<noteq> sentinel (tiw s)\<rbrakk> \<Longrightarrow> tw_reach (erts_twheel_cancel_timer p s)"
| check: "\<lbrakk>tw_reach s; erts_check_next_timeout_time s = Some (t, s')\<rbrakk> \<Longrightarrow> tw_reach s'"

lemma tw_reach_ready: "tw_reach s \<Longrightarrow> tw_ready s"
proof (induction rule: tw_reach.induct)
  case (create sn s)
  then show ?case by (intro create_ready) auto
next
  case (set s p timeout arg tpos)
  then show ?case by (intro set_timer_ready) (auto simp: active_def)
next
  case (cancel s p)
  then show ?case by (intro cancel_timer_ready)
next
  case (check s t s')
  obtain s'' where "erts_check_next_timeout_time s = Some (next_timeout_time (tiw s''), s'')" "tw_ready s''"
    using check_next_ready [OF check.IH] by blast
  with check.hyps(2) show ?case by simp
qed

subsection \<open>Properties\<close>

definition demo_kernel :: kernel where
  "demo_kernel = \<lparr>open_fds = {}, armed = Map.empty, interest = (\<lambda>_. None)\<rparr>"

text \<open>Memory before the first wheel is created: timers initialised, clock at zero, no timerfd.\<close>

definition demo_tw :: tw_state where
  "demo_tw =
     \<lparr>tmr = (\<lambda>_. \<lparr>timeout_pos = 0, tnext = 0, tprev = 0, ttimeout = 0, targ = 0,
                    tslot = ERTS_TW_SLOT_INACTIVE\<rparr>),
      tiw = \<lparr>tw_w = (\<lambda>_. None), tw_scnt = (\<lambda>_. 0), tw_bump_scnt = (\<lambda>_. 0), tw_pos = 0, tw_nto = 0,
             at_once_nto = 0, soon_min_tpos = 0, soon_nto = 0, later_min_tpos = 0,
             later_min_tpos_slot = 0, later_pos = 0, later_nto = 0, yield_slot = 0,
             yield_slots_left = 0, sentinel = 0, true_next_timeout_time = False,
             next_timeout_pos = 0, next_timeout_time = 0, pon_fd = 0, pon_armed_deadline = 0\<rparr>,
      wkern = demo_kernel, wstats = pon_stats_zero, env_mtime = (\<lambda>_. 0), env_create = (\<lambda>_. -1),
      env_settime = (\<lambda>_. False), env_gettime = (\<lambda>_. None), calls = 0, fired_log = []\<rparr>"

lemma demo_tw_ok:
  "tslot (tmr demo_tw p) = ERTS_TW_SLOT_INACTIVE" "clock_ok demo_tw"
  by (simp_all add: demo_tw_def clock_ok_def ERTS_MONOTONIC_TO_CLKTCKS_def cdiv_def)

text \<open>
  C26. On a newly created wheel any sequence of \<open>erts_twheel_set_timer\<close> and \<open>erts_twheel_cancel_timer\<close>
  calls (timers are set when they are not pending) acts like updates of a finite map from timers to
  ticks, where a timeout in the past becomes the current position. The timers of the map are those that
  are linked into the circular list of a slot of the wheel; the counter \<open>nto\<close> is their number.
\<close>

theorem twheel_set_cancel_is_a_map:
  assumes "\<forall>p. p \<noteq> sn \<longrightarrow> tslot (tmr s p) = ERTS_TW_SLOT_INACTIVE"
    and "a = \<lparr>abs_pos = ERTS_MONOTONIC_TO_CLKTCKS (env_mtime s (calls s)), abs_sentinel = sn,
              abs_pending = Map.empty\<rparr>"
    and "tw.pre_run cmds a"
  shows "tw_abs_of (snd (run tw_exec cmds (erts_create_timer_wheel sn s))) = snd (run abs_exec cmds a) \<and>
     tw_nto (tiw (snd (run tw_exec cmds (erts_create_timer_wheel sn s)))) =
       of_nat (card (dom (abs_pending (snd (run abs_exec cmds a)))))"
proof -
  let ?s = "erts_create_timer_wheel sn s"
  have i: "tw_inv ?s" "active ?s = {}"
    using create_timer_wheel_inv [of sn s] assms(1) by auto
  have "tw_abs_of ?s = a"
    using create_timer_wheel_fields [where sn = sn and s = s] i(2)
    by (simp add: tw_abs_of_def assms(2) pending_active [OF i(1)] fun_eq_iff)
  with tw.run_refines [OF i(1), of cmds] assms(3)
  have r: "tw_abs_of (snd (run tw_exec cmds ?s)) = snd (run abs_exec cmds a)"
    "tw_inv (snd (run tw_exec cmds ?s))" by simp_all
  have "tw_nto (tiw s) = of_nat (card (dom (abs_pending (tw_abs_of s))))" if "tw_inv s" for s
    using that dom_pending [OF that] by (simp add: tw_inv_def counts_def tw_abs_of_def)
  from this [OF r(2)] r(1) show ?thesis by simp
qed

theorem twheel_set_cancel_is_a_map_witness:
  "let cmds = [Set 1 7 8 20000, Set 2 7 8 (-5), Cancel 1, Set 3 7 8 100];
       s = snd (run tw_exec cmds (erts_create_timer_wheel 0 demo_tw))
   in pending s = [2 \<mapsto> 0, 3 \<mapsto> 100] \<and> tw_nto (tiw s) = 2"
proof -
  let ?a = "\<lparr>abs_pos = ERTS_MONOTONIC_TO_CLKTCKS (env_mtime demo_tw (calls demo_tw)), abs_sentinel = 0,
              abs_pending = Map.empty\<rparr>"
  let ?cmds = "[Set 1 7 8 20000, Set 2 7 8 (-5), Cancel 1, Set 3 7 8 100]"
  have pre: "tw.pre_run ?cmds ?a" by (simp add: card_insert_if)
  have "snd (run abs_exec ?cmds ?a) = ?a\<lparr>abs_pending := [2 \<mapsto> 0, 3 \<mapsto> 100]\<rparr>"
    by (simp add: demo_tw_def ERTS_MONOTONIC_TO_CLKTCKS_def cdiv_def fun_eq_iff)
  moreover have "card (dom ([2 \<mapsto> (0::int), 3 \<mapsto> 100] :: addr \<rightharpoonup> int)) = 2" by simp
  ultimately show ?thesis
    using twheel_set_cancel_is_a_map [OF _ refl pre] demo_tw_ok(1)
    by (simp add: Let_def tw_abs_of_def del: run.simps)
qed

text \<open>
  C27. Before the first bump, in every state reached by creating a wheel and setting, cancelling and
  asking, \<open>erts_check_next_timeout_time\<close> returns, leaves the timers linked into the wheel alone, and answers
  a time not after that of any of them: from the cache, when the canary timerfd says the scan can be skipped,
  and after a scan. (After a bump that is not so in general: a minimum kept for the later wheel may be that of
  a timer that has left it, and a cancel can then discard a cached timeout that is due.)
\<close>

theorem erts_check_next_timeout_time_bound:
  assumes "tw_reach s"
  shows "\<exists>t s'. erts_check_next_timeout_time s = Some (t, s') \<and> pending s' = pending s \<and>
     (\<forall>p d. pending s p = Some d \<longrightarrow> t \<le> ERTS_CLKTCKS_TO_MONOTONIC d)"
proof -
  obtain s' where s': "erts_check_next_timeout_time s = Some (next_timeout_time (tiw s'), s')" "tw_ready s'"
    "tmr s' = tmr s" "active s' = active s"
    using check_next_ready [OF tw_reach_ready [OF assms]] by blast
  have inv: "tw_inv s'" "tw_inv s" using s'(2) tw_reach_ready [OF assms] by (simp_all add: tw_ready_def)
  have "next_timeout_time (tiw s') \<le> ERTS_CLKTCKS_TO_MONOTONIC (timeout_pos (tmr s p))"
    if "p \<in> active s" for p
  proof -
    have "next_timeout_pos (tiw s') \<le> due (tmr s' p)" using inv(1) that s'(4) by (simp add: tw_inv_def)
    also have "\<dots> \<le> timeout_pos (tmr s p)" using due_le [of "tmr s' p"] s'(3) by simp
    finally show ?thesis using inv(1) clktcks_mono by (simp add: tw_inv_def aligned_def)
  qed
  moreover have "pending s' = pending s" using s'(3,4) inv by (simp add: pending_active fun_eq_iff)
  ultimately show ?thesis using s'(1) by (auto simp: pending_active [OF inv(2)] split: if_splits)
qed

theorem erts_check_next_timeout_time_bound_witness:
  "\<exists>t s'. erts_check_next_timeout_time (erts_twheel_set_timer 1 7 8 100 (erts_create_timer_wheel 0 demo_tw))
     = Some (t, s') \<and> t \<le> 100000000"
proof -
  let ?c = "erts_create_timer_wheel 0 demo_tw"
  have a: "active ?c = {}" using create_timer_wheel_inv(2) [of 0 demo_tw] demo_tw_ok by simp
  have "tw_reach ?c" by (rule tw_reach.create) (simp_all add: demo_tw_ok [simplified])
  moreover have "sentinel (tiw ?c) = 0" "tslot (tmr ?c 1) = ERTS_TW_SLOT_INACTIVE"
    using create_timer_wheel_fields(1,3) [where sn = 0 and s = demo_tw] demo_tw_ok(1) by simp_all
  ultimately have r: "tw_reach (erts_twheel_set_timer 1 7 8 100 ?c)"
    by (intro tw_reach.set) (simp_all add: a)
  have "tw_pos (tiw ?c) = 0"
    using create_timer_wheel_fields(2) [where sn = 0 and s = demo_tw]
    by (simp add: demo_tw_def ERTS_MONOTONIC_TO_CLKTCKS_def cdiv_def)
  then have "pending (erts_twheel_set_timer 1 7 8 100 ?c) 1 = Some 100"
    using set_timer_pending [of ?c 1 7 8 100] create_timer_wheel_inv(1) [of 0 demo_tw] demo_tw_ok(1) a
      \<open>sentinel (tiw ?c) = 0\<close> by simp
  with erts_check_next_timeout_time_bound [OF r] show ?thesis
    by (force simp: ERTS_CLKTCKS_TO_MONOTONIC_def)
qed

text \<open>
  C28. \<open>scnt_wheel_next\<close> always returns. It advances the slot (around the wheel), the slots left and the
  position by the same number of steps, at least one and at most the slots left; every slot it passes
  over lies in a range whose timer count is zero, and it stops early only in a range with timers.
\<close>

theorem scnt_wheel_next_skips_empty:
  assumes "f mod 512 = 0" "e mod 512 = 0" "f < e" "f \<le> slot" "slot < e" "0 < left"
  shows "\<exists>k. scnt_wheel_next slot left pos scnt f e sz =
       Some (wrap f e slot k, left - k, pos + sz * k, scnt_get_ix (wrap f e slot k)) \<and>
     1 \<le> k \<and> k \<le> left \<and>
     (\<forall>j. 1 \<le> j \<and> j < k \<longrightarrow> scnt (scnt_get_ix (wrap f e slot j)) = 0) \<and>
     (k < left \<longrightarrow> scnt (scnt_get_ix (wrap f e slot k)) \<noteq> 0)"
proof -
  obtain k where "scnt_wheel_next slot left pos scnt f e sz =
       Some (wrap f e slot k, left - k, pos + sz * k, wrap f e slot k div 512)" "1 \<le> k" "k \<le> left"
    "\<forall>j. 1 \<le> j \<and> j < k \<longrightarrow> scnt (wrap f e slot j div 512) = 0"
    "k < left \<longrightarrow> scnt (wrap f e slot k div 512) \<noteq> 0"
    by (rule scnt_wheel_next_spec [OF assms])
  then show ?thesis unfolding scnt_get_ix_def scnt_ix by blast
qed

theorem scnt_wheel_next_skips_empty_witness:
  "\<exists>k. scnt_wheel_next 16383 16384 70 ((\<lambda>_. 0)(3 := 2)) 0 16384 1 =
     Some (wrap 0 16384 16383 k, 16384 - k, 70 + k, scnt_get_ix (wrap 0 16384 16383 k)) \<and> 1 \<le> k"
  using scnt_wheel_next_skips_empty [of 0 16384 16383 16384 70 "(\<lambda>_. 0)(3 := 2)" 1] by auto

text \<open>
  When the last range of the later wheel is empty and fewer slots are left than remain in it, the
  loop of \<open>scnt_wheel_next\<close> ends with \<open>ix\<close> equal to \<open>ERTS_TW_SCNT_SIZE\<close>: its condition has read the
  array element just after the end of \<open>scnt\<close>. The result does not depend on what it read.
\<close>

lemma scnt_skip_reads_past_end:
  assumes "scnt_get_ix slot = ERTS_TW_SCNT_SIZE - 1" "scnt (ERTS_TW_SCNT_SIZE - 1) = 0"
    and "0 < left" "slot + left < ERTS_TW_LATER_WHEEL_END_SLOT"
  shows "scnt_skip (scnt(ERTS_TW_SCNT_SIZE := junk)) ERTS_TW_LATER_WHEEL_FIRST_SLOT
           ERTS_TW_LATER_WHEEL_END_SLOT slot left (scnt_get_ix slot)
         = Some (slot + left, 0, ERTS_TW_SCNT_SIZE)"
proof -
  have "push_bit ERTS_TW_SCNT_BITS (64 :: int) = 32768"
    by (simp add: ERTS_TW_SCNT_BITS_def push_bit_eq_mult)
  with assms show ?thesis
    by (simp add: scnt_skip.simps [of _ _ _ slot left] scnt_skip.simps [of _ _ _ "slot + left" 0] Let_def)
qed

lemma scnt_skip_reads_past_end_witness:
  "scnt_skip ((\<lambda>_. 0)(ERTS_TW_SCNT_SIZE := 9)) ERTS_TW_LATER_WHEEL_FIRST_SLOT
     ERTS_TW_LATER_WHEEL_END_SLOT 32668 1 (scnt_get_ix 32668) = Some (32669, 0, ERTS_TW_SCNT_SIZE)"
  using scnt_skip_reads_past_end [of 32668 "\<lambda>_. 0" 1 9] by (simp add: scnt_get_ix_def scnt_ix)

end
