(* ===== verification/TimerBump.thy ===== *)
theory TimerBump
  imports TimerWheelReach
begin

text \<open>
  Bumping the wheel (\<open>erts_bump_timers\<close> and \<open>bump_later_wheel\<close> of \<^verbatim>\<open>time.c\<close>): triggering the
  timers whose time has come, moving timers from the later to the soon wheel, and yielding.

  The timeout procedures are not part of \<^verbatim>\<open>time.c\<close>: \<open>cb timeout arg\<close> is what the procedure does to
  the wheel, which it may use (set and cancel timers). Each of the three labels the code jumps to
  when it goes on after a yield is a definition of its own that holds the code from the label on.
\<close>

type_synonym callback = "addr \<Rightarrow> addr \<Rightarrow> tw_state \<Rightarrow> tw_state option"

definition timeout_timer :: "callback \<Rightarrow> addr \<Rightarrow> tw_state \<Rightarrow> tw_state option" where
  "timeout_timer cb p s =
     (let s = timer p (\<lambda>t. t\<lparr>tslot := ERTS_TW_SLOT_INACTIVE\<rparr>) s;
          timeout = ttimeout (tmr s p);
          arg = targ (tmr s p)
      in cb timeout arg
           (s\<lparr>fired_log := (p, timeout_pos (tmr s p), tw_pos (tiw s)) # fired_log s\<rparr>))"

text \<open>The circular list of a slot is moved to the sentinel, without its first timer \<open>p\<close>.\<close>

definition detach_slot :: "int \<Rightarrow> addr \<Rightarrow> tw_state \<Rightarrow> tw_state" where
  "detach_slot slot p s =
     (let sn = sentinel (tiw s);
          s = (if tnext (tmr s p) = p then s
               else
                 (let s = timer sn (\<lambda>t. t\<lparr>tnext := tnext (tmr s p)\<rparr>) s;
                      s = timer sn (\<lambda>t. t\<lparr>tprev := tprev (tmr s p)\<rparr>) s;
                      s = timer (tnext (tmr s sn)) (\<lambda>t. t\<lparr>tprev := sn\<rparr>) s
                  in timer (tprev (tmr s sn)) (\<lambda>t. t\<lparr>tnext := sn\<rparr>) s))
      in wheel (\<lambda>t. t\<lparr>tw_w := (tw_w t)(slot := None)\<rparr>) s)"

text \<open>The next timer is taken from the sentinel's list.\<close>

definition pop_sentinel :: "addr \<Rightarrow> tw_state \<Rightarrow> tw_state" where
  "pop_sentinel p s =
     (let sn = sentinel (tiw s);
          s = timer sn (\<lambda>t. t\<lparr>tnext := tnext (tmr s p)\<rparr>) s
      in timer (tnext (tmr s p)) (\<lambda>t. t\<lparr>tprev := sn\<rparr>) s)"

subsection \<open>The at once slot\<close>

definition at_once_timer :: "callback \<Rightarrow> addr \<Rightarrow> int \<Rightarrow> tw_state \<Rightarrow> (int \<times> tw_state) option" where
  "at_once_timer cb p yield_count s = do {
     s \<leftarrow> Some (wheel (\<lambda>t. t\<lparr>tw_nto := tw_nto t - 1, at_once_nto := at_once_nto t - 1\<rparr>) s);
     s \<leftarrow> timeout_timer cb p s;
     Some (yield_count - ERTS_TW_COST_TIMEOUT, s)
   }"

text \<open>From \<open>restart_yielded_at_once_slot\<close>; the flag says that the bump yields.\<close>

partial_function (option) at_once_rest ::
    "callback \<Rightarrow> int \<Rightarrow> tw_state \<Rightarrow> (bool \<times> int \<times> tw_state) option" where
  "at_once_rest cb yield_count s =
     (let p = tnext (tmr s (sentinel (tiw s))) in
      if p = sentinel (tiw s) then Some (False, yield_count, s)
      else if yield_count \<le> 0
      then Some (True, yield_count, wheel (\<lambda>t. t\<lparr>yield_slot := ERTS_TW_SLOT_AT_ONCE\<rparr>) s)
      else do {
        (yield_count, s) \<leftarrow> at_once_timer cb p yield_count (pop_sentinel p s);
        at_once_rest cb yield_count s
      })"

declare at_once_rest.simps [code]

definition bump_at_once :: "callback \<Rightarrow> int \<Rightarrow> tw_state \<Rightarrow> (bool \<times> int \<times> tw_state) option" where
  "bump_at_once cb yield_count s =
     (case tw_w (tiw s) ERTS_TW_SLOT_AT_ONCE of
        None \<Rightarrow> Some (False, yield_count, s)
      | Some p \<Rightarrow> do {
          s \<leftarrow> Some (detach_slot ERTS_TW_SLOT_AT_ONCE p s);
          (yield_count, s) \<leftarrow> at_once_timer cb p yield_count s;
          at_once_rest cb yield_count s
        })"

subsection \<open>The soon wheel\<close>

text \<open>One timer of a slot of the soon wheel.\<close>

definition soon_timer ::
    "callback \<Rightarrow> int \<Rightarrow> int \<Rightarrow> int \<Rightarrow> addr \<Rightarrow> int \<Rightarrow> tw_state \<Rightarrow> (int \<times> tw_state) option" where
  "soon_timer cb bump_to slot six p yield_count s =
     (let s = wheel (\<lambda>t. let t = t\<lparr>soon_nto := soon_nto t - 1\<rparr>
                         in if soon_nto t = 0 then t\<lparr>soon_min_tpos := ERTS_MAX_CLKTCKS\<rparr> else t) s;
          s = wheel (\<lambda>t. t\<lparr>tw_scnt := scnt_ix_dec (tw_scnt t) six\<rparr>) s
      in if timeout_pos (tmr s p) \<le> bump_to then do {
           s \<leftarrow> timeout_timer cb p s;
           s \<leftarrow> Some (wheel (\<lambda>t. t\<lparr>tw_nto := tw_nto t - 1,
                                    tw_bump_scnt := scnt_ix_dec (tw_bump_scnt t) six\<rparr>) s);
           Some (yield_count - ERTS_TW_COST_TIMEOUT, s)
         }
         else Some (yield_count - ERTS_TW_COST_SLOT_MOVE, insert_timer_into_slot slot p s))"

text \<open>From \<open>restart_yielded_soon_slot\<close> to the end of the slot.\<close>

partial_function (option) soon_rest ::
    "callback \<Rightarrow> int \<Rightarrow> int \<Rightarrow> int \<Rightarrow> int \<Rightarrow> int \<Rightarrow> tw_state \<Rightarrow> (bool \<times> int \<times> tw_state) option" where
  "soon_rest cb bump_to slot slots six yield_count s =
     (let p = tnext (tmr s (sentinel (tiw s))) in
      if p = sentinel (tiw s) then Some (False, yield_count, s)
      else if yield_count \<le> 0
      then Some (True, yield_count, wheel (\<lambda>t. t\<lparr>yield_slot := slot, yield_slots_left := slots\<rparr>) s)
      else do {
        (yield_count, s) \<leftarrow> soon_timer cb bump_to slot six p yield_count (pop_sentinel p s);
        soon_rest cb bump_to slot slots six yield_count s
      })"

declare soon_rest.simps [code]

partial_function (option) soon_slots ::
    "callback \<Rightarrow> int \<Rightarrow> int \<Rightarrow> int \<Rightarrow> int \<Rightarrow> int \<Rightarrow> tw_state \<Rightarrow> (bool \<times> int \<times> tw_state) option" where
  "soon_slots cb bump_to slot slots six yield_count s =
     (if slots > 0 then do {
        yield_count \<leftarrow> Some (yield_count - ERTS_TW_COST_SLOT);
        (yields, yield_count, s) \<leftarrow>
          (case tw_w (tiw s) slot of
             None \<Rightarrow> Some (False, yield_count, s)
           | Some p \<Rightarrow> do {
               (yield_count, s) \<leftarrow> soon_timer cb bump_to slot six p yield_count (detach_slot slot p s);
               soon_rest cb bump_to slot slots six yield_count s
             });
        if yields then Some (True, yield_count, s)
        else do {
          (slot, slots, pos, six) \<leftarrow> scnt_soon_wheel_next slot slots 0 (tw_bump_scnt (tiw s));
          soon_slots cb bump_to slot slots six yield_count s
        }
      } else Some (False, yield_count, s))"

declare soon_slots.simps [code]

text \<open>The soon loop entered at \<open>restart_yielded_soon_slot\<close>.\<close>

definition soon_restart ::
    "callback \<Rightarrow> int \<Rightarrow> int \<Rightarrow> int \<Rightarrow> int \<Rightarrow> int \<Rightarrow> tw_state \<Rightarrow> (bool \<times> int \<times> tw_state) option" where
  "soon_restart cb bump_to slot slots six yield_count s = do {
     (yields, yield_count, s) \<leftarrow> soon_rest cb bump_to slot slots six yield_count s;
     if yields then Some (True, yield_count, s)
     else do {
       (slot, slots, pos, six) \<leftarrow> scnt_soon_wheel_next slot slots 0 (tw_bump_scnt (tiw s));
       soon_slots cb bump_to slot slots six yield_count s
     }
   }"

subsection \<open>The later wheel\<close>

text \<open>One timer of a slot of the later wheel.\<close>

definition later_timer ::
    "callback \<Rightarrow> int \<Rightarrow> int \<Rightarrow> int \<Rightarrow> addr \<Rightarrow> int \<Rightarrow> tw_state \<Rightarrow> (int \<times> tw_state) option" where
  "later_timer cb cpos fslot six p ycount s =
     (let tpos = timeout_pos (tmr s p);
          s = wheel (\<lambda>t. let t = t\<lparr>later_nto := later_nto t - 1\<rparr>
                         in if later_nto t = 0
                            then t\<lparr>later_min_tpos := ERTS_MAX_CLKTCKS,
                                   later_min_tpos_slot := ERTS_TW_LATER_WHEEL_END_SLOT\<rparr>
                            else t) s;
          s = wheel (\<lambda>t. t\<lparr>tw_scnt := scnt_ix_dec (tw_scnt t) six\<rparr>) s
      in if tpos \<ge> later_pos (tiw s) + ERTS_TW_LATER_WHEEL_SLOT_SIZE
         then Some (ycount - ERTS_TW_COST_SLOT_MOVE, insert_timer_into_slot fslot p s)
         else
           (let s = wheel (\<lambda>t. t\<lparr>tw_bump_scnt := scnt_ix_dec (tw_bump_scnt t) six\<rparr>) s in
            if tpos > cpos
            then Some (ycount - ERTS_TW_COST_SLOT_MOVE, insert_timer_into_slot (soon_slot tpos) p s)
            else do {
              s \<leftarrow> timeout_timer cb p s;
              Some (ycount - ERTS_TW_COST_TIMEOUT, wheel (\<lambda>t. t\<lparr>tw_nto := tw_nto t - 1\<rparr>) s)
            }))"

text \<open>From \<open>restart_yielded_slot\<close> to the end of the slot.\<close>

partial_function (option) later_rest ::
    "callback \<Rightarrow> int \<Rightarrow> int \<Rightarrow> int \<Rightarrow> int \<Rightarrow> int \<Rightarrow> tw_state \<Rightarrow> (bool \<times> int \<times> tw_state) option" where
  "later_rest cb cpos fslot slots six ycount s =
     (let p = tnext (tmr s (sentinel (tiw s))) in
      if p = sentinel (tiw s) then Some (False, ycount, s)
      else if ycount < 0
      then Some (True, 0, wheel (\<lambda>t. t\<lparr>yield_slot := fslot, yield_slots_left := slots\<rparr>) s)
      else do {
        (ycount, s) \<leftarrow> later_timer cb cpos fslot six p ycount (pop_sentinel p s);
        later_rest cb cpos fslot slots six ycount s
      })"

declare later_rest.simps [code]

partial_function (option) later_slots ::
    "callback \<Rightarrow> int \<Rightarrow> int \<Rightarrow> int \<Rightarrow> int \<Rightarrow> int \<Rightarrow> tw_state \<Rightarrow> (bool \<times> int \<times> tw_state) option" where
  "later_slots cb cpos fslot slots six ycount s =
     (if slots > 0 then do {
        ycount \<leftarrow> Some (ycount - ERTS_TW_COST_SLOT);
        (yields, ycount, s) \<leftarrow>
          (case tw_w (tiw s) fslot of
             None \<Rightarrow> Some (False, ycount, s)
           | Some p \<Rightarrow> do {
               (ycount, s) \<leftarrow> later_timer cb cpos fslot six p ycount (detach_slot fslot p s);
               later_rest cb cpos fslot slots six ycount s
             });
        if yields then Some (True, ycount, s)
        else do {
          (fslot, slots, pos, six) \<leftarrow> scnt_later_wheel_next fslot slots 0 (tw_bump_scnt (tiw s));
          later_slots cb cpos fslot slots six ycount s
        }
      } else Some (False, ycount, s))"

declare later_slots.simps [code]

definition bump_later_wheel :: "callback \<Rightarrow> int \<Rightarrow> tw_state \<Rightarrow> (bool \<times> int \<times> tw_state) option" where
  "bump_later_wheel cb ycount s =
     (let cpos = tw_pos (tiw s); lpos = later_pos (tiw s) in
      if yield_slot (tiw s) \<ge> ERTS_TW_LATER_WHEEL_FIRST_SLOT then
        (let fslot = yield_slot (tiw s);
             slots = yield_slots_left (tiw s);
             s = wheel (\<lambda>t. t\<lparr>yield_slot := ERTS_TW_SLOT_INACTIVE\<rparr>) s
         in do {
           (yields, ycount, s) \<leftarrow> later_rest cb cpos fslot slots (scnt_get_ix fslot) ycount s;
           if yields then Some (True, ycount, s)
           else do {
             (fslot, slots, pos, six) \<leftarrow> scnt_later_wheel_next fslot slots 0 (tw_bump_scnt (tiw s));
             later_slots cb cpos fslot slots six ycount s
           }
         })
      else
        (let min_tpos = later_min_tpos (tiw s) AND ERTS_TW_LATER_WHEEL_POS_MASK;
             end_later_pos = (cpos + ERTS_TW_SOON_WHEEL_SIZE) AND ERTS_TW_LATER_WHEEL_POS_MASK
         in if min_tpos > lpos \<and> min_tpos > end_later_pos
            then Some (False, ycount, wheel (\<lambda>t. t\<lparr>later_pos := end_later_pos\<rparr>) s)
            else
              (let lpos = (if min_tpos > lpos then min_tpos else lpos);
                   tmp_slots = cdiv (end_later_pos - lpos) ERTS_TW_LATER_WHEEL_SLOT_SIZE;
                   slots = (if tmp_slots < ERTS_TW_LATER_WHEEL_SIZE then tmp_slots
                            else ERTS_TW_LATER_WHEEL_SIZE);
                   fslot = later_slot lpos
               in later_slots cb cpos fslot slots (scnt_get_ix fslot) ycount
                    (wheel (\<lambda>t. t\<lparr>later_pos := end_later_pos\<rparr>) s))))"

subsection \<open>The bump\<close>

definition ERTS_TW_BUMP_LATER_WHEEL :: "ErtsTimerWheel \<Rightarrow> bool" where
  "ERTS_TW_BUMP_LATER_WHEEL t \<longleftrightarrow> tw_pos t + ERTS_TW_LATER_WHEEL_SLOT_SIZE \<ge> later_pos t"

text \<open>The code at the label \<open>empty_wheel\<close>.\<close>

definition empty_wheel :: "int \<Rightarrow> tw_state \<Rightarrow> tw_state" where
  "empty_wheel bump_to s =
     pon_timer_wheel_arm
       (wheel (\<lambda>t. t\<lparr>true_next_timeout_time := False,
                     next_timeout_pos := bump_to + ERTS_CLKTCKS_WEEK,
                     next_timeout_time := ERTS_CLKTCKS_TO_MONOTONIC (bump_to + ERTS_CLKTCKS_WEEK),
                     tw_pos := bump_to,
                     later_pos := (bump_to + ERTS_TW_SOON_WHEEL_SIZE) AND ERTS_TW_LATER_WHEEL_POS_MASK,
                     yield_slot := ERTS_TW_SLOT_INACTIVE\<rparr>) s)"

text \<open>From the copy of the slot counts to the start of the soon loop: the first slot and how many.\<close>

definition bump_prepare :: "int \<Rightarrow> tw_state \<Rightarrow> int \<times> int \<times> tw_state" where
  "bump_prepare bump_to s =
     (let s = wheel (\<lambda>t. t\<lparr>tw_bump_scnt := (\<lambda>i. if 0 \<le> i \<and> i < ERTS_TW_SCNT_SIZE then tw_scnt t i
                                                 else tw_bump_scnt t i)\<rparr>) s;
          t = tiw s;
          skip_until_pos = (if soon_min_tpos t > bump_to then bump_to else soon_min_tpos t) - 1;
          pos = (if soon_min_tpos t > tw_pos t \<and> skip_until_pos > tw_pos t
                 then skip_until_pos else tw_pos t);
          tmp_slots = bump_to - pos;
          slots = (if tmp_slots < ERTS_TW_SOON_WHEEL_SIZE then tmp_slots else ERTS_TW_SOON_WHEEL_SIZE);
          slot = soon_slot (pos + 1)
      in (slot, slots,
          wheel (\<lambda>t. t\<lparr>tw_pos := bump_to, next_timeout_pos := bump_to,
                        next_timeout_time := ERTS_CLKTCKS_TO_MONOTONIC bump_to\<rparr>) s))"

text \<open>Where the inner loop is entered, and how it is left: \<open>break\<close>, or \<open>return\<close>.\<close>

datatype bump_at = Top | After_at_once | After_soon | Later

datatype bump_exit = Break | Return

partial_function (option) bump_loop ::
    "callback \<Rightarrow> bump_at \<Rightarrow> int \<Rightarrow> int \<Rightarrow> tw_state \<Rightarrow> (bump_exit \<times> int \<times> tw_state) option" where
  "bump_loop cb at bump_to yield_count s =
     (case at of
        Top \<Rightarrow>
          if tw_nto (tiw s) = 0 then Some (Return, yield_count, empty_wheel bump_to s)
          else do {
            (yields, yield_count, s) \<leftarrow> bump_at_once cb yield_count s;
            if yields then Some (Return, yield_count, s)
            else bump_loop cb After_at_once bump_to yield_count s
          }
      | After_at_once \<Rightarrow>
          if tw_pos (tiw s) \<ge> bump_to then
            if at_once_nto (tiw s) \<noteq> 0 then bump_loop cb Top bump_to yield_count s
            else Some (Break, yield_count, s)
          else if tw_nto (tiw s) = 0 then Some (Return, yield_count, empty_wheel bump_to s)
          else
            (let (slot, slots, s) = bump_prepare bump_to s in do {
               (yields, yield_count, s) \<leftarrow>
                 soon_slots cb bump_to slot slots (scnt_get_ix slot) yield_count s;
               if yields then Some (Return, yield_count, s)
               else bump_loop cb After_soon bump_to yield_count s
             })
      | After_soon \<Rightarrow>
          if ERTS_TW_BUMP_LATER_WHEEL (tiw s) then bump_loop cb Later bump_to yield_count s
          else bump_loop cb Top bump_to yield_count s
      | Later \<Rightarrow> do {
          (yields, yield_count, s) \<leftarrow> bump_later_wheel cb yield_count s;
          if yields then Some (Return, yield_count, s)
          else bump_loop cb Top bump_to yield_count s
        })"

declare bump_loop.simps [code]

text \<open>The code after the loops.\<close>

definition bump_finish :: "tw_state \<Rightarrow> tw_state option" where
  "bump_finish s = do {
     (t, s) \<leftarrow> find_next_timeout (wheel (\<lambda>t. t\<lparr>true_next_timeout_time := False\<rparr>) s);
     Some (pon_timer_wheel_arm s)
   }"

text \<open>A pass of the outer loop with \<open>restarted\<close> cleared.\<close>

definition bump_pass :: "callback \<Rightarrow> int \<Rightarrow> int \<Rightarrow> tw_state \<Rightarrow> tw_state option" where
  "bump_pass cb curr_time yield_count s =
     (let bump_to = ERTS_MONOTONIC_TO_CLKTCKS curr_time;
          s = wheel (\<lambda>t. t\<lparr>true_next_timeout_time := True, next_timeout_pos := bump_to,
                            next_timeout_time := ERTS_CLKTCKS_TO_MONOTONIC bump_to\<rparr>) s
      in do {
        (how, yield_count, s) \<leftarrow> bump_loop cb Top bump_to yield_count s;
        (case how of Return \<Rightarrow> Some s | Break \<Rightarrow> bump_finish s)
      })"

definition erts_bump_timers :: "callback \<Rightarrow> int \<Rightarrow> tw_state \<Rightarrow> tw_state option" where
  "erts_bump_timers cb curr_time s =
     (let yield_count = ERTS_TWHEEL_BUMP_YIELD_LIMIT;
          slot = yield_slot (tiw s);
          bump_to = tw_pos (tiw s)
      in if slot = ERTS_TW_SLOT_INACTIVE then bump_pass cb curr_time yield_count s
         else do {
           (yields, yield_count, at, s) \<leftarrow>
             (if slot \<ge> ERTS_TW_LATER_WHEEL_FIRST_SLOT then Some (False, yield_count, Later, s)
              else
                (let s = wheel (\<lambda>t. t\<lparr>yield_slot := ERTS_TW_SLOT_INACTIVE\<rparr>) s in
                 if slot = ERTS_TW_SLOT_AT_ONCE then do {
                   (yields, yield_count, s) \<leftarrow> at_once_rest cb yield_count s;
                   Some (yields, yield_count, After_at_once, s)
                 } else do {
                   (yields, yield_count, s) \<leftarrow>
                     soon_restart cb bump_to slot (yield_slots_left (tiw s)) (scnt_get_ix slot)
                       yield_count s;
                   Some (yields, yield_count, After_soon, s)
                 }));
           if yields then Some s
           else do {
             (how, yield_count, s) \<leftarrow> bump_loop cb at bump_to yield_count s;
             (case how of Return \<Rightarrow> Some s | Break \<Rightarrow> bump_pass cb curr_time yield_count s)
           }
         })"

subsection \<open>Listing the timers\<close>

text \<open>
  \<open>erts_twheel_debug_foreach\<close> calls \<open>func arg\<close> on the timeout and the argument of each timer whose
  timeout procedure is \<open>tclbk\<close>; the model returns the list of these pairs.
\<close>

definition foreach_timer :: "addr \<Rightarrow> ErtsTWheelTimer \<Rightarrow> (int \<times> addr) list" where
  "foreach_timer tclbk m = (if ttimeout m = tclbk then [(timeout_pos m, targ m)] else [])"

partial_function (option) foreach_until ::
    "addr \<Rightarrow> addr \<Rightarrow> addr \<Rightarrow> tw_state \<Rightarrow> (int \<times> addr) list option" where
  "foreach_until tclbk q p s =
     (if p = q then Some []
      else do {
        rest \<leftarrow> foreach_until tclbk q (tnext (tmr s p)) s;
        Some (foreach_timer tclbk (tmr s p) @ rest)
      })"

declare foreach_until.simps [code]

definition foreach_slot :: "addr \<Rightarrow> tw_state \<Rightarrow> int \<Rightarrow> (int \<times> addr) list option" where
  "foreach_slot tclbk s ix =
     (case tw_w (tiw s) ix of
        None \<Rightarrow> Some []
      | Some p \<Rightarrow> do {
          rest \<leftarrow> foreach_until tclbk p (tnext (tmr s p)) s;
          Some (foreach_timer tclbk (tmr s p) @ rest)
        })"

fun foreach_slots :: "addr \<Rightarrow> tw_state \<Rightarrow> int list \<Rightarrow> (int \<times> addr) list option" where
  "foreach_slots tclbk s [] = Some []"
| "foreach_slots tclbk s (ix # ixs) = do {
     xs \<leftarrow> foreach_slot tclbk s ix;
     rest \<leftarrow> foreach_slots tclbk s ixs;
     Some (xs @ rest)
   }"

definition erts_twheel_debug_foreach :: "addr \<Rightarrow> tw_state \<Rightarrow> (int \<times> addr) list option" where
  "erts_twheel_debug_foreach tclbk s = do {
     xs \<leftarrow> foreach_until tclbk (sentinel (tiw s)) (tnext (tmr s (sentinel (tiw s)))) s;
     rest \<leftarrow> foreach_slots tclbk s [ERTS_TW_SLOT_AT_ONCE..ERTS_TW_LATER_WHEEL_END_SLOT - 1];
     Some (xs @ rest)
   }"

end
