(* ===== verification/TimerBumpThms.thy ===== *)
theory TimerBumpThms
  imports TimerBump
begin

text \<open>
  The bump and its timeout procedures. While a slot is emptied its timers hang on the sentinel, and
  the timer in hand is in no list; the timeout procedures set and cancel timers in between, those on
  the sentinel's list included. The lists stay well formed all the same, also when the bump yields
  and goes on later, and no timer is triggered before its tick.
\<close>

subsection \<open>Taking a timer in hand\<close>

definition in_hand :: "addr \<Rightarrow> tw_state \<Rightarrow> tw_state" where
  "in_hand p s = timer p (\<lambda>t. t\<lparr>tslot := ERTS_TW_SLOT_INACTIVE\<rparr>) s"

lemma in_hand_fields [simp]:
  "tslot (tmr (in_hand p s) x) = (if x = p then ERTS_TW_SLOT_INACTIVE else tslot (tmr s x))"
  "timeout_pos (tmr (in_hand p s) x) = timeout_pos (tmr s x)"
  "tnext (tmr (in_hand p s) x) = tnext (tmr s x)" "tprev (tmr (in_hand p s) x) = tprev (tmr s x)"
  "ttimeout (tmr (in_hand p s) x) = ttimeout (tmr s x)" "targ (tmr (in_hand p s) x) = targ (tmr s x)"
  "tiw (in_hand p s) = tiw s" "fired_log (in_hand p s) = fired_log s"
  by (simp_all add: in_hand_def timer_def)

lemma wheel_sel:
  "tmr (wheel f s) = tmr s" "tiw (wheel f s) = f (tiw s)" "fired_log (wheel f s) = fired_log s"
  by (simp_all add: wheel_def)

lemma wheel_wheel: "wheel f (wheel g s) = wheel (f \<circ> g) s"
  by (simp add: wheel_def)

lemma in_hand_wheel: "in_hand p (wheel f s) = wheel f (in_hand p s)"
  by (simp add: in_hand_def timer_def wheel_def)

lemma in_hand_active: "active (in_hand p s) = active s - {p}"
  by (auto simp: active_def)

lemma insert_in_hand: "insert_timer_into_slot slot p (in_hand p s) = insert_timer_into_slot slot p s"
  by (simp add: insert_timer_into_slot_def in_hand_def timer_def)

lemma detach_slot_fields [simp]:
  "tslot (tmr (detach_slot sl p s) x) = tslot (tmr s x)"
  "timeout_pos (tmr (detach_slot sl p s) x) = timeout_pos (tmr s x)"
  "tiw (detach_slot sl p s) = (tiw s)\<lparr>tw_w := (tw_w (tiw s))(sl := None)\<rparr>"
  "fired_log (detach_slot sl p s) = fired_log s"
  by (simp_all add: detach_slot_def Let_def timer_def wheel_def)

lemma pop_sentinel_fields [simp]:
  "tslot (tmr (pop_sentinel p s) x) = tslot (tmr s x)"
  "timeout_pos (tmr (pop_sentinel p s) x) = timeout_pos (tmr s x)"
  "tiw (pop_sentinel p s) = tiw s" "fired_log (pop_sentinel p s) = fired_log s"
  by (simp_all add: pop_sentinel_def Let_def timer_def)

lemma links_first:
  assumes "links L S s"
  shows "tnext (tmr s (sentinel (tiw s))) = (case S of [] \<Rightarrow> sentinel (tiw s) | p # _ \<Rightarrow> p)"
  using linksD(3) [OF assms] by (cases S) simp_all

lemma pop_sentinel_links:
  assumes l: "links L (p # S) s"
  shows "links L S (in_hand p (pop_sentinel p s))" (is "links L S ?s")
proof -
  let ?sn = "sentinel (tiw s)"
  have c: "chain (tmr s) ?sn (p # S) ?sn" and d: "distinct (p # S)" by (rule linksD [OF l])+
  have sn: "?sn \<notin> set (p # S)" using linksD(9) [OF l] by blast
  have n: "tnext (tmr s p) = hd (S @ [?sn])" using c chain_first by auto
  have h: "tnext (tmr ?s x) = (if x = ?sn then hd (S @ [?sn]) else tnext (tmr s x))"
    "tprev (tmr ?s x) = (if x = hd (S @ [?sn]) then ?sn else tprev (tmr s x))" for x
    using n sn by (auto simp: pop_sentinel_def Let_def timer_def)
  have "chain (tmr ?s) ?sn ([] @ S) ?sn"
    by (rule chain_join [of "tmr s" ?sn "[]" p S ?sn]) (use c d sn h in auto)
  moreover have "circ (tmr ?s) (tw_w (tiw s) sl) (L sl)" if "is_slot sl" for sl
  proof -
    have "x \<noteq> ?sn" "x \<notin> set (p # S)" if "x \<in> set (L sl)" for x using that linksD(5,8) [OF l] by blast+
    then have "x \<noteq> ?sn" "x \<noteq> hd (S @ [?sn])" if "x \<in> set (L sl)" for x
      using that by (cases S; fastforce)+
    then show ?thesis
      using circ_frame [of "L sl" "tmr ?s" "tmr s"] h linksD(1) [OF l that] by presburger
  qed
  ultimately show ?thesis using l by (auto simp: links_def in_hand_active active_def)
qed

lemma detach_slot_links:
  assumes l: "links L [] s" and sl: "is_slot sl" and L: "L sl = p # xs"
  shows "links (L(sl := [])) xs (in_hand p (detach_slot sl p s))" (is "links ?L xs ?s")
proof -
  let ?sn = "sentinel (tiw s)"
  have c: "chain (tmr s) p xs p" "distinct (p # xs)" using linksD(1,2) [OF l sl] L by simp_all
  have sn: "?sn \<notin> set (p # xs)" using linksD(5) [OF l, of _ sl] L by auto
  have s0: "tnext (tmr s ?sn) = ?sn" "tprev (tmr s ?sn) = ?sn" using linksD(3) [OF l] by simp_all
  have other: "x \<notin> insert ?sn (set (p # xs))" if "x \<in> set (?L sl')" for x sl'
    using that linksD(5) [OF l] linksD(7) [OF l, of x sl] linksD(7) [OF l, of x sl'] L
    by (auto split: if_splits)
  have ch: "chain (tmr ?s) ?sn xs ?sn \<and>
    (\<forall>x. x \<notin> insert ?sn (set (p # xs)) \<longrightarrow> tnext (tmr ?s x) = tnext (tmr s x) \<and> tprev (tmr ?s x) = tprev (tmr s x))"
  proof (cases xs)
    case Nil
    then have "tmr (detach_slot sl p s) = tmr s" using c(1) by (simp add: detach_slot_def Let_def wheel_def)
    then show ?thesis using Nil s0 by simp
  next
    case (Cons y ys)
    have n: "tnext (tmr s p) = y" "tprev (tmr s p) = last (y # ys)"
      using c(1) chain_last [OF c(1)] Cons by simp_all
    have la: "last (y # ys) \<in> set xs" "y \<in> set xs" using Cons last_in_set [of "y # ys"] by auto
    then have ne: "y \<noteq> p" "last (y # ys) \<noteq> ?sn" using c(2) sn by auto
    then have h: "tnext (tmr ?s x) = (if x = ?sn then y else if x = last (y # ys) then ?sn else tnext (tmr s x))"
      "tprev (tmr ?s x) = (if x = ?sn then last (y # ys) else if x = y then ?sn else tprev (tmr s x))" for x
      using n sn Cons by (auto simp: detach_slot_def Let_def timer_def wheel_def simp del: last.simps)
    have "chain (tmr s) y ys p" using c(1) Cons by simp
    then have "chain (tmr ?s) y ys ?sn"
      by (rule chain_retarget) (use h ne c(2) sn Cons in auto)
    then have "chain (tmr ?s) ?sn xs ?sn" using Cons h sn by auto
    then show ?thesis using la h by (auto simp del: last.simps)
  qed
  have "circ (tmr ?s) (tw_w (tiw s) sl') (L sl')" if "is_slot sl'" "sl' \<noteq> sl" for sl'
    using circ_frame [of "L sl'" "tmr ?s" "tmr s"] ch other [of _ sl'] linksD(1) [OF l that(1)] that(2)
    by (metis fun_upd_other)
  moreover have "q \<in> set xs \<or> q \<in> set (?L (tslot (tmr s q)))"
    if "q \<noteq> ?sn" "tslot (tmr s q) \<noteq> -2" "q \<noteq> p" for q
    using linksD(11) [OF l, of q] that L by (auto simp: active_def)
  moreover have "is_slot (tslot (tmr s q))" if "q \<in> set xs" for q
    using linksD(7) [OF l, of q sl] L that sl by simp
  ultimately show ?thesis
    using ch l sl L sn c(2) other unfolding links_def in_hand_active
    by (auto simp: active_def split: if_splits)
qed

subsection \<open>What timeout procedures do to the wheel\<close>

text \<open>They set timers that are not pending, and cancel timers.\<close>

inductive uses :: "tw_state \<Rightarrow> tw_state \<Rightarrow> bool" where
  refl: "uses s s"
| set: "\<lbrakk>uses s s'; p \<noteq> sentinel (tiw s'); tslot (tmr s' p) = ERTS_TW_SLOT_INACTIVE;
         card (active s') + 2 < 2 ^ 64\<rbrakk> \<Longrightarrow> uses s (erts_twheel_set_timer p timeout arg tpos s')"
| cancel: "\<lbrakk>uses s s'; p \<noteq> sentinel (tiw s')\<rbrakk> \<Longrightarrow> uses s (erts_twheel_cancel_timer p s')"

definition cb_ok :: "callback \<Rightarrow> bool" where
  "cb_ok cb \<longleftrightarrow> (\<forall>timeout arg s s'. cb timeout arg s = Some s' \<longrightarrow> uses s s')"

lemma set_timer_frame [simp]:
  "yield_slot (tiw (erts_twheel_set_timer p timeout arg tpos s)) = yield_slot (tiw s)"
  "yield_slots_left (tiw (erts_twheel_set_timer p timeout arg tpos s)) = yield_slots_left (tiw s)"
  "tw_pos (tiw (erts_twheel_set_timer p timeout arg tpos s)) = tw_pos (tiw s)"
  "sentinel (tiw (erts_twheel_set_timer p timeout arg tpos s)) = sentinel (tiw s)"
  "tw_nto (tiw (erts_twheel_set_timer p timeout arg tpos s)) = tw_nto (tiw s) + 1"
  "fired_log (erts_twheel_set_timer p timeout arg tpos s) = fired_log s"
proof -
  have arm: "yield_slots_left (tiw (pon_timer_wheel_arm s)) = yield_slots_left (tiw s)"
    "fired_log (pon_timer_wheel_arm s) = fired_log s" for s
    by (simp_all add: pon_timer_wheel_arm_def pon_timer_wheel_open_def env_defs Let_def split_beta)
  have "yield_slots_left (insert_count sl tp t) = yield_slots_left t" for sl tp t
    by (simp add: insert_count_def Let_def)
  then show "yield_slots_left (tiw (erts_twheel_set_timer p timeout arg tpos s)) = yield_slots_left (tiw s)"
    by (simp add: erts_twheel_set_timer_def Let_def split_beta arm insert_timer_tiw env_defs
        split: option.split)
  have "fired_log (insert_timer_into_slot sl p s) = fired_log s" for sl s
    by (simp add: insert_timer_into_slot_def Let_def env_defs split: option.split)
  then show "fired_log (erts_twheel_set_timer p timeout arg tpos s) = fired_log s"
    by (simp add: set_timer_steps set_next_def set_prepare_def Let_def arm env_defs)
  let ?i = "insert_timer_into_slot (fst (calculate_slot (tw_pos (tiw s)) tpos)) p (set_prepare p timeout arg tpos s)"
  have "same_wheel (tiw ?i) (tiw (erts_twheel_set_timer p timeout arg tpos s))" by (simp add: set_timer_steps)
  then show "yield_slot (tiw (erts_twheel_set_timer p timeout arg tpos s)) = yield_slot (tiw s)"
    "tw_pos (tiw (erts_twheel_set_timer p timeout arg tpos s)) = tw_pos (tiw s)"
    "sentinel (tiw (erts_twheel_set_timer p timeout arg tpos s)) = sentinel (tiw s)"
    "tw_nto (tiw (erts_twheel_set_timer p timeout arg tpos s)) = tw_nto (tiw s) + 1"
    by (simp_all add: same_wheel_def insert_timer_sel)
qed

lemma set_timer_links:
  assumes l: "links L S s" and p: "p \<noteq> sentinel (tiw s)" "p \<notin> active s"
  shows "\<exists>L'. links L' S (erts_twheel_set_timer p timeout arg tpos s)"
proof -
  define slot where "slot = fst (calculate_slot (tw_pos (tiw s)) tpos)"
  let ?s = "set_prepare p timeout arg tpos s"
  have "links L S ?s" using l by (subst links_cong [of _ s]) simp_all
  moreover have "active ?s = active s" by (rule active_cong) simp_all
  ultimately have "links (L(slot := L slot @ [p])) S (insert_timer_into_slot slot p ?s)"
    using p by (intro insert_timer_links) (simp_all add: slot_def calculate_slot_is_slot)
  then show ?thesis unfolding set_timer_steps slot_def [symmetric]
    by (subst links_same [of _ "insert_timer_into_slot slot p ?s"]) (use set_next_frame in blast)+
qed

lemma cancel_timer_frame [simp]:
  "yield_slot (tiw (erts_twheel_cancel_timer p s)) = yield_slot (tiw s)"
  "yield_slots_left (tiw (erts_twheel_cancel_timer p s)) = yield_slots_left (tiw s)"
  "tw_pos (tiw (erts_twheel_cancel_timer p s)) = tw_pos (tiw s)"
  "sentinel (tiw (erts_twheel_cancel_timer p s)) = sentinel (tiw s)"
  "fired_log (erts_twheel_cancel_timer p s) = fired_log s"
  "timeout_pos (tmr (erts_twheel_cancel_timer p s) x) = timeout_pos (tmr s x)"
  "tslot (tmr (erts_twheel_cancel_timer p s) x) =
     (if x = p then ERTS_TW_SLOT_INACTIVE else tslot (tmr s x))"
  "tw_nto (tiw (erts_twheel_cancel_timer p s)) =
     tw_nto (tiw s) - (if tslot (tmr s p) = ERTS_TW_SLOT_INACTIVE then 0 else 1)"
proof -
  have "yield_slots_left (remove_count sl tp e t) = yield_slots_left t" for sl tp e t
    by (simp add: remove_count_def Let_def)
  moreover obtain e w where "tiw (remove_timer p s) =
      remove_count (tslot (tmr s p)) (timeout_pos (tmr s p)) e ((tiw s)\<lparr>tw_w := w\<rparr>)"
    using remove_timer_tiw_ex by blast
  ultimately show
    "yield_slot (tiw (erts_twheel_cancel_timer p s)) = yield_slot (tiw s)"
    "yield_slots_left (tiw (erts_twheel_cancel_timer p s)) = yield_slots_left (tiw s)"
    "tw_pos (tiw (erts_twheel_cancel_timer p s)) = tw_pos (tiw s)"
    "sentinel (tiw (erts_twheel_cancel_timer p s)) = sentinel (tiw s)"
    "tw_nto (tiw (erts_twheel_cancel_timer p s)) =
     tw_nto (tiw s) - (if tslot (tmr s p) = ERTS_TW_SLOT_INACTIVE then 0 else 1)"
    by (simp_all add: erts_twheel_cancel_timer_def wheel_def)
qed (simp_all add: erts_twheel_cancel_timer_def wheel_def remove_timer_def Let_def timer_def)

lemma cancel_timer_links:
  assumes "links L S s" "p \<noteq> sentinel (tiw s)"
  shows "\<exists>L'. links L' (remove1 p S) (erts_twheel_cancel_timer p s)"
proof (cases "p \<in> active s")
  case True
  have "links (\<lambda>sl. remove1 p (L sl)) (remove1 p S) (remove_timer p s)"
    by (rule remove_timer_links [OF assms(1) True])
  then have "links (\<lambda>sl. remove1 p (L sl)) (remove1 p S) (wheel (\<lambda>t. t\<lparr>tw_nto := tw_nto t - 1\<rparr>) (remove_timer p s))"
    by (subst links_cong [of _ "remove_timer p s"]) (simp_all add: wheel_def)
  then show ?thesis using True by (auto simp: erts_twheel_cancel_timer_def active_def)
next
  case False
  then have "p \<notin> set S" using links_mem_active [OF assms(1)] by blast
  with False assms show ?thesis by (auto simp: erts_twheel_cancel_timer_def active_def remove1_idem)
qed

subsection \<open>The invariant of the bump\<close>

text \<open>
  \<open>k\<close> is the number of timers in hand that are still counted; \<open>log\<close> and \<open>h\<close> are the log before the
  bump and the furthest position it may reach.
\<close>

definition logged :: "(addr \<times> int \<times> int) list \<Rightarrow> int \<Rightarrow> tw_state \<Rightarrow> bool" where
  "logged log h s \<longleftrightarrow> (\<exists>new. fired_log s = new @ log \<and> (\<forall>(p, t, pos) \<in> set new. t \<le> pos \<and> pos \<le> h))"

definition bumping :: "nat \<Rightarrow> addr list \<Rightarrow> tw_state \<Rightarrow> bool" where
  "bumping k S s \<longleftrightarrow>
     (\<exists>L. links L S s) \<and> finite (active s) \<and> card (active s) + k < 2 ^ 64 \<and>
     tw_nto (tiw s) = of_nat (card (active s) + k) \<and>
     (\<forall>p \<in> active s. tslot (tmr s p) = ERTS_TW_SLOT_AT_ONCE \<longrightarrow> timeout_pos (tmr s p) \<le> tw_pos (tiw s))"

definition same_frame :: "tw_state \<Rightarrow> tw_state \<Rightarrow> bool" where
  "same_frame s s' \<longleftrightarrow>
     sentinel (tiw s') = sentinel (tiw s) \<and> tw_pos (tiw s') = tw_pos (tiw s) \<and>
     yield_slot (tiw s') = yield_slot (tiw s) \<and> yield_slots_left (tiw s') = yield_slots_left (tiw s)"

lemma bumping_cong:
  assumes "tmr s' = tmr s" "tw_w (tiw s') = tw_w (tiw s)" "sentinel (tiw s') = sentinel (tiw s)"
    "tw_pos (tiw s') = tw_pos (tiw s)" "tw_nto (tiw s') = tw_nto (tiw s)"
  shows "bumping k S s' \<longleftrightarrow> bumping k S s"
proof -
  have "links L S s' = links L S s" for L by (rule links_cong) (simp_all add: assms)
  moreover have "active s' = active s" by (rule active_cong) (simp_all add: assms)
  ultimately show ?thesis by (simp add: bumping_def assms)
qed

lemma bumping_set:
  assumes b: "bumping k S s" and p: "p \<noteq> sentinel (tiw s)" "p \<notin> active s"
    and room: "card (active s) + Suc k < 2 ^ 64"
  shows "bumping k S (erts_twheel_set_timer p timeout arg tpos s)" (is "bumping k S ?s")
proof -
  note f = set_timer_fields [OF p(1)]
  obtain L where "links L S s" using b by (auto simp: bumping_def)
  from set_timer_links [OF this p] have "\<exists>L. links L S ?s" .
  moreover have "fst (calculate_slot (tw_pos (tiw s)) tpos) = -1 \<Longrightarrow> tpos \<le> tw_pos (tiw s)"
    using in_soon_slot(1) [of tpos] in_later_slot(1) [of tpos]
    by (auto simp: calculate_slot_def in_soon_def in_later_def split: if_splits)
  ultimately show ?thesis using b p(2) room by (auto simp: bumping_def f)
qed

lemma bumping_cancel:
  assumes b: "bumping k S s" and p: "p \<noteq> sentinel (tiw s)"
  shows "bumping k (remove1 p S) (erts_twheel_cancel_timer p s)" (is "bumping k _ ?s")
proof -
  obtain L where "links L S s" using b by (auto simp: bumping_def)
  from cancel_timer_links [OF this p] have "\<exists>L. links L (remove1 p S) ?s" .
  moreover have a: "active ?s = active s - {p}" by (auto simp: active_def)
  moreover have "card (active s) = card (active s - {p}) + (if p \<in> active s then 1 else 0)"
    using b card.remove [of "active s" p] by (auto simp: bumping_def)
  moreover have "p \<in> active s \<longleftrightarrow> tslot (tmr s p) \<noteq> ERTS_TW_SLOT_INACTIVE" using p by (simp add: active_def)
  ultimately show ?thesis using b by (auto simp: bumping_def split: if_splits)
qed

lemma uses_bumping:
  assumes "uses s s'" "bumping k S s" "k \<le> 1"
  shows "\<exists>S'. bumping k S' s' \<and> set S' \<subseteq> set S \<and> (\<forall>q \<in> set S'. tslot (tmr s' q) = tslot (tmr s q)) \<and>
    same_frame s s' \<and> fired_log s' = fired_log s"
  using assms
proof (induction rule: uses.induct)
  case (refl s)
  then show ?case by (auto simp: same_frame_def)
next
  case (set s s' p timeout arg tpos)
  then obtain S' where S: "bumping k S' s'" "set S' \<subseteq> set S" "\<forall>q \<in> set S'. tslot (tmr s' q) = tslot (tmr s q)"
    "same_frame s s'" "fired_log s' = fired_log s" by blast
  have p: "p \<notin> active s'" using set.hyps(3) by (simp add: active_def)
  moreover have "set S' \<subseteq> active s'" using S(1) links_mem_active by (auto simp: bumping_def)
  ultimately have "\<forall>q \<in> set S'. q \<noteq> p" by blast
  with S bumping_set [OF S(1) set.hyps(2) p] set.hyps(2,4) set.prems(2) show ?case
    by (intro exI [of _ S']) (auto simp: same_frame_def set_timer_fields)
next
  case (cancel s s' p)
  then obtain S' where S: "bumping k S' s'" "set S' \<subseteq> set S" "\<forall>q \<in> set S'. tslot (tmr s' q) = tslot (tmr s q)"
    "same_frame s s'" "fired_log s' = fired_log s" by blast
  have d: "distinct S'" using S(1) linksD(4) by (auto simp: bumping_def)
  show ?case using S bumping_cancel [OF S(1) cancel.hyps(2)] d
    by (intro exI [of _ "remove1 p S'"]) (auto simp: same_frame_def)
qed

text \<open>A step of the loops: timers leave the sentinel's list, and keep their slots while they are on it.\<close>

definition bump_step :: "addr list \<Rightarrow> tw_state \<Rightarrow> addr list \<Rightarrow> tw_state \<Rightarrow> bool" where
  "bump_step S s S' s' \<longleftrightarrow> bumping 0 S' s' \<and> set S' \<subseteq> set S \<and>
     (\<forall>q \<in> set S'. tslot (tmr s' q) = tslot (tmr s q)) \<and> same_frame s s'"

lemma bumping_counted:
  assumes "bumping (Suc k) S s" "tmr s' = tmr s" "tw_w (tiw s') = tw_w (tiw s)"
    "sentinel (tiw s') = sentinel (tiw s)" "tw_pos (tiw s') = tw_pos (tiw s)"
    "tw_nto (tiw s') = tw_nto (tiw s) - 1"
  shows "bumping k S s'"
proof -
  have "links L S s' = links L S s" for L by (rule links_cong) (simp_all add: assms)
  moreover have "active s' = active s" by (rule active_cong) (simp_all add: assms)
  ultimately show ?thesis using assms(1) by (simp add: bumping_def assms(2-))
qed

lemma bumping_in_hand:
  assumes b: "bumping 0 S s" and l: "links L' S' s'" and p: "p \<in> active s"
    and "active s' = active s - {p}" "\<And>x. timeout_pos (tmr s' x) = timeout_pos (tmr s x)"
    and "\<And>x. x \<noteq> p \<Longrightarrow> tslot (tmr s' x) = tslot (tmr s x)"
    and "tw_nto (tiw s') = tw_nto (tiw s)" "tw_pos (tiw s') = tw_pos (tiw s)"
  shows "bumping 1 S' s'"
proof -
  have "card (active s) = card (active s - {p}) + 1"
    using b p card.remove [of "active s" p] by (simp add: bumping_def)
  then show ?thesis using b l by (auto simp: bumping_def assms(4-))
qed

lemma pop_sentinel_bumping:
  assumes "bumping 0 (p # S) s"
  shows "bumping 1 S (in_hand p (pop_sentinel p s))" "p \<in> active s"
proof -
  obtain L where L: "links L (p # S) s" using assms by (auto simp: bumping_def)
  show p: "p \<in> active s" using links_mem_active [OF L] by simp
  show "bumping 1 S (in_hand p (pop_sentinel p s))"
    by (rule bumping_in_hand [OF assms pop_sentinel_links [OF L] p]) (auto simp: active_def)
qed

lemma detach_slot_bumping:
  assumes b: "bumping 0 [] s" and sl: "is_slot sl" and w: "tw_w (tiw s) sl = Some p"
  obtains S where "bumping 1 S (in_hand p (detach_slot sl p s))" "p \<in> active s"
    "\<forall>q \<in> set (p # S). tslot (tmr s q) = sl"
proof -
  obtain L where L: "links L [] s" using b by (auto simp: bumping_def)
  obtain S where S: "L sl = p # S" using linksD(1) [OF L sl] w by (cases "L sl") auto
  have p: "p \<in> active s" by (rule links_mem_active [OF L, of _ sl]) (simp add: S)
  have "bumping 1 S (in_hand p (detach_slot sl p s))"
    by (rule bumping_in_hand [OF b detach_slot_links [OF L sl S] p]) (auto simp: active_def)
  then show thesis using that p linksD(7) [OF L, of _ sl] S by simp
qed

lemma timeout_timer_bumping:
  assumes cb: "cb_ok cb" and b: "bumping k S (in_hand p s)" "k \<le> 1"
    and t: "timeout_pos (tmr s p) \<le> tw_pos (tiw s)" "tw_pos (tiw s) \<le> h" and l: "logged log h s"
    and r: "timeout_timer cb p s = Some s'"
  shows "logged log h s' \<and> (\<exists>S'. bumping k S' s' \<and> set S' \<subseteq> set S \<and>
    (\<forall>q \<in> set S'. tslot (tmr s' q) = tslot (tmr s q)) \<and> same_frame s s')"
proof -
  let ?s = "(in_hand p s)\<lparr>fired_log := (p, timeout_pos (tmr s p), tw_pos (tiw s)) # fired_log s\<rparr>"
  have "cb (ttimeout (tmr s p)) (targ (tmr s p)) ?s = Some s'"
    using r by (simp add: timeout_timer_def Let_def in_hand_def timer_def)
  then have u: "uses ?s s'" using cb by (auto simp: cb_ok_def)
  moreover have b': "bumping k S ?s" using b(1) by (subst bumping_cong [of _ "in_hand p s"]) simp_all
  ultimately obtain S' where S': "bumping k S' s'" "set S' \<subseteq> set S"
    "\<forall>q \<in> set S'. tslot (tmr s' q) = tslot (tmr (in_hand p s) q)" "same_frame ?s s'"
    "fired_log s' = fired_log ?s"
    using uses_bumping [OF _ _ b(2)] by force
  obtain L where "links L S (in_hand p s)" using b(1) by (auto simp: bumping_def)
  then have "set S \<subseteq> active (in_hand p s)" using links_mem_active by blast
  then have "p \<notin> set S'" using S'(2) by (auto simp: in_hand_active)
  moreover have "same_frame s s'" using S'(4) by (simp add: same_frame_def)
  moreover have "logged log h s'"
  proof -
    obtain new where "fired_log s = new @ log" "\<forall>(p, t, pos) \<in> set new. t \<le> pos \<and> pos \<le> h"
      using l by (auto simp: logged_def)
    then show ?thesis unfolding logged_def
      by (intro exI [of _ "(p, timeout_pos (tmr s p), tw_pos (tiw s)) # new"]) (use S'(5) t in simp)
  qed
  ultimately show ?thesis using S'(1-3) by fastforce
qed

lemma at_once_timer_bumping:
  assumes cb: "cb_ok cb" and b: "bumping 1 S (in_hand p s)"
    and t: "timeout_pos (tmr s p) \<le> tw_pos (tiw s)" "tw_pos (tiw s) \<le> h" and l: "logged log h s"
    and r: "at_once_timer cb p y s = Some (y', s')"
  shows "logged log h s' \<and> (\<exists>S'. bump_step S s S' s')"
proof -
  let ?s = "wheel (\<lambda>t. t\<lparr>tw_nto := tw_nto t - 1, at_once_nto := at_once_nto t - 1\<rparr>) s"
  have r': "timeout_timer cb p ?s = Some s'"
    using r by (auto simp: at_once_timer_def split: bind_splits)
  have "bumping 0 S (in_hand p ?s)"
    by (rule bumping_counted [of 0 _ "in_hand p s"]) (use b in \<open>simp_all add: in_hand_wheel wheel_sel\<close>)
  from timeout_timer_bumping [OF cb this _ _ _ _ r'] t l show ?thesis
    by (auto simp: bump_step_def same_frame_def wheel_def logged_def)
qed

lemma insert_timer_bumping:
  assumes b: "bumping 1 S (in_hand p s)" and p: "p \<noteq> sentinel (tiw s)" and sl: "is_slot slot" "slot \<noteq> -1"
  shows "bump_step S s S (insert_timer_into_slot slot p s)" (is "bump_step S s S ?s")
proof -
  obtain L where L: "links L S (in_hand p s)" using b by (auto simp: bumping_def)
  have a: "p \<notin> active (in_hand p s)" by (simp add: in_hand_active)
  have i: "?s = insert_timer_into_slot slot p (in_hand p s)" by (simp add: insert_in_hand)
  have ac: "active ?s = insert p (active (in_hand p s))"
    using insert_timer_active [of p "in_hand p s" slot] p sl by (simp add: i)
  have "links (L(slot := L slot @ [p])) S ?s"
    unfolding i by (rule insert_timer_links [OF L _ a sl(1)]) (simp add: p)
  moreover have "card (active ?s) = card (active (in_hand p s)) + 1"
    using b a by (simp add: ac bumping_def)
  moreover have "timeout_pos (tmr s q) \<le> tw_pos (tiw s)" if "q \<in> active ?s" "tslot (tmr ?s q) = -1" for q
    using b that sl(2) by (auto simp: ac bumping_def split: if_splits)
  ultimately have "bumping 0 S ?s" using b by (auto simp: bumping_def insert_timer_sel ac)
  moreover have "p \<notin> set S" using links_mem_active [OF L, of p] a by blast
  moreover have "yield_slots_left (insert_count slot tp t) = yield_slots_left t" for tp t
    by (simp add: insert_count_def Let_def)
  then have "same_frame s ?s"
    by (simp add: same_frame_def insert_timer_tiw split: option.split)
  ultimately show ?thesis by (auto simp: bump_step_def)
qed

lemma insert_timer_logged: "logged log h (insert_timer_into_slot slot p s) \<longleftrightarrow> logged log h s"
  by (simp add: logged_def insert_timer_into_slot_def Let_def env_defs split: option.split)

text \<open>Updates of the other counters.\<close>

definition keeps :: "(ErtsTimerWheel \<Rightarrow> ErtsTimerWheel) \<Rightarrow> bool" where
  "keeps g \<longleftrightarrow> (\<forall>t. tw_w (g t) = tw_w t \<and> sentinel (g t) = sentinel t \<and> tw_pos (g t) = tw_pos t \<and>
     tw_nto (g t) = tw_nto t \<and> yield_slot (g t) = yield_slot t \<and>
     yield_slots_left (g t) = yield_slots_left t)"

lemma keeps_in_hand: "keeps g \<Longrightarrow> bumping k S (in_hand p (wheel g s)) \<longleftrightarrow> bumping k S (in_hand p s)"
  by (rule bumping_cong) (simp_all add: in_hand_wheel wheel_sel keeps_def)

lemma keeps_step: "keeps g \<Longrightarrow> bump_step S (wheel g s) S' s' \<longleftrightarrow> bump_step S s S' s'"
  by (simp add: bump_step_def same_frame_def wheel_sel keeps_def)

lemma logged_wheel [simp]: "logged log h (wheel g s) \<longleftrightarrow> logged log h s"
  by (simp add: logged_def wheel_sel)

text \<open>Triggering a timer of the soon or later wheel: it is counted until its procedure has returned.\<close>

lemma trigger_bumping:
  assumes cb: "cb_ok cb" and b: "bumping 1 S (in_hand p s)"
    and t: "timeout_pos (tmr s p) \<le> tw_pos (tiw s)" "tw_pos (tiw s) \<le> h" and l: "logged log h s"
    and r: "timeout_timer cb p s = Some s2" and g: "keeps (\<lambda>t. (g t)\<lparr>tw_nto := tw_nto t\<rparr>)"
    and n: "\<And>t. tw_nto (g t) = tw_nto t - 1"
  shows "logged log h (wheel g s2) \<and> (\<exists>S'. bump_step S s S' (wheel g s2))"
proof -
  from timeout_timer_bumping [OF cb b order_refl t l r] obtain S' where
    S': "logged log h s2" "bumping 1 S' s2" "set S' \<subseteq> set S" "\<forall>q \<in> set S'. tslot (tmr s2 q) = tslot (tmr s q)"
    "same_frame s s2" by blast
  have "bumping 0 S' (wheel g s2)"
    by (rule bumping_counted [of 0 _ s2]) (use S'(2) g n in \<open>simp_all add: wheel_sel keeps_def\<close>)
  then have "bump_step S s S' (wheel g s2)"
    using S' g by (simp add: bump_step_def wheel_sel same_frame_def keeps_def)
  then show ?thesis using S'(1) by auto
qed

lemma soon_timer_bumping:
  assumes cb: "cb_ok cb" and b: "bumping 1 S (in_hand p s)" and p: "p \<noteq> sentinel (tiw s)"
    and sl: "is_slot slot" "slot \<noteq> -1"
    and t: "tw_pos (tiw s) = bump_to" "tw_pos (tiw s) \<le> h" and l: "logged log h s"
    and r: "soon_timer cb bump_to slot six p y s = Some (y', s')"
  shows "logged log h s' \<and> (\<exists>S'. bump_step S s S' s')"
proof -
  define g :: "ErtsTimerWheel \<Rightarrow> ErtsTimerWheel" where
    "g = (\<lambda>t. t\<lparr>tw_scnt := scnt_ix_dec (tw_scnt t) six\<rparr>) \<circ>
         (\<lambda>t. let t = t\<lparr>soon_nto := soon_nto t - 1\<rparr>
              in if soon_nto t = 0 then t\<lparr>soon_min_tpos := ERTS_MAX_CLKTCKS\<rparr> else t)"
  have k: "keeps g" by (simp add: g_def keeps_def Let_def)
  let ?s = "wheel g s"
  have b1: "bumping 1 S (in_hand p ?s)" using b by (simp add: keeps_in_hand [OF k])
  have body: "(if timeout_pos (tmr ?s p) \<le> bump_to then do {
           s \<leftarrow> timeout_timer cb p ?s;
           Some (y - ERTS_TW_COST_TIMEOUT, wheel (\<lambda>t. t\<lparr>tw_nto := tw_nto t - 1,
             tw_bump_scnt := scnt_ix_dec (tw_bump_scnt t) six\<rparr>) s)
         }
         else Some (y - ERTS_TW_COST_SLOT_MOVE, insert_timer_into_slot slot p ?s)) = Some (y', s')"
    using r unfolding soon_timer_def g_def Let_def wheel_wheel bind.bind_lunit .
  show ?thesis
  proof (cases "timeout_pos (tmr ?s p) \<le> bump_to")
    case True
    with body obtain s2 where s2: "timeout_timer cb p ?s = Some s2"
      "s' = wheel (\<lambda>t. t\<lparr>tw_nto := tw_nto t - 1, tw_bump_scnt := scnt_ix_dec (tw_bump_scnt t) six\<rparr>) s2"
      by (auto split: bind_splits)
    from trigger_bumping [OF cb b1 _ _ _ s2(1), of h log
        "\<lambda>t. t\<lparr>tw_nto := tw_nto t - 1, tw_bump_scnt := scnt_ix_dec (tw_bump_scnt t) six\<rparr>"] True t l k
    show ?thesis by (simp add: s2 keeps_step [OF k] wheel_sel keeps_def)
  next
    case False
    with body have s': "s' = insert_timer_into_slot slot p ?s" by simp
    have "p \<noteq> sentinel (tiw ?s)" using p k by (simp add: keeps_def wheel_sel)
    from insert_timer_bumping [OF b1 this sl] show ?thesis
      using l by (auto simp: s' insert_timer_logged keeps_step [OF k])
  qed
qed

lemma later_timer_bumping:
  assumes cb: "cb_ok cb" and b: "bumping 1 S (in_hand p s)" and p: "p \<noteq> sentinel (tiw s)"
    and sl: "is_slot fslot" "fslot \<noteq> -1"
    and t: "tw_pos (tiw s) = cpos" "tw_pos (tiw s) \<le> h" and l: "logged log h s"
    and r: "later_timer cb cpos fslot six p y s = Some (y', s')"
  shows "logged log h s' \<and> (\<exists>S'. bump_step S s S' s')"
proof -
  define g :: "ErtsTimerWheel \<Rightarrow> ErtsTimerWheel" where
    "g = (\<lambda>t. t\<lparr>tw_scnt := scnt_ix_dec (tw_scnt t) six\<rparr>) \<circ>
         (\<lambda>t. let t = t\<lparr>later_nto := later_nto t - 1\<rparr>
              in if later_nto t = 0
                 then t\<lparr>later_min_tpos := ERTS_MAX_CLKTCKS,
                        later_min_tpos_slot := ERTS_TW_LATER_WHEEL_END_SLOT\<rparr>
                 else t)"
  define g2 :: "ErtsTimerWheel \<Rightarrow> ErtsTimerWheel" where
    "g2 = (\<lambda>t. t\<lparr>tw_bump_scnt := scnt_ix_dec (tw_bump_scnt t) six\<rparr>) \<circ> g"
  have k: "keeps g" "keeps g2" by (simp_all add: g2_def g_def keeps_def Let_def)
  have b1: "bumping 1 S (in_hand p (wheel g s))" "bumping 1 S (in_hand p (wheel g2 s))"
    using b by (simp_all add: keeps_in_hand k)
  let ?tpos = "timeout_pos (tmr s p)"
  have body: "(if ?tpos \<ge> later_pos (tiw (wheel g s)) + ERTS_TW_LATER_WHEEL_SLOT_SIZE
      then Some (y - ERTS_TW_COST_SLOT_MOVE, insert_timer_into_slot fslot p (wheel g s))
      else if ?tpos > cpos
      then Some (y - ERTS_TW_COST_SLOT_MOVE, insert_timer_into_slot (soon_slot ?tpos) p (wheel g2 s))
      else do {
        s \<leftarrow> timeout_timer cb p (wheel g2 s);
        Some (y - ERTS_TW_COST_TIMEOUT, wheel (\<lambda>t. t\<lparr>tw_nto := tw_nto t - 1\<rparr>) s)
      }) = Some (y', s')"
    using r unfolding later_timer_def g2_def g_def Let_def wheel_wheel comp_assoc .
  have p1: "p \<noteq> sentinel (tiw (wheel g s))" "p \<noteq> sentinel (tiw (wheel g2 s))"
    using p k by (simp_all add: keeps_def wheel_sel)
  have ss: "is_slot (soon_slot ?tpos)" "soon_slot ?tpos \<noteq> -1"
    using in_soon_slot [of ?tpos] by (auto simp: in_soon_def)
  consider "s' = insert_timer_into_slot fslot p (wheel g s)"
    | "s' = insert_timer_into_slot (soon_slot ?tpos) p (wheel g2 s)"
    | s2 where "?tpos \<le> cpos" "timeout_timer cb p (wheel g2 s) = Some s2"
      "s' = wheel (\<lambda>t. t\<lparr>tw_nto := tw_nto t - 1\<rparr>) s2"
    using body by (auto split: if_splits bind_splits)
  then show ?thesis
  proof cases
    case 1
    from insert_timer_bumping [OF b1(1) p1(1) sl] show ?thesis
      using l by (auto simp: 1 insert_timer_logged keeps_step [OF k(1)])
  next
    case 2
    from insert_timer_bumping [OF b1(2) p1(2) ss] show ?thesis
      using l by (auto simp: 2 insert_timer_logged keeps_step [OF k(2)])
  next
    case 3
    from trigger_bumping [OF cb b1(2) _ _ _ 3(2), of h log "\<lambda>t. t\<lparr>tw_nto := tw_nto t - 1\<rparr>"] 3(1) t l k(2)
    show ?thesis by (simp add: 3(3) keeps_step [OF k(2)] wheel_sel keeps_def)
  qed
qed

subsection \<open>The loops\<close>

text \<open>Between two calls: the sentinel's list is empty unless the bump has yielded in a slot.\<close>

definition bump_ok :: "tw_state \<Rightarrow> bool" where
  "bump_ok s \<longleftrightarrow> (\<exists>S. bumping 0 S s \<and>
     (yield_slot (tiw s) = ERTS_TW_SLOT_INACTIVE \<and> S = [] \<or>
      yield_slot (tiw s) = ERTS_TW_SLOT_AT_ONCE \<and> (\<forall>q \<in> set S. tslot (tmr s q) = ERTS_TW_SLOT_AT_ONCE) \<or>
      0 \<le> yield_slot (tiw s) \<and> yield_slot (tiw s) < 32768 \<and> 0 < yield_slots_left (tiw s)))"

definition stops :: "bool \<Rightarrow> tw_state \<Rightarrow> tw_state \<Rightarrow> bool" where
  "stops y s s' \<longleftrightarrow> bump_ok s' \<and> tw_pos (tiw s') = tw_pos (tiw s) \<and>
     (\<not> y \<longrightarrow> yield_slot (tiw s') = ERTS_TW_SLOT_INACTIVE)"

lemma bump_ok_idle:
  "yield_slot (tiw s) = ERTS_TW_SLOT_INACTIVE \<Longrightarrow> bump_ok s \<longleftrightarrow> bumping 0 [] s"
  by (auto simp: bump_ok_def)

lemma stops_empty:
  "bumping 0 [] s \<Longrightarrow> yield_slot (tiw s) = ERTS_TW_SLOT_INACTIVE \<Longrightarrow> stops y s s"
  by (simp add: stops_def bump_ok_idle)

lemma stops_yield:
  assumes "bumping 0 S s" "0 \<le> slot" "slot < 32768" "0 < slots"
  shows "stops True s (wheel (\<lambda>t. t\<lparr>yield_slot := slot, yield_slots_left := slots\<rparr>) s)"
proof -
  have "bumping 0 S (wheel (\<lambda>t. t\<lparr>yield_slot := slot, yield_slots_left := slots\<rparr>) s)"
    using assms(1) by (subst bumping_cong [of _ s]) (simp_all add: wheel_sel)
  then show ?thesis using assms by (auto simp: stops_def bump_ok_def wheel_sel)
qed

lemma stops_trans: "stops y s' s'' \<Longrightarrow> tw_pos (tiw s') = tw_pos (tiw s) \<Longrightarrow> stops y s s''"
  by (simp add: stops_def)

lemma bumping_first:
  assumes "bumping k S s"
  obtains "S = []" "tnext (tmr s (sentinel (tiw s))) = sentinel (tiw s)"
  | p S' where "S = p # S'" "tnext (tmr s (sentinel (tiw s))) = p" "p \<noteq> sentinel (tiw s)"
proof -
  obtain L where L: "links L S s" using assms by (auto simp: bumping_def)
  show thesis using links_first [OF L] linksD(9) [OF L] that by (cases S) auto
qed

lemma at_once_rest_stops:
  assumes "at_once_rest cb y s = Some r"
    and "cb_ok cb" "bumping 0 S s" "\<forall>q \<in> set S. tslot (tmr s q) = ERTS_TW_SLOT_AT_ONCE"
    and "yield_slot (tiw s) = ERTS_TW_SLOT_INACTIVE" "tw_pos (tiw s) \<le> h" "logged log h s"
  shows "stops (fst r) s (snd (snd r)) \<and> logged log h (snd (snd r))"
  using assms
proof (induction arbitrary: S rule: at_once_rest.raw_induct [rotated, consumes 1, case_names body])
  case (body rest cb y s r)
  note pr = body.prems
  show ?case
  proof (cases rule: bumping_first [OF pr(2)])
    case 1
    then have "r = (False, y, s)" using body.hyps by simp
    then show ?thesis using pr stops_empty 1 by simp
  next
    case (2 p S')
    show ?thesis
    proof (cases "y \<le> 0")
      case True
      let ?s = "wheel (\<lambda>t. t\<lparr>yield_slot := ERTS_TW_SLOT_AT_ONCE\<rparr>) s"
      have r: "r = (True, y, ?s)" using body.hyps True 2 by simp
      have "bumping 0 S ?s" using pr(2) by (subst bumping_cong [of _ s]) (simp_all add: wheel_sel)
      then have "stops True s ?s" using pr(3) by (auto simp: stops_def bump_ok_def wheel_sel)
      then show ?thesis using r pr(6) by simp
    next
      case False
      let ?p = "pop_sentinel p s"
      obtain y2 s2 where s2: "at_once_timer cb p y ?p = Some (y2, s2)" "rest cb y2 s2 = Some r"
        using body.hyps False 2 by (auto split: bind_splits)
      note b = pop_sentinel_bumping [OF pr(2) [unfolded 2(1)]]
      have t: "timeout_pos (tmr ?p p) \<le> tw_pos (tiw ?p)"
        using pr(2,3) b(2) 2(1) by (simp add: bumping_def)
      have pl: "tw_pos (tiw ?p) \<le> h" "logged log h ?p" using pr(5,6) by (simp_all add: logged_def)
      obtain S2 where S2: "bump_step S' ?p S2 s2" "logged log h s2"
        using at_once_timer_bumping [OF pr(1) b(1) t pl s2(1)] by blast
      have "stops (fst r) s2 (snd (snd r)) \<and> logged log h (snd (snd r))"
        by (rule body.IH [OF s2(2) pr(1), of S2])
          (use S2 pr 2(1) in \<open>auto simp: bump_step_def same_frame_def\<close>)
      then show ?thesis using S2(1) stops_trans by (auto simp: bump_step_def same_frame_def)
    qed
  qed
qed

lemma soon_rest_stops:
  assumes "soon_rest cb bump_to slot slots six y s = Some r"
    and "cb_ok cb" "bumping 0 S s" "0 \<le> slot" "slot < 16384" "0 < slots" "tw_pos (tiw s) = bump_to"
    and "yield_slot (tiw s) = ERTS_TW_SLOT_INACTIVE" "tw_pos (tiw s) \<le> h" "logged log h s"
  shows "stops (fst r) s (snd (snd r)) \<and> logged log h (snd (snd r))"
  using assms
proof (induction arbitrary: S rule: soon_rest.raw_induct [rotated, consumes 1, case_names body])
  case (body rest cb bump_to slot slots six y s r)
  note pr = body.prems
  show ?case
  proof (cases rule: bumping_first [OF pr(2)])
    case 1
    then have "r = (False, y, s)" using body.hyps by simp
    then show ?thesis using pr stops_empty 1 by simp
  next
    case (2 p S')
    show ?thesis
    proof (cases "y \<le> 0")
      case True
      have "r = (True, y, wheel (\<lambda>t. t\<lparr>yield_slot := slot, yield_slots_left := slots\<rparr>) s)"
        using body.hyps True 2 by simp
      then show ?thesis using pr stops_yield [of S s slot slots] by simp
    next
      case False
      let ?p = "pop_sentinel p s"
      obtain y2 s2 where s2: "soon_timer cb bump_to slot six p y ?p = Some (y2, s2)"
        "rest cb bump_to slot slots six y2 s2 = Some r"
        using body.hyps False 2 by (auto split: bind_splits)
      note b = pop_sentinel_bumping [OF pr(2) [unfolded 2(1)]]
      obtain S2 where S2: "bump_step S' ?p S2 s2" "logged log h s2"
        using soon_timer_bumping [OF pr(1) b(1) _ _ _ _ _ _ s2(1), of h log] pr 2(3)
        by (auto simp: is_slot_def logged_def)
      have "stops (fst r) s2 (snd (snd r)) \<and> logged log h (snd (snd r))"
        by (rule body.IH [OF s2(2) pr(1), of S2])
          (use S2 pr 2(1) in \<open>auto simp: bump_step_def same_frame_def\<close>)
      then show ?thesis using S2(1) stops_trans by (auto simp: bump_step_def same_frame_def)
    qed
  qed
qed

lemma later_rest_stops:
  assumes "later_rest cb cpos slot slots six y s = Some r"
    and "cb_ok cb" "bumping 0 S s" "0 \<le> slot" "slot < 32768" "0 < slots" "tw_pos (tiw s) = cpos"
    and "yield_slot (tiw s) = ERTS_TW_SLOT_INACTIVE" "tw_pos (tiw s) \<le> h" "logged log h s"
  shows "stops (fst r) s (snd (snd r)) \<and> logged log h (snd (snd r))"
  using assms
proof (induction arbitrary: S rule: later_rest.raw_induct [rotated, consumes 1, case_names body])
  case (body rest cb cpos slot slots six y s r)
  note pr = body.prems
  show ?case
  proof (cases rule: bumping_first [OF pr(2)])
    case 1
    then have "r = (False, y, s)" using body.hyps by simp
    then show ?thesis using pr stops_empty 1 by simp
  next
    case (2 p S')
    show ?thesis
    proof (cases "y < 0")
      case True
      have "r = (True, 0, wheel (\<lambda>t. t\<lparr>yield_slot := slot, yield_slots_left := slots\<rparr>) s)"
        using body.hyps True 2 by simp
      then show ?thesis using pr stops_yield [of S s slot slots] by simp
    next
      case False
      let ?p = "pop_sentinel p s"
      obtain y2 s2 where s2: "later_timer cb cpos slot six p y ?p = Some (y2, s2)"
        "rest cb cpos slot slots six y2 s2 = Some r"
        using body.hyps False 2 by (auto split: bind_splits)
      note b = pop_sentinel_bumping [OF pr(2) [unfolded 2(1)]]
      obtain S2 where S2: "bump_step S' ?p S2 s2" "logged log h s2"
        using later_timer_bumping [OF pr(1) b(1) _ _ _ _ _ _ s2(1), of h log] pr 2(3)
        by (auto simp: is_slot_def logged_def)
      have "stops (fst r) s2 (snd (snd r)) \<and> logged log h (snd (snd r))"
        by (rule body.IH [OF s2(2) pr(1), of S2])
          (use S2 pr 2(1) in \<open>auto simp: bump_step_def same_frame_def\<close>)
      then show ?thesis using S2(1) stops_trans by (auto simp: bump_step_def same_frame_def)
    qed
  qed
qed

lemma wheel_next_range:
  assumes "scnt_wheel_next slot slots pos sc f e sz = Some (slot', slots', pos', six')"
    and "f mod 512 = 0" "e mod 512 = 0" "f < e" "f \<le> slot" "slot < e" "0 < slots"
  shows "f \<le> slot' \<and> slot' < e"
proof (rule scnt_wheel_next_spec [OF assms(2-7), of pos sc sz])
  fix k assume "scnt_wheel_next slot slots pos sc f e sz =
    Some (wrap f e slot k, slots - k, pos + sz * k, wrap f e slot k div 512)"
  then show ?thesis using assms(1) wrap_range [OF assms(4), of slot k] by simp
qed

lemma soon_next_range:
  assumes "scnt_soon_wheel_next slot slots pos sc = Some (slot', slots', pos', six')"
    and "0 \<le> slot" "slot < 16384" "0 < slots"
  shows "0 \<le> slot'" "slot' < 16384"
  using wheel_next_range [OF assms(1) [unfolded scnt_soon_wheel_next_def]] assms(2-) by simp_all

lemma later_next_range:
  assumes "scnt_later_wheel_next slot slots pos sc = Some (slot', slots', pos', six')"
    and "16384 \<le> slot" "slot < 32768" "0 < slots"
  shows "16384 \<le> slot'" "slot' < 32768"
  using wheel_next_range [OF assms(1) [unfolded scnt_later_wheel_next_def]] assms(2-) by simp_all

lemma soon_slot_stops:
  assumes r: "(case tw_w (tiw s) slot of
             None \<Rightarrow> Some (False, y, s)
           | Some p \<Rightarrow> do {
               (y, s) \<leftarrow> soon_timer cb bump_to slot six p y (detach_slot slot p s);
               soon_rest cb bump_to slot slots six y s
             }) = Some r"
    and a: "cb_ok cb" "bumping 0 [] s" "0 \<le> slot" "slot < 16384" "0 < slots" "tw_pos (tiw s) = bump_to"
      "yield_slot (tiw s) = ERTS_TW_SLOT_INACTIVE" "tw_pos (tiw s) \<le> h" "logged log h s"
  shows "stops (fst r) s (snd (snd r)) \<and> logged log h (snd (snd r))"
proof (cases "tw_w (tiw s) slot")
  case None
  then show ?thesis using r a stops_empty by auto
next
  case (Some p)
  let ?d = "detach_slot slot p s"
  obtain y2 s2 where s2: "soon_timer cb bump_to slot six p y ?d = Some (y2, s2)"
    "soon_rest cb bump_to slot slots six y2 s2 = Some r"
    using r Some by (auto split: bind_splits)
  have sl: "is_slot slot" "slot \<noteq> -1" using a by (simp_all add: is_slot_def)
  obtain S where S: "bumping 1 S (in_hand p ?d)" "p \<in> active s"
    using detach_slot_bumping [OF a(2) sl(1) Some] by metis
  obtain S2 where S2: "bump_step S ?d S2 s2" "logged log h s2"
    using soon_timer_bumping [OF a(1) S(1) _ sl _ _ _ s2(1), of h log] a S(2)
    by (auto simp: active_def logged_def)
  have "stops (fst r) s2 (snd (snd r)) \<and> logged log h (snd (snd r))"
    by (rule soon_rest_stops [OF s2(2) a(1)])
      (use S2 a in \<open>auto simp: bump_step_def same_frame_def\<close>)
  then show ?thesis using S2(1) stops_trans by (auto simp: bump_step_def same_frame_def)
qed

lemma later_slot_stops:
  assumes r: "(case tw_w (tiw s) slot of
             None \<Rightarrow> Some (False, y, s)
           | Some p \<Rightarrow> do {
               (y, s) \<leftarrow> later_timer cb cpos slot six p y (detach_slot slot p s);
               later_rest cb cpos slot slots six y s
             }) = Some r"
    and a: "cb_ok cb" "bumping 0 [] s" "0 \<le> slot" "slot < 32768" "0 < slots" "tw_pos (tiw s) = cpos"
      "yield_slot (tiw s) = ERTS_TW_SLOT_INACTIVE" "tw_pos (tiw s) \<le> h" "logged log h s"
  shows "stops (fst r) s (snd (snd r)) \<and> logged log h (snd (snd r))"
proof (cases "tw_w (tiw s) slot")
  case None
  then show ?thesis using r a stops_empty by auto
next
  case (Some p)
  let ?d = "detach_slot slot p s"
  obtain y2 s2 where s2: "later_timer cb cpos slot six p y ?d = Some (y2, s2)"
    "later_rest cb cpos slot slots six y2 s2 = Some r"
    using r Some by (auto split: bind_splits)
  have sl: "is_slot slot" "slot \<noteq> -1" using a by (simp_all add: is_slot_def)
  obtain S where S: "bumping 1 S (in_hand p ?d)" "p \<in> active s"
    using detach_slot_bumping [OF a(2) sl(1) Some] by metis
  obtain S2 where S2: "bump_step S ?d S2 s2" "logged log h s2"
    using later_timer_bumping [OF a(1) S(1) _ sl _ _ _ s2(1), of h log] a S(2)
    by (auto simp: active_def logged_def)
  have "stops (fst r) s2 (snd (snd r)) \<and> logged log h (snd (snd r))"
    by (rule later_rest_stops [OF s2(2) a(1)])
      (use S2 a in \<open>auto simp: bump_step_def same_frame_def\<close>)
  then show ?thesis using S2(1) stops_trans by (auto simp: bump_step_def same_frame_def)
qed

text \<open>After a slot: the bump stops there, or goes on with a state whose sentinel list is empty.\<close>

lemma go_on_stops:
  assumes "stops (fst r1) s (snd (snd r1)) \<and> logged log h (snd (snd r1))"
    and "(if fst r1 then Some r1 else nxt (fst (snd r1)) (snd (snd r1))) = Some r"
    and "\<And>y' s'. \<lbrakk>nxt y' s' = Some r; bumping 0 [] s'; yield_slot (tiw s') = ERTS_TW_SLOT_INACTIVE;
           tw_pos (tiw s') = tw_pos (tiw s); logged log h s'\<rbrakk> \<Longrightarrow>
           stops (fst r) s' (snd (snd r)) \<and> logged log h (snd (snd r))"
  shows "stops (fst r) s (snd (snd r)) \<and> logged log h (snd (snd r))"
proof (cases "fst r1")
  case True
  then show ?thesis using assms(1,2) by simp
next
  case False
  let ?s = "snd (snd r1)"
  have ok: "bumping 0 [] ?s" "yield_slot (tiw ?s) = ERTS_TW_SLOT_INACTIVE" "tw_pos (tiw ?s) = tw_pos (tiw s)"
    using assms(1) False bump_ok_idle [of ?s] by (auto simp: stops_def)
  with assms(1,2) False have "stops (fst r) ?s (snd (snd r)) \<and> logged log h (snd (snd r))"
    by (intro assms(3)) simp_all
  then show ?thesis using ok(3) stops_trans by blast
qed

lemma soon_slots_stops:
  assumes "soon_slots cb bump_to slot slots six y s = Some r"
    and "cb_ok cb" "bumping 0 [] s" "0 \<le> slot" "slot < 16384" "tw_pos (tiw s) = bump_to"
      "yield_slot (tiw s) = ERTS_TW_SLOT_INACTIVE" "tw_pos (tiw s) \<le> h" "logged log h s"
  shows "stops (fst r) s (snd (snd r)) \<and> logged log h (snd (snd r))"
  using assms
proof (induction rule: soon_slots.raw_induct [rotated, consumes 1, case_names body])
  case (body rest cb bump_to slot slots six y s r)
  note pr = body.prems
  show ?case
  proof (cases "slots > 0")
    case False
    then have "r = (False, y, s)" using body.hyps by simp
    then show ?thesis using pr stops_empty by simp
  next
    case True
    let ?next = "\<lambda>y s. do {
      (slot, slots, pos, six) \<leftarrow> scnt_soon_wheel_next slot slots 0 (tw_bump_scnt (tiw s));
      rest cb bump_to slot slots six y s
    }"
    obtain r1 where r1: "(case tw_w (tiw s) slot of
             None \<Rightarrow> Some (False, y - ERTS_TW_COST_SLOT, s)
           | Some p \<Rightarrow> do {
               (y, s) \<leftarrow> soon_timer cb bump_to slot six p (y - ERTS_TW_COST_SLOT) (detach_slot slot p s);
               soon_rest cb bump_to slot slots six y s
             }) = Some r1"
      and go: "(if fst r1 then Some r1 else ?next (fst (snd r1)) (snd (snd r1))) = Some r"
      using body.hyps True by (auto split: bind_splits if_splits)
    have st: "stops (fst r1) s (snd (snd r1)) \<and> logged log h (snd (snd r1))"
      by (rule soon_slot_stops [OF r1 pr(1,2) _ pr(4) True pr(5-8)]) (use pr(3) in simp)
    show ?thesis
    proof (rule go_on_stops [where nxt = ?next, OF st go])
      fix y' s'
      assume n: "?next y' s' = Some r" and ok: "bumping 0 [] s'" "yield_slot (tiw s') = ERTS_TW_SLOT_INACTIVE"
        "tw_pos (tiw s') = tw_pos (tiw s)" "logged log h s'"
      obtain slot' slots' pos' six' where
        n: "scnt_soon_wheel_next slot slots 0 (tw_bump_scnt (tiw s')) = Some (slot', slots', pos', six')"
        "rest cb bump_to slot' slots' six' y' s' = Some r"
        using n by (auto split: bind_splits)
      show "stops (fst r) s' (snd (snd r)) \<and> logged log h (snd (snd r))"
        by (rule body.IH [OF n(2) pr(1) ok(1)])
          (use ok pr soon_next_range [OF n(1) pr(3,4) True] in auto)
    qed
  qed
qed

lemma later_slots_stops:
  assumes "later_slots cb cpos slot slots six y s = Some r"
    and "cb_ok cb" "bumping 0 [] s" "16384 \<le> slot" "slot < 32768" "tw_pos (tiw s) = cpos"
      "yield_slot (tiw s) = ERTS_TW_SLOT_INACTIVE" "tw_pos (tiw s) \<le> h" "logged log h s"
  shows "stops (fst r) s (snd (snd r)) \<and> logged log h (snd (snd r))"
  using assms
proof (induction rule: later_slots.raw_induct [rotated, consumes 1, case_names body])
  case (body rest cb cpos slot slots six y s r)
  note pr = body.prems
  show ?case
  proof (cases "slots > 0")
    case False
    then have "r = (False, y, s)" using body.hyps by simp
    then show ?thesis using pr stops_empty by simp
  next
    case True
    let ?next = "\<lambda>y s. do {
      (slot, slots, pos, six) \<leftarrow> scnt_later_wheel_next slot slots 0 (tw_bump_scnt (tiw s));
      rest cb cpos slot slots six y s
    }"
    obtain r1 where r1: "(case tw_w (tiw s) slot of
             None \<Rightarrow> Some (False, y - ERTS_TW_COST_SLOT, s)
           | Some p \<Rightarrow> do {
               (y, s) \<leftarrow> later_timer cb cpos slot six p (y - ERTS_TW_COST_SLOT) (detach_slot slot p s);
               later_rest cb cpos slot slots six y s
             }) = Some r1"
      and go: "(if fst r1 then Some r1 else ?next (fst (snd r1)) (snd (snd r1))) = Some r"
      using body.hyps True by (auto split: bind_splits if_splits)
    have st: "stops (fst r1) s (snd (snd r1)) \<and> logged log h (snd (snd r1))"
      by (rule later_slot_stops [OF r1 pr(1,2) _ pr(4) True pr(5-8)]) (use pr(3) in simp)
    show ?thesis
    proof (rule go_on_stops [where nxt = ?next, OF st go])
      fix y' s'
      assume n: "?next y' s' = Some r" and ok: "bumping 0 [] s'" "yield_slot (tiw s') = ERTS_TW_SLOT_INACTIVE"
        "tw_pos (tiw s') = tw_pos (tiw s)" "logged log h s'"
      obtain slot' slots' pos' six' where
        n: "scnt_later_wheel_next slot slots 0 (tw_bump_scnt (tiw s')) = Some (slot', slots', pos', six')"
        "rest cb cpos slot' slots' six' y' s' = Some r"
        using n by (auto split: bind_splits)
      show "stops (fst r) s' (snd (snd r)) \<and> logged log h (snd (snd r))"
        by (rule body.IH [OF n(2) pr(1) ok(1)])
          (use ok pr later_next_range [OF n(1) pr(3,4) True] in auto)
    qed
  qed
qed

lemma soon_restart_stops:
  assumes r: "soon_restart cb bump_to slot slots six y s = Some r"
    and a: "cb_ok cb" "bumping 0 S s" "0 \<le> slot" "slot < 16384" "0 < slots" "tw_pos (tiw s) = bump_to"
      "yield_slot (tiw s) = ERTS_TW_SLOT_INACTIVE" "tw_pos (tiw s) \<le> h" "logged log h s"
  shows "stops (fst r) s (snd (snd r)) \<and> logged log h (snd (snd r))"
proof -
  let ?next = "\<lambda>y s. do {
    (slot, slots, pos, six) \<leftarrow> scnt_soon_wheel_next slot slots 0 (tw_bump_scnt (tiw s));
    soon_slots cb bump_to slot slots six y s
  }"
  obtain r1 where r1: "soon_rest cb bump_to slot slots six y s = Some r1"
    and go: "(if fst r1 then Some r1 else ?next (fst (snd r1)) (snd (snd r1))) = Some r"
    using r unfolding soon_restart_def by (auto split: bind_splits if_splits)
  have st: "stops (fst r1) s (snd (snd r1)) \<and> logged log h (snd (snd r1))"
    by (rule soon_rest_stops [OF r1 a(1,2)]) (use a in simp_all)
  show ?thesis
  proof (rule go_on_stops [where nxt = ?next, OF st go])
    fix y' s'
    assume n: "?next y' s' = Some r" and ok: "bumping 0 [] s'" "yield_slot (tiw s') = ERTS_TW_SLOT_INACTIVE"
      "tw_pos (tiw s') = tw_pos (tiw s)" "logged log h s'"
    obtain slot' slots' pos' six' where
      n: "scnt_soon_wheel_next slot slots 0 (tw_bump_scnt (tiw s')) = Some (slot', slots', pos', six')"
      "soon_slots cb bump_to slot' slots' six' y' s' = Some r"
      using n by (auto split: bind_splits)
    show "stops (fst r) s' (snd (snd r)) \<and> logged log h (snd (snd r))"
      by (rule soon_slots_stops [OF n(2) a(1) ok(1)])
        (use ok a soon_next_range [OF n(1) a(3,4,5)] in auto)
  qed
qed

lemma later_restart_stops:
  assumes r: "do {
      (yields, ycount, s) \<leftarrow> later_rest cb cpos slot slots six y s;
      if yields then Some (True, ycount, s)
      else do {
        (fslot, slots, pos, six) \<leftarrow> scnt_later_wheel_next slot slots 0 (tw_bump_scnt (tiw s));
        later_slots cb cpos fslot slots six ycount s
      }
    } = Some r"
    and a: "cb_ok cb" "bumping 0 S s" "16384 \<le> slot" "slot < 32768" "0 < slots" "tw_pos (tiw s) = cpos"
      "yield_slot (tiw s) = ERTS_TW_SLOT_INACTIVE" "tw_pos (tiw s) \<le> h" "logged log h s"
  shows "stops (fst r) s (snd (snd r)) \<and> logged log h (snd (snd r))"
proof -
  let ?next = "\<lambda>y s. do {
    (slot, slots, pos, six) \<leftarrow> scnt_later_wheel_next slot slots 0 (tw_bump_scnt (tiw s));
    later_slots cb cpos slot slots six y s
  }"
  obtain r1 where r1: "later_rest cb cpos slot slots six y s = Some r1"
    and go: "(if fst r1 then Some r1 else ?next (fst (snd r1)) (snd (snd r1))) = Some r"
    using r by (auto split: bind_splits if_splits)
  have st: "stops (fst r1) s (snd (snd r1)) \<and> logged log h (snd (snd r1))"
    by (rule later_rest_stops [OF r1 a(1,2)]) (use a in simp_all)
  show ?thesis
  proof (rule go_on_stops [where nxt = ?next, OF st go])
    fix y' s'
    assume n: "?next y' s' = Some r" and ok: "bumping 0 [] s'" "yield_slot (tiw s') = ERTS_TW_SLOT_INACTIVE"
      "tw_pos (tiw s') = tw_pos (tiw s)" "logged log h s'"
    obtain slot' slots' pos' six' where
      n: "scnt_later_wheel_next slot slots 0 (tw_bump_scnt (tiw s')) = Some (slot', slots', pos', six')"
      "later_slots cb cpos slot' slots' six' y' s' = Some r"
      using n by (auto split: bind_splits)
    show "stops (fst r) s' (snd (snd r)) \<and> logged log h (snd (snd r))"
      by (rule later_slots_stops [OF n(2) a(1) ok(1)])
        (use ok a later_next_range [OF n(1) a(3,4,5)] in auto)
  qed
qed

lemma bump_at_once_stops:
  assumes r: "bump_at_once cb y s = Some r"
    and a: "cb_ok cb" "bumping 0 [] s" "yield_slot (tiw s) = ERTS_TW_SLOT_INACTIVE" "tw_pos (tiw s) \<le> h"
      "logged log h s"
  shows "stops (fst r) s (snd (snd r)) \<and> logged log h (snd (snd r))"
proof (cases "tw_w (tiw s) ERTS_TW_SLOT_AT_ONCE")
  case None
  then show ?thesis using r a stops_empty by (auto simp: bump_at_once_def)
next
  case (Some p)
  let ?d = "detach_slot ERTS_TW_SLOT_AT_ONCE p s"
  obtain y2 s2 where s2: "at_once_timer cb p y ?d = Some (y2, s2)" "at_once_rest cb y2 s2 = Some r"
    using r Some by (auto simp: bump_at_once_def split: bind_splits)
  obtain S where S: "bumping 1 S (in_hand p ?d)" "p \<in> active s"
    "\<forall>q \<in> set (p # S). tslot (tmr s q) = ERTS_TW_SLOT_AT_ONCE"
    by (rule detach_slot_bumping [OF a(2) _ Some]) (auto simp: is_slot_def)
  then have t: "timeout_pos (tmr ?d p) \<le> tw_pos (tiw ?d)" using a(2) by (simp add: bumping_def)
  obtain S2 where S2: "bump_step S ?d S2 s2" "logged log h s2"
    using at_once_timer_bumping [OF a(1) S(1) t _ _ s2(1), of h log] a by (auto simp: logged_def)
  have "stops (fst r) s2 (snd (snd r)) \<and> logged log h (snd (snd r))"
    by (rule at_once_rest_stops [OF s2(2) a(1), of S2])
      (use S2 S(3) a in \<open>auto simp: bump_step_def same_frame_def\<close>)
  then show ?thesis using S2(1) stops_trans by (auto simp: bump_step_def same_frame_def)
qed

lemma bump_later_wheel_stops:
  assumes r: "bump_later_wheel cb y s = Some r"
    and a: "cb_ok cb" "bump_ok s" "yield_slot (tiw s) = ERTS_TW_SLOT_INACTIVE \<or> 16384 \<le> yield_slot (tiw s)"
      "tw_pos (tiw s) \<le> h" "logged log h s"
  shows "stops (fst r) s (snd (snd r)) \<and> logged log h (snd (snd r))"
proof (cases "16384 \<le> yield_slot (tiw s)")
  case True
  let ?s = "wheel (\<lambda>t. t\<lparr>yield_slot := ERTS_TW_SLOT_INACTIVE\<rparr>) s"
  define cpos where "cpos = tw_pos (tiw s)"
  define slot where "slot = yield_slot (tiw s)"
  define slots where "slots = yield_slots_left (tiw s)"
  obtain S where S: "bumping 0 S s" "slot < 32768" "0 < slots"
    using a(2) True by (auto simp: bump_ok_def slot_def slots_def)
  have b: "bumping 0 S ?s" using S(1) by (subst bumping_cong [of _ s]) (simp_all add: wheel_sel)
  have "do {
      (yields, ycount, s) \<leftarrow> later_rest cb cpos slot slots (scnt_get_ix slot) y ?s;
      if yields then Some (True, ycount, s)
      else do {
        (fslot, slots, pos, six) \<leftarrow> scnt_later_wheel_next slot slots 0 (tw_bump_scnt (tiw s));
        later_slots cb cpos fslot slots six ycount s
      }
    } = Some r"
    using r True unfolding cpos_def slot_def slots_def by (simp add: bump_later_wheel_def Let_def)
  from later_restart_stops [OF this a(1) b _ S(2,3), of h log] show ?thesis
    using True a(4,5) by (simp add: cpos_def slot_def wheel_sel stops_def)
next
  case False
  define lpos where "lpos = (tw_pos (tiw s) + ERTS_TW_SOON_WHEEL_SIZE) AND ERTS_TW_LATER_WHEEL_POS_MASK"
  let ?s = "wheel (\<lambda>t. t\<lparr>later_pos := lpos\<rparr>) s"
  have i: "yield_slot (tiw s) = ERTS_TW_SLOT_INACTIVE" using a(3) False by blast
  then have "bumping 0 [] s" using a(2) bump_ok_idle [OF i] by blast
  then have b: "bumping 0 [] ?s" by (subst bumping_cong [of _ s]) (simp_all add: wheel_sel)
  define mpos where "mpos = later_min_tpos (tiw s) AND ERTS_TW_LATER_WHEEL_POS_MASK"
  define pos where "pos = (if mpos > later_pos (tiw s) then mpos else later_pos (tiw s))"
  define n where "n = cdiv (lpos - pos) ERTS_TW_LATER_WHEEL_SLOT_SIZE"
  define slots where "slots = (if n < ERTS_TW_LATER_WHEEL_SIZE then n else ERTS_TW_LATER_WHEEL_SIZE)"
  have "bump_later_wheel cb y s = (if mpos > later_pos (tiw s) \<and> mpos > lpos then Some (False, y, ?s)
    else later_slots cb (tw_pos (tiw s)) (later_slot pos) slots (scnt_get_ix (later_slot pos)) y ?s)"
    using False unfolding bump_later_wheel_def Let_def slots_def n_def pos_def mpos_def lpos_def by simp
  then consider "r = (False, y, ?s)"
    | "later_slots cb (tw_pos (tiw s)) (later_slot pos) slots (scnt_get_ix (later_slot pos)) y ?s = Some r"
    using r by (auto split: if_splits)
  then show ?thesis
  proof cases
    case 1
    then show ?thesis using stops_empty [OF b, of False] i a(5) by (simp add: stops_def wheel_sel)
  next
    case 2
    have sl: "16384 \<le> later_slot pos" "later_slot pos < 32768"
      using in_later_slot [of pos] by (simp_all add: in_later_def is_slot_def)
    from later_slots_stops [OF 2 a(1) b sl, of h log] show ?thesis
      using i a(4,5) by (simp add: wheel_sel stops_def)
  qed
qed

lemma bumping_none:
  assumes "bumping 0 S s" "tw_nto (tiw s) = 0"
  shows "active s = {}" "S = []"
proof -
  show a: "active s = {}"
    using assms of_nat_0_iff [of "card (active s)"] by (simp add: bumping_def)
  obtain L where "links L S s" using assms(1) by (auto simp: bumping_def)
  then show "S = []" using a links_mem_active [of L S s "hd S"] by (cases S) auto
qed

lemma bumping_move:
  assumes b: "bumping 0 S s" and "tw_pos (tiw s) \<le> tw_pos (tiw s') \<or> tw_nto (tiw s) = 0"
    and "tmr s' = tmr s" "tw_w (tiw s') = tw_w (tiw s)" "sentinel (tiw s') = sentinel (tiw s)"
    "tw_nto (tiw s') = tw_nto (tiw s)"
  shows "bumping 0 S s'"
proof -
  have "links L S s' = links L S s" for L by (rule links_cong) (simp_all add: assms)
  moreover have "active s' = active s" by (rule active_cong) (simp_all add: assms)
  moreover have "timeout_pos (tmr s p) \<le> tw_pos (tiw s')"
    if p: "p \<in> active s" "tslot (tmr s p) = ERTS_TW_SLOT_AT_ONCE" for p
  proof -
    have "tw_pos (tiw s) \<le> tw_pos (tiw s')" using assms(2) bumping_none(1) [OF b] p(1) by blast
    moreover have "timeout_pos (tmr s p) \<le> tw_pos (tiw s)" using b p by (simp add: bumping_def)
    ultimately show ?thesis by simp
  qed
  ultimately show ?thesis using b by (simp add: bumping_def assms(3-))
qed

lemma empty_wheel_ok:
  assumes "bumping 0 [] s" "tw_nto (tiw s) = 0"
  shows "bump_ok (empty_wheel bump_to s)" "yield_slot (tiw (empty_wheel bump_to s)) = ERTS_TW_SLOT_INACTIVE"
    "tw_pos (tiw (empty_wheel bump_to s)) = bump_to"
    "fired_log (empty_wheel bump_to s) = fired_log s"
proof -
  note w = pon_timer_wheel_arm_frame(5) [unfolded same_wheel_def]
  show i: "yield_slot (tiw (empty_wheel bump_to s)) = ERTS_TW_SLOT_INACTIVE"
    and "tw_pos (tiw (empty_wheel bump_to s)) = bump_to"
    by (simp_all add: empty_wheel_def w wheel_sel)
  have "bumping 0 [] (empty_wheel bump_to s)"
    by (rule bumping_move [OF assms(1)]) (simp_all add: assms empty_wheel_def w wheel_sel)
  then show "bump_ok (empty_wheel bump_to s)" using i by (simp add: bump_ok_idle)
  show "fired_log (empty_wheel bump_to s) = fired_log s"
    by (simp add: empty_wheel_def pon_timer_wheel_arm_def pon_timer_wheel_open_def env_defs Let_def split_beta)
qed

lemma bump_prepare_ok:
  assumes "bumping 0 [] s" "tw_pos (tiw s) < bump_to" "bump_prepare bump_to s = (slot, slots, s')"
  shows "bumping 0 [] s'" "tw_pos (tiw s') = bump_to" "yield_slot (tiw s') = yield_slot (tiw s)"
    "fired_log s' = fired_log s" "0 \<le> slot" "slot < 16384"
proof -
  have s': "s' = snd (snd (bump_prepare bump_to s))" "slot = fst (bump_prepare bump_to s)"
    using assms(3) by simp_all
  show p: "tw_pos (tiw s') = bump_to" and "yield_slot (tiw s') = yield_slot (tiw s)"
    and "fired_log s' = fired_log s"
    by (simp_all add: s' bump_prepare_def Let_def wheel_sel)
  show "bumping 0 [] s'"
    by (rule bumping_move [OF assms(1)]) (use assms(2) in \<open>simp_all add: s' bump_prepare_def Let_def wheel_sel\<close>)
  obtain x where "slot = soon_slot x" by (auto simp: s' bump_prepare_def Let_def)
  then show "0 \<le> slot" "slot < 16384" using in_soon_slot(1) [of x] by (simp_all add: in_soon_def)
qed

subsection \<open>The bump\<close>

definition bump_safe :: "(addr \<times> int \<times> int) list \<Rightarrow> int \<Rightarrow> tw_state \<Rightarrow> bool" where
  "bump_safe log h s \<longleftrightarrow> bump_ok s \<and> logged log h s \<and> tw_pos (tiw s) \<le> h"

lemma stops_safe:
  "stops y s s' \<and> logged log h s' \<Longrightarrow> bump_safe log h s \<Longrightarrow>
     bump_safe log h s' \<and> (\<not> y \<longrightarrow> yield_slot (tiw s') = ERTS_TW_SLOT_INACTIVE)"
  by (simp add: stops_def bump_safe_def)

lemma bump_loop_safe:
  assumes "bump_loop cb at bump_to y s = Some r"
    and "cb_ok cb" "bump_safe log h s" "bump_to \<le> h"
    and "yield_slot (tiw s) = ERTS_TW_SLOT_INACTIVE \<or> at = Later \<and> 16384 \<le> yield_slot (tiw s)"
  shows "bump_safe log h (snd (snd r)) \<and>
    (fst r = Break \<longrightarrow> yield_slot (tiw (snd (snd r))) = ERTS_TW_SLOT_INACTIVE)"
  using assms
proof (induction rule: bump_loop.raw_induct [rotated, consumes 1, case_names body])
  case (body loop cb at bump_to y s r)
  note pr = body.prems
  have ok: "bump_ok s" "logged log h s" "tw_pos (tiw s) \<le> h" using pr(2) by (simp_all add: bump_safe_def)
  show ?case
  proof (cases at)
    case Top
    have i: "yield_slot (tiw s) = ERTS_TW_SLOT_INACTIVE" using pr(4) Top by simp
    then have b: "bumping 0 [] s" using ok(1) bump_ok_idle by blast
    show ?thesis
    proof (cases "tw_nto (tiw s) = 0")
      case True
      then have "r = (Return, y, empty_wheel bump_to s)" using body.hyps Top by simp
      then show ?thesis using empty_wheel_ok [OF b True, of bump_to] ok(2) pr(3)
        by (simp add: bump_safe_def logged_def)
    next
      case False
      obtain r1 where r1: "bump_at_once cb y s = Some r1"
        "(if fst r1 then Some (Return, snd r1)
          else loop cb After_at_once bump_to (fst (snd r1)) (snd (snd r1))) = Some r"
        using body.hyps Top False by (auto split: bind_splits if_splits)
      from stops_safe [OF bump_at_once_stops [OF r1(1) pr(1) b i ok(3,2)] pr(2)]
      show ?thesis using r1(2) body.IH [OF _ pr(1) _ pr(3)] by (cases "fst r1") auto
    qed
  next
    case After_at_once
    have i: "yield_slot (tiw s) = ERTS_TW_SLOT_INACTIVE" using pr(4) After_at_once by simp
    then have b: "bumping 0 [] s" using ok(1) bump_ok_idle by blast
    consider "tw_pos (tiw s) \<ge> bump_to" | "tw_pos (tiw s) < bump_to" "tw_nto (tiw s) = 0"
      | "tw_pos (tiw s) < bump_to" "tw_nto (tiw s) \<noteq> 0" by linarith
    then show ?thesis
    proof cases
      case 1
      then have "loop cb Top bump_to y s = Some r \<or> r = (Break, y, s)"
        using body.hyps After_at_once by (auto split: if_splits)
      then show ?thesis using body.IH [OF _ pr(1-3)] pr(2) i by (cases r) auto
    next
      case 2
      then have "r = (Return, y, empty_wheel bump_to s)" using body.hyps After_at_once by simp
      then show ?thesis using empty_wheel_ok [OF b 2(2), of bump_to] ok(2) pr(3)
        by (simp add: bump_safe_def logged_def)
    next
      case 3
      obtain slot slots s1 where p: "bump_prepare bump_to s = (slot, slots, s1)" by (metis prod_cases3)
      obtain r1 where r1: "soon_slots cb bump_to slot slots (scnt_get_ix slot) y s1 = Some r1"
        "(if fst r1 then Some (Return, snd r1)
          else loop cb After_soon bump_to (fst (snd r1)) (snd (snd r1))) = Some r"
        using body.hyps After_at_once 3 p by (auto split: bind_splits if_splits)
      note k = bump_prepare_ok [OF b 3(1) p]
      have s1: "bump_safe log h s1" "logged log h s1"
        using k i ok(2) pr(3) bump_ok_idle [of s1] by (simp_all add: bump_safe_def logged_def)
      have "stops (fst r1) s1 (snd (snd r1)) \<and> logged log h (snd (snd r1))"
        by (rule soon_slots_stops [OF r1(1) pr(1) k(1)]) (use k i s1 pr(3) in simp_all)
      from stops_safe [OF this s1(1)]
      show ?thesis using r1(2) body.IH [OF _ pr(1) _ pr(3)] by (cases "fst r1") auto
    qed
  next
    case After_soon
    then have "loop cb Later bump_to y s = Some r \<or> loop cb Top bump_to y s = Some r"
      using body.hyps by (auto split: if_splits)
    then show ?thesis using body.IH [OF _ pr(1-3)] pr(4) After_soon by (cases r) auto
  next
    case Later
    obtain r1 where r1: "bump_later_wheel cb y s = Some r1"
      "(if fst r1 then Some (Return, snd r1)
        else loop cb Top bump_to (fst (snd r1)) (snd (snd r1))) = Some r"
      using body.hyps Later by (auto split: bind_splits if_splits)
    have "yield_slot (tiw s) = ERTS_TW_SLOT_INACTIVE \<or> 16384 \<le> yield_slot (tiw s)" using pr(4) by blast
    from stops_safe [OF bump_later_wheel_stops [OF r1(1) pr(1) ok(1) this ok(3,2)] pr(2)]
    show ?thesis using r1(2) body.IH [OF _ pr(1) _ pr(3)] by (cases "fst r1") auto
  qed
qed

text \<open>Looking for the next timeout moves the wheel only when it is empty.\<close>

lemma find_next_timeout_frame:
  assumes "find_next_timeout s = Some (t, s')"
  shows "tmr s' = tmr s" "tw_w (tiw s') = tw_w (tiw s)" "sentinel (tiw s') = sentinel (tiw s)"
    "tw_nto (tiw s') = tw_nto (tiw s)" "yield_slot (tiw s') = yield_slot (tiw s)"
    "yield_slots_left (tiw s') = yield_slots_left (tiw s)" "fired_log s' = fired_log s"
    "tw_pos (tiw s) \<le> tw_pos (tiw s') \<or> tw_nto (tiw s) = 0"
proof -
  define keep :: "tw_state \<Rightarrow> bool" where "keep s' \<longleftrightarrow> tmr s' = tmr s \<and> tw_w (tiw s') = tw_w (tiw s) \<and>
    sentinel (tiw s') = sentinel (tiw s) \<and> tw_nto (tiw s') = tw_nto (tiw s) \<and>
    yield_slot (tiw s') = yield_slot (tiw s) \<and> yield_slots_left (tiw s') = yield_slots_left (tiw s) \<and>
    fired_log s' = fired_log s \<and> (tw_pos (tiw s) \<le> tw_pos (tiw s') \<or> tw_nto (tiw s) = 0)" for s'
  have fd: "keep (snd (find_done m b s1)) = keep s1" for m b s1
    by (simp add: find_done_def Let_def wheel_def keep_def split_beta)
  have "keep s'"
  proof (cases "tw_nto (tiw s) = 0")
    case True
    let ?s = "wheel (\<lambda>t. t\<lparr>tw_pos := ERTS_MONOTONIC_TO_CLKTCKS (env_mtime s (calls s)),
      later_pos := (ERTS_MONOTONIC_TO_CLKTCKS (env_mtime s (calls s)) + ERTS_TW_SOON_WHEEL_SIZE)
        AND ERTS_TW_LATER_WHEEL_POS_MASK\<rparr>) (s\<lparr>calls := Suc (calls s)\<rparr>)"
    have "find_done (ERTS_MONOTONIC_TO_CLKTCKS (env_mtime s (calls s)) + ERTS_CLKTCKS_WEEK) False ?s = (t, s')"
      using assms True by (simp add: find_next_timeout_def erts_get_monotonic_time_def Let_def)
    then have "s' = snd (find_done (ERTS_MONOTONIC_TO_CLKTCKS (env_mtime s (calls s)) + ERTS_CLKTCKS_WEEK) False ?s)"
      by simp
    moreover have "keep ?s" using True by (simp add: keep_def wheel_def)
    ultimately show ?thesis by (simp only: fd)
  next
    case False
    obtain m b s1 where s1: "(if soon_nto (tiw s) = 0 then find_later s else find_soon s) = Some (m, b, s1)"
      "s' = snd (find_done m b s1)"
      using assms False by (auto simp: find_next_timeout_def split: bind_splits)
    have "keep s1"
      using s1(1) by (auto simp: find_later_def find_soon_def Let_def keep_def wheel_def
          split: if_splits bind_splits)
    then show ?thesis by (simp only: s1(2) fd)
  qed
  then show "tmr s' = tmr s" "tw_w (tiw s') = tw_w (tiw s)" "sentinel (tiw s') = sentinel (tiw s)"
    "tw_nto (tiw s') = tw_nto (tiw s)" "yield_slot (tiw s') = yield_slot (tiw s)"
    "yield_slots_left (tiw s') = yield_slots_left (tiw s)" "fired_log s' = fired_log s"
    "tw_pos (tiw s) \<le> tw_pos (tiw s') \<or> tw_nto (tiw s) = 0"
    by (simp_all add: keep_def)
qed

lemma bump_ok_move:
  assumes b: "bump_ok s" and "tw_pos (tiw s) \<le> tw_pos (tiw s') \<or> tw_nto (tiw s) = 0"
    and "tmr s' = tmr s" "tw_w (tiw s') = tw_w (tiw s)" "sentinel (tiw s') = sentinel (tiw s)"
    "tw_nto (tiw s') = tw_nto (tiw s)" "yield_slot (tiw s') = yield_slot (tiw s)"
    "yield_slots_left (tiw s') = yield_slots_left (tiw s)"
  shows "bump_ok s'"
  using b bumping_move [OF _ assms(2-6)] unfolding bump_ok_def assms(3,7,8) by blast

lemma arm_frame:
  "yield_slots_left (tiw (pon_timer_wheel_arm s)) = yield_slots_left (tiw s)"
  "fired_log (pon_timer_wheel_arm s) = fired_log s"
  by (simp_all add: pon_timer_wheel_arm_def pon_timer_wheel_open_def env_defs Let_def split_beta)

lemma bump_finish_ok:
  assumes "bump_finish s = Some s'" "bump_ok s"
  shows "bump_ok s'" "fired_log s' = fired_log s"
proof -
  let ?s = "wheel (\<lambda>t. t\<lparr>true_next_timeout_time := False\<rparr>) s"
  obtain t s1 where f: "find_next_timeout ?s = Some (t, s1)" and s': "s' = pon_timer_wheel_arm s1"
    using assms(1) by (auto simp: bump_finish_def split: bind_splits)
  note k = find_next_timeout_frame [OF f, unfolded wheel_sel, simplified]
  note w = pon_timer_wheel_arm_frame(5) [unfolded same_wheel_def]
  show "bump_ok s'"
    by (rule bump_ok_move [OF assms(2)]) (use k in \<open>simp_all add: s' w arm_frame\<close>)
  show "fired_log s' = fired_log s" using k(7) by (simp add: s' arm_frame)
qed

lemma bump_pass_ok:
  assumes r: "bump_pass cb curr_time y s = Some s'" and cb: "cb_ok cb"
    and s: "bump_safe log h s" "yield_slot (tiw s) = ERTS_TW_SLOT_INACTIVE"
    and h: "ERTS_MONOTONIC_TO_CLKTCKS curr_time \<le> h"
  shows "bump_ok s' \<and> logged log h s'"
proof -
  define b where "b = ERTS_MONOTONIC_TO_CLKTCKS curr_time"
  let ?s = "wheel (\<lambda>t. t\<lparr>true_next_timeout_time := True, next_timeout_pos := b,
                          next_timeout_time := ERTS_CLKTCKS_TO_MONOTONIC b\<rparr>) s"
  obtain how y1 s1 where r1: "bump_loop cb Top b y ?s = Some (how, y1, s1)"
    "(case how of Return \<Rightarrow> Some s1 | Break \<Rightarrow> bump_finish s1) = Some s'"
    using r unfolding b_def by (auto simp: bump_pass_def Let_def split: bind_splits)
  have "bump_ok ?s" by (rule bump_ok_move [of s]) (use s in \<open>simp_all add: bump_safe_def wheel_sel\<close>)
  then have "bump_safe log h ?s" using s(1) by (simp add: bump_safe_def wheel_sel)
  from bump_loop_safe [OF r1(1) cb this] h s(2)
  have "bump_safe log h s1" by (simp add: b_def wheel_sel)
  then show ?thesis using r1(2) bump_finish_ok
    by (cases how) (auto simp: bump_safe_def logged_def)
qed

lemma erts_bump_timers_ok:
  assumes r: "erts_bump_timers cb curr_time s = Some s'" and cb: "cb_ok cb" and ok: "bump_ok s"
  shows "bump_ok s' \<and>
    logged (fired_log s) (max (tw_pos (tiw s)) (ERTS_MONOTONIC_TO_CLKTCKS curr_time)) s'"
proof -
  define h where "h = max (tw_pos (tiw s)) (ERTS_MONOTONIC_TO_CLKTCKS curr_time)"
  have h: "tw_pos (tiw s) \<le> h" "ERTS_MONOTONIC_TO_CLKTCKS curr_time \<le> h" by (simp_all add: h_def)
  let ?log = "fired_log s" and ?slot = "yield_slot (tiw s)" and ?pos = "tw_pos (tiw s)"
  have safe: "bump_safe ?log h s" using ok h by (simp add: bump_safe_def logged_def)
  have rest: "bump_ok s' \<and> logged ?log h s'"
    if run: "(if fst a then Some (snd (snd (snd a)))
         else do {
           (how, y, s) \<leftarrow> bump_loop cb (fst (snd (snd a))) ?pos (fst (snd a)) (snd (snd (snd a)));
           (case how of Return \<Rightarrow> Some s | Break \<Rightarrow> bump_pass cb curr_time y s)
         }) = Some s'"
      and start: "bump_safe ?log h (snd (snd (snd a)))"
      "\<not> fst a \<Longrightarrow> yield_slot (tiw (snd (snd (snd a)))) = ERTS_TW_SLOT_INACTIVE \<or>
         fst (snd (snd a)) = Later \<and> 16384 \<le> yield_slot (tiw (snd (snd (snd a))))" for a
  proof (cases "fst a")
    case True
    then show ?thesis using run start(1) by (simp add: bump_safe_def)
  next
    case False
    then obtain how y1 s1 where r1: "bump_loop cb (fst (snd (snd a))) ?pos (fst (snd a)) (snd (snd (snd a))) =
        Some (how, y1, s1)"
      "(case how of Return \<Rightarrow> Some s1 | Break \<Rightarrow> bump_pass cb curr_time y1 s1) = Some s'"
      using run by (auto split: bind_splits)
    from bump_loop_safe [OF r1(1) cb start(1) h(1) start(2) [OF False]] r1(2) bump_pass_ok [OF _ cb _ _ h(2)]
    show ?thesis by (cases how) (auto simp: bump_safe_def)
  qed
  let ?s = "wheel (\<lambda>t. t\<lparr>yield_slot := ERTS_TW_SLOT_INACTIVE\<rparr>) s"
  have l: "logged ?log h ?s" "yield_slot (tiw ?s) = ERTS_TW_SLOT_INACTIVE" "tw_pos (tiw ?s) \<le> h"
    using safe h by (simp_all add: bump_safe_def wheel_sel)
  consider "?slot = ERTS_TW_SLOT_INACTIVE" | "?slot = ERTS_TW_SLOT_AT_ONCE"
    | "0 \<le> ?slot" "?slot < 16384" | "16384 \<le> ?slot"
    using ok by (auto simp: bump_ok_def) linarith
  then have "bump_ok s' \<and> logged ?log h s'"
  proof cases
    case 1
    then show ?thesis using r bump_pass_ok [OF _ cb safe _ h(2)] by (simp add: erts_bump_timers_def Let_def)
  next
    case 2
    then obtain S where S: "bumping 0 S s" "\<forall>q \<in> set S. tslot (tmr s q) = ERTS_TW_SLOT_AT_ONCE"
      using ok by (auto simp: bump_ok_def)
    have S': "bumping 0 S ?s" using S(1) by (subst bumping_cong [of _ s]) (simp_all add: wheel_sel)
    obtain r1 where r1: "at_once_rest cb ERTS_TWHEEL_BUMP_YIELD_LIMIT ?s = Some r1"
      "(if fst r1 then Some (snd (snd r1))
         else do {
           (how, y, s) \<leftarrow> bump_loop cb After_at_once ?pos (fst (snd r1)) (snd (snd r1));
           (case how of Return \<Rightarrow> Some s | Break \<Rightarrow> bump_pass cb curr_time y s)
         }) = Some s'"
      using r 2 by (auto simp: erts_bump_timers_def Let_def split: bind_splits if_splits)
    have st: "stops (fst r1) ?s (snd (snd r1)) \<and> logged ?log h (snd (snd r1))"
      by (rule at_once_rest_stops [OF r1(1) cb S' _ l(2,3,1)]) (use S(2) in \<open>simp add: wheel_sel\<close>)
    show ?thesis
      by (rule rest [of "(fst r1, fst (snd r1), After_at_once, snd (snd r1))", simplified fst_conv snd_conv, OF r1(2)])
        (use st h in \<open>auto simp: stops_def bump_safe_def wheel_sel\<close>)
  next
    case 3
    then obtain S where S: "bumping 0 S s" "0 < yield_slots_left (tiw s)"
      using ok by (auto simp: bump_ok_def)
    have S': "bumping 0 S ?s" using S(1) by (subst bumping_cong [of _ s]) (simp_all add: wheel_sel)
    obtain r1 where r1: "soon_restart cb ?pos ?slot (yield_slots_left (tiw s)) (scnt_get_ix ?slot)
         ERTS_TWHEEL_BUMP_YIELD_LIMIT ?s = Some r1"
      "(if fst r1 then Some (snd (snd r1))
         else do {
           (how, y, s) \<leftarrow> bump_loop cb After_soon ?pos (fst (snd r1)) (snd (snd r1));
           (case how of Return \<Rightarrow> Some s | Break \<Rightarrow> bump_pass cb curr_time y s)
         }) = Some s'"
      using r 3 by (auto simp: erts_bump_timers_def Let_def wheel_sel split: bind_splits if_splits)
    have st: "stops (fst r1) ?s (snd (snd r1)) \<and> logged ?log h (snd (snd r1))"
      by (rule soon_restart_stops [OF r1(1) cb S' 3 S(2) _ l(2,3,1)]) (simp add: wheel_sel)
    show ?thesis
      by (rule rest [of "(fst r1, fst (snd r1), After_soon, snd (snd r1))", simplified fst_conv snd_conv, OF r1(2)])
        (use st h in \<open>auto simp: stops_def bump_safe_def wheel_sel\<close>)
  next
    case 4
    show ?thesis
      by (rule rest [of "(False, ERTS_TWHEEL_BUMP_YIELD_LIMIT, Later, s)"])
        (use r safe 4 in \<open>simp_all add: erts_bump_timers_def Let_def\<close>)
  qed
  then show ?thesis by (simp add: h_def)
qed

subsection \<open>The states of a wheel\<close>

text \<open>
  A wheel is created, and then timers are set and cancelled, the next timeout is asked for and the
  wheel is bumped, in any order; also between a bump that yields and the one that goes on.
\<close>

inductive bump_reach :: "tw_state \<Rightarrow> bool" where
  create: "\<forall>p. p \<noteq> sn \<longrightarrow> tslot (tmr s p) = ERTS_TW_SLOT_INACTIVE \<Longrightarrow>
     bump_reach (erts_create_timer_wheel sn s)"
| set: "\<lbrakk>bump_reach s; p \<noteq> sentinel (tiw s); tslot (tmr s p) = ERTS_TW_SLOT_INACTIVE;
         card (active s) + 1 < 2 ^ 64\<rbrakk> \<Longrightarrow>
     bump_reach (erts_twheel_set_timer p timeout arg tpos s)"
| cancel: "\<lbrakk>bump_reach s; p \<noteq> sentinel (tiw s)\<rbrakk> \<Longrightarrow> bump_reach (erts_twheel_cancel_timer p s)"
| check: "\<lbrakk>bump_reach s; erts_check_next_timeout_time s = Some (t, s')\<rbrakk> \<Longrightarrow> bump_reach s'"
| bump: "\<lbrakk>bump_reach s; cb_ok cb; erts_bump_timers cb curr_time s = Some s'\<rbrakk> \<Longrightarrow> bump_reach s'"

lemma check_next_bump_ok:
  assumes "erts_check_next_timeout_time s = Some (t, s')" "bump_ok s"
  shows "bump_ok s'"
proof -
  let ?k = "pon_timer_wheel_can_skip_scan s"
  consider "s' = s" | "s' = stat timer_scans_avoided_update (snd ?k)"
    | "find_next_timeout (stat timer_wheel_fallback_update (snd ?k)) = Some (t, s')"
    using assms(1) by (auto simp: erts_check_next_timeout_time_def Let_def split_beta split: if_splits)
  then show ?thesis
  proof cases
    case 1
    then show ?thesis using assms(2) by simp
  next
    case 2
    then show ?thesis by (intro bump_ok_move [OF assms(2)]) (simp_all add: can_skip_frame)
  next
    case 3
    note k = find_next_timeout_frame [OF 3, unfolded stat_frame can_skip_frame]
    show ?thesis by (rule bump_ok_move [OF assms(2)]) (use k in simp_all)
  qed
qed

lemma bump_reach_ok: "bump_reach s \<Longrightarrow> bump_ok s"
proof (induction rule: bump_reach.induct)
  case (create sn s)
  let ?s = "erts_create_timer_wheel sn s"
  have i: "tw_inv ?s" "active ?s = {}" using create_timer_wheel_inv [of sn s] create by auto
  then have "bumping 0 [] ?s" by (auto simp: bumping_def tw_inv_def counts_def)
  then show ?case using i(1) by (subst bump_ok_idle) (auto simp: tw_inv_def)
next
  case (set s p timeout arg tpos)
  let ?s = "erts_twheel_set_timer p timeout arg tpos s"
  have p: "p \<notin> active s" using set.hyps(3) by (simp add: active_def)
  have "bumping 0 S ?s" if "bumping 0 S s" for S using bumping_set [OF that set.hyps(2) p] set.hyps(4) by simp
  moreover have "tslot (tmr ?s q) = tslot (tmr s q)" if "bumping 0 S s" "q \<in> set S" for q S
  proof -
    have "q \<in> active s" using that links_mem_active by (auto simp: bumping_def)
    then show ?thesis using p by (auto simp: set_timer_fields [OF set.hyps(2)])
  qed
  ultimately show ?case using set.IH unfolding bump_ok_def set_timer_frame by metis
next
  case (cancel s p)
  let ?s = "erts_twheel_cancel_timer p s"
  have "bumping 0 (remove1 p S) ?s" if "bumping 0 S s" for S by (rule bumping_cancel [OF that cancel.hyps(2)])
  moreover have "tslot (tmr ?s q) = tslot (tmr s q) \<and> q \<in> set S"
    if "bumping 0 S s" "q \<in> set (remove1 p S)" for q S
    using that linksD(4) by (auto simp: bumping_def)
  moreover have "remove1 p [] = []" by simp
  ultimately show ?case using cancel.IH unfolding bump_ok_def cancel_timer_frame by metis
next
  case (check s t s')
  then show ?case using check_next_bump_ok by blast
next
  case (bump s cb curr_time s')
  then show ?case using erts_bump_timers_ok by blast
qed

subsection \<open>Property\<close>

text \<open>
  C40. Whatever happened to the wheel before, and whatever timers the timeout procedures set and cancel
  while they run, \<open>erts_bump_timers\<close> triggers no timer before its tick: each timeout was at most the
  position of the wheel at the call, and that position at most the tick of the time given (or the
  position the wheel had). The timers that are still pending are linked into the slots and the
  sentinel's list without loss or duplication, and \<open>nto\<close> is their number, also when the bump yields.
\<close>

theorem erts_bump_timers_never_early:
  assumes "bump_reach s" "cb_ok cb" "erts_bump_timers cb curr_time s = Some s'"
  shows "(\<exists>new. fired_log s' = new @ fired_log s \<and>
      (\<forall>(p, t, pos) \<in> set new. t \<le> pos \<and> pos \<le> max (tw_pos (tiw s)) (ERTS_MONOTONIC_TO_CLKTCKS curr_time))) \<and>
    (\<exists>L S. links L S s') \<and> tw_nto (tiw s') = of_nat (card (active s'))"
  using erts_bump_timers_ok [OF assms(3,2) bump_reach_ok [OF assms(1)]]
  by (auto simp: logged_def bump_ok_def bumping_def)

text \<open>A timeout procedure that cancels the timer whose address is its argument.\<close>

definition demo_cb :: callback where
  "demo_cb timeout arg s = Some (if arg = sentinel (tiw s) then s else erts_twheel_cancel_timer arg s)"

lemma demo_cb_ok: "cb_ok demo_cb"
  by (auto simp: cb_ok_def demo_cb_def intro: uses.intros)

definition demo_bump :: tw_state where
  "demo_bump = erts_twheel_set_timer 2 7 0 3 (erts_twheel_set_timer 1 7 2 3 (erts_create_timer_wheel 0 demo_tw))"

lemma demo_bump_fires: "map_option fired_log (erts_bump_timers demo_cb 5000000 demo_bump) = Some [(1, 3, 5)]"
  by code_simp

lemma demo_bump_reach: "bump_reach demo_bump"
proof -
  let ?c = "erts_create_timer_wheel 0 demo_tw" and ?s = "\<lambda>s. erts_twheel_set_timer 1 7 2 3 s"
  have c: "bump_reach ?c" by (rule bump_reach.create) (simp add: demo_tw_ok(1) [simplified])
  have a: "active ?c = {}" using create_timer_wheel_inv(2) [of 0 demo_tw] demo_tw_ok(1) by simp
  have f: "sentinel (tiw ?c) = 0" "tslot (tmr ?c 1) = ERTS_TW_SLOT_INACTIVE" "tslot (tmr ?c 2) = ERTS_TW_SLOT_INACTIVE"
    using create_timer_wheel_fields(1,3) [where sn = 0 and s = demo_tw] demo_tw_ok(1) by simp_all
  have "bump_reach (?s ?c)" by (rule bump_reach.set [OF c]) (use a f in simp_all)
  then show ?thesis unfolding demo_bump_def
    by (rule bump_reach.set) (use a f in \<open>simp_all add: set_timer_fields\<close>)
qed

theorem erts_bump_timers_never_early_witness:
  "\<exists>s'. erts_bump_timers demo_cb 5000000 demo_bump = Some s' \<and> fired_log s' = [(1, 3, 5)] \<and>
     (\<exists>L S. links L S s') \<and> tw_nto (tiw s') = of_nat (card (active s'))"
proof -
  obtain s' where s': "erts_bump_timers demo_cb 5000000 demo_bump = Some s'" "fired_log s' = [(1, 3, 5)]"
    using demo_bump_fires by auto
  with erts_bump_timers_never_early [OF demo_bump_reach demo_cb_ok s'(1)] show ?thesis by blast
qed

end
