(* ===== verification/BigDigits.thy ===== *)
theory BigDigits
  imports Prelude
begin

text \<open>
  The digit vectors of bignums (\<^verbatim>\<open>big.c\<close>, \<^verbatim>\<open>big.h\<close>): addition, subtraction, comparison,
  multiplication and division by a digit on vectors of 64-bit digits, least significant digit first,
  in the build with a 128-bit \<open>ErtsDoubleDigit\<close> (64-bit machine, GCC).

  A vector given by a pointer and a length is the list of its digits. A routine that writes to \<open>r\<close>
  and returns a length is a function to the list of that many digits of \<open>r\<close>. The routines read an
  index before they write it and go through the vectors once, so \<open>r\<close> may be \<open>x\<close>. What a routine
  assumes of its arguments and does not check is an \<open>option\<close>: outside it the code reads or writes
  past a vector.
\<close>

type_synonym digit = u64

type_synonym ddigit = "128 word"

subsection \<open>Digit macros\<close>

definition D_EXP :: nat where "D_EXP = 64"

definition D_MASK :: digit where "D_MASK = -1"

definition DLOW :: "ddigit \<Rightarrow> digit" where "DLOW x = ucast x"

definition DHIGH :: "ddigit \<Rightarrow> digit" where "DHIGH x = ucast (drop_bit D_EXP x)"

definition DLOW2HIGH :: "digit \<Rightarrow> ddigit" where "DLOW2HIGH x = push_bit D_EXP (ucast x)"

definition DDIGIT :: "digit \<Rightarrow> digit \<Rightarrow> ddigit" where "DDIGIT a1 a0 = DLOW2HIGH a1 + ucast a0"

text \<open>The macros yield the result and the carry or borrow.\<close>

definition DSUM :: "digit \<Rightarrow> digit \<Rightarrow> digit \<times> digit" where
  "DSUM a b = (let xr = b + a in (xr, of_bool (xr < b)))"

definition DSUBb :: "digit \<Rightarrow> digit \<Rightarrow> digit \<Rightarrow> digit \<times> digit" where
  "DSUBb a b r =
     (let yr = b + r; cr = of_bool (yr < r); yr = a - yr; cr = cr + of_bool (yr > a) in (yr, cr))"

definition DSUB :: "digit \<Rightarrow> digit \<Rightarrow> digit \<times> digit" where
  "DSUB a b = (let yr = a - b in (yr, of_bool (yr > a)))"

definition DMULc :: "digit \<Rightarrow> digit \<Rightarrow> digit \<Rightarrow> digit \<times> digit" where
  "DMULc a b c = (let t = (ucast a :: ddigit) * ucast b + ucast c in (DLOW t, DHIGH t))"

definition DMUL :: "digit \<Rightarrow> digit \<Rightarrow> digit \<times> digit" where
  "DMUL a b = (let t = (ucast a :: ddigit) * ucast b in (DHIGH t, DLOW t))"

definition DDIV :: "digit \<Rightarrow> digit \<Rightarrow> digit \<Rightarrow> digit" where
  "DDIV a1 a0 b = DLOW (DDIGIT a1 a0 div ucast b)"

definition DDIV2 :: "digit \<Rightarrow> digit \<Rightarrow> digit \<Rightarrow> digit \<Rightarrow> digit" where
  "DDIV2 a1 a0 b1 b0 = DLOW (DDIGIT a1 a0 div DDIGIT b1 b0)"

definition DSUMc :: "digit \<Rightarrow> digit \<Rightarrow> digit \<Rightarrow> digit \<times> digit" where
  "DSUMc a b c = (let t = (ucast a :: ddigit) + ucast b + ucast c in (DLOW t, DHIGH t))"

subsection \<open>Comparing\<close>

definition I_is_normalized :: "digit list \<Rightarrow> bool" where
  "I_is_normalized x \<longleftrightarrow> x = [] \<or> last x \<noteq> 0 \<or> (length x = 1 \<and> hd x = 0)"

text \<open>The loop of \<open>I_comp\<close>, on the digits from the most significant one on.\<close>

fun comp_loop :: "digit list \<Rightarrow> digit list \<Rightarrow> int" where
  "comp_loop (x # xs) (y # ys) = (if x = y then comp_loop xs ys else if x < y then -1 else 1)"
| "comp_loop _ _ = 0"

definition I_comp :: "digit list \<Rightarrow> digit list \<Rightarrow> int" where
  "I_comp x y =
     (if length x < length y then -1
      else if length x > length y then 1
      else comp_loop (rev x) (rev y))"

subsection \<open>Adding\<close>

text \<open>The first loop of \<open>I_add\<close>: the digits written, the rest of \<open>x\<close> and the carry.\<close>

fun add_loop :: "digit list \<Rightarrow> digit list \<Rightarrow> digit \<Rightarrow> digit list \<times> digit list \<times> digit" where
  "add_loop (x # xs) (y # ys) c =
     (let (s, c) = DSUMc x y c; (r, xs, c) = add_loop xs ys c in (s # r, xs, c))"
| "add_loop xs _ c = ([], xs, c)"

text \<open>The loop that carries on through \<open>x\<close>, also that of \<open>D_add\<close>.\<close>

fun carry_loop :: "digit list \<Rightarrow> digit \<Rightarrow> digit list \<times> digit" where
  "carry_loop (x # xs) c =
     (let xr = x + c; c = of_bool (xr < c); (r, c) = carry_loop xs c in (xr # r, c))"
| "carry_loop [] c = ([], c)"

definition I_add :: "digit list \<Rightarrow> digit list \<Rightarrow> digit list option" where
  "I_add x y =
     (if y = [] \<or> length x < length y then None
      else
        (let (r, xs, c) = add_loop x y 0; (r', c) = carry_loop xs c
         in Some (if c \<noteq> 0 then r @ r' @ [1] else r @ r')))"

definition D_add :: "digit list \<Rightarrow> digit \<Rightarrow> digit list" where
  "D_add x c = (let (r, c) = carry_loop x c in if c \<noteq> 0 then r @ [1] else r)"

subsection \<open>Subtracting\<close>

fun sub_loop :: "digit list \<Rightarrow> digit list \<Rightarrow> digit \<Rightarrow> digit list \<times> digit list \<times> digit" where
  "sub_loop (x # xs) (y # ys) c =
     (let yr = y + c; c = of_bool (yr < c); yr = x - yr; c = c + of_bool (yr > x);
          (r, xs, c) = sub_loop xs ys c
      in (yr # r, xs, c))"
| "sub_loop xs _ c = ([], xs, c)"

fun borrow_loop :: "digit list \<Rightarrow> digit \<Rightarrow> digit list \<times> digit" where
  "borrow_loop (x # xs) c =
     (let yr = x - c; c = of_bool (yr > x); (r, c) = borrow_loop xs c in (yr # r, c))"
| "borrow_loop [] c = ([], c)"

text \<open>
  \<open>do r--; while (*r == 0 && r != r0)\<close> on the digits from the last one on: leading zeros are left
  out, the first digit is kept.
\<close>

fun strip_loop :: "digit list \<Rightarrow> digit list" where
  "strip_loop (d # e # ds) = (if d = 0 then strip_loop (e # ds) else d # e # ds)"
| "strip_loop ds = ds"

definition trim :: "digit list \<Rightarrow> digit list" where
  "trim r = rev (strip_loop (rev r))"

definition I_sub :: "digit list \<Rightarrow> digit list \<Rightarrow> digit list option" where
  "I_sub x y =
     (if y = [] \<or> length x < length y then None
      else
        (let (r, xs, c) = sub_loop x y 0; (r', c) = borrow_loop xs c in Some (trim (r @ r'))))"

definition D_sub :: "digit list \<Rightarrow> digit \<Rightarrow> digit list option" where
  "D_sub x c = (if x = [] then None else (let (r, c) = borrow_loop x c in Some (trim r)))"

fun zsub_loop :: "digit list \<Rightarrow> digit \<Rightarrow> digit list" where
  "zsub_loop (y # ys) c =
     (let yr = y + c; c = of_bool (yr < c); yr = 0 - yr; c = c + of_bool (yr > 0)
      in yr # zsub_loop ys c)"
| "zsub_loop [] c = []"

definition Z_sub :: "digit list \<Rightarrow> digit list option" where
  "Z_sub y = (if y = [] then None else Some (trim (zsub_loop y 0)))"

subsection \<open>Multiplying\<close>

text \<open>
  The inner loops of \<open>I_mul\<close> for one digit \<open>d\<close> of \<open>x\<close>: \<open>w\<close> holds the digits of \<open>r\<close> the row is added
  to. The result is these digits, \<open>c\<close> and \<open>cp\<close>.
\<close>

fun row_add :: "digit list \<Rightarrow> digit list \<Rightarrow> digit \<Rightarrow> digit list \<times> digit" where
  "row_add (y # ys) (w # ws) c =
     (let (p, c) = DSUMc y w c; (r, c) = row_add ys ws c in (p # r, c))"
| "row_add _ _ c = ([], c)"

fun row_double :: "digit list \<Rightarrow> digit list \<Rightarrow> digit \<Rightarrow> digit \<Rightarrow> digit list \<times> digit \<times> digit" where
  "row_double (y # ys) (w # ws) c cp =
     (let (p, cp) = DSUMc y y cp; (p, c) = DSUMc p w c; (r, c, cp) = row_double ys ws c cp
      in (p # r, c, cp))"
| "row_double _ _ c cp = ([], c, cp)"

fun row_mul ::
    "digit \<Rightarrow> digit list \<Rightarrow> digit list \<Rightarrow> digit \<Rightarrow> digit \<Rightarrow> digit list \<times> digit \<times> digit" where
  "row_mul d (y # ys) (w # ws) c cp =
     (let (p, cp) = DMULc d y cp; (p, c) = DSUMc p w c; (r, c, cp) = row_mul d ys ws c cp
      in (p # r, c, cp))"
| "row_mul d _ _ c cp = ([], c, cp)"

definition mul_row :: "digit \<Rightarrow> digit list \<Rightarrow> digit list \<Rightarrow> digit list \<times> digit \<times> digit" where
  "mul_row d y w =
     (if d = 0 then (w, 0, 0)
      else if d = 1 then (let (r, c) = row_add y w 0 in (r, c, 0))
      else if d = 2 then row_double y w 0 0
      else row_mul d y w 0 0)"

text \<open>
  The outer loop. \<open>w\<close> is the part of \<open>r\<close> from the current digit on that the next row is added to; its
  first digit is final after the row and \<open>*rt = c + cp\<close> comes after its last.
\<close>

fun mul_loop :: "digit list \<Rightarrow> digit list \<Rightarrow> digit list \<Rightarrow> digit list" where
  "mul_loop (d # xs) y w =
     (let (w, c, cp) = mul_row d y w; w = w @ [c + cp]
      in if xs = [] then w else hd w # mul_loop xs y (tl w))"
| "mul_loop [] y w = w"

definition I_mul :: "digit list \<Rightarrow> digit list \<Rightarrow> digit list option" where
  "I_mul x y =
     (if y = [] \<or> length x < length y then None
      else
        (let r = mul_loop x y (replicate (length y) 0)
         in Some (if last r = 0 then butlast r else r)))"

fun double_loop :: "digit list \<Rightarrow> digit \<Rightarrow> digit list \<times> digit" where
  "double_loop (x # xs) c = (let (p, c) = DSUMc x x c; (r, c) = double_loop xs c in (p # r, c))"
| "double_loop [] c = ([], c)"

fun times_loop :: "digit \<Rightarrow> digit list \<Rightarrow> digit \<Rightarrow> digit list \<times> digit" where
  "times_loop d (x # xs) c = (let (p, c) = DMULc d x c; (r, c) = times_loop d xs c in (p # r, c))"
| "times_loop d [] c = ([], c)"

definition D_mul :: "digit list \<Rightarrow> digit \<Rightarrow> digit list" where
  "D_mul x d =
     (if d = 0 then [0]
      else if d = 1 then x
      else
        (let (r, c) = (if d = 2 then double_loop x 0 else times_loop d x 0)
         in if c = 0 then r else r @ [c]))"

subsection \<open>Dividing by a digit\<close>

text \<open>The loop of \<open>D_mulsub\<close>: the digits, the rest of \<open>x\<close>, the carry and the borrow.\<close>

fun mulsub_loop ::
    "digit \<Rightarrow> digit list \<Rightarrow> digit list \<Rightarrow> digit \<Rightarrow> digit \<Rightarrow> digit list \<times> digit list \<times> digit \<times> digit" where
  "mulsub_loop d (x # xs) (y # ys) c b =
     (let (c0, c) = DMULc d y c; (s, b) = DSUBb x c0 b; (r, xs, c, b) = mulsub_loop d xs ys c b
      in (s # r, xs, c, b))"
| "mulsub_loop d xs _ c b = ([], xs, c, b)"

text \<open>
  The digits written to \<open>r\<close> (as many as \<open>x\<close> has) and the size returned, 0 after a borrow. \<open>None\<close>: an
  assumption of the routine is not met.
\<close>

definition D_mulsub :: "digit list \<Rightarrow> digit \<Rightarrow> digit list \<Rightarrow> (digit list \<times> nat) option" where
  "D_mulsub x d y =
     (if y = [] \<or> (length x \<noteq> length y \<and> length x \<noteq> length y + 1) then None
      else
        (let (r, xs, c, b) = mulsub_loop d x y 0 0 in
         case xs of
           [] \<Rightarrow> Some (r, if c \<noteq> 0 \<or> b \<noteq> 0 then 0 else length (trim r))
         | x1 # _ \<Rightarrow>
             (let (s, b) = DSUBb x1 c b; r = r @ [s]
              in Some (r, if b \<noteq> 0 then 0 else length (trim r)))))"

text \<open>
  The loop of \<open>D_div\<close>: \<open>rest\<close> are the digits of \<open>x\<close> still to be read, from the most significant one
  on; the quotient digits come out in that order too. \<open>None\<close> is a division by zero or a read before
  the first digit.
\<close>

partial_function (option) div_loop ::
    "digit \<Rightarrow> digit \<Rightarrow> digit list \<Rightarrow> (digit list \<times> digit) option" where
  "div_loop d a1 rest = do {
     (a1, a0, rest) \<leftarrow> (if d > a1 then (case rest of [] \<Rightarrow> None | a # as \<Rightarrow> Some (a1, a, as))
                        else Some (0, a1, rest));
     if d = 0 then None
     else do {
       q0 \<leftarrow> Some (DDIV a1 a0 d);
       b0 \<leftarrow> Some (snd (DMUL d q0));
       a1 \<leftarrow> Some (fst (DSUB a0 b0));
       if rest = [] then Some ([q0], a1)
       else do {
         (q, r) \<leftarrow> div_loop d a1 rest;
         Some (q0 # q, r)
       }
     }
   }"

declare div_loop.simps [code]

text \<open>Quotient digits and remainder.\<close>

definition D_div :: "digit list \<Rightarrow> digit \<Rightarrow> (digit list \<times> digit) option" where
  "D_div x d =
     (case rev x of
        [] \<Rightarrow> None
      | a1 # rest \<Rightarrow>
          if d > a1 \<and> rest = [] then Some ([0], a1)
          else do {
            (q, r) \<leftarrow> div_loop d a1 rest;
            Some (rev q, r)
          })"

end
