(* ===== verification/BigThms.thy ===== *)
theory BigThms
  imports BigDigits
begin

text \<open>
  The digit vectors as numbers: each routine of \<^verbatim>\<open>big.c\<close> in \<open>BigDigits\<close> computes the sum, difference,
  product, quotient or comparison of the natural numbers its arguments stand for.
\<close>

subsection \<open>The number of a vector\<close>

fun dval :: "digit list \<Rightarrow> nat" where
  "dval [] = 0"
| "dval (d # ds) = unat d + 2 ^ 64 * dval ds"

lemma unat_digit: "unat (d :: digit) < 2 ^ 64"
  using unsigned_less [of d, where ?'a = nat] by simp

lemma dval_append: "dval (xs @ ys) = dval xs + 2 ^ (64 * length xs) * dval ys"
  by (induction xs) (simp_all add: algebra_simps power_add)

lemma dval_bound: "dval ds < 2 ^ (64 * length ds)"
proof (induction ds)
  case (Cons d ds)
  have "unat d < 2 ^ 64" by (rule unat_digit)
  moreover have "dval ds + 1 \<le> 2 ^ (64 * length ds)" using Cons.IH by simp
  then have "2 ^ 64 * dval ds + 2 ^ 64 \<le> 2 ^ 64 * 2 ^ (64 * length ds)"
    by (metis add_mult_distrib2 mult_le_mono2 nat_mult_1_right)
  ultimately show ?case by (simp add: power_add)
qed simp

lemma dval_replicate_0 [simp]: "dval (replicate n 0) = 0"
  by (induction n) simp_all

lemma dval_trailing_0 [simp]: "dval (ds @ [0]) = dval ds"
  by (simp add: dval_append)

lemma dval_butlast: "ds \<noteq> [] \<Longrightarrow> last ds = 0 \<Longrightarrow> dval (butlast ds) = dval ds"
  by (cases ds rule: rev_cases) simp_all

subsection \<open>The digit macros\<close>

lemma low_high: "unat (DLOW t) + 2 ^ 64 * unat (DHIGH t) = unat t"
proof -
  have "unat (DLOW t) = unat t mod 2 ^ 64"
    by (simp add: DLOW_def unsigned_ucast_eq take_bit_eq_mod)
  moreover have "unat (DHIGH t) = unat t div 2 ^ 64"
  proof -
    have "unat t < 2 ^ 128" using unsigned_less [of t, where ?'a = nat] by simp
    then have "unat t div 2 ^ 64 < 2 ^ 64" by (simp add: less_mult_imp_div_less)
    moreover have "unat (drop_bit 64 t) = unat t div 2 ^ 64"
      unfolding drop_bit_eq_div unat_div by simp
    ultimately show ?thesis
      by (simp add: DHIGH_def D_EXP_def unsigned_ucast_eq take_bit_eq_mod)
  qed
  ultimately show ?thesis by (metis add.commute div_mult_mod_eq mult.commute)
qed

lemma unat_up [simp]: "unat (ucast (a :: digit) :: ddigit) = unat a"
  using unat_digit [of a] by (simp add: unsigned_ucast_eq take_bit_nat_eq_self)

lemma of_bool_lt: "unat (of_bool b :: digit) = of_bool b"
  by simp

text \<open>Sums and products of digits fit a double digit.\<close>

lemma DMULc_val:
  assumes "DMULc a b c = (p, c')"
  shows "unat p + 2 ^ 64 * unat c' = unat a * unat b + unat c"
proof -
  define t where "t = (ucast a :: ddigit) * ucast b + ucast c"
  have "unat a * unat b \<le> (2 ^ 64 - 1) * (2 ^ 64 - 1)"
    using unat_digit [of a] unat_digit [of b] by (intro mult_le_mono) auto
  then have b: "unat a * unat b + unat c < 2 ^ 128" using unat_digit [of c] by simp
  have "unat t = unat a * unat b + unat c"
  proof -
    have "unat ((ucast a :: ddigit) * ucast b) = unat a * unat b"
      using b by (subst unat_mult_lem [THEN iffD1]) simp_all
    then show ?thesis using b unfolding t_def by (subst unat_add_lem [THEN iffD1]) simp_all
  qed
  then show ?thesis using assms low_high [of t] by (simp add: DMULc_def t_def [symmetric])
qed

lemma DSUMc_val:
  assumes "DSUMc a b c = (s, c')"
  shows "unat s + 2 ^ 64 * unat c' = unat a + unat b + unat c"
proof -
  define t where "t = (ucast a :: ddigit) + ucast b + ucast c"
  have b: "unat a + unat b + unat c < 2 ^ 128"
    using unat_digit [of a] unat_digit [of b] unat_digit [of c] by simp
  have "unat ((ucast a :: ddigit) + ucast b) = unat a + unat b"
    using b by (subst unat_add_lem [THEN iffD1]) simp_all
  then have "unat t = unat a + unat b + unat c"
    using b unfolding t_def by (subst unat_add_lem [THEN iffD1]) simp_all
  then show ?thesis using assms low_high [of t] by (simp add: DSUMc_def t_def [symmetric])
qed

lemma carry_val:
  fixes x c :: digit
  shows "unat (x + c) + 2 ^ 64 * of_bool (x + c < c) = unat x + unat c"
proof (cases "unat x + unat c < 2 ^ 64")
  case True
  then have "unat (x + c) = unat x + unat c" using unat_add_lem [of x c] by simp
  then show ?thesis by (simp add: word_less_nat_alt)
next
  case False
  have "unat (x + c) = unat x + unat c - 2 ^ 64"
    using False unat_digit [of x] unat_digit [of c]
    by (simp add: unat_plus_if')
  then show ?thesis using False unat_digit [of x] by (simp add: word_less_nat_alt)
qed

lemma borrow_val:
  fixes x y :: digit
  shows "unat (x - y) + unat y = unat x + 2 ^ 64 * of_bool (x - y > x)"
proof (cases "y \<le> x")
  case True
  then have "unat (x - y) = unat x - unat y" by (rule unat_sub)
  then show ?thesis using True by (simp add: word_less_nat_alt word_le_nat_alt)
next
  case False
  then have xy: "unat x < unat y" by (simp add: word_le_nat_alt)
  have "unat (x - y) = unat x + 2 ^ 64 - unat y"
    using xy unat_digit [of y] by (simp add: unat_sub_if')
  then show ?thesis using xy unat_digit [of y] by (simp add: word_less_nat_alt)
qed

lemma DSUBb_val:
  assumes "DSUBb a b r = (d, r')" "unat r \<le> 1"
  shows "unat d + unat b + unat r = unat a + 2 ^ 64 * unat r'" "unat r' \<le> 1"
proof -
  define y where "y = b + r"
  have 1: "unat y + 2 ^ 64 * of_bool (y < r) = unat b + unat r" unfolding y_def by (rule carry_val)
  have 2: "unat (a - y) + unat y = unat a + 2 ^ 64 * of_bool (a - y > a)" by (rule borrow_val)
  have d: "d = a - y" "r' = of_bool (y < r) + of_bool (a - y > a)"
    using assms(1) unfolding DSUBb_def y_def Let_def by blast+
  have no: "\<not> (y < r \<and> a - y > a)"
  proof
    assume c: "y < r \<and> a - y > a"
    then have "unat y = 0" using assms(2) by (auto simp: word_less_nat_alt)
    then show False using c by (simp add: unat_eq_0)
  qed
  then have r': "unat r' = of_bool (y < r) + of_bool (a - y > a)" by (auto simp: d(2))
  show "unat d + unat b + unat r = unat a + 2 ^ 64 * unat r'"
    using 1 2 no by (auto simp: d(1) r')
  show "unat r' \<le> 1" using no by (auto simp: r')
qed

subsection \<open>Comparing\<close>

lemma comp_loop_val:
  "length xs = length ys \<Longrightarrow>
     comp_loop xs ys = (if dval (rev xs) < dval (rev ys) then -1
                        else if dval (rev xs) = dval (rev ys) then 0 else 1)"
proof (induction xs ys rule: comp_loop.induct)
  case (1 x xs y ys)
  let ?n = "64 * length (rev xs)"
  have len: "length (rev xs) = length (rev ys)" using 1(2) by simp
  have v: "dval (rev (x # xs)) = dval (rev xs) + 2 ^ ?n * unat x"
    "dval (rev (y # ys)) = dval (rev ys) + 2 ^ ?n * unat y"
    using len by (simp_all add: dval_append)
  have b: "dval (rev xs) < 2 ^ ?n" "dval (rev ys) < 2 ^ ?n"
    using dval_bound [of "rev xs"] dval_bound [of "rev ys"] len by simp_all
  have mono: "p + 2 ^ ?n * unat a < q + 2 ^ ?n * unat c" if "p < 2 ^ ?n" "a < c" for p q and a c :: digit
  proof -
    have "unat a + 1 \<le> unat c" using that(2) by (simp add: word_less_nat_alt)
    then have "2 ^ ?n * unat a + 2 ^ ?n \<le> 2 ^ ?n * unat c"
      by (metis add_mult_distrib2 mult_le_mono2 nat_mult_1_right)
    then show ?thesis using that(1) by linarith
  qed
  show ?case
  proof (cases "x = y")
    case True
    have "dval (rev (x # xs)) < dval (rev (y # ys)) \<longleftrightarrow> dval (rev xs) < dval (rev ys)"
      "dval (rev (x # xs)) = dval (rev (y # ys)) \<longleftrightarrow> dval (rev xs) = dval (rev ys)"
      unfolding v using True by simp_all
    moreover have "comp_loop (x # xs) (y # ys) = comp_loop xs ys" using True by simp
    ultimately show ?thesis using "1.IH" [OF True] "1.prems" by simp
  next
    case False
    then consider "x < y" | "y < x" by (meson linorder_neq_iff)
    then show ?thesis
    proof cases
      case lt: 1
      then show ?thesis using mono [OF b(1) lt, of "dval (rev ys)"] by (simp add: v False del: rev.simps)
    next
      case gt: 2
      then show ?thesis using mono [OF b(2) gt, of "dval (rev xs)"] by (auto simp add: v False simp del: rev.simps)
    qed
  qed
qed auto

lemma normalized_ge:
  assumes "I_is_normalized x" "1 < length x"
  shows "2 ^ (64 * (length x - 1)) \<le> dval x"
proof -
  obtain xs d where x: "x = xs @ [d]" using assms(2) by (cases x rule: rev_cases) auto
  then have "d \<noteq> 0" using assms by (auto simp: I_is_normalized_def)
  then have "1 \<le> unat d" by (simp add: unat_gt_0 Suc_leI)
  then show ?thesis using x by (simp add: dval_append trans_le_add2)
qed

lemma length_less_dval:
  assumes "I_is_normalized y" "length x < length y" "x \<noteq> []"
  shows "dval x < dval y"
proof -
  have "dval x < 2 ^ (64 * length x)" by (rule dval_bound)
  also have "\<dots> \<le> 2 ^ (64 * (length y - 1))" using assms(2) by simp
  also have "\<dots> \<le> dval y"
  proof (rule normalized_ge [OF assms(1)])
    show "1 < length y" using assms(2,3) by (cases x) auto
  qed
  finally show ?thesis .
qed

lemma I_comp_val:
  assumes "I_is_normalized x" "I_is_normalized y" "x \<noteq> []" "y \<noteq> []"
  shows "I_comp x y = sgn (int (dval x) - int (dval y))"
proof -
  consider "length x < length y" | "length y < length x" | "length x = length y" by linarith
  then show ?thesis
  proof cases
    case 1
    then show ?thesis using length_less_dval [OF assms(2) 1 assms(3)] by (simp add: I_comp_def)
  next
    case 2
    then show ?thesis using length_less_dval [OF assms(1) 2 assms(4)] by (simp add: I_comp_def)
  next
    case 3
    then show ?thesis by (auto simp: I_comp_def comp_loop_val)
  qed
qed

text \<open>The digits of a bignum: not empty and without leading zeros.\<close>

definition normal :: "digit list \<Rightarrow> bool" where
  "normal ds \<longleftrightarrow> ds \<noteq> [] \<and> last ds \<noteq> 0"

lemma normal_iff: "normal ds \<longleftrightarrow> ds \<noteq> [] \<and> 2 ^ (64 * (length ds - 1)) \<le> dval ds"
proof (cases ds rule: rev_cases)
  case (snoc xs d)
  have "2 ^ (64 * length xs) \<le> dval xs + 2 ^ (64 * length xs) * unat d \<longleftrightarrow> d \<noteq> 0"
  proof (cases "d = 0")
    case False
    then have "1 \<le> unat d" by (simp add: unat_gt_0 Suc_leI)
    then show ?thesis using False by (simp add: trans_le_add2)
  qed (use dval_bound [of xs] in simp)
  then show ?thesis using snoc by (simp add: normal_def dval_append)
qed (simp add: normal_def)

lemma normal_pos: "normal ds \<Longrightarrow> 0 < dval ds"
  using less_le_trans [of 0 "2 ^ (64 * (length ds - 1))" "dval ds"] by (simp add: normal_iff)

lemma normal_normalized: "normal ds \<Longrightarrow> I_is_normalized ds"
  by (simp add: normal_def I_is_normalized_def)

lemma normalized_normal: "I_is_normalized ds \<Longrightarrow> ds \<noteq> [] \<Longrightarrow> 0 < dval ds \<Longrightarrow> normal ds"
  by (cases ds rule: rev_cases) (auto simp: I_is_normalized_def normal_def)

text \<open>A number has one vector.\<close>

lemma dval_eq: "length x = length y \<Longrightarrow> dval x = dval y \<Longrightarrow> x = y"
proof (induction x y rule: list_induct2)
  case (Cons a x b y)
  have e: "unat a + 2 ^ 64 * dval x = unat b + 2 ^ 64 * dval y" using Cons.prems by simp
  have "unat a = (unat a + 2 ^ 64 * dval x) mod 2 ^ 64" "dval x = (unat a + 2 ^ 64 * dval x) div 2 ^ 64"
    "unat b = (unat b + 2 ^ 64 * dval y) mod 2 ^ 64" "dval y = (unat b + 2 ^ 64 * dval y) div 2 ^ 64"
    using unat_digit [of a] unat_digit [of b] by simp_all
  then have "unat a = unat b" "dval x = dval y" unfolding e by argo+
  then show ?case using Cons.IH by (simp add: word_unat_eq_iff)
qed simp

lemma normal_unique: "normal x \<Longrightarrow> normal y \<Longrightarrow> dval x = dval y \<Longrightarrow> x = y"
  using length_less_dval [of x y] length_less_dval [of y x] dval_eq [of x y]
  by (cases "length x" "length y" rule: linorder_cases)
    (auto simp: normal_normalized normal_def [THEN iffD1])

subsection \<open>Adding\<close>

lemma add_loop_val:
  "add_loop xs ys c = (r, xs', c') \<Longrightarrow> length ys \<le> length xs \<Longrightarrow>
     dval r + 2 ^ (64 * length ys) * unat c' = dval (take (length ys) xs) + dval ys + unat c
     \<and> length r = length ys \<and> xs' = drop (length ys) xs \<and> (unat c \<le> 1 \<longrightarrow> unat c' \<le> 1)"
proof (induction xs ys c arbitrary: r c' rule: add_loop.induct)
  case (1 x xs y ys c)
  obtain s d where d: "DSUMc x y c = (s, d)" by force
  obtain r1 where r: "add_loop xs ys d = (r1, xs', c')" "r = s # r1"
    using "1.prems"(1) d by (auto split: prod.splits)
  have sum: "unat s + 2 ^ 64 * unat d = unat x + unat y + unat c" by (rule DSUMc_val [OF d])
  have "length ys \<le> length xs" using "1.prems"(2) by simp
  note IH = "1.IH" [OF d [symmetric] refl r(1) this]
  have "unat d \<le> 1" if "unat c \<le> 1" using that sum unat_digit [of x] unat_digit [of y] by simp
  moreover have "dval r + 2 ^ (64 * length (y # ys)) * unat c'
      = unat s + 2 ^ 64 * (dval r1 + 2 ^ (64 * length ys) * unat c')"
    by (simp add: r(2) power_add algebra_simps)
  ultimately show ?case using IH sum by (simp add: r(2))
qed auto

lemma carry_loop_val:
  "carry_loop xs c = (r, c') \<Longrightarrow>
     dval r + 2 ^ (64 * length xs) * unat c' = dval xs + unat c
     \<and> length r = length xs \<and> (xs \<noteq> [] \<or> unat c \<le> 1 \<longrightarrow> unat c' \<le> 1)"
proof (induction xs c arbitrary: r c' rule: carry_loop.induct)
  case (1 x xs c)
  define d :: digit where "d = of_bool (x + c < c)"
  obtain r1 where r: "carry_loop xs d = (r1, c')" "r = (x + c) # r1"
    using "1.prems" by (auto simp: d_def Let_def split: prod.splits)
  have sum: "unat (x + c) + 2 ^ 64 * unat d = unat x + unat c"
    unfolding d_def of_bool_lt by (rule carry_val)
  note IH = "1.IH" [OF refl d_def r(1)]
  have "dval r + 2 ^ (64 * length (x # xs)) * unat c'
      = unat (x + c) + 2 ^ 64 * (dval r1 + 2 ^ (64 * length xs) * unat c')"
    by (simp add: r(2) power_add algebra_simps)
  then show ?case using IH sum by (simp add: r(2) d_def)
qed auto

lemma I_add_val:
  assumes "length y \<le> length x" "y \<noteq> []"
  obtains r where "I_add x y = Some r" "dval r = dval x + dval y" "length x \<le> length r"
proof -
  obtain r1 xs c where 1: "add_loop x y 0 = (r1, xs, c)" by (metis prod_cases3)
  obtain r2 d where 2: "carry_loop xs c = (r2, d)" by force
  note a = add_loop_val [OF 1 assms(1)] and b = carry_loop_val [OF 2]
  have d: "unat d = of_bool (d \<noteq> 0)"
  proof -
    have "unat c \<le> 1" using a by simp
    then have "unat d \<le> 1" using b by simp
    then show ?thesis by (cases "d = 0") (auto simp: le_Suc_eq unat_eq_0)
  qed
  have x: "dval x = dval (take (length y) x) + 2 ^ (64 * length y) * dval xs"
    using dval_append [of "take (length y) x" "drop (length y) x"] a assms(1) by (simp add: min_absorb2)
  let ?r = "if d \<noteq> 0 then r1 @ r2 @ [1] else r1 @ r2"
  have len: "64 * length x = 64 * length y + 64 * length xs" using a assms(1) by simp
  have len12: "length r1 = length y" "length r2 = length xs" using a b by simp_all
  have "dval ?r = dval r1 + 2 ^ (64 * length y) * (dval r2 + 2 ^ (64 * length xs) * unat d)"
    using len12 d by (auto simp: dval_append distrib_left)
  also have "\<dots> = dval r1 + 2 ^ (64 * length y) * unat c + 2 ^ (64 * length y) * dval xs"
    using b by (simp add: distrib_left)
  also have "\<dots> = dval x + dval y" using a x by simp
  finally have "dval ?r = dval x + dval y" .
  moreover have "I_add x y = Some ?r" using assms 1 2 by (auto simp: I_add_def)
  moreover have "length x \<le> length ?r" using a b len by auto
  ultimately show ?thesis using that by blast
qed

lemma I_add_shape:
  assumes "y \<noteq> []" "I_add x y = Some r"
  shows "length r = length x \<or> r \<noteq> [] \<and> last r \<noteq> 0"
proof -
  have le: "length y \<le> length x" using assms(2) by (simp add: I_add_def split: if_splits)
  obtain r1 xs c where 1: "add_loop x y 0 = (r1, xs, c)" by (metis prod_cases3)
  obtain r2 d where 2: "carry_loop xs c = (r2, d)" by force
  have "length (r1 @ r2) = length x" using add_loop_val [OF 1 le] carry_loop_val [OF 2] le by simp
  moreover have "r = (if d \<noteq> 0 then r1 @ r2 @ [1] else r1 @ r2)"
    using assms le 1 2 by (auto simp: I_add_def)
  ultimately show ?thesis by (cases "d = 0") simp_all
qed

lemma I_add_normal:
  assumes "normal x" "y \<noteq> []" "I_add x y = Some r"
  shows "normal r"
proof -
  have le: "length y \<le> length x" using assms(3) by (simp add: I_add_def split: if_splits)
  obtain r' where r': "I_add x y = Some r'" "dval r' = dval x + dval y" "length x \<le> length r'"
    by (rule I_add_val [OF le assms(2)])
  then have "2 ^ (64 * (length x - 1)) \<le> dval r" using assms(1,3) by (auto simp: normal_iff intro: le_trans)
  moreover have "x \<noteq> []" using assms(1) by (simp add: normal_def)
  ultimately have "normal r" if "length r = length x" using that by (auto simp: normal_iff)
  then show ?thesis using I_add_shape [OF assms(2,3)] by (auto simp: normal_def)
qed

lemma D_add_val:
  assumes "unat c \<le> 1 \<or> x \<noteq> []"
  shows "dval (D_add x c) = dval x + unat c" "length x \<le> length (D_add x c)"
proof -
  obtain r d where r: "carry_loop x c = (r, d)" by force
  note a = carry_loop_val [OF r]
  have "unat d \<le> 1" using a assms by auto
  then have d: "unat d = of_bool (d \<noteq> 0)" by (cases "d = 0") (auto simp: le_Suc_eq unat_eq_0)
  show "dval (D_add x c) = dval x + unat c" "length x \<le> length (D_add x c)"
    using a r d by (auto simp: D_add_def dval_append)
qed

subsection \<open>Subtracting\<close>

lemma dval_strip_loop: "dval (rev (strip_loop ds)) = dval (rev ds)"
  by (induction ds rule: strip_loop.induct) (simp_all add: dval_append)

lemma strip_loop_Nil [simp]: "strip_loop ds = [] \<longleftrightarrow> ds = []"
  by (induction ds rule: strip_loop.induct) simp_all

lemma strip_loop_norm: "I_is_normalized (rev (strip_loop ds))"
  by (induction ds rule: strip_loop.induct) (auto simp: I_is_normalized_def)

lemma strip_loop_length: "length (strip_loop ds) \<le> length ds"
  by (induction ds rule: strip_loop.induct) auto

lemma dval_trim [simp]: "dval (trim ds) = dval ds"
  by (simp add: trim_def dval_strip_loop)

lemma trim_norm: "I_is_normalized (trim ds)"
  unfolding trim_def by (rule strip_loop_norm)

lemma trim_Nil [simp]: "trim ds = [] \<longleftrightarrow> ds = []"
  by (simp add: trim_def)

lemma length_trim: "length (trim ds) \<le> length ds"
  using strip_loop_length [of "rev ds"] by (simp add: trim_def)

text \<open>A step of the loops with a borrow, as the source writes it, is \<open>DSUBb\<close>.\<close>

lemma sub_step:
  fixes x y c :: digit
  assumes "unat c \<le> 1"
  defines "b \<equiv> (of_bool (y + c < c) + of_bool (x - (y + c) > x) :: digit)"
  shows "unat (x - (y + c)) + unat y + unat c = unat x + 2 ^ 64 * unat b" "unat b \<le> 1"
proof -
  have "DSUBb x y c = (x - (y + c), b)" by (simp add: DSUBb_def b_def Let_def)
  then show "unat (x - (y + c)) + unat y + unat c = unat x + 2 ^ 64 * unat b" "unat b \<le> 1"
    using DSUBb_val assms(1) by blast+
qed

lemma sub_loop_val:
  "sub_loop xs ys c = (r, xs', c') \<Longrightarrow> length ys \<le> length xs \<Longrightarrow> unat c \<le> 1 \<Longrightarrow>
     dval r + dval ys + unat c = dval (take (length ys) xs) + 2 ^ (64 * length ys) * unat c'
     \<and> length r = length ys \<and> xs' = drop (length ys) xs \<and> unat c' \<le> 1"
proof (induction xs ys c arbitrary: r c' rule: sub_loop.induct)
  case (1 x xs y ys c)
  define b :: digit where "b = of_bool (y + c < c) + of_bool (x - (y + c) > x)"
  obtain r1 where r: "sub_loop xs ys b = (r1, xs', c')" "r = (x - (y + c)) # r1"
    using "1.prems"(1) by (auto simp: b_def Let_def split: prod.splits)
  note st = sub_step [OF "1.prems"(3), where x = x and y = y, folded b_def]
  have "length ys \<le> length xs" using "1.prems"(2) by simp
  note IH = "1.IH" [OF refl refl refl b_def r(1) this st(2)]
  have "2 ^ 64 * (dval r1 + dval ys + unat b)
      = 2 ^ 64 * (dval (take (length ys) xs) + 2 ^ (64 * length ys) * unat c')" using IH by simp
  then show ?case using IH st(1) by (simp add: r(2) power_add distrib_left)
qed auto

lemma borrow_loop_val:
  "borrow_loop xs c = (r, c') \<Longrightarrow>
     dval r + unat c = dval xs + 2 ^ (64 * length xs) * unat c' \<and> length r = length xs"
proof (induction xs c arbitrary: r c' rule: borrow_loop.induct)
  case (1 x xs c)
  define b :: digit where "b = of_bool (x - c > x)"
  obtain r1 where r: "borrow_loop xs b = (r1, c')" "r = (x - c) # r1"
    using "1.prems" by (auto simp: b_def Let_def split: prod.splits)
  have st: "unat (x - c) + unat c = unat x + 2 ^ 64 * unat b"
    unfolding b_def of_bool_lt by (rule borrow_val)
  note IH = "1.IH" [OF refl b_def r(1)]
  have "2 ^ 64 * (dval r1 + unat b) = 2 ^ 64 * (dval xs + 2 ^ (64 * length xs) * unat c')"
    using IH by simp
  then show ?case using IH st by (simp add: r(2) power_add distrib_left)
qed auto

text \<open>No borrow is left when the difference is not negative.\<close>

lemma no_borrow:
  assumes "p + q = m + 2 ^ n * b" "p < 2 ^ n" "q \<le> m"
  shows "b = (0 :: nat)" "p = m - q"
proof -
  show "b = 0"
  proof (rule ccontr)
    assume "b \<noteq> 0"
    then have "2 ^ n \<le> 2 ^ n * b" by simp
    then show False using assms by linarith
  qed
  then show "p = m - q" using assms by simp
qed

lemma I_sub_val:
  assumes "length y \<le> length x" "y \<noteq> []" "dval y \<le> dval x"
  obtains r where "I_sub x y = Some r" "dval r = dval x - dval y" "I_is_normalized r" "r \<noteq> []"
    "length r \<le> length x"
proof -
  obtain r1 xs c where 1: "sub_loop x y 0 = (r1, xs, c)" by (metis prod_cases3)
  obtain r2 d where 2: "borrow_loop xs c = (r2, d)" by force
  have a: "dval r1 + dval y = dval (take (length y) x) + 2 ^ (64 * length y) * unat c"
    "length r1 = length y" "xs = drop (length y) x"
    using sub_loop_val [OF 1 assms(1)] by simp_all
  have b: "dval r2 + unat c = dval xs + 2 ^ (64 * length xs) * unat d" "length r2 = length xs"
    using borrow_loop_val [OF 2] by simp_all
  have x: "dval x = dval (take (length y) x) + 2 ^ (64 * length y) * dval xs"
    using dval_append [of "take (length y) x" "drop (length y) x"] a(3) assms(1) by (simp add: min_absorb2)
  have len: "length (r1 @ r2) = length x" using a(2,3) b(2) assms(1) by simp
  then have p: "(2::nat) ^ (64 * length x) = 2 ^ (64 * length y) * 2 ^ (64 * length xs)"
    using a(2) b(2) by (simp add: distrib_left flip: power_add)
  have "2 ^ (64 * length y) * (dval r2 + unat c)
      = 2 ^ (64 * length y) * (dval xs + 2 ^ (64 * length xs) * unat d)" using b by simp
  then have "dval (r1 @ r2) + dval y = dval x + 2 ^ (64 * length x) * unat d"
    using a x unfolding p by (simp add: dval_append distrib_left)
  moreover have "dval (r1 @ r2) < 2 ^ (64 * length x)" using dval_bound [of "r1 @ r2"] unfolding len .
  ultimately have "dval (r1 @ r2) = dval x - dval y" using no_borrow assms(3) by blast
  moreover have "I_sub x y = Some (trim (r1 @ r2))" using assms 1 2 by (auto simp: I_sub_def)
  moreover have "r1 @ r2 \<noteq> []" using len assms by (metis le_zero_eq length_0_conv)
  ultimately show ?thesis
    using that [of "trim (r1 @ r2)"] trim_norm length_trim [of "r1 @ r2"] len by simp
qed

lemma D_sub_val:
  assumes "x \<noteq> []" "unat c \<le> dval x"
  obtains r where "D_sub x c = Some r" "dval r = dval x - unat c" "I_is_normalized r" "r \<noteq> []"
    "length r \<le> length x"
proof -
  obtain r d where r: "borrow_loop x c = (r, d)" by force
  have b: "dval r + unat c = dval x + 2 ^ (64 * length x) * unat d" "length r = length x"
    using borrow_loop_val [OF r] by simp_all
  moreover have "dval r < 2 ^ (64 * length x)" using dval_bound [of r] b(2) by simp
  ultimately have "dval r = dval x - unat c" using no_borrow assms(2) by blast
  moreover have "r \<noteq> []" using b(2) assms(1) by auto
  ultimately show ?thesis
    using that [of "trim r"] r assms(1) trim_norm length_trim [of r] b(2) by (simp add: D_sub_def)
qed

lemma zsub_loop_val:
  "unat c \<le> 1 \<Longrightarrow> \<exists>b. dval (zsub_loop ys c) + dval ys + unat c = 2 ^ (64 * length ys) * b \<and> b \<le> 1
     \<and> length (zsub_loop ys c) = length ys"
proof (induction ys c rule: zsub_loop.induct)
  case (1 y ys c)
  define d :: digit where "d = of_bool (y + c < c) + of_bool (0 - (y + c) > 0)"
  have st: "unat (0 - (y + c)) + unat y + unat c = 2 ^ 64 * unat d" "unat d \<le> 1"
    using sub_step [OF "1.prems", where x = 0 and y = y, folded d_def] by simp_all
  obtain b where b: "dval (zsub_loop ys d) + dval ys + unat d = 2 ^ (64 * length ys) * b" "b \<le> 1"
    "length (zsub_loop ys d) = length ys"
    using "1.IH" [OF refl refl refl d_def st(2)] by blast
  have "2 ^ 64 * (dval (zsub_loop ys d) + dval ys + unat d) = 2 ^ 64 * (2 ^ (64 * length ys) * b)"
    using b(1) by simp
  moreover have "zsub_loop (y # ys) c = (0 - (y + c)) # zsub_loop ys d" by (simp add: d_def Let_def)
  ultimately have "dval (zsub_loop (y # ys) c) + dval (y # ys) + unat c = 2 ^ (64 * length (y # ys)) * b"
    using st(1) by (simp add: power_add distrib_left)
  then show ?case using b \<open>zsub_loop (y # ys) c = _\<close> by auto
qed (auto intro!: exI [of _ "unat _"])

lemma Z_sub_val:
  assumes "y \<noteq> []" "0 < dval y"
  obtains r where "Z_sub y = Some r" "dval r = 2 ^ (64 * length y) - dval y" "I_is_normalized r"
proof -
  obtain b where b: "dval (zsub_loop y 0) + dval y = 2 ^ (64 * length y) * b" "b \<le> 1"
    using zsub_loop_val [of 0 y] by auto
  then have "b = 1" using assms(2) by (cases b) auto
  then have "dval (zsub_loop y 0) = 2 ^ (64 * length y) - dval y" using b(1) by simp
  then show ?thesis using that [of "trim (zsub_loop y 0)"] assms(1) trim_norm by (simp add: Z_sub_def)
qed

subsection \<open>Multiplying\<close>

lemma row_add_val:
  "row_add ys ws c = (r, c') \<Longrightarrow> length ws = length ys \<Longrightarrow> unat c \<le> 1 \<Longrightarrow>
     dval r + 2 ^ (64 * length ys) * unat c' = dval ys + dval ws + unat c \<and> length r = length ys
     \<and> unat c' \<le> 1"
proof (induction ys ws c arbitrary: r c' rule: row_add.induct)
  case (1 y ys w ws c)
  obtain p d where d: "DSUMc y w c = (p, d)" by force
  obtain r1 where r: "row_add ys ws d = (r1, c')" "r = p # r1"
    using "1.prems"(1) d by (auto split: prod.splits)
  have s: "unat p + 2 ^ 64 * unat d = unat y + unat w + unat c" by (rule DSUMc_val [OF d])
  have "unat d \<le> 1" using s "1.prems"(3) unat_digit [of y] unat_digit [of w] by simp
  moreover have "length ws = length ys" using "1.prems"(2) by simp
  ultimately have IH: "dval r1 + 2 ^ (64 * length ys) * unat c' = dval ys + dval ws + unat d"
    "length r1 = length ys" "unat c' \<le> 1"
    using "1.IH" [OF d [symmetric] refl r(1)] by simp_all
  have "2 ^ 64 * (dval r1 + 2 ^ (64 * length ys) * unat c') = 2 ^ 64 * (dval ys + dval ws + unat d)"
    using IH(1) by simp
  then show ?case using IH s by (simp add: r(2) power_add distrib_left)
qed auto

lemma row_mul_val:
  "row_mul d ys ws c cp = (r, c', cp') \<Longrightarrow> length ws = length ys \<Longrightarrow> unat c \<le> 1 \<Longrightarrow>
     dval r + 2 ^ (64 * length ys) * (unat c' + unat cp') = unat d * dval ys + dval ws + unat c + unat cp
     \<and> length r = length ys"
proof (induction d ys ws c cp arbitrary: r c' cp' rule: row_mul.induct)
  case (1 d y ys w ws c cp)
  obtain p0 cp1 where m: "DMULc d y cp = (p0, cp1)" by force
  obtain p c1 where a: "DSUMc p0 w c = (p, c1)" by force
  obtain r1 where r: "row_mul d ys ws c1 cp1 = (r1, c', cp')" "r = p # r1"
    using "1.prems"(1) m a by (auto split: prod.splits)
  have s: "unat p0 + 2 ^ 64 * unat cp1 = unat d * unat y + unat cp"
    "unat p + 2 ^ 64 * unat c1 = unat p0 + unat w + unat c"
    by (rule DMULc_val [OF m], rule DSUMc_val [OF a])
  have "unat c1 \<le> 1" using s(2) "1.prems"(3) unat_digit [of p0] unat_digit [of w] by simp
  moreover have "length ws = length ys" using "1.prems"(2) by simp
  ultimately have IH: "dval r1 + 2 ^ (64 * length ys) * (unat c' + unat cp')
      = unat d * dval ys + dval ws + unat c1 + unat cp1" "length r1 = length ys"
    using "1.IH" [OF m [symmetric] refl a [symmetric] refl r(1)] by simp_all
  have "2 ^ 64 * (dval r1 + 2 ^ (64 * length ys) * (unat c' + unat cp'))
      = 2 ^ 64 * (unat d * dval ys + dval ws + unat c1 + unat cp1)" using IH(1) by simp
  then show ?case using IH(2) s by (simp add: r(2) power_add distrib_left mult.left_commute)
qed auto

lemma row_double_mul:
  "length ws = length ys \<Longrightarrow>
     row_double ys ws c cp = row_mul 2 ys ws c cp"
proof (induction ys ws c cp rule: row_double.induct)
  case (1 y ys w ws c cp)
  have "DSUMc y y cp = DMULc 2 y cp" by (simp add: DSUMc_def DMULc_def)
  then show ?case using 1 by (simp split: prod.splits)
qed auto

lemma mul_row_val:
  assumes "mul_row d y w = (r, c, cp)" "length w = length y"
  shows "dval (r @ [c + cp]) = unat d * dval y + dval w" "length r = length y"
proof -
  have key: "dval r + 2 ^ (64 * length y) * (unat c + unat cp) = unat d * dval y + dval w
      \<and> length r = length y"
  proof -
    consider "d = 0" | "d = 1" | "d = 2" | "d \<noteq> 0" "d \<noteq> 1" "d \<noteq> 2" by blast
    then show ?thesis
    proof cases
      case 2
      then obtain c' where "row_add y w 0 = (r, c')" "c = c'" "cp = 0"
        using assms(1) by (auto simp: mul_row_def split: prod.splits)
      then show ?thesis using row_add_val [of y w 0 r c] assms(2) 2 by simp
    next
      case 3
      then have "row_mul 2 y w 0 0 = (r, c, cp)"
        using assms by (simp add: mul_row_def row_double_mul)
      then show ?thesis using row_mul_val [of 2 y w 0 0 r c cp] assms(2) 3 by simp
    next
      case 4
      then have "row_mul d y w 0 0 = (r, c, cp)" using assms by (simp add: mul_row_def)
      then show ?thesis using row_mul_val [of d y w 0 0 r c cp] assms(2) by simp
    qed (use assms in \<open>simp add: mul_row_def\<close>)
  qed
  then show len: "length r = length y" ..
  let ?n = "2 ^ (64 * length y) :: nat"
  have "?n * (unat c + unat cp) \<le> unat d * dval y + dval w" using key by linarith
  also have "\<dots> < ?n * 2 ^ 64"
  proof -
    have "unat d * dval y + dval w < unat d * ?n + ?n"
      using dval_bound [of w] dval_bound [of y] assms(2)
      by (intro add_le_less_mono mult_le_mono2) simp_all
    also have "\<dots> = (unat d + 1) * ?n" by simp
    also have "\<dots> \<le> 2 ^ 64 * ?n" using unat_digit [of d] by (intro mult_le_mono1) simp
    finally show ?thesis by (simp only: mult.commute)
  qed
  finally have "unat c + unat cp < 2 ^ 64" by simp
  then have "unat (c + cp) = unat c + unat cp" using unat_add_lem [of c cp] by simp
  then show "dval (r @ [c + cp]) = unat d * dval y + dval w"
    using key len by (simp add: dval_append)
qed

lemma mul_loop_val:
  "xs \<noteq> [] \<Longrightarrow> length w = length y \<Longrightarrow>
     dval (mul_loop xs y w) = dval xs * dval y + dval w
     \<and> length (mul_loop xs y w) = length xs + length y"
proof (induction xs y w rule: mul_loop.induct)
  case (1 d xs y w)
  obtain r c cp where m: "mul_row d y w = (r, c, cp)" by (metis prod_cases3)
  let ?w = "r @ [c + cp]"
  note v = mul_row_val [OF m "1.prems"(2)]
  show ?case
  proof (cases "xs = []")
    case True
    then show ?thesis using m v by simp
  next
    case False
    have w: "dval ?w = unat (hd ?w) + 2 ^ 64 * dval (tl ?w)" by (cases ?w) simp_all
    have "length (tl ?w) = length y" using v(2) by simp
    then have IH: "dval (mul_loop xs y (tl ?w)) = dval xs * dval y + dval (tl ?w)"
      "length (mul_loop xs y (tl ?w)) = length xs + length y"
      using "1.IH" [OF m [symmetric] refl refl refl False False] by blast+
    have "mul_loop (d # xs) y w = hd ?w # mul_loop xs y (tl ?w)" using m False by (simp add: Let_def)
    then show ?thesis using IH w v(1) by (simp add: algebra_simps)
  qed
qed simp

lemma I_mul_val:
  assumes "length y \<le> length x" "y \<noteq> []"
  obtains r where "I_mul x y = Some r" "dval r = dval x * dval y"
    "length r \<in> {length x + length y - 1, length x + length y}"
proof -
  let ?r = "mul_loop x y (replicate (length y) 0)"
  have "x \<noteq> []" using assms by auto
  then have v: "dval ?r = dval x * dval y" "length ?r = length x + length y"
    using mul_loop_val [of x "replicate (length y) 0" y] by simp_all
  then have "?r \<noteq> []" using assms by auto
  then have "dval (if last ?r = 0 then butlast ?r else ?r) = dval ?r" by (simp add: dval_butlast)
  then show ?thesis
    using that [of "if last ?r = 0 then butlast ?r else ?r"] v assms by (auto simp: I_mul_def Let_def)
qed

lemma I_mul_normal:
  assumes "normal x" "normal y" "I_mul x y = Some r"
  shows "normal r"
proof -
  have ne: "x \<noteq> []" "y \<noteq> []" using assms by (simp_all add: normal_def)
  have le: "length y \<le> length x" using assms(3) by (simp add: I_mul_def split: if_splits)
  obtain r' where r': "I_mul x y = Some r'" "dval r' = dval x * dval y"
    "length r' \<in> {length x + length y - 1, length x + length y}" by (rule I_mul_val [OF le ne(2)])
  let ?r = "mul_loop x y (replicate (length y) 0)"
  have v: "dval ?r = dval x * dval y" "length ?r = length x + length y"
    using mul_loop_val [OF ne(1), of "replicate (length y) 0" y] by simp_all
  have r: "r = (if last ?r = 0 then butlast ?r else ?r)"
    using assms(3) by (simp add: I_mul_def Let_def split: if_splits)
  have nn: "?r \<noteq> []" using v(2) ne by auto
  have big: "2 ^ (64 * (length x + length y - 2)) \<le> dval r"
  proof -
    have "2 ^ (64 * (length x - 1)) * 2 ^ (64 * (length y - 1)) \<le> dval x * dval y"
      using assms by (intro mult_le_mono) (simp_all add: normal_iff)
    moreover have "64 * (length x - 1) + 64 * (length y - 1) = 64 * (length x + length y - 2)"
      using ne by (cases x; cases y) auto
    ultimately show ?thesis using r'(1,2) assms(3) by (simp flip: power_add)
  qed
  show ?thesis
  proof (cases "last ?r = 0")
    case True
    then have len: "length r = length x + length y - 1" using r v(2) by simp
    moreover have "0 < length x" "0 < length y" using ne by simp_all
    ultimately have "0 < length r" by linarith
    then have "r \<noteq> []" by simp
    then show ?thesis using big len by (simp add: normal_iff numeral_2_eq_2)
  qed (use r nn in \<open>simp add: normal_def\<close>)
qed

lemma double_loop_times: "double_loop x c = times_loop 2 x c"
proof (induction x c rule: double_loop.induct)
  case (1 x xs c)
  have "DSUMc x x c = DMULc 2 x c" by (simp add: DSUMc_def DMULc_def)
  then show ?case using 1 by (simp split: prod.splits)
qed simp

lemma times_loop_val:
  "times_loop d x c = (r, c') \<Longrightarrow>
     dval r + 2 ^ (64 * length x) * unat c' = unat d * dval x + unat c \<and> length r = length x"
proof (induction d x c arbitrary: r rule: times_loop.induct)
  case (1 d x xs c)
  obtain p e where m: "DMULc d x c = (p, e)" by force
  obtain r1 where r: "times_loop d xs e = (r1, c')" "r = p # r1"
    using "1.prems" m by (auto split: prod.splits)
  have s: "unat p + 2 ^ 64 * unat e = unat d * unat x + unat c" by (rule DMULc_val [OF m])
  have IH: "dval r1 + 2 ^ (64 * length xs) * unat c' = unat d * dval xs + unat e" "length r1 = length xs"
    using "1.IH" [OF m [symmetric] refl r(1)] by simp_all
  have "2 ^ 64 * (dval r1 + 2 ^ (64 * length xs) * unat c') = 2 ^ 64 * (unat d * dval xs + unat e)"
    using IH(1) by simp
  then show ?case using IH(2) s by (simp add: r(2) power_add distrib_left mult.left_commute)
qed auto

lemma D_mul_val:
  "dval (D_mul x d) = dval x * unat d" "x \<noteq> [] \<Longrightarrow> D_mul x d \<noteq> []"
  "length (D_mul x d) \<in> {1, length x, length x + 1}"
proof -
  obtain r c where r: "times_loop d x 0 = (r, c)" by force
  have v: "dval r + 2 ^ (64 * length x) * unat c = unat d * dval x" "length r = length x"
    using times_loop_val [OF r] by simp_all
  have "D_mul x d = (if d = 0 then [0] else if d = 1 then x else if c = 0 then r else r @ [c])"
    using r by (auto simp: D_mul_def double_loop_times)
  then show "dval (D_mul x d) = dval x * unat d" "x \<noteq> [] \<Longrightarrow> D_mul x d \<noteq> []"
    "length (D_mul x d) \<in> {1, length x, length x + 1}"
    using v by (auto simp: dval_append mult.commute)
qed

lemma D_mul_normal:
  assumes "normal x" "d \<noteq> 0"
  shows "normal (D_mul x d)"
proof -
  obtain r c where r: "times_loop d x 0 = (r, c)" by force
  have v: "dval r + 2 ^ (64 * length x) * unat c = unat d * dval x" "length r = length x"
    using times_loop_val [OF r] by simp_all
  have D: "D_mul x d = (if d = 1 then x else if c = 0 then r else r @ [c])"
    using r assms(2) by (auto simp: D_mul_def double_loop_times)
  have "1 \<le> unat d" using assms(2) by (simp add: unat_gt_0 Suc_leI)
  then have "dval x \<le> unat d * dval x" by simp
  then have "normal r" if "c = 0" using that v assms(1) le_trans [of _ "dval x" "unat d * dval x"] by (auto simp: normal_iff)
  then show ?thesis using assms(1) unfolding D by (simp add: normal_def)
qed

subsection \<open>Dividing by a digit\<close>

lemma DDIGIT_val: "unat (DDIGIT a1 a0) = unat a1 * 2 ^ 64 + unat a0"
proof -
  have b: "unat a1 * 2 ^ 64 + unat a0 < 2 ^ 128" using unat_digit [of a1] unat_digit [of a0] by simp
  have hi: "DLOW2HIGH a1 = ucast a1 * 2 ^ 64" by (simp add: DLOW2HIGH_def D_EXP_def push_bit_eq_mult)
  have "unat (DLOW2HIGH a1) = unat a1 * 2 ^ 64"
    using b unat_mult_lem [of "ucast a1 :: ddigit" "2 ^ 64"] unfolding hi by simp
  then show ?thesis using b unat_add_lem [of "DLOW2HIGH a1" "ucast a0"] by (simp add: DDIGIT_def)
qed

lemma DMUL_val: "DMUL a b = (h, l) \<Longrightarrow> unat l + 2 ^ 64 * unat h = unat a * unat b"
  using DMULc_val [of a b 0 l h] by (simp add: DMUL_def DMULc_def Let_def)

lemma digit_base: "(18446744073709551616 :: digit) = 0"
  using word_exp_length_eq_0 [where ?'a = 64] by simp

text \<open>One step of the division: quotient digit and remainder.\<close>

lemma div_step:
  fixes a0 a1 d :: digit
  assumes "a1 < d"
  defines "q \<equiv> DDIV a1 a0 d"
  defines "r \<equiv> fst (DSUB a0 (snd (DMUL d q)))"
  shows "unat q * unat d + unat r = unat a1 * 2 ^ 64 + unat a0" "unat r < unat d"
proof -
  define N where "N = unat a1 * 2 ^ 64 + unat a0"
  have dpos: "0 < unat d" and lt: "unat a1 + 1 \<le> unat d" using assms(1) by (simp_all add: word_less_nat_alt)
  have "N < (unat a1 + 1) * 2 ^ 64" using unat_digit [of a0] by (simp add: N_def)
  also have "\<dots> \<le> unat d * 2 ^ 64" using lt by (rule mult_le_mono1)
  finally have Nq: "N div unat d < 2 ^ 64" by (simp add: less_mult_imp_div_less mult.commute)
  have "unat (DDIGIT a1 a0 div ucast d) = N div unat d" by (simp add: unat_div DDIGIT_val N_def)
  then have q: "unat q = N div unat d"
    using Nq by (simp add: q_def DDIV_def DLOW_def unsigned_ucast_eq take_bit_nat_eq_self)
  obtain h l where m: "DMUL d q = (h, l)" by force
  have "(of_nat (unat l + 2 ^ 64 * unat h) :: digit) = of_nat (unat d * unat q)"
    by (simp only: DMUL_val [OF m])
  then have l: "l = of_nat (unat d * (N div unat d))" by (simp add: q digit_base)
  have a0: "a0 = of_nat N" by (simp add: N_def digit_base)
  have "r = a0 - l" by (simp add: r_def m DSUB_def Let_def)
  also have "\<dots> = of_nat N - of_nat (unat d * (N div unat d))" by (simp only: a0 l)
  also have "\<dots> = of_nat (N mod unat d)" by (simp only: minus_mult_div_eq_mod of_nat_diff times_div_less_eq_dividend flip: of_nat_diff)
  finally have "r = of_nat (N mod unat d)" .
  moreover have "N mod unat d < 2 ^ 64" using dpos unat_digit [of d] less_trans mod_less_divisor by blast
  ultimately have r: "unat r = N mod unat d" by (simp add: unat_of_nat)
  show "unat q * unat d + unat r = unat a1 * 2 ^ 64 + unat a0" using q r unfolding N_def [symmetric] by simp
  show "unat r < unat d" using r dpos by simp
qed

lemma div_loop_next:
  fixes a0 a1 d :: digit
  assumes "a1 < d"
  defines "q \<equiv> DDIV a1 a0 d"
  defines "r \<equiv> fst (DSUB a0 (snd (DMUL d q)))"
  shows "div_loop d a1 (a0 # rest)
    = (if rest = [] then Some ([q], r) else map_option (\<lambda>(qs, r). (q # qs, r)) (div_loop d r rest))"
  using assms(1) word_not_simps(1)
  by (subst div_loop.simps)
    (auto simp: q_def r_def split: option.split bind_splits)

lemma div_loop_val:
  assumes "a1 < d" "rest \<noteq> []"
  shows "\<exists>q r. div_loop d a1 rest = Some (q, r) \<and> length q = length rest \<and> unat r < unat d
     \<and> dval (rev q) * unat d + unat r = dval (rev (a1 # rest))"
  using assms
proof (induction rest arbitrary: a1)
  case (Cons a0 rest)
  define q where "q = DDIV a1 a0 d"
  define r where "r = fst (DSUB a0 (snd (DMUL d q)))"
  have st: "unat q * unat d + unat r = unat a1 * 2 ^ 64 + unat a0" "unat r < unat d"
    unfolding q_def r_def by (rule div_step [OF Cons.prems(1)])+
  have nx: "div_loop d a1 (a0 # rest)
    = (if rest = [] then Some ([q], r) else map_option (\<lambda>(qs, r). (q # qs, r)) (div_loop d r rest))"
    unfolding q_def r_def by (rule div_loop_next [OF Cons.prems(1)])
  show ?case
  proof (cases "rest = []")
    case True
    then show ?thesis using nx st by (simp add: mult.commute)
  next
    case False
    have "r < d" using st(2) by (simp add: word_less_nat_alt)
    then obtain qs r' where IH: "div_loop d r rest = Some (qs, r')" "length qs = length rest"
      "unat r' < unat d" "dval (rev qs) * unat d + unat r' = dval (rev (r # rest))"
      using Cons.IH [OF _ False] by blast
    have "dval (rev (q # qs)) * unat d + unat r'
        = 2 ^ (64 * length rest) * (unat q * unat d + unat r) + dval (rev rest)"
      using IH(2,4) by (simp add: dval_append distrib_left distrib_right)
    then have "dval (rev (q # qs)) * unat d + unat r' = dval (rev (a1 # a0 # rest))"
      unfolding st(1) by (simp add: dval_append power_add distrib_left)
    then show ?thesis using nx False IH by simp
  qed
qed simp

lemma D_div_val:
  assumes "x \<noteq> []" "d \<noteq> 0"
  obtains q r where "D_div x d = Some (q, r)" "dval q * unat d + unat r = dval x" "unat r < unat d"
    "q \<noteq> []" "length q \<le> length x" "normal x \<Longrightarrow> I_is_normalized q"
proof -
  obtain a1 rest where x: "rev x = a1 # rest" using assms(1) by (cases "rev x") auto
  then have x': "x = rev (a1 # rest)" by (metis rev_rev_ident)
  consider "a1 < d" "rest = []" | "a1 < d" "rest \<noteq> []" | "d \<le> a1" by force
  then show ?thesis
  proof cases
    case 1
    then show ?thesis
      using that [of "[0]" a1] x x' by (simp add: D_div_def word_less_nat_alt I_is_normalized_def)
  next
    case 2
    then obtain q r where q: "div_loop d a1 rest = Some (q, r)" "length q = length rest"
      "unat r < unat d" "dval (rev q) * unat d + unat r = dval (rev (a1 # rest))"
      using div_loop_val by blast
    have "I_is_normalized (rev q)" if n: "normal x"
    proof (rule ccontr)
      assume nn: "\<not> I_is_normalized (rev q)"
      obtain q1 qs where qs: "q = q1 # qs" using q(2) 2(2) by (cases q) auto
      then have "q1 = 0" "qs \<noteq> []" using nn by (auto simp: I_is_normalized_def)
      have "dval (rev q) < 2 ^ (64 * (length rest - 1))"
        using dval_bound [of "rev qs"] q(2) [symmetric] qs \<open>q1 = 0\<close> by simp
      then have "(dval (rev q) + 1) * 2 ^ 64 \<le> 2 ^ (64 * (length rest - 1)) * 2 ^ 64"
        by (intro mult_le_mono1) simp
      also have "\<dots> = 2 ^ (64 * (length x - 1))"
        using x' 2(2) by (cases rest) (simp_all add: power_add)
      also have "\<dots> \<le> dval x" using n by (simp add: normal_iff)
      also have "\<dots> < (dval (rev q) + 1) * unat d" using q(3,4) x' by simp
      also have "\<dots> \<le> (dval (rev q) + 1) * 2 ^ 64"
        using unat_digit [of d] by (intro mult_le_mono2) simp
      finally show False by simp
    qed
    moreover have "q \<noteq> []" using q(2) 2(2) by auto
    ultimately show ?thesis using that [of "rev q" r] q x x' 2 by (simp add: D_div_def)
  next
    case 3
    have z: "0 < d" using assms(2) by (simp add: word_gt_0)
    have dl: "div_loop d a1 rest = div_loop d 0 (a1 # rest)"
      using 3 z by (subst (1 2) div_loop.simps) (simp add: not_less [symmetric])
    obtain q r where q: "div_loop d 0 (a1 # rest) = Some (q, r)" "length q = length (a1 # rest)"
      "unat r < unat d" "dval (rev q) * unat d + unat r = dval (rev (0 # a1 # rest))"
      using div_loop_val [OF z] by blast
    have "hd q \<noteq> 0"
    proof
      assume h: "hd q = 0"
      obtain qs where qs: "q = 0 # qs" using q(2) h by (cases q) auto
      have "dval (rev q) + 1 \<le> 2 ^ (64 * length rest)"
        using dval_bound [of "rev qs"] q(2) qs by simp
      then have "(dval (rev q) + 1) * unat d \<le> 2 ^ (64 * length rest) * unat d" by (rule mult_le_mono1)
      moreover have "2 ^ (64 * length rest) * unat d \<le> dval (rev (0 # a1 # rest))"
        using 3 by (simp add: dval_append word_le_nat_alt trans_le_add2)
      ultimately show False using q(3,4) by simp
    qed
    moreover have "q \<noteq> []" using q(2) by auto
    ultimately have "I_is_normalized (rev q)" by (simp add: I_is_normalized_def last_rev)
    moreover have "D_div x d = Some (rev q, r)"
      using q(1) 3 unfolding dl [symmetric] by (simp add: D_div_def x not_less [symmetric])
    moreover have "dval (rev (0 # a1 # rest)) = dval x" by (simp add: x' dval_append)
    ultimately show ?thesis using that [of "rev q" r] q(2,3,4) x' \<open>q \<noteq> []\<close> by simp
  qed
qed

subsection \<open>Multiplying and subtracting\<close>

lemma mulsub_loop_val:
  "mulsub_loop d xs ys c b = (r, xs', c', b') \<Longrightarrow> length ys \<le> length xs \<Longrightarrow> unat b \<le> 1 \<Longrightarrow>
     dval r + unat d * dval ys + unat c + unat b
       = dval (take (length ys) xs) + 2 ^ (64 * length ys) * (unat c' + unat b')
     \<and> length r = length ys \<and> xs' = drop (length ys) xs \<and> unat b' \<le> 1"
proof (induction d xs ys c b arbitrary: r rule: mulsub_loop.induct)
  case (1 d x xs y ys c b)
  obtain c0 c1 where m: "DMULc d y c = (c0, c1)" by force
  obtain s b1 where u: "DSUBb x c0 b = (s, b1)" by force
  obtain r1 where r: "mulsub_loop d xs ys c1 b1 = (r1, xs', c', b')" "r = s # r1"
    using "1.prems"(1) m u by (auto split: prod.splits)
  note e = DMULc_val [OF m] DSUBb_val [OF u "1.prems"(3)]
  have "length ys \<le> length xs" using "1.prems"(2) by simp
  note IH = "1.IH" [OF m [symmetric] refl u [symmetric] refl r(1) this e(3)]
  have "2 ^ 64 * (dval r1 + unat d * dval ys + unat c1 + unat b1)
      = 2 ^ 64 * (dval (take (length ys) xs) + 2 ^ (64 * length ys) * (unat c' + unat b'))" using IH by simp
  then show ?case using IH e(1,2) by (simp add: r(2) power_add distrib_left mult.left_commute)
qed auto

text \<open>The size 0 is returned exactly when the difference is negative.\<close>

lemma borrow_iff:
  assumes "p + q = m + 2 ^ n * b" "p < 2 ^ n"
  shows "b = (0 :: nat) \<longleftrightarrow> q \<le> m"
  using assms no_borrow [OF assms] by auto

lemma D_mulsub_val:
  assumes "y \<noteq> []" "length x = length y \<or> length x = length y + 1"
  obtains r n b where "D_mulsub x d y = Some (r, n)" "length r = length x"
    "dval r + unat d * dval y = dval x + 2 ^ (64 * length x) * b"
    "n = (if dval x < unat d * dval y then 0 else length (trim r))"
proof -
  obtain r xs c b where l: "mulsub_loop d x y 0 0 = (r, xs, c, b)" by (metis prod_cases4)
  have le: "length y \<le> length x" using assms(2) by auto
  have v: "dval r + unat d * dval y = dval (take (length y) x) + 2 ^ (64 * length y) * (unat c + unat b)"
    "length r = length y" "xs = drop (length y) x" "unat b \<le> 1"
    using mulsub_loop_val [OF l le] by simp_all
  show thesis
  proof (cases xs)
    case Nil
    then have x: "take (length y) x = x" "length x = length y" using v(3) le by simp_all
    have b: "dval r < 2 ^ (64 * length y)" using dval_bound [of r] v(2) by simp
    note z = borrow_iff [OF v(1) [unfolded x(1)] b]
    have "D_mulsub x d y = Some (r, if c \<noteq> 0 \<or> b \<noteq> 0 then 0 else length (trim r))"
      using assms l Nil by (auto simp: D_mulsub_def)
    moreover have "(c \<noteq> 0 \<or> b \<noteq> 0) \<longleftrightarrow> dval x < unat d * dval y" using z by (auto simp: unat_eq_0)
    ultimately show thesis using that [of r _ "unat c + unat b"] v(1,2) x by simp
  next
    case (Cons x1 xs1)
    have "length xs \<le> 1" using v(3) assms(2) by auto
    then have xs: "xs = [x1]" using Cons by simp
    let ?n = "2 ^ (64 * length y) :: nat"
    have len: "length x = length y + 1" using xs v(3) assms(2) by auto
    have x: "dval x = dval (take (length y) x) + ?n * unat x1"
    proof -
      have "x = take (length y) x @ [x1]" using xs v(3) by (metis append_take_drop_id)
      then show ?thesis using dval_append [of "take (length y) x" "[x1]"] le by (simp add: min_absorb2)
    qed
    obtain s b1 where u: "DSUBb x1 c b = (s, b1)" by force
    have e: "unat s + unat c + unat b = unat x1 + 2 ^ 64 * unat b1" by (rule DSUBb_val(1) [OF u v(4)])
    have "?n * (unat s + (unat c + unat b)) = ?n * (unat x1 + 2 ^ 64 * unat b1)" using e by simp
    then have w: "dval (r @ [s]) + unat d * dval y = dval x + 2 ^ (64 * length x) * unat b1"
      using v(1,2) unfolding x len by (simp add: dval_append power_add distrib_left)
    have b: "dval (r @ [s]) < 2 ^ (64 * length x)" using dval_bound [of "r @ [s]"] v(2) len by simp
    have "D_mulsub x d y = Some (r @ [s], if b1 \<noteq> 0 then 0 else length (trim (r @ [s])))"
      using assms l xs u by (auto simp: D_mulsub_def Let_def)
    moreover have "b1 \<noteq> 0 \<longleftrightarrow> dval x < unat d * dval y" using borrow_iff [OF w b] by (auto simp: unat_eq_0)
    ultimately show thesis using that [of "r @ [s]" _ "unat b1"] w v(2) len by simp
  qed
qed

end
