(* ===== verification/BigMul.thy ===== *)
theory BigMul
  imports BigThms
begin

text \<open>
  Squaring and the multiplication of Karatsuba (\<^verbatim>\<open>I_sqr\<close> and \<^verbatim>\<open>I_mul_karatsuba\<close> of \<^verbatim>\<open>big.c\<close>). Both
  compute the product of their arguments, and the recursion of the second returns. That \<open>x\<close> and \<open>y\<close>
  are the same vector (\<open>x == y\<close>) is the argument \<open>same\<close>. The buffers are lists; \<open>x\<close> and \<open>r\<close> do not
  overlap.
\<close>

subsection \<open>Squaring\<close>

text \<open>
  The inner loop of \<open>I_sqr\<close>: \<open>w\<close> are the digits of \<open>r\<close> from \<open>s\<close> on, the result the digits written, what
  is left of \<open>w\<close>, and \<open>z1\<close> with the carries \<open>y_0\<close>, \<open>y_1\<close>, \<open>y_2\<close>, \<open>y_3\<close>.
\<close>

fun sqr_inner ::
    "digit \<Rightarrow> digit list \<Rightarrow> digit list \<Rightarrow> digit \<times> digit \<times> digit \<times> digit \<times> digit
     \<Rightarrow> digit list \<times> digit list \<times> (digit \<times> digit \<times> digit \<times> digit \<times> digit)" where
  "sqr_inner d (y # ys) (w # ws) (z1, y0, y1, y2, y3) =
     (let (b1, b0) = DMUL d y;
          (z0, y0) = DSUMc b0 b0 y0;
          (z2, y2) = DSUMc z0 z1 y2;
          (t, y3) = DSUMc w z2 y3;
          (z1, y1) = DSUMc b1 b1 y1;
          (r, ws, c) = sqr_inner d ys ws (z1, y0, y1, y2, y3)
      in (t # r, ws, c))"
| "sqr_inner d _ ws c = ([], ws, c)"

text \<open>
  One pass of the outer loop: the window \<open>w\<close> of \<open>r\<close> after it. The digit \<open>y_1 + y_2 + y_3\<close> is written
  only if there are digits of \<open>x\<close> left.
\<close>

definition sqr_row :: "digit \<Rightarrow> digit list \<Rightarrow> digit list \<Rightarrow> digit list" where
  "sqr_row d xs w =
     (if d = 0 then (if xs \<noteq> [] then w @ [0] else w)
      else
        (let (b1, b0) = DMUL d d;
             (t0, y3) = DSUMc (hd w) b0 0;
             (r, ws, z1, y0, y1, y2, y3) = sqr_inner d xs (tl w) (b1, 0, 0, 0, y3);
             (z2, y2) = DSUMc y0 z1 y2;
             (t, y3) = DSUMc (hd ws) z2 y3
         in t0 # r @ [t] @ (if xs \<noteq> [] then [y1 + y2 + y3] else [])))"

fun sqr_loop :: "digit list \<Rightarrow> digit list \<Rightarrow> digit list" where
  "sqr_loop (d # xs) w =
     (let w = sqr_row d xs w in if xs = [] then w else take 2 w @ sqr_loop xs (drop 2 w))"
| "sqr_loop [] w = w"

definition I_sqr :: "digit list \<Rightarrow> digit list option" where
  "I_sqr x =
     (if x = [] then None
      else
        (let r = sqr_loop x (replicate (length x + 1) 0)
         in Some (if last r = 0 then butlast r else r)))"

subsection \<open>Karatsuba\<close>

text \<open>
  The loops \<open>while (len > 1 && p[len-1] == 0) len--\<close> are \<open>trim\<close>. \<open>z0p\<close> is \<open>z0\<close> padded with zeros to
  the length \<open>2 * m\<close>, as it lies in \<open>r\<close> before \<open>z2\<close>.
\<close>

definition I_OPERATION ::
    "(digit list \<Rightarrow> digit list \<Rightarrow> digit list option) \<Rightarrow> digit list \<Rightarrow> digit list \<Rightarrow> digit list option" where
  "I_OPERATION op p1 p2 = (if length p1 \<ge> length p2 then op p1 p2 else op p2 p1)"

definition kara_split :: "nat \<Rightarrow> digit list \<Rightarrow> digit list \<times> digit list" where
  "kara_split m y = (if length y \<le> m then (trim y, [0]) else (trim (take m y), drop m y))"

text \<open>\<open>abs(low_x - high_x)\<close> and \<open>abs(high_y - low_y)\<close> with the sign of the product.\<close>

definition kara_diffs ::
    "bool \<Rightarrow> bool \<Rightarrow> digit list \<Rightarrow> digit list \<Rightarrow> digit list \<Rightarrow> digit list
     \<Rightarrow> (bool \<times> digit list \<times> digit list) option" where
  "kara_diffs same high_y_zero low_x high_x low_y high_y = do {
     (neg, diff0) \<leftarrow>
       (if I_comp low_x high_x \<ge> 0 then map_option (Pair False) (I_sub low_x high_x)
        else map_option (Pair True) (I_sub high_x low_x));
     if same then Some (True, diff0, diff0)
     else if I_comp high_y low_y \<ge> 0 then
       map_option (\<lambda>diff1. (neg, diff0, diff1)) (I_sub high_y low_y)
     else
       map_option (\<lambda>diff1. (\<not> neg, diff0, diff1))
         (if high_y_zero then Some low_y else I_sub low_y high_y)
   }"

text \<open>\<open>z1 = z0 + z2\<close> plus or minus \<open>tmp\<close>, added into the result at \<open>m\<close>.\<close>

definition kara_combine ::
    "nat \<Rightarrow> digit list \<Rightarrow> digit list \<Rightarrow> bool \<Rightarrow> digit list \<Rightarrow> digit list option" where
  "kara_combine m z0 z2 neg tmp = do {
     let z0p = z0 @ replicate (2 * m - length z0) 0;
     z1 \<leftarrow> I_OPERATION I_add (trim z0) z2;
     z1 \<leftarrow> (if neg then I_sub z1 tmp else I_OPERATION I_add z1 tmp);
     res \<leftarrow> I_OPERATION I_add (drop m z0p @ z2) z1;
     Some (trim (take m z0p @ res))
   }"

partial_function (option) I_mul_karatsuba ::
    "bool \<Rightarrow> digit list \<Rightarrow> digit list \<Rightarrow> digit list option" where
  "I_mul_karatsuba same x y =
     (if length y < 16 then
        if same \<and> length x > 1 then I_sqr x else I_mul x y
      else do {
        let m = (length x + 1) div 2;
        let low_x = trim (take m x);
        let high_x = drop m x;
        let low_y = fst (kara_split m y);
        let high_y = snd (kara_split m y);
        z0 \<leftarrow> (if length low_x \<ge> length low_y then I_mul_karatsuba same low_x low_y
               else I_mul_karatsuba same low_y low_x);
        z2 \<leftarrow> (if length y \<le> m then Some [0]
               else if length high_x \<ge> length high_y then I_mul_karatsuba same high_x high_y
               else I_mul_karatsuba same high_y high_x);
        (neg, diff0, diff1) \<leftarrow> kara_diffs same (length y \<le> m) low_x high_x low_y high_y;
        tmp \<leftarrow> (if length diff0 \<ge> length diff1 then I_mul_karatsuba same diff0 diff1
                else I_mul_karatsuba same diff1 diff0);
        kara_combine m z0 (trim z2) neg (trim tmp)
      })"

declare I_mul_karatsuba.simps [code]

subsection \<open>Squaring is multiplying\<close>

lemma DSUMc_carry:
  assumes "DSUMc a b c = (s, c')" "unat c \<le> 1"
  shows "unat s + 2 ^ 64 * unat c' = unat a + unat b + unat c" "unat c' \<le> 1"
proof -
  show e: "unat s + 2 ^ 64 * unat c' = unat a + unat b + unat c" by (rule DSUMc_val [OF assms(1)])
  show "unat c' \<le> 1" using e assms(2) unat_digit [of a] unat_digit [of b] by simp
qed

text \<open>What the inner loop still has to add at its position.\<close>

definition pend :: "digit \<times> digit \<times> digit \<times> digit \<times> digit \<Rightarrow> nat" where
  "pend c = (case c of (z1, y0, y1, y2, y3) \<Rightarrow> unat z1 + unat y0 + unat y2 + unat y3 + 2 ^ 64 * unat y1)"

definition carries :: "digit \<times> digit \<times> digit \<times> digit \<times> digit \<Rightarrow> bool" where
  "carries c = (case c of (z1, y0, y1, y2, y3) \<Rightarrow> unat y0 \<le> 1 \<and> unat y1 \<le> 1 \<and> unat y2 \<le> 1 \<and> unat y3 \<le> 1)"

lemma sqr_inner_val:
  "sqr_inner d ys ws c = (r, ws', c') \<Longrightarrow> length ys \<le> length ws \<Longrightarrow> carries c \<Longrightarrow>
     dval r + 2 ^ (64 * length ys) * pend c' = 2 * unat d * dval ys + dval (take (length ys) ws) + pend c
     \<and> length r = length ys \<and> ws' = drop (length ys) ws \<and> carries c'"
proof (induction ys arbitrary: ws c r)
  case (Cons y ys)
  obtain w ws1 where ws: "ws = w # ws1" "length ys \<le> length ws1" using Cons.prems(2) by (cases ws) auto
  obtain z1 y0 y1 y2 y3 where c: "c = (z1, y0, y1, y2, y3)" by (metis prod.exhaust)
  have le: "unat y0 \<le> 1" "unat y1 \<le> 1" "unat y2 \<le> 1" "unat y3 \<le> 1"
    using Cons.prems(3) by (simp_all add: c carries_def)
  obtain b1 b0 where b: "DMUL d y = (b1, b0)" by force
  obtain z0 y0' where 0: "DSUMc b0 b0 y0 = (z0, y0')" by force
  obtain z2 y2' where 2: "DSUMc z0 z1 y2 = (z2, y2')" by force
  obtain t y3' where 3: "DSUMc w z2 y3 = (t, y3')" by force
  obtain z1' y1' where 1: "DSUMc b1 b1 y1 = (z1', y1')" by force
  let ?c = "(z1', y0', y1', y2', y3')"
  obtain r1 where r: "sqr_inner d ys ws1 ?c = (r1, ws', c')" "r = t # r1"
    using Cons.prems(1) ws(1) c b 0 1 2 3 by (auto split: prod.splits)
  note s = DSUMc_carry [OF 0 le(1)] DSUMc_carry [OF 2 le(3)] DSUMc_carry [OF 3 le(4)] DSUMc_carry [OF 1 le(2)]
  have st: "unat t + 2 ^ 64 * pend ?c = 2 * unat d * unat y + unat w + pend c"
    using s DMUL_val [OF b] by (simp add: pend_def c)
  have "carries ?c" using s by (simp add: carries_def)
  then have IH: "dval r1 + 2 ^ (64 * length ys) * pend c'
      = 2 * unat d * dval ys + dval (take (length ys) ws1) + pend ?c"
    "length r1 = length ys" "ws' = drop (length ys) ws1" "carries c'"
    using Cons.IH [OF r(1) ws(2)] by simp_all
  have "2 ^ 64 * (dval r1 + 2 ^ (64 * length ys) * pend c')
      = 2 ^ 64 * (2 * unat d * dval ys + dval (take (length ys) ws1) + pend ?c)" using IH(1) by simp
  then show ?case using IH(2-4) st by (simp add: r(2) ws(1) power_add algebra_simps)
qed simp

lemma sqr_row_val:
  assumes "length w = length xs + 2"
    and "xs = [] \<Longrightarrow> unat d ^ 2 + dval w < 2 ^ 128"
  shows "dval (sqr_row d xs w) = unat d ^ 2 + 2 ^ 64 * (2 * unat d * dval xs) + dval w
    \<and> length (sqr_row d xs w) = length w + of_bool (xs \<noteq> [])"
proof (cases "d = 0")
  case False
  obtain w0 ws0 where w: "w = w0 # ws0" "length ws0 = length xs + 1" using assms(1) by (cases w) auto
  obtain b1 b0 where b: "DMUL d d = (b1, b0)" by force
  obtain t0 y3 where 0: "DSUMc w0 b0 0 = (t0, y3)" by force
  obtain r ws z1 y0 y1 y2 y3' where i: "sqr_inner d xs ws0 (b1, 0, 0, 0, y3) = (r, ws, z1, y0, y1, y2, y3')"
    by (metis prod.exhaust)
  note s0 = DSUMc_carry [OF 0, simplified]
  have "length xs \<le> length ws0" "carries (b1, 0, 0, 0, y3)" using w(2) s0 by (simp_all add: carries_def)
  note v = sqr_inner_val [OF i this]
  have "length ws = 1" using v w(2) by simp
  then obtain w1 where ws: "ws = [w1]" by (auto simp: length_Suc_conv)
  obtain z2 y2' where 2: "DSUMc y0 z1 y2 = (z2, y2')" by force
  obtain t y3'' where 3: "DSUMc w1 z2 y3' = (t, y3'')" by force
  note s2 = DSUMc_carry [OF 2] and s3 = DSUMc_carry [OF 3]
  have le: "unat y1 \<le> 1" "unat y2 \<le> 1" "unat y3' \<le> 1" using v by (simp_all add: carries_def)
  have top: "unat (y1 + y2' + y3'') = unat y1 + unat y2' + unat y3''"
  proof -
    have b12: "unat y1 + unat y2' + unat y3'' < 2 ^ 64" using le s2(2) s3(2) by simp
    then have "unat (y1 + y2') = unat y1 + unat y2'" using unat_add_lem [of y1 y2'] by simp
    then show ?thesis using b12 unat_add_lem [of "y1 + y2'" y3''] by simp
  qed
  let ?n = "2 ^ (64 * length xs) :: nat"
  have row: "sqr_row d xs w = t0 # r @ [t] @ (if xs \<noteq> [] then [y1 + y2' + y3''] else [])"
    using False b 0 i 2 3 ws by (simp add: sqr_row_def w(1))
  have ws0: "dval ws0 = dval (take (length xs) ws0) + ?n * unat w1"
  proof -
    have "drop (length xs) ws0 = [w1]" using v ws by simp
    then have "ws0 = take (length xs) ws0 @ [w1]" by (metis append_take_drop_id)
    then show ?thesis using dval_append [of "take (length xs) ws0" "[w1]"] w(2) by simp
  qed
  have p: "pend (z1, y0, y1, y2, y3') + unat w1 = unat t + 2 ^ 64 * unat (y1 + y2' + y3'')"
    using s2(1) s3(1) le unfolding top by (simp add: pend_def)
  have "dval (r @ [t, y1 + y2' + y3'']) = dval r + ?n * (pend (z1, y0, y1, y2, y3') + unat w1)"
    using v unfolding p by (simp add: dval_append)
  also have "\<dots> = 2 * unat d * dval xs + dval ws0 + (unat b1 + unat y3)"
    using v ws0 by (simp add: pend_def distrib_left)
  finally have "dval (t0 # r @ [t, y1 + y2' + y3''])
      = unat t0 + 2 ^ 64 * (2 * unat d * dval xs + dval ws0 + (unat b1 + unat y3))" by simp
  also have "\<dots> = unat d ^ 2 + 2 ^ 64 * (2 * unat d * dval xs) + dval w"
    using s0(1) DMUL_val [OF b] by (simp add: w(1) power2_eq_square)
  finally have full: "dval (t0 # r @ [t, y1 + y2' + y3''])
      = unat d ^ 2 + 2 ^ 64 * (2 * unat d * dval xs) + dval w" .
  show ?thesis
  proof (cases "xs = []")
    case True
    then have "r = []" using v by simp
    then have "2 ^ 128 * unat (y1 + y2' + y3'') < 2 ^ 128" using full assms(2) True by simp
    then have "unat (y1 + y2' + y3'') = 0" by simp
    then have "dval (t0 # r @ [t]) = dval (t0 # r @ [t, y1 + y2' + y3''])" by (simp add: dval_append)
    then show ?thesis using full True \<open>r = []\<close> w(2) unfolding row by (simp add: w(1))
  next
    case nonempty: False
    then show ?thesis using full v w(2) unfolding row by (simp add: w(1))
  qed
qed (simp add: sqr_row_def)

lemma sqr_loop_val:
  "xs \<noteq> [] \<Longrightarrow> length w = length xs + 1 \<Longrightarrow> dval xs ^ 2 + dval w < 2 ^ (128 * length xs) \<Longrightarrow>
     dval (sqr_loop xs w) = dval xs ^ 2 + dval w \<and> length (sqr_loop xs w) = 2 * length xs"
proof (induction xs arbitrary: w)
  case (Cons d xs)
  let ?w = "sqr_row d xs w"
  have sq: "dval (d # xs) ^ 2 = unat d ^ 2 + 2 ^ 64 * (2 * unat d * dval xs) + 2 ^ 128 * dval xs ^ 2"
    by (simp add: power2_eq_square algebra_simps)
  have "xs = [] \<Longrightarrow> unat d ^ 2 + dval w < 2 ^ 128" using Cons.prems(3) by simp
  then have row: "dval ?w = unat d ^ 2 + 2 ^ 64 * (2 * unat d * dval xs) + dval w"
    "length ?w = length w + of_bool (xs \<noteq> [])"
    using sqr_row_val [of w xs d] Cons.prems(2) by simp_all
  show ?case
  proof (cases "xs = []")
    case True
    then show ?thesis using row Cons.prems(2) by simp
  next
    case False
    have split: "dval ?w = dval (take 2 ?w) + 2 ^ 128 * dval (drop 2 ?w)"
      using dval_append [of "take 2 ?w" "drop 2 ?w"] row(2) Cons.prems(2) by (simp add: min_absorb2)
    have e: "dval (d # xs) ^ 2 + dval w = dval (take 2 ?w) + 2 ^ 128 * (dval xs ^ 2 + dval (drop 2 ?w))"
      using sq row(1) split by (simp add: distrib_left)
    have "2 ^ 128 * (dval xs ^ 2 + dval (drop 2 ?w)) < 2 ^ (128 * length (d # xs))"
      using Cons.prems(3) unfolding e by linarith
    also have "\<dots> = 2 ^ 128 * 2 ^ (128 * length xs)" by (simp add: power_add)
    finally have "dval xs ^ 2 + dval (drop 2 ?w) < 2 ^ (128 * length xs)" by simp
    moreover have "length (drop 2 ?w) = length xs + 1" using row(2) Cons.prems(2) False by simp
    ultimately have IH: "dval (sqr_loop xs (drop 2 ?w)) = dval xs ^ 2 + dval (drop 2 ?w)"
      "length (sqr_loop xs (drop 2 ?w)) = 2 * length xs" using Cons.IH [OF False] by blast+
    have "length (take 2 ?w) = 2" using row(2) Cons.prems(2) by simp
    moreover have "sqr_loop (d # xs) w = take 2 ?w @ sqr_loop xs (drop 2 ?w)" using False by (simp add: Let_def)
    ultimately show ?thesis unfolding e using IH by (simp add: dval_append)
  qed
qed simp

lemma I_sqr_val:
  assumes "x \<noteq> []"
  obtains r where "I_sqr x = Some r" "dval r = dval x * dval x"
    "length r \<in> {2 * length x - 1, 2 * length x}" "normal x \<Longrightarrow> normal r"
proof -
  let ?r = "sqr_loop x (replicate (length x + 1) 0)"
  have "dval x * dval x < 2 ^ (64 * length x) * 2 ^ (64 * length x)"
    using dval_bound [of x] by (intro mult_strict_mono) simp_all
  then have "dval x ^ 2 < 2 ^ (128 * length x)" by (simp add: power2_eq_square flip: power_add)
  then have v: "dval ?r = dval x * dval x" "length ?r = 2 * length x"
    using sqr_loop_val [OF assms, of "replicate (length x + 1) 0"]
    by (simp_all add: power2_eq_square del: replicate_Suc replicate.simps)
  have ne: "?r \<noteq> []" using v(2) assms by auto
  let ?s = "if last ?r = 0 then butlast ?r else ?r"
  have d: "dval ?s = dval x * dval x" using v(1) ne by (simp add: dval_butlast)
  have "normal ?s" if "normal x"
  proof (cases "last ?r = 0")
    case True
    have "2 ^ (64 * (length x - 1)) * 2 ^ (64 * (length x - 1)) \<le> dval x * dval x"
      using that by (intro mult_le_mono) (simp_all add: normal_iff)
    moreover have "64 * (length x - 1) + 64 * (length x - 1) = 64 * (length ?s - 1)"
      using True v(2) by simp
    ultimately have "2 ^ (64 * (length ?s - 1)) \<le> dval ?s" using d by (simp only: power_add [symmetric])
    moreover have "0 < length ?s" using True v(2) assms by (cases x) simp_all
    ultimately show ?thesis unfolding normal_iff by blast
  qed (use ne in \<open>simp add: normal_def\<close>)
  then show ?thesis using that [of ?s] d v(2) assms by (auto simp: I_sqr_def Let_def)
qed

subsection \<open>Karatsuba is multiplying\<close>

text \<open>A number with its leading zeros removed.\<close>

lemma normalized_length:
  assumes "I_is_normalized r" "dval r < 2 ^ (64 * n)" "0 < n"
  shows "length r \<le> n"
proof (rule ccontr)
  assume "\<not> length r \<le> n"
  then have "1 < length r" "n \<le> length r - 1" using assms(3) by simp_all
  then have "2 ^ (64 * (length r - 1)) \<le> dval r" using normalized_ge [OF assms(1)] by blast
  moreover have "(2 :: nat) ^ (64 * n) \<le> 2 ^ (64 * (length r - 1))"
    using \<open>n \<le> length r - 1\<close> by (intro power_increasing) simp_all
  ultimately show False using assms(2) by linarith
qed

lemma dval_le_length:
  assumes "I_is_normalized y" "x \<noteq> []" "dval y \<le> dval x"
  shows "length y \<le> length x"
  using length_less_dval [OF assms(1) _ assms(2)] assms(3) by (meson leD leI)

lemma add_op:
  assumes "x \<noteq> []" "y \<noteq> []"
  obtains r where "I_OPERATION I_add x y = Some r" "dval r = dval x + dval y" "r \<noteq> []"
proof (cases "length x \<ge> length y")
  case True
  obtain r where "I_add x y = Some r" "dval r = dval x + dval y" "length x \<le> length r"
    by (rule I_add_val [OF True assms(2)])
  moreover have "r \<noteq> []" using calculation(3) assms(1) by auto
  ultimately show ?thesis using that [of r] True by (simp add: I_OPERATION_def)
next
  case False
  then have "length x \<le> length y" by simp
  then obtain r where "I_add y x = Some r" "dval r = dval y + dval x" "length y \<le> length r"
    by (rule I_add_val [OF _ assms(1)])
  moreover have "r \<noteq> []" using calculation(3) assms(2) by auto
  ultimately show ?thesis using that [of r] False by (simp add: I_OPERATION_def)
qed

lemma sub_op:
  assumes "I_is_normalized y" "x \<noteq> []" "y \<noteq> []" "dval y \<le> dval x"
  obtains r where "I_sub x y = Some r" "dval r = dval x - dval y" "I_is_normalized r" "r \<noteq> []"
    "length r \<le> length x"
  by (rule I_sub_val [OF dval_le_length [OF assms(1,2,4)] assms(3,4)]) (rule that)

lemma comp_ge:
  assumes "I_is_normalized x" "I_is_normalized y" "x \<noteq> []" "y \<noteq> []"
  shows "I_comp x y \<ge> 0 \<longleftrightarrow> dval y \<le> dval x"
  unfolding I_comp_val [OF assms] by (auto simp: sgn_if)

text \<open>The absolute differences.\<close>

lemma abs_diff:
  assumes "I_is_normalized x" "I_is_normalized y" "x \<noteq> []" "y \<noteq> []" "length x \<le> m" "length y \<le> m"
  obtains r where "(if I_comp x y \<ge> 0 then map_option (Pair False) (I_sub x y)
      else map_option (Pair True) (I_sub y x)) = Some (dval x < dval y, r)"
    "int (dval r) = \<bar>int (dval x) - int (dval y)\<bar>" "I_is_normalized r" "r \<noteq> []" "length r \<le> m"
proof (cases "dval y \<le> dval x")
  case True
  obtain r where "I_sub x y = Some r" "dval r = dval x - dval y" "I_is_normalized r" "r \<noteq> []" "length r \<le> length x"
    by (rule sub_op [OF assms(2,3,4) True])
  then show ?thesis using that [of r] True assms comp_ge [OF assms(1-4)] by simp
next
  case False
  then have "dval x \<le> dval y" by simp
  then obtain r where "I_sub y x = Some r" "dval r = dval y - dval x" "I_is_normalized r" "r \<noteq> []" "length r \<le> length y"
    by (rule sub_op [OF assms(1,4,3)])
  then show ?thesis using that [of r] False assms comp_ge [OF assms(1-4)] by simp
qed

lemma kara_diffs_val:
  assumes n: "I_is_normalized a" "I_is_normalized b" "I_is_normalized c" "I_is_normalized d"
    and ne: "a \<noteq> []" "b \<noteq> []" "c \<noteq> []" "d \<noteq> []"
    and le: "length a \<le> m" "length b \<le> m" "length c \<le> m" "length d \<le> m"
    and same: "same \<Longrightarrow> a = c \<and> b = d" and zero: "zero \<Longrightarrow> dval d = 0"
  obtains neg u v where "kara_diffs same zero a b c d = Some (neg, u, v)"
    "(if neg then - int (dval u * dval v) else int (dval u * dval v))
       = (int (dval a) - int (dval b)) * (int (dval d) - int (dval c))"
    "I_is_normalized u" "I_is_normalized v" "u \<noteq> []" "v \<noteq> []" "length u \<le> m" "length v \<le> m" "same \<Longrightarrow> u = v"
proof -
  obtain u where u: "(if I_comp a b \<ge> 0 then map_option (Pair False) (I_sub a b)
      else map_option (Pair True) (I_sub b a)) = Some (dval a < dval b, u)"
    "int (dval u) = \<bar>int (dval a) - int (dval b)\<bar>" "I_is_normalized u" "u \<noteq> []" "length u \<le> m"
    by (rule abs_diff [OF n(1,2) ne(1,2) le(1,2)])
  obtain w where w: "(if I_comp d c \<ge> 0 then map_option (Pair False) (I_sub d c)
      else map_option (Pair True) (I_sub c d)) = Some (dval d < dval c, w)"
    "int (dval w) = \<bar>int (dval d) - int (dval c)\<bar>" "I_is_normalized w" "w \<noteq> []" "length w \<le> m"
    by (rule abs_diff [OF n(4,3) ne(4,3) le(4,3)])
  let ?zero = "\<not> same \<and> dval d < dval c \<and> zero"
  let ?v = "if same then u else if dval d < dval c \<and> zero then c else w"
  let ?neg = "if same then True else (dval a < dval b) \<noteq> (dval d < dval c)"
  have "kara_diffs same zero a b c d = Some (?neg, u, ?v)"
    using u(1) w(1) comp_ge [OF n(4,3) ne(4,3)]
    by (auto simp: kara_diffs_def split: if_splits)
  moreover have "int (dval ?v) = \<bar>int (dval d) - int (dval c)\<bar>"
    using u(2) w(2) same zero by auto
  then have "(if ?neg then - int (dval u * dval ?v) else int (dval u * dval ?v))
       = (int (dval a) - int (dval b)) * (int (dval d) - int (dval c))"
    using u(2) same by (auto simp: abs_if algebra_simps)
  moreover have "I_is_normalized ?v" "?v \<noteq> []" "length ?v \<le> m" using u w n ne le by auto
  ultimately show ?thesis using that [of ?neg u ?v] u(3-5) by simp
qed

lemma kara_combine_val:
  assumes "z0 \<noteq> []" "z2 \<noteq> []" "tmp \<noteq> []" "length z0 \<le> 2 * m" "I_is_normalized tmp"
    and S: "int S = int (dval z0) + int (dval z2) + (if neg then - int (dval tmp) else int (dval tmp))"
  obtains r where "kara_combine m z0 z2 neg tmp = Some r" "I_is_normalized r" "r \<noteq> []"
    "dval r = dval z0 + 2 ^ (64 * m) * S + 2 ^ (128 * m) * dval z2"
proof -
  define zp where "zp = z0 @ replicate (2 * m - length z0) 0"
  have zp: "length zp = 2 * m" "dval zp = dval z0" using assms(4) by (simp_all add: zp_def dval_append)
  obtain z1 where z1: "I_OPERATION I_add (trim z0) z2 = Some z1" "dval z1 = dval z0 + dval z2" "z1 \<noteq> []"
    using add_op [of "trim z0" z2] assms(1,2) by auto
  obtain z1' where z1': "(if neg then I_sub z1 tmp else I_OPERATION I_add z1 tmp) = Some z1'" "dval z1' = S" "z1' \<noteq> []"
  proof (cases neg)
    case True
    then have "dval tmp \<le> dval z1" using S z1(2) by simp
    then obtain q where "I_sub z1 tmp = Some q" "dval q = dval z1 - dval tmp" "q \<noteq> []"
      using sub_op [OF assms(5) z1(3) assms(3)] by blast
    moreover have "dval z1 - dval tmp = S" using S z1(2) True by simp
    ultimately show ?thesis using that [of q] True by simp
  next
    case False
    obtain q where "I_OPERATION I_add z1 tmp = Some q" "dval q = dval z1 + dval tmp" "q \<noteq> []"
      by (rule add_op [OF z1(3) assms(3)])
    moreover have "dval z1 + dval tmp = S" using S z1(2) False by simp
    ultimately show ?thesis using that [of q] False by simp
  qed
  obtain h where h: "I_OPERATION I_add (drop m zp @ z2) z1' = Some h" "dval h = dval (drop m zp @ z2) + dval z1'" "h \<noteq> []"
    using add_op [of "drop m zp @ z2" z1'] assms(2) z1'(3) by auto
  have "kara_combine m z0 z2 neg tmp = Some (trim (take m zp @ h))"
    using z1(1) z1'(1) h(1) by (simp add: kara_combine_def Let_def zp_def [symmetric])
  moreover have "dval (take m zp @ h) = dval z0 + 2 ^ (64 * m) * S + 2 ^ (128 * m) * dval z2"
  proof -
    define M :: nat where "M = 2 ^ (64 * m)"
    have M2: "2 ^ (128 * m) = M * M" by (simp add: M_def flip: power_add)
    have len: "length (take m zp) = m" "length (drop m zp) = m" using zp(1) by simp_all
    have z: "dval z0 = dval (take m zp) + M * dval (drop m zp)"
      using dval_append [of "take m zp" "drop m zp"] len zp(2) by (simp add: M_def)
    have "dval (take m zp @ h) = dval (take m zp) + M * (dval (drop m zp) + M * dval z2 + S)"
      using h(2) z1'(2) len by (simp add: dval_append M_def)
    also have "\<dots> = dval z0 + M * S + M * M * dval z2" unfolding z by (simp add: algebra_simps)
    finally show ?thesis unfolding M2 M_def [symmetric] .
  qed
  ultimately show ?thesis using that [of "trim (take m zp @ h)"] trim_norm h(3) by simp
qed

text \<open>What a call promises; the recursion keeps it.\<close>

definition mul_ok :: "bool \<Rightarrow> digit list \<Rightarrow> digit list \<Rightarrow> digit list \<Rightarrow> bool" where
  "mul_ok same x y r \<longleftrightarrow>
     dval r = dval x * dval y \<and> r \<noteq> [] \<and> length r \<le> length x + length y
     \<and> (normal x \<longrightarrow> normal y \<longrightarrow> normal r)"

definition mul_pre :: "bool \<Rightarrow> digit list \<Rightarrow> digit list \<Rightarrow> bool" where
  "mul_pre same x y \<longleftrightarrow>
     I_is_normalized x \<and> I_is_normalized y \<and> y \<noteq> [] \<and> length y \<le> length x \<and> (same \<longrightarrow> x = y)"

lemma kara_base:
  assumes "mul_pre same x y" "length y < 16"
  shows "\<exists>r. I_mul_karatsuba same x y = Some r \<and> mul_ok same x y r"
proof (cases "same \<and> length x > 1")
  case True
  then have xy: "x = y" "x \<noteq> []" using assms(1) by (auto simp: mul_pre_def)
  obtain r where r: "I_sqr x = Some r" "dval r = dval x * dval x"
    "length r \<in> {2 * length x - 1, 2 * length x}" "normal x \<Longrightarrow> normal r" using I_sqr_val [OF xy(2)] by blast
  have "0 < length r" using r(3) True by auto
  then show ?thesis using r xy(1) True assms(2) by (subst I_mul_karatsuba.simps) (auto simp: mul_ok_def)
next
  case False
  have le: "length y \<le> length x" "y \<noteq> []" using assms(1) by (simp_all add: mul_pre_def)
  obtain r where r: "I_mul x y = Some r" "dval r = dval x * dval y"
    "length r \<in> {length x + length y - 1, length x + length y}" by (rule I_mul_val [OF le])
  have "1 \<le> length y" using le(2) by (cases y) simp_all
  then have "0 < length r" using r(3) le(1) by auto
  moreover have "normal x \<Longrightarrow> normal y \<Longrightarrow> normal r" using I_mul_normal r(1) by blast
  ultimately show ?thesis using r False assms(2) by (subst I_mul_karatsuba.simps) (auto simp: mul_ok_def)
qed

text \<open>The call of \<open>I_OPERATION\<close> with a recursive call.\<close>

lemma kara_op:
  assumes "\<And>x' y'. mul_pre same x' y' \<Longrightarrow> length x' + length y' < n \<Longrightarrow>
      \<exists>r. I_mul_karatsuba same x' y' = Some r \<and> mul_ok same x' y' r"
    and "I_is_normalized x" "I_is_normalized y" "x \<noteq> []" "y \<noteq> []" "length x + length y < n"
    and "same \<Longrightarrow> x = y"
  obtains r where "(if length x \<ge> length y then I_mul_karatsuba same x y else I_mul_karatsuba same y x) = Some r"
    "dval r = dval x * dval y" "r \<noteq> []" "length r \<le> length x + length y"
proof (cases "length x \<ge> length y")
  case True
  then show ?thesis using assms(1) [of x y] assms(2-) that by (auto simp: mul_pre_def mul_ok_def)
next
  case False
  then show ?thesis using assms(1) [of y x] assms(2-) that by (auto simp: mul_pre_def mul_ok_def mult.commute)
qed

lemma normalized_drop: "I_is_normalized x \<Longrightarrow> m < length x \<Longrightarrow> 1 < length x \<Longrightarrow> I_is_normalized (drop m x)"
  by (auto simp: I_is_normalized_def)

lemma kara_split_val:
  assumes "kara_split m y = (c, d)" "I_is_normalized y" "1 < length y" "length y \<le> 2 * m"
  shows "dval y = dval c + 2 ^ (64 * m) * dval d" "I_is_normalized c" "I_is_normalized d" "c \<noteq> []" "d \<noteq> []"
    "length c \<le> m" "length d \<le> m" "length y \<le> m \<Longrightarrow> dval d = 0" "length c + length d \<le> length y + 1"
proof -
  have m: "0 < m" and ne: "y \<noteq> []" using assms(3,4) by auto
  have "dval y = dval c + 2 ^ (64 * m) * dval d \<and> I_is_normalized c \<and> I_is_normalized d \<and> c \<noteq> [] \<and> d \<noteq> []
    \<and> length c \<le> m \<and> length d \<le> m \<and> (length y \<le> m \<longrightarrow> dval d = 0) \<and> length c + length d \<le> length y + 1"
  proof (cases "length y \<le> m")
    case True
    then have "c = trim y" "d = [0]" using assms(1) by (simp_all add: kara_split_def)
    moreover have "I_is_normalized [0]" by (simp add: I_is_normalized_def)
    ultimately show ?thesis using True m ne length_trim [of y] trim_norm [of y] by simp
  next
    case False
    then have cd: "c = trim (take m y)" "d = drop m y" using assms(1) by (simp_all add: kara_split_def)
    have "dval y = dval (take m y) + 2 ^ (64 * m) * dval (drop m y)"
      using dval_append [of "take m y" "drop m y"] False by simp
    then show ?thesis
      using False m assms(2-4) length_trim [of "take m y"] trim_norm normalized_drop [of y m]
      by (auto simp: cd)
  qed
  then show "dval y = dval c + 2 ^ (64 * m) * dval d" "I_is_normalized c" "I_is_normalized d" "c \<noteq> []" "d \<noteq> []"
    "length c \<le> m" "length d \<le> m" "length y \<le> m \<Longrightarrow> dval d = 0" "length c + length d \<le> length y + 1"
    by blast+
qed

lemma kara_identity:
  fixes a b c d M :: nat and p :: int
  assumes "p = (int a - int b) * (int d - int c)"
  shows "int (a * d + b * c) = int (a * c) + int (b * d) + p"
    "(a + M * b) * (c + M * d) = a * c + M * (a * d + b * c) + M * M * (b * d)"
  unfolding assms by (simp_all add: algebra_simps)

lemma kara_step:
  assumes IH: "\<And>x' y'. mul_pre same x' y' \<Longrightarrow> length x' + length y' < length x + length y \<Longrightarrow>
      \<exists>r. I_mul_karatsuba same x' y' = Some r \<and> mul_ok same x' y' r"
    and pre: "mul_pre same x y" and long: "16 \<le> length y"
  shows "\<exists>r. I_mul_karatsuba same x y = Some r \<and> mul_ok same x y r"
proof -
  define m where "m = (length x + 1) div 2"
  have nx: "I_is_normalized x" "I_is_normalized y" "length y \<le> length x" "same \<Longrightarrow> x = y"
    using pre by (simp_all add: mul_pre_def)
  have m: "length x \<le> 2 * m" "m < length x" "2 * m \<le> length x + 1" "2 * m < length x + length y"
    unfolding m_def using long nx(3) by linarith+
  define a b where "a = trim (take m x)" and "b = drop m x"
  obtain c d where cd: "kara_split m y = (c, d)" by force
  have ab: "kara_split m x = (a, b)" using m(2) by (simp add: kara_split_def a_def b_def)
  have "1 < length x" "1 < length y" "length y \<le> 2 * m" using long nx(3) m(1) by linarith+
  note A = kara_split_val [OF ab nx(1) \<open>1 < length x\<close> m(1)]
    and C = kara_split_val [OF cd nx(2) \<open>1 < length y\<close> \<open>length y \<le> 2 * m\<close>]
  have same: "same \<Longrightarrow> a = c \<and> b = d" using nx(4) ab cd by simp
  have "length a + length c < length x + length y" "length b + length d < length x + length y"
    using A C m(4) by linarith+
  note op = kara_op [where same = same and n = "length x + length y", OF IH]
  obtain z0 where z0: "(if length a \<ge> length c then I_mul_karatsuba same a c else I_mul_karatsuba same c a) = Some z0"
    "dval z0 = dval a * dval c" "z0 \<noteq> []" "length z0 \<le> length a + length c"
    by (rule op [OF _ _ A(2) C(2) A(4) C(4) \<open>length a + length c < _\<close>]) (use same in auto)
  obtain z2 where z2: "(if length y \<le> m then Some [0] else if length b \<ge> length d then I_mul_karatsuba same b d
      else I_mul_karatsuba same d b) = Some z2" "dval z2 = dval b * dval d" "z2 \<noteq> []"
  proof (cases "length y \<le> m")
    case True
    then show ?thesis using that [of "[0]"] C(8) by simp
  next
    case False
    show ?thesis
      by (rule op [OF _ _ A(3) C(3) A(5) C(5) \<open>length b + length d < _\<close>]) (use same False that in auto)
  qed
  obtain neg u v where uv: "kara_diffs same (length y \<le> m) a b c d = Some (neg, u, v)"
    "(if neg then - int (dval u * dval v) else int (dval u * dval v))
       = (int (dval a) - int (dval b)) * (int (dval d) - int (dval c))"
    "I_is_normalized u" "I_is_normalized v" "u \<noteq> []" "v \<noteq> []" "length u \<le> m" "length v \<le> m" "same \<Longrightarrow> u = v"
    using kara_diffs_val [OF A(2,3) C(2,3) A(4,5) C(4,5) A(6,7) C(6,7) same C(8)] by blast
  have "length u + length v < length x + length y" using uv(7,8) m(4) by linarith
  then obtain tmp where tmp: "(if length u \<ge> length v then I_mul_karatsuba same u v else I_mul_karatsuba same v u) = Some tmp"
    "dval tmp = dval u * dval v" "tmp \<noteq> []"
    using op [OF _ _ uv(3,4,5,6)] uv(9) by blast
  note id = kara_identity(1) [OF uv(2)] kara_identity(2) [OF uv(2), where M = "2 ^ (64 * m)"]
  obtain r where r: "kara_combine m z0 (trim z2) neg (trim tmp) = Some r" "I_is_normalized r" "r \<noteq> []"
    "dval r = dval z0 + 2 ^ (64 * m) * (dval a * dval d + dval b * dval c) + 2 ^ (128 * m) * dval (trim z2)"
  proof (rule kara_combine_val)
    show "length z0 \<le> 2 * m" using z0(4) A(6) C(6) by linarith
    show "int (dval a * dval d + dval b * dval c) = int (dval z0) + int (dval (trim z2))
        + (if neg then - int (dval (trim tmp)) else int (dval (trim tmp)))"
      using id(1) z0(2) z2(2) tmp(2) by simp
  qed (use z0 z2 tmp trim_norm in auto)
  have "(2 :: nat) ^ (128 * m) = 2 ^ (64 * m) * 2 ^ (64 * m)" by (simp flip: power_add)
  then have v: "dval r = dval x * dval y" unfolding A(1) C(1) id(2) using r(4) z0(2) z2(2) by simp
  have "I_mul_karatsuba same x y = Some r"
    unfolding I_mul_karatsuba.simps [of same x y] Let_def m_def [symmetric] a_def [symmetric]
      b_def [symmetric] cd fst_conv snd_conv z0(1) z2(1) uv(1)
    using long tmp(1) r(1) by simp
  moreover have "length r \<le> length x + length y"
  proof (rule normalized_length [OF r(2)])
    have "dval x * dval y < 2 ^ (64 * length x) * 2 ^ (64 * length y)"
      using dval_bound [of x] dval_bound [of y] by (intro mult_strict_mono) simp_all
    then show "dval r < 2 ^ (64 * (length x + length y))" unfolding v by (simp add: distrib_left power_add)
  qed (use long in auto)
  moreover have "normal r" if "normal x" "normal y"
    using normalized_normal [OF r(2,3)] v normal_pos [OF that(1)] normal_pos [OF that(2)] by simp
  ultimately show ?thesis using v r(3) by (auto simp: mul_ok_def)
qed

lemma I_mul_karatsuba_val:
  "mul_pre same x y \<Longrightarrow> \<exists>r. I_mul_karatsuba same x y = Some r \<and> mul_ok same x y r"
proof (induction "length x + length y" arbitrary: x y rule: less_induct)
  case less
  show ?case
  proof (cases "length y < 16")
    case True
    then show ?thesis by (rule kara_base [OF less.prems])
  next
    case False
    then show ?thesis using kara_step [OF less.hyps less.prems] by auto
  qed
qed

end
