(* ===== verification/BigBits.thy ===== *)
theory BigBits
  imports BigThms
begin

text \<open>
  Bitwise operations and shifts of bignums (\<^verbatim>\<open>I_btrail\<close> to \<^verbatim>\<open>I_lg\<close> of \<^verbatim>\<open>big.c\<close>). A number is given by
  the digits of its absolute value and its sign; the bitwise operations act on the two's complement of
  unbounded width, so that their result is that of the operations of \<open>int\<close>.
\<close>

unbundle bit_operations_syntax

subsection \<open>The end of a bitwise operation\<close>

text \<open>\<open>do r--; while ((d = *r) == D_MASK && r != r0)\<close> on the digits from the last one on.\<close>

fun strip_ones :: "digit list \<Rightarrow> digit list" where
  "strip_ones (d # e # ds) = (if d = D_MASK then strip_ones (e # ds) else d # e # ds)"
| "strip_ones ds = ds"

text \<open>The loop for the leading ones of the last digit; its result is \<open>prev_mask\<close>.\<close>

partial_function (option) mask_loop :: "digit \<Rightarrow> digit \<Rightarrow> digit \<Rightarrow> digit option" where
  "mask_loop d prev_mask msk =
     (if d AND msk = msk then mask_loop d msk (drop_bit 1 msk OR push_bit (D_EXP - 1) 1)
      else Some prev_mask)"

declare mask_loop.simps [code]

definition high_digit :: "digit \<Rightarrow> digit option" where
  "high_digit d =
     (if d = D_MASK then Some 0
      else map_option (\<lambda>prev_mask. NOT d AND NOT prev_mask) (mask_loop d 0 (push_bit (D_EXP - 1) 1)))"

text \<open>\<open>None\<close>: there is no digit, or the loop does not end.\<close>

definition I_btrail :: "digit list \<Rightarrow> bool \<Rightarrow> digit list option" where
  "I_btrail r sign =
     (if r = [] then None
      else if sign then
        (let ds = strip_ones (rev r)
         in map_option (\<lambda>h. D_add (map NOT (rev (tl ds)) @ [h]) 1) (high_digit (hd ds)))
      else Some (trim r))"

subsection \<open>Bitwise operations\<close>

text \<open>
  The loops of \<open>I_band\<close>, \<open>I_bor\<close> and \<open>I_bxor\<close> differ in the operation \<open>f\<close> on digits: both numbers
  positive, one or both negative. The digits of a negative number are those of \<open>NOT (y - 1)\<close>, with the
  borrow \<open>b\<close>; the first digit is computed before the loop with \<open>DSUB(*y, 1, b, c)\<close>.
\<close>

fun bits_pp :: "(digit \<Rightarrow> digit \<Rightarrow> digit) \<Rightarrow> digit list \<Rightarrow> digit list \<Rightarrow> digit list" where
  "bits_pp f (x # xs) (y # ys) = f x y # bits_pp f xs ys"
| "bits_pp f _ _ = []"

fun bits_pn :: "(digit \<Rightarrow> digit \<Rightarrow> digit) \<Rightarrow> digit list \<Rightarrow> digit list \<Rightarrow> digit \<Rightarrow> digit list" where
  "bits_pn f (x # xs) (y # ys) b = (let (c, b) = DSUBb y 0 b in f x (NOT c) # bits_pn f xs ys b)"
| "bits_pn f _ _ b = []"

text \<open>Also the borrow, which the loop over the rest of \<open>x\<close> goes on with.\<close>

fun bits_np ::
    "(digit \<Rightarrow> digit \<Rightarrow> digit) \<Rightarrow> digit list \<Rightarrow> digit list \<Rightarrow> digit \<Rightarrow> digit list \<times> digit" where
  "bits_np f (x # xs) (y # ys) b =
     (let (c, b) = DSUBb x 0 b; (r, b) = bits_np f xs ys b in (f (NOT c) y # r, b))"
| "bits_np f _ _ b = ([], b)"

fun bits_nn ::
    "(digit \<Rightarrow> digit \<Rightarrow> digit) \<Rightarrow> digit list \<Rightarrow> digit list \<Rightarrow> digit \<Rightarrow> digit \<Rightarrow> digit list \<times> digit"
  where
  "bits_nn f (x # xs) (y # ys) b1 b2 =
     (let (c1, b1) = DSUBb x 0 b1; (c2, b2) = DSUBb y 0 b2; (r, b1) = bits_nn f xs ys b1 b2
      in (f (NOT c1) (NOT c2) # r, b1))"
| "bits_nn f _ _ b1 b2 = ([], b1)"

text \<open>The loop over the rest of \<open>x\<close>: the digits of \<open>x - 1\<close>.\<close>

fun bits_rest :: "digit list \<Rightarrow> digit \<Rightarrow> digit list" where
  "bits_rest (x # xs) b = (let (c, b) = DSUBb x 0 b in c # bits_rest xs b)"
| "bits_rest [] b = []"

definition bits_pn0 :: "(digit \<Rightarrow> digit \<Rightarrow> digit) \<Rightarrow> digit list \<Rightarrow> digit list \<Rightarrow> digit list" where
  "bits_pn0 f x y =
     (let (c, b) = DSUB (hd y) 1 in f (hd x) (NOT c) # bits_pn f (tl x) (tl y) b)"

definition bits_np0 :: "(digit \<Rightarrow> digit \<Rightarrow> digit) \<Rightarrow> digit list \<Rightarrow> digit list \<Rightarrow> digit list \<times> digit" where
  "bits_np0 f x y =
     (let (c, b) = DSUB (hd x) 1; (r, b) = bits_np f (tl x) (tl y) b in (f (NOT c) (hd y) # r, b))"

definition bits_nn0 :: "(digit \<Rightarrow> digit \<Rightarrow> digit) \<Rightarrow> digit list \<Rightarrow> digit list \<Rightarrow> digit list \<times> digit" where
  "bits_nn0 f x y =
     (let (c1, b1) = DSUB (hd x) 1; (c2, b2) = DSUB (hd y) 1;
          (r, b1) = bits_nn f (tl x) (tl y) b1 b2
      in (f (NOT c1) (NOT c2) # r, b1))"

text \<open>\<open>None\<close>: \<open>x\<close> is shorter than \<open>y\<close> or \<open>y\<close> has no digit.\<close>

definition I_band :: "digit list \<Rightarrow> bool \<Rightarrow> digit list \<Rightarrow> bool \<Rightarrow> digit list option" where
  "I_band x xsgn y ysgn =
     (let rest = drop (length y) x in
      if y = [] \<or> length x < length y then None
      else if \<not> xsgn then
        if \<not> ysgn then I_btrail (bits_pp (AND) x y) (xsgn \<and> ysgn)
        else I_btrail (bits_pn0 (AND) x y @ rest) (xsgn \<and> ysgn)
      else
        if \<not> ysgn then I_btrail (fst (bits_np0 (AND) x y)) (xsgn \<and> ysgn)
        else (let (r, b1) = bits_nn0 (AND) x y in I_btrail (r @ map NOT (bits_rest rest b1)) (xsgn \<and> ysgn)))"

definition I_bor :: "digit list \<Rightarrow> bool \<Rightarrow> digit list \<Rightarrow> bool \<Rightarrow> digit list option" where
  "I_bor x xsgn y ysgn =
     (let rest = drop (length y) x in
      if y = [] \<or> length x < length y then None
      else if \<not> xsgn then
        if \<not> ysgn then I_btrail (bits_pp (OR) x y @ rest) (xsgn \<or> ysgn)
        else I_btrail (bits_pn0 (OR) x y) (xsgn \<or> ysgn)
      else
        if \<not> ysgn then (let (r, b) = bits_np0 (OR) x y in I_btrail (r @ map NOT (bits_rest rest b)) (xsgn \<or> ysgn))
        else I_btrail (fst (bits_nn0 (OR) x y)) (xsgn \<or> ysgn))"

definition I_bxor :: "digit list \<Rightarrow> bool \<Rightarrow> digit list \<Rightarrow> bool \<Rightarrow> digit list option" where
  "I_bxor x xsgn y ysgn =
     (let rest = drop (length y) x in
      if y = [] \<or> length x < length y then None
      else if \<not> xsgn then
        if \<not> ysgn then I_btrail (bits_pp (XOR) x y @ rest) (xsgn \<noteq> ysgn)
        else I_btrail (bits_pn0 (XOR) x y @ map NOT rest) (xsgn \<noteq> ysgn)
      else
        if \<not> ysgn then (let (r, b) = bits_np0 (XOR) x y in I_btrail (r @ map NOT (bits_rest rest b)) (xsgn \<noteq> ysgn))
        else (let (r, b1) = bits_nn0 (XOR) x y in I_btrail (r @ bits_rest rest b1) (xsgn \<noteq> ysgn)))"

text \<open>The callers pass the sign of the result, the opposite of that of \<open>x\<close>.\<close>

definition I_bnot :: "digit list \<Rightarrow> bool \<Rightarrow> digit list option" where
  "I_bnot x xsgn = (if xsgn then Some (D_add x 1) else D_sub x 1)"

subsection \<open>Shifts\<close>

fun shl_loop :: "nat \<Rightarrow> digit list \<Rightarrow> digit \<Rightarrow> digit list \<times> digit" where
  "shl_loop sw (x # xs) a1 =
     (let a0 = push_bit sw x OR a1; a1 = drop_bit (D_EXP - sw) x; (r, a1) = shl_loop sw xs a1
      in (a0 # r, a1))"
| "shl_loop sw [] a1 = ([], a1)"

text \<open>From the most significant digit on.\<close>

fun shr_loop :: "nat \<Rightarrow> digit list \<Rightarrow> digit \<Rightarrow> digit list \<times> digit" where
  "shr_loop sw (x # xs) a0 =
     (let a1 = drop_bit sw x OR a0; a0 = push_bit (D_EXP - sw) x; (r, a0) = shr_loop sw xs a0
      in (a1 # r, a0))"
| "shr_loop sw [] a0 = ([], a0)"

fun nonzero_loop :: "digit list \<Rightarrow> bool" where
  "nonzero_loop (z # zs) = (if z \<noteq> 0 then True else nonzero_loop zs)"
| "nonzero_loop [] = False"

definition shift_left :: "digit list \<Rightarrow> nat \<Rightarrow> nat \<Rightarrow> digit list" where
  "shift_left x bw sw =
     (let (r, a1) = (if sw \<noteq> 0 then shl_loop sw x 0 else (x, 0))
      in replicate bw 0 @ r @ (if a1 = 0 then [] else [a1]))"

definition shift_right :: "digit list \<Rightarrow> nat \<Rightarrow> nat \<Rightarrow> bool \<Rightarrow> digit list" where
  "shift_right x bw sw sign =
     (if length x \<le> bw then (if sign then [1] else [0])
      else
        (let add_one = (sign \<and> nonzero_loop (take bw x));
             (r, a0) = (if sw \<noteq> 0 then shr_loop sw (rev (drop bw x)) 0 else (rev (drop bw x), 0));
             add_one = (if sign \<and> a0 \<noteq> 0 then True else add_one)
         in if hd r = 0 \<and> tl r = [] then (if sign then [1] else r)
            else
              (let r = rev (if hd r = 0 then tl r else r)
               in if add_one then D_add r 1 else r)))"

definition I_lshift :: "digit list \<Rightarrow> int \<Rightarrow> bool \<Rightarrow> digit list" where
  "I_lshift x y sign =
     (if y = 0 then x
      else if length x = 1 \<and> hd x = 0 then [0]
      else
        (let ay = nat (if y < 0 then - y else y); bw = ay div D_EXP; sw = ay mod D_EXP
         in if y > 0 then shift_left x bw sw else shift_right x bw sw sign))"

subsection \<open>Logarithm\<close>

function lg_loop :: "digit \<Rightarrow> nat \<Rightarrow> nat" where
  "lg_loop d sz = (if d \<noteq> 0 then lg_loop (drop_bit 1 d) (sz + 1) else sz)"
  by auto
termination
proof (relation "measure (\<lambda>(d, sz). unat d)")
  fix d :: digit and sz :: nat
  assume "d \<noteq> 0"
  then have "0 < unat d" by (simp add: unat_gt_0)
  moreover have "unat (drop_bit 1 d) = unat d div 2" by (simp add: drop_bit_eq_div unat_div)
  ultimately show "((drop_bit 1 d, sz + 1), (d, sz)) \<in> measure (\<lambda>(d, sz). unat d)" by simp
qed simp

declare lg_loop.simps [simp del]

definition I_lg :: "digit list \<Rightarrow> nat option" where
  "I_lg x = (if x = [] then None else Some (lg_loop (last x) ((length x - 1) * D_EXP) - 1))"

subsection \<open>Two's complement\<close>

text \<open>The number of digits that go on with ones (\<open>s\<close>) or with zeros.\<close>

fun tval :: "bool \<Rightarrow> digit list \<Rightarrow> int" where
  "tval s [] = (if s then -1 else 0)"
| "tval s (d # ds) = uint d + 2 ^ 64 * tval s ds"

text \<open>The number of a sign and the digits of the absolute value.\<close>

definition sval :: "bool \<Rightarrow> digit list \<Rightarrow> int" where
  "sval neg ds = (if neg then - int (dval ds) else int (dval ds))"

lemma tval_False: "tval False ds = int (dval ds)"
  by (induction ds) simp_all

lemma tval_append: "tval s (xs @ ys) = int (dval xs) + 2 ^ (64 * length xs) * tval s ys"
  by (induction xs) (simp_all add: power_add algebra_simps)

lemma tval_split:
  "n \<le> length xs \<Longrightarrow> tval s xs = int (dval (take n xs)) + 2 ^ (64 * n) * tval s (drop n xs)"
  using tval_append [of s "take n xs" "drop n xs"] by (simp add: min_absorb2)

lemma uint_NOT: "uint (NOT d :: digit) = 2 ^ 64 - 1 - uint d"
proof -
  have ones: "unat (- 1 :: digit) = 2 ^ 64 - 1"
    by (simp add: unsigned_minus_1_eq_mask mask_eq_exp_minus_1)
  have "NOT d = - 1 - d" by (simp add: not_eq_complement)
  then have "unat (NOT d) + unat d = 2 ^ 64 - 1" using borrow_val [of "-1" d] ones by simp
  then have "unat (NOT d) + unat d = 18446744073709551615" by simp
  then have "int (unat (NOT d)) + int (unat d) = 18446744073709551615" by linarith
  then show ?thesis by simp
qed

lemma tval_NOT: "tval (\<not> s) (map NOT ds) = NOT (tval s ds)"
  by (induction ds) (simp_all add: uint_NOT not_int_def)

lemma bits_rest_borrow: "bits_rest xs b = fst (borrow_loop xs b)"
proof (induction xs arbitrary: b)
  case (Cons x xs)
  have "DSUBb x 0 b = (x - b, of_bool (x - b > x))" by (simp add: DSUBb_def)
  then show ?case using Cons.IH by (simp add: Let_def split: prod.splits)
qed simp

text \<open>The digits of \<open>x - 1\<close> and those of the two's complement.\<close>

definition dec :: "digit list \<Rightarrow> digit list" where
  "dec x = bits_rest x 1"

definition twos :: "bool \<Rightarrow> digit list \<Rightarrow> digit list" where
  "twos s x = (if s then map NOT (dec x) else x)"

lemma length_bits_rest [simp]: "length (bits_rest xs b) = length xs"
  using borrow_loop_val [of xs b "fst (borrow_loop xs b)" "snd (borrow_loop xs b)"]
  by (simp add: bits_rest_borrow)

lemma length_twos [simp]: "length (twos s x) = length x"
  by (simp add: twos_def dec_def)

lemma twos_val:
  assumes "s \<longrightarrow> 0 < dval x"
  shows "tval s (twos s x) = sval s x"
proof (cases s)
  case True
  obtain r b where r: "borrow_loop x 1 = (r, b)" by force
  have v: "dval r + 1 = dval x + 2 ^ (64 * length x) * unat b" "length r = length x"
    using borrow_loop_val [OF r] by simp_all
  have "dval r < 2 ^ (64 * length x)" using dval_bound [of r] v(2) by simp
  then have "dval r = dval x - 1" using no_borrow [OF v(1)] assms True by simp
  then have "dval (dec x) = dval x - 1" by (simp add: dec_def bits_rest_borrow r)
  then show ?thesis
    using tval_NOT [of False "dec x"] assms True by (simp add: twos_def sval_def tval_False not_int_def)
qed (simp add: twos_def sval_def tval_False)

text \<open>The loops in terms of the digits of the two's complement.\<close>

lemma DSUB_DSUBb: "DSUB x 1 = DSUBb x 0 1"
  by (simp add: DSUB_def DSUBb_def)

lemma bits_pn_pp: "bits_pn f xs ys b = bits_pp f xs (map NOT (bits_rest ys b))"
  by (induction f xs ys b rule: bits_pn.induct) (auto split: prod.splits)

lemma bits_np_pp:
  "bits_np f xs ys b = (r, b') \<Longrightarrow> length ys \<le> length xs \<Longrightarrow>
     r = bits_pp f (map NOT (bits_rest xs b)) ys
     \<and> bits_rest (drop (length ys) xs) b' = drop (length ys) (bits_rest xs b)"
  by (induction f xs ys b arbitrary: r rule: bits_np.induct) (fastforce split: prod.splits)+

lemma bits_nn_pp:
  "bits_nn f xs ys b1 b2 = (r, b') \<Longrightarrow> length ys \<le> length xs \<Longrightarrow>
     r = bits_pp f (map NOT (bits_rest xs b1)) (map NOT (bits_rest ys b2))
     \<and> bits_rest (drop (length ys) xs) b' = drop (length ys) (bits_rest xs b1)"
  by (induction f xs ys b1 b2 arbitrary: r rule: bits_nn.induct) (fastforce split: prod.splits)+

lemma bits_pn0_pp:
  assumes "y \<noteq> []" "length y \<le> length x"
  shows "bits_pn0 f x y = bits_pp f (twos False x) (twos True y)"
  using assms by (cases x; cases y)
    (auto simp: bits_pn0_def DSUB_DSUBb twos_def dec_def bits_pn_pp split: prod.splits)

lemma bits_np0_pp:
  assumes "y \<noteq> []" "length y \<le> length x" "bits_np0 f x y = (r, b)"
  shows "r = bits_pp f (twos True x) (twos False y)"
    "map NOT (bits_rest (drop (length y) x) b) = drop (length y) (twos True x)"
proof -
  obtain x1 xs y1 ys where x: "x = x1 # xs" "y = y1 # ys" using assms(1,2) by (cases x; cases y) auto
  obtain c b1 where c: "DSUBb x1 0 1 = (c, b1)" by force
  obtain r1 where r: "bits_np f xs ys b1 = (r1, b)" "r = f (NOT c) y1 # r1"
    using assms(3) x c by (auto simp: bits_np0_def DSUB_DSUBb split: prod.splits)
  show "r = bits_pp f (twos True x) (twos False y)"
    "map NOT (bits_rest (drop (length y) x) b) = drop (length y) (twos True x)"
    using bits_np_pp [OF r(1)] assms(2) x c r(2) by (simp_all add: twos_def dec_def drop_map)
qed

lemma bits_nn0_pp:
  assumes "y \<noteq> []" "length y \<le> length x" "bits_nn0 f x y = (r, b)"
  shows "r = bits_pp f (twos True x) (twos True y)"
    "map NOT (bits_rest (drop (length y) x) b) = drop (length y) (twos True x)"
proof -
  obtain x1 xs y1 ys where x: "x = x1 # xs" "y = y1 # ys" using assms(1,2) by (cases x; cases y) auto
  obtain c1 b1 where c1: "DSUBb x1 0 1 = (c1, b1)" by force
  obtain c2 b2 where c2: "DSUBb y1 0 1 = (c2, b2)" by force
  obtain r1 where r: "bits_nn f xs ys b1 b2 = (r1, b)" "r = f (NOT c1) (NOT c2) # r1"
    using assms(3) x c1 c2 by (auto simp: bits_nn0_def DSUB_DSUBb split: prod.splits)
  show "r = bits_pp f (twos True x) (twos True y)"
    "map NOT (bits_rest (drop (length y) x) b) = drop (length y) (twos True x)"
    using bits_nn_pp [OF r(1)] assms(2) x c1 c2 r(2) by (simp_all add: twos_def dec_def drop_map)
qed

subsection \<open>Operations digit by digit\<close>

text \<open>An operation on \<open>int\<close> that acts on the lowest digit and on the rest separately.\<close>

lemma length_bits_pp: "length (bits_pp f xs ys) = min (length xs) (length ys)"
  by (induction f xs ys rule: bits_pp.induct) auto

locale digitwise =
  fixes f :: "digit \<Rightarrow> digit \<Rightarrow> digit" and F :: "int \<Rightarrow> int \<Rightarrow> int"
  assumes join: "F (uint a + 2 ^ 64 * A) (uint b + 2 ^ 64 * B) = uint (f a b) + 2 ^ 64 * F A B"
begin

lemma pp_val:
  "length ys \<le> length xs \<Longrightarrow>
     F (tval s xs) (tval t ys)
     = int (dval (bits_pp f xs ys)) + 2 ^ (64 * length ys) * F (tval s (drop (length ys) xs)) (tval t [])"
proof (induction ys arbitrary: xs)
  case (Cons y ys)
  obtain x xs' where x: "xs = x # xs'" "length ys \<le> length xs'" using Cons.prems by (cases xs) auto
  have "F (tval s xs) (tval t (y # ys)) = uint (f x y) + 2 ^ 64 * F (tval s xs') (tval t ys)"
    using join by (simp add: x(1))
  then show ?case unfolding Cons.IH [OF x(2)] by (simp add: x(1) power_add algebra_simps)
qed simp

end

lemma uint_digit: "uint (d :: digit) < 2 ^ 64"
  using unat_digit [of d] by (metis of_nat_less_numeral_power_cancel_iff uint_nat)

lemma digit_concat: "uint (a :: digit) + 2 ^ 64 * A = concat_bit 64 (uint a) A"
proof -
  have "take_bit 64 (uint a) = uint a"
    using unat_digit [of a] by (intro take_bit_int_eq_self) (simp_all only: uint_digit uint_ge_0)
  then show ?thesis by (simp add: concat_bit_eq push_bit_eq_mult)
qed

interpretation band: digitwise "(AND)" "(AND)"
proof
  fix a b :: digit and A B :: int
  show "(uint a + 2 ^ 64 * A) AND (uint b + 2 ^ 64 * B) = uint (a AND b) + 2 ^ 64 * (A AND B)"
    unfolding digit_concat by (rule bit_eqI) (auto simp: bit_concat_bit_iff bit_and_iff bit_uint_iff)
qed

interpretation bor: digitwise "(OR)" "(OR)"
proof
  fix a b :: digit and A B :: int
  show "(uint a + 2 ^ 64 * A) OR (uint b + 2 ^ 64 * B) = uint (a OR b) + 2 ^ 64 * (A OR B)"
    unfolding digit_concat by (rule bit_eqI) (auto simp: bit_concat_bit_iff bit_or_iff bit_uint_iff)
qed

interpretation bxor: digitwise "(XOR)" "(XOR)"
proof
  fix a b :: digit and A B :: int
  show "(uint a + 2 ^ 64 * A) XOR (uint b + 2 ^ 64 * B) = uint (a XOR b) + 2 ^ 64 * (A XOR B)"
    unfolding digit_concat by (rule bit_eqI) (auto simp: bit_concat_bit_iff bit_xor_iff bit_uint_iff)
qed

lemma pp_twos:
  assumes "digitwise f F" "xs \<longrightarrow> 0 < dval x" "ys \<longrightarrow> 0 < dval y" "length y \<le> length x"
  shows "F (sval xs x) (sval ys y)
     = int (dval (bits_pp f (twos xs x) (twos ys y)))
       + 2 ^ (64 * length y) * F (tval xs (drop (length y) (twos xs x))) (tval ys [])"
  using digitwise.pp_val [OF assms(1), of "twos ys y" "twos xs x" xs ys] assms(2-4)
  by (simp only: twos_val length_twos)

subsection \<open>The end of a bitwise operation\<close>

lemma tval_ones: "tval True (ds @ [D_MASK]) = tval True ds"
proof -
  have "uint (- 1 :: digit) = 2 ^ 64 - 1"
    using uint_NOT [of 0] by simp
  then show ?thesis using tval_append [of True ds "[]"] by (simp add: tval_append D_MASK_def)
qed

lemma strip_ones_val: "tval True (rev (strip_ones ds)) = tval True (rev ds)"
  by (induction ds rule: strip_ones.induct) 
    (auto simp: tval_ones tval_ones [of "_ @ [_]", simplified append_assoc append.simps])

lemma strip_ones_cases:
  "ds \<noteq> [] \<Longrightarrow> \<exists>d es. strip_ones ds = d # es \<and> (d = D_MASK \<longrightarrow> es = [])"
  by (induction ds rule: strip_ones.induct) auto

text \<open>The loop over the leading ones ends before the digit does.\<close>

lemma bit_top: "bit (9223372036854775808 :: int) n \<longleftrightarrow> n = 63"
proof -
  have "(9223372036854775808 :: int) = push_bit 63 1" by simp
  then show ?thesis by (auto simp only: bit_push_bit_iff bit_1_iff) auto
qed

lemma mask_step: "k < 64 \<Longrightarrow> drop_bit 1 (NOT (mask (64 - k)) :: digit) OR push_bit 63 1 = NOT (mask (63 - k))"
  by (rule bit_word_eqI)
    (auto simp: bit_or_iff bit_drop_bit_eq bit_not_iff bit_mask_iff bit_top)

lemma mask_loop_returns:
  assumes "d \<noteq> -1" "k \<le> 63" "d AND prev = prev"
  shows "\<exists>p. mask_loop d prev (NOT (mask (63 - k))) = Some p \<and> d AND p = p"
  using assms(2,3)
proof (induction "63 - k" arbitrary: k prev)
  case 0
  then have "mask_loop d prev (NOT (mask (63 - k))) = Some prev"
    using assms(1) by (subst mask_loop.simps) simp
  then show ?case using 0 by blast
next
  case (Suc n)
  let ?m = "NOT (mask (63 - k)) :: digit"
  show ?case
  proof (cases "d AND ?m = ?m")
    case True
    have "drop_bit 1 ?m OR push_bit 63 1 = NOT (mask (63 - Suc k))"
      using mask_step [of "Suc k"] Suc.hyps(2) by simp
    then have "mask_loop d prev ?m = mask_loop d ?m (NOT (mask (63 - Suc k)))"
      using True by (subst mask_loop.simps) (simp add: D_EXP_def)
    moreover have "\<exists>p. mask_loop d ?m (NOT (mask (63 - Suc k))) = Some p \<and> d AND p = p"
      using Suc.hyps True by (intro Suc.hyps(1)) simp_all
    ultimately show ?thesis by simp
  next
    case False
    then have "mask_loop d prev ?m = Some prev" by (subst mask_loop.simps) simp
    then show ?thesis using Suc.prems by blast
  qed
qed

lemma high_digit_val: "high_digit d = Some (NOT d)"
proof (cases "d = -1")
  case False
  have "(push_bit 63 1 :: digit) = NOT (mask 63)"
    by (rule bit_word_eqI) (auto simp: bit_top bit_not_iff bit_mask_iff)
  then obtain p where p: "mask_loop d 0 (push_bit 63 1) = Some p" "d AND p = p"
    using mask_loop_returns [OF False, of 0 0] by auto
  have "NOT d AND NOT p = NOT (d OR p)" by simp
  also have "d OR (d AND p) = d" by (rule bit_eqI) (auto simp: bit_or_iff bit_and_iff)
  then have "d OR p = d" unfolding p(2) .
  finally show ?thesis using p(1) False by (simp add: high_digit_def D_EXP_def D_MASK_def)
qed (simp add: high_digit_def D_MASK_def)

lemma D_add_length: "length (D_add x c) = length x + of_bool (snd (carry_loop x c) \<noteq> 0)"
proof -
  obtain r d where r: "carry_loop x c = (r, d)" by force
  show ?thesis using carry_loop_val [OF r] r by (simp add: D_add_def)
qed

lemma D_add_normal:
  assumes "normal x"
  shows "normal (D_add x c)"
proof (cases "snd (carry_loop x c) = 0")
  case True
  then have "length (D_add x c) = length x" using D_add_length [of x c] by simp
  moreover have "dval x \<le> dval (D_add x c)" using D_add_val [of c x] assms by (simp add: normal_def)
  ultimately show ?thesis using assms by (auto simp: normal_iff intro: le_trans)
next
  case False
  then show ?thesis by (simp add: D_add_def normal_def case_prod_beta)
qed

lemma I_btrail_val:
  assumes "r \<noteq> []"
  obtains v where "I_btrail r sign = Some v" "sval sign v = tval sign r" "v \<noteq> []" "I_is_normalized v"
    "sign \<Longrightarrow> normal v" "length v \<le> length r + of_bool sign"
proof (cases sign)
  case False
  then show ?thesis
    using that [of "trim r"] assms length_trim [of r]
    by (simp add: I_btrail_def sval_def tval_False trim_norm)
next
  case True
  define ds where "ds = strip_ones (rev r)"
  obtain d es where ds: "ds = d # es" "d = D_MASK \<longrightarrow> es = []"
    using strip_ones_cases [of "rev r"] assms unfolding ds_def by auto
  let ?x = "map NOT (rev ds)"
  have x: "?x = map NOT (rev (tl ds)) @ [NOT d]" by (simp add: ds)
  have "tval False ?x = NOT (tval True (rev ds))" using tval_NOT [of True "rev ds"] by simp
  also have "tval True (rev ds) = tval True r" using strip_ones_val [of "rev r"] by (simp add: ds_def)
  finally have v: "int (dval ?x) = - tval True r - 1" by (simp add: tval_False not_int_def)
  have n: "normal (D_add ?x 1)"
  proof (cases "d = D_MASK")
    case True
    then show ?thesis using ds by (simp add: D_MASK_def D_add_def normal_def)
  next
    case False
    then have "NOT d \<noteq> 0" by (metis D_MASK_def bit.compl_zero bit.double_compl)
    then show ?thesis by (intro D_add_normal) (simp add: x normal_def)
  qed
  have len: "length (D_add ?x 1) \<le> length r + 1"
  proof -
    have "length (strip_ones zs) \<le> length zs" for zs
      by (induction zs rule: strip_ones.induct) auto
    then have "length ?x \<le> length r" using ds_def by (metis length_map length_rev)
    then show ?thesis using D_add_length [of ?x 1] by simp
  qed
  have "I_btrail r sign = Some (D_add ?x 1)"
    using assms True ds by (simp add: I_btrail_def ds_def [symmetric] high_digit_val)
  moreover have "dval (D_add ?x 1) = dval ?x + 1" using D_add_val(1) [of 1 ?x] by simp
  ultimately show ?thesis
    using that [of "D_add ?x 1"] v n len True normal_normalized [OF n]
    by (simp add: sval_def normal_def)
qed

subsection \<open>The bitwise operations\<close>

text \<open>What the three operations share: a vector for the result and its sign.\<close>

definition computes :: "digit list option \<Rightarrow> bool \<Rightarrow> int \<Rightarrow> nat \<Rightarrow> bool" where
  "computes res sign v n \<longleftrightarrow>
     (\<exists>r. res = Some r \<and> sval sign r = v \<and> r \<noteq> [] \<and> I_is_normalized r \<and> length r \<le> n)"

lemma btrail_computes:
  assumes "r \<noteq> []" "tval sign r = v" "length r < n"
  shows "computes (I_btrail r sign) sign v n"
proof -
  obtain u where "I_btrail r sign = Some u" "sval sign u = tval sign r" "u \<noteq> []" "I_is_normalized u"
    "length u \<le> length r + of_bool sign" by (rule I_btrail_val [OF assms(1)])
  moreover have "length u \<le> n" using calculation(5) assms(3) by (cases sign) simp_all
  ultimately show ?thesis using assms(2) by (simp add: computes_def)
qed

lemma extend_computes:
  fixes x y :: "digit list" and F :: "int \<Rightarrow> int \<Rightarrow> int"
  defines "n \<equiv> length y"
  assumes "digitwise f F" "xs \<longrightarrow> 0 < dval x" "ys \<longrightarrow> 0 < dval y" "n \<le> length x" and ne: "y \<noteq> []"
    and e: "tval sign E = F (tval xs (drop n (twos xs x))) (tval ys [])" "length E \<le> length x - n"
  shows "computes (I_btrail (bits_pp f (twos xs x) (twos ys y) @ E) sign) sign
      (F (sval xs x) (sval ys y)) (length x + 1)"
proof (rule btrail_computes)
  let ?P = "bits_pp f (twos xs x) (twos ys y)"
  have len: "length ?P = n" using assms(5) by (simp add: length_bits_pp n_def)
  then show "?P @ E \<noteq> []" "length (?P @ E) < length x + 1"
    using ne assms(5) e(2) by (auto simp: n_def)
  show "tval sign (?P @ E) = F (sval xs x) (sval ys y)"
    unfolding pp_twos [OF assms(2-5) [unfolded n_def]] tval_append e(1) len by (simp add: n_def)
qed

lemma I_band_val:
  assumes "xsgn \<longrightarrow> 0 < dval x" "ysgn \<longrightarrow> 0 < dval y" "length y \<le> length x" and ne: "y \<noteq> []"
  shows "computes (I_band x xsgn y ysgn) (xsgn \<and> ysgn) (sval xsgn x AND sval ysgn y) (length x + 1)"
proof -
  let ?E = "if ysgn then drop (length y) (twos xsgn x) else []"
  obtain r1 b1 r2 b2 where r: "bits_np0 (AND) x y = (r1, b1)" "bits_nn0 (AND) x y = (r2, b2)" by force
  have "I_band x xsgn y ysgn = I_btrail (bits_pp (AND) (twos xsgn x) (twos ysgn y) @ ?E) (xsgn \<and> ysgn)"
    using ne assms(3) r bits_np0_pp [OF ne assms(3) r(1)] bits_nn0_pp [OF ne assms(3) r(2)]
    by (cases xsgn; cases ysgn) (simp_all add: I_band_def bits_pn0_pp twos_def)
  then show ?thesis
    using extend_computes [OF band.digitwise_axioms assms(1-3) ne, of "xsgn \<and> ysgn" ?E] by simp
qed

lemma I_bor_val:
  assumes "xsgn \<longrightarrow> 0 < dval x" "ysgn \<longrightarrow> 0 < dval y" "length y \<le> length x" and ne: "y \<noteq> []"
  shows "computes (I_bor x xsgn y ysgn) (xsgn \<or> ysgn) (sval xsgn x OR sval ysgn y) (length x + 1)"
proof -
  let ?E = "if ysgn then [] else drop (length y) (twos xsgn x)"
  obtain r1 b1 r2 b2 where r: "bits_np0 (OR) x y = (r1, b1)" "bits_nn0 (OR) x y = (r2, b2)" by force
  have "I_bor x xsgn y ysgn = I_btrail (bits_pp (OR) (twos xsgn x) (twos ysgn y) @ ?E) (xsgn \<or> ysgn)"
    using ne assms(3) r bits_np0_pp [OF ne assms(3) r(1)] bits_nn0_pp [OF ne assms(3) r(2)]
    by (cases xsgn; cases ysgn) (simp_all add: I_bor_def bits_pn0_pp twos_def)
  then show ?thesis
    using extend_computes [OF bor.digitwise_axioms assms(1-3) ne, of "xsgn \<or> ysgn" ?E] by simp
qed

lemma I_bxor_val:
  assumes "xsgn \<longrightarrow> 0 < dval x" "ysgn \<longrightarrow> 0 < dval y" "length y \<le> length x" and ne: "y \<noteq> []"
  shows "computes (I_bxor x xsgn y ysgn) (xsgn \<noteq> ysgn) (sval xsgn x XOR sval ysgn y) (length x + 1)"
proof -
  let ?D = "drop (length y) (twos xsgn x)"
  let ?E = "if ysgn then map NOT ?D else ?D"
  obtain r1 b1 r2 b2 where r: "bits_np0 (XOR) x y = (r1, b1)" "bits_nn0 (XOR) x y = (r2, b2)" by force
  have "map NOT (map NOT (bits_rest (drop (length y) x) b2)) = bits_rest (drop (length y) x) b2"
    by (simp add: comp_def)
  then have "I_bxor x xsgn y ysgn = I_btrail (bits_pp (XOR) (twos xsgn x) (twos ysgn y) @ ?E) (xsgn \<noteq> ysgn)"
    using ne assms(3) r bits_np0_pp [OF ne assms(3) r(1)] bits_nn0_pp [OF ne assms(3) r(2)]
    by (cases xsgn; cases ysgn) (simp_all add: I_bxor_def bits_pn0_pp twos_def)
  moreover have "tval (xsgn \<noteq> ysgn) ?E = tval xsgn ?D XOR tval ysgn []"
    using tval_NOT [of xsgn ?D] by (cases xsgn; cases ysgn) simp_all
  ultimately show ?thesis
    using extend_computes [OF bxor.digitwise_axioms assms(1-3) ne, of "xsgn \<noteq> ysgn" ?E] by simp
qed

end
