(* ===== verification/BigShift.thy ===== *)
theory BigShift
  imports BigBits
begin

text \<open>
  The shifts of \<open>BigBits\<close>: \<open>I_lshift\<close> multiplies by a power of two or divides by one, rounding to
  minus infinity, and \<open>I_lg\<close> is the binary logarithm rounded down.
\<close>

subsection \<open>One digit\<close>

lemma or_low:
  assumes "a < 2 ^ n"
  shows "(b * 2 ^ n) OR a = b * 2 ^ n + (a :: nat)"
proof -
  have "(b * 2 ^ n) AND a = 0"
  proof -
    have "a = take_bit n a" using assms by (simp add: take_bit_nat_eq_self)
    then have "(b * 2 ^ n) AND a = push_bit n b AND take_bit n a" by (simp add: push_bit_eq_mult)
    also have "\<dots> = 0" by (rule bit_eqI) (simp add: bit_and_iff bit_push_bit_iff bit_take_bit_iff)
    finally show ?thesis .
  qed
  then show ?thesis using disjunctive_add_eq_or by metis
qed

lemma unat_drop: "unat (drop_bit n (x :: digit)) = unat x div 2 ^ n"
proof -
  have "unat (drop_bit n x) = drop_bit n (take_bit 64 (unat x))" by (simp add: unsigned_drop_bit_eq)
  also have "take_bit 64 (unat x) = unat x" using unat_digit [of x] by (simp only: take_bit_nat_eq_self)
  finally show ?thesis by (simp add: drop_bit_eq_div)
qed

lemma unat_push: "unat (push_bit n (x :: digit)) = unat x * 2 ^ n mod 2 ^ 64"
proof -
  have "unat (push_bit n x) = take_bit 64 (push_bit n (unat x))" by (simp add: unsigned_push_bit_eq)
  then show ?thesis by (simp only: take_bit_eq_mod push_bit_eq_mult)
qed

text \<open>Splitting a digit of 64 bits at bit \<open>64 - sw\<close>.\<close>

lemma push_split:
  assumes "sw \<le> 64"
  shows "unat (push_bit sw (x :: digit)) = (unat x mod 2 ^ (64 - sw)) * 2 ^ sw"
proof -
  have "(2 :: nat) ^ 64 = 2 ^ (64 - sw) * 2 ^ sw" using assms by (simp only: power_add [symmetric] le_add_diff_inverse2)
  then show ?thesis unfolding unat_push by (simp only: mult_mod_left)
qed

lemma shl_digit:
  assumes "0 < sw" "sw < 64" "unat a1 < 2 ^ sw"
  shows "unat (push_bit sw x OR a1) + 2 ^ 64 * unat (drop_bit (64 - sw) (x :: digit))
      = unat x * 2 ^ sw + unat a1" "unat (drop_bit (64 - sw) x) < 2 ^ sw"
proof -
  have p: "(2 :: nat) ^ 64 = 2 ^ (64 - sw) * 2 ^ sw" using assms by (simp only: power_add [symmetric] le_add_diff_inverse2 less_imp_le)
  have "unat (push_bit sw x OR a1) = (unat x mod 2 ^ (64 - sw)) * 2 ^ sw + unat a1"
    using assms or_low [OF assms(3)] by (simp only: unsigned_or_eq push_split less_imp_le)
  moreover have "2 ^ 64 * unat (drop_bit (64 - sw) x) = (unat x div 2 ^ (64 - sw)) * 2 ^ (64 - sw) * 2 ^ sw"
    unfolding unat_drop p by (simp only: mult_ac)
  moreover have "unat x = unat x div 2 ^ (64 - sw) * 2 ^ (64 - sw) + unat x mod 2 ^ (64 - sw)"
    by (rule div_mult_mod_eq [symmetric])
  then have "unat x * 2 ^ sw
      = unat x div 2 ^ (64 - sw) * 2 ^ (64 - sw) * 2 ^ sw + unat x mod 2 ^ (64 - sw) * 2 ^ sw"
    by (simp only: distrib_right [symmetric])
  ultimately show "unat (push_bit sw x OR a1) + 2 ^ 64 * unat (drop_bit (64 - sw) x)
      = unat x * 2 ^ sw + unat a1" by linarith
  show "unat (drop_bit (64 - sw) x) < 2 ^ sw"
    using unat_digit [of x] unfolding unat_drop p by (simp add: less_mult_imp_div_less mult.commute)
qed

lemma shl_loop_val:
  "shl_loop sw x a1 = (r, a') \<Longrightarrow> 0 < sw \<Longrightarrow> sw < 64 \<Longrightarrow> unat a1 < 2 ^ sw \<Longrightarrow>
     dval r + 2 ^ (64 * length x) * unat a' = dval x * 2 ^ sw + unat a1 \<and> length r = length x"
proof (induction sw x a1 arbitrary: r rule: shl_loop.induct)
  case (1 sw x xs a1)
  let ?c = "drop_bit (64 - sw) x"
  obtain r1 where r: "shl_loop sw xs ?c = (r1, a')" "r = (push_bit sw x OR a1) # r1"
    using "1.prems"(1) by (auto simp: D_EXP_def Let_def split: prod.splits)
  note st = shl_digit [OF "1.prems"(2-4), of x]
  have IH: "dval r1 + 2 ^ (64 * length xs) * unat a' = dval xs * 2 ^ sw + unat ?c" "length r1 = length xs"
    using "1.IH" [OF refl _ _ "1.prems"(2,3) st(2)] r(1) by (simp_all add: D_EXP_def)
  have "2 ^ 64 * (dval r1 + 2 ^ (64 * length xs) * unat a') = 2 ^ 64 * (dval xs * 2 ^ sw + unat ?c)"
    using IH(1) by simp
  then show ?case using IH(2) st(1) by (simp add: r(2) power_add distrib_left distrib_right)
qed auto

lemma shift_left_val:
  assumes "normal x" "sw < 64"
  shows "dval (shift_left x bw sw) = dval x * 2 ^ (64 * bw + sw)" "normal (shift_left x bw sw)"
proof -
  obtain r a where r: "(if sw \<noteq> 0 then shl_loop sw x 0 else (x, 0)) = (r, a)" by force
  have v: "dval r + 2 ^ (64 * length x) * unat a = dval x * 2 ^ sw" "length r = length x"
    using r assms(2) shl_loop_val [of sw x 0 r a] by (auto split: if_splits)
  have s: "shift_left x bw sw = replicate bw 0 @ r @ (if a = 0 then [] else [a])"
    using r by (simp add: shift_left_def)
  show "dval (shift_left x bw sw) = dval x * 2 ^ (64 * bw + sw)"
    unfolding s using v by (auto simp: dval_append power_add)
  have "normal r" if "a = 0"
  proof -
    have "dval x \<le> dval x * 2 ^ sw" by simp
    then show ?thesis
      using that v assms(1) le_trans [of _ "dval x" "dval x * 2 ^ sw"] by (auto simp: normal_iff)
  qed
  then show "normal (shift_left x bw sw)" unfolding s by (auto simp: normal_def)
qed

subsection \<open>Shifting right\<close>

lemma shr_digit:
  assumes "0 < sw" "sw < 64" "unat a0 = c * 2 ^ (64 - sw)"
  shows "unat (drop_bit sw x OR a0) * 2 ^ sw + unat (x :: digit) mod 2 ^ sw = c * 2 ^ 64 + unat x"
    "unat (push_bit (64 - sw) x) = (unat x mod 2 ^ sw) * 2 ^ (64 - sw)"
proof -
  have p: "(2 :: nat) ^ 64 = 2 ^ (64 - sw) * 2 ^ sw" using assms by (simp only: power_add [symmetric] le_add_diff_inverse2 less_imp_le)
  have "unat x div 2 ^ sw < 2 ^ (64 - sw)"
    using unat_digit [of x] unfolding p by (simp add: less_mult_imp_div_less)
  then have "unat (drop_bit sw x OR a0) = c * 2 ^ (64 - sw) + unat x div 2 ^ sw"
    using or_low [of "unat x div 2 ^ sw" "64 - sw" c]
    by (simp only: unsigned_or_eq unat_drop assms(3) or.commute)
  then have "unat (drop_bit sw x OR a0) * 2 ^ sw + unat x mod 2 ^ sw
      = c * (2 ^ (64 - sw) * 2 ^ sw) + (unat x div 2 ^ sw * 2 ^ sw + unat x mod 2 ^ sw)"
    by (simp only: distrib_right add.assoc mult.assoc)
  then show "unat (drop_bit sw x OR a0) * 2 ^ sw + unat x mod 2 ^ sw = c * 2 ^ 64 + unat x"
    by (simp only: p [symmetric] div_mult_mod_eq)
  show "unat (push_bit (64 - sw) x) = (unat x mod 2 ^ sw) * 2 ^ (64 - sw)"
    using push_split [of "64 - sw" x] assms(2) by simp
qed

lemma shr_loop_val:
  "shr_loop sw xs a0 = (r, a') \<Longrightarrow> 0 < sw \<Longrightarrow> sw < 64 \<Longrightarrow> unat a0 = c * 2 ^ (64 - sw) \<Longrightarrow> c < 2 ^ sw \<Longrightarrow>
     length r = length xs \<and> dval (rev r) = (c * 2 ^ (64 * length xs) + dval (rev xs)) div 2 ^ sw
     \<and> unat a' = ((c * 2 ^ (64 * length xs) + dval (rev xs)) mod 2 ^ sw) * 2 ^ (64 - sw)"
proof (induction sw xs a0 arbitrary: r c rule: shr_loop.induct)
  case (1 sw x xs a0)
  define d where "d = drop_bit sw x OR a0"
  define c1 where "c1 = unat x mod 2 ^ sw"
  obtain r1 where r: "shr_loop sw xs (push_bit (64 - sw) x) = (r1, a')" "r = d # r1"
    using "1.prems"(1) by (auto simp: d_def D_EXP_def Let_def split: prod.splits)
  have st: "unat d * 2 ^ sw + c1 = c * 2 ^ 64 + unat x" "unat (push_bit (64 - sw) x) = c1 * 2 ^ (64 - sw)"
    unfolding d_def c1_def by (rule shr_digit [OF "1.prems"(2-4)])+
  have c1: "c1 < 2 ^ sw" by (simp add: c1_def)
  let ?m = "2 ^ (64 * length xs) :: nat"
  define V where "V = c1 * ?m + dval (rev xs)"
  have IH: "length r1 = length xs" "dval (rev r1) = V div 2 ^ sw" "unat a' = (V mod 2 ^ sw) * 2 ^ (64 - sw)"
    using "1.IH" [OF refl _ _ "1.prems"(2,3) _ c1] r(1) st(2) by (simp_all add: D_EXP_def V_def)
  have "c * 2 ^ (64 * length (x # xs)) + dval (rev (x # xs)) = (c * 2 ^ 64 + unat x) * ?m + dval (rev xs)"
    by (simp add: dval_append power_add algebra_simps)
  also have "\<dots> = unat d * ?m * 2 ^ sw + V"
    unfolding st(1) [symmetric] V_def by (simp add: distrib_right mult_ac)
  finally have e: "c * 2 ^ (64 * length (x # xs)) + dval (rev (x # xs)) = unat d * ?m * 2 ^ sw + V" .
  have "dval (rev r) = unat d * ?m + V div 2 ^ sw" using IH(1,2) by (simp add: r(2) dval_append)
  then show ?case using IH(1,3) unfolding e by (simp add: r(2))
qed auto

lemma nonzero_loop_dval: "nonzero_loop zs \<longleftrightarrow> dval zs \<noteq> 0"
  by (induction zs) (auto simp: unat_eq_0)

text \<open>
  The digits and the discarded bits: \<open>a0 = 0\<close> if and only if the bits shifted out of the remaining
  digits are all zero.
\<close>

lemma shift_right_digits:
  assumes "bw < length x" "sw < 64"
    and "(if sw \<noteq> 0 then shr_loop sw (rev (drop bw x)) 0 else (rev (drop bw x), 0)) = (r, a0)"
  shows "length r = length x - bw" "dval (rev r) = dval x div 2 ^ (64 * bw + sw)"
    "nonzero_loop (take bw x) \<or> a0 \<noteq> 0 \<longleftrightarrow> dval x mod 2 ^ (64 * bw + sw) \<noteq> 0"
proof -
  let ?h = "dval (drop bw x)" and ?l = "dval (take bw x)"
  have v: "length r = length x - bw \<and> dval (rev r) = ?h div 2 ^ sw \<and> unat a0 = (?h mod 2 ^ sw) * 2 ^ (64 - sw)"
  proof (cases "sw = 0")
    case False
    then show ?thesis using assms shr_loop_val [of sw "rev (drop bw x)" 0 r a0 0] by simp
  qed (use assms in auto)
  have x: "dval x = ?l + 2 ^ (64 * bw) * ?h"
    using dval_append [of "take bw x" "drop bw x"] assms(1) by simp
  have l: "?l < 2 ^ (64 * bw)" using dval_bound [of "take bw x"] assms(1) by simp
  have div: "dval x div 2 ^ (64 * bw) = ?h" "dval x mod 2 ^ (64 * bw) = ?l" using l unfolding x by simp_all
  show "length r = length x - bw" "dval (rev r) = dval x div 2 ^ (64 * bw + sw)"
    using v div by (simp_all add: power_add div_mult2_eq)
  have "dval x mod 2 ^ (64 * bw + sw) = 2 ^ (64 * bw) * (?h mod 2 ^ sw) + ?l"
    using div by (simp add: power_add mod_mult2_eq)
  moreover have "a0 = 0 \<longleftrightarrow> ?h mod 2 ^ sw = 0" using v by (auto simp flip: unat_eq_0)
  ultimately show "nonzero_loop (take bw x) \<or> a0 \<noteq> 0 \<longleftrightarrow> dval x mod 2 ^ (64 * bw + sw) \<noteq> 0"
    by (auto simp: nonzero_loop_dval)
qed

text \<open>Division of a number with a sign, rounding down.\<close>

lemma sval_div:
  assumes "dval r = dval x div 2 ^ m + of_bool (s \<and> dval x mod 2 ^ m \<noteq> 0)"
  shows "sval s r = sval s x div 2 ^ m"
proof (cases s)
  case False
  then show ?thesis using assms by (simp add: sval_def zdiv_int)
next
  case True
  have "(- int (dval x)) div 2 ^ m
      = (if int (dval x) mod 2 ^ m = 0 then - (int (dval x) div 2 ^ m) else - (int (dval x) div 2 ^ m) - 1)"
    by (rule zdiv_zminus1_eq_if) simp
  moreover have "int (dval x) mod 2 ^ m = int (dval x mod 2 ^ m)" "int (dval x) div 2 ^ m = int (dval x div 2 ^ m)"
    by (simp_all add: zmod_int zdiv_int)
  ultimately show ?thesis using True assms by (simp add: sval_def)
qed

text \<open>At most one leading digit becomes zero.\<close>

lemma shift_right_normal:
  assumes "normal x" "bw < length x" "sw < 64"
    and "length r = length x - bw" "dval (rev r) = dval x div 2 ^ (64 * bw + sw)"
    and "hd r \<noteq> 0 \<or> tl r \<noteq> []"
  shows "normal (rev (if hd r = 0 then tl r else r))"
proof (cases "hd r = 0")
  case False
  then show ?thesis using assms(2,4) by (cases r) (simp_all add: normal_def)
next
  case True
  obtain rs where r: "r = 0 # rs" using True assms(2,4) by (cases r) auto
  have rs: "rs \<noteq> []" using True assms(6) r by simp
  have "2 ^ (64 * (length rs - 1)) * 2 ^ (64 * bw + sw) \<le> (2 ^ (64 * (length x - 1)) :: nat)"
  proof -
    have "64 * (length rs - 1) + (64 * bw + sw) \<le> 64 * (length x - 1)"
      using assms(2-4) r rs by (cases rs) auto
    then have "(2 :: nat) ^ (64 * (length rs - 1) + (64 * bw + sw)) \<le> 2 ^ (64 * (length x - 1))"
      by (rule power_increasing) simp
    then show ?thesis by (simp only: power_add)
  qed
  also have "\<dots> \<le> dval x" using assms(1) by (simp add: normal_iff)
  finally have "2 ^ (64 * (length rs - 1)) \<le> dval x div 2 ^ (64 * bw + sw)"
    by (simp only: less_eq_div_iff_mult_less_eq zero_less_power zero_less_numeral)
  then have "2 ^ (64 * (length rs - 1)) \<le> dval (rev rs)" using assms(5) r by simp
  then show ?thesis using True r rs by (simp add: normal_iff)
qed

lemma shift_right_val:
  assumes "normal x" "sw < 64"
  shows "sval sign (shift_right x bw sw sign) = sval sign x div 2 ^ (64 * bw + sw)
     \<and> shift_right x bw sw sign \<noteq> [] \<and> I_is_normalized (shift_right x bw sw sign)"
proof (cases "length x \<le> bw")
  case True
  have "dval x < 2 ^ (64 * length x)" by (rule dval_bound)
  also have "\<dots> \<le> 2 ^ (64 * bw + sw)" using True by (intro power_increasing) simp_all
  finally have "dval x < 2 ^ (64 * bw + sw)" .
  then have "sval sign (if sign then [1] else [0]) = sval sign x div 2 ^ (64 * bw + sw)"
    using normal_pos [OF assms(1)] by (intro sval_div) simp
  then show ?thesis using True by (simp add: shift_right_def I_is_normalized_def)
next
  case False
  then have bw: "bw < length x" by simp
  obtain r a0 where r: "(if sw \<noteq> 0 then shr_loop sw (rev (drop bw x)) 0 else (rev (drop bw x), 0)) = (r, a0)"
    by force
  note d = shift_right_digits [OF bw assms(2) r]
  let ?one = "sign \<and> (nonzero_loop (take bw x) \<or> a0 \<noteq> 0)" and ?q = "rev (if hd r = 0 then tl r else r)"
  have s: "shift_right x bw sw sign = (if hd r = 0 \<and> tl r = [] then if sign then [1] else r
      else if ?one then D_add ?q 1 else ?q)"
    using False r by (auto simp: shift_right_def Let_def)
  show ?thesis
  proof (cases "hd r = 0 \<and> tl r = []")
    case True
    then have r0: "r = [0]" using d(1) bw by (cases r) auto
    then have "dval x div 2 ^ (64 * bw + sw) = 0" using d(2) by simp
    then have "dval x mod 2 ^ (64 * bw + sw) = dval x" by (metis add_0 div_mult_mod_eq mult_zero_left)
    then have "sval sign (if sign then [1] else r) = sval sign x div 2 ^ (64 * bw + sw)"
      using normal_pos [OF assms(1)] d(2) r0 by (intro sval_div) simp
    then show ?thesis using s True r0 by (simp add: I_is_normalized_def)
  next
    case False
    have n: "normal ?q" using shift_right_normal [OF assms(1) bw assms(2) d(1,2)] False by blast
    have q: "dval ?q = dval x div 2 ^ (64 * bw + sw)"
      using d(1,2) bw by (cases r) (auto simp: dval_append)
    have "dval (if ?one then D_add ?q 1 else ?q)
        = dval x div 2 ^ (64 * bw + sw) + of_bool (sign \<and> dval x mod 2 ^ (64 * bw + sw) \<noteq> 0)"
      using q D_add_val(1) [of 1 ?q] d(3) by auto
    then have "sval sign (if ?one then D_add ?q 1 else ?q) = sval sign x div 2 ^ (64 * bw + sw)"
      by (rule sval_div)
    moreover have "normal (if ?one then D_add ?q 1 else ?q)" using n D_add_normal [OF n] by simp
    ultimately show ?thesis using s False normal_normalized by (simp add: normal_def)
  qed
qed

lemma I_lshift_val:
  assumes "normal x"
  shows "sval sign (I_lshift x y sign) = (if 0 \<le> y then sval sign x * 2 ^ nat y else sval sign x div 2 ^ nat (- y))"
    "I_lshift x y sign \<noteq> []" "I_is_normalized (I_lshift x y sign)"
proof -
  have nz: "\<not> (length x = 1 \<and> hd x = 0)" using assms by (cases x) (auto simp: normal_def)
  define ay where "ay = nat \<bar>y\<bar>"
  have sw: "ay mod 64 < 64" "64 * (ay div 64) + ay mod 64 = ay" by simp_all
  have I: "I_lshift x y sign = (if y = 0 then x
      else if y > 0 then shift_left x (ay div 64) (ay mod 64) else shift_right x (ay div 64) (ay mod 64) sign)"
    using nz by (auto simp: I_lshift_def ay_def D_EXP_def Let_def)
  consider "y = 0" | "y > 0" "nat y = ay" | "y < 0" "nat (- y) = ay" unfolding ay_def by linarith
  then have "sval sign (I_lshift x y sign) = (if 0 \<le> y then sval sign x * 2 ^ nat y else sval sign x div 2 ^ nat (- y))
    \<and> I_lshift x y sign \<noteq> [] \<and> I_is_normalized (I_lshift x y sign)"
  proof cases
    case 1
    then show ?thesis using assms normal_normalized [OF assms] unfolding I by (simp add: normal_def)
  next
    case 2
    note v = shift_left_val [OF assms sw(1), of "ay div 64", unfolded sw(2)]
    show ?thesis using 2 v normal_normalized [OF v(2)] by (simp add: I sval_def normal_def)
  next
    case 3
    then show ?thesis
      using shift_right_val [OF assms sw(1), of sign "ay div 64", unfolded sw(2)] by (simp add: I)
  qed
  then show "sval sign (I_lshift x y sign) = (if 0 \<le> y then sval sign x * 2 ^ nat y else sval sign x div 2 ^ nat (- y))"
    "I_lshift x y sign \<noteq> []" "I_is_normalized (I_lshift x y sign)" by blast+
qed

subsection \<open>Logarithm\<close>

lemma lg_loop_val:
  "d \<noteq> 0 \<Longrightarrow> \<exists>l. lg_loop d sz = sz + l + 1 \<and> 2 ^ l \<le> unat d \<and> unat d < 2 ^ (l + 1)"
proof (induction d sz rule: lg_loop.induct)
  case (1 d sz)
  have half: "unat (drop_bit 1 d) = unat d div 2" using unat_drop [of 1 d] by simp
  have pos: "0 < unat d" using "1.prems" by (simp add: unat_gt_0)
  have step: "lg_loop d sz = lg_loop (drop_bit 1 d) (sz + 1)" using "1.prems" by (subst lg_loop.simps) simp
  show ?case
  proof (cases "drop_bit 1 d = 0")
    case True
    then have "unat d div 2 = 0" using half by (metis unsigned_0)
    then have "unat d = 1" using pos by simp
    moreover have "lg_loop d sz = sz + 1" using step True by (subst (asm) (2) lg_loop.simps) simp
    ultimately show ?thesis by (intro exI [of _ 0]) simp
  next
    case False
    then obtain l where l: "lg_loop (drop_bit 1 d) (sz + 1) = sz + 1 + l + 1"
      "2 ^ l \<le> unat d div 2" "unat d div 2 < 2 ^ (l + 1)"
      using "1.IH" [OF "1.prems"] half by auto
    have "2 ^ Suc l \<le> unat d" "unat d < 2 ^ (Suc l + 1)" using l(2,3) by simp_all
    then show ?thesis using step l(1) by (intro exI [of _ "Suc l"]) simp
  qed
qed

lemma I_lg_val:
  assumes "normal x"
  obtains l where "I_lg x = Some l" "2 ^ l \<le> dval x" "dval x < 2 ^ (l + 1)"
proof -
  obtain xs d where x: "x = xs @ [d]" "d \<noteq> 0" using assms by (cases x rule: rev_cases) (auto simp: normal_def)
  obtain l where l: "lg_loop d (length xs * 64) = length xs * 64 + l + 1" "2 ^ l \<le> unat d" "unat d < 2 ^ (l + 1)"
    using lg_loop_val [OF x(2)] by blast
  let ?n = "64 * length xs"
  have v: "dval x = dval xs + 2 ^ ?n * unat d" by (simp add: x(1) dval_append)
  have "I_lg x = Some (?n + l)" using l(1) by (simp add: I_lg_def x(1) D_EXP_def mult.commute del: lg_loop.simps)
  moreover have "2 ^ (?n + l) \<le> dval x"
    using l(2) by (simp add: v power_add trans_le_add2)
  moreover have "dval x < 2 ^ (?n + l + 1)"
  proof -
    have "2 ^ ?n * (unat d + 1) \<le> 2 ^ ?n * 2 ^ (l + 1)" using l(3) by (intro mult_le_mono2) simp
    moreover have "dval xs < 2 ^ ?n" by (rule dval_bound)
    moreover have "(2 :: nat) ^ (?n + l + 1) = 2 ^ ?n * 2 ^ (l + 1)" by (simp only: power_add add.assoc mult.assoc)
    ultimately show ?thesis unfolding v by simp
  qed
  ultimately show ?thesis by (rule that)
qed

end
