(* ===== verification/BigTerm.thy ===== *)
theory BigTerm
  imports BigMul BigShift ErlTerm
begin

text \<open>
  Integers as terms (\<^verbatim>\<open>big.c\<close>, \<^verbatim>\<open>big.h\<close>): normalisation of results, comparison, conversions to and from
  machine integers and bytes, and the arithmetic on bignums built on the digit vectors.

  A term is an immediate word or a bignum, given by the sign in its header and its digits. The heap
  space a result is written to belongs to the caller and is left out. \<open>None\<close> stands for a call with
  arguments the code does not check: \<open>big_val\<close> of a term that is not a bignum, or digit vectors the
  digit routines do not accept.
\<close>

subsection \<open>Terms\<close>

datatype bterm = Imm eterm | Bignum bool "digit list"

definition MAX_SMALL :: digit where "MAX_SMALL = push_bit 59 1 - 1"

definition BIG_ARITY_MAX :: nat where "BIG_ARITY_MAX = 65535"

definition IS_USMALL :: "bool \<Rightarrow> digit \<Rightarrow> bool" where
  "IS_USMALL neg x = (if neg then x \<le> MAX_SMALL + 1 else x \<le> MAX_SMALL)"

text \<open>Sign and digits of a bignum.\<close>

definition big_val :: "bterm \<Rightarrow> (bool \<times> digit list) option" where
  "big_val t = (case t of Bignum s ds \<Rightarrow> Some (s, ds) | Imm _ \<Rightarrow> None)"

definition big_norm :: "digit list \<Rightarrow> bool \<Rightarrow> bterm" where
  "big_norm x sign =
     (if length x = 1 \<and> IS_USMALL sign (hd x) then
        Imm (make_small (if sign then - hd x else hd x))
      else if length x > BIG_ARITY_MAX then Imm NIL
      else Bignum sign x)"

subsection \<open>Conversions from machine integers\<close>

definition uint_to_big :: "u64 \<Rightarrow> bterm" where "uint_to_big x = Bignum False [x]"

definition uword_to_big :: "u64 \<Rightarrow> bterm" where "uword_to_big x = Bignum False [x]"

definition small_to_big :: "u64 \<Rightarrow> bterm" where
  "small_to_big x = (if 0 \<le> sint x then Bignum False [x] else Bignum True [- x])"

definition erts_make_integer :: "u64 \<Rightarrow> bterm" where
  "erts_make_integer x = (if IS_USMALL False x then Imm (make_small x) else uint_to_big x)"

definition erts_uint64_to_big :: "u64 \<Rightarrow> bterm" where "erts_uint64_to_big x = Bignum False [x]"

definition erts_sint64_to_big :: "u64 \<Rightarrow> bterm" where
  "erts_sint64_to_big x = (if 0 \<le> sint x then Bignum False [x] else Bignum True [- x])"

text \<open>The loop keeps the number of digits up to the last that is not zero.\<close>

fun array_digits :: "nat \<Rightarrow> nat \<Rightarrow> u64 list \<Rightarrow> nat" where
  "array_digits pot_digits digits (v # vs) =
     array_digits (pot_digits + 1) (if v \<noteq> 0 then pot_digits + 1 else digits) vs"
| "array_digits pot_digits digits [] = digits"

definition erts_uint64_array_to_big :: "bool \<Rightarrow> u64 list \<Rightarrow> bterm" where
  "erts_uint64_array_to_big neg a = Bignum neg (take (array_digits 0 0 a) a)"

subsection \<open>Comparing\<close>

definition big_comp :: "bterm \<Rightarrow> bterm \<Rightarrow> int option" where
  "big_comp x y = do {
     (xs, xd) \<leftarrow> big_val x;
     (ys, yd) \<leftarrow> big_val y;
     Some (if xs = ys then (let c = I_comp xd yd in if xs then - c else c)
           else if xs then -1 else 1)
   }"

definition big_ucomp :: "bterm \<Rightarrow> bterm \<Rightarrow> int option" where
  "big_ucomp x y = do {
     (xs, xd) \<leftarrow> big_val x;
     (ys, yd) \<leftarrow> big_val y;
     Some (I_comp xd yd)
   }"

subsection \<open>Bytes\<close>

function bytes_loop :: "digit \<Rightarrow> nat \<Rightarrow> nat" where
  "bytes_loop d sz = (if d \<noteq> 0 then bytes_loop (drop_bit 8 d) (sz + 1) else sz)"
  by auto
termination
  by (relation "measure (\<lambda>(d, sz). unat d)") (auto simp: unat_drop unat_gt_0 intro!: div_less_dividend)

definition big_bytes :: "bterm \<Rightarrow> nat option" where
  "big_bytes x = do {
     (s, ds) \<leftarrow> big_val x;
     if ds = [] then None else Some (bytes_loop (last ds) ((length ds - 1) * 8))
   }"

text \<open>\<open>for (i = n; --i >= 0;) d = (d << 8) | xp[i]\<close>\<close>

definition load_digit :: "u8 list \<Rightarrow> digit" where
  "load_digit bs = foldl (\<lambda>d b. push_bit 8 d OR ucast b) 0 (rev bs)"

function load_loop :: "u8 list \<Rightarrow> digit list \<times> u8 list" where
  "load_loop xp =
     (if length xp > 8 then
        (let (ds, rest) = load_loop (drop 8 xp) in (load_digit (take 8 xp) # ds, rest))
      else ([], xp))"
  by auto
termination
  by (relation "measure length") auto

definition bytes_to_big :: "u8 list \<Rightarrow> bool \<Rightarrow> bterm" where
  "bytes_to_big xp xsgn =
     (let (ds, rest) = load_loop xp; d = load_digit rest in
      if rest \<noteq> [] \<and> ds = [] \<and> IS_USMALL xsgn d then Imm (make_small (if xsgn then - d else d))
      else
        (let ds = (if rest \<noteq> [] then ds @ [d] else ds)
         in if length ds > BIG_ARITY_MAX then Imm NIL else Bignum xsgn ds))"

fun store_digit :: "nat \<Rightarrow> digit \<Rightarrow> u8 list" where
  "store_digit (Suc n) d = ucast (d AND 0xff) # store_digit n (drop_bit 8 d)"
| "store_digit 0 d = []"

text \<open>\<open>do { *p++ = d & 0xff; d >>= 8; } while (d != 0)\<close>\<close>

function store_last :: "digit \<Rightarrow> u8 list" where
  "store_last d =
     (let d' = drop_bit 8 d in ucast (d AND 0xff) # (if d' \<noteq> 0 then store_last d' else []))"
  by auto
termination
proof (relation "measure unat")
  fix d d' :: digit
  assume d': "d' = drop_bit 8 d" "d' \<noteq> 0"
  then have "unat (drop_bit 8 d) \<noteq> 0" by (metis unat_eq_0)
  then have "0 < unat d div 2 ^ 8" unfolding unat_drop by simp
  then have "unat d div 2 ^ 8 < unat d" by (intro div_less_dividend) simp_all
  then show "(d', d) \<in> measure unat" using d' by (simp add: unat_drop)
qed simp

fun store_loop :: "digit list \<Rightarrow> u8 list" where
  "store_loop (d # e # ds) = store_digit 8 d @ store_loop (e # ds)"
| "store_loop [d] = store_last d"
| "store_loop [] = []"

definition big_to_bytes :: "bterm \<Rightarrow> u8 list option" where
  "big_to_bytes x = do {
     (s, ds) \<leftarrow> big_val x;
     if ds = [] then None else Some (store_loop ds)
   }"

declare bytes_loop.simps [simp del] load_loop.simps [simp del] store_last.simps [simp del]

subsection \<open>Conversions to machine integers\<close>

datatype reason = BADARG | SYSTEM_LIMIT | BADARITH

text \<open>\<open>uval |= *xr++ << n; n += D_EXP\<close>\<close>

fun uval_loop :: "digit list \<Rightarrow> nat \<Rightarrow> u64 \<Rightarrow> u64" where
  "uval_loop (x # xs) n uval = uval_loop xs (n + D_EXP) (uval OR push_bit n x)"
| "uval_loop [] n uval = uval"

definition term_to_Uint :: "bterm \<Rightarrow> reason + u64" where
  "term_to_Uint t =
     (case t of
        Imm w \<Rightarrow>
          if is_small w then
            if signed_val w < 0 then Inl BADARG else Inr (word_of_int (signed_val w))
          else Inl BADARG
      | Bignum s xr \<Rightarrow>
          if s then Inl BADARG
          else if length xr * D_EXP > 64 then Inl SYSTEM_LIMIT
          else Inr (uval_loop xr 0 0))"

definition term_to_Uint_mask :: "bterm \<Rightarrow> (reason + u64) option" where
  "term_to_Uint_mask t =
     (case t of
        Imm w \<Rightarrow>
          Some (if is_small w then
                  if signed_val w < 0 then Inl BADARG else Inr (word_of_int (signed_val w))
                else Inl BADARG)
      | Bignum s xr \<Rightarrow>
          if s then Some (Inl BADARG) else (case xr of [] \<Rightarrow> None | x # _ \<Rightarrow> Some (Inr x)))"

definition term_to_UWord :: "bterm \<Rightarrow> reason + u64" where "term_to_UWord t = term_to_Uint t"

definition term_to_Uint64 :: "bterm \<Rightarrow> reason + u64" where "term_to_Uint64 t = term_to_UWord t"

definition term_to_Uint32 :: "bterm \<Rightarrow> reason + u32" where
  "term_to_Uint32 t =
     (case t of
        Imm w \<Rightarrow> if is_small w \<and> signed_val w \<ge> 0 then Inr (word_of_int (signed_val w)) else Inl BADARG
      | Bignum _ _ \<Rightarrow> Inl BADARG)"

definition term_to_Sint :: "bterm \<Rightarrow> u64 option" where
  "term_to_Sint t =
     (case t of
        Imm w \<Rightarrow> if is_small w then Some (word_of_int (signed_val w)) else None
      | Bignum sign xr \<Rightarrow>
          if length xr * D_EXP > 64 then None
          else
            (let uval = uval_loop xr 0 0; uval = (if sign then - uval else uval)
             in if sign then (if sint uval > 0 then None else Some uval)
                else (if sint uval < 0 then None else Some uval)))"

definition term_to_Sint64 :: "bterm \<Rightarrow> u64 option" where "term_to_Sint64 t = term_to_Sint t"

definition big_to_uint32 :: "bterm \<Rightarrow> u32" where
  "big_to_uint32 b = (case term_to_Uint b of Inl _ \<Rightarrow> 0 | Inr u \<Rightarrow> ucast u)"

definition term_equals_2pow32 :: "bterm \<Rightarrow> bool" where
  "term_equals_2pow32 x =
     (case term_to_Uint x of
        Inl _ \<Rightarrow> False
      | Inr u \<Rightarrow> u AND 0xFFFFFFFF = 0 \<and> drop_bit 16 (drop_bit 16 u) = 1)"

subsection \<open>Arithmetic\<close>

definition B_plus_minus :: "digit list \<Rightarrow> bool \<Rightarrow> digit list \<Rightarrow> bool \<Rightarrow> bterm option" where
  "B_plus_minus x xsgn y ysgn =
     (if xsgn = ysgn then
        if length x > length y then map_option (\<lambda>r. big_norm r xsgn) (I_add x y)
        else map_option (\<lambda>r. big_norm r xsgn) (I_add y x)
      else
        (let comp = I_comp x y in
         if comp = 0 then Some (Imm (make_small 0))
         else if comp > 0 then map_option (\<lambda>r. big_norm r xsgn) (I_sub x y)
         else map_option (\<lambda>r. big_norm r ysgn) (I_sub y x)))"

definition big_plus :: "bterm \<Rightarrow> bterm \<Rightarrow> bterm option" where
  "big_plus x y = do {
     (xs, xd) \<leftarrow> big_val x;
     (ys, yd) \<leftarrow> big_val y;
     B_plus_minus xd xs yd ys
   }"

definition big_minus :: "bterm \<Rightarrow> bterm \<Rightarrow> bterm option" where
  "big_minus x y = do {
     (xs, xd) \<leftarrow> big_val x;
     (ys, yd) \<leftarrow> big_val y;
     B_plus_minus xd xs yd (\<not> ys)
   }"

definition big_plus_small :: "bterm \<Rightarrow> u64 \<Rightarrow> bterm option" where
  "big_plus_small x y = do {
     (xs, xd) \<leftarrow> big_val x;
     if xs then map_option (\<lambda>r. big_norm r xs) (D_sub xd y) else Some (big_norm (D_add xd y) xs)
   }"

definition small_times :: "u64 \<Rightarrow> u64 \<Rightarrow> bterm" where
  "small_times x y =
     (let sign = ((sint x < 0) \<noteq> (sint y < 0));
          xu = (if sint x > 0 then x else - x);
          yu = (if sint y > 0 then y else - y);
          (d0, d1) = DMULc xu yu 0
      in if d1 = 0 \<and> IS_USMALL sign d0 then Imm (make_small (if sign then - d0 else d0))
         else Bignum sign (if d1 \<noteq> 0 then [d0, d1] else [d0]))"

text \<open>\<open>same\<close>: \<open>x\<close> and \<open>y\<close> are the same object.\<close>

definition big_product :: "bool \<Rightarrow> digit list \<Rightarrow> digit list \<Rightarrow> digit list option" where
  "big_product same x y =
     (if length y = 1 then Some (D_mul x (hd y))
      else if length x = 1 then Some (D_mul y (hd x))
      else if length x \<ge> length y then I_mul_karatsuba same x y
      else I_mul_karatsuba same y x)"

definition big_times :: "bool \<Rightarrow> bterm \<Rightarrow> bterm \<Rightarrow> bterm option" where
  "big_times same x y = do {
     (xs, xd) \<leftarrow> big_val x;
     (ys, yd) \<leftarrow> big_val y;
     r \<leftarrow> big_product same xd yd;
     Some (big_norm r (xs \<noteq> ys))
   }"

definition big_mul_add :: "bool \<Rightarrow> bterm \<Rightarrow> bterm \<Rightarrow> bterm \<Rightarrow> bterm option" where
  "big_mul_add same x y z = do {
     (xs, xd) \<leftarrow> big_val x;
     (ys, yd) \<leftarrow> big_val y;
     (zs, zd) \<leftarrow> big_val z;
     r \<leftarrow> big_product same xd yd;
     B_plus_minus r (xs \<noteq> ys) zd zs
   }"

subsection \<open>Bitwise operations and shifts\<close>

definition big_band :: "bterm \<Rightarrow> bterm \<Rightarrow> bterm option" where
  "big_band x y = do {
     (xs, xd) \<leftarrow> big_val x;
     (ys, yd) \<leftarrow> big_val y;
     r \<leftarrow> (if length xd \<ge> length yd then I_band xd xs yd ys else I_band yd ys xd xs);
     Some (big_norm r (xs \<and> ys))
   }"

definition big_bor :: "bterm \<Rightarrow> bterm \<Rightarrow> bterm option" where
  "big_bor x y = do {
     (xs, xd) \<leftarrow> big_val x;
     (ys, yd) \<leftarrow> big_val y;
     r \<leftarrow> (if length xd \<ge> length yd then I_bor xd xs yd ys else I_bor yd ys xd xs);
     Some (big_norm r (xs \<or> ys))
   }"

definition big_bxor :: "bterm \<Rightarrow> bterm \<Rightarrow> bterm option" where
  "big_bxor x y = do {
     (xs, xd) \<leftarrow> big_val x;
     (ys, yd) \<leftarrow> big_val y;
     r \<leftarrow> (if length xd \<ge> length yd then I_bxor xd xs yd ys else I_bxor yd ys xd xs);
     Some (big_norm r (xs \<noteq> ys))
   }"

definition big_bnot :: "bterm \<Rightarrow> bterm option" where
  "big_bnot x = do {
     (xs, xd) \<leftarrow> big_val x;
     r \<leftarrow> I_bnot xd (\<not> xs);
     Some (big_norm r (\<not> xs))
   }"

definition big_lshift :: "bterm \<Rightarrow> int \<Rightarrow> bterm option" where
  "big_lshift x y = do {
     (xs, xd) \<leftarrow> big_val x;
     Some (big_norm (I_lshift xd y xs) xs)
   }"

end
