(* ===== verification/BigTermThms.thy ===== *)
theory BigTermThms
  imports BigTerm
begin

text \<open>
  The arithmetic on integer terms: each operation returns the term of the sum, difference, product, bitwise
  combination or shift of the numbers its arguments stand for, or \<open>NIL\<close> when that number is too large
  for a bignum.
\<close>

subsection \<open>The number of a term\<close>

definition bint :: "bterm \<Rightarrow> int" where
  "bint t = (case t of Imm w \<Rightarrow> signed_val w | Bignum s ds \<Rightarrow> sval s ds)"

text \<open>The integer terms the runtime system builds: no number has a small and a bignum representation.\<close>

definition bterm_ok :: "bterm \<Rightarrow> bool" where
  "bterm_ok t \<longleftrightarrow>
     (case t of
        Imm w \<Rightarrow> is_small w
      | Bignum s ds \<Rightarrow> normal ds \<and> length ds \<le> BIG_ARITY_MAX \<and> \<not> (length ds = 1 \<and> IS_USMALL s (hd ds)))"

definition too_big :: "int \<Rightarrow> bool" where
  "too_big v \<longleftrightarrow> 2 ^ (64 * BIG_ARITY_MAX) \<le> \<bar>v\<bar>"

text \<open>What an operation with the exact result \<open>v\<close> returns.\<close>

definition represents :: "bterm option \<Rightarrow> int \<Rightarrow> bool" where
  "represents res v \<longleftrightarrow>
     (case res of
        None \<Rightarrow> False
      | Some t \<Rightarrow> if too_big v then t = Imm NIL else bterm_ok t \<and> bint t = v)"

definition is_bignum :: "bterm \<Rightarrow> bool" where
  "is_bignum t \<longleftrightarrow> (case t of Imm _ \<Rightarrow> False | Bignum _ _ \<Rightarrow> bterm_ok t)"

lemma is_bignumE:
  assumes "is_bignum t"
  obtains s ds where "t = Bignum s ds" "big_val t = Some (s, ds)" "normal ds" "bint t = sval s ds"
    "length ds \<le> BIG_ARITY_MAX" "\<not> (length ds = 1 \<and> IS_USMALL s (hd ds))"
  using assms by (cases t) (auto simp: is_bignum_def bterm_ok_def big_val_def bint_def)

lemma abs_sval [simp]: "\<bar>sval s ds\<bar> = int (dval ds)"
  by (simp add: sval_def)

lemma too_big_normal: "normal ds \<Longrightarrow> too_big (sval s ds) \<longleftrightarrow> BIG_ARITY_MAX < length ds"
proof -
  assume n: "normal ds"
  have e: "too_big (sval s ds) \<longleftrightarrow> 2 ^ (64 * BIG_ARITY_MAX) \<le> dval ds"
    unfolding too_big_def abs_sval by (metis of_nat_le_iff of_nat_numeral of_nat_power)
  show ?thesis
  proof (cases "BIG_ARITY_MAX < length ds")
    case True
    then have "(2 :: nat) ^ (64 * BIG_ARITY_MAX) \<le> 2 ^ (64 * (length ds - 1))"
      by (intro power_increasing) simp_all
    then show ?thesis using True n unfolding e normal_iff by (meson le_trans)
  next
    case False
    then have "(2 :: nat) ^ (64 * length ds) \<le> 2 ^ (64 * BIG_ARITY_MAX)" by (intro power_increasing) simp_all
    then have "\<not> 2 ^ (64 * BIG_ARITY_MAX) \<le> dval ds" using dval_bound [of ds] by linarith
    then show ?thesis using False e by blast
  qed
qed

subsection \<open>Small integers\<close>

lemma MAX_SMALL_val: "unat MAX_SMALL = 2 ^ 59 - 1" "unat (MAX_SMALL + 1) = 2 ^ 59"
  by (simp_all add: MAX_SMALL_def)

lemma IS_USMALL_iff: "IS_USMALL s d \<longleftrightarrow> unat d < 2 ^ 59 \<or> (s \<and> unat d = 2 ^ 59)"
  unfolding IS_USMALL_def word_le_nat_alt MAX_SMALL_val by auto

lemma small_val:
  assumes "IS_USMALL s d"
  shows "signed_val (make_small (if s then - d else d)) = sval s [d]"
proof -
  have "(if s then - d else d) = word_of_int (sval s [d])" by (simp add: sval_def)
  moreover have "- (2 ^ 59) \<le> sval s [d]" "sval s [d] < 2 ^ 59"
  proof -
    define n where "n = unat d"
    have "sval s [d] = (if s then - int n else int n)" by (simp add: sval_def n_def)
    moreover have "n < 2 ^ 59 \<or> (s \<and> n = 2 ^ 59)" using assms unfolding IS_USMALL_iff n_def .
    ultimately show "- (2 ^ 59) \<le> sval s [d]" "sval s [d] < 2 ^ 59" by auto
  qed
  ultimately show ?thesis using signed_val_make_small by metis
qed

lemma norm_represents:
  assumes "I_is_normalized r" "r \<noteq> []"
  shows "represents (Some (big_norm r s)) (sval s r)"
proof (cases "length r = 1 \<and> IS_USMALL s (hd r)")
  case True
  then obtain d where r: "r = [d]" by (cases r) auto
  have "\<not> too_big (sval s [d])"
  proof -
    have "(2 :: int) ^ 64 \<le> 2 ^ (64 * BIG_ARITY_MAX)"
      by (intro power_increasing) (simp_all add: BIG_ARITY_MAX_def)
    then show ?thesis using uint_digit [of d] unfolding too_big_def abs_sval by simp
  qed
  then show ?thesis
    using True small_val [of s d] by (cases s) (simp_all add: r represents_def big_norm_def bterm_ok_def bint_def)
next
  case False
  have n: "normal r" using assms False by (auto simp: normal_def I_is_normalized_def IS_USMALL_iff)
  then show ?thesis
    using False too_big_normal [OF n, of s]
    by (auto simp: represents_def big_norm_def bterm_ok_def bint_def)
qed

lemma map_norm_represents:
  assumes "res = Some r" "I_is_normalized r" "r \<noteq> []" "sval s r = v"
  shows "represents (map_option (\<lambda>r. big_norm r s) res) v" "represents (res \<bind> (\<lambda>r. Some (big_norm r s))) v"
  using norm_represents [OF assms(2,3), of s] assms(1,4) by simp_all

subsection \<open>Addition and subtraction\<close>

lemma sval_same: "sval s x + sval s y = (if s then - int (dval x + dval y) else int (dval x + dval y))"
  by (simp add: sval_def)

lemma add_represents:
  assumes "I_is_normalized x" "y \<noteq> []" "length y \<le> length x" "dval x + dval y = n"
  shows "represents (map_option (\<lambda>r. big_norm r s) (I_add x y)) (if s then - int n else int n)"
proof -
  obtain r where r: "I_add x y = Some r" "dval r = dval x + dval y" "length x \<le> length r"
    by (rule I_add_val [OF assms(3,2)])
  have xne: "x \<noteq> []" using assms(2,3) by auto
  have "I_is_normalized r"
  proof (cases "normal x")
    case True
    then show ?thesis using I_add_normal [OF _ assms(2) r(1)] normal_normalized by blast
  next
    case False
    then have "x = [0]" using assms(1) xne by (cases x) (auto simp: I_is_normalized_def normal_def split: if_splits)
    then have "length r = 1 \<or> r \<noteq> [] \<and> last r \<noteq> 0" using I_add_shape [OF assms(2) r(1)] by simp
    then show ?thesis by (cases r) (auto simp: I_is_normalized_def)
  qed
  moreover have "r \<noteq> []" using r(3) xne by auto
  ultimately show ?thesis
    by (intro map_norm_represents(1) [OF r(1)]) (use r(2) assms(4) in \<open>simp_all add: sval_def\<close>)
qed

lemma sub_represents:
  assumes "I_is_normalized y" "x \<noteq> []" "y \<noteq> []" "dval y \<le> dval x" "dval x - dval y = n"
  shows "represents (map_option (\<lambda>r. big_norm r s) (I_sub x y)) (if s then - int n else int n)"
proof -
  obtain r where r: "I_sub x y = Some r" "dval r = dval x - dval y" "I_is_normalized r" "r \<noteq> []"
    by (rule sub_op [OF assms(1-4)])
  show ?thesis by (rule map_norm_represents(1) [OF r(1,3,4)]) (use r(2) assms(5) in \<open>simp add: sval_def\<close>)
qed

lemma B_plus_minus_represents:
  assumes nn: "I_is_normalized x" "I_is_normalized y" "x \<noteq> []" "y \<noteq> []"
  shows "represents (B_plus_minus x xs y ys) (sval xs x + sval ys y)"
proof (cases "xs = ys")
  case True
  show ?thesis
  proof (cases "length x > length y")
    case True
    then show ?thesis
      using add_represents [OF nn(1,4), of _ xs] \<open>xs = ys\<close> by (simp add: B_plus_minus_def sval_same)
  next
    case False
    then show ?thesis
      using add_represents [OF nn(2,3), of "dval x + dval y" xs] \<open>xs = ys\<close>
      by (simp add: B_plus_minus_def sval_same)
  qed
next
  case False
  have c: "I_comp x y = sgn (int (dval x) - int (dval y))" by (rule I_comp_val [OF nn])
  consider "dval x = dval y" | "dval y < dval x" | "dval x < dval y" by linarith
  then show ?thesis
  proof cases
    case 1
    have "represents (Some (big_norm [0] False)) (sval False [0])"
      by (rule norm_represents) (simp_all add: I_is_normalized_def)
    then show ?thesis
      using False 1 c by (auto simp: B_plus_minus_def sval_def big_norm_def IS_USMALL_iff split: if_splits)
  next
    case 2
    then have "represents (map_option (\<lambda>r. big_norm r xs) (I_sub x y)) (sval xs x + sval ys y)"
      using sub_represents [OF nn(2,3,4), of "dval x - dval y" xs] False
      by (auto simp: sval_def of_nat_diff split: if_splits)
    then show ?thesis using False 2 c by (simp add: B_plus_minus_def)
  next
    case 3
    then have "represents (map_option (\<lambda>r. big_norm r ys) (I_sub y x)) (sval xs x + sval ys y)"
      using sub_represents [OF nn(1,4,3), of "dval y - dval x" ys] False
      by (auto simp: sval_def of_nat_diff split: if_splits)
    then show ?thesis using False 3 c by (simp add: B_plus_minus_def)
  qed
qed

subsection \<open>Multiplication\<close>

lemma big_product_val:
  assumes "normal x" "normal y" "same \<Longrightarrow> x = y"
  obtains r where "big_product same x y = Some r" "dval r = dval x * dval y" "normal r"
proof -
  have ne: "x \<noteq> []" "y \<noteq> []" and nn: "I_is_normalized x" "I_is_normalized y"
    using assms normal_normalized by (auto simp: normal_def)
  consider "length y = 1" | "length y \<noteq> 1" "length x = 1" | "length y \<noteq> 1" "length x \<noteq> 1" by blast
  then show ?thesis
  proof cases
    case 1
    then obtain d where d: "y = [d]" by (cases y) auto
    then have "d \<noteq> 0" using assms(2) by (simp add: normal_def)
    then show ?thesis
      using that [of "D_mul x d"] D_mul_val(1) [of x d] D_mul_normal [OF assms(1)] d by (simp add: big_product_def)
  next
    case 2
    then obtain d where d: "x = [d]" by (cases x) auto
    then have "d \<noteq> 0" using assms(1) by (simp add: normal_def)
    then show ?thesis
      using that [of "D_mul y d"] D_mul_val(1) [of y d] D_mul_normal [OF assms(2)] d 2
      by (simp add: big_product_def mult.commute)
  next
    case 3
    show ?thesis
    proof (cases "length x \<ge> length y")
      case True
      then have "mul_pre same x y" using nn ne assms(3) by (simp add: mul_pre_def)
      then obtain r where "I_mul_karatsuba same x y = Some r" "mul_ok same x y r"
        using I_mul_karatsuba_val by blast
      then show ?thesis using that [of r] True 3 assms(1,2) by (simp add: big_product_def mul_ok_def)
    next
      case False
      then have "mul_pre same y x" using nn ne assms(3) by (auto simp: mul_pre_def)
      then obtain r where "I_mul_karatsuba same y x = Some r" "mul_ok same y x r"
        using I_mul_karatsuba_val by blast
      then show ?thesis using that [of r] False 3 assms(1,2) by (simp add: big_product_def mul_ok_def mult.commute)
    qed
  qed
qed

lemma sval_mult: "dval r = dval x * dval y \<Longrightarrow> sval (s \<noteq> t) r = sval s x * sval t y"
  by (cases s; cases t) (simp_all add: sval_def)

subsection \<open>The integer of a term is unique\<close>

lemma small_range:
  assumes "is_small w"
  shows "- (2 ^ 59) \<le> signed_val w" "signed_val w < 2 ^ 59"
proof -
  have "- (2 ^ 63) \<le> sint w" "sint w < 2 ^ 63" using sint_range_size [of w] by (simp_all add: word_size)
  then show "- (2 ^ 59) \<le> signed_val w" "signed_val w < 2 ^ 59" by (simp_all add: signed_val_def)
qed

lemma small_inj:
  assumes "is_small v" "is_small w" "signed_val v = signed_val w"
  shows "v = w"
proof -
  have m: "sint u mod 16 = 15" if "is_small u" for u
  proof -
    have "take_bit 4 u = 15" using that by (simp add: is_small_def TAG_IMMED1_SMALL_def mask4 take_bit_eq_mask [symmetric] del: mask_numeral)
    then have "uint (take_bit 4 u) = 15" by simp
    then have "take_bit 4 (uint u) = 15" by (simp add: unsigned_take_bit_eq)
    moreover have "take_bit 4 (uint u) = take_bit 4 (sint u)" by (simp add: sint_uint take_bit_signed_take_bit)
    ultimately show ?thesis by (simp add: take_bit_eq_mod)
  qed
  have "sint u = 16 * (sint u div 16) + sint u mod 16" for u :: u64 by simp
  then have "sint v = sint w" using m assms unfolding signed_val_def by metis
  then show ?thesis by (rule signed_word_eqI)
qed

lemma bignum_range:
  assumes "normal ds" "\<not> (length ds = 1 \<and> IS_USMALL s (hd ds))"
  shows "sval s ds < - (2 ^ 59) \<or> 2 ^ 59 \<le> sval s ds"
proof (cases "length ds = 1")
  case True
  then obtain d where ds: "ds = [d]" by (cases ds) auto
  define n where "n = unat d"
  have "sval s ds = (if s then - int n else int n)" by (simp add: ds sval_def n_def)
  moreover have "\<not> (n < 2 ^ 59 \<or> (s \<and> n = 2 ^ 59))" using assms(2) True unfolding ds IS_USMALL_iff n_def by simp
  ultimately show ?thesis by auto
next
  case False
  moreover have "ds \<noteq> []" using assms(1) by (simp add: normal_def)
  ultimately have "1 \<le> length ds - 1" by (cases ds) (auto simp: Suc_le_eq)
  then have "(2 :: nat) ^ 64 \<le> 2 ^ (64 * (length ds - 1))" by (intro power_increasing) simp_all
  then have "2 ^ 64 \<le> dval ds" using assms(1) unfolding normal_iff by (meson le_trans)
  then have "2 ^ 64 \<le> int (dval ds)" by (metis of_nat_le_iff of_nat_numeral of_nat_power)
  then show ?thesis by (auto simp: sval_def)
qed

lemma bterm_unique:
  assumes "bterm_ok t" "bterm_ok u" "bint t = bint u"
  shows "t = u"
proof (cases t; cases u)
  fix v w
  assume "t = Imm v" "u = Imm w"
  then show ?thesis using assms small_inj by (simp add: bterm_ok_def bint_def)
next
  fix w s ds
  assume "t = Imm w" "u = Bignum s ds"
  then show ?thesis using assms small_range [of w] bignum_range [of ds s] by (auto simp: bterm_ok_def bint_def)
next
  fix w s ds
  assume "t = Bignum s ds" "u = Imm w"
  then show ?thesis using assms small_range [of w] bignum_range [of ds s] by (auto simp: bterm_ok_def bint_def)
next
  fix s ds s' ds'
  assume tu: "t = Bignum s ds" "u = Bignum s' ds'"
  then have n: "normal ds" "normal ds'" "sval s ds = sval s' ds'" using assms by (simp_all add: bterm_ok_def bint_def)
  then have "s = s'" using normal_pos [OF n(1)] normal_pos [OF n(2)] by (auto simp: sval_def split: if_splits)
  then have "dval ds = dval ds'" using n(3) by (simp add: sval_def split: if_splits)
  then show ?thesis using tu \<open>s = s'\<close> normal_unique [OF n(1,2)] by simp
qed

subsection \<open>Bytes\<close>

fun bytes_val :: "u8 list \<Rightarrow> nat" where
  "bytes_val [] = 0"
| "bytes_val (b # bs) = unat b + 2 ^ 8 * bytes_val bs"

lemma unat_byte: "unat (b :: u8) < 2 ^ 8"
  using unsigned_less [of b, where ?'a = nat] by simp

lemma bytes_val_bound: "bytes_val bs < 2 ^ (8 * length bs)"
proof (induction bs)
  case (Cons b bs)
  have "2 ^ 8 * (bytes_val bs + 1) \<le> 2 ^ 8 * 2 ^ (8 * length bs)" using Cons.IH by (intro mult_le_mono2) simp
  then show ?case using unat_byte [of b] by (simp add: power_add)
qed simp

lemma load_digit_Cons: "load_digit (b # bs) = push_bit 8 (load_digit bs) OR ucast b"
  by (simp add: load_digit_def)

lemma load_digit_val: "length bs \<le> 8 \<Longrightarrow> unat (load_digit bs) = bytes_val bs"
proof (induction bs)
  case (Cons b bs)
  have IH: "unat (load_digit bs) = bytes_val bs" using Cons by simp
  have "(2 :: nat) ^ (8 * length bs) \<le> 2 ^ 56" using Cons.prems by (intro power_increasing) simp_all
  then have b: "bytes_val bs < 2 ^ 56" using bytes_val_bound [of bs] by linarith
  have "unat (push_bit 8 (load_digit bs)) = bytes_val bs * 2 ^ 8" using b by (simp add: push_split IH)
  moreover have "unat (ucast b :: digit) = unat b"
  proof -
    have "unat b < 2 ^ 64" using unat_byte [of b] by simp
    then show ?thesis by (simp add: unsigned_ucast_eq take_bit_nat_eq_self)
  qed
  ultimately show ?case
    using or_low [OF unat_byte, of "bytes_val bs" b] by (simp add: load_digit_Cons unsigned_or_eq)
qed (simp add: load_digit_def)

lemma low_byte: "unat (ucast (d AND 0xff) :: u8) = unat (d :: digit) mod 2 ^ 8"
proof -
  have "d AND 0xff = take_bit 8 d" by (simp add: take_bit_eq_mask mask_eq_exp_minus_1)
  then show ?thesis by (simp add: unsigned_ucast_eq take_bit_eq_mod unat_mod)
qed

lemma store_digit_val: "bytes_val (store_digit n d) = unat d mod 2 ^ (8 * n)" "length (store_digit n d) = n"
proof (induction n arbitrary: d)
  case (Suc n)
  {
    case 1
    have "unat d mod 2 ^ (8 * Suc n) = 2 ^ 8 * (unat d div 2 ^ 8 mod 2 ^ (8 * n)) + unat d mod 2 ^ 8"
      by (simp add: power_add mod_mult2_eq)
    then show ?case using Suc(1) [of "drop_bit 8 d"] by (simp add: low_byte unat_drop del: unsigned_ucast_eq)
  next
    case 2
    show ?case using Suc(2) by simp
  }
qed auto

lemma store_last_val:
  "unat d < 2 ^ (8 * n) \<Longrightarrow> 0 < n \<Longrightarrow>
     bytes_val (store_last d) = unat d \<and> store_last d \<noteq> [] \<and> length (store_last d) \<le> n"
proof (induction d arbitrary: n rule: store_last.induct)
  case (1 d)
  let ?d = "drop_bit 8 d"
  have split: "unat d = unat d mod 2 ^ 8 + 2 ^ 8 * unat ?d" by (simp add: unat_drop)
  show ?case
  proof (cases "?d = 0")
    case True
    then have "store_last d = [ucast (d AND 0xff)]" by (subst store_last.simps) (simp add: Let_def)
    then show ?thesis using "1.prems"(2) split True low_byte [of d] by simp
  next
    case False
    then have nz: "0 < unat ?d" by (simp add: unat_gt_0)
    obtain k where n: "n = Suc k" using "1.prems"(2) by (cases n) auto
    have k: "unat ?d < 2 ^ (8 * k)"
      using "1.prems"(1) unfolding unat_drop n by (simp add: power_add less_mult_imp_div_less mult.commute)
    moreover have "0 < k" using k nz by (cases k) simp_all
    ultimately have IH: "bytes_val (store_last ?d) = unat ?d" "store_last ?d \<noteq> []" "length (store_last ?d) \<le> k"
      using "1.IH" [OF refl False] by blast+
    have "store_last d = ucast (d AND 0xff) # store_last ?d" using False by (subst store_last.simps) (simp add: Let_def)
    then show ?thesis using IH split low_byte [of d] n by simp
  qed
qed

lemma load_store_digit: "load_digit (store_digit 8 d) = d"
  using load_digit_val [of "store_digit 8 d"] store_digit_val [of 8 d] unat_digit [of d]
  by (simp add: word_unat_eq_iff)

lemma load_store_last: "load_digit (store_last d) = d" "store_last d \<noteq> []" "length (store_last d) \<le> 8"
proof -
  have v: "bytes_val (store_last d) = unat d" "store_last d \<noteq> []" "length (store_last d) \<le> 8"
    using store_last_val [of d 8] unat_digit [of d] by simp_all
  then show "store_last d \<noteq> []" "length (store_last d) \<le> 8" by simp_all
  show "load_digit (store_last d) = d" using load_digit_val [OF v(3)] v(1) by (simp add: word_unat_eq_iff)
qed

lemma load_store_loop: "ds \<noteq> [] \<Longrightarrow> load_loop (store_loop ds) = (butlast ds, store_last (last ds))"
proof (induction ds rule: store_loop.induct)
  case (1 d e ds)
  have "0 < length (store_loop (e # ds))" 
    using load_store_last(2) store_digit_val(2) [of 8 e] by (cases ds) (auto simp del: store_digit.simps)
  then show ?case
    using "1.IH" store_digit_val(2) [of 8 d]
    by (subst load_loop.simps) (simp add: load_store_digit del: store_digit.simps)
next
  case (2 d)
  then show ?case using load_store_last(3) [of d] by (subst load_loop.simps) simp
qed simp

lemma bytes_loop_length: "d \<noteq> 0 \<Longrightarrow> bytes_loop d sz = sz + length (store_last d)"
proof (induction d sz rule: bytes_loop.induct)
  case (1 d sz)
  then show ?case
    by (subst bytes_loop.simps, subst store_last.simps)
      (cases "drop_bit 8 d = 0", simp_all add: Let_def bytes_loop.simps [of 0])
qed

lemma store_loop_length: "ds \<noteq> [] \<Longrightarrow> length (store_loop ds) = (length ds - 1) * 8 + length (store_last (last ds))"
  by (induction ds rule: store_loop.induct) (simp_all add: store_digit_val(2) del: store_digit.simps)

subsection \<open>Machine integers\<close>

lemma sint_word_of_int: "- (2 ^ 63) \<le> v \<Longrightarrow> v < 2 ^ 63 \<Longrightarrow> sint (word_of_int v :: u64) = v"
  unfolding sint_sbintrunc' by (simp add: signed_take_bit_int_eq_self)

lemma small_fits: "is_small w \<Longrightarrow> - (2 ^ 63) \<le> signed_val w \<and> signed_val w < 2 ^ 63"
  using small_range [of w] by simp

lemma sint_digit: "sint (d :: u64) = (if unat d < 2 ^ 63 then int (unat d) else int (unat d) - 2 ^ 64)"
proof (cases "unat d < 2 ^ 63")
  case True
  have "int (unat d) < 2 ^ 63" using True by (simp only: of_nat_less_numeral_power_cancel_iff)
  moreover have "0 \<le> int (unat d)" by (rule of_nat_0_le_iff)
  ultimately have "sint (word_of_int (int (unat d)) :: u64) = int (unat d)" by (intro sint_word_of_int) linarith+
  then show ?thesis using True by simp
next
  case False
  have "(word_of_int (int (unat d) - 2 ^ 64) :: u64) = d" by (simp add: digit_base)
  moreover have "sint (word_of_int (int (unat d) - 2 ^ 64) :: u64) = int (unat d) - 2 ^ 64"
  proof -
    have "2 ^ 63 \<le> int (unat d)" using False by (simp only: not_less numeral_power_le_of_nat_cancel_iff)
    moreover have "int (unat d) < 2 ^ 64"
      using unat_digit [of d] by (simp only: of_nat_less_numeral_power_cancel_iff)
    ultimately show ?thesis by (intro sint_word_of_int) simp_all
  qed
  ultimately show ?thesis using False by (simp only: if_False)
qed

lemma unat_neg_digit: "d \<noteq> 0 \<Longrightarrow> unat (- d :: digit) = 2 ^ 64 - unat d"
  using borrow_val [of 0 d] by (simp add: word_gt_0)

lemma sint_neg_digit:
  assumes "d \<noteq> 0"
  shows "sint (- d :: u64) = (if unat d \<le> 2 ^ 63 then - int (unat d) else 2 ^ 64 - int (unat d))"
proof -
  have "0 < unat d" using assms by (simp add: unat_gt_0)
  then show ?thesis using unat_neg_digit [OF assms] sint_digit [of "- d"] unat_digit [of d] \<open>0 < unat d\<close> by auto
qed

end
