(* ===== verification/BigOps.thy ===== *)
theory BigOps
  imports BigTermThms
begin

text \<open>
  The operations on bignums as operations on integers. Their arguments are bignums, or digits of a small
  integer that was converted, zero included; each result is the term of the exact number, or \<open>NIL\<close> when
  that is too large.
\<close>

subsection \<open>Arguments\<close>

definition big_arg :: "bterm \<Rightarrow> bool" where
  "big_arg t \<longleftrightarrow>
     (case t of Imm _ \<Rightarrow> False | Bignum s ds \<Rightarrow> ds \<noteq> [] \<and> I_is_normalized ds \<and> (s \<longrightarrow> 0 < dval ds))"

lemma big_argE:
  assumes "big_arg t"
  obtains s ds where "t = Bignum s ds" "big_val t = Some (s, ds)" "ds \<noteq> []" "I_is_normalized ds"
    "s \<longrightarrow> 0 < dval ds" "bint t = sval s ds" "bint t \<noteq> 0 \<longrightarrow> normal ds"
proof (cases t)
  case (Bignum s ds)
  moreover have "bint t \<noteq> 0 \<longrightarrow> normal ds"
    using assms Bignum normalized_normal [of ds] by (auto simp: big_arg_def bint_def sval_def)
  ultimately show ?thesis using that [of s ds] assms by (simp add: big_arg_def big_val_def bint_def)
qed (use assms in \<open>simp add: big_arg_def\<close>)

lemma is_bignum_arg:
  assumes "is_bignum t"
  shows "big_arg t" "bint t \<noteq> 0"
proof -
  obtain s ds where t: "t = Bignum s ds" "normal ds" "bint t = sval s ds" by (rule is_bignumE [OF assms])
  show "big_arg t" "bint t \<noteq> 0"
    using t normal_pos [OF t(2)] normal_normalized [OF t(2)] by (simp_all add: big_arg_def sval_def normal_def)
qed

lemma abs_digit: "int (unat (if sint x > 0 then x else - x)) = \<bar>sint x\<bar>" for x :: u64
proof (cases "x = 0")
  case False
  define n m where "n = unat x" and "m = unat (- x)"
  have "m = 2 ^ 64 - n" unfolding n_def m_def by (rule unat_neg_digit [OF False])
  moreover have "n < 2 ^ 64" unfolding n_def by (rule unat_digit)
  moreover have "0 < n" using False by (simp add: n_def unat_gt_0)
  moreover have "sint x = (if n < 2 ^ 63 then int n else int n - 2 ^ 64)" unfolding n_def by (rule sint_digit)
  moreover have "unat (if sint x > 0 then x else - x) = (if sint x > 0 then n else m)" by (simp add: n_def m_def)
  ultimately show ?thesis by (auto simp: of_nat_diff)
qed simp

lemma small_to_big_arg: "big_arg (small_to_big x)" "bint (small_to_big x) = sint x"
proof -
  have "sint x < 0 \<Longrightarrow> x \<noteq> 0" by auto
  then have "sint x < 0 \<Longrightarrow> 0 < unat (- x)" by (simp add: unat_gt_0)
  then show "big_arg (small_to_big x)" by (simp add: small_to_big_def big_arg_def I_is_normalized_def)
  have "int (unat (if sint x > 0 then x else - x)) = \<bar>sint x\<bar>" by (rule abs_digit)
  then show "bint (small_to_big x) = sint x"
    by (cases "sint x = 0") (auto simp: small_to_big_def bint_def sval_def signed_eq_0_iff split: if_splits)
qed

text \<open>A bignum for the witnesses: one digit that is too large for a small integer.\<close>

lemma one_digit_bignum: "2 ^ 59 < unat d \<Longrightarrow> is_bignum (Bignum s [d])"
  by (auto simp: is_bignum_def bterm_ok_def normal_def IS_USMALL_iff BIG_ARITY_MAX_def)

subsection \<open>Operations with two arguments\<close>

text \<open>
  What a function on bignums promises that computes an operation on integers: \<open>dom\<close> says for which numbers.
\<close>

locale big_operation =
  fixes big_op :: "bterm \<Rightarrow> bterm \<Rightarrow> bterm option" and int_op :: "int \<Rightarrow> int \<Rightarrow> int"
    and dom :: "bterm \<Rightarrow> bterm \<Rightarrow> bool"
  assumes op_represents: "big_arg x \<Longrightarrow> big_arg y \<Longrightarrow> dom x y \<Longrightarrow> represents (big_op x y) (int_op (bint x) (bint y))"
begin

lemma op_cases:
  assumes "big_arg x" "big_arg y" "dom x y"
  obtains "too_big (int_op (bint x) (bint y))" "big_op x y = Some (Imm NIL)"
  | t where "\<not> too_big (int_op (bint x) (bint y))" "big_op x y = Some t" "bterm_ok t" "bint t = int_op (bint x) (bint y)"
  using op_represents [OF assms] by (auto simp: represents_def split: option.splits if_splits)

end

interpretation plus: big_operation big_plus "(+)" "\<lambda>_ _. True"
proof
  fix x y assume a: "big_arg x" "big_arg y"
  obtain xs xd where x: "big_val x = Some (xs, xd)" "xd \<noteq> []" "I_is_normalized xd" "bint x = sval xs xd"
    by (rule big_argE [OF a(1)])
  obtain ys yd where y: "big_val y = Some (ys, yd)" "yd \<noteq> []" "I_is_normalized yd" "bint y = sval ys yd"
    by (rule big_argE [OF a(2)])
  show "represents (big_plus x y) (bint x + bint y)"
    using B_plus_minus_represents [OF x(3) y(3) x(2) y(2), of xs ys] x y by (simp add: big_plus_def)
qed

interpretation minus: big_operation big_minus "(-)" "\<lambda>_ _. True"
proof
  fix x y assume a: "big_arg x" "big_arg y"
  obtain xs xd where x: "big_val x = Some (xs, xd)" "xd \<noteq> []" "I_is_normalized xd" "bint x = sval xs xd"
    by (rule big_argE [OF a(1)])
  obtain ys yd where y: "big_val y = Some (ys, yd)" "yd \<noteq> []" "I_is_normalized yd" "bint y = sval ys yd"
    by (rule big_argE [OF a(2)])
  have "sval (\<not> ys) yd = - sval ys yd" by (simp add: sval_def)
  then show "represents (big_minus x y) (bint x - bint y)"
    using B_plus_minus_represents [OF x(3) y(3) x(2) y(2), of xs "\<not> ys"] x y by (simp add: big_minus_def)
qed

lemma big_plus_small_represents:
  assumes "is_bignum x" "unat c < 2 ^ 59"
  shows "represents (big_plus_small x c) (bint x + int (unat c))"
proof -
  obtain xs xd where x: "x = Bignum xs xd" "big_val x = Some (xs, xd)" "normal xd" "bint x = sval xs xd"
    "\<not> (length xd = 1 \<and> IS_USMALL xs (hd xd))" using is_bignumE [OF assms(1)] by blast
  show ?thesis
  proof (cases xs)
    case True
    have "2 ^ 59 \<le> int (dval xd)" using bignum_range [OF x(3,5)] True by (auto simp: sval_def)
    then have le: "unat c \<le> dval xd" using assms(2) by simp
    moreover have "xd \<noteq> []" using x(3) by (simp add: normal_def)
    ultimately obtain r where r: "D_sub xd c = Some r" "dval r = dval xd - unat c" "I_is_normalized r" "r \<noteq> []"
      using D_sub_val by blast
    have "sval True r = bint x + int (unat c)" using r(2) le x(4) True by (simp add: sval_def of_nat_diff)
    then show ?thesis
      using map_norm_represents(1) [OF r(1,3,4), of True] x(2) True by (simp add: big_plus_small_def)
  next
    case False
    have n: "normal (D_add xd c)" by (rule D_add_normal [OF x(3)])
    have "dval (D_add xd c) = dval xd + unat c" using D_add_val(1) [of c xd] x(3) by (simp add: normal_def)
    then have "sval False (D_add xd c) = bint x + int (unat c)" using x(4) False by (simp add: sval_def)
    then show ?thesis
      using norm_represents [OF normal_normalized [OF n], of False] n x(2) False
      by (simp add: big_plus_small_def normal_def)
  qed
qed

text \<open>Products, and a product with a number added to it.\<close>

lemma D_mul_zero: "D_mul [0] d = [0]"
  by (simp add: D_mul_def DSUMc_def DMULc_def DLOW_def DHIGH_def Let_def)

lemma big_product_zero:
  assumes "x \<noteq> []" "y \<noteq> []" "x = [0] \<or> y = [0]"
  shows "big_product same x y = Some [0]"
proof (cases "y = [0]")
  case False
  then have x: "x = [0]" using assms(3) by simp
  show ?thesis using D_mul_zero unfolding x by (cases "length y = 1") (auto simp: big_product_def D_mul_def [of y 0])
qed (auto simp: big_product_def D_mul_def)

lemma big_product_arg:
  assumes a: "big_arg x" "big_arg y" "same \<longrightarrow> x = y"
  obtains xs xd ys yd r where "big_val x = Some (xs, xd)" "big_val y = Some (ys, yd)" "big_product same xd yd = Some r"
    "I_is_normalized r" "r \<noteq> []" "sval (xs \<noteq> ys) r = bint x * bint y"
proof -
  obtain xs xd where x: "x = Bignum xs xd" "big_val x = Some (xs, xd)" "xd \<noteq> []" "I_is_normalized xd" "bint x = sval xs xd"
    by (rule big_argE [OF a(1)])
  obtain ys yd where y: "y = Bignum ys yd" "big_val y = Some (ys, yd)" "yd \<noteq> []" "I_is_normalized yd" "bint y = sval ys yd"
    by (rule big_argE [OF a(2)])
  have s: "same \<Longrightarrow> xd = yd" using a(3) x(1) y(1) by simp
  obtain r where r: "big_product same xd yd = Some r" "dval r = dval xd * dval yd" "I_is_normalized r" "r \<noteq> []"
  proof (cases "normal xd \<and> normal yd")
    case True
    then obtain r where r: "big_product same xd yd = Some r" "dval r = dval xd * dval yd" "normal r"
      using big_product_val [of xd yd same] s by blast
    then show thesis using that normal_normalized [OF r(3)] by (simp add: normal_def)
  next
    case False
    then have z: "xd = [0] \<or> yd = [0]"
      using x(3,4) y(3,4) by (auto simp: normal_def I_is_normalized_def length_Suc_conv)
    then show thesis using that [of "[0]"] big_product_zero [OF x(3) y(3) z] by (auto simp: I_is_normalized_def)
  qed
  have "sval (xs \<noteq> ys) r = bint x * bint y" unfolding x(5) y(5) by (rule sval_mult [OF r(2)])
  then show thesis using that x(2) y(2) r by blast
qed

interpretation times: big_operation "big_times same" "(*)"
  "\<lambda>x y. same \<longrightarrow> x = y" for same
proof
  fix x y assume a: "big_arg x" "big_arg y" "same \<longrightarrow> x = y"
  obtain xs xd ys yd r where r: "big_val x = Some (xs, xd)" "big_val y = Some (ys, yd)" "big_product same xd yd = Some r"
    "I_is_normalized r" "r \<noteq> []" "sval (xs \<noteq> ys) r = bint x * bint y"
    by (rule big_product_arg [OF a])
  show "represents (big_times same x y) (bint x * bint y)"
    using norm_represents [OF r(4,5), of "xs \<noteq> ys"] r by (simp add: big_times_def)
qed

lemma big_mul_add_represents:
  assumes "big_arg x" "big_arg y" "big_arg z" "same \<longrightarrow> x = y"
  shows "represents (big_mul_add same x y z) (bint x * bint y + bint z)"
proof -
  obtain xs xd ys yd r where r: "big_val x = Some (xs, xd)" "big_val y = Some (ys, yd)" "big_product same xd yd = Some r"
    "I_is_normalized r" "r \<noteq> []" "sval (xs \<noteq> ys) r = bint x * bint y"
    by (rule big_product_arg [OF assms(1,2,4)])
  obtain zs zd where z: "big_val z = Some (zs, zd)" "zd \<noteq> []" "I_is_normalized zd" "bint z = sval zs zd"
    by (rule big_argE [OF assms(3)])
  show ?thesis
    using B_plus_minus_represents [OF r(4) z(3) r(5) z(2), of "xs \<noteq> ys" zs] r z by (simp add: big_mul_add_def)
qed

text \<open>The product of two machine integers.\<close>

lemma small_times_exact:
  "bterm_ok (small_times x y) \<and> bint (small_times x y) = sint x * sint y"
proof -
  define xu yu where "xu = (if sint x > 0 then x else - x)" and "yu = (if sint y > 0 then y else - y)"
  let ?s = "(sint x < 0) \<noteq> (sint y < 0)"
  obtain d0 d1 where d: "DMULc xu yu 0 = (d0, d1)" by force
  have m: "unat d0 + 2 ^ 64 * unat d1 = unat xu * unat yu" using DMULc_val [OF d] by simp
  have abs: "int (unat xu) = \<bar>sint x\<bar>" "int (unat yu) = \<bar>sint y\<bar>"
    unfolding xu_def yu_def by (rule abs_digit)+
  have v: "sval ?s [d0, d1] = sint x * sint y"
  proof -
    have "int (dval [d0, d1]) = \<bar>sint x\<bar> * \<bar>sint y\<bar>"
      using arg_cong [OF m, of int] unfolding abs [symmetric] by simp
    then show ?thesis unfolding sval_def by (auto simp: abs_if split: if_splits)
  qed
  have t: "small_times x y = (if d1 = 0 \<and> IS_USMALL ?s d0 then Imm (make_small (if ?s then - d0 else d0))
      else Bignum ?s (if d1 \<noteq> 0 then [d0, d1] else [d0]))"
    using d by (simp add: small_times_def xu_def [symmetric] yu_def [symmetric] Let_def)
  show ?thesis
  proof (cases "d1 = 0")
    case True
    then have "sval ?s [d0, d1] = sval ?s [d0]" by (simp add: sval_def)
    then have v1: "sval ?s [d0] = sint x * sint y" using v by simp
    show ?thesis
    proof (cases "IS_USMALL ?s d0")
      case small: True
      have "bint (Imm (make_small (if ?s then - d0 else d0))) = sval ?s [d0]"
        using small_val [OF small] by (simp add: bint_def)
      then show ?thesis using True small v1 unfolding t by (simp add: bterm_ok_def)
    next
      case big: False
      then have "d0 \<noteq> 0" by (auto simp: IS_USMALL_iff)
      then show ?thesis
        using True big v1 unfolding t by (simp add: bterm_ok_def bint_def normal_def BIG_ARITY_MAX_def)
    qed
  next
    case False
    then show ?thesis using v unfolding t by (simp add: bterm_ok_def bint_def normal_def BIG_ARITY_MAX_def)
  qed
qed

subsection \<open>Bitwise operations and shifts\<close>

lemma computes_represents:
  assumes "computes res s v n"
  shows "represents (res \<bind> (\<lambda>r. Some (big_norm r s))) v"
proof -
  obtain r where r: "res = Some r" "sval s r = v" "r \<noteq> []" "I_is_normalized r"
    using assms by (auto simp: computes_def)
  then show ?thesis using map_norm_represents(2) by blast
qed

interpretation big_band: big_operation big_band "(AND)" "\<lambda>_ _. True"
proof
  fix x y assume a: "big_arg x" "big_arg y"
  obtain xs xd where x: "big_val x = Some (xs, xd)" "xd \<noteq> []" "xs \<longrightarrow> 0 < dval xd" "bint x = sval xs xd"
    by (rule big_argE [OF a(1)])
  obtain ys yd where y: "big_val y = Some (ys, yd)" "yd \<noteq> []" "ys \<longrightarrow> 0 < dval yd" "bint y = sval ys yd"
    by (rule big_argE [OF a(2)])
  show "represents (big_band x y) (bint x AND bint y)"
  proof (cases "length yd \<le> length xd")
    case True
    then show ?thesis
      using computes_represents [OF I_band_val [OF x(3) y(3) True y(2)]] x(1,4) y(1,4) by (simp add: big_band_def)
  next
    case False
    then have le: "length xd \<le> length yd" by simp
    show ?thesis
      using False computes_represents [OF I_band_val [OF y(3) x(3) le x(2)]] x(1,4) y(1,4)
      by (simp add: big_band_def and.commute conj_commute)
  qed
qed

interpretation big_bor: big_operation big_bor "(OR)" "\<lambda>_ _. True"
proof
  fix x y assume a: "big_arg x" "big_arg y"
  obtain xs xd where x: "big_val x = Some (xs, xd)" "xd \<noteq> []" "xs \<longrightarrow> 0 < dval xd" "bint x = sval xs xd"
    by (rule big_argE [OF a(1)])
  obtain ys yd where y: "big_val y = Some (ys, yd)" "yd \<noteq> []" "ys \<longrightarrow> 0 < dval yd" "bint y = sval ys yd"
    by (rule big_argE [OF a(2)])
  show "represents (big_bor x y) (bint x OR bint y)"
  proof (cases "length yd \<le> length xd")
    case True
    then show ?thesis
      using computes_represents [OF I_bor_val [OF x(3) y(3) True y(2)]] x(1,4) y(1,4) by (simp add: big_bor_def)
  next
    case False
    then have le: "length xd \<le> length yd" by simp
    show ?thesis
      using False computes_represents [OF I_bor_val [OF y(3) x(3) le x(2)]] x(1,4) y(1,4)
      by (simp add: big_bor_def or.commute disj_commute)
  qed
qed

interpretation big_bxor: big_operation big_bxor "(XOR)" "\<lambda>_ _. True"
proof
  fix x y assume a: "big_arg x" "big_arg y"
  obtain xs xd where x: "big_val x = Some (xs, xd)" "xd \<noteq> []" "xs \<longrightarrow> 0 < dval xd" "bint x = sval xs xd"
    by (rule big_argE [OF a(1)])
  obtain ys yd where y: "big_val y = Some (ys, yd)" "yd \<noteq> []" "ys \<longrightarrow> 0 < dval yd" "bint y = sval ys yd"
    by (rule big_argE [OF a(2)])
  show "represents (big_bxor x y) (bint x XOR bint y)"
  proof (cases "length yd \<le> length xd")
    case True
    then show ?thesis
      using computes_represents [OF I_bxor_val [OF x(3) y(3) True y(2)]] x(1,4) y(1,4) by (simp add: big_bxor_def)
  next
    case False
    then have le: "length xd \<le> length yd" by simp
    moreover have "(ys \<noteq> xs) = (xs \<noteq> ys)" by blast
    ultimately show ?thesis
      using False computes_represents [OF I_bxor_val [OF y(3) x(3) le x(2)]] x(1,4) y(1,4)
      by (simp add: big_bxor_def xor.commute)
  qed
qed

lemma big_bnot_represents:
  assumes "big_arg x" "bint x \<noteq> 0"
  shows "represents (big_bnot x) (NOT (bint x))"
proof -
  obtain xs xd where x: "big_val x = Some (xs, xd)" "bint x = sval xs xd" "bint x \<noteq> 0 \<longrightarrow> normal xd"
    by (rule big_argE [OF assms(1)])
  then have n: "normal xd" using assms(2) by simp
  have pos: "0 < dval xd" by (rule normal_pos [OF n])
  show ?thesis
  proof (cases xs)
    case True
    have "xd \<noteq> []" "unat (1 :: digit) \<le> dval xd" using n pos by (simp_all add: normal_def)
    then obtain r where r: "D_sub xd 1 = Some r" "dval r = dval xd - unat (1 :: digit)" "I_is_normalized r" "r \<noteq> []"
      using D_sub_val by blast
    have "sval False r = NOT (bint x)" using r(2) pos x(2) True by (simp add: sval_def not_int_def of_nat_diff)
    then show ?thesis
      using map_norm_represents(2) [OF r(1,3,4), of False] x(1) True by (simp add: big_bnot_def I_bnot_def)
  next
    case False
    have n1: "normal (D_add xd 1)" by (rule D_add_normal [OF n])
    have "sval True (D_add xd 1) = NOT (bint x)"
      using D_add_val(1) [of 1 xd] x(2) False by (simp add: sval_def not_int_def)
    then show ?thesis
      using norm_represents [OF normal_normalized [OF n1], of True] n1 x(1) False
      by (simp add: big_bnot_def I_bnot_def normal_def)
  qed
qed

lemma big_lshift_represents:
  assumes "big_arg x" "bint x \<noteq> 0"
  shows "represents (big_lshift x y) (if 0 \<le> y then bint x * 2 ^ nat y else bint x div 2 ^ nat (- y))"
proof -
  obtain xs xd where x: "big_val x = Some (xs, xd)" "bint x = sval xs xd" "bint x \<noteq> 0 \<longrightarrow> normal xd"
    by (rule big_argE [OF assms(1)])
  then have n: "normal xd" using assms(2) by simp
  note v = I_lshift_val [OF n, where sign = xs and y = y]
  have "big_lshift x y = Some (big_norm (I_lshift xd y xs) xs)" using x(1) by (simp add: big_lshift_def)
  then show ?thesis unfolding x(2) v(1) [symmetric] using norm_represents [OF v(3,2)] by simp
qed

subsection \<open>Division by a digit, comparing\<close>

lemma D_div_exact:
  assumes "normal x" "d \<noteq> 0"
  shows "\<exists>q r. D_div x d = Some (q, r) \<and> dval q = dval x div unat d \<and> unat r = dval x mod unat d
    \<and> I_is_normalized q"
proof -
  have "x \<noteq> []" using assms(1) by (simp add: normal_def)
  then obtain q r where q: "D_div x d = Some (q, r)" "dval q * unat d + unat r = dval x" "unat r < unat d"
    "I_is_normalized q" using D_div_val [of x d] assms by blast
  have "dval x div unat d = dval q" "dval x mod unat d = unat r" using q(3) unfolding q(2) [symmetric] by simp_all
  then show ?thesis using q by metis
qed

lemma big_ucomp_arg: "big_arg x \<Longrightarrow> big_arg y \<Longrightarrow> big_ucomp x y = Some (sgn (\<bar>bint x\<bar> - \<bar>bint y\<bar>))"
proof -
  assume a: "big_arg x" "big_arg y"
  obtain xs xd where x: "big_val x = Some (xs, xd)" "xd \<noteq> []" "I_is_normalized xd" "bint x = sval xs xd"
    by (rule big_argE [OF a(1)])
  obtain ys yd where y: "big_val y = Some (ys, yd)" "yd \<noteq> []" "I_is_normalized yd" "bint y = sval ys yd"
    by (rule big_argE [OF a(2)])
  show ?thesis using I_comp_val [OF x(3) y(3) x(2) y(2)] x y by (simp add: big_ucomp_def)
qed

end
