(* ===== verification/BigDiv.thy ===== *)
theory BigDiv
  imports BigMul BigShift
begin

text \<open>
  Division of digit vectors by a divisor of two digits or more (\<^verbatim>\<open>big.c\<close>): the schoolbook division
  \<open>I_div\<close>, which lets the remainder change its sign, the recursive division of Burnikel and Ziegler, and
  the dispatch between them.
\<close>

subsection \<open>Schoolbook division\<close>

text \<open>The quotient digit, and whether \<open>rp\<close> and \<open>qp\<close> move down by one digit.\<close>

definition quotient_digit :: "digit \<Rightarrow> digit \<Rightarrow> digit \<Rightarrow> digit \<Rightarrow> digit \<times> bool" where
  "quotient_digit b1 b2 a1 a2 =
     (if b1 < a1 then (DDIV2 a1 a2 b1 b2, False)
      else if b1 > a1 then (DDIV a1 a2 b1, True)
      else if b2 \<le> a2 then (1, False)
      else (D_MASK, True))"

text \<open>
  Moving \<open>qp\<close> by \<open>-j\<close> digits and \<open>ql\<close> by \<open>j\<close>: below \<open>qp\<close> the vector \<open>q\<close> still holds the zeros it was
  filled with.
\<close>

definition move_down :: "int \<Rightarrow> digit list \<Rightarrow> digit list" where
  "move_down j q = (if 0 \<le> j then replicate (nat j) 0 @ q else drop (nat (- j)) q)"

text \<open>
  From \<open>D_mulsub\<close> to the last assignment of \<open>nnsz\<close>: \<open>q0\<close> times \<open>y\<close> is subtracted from the \<open>nsz\<close> digits at
  \<open>rp\<close>, and \<open>r\<close> is negated when that was too much. The result is \<open>r\<close>, \<open>nnsz\<close> and \<open>r_signed\<close>.
\<close>

definition div_reduce ::
    "digit list \<Rightarrow> digit \<Rightarrow> nat \<Rightarrow> nat \<Rightarrow> nat \<Rightarrow> digit list \<Rightarrow> bool \<Rightarrow> (digit list \<times> nat \<times> bool) option" where
  "div_reduce y q0 rp nsz rl r neg = do {
     (w, nnsz) \<leftarrow> D_mulsub (take nsz (drop rp r)) q0 y;
     r \<leftarrow> Some (take rp r @ w @ drop (rp + nsz) r);
     (r, nnsz, neg) \<leftarrow>
       (if nnsz = 0 then do {
          z \<leftarrow> Z_sub (take rl r);
          Some (z @ replicate (rl - length z) 0 @ drop rl r,
                if nsz > rl - length z then nsz - (rl - length z) else 1, \<not> neg)
        } else Some (r, nnsz, neg));
     Some (r, if nnsz = 1 \<and> r ! rp = 0 then 0 else nnsz, neg)
   }"

text \<open>
  The locals of the loop. \<open>rv\<close> is the whole vector \<open>r\<close>, of which \<open>rl\<close> digits are in use; \<open>qv\<close> are the \<open>ql\<close>
  digits of \<open>q\<close> from \<open>qp\<close> on. The pointers \<open>rp\<close> and \<open>qp\<close> have the same offset \<open>off\<close> from \<open>r\<close> and \<open>q\<close>:
  every statement that moves one moves the other by as much.
\<close>

record div_state =
  rv :: "digit list"
  rl :: nat
  qv :: "digit list"
  off :: int
  r_signed :: bool

text \<open>
  The body of the loop; \<open>cap\<close> is the number of digits \<open>q\<close> has room for. \<open>None\<close>: a digit before the
  start of \<open>r\<close> is read, or one past the end of \<open>q\<close> is written.
\<close>

definition I_div_step :: "digit list \<Rightarrow> nat \<Rightarrow> div_state \<Rightarrow> div_state option" where
  "I_div_step y cap s =
     (let yl = length y; b1 = y ! (yl - 1); b2 = y ! (yl - 2); rp = nat (off s) in
      if off s < 0 then None
      else
        (let (q0, down) = quotient_digit b1 b2 (rv s ! (rp + yl - 1)) (rv s ! (rp + yl - 2));
             nsz = (if down then yl + 1 else yl);
             q = (if down then 0 # qv s else qv s)
         in if down \<and> rp = 0 then None
            else do {
              rp \<leftarrow> Some (if down then rp - 1 else rp);
              q \<leftarrow> (if r_signed s then D_sub q q0 else Some (D_add q q0));
              if rp + length q > cap then None
              else do {
                (r, nnsz, neg) \<leftarrow> div_reduce y q0 rp nsz (rl s) (rv s) (r_signed s);
                Some \<lparr>rv = r, rl = rl s - (nsz - nnsz), qv = move_down (int yl - int nnsz) q,
                      off = int rp - (int yl - int nnsz), r_signed = neg\<rparr>
              }
            }))"

partial_function (option) I_div_loop :: "digit list \<Rightarrow> nat \<Rightarrow> div_state \<Rightarrow> div_state option" where
  "I_div_loop y cap s = do {
     s \<leftarrow> I_div_step y cap s;
     if I_comp (take (rl s) (rv s)) y \<ge> 0 then I_div_loop y cap s else Some s
   }"

declare I_div_loop.simps [code]

text \<open>Quotient and remainder. \<open>None\<close> also when \<open>y\<close> has less than two digits or \<open>x\<close> less than \<open>y\<close>.\<close>

definition I_div :: "digit list \<Rightarrow> digit list \<Rightarrow> (digit list \<times> digit list) option" where
  "I_div x y =
     (let xl = length x; yl = length y; b1 = y ! (yl - 1); b2 = y ! (yl - 2);
          a1 = x ! (xl - 1); a2 = x ! (xl - 2)
      in if yl < 2 \<or> xl < yl then None
         else do {
           s \<leftarrow> I_div_loop y (xl - yl + 1)
             \<lparr>rv = x, rl = xl, qv = (if b1 < a1 \<or> (b1 = a1 \<and> b2 \<le> a2) then [0] else []),
              off = int (xl - yl), r_signed = False\<rparr>;
           q \<leftarrow> Some (move_down (off s) (qv s));
           r \<leftarrow> Some (trim (take (if rl s = 0 then 1 else rl s) (rv s)));
           if r_signed s \<and> (length r > 1 \<or> hd r \<noteq> 0) then do {
             r \<leftarrow> I_sub y r;
             q \<leftarrow> D_sub q 1;
             Some (q, r)
           }
           else Some (q, r)
         })"

end
