(* ===== verification/BigDivThms.thy ===== *)
theory BigDivThms
  imports BigDiv
begin

text \<open>
  The schoolbook division returns, with the exact quotient and remainder. A quotient digit may be too
  large by any amount; the remainder then changes its sign, and what makes the loop end is that its
  absolute value always decreases.
\<close>

subsection \<open>Quotient digits\<close>

lemma DLOW_small: "unat t < 2 ^ 64 \<Longrightarrow> unat (DLOW t) = unat t" for t :: ddigit
  using low_high [of t] unat_digit [of "DHIGH t"] by (cases "unat (DHIGH t)") simp_all

lemma DDIV_val:
  assumes "a1 < b"
  shows "unat (DDIV a1 a0 b) = (unat a1 * 2 ^ 64 + unat a0) div unat b"
proof -
  have "unat a1 * 2 ^ 64 + unat a0 < (unat a1 + 1) * 2 ^ 64" using unat_digit [of a0] by simp
  also have "\<dots> \<le> unat b * 2 ^ 64" using assms by (intro mult_le_mono1) (simp add: word_less_nat_alt)
  finally have "(unat a1 * 2 ^ 64 + unat a0) div unat b < 2 ^ 64"
    by (simp add: less_mult_imp_div_less mult.commute)
  then show ?thesis unfolding DDIV_def by (subst DLOW_small) (simp_all add: unat_div DDIGIT_val)
qed

lemma DDIV2_val:
  assumes "b1 \<noteq> 0"
  shows "unat (DDIV2 a1 a0 b1 b0) = (unat a1 * 2 ^ 64 + unat a0) div (unat b1 * 2 ^ 64 + unat b0)"
proof -
  have "unat a1 * 2 ^ 64 + unat a0 < 2 ^ 64 * 2 ^ 64"
    using unat_digit [of a0] unat_digit [of a1] by simp
  also have "\<dots> \<le> 2 ^ 64 * (unat b1 * 2 ^ 64 + unat b0)" using assms
    by (intro mult_le_mono2) (simp add: unat_gt_0 Suc_leI trans_le_add1)
  finally have "(unat a1 * 2 ^ 64 + unat a0) div (unat b1 * 2 ^ 64 + unat b0) < 2 ^ 64"
    by (simp add: less_mult_imp_div_less)
  then show ?thesis unfolding DDIV2_def by (subst DLOW_small) (simp_all add: unat_div DDIGIT_val)
qed

text \<open>
  What the loop needs of a quotient digit: it is not too large for the first digit of the divisor alone,
  it is zero only for a remainder that starts with zero, and the next remainder is shorter.
\<close>

lemma quotient_digit_val:
  assumes q: "quotient_digit b1 b2 a1 a2 = (q0, down)" and b1: "b1 \<noteq> 0"
  defines "A \<equiv> unat a1 * 2 ^ 64 + unat a2" and "B \<equiv> unat b1 * 2 ^ 64 + unat b2"
  shows "\<not> down \<Longrightarrow> unat q0 * unat b1 \<le> unat a1 \<and> B \<le> A"
    and "down \<Longrightarrow> unat q0 * unat b1 \<le> A \<and> (A + 1) * 2 ^ 64 \<le> unat q0 * B + 2 ^ 64 * 2 ^ 64 \<and> A < B"
    and "q0 = 0 \<Longrightarrow> down \<and> a1 = 0"
proof -
  define u1 u2 v1 v2 where "u1 = unat a1" and "u2 = unat a2" and "v1 = unat b1" and "v2 = unat b2"
  note u = u1_def [symmetric] u2_def [symmetric] v1_def [symmetric] v2_def [symmetric]
  have bd: "u2 < 2 ^ 64" "v2 < 2 ^ 64" "v1 < 2 ^ 64" "0 < v1"
    using unat_digit b1 unfolding u1_def u2_def v1_def v2_def by (auto simp: unat_gt_0)
  have AB: "A = u1 * 2 ^ 64 + u2" "B = v1 * 2 ^ 64 + v2" by (simp_all add: A_def B_def u)
  consider (1) "b1 < a1" | (2) "b1 > a1" | (3) "b1 = a1" "b2 \<le> a2" | (4) "b1 = a1" "b2 > a2" by force
  then have "(\<not> down \<longrightarrow> unat q0 * v1 \<le> u1 \<and> B \<le> A) \<and>
    (down \<longrightarrow> unat q0 * v1 \<le> A \<and> (A + 1) * 2 ^ 64 \<le> unat q0 * B + 2 ^ 64 * 2 ^ 64 \<and> A < B) \<and>
    (q0 = 0 \<longrightarrow> down \<and> u1 = 0)"
  proof cases
    case 1
    then have r: "unat q0 = A div B" "\<not> down" using q DDIV2_val [OF b1, of a1 a2 b2] by (auto simp: quotient_digit_def AB u split: if_splits)
    have "v1 + 1 \<le> u1" using 1 by (simp add: word_less_nat_alt u)
    then have "(v1 + 1) * 2 ^ 64 \<le> u1 * 2 ^ 64" by (rule mult_le_mono1)
    then have BA: "B \<le> A" using bd unfolding AB by simp
    moreover have "0 < B" using bd unfolding AB by simp
    ultimately have "q0 \<noteq> 0" using r(1) div_greater_zero_iff [of A B] by auto
    have "unat q0 * B \<le> A" by (simp add: r)
    then have "unat q0 * v1 * 2 ^ 64 \<le> A" unfolding AB by (simp add: distrib_left)
    also have "A < (u1 + 1) * 2 ^ 64" using bd unfolding AB by simp
    finally have "unat q0 * v1 < u1 + 1" by (simp only: mult_less_cancel2)
    then show ?thesis using r \<open>q0 \<noteq> 0\<close> BA by simp
  next
    case 2
    then have r: "unat q0 = A div v1" "down" using q DDIV_val [OF 2, of a2] by (auto simp: quotient_digit_def AB u split: if_splits)
    have "A < unat q0 * v1 + v1" using bd dividend_less_div_times [of v1 A] by (simp add: r)
    then have "A + 1 \<le> unat q0 * v1 + 2 ^ 64" using bd by simp
    then have "(A + 1) * 2 ^ 64 \<le> (unat q0 * v1 + 2 ^ 64) * 2 ^ 64" by (rule mult_le_mono1)
    also have "\<dots> \<le> unat q0 * B + 2 ^ 64 * 2 ^ 64" unfolding AB by (simp add: algebra_simps)
    finally have 1: "(A + 1) * 2 ^ 64 \<le> unat q0 * B + 2 ^ 64 * 2 ^ 64" .
    have "u1 = 0" if "q0 = 0"
    proof -
      have "A < 2 ^ 64" using that r bd by (simp add: div_eq_0_iff)
      then show ?thesis unfolding AB by (cases u1) simp_all
    qed
    moreover have "u1 + 1 \<le> v1" using 2 by (simp add: word_less_nat_alt u)
    then have "(u1 + 1) * 2 ^ 64 \<le> v1 * 2 ^ 64" by (rule mult_le_mono1)
    then have "A < B" using bd unfolding AB by simp
    moreover have "unat q0 * v1 \<le> A" by (simp add: r)
    ultimately show ?thesis using r(2) 1 by simp
  next
    case 3
    then have "unat q0 = 1" "\<not> down" "u1 = v1" "v2 \<le> u2" "q0 \<noteq> 0" using q
      by (auto simp: quotient_digit_def u1_def u2_def v1_def v2_def word_le_nat_alt split: if_splits)
    then show ?thesis unfolding AB by simp
  next
    case 4
    then have r: "unat q0 = 2 ^ 64 - 1" "down" "u1 = v1" "u2 < v2" using q
      by (auto simp: quotient_digit_def D_MASK_def u1_def u2_def v1_def v2_def word_less_nat_alt word_le_nat_alt unsigned_minus_1_eq_mask mask_eq_exp_minus_1
          split: if_splits)
    have "unat q0 * v1 \<le> A" unfolding AB r by (simp add: diff_mult_distrib trans_le_add1)
    moreover have "(A + 1) * 2 ^ 64 \<le> unat q0 * B + 2 ^ 64 * 2 ^ 64"
    proof -
      have "A + 1 \<le> B" using r unfolding AB by simp
      then have "(A + 1) * 2 ^ 64 \<le> B * 2 ^ 64" by (rule mult_le_mono1)
      also have "\<dots> = unat q0 * B + B" unfolding r by (simp add: diff_mult_distrib mult.commute)
      finally have "(A + 1) * 2 ^ 64 \<le> unat q0 * B + B" .
      moreover have "B \<le> 2 ^ 64 * 2 ^ 64" using bd unfolding AB by simp
      ultimately show ?thesis by linarith
    qed
    moreover have "q0 \<noteq> 0" using r(1) by auto
    ultimately show ?thesis using r unfolding AB by simp
  qed
  then show "\<not> down \<Longrightarrow> unat q0 * unat b1 \<le> unat a1 \<and> B \<le> A"
    "down \<Longrightarrow> unat q0 * unat b1 \<le> A \<and> (A + 1) * 2 ^ 64 \<le> unat q0 * B + 2 ^ 64 * 2 ^ 64 \<and> A < B"
    "q0 = 0 \<Longrightarrow> down \<and> a1 = 0"
    by (auto simp: u unat_eq_0 [symmetric])
qed

subsection \<open>Parts of vectors\<close>

abbreviation pw :: "nat \<Rightarrow> nat" where "pw n \<equiv> 2 ^ (64 * n)"

lemma pw_add: "pw (m + n) = pw m * pw n"
  by (simp add: power_add distrib_left)

lemma dval_split: "n \<le> length ds \<Longrightarrow> dval ds = dval (take n ds) + pw n * dval (drop n ds)"
  using dval_append [of "take n ds" "drop n ds"] by (simp add: min_absorb2)

lemma dval_top2:
  assumes "length ds = n + 2"
  shows "dval ds = dval (take n ds) + pw n * (unat (ds ! (n + 1)) * 2 ^ 64 + unat (ds ! n))"
    "dval (take n ds) < pw n"
proof -
  have "drop n ds = [ds ! n, ds ! (n + 1)]"
    using assms by (simp add: Cons_nth_drop_Suc [symmetric])
  then show "dval ds = dval (take n ds) + pw n * (unat (ds ! (n + 1)) * 2 ^ 64 + unat (ds ! n))"
    using dval_split [of n ds] assms by (simp add: algebra_simps)
  show "dval (take n ds) < pw n" using dval_bound [of "take n ds"] assms by (simp add: min_absorb2)
qed

lemma strip_loop_zeros: "\<exists>k. ds = replicate k 0 @ strip_loop ds"
proof (induction ds rule: strip_loop.induct)
  case (1 d e ds)
  show ?case
  proof (cases "d = 0")
    case True
    with 1 obtain k where "e # ds = replicate k 0 @ strip_loop (e # ds)" by blast
    then have "d # e # ds = replicate (Suc k) 0 @ strip_loop (d # e # ds)" using True by simp
    then show ?thesis by blast
  qed (auto intro: exI [of _ 0])
qed (auto intro: exI [of _ 0])

lemma trim_zeros: "ds = trim ds @ replicate (length ds - length (trim ds)) 0"
proof -
  obtain k where k: "rev ds = replicate k 0 @ strip_loop (rev ds)" using strip_loop_zeros by blast
  then have e: "ds = trim ds @ replicate k 0" unfolding trim_def
    by (metis rev_append rev_replicate rev_rev_ident)
  then have "length ds = length (trim ds) + k" by (metis length_append length_replicate)
  then show ?thesis using e by simp
qed

lemma trim_empty [simp]: "trim [] = []"
  by (simp add: trim_def)

lemma trim_normalized: "I_is_normalized ds \<Longrightarrow> trim ds = ds"
proof (cases "rev ds" rule: strip_loop.cases)
  case (1 d e rest)
  assume n: "I_is_normalized ds"
  have ds: "ds = rev rest @ [e, d]" using 1 by (metis append.assoc append_Cons append_Nil rev.simps(2) rev_rev_ident)
  then have "d \<noteq> 0" using n by (auto simp: I_is_normalized_def)
  then show ?thesis using 1 by (simp add: trim_def ds)
qed (simp_all add: trim_def)

lemma trim_length: "dval ds < pw m \<Longrightarrow> 1 \<le> m \<Longrightarrow> length (trim ds) \<le> m"
proof (rule ccontr)
  assume a: "dval ds < pw m" "1 \<le> m" "\<not> length (trim ds) \<le> m"
  have "trim ds \<noteq> []" using a(3) by auto
  then have "normal (trim ds)" using trim_norm [of ds] a(2,3) by (auto simp: normal_def I_is_normalized_def)
  then have "pw (length (trim ds) - 1) \<le> dval ds" by (simp add: normal_iff)
  moreover have "pw m \<le> pw (length (trim ds) - 1)" using a by (intro power_increasing) simp_all
  ultimately show False using a(1) by (meson leD le_trans)
qed

lemma dval_take_zeros: "dval (take n (ds @ replicate k 0)) = dval ds" if "length ds \<le> n"
  using that by (simp add: dval_append)

subsection \<open>Reducing the remainder\<close>

text \<open>The result of reducing: the remainder, its size and whether the sign changed.\<close>

definition reduced :: "nat \<Rightarrow> nat \<Rightarrow> nat \<Rightarrow> digit list \<Rightarrow> nat \<Rightarrow> bool" where
  "reduced rp nsz v r n \<longleftrightarrow> n \<le> nsz \<and> dval (take (rp + n) r) = v \<and> (n = 0 \<longrightarrow> r ! rp = 0) \<and>
     (\<forall>m. 1 \<le> m \<longrightarrow> v < pw (rp + m) \<longrightarrow> n \<le> m)"

lemma reduced_zero:
  assumes "reduced rp nsz v r n" "rp + nsz \<le> length r" "1 \<le> nsz"
  shows "reduced rp nsz v r (if n = 1 \<and> r ! rp = 0 then 0 else n)"
proof (cases "n = 1 \<and> r ! rp = 0")
  case True
  then have "take (rp + 1) r = take rp r @ [0]" using assms(2,3) by (simp add: take_Suc_conv_app_nth)
  then show ?thesis using assms(1) True by (auto simp: reduced_def)
qed (use assms in auto)

lemma mulsub_reduced:
  assumes "dval w < pw nsz" "length w = nsz" "length lo = rp" "1 \<le> nsz"
  shows "reduced rp nsz (dval lo + pw rp * dval w) (lo @ w @ rest) (length (trim w))"
proof -
  have "take (length (trim w)) w = trim w" using trim_zeros [of w] by (metis append_eq_conv_conj)
  then have "take (rp + length (trim w)) (lo @ w @ rest) = lo @ trim w"
    using length_trim [of w] assms(3) by (simp add: min_absorb2)
  then have "dval (take (rp + length (trim w)) (lo @ w @ rest)) = dval lo + pw rp * dval w"
    using assms(3) by (simp add: dval_append)
  moreover have "length (trim w) \<le> m" if "1 \<le> m" "dval lo + pw rp * dval w < pw (rp + m)" for m
  proof (rule trim_length [OF _ that(1)])
    have "pw rp * dval w < pw rp * pw m" using that(2) le_less_trans [OF le_add2] unfolding pw_add by blast
    then show "dval w < pw m" by simp
  qed
  moreover have "trim w \<noteq> []" using assms(2,4) by auto
  ultimately show ?thesis using length_trim [of w] assms(2) by (simp add: reduced_def)
qed

lemma zsub_reduced:
  assumes "I_is_normalized z" "z \<noteq> []" "length z \<le> rp + nsz" "1 \<le> nsz"
  shows "reduced rp nsz (dval z) (z @ replicate (rp + nsz - length z) 0 @ rest)
    (if nsz > rp + nsz - length z then nsz - (rp + nsz - length z) else 1)" (is "reduced _ _ _ ?r ?n")
proof -
  have n: "?n \<le> nsz" "length z \<le> rp + ?n" using assms(3,4) by auto
  have "take (rp + ?n) ?r = take (rp + ?n) (z @ replicate (rp + nsz - length z) 0)"
    using n assms(3) by simp
  then have "dval (take (rp + ?n) ?r) = dval z" using dval_take_zeros [OF n(2)] by (simp only:)
  moreover have "?n \<le> m" if "1 \<le> m" "dval z < pw (rp + m)" for m
  proof -
    have "trim z = z" by (rule trim_normalized [OF assms(1)])
    then have "length z \<le> rp + m" using trim_length [OF that(2)] that(1) by simp
    then show ?thesis using that(1) assms(3) by auto
  qed
  moreover have "?n \<noteq> 0" by simp
  ultimately show ?thesis using n(1) unfolding reduced_def by blast
qed

lemma div_reduce_val:
  assumes y: "y \<noteq> []" and nsz: "nsz = length y \<or> nsz = length y + 1" and len: "rp + nsz \<le> length r"
    and q: "unat q0 * dval y * pw rp < 2 * dval (take (rp + nsz) r) \<or> q0 = 0"
  defines "v \<equiv> dval (take (rp + nsz) r)" and "d \<equiv> unat q0 * dval y * pw rp"
  obtains r' n where
    "div_reduce y q0 rp nsz (rp + nsz) r neg = Some (r', n, if v < d then \<not> neg else neg)"
    "length r' = length r" "reduced rp nsz (if v < d then d - v else v - d) r' n"
proof -
  define lo hi where "lo = take rp r" and "hi = take nsz (drop rp r)"
  have lh: "length lo = rp" "length hi = nsz" "take (rp + nsz) r = lo @ hi"
    using len by (simp_all add: lo_def hi_def min_absorb2 take_add)
  have n1: "1 \<le> nsz" using nsz y by (cases y) auto
  have v: "v = dval lo + pw rp * dval hi" by (simp add: v_def lh dval_append)
  have lo: "dval lo < pw rp" using dval_bound [of lo] lh(1) by simp
  obtain w k b where w: "D_mulsub hi q0 y = Some (w, k)" "length w = nsz"
    "dval w + unat q0 * dval y = dval hi + pw nsz * b"
    "k = (if dval hi < unat q0 * dval y then 0 else length (trim w))"
    using D_mulsub_val [OF y, of hi q0] nsz lh(2) by metis
  have neg: "v < d \<longleftrightarrow> dval hi < unat q0 * dval y"
  proof
    assume "v < d"
    then have "pw rp * dval hi < pw rp * (unat q0 * dval y)"
      using le_less_trans [OF le_add2] unfolding v d_def by (simp only: mult_ac)
    then show "dval hi < unat q0 * dval y" by simp
  next
    assume "dval hi < unat q0 * dval y"
    then have "pw rp * (dval hi + 1) \<le> d" unfolding d_def by (metis Suc_eq_plus1 Suc_leI mult.commute mult_le_mono2)
    then show "v < d" using lo unfolding v by (simp add: distrib_left)
  qed
  have t: "take (rp + nsz) (lo @ w @ rest) = lo @ w" for rest using lh(1) w(2) by simp
  have dlw: "dval (lo @ w) + d = v + pw (rp + nsz) * b"
  proof -
    have "pw rp * (dval w + unat q0 * dval y) = pw rp * (dval hi + pw nsz * b)" using w(3) by simp
    then show ?thesis unfolding dval_append lh(1) v d_def pw_add by (simp add: distrib_left distrib_right mult_ac)
  qed
  have bnd: "dval (lo @ w) < pw (rp + nsz)" using dval_bound [of "lo @ w"] lh(1) w(2) by simp
  let ?r = "lo @ w @ drop (rp + nsz) r"
  have lr: "length ?r = length r" using lh(1) w(2) len by simp
  show thesis
  proof (cases "v < d")
    case False
    then have k: "k = length (trim w)" "k \<noteq> 0" using w(2,4) neg n1 by (auto simp: trim_Nil)
    have "dval w < pw nsz" using dval_bound [of w] w(2) by simp
    from mulsub_reduced [OF this w(2) lh(1) n1, of "drop (rp + nsz) r"]
    have red: "reduced rp nsz (dval (lo @ w)) ?r k" using lh(1) by (simp add: k dval_append)
    have e: "dval (lo @ w) = v - d" using no_borrow(2) [OF dlw bnd] False by simp
    have "div_reduce y q0 rp nsz (rp + nsz) r neg = Some (?r, if k = 1 \<and> ?r ! rp = 0 then 0 else k, neg)"
      using k(2) by (simp only: div_reduce_def lo_def [symmetric] hi_def [symmetric] w(1) bind.bind_lunit prod.case
          if_False simp_thms)
    moreover have "reduced rp nsz (v - d) ?r (if k = 1 \<and> ?r ! rp = 0 then 0 else k)"
      unfolding e [symmetric] by (rule reduced_zero [OF red _ n1]) (simp only: lr len)
    ultimately show thesis using that lr unfolding if_not_P [OF False] by blast
  next
    case True
    then have q0: "q0 \<noteq> 0" and d: "d < 2 * v" using q by (auto simp: d_def v_def)
    have vb: "v < pw (rp + nsz)" using dval_bound [of "take (rp + nsz) r"] len by (simp add: v_def min_absorb2)
    have b: "b = 1"
    proof -
      have "b \<noteq> 0" using dlw True bnd by (cases b) auto
      moreover have "b < 2"
      proof (rule ccontr)
        assume "\<not> b < 2"
        then have "pw (rp + nsz) * 2 \<le> pw (rp + nsz) * b" by (intro mult_le_mono2) simp
        then show False using dlw bnd d vb by linarith
      qed
      ultimately show ?thesis by simp
    qed
    have k: "k = 0" using w(4) neg True by simp
    have e: "dval (lo @ w) = pw (rp + nsz) - (d - v)" "0 < dval (lo @ w)"
      using dlw b True d vb by simp_all
    have ne: "lo @ w \<noteq> []" using w(2) n1 by auto
    obtain z where z: "Z_sub (lo @ w) = Some z" "dval z = pw (rp + nsz) - dval (lo @ w)" "I_is_normalized z"
      using Z_sub_val [OF ne e(2)] lh(1) w(2) by auto
    have zl: "z \<noteq> []" "length z \<le> rp + nsz"
    proof -
      have "z = trim (zsub_loop (lo @ w) 0)" using z(1) ne by (auto simp: Z_sub_def split: if_splits)
      moreover have "length (zsub_loop (lo @ w) 0) = rp + nsz"
        using zsub_loop_val [of 0 "lo @ w"] lh(1) w(2) by auto
      ultimately show "z \<noteq> []" "length z \<le> rp + nsz"
        using length_trim [of "zsub_loop (lo @ w) 0"] n1 by (auto simp: trim_Nil)
    qed
    have zv: "dval z = d - v" using z(2) e(1) True d vb by simp
    let ?z = "z @ replicate (rp + nsz - length z) 0 @ drop (rp + nsz) ?r"
    define n where "n = (if nsz > rp + nsz - length z then nsz - (rp + nsz - length z) else 1)"
    have red: "reduced rp nsz (d - v) ?z n"
      using zsub_reduced [OF z(3) zl n1, of "drop (rp + nsz) ?r"] by (simp only: zv n_def)
    have lz: "length ?z = length r" using zl(2) lr len by simp
    have "div_reduce y q0 rp nsz (rp + nsz) r neg = Some (?z, if n = 1 \<and> ?z ! rp = 0 then 0 else n, \<not> neg)"
      by (simp only: div_reduce_def lo_def [symmetric] hi_def [symmetric] w(1) k bind.bind_lunit prod.case
          if_True t z(1) n_def [symmetric] simp_thms)
    moreover have "reduced rp nsz (d - v) ?z (if n = 1 \<and> ?z ! rp = 0 then 0 else n)"
      by (rule reduced_zero [OF red _ n1]) (simp only: lz len)
    ultimately show thesis using that lz unfolding if_P [OF True] by blast
  qed
qed

subsection \<open>The divisor and the quotient digit\<close>

text \<open>A vector is its first digit and the rest.\<close>

lemma dval_butlast_last:
  assumes "ds \<noteq> []"
  shows "dval ds = dval (butlast ds) + pw (length ds - 1) * unat (last ds)" "dval (butlast ds) < pw (length ds - 1)"
  using dval_append [of "butlast ds" "[last ds]"] assms dval_bound [of "butlast ds"] by simp_all

text \<open>
  The numbers of a step: \<open>v\<close> the remainder, \<open>d\<close> what is subtracted from it, \<open>rp\<close> and \<open>nsz\<close> as the code has
  them after moving down.
\<close>

lemma step_numbers:
  assumes y: "2 \<le> length y" "last y \<noteq> 0" and r: "length r = rp0 + length y"
    and q: "quotient_digit (y ! (length y - 1)) (y ! (length y - 2)) (r ! (rp0 + length y - 1))
       (r ! (rp0 + length y - 2)) = (q0, down)"
    and rp: "down \<longrightarrow> 0 < rp0"
  defines "rp \<equiv> (if down then rp0 - 1 else rp0)" and "d \<equiv> unat q0 * dval y * pw (if down then rp0 - 1 else rp0)"
  shows "d \<le> dval r + unat q0 * dval (butlast y) * pw rp"
    and "q0 \<noteq> 0 \<Longrightarrow> d < 2 * dval r"
    and "q0 = 0 \<Longrightarrow> down \<and> dval r < pw (rp + length y)"
    and "down \<Longrightarrow> dval r < d + pw (rp + length y)"
proof -
  define m where "m = length y - 2"
  have ym: "length y = m + 2" using y(1) by (simp add: m_def)
  define a1 a2 b1 b2 where "a1 = r ! (rp0 + m + 1)" and "a2 = r ! (rp0 + m)" and "b1 = y ! (m + 1)" and "b2 = y ! m"
  define A B where "A = unat a1 * 2 ^ 64 + unat a2" and "B = unat b1 * 2 ^ 64 + unat b2"
  have q': "quotient_digit b1 b2 a1 a2 = (q0, down)" using q by (simp add: ym a1_def a2_def b1_def b2_def)
  have "y \<noteq> []" using y(1) by auto
  then have lb: "b1 = last y" by (simp add: b1_def last_conv_nth ym)
  then have b1: "b1 \<noteq> 0" using y(2) by simp
  note qd = quotient_digit_val [OF q' b1, folded A_def B_def]
  have R: "dval r = dval (take (rp0 + m) r) + pw (rp0 + m) * A" "dval (take (rp0 + m) r) < pw (rp0 + m)"
    using dval_top2 [of r "rp0 + m"] r unfolding A_def a1_def a2_def ym by simp_all
  have Rlt: "dval r < pw (rp0 + m) * (A + 1)" using R by (simp add: distrib_left)
  have Y: "dval y = dval (take m y) + pw m * B"
    using dval_top2(1) [of y m] unfolding B_def b1_def b2_def ym by simp
  define e where "e = dval (butlast y)"
  have E: "dval y = e + pw (m + 1) * unat b1" "e < pw (m + 1)"
    using dval_butlast_last [OF \<open>y \<noteq> []\<close>] ym unfolding e_def lb by simp_all
  have one: "(2 :: nat) ^ 64 = pw 1" by simp
  have K1: "unat q0 * unat b1 * pw (rp + m + 1) \<le> dval r"
  proof (cases down)
    case False
    then have "unat q0 * unat b1 * pw (rp0 + m + 1) \<le> unat a1 * pw (rp0 + m + 1)"
      using qd(1) by (intro mult_le_mono1) simp
    also have "unat a1 * pw (rp0 + m + 1) = pw (rp0 + m) * (unat a1 * 2 ^ 64)" unfolding pw_add one by simp
    also have "\<dots> \<le> dval r" unfolding R(1) A_def by (simp add: distrib_left)
    finally show ?thesis using False by (simp add: rp_def)
  next
    case True
    have "unat q0 * unat b1 * pw (rp0 + m) \<le> A * pw (rp0 + m)"
      using qd(2) True by (intro mult_le_mono1) simp
    also have "\<dots> \<le> dval r" unfolding R(1) by (simp add: mult.commute)
    finally show ?thesis using True rp by (simp add: rp_def)
  qed
  have d: "d = unat q0 * unat b1 * pw (rp + m + 1) + unat q0 * e * pw rp"
    unfolding d_def rp_def [symmetric] E(1) pw_add by (simp add: distrib_left distrib_right mult_ac)
  then show "d \<le> dval r + unat q0 * dval (butlast y) * pw rp" using K1 by (simp add: e_def)
  show "d < 2 * dval r" if "q0 \<noteq> 0"
  proof -
    have "e * pw rp < pw (rp + m + 1)" using E(2) by (simp only: pw_add [of _ "m + 1", folded add.assoc] mult.commute [of "pw rp"]) simp
    then have "unat q0 * (e * pw rp) < unat q0 * pw (rp + m + 1)" using that by (simp add: unat_gt_0)
    also have "\<dots> \<le> unat q0 * unat b1 * pw (rp + m + 1)"
      using b1 by (intro mult_le_mono1) (simp add: unat_gt_0 Suc_leI)
    also have "\<dots> \<le> dval r" by (rule K1)
    finally show ?thesis using d K1 by (simp add: mult.assoc)
  qed
  show "down \<and> dval r < pw (rp + length y)" if "q0 = 0"
  proof -
    have z: "down" "a1 = 0" using qd(3) that by simp_all
    then have "A + 1 \<le> 2 ^ 64" using unat_digit [of a2] by (simp add: A_def)
    then have "pw (rp0 + m) * (A + 1) \<le> pw (rp0 + m) * 2 ^ 64" by (rule mult_le_mono2)
    then have "dval r < pw (rp0 + m) * 2 ^ 64" by (rule less_le_trans [OF Rlt])
    also have "\<dots> = pw (rp0 + m + 1)" unfolding pw_add one ..
    finally show ?thesis using z rp by (simp add: rp_def ym)
  qed
  show "dval r < d + pw (rp + length y)" if dn: down
  proof -
    define p where "p = pw (rp + m)"
    have r1: "rp0 = rp + 1" using rp dn by (simp add: rp_def)
    have two: "pw 2 = 2 ^ 64 * 2 ^ 64" by simp
    have pw0: "pw (rp0 + m) = p * 2 ^ 64" unfolding r1 p_def one pw_add by (simp only: mult_ac)
    have pw2: "pw (rp + length y) = p * (2 ^ 64 * 2 ^ 64)" unfolding ym p_def two [symmetric] pw_add by (simp only: mult_ac)
    have "dval r < pw (rp0 + m) * (A + 1)" by (rule Rlt)
    also have "\<dots> = p * ((A + 1) * 2 ^ 64)" unfolding pw0 by (simp only: mult_ac)
    also have "\<dots> \<le> p * (unat q0 * B + 2 ^ 64 * 2 ^ 64)" using qd(2) dn by (intro mult_le_mono2) blast
    also have "\<dots> = unat q0 * (pw m * B) * pw rp + pw (rp + length y)"
      unfolding pw2 unfolding p_def pw_add by (simp add: distrib_left mult_ac)
    also have "unat q0 * (pw m * B) * pw rp \<le> d"
      unfolding d_def rp_def [symmetric] Y by (intro mult_le_mono) simp_all
    finally show ?thesis by simp
  qed
qed

subsection \<open>The quotient\<close>

lemma move_down_move_down:
  assumes "0 \<le> j"
  shows "move_down (int k - j) (move_down j q) = move_down (int k) q"
proof -
  obtain i where j: "j = int i" using assms nonneg_int_cases by blast
  show ?thesis
  proof (cases "i \<le> k")
    case True
    then have "nat (int k - j) = k - i" by (simp add: j)
    then show ?thesis using True by (simp add: move_down_def j replicate_add [symmetric])
  next
    case False
    then have "nat (- (int k - j)) = i - k" by (simp add: j)
    then show ?thesis using False by (simp add: move_down_def j)
  qed
qed

lemma move_down_0 [simp]: "move_down 0 q = q"
  by (simp add: move_down_def)

lemma move_down_dval: "dval (move_down (int k) q) = pw k * dval q" "length (move_down (int k) q) = k + length q"
  by (simp_all add: move_down_def dval_append)

lemma D_add_grows: "length (D_add q c) = length q \<or> length (D_add q c) = length q + 1 \<and> pw (length q) \<le> dval (D_add q c)"
proof -
  obtain r d where r: "carry_loop q c = (r, d)" by force
  have "length r = length q" using carry_loop_val [OF r] by simp
  then show ?thesis using r by (auto simp: D_add_def dval_append)
qed

lemma D_add_digit_normal:
  assumes "normal q \<or> (\<exists>d. q = [d]) \<and> 0 < dval (D_add q c)" "q \<noteq> []"
  shows "normal (D_add q c)"
proof -
  have v: "dval (D_add q c) = dval q + unat c" using D_add_val(1) assms(2) by blast
  have ge: "pw (length q - 1) \<le> dval (D_add q c) \<or> length q = 1 \<and> 0 < dval (D_add q c)"
    using assms(1) v by (auto simp: normal_iff)
  show ?thesis
  proof (cases "length (D_add q c) = length q")
    case True
    then show ?thesis using ge assms(2) unfolding normal_iff by (cases "length q = 1") auto
  next
    case False
    then have "length (D_add q c) = length q + 1" "pw (length q) \<le> dval (D_add q c)" using D_add_grows by metis+
    then show ?thesis unfolding normal_iff by auto
  qed
qed

text \<open>Adding or subtracting a quotient digit.\<close>

lemma quotient_step:
  assumes "q \<noteq> []" "neg \<Longrightarrow> unat q0 \<le> dval q"
  obtains q' where "(if neg then D_sub q q0 else Some (D_add q q0)) = Some q'" "q' \<noteq> []"
    "dval q' = (if neg then dval q - unat q0 else dval q + unat q0)"
    "length q' \<le> length q \<or> length q' = length q + 1 \<and> pw (length q) \<le> dval q'"
    "(normal q \<or> (\<exists>d. q = [d])) \<and> 0 < dval q' \<longrightarrow> normal q'"
proof (cases neg)
  case True
  obtain r where r: "D_sub q q0 = Some r" "dval r = dval q - unat q0" "I_is_normalized r" "r \<noteq> []"
    "length r \<le> length q" using D_sub_val assms(1,2) True by metis
  then show thesis using that [of r] True assms(2) normalized_normal [OF r(3,4)] by (simp add: of_nat_diff)
next
  case False
  have a: "dval (D_add q q0) = dval q + unat q0" "length q \<le> length (D_add q q0)" using D_add_val assms(1) by blast+
  show thesis
  proof (rule that [of "D_add q q0"])
    show "D_add q q0 \<noteq> []" using a(2) assms(1) by auto
    show "length (D_add q q0) \<le> length q \<or> length (D_add q q0) = length q + 1 \<and> pw (length q) \<le> dval (D_add q q0)"
      using D_add_grows [of q q0] by auto
    show "(normal q \<or> (\<exists>d. q = [d])) \<and> 0 < dval (D_add q q0) \<longrightarrow> normal (D_add q q0)"
      using D_add_digit_normal [of q q0] assms(1) by blast
  qed (use False a in simp_all)
qed

subsection \<open>A step of the loop\<close>

text \<open>The number in \<open>q\<close>, and the invariant of the loop.\<close>

abbreviation div_rem :: "div_state \<Rightarrow> nat" where "div_rem s \<equiv> dval (take (rl s) (rv s))"

abbreviation div_quot :: "div_state \<Rightarrow> digit list" where "div_quot s \<equiv> move_down (off s) (qv s)"

definition div_inv :: "digit list \<Rightarrow> digit list \<Rightarrow> div_state \<Rightarrow> bool" where
  "div_inv x y s \<longleftrightarrow>
     length (rv s) = length x \<and> rl s \<le> length x \<and> (rl s = 0 \<longrightarrow> rv s ! 0 = 0) \<and> int (rl s) = off s + int (length y) \<and>
     length (div_quot s) \<le> length x - length y + 1 \<and> div_rem s \<le> dval x \<and>
     int (dval x) = int (dval (div_quot s)) * int (dval y) + (if r_signed s then - int (div_rem s) else int (div_rem s)) \<and>
     (r_signed s \<longrightarrow> div_rem s < dval x \<and> dval x + div_rem s < dval y * pw (length x - length y + 1))"

text \<open>The quotient has no leading zeros, neither in the digits in use nor in all of \<open>q\<close>.\<close>

definition q_normal :: "div_state \<Rightarrow> bool" where
  "q_normal s \<longleftrightarrow> normal (qv s) \<and> normal (div_quot s)"

text \<open>When the loop may go on: there are enough digits, and enough for the first two of \<open>y\<close>.\<close>

definition div_more :: "digit list \<Rightarrow> div_state \<Rightarrow> bool" where
  "div_more y s \<longleftrightarrow> 0 \<le> off s \<and> (off s = 0 \<longrightarrow> dval y \<le> div_rem s)"

text \<open>At the lowest place the code does not move down while the remainder is not less than \<open>y\<close>.\<close>

lemma down_less:
  assumes y: "2 \<le> length y" "last y \<noteq> 0" and r: "length r = length y"
    and q: "quotient_digit (y ! (length y - 1)) (y ! (length y - 2)) (r ! (length y - 1)) (r ! (length y - 2)) = (q0, True)"
  shows "dval r < dval y"
proof -
  define m where "m = length y - 2"
  have ym: "length y = m + 2" using y(1) by (simp add: m_def)
  define A B where "A = unat (r ! (m + 1)) * 2 ^ 64 + unat (r ! m)" and "B = unat (y ! (m + 1)) * 2 ^ 64 + unat (y ! m)"
  have "y \<noteq> []" using y(1) by auto
  then have "y ! (m + 1) \<noteq> 0" using y(2) by (simp add: last_conv_nth ym)
  then have "A + 1 \<le> B" using quotient_digit_val(2) [of "y ! (m + 1)" "y ! m" "r ! (m + 1)" "r ! m" q0 True] q
    by (simp add: ym A_def B_def)
  have "dval r < pw m * (A + 1)" using dval_top2 [of r m] r unfolding A_def ym by (simp add: distrib_left)
  also have "\<dots> \<le> pw m * B" using \<open>A + 1 \<le> B\<close> by (rule mult_le_mono2)
  also have "\<dots> \<le> dval y" using dval_top2(1) [of y m] ym unfolding B_def by simp
  finally show ?thesis .
qed

text \<open>How much a quotient digit can be too large.\<close>

lemma overshoot:
  fixes q0 :: digit
  assumes y: "y \<noteq> []" "last y \<noteq> 0" and l: "length y \<le> length x" "rp \<le> length x - length y"
  shows "dval x + unat q0 * dval (butlast y) * pw rp < dval y * pw (length x - length y + 1)"
proof -
  let ?c = "length x - length y" and ?e = "dval (butlast y)"
  have "unat q0 * ?e * pw rp \<le> 2 ^ 64 * ?e * pw ?c" using unat_digit [of q0] l(2)
    by (intro mult_le_mono power_increasing) simp_all
  also have "\<dots> = ?e * pw (?c + 1)" unfolding pw_add by simp
  finally have 1: "unat q0 * ?e * pw rp \<le> ?e * pw (?c + 1)" .
  have "length x = (length y - 1) + (?c + 1)" using l(1) y(1) by (cases y) simp_all
  then have "dval x < pw (length y - 1) * pw (?c + 1)" using dval_bound [of x] pw_add by metis
  also have "\<dots> \<le> pw (length y - 1) * unat (last y) * pw (?c + 1)"
    using y(2) by (intro mult_le_mono1) (simp add: unat_gt_0 Suc_leI)
  finally have "dval x < pw (length y - 1) * unat (last y) * pw (?c + 1)" .
  then show ?thesis using 1 unfolding dval_butlast_last(1) [OF y(1)] distrib_right by linarith
qed

lemma overshoot_low:
  fixes q0 :: digit
  assumes "y \<noteq> []"
  shows "unat q0 * dval (butlast y) * pw rp < pw (rp + length y)"
proof -
  have "unat q0 * dval (butlast y) \<le> 2 ^ 64 * dval (butlast y)" using unat_digit [of q0] by (intro mult_le_mono1) simp
  also have "\<dots> < pw 1 * pw (length y - 1)" using dval_butlast_last(2) [OF assms] by simp
  also have "\<dots> = pw (length y)" unfolding pw_add [symmetric] using assms by (cases y) simp_all
  finally show ?thesis unfolding pw_add by simp
qed

text \<open>The equation of the invariant, and the bounds, after a step.\<close>

lemma step_value:
  fixes x q q0 :: nat and neg :: bool and v d :: nat
  assumes "int x = int (P * q) * int Y + (if neg then - int v else int v)" "d = q0 * Y * P"
    and "q' = (if neg then q - q0 else q + q0)" "neg \<longrightarrow> q0 \<le> q"
  shows "int x = int (P * q') * int Y + (if (if v < d then \<not> neg else neg) then - int (if v < d then d - v else v - d)
    else int (if v < d then d - v else v - d))"
proof -
  have "q = (if neg then q' + q0 else q)" using assms(3,4) by (cases neg) simp_all
  moreover have "\<not> neg \<Longrightarrow> q' = q + q0" using assms(3) by simp
  ultimately show ?thesis using assms(1,2) by (cases neg) (auto simp: algebra_simps of_nat_diff)
qed

lemma quotient_room:
  fixes q q0 :: nat
  assumes "int x = int (P * q) * int Y - int v" "d = q0 * Y * P" "v < x" "q0 \<noteq> 0 \<Longrightarrow> d < 2 * v" "0 < Y" "0 < P"
  shows "q0 < q"
proof -
  have "int (P * q * Y) = int (x + v)" using assms(1) by simp
  then have e: "q * (Y * P) = x + v" unfolding of_nat_eq_iff by (simp add: mult_ac)
  have "q0 * (Y * P) < x + v" using assms(2-4) by (cases "q0 = 0") (auto simp: mult.assoc)
  then have "q0 * (Y * P) < q * (Y * P)" by (simp only: e)
  then show ?thesis by simp
qed

text \<open>The next quotient and remainder: the equation holds again, the remainder gets smaller, and \<open>q\<close> has room.\<close>

lemma step_quotient:
  fixes q0 :: digit
  assumes y: "y \<noteq> []" "last y \<noteq> 0" and l: "length y \<le> length x" and q1: "q1 \<noteq> []" "rp + length q1 \<le> c"
    and eq: "int (dval x) = int (pw rp * dval q1) * int (dval y) + (if neg then - int v else int v)"
    and v: "v \<le> dval x" "neg \<longrightarrow> v < dval x \<and> dval x + v < dval y * pw c"
    and d: "d = unat q0 * dval y * pw rp" "d \<le> v + unat q0 * dval (butlast y) * pw rp" "q0 \<noteq> 0 \<Longrightarrow> d < 2 * v"
    and c: "c = length x - length y + 1"
  defines "v' \<equiv> if v < d then d - v else v - d" and "neg' \<equiv> if v < d then \<not> neg else neg"
  obtains q2 where "(if neg then D_sub q1 q0 else Some (D_add q1 q0)) = Some q2" "q2 \<noteq> []" "rp + length q2 \<le> c"
    "int (dval x) = int (pw rp * dval q2) * int (dval y) + (if neg' then - int v' else int v')"
    "v' < v \<or> q0 = 0 \<and> v' = v" "neg' \<longrightarrow> v' < dval x \<and> dval x + v' < dval y * pw c"
    "(normal q1 \<or> (\<exists>d. q1 = [d]) \<and> q0 \<noteq> 0) \<longrightarrow> normal q2" "normal q2 \<or> length q2 \<le> length q1"
proof -
  have Y: "0 < dval y" using y normal_pos [of y] by (simp add: normal_def)
  have rpc: "rp \<le> length x - length y" using q1 by (cases q1) (simp_all add: c)
  have qq: "unat q0 < dval q1" if neg
    using quotient_room [of "dval x" "pw rp" "dval q1" "dval y" v d "unat q0"] eq that v(2) d(1,3) Y
    by (simp add: unat_eq_0)
  obtain q2 where q2: "(if neg then D_sub q1 q0 else Some (D_add q1 q0)) = Some q2" "q2 \<noteq> []"
    "dval q2 = (if neg then dval q1 - unat q0 else dval q1 + unat q0)"
    "length q2 \<le> length q1 \<or> length q2 = length q1 + 1 \<and> pw (length q1) \<le> dval q2"
    "(normal q1 \<or> (\<exists>d. q1 = [d])) \<and> 0 < dval q2 \<longrightarrow> normal q2"
    by (rule quotient_step [OF q1(1) less_imp_le [OF qq]])
  have eq': "int (dval x) = int (pw rp * dval q2) * int (dval y) + (if neg' then - int v' else int v')"
    unfolding neg'_def v'_def by (rule step_value [OF eq _ q2(3)]) (use qq in \<open>simp_all add: d(1) less_imp_le\<close>)
  have over: "dval x + unat q0 * dval (butlast y) * pw rp < dval y * pw c"
    unfolding c by (rule overshoot [OF y l rpc])
  have v'c: "neg' \<longrightarrow> dval x + v' < dval y * pw c"
    using over v(2) d(2) by (cases "v < d") (auto simp: v'_def neg'_def)
  have v'v: "v' < v \<or> q0 = 0 \<and> v' = v"
  proof (cases "q0 = 0")
    case False
    then have "0 < d" using Y by (simp add: d(1) unat_gt_0)
    then show ?thesis using d(3) [OF False] by (auto simp: v'_def)
  qed (simp add: v'_def d(1))
  have v'x: "neg' \<longrightarrow> v' < dval x" using v v'v by (auto simp: neg'_def d(1) split: if_splits)
  have "int (pw rp * dval q2 * dval y) \<le> int (dval x + (if neg' then v' else 0))"
    using eq' by (cases neg') simp_all
  then have "pw rp * dval q2 * dval y \<le> dval x + (if neg' then v' else 0)" unfolding of_nat_le_iff .
  also have "\<dots> < dval y * pw c" using v'c over by (cases neg') simp_all
  finally have q2c: "pw rp * dval q2 < pw c" by (simp add: mult.commute)
  have cap: "rp + length q2 \<le> c"
    using q2(4)
  proof
    assume a: "length q2 = length q1 + 1 \<and> pw (length q1) \<le> dval q2"
    then have "pw (rp + length q1) \<le> pw rp * dval q2" unfolding pw_add by (intro mult_le_mono2) simp
    then have "pw (rp + length q1) < pw c" using q2c by (rule le_less_trans)
    then show ?thesis using a by simp
  qed (use q1(2) in simp)
  have "(normal q1 \<or> (\<exists>d. q1 = [d]) \<and> q0 \<noteq> 0) \<longrightarrow> normal q2"
    using q2(3,5) qq normal_pos [of q1] by (auto simp: unat_gt_0 split: if_splits)
  moreover have "normal q2 \<or> length q2 \<le> length q1" using q2(2,4) unfolding normal_iff by auto
  ultimately show thesis using that q2(1,2) cap eq' v'v v'c v'x by blast
qed

lemma I_div_step_eq:
  assumes "quotient_digit (y ! (length y - 1)) (y ! (length y - 2)) (rv s ! (rp0 + length y - 1))
       (rv s ! (rp0 + length y - 2)) = (q0, down)"
    and "off s = int rp0" "down \<longrightarrow> 0 < rp0" "rp = (if down then rp0 - 1 else rp0)"
    and "(if r_signed s then D_sub (if down then 0 # qv s else qv s) q0
       else Some (D_add (if down then 0 # qv s else qv s) q0)) = Some q2"
    and "rp + length q2 \<le> c"
    and "div_reduce y q0 rp (if down then length y + 1 else length y) (rl s) (rv s) (r_signed s) = Some (r', k, neg)"
  shows "I_div_step y c s =
    Some \<lparr>rv = r', rl = rl s - ((if down then length y + 1 else length y) - k),
      qv = move_down (int (length y) - int k) q2, off = int rp - (int (length y) - int k), r_signed = neg\<rparr>"
proof -
  have "\<not> off s < 0" "nat (off s) = rp0" using assms(2) by simp_all
  moreover have "\<not> (down \<and> rp0 = 0)" "\<not> c < rp + length q2" using assms(3,6) by auto
  ultimately show ?thesis
    by (simp only: I_div_step_def Let_def if_False assms(1) prod.case assms(4) [symmetric] bind.bind_lunit assms(5,7))
qed

lemma I_div_step_ok:
  assumes y: "2 \<le> length y" "last y \<noteq> 0" and l: "length y \<le> length x"
    and inv: "div_inv x y s" and more: "div_more y s"
    and qd: "quotient_digit (y ! (length y - 1)) (y ! (length y - 2)) (rv s ! (nat (off s) + length y - 1))
       (rv s ! (nat (off s) + length y - 2)) = (q0, down)"
    and q: "qv s = [] \<Longrightarrow> down"
  obtains s' where "I_div_step y (length x - length y + 1) s = Some s'" "div_inv x y s'" "qv s' \<noteq> []"
    "div_rem s' < div_rem s \<or> div_rem s' = div_rem s \<and> rl s' < rl s"
    "normal (qv s) \<or> length (qv s) = (if down then 0 else 1) \<and> q0 \<noteq> 0 \<longrightarrow> q_normal s'"
    "q_normal s' \<or> length (div_quot s') \<le> length (div_quot s)"
proof -
  define rp0 rp nsz where "rp0 = nat (off s)" and "rp = (if down then rp0 - 1 else rp0)"
    and "nsz = (if down then length y + 1 else length y)"
  define r v d c where "r = take (rl s) (rv s)" and "v = div_rem s" and "d = unat q0 * dval y * pw rp"
    and "c = length x - length y + 1"
  define q1 where "q1 = (if down then 0 # qv s else qv s)"
  have o: "off s = int rp0" using more by (simp add: rp0_def div_more_def)
  have rls: "rl s = rp0 + length y" "length (rv s) = length x" "rl s \<le> length x" using inv o by (simp_all add: div_inv_def)
  have lr: "length r = rp0 + length y" using rls by (simp add: r_def)
  have rv: "dval r = v" by (simp add: r_def v_def)
  have q': "quotient_digit (y ! (length y - 1)) (y ! (length y - 2)) (r ! (rp0 + length y - 1))
       (r ! (rp0 + length y - 2)) = (q0, down)" using qd y(1) rls(1) by (simp add: r_def rp0_def)
  have pos: "down \<longrightarrow> 0 < rp0"
    using more down_less [OF y, of r q0] q' lr o by (cases "rp0 = 0") (auto simp: div_more_def v_def [symmetric] rv)
  have ne: "y \<noteq> []" using y(1) by auto
  note n = step_numbers [OF y lr q' pos, folded rp_def, folded d_def, unfolded rv]
  have nsz: "nsz = length y \<or> nsz = length y + 1" by (simp add: nsz_def)
  have rl: "rp + nsz = rl s" using pos rls(1) by (auto simp: rp_def nsz_def)
  have q1: "q1 \<noteq> []" "pw rp * dval q1 = dval (div_quot s)" "rp + length q1 \<le> c" "rp + length q1 = length (div_quot s)"
  proof -
    show "q1 \<noteq> []" using q by (auto simp: q1_def)
    have "dval (div_quot s) = pw rp0 * dval (qv s)" "length (div_quot s) = rp0 + length (qv s)"
      by (simp_all add: o move_down_dval)
    moreover have "pw rp0 = pw rp * 2 ^ 64" if down using pos that pw_add [of rp 1] by (simp add: rp_def)
    moreover have "length (div_quot s) \<le> c" using inv by (simp add: div_inv_def c_def)
    ultimately show "pw rp * dval q1 = dval (div_quot s)" "rp + length q1 \<le> c" "rp + length q1 = length (div_quot s)"
      using pos by (auto simp: q1_def rp_def)
  qed
  have vx: "v \<le> dval x" using inv by (simp add: div_inv_def v_def)
  have eq: "int (dval x) = int (pw rp * dval q1) * int (dval y) + (if r_signed s then - int v else int v)"
    "r_signed s \<longrightarrow> v < dval x \<and> dval x + v < dval y * pw c"
    using inv unfolding q1(2) v_def c_def by (simp_all add: div_inv_def)
  define v' neg where "v' = (if v < d then d - v else v - d)" and "neg = (if v < d then \<not> r_signed s else r_signed s)"
  obtain q2 where q2: "(if r_signed s then D_sub q1 q0 else Some (D_add q1 q0)) = Some q2" "q2 \<noteq> []" "rp + length q2 \<le> c"
    "int (dval x) = int (pw rp * dval q2) * int (dval y) + (if neg then - int v' else int v')"
    "v' < v \<or> q0 = 0 \<and> v' = v" "neg \<longrightarrow> v' < dval x \<and> dval x + v' < dval y * pw c"
    "(normal q1 \<or> (\<exists>d. q1 = [d]) \<and> q0 \<noteq> 0) \<longrightarrow> normal q2" "normal q2 \<or> length q2 \<le> length q1"
    using step_quotient [OF ne y(2) l q1(1,3) eq(1) vx eq(2) d_def n(1,2) c_def] unfolding v'_def neg_def by blast
  have lo: "v' < pw (rp + length y)" if down
  proof (cases "v < d")
    case True
    then show ?thesis using n(1) overshoot_low [OF ne, of q0 rp] by (simp add: v'_def)
  qed (use n(4) [OF that] in \<open>simp add: v'_def\<close>)
  obtain r' k where r': "div_reduce y q0 rp nsz (rl s) (rv s) (r_signed s) = Some (r', k, neg)"
    "length r' = length (rv s)" "reduced rp nsz v' r' k"
    using div_reduce_val [OF ne, of nsz rp "rv s" q0 "r_signed s", unfolded rl, folded v_def, folded d_def,
      folded v'_def, folded neg_def] rls(2,3) n(2) nsz by metis
  have k: "k \<le> length y" "k \<le> nsz" "dval (take (rp + k) r') = v'" "k = 0 \<longrightarrow> r' ! rp = 0"
    using r'(3) lo y(1) by (cases down; simp add: reduced_def nsz_def)+
  define j where "j = length y - k"
  define s' where "s' = \<lparr>rv = r', rl = rp + k, qv = move_down (int j) q2, off = int rp - int j, r_signed = neg\<rparr>"
  have st: "I_div_step y c s = Some s'"
    using I_div_step_eq [OF qd [folded rp0_def] o pos rp_def q2(1) [unfolded q1_def] q2(3) r'(1) [unfolded nsz_def], folded nsz_def] k(1,2) rl
    by (simp add: s'_def j_def of_nat_diff)
  have quot: "div_quot s' = replicate rp 0 @ q2"
    using move_down_move_down [of "int j" rp q2] by (simp add: s'_def) (simp add: move_down_def)
  show thesis
  proof (rule that [OF st [unfolded c_def]])
    have f: "div_rem s' = v'" "rl s' = rp + k" "int (rl s') = off s' + int (length y)" "r_signed s' = neg"
      using k(1,3) by (simp_all add: s'_def j_def of_nat_diff)
    have g: "length (div_quot s') = rp + length q2" "dval (div_quot s') = pw rp * dval q2"
      by (simp_all add: quot dval_append)
    show "div_inv x y s'" unfolding div_inv_def f g c_def [symmetric]
      using q2(3-6) vx k(2-4) rl rls(2,3) r'(2) f(3) by (auto simp: s'_def)
    show "div_rem s' < div_rem s \<or> div_rem s' = div_rem s \<and> rl s' < rl s"
    proof -
      have "rl s' < rl s" if "q0 = 0" using n(3) [OF that] k(1) rl by (simp add: f nsz_def)
      then show ?thesis using q2(5) unfolding f(1) v_def by blast
    qed
    show "qv s' \<noteq> []" using q2(2) by (simp add: s'_def move_down_def)
    have qn: "q_normal s'" if "normal q2" using that unfolding q_normal_def quot by (simp add: s'_def move_down_def normal_def)
    show "normal (qv s) \<or> length (qv s) = (if down then 0 else 1) \<and> q0 \<noteq> 0 \<longrightarrow> q_normal s'"
    proof
      assume a: "normal (qv s) \<or> length (qv s) = (if down then 0 else 1) \<and> q0 \<noteq> 0"
      have "normal q1 \<or> (\<exists>d. q1 = [d]) \<and> q0 \<noteq> 0"
        using a by (auto simp: q1_def normal_def length_Suc_conv split: if_splits)
      then show "q_normal s'" using q2(7) qn by blast
    qed
    show "q_normal s' \<or> length (div_quot s') \<le> length (div_quot s)" using q2(8) qn q1(4) by (auto simp: g)
  qed
qed

subsection \<open>The loop and the division\<close>

lemma div_comp:
  assumes "div_inv x y s" "normal y"
  shows "0 \<le> I_comp (take (rl s) (rv s)) y \<Longrightarrow> div_more y s"
    and "I_comp (take (rl s) (rv s)) y < 0 \<Longrightarrow> div_rem s < dval y"
proof -
  have l: "length (take (rl s) (rv s)) = rl s" "int (rl s) = off s + int (length y)"
    using assms(1) by (simp_all add: div_inv_def)
  have "div_rem s < dval y" if "rl s < length y"
  proof -
    have "div_rem s < pw (rl s)" using dval_bound [of "take (rl s) (rv s)"] l(1) by simp
    also have "\<dots> \<le> pw (length y - 1)" using that by (intro power_increasing) simp_all
    also have "\<dots> \<le> dval y" using assms(2) by (simp add: normal_iff)
    finally show ?thesis .
  qed
  then show "0 \<le> I_comp (take (rl s) (rv s)) y \<Longrightarrow> div_more y s"
    "I_comp (take (rl s) (rv s)) y < 0 \<Longrightarrow> div_rem s < dval y"
    using l by (auto simp: div_more_def I_comp_def comp_loop_val split: if_splits)
qed

lemma I_div_continue:
  assumes y: "2 \<le> length y" "last y \<noteq> 0" and l: "length y \<le> length x"
    and inv: "div_inv x y s" "qv s \<noteq> []"
  shows "\<exists>s'.
    (if I_comp (take (rl s) (rv s)) y \<ge> 0 then I_div_loop y (length x - length y + 1) s else Some s) = Some s' \<and>
    div_inv x y s' \<and> div_rem s' < dval y \<and>
    (q_normal s \<longrightarrow> q_normal s') \<and> (q_normal s' \<or> length (div_quot s') \<le> length (div_quot s))"
  using inv
proof (induction s rule: wf_induct_rule [OF wf_measures [of "[div_rem, rl]"]])
  case (1 s)
  let ?c = "length x - length y + 1"
  have ny: "normal y" using y by (auto simp: normal_def)
  show ?case
  proof (cases "0 \<le> I_comp (take (rl s) (rv s)) y")
    case True
    obtain q0 down where qd: "quotient_digit (y ! (length y - 1)) (y ! (length y - 2)) (rv s ! (nat (off s) + length y - 1))
       (rv s ! (nat (off s) + length y - 2)) = (q0, down)" by force
    have dn: "qv s = [] \<Longrightarrow> down" using 1(3) by blast
    obtain s1 where s1: "I_div_step y ?c s = Some s1" "div_inv x y s1" "qv s1 \<noteq> []"
      "div_rem s1 < div_rem s \<or> div_rem s1 = div_rem s \<and> rl s1 < rl s"
      "normal (qv s) \<or> length (qv s) = (if down then 0 else 1) \<and> q0 \<noteq> 0 \<longrightarrow> q_normal s1"
      "q_normal s1 \<or> length (div_quot s1) \<le> length (div_quot s)"
      by (rule I_div_step_ok [OF y l 1(2) div_comp(1) [OF 1(2) ny True] qd dn])
    have n1: "q_normal s \<longrightarrow> q_normal s1" using s1(5) by (simp add: q_normal_def)
    have "(s1, s) \<in> measures [div_rem, rl]" using s1(4) by auto
    note IH = 1(1) [OF this s1(2,3)]
    have "I_div_loop y ?c s = (if I_comp (take (rl s1) (rv s1)) y \<ge> 0 then I_div_loop y ?c s1 else Some s1)"
      by (subst I_div_loop.simps) (simp only: s1(1) bind.bind_lunit)
    then show ?thesis using IH n1 s1(6) True by (simp only: if_True) (meson le_trans)
  next
    case False
    then show ?thesis using 1(2) div_comp(2) [OF 1(2) ny] by (simp add: not_le)
  qed
qed

definition div_start :: "digit list \<Rightarrow> digit list \<Rightarrow> bool \<Rightarrow> div_state" where
  "div_start x y down =
     \<lparr>rv = x, rl = length x, qv = (if \<not> down then [0] else []), off = int (length x - length y), r_signed = False\<rparr>"

lemma div_start_inv: "length y \<le> length x \<Longrightarrow> y \<noteq> [] \<Longrightarrow> div_inv x y (div_start x y down)"
  by (auto simp: div_inv_def div_start_def move_down_def dval_append of_nat_diff)

lemma quotient_digit_down: "snd (quotient_digit b1 b2 a1 a2) \<longleftrightarrow> \<not> (b1 < a1 \<or> b1 = a1 \<and> b2 \<le> a2)"
  by (auto simp: quotient_digit_def)

lemma I_div_first:
  assumes y: "2 \<le> length y" "last y \<noteq> 0" and l: "length y \<le> length x"
    and xy: "length x = length y \<Longrightarrow> dval y \<le> dval x"
  obtains down s where "snd (quotient_digit (y ! (length y - 1)) (y ! (length y - 2)) (x ! (length x - 1)) (x ! (length x - 2))) = down"
    "I_div_loop y (length x - length y + 1) (div_start x y down) = Some s"
    "div_inv x y s" "div_rem s < dval y" "normal x \<longrightarrow> normal (div_quot s)"
    "normal (div_quot s) \<or> length (div_quot s) \<le> length x - length y"
proof -
  let ?c = "length x - length y + 1"
  obtain q0 down where q: "quotient_digit (y ! (length y - 1)) (y ! (length y - 2)) (x ! (length x - 1))
    (x ! (length x - 2)) = (q0, down)" by force
  let ?s = "div_start x y down"
  have ne: "y \<noteq> []" "x \<noteq> []" using y(1) l by auto
  have e: "nat (off ?s) + length y = length x" "rv ?s = x" using l by (simp_all add: div_start_def)
  have qd: "quotient_digit (y ! (length y - 1)) (y ! (length y - 2)) (rv ?s ! (nat (off ?s) + length y - 1))
       (rv ?s ! (nat (off ?s) + length y - 2)) = (q0, down)" unfolding e by (rule q)
  have more: "div_more y ?s" using xy l by (simp add: div_more_def div_start_def)
  have lq: "length (qv ?s) = (if down then 0 else 1)" by (simp add: div_start_def)
  then have dn: "qv ?s = [] \<Longrightarrow> down" by (simp split: if_splits)
  obtain s1 where s1: "I_div_step y ?c ?s = Some s1" "div_inv x y s1" "qv s1 \<noteq> []"
    "div_rem s1 < div_rem ?s \<or> div_rem s1 = div_rem ?s \<and> rl s1 < rl ?s"
    "normal (qv ?s) \<or> length (qv ?s) = (if down then 0 else 1) \<and> q0 \<noteq> 0 \<longrightarrow> q_normal s1"
    "q_normal s1 \<or> length (div_quot s1) \<le> length (div_quot ?s)"
    by (rule I_div_step_ok [OF y l div_start_inv [OF l ne(1)] more qd dn])
  have n1: "q0 \<noteq> 0 \<longrightarrow> q_normal s1" using s1(5) lq by simp
  from I_div_continue [OF y l s1(2,3)]
  obtain s where s: "(if I_comp (take (rl s1) (rv s1)) y \<ge> 0 then I_div_loop y ?c s1 else Some s1) = Some s"
    "div_inv x y s" "div_rem s < dval y" "q_normal s1 \<longrightarrow> q_normal s"
    "q_normal s \<or> length (div_quot s) \<le> length (div_quot s1)" by blast
  have q0: "normal x \<longrightarrow> q0 \<noteq> 0"
    using quotient_digit_val(3) [OF q] y ne by (auto simp: normal_def last_conv_nth)
  have lp: "I_div_loop y ?c ?s = Some s"
    by (subst I_div_loop.simps) (simp only: s1(1) bind.bind_lunit s(1))
  have ql: "q_normal s \<or> length (div_quot s) \<le> length x - length y"
  proof (cases "q0 = 0")
    case True
    then have "down" using quotient_digit_val(3) [OF q] y ne(1) by (simp add: last_conv_nth)
    then have e: "length (div_quot ?s) = length x - length y" unfolding div_start_def by (simp add: move_down_def)
    show ?thesis using s(4,5) s1(6) unfolding e by (blast intro: le_trans)
  qed (use n1 s(4) in blast)
  show thesis
  proof (rule that [of down s])
    show "normal x \<longrightarrow> normal (div_quot s)" using q0 n1 s(4) by (auto simp: q_normal_def)
    show "normal (div_quot s) \<or> length (div_quot s) \<le> length x - length y" using ql by (auto simp: q_normal_def)
  qed (use q lp s in simp_all)
qed

lemma div_finish:
  assumes "int x = int Q * int Y + (if neg then - int v else int v)" "v < Y"
  shows "neg \<and> v \<noteq> 0 \<Longrightarrow> x div Y = Q - 1 \<and> x mod Y = Y - v \<and> 1 \<le> Q"
    and "\<not> (neg \<and> v \<noteq> 0) \<Longrightarrow> x div Y = Q \<and> x mod Y = v"
proof -
  show "x div Y = Q \<and> x mod Y = v" if "\<not> (neg \<and> v \<noteq> 0)"
  proof -
    have "int x = int (Q * Y + v)" using assms(1) that by auto
    then have "x = Q * Y + v" unfolding of_nat_eq_iff .
    then show ?thesis using assms(2) by simp
  qed
  show "x div Y = Q - 1 \<and> x mod Y = Y - v \<and> 1 \<le> Q" if a: "neg \<and> v \<noteq> 0"
  proof -
    have "int (x + v) = int (Q * Y)" using assms(1) a by simp
    then have e: "x + v = Q * Y" unfolding of_nat_eq_iff .
    then have "1 \<le> Q" using a by (cases Q) auto
    then obtain k where k: "Q = Suc k" by (cases Q) auto
    then have "x = k * Y + (Y - v)" using e assms(2) by simp
    moreover have "Y - v < Y" using a assms(2) by simp
    ultimately show ?thesis using k by simp
  qed
qed

lemma normalized_nonzero:
  assumes "I_is_normalized ds" "ds \<noteq> []"
  shows "length ds > 1 \<or> hd ds \<noteq> 0 \<longleftrightarrow> dval ds \<noteq> 0"
proof (cases "length ds > 1")
  case True
  then show ?thesis using normal_pos [of ds] assms by (auto simp: normal_def I_is_normalized_def)
next
  case False
  then obtain d where "ds = [d]" using assms(2) by (cases ds) auto
  then show ?thesis by (simp add: unat_eq_0)
qed

theorem I_div_val:
  assumes y: "2 \<le> length y" "last y \<noteq> 0" and l: "length y \<le> length x"
    and xy: "length x = length y \<Longrightarrow> dval y \<le> dval x"
  obtains q r where "I_div x y = Some (q, r)" "dval q = dval x div dval y" "dval r = dval x mod dval y"
    "length q \<le> length x - length y + 1" "I_is_normalized r" "r \<noteq> []" "length r \<le> length y"
    "normal x \<longrightarrow> I_is_normalized q \<and> q \<noteq> []" "I_is_normalized q \<or> length q \<le> length x - length y"
proof -
  let ?c = "length x - length y + 1"
  obtain down s where s: "snd (quotient_digit (y ! (length y - 1)) (y ! (length y - 2)) (x ! (length x - 1)) (x ! (length x - 2))) = down"
    "I_div_loop y (length x - length y + 1) (div_start x y down) = Some s"
    "div_inv x y s" "div_rem s < dval y" "normal x \<longrightarrow> normal (div_quot s)"
    "normal (div_quot s) \<or> length (div_quot s) \<le> length x - length y" by (rule I_div_first [OF y l xy])
  have down: "(y ! (length y - 1) < x ! (length x - 1) \<or> y ! (length y - 1) = x ! (length x - 1) \<and>
    y ! (length y - 2) \<le> x ! (length x - 2)) \<longleftrightarrow> \<not> down" using s(1) quotient_digit_down by blast
  define r where "r = trim (take (if rl s = 0 then 1 else rl s) (rv s))"
  have xr: "length x \<noteq> 0" "length (rv s) = length x" using s(3) l y(1) by (auto simp: div_inv_def)
  have r: "dval r = div_rem s" "I_is_normalized r" "r \<noteq> []"
  proof -
    have "take 1 (rv s) = [0]" if "rl s = 0" using s(3) xr that by (cases "rv s") (simp_all add: div_inv_def)
    then show "dval r = div_rem s" by (simp add: r_def)
    show "I_is_normalized r" unfolding r_def by (rule trim_norm)
    show "r \<noteq> []" using xr by (auto simp: r_def)
  qed
  have rz: "length r > 1 \<or> hd r \<noteq> 0 \<longleftrightarrow> div_rem s \<noteq> 0"
    unfolding r(1) [symmetric] by (rule normalized_nonzero [OF r(2,3)])
  have rlen: "length t \<le> length y" if "dval t < dval y" "I_is_normalized t" for t
    using trim_length [of t "length y"] trim_normalized [OF that(2)] less_trans [OF that(1) dval_bound] y(1) by simp
  note fin = div_finish [of "dval x" "dval (div_quot s)" "dval y" "r_signed s" "div_rem s"]
  have inv: "int (dval x) = int (dval (div_quot s)) * int (dval y) + (if r_signed s then - int (div_rem s) else int (div_rem s))"
    "length (div_quot s) \<le> ?c" using s(3) by (simp_all add: div_inv_def)
  have "I_div x y = (if r_signed s \<and> div_rem s \<noteq> 0 then do { r \<leftarrow> I_sub y r; q \<leftarrow> D_sub (div_quot s) 1; Some (q, r) }
    else Some (div_quot s, r))"
  proof -
    have "\<not> (length y < 2 \<or> length x < length y)" using y(1) l by simp
    then show ?thesis unfolding rz [symmetric]
      by (simp only: I_div_def Let_def down if_False s(2) [unfolded div_start_def] bind.bind_lunit r_def [symmetric])
  qed
  note d = this
  show thesis
  proof (cases "r_signed s \<and> div_rem s \<noteq> 0")
    case True
    note f = fin(1) [OF inv(1) s(4) True]
    have qne: "div_quot s \<noteq> []" using f by auto
    obtain r1 where r1: "I_sub y r = Some r1" "dval r1 = dval y - dval r" "I_is_normalized r1" "r1 \<noteq> []"
      using I_sub_val [of r y] rlen [of r] r s(4) by auto
    obtain q1 where q1: "D_sub (div_quot s) 1 = Some q1" "dval q1 = dval (div_quot s) - 1" "I_is_normalized q1" "q1 \<noteq> []"
      "length q1 \<le> length (div_quot s)" using D_sub_val [OF qne, of 1] f by auto
    show thesis using that [of q1 r1] d True r1 q1 f r(1) rlen [of r1] inv(2) s(4) by simp
  next
    case False
    note f = fin(2) [OF inv(1) s(4) False]
    show thesis using that [of "div_quot s" r] d False f r rlen [of r] inv(2) s(4-6) normal_normalized by (auto simp: normal_def)
  qed
qed

end
