(* ===== verification/BigBz.thy ===== *)
theory BigBz
  imports BigDivThms
begin

text \<open>
  The recursive division of Burnikel and Ziegler (\<^verbatim>\<open>big.c\<close>): dividing vectors of fixed length, the wrapper
  that cuts a dividend into blocks, and \<open>I_div_dispatch\<close>, which chooses between it and the schoolbook
  division.
\<close>

subsection \<open>Vectors of fixed length\<close>

text \<open>The loop of \<open>bz_add_n\<close>, with the carry \<open>c\<close>, which starts with 0.\<close>

fun bz_add_n :: "digit list \<Rightarrow> digit list \<Rightarrow> digit \<Rightarrow> digit list \<times> digit" where
  "bz_add_n (a # as) (b # bs) c =
     (let s = a + c; c1 = of_bool (s < c); s = s + b; c1 = c1 + of_bool (s < b);
          (r, c) = bz_add_n as bs c1
      in (s # r, c))"
| "bz_add_n _ _ c = ([], c)"

fun bz_sub_n :: "digit list \<Rightarrow> digit list \<Rightarrow> digit \<Rightarrow> digit list \<times> digit" where
  "bz_sub_n (a # as) (b # bs) borrow =
     (let yb = b + borrow; b1 = of_bool (yb < borrow); res = a - yb; b1 = b1 + of_bool (res > a);
          (r, borrow) = bz_sub_n as bs b1
      in (res # r, borrow))"
| "bz_sub_n _ _ borrow = ([], borrow)"

text \<open>The loop of \<open>bz_cmp_n\<close> runs from the most significant digit on.\<close>

fun bz_cmp_loop :: "digit list \<Rightarrow> digit list \<Rightarrow> int" where
  "bz_cmp_loop (a # as) (b # bs) = (if a \<noteq> b then if a < b then -1 else 1 else bz_cmp_loop as bs)"
| "bz_cmp_loop _ _ = 0"

definition bz_cmp_n :: "digit list \<Rightarrow> digit list \<Rightarrow> int" where
  "bz_cmp_n a b = bz_cmp_loop (rev a) (rev b)"

text \<open>A vector copied into a buffer of \<open>n\<close> digits, and zeros after it.\<close>

definition pad :: "nat \<Rightarrow> digit list \<Rightarrow> digit list" where
  "pad n ds = take n ds @ replicate (n - length ds) 0"

subsection \<open>The recursive division\<close>

definition BZ_DIV_THRESHOLD :: nat where "BZ_DIV_THRESHOLD = 8"

definition BZ_DIV_QUOTIENT_THRESHOLD :: nat where "BZ_DIV_QUOTIENT_THRESHOLD = 64"

text \<open>The loop \<open>Q -= 1\<close>; \<open>None\<close> when it runs past the end, which is asserted not to happen.\<close>

fun bz_decrement :: "digit list \<Rightarrow> digit list option" where
  "bz_decrement [] = None"
| "bz_decrement (q # qs) = (if q \<noteq> 0 then Some ((q - 1) # qs) else map_option ((#) D_MASK) (bz_decrement qs))"

text \<open>The loop that corrects a quotient that is too large.\<close>

partial_function (option) bz_correct ::
    "digit list \<Rightarrow> digit list \<Rightarrow> digit list \<Rightarrow> digit \<Rightarrow> (digit list \<times> digit list) option" where
  "bz_correct B Q R borrow =
     (if borrow = 0 then Some (Q, R)
      else do {
        Q \<leftarrow> bz_decrement Q;
        let (R, carry) = bz_add_n R B 0;
        bz_correct B Q R (if carry \<noteq> 0 then borrow - 1 else borrow)
      })"

declare bz_correct.simps [code]

text \<open>\<open>D = Q * B2\<close>, zero-padded: both factors are trimmed before \<open>I_mul_karatsuba\<close>, the longer one first.\<close>

definition bz_product :: "nat \<Rightarrow> digit list \<Rightarrow> digit list \<Rightarrow> digit list option" where
  "bz_product n Q B2 =
     (let q = trim Q; b = trim B2 in
      map_option (pad (2 * n))
        (if length q \<ge> length b then I_mul_karatsuba False q b else I_mul_karatsuba False b q))"

text \<open>
  The two functions that call each other. \<open>None\<close>: an assertion fails, or \<open>I_div\<close> or \<open>I_mul_karatsuba\<close> is
  called with what they cannot do. What the code destroys of \<open>A\<close> it does not read again.
\<close>

definition bz_base :: "digit list \<Rightarrow> digit list \<Rightarrow> nat \<Rightarrow> (digit list \<times> digit list) option" where
  "bz_base A B n =
     (if \<not> bz_cmp_n (drop n A) B < 0 then None
      else do {
        (q, r) \<leftarrow> I_div A B;
        if length q > n then None else Some (pad n q, pad n r)
      })"

text \<open>
  From the product on: \<open>R = [R1 || A3] - D\<close>, where a carry of \<open>R1\<close> cancels a borrow, and the correction.
\<close>

definition bz_finish ::
    "digit list \<Rightarrow> digit list \<Rightarrow> digit list \<Rightarrow> digit list \<Rightarrow> digit \<Rightarrow> nat \<Rightarrow> (digit list \<times> digit list) option" where
  "bz_finish B A3 Q R1 q_overflow n = do {
     D \<leftarrow> bz_product n Q (take n B);
     let (R, borrow) = bz_sub_n (A3 @ R1) D 0;
     let cancel = (q_overflow \<noteq> 0 \<and> borrow \<noteq> 0);
     (Q, R) \<leftarrow> bz_correct B Q R (if cancel then 0 else borrow);
     if q_overflow \<noteq> 0 \<and> \<not> cancel then None else Some (Q, R)
   }"

function (sequential) bz_div_2n_1n :: "digit list \<Rightarrow> digit list \<Rightarrow> nat \<Rightarrow> (digit list \<times> digit list) option"
  and bz_div_3n_2n :: "digit list \<Rightarrow> digit list \<Rightarrow> nat \<Rightarrow> (digit list \<times> digit list) option" where
  "bz_div_2n_1n A B n =
     (if n < BZ_DIV_THRESHOLD \<or> odd n then bz_base A B n
      else do {
        (Q1, R1) \<leftarrow> bz_div_3n_2n (drop (n div 2) A) B (n div 2);
        (Q0, R) \<leftarrow> bz_div_3n_2n (take (n div 2) A @ R1) B (n div 2);
        Some (Q0 @ Q1, R)
      })"
| "bz_div_3n_2n A B n = do {
     (Q, R1, q_overflow) \<leftarrow>
       (if bz_cmp_n (drop (2 * n) A) (drop n B) < 0 then do {
          (Q, R1) \<leftarrow> bz_div_2n_1n (drop n A) (drop n B) n;
          Some (Q, R1, 0)
        } else
          (let (R1, carry) = bz_add_n (take n (drop n A)) (drop n B) 0
           in Some (replicate n D_MASK, R1, carry)));
     bz_finish B (take n A) Q R1 q_overflow n
   }"
  by pat_completeness auto
termination
  by (relation "measure (\<lambda>a. case a of Inl (A, B, n) \<Rightarrow> 2 * n | Inr (A, B, n) \<Rightarrow> 2 * n + 1)")
    (auto simp: BZ_DIV_THRESHOLD_def)

declare bz_div_2n_1n.simps [simp del] bz_div_3n_2n.simps [simp del]

text \<open>
  The digits of \<open>scratch\<close> the two functions use: the buffers of the base case, \<open>R1_temp\<close> and \<open>D\<close>, each followed
  by the buffer of the next call; and the number of digits the buffer is allocated with.
\<close>

function bz_scratch_used :: "nat \<Rightarrow> nat" where
  "bz_scratch_used n =
     (if n < BZ_DIV_THRESHOLD \<or> odd n then (n + 1) + 2 * n else n + (2 * (n div 2) + bz_scratch_used (n div 2)))"
  by auto
termination
  by (relation "measure id") (auto simp: BZ_DIV_THRESHOLD_def)

function bz_scratch_size_2n_1n :: "nat \<Rightarrow> nat" where
  "bz_scratch_size_2n_1n n =
     (if n < BZ_DIV_THRESHOLD then n + 2 + 2 * n else 6 * n + bz_scratch_size_2n_1n (n div 2))"
  by auto
termination
  by (relation "measure id") (auto simp: BZ_DIV_THRESHOLD_def)

declare bz_scratch_used.simps [simp del] bz_scratch_size_2n_1n.simps [simp del]

subsection \<open>The division of numbers\<close>

text \<open>The least power of two not less than \<open>yl\<close>, and the place of the highest bit of a digit.\<close>

partial_function (option) bz_round_up :: "nat \<Rightarrow> nat \<Rightarrow> nat option" where
  "bz_round_up yl n = (if n < yl then bz_round_up yl (n * 2) else Some n)"

declare bz_round_up.simps [code]

function bz_top_bit :: "digit \<Rightarrow> nat \<Rightarrow> nat" where
  "bz_top_bit d p = (if d > 1 then bz_top_bit (drop_bit 1 d) (p + 1) else p)"
  by auto
termination
proof (relation "measure (\<lambda>(d, p). unat d)")
  fix d :: digit and p :: nat
  assume "1 < d"
  then have "1 < unat d" by (simp add: word_less_nat_alt)
  then show "((drop_bit 1 d, p + 1), d, p) \<in> measure (\<lambda>(d, p). unat d)" using unat_drop [of 1 d] by simp
qed simp

declare bz_top_bit.simps [simp del]

text \<open>
  The loop over the blocks \<open>j - 1, \<dots>, 0\<close> of the dividend: the digits of \<open>q_buf\<close> below block \<open>j\<close>, and the
  remainder.
\<close>

primrec bz_blocks :: "digit list \<Rightarrow> digit list \<Rightarrow> nat \<Rightarrow> nat \<Rightarrow> digit list \<Rightarrow> (digit list \<times> digit list) option" where
  "bz_blocks x_norm y_norm n 0 rem = Some ([], rem)"
| "bz_blocks x_norm y_norm n (Suc j) rem =
     (let tmp_2n = take n (drop (j * n) x_norm) @ rem in
      if \<not> bz_cmp_n (drop n tmp_2n) y_norm < 0 then None
      else do {
        (Q, rem) \<leftarrow> bz_div_2n_1n tmp_2n y_norm n;
        (q, rem) \<leftarrow> bz_blocks x_norm y_norm n j rem;
        Some (q @ Q, rem)
      })"

text \<open>
  \<open>None\<close>: an assertion fails, one of the shifts writes past the end of \<open>y_norm\<close> or \<open>x_norm\<close>, or \<open>xl - yl\<close>
  wraps around.
\<close>

definition I_div_bz :: "digit list \<Rightarrow> digit list \<Rightarrow> (digit list \<times> digit list) option" where
  "I_div_bz x y =
     (if length y < BZ_DIV_THRESHOLD \<or> length x < length y then None
      else do {
        n \<leftarrow> bz_round_up (length y) 1;
        let shift = D_EXP - 1 - bz_top_bit (y ! (length y - 1)) 0;
        let shift_total = (n - length y) * D_EXP + shift;
        let y_shifted = I_lshift y (int shift_total) False;
        let y_norm = pad n y_shifted;
        let shift_overflow = (shift_total + D_EXP - 1) div D_EXP;
        let padded_x = length x + shift_overflow;
        let k = (padded_x + n - 1) div n;
        let x_norm_capacity = (k + 1) * n + 4;
        let x_shifted = I_lshift x (int shift_total) False;
        let x_norm = pad x_norm_capacity x_shifted;
        if length y_shifted > n \<or> length x_shifted > x_norm_capacity then None
        else do {
          (q_buf, rem) \<leftarrow> bz_blocks x_norm y_norm n k (take n (drop (k * n) x_norm));
          let q = take (length x - length y + 1) (trim q_buf);
          let r = trim (I_lshift rem (- int shift_total) False);
          Some (q, r)
        }
      })"

definition I_div_dispatch :: "digit list \<Rightarrow> digit list \<Rightarrow> (digit list \<times> digit list) option" where
  "I_div_dispatch x y =
     (if length y \<ge> BZ_DIV_THRESHOLD \<and>
         (length x \<ge> 2 * length y \<or> length x < length y \<or> length x - length y > BZ_DIV_QUOTIENT_THRESHOLD)
      then I_div_bz x y
      else I_div x y)"

end
