(* ===== verification/BigBzThms.thy ===== *)
theory BigBzThms
  imports BigBz
begin

text \<open>
  The recursive division returns, with the quotient and the remainder of its arguments, and no assertion of
  it fails; so the dispatcher gives the same numbers whichever of the two divisions it chooses.
\<close>

subsection \<open>Vectors of fixed length\<close>

lemma add_carry: "unat (a + c) + 2 ^ 64 * of_bool (a + c < c) = unat a + unat (c :: digit)"
proof (cases "unat a + unat c < 2 ^ 64")
  case True
  then have "unat (a + c) = unat a + unat c" by (simp add: unat_word_ariths)
  then show ?thesis by (simp add: word_less_nat_alt)
next
  case False
  then have "unat (a + c) = unat a + unat c - 2 ^ 64"
    using unat_digit [of a] unat_digit [of c] by (simp add: unat_word_ariths mod_if)
  then show ?thesis using False unat_digit [of a] by (simp add: word_less_nat_alt)
qed

lemma bz_add_step:
  assumes "unat c \<le> 1"
  shows "unat (a + c + b) + 2 ^ 64 * unat (of_bool (a + c < c) + of_bool (a + c + b < b) :: digit)
      = unat a + unat b + unat (c :: digit)"
    "unat (of_bool (a + c < c) + of_bool (a + c + b < b) :: digit) \<le> 1"
proof -
  have 1: "unat (a + c) + 2 ^ 64 * of_bool (a + c < c) = unat a + unat c" by (rule add_carry)
  have 2: "unat (a + c + b) + 2 ^ 64 * of_bool (a + c + b < b) = unat (a + c) + unat b" by (rule add_carry)
  have "\<not> (a + c < c \<and> a + c + b < b)"
    using 1 2 assms unat_digit [of a] unat_digit [of b] by auto
  then show "unat (a + c + b) + 2 ^ 64 * unat (of_bool (a + c < c) + of_bool (a + c + b < b) :: digit)
      = unat a + unat b + unat c" "unat (of_bool (a + c < c) + of_bool (a + c + b < b) :: digit) \<le> 1"
    using 1 2 by (auto simp: of_bool_def split: if_splits)
qed

lemma bz_add_n_val:
  "length as = length bs \<Longrightarrow> unat c \<le> 1 \<Longrightarrow> bz_add_n as bs c = (r, c') \<Longrightarrow>
     dval r + pw (length as) * unat c' = dval as + dval bs + unat c \<and> length r = length as \<and> unat c' \<le> 1"
proof (induction as bs c arbitrary: r c' rule: bz_add_n.induct)
  case (1 a as b bs c)
  define c1 :: digit where "c1 = of_bool (a + c < c) + of_bool (a + c + b < b)"
  obtain r1 where r: "bz_add_n as bs c1 = (r1, c')" "r = (a + c + b) # r1"
    using "1.prems"(3) by (auto simp: c1_def Let_def split: prod.splits)
  note st = bz_add_step [OF "1.prems"(2), of a b, folded c1_def]
  have IH: "dval r1 + pw (length as) * unat c' = dval as + dval bs + unat c1" "length r1 = length as" "unat c' \<le> 1"
    using "1.IH" [OF refl refl refl c1_def _ st(2) r(1)] "1.prems"(1) by simp_all
  have "2 ^ 64 * (dval r1 + pw (length as) * unat c') = 2 ^ 64 * (dval as + dval bs + unat c1)" using IH(1) by simp
  then show ?case using IH(2,3) st(1) by (simp add: r(2) power_add distrib_left)
qed auto

lemma bz_sub_n_val:
  "length as = length bs \<Longrightarrow> unat c \<le> 1 \<Longrightarrow> bz_sub_n as bs c = (r, c') \<Longrightarrow>
     dval r + dval bs + unat c = dval as + pw (length as) * unat c' \<and> length r = length as \<and> unat c' \<le> 1"
proof (induction as bs c arbitrary: r c' rule: bz_sub_n.induct)
  case (1 a as b bs c)
  define c1 :: digit where "c1 = of_bool (b + c < c) + of_bool (a - (b + c) > a)"
  obtain r1 where r: "bz_sub_n as bs c1 = (r1, c')" "r = (a - (b + c)) # r1"
    using "1.prems"(3) by (auto simp: c1_def Let_def split: prod.splits)
  note st = sub_step [OF "1.prems"(2), where x = a and y = b, folded c1_def]
  have IH: "dval r1 + dval bs + unat c1 = dval as + pw (length as) * unat c'" "length r1 = length as" "unat c' \<le> 1"
    using "1.IH" [OF refl refl refl c1_def _ st(2) r(1)] "1.prems"(1) by simp_all
  have "2 ^ 64 * (dval r1 + dval bs + unat c1) = 2 ^ 64 * (dval as + pw (length as) * unat c')" using IH(1) by simp
  then show ?case using IH(2,3) st(1) by (simp add: r(2) power_add distrib_left)
qed auto

lemma bz_cmp_n_less: "length a = length b \<Longrightarrow> bz_cmp_n a b < 0 \<longleftrightarrow> dval a < dval b"
proof -
  assume l: "length a = length b"
  have "bz_cmp_loop as bs = comp_loop as bs" for as bs by (induction as bs rule: bz_cmp_loop.induct) auto
  then show ?thesis using comp_loop_val [of "rev a" "rev b"] l by (auto simp: bz_cmp_n_def sgn_if)
qed

lemma pad_val: "length ds \<le> n \<Longrightarrow> dval (pad n ds) = dval ds" "length ds \<le> n \<Longrightarrow> length (pad n ds) = n"
  by (simp_all add: pad_def dval_append)

lemma bz_decrement_val:
  "0 < dval Q \<Longrightarrow> \<exists>Q'. bz_decrement Q = Some Q' \<and> dval Q' + 1 = dval Q \<and> length Q' = length Q"
proof (induction Q)
  case (Cons q qs)
  show ?case
  proof (cases "q = 0")
    case True
    then obtain Q' where "bz_decrement qs = Some Q'" "dval Q' + 1 = dval qs" "length Q' = length qs"
      using Cons by auto
    moreover have "unat D_MASK = 2 ^ 64 - 1" by (simp add: D_MASK_def unsigned_minus_1_eq_mask mask_eq_exp_minus_1)
    ultimately show ?thesis using True by auto
  next
    case False
    then have "unat (q - 1) + 1 = unat q" using unat_gt_0 [of q] by (simp add: unat_minus_one)
    then show ?thesis using False by simp
  qed
qed simp

subsection \<open>The correction\<close>

lemma bz_correct_val:
  assumes "length R = length B" "unat borrow \<le> 1" "0 < dval B"
    and "dval Q * dval B + dval R = a + pw (length B) * unat borrow" "dval R < dval B + pw (length B) * unat borrow"
  shows "\<exists>Q' R'. bz_correct B Q R borrow = Some (Q', R') \<and> dval Q' * dval B + dval R' = a \<and> dval R' < dval B
    \<and> length Q' = length Q \<and> length R' = length B"
  using assms
proof (induction "dval Q" arbitrary: Q R borrow rule: less_induct)
  case less
  show ?case
  proof (cases "borrow = 0")
    case True
    then show ?thesis using less.prems by (subst bz_correct.simps) auto
  next
    case False
    then have "0 < unat borrow" by (simp add: unat_gt_0)
    then have b: "unat borrow = 1" using less.prems(2) by simp
    have "0 < dval Q"
      using less.prems(4) dval_bound [of R] b less.prems(1) by (cases "dval Q = 0") simp_all
    then obtain Q1 where Q1: "bz_decrement Q = Some Q1" "dval Q1 + 1 = dval Q" "length Q1 = length Q"
      using bz_decrement_val by blast
    obtain R1 c where R1: "bz_add_n R B 0 = (R1, c)" by force
    then have a: "dval R1 + pw (length B) * unat c = dval R + dval B" "length R1 = length B" "unat c \<le> 1"
      using bz_add_n_val [of R B 0 R1 c] less.prems(1) by simp_all
    have "(dval Q1 + 1) * dval B + dval R = a + pw (length B)" using less.prems(4) b Q1(2) by simp
    then have e: "dval Q1 * dval B + (dval R + dval B) = a + pw (length B)" by (simp add: distrib_right)
    have Rb: "dval R < pw (length B)" using dval_bound [of R] less.prems(1) by simp
    define nb where "nb = (if c \<noteq> 0 then borrow - 1 else borrow)"
    have nb: "unat nb = 1 - unat c" using a(3) b False
      by (cases "c = 0") (auto simp: nb_def unat_minus_one le_Suc_eq unat_eq_0)
    have "bz_correct B Q R borrow = bz_correct B Q1 R1 nb"
      using False by (subst bz_correct.simps) (simp add: Q1(1) R1 nb_def)
    moreover have "dval Q1 * dval B + dval R1 = a + pw (length B) * unat nb" "dval R1 < dval B + pw (length B) * unat nb"
      using e a(1,3) Rb dval_bound [of R1] a(2) unfolding nb by (cases "unat c = 0"; simp add: le_Suc_eq)+
    ultimately show ?thesis using less.hyps [of Q1 R1 nb] Q1(2,3) a(2) nb less.prems(3) by auto
  qed
qed

lemma bz_product_val:
  assumes "length Q = n" "length B2 = n" "1 \<le> n"
  obtains D where "bz_product n Q B2 = Some D" "dval D = dval Q * dval B2" "length D = 2 * n"
proof -
  have ne: "trim Q \<noteq> []" "trim B2 \<noteq> []" using assms by auto
  obtain r where r: "(if length (trim Q) \<ge> length (trim B2) then I_mul_karatsuba False (trim Q) (trim B2)
    else I_mul_karatsuba False (trim B2) (trim Q)) = Some r" "dval r = dval (trim Q) * dval (trim B2)"
    "length r \<le> length (trim Q) + length (trim B2)"
    using kara_op [OF I_mul_karatsuba_val trim_norm trim_norm ne lessI, where same = False] by blast
  have "length r \<le> 2 * n" using r(3) length_trim [of Q] length_trim [of B2] assms(1,2) by simp
  then show thesis using that [of "pad (2 * n) r"] r(1,2) pad_val [of r "2 * n"] by (simp add: bz_product_def Let_def)
qed

lemma bz_finish_val:
  assumes l: "length B = 2 * n" "length A3 = n" "length R1 = n" "length Q = n" "1 \<le> n" and B: "0 < dval B"
    and ov: "unat ov \<le> 1"
  defines "X \<equiv> dval (A3 @ R1) + pw (2 * n) * unat ov" and "d \<equiv> dval Q * dval (take n B)"
  assumes eq: "dval Q * dval B + X = a + d" and lt: "X < dval B + d"
  shows "\<exists>Q' R'. bz_finish B A3 Q R1 ov n = Some (Q', R') \<and> dval Q' * dval B + dval R' = a \<and> dval R' < dval B
    \<and> length Q' = n \<and> length R' = 2 * n"
proof -
  obtain D where D: "bz_product n Q (take n B) = Some D" "dval D = d" "length D = 2 * n"
    using bz_product_val [of Q n "take n B"] l unfolding d_def by auto
  obtain R b where R: "bz_sub_n (A3 @ R1) D 0 = (R, b)" by force
  then have s: "dval R + d = dval (A3 @ R1) + pw (2 * n) * unat b" "length R = 2 * n" "unat b \<le> 1"
    using bz_sub_n_val [of "A3 @ R1" D 0 R b] l D(2,3) by (simp_all flip: mult_2)
  have "dval B < pw (2 * n)" using dval_bound [of B] l(1) by simp
  then have ovb: "ov \<noteq> 0 \<longrightarrow> b \<noteq> 0" using s(1) lt ov unfolding X_def
    by (cases "b = 0") (auto simp: le_Suc_eq unat_eq_0)
  let ?nb = "if ov \<noteq> 0 then 0 else b"
  have nb: "dval R + d = X + pw (2 * n) * unat ?nb"
    using s(1,3) ovb ov unfolding X_def by (cases "ov = 0"; cases "b = 0") (auto simp: le_Suc_eq unat_eq_0)
  have "bz_finish B A3 Q R1 ov n = do { (Q, R) \<leftarrow> bz_correct B Q R ?nb; Some (Q, R) }"
    using ovb by (auto simp: bz_finish_def D(1) R)
  moreover have "unat ?nb \<le> 1" using s(3) by simp
  moreover have "dval Q * dval B + dval R = a + pw (length B) * unat ?nb" "dval R < dval B + pw (length B) * unat ?nb"
    using nb eq lt l(1) by simp_all
  ultimately show ?thesis using bz_correct_val [of R B ?nb Q a] B s(2) l(1,4) by auto
qed

subsection \<open>The recursion\<close>

text \<open>Quotient and remainder, each in a vector of its length.\<close>

definition bz_divided :: "(digit list \<times> digit list) option \<Rightarrow> digit list \<Rightarrow> digit list \<Rightarrow> nat \<Rightarrow> bool" where
  "bz_divided res A B n \<longleftrightarrow>
     (\<exists>Q R. res = Some (Q, R) \<and> dval Q * dval B + dval R = dval A \<and> dval R < dval B \<and> length Q = n \<and> length R = length B)"

text \<open>The precondition of the two functions: \<open>m\<close> digits in \<open>B\<close>, \<open>n\<close> more in \<open>A\<close>, and \<open>A\<close> less than \<open>B * beta ^ n\<close>.\<close>

definition bz_pre :: "digit list \<Rightarrow> digit list \<Rightarrow> nat \<Rightarrow> nat \<Rightarrow> bool" where
  "bz_pre A B m n \<longleftrightarrow> length A = m + n \<and> length B = m \<and> 2 \<le> n \<and> last B \<noteq> 0 \<and> dval (drop n A) < dval B"

lemma bz_pre_less:
  assumes "bz_pre A B m n"
  shows "dval A < dval B * pw n"
proof -
  have l: "n \<le> length A" "dval (drop n A) + 1 \<le> dval B" using assms by (simp_all add: bz_pre_def)
  have "dval (take n A) < pw n" using dval_bound [of "take n A"] l(1) by (simp add: min_absorb2)
  then have "dval A < pw n * (dval (drop n A) + 1)" unfolding dval_split [OF l(1)] by simp
  also have "\<dots> \<le> pw n * dval B" using l(2) by (rule mult_le_mono2)
  finally show ?thesis by (simp only: mult.commute)
qed

lemma bz_base_val:
  assumes "bz_pre A B n n"
  shows "bz_divided (bz_base A B n) A B n"
proof -
  have l: "length A = 2 * n" "length B = n" "2 \<le> n" "last B \<noteq> 0" "dval (drop n A) < dval B"
    using assms by (simp_all add: bz_pre_def)
  have p: "2 \<le> length B" "length B \<le> length A" "length A \<noteq> length B" using l by simp_all
  obtain q r where d: "I_div A B = Some (q, r)" "dval q = dval A div dval B" "dval r = dval A mod dval B"
    "length r \<le> n" "I_is_normalized q \<or> length q \<le> length A - length B"
    using I_div_val [OF p(1) l(4) p(2)] p(3) l(2) by metis
  have B: "0 < dval B" using l(5) by simp
  have "dval q < pw n" using bz_pre_less [OF assms] unfolding d(2) by (simp add: less_mult_imp_div_less mult.commute)
  then have q: "length q \<le> n" using d(5) trim_length [of q n] trim_normalized [of q] l by auto
  have "bz_base A B n = Some (pad n q, pad n r)"
    using q bz_cmp_n_less [of "drop n A" B] l by (simp add: bz_base_def d(1))
  then show ?thesis using d(2-4) q B pad_val l(2) by (simp add: bz_divided_def)
qed

lemma dval_three:
  assumes "length A = 3 * n"
  shows "dval A = dval (take n A) + pw n * (dval (take n (drop n A)) + pw n * dval (drop (2 * n) A))"
    "dval (drop n A) = dval (take n (drop n A)) + pw n * dval (drop (2 * n) A)"
proof -
  have "dval (drop n A) = dval (take n (drop n A)) + pw n * dval (drop n (drop n A))"
    using assms by (intro dval_split) simp
  then show 2: "dval (drop n A) = dval (take n (drop n A)) + pw n * dval (drop (2 * n) A)" by (simp add: mult_2)
  show "dval A = dval (take n A) + pw n * (dval (take n (drop n A)) + pw n * dval (drop (2 * n) A))"
    unfolding 2 [symmetric] using assms by (intro dval_split) simp
qed

text \<open>The first quotient is at most too large, and the remainder it leaves is less than \<open>B\<close>.\<close>

lemma estimate_smaller:
  fixes a1 a2 a3 b1 b2 q r b :: nat
  assumes "q * b1 + r = a2 + b * a1" "r < b1" "a3 < b"
  defines "B \<equiv> b2 + b * b1"
  shows "q * B + (a3 + b * r) = a3 + b * (a2 + b * a1) + q * b2" "a3 + b * r < B + q * b2"
proof -
  have "b * (q * b1 + r) = b * (a2 + b * a1)" using assms(1) by simp
  then show "q * B + (a3 + b * r) = a3 + b * (a2 + b * a1) + q * b2" unfolding B_def by (simp add: algebra_simps)
  have "a3 + b * r < b * (r + 1)" using assms(3) by simp
  also have "\<dots> \<le> b * b1" using assms(2) by (intro mult_le_mono2) simp
  finally show "a3 + b * r < B + q * b2" by (simp add: B_def)
qed

lemma estimate_equal:
  fixes a2 a3 b1 b2 b :: nat
  assumes "a2 < b2" "a3 < b"
  defines "B \<equiv> b2 + b * b1"
  shows "(b - 1) * B + (a3 + b * (a2 + b1)) = a3 + b * (a2 + b * b1) + (b - 1) * b2"
    "a3 + b * (a2 + b1) < B + (b - 1) * b2"
proof -
  obtain c where c: "b = Suc c" using assms(2) by (cases b) auto
  show "(b - 1) * B + (a3 + b * (a2 + b1)) = a3 + b * (a2 + b * b1) + (b - 1) * b2"
    unfolding B_def c by (simp add: algebra_simps)
  have "a3 + b * a2 < b * (a2 + 1)" using assms(2) by simp
  also have "\<dots> \<le> b * b2" using assms(1) by (intro mult_le_mono2) simp
  finally have "a3 + b * a2 < b2 + (b - 1) * b2" by (simp add: c)
  then show "a3 + b * (a2 + b1) < B + (b - 1) * b2" by (simp add: B_def distrib_left)
qed

lemma dval_ones: "dval (replicate n D_MASK) = pw n - 1"
proof (induction n)
  case (Suc n)
  have "unat D_MASK = 2 ^ 64 - 1" by (simp add: D_MASK_def unsigned_minus_1_eq_mask mask_eq_exp_minus_1)
  then show ?case using Suc by (simp add: power_add diff_mult_distrib2)
qed simp

lemma bz_div_3n_2n_val:
  assumes pre: "bz_pre A B (2 * n) n"
    and rec: "bz_pre (drop n A) (drop n B) n n \<Longrightarrow>
      bz_divided (bz_div_2n_1n (drop n A) (drop n B) n) (drop n A) (drop n B) n"
  shows "bz_divided (bz_div_3n_2n A B n) A B n"
proof -
  define a1 a2 a3 b1 b2 b where "a1 = dval (drop (2 * n) A)" and "a2 = dval (take n (drop n A))"
    and "a3 = dval (take n A)" and "b1 = dval (drop n B)" and "b2 = dval (take n B)" and "b = pw n"
  have l: "length A = 3 * n" "length B = 2 * n" "2 \<le> n" "last B \<noteq> 0" "dval (drop n A) < dval B" "1 \<le> n"
    using pre by (simp_all add: bz_pre_def)
  have A: "dval A = a3 + b * (a2 + b * a1)" "dval (drop n A) = a2 + b * a1"
    using dval_three [OF l(1)] by (simp_all add: a1_def a2_def a3_def b_def)
  have B: "dval B = b2 + b * b1" using l(2) dval_split [of n B] by (simp add: b1_def b2_def b_def)
  have lt: "a3 < b" "b2 < b" using dval_bound [of "take n A"] dval_bound [of "take n B"] l(1,2)
    by (simp_all add: a3_def b2_def b_def min_absorb2)
  have cmp: "bz_cmp_n (drop (2 * n) A) (drop n B) < 0 \<longleftrightarrow> a1 < b1"
    using bz_cmp_n_less [of "drop (2 * n) A" "drop n B"] l(1,2) by (simp add: a1_def b1_def)
  have B0: "0 < dval B" using l(5) by simp
  have fin: "bz_divided (bz_finish B (take n A) Q R1 ov n) A B n"
    if "length Q = n" "length R1 = n" "unat ov \<le> 1" "dval R1 + b * unat ov = r"
      "dval Q * dval B + (a3 + b * r) = dval A + dval Q * b2" "a3 + b * r < dval B + dval Q * b2" for Q R1 ov r
  proof -
    have "pw (2 * n) = b * b" unfolding mult_2 [of n] b_def by (rule pw_add)
    then have X: "dval (take n A @ R1) + pw (2 * n) * unat ov = a3 + b * r"
      using l(1) by (simp only: dval_append) (simp add: a3_def b_def that(4) [symmetric] distrib_left min_absorb2)
    have "length (take n A) = n" using l(1) by simp
    from bz_finish_val [OF l(2) this that(2,1) l(6) B0 that(3), unfolded X, folded b2_def, OF that(5,6)] l(2)
    show ?thesis by (simp add: bz_divided_def)
  qed
  show ?thesis
  proof (cases "a1 < b1")
    case True
    have "bz_pre (drop n A) (drop n B) n n" using l True by (simp add: bz_pre_def a1_def b1_def mult_2)
    from rec [OF this] obtain Q R1 where r: "bz_div_2n_1n (drop n A) (drop n B) n = Some (Q, R1)"
      "dval Q * b1 + dval R1 = a2 + b * a1" "dval R1 < b1" "length Q = n" "length R1 = n"
      using l(2) unfolding bz_divided_def A(2) b1_def [symmetric] by auto
    show ?thesis
      using fin [OF r(4,5), of 0 "dval R1"] estimate_smaller [OF r(2,3) lt(1), of b2] cmp True r(1)
      unfolding A(1) B by (simp add: bz_div_3n_2n.simps)
  next
    case False
    have "b * a1 < b * (b1 + 1)" using l(5) lt(2) unfolding A B by (simp add: distrib_left)
    then have "a1 < b1 + 1" unfolding mult_less_cancel1 by blast
    then have a1: "a1 = b1" using False by simp
    then have "a2 < b2" using l(5) unfolding A B by simp
    note est = estimate_equal [OF this lt(1), of b1, folded B]
    obtain R1 c where c: "bz_add_n (take n (drop n A)) (drop n B) 0 = (R1, c)" by force
    have R1: "dval R1 + b * unat c = a2 + b1" "length R1 = n" "unat c \<le> 1"
      using bz_add_n_val [OF _ _ c] l(1,2) by (simp_all add: a2_def b1_def b_def min_absorb2)
    have one: "dval (replicate n D_MASK) = b - 1" by (simp add: dval_ones b_def)
    show ?thesis
      using fin [OF _ R1(2,3,1), of "replicate n D_MASK"] est cmp False c
      unfolding A(1) a1 one by (simp add: bz_div_3n_2n.simps)
  qed
qed

lemma bz_div_val:
  "bz_pre A B n n \<Longrightarrow> bz_divided (bz_div_2n_1n A B n) A B n"
  "bz_pre A' B' (2 * n') n' \<Longrightarrow> bz_divided (bz_div_3n_2n A' B' n') A' B' n'"
proof (induction A B n and A' B' n' rule: bz_div_2n_1n_bz_div_3n_2n.induct)
  case (1 A B n)
  show ?case
  proof (cases "n < BZ_DIV_THRESHOLD \<or> odd n")
    case True
    then show ?thesis using bz_base_val [OF 1(3)] by (simp add: bz_div_2n_1n.simps)
  next
    case False
    define h where "h = n div 2"
    have h: "n = 2 * h" "2 \<le> h" "length A = 4 * h" "length B = 2 * h" "last B \<noteq> 0" "dval (drop n A) < dval B"
      using False 1(3) by (auto simp: h_def bz_pre_def BZ_DIV_THRESHOLD_def)
    have "bz_pre (drop h A) B (2 * h) h" using h by (simp add: bz_pre_def mult_2)
    then have "bz_divided (bz_div_3n_2n (drop h A) B h) (drop h A) B h" using 1(1) False unfolding h_def by blast
    then obtain Q1 R1 where r1: "bz_div_3n_2n (drop h A) B h = Some (Q1, R1)"
      "dval Q1 * dval B + dval R1 = dval (drop h A)" "dval R1 < dval B" "length Q1 = h" "length R1 = 2 * h"
      using h(4) by (auto simp: bz_divided_def)
    have "bz_pre (take h A @ R1) B (2 * h) h" using h r1 by (simp add: bz_pre_def)
    then have "bz_divided (bz_div_3n_2n (take h A @ R1) B h) (take h A @ R1) B h"
      using 1(2) [OF False _ refl] r1(1) unfolding h_def by simp
    then obtain Q0 R where r0: "bz_div_3n_2n (take h A @ R1) B h = Some (Q0, R)"
      "dval Q0 * dval B + dval R = dval (take h A) + pw h * dval R1" "dval R < dval B" "length Q0 = h" "length R = 2 * h"
      using h(3,4) by (auto simp: bz_divided_def dval_append)
    have "dval A = dval (take h A) + pw h * (dval Q1 * dval B + dval R1)"
      unfolding r1(2) using h(3) by (intro dval_split) simp
    then have "dval (Q0 @ Q1) * dval B + dval R = dval A" using r0(2,4) by (simp add: dval_append algebra_simps)
    then show ?thesis using False r1 r0 h(1,4) by (subst bz_div_2n_1n.simps) (simp add: bz_divided_def flip: h_def)
  qed
next
  case (2 A B n)
  show ?case
  proof (rule bz_div_3n_2n_val [OF 2(2)])
    assume pre: "bz_pre (drop n A) (drop n B) n n"
    then have "bz_cmp_n (drop (2 * n) A) (drop n B) < 0"
      using bz_cmp_n_less [of "drop (2 * n) A" "drop n B"] 2(2) by (simp add: bz_pre_def mult_2)
    then show "bz_divided (bz_div_2n_1n (drop n A) (drop n B) n) (drop n A) (drop n B) n" using 2(1) pre by blast
  qed
qed

subsection \<open>Normalizing and the blocks\<close>

lemma bz_round_up_val: "1 \<le> m \<Longrightarrow> \<exists>n. bz_round_up yl m = Some n \<and> yl \<le> n \<and> m \<le> n"
proof (induction "yl - m" arbitrary: m rule: less_induct)
  case less
  show ?case
  proof (cases "m < yl")
    case True
    then have "yl - m * 2 < yl - m" "1 \<le> m * 2" using less.prems by simp_all
    from less.hyps [OF this] obtain n where "bz_round_up yl (m * 2) = Some n" "yl \<le> n" "m * 2 \<le> n" by blast
    then show ?thesis using True by (subst bz_round_up.simps) simp
  qed (subst bz_round_up.simps, simp)
qed

lemma bz_top_bit_val: "d \<noteq> 0 \<Longrightarrow> \<exists>l. bz_top_bit d p = p + l \<and> 2 ^ l \<le> unat d \<and> unat d < 2 ^ (l + 1)"
proof (induction d p rule: bz_top_bit.induct)
  case (1 d p)
  show ?case
  proof (cases "d > 1")
    case True
    then have d: "1 < unat d" by (simp add: word_less_nat_alt)
    have half: "unat (drop_bit 1 d) = unat d div 2" using unat_drop [of 1 d] by simp
    then have "drop_bit 1 d \<noteq> 0" using d by (auto simp flip: unat_eq_0)
    then obtain l where "bz_top_bit (drop_bit 1 d) (p + 1) = p + 1 + l" "2 ^ l \<le> unat d div 2" "unat d div 2 < 2 ^ (l + 1)"
      using "1.IH" [OF True] half by auto
    then show ?thesis using True by (intro exI [of _ "l + 1"]) (simp add: bz_top_bit.simps [of d p] less_eq_div_iff_mult_less_eq div_less_iff_less_mult)
  next
    case False
    then have "unat d = 1" using "1.prems" by (simp add: word_less_nat_alt unat_gt_0 not_less) (simp add: le_Suc_eq unat_eq_0)
    then show ?thesis using False by (intro exI [of _ 0]) (simp add: bz_top_bit.simps [of d p])
  qed
qed

text \<open>The shift that puts the highest bit of \<open>y\<close> at the top of \<open>n\<close> digits.\<close>

lemma normalizing_shift:
  assumes "normal y" "length y \<le> n"
  defines "s \<equiv> (n - length y) * D_EXP + (D_EXP - 1 - bz_top_bit (y ! (length y - 1)) 0)"
  shows "dval y * 2 ^ s < pw n" "pw (n - 1) \<le> dval y * 2 ^ s"
proof -
  let ?m = "length y - 1"
  have y: "y \<noteq> []" "last y \<noteq> 0" using assms(1) by (simp_all add: normal_def)
  then obtain l where l: "bz_top_bit (last y) 0 = l" "2 ^ l \<le> unat (last y)" "unat (last y) + 1 \<le> 2 ^ (l + 1)"
    using bz_top_bit_val [of "last y" 0] by auto
  have "(2 :: nat) ^ l < 2 ^ 64" using l(2) unat_digit [of "last y"] by (rule le_less_trans)
  then have l64: "l < 64" by (rule power_less_imp_less_exp [rotated]) simp
  have m: "length y = ?m + 1" using y(1) by (cases y) simp_all
  have e: "64 * ?m + (l + 1) + s = 64 * n" 
  proof -
    have "s = 64 * (n - length y) + (63 - l)" using l(1) y(1) by (simp add: s_def D_EXP_def last_conv_nth)
    then show ?thesis using l64 m assms(2) by simp
  qed
  note v = dval_butlast_last [OF y(1)]
  have "dval y < pw ?m * (unat (last y) + 1)" using v by (simp add: distrib_left)
  also have "\<dots> \<le> pw ?m * 2 ^ (l + 1)" using l(3) by (rule mult_le_mono2)
  finally have "dval y * 2 ^ s < pw ?m * 2 ^ (l + 1) * 2 ^ s" by simp
  then show "dval y * 2 ^ s < pw n" unfolding power_add [symmetric] e .
  have "pw ?m * 2 ^ l \<le> dval y" unfolding v(1) using l(2) by (intro trans_le_add2 mult_le_mono2)
  then have "pw ?m * 2 ^ l * 2 ^ s \<le> dval y * 2 ^ s" by (rule mult_le_mono1)
  moreover have "64 * (n - 1) \<le> 64 * ?m + l + s" using e by simp
  then have "pw (n - 1) \<le> 2 ^ (64 * ?m + l + s)" by (intro power_increasing) simp_all
  ultimately show "pw (n - 1) \<le> dval y * 2 ^ s" unfolding power_add by (rule le_trans [rotated])
qed

lemma bz_blocks_val:
  assumes y: "length y = n" "2 \<le> n" "last y \<noteq> 0"
  shows "j * n \<le> length x \<Longrightarrow> length rem = n \<Longrightarrow> dval rem < dval y \<Longrightarrow>
    \<exists>q r. bz_blocks x y n j rem = Some (q, r) \<and> dval q * dval y + dval r = dval (take (j * n) x) + pw (j * n) * dval rem
      \<and> dval r < dval y \<and> length q = j * n \<and> length r = n"
proof (induction j arbitrary: rem)
  case (Suc j)
  let ?t = "take n (drop (j * n) x) @ rem"
  have lx: "length (take n (drop (j * n) x)) = n" using Suc.prems(1) by simp
  have "bz_pre ?t y n n" using y lx Suc.prems(2,3) by (simp add: bz_pre_def)
  from bz_div_val(1) [OF this] obtain Q r1 where r1: "bz_div_2n_1n ?t y n = Some (Q, r1)"
    "dval Q * dval y + dval r1 = dval (take n (drop (j * n) x)) + pw n * dval rem" "dval r1 < dval y" "length Q = n" "length r1 = n"
    using lx y(1) by (auto simp: bz_divided_def dval_append)
  have "j * n \<le> length x" using Suc.prems(1) by simp
  from Suc.IH [OF this r1(5,3)] obtain q r where r: "bz_blocks x y n j r1 = Some (q, r)"
    "dval q * dval y + dval r = dval (take (j * n) x) + pw (j * n) * dval r1" "dval r < dval y" "length q = j * n" "length r = n"
    by blast
  have "bz_blocks x y n (Suc j) rem = Some (q @ Q, r)"
    using bz_cmp_n_less [of rem y] Suc.prems(2,3) y(1) lx r1(1) r(1) by (simp add: Let_def)
  moreover have "dval (q @ Q) * dval y + dval r = dval (take (Suc j * n) x) + pw (Suc j * n) * dval rem"
  proof -
    have "take (Suc j * n) x = take (j * n) x @ take n (drop (j * n) x)"
      using take_add [of "j * n" n x] by (simp add: add.commute)
    then have t: "dval (take (Suc j * n) x) = dval (take (j * n) x) + pw (j * n) * dval (take n (drop (j * n) x))"
      using Suc.prems(1) by (simp add: dval_append min_absorb2)
    have "dval (q @ Q) * dval y + dval r = pw (j * n) * (dval Q * dval y) + (dval q * dval y + dval r)"
      using r(4) by (simp add: dval_append algebra_simps)
    also have "\<dots> = dval (take (j * n) x) + pw (j * n) * (dval Q * dval y + dval r1)" unfolding r(2) by (simp add: distrib_left)
    moreover have "pw (Suc j * n) = pw (j * n) * pw n" unfolding pw_add [symmetric] by simp
    ultimately show ?thesis unfolding r1(2) t by (simp add: distrib_left)
  qed
  ultimately show ?case using r(3-5) r1(4) by auto
qed simp

lemma shift_right_unsigned:
  assumes "x \<noteq> []"
  shows "dval (I_lshift x (- int s) False) = dval x div 2 ^ s" "I_lshift x (- int s) False \<noteq> []"
proof -
  have d: "dval (shift_right x bw sw False) = dval x div 2 ^ (64 * bw + sw) \<and> shift_right x bw sw False \<noteq> []"
    if "sw < 64" for bw sw
  proof (cases "length x \<le> bw")
    case True
    have "dval x < 2 ^ (64 * length x)" by (rule dval_bound)
    also have "\<dots> \<le> 2 ^ (64 * bw + sw)" using True by (intro power_increasing) simp_all
    finally show ?thesis using True by (simp add: shift_right_def)
  next
    case False
    then have bw: "bw < length x" by simp
    obtain r a0 where r: "(if sw \<noteq> 0 then shr_loop sw (rev (drop bw x)) 0 else (rev (drop bw x), 0)) = (r, a0)" by force
    have "shift_right x bw sw False = (if hd r = 0 \<and> tl r = [] then r else rev (if hd r = 0 then tl r else r))"
      using False r by (auto simp: shift_right_def Let_def)
    then show ?thesis using shift_right_digits(1,2) [OF bw that r] bw by (cases r) (auto simp: dval_append)
  qed
  have s: "64 * (s div 64) + s mod 64 = s" by simp
  show "dval (I_lshift x (- int s) False) = dval x div 2 ^ s" "I_lshift x (- int s) False \<noteq> []"
    using d [of "s mod 64" "s div 64", unfolded s] assms by (cases x; auto simp: I_lshift_def D_EXP_def Let_def)+
qed

subsection \<open>The division of numbers\<close>

lemma shift_left_unsigned:
  assumes "normal x"
  shows "dval (I_lshift x (int s) False) = dval x * 2 ^ s" "normal (I_lshift x (int s) False)"
proof -
  note v = I_lshift_val [OF assms, where sign = False and y = "int s"]
  have "int (dval (I_lshift x (int s) False)) = int (dval x * 2 ^ s)" using v(1) by (simp add: sval_def)
  then show d: "dval (I_lshift x (int s) False) = dval x * 2 ^ s" unfolding of_nat_eq_iff .
  show "normal (I_lshift x (int s) False)" using normalized_normal [OF v(3,2)] normal_pos [OF assms] by (simp add: d)
qed

lemma normal_length: "normal ds \<Longrightarrow> dval ds < pw m \<Longrightarrow> length ds \<le> m"
proof (rule ccontr)
  assume a: "normal ds" "dval ds < pw m" "\<not> length ds \<le> m"
  have "pw m \<le> pw (length ds - 1)" using a(3) by (intro power_increasing) simp_all
  moreover have "pw (length ds - 1) \<le> dval ds" using a(1) by (simp add: normal_iff)
  ultimately show False using a(2) by (meson leD le_trans)
qed

lemma scaled_division:
  fixes x y q r :: nat
  assumes "q * (y * 2 ^ s) + r = x * 2 ^ s" "r < y * 2 ^ s"
  shows "q = x div y" "r div 2 ^ s = x mod y"
proof -
  have y: "0 < y" using assms(2) by (cases y) simp_all
  have "q = (x * 2 ^ s) div (y * 2 ^ s)" using assms by (metis div_mult_self3 add_0_right div_less mult.commute less_nat_zero_code add.commute)
  then show q: "q = x div y" by simp
  have "r = (x mod y) * 2 ^ s"
  proof -
    have "x div y * y * 2 ^ s + (x mod y) * 2 ^ s = x * 2 ^ s" unfolding distrib_right [symmetric] by simp
    then show ?thesis using assms(1) unfolding q by (simp add: mult.assoc)
  qed
  then show "r div 2 ^ s = x mod y" by simp
qed

text \<open>The vectors \<open>x_norm\<close> and \<open>y_norm\<close>, and the block of zeros above the dividend.\<close>

lemma bz_y_norm:
  assumes "normal y" "length y \<le> n"
  defines "s \<equiv> (n - length y) * D_EXP + (D_EXP - 1 - bz_top_bit (y ! (length y - 1)) 0)"
  shows "length (I_lshift y (int s) False) \<le> n" "length (pad n (I_lshift y (int s) False)) = n"
    "dval (pad n (I_lshift y (int s) False)) = dval y * 2 ^ s" "last (pad n (I_lshift y (int s) False)) \<noteq> 0"
proof -
  note v = shift_left_unsigned [OF assms(1), of s] and b = normalizing_shift [OF assms(1,2), folded s_def]
  show l: "length (I_lshift y (int s) False) \<le> n" using normal_length [OF v(2)] v(1) b(1) by simp
  show p: "length (pad n (I_lshift y (int s) False)) = n" by (rule pad_val(2) [OF l])
  show d: "dval (pad n (I_lshift y (int s) False)) = dval y * 2 ^ s" using pad_val(1) [OF l] v(1) by simp
  have "normal (pad n (I_lshift y (int s) False))"
    unfolding normal_iff d p using b(2) p assms(1,2) by (auto simp: normal_def)
  then show "last (pad n (I_lshift y (int s) False)) \<noteq> 0" by (simp add: normal_def)
qed

lemma bz_x_norm:
  fixes s :: nat
  assumes "normal x" "1 \<le> n"
  defines "k \<equiv> (length x + (s + D_EXP - 1) div D_EXP + n - 1) div n"
  defines "X \<equiv> pad ((k + 1) * n + 4) (I_lshift x (int s) False)"
  shows "length (I_lshift x (int s) False) \<le> (k + 1) * n + 4" "length X = (k + 1) * n + 4"
    "dval (take (k * n) X) = dval x * 2 ^ s" "dval (take n (drop (k * n) X)) = 0"
proof -
  let ?p = "length x + (s + D_EXP - 1) div D_EXP"
  note v = shift_left_unsigned [OF assms(1), of s]
  have "?p \<le> k * n"
  proof -
    have "?p + n - 1 < (k + 1) * n" unfolding k_def using assms(2) dividend_less_div_times [of n "?p + n - 1"] by simp
    then show ?thesis by simp
  qed
  moreover have "s \<le> 64 * ((s + D_EXP - 1) div D_EXP)" unfolding D_EXP_def by simp
  ultimately have e: "64 * length x + s \<le> 64 * (k * n)" by simp
  have "dval x * 2 ^ s < pw (length x) * 2 ^ s" using dval_bound [of x] by simp
  also have "\<dots> \<le> pw (k * n)" unfolding power_add [symmetric] using e by (intro power_increasing) simp_all
  finally have lt: "dval (I_lshift x (int s) False) < pw (k * n)" unfolding v(1) .
  then have "length (I_lshift x (int s) False) \<le> k * n" by (rule normal_length [OF v(2)])
  then show l: "length (I_lshift x (int s) False) \<le> (k + 1) * n + 4" by simp
  show p: "length X = (k + 1) * n + 4" unfolding X_def by (rule pad_val(2) [OF l])
  have "dval X = dval x * 2 ^ s" unfolding X_def using pad_val(1) [OF l] v(1) by simp
  moreover have "dval X = dval (take (k * n) X) + pw (k * n) * dval (drop (k * n) X)" using p by (intro dval_split) simp
  moreover have "dval X < pw (k * n)" using lt pad_val(1) [OF l] unfolding X_def by simp
  ultimately have z: "dval (drop (k * n) X) = 0" "dval (take (k * n) X) = dval x * 2 ^ s"
    by (cases "dval (drop (k * n) X)"; simp)+
  then show "dval (take (k * n) X) = dval x * 2 ^ s" by simp
  have "dval (drop (k * n) X) = dval (take n (drop (k * n) X)) + pw n * dval (drop n (drop (k * n) X))"
    using p by (intro dval_split) simp
  then show "dval (take n (drop (k * n) X)) = 0" using z(1) by simp
qed

text \<open>What a division promises.\<close>

definition divides_ok :: "digit list \<Rightarrow> digit list \<Rightarrow> (digit list \<times> digit list) option \<Rightarrow> bool" where
  "divides_ok x y res \<longleftrightarrow>
     (\<exists>q r. res = Some (q, r) \<and> dval q = dval x div dval y \<and> dval r = dval x mod dval y \<and>
        I_is_normalized q \<and> I_is_normalized r \<and> q \<noteq> [] \<and> r \<noteq> [] \<and>
        length q \<le> length x - length y + 1 \<and> length r \<le> length y)"

lemma normalized_length_le: "I_is_normalized ds \<Longrightarrow> dval ds < pw m \<Longrightarrow> 1 \<le> m \<Longrightarrow> length ds \<le> m"
  using trim_length [of ds m] trim_normalized [of ds] by simp

lemma I_div_bz_val:
  assumes x: "normal x" and y: "normal y" and l: "BZ_DIV_THRESHOLD \<le> length y" "length y \<le> length x"
  shows "divides_ok x y (I_div_bz x y)"
proof -
  obtain n where n: "bz_round_up (length y) 1 = Some n" "length y \<le> n" using bz_round_up_val [of 1 "length y"] by auto
  define s where "s = (n - length y) * D_EXP + (D_EXP - 1 - bz_top_bit (y ! (length y - 1)) 0)"
  define k where "k = (length x + (s + D_EXP - 1) div D_EXP + n - 1) div n"
  define X Y where "X = pad ((k + 1) * n + 4) (I_lshift x (int s) False)" and "Y = pad n (I_lshift y (int s) False)"
  have n2: "2 \<le> n" "1 \<le> n" using l(1) n(2) by (simp_all add: BZ_DIV_THRESHOLD_def)
  note yn = bz_y_norm [OF y n(2), folded s_def, folded Y_def]
  note xn = bz_x_norm [OF x n2(2), of s, folded k_def, folded X_def]
  define rem where "rem = take n (drop (k * n) X)"
  have rem: "length rem = n" "dval rem = 0" "0 < dval Y"
    using xn(2,4) yn(3) normal_pos [OF y] by (simp_all add: rem_def)
  obtain q r where r: "bz_blocks X Y n k rem = Some (q, r)" "dval q * dval Y + dval r = dval x * 2 ^ s"
    "dval r < dval Y" "length q = k * n" "length r = n"
    using bz_blocks_val [OF yn(2) n2(1) yn(4), of k X rem] xn(2,3) rem by auto
  note sc = scaled_division [OF r(2,3) [unfolded yn(3)]]
  define c where "c = length x - length y + 1"
  have "dval x < dval y * pw c"
    using overshoot [OF _ _ l(2), of 0 0] y unfolding c_def by (simp add: normal_def)
  then have "dval q < pw c" unfolding sc(1) by (simp add: less_mult_imp_div_less mult.commute)
  then have lq: "length (trim q) \<le> c" by (rule trim_length) (simp add: c_def)
  have "q \<noteq> []"
  proof
    assume "q = []"
    then have "k * n = 0" using r(4) by simp
    then have "dval x * 2 ^ s = 0" using xn(3) by (simp only: take_0 dval.simps)
    then show False using normal_pos [OF x] by simp
  qed
  moreover have "r \<noteq> []" using r(5) n2 by auto
  note sr = shift_right_unsigned [OF this, of s]
  define r' where "r' = trim (I_lshift r (- int s) False)"
  have r': "dval r' = dval x mod dval y" "I_is_normalized r'" "r' \<noteq> []"
    using sr sc(2) by (simp_all add: r'_def trim_norm)
  have "dval r' < pw (length y)" unfolding r'(1) using normal_pos [OF y] dval_bound [of y] by (meson less_trans mod_less_divisor)
  then have "length r' \<le> length y" using normalized_length_le [OF r'(2)] l(1) by (simp add: BZ_DIV_THRESHOLD_def)
  moreover have "I_div_bz x y = Some (trim q, r')"
  proof -
    have "\<not> (length y < BZ_DIV_THRESHOLD \<or> length x < length y)"
      "\<not> (n < length (I_lshift y (int s) False) \<or> (k + 1) * n + 4 < length (I_lshift x (int s) False))"
      using l yn(1) xn(1) by simp_all
    then show ?thesis
      unfolding I_div_bz_def Let_def
      by (simp only: if_False n(1) bind.bind_lunit s_def [symmetric] k_def [symmetric] X_def [symmetric] Y_def [symmetric]
          rem_def [symmetric] r(1) prod.case r'_def [symmetric] c_def [symmetric] take_all [OF lq])
  qed
  ultimately show ?thesis using r' sc(1) lq trim_norm [of q] by (auto simp: divides_ok_def c_def)
qed

text \<open>So \<open>I_div_dispatch\<close> may choose.\<close>

lemma I_div_dispatch_val:
  assumes x: "normal x" and y: "normal y" and l: "2 \<le> length y" "length y \<le> length x"
    and xy: "length x = length y \<Longrightarrow> dval y \<le> dval x"
  shows "divides_ok x y (I_div_dispatch x y)"
proof (cases "I_div_dispatch x y = I_div_bz x y \<and> length y \<ge> BZ_DIV_THRESHOLD")
  case True
  then show ?thesis using I_div_bz_val [OF x y _ l(2)] by simp
next
  case False
  then have e: "I_div_dispatch x y = I_div x y" by (auto simp: I_div_dispatch_def split: if_splits)
  have "last y \<noteq> 0" using y by (simp add: normal_def)
  from I_div_val [OF l(1) this l(2) xy] x show ?thesis unfolding e divides_ok_def by metis
qed

text \<open>The buffer for the recursion is long enough.\<close>

lemma bz_scratch_enough: "bz_scratch_used n \<le> bz_scratch_size_2n_1n n"
proof (induction n rule: bz_scratch_used.induct)
  case (1 n)
  show ?case
  proof (cases "n < BZ_DIV_THRESHOLD \<or> odd n")
    case True
    then show ?thesis
      by (auto simp: bz_scratch_used.simps [of n] bz_scratch_size_2n_1n.simps [of n] BZ_DIV_THRESHOLD_def)
  next
    case False
    then show ?thesis using 1 [OF False] by (simp add: bz_scratch_used.simps [of n] bz_scratch_size_2n_1n.simps [of n])
  qed
qed

end
