(* ===== verification/BigProps.thy ===== *)
theory BigProps
  imports BigOps BigBzThms
begin

text \<open>
  The properties of the bignum library: multiplication and division by divide and conquer, and the
  conversions and the comparison of integer terms.
\<close>

subsection \<open>Multiplication\<close>

text \<open>
  C30. On vectors without leading zeros the multiplication of Karatsuba, with its squaring shortcut for
  \<open>x == y\<close>, returns and yields exactly the digits of the schoolbook multiplication, the product.
\<close>

theorem karatsuba_is_schoolbook:
  assumes "normal x" "normal y" "length y \<le> length x" "same \<Longrightarrow> x = y"
  shows "I_mul_karatsuba same x y = I_mul x y \<and> map_option dval (I_mul x y) = Some (dval x * dval y)"
proof -
  have ne: "y \<noteq> []" using assms(2) by (simp add: normal_def)
  have "mul_pre same x y"
    using assms normal_normalized ne by (simp add: mul_pre_def)
  then obtain r where r: "I_mul_karatsuba same x y = Some r" "mul_ok same x y r"
    using I_mul_karatsuba_val by blast
  obtain s where s: "I_mul x y = Some s" "dval s = dval x * dval y" by (rule I_mul_val [OF assms(3) ne])
  have "normal s" by (rule I_mul_normal [OF assms(1,2) s(1)])
  then have "r = s" using r(2) s(2) assms(1,2) by (intro normal_unique) (simp_all add: mul_ok_def)
  then show ?thesis using r(1) s by simp
qed

lemma karatsuba_is_schoolbook_witness:
  "I_mul_karatsuba False (replicate 18 7) (replicate 16 5) = I_mul (replicate 18 7) (replicate 16 5)
   \<and> I_mul_karatsuba True (replicate 16 5) (replicate 16 5) = I_mul (replicate 16 5) (replicate 16 5)"
  using karatsuba_is_schoolbook [of "replicate 18 7" "replicate 16 5" False]
    karatsuba_is_schoolbook [of "replicate 16 5" "replicate 16 5" True]
  by (simp add: normal_def)

subsection \<open>Division\<close>

lemma normalized_unique:
  assumes "I_is_normalized x" "I_is_normalized y" "x \<noteq> []" "y \<noteq> []" "dval x = dval y"
  shows "x = y"
proof (cases "dval x = 0")
  case True
  then have "x = [0]" "y = [0]"
    using assms normal_pos [of x] normal_pos [of y] by (auto simp: I_is_normalized_def normal_def length_Suc_conv)
  then show ?thesis by simp
next
  case False
  then show ?thesis using assms normalized_normal by (intro normal_unique) auto
qed

lemma divides_ok_unique: "divides_ok x y r \<Longrightarrow> divides_ok x y r' \<Longrightarrow> r = r'"
  unfolding divides_ok_def by (metis normalized_unique)

text \<open>
  C31. On numbers without leading zeros the division of Burnikel and Ziegler returns, without a failing
  assertion, exactly the quotient and the remainder of the schoolbook division; so does the dispatcher
  between the two, and they are the quotient and the remainder of the numbers.
\<close>

theorem bz_is_schoolbook:
  assumes "normal x" "normal y" "2 \<le> length y" "length y \<le> length x" "dval y \<le> dval x"
  shows "(BZ_DIV_THRESHOLD \<le> length y \<longrightarrow> I_div_bz x y = I_div x y) \<and> I_div_dispatch x y = I_div x y
    \<and> map_option (map_prod dval dval) (I_div x y) = Some (dval x div dval y, dval x mod dval y)"
proof -
  have "last y \<noteq> 0" using assms(2) by (simp add: normal_def)
  then have "divides_ok x y (I_div x y)"
    using I_div_val [OF assms(3) _ assms(4) assms(5)] assms(1) unfolding divides_ok_def by metis
  moreover have "divides_ok x y (I_div_dispatch x y)" using assms by (intro I_div_dispatch_val)
  moreover have "BZ_DIV_THRESHOLD \<le> length y \<longrightarrow> divides_ok x y (I_div_bz x y)"
    using I_div_bz_val assms(1,2,4) by blast
  ultimately have "(BZ_DIV_THRESHOLD \<le> length y \<longrightarrow> I_div_bz x y = I_div x y) \<and> I_div_dispatch x y = I_div x y"
    using divides_ok_unique by blast
  moreover have "map_option (map_prod dval dval) (I_div x y) = Some (dval x div dval y, dval x mod dval y)"
    using \<open>divides_ok x y (I_div x y)\<close> by (auto simp: divides_ok_def)
  ultimately show ?thesis by blast
qed

lemma bz_is_schoolbook_witness:
  "I_div_bz (replicate 16 7) (replicate 8 5) = I_div (replicate 16 7) (replicate 8 5)
   \<and> map_option (map_prod dval dval) (I_div [0, 0, 1] [1, 1]) = Some (2 ^ 64 - 1, 1)"
proof -
  have n: "normal (replicate 16 7)" "normal (replicate 8 5)" by (simp_all add: normal_def)
  have "dval (replicate 8 5) \<le> dval (replicate 16 7)"
    using length_less_dval [OF normal_normalized [OF n(1)], of "replicate 8 5"] by simp
  then show ?thesis
    using bz_is_schoolbook [OF n] bz_is_schoolbook [of "[0, 0, 1]" "[1, 1]"]
    by (simp add: normal_def BZ_DIV_THRESHOLD_def)
qed

subsection \<open>Conversions\<close>

text \<open>
  C37. The bytes \<open>big_to_bytes\<close> stores are as many as \<open>big_bytes\<close> says, and \<open>bytes_to_big\<close> reads the same
  bignum back from them.
\<close>

theorem bytes_roundtrip:
  assumes "is_bignum (Bignum s ds)"
  shows "map_option (\<lambda>bs. bytes_to_big bs s) (big_to_bytes (Bignum s ds)) = Some (Bignum s ds)
    \<and> big_bytes (Bignum s ds) = map_option length (big_to_bytes (Bignum s ds))"
proof -
  have n: "normal ds" "length ds \<le> BIG_ARITY_MAX" "\<not> (length ds = 1 \<and> IS_USMALL s (hd ds))"
    using assms by (auto simp: is_bignum_def bterm_ok_def)
  then have ne: "ds \<noteq> []" "last ds \<noteq> 0" by (simp_all add: normal_def)
  have store: "big_to_bytes (Bignum s ds) = Some (store_loop ds)"
    using ne by (simp add: big_to_bytes_def big_val_def)
  have "\<not> (butlast ds = [] \<and> IS_USMALL s (last ds))" using n(3) ne(1) by (cases ds) auto
  then have "bytes_to_big (store_loop ds) s = Bignum s ds"
    using n(2) ne load_store_last by (simp add: bytes_to_big_def load_store_loop Let_def)
  moreover have "big_bytes (Bignum s ds) = Some (length (store_loop ds))"
    using ne by (simp add: big_bytes_def big_val_def bytes_loop_length store_loop_length)
  ultimately show ?thesis using store by simp
qed

lemma bytes_roundtrip_witness:
  "map_option (\<lambda>bs. bytes_to_big bs True) (big_to_bytes (Bignum True [0x123456789ABCDEF0]))
   = Some (Bignum True [0x123456789ABCDEF0])"
  using bytes_roundtrip [of True "[0x123456789ABCDEF0]"] by (simp add: one_digit_bignum)

text \<open>
  C38. \<open>term_to_Sint\<close> succeeds on an integer term exactly when its number fits a signed word, and
  \<open>term_to_Uint\<close> exactly when it fits an unsigned one, with the reason \<open>BADARG\<close> for negative numbers and
  \<open>SYSTEM_LIMIT\<close> for large ones; both yield the number.
\<close>

lemma one_digit: "length ds * D_EXP \<le> 64 \<Longrightarrow> normal ds \<Longrightarrow> \<exists>d. ds = [d] \<and> d \<noteq> 0"
  by (cases ds) (auto simp: D_EXP_def normal_def)

lemma long_bignum: "normal ds \<Longrightarrow> \<not> length ds * D_EXP \<le> 64 \<Longrightarrow> 2 ^ 64 \<le> dval ds"
proof -
  assume n: "normal ds" "\<not> length ds * D_EXP \<le> 64"
  then have "64 \<le> 64 * (length ds - 1)" by (simp add: D_EXP_def)
  then have "(2 :: nat) ^ 64 \<le> 2 ^ (64 * (length ds - 1))" by (rule power_increasing) simp
  then show ?thesis using n(1) unfolding normal_iff by (meson le_trans)
qed

theorem term_to_machine_integer:
  assumes "bterm_ok t"
  shows "term_to_Sint t = (if - (2 ^ 63) \<le> bint t \<and> bint t < 2 ^ 63 then Some (word_of_int (bint t)) else None)
    \<and> term_to_Uint t = (if bint t < 0 then Inl BADARG
                        else if bint t < 2 ^ 64 then Inr (word_of_int (bint t)) else Inl SYSTEM_LIMIT)"
proof (cases t)
  case (Imm w)
  then show ?thesis
    using assms small_fits [of w] by (simp add: bterm_ok_def bint_def term_to_Sint_def term_to_Uint_def)
next
  case (Bignum s ds)
  then have n: "normal ds" using assms by (simp add: bterm_ok_def)
  have pos: "0 < dval ds" by (rule normal_pos [OF n])
  show ?thesis
  proof (cases "length ds * D_EXP \<le> 64")
    case True
    then obtain d where d: "ds = [d]" "d \<noteq> 0" using one_digit n by blast
    define k where "k = unat d"
    have k: "0 < k" "k < 2 ^ 64" using d(2) unat_digit [of d] by (simp_all add: k_def unat_gt_0)
    have v: "bint t = (if s then - int k else int k)" by (simp add: Bignum bint_def d(1) sval_def k_def)
    have w: "word_of_int (bint t) = (if s then - d else d)" by (simp add: v k_def)
    have sd: "sint d = (if k < 2 ^ 63 then int k else int k - 2 ^ 64)" unfolding k_def by (rule sint_digit)
    have snd: "sint (- d) = (if k \<le> 2 ^ 63 then - int k else 2 ^ 64 - int k)"
      unfolding k_def by (rule sint_neg_digit [OF d(2)])
    have "term_to_Sint t = (if s then if sint (- d) > 0 then None else Some (- d)
        else if sint d < 0 then None else Some d)"
      by (simp add: Bignum d(1) term_to_Sint_def D_EXP_def)
    moreover have "term_to_Uint t = (if s then Inl BADARG else Inr d)"
      by (simp add: Bignum d(1) term_to_Uint_def D_EXP_def)
    ultimately show ?thesis unfolding w using v k sd snd by auto
  next
    case False
    then have "2 ^ 64 \<le> dval ds" by (rule long_bignum [OF n])
    then have big: "2 ^ 64 \<le> int (dval ds)" by (metis of_nat_le_iff of_nat_numeral of_nat_power)
    have "term_to_Sint t = None" "term_to_Uint t = (if s then Inl BADARG else Inl SYSTEM_LIMIT)"
      using False by (simp_all add: Bignum term_to_Sint_def term_to_Uint_def)
    then show ?thesis using big pos by (auto simp: Bignum bint_def sval_def)
  qed
qed

lemma term_to_machine_integer_witness:
  "term_to_Sint (Bignum True [2 ^ 63]) = Some (word_of_int (- (2 ^ 63)))
   \<and> term_to_Sint (Bignum False [2 ^ 63]) = None \<and> term_to_Uint (Bignum True [2 ^ 63]) = Inl BADARG"
  using term_to_machine_integer [of "Bignum True [2 ^ 63]"] term_to_machine_integer [of "Bignum False [2 ^ 63]"]
  by (simp add: bterm_ok_def normal_def IS_USMALL_iff BIG_ARITY_MAX_def bint_def sval_def)

subsection \<open>Representation and comparison\<close>

text \<open>
  C39. An integer has at most one term: two well-formed integer terms with the same number are the same immediate
  or the same sign and digits. Bignums compare as their numbers do.
\<close>

theorem bterm_canonical:
  assumes "bterm_ok t" "bterm_ok u" "is_bignum x" "is_bignum y"
  shows "(t = u \<longleftrightarrow> bint t = bint u) \<and> big_comp x y = Some (sgn (bint x - bint y))
    \<and> big_ucomp x y = Some (sgn (\<bar>bint x\<bar> - \<bar>bint y\<bar>))"
proof -
  obtain xs xd where x: "x = Bignum xs xd" "big_val x = Some (xs, xd)" "normal xd" "bint x = sval xs xd"
    by (rule is_bignumE [OF assms(3)])
  obtain ys yd where y: "y = Bignum ys yd" "big_val y = Some (ys, yd)" "normal yd" "bint y = sval ys yd"
    by (rule is_bignumE [OF assms(4)])
  have c: "I_comp xd yd = sgn (int (dval xd) - int (dval yd))"
    using x(3) y(3) normal_normalized by (intro I_comp_val) (simp_all add: normal_def)
  have "big_comp x y = Some (sgn (bint x - bint y))"
  proof (cases "xs = ys")
    case True
    then show ?thesis
      using x(2,4) y(2,4) c by (cases xs) (auto simp: big_comp_def sval_def sgn_if)
  next
    case False
    then show ?thesis
      using x(2,4) y(2,4) normal_pos [OF x(3)] normal_pos [OF y(3)]
      by (cases xs) (auto simp: big_comp_def sval_def)
  qed
  moreover have "big_ucomp x y = Some (sgn (\<bar>bint x\<bar> - \<bar>bint y\<bar>))"
    using x(2,4) y(2,4) c by (simp add: big_ucomp_def)
  ultimately show ?thesis using bterm_unique [OF assms(1,2)] by blast
qed

lemma bterm_canonical_witness:
  "Bignum True [2 ^ 60] \<noteq> Bignum False [2 ^ 61]
   \<and> big_comp (Bignum True [2 ^ 60]) (Bignum False [2 ^ 61]) = Some (- 1)
   \<and> big_ucomp (Bignum False [2 ^ 61]) (Bignum True [2 ^ 60]) = Some 1"
proof -
  have ok: "is_bignum (Bignum True [2 ^ 60])" "is_bignum (Bignum False [2 ^ 61])" by (simp_all add: one_digit_bignum)
  then have "bterm_ok (Bignum True [2 ^ 60])" "bterm_ok (Bignum False [2 ^ 61])" by (simp_all add: is_bignum_def)
  then show ?thesis
    using bterm_canonical [OF _ _ ok] bterm_canonical [OF _ _ ok(2,1)] by (simp add: bint_def sval_def)
qed

end
