(* ===== verification/ErlArith.thy ===== *)
theory ErlArith
  imports BigTerm BigBz "HOL-Library.Signed_Division"
begin

text \<open>
  Arithmetic on terms (\<^verbatim>\<open>erl_arith.c\<close>, and \<open>big_div_rem\<close> and \<open>big_to_double\<close> of \<^verbatim>\<open>big.c\<close>): the functions behind
  the operators \<open>+\<close>, \<open>-\<close>, \<open>*\<close>, \<open>/\<close>, \<open>div\<close>, \<open>rem\<close>, \<open>band\<close>, \<open>bor\<close>, \<open>bxor\<close>, \<open>bnot\<close>, \<open>bsl\<close> and \<open>bsr\<close>. They convert smalls to
  bignums where one operand is a bignum, charge reductions for long numbers, and raise \<open>badarith\<close> and
  \<open>system_limit\<close>.

  Floating-point arithmetic is a parameter: the operations on doubles the code uses are the fields of a
  record. Heap fragments are left out: a result is a value, not a place in memory.
\<close>

subsection \<open>Terms and processes\<close>

text \<open>An integer or another immediate, a float, or another term (a list, a tuple and so on).\<close>

datatype 'f nterm = Term bterm | Float 'f | Other

record 'f float_ops =
  f_of_int :: "int \<Rightarrow> 'f"
  f_plus :: "'f \<Rightarrow> 'f \<Rightarrow> 'f"
  f_minus :: "'f \<Rightarrow> 'f \<Rightarrow> 'f"
  f_times :: "'f \<Rightarrow> 'f \<Rightarrow> 'f"
  f_div :: "'f \<Rightarrow> 'f \<Rightarrow> 'f"
  f_neg :: "'f \<Rightarrow> 'f"
  f_finite :: "'f \<Rightarrow> bool"

text \<open>
  The fields of \<open>Process\<close> the code uses: the reductions left, whether \<open>htop\<close> and the buffer of saved calls are
  there, and the reason of the last error.
\<close>

record arith_proc =
  fcalls :: int
  htop :: bool
  saved_calls :: bool
  freason :: "reason option"

text \<open>
  What a function returns: a term, or \<open>THE_NON_VALUE\<close> with the reason in the process. \<open>None\<close> stands for a call of
  the routines of \<^verbatim>\<open>big.c\<close> with arguments they do not accept.
\<close>

type_synonym 'f aresult = "('f nterm option \<times> arith_proc) option"

definition CONTEXT_REDS :: nat where "CONTEXT_REDS = 4000"

definition ERTS_ARITH_WORDS_PER_REDUCTION :: nat where "ERTS_ARITH_WORDS_PER_REDUCTION = 16"

definition BUMP_REDS :: "arith_proc \<Rightarrow> nat \<Rightarrow> arith_proc" where
  "BUMP_REDS p gc =
     (let f = fcalls p - int gc in
      p\<lparr>fcalls := (if f < 0 then if \<not> saved_calls p then 0
                   else if f < - int CONTEXT_REDS then - int CONTEXT_REDS else f
                 else f)\<rparr>)"

definition BUMP_ALL_REDS :: "arith_proc \<Rightarrow> arith_proc" where
  "BUMP_ALL_REDS p = p\<lparr>fcalls := (if \<not> saved_calls p then 0 else - int CONTEXT_REDS)\<rparr>"

definition bump_reds_linear :: "arith_proc \<Rightarrow> nat \<Rightarrow> arith_proc" where
  "bump_reds_linear p sz =
     (if htop p then
        if sz \<ge> CONTEXT_REDS * ERTS_ARITH_WORDS_PER_REDUCTION then BUMP_ALL_REDS p
        else BUMP_REDS p (sz div ERTS_ARITH_WORDS_PER_REDUCTION + 1)
      else p)"

definition bump_reds_quadratic :: "arith_proc \<Rightarrow> nat \<Rightarrow> nat \<Rightarrow> arith_proc" where
  "bump_reds_quadratic p sz1 sz2 =
     (if htop p then
        let max_sz = CONTEXT_REDS * ERTS_ARITH_WORDS_PER_REDUCTION in
        if sz1 \<ge> max_sz \<or> sz2 \<ge> max_sz then BUMP_ALL_REDS p
        else BUMP_REDS p (sz1 * sz2 div ERTS_ARITH_WORDS_PER_REDUCTION + 1)
      else p)"

definition raise :: "reason \<Rightarrow> arith_proc \<Rightarrow> 'f aresult" where
  "raise r p = Some (None, p\<lparr>freason := Some r\<rparr>)"

text \<open>What the switches on the tags of a term tell apart.\<close>

datatype 'f kind = Small eterm | Big bterm | Flonum 'f | Not_number

definition kind :: "'f nterm \<Rightarrow> 'f kind" where
  "kind t =
     (case t of
        Term (Imm w) \<Rightarrow> if is_small w then Small w else Not_number
      | Term (Bignum s ds) \<Rightarrow> Big (Bignum s ds)
      | Float f \<Rightarrow> Flonum f
      | Other \<Rightarrow> Not_number)"

definition SMALL_BITS :: nat where "SMALL_BITS = 60"

definition IS_SSMALL :: "u64 \<Rightarrow> bool" where
  "IS_SSMALL x \<longleftrightarrow> signed_drop_bit (SMALL_BITS - 1) x + 1 < 2"

definition MIN_SMALL :: u64 where "MIN_SMALL = - push_bit (SMALL_BITS - 1) 1"

abbreviation SMALL_ZERO :: eterm where "SMALL_ZERO \<equiv> make_small 0"
abbreviation SMALL_ONE :: eterm where "SMALL_ONE \<equiv> make_small 1"
abbreviation SMALL_MINUS_ONE :: eterm where "SMALL_MINUS_ONE \<equiv> make_small (- 1)"

text \<open>\<open>signed_val\<close> in a variable of type \<open>Sint\<close>.\<close>

definition sint_val :: "eterm \<Rightarrow> u64" where "sint_val w = word_of_int (signed_val w)"

definition big_size :: "bterm \<Rightarrow> nat" where
  "big_size t = (case t of Bignum s ds \<Rightarrow> length ds | Imm _ \<Rightarrow> 0)"

definition big_sign :: "bterm \<Rightarrow> bool" where
  "big_sign t = (case t of Bignum s ds \<Rightarrow> s | Imm _ \<Rightarrow> False)"

text \<open>A machine integer as a term.\<close>

definition ires_term :: "u64 \<Rightarrow> bterm" where
  "ires_term ires = (if IS_SSMALL ires then Imm (make_small ires) else small_to_big ires)"

text \<open>The end of an operation on bignums: \<open>NIL\<close> stands for a number that is too large.\<close>

definition big_result :: "arith_proc \<Rightarrow> bterm option \<Rightarrow> 'f aresult" where
  "big_result p res =
     (case res of
        None \<Rightarrow> None
      | Some t \<Rightarrow> if t = Imm NIL then raise SYSTEM_LIMIT p else Some (Some (Term t), p))"

subsection \<open>Floats\<close>

fun to_double_loop :: "'f float_ops \<Rightarrow> 'f \<Rightarrow> digit list \<Rightarrow> 'f option" where
  "to_double_loop F d (x # xs) =
     (let dbase = f_plus F (f_of_int F (uint D_MASK)) (f_of_int F 1);
          d = f_plus F (f_times F d dbase) (f_of_int F (uint x))
      in if f_finite F d then to_double_loop F d xs else None)"
| "to_double_loop F d [] = Some d"

definition big_to_double :: "'f float_ops \<Rightarrow> bterm \<Rightarrow> 'f option" where
  "big_to_double F x = do {
     (xsgn, ds) \<leftarrow> big_val x;
     d \<leftarrow> to_double_loop F (f_of_int F 0) (rev ds);
     Some (if xsgn then f_neg F d else d)
   }"

text \<open>An operand of a floating-point operation.\<close>

definition to_double :: "'f float_ops \<Rightarrow> 'f kind \<Rightarrow> 'f option" where
  "to_double F k =
     (case k of
        Small w \<Rightarrow> Some (f_of_int F (signed_val w))
      | Big x \<Rightarrow> big_to_double F x
      | Flonum f \<Rightarrow> Some f
      | Not_number \<Rightarrow> None)"

definition do_float :: "'f float_ops \<Rightarrow> ('f \<Rightarrow> 'f \<Rightarrow> 'f) \<Rightarrow> arith_proc \<Rightarrow> 'f kind \<Rightarrow> 'f kind \<Rightarrow> 'f aresult" where
  "do_float F f p k1 k2 =
     (case (to_double F k1, to_double F k2) of
        (Some f1, Some f2) \<Rightarrow>
          if f_finite F (f f1 f2) then Some (Some (Float (f f1 f2)), p) else raise BADARITH p
      | _ \<Rightarrow> raise BADARITH p)"

subsection \<open>Sums, differences and products\<close>

definition plus_big :: "arith_proc \<Rightarrow> bterm \<Rightarrow> bterm \<Rightarrow> 'f aresult" where
  "plus_big p x y = big_result (bump_reds_linear p (max (big_size x) (big_size y) + 2)) (big_plus x y)"

definition erts_mixed_plus :: "'f float_ops \<Rightarrow> arith_proc \<Rightarrow> 'f nterm \<Rightarrow> 'f nterm \<Rightarrow> 'f aresult" where
  "erts_mixed_plus F p arg1 arg2 =
     (case (kind arg1, kind arg2) of
        (Small a, Small b) \<Rightarrow> Some (Some (Term (ires_term (sint_val a + sint_val b))), p)
      | (Small a, Big y) \<Rightarrow>
          if a = SMALL_ZERO then Some (Some arg2, p) else plus_big p (small_to_big (sint_val a)) y
      | (Big x, Small b) \<Rightarrow>
          if b = SMALL_ZERO then Some (Some arg1, p) else plus_big p x (small_to_big (sint_val b))
      | (Big x, Big y) \<Rightarrow> plus_big p x y
      | (k1, k2) \<Rightarrow> do_float F (f_plus F) p k1 k2)"

definition erts_unary_minus :: "'f float_ops \<Rightarrow> arith_proc \<Rightarrow> 'f nterm \<Rightarrow> 'f aresult" where
  "erts_unary_minus F p arg =
     (case kind arg of
        Small a \<Rightarrow> Some (Some (Term (ires_term (- sint_val a))), p)
      | Big x \<Rightarrow>
          map_option (\<lambda>t. (Some (Term t), bump_reds_linear p (big_size x + 1))) (big_minus (Bignum False [0]) x)
      | Flonum f \<Rightarrow> if f_finite F (f_neg F f) then Some (Some (Float (f_neg F f)), p) else raise BADARITH p
      | Not_number \<Rightarrow> raise BADARITH p)"

text \<open>A difference is charged for one word less than a sum.\<close>

definition minus_big :: "arith_proc \<Rightarrow> bterm \<Rightarrow> bterm \<Rightarrow> 'f aresult" where
  "minus_big p x y = big_result (bump_reds_linear p (max (big_size x) (big_size y) + 1)) (big_minus x y)"

definition erts_mixed_minus :: "'f float_ops \<Rightarrow> arith_proc \<Rightarrow> 'f nterm \<Rightarrow> 'f nterm \<Rightarrow> 'f aresult" where
  "erts_mixed_minus F p arg1 arg2 =
     (case (kind arg1, kind arg2) of
        (Small a, Small b) \<Rightarrow> Some (Some (Term (ires_term (sint_val a - sint_val b))), p)
      | (Small a, Big y) \<Rightarrow> minus_big p (small_to_big (sint_val a)) y
      | (Big x, Small b) \<Rightarrow>
          if b = SMALL_ZERO then Some (Some arg1, p) else minus_big p x (small_to_big (sint_val b))
      | (Big x, Big y) \<Rightarrow> minus_big p x y
      | (k1, k2) \<Rightarrow> do_float F (f_minus F) p k1 k2)"

text \<open>\<open>same\<close>: the two arguments are the same object.\<close>

definition times_big :: "arith_proc \<Rightarrow> bool \<Rightarrow> bterm \<Rightarrow> bterm \<Rightarrow> 'f aresult" where
  "times_big p same x y = big_result (bump_reds_quadratic p (big_size x) (big_size y)) (big_times same x y)"

definition erts_mixed_times :: "'f float_ops \<Rightarrow> arith_proc \<Rightarrow> bool \<Rightarrow> 'f nterm \<Rightarrow> 'f nterm \<Rightarrow> 'f aresult" where
  "erts_mixed_times F p same arg1 arg2 =
     (case (kind arg1, kind arg2) of
        (Small a, Small b) \<Rightarrow>
          Some (Some (if a = SMALL_ZERO \<or> b = SMALL_ZERO then Term (Imm SMALL_ZERO)
                      else if a = SMALL_ONE then arg2
                      else if b = SMALL_ONE then arg1
                      else Term (small_times (sint_val a) (sint_val b))), p)
      | (Small a, Big y) \<Rightarrow>
          if a = SMALL_ZERO then Some (Some (Term (Imm SMALL_ZERO)), p)
          else if a = SMALL_ONE then Some (Some arg2, p)
          else times_big p False (small_to_big (sint_val a)) y
      | (Big x, Small b) \<Rightarrow>
          if b = SMALL_ZERO then Some (Some (Term (Imm SMALL_ZERO)), p)
          else if b = SMALL_ONE then Some (Some arg1, p)
          else times_big p False x (small_to_big (sint_val b))
      | (Big x, Big y) \<Rightarrow> times_big p same x y
      | (k1, k2) \<Rightarrow> do_float F (f_times F) p k1 k2)"

text \<open>The argument of an operation on bignums, when it is an integer.\<close>

definition as_big :: "'f kind \<Rightarrow> bterm option" where
  "as_big k = (case k of Small a \<Rightarrow> Some (small_to_big (sint_val a)) | Big x \<Rightarrow> Some x | _ \<Rightarrow> None)"

text \<open>\<open>pp\<close> is the product of the two first arguments where the function computes it; it is read after an error.\<close>

definition erts_mul_add ::
    "'f float_ops \<Rightarrow> arith_proc \<Rightarrow> bool \<Rightarrow> 'f nterm \<Rightarrow> 'f nterm \<Rightarrow> 'f nterm \<Rightarrow> 'f nterm option
      \<Rightarrow> ('f nterm option \<times> 'f nterm option \<times> arith_proc) option" where
  "erts_mul_add F p same arg1 arg2 arg3 pp =
     (case (as_big (kind arg1), as_big (kind arg2), as_big (kind arg3)) of
        (Some x, Some y, Some z) \<Rightarrow>
          map_option (\<lambda>(res, p). (res, pp, p))
            (big_result (bump_reds_quadratic p (big_size x) (big_size y)) (big_mul_add same x y z))
      | _ \<Rightarrow> do {
          (product, p) \<leftarrow> erts_mixed_times F p same arg1 arg2;
          (case product of
             None \<Rightarrow> Some (None, product, p)
           | Some t \<Rightarrow> map_option (\<lambda>(res, p). (res, product, p)) (erts_mixed_plus F p t arg3))
        })"

definition erts_mixed_div :: "'f float_ops \<Rightarrow> arith_proc \<Rightarrow> 'f nterm \<Rightarrow> 'f nterm \<Rightarrow> 'f aresult" where
  "erts_mixed_div F p arg1 arg2 = do_float F (f_div F) p (kind arg1) (kind arg2)"

subsection \<open>Division of integers\<close>

text \<open>
  Quotient and remainder of two bignums. \<open>Some None\<close>: the code returns 0, because one of them is too large.
\<close>

definition big_div_rem :: "bterm \<Rightarrow> bterm \<Rightarrow> (bterm \<times> bterm) option option" where
  "big_div_rem lhs rhs = do {
     (ls, ld) \<leftarrow> big_val lhs;
     (rs, rd) \<leftarrow> big_val rhs;
     (q, r) \<leftarrow> (if length rd = 1 then map_option (\<lambda>(q, r). (q, [r])) (D_div ld (hd rd)) else I_div_dispatch ld rd);
     let quotient = big_norm q (ls \<noteq> rs);
     let remainder = big_norm r ls;
     Some (if quotient = Imm NIL then None else if remainder = Imm NIL then None else Some (quotient, remainder))
   }"

definition div_rem_big ::
    "arith_proc \<Rightarrow> 'f nterm \<Rightarrow> bterm \<Rightarrow> bterm \<Rightarrow> (('f nterm \<times> 'f nterm) option \<times> arith_proc) option" where
  "div_rem_big p arg1 lhs rhs = do {
     cmp \<leftarrow> big_ucomp lhs rhs;
     if cmp < 0 then Some (Some (Term (Imm SMALL_ZERO), arg1), p)
     else if cmp = 0 then
       Some (Some (Term (Imm (if big_sign lhs = big_sign rhs then SMALL_ONE else SMALL_MINUS_ONE)),
                   Term (Imm SMALL_ZERO)), p)
     else do {
       let p = bump_reds_quadratic p (big_size lhs - big_size rhs + 1) (big_size rhs);
       res \<leftarrow> big_div_rem lhs rhs;
       Some (case res of
               None \<Rightarrow> (None, p\<lparr>freason := Some SYSTEM_LIMIT\<rparr>)
             | Some (q, r) \<Rightarrow> (Some (Term q, Term r), p))
     }
   }"

definition erts_int_div_rem ::
    "arith_proc \<Rightarrow> 'f nterm \<Rightarrow> 'f nterm \<Rightarrow> (('f nterm \<times> 'f nterm) option \<times> arith_proc) option" where
  "erts_int_div_rem p arg1 arg2 =
     (case (kind arg1, kind arg2) of
        (Small a, Small b) \<Rightarrow> div_rem_big p arg1 (small_to_big (sint_val a)) (small_to_big (sint_val b))
      | (Big x, Small b) \<Rightarrow> div_rem_big p arg1 x (small_to_big (sint_val b))
      | (Small a, Big y) \<Rightarrow>
          if a \<noteq> make_small MIN_SMALL then Some (Some (Term (Imm SMALL_ZERO), arg1), p)
          else div_rem_big p arg1 (small_to_big (sint_val a)) y
      | (Big x, Big y) \<Rightarrow> div_rem_big p arg1 x y
      | _ \<Rightarrow> Some (None, p\<lparr>freason := Some BADARITH\<rparr>))"

text \<open>Both arguments are small: one test of the tags of both.\<close>

definition both_small :: "'f nterm \<Rightarrow> 'f nterm \<Rightarrow> (eterm \<times> eterm) option" where
  "both_small t u =
     (case (t, u) of
        (Term (Imm a), Term (Imm b)) \<Rightarrow> if a AND b AND 15 = TAG_IMMED1_SMALL then Some (a, b) else None
      | _ \<Rightarrow> None)"

definition intdiv_2 :: "arith_proc \<Rightarrow> 'f nterm \<Rightarrow> 'f nterm \<Rightarrow> 'f aresult" where
  "intdiv_2 p arg1 arg2 =
     (if arg2 = Term (Imm SMALL_ZERO) then raise BADARITH p
      else
        (let general = map_option (\<lambda>(qr, p). (map_option fst qr, p)) (erts_int_div_rem p arg1 arg2) in
         case both_small arg1 arg2 of
           Some (a, b) \<Rightarrow>
             (let ires = (word_of_int (signed_val a sdiv signed_val b) :: u64)
              in if IS_SSMALL ires then Some (Some (Term (Imm (make_small ires))), p) else general)
         | None \<Rightarrow> general))"

definition rem_2 :: "arith_proc \<Rightarrow> 'f nterm \<Rightarrow> 'f nterm \<Rightarrow> 'f aresult" where
  "rem_2 p arg1 arg2 =
     (if arg2 = Term (Imm SMALL_ZERO) then raise BADARITH p
      else
        (case both_small arg1 arg2 of
           Some (a, b) \<Rightarrow> Some (Some (Term (Imm (make_small (word_of_int (signed_val a smod signed_val b))))), p)
         | None \<Rightarrow> map_option (\<lambda>(qr, p). (map_option snd qr, p)) (erts_int_div_rem p arg1 arg2)))"

subsection \<open>Bitwise operations\<close>

text \<open>The arguments after \<open>NUMBER_CODE\<close>: at least one of the two has to be a bignum.\<close>

definition big_args :: "'f nterm \<Rightarrow> 'f nterm \<Rightarrow> (bterm \<times> bterm) option" where
  "big_args arg1 arg2 =
     (case (kind arg1, kind arg2) of
        (Small a, Big y) \<Rightarrow> Some (small_to_big (sint_val a), y)
      | (Big x, Small b) \<Rightarrow> Some (x, small_to_big (sint_val b))
      | (Big x, Big y) \<Rightarrow> Some (x, y)
      | _ \<Rightarrow> None)"

text \<open>The results of \<open>band\<close> and \<open>bor\<close> are returned as they are; only an assertion says that they are not \<open>NIL\<close>.\<close>

definition erts_band :: "arith_proc \<Rightarrow> 'f nterm \<Rightarrow> 'f nterm \<Rightarrow> 'f aresult" where
  "erts_band p arg1 arg2 =
     (case big_args arg1 arg2 of
        None \<Rightarrow> raise BADARITH p
      | Some (x, y) \<Rightarrow>
          map_option (\<lambda>t. (Some (Term t), bump_reds_linear p (max (big_size x) (big_size y) + 2))) (big_band x y))"

definition erts_bor :: "arith_proc \<Rightarrow> 'f nterm \<Rightarrow> 'f nterm \<Rightarrow> 'f aresult" where
  "erts_bor p arg1 arg2 =
     (case big_args arg1 arg2 of
        None \<Rightarrow> raise BADARITH p
      | Some (x, y) \<Rightarrow>
          map_option (\<lambda>t. (Some (Term t), bump_reds_linear p (max (big_size x) (big_size y) + 2))) (big_bor x y))"

definition erts_bxor :: "arith_proc \<Rightarrow> 'f nterm \<Rightarrow> 'f nterm \<Rightarrow> 'f aresult" where
  "erts_bxor p arg1 arg2 =
     (case big_args arg1 arg2 of
        None \<Rightarrow> raise BADARITH p
      | Some (x, y) \<Rightarrow> big_result (bump_reds_linear p (max (big_size x) (big_size y) + 2)) (big_bxor x y))"

definition erts_bnot :: "arith_proc \<Rightarrow> 'f nterm \<Rightarrow> 'f aresult" where
  "erts_bnot p arg =
     (case kind arg of
        Big x \<Rightarrow> big_result (bump_reds_linear p (big_size x + 2)) (big_bnot x)
      | _ \<Rightarrow> raise BADARITH p)"

definition band_2 :: "arith_proc \<Rightarrow> 'f nterm \<Rightarrow> 'f nterm \<Rightarrow> 'f aresult" where
  "band_2 p arg1 arg2 =
     (case both_small arg1 arg2 of
        Some (a, b) \<Rightarrow> Some (Some (Term (Imm (a AND b))), p)
      | None \<Rightarrow> erts_band p arg1 arg2)"

definition bor_2 :: "arith_proc \<Rightarrow> 'f nterm \<Rightarrow> 'f nterm \<Rightarrow> 'f aresult" where
  "bor_2 p arg1 arg2 =
     (case both_small arg1 arg2 of
        Some (a, b) \<Rightarrow> Some (Some (Term (Imm (a OR b))), p)
      | None \<Rightarrow> erts_bor p arg1 arg2)"

definition bxor_2 :: "arith_proc \<Rightarrow> 'f nterm \<Rightarrow> 'f nterm \<Rightarrow> 'f aresult" where
  "bxor_2 p arg1 arg2 =
     (case both_small arg1 arg2 of
        Some (a, b) \<Rightarrow> Some (Some (Term (Imm (make_small (sint_val a XOR sint_val b)))), p)
      | None \<Rightarrow> erts_bxor p arg1 arg2)"

definition bnot_1 :: "arith_proc \<Rightarrow> 'f nterm \<Rightarrow> 'f aresult" where
  "bnot_1 p arg =
     (case kind arg of
        Small a \<Rightarrow> Some (Some (Term (Imm (make_small (NOT (sint_val a))))), p)
      | Big x \<Rightarrow> big_result (bump_reds_linear p (big_size x + 2)) (big_bnot x)
      | _ \<Rightarrow> raise BADARITH p)"

subsection \<open>Shifts\<close>

text \<open>
  From the label \<open>big_shift\<close> on, for a shift by \<open>i\<close>, to the right when it is negative. The test of the size comes
  before the result is allocated.
\<close>

definition big_shift :: "arith_proc \<Rightarrow> bterm \<Rightarrow> int \<Rightarrow> 'f aresult" where
  "big_shift p x i =
     (let sz = int (big_size x);
          ires = (if i > 0 then sz + i div int D_EXP
                  else if sz \<le> - i div int D_EXP then 3
                  else sz - (- i div int D_EXP))
      in if ires - 8 > int BIG_ARITY_MAX then raise SYSTEM_LIMIT p
         else big_result (bump_reds_linear p (nat ires + 2)) (big_lshift x i))"

text \<open>From the label \<open>small_shift\<close> on.\<close>

definition small_shift :: "arith_proc \<Rightarrow> eterm \<Rightarrow> int \<Rightarrow> 'f aresult" where
  "small_shift p a i =
     (let ires = sint_val a in
      if i = 0 \<or> ires = 0 then Some (Some (Term (Imm a)), p)
      else if i < 0 then
        Some (Some (Term (Imm
          (if - i \<ge> int SMALL_BITS - 1 then if sint ires < 0 then SMALL_MINUS_ONE else SMALL_ZERO
           else make_small (signed_drop_bit (nat (- i)) ires)))), p)
      else if i < int SMALL_BITS - 1 \<and>
        (sint ires > 0 \<and> push_bit (SMALL_BITS - 1 - nat i) (NOT 0) AND ires = 0 \<or>
         push_bit (SMALL_BITS - 1 - nat i) (NOT 0) AND NOT ires = 0)
      then Some (Some (Term (Imm (make_small (push_bit (nat i) ires)))), p)
      else big_shift p (small_to_big ires) i)"

text \<open>A shift by a small number.\<close>

definition shift_by :: "arith_proc \<Rightarrow> 'f nterm \<Rightarrow> int \<Rightarrow> 'f aresult" where
  "shift_by p arg1 i =
     (case kind arg1 of
        Small a \<Rightarrow> small_shift p a i
      | Big x \<Rightarrow> if i = 0 then Some (Some arg1, p) else big_shift p x i
      | _ \<Rightarrow> raise BADARITH p)"

text \<open>From the label \<open>do_bsl\<close> on.\<close>

definition do_bsl :: "arith_proc \<Rightarrow> 'f nterm \<Rightarrow> 'f nterm \<Rightarrow> 'f aresult" where
  "do_bsl p arg1 arg2 =
     (case kind arg2 of
        Small b \<Rightarrow> shift_by p arg1 (signed_val b)
      | Big y \<Rightarrow>
          if big_sign y then shift_by p arg1 (signed_val (make_small MIN_SMALL))
          else
            (case kind arg1 of
               Small a \<Rightarrow> if a = SMALL_ZERO then Some (Some arg1, p) else raise SYSTEM_LIMIT p
             | Big x \<Rightarrow> raise SYSTEM_LIMIT p
             | _ \<Rightarrow> raise BADARITH p)
      | _ \<Rightarrow> raise BADARITH p)"

definition erts_shift :: "arith_proc \<Rightarrow> 'f nterm \<Rightarrow> 'f nterm \<Rightarrow> bool \<Rightarrow> 'f aresult" where
  "erts_shift p arg1 arg2 right =
     (if right then
        (case kind arg2 of
           Small b \<Rightarrow> shift_by p arg1 (- signed_val b)
         | Big y \<Rightarrow> do_bsl p arg1 (Term (Imm (make_small (if big_sign y then MAX_SMALL else MIN_SMALL))))
         | _ \<Rightarrow> raise BADARITH p)
      else do_bsl p arg1 arg2)"

definition erts_bsl :: "arith_proc \<Rightarrow> 'f nterm \<Rightarrow> 'f nterm \<Rightarrow> 'f aresult" where
  "erts_bsl p arg1 arg2 = erts_shift p arg1 arg2 False"

definition erts_bsr :: "arith_proc \<Rightarrow> 'f nterm \<Rightarrow> 'f nterm \<Rightarrow> 'f aresult" where
  "erts_bsr p arg1 arg2 = erts_shift p arg1 arg2 True"

subsection \<open>The built-in functions\<close>

definition splus_1 :: "arith_proc \<Rightarrow> 'f nterm \<Rightarrow> 'f aresult" where
  "splus_1 p arg = (if kind arg = Not_number then raise BADARITH p else Some (Some arg, p))"

definition splus_2 :: "'f float_ops \<Rightarrow> arith_proc \<Rightarrow> 'f nterm \<Rightarrow> 'f nterm \<Rightarrow> 'f aresult" where
  "splus_2 F p arg1 arg2 = erts_mixed_plus F p arg1 arg2"

definition sminus_1 :: "'f float_ops \<Rightarrow> arith_proc \<Rightarrow> 'f nterm \<Rightarrow> 'f aresult" where
  "sminus_1 F p arg = erts_unary_minus F p arg"

definition sminus_2 :: "'f float_ops \<Rightarrow> arith_proc \<Rightarrow> 'f nterm \<Rightarrow> 'f nterm \<Rightarrow> 'f aresult" where
  "sminus_2 F p arg1 arg2 = erts_mixed_minus F p arg1 arg2"

definition stimes_2 :: "'f float_ops \<Rightarrow> arith_proc \<Rightarrow> bool \<Rightarrow> 'f nterm \<Rightarrow> 'f nterm \<Rightarrow> 'f aresult" where
  "stimes_2 F p same arg1 arg2 = erts_mixed_times F p same arg1 arg2"

definition div_2 :: "'f float_ops \<Rightarrow> arith_proc \<Rightarrow> 'f nterm \<Rightarrow> 'f nterm \<Rightarrow> 'f aresult" where
  "div_2 F p arg1 arg2 = erts_mixed_div F p arg1 arg2"

definition bsl_2 :: "arith_proc \<Rightarrow> 'f nterm \<Rightarrow> 'f nterm \<Rightarrow> 'f aresult" where
  "bsl_2 p arg1 arg2 = erts_bsl p arg1 arg2"

definition bsr_2 :: "arith_proc \<Rightarrow> 'f nterm \<Rightarrow> 'f nterm \<Rightarrow> 'f aresult" where
  "bsr_2 p arg1 arg2 = erts_bsr p arg1 arg2"

end
