(* ===== verification/ErlArithThms.thy ===== *)
theory ErlArithThms
  imports ErlArith BigOps BigBzThms
begin

text \<open>
  The arithmetic on integer terms is the arithmetic on integers: for every combination of small integers and
  bignums an operator returns the one well-formed term of the exact result, raises \<open>system_limit\<close> when the
  result is too large for a bignum, and \<open>badarith\<close> on terms that are not integers.
\<close>

subsection \<open>Small integers\<close>

lemma sint_val [simp]: "is_small a \<Longrightarrow> sint (sint_val a) = signed_val a"
  using small_fits [of a] sint_word_of_int by (simp add: sint_val_def)

lemma make_small_val: "- (2 ^ 59) \<le> sint x \<Longrightarrow> sint x < 2 ^ 59 \<Longrightarrow> signed_val (make_small x) = sint x"
  using signed_val_make_small [of "sint x"] by simp

lemma IS_SSMALL_iff: "IS_SSMALL x \<longleftrightarrow> - (2 ^ 59) \<le> sint x \<and> sint x < 2 ^ 59"
proof -
  define w :: u64 where "w = signed_drop_bit 59 x"
  have s: "sint w = sint x div 2 ^ 59" by (simp add: w_def sint_signed_drop_bit_eq drop_bit_eq_div)
  have "w + 1 < 2 \<longleftrightarrow> w = - 1 \<or> w = 0"
  proof -
    have "w + 1 < 2 \<longleftrightarrow> w + 1 = 0 \<or> w + 1 = 1"
      by (simp add: word_less_nat_alt less_2_cases_iff word_unat_eq_iff)
    then show ?thesis by (auto simp: eq_neg_iff_add_eq_0)
  qed
  also have "\<dots> \<longleftrightarrow> sint w = - 1 \<or> sint w = 0" 
  proof -
    have "w = v" if "sint w = sint v" for v using arg_cong [OF that, of "of_int :: int \<Rightarrow> u64"] by simp
    from this [of "- 1"] this [of 0] show ?thesis by auto
  qed
  also have "\<dots> \<longleftrightarrow> - (2 ^ 59) \<le> sint x \<and> sint x < 2 ^ 59" unfolding s by auto
  finally show ?thesis by (simp add: IS_SSMALL_def SMALL_BITS_def w_def)
qed

lemma small_bterm: "- (2 ^ 59) \<le> sint x \<Longrightarrow> sint x < 2 ^ 59 \<Longrightarrow>
    bterm_ok (Imm (make_small x)) \<and> bint (Imm (make_small x)) = sint x"
  using make_small_val [of x] by (simp add: bterm_ok_def bint_def)

lemma ires_term_val: "bterm_ok (ires_term x)" "bint (ires_term x) = sint x"
proof -
  have "bterm_ok (ires_term x) \<and> bint (ires_term x) = sint x"
  proof (cases "IS_SSMALL x")
    case True
    then show ?thesis using small_bterm [of x] by (simp add: ires_term_def IS_SSMALL_iff)
  next
    case False
    have "bterm_ok (small_to_big x)"
    proof -
      obtain s ds where t: "small_to_big x = Bignum s ds" "bint (small_to_big x) = sval s ds" "bint (small_to_big x) \<noteq> 0 \<longrightarrow> normal ds"
        by (rule big_argE [OF small_to_big_arg(1)])
      have v: "bint (small_to_big x) < - (2 ^ 59) \<or> 2 ^ 59 \<le> bint (small_to_big x)"
        using False by (auto simp: IS_SSMALL_iff small_to_big_arg(2))
      obtain d where d: "ds = [d]" using t(1) by (auto simp: small_to_big_def split: if_splits)
      define n where "n = unat d"
      have "sval s ds = (if s then - int n else int n)" by (simp add: sval_def d n_def)
      then have "2 ^ 59 \<le> n \<and> (s \<longrightarrow> 2 ^ 59 < n) \<and> normal ds" using v t(2,3) by (auto split: if_splits)
      then show ?thesis using t(1) d by (auto simp: n_def bterm_ok_def BIG_ARITY_MAX_def IS_USMALL_iff)
    qed
    then show ?thesis using False small_to_big_arg(2) by (simp add: ires_term_def)
  qed
  then show "bterm_ok (ires_term x)" "bint (ires_term x) = sint x" by blast+
qed

subsection \<open>Integer terms\<close>

lemma bterm_cases:
  assumes "bterm_ok t"
  obtains (small) a where "t = Imm a" "is_small a" "bint t = signed_val a" | (big) "is_bignum t"
  using assms by (cases t) (auto simp: bterm_ok_def is_bignum_def bint_def)

lemma kind_small [simp]: "is_small a \<Longrightarrow> kind (Term (Imm a)) = Small a"
  by (simp add: kind_def)

lemma kind_big [simp]: "is_bignum t \<Longrightarrow> kind (Term t) = Big t"
  by (cases t) (auto simp: kind_def is_bignum_def)

lemma small_arg: "is_small a \<Longrightarrow> big_arg (small_to_big (sint_val a)) \<and> bint (small_to_big (sint_val a)) = signed_val a"
  using small_to_big_arg [of "sint_val a"] by simp

lemma small_const:
  assumes "is_small a" "- (2 ^ 59) \<le> v" "v < 2 ^ 59"
  shows "a = make_small (word_of_int v) \<longleftrightarrow> signed_val a = v"
  using assms small_inj [of a "make_small (word_of_int v)"] signed_val_make_small [of v] by auto

lemma small_zero: "is_small a \<Longrightarrow> a = SMALL_ZERO \<longleftrightarrow> signed_val a = 0"
  using small_const [of a 0] by simp

lemma small_one: "is_small a \<Longrightarrow> a = SMALL_ONE \<longleftrightarrow> signed_val a = 1"
  using small_const [of a 1] by simp

lemma not_too_big: "\<bar>v\<bar> < 2 ^ 128 \<Longrightarrow> \<not> too_big v"
proof -
  have "(2 :: int) ^ 128 \<le> 2 ^ (64 * BIG_ARITY_MAX)" by (intro power_increasing) (simp_all add: BIG_ARITY_MAX_def)
  then show "\<bar>v\<bar> < 2 ^ 128 \<Longrightarrow> \<not> too_big v" unfolding too_big_def by linarith
qed

lemma bterm_not_too_big:
  assumes "bterm_ok t"
  shows "\<not> too_big (bint t)"
proof (cases t)
  case (Imm a)
  then have "is_small a" using assms by (simp add: bterm_ok_def)
  then have "\<bar>bint t\<bar> < 2 ^ 128" using small_range [of a] Imm by (simp add: bint_def)
  then show ?thesis by (rule not_too_big)
next
  case (Bignum s ds)
  then show ?thesis using assms too_big_normal [of ds s] by (simp add: bterm_ok_def bint_def)
qed

subsection \<open>Results\<close>

text \<open>What an operation with the exact result \<open>v\<close> returns.\<close>

definition computes_int :: "'f aresult \<Rightarrow> int \<Rightarrow> bool" where
  "computes_int res v \<longleftrightarrow>
     (\<exists>out p. res = Some (out, p) \<and>
        (if too_big v then out = None \<and> freason p = Some SYSTEM_LIMIT
         else (\<exists>t. out = Some (Term t) \<and> bterm_ok t \<and> bint t = v)))"

lemma computes_term: "bterm_ok t \<Longrightarrow> bint t = v \<Longrightarrow> computes_int (Some (Some (Term t), p)) v"
  using bterm_not_too_big [of t] by (auto simp: computes_int_def)

lemma computes_ires: "sint x = v \<Longrightarrow> computes_int (Some (Some (Term (ires_term x)), p)) v"
  using computes_term ires_term_val by blast

lemma big_result_computes:
  assumes "represents res v"
  shows "computes_int (big_result p res) v"
proof -
  obtain t where t: "res = Some t" "if too_big v then t = Imm NIL else bterm_ok t \<and> bint t = v"
    using assms by (auto simp: represents_def split: option.splits)
  have "\<not> bterm_ok (Imm NIL)" by (simp add: bterm_ok_def)
  then show ?thesis using t by (cases "too_big v") (auto simp: big_result_def raise_def computes_int_def)
qed

subsection \<open>Sums, differences and products\<close>

text \<open>The facts every proof below uses for a converted small integer and for a bignum.\<close>

lemmas arg_facts = small_arg is_bignum_arg

lemma small_sum: "is_small a \<Longrightarrow> is_small b \<Longrightarrow> sint (sint_val a + sint_val b) = signed_val a + signed_val b"
  and small_diff: "is_small a \<Longrightarrow> is_small b \<Longrightarrow> sint (sint_val a - sint_val b) = signed_val a - signed_val b"
  and small_neg: "is_small a \<Longrightarrow> sint (- sint_val a) = - signed_val a"
proof -
  have r: "- (2 ^ 59) \<le> signed_val a \<and> signed_val a < 2 ^ 59" if "is_small a" for a using small_range [OF that] by simp
  show "sint (sint_val a + sint_val b) = signed_val a + signed_val b" if "is_small a" "is_small b"
    using r [OF that(1)] r [OF that(2)] sint_word_of_int [of "signed_val a + signed_val b"] by (simp add: sint_val_def)
  show "sint (sint_val a - sint_val b) = signed_val a - signed_val b" if "is_small a" "is_small b"
    using r [OF that(1)] r [OF that(2)] sint_word_of_int [of "signed_val a - signed_val b"] by (simp add: sint_val_def)
  show "sint (- sint_val a) = - signed_val a" if "is_small a"
    using r [OF that] sint_word_of_int [of "- signed_val a"] by (simp add: sint_val_def)
qed

text \<open>The four cases of two integers; a small integer comes with the bignum it is converted to.\<close>

lemma int_pair_cases:
  assumes "bterm_ok x" "bterm_ok y"
  obtains (small_small) a b where "x = Imm a" "y = Imm b" "is_small a" "is_small b" "bint x = signed_val a" "bint y = signed_val b"
  | (small_big) a where "x = Imm a" "is_small a" "is_bignum y" "big_arg y" "big_arg (small_to_big (sint_val a))"
      "bint x = signed_val a" "bint (small_to_big (sint_val a)) = bint x"
  | (big_small) b where "y = Imm b" "is_small b" "is_bignum x" "big_arg x" "big_arg (small_to_big (sint_val b))"
      "bint y = signed_val b" "bint (small_to_big (sint_val b)) = bint y"
  | (big_big) "is_bignum x" "is_bignum y" "big_arg x" "big_arg y"
proof (cases rule: bterm_cases [OF assms(1)])
  case x: (1 a)
  show ?thesis
    by (cases rule: bterm_cases [OF assms(2)]) (use x small_small small_big small_arg is_bignum_arg in auto)
next
  case 2
  then show ?thesis
    by (cases rule: bterm_cases [OF assms(2)]) (use big_small big_big small_arg is_bignum_arg in auto)
qed

lemma plus_computes:
  fixes F :: "'f float_ops"
  assumes ok: "bterm_ok x" "bterm_ok y"
  shows "computes_int (erts_mixed_plus F p (Term x) (Term y)) (bint x + bint y)"
proof -
  have big: "computes_int (plus_big p u v :: 'f aresult) (bint u + bint v)" if "big_arg u" "big_arg v" for u v
    unfolding plus_big_def by (rule big_result_computes [OF plus.op_represents [OF that TrueI]])
  show ?thesis
  proof (cases rule: int_pair_cases [OF ok])
    case (1 a b)
    then show ?thesis using computes_ires [OF small_sum [of a b]] by (simp add: erts_mixed_plus_def)
  next
    case (2 a)
    then show ?thesis using big [OF 2(5,4)] by (simp add: erts_mixed_plus_def small_zero computes_term ok)
  next
    case (3 b)
    then show ?thesis using big [OF 3(4,5)] by (simp add: erts_mixed_plus_def small_zero computes_term ok)
  next
    case 4
    then show ?thesis using big [OF 4(3,4)] by (simp add: erts_mixed_plus_def)
  qed
qed

lemma minus_computes:
  fixes F :: "'f float_ops"
  assumes ok: "bterm_ok x" "bterm_ok y"
  shows "computes_int (erts_mixed_minus F p (Term x) (Term y)) (bint x - bint y)"
proof -
  have big: "computes_int (minus_big p u v :: 'f aresult) (bint u - bint v)" if "big_arg u" "big_arg v" for u v
    unfolding minus_big_def by (rule big_result_computes [OF minus.op_represents [OF that TrueI]])
  show ?thesis
  proof (cases rule: int_pair_cases [OF ok])
    case (1 a b)
    then show ?thesis using computes_ires [OF small_diff [of a b]] by (simp add: erts_mixed_minus_def)
  next
    case (2 a)
    then show ?thesis using big [OF 2(5,4)] by (simp add: erts_mixed_minus_def)
  next
    case (3 b)
    then show ?thesis using big [OF 3(4,5)] by (simp add: erts_mixed_minus_def small_zero computes_term ok)
  next
    case 4
    then show ?thesis using big [OF 4(3,4)] by (simp add: erts_mixed_minus_def)
  qed
qed

text \<open>The negative of an integer term is never too large.\<close>

lemma unary_minus_computes:
  fixes F :: "'f float_ops"
  assumes ok: "bterm_ok x"
  shows "computes_int (erts_unary_minus F p (Term x)) (- bint x)"
proof (cases rule: bterm_cases [OF ok])
  case (1 a)
  then show ?thesis using computes_ires [OF small_neg [of a]] by (simp add: erts_unary_minus_def)
next
  case 2
  have z: "big_arg (Bignum False [0])" "bint (Bignum False [0]) = 0"
    by (simp_all add: big_arg_def I_is_normalized_def bint_def sval_def)
  have "\<not> too_big (- bint x)" using bterm_not_too_big [OF ok] by (simp add: too_big_def)
  then obtain t where "big_minus (Bignum False [0]) x = Some t" "bterm_ok t" "bint t = - bint x"
    using minus.op_cases [OF z(1) is_bignum_arg(1) [OF 2] TrueI] z(2) by auto
  then show ?thesis using 2 by (simp add: erts_unary_minus_def computes_term)
qed

lemma times_computes:
  fixes F :: "'f float_ops"
  assumes ok: "bterm_ok x" "bterm_ok y" and same: "same \<longrightarrow> x = y"
  shows "computes_int (erts_mixed_times F p same (Term x) (Term y)) (bint x * bint y)"
proof -
  have big: "computes_int (times_big p s u v :: 'f aresult) (bint u * bint v)"
    if "big_arg u" "big_arg v" "s \<longrightarrow> u = v" for s u v
    unfolding times_big_def by (rule big_result_computes [OF times.op_represents [OF that]])
  have zero: "bterm_ok (Imm SMALL_ZERO)" "bint (Imm SMALL_ZERO) = 0" using small_bterm [of 0] by simp_all
  show ?thesis
  proof (cases rule: int_pair_cases [OF ok])
    case (1 a b)
    then show ?thesis using small_times_exact [of "sint_val a" "sint_val b"] ok zero
      by (auto simp: erts_mixed_times_def small_zero small_one intro!: computes_term)
  next
    case (2 a)
    then show ?thesis using big [OF 2(5,4), of False] ok zero
      by (auto simp: erts_mixed_times_def small_zero small_one intro!: computes_term)
  next
    case (3 b)
    then show ?thesis using big [OF 3(4,5), of False] ok zero
      by (auto simp: erts_mixed_times_def small_zero small_one intro!: computes_term)
  next
    case 4
    then show ?thesis using big [OF 4(3,4) same] by (simp add: erts_mixed_times_def)
  qed
qed

lemma as_big_arg:
  assumes "bterm_ok x"
  obtains u where "as_big (kind (Term x :: 'f nterm)) = Some u" "big_arg u" "bint u = bint x"
    "\<And>y. y = x \<Longrightarrow> as_big (kind (Term y :: 'f nterm)) = Some u"
proof (cases rule: bterm_cases [OF assms])
  case (1 a)
  then show ?thesis using that [of "small_to_big (sint_val a)"] small_arg [of a] by (simp add: as_big_def)
next
  case 2
  then show ?thesis using that [of x] is_bignum_arg by (simp add: as_big_def)
qed

lemma mul_add_computes:
  fixes F :: "'f float_ops"
  assumes "bterm_ok x" "bterm_ok y" "bterm_ok z" "same \<longrightarrow> x = y"
  shows "\<exists>out p'. erts_mul_add F p same (Term x) (Term y) (Term z) pp = Some (out, pp, p') \<and>
    computes_int (Some (out, p')) (bint x * bint y + bint z)"
proof -
  obtain u where u: "as_big (kind (Term x :: 'f nterm)) = Some u" "big_arg u" "bint u = bint x"
    using as_big_arg [OF assms(1)] by metis
  obtain v where v: "as_big (kind (Term y :: 'f nterm)) = Some v" "big_arg v" "bint v = bint y"
    using as_big_arg [OF assms(2)] by metis
  obtain w where w: "as_big (kind (Term z :: 'f nterm)) = Some w" "big_arg w" "bint w = bint z"
    using as_big_arg [OF assms(3)] by metis
  have "same \<longrightarrow> u = v" using assms(4) u(1) v(1) by auto
  then have "computes_int (big_result (bump_reds_quadratic p (big_size u) (big_size v)) (big_mul_add same u v w) :: 'f aresult)
    (bint x * bint y + bint z)"
    using big_result_computes [OF big_mul_add_represents [OF u(2) v(2) w(2)]] u(3) v(3) w(3) by simp
  moreover from this obtain out p' where
    "(big_result (bump_reds_quadratic p (big_size u) (big_size v)) (big_mul_add same u v w) :: 'f aresult) = Some (out, p')"
    by (auto simp: computes_int_def)
  ultimately show ?thesis by (simp add: erts_mul_add_def u(1) v(1) w(1))
qed

subsection \<open>Division of integers\<close>

lemma sval_sdiv:
  assumes "0 < dval x" "0 < dval y" "dval q = dval x div dval y" "dval r = dval x mod dval y"
  shows "sval (s \<noteq> t) q = sval s x sdiv sval t y" "sval s r = sval s x smod sval t y"
  using assms by (cases s; cases t; simp add: sval_def signed_divide_int_def signed_modulo_int_def zdiv_int zmod_int)+

lemma norm_term:
  assumes "I_is_normalized r" "r \<noteq> []" "sval s r = v" "\<not> too_big v"
  shows "bterm_ok (big_norm r s)" "bint (big_norm r s) = v" "big_norm r s \<noteq> Imm NIL"
proof -
  show ok: "bterm_ok (big_norm r s)" "bint (big_norm r s) = v"
    using norm_represents [OF assms(1,2), of s] assms(3,4) by (simp_all add: represents_def)
  show "big_norm r s \<noteq> Imm NIL" using ok(1) by (auto simp: bterm_ok_def)
qed

lemma digit_division:
  assumes n: "normal x" "normal y" and le: "dval y \<le> dval x"
  obtains q r where
    "(if length y = 1 then map_option (\<lambda>(q, r). (q, [r])) (D_div x (hd y)) else I_div_dispatch x y) = Some (q, r)"
    "dval q = dval x div dval y" "dval r = dval x mod dval y" "I_is_normalized q" "I_is_normalized r" "q \<noteq> []" "r \<noteq> []"
proof (cases "length y = 1")
  case True
  then obtain d where d: "y = [d]" by (cases y) auto
  then have "d \<noteq> 0" using n(2) by (simp add: normal_def)
  from D_div_exact [OF n(1) this] obtain q r where qr: "D_div x d = Some (q, r)" "dval q = dval x div unat d"
    "unat r = dval x mod unat d" "I_is_normalized q" by blast
  have "0 < dval q" using le normal_pos [OF n(2)] by (simp add: qr(2) d div_greater_zero_iff)
  then have "q \<noteq> []" by auto
  then show ?thesis using that [of q "[r]"] qr d by (auto simp: I_is_normalized_def)
next
  case False
  then have l: "2 \<le> length y" using n(2) by (cases y) (auto simp: normal_def Suc_le_eq)
  have "length y \<le> length x" using normal_length [OF n(2)] le_less_trans [OF le dval_bound] by blast
  then have "divides_ok x y (I_div_dispatch x y)" using l n le by (intro I_div_dispatch_val)
  then show ?thesis using that False by (auto simp: divides_ok_def)
qed

lemma too_big_mono: "\<bar>v\<bar> \<le> \<bar>w\<bar> \<Longrightarrow> too_big v \<Longrightarrow> too_big w"
  by (simp add: too_big_def)

lemma big_div_rem_val:
  assumes a: "big_arg x" "big_arg y" "bint y \<noteq> 0" "\<bar>bint y\<bar> \<le> \<bar>bint x\<bar>" "\<not> too_big (bint x)"
  shows "\<exists>q r. big_div_rem x y = Some (Some (q, r)) \<and> bterm_ok q \<and> bterm_ok r
    \<and> bint q = bint x sdiv bint y \<and> bint r = bint x smod bint y"
proof -
  have x0: "bint x \<noteq> 0" using a(3,4) by auto
  obtain xs xd where x: "big_val x = Some (xs, xd)" "bint x = sval xs xd" "normal xd"
    using big_argE [OF a(1)] x0 by metis
  obtain ys yd where y: "big_val y = Some (ys, yd)" "bint y = sval ys yd" "normal yd"
    using big_argE [OF a(2)] a(3) by metis
  have "dval yd \<le> dval xd" using a(4) x(2) y(2) by simp
  from digit_division [OF x(3) y(3) this] obtain q r where
    d: "(if length yd = 1 then map_option (\<lambda>(q, r). (q, [r])) (D_div xd (hd yd)) else I_div_dispatch xd yd) = Some (q, r)"
    "dval q = dval xd div dval yd" "dval r = dval xd mod dval yd" "I_is_normalized q" "I_is_normalized r" "q \<noteq> []" "r \<noteq> []"
    by blast
  note v = sval_sdiv [OF normal_pos [OF x(3)] normal_pos [OF y(3)] d(2,3), of xs ys, folded x(2) y(2)]
  have le: "\<bar>sval (xs \<noteq> ys) q\<bar> \<le> \<bar>bint x\<bar>" "\<bar>sval xs r\<bar> \<le> \<bar>bint x\<bar>" unfolding x(2) abs_sval d(2,3) by simp_all
  have nb: "\<not> too_big (bint x sdiv bint y)" "\<not> too_big (bint x smod bint y)"
    using a(5) too_big_mono [OF le(1)] too_big_mono [OF le(2)] unfolding v by blast+
  note nq = norm_term [OF d(4,6) v(1) nb(1)] and nr = norm_term [OF d(5,7) v(2) nb(2)]
  have "big_div_rem x y = Some (Some (big_norm q (xs \<noteq> ys), big_norm r xs))"
    unfolding big_div_rem_def x(1) y(1) bind.bind_lunit prod.case d(1) Let_def if_not_P [OF nq(3)] if_not_P [OF nr(3)] ..
  then show ?thesis using nq nr by blast
qed

lemma sdiv_small_dividend: "\<bar>x\<bar> < \<bar>y\<bar> \<Longrightarrow> x sdiv y = 0 \<and> x smod y = x" for x y :: int
  by (simp add: signed_divide_int_def signed_modulo_int_def sgn_mult_abs)

lemma sdiv_equal_abs:
  "\<bar>x\<bar> = \<bar>y\<bar> \<Longrightarrow> y \<noteq> 0 \<Longrightarrow> x sdiv y = (if (x < 0) = (y < 0) then 1 else - 1) \<and> x smod y = 0" for x y :: int
  by (auto simp: signed_divide_int_def signed_modulo_int_def sgn_if)

lemma small_consts:
  "bterm_ok (Imm SMALL_ZERO) \<and> bint (Imm SMALL_ZERO) = 0" "bterm_ok (Imm SMALL_ONE) \<and> bint (Imm SMALL_ONE) = 1"
  "bterm_ok (Imm SMALL_MINUS_ONE) \<and> bint (Imm SMALL_MINUS_ONE) = - 1"
  using small_bterm [of 0] small_bterm [of 1] small_bterm [of "- 1"] by simp_all

lemma big_sign_arg: "big_arg x \<Longrightarrow> big_sign x \<longleftrightarrow> bint x < 0"
  by (cases x) (auto simp: big_arg_def big_sign_def bint_def sval_def)

text \<open>Quotient and remainder as terms.\<close>

definition divides_int :: "(('f nterm \<times> 'f nterm) option \<times> arith_proc) option \<Rightarrow> int \<Rightarrow> int \<Rightarrow> bool" where
  "divides_int res x y \<longleftrightarrow>
     (\<exists>q r p. res = Some (Some (Term q, Term r), p) \<and> bterm_ok q \<and> bterm_ok r \<and> bint q = x sdiv y \<and> bint r = x smod y)"

lemma div_rem_big_val:
  assumes a: "big_arg u" "big_arg v" "bint v \<noteq> 0" and x: "bterm_ok x" "bint x = bint u"
  shows "divides_int (div_rem_big p (Term x) u v) (bint u) (bint v)"
proof -
  have c: "big_ucomp u v = Some (sgn (\<bar>bint u\<bar> - \<bar>bint v\<bar>))" by (rule big_ucomp_arg [OF a(1,2)])
  consider "\<bar>bint u\<bar> < \<bar>bint v\<bar>" | "\<bar>bint u\<bar> = \<bar>bint v\<bar>" | "\<bar>bint v\<bar> < \<bar>bint u\<bar>" by linarith
  then show ?thesis
  proof cases
    case 1
    then show ?thesis using sdiv_small_dividend [OF 1] c small_consts x by (simp add: div_rem_big_def divides_int_def)
  next
    case 2
    then show ?thesis
      using sdiv_equal_abs [OF 2 a(3)] c small_consts big_sign_arg [OF a(1)] big_sign_arg [OF a(2)]
      by (simp add: div_rem_big_def divides_int_def)
  next
    case 3
    then have "\<bar>bint v\<bar> \<le> \<bar>bint u\<bar>" "\<not> too_big (bint u)" using bterm_not_too_big [OF x(1)] x(2) by simp_all
    from big_div_rem_val [OF a this] obtain q r where "big_div_rem u v = Some (Some (q, r))" "bterm_ok q" "bterm_ok r"
      "bint q = bint u sdiv bint v" "bint r = bint u smod bint v" by blast
    then show ?thesis using c 3 by (simp add: div_rem_big_def divides_int_def Let_def)
  qed
qed

lemma MIN_SMALL_val: "make_small MIN_SMALL = make_small (word_of_int (- (2 ^ 59)))"
  by (simp add: MIN_SMALL_def SMALL_BITS_def push_bit_eq_mult)

lemma MIN_SMALL_signed: "signed_val (make_small MIN_SMALL) = - (2 ^ 59)"
  unfolding MIN_SMALL_val by (rule signed_val_make_small) simp_all

lemma MAX_SMALL_signed: "signed_val (make_small MAX_SMALL) = 2 ^ 59 - 1"
  using signed_val_make_small [of "2 ^ 59 - 1"] by (simp add: MAX_SMALL_def push_bit_eq_mult)

lemma bignum_abs: "is_bignum t \<Longrightarrow> 2 ^ 59 \<le> \<bar>bint t\<bar>"
proof -
  assume "is_bignum t"
  then obtain s ds where "bint t = sval s ds" "normal ds" "\<not> (length ds = 1 \<and> IS_USMALL s (hd ds))"
    by (rule is_bignumE)
  then show ?thesis using bignum_range [of ds s] by linarith
qed

lemma int_div_rem_val:
  assumes ok: "bterm_ok x" "bterm_ok y" "bint y \<noteq> 0"
  shows "divides_int (erts_int_div_rem p (Term x) (Term y)) (bint x) (bint y)"
proof (cases rule: int_pair_cases [OF ok(1,2)])
  case (1 a b)
  then show ?thesis using div_rem_big_val [of "small_to_big (sint_val a)" "small_to_big (sint_val b)" x p] small_arg [of a] small_arg [of b] ok
    by (simp add: erts_int_div_rem_def)
next
  case (2 a)
  show ?thesis
  proof (cases "a = make_small MIN_SMALL")
    case True
    then show ?thesis using div_rem_big_val [OF 2(5,4) ok(3,1)] 2 by (simp add: erts_int_div_rem_def)
  next
    case False
    then have "signed_val a \<noteq> - (2 ^ 59)" using small_const [OF 2(2), of "- (2 ^ 59)"] unfolding MIN_SMALL_val by simp
    then have "\<bar>bint x\<bar> < \<bar>bint y\<bar>" using small_range [OF 2(2)] bignum_abs [OF 2(3)] unfolding 2(6) by linarith
    from sdiv_small_dividend [OF this] show ?thesis
      using False 2 small_consts ok(1) by (simp add: erts_int_div_rem_def divides_int_def)
  qed
next
  case (3 b)
  then show ?thesis using div_rem_big_val [OF 3(4,5) _ ok(1)] ok(3) by (simp add: erts_int_div_rem_def)
next
  case 4
  then show ?thesis using div_rem_big_val [OF 4(3,4) ok(3,1)] by (simp add: erts_int_div_rem_def)
qed

lemma and_contains: "x AND m = m \<longleftrightarrow> (\<forall>n. bit m n \<longrightarrow> bit x n)" for x m :: u64
proof
  assume a: "x AND m = m"
  then show "\<forall>n. bit m n \<longrightarrow> bit x n" by (metis bit_and_iff)
qed (auto intro!: bit_word_eqI simp: bit_and_iff)

lemma both_small_Imm: "both_small (Term (Imm a)) (Term (Imm b)) = (if is_small a \<and> is_small b then Some (a, b) else None)"
  by (auto simp: both_small_def is_small_def TAG_IMMED1_SMALL_def and_contains and.assoc [symmetric] bit_and_iff
      split: if_splits)

lemma both_small_kind: "both_small t u = Some (a, b) \<Longrightarrow> kind t = Small a \<and> kind u = Small b"
  using both_small_Imm [of a b]
  by (auto simp: both_small_def kind_def split: nterm.splits bterm.splits if_splits)

lemma both_small_big: "is_bignum x \<Longrightarrow> both_small (Term x) t = None" "is_bignum x \<Longrightarrow> both_small t (Term x) = None"
  by (cases x; cases t; auto simp: both_small_def is_bignum_def split: nterm.splits bterm.splits)+

lemma bterm_zero: "bterm_ok y \<Longrightarrow> y = Imm SMALL_ZERO \<longleftrightarrow> bint y = 0"
  using small_consts(1) bterm_unique by metis

text \<open>A number of the size of a small integer, computed in a machine word.\<close>

lemma small_word: "- (2 ^ 59) \<le> v \<Longrightarrow> v \<le> 2 ^ 59 \<Longrightarrow> sint (word_of_int v :: u64) = v"
  by (rule sint_word_of_int) simp_all

lemma intdiv_computes:
  fixes x y :: bterm
  assumes ok: "bterm_ok x" "bterm_ok y" "bint y \<noteq> 0"
  shows "computes_int (intdiv_2 p (Term x) (Term y) :: 'f aresult) (bint x sdiv bint y)"
proof -
  let ?g = "map_option (\<lambda>(qr, p). (map_option fst qr, p)) (erts_int_div_rem p (Term x) (Term y)) :: 'f aresult"
  have g: "computes_int ?g (bint x sdiv bint y)"
    using int_div_rem_val [OF ok, of p, where 'a = 'f] by (auto simp: divides_int_def intro: computes_term)
  have nz: "Term y \<noteq> (Term (Imm SMALL_ZERO) :: 'f nterm)" using bterm_zero [OF ok(2)] ok(3) by simp
  show ?thesis
  proof (cases rule: int_pair_cases [OF ok(1,2)])
    case (1 a b)
    let ?v = "signed_val a sdiv signed_val b"
    have "- (2 ^ 59) \<le> ?v" "?v \<le> 2 ^ 59"
      using sdiv_int_range [of "signed_val a" "signed_val b"] small_range [OF 1(3)] by auto
    note w = small_word [OF this]
    have "computes_int (Some (Some (Term (Imm (make_small (word_of_int ?v)))), p) :: 'f aresult) (bint x sdiv bint y)"
      if "IS_SSMALL (word_of_int ?v)"
      using that small_bterm [of "word_of_int ?v"] 1 by (intro computes_term) (simp_all add: IS_SSMALL_iff w)
    then show ?thesis using g nz 1 by (simp add: intdiv_2_def both_small_Imm Let_def)
  next
    case 2 then show ?thesis using g nz by (simp add: intdiv_2_def both_small_big)
  next
    case 3 then show ?thesis using g nz by (simp add: intdiv_2_def both_small_big)
  next
    case 4 then show ?thesis using g nz by (simp add: intdiv_2_def both_small_big)
  qed
qed

lemma smod_small: "- (2 ^ 59) \<le> x \<Longrightarrow> x < 2 ^ 59 \<Longrightarrow> - (2 ^ 59) \<le> x smod y \<and> x smod y < 2 ^ 59" for x y :: int
proof -
  assume x: "- (2 ^ 59) \<le> x" "x < 2 ^ 59"
  have m: "0 \<le> \<bar>x\<bar> mod \<bar>y\<bar>" "\<bar>x\<bar> mod \<bar>y\<bar> \<le> \<bar>x\<bar>" by (cases "y = 0") (simp_all add: zmod_le_nonneg_dividend)
  then show ?thesis using x by (auto simp: signed_modulo_int_def sgn_if)
qed

lemma rem_computes:
  fixes x y :: bterm
  assumes ok: "bterm_ok x" "bterm_ok y" "bint y \<noteq> 0"
  shows "computes_int (rem_2 p (Term x) (Term y) :: 'f aresult) (bint x smod bint y)"
proof -
  let ?g = "map_option (\<lambda>(qr, p). (map_option snd qr, p)) (erts_int_div_rem p (Term x) (Term y)) :: 'f aresult"
  have g: "computes_int ?g (bint x smod bint y)"
    using int_div_rem_val [OF ok, of p, where 'a = 'f] by (auto simp: divides_int_def intro: computes_term)
  have nz: "Term y \<noteq> (Term (Imm SMALL_ZERO) :: 'f nterm)" using bterm_zero [OF ok(2)] ok(3) by simp
  show ?thesis
  proof (cases rule: int_pair_cases [OF ok(1,2)])
    case (1 a b)
    let ?v = "signed_val a smod signed_val b"
    have v: "- (2 ^ 59) \<le> ?v" "?v < 2 ^ 59" using smod_small small_range [OF 1(3)] by blast+
    then have w: "sint (word_of_int ?v :: u64) = ?v" by (intro small_word) simp_all
    show ?thesis using small_bterm [of "word_of_int ?v"] v nz 1 unfolding w
      by (auto simp: rem_2_def both_small_Imm intro!: computes_term)
  next
    case 2 then show ?thesis using g nz by (simp add: rem_2_def both_small_big)
  next
    case 3 then show ?thesis using g nz by (simp add: rem_2_def both_small_big)
  next
    case 4 then show ?thesis using g nz by (simp add: rem_2_def both_small_big)
  qed
qed

subsection \<open>Bitwise operations\<close>

lemma small_and: "is_small a \<Longrightarrow> is_small b \<Longrightarrow> is_small (a AND b) \<and> signed_val (a AND b) = signed_val a AND signed_val b"
  by (auto simp: is_small_def TAG_IMMED1_SMALL_def and_contains bit_and_iff signed_val_def signed_and_eq
      drop_bit_eq_div [of 4, simplified, symmetric] drop_bit_and)

lemma small_or: "is_small a \<Longrightarrow> is_small b \<Longrightarrow> is_small (a OR b) \<and> signed_val (a OR b) = signed_val a OR signed_val b"
  by (auto simp: is_small_def TAG_IMMED1_SMALL_def and_contains bit_or_iff signed_val_def signed_or_eq
      drop_bit_eq_div [of 4, simplified, symmetric] drop_bit_or)

lemma range_stb: "- (2 ^ n) \<le> v \<and> v < 2 ^ n \<longleftrightarrow> signed_take_bit n v = v" for v :: int
  using signed_take_bit_int_eq_self_iff [of n v] by simp

lemma stb_bit: "signed_take_bit n v = v \<Longrightarrow> bit v (min n m) = bit v m" for v :: int
proof -
  assume a: "signed_take_bit n v = v"
  have "bit (signed_take_bit n v) m = bit v (min n m)" by (simp add: bit_signed_take_bit_iff min.commute)
  then show ?thesis unfolding a by simp
qed

lemma xor_range:
  "- (2 ^ n) \<le> v \<and> v < 2 ^ n \<Longrightarrow> - (2 ^ n) \<le> w \<and> w < 2 ^ n \<Longrightarrow> - (2 ^ n) \<le> v XOR w \<and> v XOR w < 2 ^ n" for v w :: int
  unfolding range_stb using stb_bit [of n v] stb_bit [of n w]
  by (auto intro!: bit_eqI simp: bit_signed_take_bit_iff bit_xor_iff)

lemma or_range:
  "- (2 ^ n) \<le> v \<and> v < 2 ^ n \<Longrightarrow> - (2 ^ n) \<le> w \<and> w < 2 ^ n \<Longrightarrow> - (2 ^ n) \<le> v OR w \<and> v OR w < 2 ^ n" for v w :: int
  unfolding range_stb using stb_bit [of n v] stb_bit [of n w]
  by (auto intro!: bit_eqI simp: bit_signed_take_bit_iff bit_or_iff)

lemma small_xor:
  assumes "is_small a" "is_small b"
  shows "bterm_ok (Imm (make_small (sint_val a XOR sint_val b)))
    \<and> bint (Imm (make_small (sint_val a XOR sint_val b))) = signed_val a XOR signed_val b"
proof -
  have "sint (sint_val a XOR sint_val b) = signed_val a XOR signed_val b" using assms by (simp add: signed_xor_eq)
  then show ?thesis
    using small_bterm [of "sint_val a XOR sint_val b"] xor_range [of 59 "signed_val a" "signed_val b"]
      small_range [OF assms(1)] small_range [OF assms(2)] by simp
qed

lemma big_args_val:
  assumes "bterm_ok x" "bterm_ok y" "both_small (Term x :: 'f nterm) (Term y) = None"
  obtains u v where "big_args (Term x :: 'f nterm) (Term y) = Some (u, v)" "big_arg u" "big_arg v" "bint u = bint x" "bint v = bint y"
proof (cases rule: int_pair_cases [OF assms(1,2)])
  case (1 a b) then show ?thesis using assms(3) by (simp add: both_small_Imm)
next
  case (2 a) then show ?thesis using that [of "small_to_big (sint_val a)" y] by (simp add: big_args_def)
next
  case (3 b) then show ?thesis using that [of x "small_to_big (sint_val b)"] by (simp add: big_args_def)
next
  case 4 then show ?thesis using that [of x y] by (simp add: big_args_def)
qed

lemma both_small_ints:
  assumes "bterm_ok x" "bterm_ok y" "both_small (Term x) (Term y) = Some (a, b)"
  shows "is_small a" "is_small b" "bint x = signed_val a" "bint y = signed_val b"
  using assms by (cases rule: int_pair_cases [OF assms(1,2)], auto simp: both_small_Imm both_small_big bint_def)+

text \<open>\<open>band\<close> can be too large by one, for two negative numbers; the function returns the empty list then.\<close>

lemma band_computes:
  fixes x y :: bterm
  assumes ok: "bterm_ok x" "bterm_ok y"
  shows "if too_big (bint x AND bint y) then \<exists>p'. band_2 p (Term x) (Term y) = (Some (Some (Term (Imm NIL)), p') :: 'f aresult)
    else computes_int (band_2 p (Term x) (Term y) :: 'f aresult) (bint x AND bint y)"
proof (cases "both_small (Term x :: 'f nterm) (Term y)")
  case (Some ab)
  then obtain a b where s: "both_small (Term x :: 'f nterm) (Term y) = Some (a, b)" by (cases ab) auto
  note v = both_small_ints [OF ok s]
  have "bterm_ok (Imm (a AND b))" "bint (Imm (a AND b)) = bint x AND bint y"
    using small_and [OF v(1,2)] v(3,4) by (simp_all add: bterm_ok_def bint_def)
  then show ?thesis using s bterm_not_too_big computes_term by (metis band_2_def option.simps(5) case_prod_conv)
next
  case None
  obtain u v where u: "big_args (Term x :: 'f nterm) (Term y) = Some (u, v)" "big_arg u" "big_arg v" "bint u = bint x" "bint v = bint y"
    by (rule big_args_val [OF ok None])
  show ?thesis
    by (rule big_band.op_cases [OF u(2,3) TrueI])
      (use u None in \<open>auto simp: band_2_def erts_band_def intro: computes_term\<close>)
qed

lemma too_big_iff: "\<not> too_big v \<longleftrightarrow> - (2 ^ (64 * BIG_ARITY_MAX)) < v \<and> v < 2 ^ (64 * BIG_ARITY_MAX)"
  by (auto simp: too_big_def)

lemma or_not_too_big:
  assumes "\<not> too_big v" "\<not> too_big w"
  shows "\<not> too_big (v OR w)"
proof -
  define n where "n = 64 * BIG_ARITY_MAX"
  have b: "- (2 ^ n) < v" "v < 2 ^ n" "- (2 ^ n) < w" "w < 2 ^ n" using assms by (simp_all add: too_big_iff n_def)
  then have r: "- (2 ^ n) \<le> v OR w" "v OR w < 2 ^ n" using or_range [of n v w] by auto
  have "- (2 ^ n) < v OR w"
  proof (cases "v < 0 \<or> w < 0")
    case True
    have ge: "v \<le> v OR w" if "v < 0" for v w :: int
    proof -
      have "NOT v AND NOT w \<le> NOT v" using that by (intro AND_upper1) (simp add: not_int_def)
      moreover have "NOT (v OR w) = NOT v AND NOT w" by (rule bit.de_Morgan_disj)
      ultimately show ?thesis by (simp add: not_int_def)
    qed
    then show ?thesis using True b(1,3) ge [of v w] ge [of w v] by (auto simp: or.commute intro: less_le_trans)
  next
    case False
    then have "0 \<le> v OR w" by simp
    moreover have "(0 :: int) < 2 ^ n" by simp
    ultimately show ?thesis by linarith
  qed
  then show ?thesis using r by (simp add: too_big_iff n_def)
qed

text \<open>The other operations, on the same two cases: both small, and at least one bignum.\<close>

lemma bor_computes:
  assumes ok: "bterm_ok x" "bterm_ok y"
  shows "computes_int (bor_2 p (Term x) (Term y) :: 'f aresult) (bint x OR bint y)"
proof (cases "both_small (Term x :: 'f nterm) (Term y)")
  case (Some ab)
  then obtain a b where s: "both_small (Term x :: 'f nterm) (Term y) = Some (a, b)" by (cases ab) auto
  note v = both_small_ints [OF ok s]
  have "bterm_ok (Imm (a OR b))" "bint (Imm (a OR b)) = bint x OR bint y"
    using small_or [OF v(1,2)] v(3,4) by (simp_all add: bterm_ok_def bint_def)
  then show ?thesis using s by (simp add: bor_2_def computes_term)
next
  case None
  obtain u v where u: "big_args (Term x :: 'f nterm) (Term y) = Some (u, v)" "big_arg u" "big_arg v" "bint u = bint x" "bint v = bint y"
    by (rule big_args_val [OF ok None])
  have nb: "\<not> too_big (bint x OR bint y)" using or_not_too_big bterm_not_too_big ok by blast
  show ?thesis
    by (rule big_bor.op_cases [OF u(2,3) TrueI])
      (use u None nb in \<open>auto simp: bor_2_def erts_bor_def intro: computes_term\<close>)
qed

lemma bxor_computes:
  assumes ok: "bterm_ok x" "bterm_ok y"
  shows "computes_int (bxor_2 p (Term x) (Term y) :: 'f aresult) (bint x XOR bint y)"
proof (cases "both_small (Term x :: 'f nterm) (Term y)")
  case (Some ab)
  then obtain a b where s: "both_small (Term x :: 'f nterm) (Term y) = Some (a, b)" by (cases ab) auto
  note v = both_small_ints [OF ok s]
  then show ?thesis using s small_xor [OF v(1,2)] by (simp add: bxor_2_def computes_term)
next
  case None
  obtain u v where u: "big_args (Term x :: 'f nterm) (Term y) = Some (u, v)" "big_arg u" "big_arg v" "bint u = bint x" "bint v = bint y"
    by (rule big_args_val [OF ok None])
  then show ?thesis
    using None big_result_computes [OF big_bxor.op_represents [OF u(2,3) TrueI]] by (simp add: bxor_2_def erts_bxor_def)
qed

lemma bnot_computes:
  assumes ok: "bterm_ok x"
  shows "computes_int (bnot_1 p (Term x) :: 'f aresult) (NOT (bint x))"
proof (cases rule: bterm_cases [OF ok])
  case (1 a)
  have "NOT (sint_val a) = word_of_int (NOT (signed_val a))" by (simp add: sint_val_def of_int_not_eq)
  then have "sint (NOT (sint_val a)) = NOT (signed_val a)"
    using small_word [of "NOT (signed_val a)"] small_range [OF 1(2)] by (simp add: not_int_def)
  then show ?thesis using small_bterm [of "NOT (sint_val a)"] small_range [OF 1(2)] 1
    by (auto simp: bnot_1_def not_int_def intro!: computes_term)
next
  case 2
  then show ?thesis using big_result_computes [OF big_bnot_represents [OF is_bignum_arg]] by (simp add: bnot_1_def)
qed

subsection \<open>Shifts\<close>

text \<open>Shifting an integer, to the left by \<open>i\<close> bits or to the right by \<open>- i\<close>, rounding down.\<close>

definition shift_int :: "int \<Rightarrow> int \<Rightarrow> int" where
  "shift_int v i = (if 0 \<le> i then v * 2 ^ nat i else v div 2 ^ nat (- i))"

lemma shift_too_big:
  assumes "v \<noteq> 0" "64 * int BIG_ARITY_MAX \<le> i"
  shows "too_big (shift_int v i)"
proof -
  have "(2 :: int) ^ (64 * BIG_ARITY_MAX) \<le> 2 ^ nat i" using assms(2) by (intro power_increasing) simp_all
  also have "\<dots> \<le> \<bar>v\<bar> * 2 ^ nat i" using assms(1) by simp
  finally show ?thesis using assms(2) by (simp add: too_big_def shift_int_def abs_mult)
qed

lemma shift_away:
  assumes "\<bar>v\<bar> < 2 ^ n \<or> v = - (2 ^ n)" "int n \<le> - i" "i < 0"
  shows "shift_int v i = (if v < 0 then - 1 else 0)"
proof -
  have le: "(2 :: int) ^ n \<le> 2 ^ nat (- i)" using assms(2) by (intro power_increasing) simp_all
  moreover have "(0 :: int) < 2 ^ n" by simp
  ultimately have "- (2 ^ nat (- i)) \<le> v" "v < 2 ^ nat (- i)" using assms(1) by linarith+
  then have "v div 2 ^ nat (- i) = (if v < 0 then - 1 else 0)"
    using int_div_pos_eq [of v "2 ^ nat (- i)" "- 1" "v + 2 ^ nat (- i)"] by (simp add: div_pos_pos_trivial)
  then show ?thesis using assms(3) by (simp add: shift_int_def)
qed

lemma big_shift_computes:
  assumes x: "big_arg x" "bint x \<noteq> 0" "big_size x \<le> BIG_ARITY_MAX" and i: "i \<noteq> 0"
  shows "computes_int (big_shift p x i :: 'f aresult) (shift_int (bint x) i)"
proof -
  have r: "computes_int (big_result p' (big_lshift x i) :: 'f aresult) (shift_int (bint x) i)" for p'
    unfolding shift_int_def by (rule big_result_computes [OF big_lshift_represents [OF x(1,2)]])
  have "too_big (shift_int (bint x) i)" if a: "0 < i" "int (big_size x) + i div 64 - 8 > int BIG_ARITY_MAX"
  proof -
    obtain s ds where d: "x = Bignum s ds" "bint x = sval s ds" "normal ds" using big_argE [OF x(1)] x(2) by metis
    have "64 * int (length ds - 1) + i \<ge> 64 * int BIG_ARITY_MAX"
    proof -
      have "64 * (i div 64) \<le> i" by simp
      moreover have "int (length ds - 1) = int (length ds) - 1" using d(3) by (cases ds) (simp_all add: normal_def)
      ultimately show ?thesis using a(2) d(1) unfolding big_size_def by simp
    qed
    then have "64 * BIG_ARITY_MAX \<le> 64 * (length ds - 1) + nat i" by linarith
    then have "(2 :: nat) ^ (64 * BIG_ARITY_MAX) \<le> 2 ^ (64 * (length ds - 1)) * 2 ^ nat i"
      unfolding power_add [symmetric] by (rule power_increasing) simp
    also have "\<dots> \<le> dval ds * 2 ^ nat i" using d(3) by (intro mult_le_mono1) (simp add: normal_iff)
    finally have "int (2 ^ (64 * BIG_ARITY_MAX)) \<le> int (dval ds * 2 ^ nat i)" unfolding of_nat_le_iff .
    then show ?thesis using a(1) d(2) by (simp add: too_big_def shift_int_def abs_mult)
  qed
  then have "computes_int (raise SYSTEM_LIMIT p :: 'f aresult) (shift_int (bint x) i)"
    if "0 < i" "int (big_size x) + i div 64 - 8 > int BIG_ARITY_MAX" using that by (simp add: computes_int_def raise_def)
  moreover have "\<not> (if int (big_size x) \<le> - i div 64 then 3 else int (big_size x) - (- i div 64)) - 8 > int BIG_ARITY_MAX" if "\<not> 0 < i"
    using that x(3) i by (auto simp: BIG_ARITY_MAX_def pos_imp_zdiv_nonneg_iff) 
  ultimately show ?thesis using r by (auto simp: big_shift_def D_EXP_def Let_def)
qed

lemma high_bits_clear:
  fixes x :: u64
  assumes "push_bit k (NOT 0) AND x = 0" "k \<le> 62"
  shows "0 \<le> sint x \<and> sint x < 2 ^ k"
proof -
  have "take_bit k x = x"
  proof (rule bit_word_eqI)
    fix n assume n: "n < LENGTH(64)"
    have "\<not> bit x n" if "k \<le> n"
      using arg_cong [OF assms(1), of "\<lambda>w. bit w n"] that n by (simp add: bit_simps)
    then show "bit (take_bit k x) n = bit x n" by (cases "k \<le> n") (auto simp: bit_simps)
  qed
  then have "uint x = take_bit k (uint x)" by (metis unsigned_take_bit_eq)
  moreover have "take_bit k (uint x) < 2 ^ k" by simp
  ultimately have u: "uint x < 2 ^ k" by simp
  have "(2 :: int) ^ k \<le> 2 ^ 62" using assms(2) by (intro power_increasing) simp_all
  then have "uint x < 2 ^ 63" using u by simp
  then have "sint x = uint x" 
    by (simp add: sint_uint signed_take_bit_int_eq_self order_trans [OF _ unsigned_greater_eq])
  then show ?thesis using u by simp
qed

lemma sint_not: "sint (NOT x) = - 1 - sint x" for x :: u64
proof -
  have "sint (NOT x) = NOT (sint x)" by (rule bit_eqI) (simp add: bit_simps min_def)
  then show ?thesis by (simp add: not_int_def)
qed

lemma div_in_range:
  fixes v m b :: int
  assumes m: "0 < m" and b: "0 \<le> b" "- b \<le> v" "v < b"
  shows "- b \<le> v div m \<and> v div m < b"
proof -
  have q: "v div m * m \<le> v" "v < (v div m + 1) * m"
    using div_mult_mod_eq [of v m] pos_mod_bound [OF m, of v] pos_mod_sign [OF m, of v]
    unfolding distrib_right by linarith+
  have "v div m < b"
  proof (rule ccontr)
    assume "\<not> v div m < b"
    then have "b * 1 \<le> v div m * m" using m b(1) by (intro mult_mono) simp_all
    then show False using q(1) b(3) by simp
  qed
  moreover have "- b \<le> v div m"
  proof (rule ccontr)
    assume "\<not> - b \<le> v div m"
    then have "(v div m + 1) * m \<le> - b * m" using m by (intro mult_right_mono) simp_all
    moreover have "- b * m \<le> - b * 1" using m b(1) by (intro mult_left_mono_neg) simp_all
    ultimately show False using q(2) b(2) by simp
  qed
  ultimately show ?thesis by simp
qed

lemma small_left_shift:
  fixes x :: u64
  assumes "push_bit (59 - i) (NOT 0) AND x = 0 \<or> push_bit (59 - i) (NOT 0) AND NOT x = 0" "i < 59"
  shows "bterm_ok (Imm (make_small (push_bit i x))) \<and> bint (Imm (make_small (push_bit i x))) = sint x * 2 ^ i"
proof -
  have "0 \<le> sint x \<and> sint x < 2 ^ (59 - i) \<or> 0 \<le> - 1 - sint x \<and> - 1 - sint x < 2 ^ (59 - i)"
    using assms(1)
  proof
    assume "push_bit (59 - i) (NOT 0) AND x = 0"
    then show ?thesis using high_bits_clear [of "59 - i" x] by simp
  next
    assume "push_bit (59 - i) (NOT 0) AND NOT x = 0"
    then show ?thesis using high_bits_clear [of "59 - i" "NOT x"] by (simp add: sint_not)
  qed
  then have "- (2 ^ (59 - i)) \<le> sint x \<and> sint x < 2 ^ (59 - i)" by linarith
  then have r: "- (2 ^ (59 - i)) * 2 ^ i \<le> sint x * 2 ^ i" "sint x * 2 ^ i < 2 ^ (59 - i) * 2 ^ i"
    by (intro mult_right_mono mult_strict_right_mono; simp)+
  have e: "(2 :: int) ^ (59 - i) * 2 ^ i = 2 ^ 59" using assms(2) by (simp flip: power_add)
  have "push_bit i x = word_of_int (sint x * 2 ^ i)" by (simp add: push_bit_eq_mult)
  then have "sint (push_bit i x) = sint x * 2 ^ i"
    using small_word [of "sint x * 2 ^ i"] r e by simp
  then show ?thesis using small_bterm [of "push_bit i x"] r e by simp
qed

lemma small_right_shift:
  assumes a: "is_small a" and n: "0 < n"
  shows "bterm_ok (Imm (make_small (signed_drop_bit n (sint_val a)))) \<and>
    bint (Imm (make_small (signed_drop_bit n (sint_val a)))) = signed_val a div 2 ^ n"
proof -
  have "sint (signed_drop_bit n (sint_val a)) = signed_val a div 2 ^ n"
    using a by (simp add: sint_signed_drop_bit_eq drop_bit_eq_div)
  moreover have "- (2 ^ 59) \<le> signed_val a div 2 ^ n \<and> signed_val a div 2 ^ n < 2 ^ 59"
    using small_range [OF a] by (intro div_in_range) simp_all
  ultimately show ?thesis using small_bterm [of "signed_drop_bit n (sint_val a)"] by simp
qed

lemma small_shift_left:
  assumes a: "is_small a" "signed_val a \<noteq> 0" and i: "0 < i"
  shows "computes_int (small_shift p a i :: 'f aresult) (shift_int (signed_val a) i)"
proof -
  let ?fits = "i < 59 \<and> (0 < sint (sint_val a) \<and> push_bit (59 - nat i) (NOT 0) AND sint_val a = 0 \<or>
      push_bit (59 - nat i) (NOT 0) AND NOT (sint_val a) = 0)"
  have "sint_val a \<noteq> 0" using a(2) sint_val [OF a(1)] by (metis sint_0)
  then have e: "small_shift p a i =
      (if ?fits then Some (Some (Term (Imm (make_small (push_bit (nat i) (sint_val a))))), p)
       else big_shift p (small_to_big (sint_val a)) i :: 'f aresult)"
    using i by (simp add: small_shift_def Let_def SMALL_BITS_def)
  show ?thesis
  proof (cases ?fits)
    case True
    then have "bterm_ok (Imm (make_small (push_bit (nat i) (sint_val a)))) \<and>
        bint (Imm (make_small (push_bit (nat i) (sint_val a)))) = shift_int (signed_val a) i"
      using small_left_shift [of "nat i" "sint_val a"] i a(1) by (auto simp: shift_int_def)
    then show ?thesis unfolding e if_P [OF True] using computes_term by blast
  next
    case False
    have "big_size (small_to_big (sint_val a)) = 1" by (simp add: big_size_def small_to_big_def)
    then show ?thesis unfolding e if_not_P [OF False]
      using i a(2) big_shift_computes [of "small_to_big (sint_val a)" i p] small_arg [OF a(1)]
      by (simp add: BIG_ARITY_MAX_def)
  qed
qed

lemma small_shift_computes:
  assumes a: "is_small a"
  shows "computes_int (small_shift p a i :: 'f aresult) (shift_int (signed_val a) i)"
proof -
  have ok: "bterm_ok (Imm a)" "bint (Imm a) = signed_val a" using a by (simp_all add: bterm_ok_def bint_def)
  have z: "sint_val a = 0 \<longleftrightarrow> signed_val a = 0" using sint_val [OF a] by (metis sint_0 sint_val_def word_of_int_0)
  consider (same) "i = 0 \<or> signed_val a = 0" | (away) "i < 0" "59 \<le> - i" "signed_val a \<noteq> 0"
    | (right) "i < 0" "- i < 59" "signed_val a \<noteq> 0" | (left) "0 < i" "signed_val a \<noteq> 0" by linarith
  then show ?thesis
  proof cases
    case same
    then show ?thesis using ok z by (auto simp: small_shift_def shift_int_def intro!: computes_term)
  next
    case away
    have "shift_int (signed_val a) i = (if signed_val a < 0 then - 1 else 0)"
      using small_range [OF a] away by (intro shift_away [of _ 59]) auto
    then show ?thesis
      using away a z small_bterm [of 0] small_bterm [of "- 1"]
      by (auto simp: small_shift_def SMALL_BITS_def Let_def intro!: computes_term)
  next
    case right
    then show ?thesis using a z small_right_shift [OF a, of "nat (- i)"]
      by (auto simp: small_shift_def SMALL_BITS_def shift_int_def Let_def intro!: computes_term)
  next
    case left
    then show ?thesis using small_shift_left [OF a] by simp
  qed
qed

lemma shift_by_computes:
  assumes ok: "bterm_ok x"
  shows "computes_int (shift_by p (Term x) i :: 'f aresult) (shift_int (bint x) i)"
proof (cases rule: bterm_cases [OF ok])
  case (1 a)
  then show ?thesis using small_shift_computes [of a p i] by (simp add: shift_by_def)
next
  case 2
  then have "big_size x \<le> BIG_ARITY_MAX" using ok by (auto simp: is_bignum_def bterm_ok_def big_size_def split: bterm.splits)
  moreover have "bint x \<noteq> 0" using bignum_abs [OF 2] by auto
  ultimately show ?thesis using 2 big_shift_computes [OF is_bignum_arg [OF 2], of i p] ok
    by (auto simp: shift_by_def shift_int_def intro!: computes_term)
qed

text \<open>All shifts by \<open>2 ^ 59 - 1\<close> bits or more give the same.\<close>

lemma shift_far:
  assumes ok: "bterm_ok x" and ij: "i \<le> - (2 ^ 59) \<and> j \<le> - (2 ^ 59) \<or> 2 ^ 59 \<le> i + 1 \<and> 2 ^ 59 \<le> j + 1"
    and r: "computes_int r (shift_int (bint x) i)"
  shows "computes_int r (shift_int (bint x) j)"
  using ij
proof
  assume n: "i \<le> - (2 ^ 59) \<and> j \<le> - (2 ^ 59)"
  have m: "int (64 * BIG_ARITY_MAX) \<le> 2 ^ 59" by (simp add: BIG_ARITY_MAX_def)
  have "\<bar>bint x\<bar> < 2 ^ (64 * BIG_ARITY_MAX)" using bterm_not_too_big [OF ok] by (simp add: too_big_def)
  then have "shift_int (bint x) k = (if bint x < 0 then - 1 else 0)" if "k \<le> - (2 ^ 59)" for k
    using that m by (intro shift_away [of _ "64 * BIG_ARITY_MAX"]) auto
  then show ?thesis using n r by simp
next
  assume n: "2 ^ 59 \<le> i + 1 \<and> 2 ^ 59 \<le> j + 1"
  have "too_big (shift_int (bint x) k)" if "2 ^ 59 \<le> k + 1" "bint x \<noteq> 0" for k
    using that by (intro shift_too_big) (simp_all add: BIG_ARITY_MAX_def)
  moreover have "shift_int 0 k = 0" for k by (simp add: shift_int_def)
  ultimately show ?thesis using n r by (cases "bint x = 0") (simp_all add: computes_int_def)
qed

lemma do_bsl_computes:
  assumes ok: "bterm_ok x" "bterm_ok y"
  shows "computes_int (do_bsl p (Term x) (Term y) :: 'f aresult) (shift_int (bint x) (bint y))"
proof (cases rule: bterm_cases [OF ok(2)])
  case (1 b)
  then show ?thesis using shift_by_computes [OF ok(1)] by (simp add: do_bsl_def)
next
  case 2
  have y: "2 ^ 59 \<le> \<bar>bint y\<bar>" "big_sign y \<longleftrightarrow> bint y < 0"
    using bignum_abs [OF 2] big_sign_arg [OF is_bignum_arg(1) [OF 2]] by auto
  show ?thesis
  proof (cases "big_sign y")
    case True
    have "computes_int (shift_by p (Term x) (- (2 ^ 59)) :: 'f aresult) (shift_int (bint x) (bint y))"
      by (rule shift_far [OF ok(1) _ shift_by_computes [OF ok(1)]]) (use y True in simp)
    then show ?thesis using 2 True MIN_SMALL_signed by (simp add: do_bsl_def)
  next
    case False
    then have far: "too_big (shift_int (bint x) (bint y))" if "bint x \<noteq> 0"
      using that y by (intro shift_too_big) (simp_all add: BIG_ARITY_MAX_def)
    show ?thesis
    proof (cases rule: bterm_cases [OF ok(1)])
      case (1 a)
      then show ?thesis using 2 False ok(1) far small_zero [OF 1(2)] not_too_big [of 0]
        by (cases "signed_val a = 0")
          (simp_all add: do_bsl_def computes_term, simp_all add: shift_int_def computes_int_def raise_def)
    next
      case b: 2
      then have "bint x \<noteq> 0" using bignum_abs [OF b] by auto
      then show ?thesis using 2 b False far by (simp add: do_bsl_def computes_int_def raise_def)
    qed
  qed
qed

lemma bsl_computes:
  assumes "bterm_ok x" "bterm_ok y"
  shows "computes_int (bsl_2 p (Term x) (Term y) :: 'f aresult) (shift_int (bint x) (bint y))"
  using do_bsl_computes [OF assms] by (simp add: bsl_2_def erts_bsl_def erts_shift_def)

lemma bsr_computes:
  assumes ok: "bterm_ok x" "bterm_ok y"
  shows "computes_int (bsr_2 p (Term x) (Term y) :: 'f aresult) (shift_int (bint x) (- bint y))"
proof (cases rule: bterm_cases [OF ok(2)])
  case (1 b)
  then show ?thesis using shift_by_computes [OF ok(1)] by (simp add: bsr_2_def erts_bsr_def erts_shift_def)
next
  case 2
  let ?c = "if big_sign y then MAX_SMALL else MIN_SMALL"
  have y: "2 ^ 59 \<le> \<bar>bint y\<bar>" "big_sign y \<longleftrightarrow> bint y < 0"
    using bignum_abs [OF 2] big_sign_arg [OF is_bignum_arg(1) [OF 2]] by auto
  have c: "bterm_ok (Imm (make_small ?c))" "bint (Imm (make_small ?c)) = (if big_sign y then 2 ^ 59 - 1 else - (2 ^ 59))"
    using MIN_SMALL_signed MAX_SMALL_signed by (auto simp: bterm_ok_def bint_def)
  have "computes_int (do_bsl p (Term x) (Term (Imm (make_small ?c))) :: 'f aresult) (shift_int (bint x) (- bint y))"
    by (rule shift_far [OF ok(1) _ do_bsl_computes [OF ok(1) c(1)]]) (use y c(2) in auto)
  then show ?thesis using 2 by (simp add: bsr_2_def erts_bsr_def erts_shift_def)
qed

end
