(* ===== verification/ErlArithProps.thy ===== *)
theory ErlArithProps
  imports ErlArithThms
begin

text \<open>
  What the arithmetic operators promise, for all integer terms and for the terms that are not numbers, and a
  pair of integers for which \<open>band\<close> returns the empty list.
\<close>

text \<open>
  C32. For all integer terms, small or not, the sum, the difference, the negative, the product and the fused
  product and sum are the well-formed term of the exact value, and \<open>system_limit\<close> where the value needs more
  digits than a bignum can have. \<open>same\<close> says that the two factors are one object, which the code squares.
\<close>

theorem sums_and_products_exact:
  fixes F :: "'f float_ops"
  assumes "bterm_ok x" "bterm_ok y" "bterm_ok z" "same \<longrightarrow> x = y"
  shows "computes_int (splus_2 F p (Term x) (Term y)) (bint x + bint y)
    \<and> computes_int (sminus_2 F p (Term x) (Term y)) (bint x - bint y)
    \<and> computes_int (sminus_1 F p (Term x)) (- bint x)
    \<and> computes_int (stimes_2 F p same (Term x) (Term y)) (bint x * bint y)
    \<and> (\<exists>out p'. erts_mul_add F p same (Term x) (Term y) (Term z) pp = Some (out, pp, p')
         \<and> computes_int (Some (out, p')) (bint x * bint y + bint z))"
  using plus_computes [OF assms(1,2)] minus_computes [OF assms(1,2)] unary_minus_computes [OF assms(1)]
    times_computes [OF assms(1,2,4)] mul_add_computes [OF assms]
  unfolding splus_2_def sminus_2_def sminus_1_def stimes_2_def by blast

text \<open>A process, operations on floats and integers for the examples.\<close>

abbreviation example_process :: arith_proc where
  "example_process \<equiv> \<lparr>fcalls = 4000, htop = True, saved_calls = False, freason = None\<rparr>"

abbreviation example_floats :: "int float_ops" where
  "example_floats \<equiv> \<lparr>f_of_int = \<lambda>i. i, f_plus = (+), f_minus = (-), f_times = (*), f_div = (div), f_neg = uminus,
     f_finite = \<lambda>_. True\<rparr>"

lemma examples:
  "bterm_ok (Bignum True [0, 1])" "bint (Bignum True [0, 1]) = - (2 ^ 64)"
  "bterm_ok (Imm (make_small 7))" "bint (Imm (make_small 7)) = 7"
  "bterm_ok (Imm (make_small 0))" "bint (Imm (make_small 0)) = 0"
  using small_bterm [of 7] small_bterm [of 0] by (simp_all add: bterm_ok_def normal_def bint_def sval_def BIG_ARITY_MAX_def)

lemma sums_and_products_exact_witness:
  "computes_int (splus_2 example_floats example_process (Term (Bignum True [0, 1])) (Term (Imm (make_small 7)))) (7 - 2 ^ 64)
   \<and> computes_int (stimes_2 example_floats example_process False (Term (Bignum True [0, 1])) (Term (Imm (make_small 7)))) (- (7 * 2 ^ 64))
   \<and> bint (Bignum True [0, 1]) = - (2 ^ 64)"
  using sums_and_products_exact [OF examples(1,3,3), of False example_floats example_process None]
  by (simp add: examples)

text \<open>
  C33. \<open>div\<close> and \<open>rem\<close> of integer terms: by zero they raise \<open>badarith\<close>; otherwise the quotient is rounded towards
  zero, the remainder has the sign of the dividend, and both are exact, however long the terms are.
\<close>

theorem division_exact:
  assumes "bterm_ok x" "bterm_ok y"
  shows "if bint y = 0 then intdiv_2 p (Term x) (Term y) = (raise BADARITH p :: 'f aresult)
      \<and> rem_2 p (Term x) (Term y) = (raise BADARITH p :: 'f aresult)
    else computes_int (intdiv_2 p (Term x) (Term y) :: 'f aresult) (bint x sdiv bint y)
      \<and> computes_int (rem_2 p (Term x) (Term y) :: 'f aresult) (bint x smod bint y)"
proof (cases "bint y = 0")
  case True
  then have "y = Imm SMALL_ZERO"
    using bterm_unique [OF assms(2) examples(5)] by (simp add: examples)
  then show ?thesis using True by (simp add: intdiv_2_def rem_2_def)
next
  case False
  then show ?thesis using intdiv_computes [OF assms False, where 'f = 'f] rem_computes [OF assms False, where 'f = 'f] by simp
qed

lemma division_exact_witness:
  "computes_int (intdiv_2 example_process (Term (Bignum True [0, 1])) (Term (Imm (make_small 7))) :: int aresult) (- 2635249153387078802)
   \<and> computes_int (rem_2 example_process (Term (Bignum True [0, 1])) (Term (Imm (make_small 7))) :: int aresult) (- 2)
   \<and> intdiv_2 example_process (Term (Imm (make_small 7))) (Term (Imm (make_small 0))) = (raise BADARITH example_process :: int aresult)"
  using division_exact [OF examples(1,3), where 'f = int, of example_process]
    division_exact [OF examples(3,5), where 'f = int, of example_process]
  by (simp add: examples signed_divide_int_def signed_modulo_int_def)

text \<open>
  C34. The bitwise operators agree with the two's complement of the integers. Only \<open>band\<close> of two negative numbers
  can be too large for a bignum: then it returns \<open>NIL\<close>, the empty list, and does not raise an error.
\<close>

theorem bitwise_exact:
  assumes "bterm_ok x" "bterm_ok y"
  shows "(if too_big (bint x AND bint y) then \<exists>p'. band_2 p (Term x) (Term y) = (Some (Some (Term (Imm NIL)), p') :: 'f aresult)
      else computes_int (band_2 p (Term x) (Term y) :: 'f aresult) (bint x AND bint y))
    \<and> computes_int (bor_2 p (Term x) (Term y) :: 'f aresult) (bint x OR bint y)
    \<and> computes_int (bxor_2 p (Term x) (Term y) :: 'f aresult) (bint x XOR bint y)
    \<and> computes_int (bnot_1 p (Term x) :: 'f aresult) (NOT (bint x))"
  by (intro conjI band_computes bor_computes bxor_computes bnot_computes assms)

lemma bitwise_exact_witness:
  "computes_int (bor_2 example_process (Term (Bignum True [0, 1])) (Term (Imm (make_small 7))) :: int aresult) (7 - 2 ^ 64)
   \<and> computes_int (band_2 example_process (Term (Bignum True [0, 1])) (Term (Imm (make_small 7))) :: int aresult) 0
   \<and> computes_int (bnot_1 example_process (Term (Bignum True [0, 1])) :: int aresult) (2 ^ 64 - 1)"
  using bitwise_exact [OF examples(1,3), where 'f = int, of example_process] not_too_big [of 0] by (simp add: examples not_int_def)

text \<open>
  C35. \<open>bsl\<close> multiplies by a power of two and \<open>bsr\<close> divides by one, rounding down; a negative count shifts the other
  way, and a count that is itself a bignum gives \<open>0\<close>, \<open>-1\<close> or \<open>system_limit\<close>.
\<close>

theorem shifts_exact:
  assumes "bterm_ok x" "bterm_ok y"
  shows "computes_int (bsl_2 p (Term x) (Term y) :: 'f aresult) (shift_int (bint x) (bint y))
    \<and> computes_int (bsr_2 p (Term x) (Term y) :: 'f aresult) (shift_int (bint x) (- bint y))"
  by (intro conjI bsl_computes bsr_computes assms)

lemma shifts_exact_witness:
  "computes_int (bsl_2 example_process (Term (Bignum True [0, 1])) (Term (Imm (make_small 7))) :: int aresult) (- (2 ^ 71))
   \<and> computes_int (bsr_2 example_process (Term (Bignum True [0, 1])) (Term (Imm (make_small 7))) :: int aresult) (- (2 ^ 57))"
  using shifts_exact [OF examples(1,3), where 'f = int, of example_process] by (simp add: examples shift_int_def)

text \<open>
  C36. Every operator raises \<open>badarith\<close>, and changes nothing else of the process, when an argument is not a number,
  and the operators on integers also when an argument is a float.
\<close>

theorem badarith:
  fixes F :: "'f float_ops"
  shows "(kind a = Not_number \<or> kind b = Not_number \<longrightarrow>
      splus_2 F p a b = raise BADARITH p \<and> sminus_2 F p a b = raise BADARITH p
      \<and> stimes_2 F p same a b = raise BADARITH p \<and> div_2 F p a b = raise BADARITH p)
    \<and> (as_big (kind a) = None \<or> as_big (kind b) = None \<longrightarrow>
      intdiv_2 p a b = raise BADARITH p \<and> rem_2 p a b = raise BADARITH p \<and> band_2 p a b = raise BADARITH p
      \<and> bor_2 p a b = raise BADARITH p \<and> bxor_2 p a b = raise BADARITH p \<and> bsl_2 p a b = raise BADARITH p
      \<and> bsr_2 p a b = raise BADARITH p)
    \<and> (kind a = Not_number \<longrightarrow> splus_1 p a = raise BADARITH p \<and> sminus_1 F p a = raise BADARITH p)
    \<and> (as_big (kind a) = None \<longrightarrow> bnot_1 p a = raise BADARITH p)"
proof -
  have s: "both_small a b = None" if "as_big (kind a) = None \<or> as_big (kind b) = None"
    using that both_small_kind [of a b] by (cases "both_small a b") (auto simp: as_big_def)
  have "splus_2 F p a b = raise BADARITH p" "sminus_2 F p a b = raise BADARITH p"
      "stimes_2 F p same a b = raise BADARITH p" "div_2 F p a b = raise BADARITH p"
    if "kind a = Not_number \<or> kind b = Not_number"
    using that unfolding splus_2_def sminus_2_def stimes_2_def div_2_def erts_mixed_plus_def erts_mixed_minus_def
      erts_mixed_times_def erts_mixed_div_def
    by (elim disjE; cases "kind a"; cases "kind b"; simp add: do_float_def to_double_def split: option.splits)+
  moreover have "intdiv_2 p a b = raise BADARITH p" "rem_2 p a b = raise BADARITH p"
    if "as_big (kind a) = None \<or> as_big (kind b) = None"
  proof -
    have "erts_int_div_rem p a b = Some (None, p\<lparr>freason := Some BADARITH\<rparr>)"
      using that by (cases "kind a"; cases "kind b") (simp_all add: erts_int_div_rem_def as_big_def)
    then show "intdiv_2 p a b = raise BADARITH p" "rem_2 p a b = raise BADARITH p"
      using s [OF that] by (simp_all add: intdiv_2_def rem_2_def raise_def)
  qed
  moreover have "band_2 p a b = raise BADARITH p" "bor_2 p a b = raise BADARITH p" "bxor_2 p a b = raise BADARITH p"
    if "as_big (kind a) = None \<or> as_big (kind b) = None"
  proof -
    have "big_args a b = None" using that by (cases "kind a"; cases "kind b") (simp_all add: big_args_def as_big_def)
    then show "band_2 p a b = raise BADARITH p" "bor_2 p a b = raise BADARITH p" "bxor_2 p a b = raise BADARITH p"
      using s [OF that] by (simp_all add: band_2_def bor_2_def bxor_2_def erts_band_def erts_bor_def erts_bxor_def)
  qed
  moreover have "bsl_2 p a b = raise BADARITH p" "bsr_2 p a b = raise BADARITH p"
    if "as_big (kind a) = None \<or> as_big (kind b) = None"
  proof -
    have do: "do_bsl p a c = raise BADARITH p" if "as_big (kind a) = None \<or> as_big (kind c) = None" for c
      using that by (cases "kind a"; cases "kind c") (simp_all add: do_bsl_def shift_by_def as_big_def)
    then show "bsl_2 p a b = raise BADARITH p" using that by (simp add: bsl_2_def erts_bsl_def erts_shift_def)
    show "bsr_2 p a b = raise BADARITH p" using that do
      by (cases "kind a"; cases "kind b") (simp_all add: bsr_2_def erts_bsr_def erts_shift_def shift_by_def as_big_def)
  qed
  moreover have "splus_1 p a = raise BADARITH p" "sminus_1 F p a = raise BADARITH p" if "kind a = Not_number"
    using that by (simp_all add: splus_1_def sminus_1_def erts_unary_minus_def)
  moreover have "bnot_1 p a = raise BADARITH p" if "as_big (kind a) = None"
    using that by (cases "kind a") (simp_all add: bnot_1_def as_big_def)
  ultimately show ?thesis by blast
qed

lemma badarith_witness:
  "splus_2 example_floats example_process Other (Float 1) = raise BADARITH example_process
   \<and> bsl_2 example_process (Term (Imm (make_small 7))) (Float 1) = (raise BADARITH example_process :: int aresult)
   \<and> sminus_1 example_floats example_process Other = raise BADARITH example_process"
  using badarith [of Other "Float 1" example_floats example_process False]
    badarith [of "Term (Imm (make_small 7))" "Float 1" example_floats example_process False]
  by (simp add: kind_def as_big_def)

text \<open>
  The product of the most negative bits: \<open>band\<close> of two integers that fit into bignums, whose result does not fit by
  one bit, is the empty list.
\<close>

lemma and_high_bits: "x AND - (2 ^ m) = x div 2 ^ m * 2 ^ m" for x :: int
proof -
  have "x AND NOT (mask m) = push_bit m (drop_bit m x)" by (rule bit_eqI) (auto simp: bit_simps)
  then show ?thesis by (simp add: push_bit_eq_mult drop_bit_eq_div mask_eq_exp_minus_1 not_int_def)
qed

theorem band_returns_nil:
  "\<exists>x y p'. bterm_ok x \<and> bterm_ok y
     \<and> band_2 example_process (Term x) (Term y) = (Some (Some (Term (Imm NIL)), p') :: 'f aresult)"
proof -
  define n where "n = BIG_ARITY_MAX - 1"
  let ?m = "64 * n + 63"
  define x where "x = Bignum True (replicate (Suc n) D_MASK)"
  define y where "y = Bignum True (replicate n 0 @ [2 ^ 63])"
  have n: "64 * BIG_ARITY_MAX = Suc ?m" "Suc n \<le> BIG_ARITY_MAX" "0 < n" by (simp_all add: n_def BIG_ARITY_MAX_def)
  have ok: "bterm_ok x" "bterm_ok y"
    using n(2,3) by (simp_all add: x_def y_def bterm_ok_def normal_def D_MASK_def del: replicate_Suc)
  have "int (dval (replicate (Suc n) D_MASK)) = 2 ^ Suc ?m - 1"
    unfolding dval_ones by (simp add: of_nat_diff power_add)
  then have x: "bint x = - (2 ^ Suc ?m - 1)" by (simp add: x_def bint_def sval_def del: replicate_Suc)
  have y: "bint y = - (2 ^ ?m)" by (simp add: y_def bint_def sval_def dval_append power_add)
  have q: "- (2 ^ Suc ?m - 1) div 2 ^ ?m = (- 2 :: int)"
  proof (rule int_div_pos_eq [where r = 1])
    show "(1 :: int) < 2 ^ ?m" by (rule one_less_power) simp_all
  qed (simp_all add: power_add)
  have "bint x AND bint y = - (2 ^ (64 * BIG_ARITY_MAX))"
    unfolding x y and_high_bits n(1) q by (simp only: power_Suc mult_minus_left)
  then have "too_big (bint x AND bint y)" by (simp add: too_big_def)
  then show ?thesis using band_computes [OF ok, where 'f = 'f, of example_process] ok by auto
qed

end
