(* ===== verification/HashTable.thy ===== *)
theory HashTable
  imports Prelude "HOL-Library.Multiset"
begin

text \<open>
  The general hash table of the emulator (\<^verbatim>\<open>hash.h\<close>, \<^verbatim>\<open>hash.c\<close>), which atoms, modules and
  other tables are kept in: a vector of chains of objects that doubles and halves with its load. A
  chain is a HOL list of the addresses of its objects; an object is its stored hash value and the
  data of the client, whose functions (hash, comparison, allocation) are a record of parameters.

  The fields of type \<open>int\<close> are integers; the only product the code forms of them is computed where it
  does not overflow, and is undefined otherwise.
\<close>

subsection \<open>Data\<close>

record 'o HashBucket =
  hvalue :: u64
  obj :: 'o

type_synonym 'o objstore = "addr \<rightharpoonup> 'o HashBucket"

text \<open>\<open>fun_cmp\<close> is 0 for equal objects. \<open>fun_alloc\<close> gives what the new object holds, not its address.\<close>

record 'o HashFunctions =
  fun_hash :: "'o \<Rightarrow> u64"
  fun_cmp :: "'o \<Rightarrow> 'o \<Rightarrow> int"
  fun_alloc :: "'o \<Rightarrow> 'o"

record Hash =
  shift :: nat
  max_shift :: nat
  shrink_threshold :: int
  grow_threshold :: int
  nobjs :: int
  bucket :: "addr list list"

record HashInfo =
  hi_size :: int
  hi_used :: int
  hi_objs :: int
  hi_depth :: int

definition MAX_SHIFT :: nat where "MAX_SHIFT = 64"

subsection \<open>Slots and thresholds\<close>

definition hash_get_slots :: "Hash \<Rightarrow> int" where
  "hash_get_slots h = 2 ^ (MAX_SHIFT - shift h)"

definition hash_get_slot :: "Hash \<Rightarrow> u64 \<Rightarrow> u64" where
  "hash_get_slot h hv = drop_bit (shift h) (11400714819323198485 * (hv XOR drop_bit (shift h) hv))"

definition set_thresholds :: "Hash \<Rightarrow> Hash option" where
  "set_thresholds h =
     (if 8 * hash_get_slots h > INT_MAX then None
      else Some (h\<lparr>grow_threshold := 8 * hash_get_slots h div 5,
                   shrink_threshold := (if shift h < max_shift h then hash_get_slots h div 5 else - 1)\<rparr>))"

text \<open>The loop that finds the number of bits for at least \<open>sz\<close> slots.\<close>

function init_shift :: "nat \<Rightarrow> nat \<Rightarrow> nat" where
  "init_shift sz s = (if 2 ^ s < sz then init_shift sz (s + 1) else s)"
  by auto
termination
  by (relation "measure (\<lambda>(sz, s). sz - 2 ^ s)") (auto intro!: diff_less_mono2)

declare init_shift.simps [simp del]

definition hash_init :: "nat \<Rightarrow> Hash option" where
  "hash_init sz = do {
     let s = MAX_SHIFT - init_shift sz 1;
     h \<leftarrow> set_thresholds \<lparr>shift = s, max_shift = s, shrink_threshold = 0, grow_threshold = 0, nobjs = 0, bucket = []\<rparr>;
     Some (h\<lparr>bucket := replicate (nat (hash_get_slots h)) []\<rparr>)
   }"

text \<open>A table that is allocated differs only in that \<open>hash_delete\<close> frees the structure too.\<close>

definition hash_new :: "nat \<Rightarrow> Hash option" where
  "hash_new sz = hash_init sz"

subsection \<open>Rehashing\<close>

fun rehash_chain :: "'o objstore \<Rightarrow> Hash \<Rightarrow> addr list \<Rightarrow> addr list list \<Rightarrow> addr list list option" where
  "rehash_chain st h [] new_bucket = Some new_bucket"
| "rehash_chain st h (b # bs) new_bucket = do {
     e \<leftarrow> st b;
     let ix = unat (hash_get_slot h (hvalue e));
     c \<leftarrow> arr_get new_bucket ix;
     rehash_chain st h bs (new_bucket[ix := b # c])
   }"

fun rehash_buckets :: "'o objstore \<Rightarrow> Hash \<Rightarrow> addr list list \<Rightarrow> addr list list \<Rightarrow> addr list list option" where
  "rehash_buckets st h [] new_bucket = Some new_bucket"
| "rehash_buckets st h (c # cs) new_bucket = do {
     new_bucket \<leftarrow> rehash_chain st h c new_bucket;
     rehash_buckets st h cs new_bucket
   }"

text \<open>From the change of \<open>shift\<close> on.\<close>

definition rehash_to :: "'o objstore \<Rightarrow> nat \<Rightarrow> Hash \<Rightarrow> Hash option" where
  "rehash_to st s h = do {
     let h' = h\<lparr>shift := s\<rparr>;
     new_bucket \<leftarrow> rehash_buckets st h' (bucket h) (replicate (nat (hash_get_slots h')) []);
     set_thresholds (h'\<lparr>bucket := new_bucket\<rparr>)
   }"

definition rehash :: "'o objstore \<Rightarrow> bool \<Rightarrow> Hash \<Rightarrow> Hash option" where
  "rehash st grow h =
     (if grow then rehash_to st (shift h - 1) h
      else if shift h = max_shift h then Some h
      else rehash_to st (shift h + 1) h)"

subsection \<open>Operations\<close>

text \<open>The test of the search loops on an object.\<close>

definition matches :: "'o HashFunctions \<Rightarrow> u64 \<Rightarrow> 'o \<Rightarrow> 'o HashBucket \<Rightarrow> bool" where
  "matches F hval tmpl e \<longleftrightarrow> hvalue e = hval \<and> fun_cmp F tmpl (obj e) = 0"

fun chain_find :: "'o HashFunctions \<Rightarrow> 'o objstore \<Rightarrow> u64 \<Rightarrow> 'o \<Rightarrow> addr list \<Rightarrow> addr option option" where
  "chain_find F st hval tmpl [] = Some None"
| "chain_find F st hval tmpl (b # bs) = do {
     e \<leftarrow> st b;
     if matches F hval tmpl e then Some (Some b) else chain_find F st hval tmpl bs
   }"

definition hash_fetch :: "'o HashFunctions \<Rightarrow> 'o \<Rightarrow> Hash \<Rightarrow> 'o objstore \<Rightarrow> addr option option" where
  "hash_fetch F tmpl h st = do {
     let hval = fun_hash F tmpl;
     c \<leftarrow> arr_get (bucket h) (unat (hash_get_slot h hval));
     chain_find F st hval tmpl c
   }"

definition hash_get :: "'o HashFunctions \<Rightarrow> 'o \<Rightarrow> Hash \<Rightarrow> 'o objstore \<Rightarrow> addr option option" where
  "hash_get F tmpl h st = hash_fetch F tmpl h st"

text \<open>\<open>a\<close> is the address the allocation function returns, if it is called.\<close>

definition hash_put :: "'o HashFunctions \<Rightarrow> addr \<Rightarrow> 'o \<Rightarrow> Hash \<Rightarrow> 'o objstore \<Rightarrow> (addr \<times> Hash \<times> 'o objstore) option" where
  "hash_put F a tmpl h st = do {
     let hval = fun_hash F tmpl;
     let ix = unat (hash_get_slot h hval);
     c \<leftarrow> arr_get (bucket h) ix;
     found \<leftarrow> chain_find F st hval tmpl c;
     (case found of
        Some b \<Rightarrow> Some (b, h, st)
      | None \<Rightarrow> do {
          let st = st(a \<mapsto> \<lparr>hvalue = hval, obj = fun_alloc F tmpl\<rparr>);
          let h = h\<lparr>bucket := (bucket h)[ix := a # c], nobjs := nobjs h + 1\<rparr>;
          h \<leftarrow> (if nobjs h > grow_threshold h then rehash st True h else Some h);
          Some (a, h, st)
        })
   }"

text \<open>The search of \<open>hash_erase\<close> and \<open>hash_remove\<close>: the object and the chain without it.\<close>

fun chain_unlink ::
    "'o HashFunctions \<Rightarrow> 'o objstore \<Rightarrow> u64 \<Rightarrow> 'o \<Rightarrow> addr list \<Rightarrow> (addr \<times> addr list) option option" where
  "chain_unlink F st hval tmpl [] = Some None"
| "chain_unlink F st hval tmpl (b # bs) = do {
     e \<leftarrow> st b;
     if matches F hval tmpl e then Some (Some (b, bs))
     else map_option (map_option (\<lambda>(x, bs'). (x, b # bs'))) (chain_unlink F st hval tmpl bs)
   }"

text \<open>What the two functions share; \<open>free_it\<close> tells whether the object is freed.\<close>

definition hash_take :: "bool \<Rightarrow> 'o HashFunctions \<Rightarrow> 'o \<Rightarrow> Hash \<Rightarrow> 'o objstore \<Rightarrow> (addr option \<times> Hash \<times> 'o objstore) option" where
  "hash_take free_it F tmpl h st = do {
     let hval = fun_hash F tmpl;
     let ix = unat (hash_get_slot h hval);
     c \<leftarrow> arr_get (bucket h) ix;
     found \<leftarrow> chain_unlink F st hval tmpl c;
     (case found of
        None \<Rightarrow> Some (None, h, st)
      | Some (b, c') \<Rightarrow> do {
          let h = h\<lparr>bucket := (bucket h)[ix := c'], nobjs := nobjs h - 1\<rparr>;
          let st = (if free_it then st(b := None) else st);
          h \<leftarrow> (if nobjs h < shrink_threshold h then rehash st False h else Some h);
          Some (Some b, h, st)
        })
   }"

text \<open>\<open>hash_erase\<close> returns the template it was given, or 0.\<close>

definition hash_erase :: "'o HashFunctions \<Rightarrow> 'o \<Rightarrow> Hash \<Rightarrow> 'o objstore \<Rightarrow> (bool \<times> Hash \<times> 'o objstore) option" where
  "hash_erase F tmpl h st = map_option (\<lambda>(b, h, st). (b \<noteq> None, h, st)) (hash_take True F tmpl h st)"

definition hash_remove :: "'o HashFunctions \<Rightarrow> 'o \<Rightarrow> Hash \<Rightarrow> 'o objstore \<Rightarrow> (addr option \<times> Hash \<times> 'o objstore) option" where
  "hash_remove F tmpl h st = hash_take False F tmpl h st"

text \<open>The objects in the order \<open>hash_foreach\<close> visits them.\<close>

definition hash_foreach :: "('s \<Rightarrow> addr \<Rightarrow> 's) \<Rightarrow> Hash \<Rightarrow> 's \<Rightarrow> 's" where
  "hash_foreach f h s = foldl (foldl f) s (bucket h)"

fun delete_chain :: "addr list \<Rightarrow> 'o objstore \<Rightarrow> 'o objstore option" where
  "delete_chain [] st = Some st"
| "delete_chain (b # bs) st = do { e \<leftarrow> st b; delete_chain bs (st(b := None)) }"

fun delete_buckets :: "addr list list \<Rightarrow> 'o objstore \<Rightarrow> 'o objstore option" where
  "delete_buckets [] st = Some st"
| "delete_buckets (c # cs) st = do { st \<leftarrow> delete_chain c st; delete_buckets cs st }"

definition hash_delete :: "Hash \<Rightarrow> 'o objstore \<Rightarrow> 'o objstore option" where
  "hash_delete h st = delete_buckets (bucket h) st"

fun info_loop :: "addr list list \<Rightarrow> int \<Rightarrow> int \<Rightarrow> int \<times> int" where
  "info_loop [] used max_depth = (used, max_depth)"
| "info_loop (c # cs) used max_depth =
     (let depth = int (length c) in
      if depth \<noteq> 0 then info_loop cs (used + 1) (if depth > max_depth then depth else max_depth)
      else info_loop cs used max_depth)"

definition hash_get_info :: "Hash \<Rightarrow> HashInfo" where
  "hash_get_info h =
     (let (used, max_depth) = info_loop (bucket h) 0 0
      in \<lparr>hi_size = hash_get_slots h, hi_used = used, hi_objs = nobjs h, hi_depth = max_depth\<rparr>)"

end
