(* ===== verification/HashTableThms.thy ===== *)
theory HashTableThms
  imports HashTable
begin

text \<open>
  The hash table refines a finite map from keys to objects, for every client whose functions agree on
  what the key of an object is (the locale \<open>hash_functions\<close>): all operations keep the invariant of the
  chains, stay within their vectors and answer as the map does, whenever the table grows or shrinks.
\<close>

subsection \<open>Slots\<close>

lemma slot_bound:
  assumes "shift h < 64"
  shows "unat (hash_get_slot h hv) < 2 ^ (64 - shift h)"
proof -
  have "unat (drop_bit (shift h) w) < 2 ^ (64 - shift h)" for w :: u64
  proof -
    have "unat w < 2 ^ (64 - shift h) * 2 ^ shift h" using unsigned_less [of w, where ?'a = nat] assms by (simp flip: power_add)
    then show ?thesis unfolding unat_drop_bit_eq by (simp add: drop_bit_eq_div less_mult_imp_div_less)
  qed
  then show ?thesis by (simp add: hash_get_slot_def)
qed

lemma slots_nat: "nat (hash_get_slots h) = 2 ^ (64 - shift h)"
  by (simp add: hash_get_slots_def MAX_SHIFT_def nat_power_eq)

subsection \<open>The invariant\<close>

text \<open>The objects of the table, and the entry of an object.\<close>

definition objects :: "Hash \<Rightarrow> addr list" where "objects h = concat (bucket h)"

lemma chain_objects: "i < length (bucket h) \<Longrightarrow> b \<in> set (bucket h ! i) \<Longrightarrow> b \<in> set (objects h)"
  unfolding objects_def set_concat by (blast intro: nth_mem)

definition bucket_placed :: "'o HashFunctions \<Rightarrow> 'o objstore \<Rightarrow> Hash \<Rightarrow> nat \<Rightarrow> addr \<Rightarrow> bool" where
  "bucket_placed F st h i b \<longleftrightarrow>
     (\<exists>e. st b = Some e \<and> hvalue e = fun_hash F (obj e) \<and> unat (hash_get_slot h (hvalue e)) = i)"

definition key_at :: "('o \<Rightarrow> 'k) \<Rightarrow> 'o objstore \<Rightarrow> addr \<Rightarrow> 'k" where
  "key_at key st b = key (obj (the (st b)))"

definition hash_ok :: "'o HashFunctions \<Rightarrow> ('o \<Rightarrow> 'k) \<Rightarrow> Hash \<Rightarrow> 'o objstore \<Rightarrow> bool" where
  "hash_ok F key h st \<longleftrightarrow>
     shift h \<le> max_shift h \<and> max_shift h < 64 \<and> length (bucket h) = 2 ^ (64 - shift h)
     \<and> set_thresholds h = Some h \<and> nobjs h = int (length (objects h))
     \<and> distinct (map (key_at key st) (objects h))
     \<and> (\<forall>i < length (bucket h). \<forall>b \<in> set (bucket h ! i). bucket_placed F st h i b)"

text \<open>The finite map the table stands for: the object a key has, and its address.\<close>

definition hash_map :: "('o \<Rightarrow> 'k) \<Rightarrow> Hash \<Rightarrow> 'o objstore \<Rightarrow> 'k \<rightharpoonup> addr \<times> 'o" where
  "hash_map key h st = map_of (map (\<lambda>b. (key_at key st b, (b, obj (the (st b))))) (objects h))"

lemma hash_map_Some:
  assumes "distinct (map (key_at key st) (objects h))"
  shows "hash_map key h st k = Some (b, v) \<longleftrightarrow> b \<in> set (objects h) \<and> key_at key st b = k \<and> v = obj (the (st b))"
proof -
  have "distinct (map fst (map (\<lambda>b. (key_at key st b, (b, obj (the (st b))))) (objects h)))"
    using assms by (simp add: comp_def)
  from map_of_eq_Some_iff [OF this, of k "(b, v)"] show ?thesis unfolding hash_map_def by auto
qed

lemma map_eq_pairI: "(\<And>k b v. m k = Some (b, v) \<longleftrightarrow> m' k = Some (b, v)) \<Longrightarrow> m = m'"
  by (rule ext) (metis not_Some_eq old.prod.exhaust)

lemma hash_map_None: "hash_map key h st k = None \<longleftrightarrow> k \<notin> key_at key st ` set (objects h)"
  by (simp add: hash_map_def map_of_eq_None_iff image_image)

lemma dom_hash_map: "dom (hash_map key h st) = key_at key st ` set (objects h)"
  using hash_map_None [of key h st] by (auto simp: dom_def)

lemma card_hash_map:
  assumes "distinct (map (key_at key st) (objects h))"
  shows "card (dom (hash_map key h st)) = length (objects h)"
  using distinct_card [OF assms] by (simp add: dom_hash_map)

text \<open>The map depends only on which objects there are.\<close>

lemma hash_map_cong:
  assumes "mset (objects h) = mset (objects h')" "distinct (map (key_at key st) (objects h))"
  shows "hash_map key h st = hash_map key h' st"
proof -
  let ?f = "\<lambda>b. (key_at key st b, (b, obj (the (st b))))"
  have d: "distinct (map fst (map ?f (objects h)))" using assms(2) by (simp add: comp_def)
  moreover have "mset (map fst (map ?f (objects h))) = mset (map fst (map ?f (objects h')))" using assms(1) by simp
  then have "distinct (map fst (map ?f (objects h')))" using d mset_eq_imp_distinct_iff by blast
  moreover have "set (objects h) = set (objects h')" using assms(1) by (rule mset_eq_setD)
  ultimately show ?thesis unfolding hash_map_def by (subst map_of_inject_set) (auto simp del: map_map)
qed

subsection \<open>Rehashing\<close>

lemma chains_update:
  assumes "i < length cs"
  shows "mset (concat (cs[i := b # cs ! i])) = add_mset b (mset (concat cs))"
  using concat_update [OF assms, of "b # cs ! i"] concat_nth [OF assms] by simp

text \<open>All objects of the chains are in the store, in the place their hash value says.\<close>

definition well_placed :: "'o HashFunctions \<Rightarrow> 'o objstore \<Rightarrow> Hash \<Rightarrow> addr list list \<Rightarrow> bool" where
  "well_placed F st h cs \<longleftrightarrow> (\<forall>i < length cs. \<forall>b \<in> set (cs ! i). bucket_placed F st h i b)"

definition stored :: "'o HashFunctions \<Rightarrow> 'o objstore \<Rightarrow> addr list \<Rightarrow> bool" where
  "stored F st bs \<longleftrightarrow> (\<forall>b \<in> set bs. \<exists>e. st b = Some e \<and> hvalue e = fun_hash F (obj e))"

lemma rehash_chain_ok:
  assumes "stored F st bs" "well_placed F st h nb" "length nb = 2 ^ (64 - shift h)" "shift h < 64"
  shows "\<exists>nb'. rehash_chain st h bs nb = Some nb' \<and> well_placed F st h nb' \<and> length nb' = length nb
    \<and> mset (concat nb') = mset bs + mset (concat nb)"
  using assms
proof (induction bs arbitrary: nb)
  case Nil
  then show ?case by simp
next
  case (Cons b bs)
  obtain e where e: "st b = Some e" "hvalue e = fun_hash F (obj e)" using Cons.prems(1) by (auto simp: stored_def)
  define ix where "ix = unat (hash_get_slot h (hvalue e))"
  have ix: "ix < length nb" using slot_bound [OF Cons.prems(4)] Cons.prems(3) by (simp add: ix_def)
  have "bucket_placed F st h ix b" using e by (simp add: bucket_placed_def ix_def)
  then have "well_placed F st h (nb[ix := b # nb ! ix])"
    using Cons.prems(2) ix by (auto simp: well_placed_def nth_list_update)
  then obtain nb' where "rehash_chain st h bs (nb[ix := b # nb ! ix]) = Some nb'" "well_placed F st h nb'"
      "length nb' = length nb" "mset (concat nb') = mset bs + mset (concat (nb[ix := b # nb ! ix]))"
    using Cons.IH [of "nb[ix := b # nb ! ix]"] Cons.prems by (auto simp: stored_def)
  then show ?case using e ix chains_update [OF ix, of b] by (simp add: ix_def arr_get_def)
qed

lemma rehash_buckets_ok:
  assumes "stored F st (concat cs)" "well_placed F st h nb" "length nb = 2 ^ (64 - shift h)" "shift h < 64"
  shows "\<exists>nb'. rehash_buckets st h cs nb = Some nb' \<and> well_placed F st h nb' \<and> length nb' = length nb
    \<and> mset (concat nb') = mset (concat cs) + mset (concat nb)"
  using assms
proof (induction cs arbitrary: nb)
  case Nil
  then show ?case by simp
next
  case (Cons c cs)
  have s: "stored F st c" "stored F st (concat cs)" using Cons.prems(1) by (auto simp: stored_def)
  obtain nb1 where 1: "rehash_chain st h c nb = Some nb1" "well_placed F st h nb1" "length nb1 = length nb"
      "mset (concat nb1) = mset c + mset (concat nb)"
    using rehash_chain_ok [OF s(1) Cons.prems(2-4)] by blast
  then obtain nb' where "rehash_buckets st h cs nb1 = Some nb'" "well_placed F st h nb'" "length nb' = length nb1"
      "mset (concat nb') = mset (concat cs) + mset (concat nb1)"
    using Cons.IH [OF s(2) 1(2)] Cons.prems by metis
  then show ?case using 1 by (simp add: ac_simps)
qed

lemma placed_cong: "shift h = shift h' \<Longrightarrow> bucket_placed F st h i b \<longleftrightarrow> bucket_placed F st h' i b"
  by (simp add: bucket_placed_def hash_get_slot_def)

lemma set_thresholds_fields:
  "set_thresholds h = Some h' \<Longrightarrow> set_thresholds h' = Some h' \<and> shift h' = shift h \<and> max_shift h' = max_shift h
     \<and> nobjs h' = nobjs h \<and> bucket h' = bucket h"
  by (auto simp: set_thresholds_def hash_get_slots_def split: if_splits)

lemma thresholds_set:
  "set_thresholds h = Some h \<longleftrightarrow> 8 * hash_get_slots h \<le> INT_MAX \<and> grow_threshold h = 8 * hash_get_slots h div 5
     \<and> shrink_threshold h = (if shift h < max_shift h then hash_get_slots h div 5 else - 1)"
  by (cases h) (auto simp: set_thresholds_def hash_get_slots_def)

lemma hash_ok_stored: "hash_ok F key h st \<Longrightarrow> stored F st (objects h)"
  unfolding hash_ok_def stored_def objects_def bucket_placed_def by (fastforce simp: in_set_conv_nth)

lemma rehash_to_ok:
  assumes ok: "hash_ok F key h st" and s: "s \<le> max_shift h" "8 * 2 ^ (64 - s) \<le> INT_MAX"
  shows "\<exists>h'. rehash_to st s h = Some h' \<and> hash_ok F key h' st \<and> hash_map key h' st = hash_map key h st \<and> nobjs h' = nobjs h"
proof -
  define h1 where "h1 = h\<lparr>shift := s\<rparr>"
  have s64: "shift h1 < 64" using ok s(1) by (simp add: h1_def hash_ok_def)
  have "well_placed F st h1 (replicate n [])" for n by (simp add: well_placed_def)
  then obtain nb where nb: "rehash_buckets st h1 (bucket h) (replicate (nat (hash_get_slots h1)) []) = Some nb"
      "well_placed F st h1 nb" "length nb = 2 ^ (64 - s)" "mset (concat nb) = mset (objects h)"
    using rehash_buckets_ok [of F st "bucket h" h1 "replicate (nat (hash_get_slots h1)) []"] hash_ok_stored [OF ok] s64
    by (auto simp: slots_nat objects_def h1_def)
  obtain h' where h': "set_thresholds (h1\<lparr>bucket := nb\<rparr>) = Some h'"
    using s(2) by (simp add: set_thresholds_def hash_get_slots_def h1_def MAX_SHIFT_def)
  note f = set_thresholds_fields [OF h', simplified]
  have o: "objects h' = concat nb" using f by (simp add: objects_def)
  have d: "distinct (map (key_at key st) (objects h))" using ok by (simp add: hash_ok_def)
  moreover have "mset (map (key_at key st) (objects h')) = mset (map (key_at key st) (objects h))" using o nb(4) by simp
  ultimately have d': "distinct (map (key_at key st) (objects h'))" using mset_eq_imp_distinct_iff by blast
  have "length (objects h') = length (objects h)" using o nb(4) by (metis size_mset)
  moreover have "bucket_placed F st h' i b \<longleftrightarrow> bucket_placed F st h1 i b" for i b using f by (intro placed_cong) simp
  ultimately have "hash_ok F key h' st"
    using ok s(1) nb f d' by (simp add: hash_ok_def well_placed_def h1_def)
  moreover have "hash_map key h' st = hash_map key h st"
    using hash_map_cong [of h' h key st] o nb(4) d' by simp
  moreover have "rehash_to st s h = Some h'"
    using nb(1) h' by (simp add: rehash_to_def Let_def h1_def)
  ultimately show ?thesis using f by (auto simp: h1_def)
qed

lemma rehash_ok:
  assumes ok: "hash_ok F key h st" and g: "grow \<longrightarrow> grow_threshold h < nobjs h \<and> nobjs h \<le> 2 ^ 27"
  shows "\<exists>h'. rehash st grow h = Some h' \<and> hash_ok F key h' st \<and> hash_map key h' st = hash_map key h st \<and> nobjs h' = nobjs h"
proof -
  have t: "8 * hash_get_slots h \<le> INT_MAX" "grow_threshold h = 8 * hash_get_slots h div 5" "shift h \<le> max_shift h" "max_shift h < 64"
    using ok by (simp_all add: hash_ok_def thresholds_set)
  show ?thesis
  proof (cases grow)
    case True
    have n: "8 * hash_get_slots h div 5 < 2 ^ 27" using g True t(2) by simp
    have "0 < shift h" using t(1) by (cases "shift h") (simp_all add: hash_get_slots_def INT_MAX_def MAX_SHIFT_def)
    then have "64 - (shift h - 1) = Suc (64 - shift h)" using t(3,4) by simp
    then have "8 * 2 ^ (64 - (shift h - 1)) \<le> INT_MAX"
      using n by (simp add: hash_get_slots_def MAX_SHIFT_def INT_MAX_def)
    then show ?thesis using rehash_to_ok [OF ok, of "shift h - 1"] True t by (simp add: rehash_def)
  next
    case False
    show ?thesis
    proof (cases "shift h = max_shift h")
      case True
      then show ?thesis using False ok by (simp add: rehash_def)
    next
      case l: False
      have "64 - shift h = Suc (64 - (shift h + 1))" using t(3,4) l by simp
      then have "8 * 2 ^ (64 - (shift h + 1)) \<le> INT_MAX"
        using t(1) by (simp add: hash_get_slots_def MAX_SHIFT_def INT_MAX_def)
      then show ?thesis using rehash_to_ok [OF ok, of "shift h + 1"] False l t by (simp add: rehash_def)
    qed
  qed
qed

text \<open>The table reads the store only at its own objects.\<close>

lemma store_cong:
  assumes eq: "\<forall>b \<in> set (objects h). st b = st' b"
  shows "hash_ok F key h st \<longleftrightarrow> hash_ok F key h st'" "hash_map key h st = hash_map key h st'"
proof -
  have k: "key_at key st b = key_at key st' b" if "b \<in> set (objects h)" for b using eq that by (simp add: key_at_def)
  have "bucket_placed F st h i b \<longleftrightarrow> bucket_placed F st' h i b" if "i < length (bucket h)" "b \<in> set (bucket h ! i)" for i b
    using eq chain_objects [OF that] by (simp add: bucket_placed_def)
  then have p: "(\<forall>i < length (bucket h). \<forall>b \<in> set (bucket h ! i). bucket_placed F st h i b) \<longleftrightarrow>
      (\<forall>i < length (bucket h). \<forall>b \<in> set (bucket h ! i). bucket_placed F st' h i b)" by simp
  have "map (key_at key st) (objects h) = map (key_at key st') (objects h)" using k by simp
  then show "hash_ok F key h st \<longleftrightarrow> hash_ok F key h st'" unfolding hash_ok_def p by (simp only:)
  show "hash_map key h st = hash_map key h st'" unfolding hash_map_def
    by (intro arg_cong [where f = map_of] map_cong) (use k eq in auto)
qed

text \<open>Replacing one chain.\<close>

lemma replace_chain:
  assumes ok: "hash_ok F key h st" and ix: "ix < length (bucket h)"
    and d: "distinct (map (key_at key st) (concat ((bucket h)[ix := c])))" and c: "\<forall>b \<in> set c. bucket_placed F st h ix b"
    and n: "n = int (length (concat ((bucket h)[ix := c])))"
  shows "hash_ok F key (h\<lparr>bucket := (bucket h)[ix := c], nobjs := n\<rparr>) st"
proof -
  let ?h = "h\<lparr>bucket := (bucket h)[ix := c], nobjs := n\<rparr>"
  have "set_thresholds ?h = Some ?h" using ok by (simp add: hash_ok_def thresholds_set hash_get_slots_def)
  moreover have "bucket_placed F st ?h i b \<longleftrightarrow> bucket_placed F st h i b" for i b by (rule placed_cong) simp
  ultimately show ?thesis using ok ix d c n by (auto simp: hash_ok_def objects_def nth_list_update)
qed

subsection \<open>New tables, and tables as a whole\<close>

lemma init_shift_ok:
  "s \<le> 27 \<Longrightarrow> sz \<le> 2 ^ 27 \<Longrightarrow> s \<le> init_shift sz s \<and> init_shift sz s \<le> 27 \<and> sz \<le> 2 ^ init_shift sz s"
proof (induction sz s rule: init_shift.induct)
  case (1 sz s)
  show ?case
  proof (cases "2 ^ s < sz")
    case True
    then have "(2 :: nat) ^ s < 2 ^ 27" using "1.prems"(2) by linarith
    then have "s < 27" by (rule power_less_imp_less_exp [rotated]) simp
    then show ?thesis using "1.IH" [OF True] "1.prems"(2) True by (simp add: init_shift.simps [of sz s])
  next
    case False
    then show ?thesis using "1.prems" by (simp add: init_shift.simps [of sz s])
  qed
qed

lemma hash_init_ok:
  assumes "sz \<le> 2 ^ 27"
  shows "\<exists>h. hash_init sz = Some h \<and> hash_ok F key h st \<and> objects h = [] \<and> int sz \<le> hash_get_slots h"
proof -
  define n where "n = init_shift sz 1"
  have n: "1 \<le> n" "n \<le> 27" "sz \<le> 2 ^ n" using init_shift_ok [of 1 sz] assms by (simp_all add: n_def)
  define h0 where "h0 = \<lparr>shift = 64 - n, max_shift = 64 - n, shrink_threshold = 0, grow_threshold = 0, nobjs = 0, bucket = []\<rparr>"
  have sl: "hash_get_slots h0 = 2 ^ n" using n(2) by (simp add: h0_def hash_get_slots_def MAX_SHIFT_def)
  have "(2 :: int) ^ n \<le> 2 ^ 27" using n(2) by (intro power_increasing) simp_all
  then obtain h1 where h1: "set_thresholds h0 = Some h1" by (simp add: set_thresholds_def sl INT_MAX_def)
  define h where "h = h1\<lparr>bucket := replicate (nat (hash_get_slots h1)) []\<rparr>"
  note f = set_thresholds_fields [OF h1]
  have sl1: "hash_get_slots h1 = 2 ^ n" "hash_get_slots h = 2 ^ n" using f sl by (simp_all add: h_def hash_get_slots_def)
  have "set_thresholds h = Some h" using f sl1 by (simp add: thresholds_set h_def)
  moreover have o: "objects h = []" by (simp add: objects_def h_def)
  moreover have "64 - shift h = n" using f n(2) by (simp add: h_def h0_def)
  ultimately have "hash_ok F key h st"
    using f n(1) sl1 by (auto simp: hash_ok_def h_def h0_def nat_power_eq)
  moreover have "hash_init sz = Some h" using h1 by (simp add: hash_init_def h_def h0_def n_def Let_def MAX_SHIFT_def)
  moreover have "int sz \<le> hash_get_slots h" using n(3) sl1(2) by (metis of_nat_le_iff of_nat_numeral of_nat_power)
  ultimately show ?thesis using o by blast
qed

lemma hash_foreach_objects: "hash_foreach f h s = foldl f s (objects h)"
proof -
  have "foldl (foldl f) s cs = foldl f s (concat cs)" for cs by (induction cs arbitrary: s) simp_all
  then show ?thesis by (simp add: hash_foreach_def objects_def)
qed

lemma delete_chain_ok: "distinct bs \<Longrightarrow> set bs \<subseteq> dom st \<Longrightarrow> delete_chain bs st = Some (st |` (- set bs))"
proof (induction bs arbitrary: st)
  case (Cons b bs)
  have "delete_chain bs (st(b := None)) = Some ((st(b := None)) |` (- set bs))"
    by (rule Cons.IH) (use Cons.prems in auto)
  moreover have "(st(b := None)) |` (- set bs) = st |` (- set (b # bs))" by (auto simp: restrict_map_def fun_eq_iff)
  moreover obtain e where "st b = Some e" using Cons.prems(2) by auto
  ultimately show ?case by (simp only: delete_chain.simps bind.bind_lunit)
qed (simp add: restrict_map_def)

lemma delete_buckets_concat: "delete_buckets cs st = delete_chain (concat cs) st"
proof -
  have a: "delete_chain (xs @ ys) st = delete_chain xs st \<bind> delete_chain ys" for xs ys :: "addr list" and st :: "'o objstore"
    by (induction xs arbitrary: st) (auto split: Option.bind_split)
  show ?thesis by (induction cs arbitrary: st) (auto simp: a intro: Option.bind_cong)
qed

text \<open>\<open>hash_delete\<close> frees every object of the table once, and nothing else.\<close>

lemma hash_delete_frees:
  assumes "hash_ok F key h st"
  shows "hash_delete h st = Some (st |` (- set (objects h)))"
proof -
  have "distinct (objects h)" using assms by (simp add: hash_ok_def distinct_map)
  moreover have "set (objects h) \<subseteq> dom st" using hash_ok_stored [OF assms] by (auto simp: stored_def)
  ultimately show ?thesis unfolding hash_delete_def delete_buckets_concat objects_def [symmetric] by (rule delete_chain_ok)
qed

lemma info_loop_val:
  "0 \<le> d \<Longrightarrow> info_loop cs u d = (u + int (length (filter (\<lambda>c. c \<noteq> []) cs)), foldl max d (map (int \<circ> length) cs))"
proof (induction cs arbitrary: u d)
  case (Cons c cs)
  then show ?case by (cases "c = []") (auto simp: Let_def max_def)
qed simp

subsection \<open>The contract of the client's functions\<close>

text \<open>
  Every object has a key: two objects are equal for \<open>cmp\<close> when they have the same key, the hash value
  depends on the key only, and a new object has the key of its template.
\<close>

locale hash_functions =
  fixes F :: "'o HashFunctions" and key :: "'o \<Rightarrow> 'k"
  assumes cmp_key: "fun_cmp F t x = 0 \<longleftrightarrow> key t = key x"
    and hash_key: "key t = key x \<Longrightarrow> fun_hash F t = fun_hash F x"
    and alloc_key: "key (fun_alloc F t) = key t"
begin

lemma matches_key: "hvalue e = fun_hash F (obj e) \<Longrightarrow> matches F (fun_hash F t) t e \<longleftrightarrow> key (obj e) = key t"
  using hash_key [of "obj e" t] by (auto simp: matches_def cmp_key)

lemma chain_find_eq:
  "stored F st c \<Longrightarrow> chain_find F st (fun_hash F t) t c = Some (List.find (\<lambda>b. key_at key st b = key t) c)"
  by (induction c) (auto simp: stored_def matches_key key_at_def)

lemma chain_unlink_cases:
  assumes "stored F st c"
  shows "(chain_unlink F st (fun_hash F t) t c = Some None \<and> (\<forall>b \<in> set c. key_at key st b \<noteq> key t)) \<or>
    (\<exists>b c'. chain_unlink F st (fun_hash F t) t c = Some (Some (b, c')) \<and> key_at key st b = key t
      \<and> mset c = add_mset b (mset c'))"
  using assms
proof (induction c)
  case (Cons b c)
  obtain e where e: "st b = Some e" "hvalue e = fun_hash F (obj e)" using Cons.prems by (auto simp: stored_def)
  have k: "matches F (fun_hash F t) t e \<longleftrightarrow> key_at key st b = key t" using matches_key [OF e(2)] e(1) by (simp add: key_at_def)
  have "stored F st c" using Cons.prems by (simp add: stored_def)
  from Cons.IH [OF this] show ?case using e(1) k by (cases "key_at key st b = key t") auto
qed simp

text \<open>The chain of a key holds the object of the key, if there is one.\<close>

lemma chain_of_key:
  assumes ok: "hash_ok F key h st" and c: "c = bucket h ! unat (hash_get_slot h (fun_hash F t))"
  shows "unat (hash_get_slot h (fun_hash F t)) < length (bucket h)" "stored F st c"
    "b \<in> set (objects h) \<Longrightarrow> key_at key st b = key t \<Longrightarrow> b \<in> set c" "set c \<subseteq> set (objects h)"
proof -
  show ix: "unat (hash_get_slot h (fun_hash F t)) < length (bucket h)"
    using slot_bound [of h] ok by (simp add: hash_ok_def)
  then show sub: "set c \<subseteq> set (objects h)" using c chain_objects by blast
  then show "stored F st c" using hash_ok_stored [OF ok] by (auto simp: stored_def)
  assume b: "b \<in> set (objects h)" "key_at key st b = key t"
  then obtain c' where "c' \<in> set (bucket h)" "b \<in> set c'" by (auto simp: objects_def)
  then obtain i where i: "i < length (bucket h)" "b \<in> set (bucket h ! i)" by (metis in_set_conv_nth)
  then obtain e where e: "st b = Some e" "hvalue e = fun_hash F (obj e)" "unat (hash_get_slot h (hvalue e)) = i"
    using ok unfolding hash_ok_def bucket_placed_def by blast
  then have "i = unat (hash_get_slot h (fun_hash F t))" using b(2) hash_key [of "obj e" t] by (simp add: key_at_def)
  then show "b \<in> set c" using i c by simp
qed

lemma hash_fetch_ok:
  assumes ok: "hash_ok F key h st"
  shows "hash_fetch F t h st = Some (map_option fst (hash_map key h st (key t)))"
proof -
  define c where "c = bucket h ! unat (hash_get_slot h (fun_hash F t))"
  note ch = chain_of_key [OF ok c_def]
  have d: "distinct (map (key_at key st) (objects h))" using ok by (simp add: hash_ok_def)
  have "List.find (\<lambda>b. key_at key st b = key t) c = map_option fst (hash_map key h st (key t))"
  proof (cases "List.find (\<lambda>b. key_at key st b = key t) c")
    case None
    then have "hash_map key h st (key t) = None" using ch(3) unfolding find_None_iff hash_map_None by (metis imageE)
    then show ?thesis using None by simp
  next
    case (Some b)
    then have "b \<in> set c" "key_at key st b = key t" by (auto simp: find_Some_iff)
    then have "hash_map key h st (key t) = Some (b, obj (the (st b)))" using ch(4) by (auto simp: hash_map_Some [OF d])
    then show ?thesis using Some by simp
  qed
  then show ?thesis using ch(1) chain_find_eq [OF ch(2)] by (simp add: hash_fetch_def arr_get_def c_def)
qed

lemma hash_insert_ok:
  assumes ok: "hash_ok F key h st" and new: "hash_map key h st (key t) = None" and a: "a \<notin> set (objects h)"
    and ix: "ix = unat (hash_get_slot h (fun_hash F t))" and e: "e = \<lparr>hvalue = fun_hash F t, obj = fun_alloc F t\<rparr>"
  defines "h' \<equiv> h\<lparr>bucket := (bucket h)[ix := a # bucket h ! ix], nobjs := nobjs h + 1\<rparr>"
  shows "hash_ok F key h' (st(a \<mapsto> e))" "hash_map key h' (st(a \<mapsto> e)) = (hash_map key h st)(key t \<mapsto> (a, fun_alloc F t))"
proof -
  let ?st = "st(a \<mapsto> e)"
  note ch = chain_of_key [OF ok refl, where t = t]
  have l: "ix < length (bucket h)" using ch(1) ix by simp
  have eq: "\<forall>b \<in> set (objects h). st b = ?st b" using a by auto
  have ok1: "hash_ok F key h ?st" "hash_map key h ?st = hash_map key h st"
    using ok store_cong(1) [of h st ?st F key, OF eq] store_cong(2) [of h st ?st key, OF eq] by (simp_all only:)
  have m: "mset (concat ((bucket h)[ix := a # bucket h ! ix])) = add_mset a (mset (objects h))"
    unfolding objects_def by (rule chains_update [OF l])
  have ka: "key_at key ?st a = key t" by (simp add: key_at_def e alloc_key)
  have d: "distinct (map (key_at key ?st) (objects h))" using ok1(1) by (simp add: hash_ok_def)
  have "obj e = fun_alloc F t" by (simp add: e)
  have fresh: "key t \<notin> key_at key ?st ` set (objects h)" using new ok1(2) hash_map_None [of key h ?st "key t"] by simp
  have "distinct (map (key_at key ?st) (a # objects h))" using fresh d ka by simp
  moreover have "mset (map (key_at key ?st) (concat ((bucket h)[ix := a # bucket h ! ix]))) = mset (map (key_at key ?st) (a # objects h))"
    using m by simp
  ultimately have d': "distinct (map (key_at key ?st) (concat ((bucket h)[ix := a # bucket h ! ix])))"
    using mset_eq_imp_distinct_iff by blast
  have "bucket_placed F ?st h ix a" using hash_key [OF alloc_key] ix by (simp add: bucket_placed_def e)
  moreover have "\<forall>b \<in> set (bucket h ! ix). bucket_placed F ?st h ix b" using ok1(1) l by (simp add: hash_ok_def)
  moreover have "nobjs h + 1 = int (length (concat ((bucket h)[ix := a # bucket h ! ix])))"
    using arg_cong [OF m, of size] ok by (simp add: hash_ok_def)
  ultimately show ok': "hash_ok F key h' ?st" unfolding h'_def by (intro replace_chain [OF ok1(1) l d']) auto
  have o: "set (objects h') = insert a (set (objects h))"
    using mset_eq_setD [of "objects h'" "a # objects h"] m by (simp add: h'_def objects_def)
  have dd: "distinct (map (key_at key ?st) (objects h'))" using ok' by (simp add: hash_ok_def)
  show "hash_map key h' ?st = (hash_map key h st)(key t \<mapsto> (a, fun_alloc F t))"
  proof (rule map_eq_pairI)
    fix k b v
    show "hash_map key h' ?st k = Some (b, v) \<longleftrightarrow> ((hash_map key h st)(key t \<mapsto> (a, fun_alloc F t))) k = Some (b, v)"
      using fresh ka \<open>obj e = fun_alloc F t\<close>
      by (auto simp: hash_map_Some [OF dd] o ok1(2) [symmetric] hash_map_Some [OF d] image_iff)
  qed
qed

lemma hash_put_ok:
  assumes ok: "hash_ok F key h st" and a: "a \<notin> set (objects h)" and n: "length (objects h) < 2 ^ 27"
  shows "case hash_map key h st (key t) of
      Some (b, v) \<Rightarrow> hash_put F a t h st = Some (b, h, st)
    | None \<Rightarrow> \<exists>h'. hash_put F a t h st = Some (a, h', st(a \<mapsto> \<lparr>hvalue = fun_hash F t, obj = fun_alloc F t\<rparr>))
        \<and> hash_ok F key h' (st(a \<mapsto> \<lparr>hvalue = fun_hash F t, obj = fun_alloc F t\<rparr>))
        \<and> hash_map key h' (st(a \<mapsto> \<lparr>hvalue = fun_hash F t, obj = fun_alloc F t\<rparr>))
            = (hash_map key h st)(key t \<mapsto> (a, fun_alloc F t))"
proof -
  define ix where "ix = unat (hash_get_slot h (fun_hash F t))"
  note ch = chain_of_key [OF ok refl, where t = t, folded ix_def]
  have find: "chain_find F st (fun_hash F t) t (bucket h ! ix) = Some (map_option fst (hash_map key h st (key t)))"
    using hash_fetch_ok [OF ok, of t] ch(1) by (simp add: hash_fetch_def ix_def arr_get_def Let_def)
  show ?thesis
  proof (cases "hash_map key h st (key t)")
    case (Some bv)
    then show ?thesis using find ch(1) by (auto simp: hash_put_def ix_def arr_get_def Let_def split: prod.splits)
  next
    case None
    define e where "e = \<lparr>hvalue = fun_hash F t, obj = fun_alloc F t\<rparr>"
    define h1 where "h1 = h\<lparr>bucket := (bucket h)[ix := a # bucket h ! ix], nobjs := nobjs h + 1\<rparr>"
    note ins = hash_insert_ok [OF ok None a ix_def e_def, folded h1_def]
    have "nobjs h1 \<le> 2 ^ 27" using ok n by (simp add: h1_def hash_ok_def)
    then obtain h' where h': "(if nobjs h1 > grow_threshold h1 then rehash (st(a \<mapsto> e)) True h1 else Some h1) = Some h'"
        "hash_ok F key h' (st(a \<mapsto> e))" "hash_map key h' (st(a \<mapsto> e)) = hash_map key h1 (st(a \<mapsto> e))"
      using rehash_ok [OF ins(1), of True] ins(1) by (cases "nobjs h1 > grow_threshold h1") auto
    have "hash_put F a t h st = Some (a, h', st(a \<mapsto> e))"
      using find None ch(1) h'(1) unfolding e_def h1_def ix_def
      by (auto simp: hash_put_def arr_get_def Let_def split: if_splits)
    then show ?thesis using None h'(2,3) ins(2) by (simp add: e_def)
  qed
qed

lemma hash_unlink_ok:
  assumes ok: "hash_ok F key h st" and ix: "ix < length (bucket h)" and b: "mset (bucket h ! ix) = add_mset b (mset c')"
    and k: "key_at key st b = k"
  defines "h' \<equiv> h\<lparr>bucket := (bucket h)[ix := c'], nobjs := nobjs h - 1\<rparr>"
  shows "hash_ok F key h' st" "hash_map key h' st = (hash_map key h st)(k := None)" "b \<notin> set (objects h')"
    "hash_map key h st k = Some (b, obj (the (st b)))"
proof -
  have m: "mset (objects h) = add_mset b (mset (objects h'))"
    using concat_nth [OF ix] concat_update [OF ix, of c'] b by (simp add: objects_def h'_def)
  have d: "distinct (map (key_at key st) (objects h))" using ok by (simp add: hash_ok_def)
  have "mset (map (key_at key st) (objects h)) = mset (map (key_at key st) (b # objects h'))" using m by simp
  then have db: "distinct (map (key_at key st) (b # objects h'))" using d mset_eq_imp_distinct_iff by blast
  have o: "set (objects h) = insert b (set (objects h'))" using mset_eq_setD [of "objects h" "b # objects h'"] m by simp
  have "set c' \<subseteq> set (bucket h ! ix)" using b by (metis set_mset_add_mset_insert set_mset_mset subset_insertI)
  then have "\<forall>x \<in> set c'. bucket_placed F st h ix x" using ok ix by (auto simp: hash_ok_def)
  moreover have "nobjs h - 1 = int (length (concat ((bucket h)[ix := c'])))"
    using arg_cong [OF m, of size] ok by (simp add: hash_ok_def h'_def objects_def)
  moreover have "distinct (map (key_at key st) (concat ((bucket h)[ix := c'])))" using db by (simp add: h'_def objects_def)
  ultimately show ok': "hash_ok F key h' st" unfolding h'_def by (intro replace_chain [OF ok ix]) auto
  show "b \<notin> set (objects h')" using db by auto
  show some: "hash_map key h st k = Some (b, obj (the (st b)))" using hash_map_Some [OF d] o k by simp
  have d': "distinct (map (key_at key st) (objects h'))" using db by simp
  show "hash_map key h' st = (hash_map key h st)(k := None)"
  proof (rule map_eq_pairI)
    fix x y v
    show "hash_map key h' st x = Some (y, v) \<longleftrightarrow> ((hash_map key h st)(k := None)) x = Some (y, v)"
      using db k by (auto simp: hash_map_Some [OF d'] hash_map_Some [OF d] o image_iff)
  qed
qed

lemma hash_take_ok:
  assumes ok: "hash_ok F key h st"
  shows "\<exists>h' st'. hash_take fr F t h st = Some (map_option fst (hash_map key h st (key t)), h', st')
    \<and> hash_ok F key h' st' \<and> hash_map key h' st' = (hash_map key h st)(key t := None)
    \<and> st' = (case hash_map key h st (key t) of Some (b, v) \<Rightarrow> if fr then st(b := None) else st | None \<Rightarrow> st)
    \<and> (hash_map key h st (key t) = None \<longrightarrow> h' = h)"
proof -
  define ix where "ix = unat (hash_get_slot h (fun_hash F t))"
  note ch = chain_of_key [OF ok refl, where t = t, folded ix_def]
  from chain_unlink_cases [OF ch(2), of t] show ?thesis
  proof (elim disjE exE conjE)
    assume u: "chain_unlink F st (fun_hash F t) t (bucket h ! ix) = Some None" "\<forall>b \<in> set (bucket h ! ix). key_at key st b \<noteq> key t"
    then have "hash_map key h st (key t) = None" using ch(3) unfolding hash_map_None by (metis imageE)
    then show ?thesis using u(1) ch(1) ok by (auto simp: hash_take_def ix_def arr_get_def Let_def)
  next
    fix b c'
    assume u: "chain_unlink F st (fun_hash F t) t (bucket h ! ix) = Some (Some (b, c'))" "key_at key st b = key t"
      "mset (bucket h ! ix) = add_mset b (mset c')"
    define h1 where "h1 = h\<lparr>bucket := (bucket h)[ix := c'], nobjs := nobjs h - 1\<rparr>"
    define st1 where "st1 = (if fr then st(b := None) else st)"
    note del = hash_unlink_ok [OF ok ch(1) u(3,2), folded h1_def]
    have eq: "\<forall>x \<in> set (objects h1). st x = st1 x" using del(3) by (auto simp: st1_def)
    have ok1: "hash_ok F key h1 st1" "hash_map key h1 st1 = (hash_map key h st)(key t := None)"
      using del(1,2) store_cong(1) [of h1 st st1 F key, OF eq] store_cong(2) [of h1 st st1 key, OF eq] by (simp_all only:)
    then obtain h' where h': "(if nobjs h1 < shrink_threshold h1 then rehash st1 False h1 else Some h1) = Some h'"
        "hash_ok F key h' st1" "hash_map key h' st1 = hash_map key h1 st1"
      using rehash_ok [OF ok1(1), of False] by (cases "nobjs h1 < shrink_threshold h1") auto
    have "hash_take fr F t h st = Some (Some b, h', st1)"
      using u(1) ch(1) h'(1) unfolding h1_def st1_def ix_def
      by (auto simp: hash_take_def arr_get_def Let_def split: if_splits)
    then show ?thesis using h' ok1 del(4) by (auto simp: st1_def)
  qed
qed

end

subsection \<open>Refinement of a finite map\<close>

datatype 'o hash_cmd = Put addr 'o | Get 'o | Erase 'o | Remove 'o

text \<open>A command returns the object a pointer leads to, with its address, or whether one was erased.\<close>

datatype 'o hash_out = Found "(addr \<times> 'o) option" | Erased bool

definition read_obj :: "'o objstore \<Rightarrow> addr option \<Rightarrow> (addr \<times> 'o) option" where
  "read_obj st p = do { b \<leftarrow> p; e \<leftarrow> st b; Some (b, obj e) }"

definition hash_step ::
    "'o HashFunctions \<Rightarrow> 'o hash_cmd \<Rightarrow> Hash \<times> 'o objstore \<Rightarrow> 'o hash_out option \<times> (Hash \<times> 'o objstore)" where
  "hash_step F c s =
     (case (case c of
        Put a t \<Rightarrow> map_option (\<lambda>(b, h, st). (Found (read_obj st (Some b)), (h, st))) (hash_put F a t (fst s) (snd s))
      | Get t \<Rightarrow> map_option (\<lambda>b. (Found (read_obj (snd s) b), s)) (hash_get F t (fst s) (snd s))
      | Erase t \<Rightarrow> map_option (\<lambda>(b, h, st). (Erased b, (h, st))) (hash_erase F t (fst s) (snd s))
      | Remove t \<Rightarrow> map_option (\<lambda>(b, h, st). (Found (read_obj st b), (h, st))) (hash_remove F t (fst s) (snd s)))
     of None \<Rightarrow> (None, s) | Some (out, s') \<Rightarrow> (Some out, s'))"

definition map_step ::
    "'o HashFunctions \<Rightarrow> ('o \<Rightarrow> 'k) \<Rightarrow> 'o hash_cmd \<Rightarrow> ('k \<rightharpoonup> addr \<times> 'o) \<Rightarrow> 'o hash_out option \<times> ('k \<rightharpoonup> addr \<times> 'o)" where
  "map_step F key c m =
     (case c of
        Put a t \<Rightarrow>
          (case m (key t) of
             Some x \<Rightarrow> (Some (Found (Some x)), m)
           | None \<Rightarrow> (Some (Found (Some (a, fun_alloc F t))), m(key t \<mapsto> (a, fun_alloc F t))))
      | Get t \<Rightarrow> (Some (Found (m (key t))), m)
      | Erase t \<Rightarrow> (Some (Erased (m (key t) \<noteq> None)), m(key t := None))
      | Remove t \<Rightarrow> (Some (Found (m (key t))), m(key t := None)))"

text \<open>
  What is asked of a command: the allocator gives no address that is in use in the table, and the table
  has not more than \<open>2 ^ 27\<close> objects, so that the load of the next size can still be computed.
\<close>

definition hash_pre :: "'o hash_cmd \<Rightarrow> ('k \<rightharpoonup> addr \<times> 'o) \<Rightarrow> bool" where
  "hash_pre c m = (case c of Put a t \<Rightarrow> a \<notin> fst ` ran m \<and> card (dom m) < 2 ^ 27 | _ \<Rightarrow> True)"

fun hash_pre_run :: "'o HashFunctions \<Rightarrow> ('o \<Rightarrow> 'k) \<Rightarrow> 'o hash_cmd list \<Rightarrow> ('k \<rightharpoonup> addr \<times> 'o) \<Rightarrow> bool" where
  "hash_pre_run F key [] m = True"
| "hash_pre_run F key (c # cs) m \<longleftrightarrow> hash_pre c m \<and> hash_pre_run F key cs (snd (map_step F key c m))"

definition table_ok :: "'o HashFunctions \<Rightarrow> ('o \<Rightarrow> 'k) \<Rightarrow> Hash \<times> 'o objstore \<Rightarrow> bool" where
  "table_ok F key s = hash_ok F key (fst s) (snd s)"

definition table_map :: "('o \<Rightarrow> 'k) \<Rightarrow> Hash \<times> 'o objstore \<Rightarrow> 'k \<rightharpoonup> addr \<times> 'o" where
  "table_map key s = hash_map key (fst s) (snd s)"

lemma ran_hash_map:
  assumes "hash_ok F key h st"
  shows "fst ` ran (hash_map key h st) = set (objects h)"
proof -
  have d: "distinct (map (key_at key st) (objects h))" using assms by (simp add: hash_ok_def)
  show ?thesis using hash_map_Some [OF d] by (fastforce simp: ran_def image_iff)
qed

lemma hash_map_stored:
  assumes "hash_ok F key h st" "hash_map key h st k = Some (b, v)"
  shows "st b = Some \<lparr>hvalue = fun_hash F v, obj = v\<rparr>" "key v = k"
proof -
  have d: "distinct (map (key_at key st) (objects h))" using assms by (simp add: hash_ok_def)
  then have b: "b \<in> set (objects h)" "key_at key st b = k" "v = obj (the (st b))" using assms(2) hash_map_Some [OF d] by blast+
  then obtain e where "st b = Some e" "hvalue e = fun_hash F (obj e)" using hash_ok_stored [OF assms(1)] by (auto simp: stored_def)
  then show "st b = Some \<lparr>hvalue = fun_hash F v, obj = v\<rparr>" "key v = k" using b by (simp_all add: key_at_def)
qed

context hash_functions
begin

lemma step_put:
  assumes ok: "table_ok F key s" and pre: "hash_pre (Put a t) (table_map key s)"
  shows "fst (hash_step F (Put a t) s) = fst (map_step F key (Put a t) (table_map key s))
    \<and> table_map key (snd (hash_step F (Put a t) s)) = snd (map_step F key (Put a t) (table_map key s))
    \<and> table_ok F key (snd (hash_step F (Put a t) s))"
proof -
  obtain h st where s: "s = (h, st)" by (cases s)
  have ok': "hash_ok F key h st" using ok s by (simp add: table_ok_def)
  have d: "distinct (map (key_at key st) (objects h))" using ok' by (simp add: hash_ok_def)
  have "a \<notin> set (objects h)" "length (objects h) < 2 ^ 27"
    using pre s card_hash_map [OF d] ran_hash_map [OF ok'] by (simp_all add: hash_pre_def table_map_def)
  note put = hash_put_ok [OF ok' this, of t]
  show ?thesis
  proof (cases "hash_map key h st (key t)")
    case None
    with put obtain h' where "hash_put F a t h st = Some (a, h', st(a \<mapsto> \<lparr>hvalue = fun_hash F t, obj = fun_alloc F t\<rparr>))"
      "hash_ok F key h' (st(a \<mapsto> \<lparr>hvalue = fun_hash F t, obj = fun_alloc F t\<rparr>))"
      "hash_map key h' (st(a \<mapsto> \<lparr>hvalue = fun_hash F t, obj = fun_alloc F t\<rparr>)) = (hash_map key h st)(key t \<mapsto> (a, fun_alloc F t))"
      by auto
    then show ?thesis using None s by (simp add: hash_step_def map_step_def table_map_def table_ok_def read_obj_def)
  next
    case (Some x)
    then obtain b v where x: "hash_map key h st (key t) = Some (b, v)" by (cases x) auto
    then have "hash_put F a t h st = Some (b, h, st)" using put by simp
    then show ?thesis using x hash_map_stored [OF ok' x] s ok'
      by (simp add: hash_step_def map_step_def table_map_def table_ok_def read_obj_def)
  qed
qed

lemma step_get:
  assumes ok: "table_ok F key s"
  shows "fst (hash_step F (Get t) s) = fst (map_step F key (Get t) (table_map key s)) \<and> snd (hash_step F (Get t) s) = s"
proof -
  obtain h st where s: "s = (h, st)" by (cases s)
  have ok': "hash_ok F key h st" using ok s by (simp add: table_ok_def)
  show ?thesis using hash_fetch_ok [OF ok', of t] hash_map_stored [OF ok', of "key t"] s
    by (cases "hash_map key h st (key t)") (auto simp: hash_step_def map_step_def table_map_def hash_get_def read_obj_def)
qed

lemma step_take:
  assumes ok: "table_ok F key s" and c: "c = Erase t \<or> c = Remove t"
  shows "fst (hash_step F c s) = fst (map_step F key c (table_map key s))
    \<and> table_map key (snd (hash_step F c s)) = snd (map_step F key c (table_map key s)) \<and> table_ok F key (snd (hash_step F c s))"
proof -
  obtain h st where s: "s = (h, st)" by (cases s)
  have ok': "hash_ok F key h st" using ok s by (simp add: table_ok_def)
  have st: "read_obj st (map_option fst (hash_map key h st (key t))) = hash_map key h st (key t)"
    using hash_map_stored [OF ok', of "key t"] by (cases "hash_map key h st (key t)") (auto simp: read_obj_def)
  from c show ?thesis
  proof
    assume "c = Erase t"
    then show ?thesis using hash_take_ok [OF ok', of True t] s
      by (auto simp: hash_step_def map_step_def table_map_def table_ok_def hash_erase_def)
  next
    assume "c = Remove t"
    then show ?thesis using hash_take_ok [OF ok', of False t] s st
      by (auto simp: hash_step_def map_step_def table_map_def table_ok_def hash_remove_def split: option.splits)
  qed
qed

end

sublocale hash_functions \<subseteq> table: data_refinement "table_ok F key" "table_map key" hash_pre "hash_step F" "map_step F key"
proof
  fix s c
  assume ok: "table_ok F key s" and pre: "hash_pre c (table_map key s)"
  have "fst (hash_step F c s) = fst (map_step F key c (table_map key s))
    \<and> table_map key (snd (hash_step F c s)) = snd (map_step F key c (table_map key s)) \<and> table_ok F key (snd (hash_step F c s))"
  proof (cases c)
    case (Put a t)
    then show ?thesis using step_put [OF ok] pre by simp
  next
    case (Get t)
    then show ?thesis using step_get [OF ok, of t] ok by (simp add: map_step_def)
  qed (use step_take [OF ok] in blast)+
  then show "fst (hash_step F c s) = fst (map_step F key c (table_map key s))"
    "table_map key (snd (hash_step F c s)) = snd (map_step F key c (table_map key s))" "table_ok F key (snd (hash_step F c s))"
    by simp_all
qed

context hash_functions
begin

lemma pre_run_iff: "hash_pre_run F key cs m \<longleftrightarrow> table.pre_run cs m"
  by (induction cs arbitrary: m) simp_all

lemmas run_table = table.run_refines [folded pre_run_iff]

end

text \<open>
  C18. On a new table, for any client whose functions have keys, every sequence of \<open>hash_put\<close>, \<open>hash_get\<close>,
  \<open>hash_erase\<close> and \<open>hash_remove\<close> returns the objects a finite map from keys to objects returns, whatever the hash
  values are and however often the table is rehashed, while it holds fewer than 2^27 objects when one is put;
  \<open>nobjs\<close> is the number of keys.
\<close>

theorem hash_table_is_a_map:
  assumes "hash_functions F key" "sz \<le> 2 ^ 27" "hash_pre_run F key cs Map.empty"
  shows "\<exists>h. hash_init sz = Some h
    \<and> fst (run (hash_step F) cs (h, st)) = fst (run (map_step F key) cs Map.empty)
    \<and> table_map key (snd (run (hash_step F) cs (h, st))) = snd (run (map_step F key) cs Map.empty)
    \<and> nobjs (fst (snd (run (hash_step F) cs (h, st)))) = int (card (dom (snd (run (map_step F key) cs Map.empty))))"
proof -
  obtain h where h: "hash_init sz = Some h" "hash_ok F key h st" "objects h = []" using hash_init_ok [OF assms(2), of F key st] by blast
  then have t: "table_ok F key (h, st)" "table_map key (h, st) = Map.empty"
    by (simp_all add: table_ok_def table_map_def hash_map_def)
  then have r: "fst (run (hash_step F) cs (h, st)) = fst (run (map_step F key) cs Map.empty)"
      "table_map key (snd (run (hash_step F) cs (h, st))) = snd (run (map_step F key) cs Map.empty)"
      "table_ok F key (snd (run (hash_step F) cs (h, st)))"
    using hash_functions.run_table [OF assms(1) t(1), of cs] assms(3) by simp_all
  have "nobjs (fst s) = int (card (dom (table_map key s)))" if "table_ok F key s" for s
    using that card_hash_map [of key "snd s" "fst s"] by (simp add: table_ok_def table_map_def hash_ok_def)
  from this [OF r(3)] r h(1) show ?thesis by simp
qed

end
