(* ===== verification/IndexTable.thy ===== *)
theory IndexTable
  imports HashTableThms
begin

text \<open>
  Index tables (\<^verbatim>\<open>index.h\<close>, \<^verbatim>\<open>index.c\<close>): a hash table whose objects are numbered in the order in which
  they are put, with a table of pages from the number to the object. They are the base of the tables of
  atoms and modules. The table refines a list of keys: a number is the place of a key in it.
\<close>

subsection \<open>Data\<close>

text \<open>The objects of a client extend \<open>IndexSlot\<close>; the hash bucket is in \<open>HashBucket\<close>.\<close>

record IndexSlot =
  index :: int

text \<open>An entry of a page or of the table of pages that was not written yet is \<open>None\<close>.\<close>

record IndexTable =
  htable :: Hash
  t_size :: int
  limit :: int
  entries :: int
  seg_table :: "addr option list option list"

definition INDEX_PAGE_SHIFT :: nat where "INDEX_PAGE_SHIFT = 10"
definition INDEX_PAGE_SIZE :: nat where "INDEX_PAGE_SIZE = push_bit INDEX_PAGE_SHIFT 1"
definition INDEX_PAGE_MASK :: nat where "INDEX_PAGE_MASK = push_bit INDEX_PAGE_SHIFT 1 - 1"

subsection \<open>Operations\<close>

definition erts_index_init :: "nat \<Rightarrow> nat \<Rightarrow> IndexTable option" where
  "erts_index_init sz lim = do {
     let pages = (lim + INDEX_PAGE_SIZE - 1) div INDEX_PAGE_SIZE;
     h \<leftarrow> hash_init (3 * sz div 4);
     Some \<lparr>htable = h, t_size = 0, limit = int lim, entries = 0, seg_table = replicate pages None\<rparr>
   }"

definition erts_index_lookup :: "IndexTable \<Rightarrow> nat \<Rightarrow> addr option" where
  "erts_index_lookup t ix = do {
     page \<leftarrow> arr_get (seg_table t) (drop_bit INDEX_PAGE_SHIFT ix);
     page \<leftarrow> page;
     p \<leftarrow> arr_get page (ix AND INDEX_PAGE_MASK);
     p
   }"

text \<open>Storing a pointer into a page.\<close>

definition set_slot :: "nat \<Rightarrow> addr \<Rightarrow> IndexTable \<Rightarrow> IndexTable option" where
  "set_slot ix p t = do {
     page \<leftarrow> arr_get (seg_table t) (drop_bit INDEX_PAGE_SHIFT ix);
     page \<leftarrow> page;
     page \<leftarrow> arr_set page (ix AND INDEX_PAGE_MASK) (Some p);
     segs \<leftarrow> arr_set (seg_table t) (drop_bit INDEX_PAGE_SHIFT ix) (Some page);
     Some (t\<lparr>seg_table := segs\<rparr>)
   }"

text \<open>Allocating the page of the next entry.\<close>

definition add_page :: "nat \<Rightarrow> IndexTable \<Rightarrow> IndexTable option" where
  "add_page ix t = do {
     segs \<leftarrow> arr_set (seg_table t) (drop_bit INDEX_PAGE_SHIFT ix) (Some (replicate INDEX_PAGE_SIZE None));
     Some (t\<lparr>seg_table := segs, t_size := t_size t + int INDEX_PAGE_SIZE\<rparr>)
   }"

text \<open>The pointer is \<open>None\<close> when the emulator exits because the table is full.\<close>

definition index_put_entry ::
    "'a IndexSlot_scheme HashFunctions \<Rightarrow> addr \<Rightarrow> 'a IndexSlot_scheme \<Rightarrow> IndexTable \<Rightarrow> 'a IndexSlot_scheme objstore
      \<Rightarrow> (addr option \<times> IndexTable \<times> 'a IndexSlot_scheme objstore) option" where
  "index_put_entry F a tmpl t st = do {
     (p, h, st) \<leftarrow> hash_put F a tmpl (htable t) st;
     let t = t\<lparr>htable := h\<rparr>;
     e \<leftarrow> st p;
     if index (obj e) \<ge> 0 then Some (Some p, t, st)
     else do {
       let ix = entries t;
       if ix \<ge> t_size t \<and> ix \<ge> limit t then Some (None, t, st)
       else do {
         t \<leftarrow> (if ix \<ge> t_size t then add_page (nat ix) t else Some t);
         let st = st(p \<mapsto> e\<lparr>obj := (obj e)\<lparr>index := ix\<rparr>\<rparr>);
         t \<leftarrow> set_slot (nat ix) p t;
         Some (Some p, t\<lparr>entries := entries t + 1\<rparr>, st)
       }
     }
   }"

definition index_put ::
    "'a IndexSlot_scheme HashFunctions \<Rightarrow> addr \<Rightarrow> 'a IndexSlot_scheme \<Rightarrow> IndexTable \<Rightarrow> 'a IndexSlot_scheme objstore
      \<Rightarrow> (int option \<times> IndexTable \<times> 'a IndexSlot_scheme objstore) option" where
  "index_put F a tmpl t st = do {
     (p, t, st) \<leftarrow> index_put_entry F a tmpl t st;
     (case p of
        None \<Rightarrow> Some (None, t, st)
      | Some p \<Rightarrow> do { e \<leftarrow> st p; Some (Some (index (obj e)), t, st) })
   }"

definition index_get ::
    "'a IndexSlot_scheme HashFunctions \<Rightarrow> 'a IndexSlot_scheme \<Rightarrow> IndexTable \<Rightarrow> 'a IndexSlot_scheme objstore \<Rightarrow> int option" where
  "index_get F tmpl t st = do {
     p \<leftarrow> hash_get F tmpl (htable t) st;
     (case p of
        None \<Rightarrow> Some (- 1)
      | Some p \<Rightarrow> do { e \<leftarrow> st p; Some (index (obj e)) })
   }"

fun erase_loop ::
    "'a IndexSlot_scheme HashFunctions \<Rightarrow> nat \<Rightarrow> nat \<Rightarrow> IndexTable \<Rightarrow> 'a IndexSlot_scheme objstore
      \<Rightarrow> (IndexTable \<times> 'a IndexSlot_scheme objstore) option" where
  "erase_loop F ix 0 t st = Some (t, st)"
| "erase_loop F ix (Suc n) t st = do {
     p \<leftarrow> erts_index_lookup t ix;
     e \<leftarrow> st p;
     (_, h, st) \<leftarrow> hash_erase F (obj e) (htable t) st;
     erase_loop F (ix + 1) n (t\<lparr>htable := h\<rparr>) st
   }"

text \<open>\<open>None\<close> also when the assertion that \<open>from_ix\<close> is not past the end fails.\<close>

definition index_erase_latest_from ::
    "'a IndexSlot_scheme HashFunctions \<Rightarrow> nat \<Rightarrow> IndexTable \<Rightarrow> 'a IndexSlot_scheme objstore
      \<Rightarrow> (IndexTable \<times> 'a IndexSlot_scheme objstore) option" where
  "index_erase_latest_from F from_ix t st =
     (if int from_ix < entries t then do {
        (t, st) \<leftarrow> erase_loop F from_ix (nat (entries t) - from_ix) t st;
        Some (t\<lparr>entries := int from_ix\<rparr>, st)
      }
      else if int from_ix = entries t then Some (t, st)
      else None)"

definition erts_index_num_entries :: "IndexTable \<Rightarrow> int" where
  "erts_index_num_entries t = entries t"

end
