(* ===== verification/IndexTableThms.thy ===== *)
theory IndexTableThms
  imports IndexTable
begin

text \<open>
  An index table refines a list of keys: putting a key returns its place and adds it at the end when it
  is new, looking up a number gives the object of the key at that place, and erasing from a number on
  cuts the list.
\<close>

subsection \<open>Pages\<close>

lemma page_arith: "drop_bit INDEX_PAGE_SHIFT ix = ix div 1024" "ix AND INDEX_PAGE_MASK = ix mod 1024" "INDEX_PAGE_SIZE = 1024"
proof -
  show "drop_bit INDEX_PAGE_SHIFT ix = ix div 1024" by (simp add: INDEX_PAGE_SHIFT_def drop_bit_eq_div)
  have "INDEX_PAGE_MASK = mask 10" by (simp add: INDEX_PAGE_MASK_def INDEX_PAGE_SHIFT_def mask_eq_exp_minus_1)
  then have "ix AND INDEX_PAGE_MASK = take_bit 10 ix" by (simp only: take_bit_eq_mask)
  then show "ix AND INDEX_PAGE_MASK = ix mod 1024" by (simp add: take_bit_eq_mod)
  show "INDEX_PAGE_SIZE = 1024" by (simp add: INDEX_PAGE_SIZE_def INDEX_PAGE_SHIFT_def)
qed

definition pages_ok :: "IndexTable \<Rightarrow> bool" where
  "pages_ok t \<longleftrightarrow> 0 \<le> limit t \<and> length (seg_table t) = (nat (limit t) + 1023) div 1024
     \<and> (\<exists>k \<le> length (seg_table t). t_size t = int (1024 * k)
          \<and> (\<forall>j < k. \<exists>page. seg_table t ! j = Some page \<and> length page = 1024))"

lemma set_slot_ok:
  assumes "pages_ok t" "int ix < t_size t"
  shows "\<exists>segs. set_slot ix p t = Some (t\<lparr>seg_table := segs\<rparr>) \<and> pages_ok (t\<lparr>seg_table := segs\<rparr>)
    \<and> (\<forall>i. erts_index_lookup (t\<lparr>seg_table := segs\<rparr>) i = (if i = ix then Some p else erts_index_lookup t i))"
proof -
  obtain k where k: "k \<le> length (seg_table t)" "t_size t = int (1024 * k)"
      "\<forall>j < k. \<exists>page. seg_table t ! j = Some page \<and> length page = 1024"
    using assms(1) unfolding pages_ok_def by blast
  define j where "j = ix div 1024"
  have j: "j < k" "j < length (seg_table t)" using assms(2) k(1,2) by (simp_all add: j_def)
  obtain page where page: "seg_table t ! j = Some page" "length page = 1024" using k(3) j(1) by blast
  define page' where "page' = page[ix mod 1024 := Some p]"
  define segs where "segs = (seg_table t)[j := Some page']"
  have "set_slot ix p t = Some (t\<lparr>seg_table := segs\<rparr>)"
    using j page by (simp add: set_slot_def page_arith arr_get_def arr_set_def segs_def page'_def j_def)
  moreover have "\<exists>page. segs ! i = Some page \<and> length page = 1024" if "i < k" for i
    using k(1,3) j(2) page that by (cases "i = j") (auto simp: segs_def page'_def)
  then have "pages_ok (t\<lparr>seg_table := segs\<rparr>)"
    using assms(1) k(1,2) by (auto simp: pages_ok_def segs_def intro!: exI [of _ k])
  moreover have "erts_index_lookup (t\<lparr>seg_table := segs\<rparr>) i = (if i = ix then Some p else erts_index_lookup t i)" for i
  proof (cases "i div 1024 = j")
    case True
    have "i mod 1024 = ix mod 1024 \<longleftrightarrow> i = ix" using True unfolding j_def by (metis div_mult_mod_eq)
    then show ?thesis using True page j(2)
      by (auto simp: erts_index_lookup_def page_arith arr_get_def segs_def page'_def nth_list_update)
  next
    case False
    then show ?thesis by (auto simp: erts_index_lookup_def page_arith arr_get_def segs_def j_def)
  qed
  ultimately show ?thesis by blast
qed

lemma add_page_ok:
  assumes ok: "pages_ok t" and ix: "t_size t = int ix" "int ix < limit t"
  shows "\<exists>t'. add_page ix t = Some t' \<and> pages_ok t' \<and> t_size t' = t_size t + 1024 \<and> htable t' = htable t \<and> limit t' = limit t
    \<and> entries t' = entries t \<and> (\<forall>i < ix. erts_index_lookup t' i = erts_index_lookup t i)"
proof -
  obtain k where k: "k \<le> length (seg_table t)" "t_size t = int (1024 * k)"
      "\<forall>j < k. \<exists>page. seg_table t ! j = Some page \<and> length page = 1024"
    using ok unfolding pages_ok_def by blast
  have ixk: "ix = 1024 * k" using ix(1) k(2) by linarith
  have l: "k < length (seg_table t)" using ok ix(2) ixk by (auto simp: pages_ok_def)
  define segs where "segs = (seg_table t)[k := Some (replicate 1024 (None :: addr option))]"
  define t' where "t' = t\<lparr>seg_table := segs, t_size := t_size t + 1024\<rparr>"
  have "add_page ix t = Some t'" using l ixk by (simp add: add_page_def page_arith arr_set_def t'_def segs_def)
  moreover have "\<exists>page. segs ! i = Some page \<and> length page = 1024" if "i < Suc k" for i
    using k(3) l that by (cases "i = k") (auto simp: segs_def)
  then have "pages_ok t'" using ok k(2) l by (auto simp: pages_ok_def t'_def segs_def intro!: exI [of _ "Suc k"])
  moreover have "erts_index_lookup t' i = erts_index_lookup t i" if "i < ix" for i
  proof -
    have "i div 1024 \<noteq> k" using that ixk by (metis div_less_iff_less_mult mult.commute nat_less_le zero_less_numeral)
    then show ?thesis by (auto simp: erts_index_lookup_def page_arith arr_get_def t'_def segs_def)
  qed
  ultimately show ?thesis by (auto simp: t'_def)
qed

text \<open>The number of objects the pages hold: the limit, rounded up to whole pages.\<close>

definition capacity :: "nat \<Rightarrow> nat" where "capacity lim = 1024 * ((lim + 1023) div 1024)"

lemma room_iff:
  assumes "pages_ok t" "entries t = int n" "entries t \<le> t_size t"
  shows "entries t < limit t \<or> entries t < t_size t \<longleftrightarrow> n < capacity (nat (limit t))"
proof -
  obtain k where k: "k \<le> (nat (limit t) + 1023) div 1024" "t_size t = int (1024 * k)" "0 \<le> limit t"
    using assms(1) by (auto simp: pages_ok_def)
  show ?thesis
  proof (cases "entries t < t_size t")
    case True
    then show ?thesis using k assms by (auto simp: capacity_def)
  next
    case False
    then have "n = 1024 * k" using assms k by linarith
    then show ?thesis using k assms(2) by (auto simp: capacity_def)
  qed
qed

subsection \<open>The invariant\<close>

text \<open>The objects in the order of their numbers.\<close>

definition index_rel ::
    "'a IndexSlot_scheme HashFunctions \<Rightarrow> ('a IndexSlot_scheme \<Rightarrow> 'k) \<Rightarrow> IndexTable \<Rightarrow> 'a IndexSlot_scheme objstore \<Rightarrow> addr list \<Rightarrow> bool" where
  "index_rel F key t st ps \<longleftrightarrow>
     hash_ok F key (htable t) st \<and> pages_ok t \<and> entries t = int (length ps) \<and> entries t \<le> t_size t
     \<and> mset ps = mset (objects (htable t))
     \<and> (\<forall>i < length ps. erts_index_lookup t i = Some (ps ! i) \<and> index (obj (the (st (ps ! i)))) = int i)"

definition index_objs :: "IndexTable \<Rightarrow> addr list" where
  "index_objs t = map (\<lambda>i. the (erts_index_lookup t i)) [0..<nat (entries t)]"

lemma index_rel_objs: "index_rel F key t st ps \<Longrightarrow> index_objs t = ps"
  by (rule nth_equalityI) (auto simp: index_rel_def index_objs_def)

lemma hash_ok_distinct: "hash_ok F key h st \<Longrightarrow> distinct (objects h)"
  by (simp add: hash_ok_def distinct_map)

lemma index_rel_facts:
  assumes "index_rel F key t st ps"
  shows "set ps = set (objects (htable t))" "length ps = length (objects (htable t))" "distinct ps"
    "distinct (map (key_at key st) ps)"
proof -
  have m: "mset ps = mset (objects (htable t))" and ok: "hash_ok F key (htable t) st" using assms by (auto simp: index_rel_def)
  show "set ps = set (objects (htable t))" "length ps = length (objects (htable t))"
    using mset_eq_setD [OF m] mset_eq_length [OF m] by simp_all
  show "distinct ps" using mset_eq_imp_distinct_iff [OF m] hash_ok_distinct [OF ok] by simp
  have "mset (map (key_at key st) ps) = mset (map (key_at key st) (objects (htable t)))" using m by simp
  then show "distinct (map (key_at key st) ps)" using mset_eq_imp_distinct_iff ok unfolding hash_ok_def by blast
qed

lemma objects_iff:
  assumes "hash_ok F key h st"
  shows "b \<in> set (objects h) \<longleftrightarrow> (\<exists>k v. hash_map key h st k = Some (b, v))"
  using ran_hash_map [OF assms] by (force simp: ran_def image_iff)

text \<open>The place of a key, the number of keys if it is not there.\<close>

fun place :: "'k \<Rightarrow> 'k list \<Rightarrow> nat" where
  "place k [] = 0"
| "place k (x # xs) = (if x = k then 0 else Suc (place k xs))"

lemma place_nth: "distinct xs \<Longrightarrow> i < length xs \<Longrightarrow> place (xs ! i) xs = i"
proof (induction xs arbitrary: i)
  case (Cons x xs)
  then show ?case by (cases i) auto
qed simp

lemma place_less: "k \<in> set xs \<longleftrightarrow> place k xs < length xs"
  by (induction xs) auto

lemma nth_place: "k \<in> set xs \<Longrightarrow> xs ! place k xs = k"
  by (induction xs) auto

subsection \<open>The contract of the client, and the operations\<close>

text \<open>The key does not depend on the number, and a new object has none yet.\<close>

locale index_functions = hash_functions F key
  for F :: "'a IndexSlot_scheme HashFunctions" and key :: "'a IndexSlot_scheme \<Rightarrow> 'k" +
  assumes index_key: "key (x\<lparr>index := i\<rparr>) = key x"
    and alloc_index: "index (fun_alloc F x) = - 1"
begin

lemma set_index_ok:
  assumes ok: "hash_ok F key h st" and e: "st b = Some e"
  shows "hash_ok F key h (st(b \<mapsto> e\<lparr>obj := (obj e)\<lparr>index := i\<rparr>\<rparr>))"
    "key_at key (st(b \<mapsto> e\<lparr>obj := (obj e)\<lparr>index := i\<rparr>\<rparr>)) = key_at key st"
proof -
  let ?st = "st(b \<mapsto> e\<lparr>obj := (obj e)\<lparr>index := i\<rparr>\<rparr>)"
  show k: "key_at key ?st = key_at key st" using e by (auto simp: key_at_def index_key fun_eq_iff)
  have "bucket_placed F ?st h j x \<longleftrightarrow> bucket_placed F st h j x" for j x
    using e hash_key [OF index_key [where x = "obj e" and i = i]] by (auto simp: bucket_placed_def)
  then show "hash_ok F key h ?st" using ok k by (simp add: hash_ok_def)
qed

lemma found_in_list:
  assumes r: "index_rel F key t st ps"
  shows "hash_map key (htable t) st k = (if k \<in> set (map (key_at key st) ps)
     then Some (ps ! place k (map (key_at key st) ps), obj (the (st (ps ! place k (map (key_at key st) ps))))) else None)"
proof -
  note f = index_rel_facts [OF r]
  have d: "distinct (map (key_at key st) (objects (htable t)))" using r by (simp add: index_rel_def hash_ok_def)
  show ?thesis
  proof (cases "k \<in> set (map (key_at key st) ps)")
    case True
    define i where "i = place k (map (key_at key st) ps)"
    have i: "i < length ps" "key_at key st (ps ! i) = k"
      using True place_less [of k "map (key_at key st) ps"] nth_place [OF True] by (simp_all add: i_def)
    then show ?thesis using True f(1) nth_mem [OF i(1)] hash_map_Some [OF d] by (simp flip: i_def)
  next
    case False
    then have "hash_map key (htable t) st k = None" unfolding hash_map_None using f(1) by simp
    then show ?thesis using False by (simp only: if_False)
  qed
qed

lemma found_obj:
  assumes r: "index_rel F key t st ps" and k: "k \<in> set (map (key_at key st) ps)" and i: "i = place k (map (key_at key st) ps)"
  obtains e where "i < length ps" "st (ps ! i) = Some e" "index (obj e) = int i" "hash_map key (htable t) st k = Some (ps ! i, obj e)"
proof -
  have ok: "hash_ok F key (htable t) st" using r by (simp add: index_rel_def)
  have l: "i < length ps" using k place_less [of k "map (key_at key st) ps"] i by simp
  have m: "hash_map key (htable t) st k = Some (ps ! i, obj (the (st (ps ! i))))" using found_in_list [OF r] k i by simp
  obtain e where e: "st (ps ! i) = Some e" using hash_map_stored(1) [OF ok m] by blast
  have "index (obj (the (st (ps ! i)))) = int i" using r l unfolding index_rel_def by blast
  then show ?thesis using that [OF l e] m e by (simp only: option.sel)
qed

lemma index_get_ok:
  assumes r: "index_rel F key t st ps"
  shows "index_get F x t st =
    Some (if key x \<in> set (map (key_at key st) ps) then int (place (key x) (map (key_at key st) ps)) else - 1)"
proof -
  have ok: "hash_ok F key (htable t) st" using r by (simp add: index_rel_def)
  note fetch = hash_fetch_ok [OF ok, of x, folded hash_get_def]
  show ?thesis
  proof (cases "key x \<in> set (map (key_at key st) ps)")
    case True
    define i where "i = place (key x) (map (key_at key st) ps)"
    obtain e where "st (ps ! i) = Some e" "index (obj e) = int i" "hash_map key (htable t) st (key x) = Some (ps ! i, obj e)"
      using found_obj [OF r True i_def] by metis
    then show ?thesis using fetch True by (simp add: index_get_def flip: i_def)
  next
    case False
    then show ?thesis using fetch found_in_list [OF r, of "key x"] by (auto simp: index_get_def)
  qed
qed

text \<open>Putting a key that is there changes nothing.\<close>

lemma index_put_old:
  assumes r: "index_rel F key t st ps" and a: "a \<notin> set ps" "length ps < 2 ^ 27" and k: "key x \<in> set (map (key_at key st) ps)"
  shows "index_put_entry F a x t st = Some (Some (ps ! place (key x) (map (key_at key st) ps)), t, st)"
proof -
  have ok: "hash_ok F key (htable t) st" using r by (simp add: index_rel_def)
  define i where "i = place (key x) (map (key_at key st) ps)"
  obtain e where e: "st (ps ! i) = Some e" "index (obj e) = int i" "hash_map key (htable t) st (key x) = Some (ps ! i, obj e)"
    using found_obj [OF r k i_def] by metis
  have "hash_put F a x (htable t) st = Some (ps ! i, htable t, st)"
    using hash_put_ok [OF ok, of a x] a index_rel_facts(1,2) [OF r] e(3) by simp
  then show ?thesis using e by (simp add: index_put_entry_def flip: i_def)
qed

text \<open>A new key gets the next number, unless the table is full.\<close>

lemma index_put_new:
  assumes r: "index_rel F key t st ps" and a: "a \<notin> set ps" "length ps < 2 ^ 27" and k: "key x \<notin> set (map (key_at key st) ps)"
    and lim: "entries t < limit t \<or> entries t < t_size t"
  shows "\<exists>t' st'. index_put_entry F a x t st = Some (Some a, t', st') \<and> index_rel F key t' st' (ps @ [a])
    \<and> map (key_at key st') (ps @ [a]) = map (key_at key st) ps @ [key x] \<and> limit t' = limit t
    \<and> (\<forall>b. b \<noteq> a \<longrightarrow> st' b = st b) \<and> st' a = Some \<lparr>hvalue = fun_hash F x, obj = (fun_alloc F x)\<lparr>index := entries t\<rparr>\<rparr>"
proof -
  have ok: "hash_ok F key (htable t) st" and pg: "pages_ok t" and n: "entries t = int (length ps)" "entries t \<le> t_size t"
    using r by (auto simp: index_rel_def)
  note f = index_rel_facts [OF r]
  define e where "e = \<lparr>hvalue = fun_hash F x, obj = fun_alloc F x\<rparr>"
  have none: "hash_map key (htable t) st (key x) = None" using found_in_list [OF r] k by simp
  obtain h where h: "hash_put F a x (htable t) st = Some (a, h, st(a \<mapsto> e))" "hash_ok F key h (st(a \<mapsto> e))"
      "hash_map key h (st(a \<mapsto> e)) = (hash_map key (htable t) st)(key x \<mapsto> (a, fun_alloc F x))"
    using hash_put_ok [OF ok, of a x] a f(1,2) none unfolding e_def by auto
  define st' where "st' = st(a \<mapsto> e\<lparr>obj := (obj e)\<lparr>index := entries t\<rparr>\<rparr>)"
  have st': "st' = (st(a \<mapsto> e))(a \<mapsto> e\<lparr>obj := (obj e)\<lparr>index := entries t\<rparr>\<rparr>)" by (simp add: st'_def)
  have ok': "hash_ok F key h st'" "key_at key st' = key_at key (st(a \<mapsto> e))"
    unfolding st' by (rule set_index_ok [OF h(2)]; simp)+
  define t1 where "t1 = t\<lparr>htable := h\<rparr>"
  have pg1: "pages_ok t1" "\<And>i. erts_index_lookup t1 i = erts_index_lookup t i"
    using pg by (auto simp: t1_def pages_ok_def erts_index_lookup_def)
  obtain t2 where t2: "(if entries t \<ge> t_size t then add_page (length ps) t1 else Some t1) = Some t2" "pages_ok t2"
      "int (length ps) < t_size t2" "htable t2 = h" "limit t2 = limit t" "entries t2 = entries t"
      "\<forall>i < length ps. erts_index_lookup t2 i = erts_index_lookup t i"
  proof (cases "entries t \<ge> t_size t")
    case True
    then show ?thesis using add_page_ok [OF pg1(1), of "length ps"] that n lim pg1(2) by (auto simp: t1_def)
  next
    case False
    then show ?thesis using that [of t1] pg1 n by (simp add: t1_def)
  qed
  obtain segs where segs: "set_slot (length ps) a t2 = Some (t2\<lparr>seg_table := segs\<rparr>)" "pages_ok (t2\<lparr>seg_table := segs\<rparr>)"
      "\<forall>i. erts_index_lookup (t2\<lparr>seg_table := segs\<rparr>) i = (if i = length ps then Some a else erts_index_lookup t2 i)"
    using set_slot_ok [OF t2(2,3), of a] by blast
  define t' where "t' = t2\<lparr>seg_table := segs, entries := entries t + 1\<rparr>"
  have "index (fun_alloc F x) = - 1" by (rule alloc_index)
  then have put: "index_put_entry F a x t st = Some (Some a, t', st')"
    using h(1) t2(1,6) segs(1) n lim unfolding st'_def t'_def e_def
    by (auto simp: index_put_entry_def Let_def t1_def nat_int split: if_splits)
  have "set (objects h) = insert a (set ps)"
  proof -
    have "b \<in> set (objects h) \<longleftrightarrow> b = a \<or> b \<in> set (objects (htable t))" for b
      unfolding objects_iff [OF h(2), of b] objects_iff [OF ok, of b] h(3) fun_upd_apply
      using none by (metis option.distinct(1) option.inject prod.inject)
    then show ?thesis using f(1) by auto
  qed
  then have "mset (ps @ [a]) = mset (objects h)"
    using hash_ok_distinct [OF h(2)] f(3) a(1) by (subst set_eq_iff_mset_eq_distinct [symmetric]) auto
  moreover have ka: "key_at key st' a = key x" using ok'(2) by (simp add: key_at_def e_def alloc_key)
  moreover have keep: "st' b = st b" if "b \<noteq> a" for b using that by (simp add: st'_def)
  moreover have "erts_index_lookup t' i = (if i = length ps then Some a else erts_index_lookup t2 i)" for i
    using segs(3) by (simp add: t'_def erts_index_lookup_def)
  moreover have "pages_ok t' = pages_ok (t2\<lparr>seg_table := segs\<rparr>)" unfolding t'_def pages_ok_def by simp
  moreover have "ps ! i \<noteq> a" if "i < length ps" for i using a(1) that by auto
  ultimately have rel: "index_rel F key t' st' (ps @ [a])"
    using ok'(1) t2 n r segs(2) by (auto simp: index_rel_def t'_def nth_append st'_def)
  have "map (key_at key st') (ps @ [a]) = map (key_at key st) ps @ [key x]"
    using keep a(1) ka by (auto simp: key_at_def) metis
  moreover have "st' a = Some \<lparr>hvalue = fun_hash F x, obj = (fun_alloc F x)\<lparr>index := entries t\<rparr>\<rparr>" by (simp add: st'_def e_def)
  moreover have "limit t' = limit t" using t2(5) by (simp add: t'_def)
  ultimately show ?thesis using put rel keep by blast
qed

text \<open>The table is full when its pages are: the emulator exits.\<close>

lemma index_put_full:
  assumes r: "index_rel F key t st ps" and a: "a \<notin> set ps" "length ps < 2 ^ 27" and k: "key x \<notin> set (map (key_at key st) ps)"
    and full: "length ps = capacity (nat (limit t))"
  shows "\<exists>t' st'. index_put_entry F a x t st = Some (None, t', st')"
proof -
  have ok: "hash_ok F key (htable t) st" and n: "entries t = int (length ps)" "entries t \<le> t_size t" using r by (auto simp: index_rel_def)
  have none: "hash_map key (htable t) st (key x) = None" using found_in_list [OF r] k by simp
  obtain h where h: "hash_put F a x (htable t) st = Some (a, h, st(a \<mapsto> \<lparr>hvalue = fun_hash F x, obj = fun_alloc F x\<rparr>))"
    using hash_put_ok [OF ok, of a x] a index_rel_facts(1,2) [OF r] none by auto
  have "limit t \<le> entries t" "t_size t = entries t" using r n full by (auto simp: index_rel_def pages_ok_def capacity_def)
  then show ?thesis using h alloc_index [of x] by (simp add: index_put_entry_def Let_def)
qed

text \<open>Erasing an object takes it out of the table.\<close>

lemma objects_erased:
  assumes ok: "hash_ok F key h st" "hash_ok F key h' st'" and m: "hash_map key h' st' = (hash_map key h st)(k := None)"
    and b: "hash_map key h st k = Some (b, v)"
  shows "mset (objects h) = add_mset b (mset (objects h'))"
proof -
  have d: "distinct (map (key_at key st) (objects h))" using ok(1) by (simp add: hash_ok_def)
  have "c \<in> set (objects h') \<longleftrightarrow> c \<in> set (objects h) \<and> c \<noteq> b" for c
    unfolding objects_iff [OF ok(2)] objects_iff [OF ok(1)] m fun_upd_apply
    using b hash_map_Some [OF d] by (metis option.distinct(1) option.inject prod.inject)
  moreover have "b \<in> set (objects h)" using b objects_iff [OF ok(1)] by blast
  ultimately have "set (objects h) = set (b # objects h')" "b \<notin> set (objects h')" by auto
  then show ?thesis using hash_ok_distinct [OF ok(1)] hash_ok_distinct [OF ok(2)]
    by (metis distinct.simps(2) mset.simps(2) set_eq_iff_mset_eq_distinct)
qed

lemma erase_loop_ok:
  assumes "hash_ok F key (htable t) st" "mset (objects (htable t)) = mset (qs @ rs)"
    "\<forall>i < length rs. erts_index_lookup t (ix + i) = Some (rs ! i)"
  shows "\<exists>h st'. erase_loop F ix (length rs) t st = Some (t\<lparr>htable := h\<rparr>, st') \<and> hash_ok F key h st'
    \<and> mset (objects h) = mset qs \<and> (\<forall>b. b \<notin> set rs \<longrightarrow> st' b = st b)"
  using assms
proof (induction rs arbitrary: ix t st)
  case Nil
  then show ?case by (auto intro!: exI [of _ "htable t"])
next
  case (Cons r rs)
  have d: "distinct (map (key_at key st) (objects (htable t)))" using Cons.prems(1) by (simp add: hash_ok_def)
  have r: "r \<in> set (objects (htable t))" using mset_eq_setD [OF Cons.prems(2)] by simp
  obtain e where e: "st r = Some e" using hash_ok_stored [OF Cons.prems(1)] r by (auto simp: stored_def)
  have m: "hash_map key (htable t) st (key (obj e)) = Some (r, obj e)" using hash_map_Some [OF d] r e by (simp add: key_at_def)
  obtain h st' where h: "hash_take True F (obj e) (htable t) st = Some (Some r, h, st')" "hash_ok F key h st'"
      "hash_map key h st' = (hash_map key (htable t) st)(key (obj e) := None)" "st' = st(r := None)"
    using hash_take_ok [OF Cons.prems(1), of True "obj e"] m by auto
  have o: "mset (objects h) = mset (qs @ rs)" using objects_erased [OF Cons.prems(1) h(2,3) m] Cons.prems(2) by simp
  have l: "\<forall>i < length rs. erts_index_lookup (t\<lparr>htable := h\<rparr>) (ix + 1 + i) = Some (rs ! i)"
    using Cons.prems(3) by (force simp: erts_index_lookup_def)
  obtain h2 st2 where "erase_loop F (ix + 1) (length rs) (t\<lparr>htable := h\<rparr>) st' = Some (t\<lparr>htable := h2\<rparr>, st2)" "hash_ok F key h2 st2"
      "mset (objects h2) = mset qs" "\<forall>b. b \<notin> set rs \<longrightarrow> st2 b = st' b"
    using Cons.IH [of "t\<lparr>htable := h\<rparr>" st' "ix + 1"] h(2) o l by auto
  moreover have "erts_index_lookup t ix = Some r" using Cons.prems(3) by force
  ultimately show ?case using e h(1,4) by (auto simp: hash_erase_def)
qed

lemma index_erase_ok:
  assumes r: "index_rel F key t st ps" and n: "n \<le> length ps"
  shows "\<exists>t' st'. index_erase_latest_from F n t st = Some (t', st') \<and> index_rel F key t' st' (take n ps) \<and> limit t' = limit t
    \<and> (\<forall>b. b \<notin> set (drop n ps) \<longrightarrow> st' b = st b)"
proof -
  have ok: "hash_ok F key (htable t) st" and e: "entries t = int (length ps)" and m: "mset (objects (htable t)) = mset (take n ps @ drop n ps)"
    and l: "\<forall>i < length (drop n ps). erts_index_lookup t (n + i) = Some (drop n ps ! i)" using r n by (auto simp: index_rel_def)
  show ?thesis
  proof (cases "n = length ps")
    case True
    then show ?thesis using r e by (auto simp: index_erase_latest_from_def)
  next
    case False
    obtain h st' where h: "erase_loop F n (length ps - n) t st = Some (t\<lparr>htable := h\<rparr>, st')" "hash_ok F key h st'"
        "mset (objects h) = mset (take n ps)" "\<forall>b. b \<notin> set (drop n ps) \<longrightarrow> st' b = st b"
      using erase_loop_ok [OF ok m l] by auto
    define t' where "t' = t\<lparr>htable := h, entries := int n\<rparr>"
    have "distinct (take n ps @ drop n ps)" using index_rel_facts(3) [OF r] by (simp only: append_take_drop_id)
    then have "st' (ps ! i) = st (ps ! i)" if "i < n" for i using h(4) that n
      by (metis IntI distinct_append empty_iff in_set_conv_nth length_take min.absorb2 nth_take)
    moreover have "pages_ok t' \<longleftrightarrow> pages_ok t" "\<And>i. erts_index_lookup t' i = erts_index_lookup t i"
      unfolding t'_def pages_ok_def erts_index_lookup_def by simp_all
    ultimately have "index_rel F key t' st' (take n ps)" using r h(2,3) n e by (auto simp: index_rel_def t'_def)
    moreover have "index_erase_latest_from F n t st = Some (t', st')"
      using h(1) e n False by (simp add: index_erase_latest_from_def t'_def)
    ultimately show ?thesis using h(4) by (auto simp: t'_def)
  qed
qed

end

subsection \<open>A new table\<close>

lemma erts_index_init_ok:
  assumes "sz \<le> 2 ^ 27"
  shows "\<exists>t. erts_index_init sz lim = Some t \<and> index_rel F key t st [] \<and> limit t = int lim"
proof -
  have "3 * sz div 4 \<le> 2 ^ 27" using assms by simp
  from hash_init_ok [OF this, of F key st] obtain h where h: "hash_init (3 * sz div 4) = Some h" "hash_ok F key h st" "objects h = []" by blast
  have "pages_ok \<lparr>htable = h, t_size = 0, limit = int lim, entries = 0, seg_table = replicate ((lim + 1024 - 1) div 1024) None\<rparr>"
    by (auto simp: pages_ok_def intro!: exI [of _ 0])
  then show ?thesis using h by (auto simp: erts_index_init_def index_rel_def page_arith)
qed

subsection \<open>Refinement of a list\<close>

datatype 'o index_cmd = IPut addr 'o | IGet 'o | ILookup nat | IErase nat

text \<open>A command returns a number, or the object a number has with its address, or nothing.\<close>

datatype 'o index_out = Number int | Entry addr 'o | Done

definition index_step ::
    "'a IndexSlot_scheme HashFunctions \<Rightarrow> 'a IndexSlot_scheme index_cmd \<Rightarrow> IndexTable \<times> 'a IndexSlot_scheme objstore
      \<Rightarrow> 'a IndexSlot_scheme index_out option \<times> (IndexTable \<times> 'a IndexSlot_scheme objstore)" where
  "index_step F c s =
     (case (case c of
        IPut a x \<Rightarrow> do { (i, t, st) \<leftarrow> index_put F a x (fst s) (snd s); i \<leftarrow> i; Some (Number i, (t, st)) }
      | IGet x \<Rightarrow> do { i \<leftarrow> index_get F x (fst s) (snd s); Some (Number i, s) }
      | ILookup i \<Rightarrow> do { p \<leftarrow> erts_index_lookup (fst s) i; e \<leftarrow> snd s p; Some (Entry p (obj e), s) }
      | IErase n \<Rightarrow> do { (t, st) \<leftarrow> index_erase_latest_from F n (fst s) (snd s); Some (Done, (t, st)) })
     of None \<Rightarrow> (None, s) | Some (out, s') \<Rightarrow> (Some out, s'))"

definition list_step ::
    "'a IndexSlot_scheme HashFunctions \<Rightarrow> ('a IndexSlot_scheme \<Rightarrow> 'k) \<Rightarrow> 'a IndexSlot_scheme index_cmd
      \<Rightarrow> (addr \<times> 'a IndexSlot_scheme) list \<Rightarrow> 'a IndexSlot_scheme index_out option \<times> (addr \<times> 'a IndexSlot_scheme) list" where
  "list_step F key c l =
     (let keys = map (key \<circ> snd) l in
      case c of
        IPut a x \<Rightarrow>
          (if key x \<in> set keys then (Some (Number (int (place (key x) keys))), l)
           else (Some (Number (int (length l))), l @ [(a, (fun_alloc F x)\<lparr>index := int (length l)\<rparr>)]))
      | IGet x \<Rightarrow> (Some (Number (if key x \<in> set keys then int (place (key x) keys) else - 1)), l)
      | ILookup i \<Rightarrow> (Some (Entry (fst (l ! i)) (snd (l ! i))), l)
      | IErase n \<Rightarrow> (Some Done, take n l))"

text \<open>
  What is asked of a command: a fresh address, room on the pages, and numbers that were given out.
\<close>

definition index_pre :: "nat \<Rightarrow> 'o index_cmd \<Rightarrow> (addr \<times> 'o) list \<Rightarrow> bool" where
  "index_pre lim c l =
     (case c of
        IPut a x \<Rightarrow> a \<notin> fst ` set l \<and> length l < 2 ^ 27 \<and> length l < capacity lim
      | IGet x \<Rightarrow> True | ILookup i \<Rightarrow> i < length l | IErase n \<Rightarrow> n \<le> length l)"

fun index_pre_run ::
    "nat \<Rightarrow> 'a IndexSlot_scheme HashFunctions \<Rightarrow> ('a IndexSlot_scheme \<Rightarrow> 'k) \<Rightarrow> 'a IndexSlot_scheme index_cmd list
      \<Rightarrow> (addr \<times> 'a IndexSlot_scheme) list \<Rightarrow> bool" where
  "index_pre_run lim F key [] l = True"
| "index_pre_run lim F key (c # cs) l \<longleftrightarrow> index_pre lim c l \<and> index_pre_run lim F key cs (snd (list_step F key c l))"

definition index_ok ::
    "nat \<Rightarrow> 'a IndexSlot_scheme HashFunctions \<Rightarrow> ('a IndexSlot_scheme \<Rightarrow> 'k) \<Rightarrow> IndexTable \<times> 'a IndexSlot_scheme objstore \<Rightarrow> bool" where
  "index_ok lim F key s \<longleftrightarrow> limit (fst s) = int lim \<and> index_rel F key (fst s) (snd s) (index_objs (fst s))"

definition index_list :: "IndexTable \<times> 'a IndexSlot_scheme objstore \<Rightarrow> (addr \<times> 'a IndexSlot_scheme) list" where
  "index_list s = map (\<lambda>p. (p, obj (the (snd s p)))) (index_objs (fst s))"

lemma index_list_keys: "map (key \<circ> snd) (index_list (t, st)) = map (key_at key st) (index_objs t)"
  by (simp add: index_list_def key_at_def)

context index_functions
begin

lemma index_put_room:
  assumes r: "index_rel F key t st ps" and a: "a \<notin> set ps" "length ps < 2 ^ 27" and lim: "length ps < capacity (nat (limit t))"
  shows "\<exists>i t' st' ps'. index_put F a x t st = Some (Some (int i), t', st') \<and> index_rel F key t' st' ps' \<and> limit t' = limit t
    \<and> (if key x \<in> set (map (key_at key st) ps) then i = place (key x) (map (key_at key st) ps) \<and> ps' = ps \<and> st' = st
       else i = length ps \<and> ps' = ps @ [a]
         \<and> st' a = Some \<lparr>hvalue = fun_hash F x, obj = (fun_alloc F x)\<lparr>index := int (length ps)\<rparr>\<rparr> \<and> (\<forall>b. b \<noteq> a \<longrightarrow> st' b = st b))"
proof (cases "key x \<in> set (map (key_at key st) ps)")
  case True
  define i where "i = place (key x) (map (key_at key st) ps)"
  obtain e where "st (ps ! i) = Some e" "index (obj e) = int i" using found_obj [OF r True i_def] by metis
  then have "index_put F a x t st = Some (Some (int i), t, st)"
    using index_put_old [OF r a True] by (simp add: index_put_def flip: i_def)
  then show ?thesis using True r by (auto simp: i_def)
next
  case False
  have n: "pages_ok t" "entries t = int (length ps)" "entries t \<le> t_size t" using r by (auto simp: index_rel_def)
  from room_iff [OF this] lim have "entries t < limit t \<or> entries t < t_size t" by simp
  from index_put_new [OF r a False this] obtain t' st' where p: "index_put_entry F a x t st = Some (Some a, t', st')"
      "index_rel F key t' st' (ps @ [a])" "limit t' = limit t" "\<forall>b. b \<noteq> a \<longrightarrow> st' b = st b"
      "st' a = Some \<lparr>hvalue = fun_hash F x, obj = (fun_alloc F x)\<lparr>index := int (length ps)\<rparr>\<rparr>" unfolding n(2) by blast
  then have "index_put F a x t st = Some (Some (int (length ps)), t', st')" by (simp add: index_put_def)
  then show ?thesis using p False by (intro exI [of _ "length ps"] exI [of _ t'] exI [of _ st'] exI [of _ "ps @ [a]"]) auto
qed

lemma istep_put:
  assumes r: "index_rel F key t st ps" and l: "limit t = int lim" and ps: "ps = index_objs t"
    and pre: "index_pre lim (IPut a x) (index_list (t, st))"
  shows "fst (index_step F (IPut a x) (t, st)) = fst (list_step F key (IPut a x) (index_list (t, st)))
    \<and> index_list (snd (index_step F (IPut a x) (t, st))) = snd (list_step F key (IPut a x) (index_list (t, st)))
    \<and> index_ok lim F key (snd (index_step F (IPut a x) (t, st)))"
proof -
  have a: "a \<notin> set ps" "length ps < 2 ^ 27" "length ps < capacity (nat (limit t))"
    using pre l by (auto simp: index_pre_def index_list_def ps image_iff)
  from index_put_room [OF r this, of x] obtain i t' st' ps' where
    p: "index_put F a x t st = Some (Some (int i), t', st')" "index_rel F key t' st' ps'" "limit t' = limit t"
    and c: "if key x \<in> set (map (key_at key st) ps) then i = place (key x) (map (key_at key st) ps) \<and> ps' = ps \<and> st' = st
       else i = length ps \<and> ps' = ps @ [a]
         \<and> st' a = Some \<lparr>hvalue = fun_hash F x, obj = (fun_alloc F x)\<lparr>index := int (length ps)\<rparr>\<rparr> \<and> (\<forall>b. b \<noteq> a \<longrightarrow> st' b = st b)" by blast
  have s: "index_step F (IPut a x) (t, st) = (Some (Number (int i)), (t', st'))" using p(1) by (simp add: index_step_def)
  have ok: "index_ok lim F key (t', st')" using p(2,3) l index_rel_objs [OF p(2)] by (simp add: index_ok_def)
  have il: "index_list (t', st') = map (\<lambda>p. (p, obj (the (st' p)))) ps'" using index_rel_objs [OF p(2)] by (simp add: index_list_def)
  have keys: "map (key \<circ> snd) (index_list (t, st)) = map (key_at key st) ps" by (simp add: index_list_keys ps)
  have len: "length (index_list (t, st)) = length ps" by (simp add: index_list_def ps)
  show ?thesis
  proof (cases "key x \<in> set (map (key_at key st) ps)")
    case True
    then have e: "i = place (key x) (map (key_at key st) ps)" "ps' = ps" "st' = st" using c by presburger+
    have "list_step F key (IPut a x) (index_list (t, st)) = (Some (Number (int i)), index_list (t, st))"
      using True by (simp only: list_step_def keys Let_def index_cmd.case if_True e(1))
    moreover have "index_list (t', st') = index_list (t, st)" using il e(2,3) by (simp add: index_list_def ps)
    ultimately show ?thesis using s ok by simp
  next
    case False
    then have e: "i = length ps" "ps' = ps @ [a]" "\<forall>b. b \<noteq> a \<longrightarrow> st' b = st b"
      "st' a = Some \<lparr>hvalue = fun_hash F x, obj = (fun_alloc F x)\<lparr>index := int (length ps)\<rparr>\<rparr>" using c by presburger+
    have "list_step F key (IPut a x) (index_list (t, st))
      = (Some (Number (int i)), index_list (t, st) @ [(a, (fun_alloc F x)\<lparr>index := int (length ps)\<rparr>)])"
      using False by (simp only: list_step_def keys Let_def index_cmd.case if_False e(1) len)
    moreover have "map (\<lambda>p. (p, obj (the (st' p)))) ps = map (\<lambda>p. (p, obj (the (st p)))) ps"
      using e(3) a(1) by (intro map_cong) auto
    then have "index_list (t', st') = index_list (t, st) @ [(a, (fun_alloc F x)\<lparr>index := int (length ps)\<rparr>)]"
      using il e(2,4) by (simp add: index_list_def ps)
    ultimately show ?thesis using s ok by simp
  qed
qed

lemma istep_get:
  assumes r: "index_rel F key t st ps" and ps: "ps = index_objs t"
  shows "fst (index_step F (IGet x) (t, st)) = fst (list_step F key (IGet x) (index_list (t, st)))
    \<and> snd (index_step F (IGet x) (t, st)) = (t, st)"
  using index_get_ok [OF r, of x] by (simp only: list_step_def index_step_def index_list_keys Let_def ps) simp

lemma istep_lookup:
  assumes r: "index_rel F key t st ps" and ps: "ps = index_objs t" and i: "i < length ps"
  shows "index_step F (ILookup i) (t, st) = (Some (Entry (fst (index_list (t, st) ! i)) (snd (index_list (t, st) ! i))), (t, st))"
proof -
  have ok: "hash_ok F key (htable t) st" and l: "erts_index_lookup t i = Some (ps ! i)" using r i by (auto simp: index_rel_def)
  have "ps ! i \<in> set (objects (htable t))" using index_rel_facts(1) [OF r] nth_mem [OF i] by simp
  then obtain e where "st (ps ! i) = Some e" using hash_ok_stored [OF ok] by (auto simp: stored_def)
  then show ?thesis using l i by (simp add: index_step_def index_list_def ps)
qed

lemma istep_erase:
  assumes r: "index_rel F key t st ps" and l: "limit t = int lim" and ps: "ps = index_objs t" and n: "n \<le> length ps"
  shows "\<exists>t' st'. index_step F (IErase n) (t, st) = (Some Done, (t', st')) \<and> index_list (t', st') = take n (index_list (t, st))
    \<and> index_ok lim F key (t', st')"
proof -
  obtain t' st' where e: "index_erase_latest_from F n t st = Some (t', st')" "index_rel F key t' st' (take n ps)" "limit t' = limit t"
      "\<forall>b. b \<notin> set (drop n ps) \<longrightarrow> st' b = st b" using index_erase_ok [OF r n] by blast
  have "set (take n ps) \<inter> set (drop n ps) = {}" using set_take_disj_set_drop_if_distinct [OF index_rel_facts(3) [OF r], of n n] by simp
  then have "\<forall>b \<in> set (take n ps). st' b = st b" using e(4) by blast
  then have "map (\<lambda>p. (p, obj (the (st' p)))) (take n ps) = map (\<lambda>p. (p, obj (the (st p)))) (take n ps)"
    by (intro map_cong) auto
  then have "index_list (t', st') = take n (index_list (t, st))"
    using index_rel_objs [OF e(2)] by (simp add: index_list_def ps take_map)
  moreover have "index_ok lim F key (t', st')" using e(2,3) l index_rel_objs [OF e(2)] by (simp add: index_ok_def)
  ultimately show ?thesis using e(1) by (auto simp: index_step_def)
qed

end

sublocale index_functions \<subseteq> numbered: data_refinement "index_ok lim F key" index_list "index_pre lim" "index_step F" "list_step F key"
proof
  fix s c
  assume ok: "index_ok lim F key s" and pre: "index_pre lim c (index_list s)"
  obtain t st where s: "s = (t, st)" by (cases s)
  have r: "index_rel F key t st (index_objs t)" and l: "limit t = int lim" using ok s by (auto simp: index_ok_def)
  have "fst (index_step F c s) = fst (list_step F key c (index_list s))
    \<and> index_list (snd (index_step F c s)) = snd (list_step F key c (index_list s)) \<and> index_ok lim F key (snd (index_step F c s))"
  proof (cases c)
    case (IPut a x)
    then show ?thesis using istep_put [OF r l refl] pre s by simp
  next
    case (IGet x)
    then show ?thesis using istep_get [OF r refl, of x] ok s by (simp add: list_step_def Let_def)
  next
    case (ILookup i)
    have "i < length (index_objs t)" using pre ILookup s by (simp add: index_pre_def index_list_def)
    from istep_lookup [OF r refl this] show ?thesis using ILookup ok s by (simp add: list_step_def Let_def)
  next
    case (IErase n)
    have "n \<le> length (index_objs t)" using pre IErase s by (simp add: index_pre_def index_list_def)
    from istep_erase [OF r l refl this] show ?thesis using IErase s by (auto simp: list_step_def Let_def)
  qed
  then show "fst (index_step F c s) = fst (list_step F key c (index_list s))"
    "index_list (snd (index_step F c s)) = snd (list_step F key c (index_list s))" "index_ok lim F key (snd (index_step F c s))"
    by simp_all
qed

context index_functions
begin

lemma index_pre_run_iff: "index_pre_run lim F key cs l \<longleftrightarrow> numbered.pre_run lim cs l"
  by (induction cs arbitrary: l) simp_all

lemmas run_index = numbered.run_refines [folded index_pre_run_iff]

end

text \<open>
  C21. On a new table, for any client whose functions have keys, every sequence of \<open>index_put\<close>, \<open>index_get\<close>,
  \<open>erts_index_lookup\<close> and \<open>index_erase_latest_from\<close> answers as a list of objects does: a new key gets the next
  number, a key that is there keeps its number, a number leads to the object that got it, and erasing
  from a number on cuts the list; the pages and the hash table always hold the same objects. The table
  takes as many objects as its pages, the limit rounded up to a multiple of 1024, and less than 2^27.
\<close>

theorem index_table_is_a_list:
  assumes "index_functions F key" "sz \<le> 2 ^ 27" "index_pre_run lim F key cs []"
  shows "\<exists>t. erts_index_init sz lim = Some t
    \<and> fst (run (index_step F) cs (t, st)) = fst (run (list_step F key) cs [])
    \<and> index_list (snd (run (index_step F) cs (t, st))) = snd (run (list_step F key) cs [])
    \<and> erts_index_num_entries (fst (snd (run (index_step F) cs (t, st)))) = int (length (snd (run (list_step F key) cs [])))"
proof -
  obtain t where t: "erts_index_init sz lim = Some t" "index_rel F key t st []" "limit t = int lim"
    using erts_index_init_ok [OF assms(2), of lim F key st] by blast
  then have ok: "index_ok lim F key (t, st)" "index_list (t, st) = []"
    using index_rel_objs [OF t(2)] by (simp_all add: index_ok_def index_list_def)
  then have r: "fst (run (index_step F) cs (t, st)) = fst (run (list_step F key) cs [])"
      "index_list (snd (run (index_step F) cs (t, st))) = snd (run (list_step F key) cs [])"
      "index_ok lim F key (snd (run (index_step F) cs (t, st)))"
    using index_functions.run_index [OF assms(1) ok(1), of cs] assms(3) by simp_all
  have "entries (fst s) = int (length (index_list s))" if "index_ok lim F key s" for s
    using that by (simp add: index_ok_def index_list_def index_rel_def)
  from this [OF r(3)] r t(1) show ?thesis by (simp add: erts_index_num_entries_def)
qed

end
