(* ===== verification/Utf8.thy ===== *)
theory Utf8
  imports Prelude
begin

unbundle bit_operations_syntax

text \<open>
  The analysis of UTF-8 of the emulator (\<^verbatim>\<open>analyze_utf8\<close> of \<^verbatim>\<open>erl_unicode.c\<close>), which the names of
  atoms and the conversions of binaries go through, and its equivalence with the encoding of Unicode
  scalar values: it accepts exactly the concatenations of encoded characters, counts them, and finds
  those that are Latin-1.
\<close>

subsection \<open>The analysis\<close>

datatype utf8_res = ERTS_UTF8_OK | ERTS_UTF8_INCOMPLETE | ERTS_UTF8_ERROR | ERTS_UTF8_ANALYZE_MORE | ERTS_UTF8_OK_MAX_CHARS

text \<open>
  One turn of the loop up to the counting of the character: the error the turn ends with, or the number of
  bytes of the character, what it adds to \<open>latin1_count\<close> and whether it leaves \<open>is_latin1\<close> as it is. The
  bytes are the \<open>size\<close> bytes at \<open>source\<close>, not empty.
\<close>

definition utf8_char :: "u8 list \<Rightarrow> utf8_res + nat \<times> nat \<times> bool" where
  "utf8_char s =
     (if s ! 0 AND 0x80 = 0 then Inr (1, 1, True)
      else if s ! 0 AND 0xE0 = 0xC0 then
        (if length s < 2 then Inl ERTS_UTF8_INCOMPLETE
         else if s ! 1 AND 0xC0 \<noteq> 0x80 \<or> s ! 0 < 0xC2 then Inl ERTS_UTF8_ERROR
         else Inr (2, 1, s ! 0 AND 0xFC = 0xC0))
      else if s ! 0 AND 0xF0 = 0xE0 then
        (if length s < 3 then Inl ERTS_UTF8_INCOMPLETE
         else if s ! 1 AND 0xC0 \<noteq> 0x80 \<or> s ! 2 AND 0xC0 \<noteq> 0x80 \<or> (s ! 0 = 0xE0 \<and> s ! 1 < 0xA0) then Inl ERTS_UTF8_ERROR
         else if s ! 0 AND 0xF = 0xD \<and> s ! 1 AND 0x20 \<noteq> 0 then Inl ERTS_UTF8_ERROR
         else Inr (3, 0, False))
      else if s ! 0 AND 0xF8 = 0xF0 then
        (if length s < 4 then Inl ERTS_UTF8_INCOMPLETE
         else if s ! 1 AND 0xC0 \<noteq> 0x80 \<or> s ! 2 AND 0xC0 \<noteq> 0x80 \<or> s ! 3 AND 0xC0 \<noteq> 0x80 \<or> (s ! 0 = 0xF0 \<and> s ! 1 < 0x90)
           then Inl ERTS_UTF8_ERROR
         else if s ! 0 AND 0x7 > 0x4 \<or> (s ! 0 AND 0x7 = 0x4 \<and> s ! 1 AND 0x3F > 0xF) then Inl ERTS_UTF8_ERROR
         else Inr (4, 0, False))
      else Inl ERTS_UTF8_ERROR)"

text \<open>What the function leaves: the result, \<open>*err_pos - source\<close>, \<open>nchars\<close>, \<open>latin1_count\<close>, \<open>is_latin1\<close>, \<open>*left\<close>.\<close>

record Utf8Info =
  u_err_pos :: nat
  u_chars :: nat
  u_latin1_count :: nat
  u_is_latin1 :: bool
  u_left :: "int option"

text \<open>The budget \<open>left\<close> is \<open>None\<close> for the null pointer; a decrement below the least \<open>int\<close> does not occur.\<close>

function analyze_loop :: "nat \<Rightarrow> u8 list \<Rightarrow> Utf8Info \<Rightarrow> utf8_res \<times> Utf8Info" where
  "analyze_loop max_chars s u =
     (if s = [] then (ERTS_UTF8_OK, u)
      else case utf8_char s of
        Inl e \<Rightarrow> (e, u)
      | Inr (w, n, l1) \<Rightarrow>
          (let s = drop w s;
               u = \<lparr>u_err_pos = u_err_pos u + w, u_chars = u_chars u + 1, u_latin1_count = u_latin1_count u + n,
                    u_is_latin1 = (u_is_latin1 u \<and> l1), u_left = u_left u\<rparr> in
           if max_chars \<noteq> 0 \<and> s \<noteq> [] \<and> u_chars u = max_chars then (ERTS_UTF8_OK_MAX_CHARS, u)
           else let u = u\<lparr>u_left := map_option (\<lambda>n. n - 1) (u_left u)\<rparr> in
           if (case u_left u of None \<Rightarrow> False | Some n \<Rightarrow> n \<le> 0) \<and> s \<noteq> [] then (ERTS_UTF8_ANALYZE_MORE, u)
           else analyze_loop max_chars s u))"
  by pat_completeness auto
termination
  by (relation "measure (\<lambda>(m, s, u). length s)") (auto simp: utf8_char_def split: if_splits)

declare analyze_loop.simps [simp del]

text \<open>\<open>num_latin1_chars\<close> is \<open>- 1\<close> if some character is not Latin-1.\<close>

definition analyze_utf8 :: "u8 list \<Rightarrow> int option \<Rightarrow> nat \<Rightarrow> utf8_res \<times> nat \<times> nat \<times> int option \<times> int" where
  "analyze_utf8 s left max_chars =
     (let (res, u) = analyze_loop max_chars s \<lparr>u_err_pos = 0, u_chars = 0, u_latin1_count = 0, u_is_latin1 = True, u_left = left\<rparr>
      in (res, u_err_pos u, u_chars u, u_left u, if u_is_latin1 u then int (u_latin1_count u) else - 1))"

definition erts_analyze_utf8 :: "u8 list \<Rightarrow> int option \<Rightarrow> utf8_res \<times> nat \<times> nat \<times> int option" where
  "erts_analyze_utf8 s left = (let (res, pos, n, left, _) = analyze_utf8 s left 0 in (res, pos, n, left))"

definition erts_analyze_utf8_x :: "u8 list \<Rightarrow> int option \<Rightarrow> nat \<Rightarrow> utf8_res \<times> nat \<times> nat \<times> int option \<times> int" where
  "erts_analyze_utf8_x s left max_chars = analyze_utf8 s left max_chars"

subsection \<open>The encoding of Unicode\<close>

definition scalar :: "nat \<Rightarrow> bool" where "scalar c \<longleftrightarrow> c < 0xD800 \<or> 0xE000 \<le> c \<and> c \<le> 0x10FFFF"

definition utf8_enc :: "nat \<Rightarrow> u8 list" where
  "utf8_enc c =
     map of_nat (if c < 0x80 then [c]
       else if c < 0x800 then [0xC0 + c div 64, 0x80 + c mod 64]
       else if c < 0x10000 then [0xE0 + c div 4096, 0x80 + c div 64 mod 64, 0x80 + c mod 64]
       else [0xF0 + c div 262144, 0x80 + c div 4096 mod 64, 0x80 + c div 64 mod 64, 0x80 + c mod 64])"

definition utf8 :: "nat list \<Rightarrow> u8 list" where "utf8 cs = concat (map utf8_enc cs)"

subsection \<open>Masks on bytes\<close>

lemma high_mask: "k \<le> 8 \<Longrightarrow> unat (b AND NOT (mask k) :: u8) = 2 ^ k * (unat b div 2 ^ k)"
proof -
  have "b AND NOT (mask k) = push_bit k (drop_bit k b)" by (rule bit_eqI) (auto simp: bit_simps)
  then have "unat (b AND NOT (mask k)) = take_bit 8 (push_bit k (drop_bit k (unat b)))"
    by (simp only: unsigned_push_bit_eq unat_drop_bit_eq) simp
  then have "unat (b AND NOT (mask k)) = take_bit 8 (2 ^ k * (unat b div 2 ^ k))"
    by (simp only: push_bit_eq_mult drop_bit_eq_div mult.commute)
  moreover have "2 ^ k * (unat b div 2 ^ k) < 256"
    using unsigned_less [of b, where ?'a = nat] by (intro le_less_trans [OF times_div_less_eq_dividend]) simp
  ultimately show ?thesis by (simp add: take_bit_eq_mod)
qed

lemma high_masks:
  fixes b :: u8
  shows "b AND 0x80 = 0 \<longleftrightarrow> unat b < 128" "b AND 0xE0 = 0xC0 \<longleftrightarrow> 192 \<le> unat b \<and> unat b < 224"
    "b AND 0xF0 = 0xE0 \<longleftrightarrow> 224 \<le> unat b \<and> unat b < 240" "b AND 0xF8 = 0xF0 \<longleftrightarrow> 240 \<le> unat b \<and> unat b < 248"
    "b AND 0xC0 = 0x80 \<longleftrightarrow> 128 \<le> unat b \<and> unat b < 192" "b AND 0xFC = 0xC0 \<longleftrightarrow> 192 \<le> unat b \<and> unat b < 196"
proof -
  have l: "unat b < 256" using unsigned_less [of b, where ?'a = nat] by simp
  have m: "(0x80 :: u8) = NOT (mask 7)" "(0xE0 :: u8) = NOT (mask 5)" "(0xF0 :: u8) = NOT (mask 4)" "(0xF8 :: u8) = NOT (mask 3)"
    "(0xC0 :: u8) = NOT (mask 6)" "(0xFC :: u8) = NOT (mask 2)" by (simp_all add: mask_eq_exp_minus_1)
  note h = high_mask [of _ b]
  show "b AND 0x80 = 0 \<longleftrightarrow> unat b < 128" using h [of 7] l unfolding m(1) by (auto simp: word_unat_eq_iff)
  show "b AND 0xE0 = 0xC0 \<longleftrightarrow> 192 \<le> unat b \<and> unat b < 224" using h [of 5] unfolding m(2) by (auto simp: word_unat_eq_iff)
  show "b AND 0xF0 = 0xE0 \<longleftrightarrow> 224 \<le> unat b \<and> unat b < 240" using h [of 4] unfolding m(3) by (auto simp: word_unat_eq_iff)
  show "b AND 0xF8 = 0xF0 \<longleftrightarrow> 240 \<le> unat b \<and> unat b < 248" using h [of 3] unfolding m(4) by (auto simp: word_unat_eq_iff)
  show "b AND 0xC0 = 0x80 \<longleftrightarrow> 128 \<le> unat b \<and> unat b < 192" using h [of 6] unfolding m(5) by (auto simp: word_unat_eq_iff)
  show "b AND 0xFC = 0xC0 \<longleftrightarrow> 192 \<le> unat b \<and> unat b < 196" using h [of 2] unfolding m(6) by (auto simp: word_unat_eq_iff)
qed

lemma low_masks:
  fixes b :: u8
  shows "b AND 0x20 = 0 \<longleftrightarrow> unat b mod 64 < 32" "unat (b AND 0xF) = unat b mod 16" "unat (b AND 0x7) = unat b mod 8"
    "unat (b AND 0x3F) = unat b mod 64"
proof -
  have low: "unat (b AND mask k) = unat b mod 2 ^ k" for k :: nat and b :: u8
  proof -
    have "unat (b AND mask k) = take_bit k (unat b)" by (simp only: unsigned_take_bit_eq flip: take_bit_eq_mask)
    then show ?thesis by (simp only: take_bit_eq_mod)
  qed
  show "unat (b AND 0xF) = unat b mod 16" "unat (b AND 0x7) = unat b mod 8" "unat (b AND 0x3F) = unat b mod 64"
    using low [of b 4] low [of b 3] low [of b 6] by (simp_all add: mask_eq_exp_minus_1)
  show "b AND 0x20 = 0 \<longleftrightarrow> unat b mod 64 < 32"
  proof -
    have "b AND 0x20 = (b AND mask 6) AND NOT (mask 5)" by (simp add: mask_eq_exp_minus_1 and.assoc)
    then have "unat (b AND 0x20) = 32 * (unat b mod 64 div 32)" using high_mask [of 5 "b AND mask 6"] low [of b 6] by simp
    then show ?thesis by (auto simp: word_unat_eq_iff)
  qed
qed

subsection \<open>The analysis accepts exactly the encodings\<close>

lemma unat_u8: "n < 256 \<Longrightarrow> unat (of_nat n :: u8) = n"
  by (simp add: unat_of_nat)

lemma byte_eq_iff: "(a :: u8) = b \<longleftrightarrow> unat a = unat b" "(a :: u8) < b \<longleftrightarrow> unat a < unat b"
  by (simp_all add: word_unat_eq_iff word_less_nat_alt)

lemma unat_offset: "numeral k + n < (256 :: nat) \<Longrightarrow> unat (numeral k + of_nat n :: u8) = numeral k + n"
  using unat_u8 [of "numeral k + n"] by simp

lemma mod_offset: "m * d \<le> b \<Longrightarrow> b < m * d + d \<Longrightarrow> b mod d = b - m * d" for b d m :: nat
  using mod_mult_self1 [of "b - m * d" m d] by simp

text \<open>The analysis of one character, in numbers.\<close>

lemma utf8_char_alt:
  "utf8_char s =
     (let b = \<lambda>i. unat (s ! i); tail = \<lambda>i. 128 \<le> b i \<and> b i < 192 in
      if b 0 < 128 then Inr (1, 1, True)
      else if b 0 < 192 then Inl ERTS_UTF8_ERROR
      else if b 0 < 224 then
        (if length s < 2 then Inl ERTS_UTF8_INCOMPLETE
         else if \<not> tail 1 \<or> b 0 < 194 then Inl ERTS_UTF8_ERROR
         else Inr (2, 1, b 0 < 196))
      else if b 0 < 240 then
        (if length s < 3 then Inl ERTS_UTF8_INCOMPLETE
         else if \<not> tail 1 \<or> \<not> tail 2 \<or> (b 0 = 224 \<and> b 1 < 160) \<or> (b 0 = 237 \<and> 160 \<le> b 1) then Inl ERTS_UTF8_ERROR
         else Inr (3, 0, False))
      else if b 0 < 248 then
        (if length s < 4 then Inl ERTS_UTF8_INCOMPLETE
         else if \<not> tail 1 \<or> \<not> tail 2 \<or> \<not> tail 3 \<or> (b 0 = 240 \<and> b 1 < 144) \<or> (b 0 = 244 \<and> 144 \<le> b 1) \<or> 244 < b 0
           then Inl ERTS_UTF8_ERROR
         else Inr (4, 0, False))
      else Inl ERTS_UTF8_ERROR)"
proof -
  define b0 b1 where "b0 = unat (s ! 0)" and "b1 = unat (s ! 1)"
  have m: "s ! 0 AND 0x80 = 0 \<longleftrightarrow> b0 < 128" "s ! 0 AND 0xE0 = 0xC0 \<longleftrightarrow> 192 \<le> b0 \<and> b0 < 224" "s ! 0 AND 0xF0 = 0xE0 \<longleftrightarrow> 224 \<le> b0 \<and> b0 < 240"
    "s ! 0 AND 0xF8 = 0xF0 \<longleftrightarrow> 240 \<le> b0 \<and> b0 < 248" "s ! 0 AND 0xFC = 0xC0 \<longleftrightarrow> 192 \<le> b0 \<and> b0 < 196"
    "s ! 1 AND 0x20 = 0 \<longleftrightarrow> b1 mod 64 < 32"
    unfolding b0_def b1_def by (rule high_masks low_masks)+
  have n: "s ! 0 < 0xC2 \<longleftrightarrow> b0 < 194"
    "s ! 0 = 0xE0 \<longleftrightarrow> b0 = 224" "s ! 0 = 0xF0 \<longleftrightarrow> b0 = 240" "s ! 1 < 0xA0 \<longleftrightarrow> b1 < 160" "s ! 1 < 0x90 \<longleftrightarrow> b1 < 144"
    "s ! 0 AND 0xF = 0xD \<longleftrightarrow> b0 mod 16 = 13"
    "0x4 < s ! 0 AND 0x7 \<longleftrightarrow> 4 < b0 mod 8" "s ! 0 AND 0x7 = 0x4 \<longleftrightarrow> b0 mod 8 = 4" "0xF < s ! 1 AND 0x3F \<longleftrightarrow> 15 < b1 mod 64"
    by (simp_all add: b0_def b1_def low_masks(2-4) byte_eq_iff)
  consider "b0 < 192" | "192 \<le> b0" "b0 < 224" | "224 \<le> b0" "b0 < 240" | "240 \<le> b0" "b0 < 248" | "248 \<le> b0" by linarith
  then show ?thesis
  proof cases
    case 3
    have a: "b0 mod 16 = 13 \<longleftrightarrow> b0 = 237" using 3 mod_offset [of 14 16 b0] by auto
    have b: "b1 mod 64 < 32 \<longleftrightarrow> \<not> 160 \<le> b1" if "128 \<le> b1" "b1 < 192" using that mod_offset [of 2 64 b1] by auto
    show ?thesis
    proof (cases "128 \<le> b1 \<and> b1 < 192")
      case True
      then show ?thesis using 3 b
        by (simp add: utf8_char_def m n(1-6) a b Let_def high_masks(5) del: One_nat_def flip: b0_def b1_def)
    next
      case False
      then show ?thesis using 3 by (simp add: utf8_char_def m(1-5) n(1-5) Let_def high_masks(5) del: One_nat_def flip: b0_def b1_def)
    qed
  next
    case 4
    have a: "4 < b0 mod 8 \<longleftrightarrow> 244 < b0" "b0 mod 8 = 4 \<longleftrightarrow> b0 = 244" using 4 mod_offset [of 30 8 b0] by auto
    have b: "15 < b1 mod 64 \<longleftrightarrow> 144 \<le> b1" if "128 \<le> b1" "b1 < 192" using that mod_offset [of 2 64 b1] by auto
    show ?thesis
    proof (cases "128 \<le> b1 \<and> b1 < 192")
      case True
      then show ?thesis using 4 b
        by (simp add: utf8_char_def m n a b Let_def high_masks(5) del: One_nat_def flip: b0_def b1_def)
    next
      case False
      then show ?thesis using 4 by (simp add: utf8_char_def m(1-5) n(1-5) Let_def high_masks(5) del: One_nat_def flip: b0_def b1_def)
    qed
  qed (simp_all add: utf8_char_def m(1-5) n(1-5) Let_def high_masks(5) del: One_nat_def flip: b0_def b1_def)
qed

lemma utf8_char_enc:
  assumes "scalar c"
  shows "utf8_char (utf8_enc c @ r) = Inr (length (utf8_enc c), if c < 0x800 then 1 else 0, c < 256)"
proof -
  consider "c < 0x80" | "0x80 \<le> c" "c < 0x800" | "0x800 \<le> c" "c < 0x10000" | "0x10000 \<le> c" by linarith
  then show ?thesis
  proof cases
    case 1
    then show ?thesis by (simp add: utf8_char_alt utf8_enc_def Let_def unat_u8)
  next
    case 2
    define x z where "x = c div 64" and "z = c mod 64"
    have "x < 4 \<longleftrightarrow> c < 256" "z < 64" "2 \<le> x" "x < 32" using 2 by (auto simp: x_def z_def)
    then show ?thesis using 2 by (simp add: utf8_char_alt utf8_enc_def Let_def unat_u8 unat_offset flip: x_def z_def)
  next
    case 3
    define x y z where "x = c div 4096" and "y = c div 64 mod 64" and "z = c mod 64"
    have "x < 16" "y < 64" "z < 64" "x = 0 \<Longrightarrow> 32 \<le> y" "x = 13 \<Longrightarrow> y < 32"
    proof -
      define q where "q = c div 64"
      have q: "q = 64 * x + y" "y < 64" "32 \<le> q" "q < 1024" "q < 864 \<or> 896 \<le> q"
        using 3 assms div_mult2_eq [of c 64 64] by (auto simp: q_def x_def y_def scalar_def)
      show "x < 16" "y < 64" "x = 0 \<Longrightarrow> 32 \<le> y" "x = 13 \<Longrightarrow> y < 32" using q by linarith+
      show "z < 64" by (simp add: z_def)
    qed
    then show ?thesis using 3 by (auto simp add: utf8_char_alt utf8_enc_def Let_def unat_u8 unat_offset simp flip: x_def y_def z_def)
  next
    case 4
    define w x y z where "w = c div 262144" and "x = c div 4096 mod 64" and "y = c div 64 mod 64" and "z = c mod 64"
    have "w < 5" "x < 64" "y < 64" "z < 64" "w = 0 \<Longrightarrow> 16 \<le> x" "w = 4 \<Longrightarrow> x < 16"
    proof -
      define q where "q = c div 4096"
      have q: "q = 64 * w + x" "x < 64" "16 \<le> q" "q < 272"
        using 4 assms div_mult2_eq [of c 4096 64] by (auto simp: q_def w_def x_def scalar_def)
      show "w < 5" "x < 64" "w = 0 \<Longrightarrow> 16 \<le> x" "w = 4 \<Longrightarrow> x < 16" using q by linarith+
      show "y < 64" "z < 64" by (simp_all add: y_def z_def)
    qed
    then show ?thesis using 4 by (auto simp: utf8_char_alt utf8_enc_def Let_def unat_u8 unat_offset simp flip: w_def x_def y_def z_def)
  qed
qed

text \<open>The character the bytes encode.\<close>

lemma utf8_char_scalar:
  assumes "utf8_char s = Inr (w, n, l)" "s \<noteq> []"
  shows "\<exists>c. scalar c \<and> w \<le> length s \<and> take w s = utf8_enc c"
proof -
  define b where "b = (\<lambda>i. unat (s ! i))"
  have s: "take w s = map (\<lambda>i. of_nat (b i)) [0..<w]" if "w \<le> length s"
    using that by (intro nth_equalityI) (simp_all add: b_def)
  have pos: "1 \<le> length s" using assms(2) by (cases s) simp_all
  have c: "utf8_char s = Inr (w, n, l)" by (rule assms(1))
  consider "b 0 < 128" | "128 \<le> b 0" "b 0 < 224" | "224 \<le> b 0" "b 0 < 240" | "240 \<le> b 0" by linarith
  then show ?thesis
  proof cases
    case 1
    then have "w = 1" using c by (simp add: utf8_char_alt Let_def b_def)
    then show ?thesis using 1 s pos by (intro exI [of _ "b 0"]) (simp add: scalar_def utf8_enc_def)
  next
    case 2
    then have w: "w = 2" "2 \<le> length s" "194 \<le> b 0" "128 \<le> b 1" "b 1 < 192"
      using c unfolding utf8_char_alt Let_def b_def by (auto split: if_splits)
    define x y where "x = b 0 - 192" and "y = b 1 - 128"
    have "b 0 = 192 + x" "b 1 = 128 + y" "2 \<le> x" "x < 32" "y < 64" using w 2 by (simp_all add: x_def y_def)
    then show ?thesis using w(1,2) s by (intro exI [of _ "64 * x + y"]) (simp add: scalar_def utf8_enc_def numeral_2_eq_2)
  next
    case 3
    then have w: "w = 3" "3 \<le> length s" "128 \<le> b 1" "b 1 < 192" "128 \<le> b 2" "b 2 < 192" "b 0 = 224 \<Longrightarrow> 160 \<le> b 1" "b 0 = 237 \<Longrightarrow> b 1 < 160"
      using c unfolding utf8_char_alt Let_def b_def by (auto split: if_splits)
    define x y z where "x = b 0 - 224" and "y = b 1 - 128" and "z = b 2 - 128"
    have b: "b 0 = 224 + x" "b 1 = 128 + y" "b 2 = 128 + z" "x < 16" "y < 64" "z < 64" "x = 0 \<Longrightarrow> 32 \<le> y" "x = 13 \<Longrightarrow> y < 32"
      using w 3 unfolding x_def y_def z_def by linarith+
    have t: "take w s = [of_nat (b 0), of_nat (b 1), of_nat (b 2)]" using s w(1,2) by (simp add: upt_rec numeral_2_eq_2)
    define q where "q = 64 * x + y"
    have q: "q div 64 = x" "q mod 64 = y" using b by (simp_all add: q_def)
    have "(64 * q + z) div 4096 = q div 64" using div_mult2_eq [of "64 * q + z" 64 64] b(6) by simp
    moreover have "64 * q + z < 55296 \<or> 57344 \<le> 64 * q + z"
      using b(5,6,8) unfolding q_def by (cases "x < 13"; cases "x = 13"; auto)
    moreover have "2048 \<le> 64 * q + z" using b(7) unfolding q_def by (cases "x = 0") auto
    moreover have "64 * q + z < 65536" using b(4-6) unfolding q_def by auto
    ultimately show ?thesis using w(1,2) t b q by (intro exI [of _ "64 * q + z"]) (simp add: scalar_def utf8_enc_def)
  next
    case 4
    then have w: "w = 4" "4 \<le> length s" "128 \<le> b 1" "b 1 < 192" "128 \<le> b 2" "b 2 < 192" "128 \<le> b 3" "b 3 < 192"
        "b 0 = 240 \<Longrightarrow> 144 \<le> b 1" "b 0 = 244 \<Longrightarrow> b 1 < 144" "b 0 \<le> 244"
      using c unfolding utf8_char_alt Let_def b_def by (auto split: if_splits)
    define v x y z where "v = b 0 - 240" and "x = b 1 - 128" and "y = b 2 - 128" and "z = b 3 - 128"
    have b: "b 0 = 240 + v" "b 1 = 128 + x" "b 2 = 128 + y" "b 3 = 128 + z" "v \<le> 4" "x < 64" "y < 64" "z < 64"
        "v = 0 \<Longrightarrow> 16 \<le> x" "v = 4 \<Longrightarrow> x < 16"
      using w 4 unfolding v_def x_def y_def z_def by linarith+
    have t: "take w s = [of_nat (b 0), of_nat (b 1), of_nat (b 2), of_nat (b 3)]"
      using s w(1,2) by (simp add: upt_rec numeral_2_eq_2 numeral_3_eq_3)
    define q p where "q = 64 * v + x" and "p = 64 * q + y"
    have q: "q div 64 = v" "q mod 64 = x" "p div 64 = q" "p mod 64 = y" using b(6,7) unfolding p_def by (simp_all, simp_all add: q_def)
    have "(64 * p + z) div 4096 = q" "(64 * p + z) div 262144 = v"
      using div_mult2_eq [of "64 * p + z" 64 64] div_mult2_eq [of "64 * p + z" 64 4096] div_mult2_eq [of p 64 64] b(8) q by simp_all
    moreover have "65536 \<le> 64 * p + z" using b(9) unfolding q_def p_def by (cases "v = 0") auto
    moreover have "64 * p + z \<le> 1114111" using b(5-8,10) unfolding q_def p_def by (cases "v = 4") auto
    ultimately show ?thesis using w(1,2) t b q by (intro exI [of _ "64 * p + z"]) (simp add: scalar_def utf8_enc_def)
  qed
qed

text \<open>Encodings are split at the characters.\<close>

lemma utf8_enc_ne [simp]: "utf8_enc c \<noteq> []"
  by (simp add: utf8_enc_def)

lemma utf8_Nil [simp]: "utf8 [] = []" by (simp add: utf8_def)

lemma utf8_Cons [simp]: "utf8 (c # cs) = utf8_enc c @ utf8 cs" by (simp add: utf8_def)

lemma utf8_append [simp]: "utf8 (cs @ ds) = utf8 cs @ utf8 ds" by (simp add: utf8_def)

lemma utf8_eq_Nil [simp]: "utf8 cs = [] \<longleftrightarrow> cs = []" by (cases cs) simp_all

text \<open>The loop on valid bytes with a limit and no budget: all characters, or as many as the limit.\<close>

definition utf8_info :: "nat list \<Rightarrow> Utf8Info \<Rightarrow> Utf8Info" where
  "utf8_info cs u = \<lparr>u_err_pos = u_err_pos u + length (utf8 cs), u_chars = u_chars u + length cs,
     u_latin1_count = u_latin1_count u + length (filter (\<lambda>c. c < 0x800) cs),
     u_is_latin1 = (u_is_latin1 u \<and> (\<forall>c \<in> set cs. c < 256)), u_left = None\<rparr>"

lemma analyze_loop_valid:
  assumes "list_all scalar cs" "u_left u = None" "u_chars u < m"
  shows "analyze_loop m (utf8 cs) u =
    (if u_chars u + length cs \<le> m then (ERTS_UTF8_OK, utf8_info cs u)
     else (ERTS_UTF8_OK_MAX_CHARS, utf8_info (take (m - u_chars u) cs) u))"
  using assms
proof (induction cs arbitrary: u)
  case Nil
  then show ?case by (simp add: analyze_loop.simps utf8_info_def)
next
  case (Cons c cs)
  define u' where "u' = utf8_info [c] u"
  have c: "utf8_char (utf8_enc c @ utf8 cs) = Inr (length (utf8_enc c), if c < 0x800 then 1 else 0, c < 256)"
    using utf8_char_enc Cons.prems(1) by simp
  have step: "analyze_loop m (utf8 (c # cs)) u = (if cs \<noteq> [] \<and> u_chars u + 1 = m then (ERTS_UTF8_OK_MAX_CHARS, u') else analyze_loop m (utf8 cs) u')"
    using Cons.prems(2,3) by (subst analyze_loop.simps) (simp add: c u'_def utf8_info_def)
  have info: "utf8_info ds u' = utf8_info (c # ds) u" for ds by (simp add: utf8_info_def u'_def add.assoc)
  show ?case
  proof (cases "u_chars u + 1 = m")
    case True
    then show ?thesis unfolding step using True by (cases cs) (auto simp: u'_def analyze_loop.simps)
  next
    case False
    have "analyze_loop m (utf8 cs) u' = (if u_chars u' + length cs \<le> m then (ERTS_UTF8_OK, utf8_info cs u')
        else (ERTS_UTF8_OK_MAX_CHARS, utf8_info (take (m - u_chars u') cs) u'))"
      using Cons.prems False by (intro Cons.IH) (simp_all add: u'_def utf8_info_def)
    moreover have "take (m - u_chars u) (c # cs) = c # take (m - u_chars u') cs" "u_chars u' = u_chars u + 1"
      using Cons.prems(3) False by (simp_all add: take_Cons' u'_def utf8_info_def)
    ultimately show ?thesis unfolding step using False info by simp
  qed
qed

text \<open>What follows the last character of the limit is not looked at.\<close>

lemma analyze_loop_max:
  assumes "list_all scalar cs" "u_left u = None" "cs \<noteq> []" "u_chars u + length cs = m" "r \<noteq> []"
  shows "analyze_loop m (utf8 cs @ r) u = (ERTS_UTF8_OK_MAX_CHARS, utf8_info cs u)"
  using assms
proof (induction cs arbitrary: u)
  case (Cons c cs)
  define u' where "u' = utf8_info [c] u"
  have c: "utf8_char (utf8_enc c @ utf8 cs @ r) = Inr (length (utf8_enc c), if c < 0x800 then 1 else 0, c < 256)"
    using utf8_char_enc Cons.prems(1) by simp
  have step: "analyze_loop m (utf8 (c # cs) @ r) u = (if u_chars u + 1 = m then (ERTS_UTF8_OK_MAX_CHARS, u') else analyze_loop m (utf8 cs @ r) u')"
    using Cons.prems(2,4,5) by (subst analyze_loop.simps) (simp add: c u'_def utf8_info_def)
  have info: "utf8_info ds u' = utf8_info (c # ds) u" for ds by (simp add: utf8_info_def u'_def add.assoc)
  show ?case
  proof (cases "cs = []")
    case True
    then show ?thesis using step Cons.prems(4) by (simp add: u'_def)
  next
    case False
    then have "u_chars u + 1 \<noteq> m" "u_chars u' + length cs = m" "u_left u' = None" using Cons.prems(4) by (auto simp: u'_def utf8_info_def)
    then show ?thesis using step Cons.IH [of u'] Cons.prems(1,5) False info by simp
  qed
qed simp

text \<open>Bytes that are not an encoding are refused, unless the limit is reached before the first bad one.\<close>

lemma analyze_loop_accepts:
  assumes "analyze_loop m s u = (res, u')" "u_left u = None" "u_chars u < m" "res = ERTS_UTF8_OK \<or> res = ERTS_UTF8_OK_MAX_CHARS"
  shows "\<exists>cs r. list_all scalar cs \<and> s = utf8 cs @ r \<and> u' = utf8_info cs u \<and> (res = ERTS_UTF8_OK \<longrightarrow> r = [])
    \<and> (res = ERTS_UTF8_OK_MAX_CHARS \<longrightarrow> r \<noteq> []) \<and> u_chars u + length cs \<le> m \<and> (res = ERTS_UTF8_OK_MAX_CHARS \<longrightarrow> u_chars u + length cs = m)"
  using assms
proof (induction "length s" arbitrary: s u rule: less_induct)
  case less
  show ?case
  proof (cases "s = []")
    case True
    then show ?thesis using less.prems by (intro exI [of _ "[]"]) (auto simp: analyze_loop.simps utf8_info_def)
  next
    case False
    show ?thesis
    proof (cases "utf8_char s")
      case (Inl e)
      then have "e \<in> {ERTS_UTF8_INCOMPLETE, ERTS_UTF8_ERROR}" by (auto simp: utf8_char_def split: if_splits)
      then show ?thesis using Inl False less.prems by (auto simp: analyze_loop.simps)
    next
      case (Inr x)
      obtain w n l where x: "utf8_char s = Inr (w, n, l)" using Inr by (cases x) auto
      obtain c where c: "scalar c" "w \<le> length s" "take w s = utf8_enc c" using utf8_char_scalar [OF x False] by blast
      have s: "s = utf8_enc c @ drop w s" using c(3) by (metis append_take_drop_id)
      have "Inr (w, n, l) = Inr (length (utf8_enc c), if c < 0x800 then 1 else (0 :: nat), c < 256)"
        using utf8_char_enc [OF c(1), of "drop w s"] x s by simp
      then have w: "w = length (utf8_enc c)" "n = (if c < 0x800 then 1 else 0)" "l = (c < 256)" by auto
      define u1 where "u1 = utf8_info [c] u"
      have step: "analyze_loop m s u = (if drop w s \<noteq> [] \<and> u_chars u + 1 = m then (ERTS_UTF8_OK_MAX_CHARS, u1) else analyze_loop m (drop w s) u1)"
        using False less.prems(2,3) by (subst analyze_loop.simps) (simp add: x w(2,3) u1_def utf8_info_def, simp add: w(1))
      have info: "utf8_info ds u1 = utf8_info (c # ds) u" for ds by (simp add: utf8_info_def u1_def add.assoc)
      show ?thesis
      proof (cases "drop w s \<noteq> [] \<and> u_chars u + 1 = m")
        case True
        then show ?thesis using step less.prems c(1) s by (intro exI [of _ "[c]"] exI [of _ "drop w s"]) (auto simp: u1_def)
      next
        case no: False
        show ?thesis
        proof (cases "drop w s = []")
          case True
          then show ?thesis using step less.prems c(1) s
            by (intro exI [of _ "[c]"] exI [of _ "[]"]) (auto simp: u1_def analyze_loop.simps)
        next
          case False
          then have m: "u_chars u1 < m" using no less.prems(3) by (simp add: u1_def utf8_info_def)
          have lt: "length (drop w s) < length s" using c(2) w(1) \<open>s \<noteq> []\<close> by (simp add: diff_less)
          have "analyze_loop m (drop w s) u1 = (res, u')" using step no less.prems(1) by (auto split: if_splits)
          from less.hyps [OF lt this _ m less.prems(4)] obtain cs r where
            "list_all scalar cs" "drop w s = utf8 cs @ r" "u' = utf8_info cs u1" "res = ERTS_UTF8_OK \<longrightarrow> r = []"
            "res = ERTS_UTF8_OK_MAX_CHARS \<longrightarrow> r \<noteq> []" "u_chars u1 + length cs \<le> m" "res = ERTS_UTF8_OK_MAX_CHARS \<longrightarrow> u_chars u1 + length cs = m"
            by (auto simp: u1_def utf8_info_def)
          then show ?thesis using c(1) s info
            by (intro exI [of _ "c # cs"] exI [of _ r]) (auto simp: u1_def utf8_info_def)
        qed
      qed
    qed
  qed
qed

text \<open>What the analysis says of a list of characters.\<close>

definition latin1_count :: "nat list \<Rightarrow> int" where
  "latin1_count cs = (if list_all (\<lambda>c. c < 256) cs then int (length cs) else - 1)"

lemma utf8_info_latin1:
  "utf8_info cs \<lparr>u_err_pos = 0, u_chars = 0, u_latin1_count = 0, u_is_latin1 = True, u_left = None\<rparr> = u
    \<Longrightarrow> (if u_is_latin1 u then int (u_latin1_count u) else - 1) = latin1_count cs"
proof (cases "\<forall>c \<in> set cs. c < 256")
  case True
  then have "filter (\<lambda>c. c < 2048) cs = cs" by (auto simp: filter_id_conv)
  moreover assume "utf8_info cs \<lparr>u_err_pos = 0, u_chars = 0, u_latin1_count = 0, u_is_latin1 = True, u_left = None\<rparr> = u"
  ultimately show ?thesis using True by (auto simp: utf8_info_def latin1_count_def list_all_iff)
qed (auto simp: utf8_info_def latin1_count_def list_all_iff)

lemma utf8_info_out:
  fixes cs :: "nat list"
  defines "u \<equiv> utf8_info cs \<lparr>u_err_pos = 0, u_chars = 0, u_latin1_count = 0, u_is_latin1 = True, u_left = None\<rparr>"
  shows "(if u_is_latin1 u then int (u_latin1_count u) else - 1) = latin1_count cs" "u_err_pos u = length (utf8 cs)"
    "u_chars u = length cs" "u_left u = None"
proof -
  show "(if u_is_latin1 u then int (u_latin1_count u) else - 1) = latin1_count cs" by (rule utf8_info_latin1) (simp only: u_def)
  show "u_err_pos u = length (utf8 cs)" "u_chars u = length cs" "u_left u = None" by (simp_all add: u_def utf8_info_def)
qed

lemma analyze_valid:
  assumes "list_all scalar cs" "0 < m"
  shows "erts_analyze_utf8_x (utf8 cs) None m =
    (if length cs \<le> m then (ERTS_UTF8_OK, length (utf8 cs), length cs, None, latin1_count cs)
     else (ERTS_UTF8_OK_MAX_CHARS, length (utf8 (take m cs)), m, None, latin1_count (take m cs)))"
proof -
  let ?u = "\<lparr>u_err_pos = 0, u_chars = 0, u_latin1_count = 0, u_is_latin1 = True, u_left = None\<rparr>"
  have "analyze_loop m (utf8 cs) ?u = (if length cs \<le> m then (ERTS_UTF8_OK, utf8_info cs ?u) else (ERTS_UTF8_OK_MAX_CHARS, utf8_info (take m cs) ?u))"
    using analyze_loop_valid [of cs ?u m] assms by simp
  then show ?thesis by (simp only: erts_analyze_utf8_x_def analyze_utf8_def Let_def split: if_split) (simp add: utf8_info_out)
qed

lemma analyze_accepts:
  assumes "erts_analyze_utf8_x s None m = (res, pos, n, left, latin1)" "0 < m" "res = ERTS_UTF8_OK \<or> res = ERTS_UTF8_OK_MAX_CHARS"
  shows "\<exists>cs r. list_all scalar cs \<and> s = utf8 cs @ r \<and> pos = length (utf8 cs) \<and> n = length cs \<and> latin1 = latin1_count cs
    \<and> (if res = ERTS_UTF8_OK then r = [] \<and> length cs \<le> m else r \<noteq> [] \<and> length cs = m)"
proof -
  let ?u = "\<lparr>u_err_pos = 0, u_chars = 0, u_latin1_count = 0, u_is_latin1 = True, u_left = None\<rparr>"
  obtain u where u: "analyze_loop m s ?u = (res, u)" and out: "pos = u_err_pos u" "n = u_chars u" "latin1 = (if u_is_latin1 u then int (u_latin1_count u) else - 1)"
    using assms(1) by (auto simp: erts_analyze_utf8_x_def analyze_utf8_def split: prod.splits)
  have m: "u_left ?u = None" "u_chars ?u < m" using assms(2) by simp_all
  obtain cs r where c: "list_all scalar cs" "s = utf8 cs @ r" "u = utf8_info cs ?u" "res = ERTS_UTF8_OK \<longrightarrow> r = []"
      "res = ERTS_UTF8_OK_MAX_CHARS \<longrightarrow> r \<noteq> []" "length cs \<le> m" "res = ERTS_UTF8_OK_MAX_CHARS \<longrightarrow> length cs = m"
    using analyze_loop_accepts [OF u m assms(3)] by auto
  then show ?thesis using assms(3) out utf8_info_latin1 [OF c(3) [symmetric]]
    by (intro exI [of _ cs] exI [of _ r]) (auto simp: utf8_info_def)
qed

lemma analyze_max:
  assumes "list_all scalar cs" "length cs = m" "0 < m" "r \<noteq> []"
  shows "erts_analyze_utf8_x (utf8 cs @ r) None m = (ERTS_UTF8_OK_MAX_CHARS, length (utf8 cs), m, None, latin1_count cs)"
proof -
  let ?u = "\<lparr>u_err_pos = 0, u_chars = 0, u_latin1_count = 0, u_is_latin1 = True, u_left = None\<rparr>"
  have "analyze_loop m (utf8 cs @ r) ?u = (ERTS_UTF8_OK_MAX_CHARS, utf8_info cs ?u)" using assms by (intro analyze_loop_max) auto
  then show ?thesis using assms(2) by (simp only: erts_analyze_utf8_x_def analyze_utf8_def Let_def) (simp add: utf8_info_out)
qed

text \<open>
  C9. The analysis of UTF-8, called without \<open>left\<close> and for at least one character, accepts exactly the encodings of sequences of Unicode scalar values: the result is
  \<open>ERTS_UTF8_OK\<close> iff the bytes encode at most \<open>max_chars\<close> of them, and \<open>ERTS_UTF8_OK_MAX_CHARS\<close> iff they go on after
  the encodings of \<open>max_chars\<close>; then it gives the place after the last character and their number, and
  tells whether all of them are Latin-1 (their number then, otherwise -1).
\<close>

theorem utf8_analysis_exact:
  assumes "0 < m"
  shows "(erts_analyze_utf8_x s None m = (ERTS_UTF8_OK, pos, n, left, latin1) \<longleftrightarrow>
      (\<exists>cs. list_all scalar cs \<and> length cs \<le> m \<and> s = utf8 cs \<and> pos = length s \<and> n = length cs \<and> left = None \<and> latin1 = latin1_count cs))
    \<and> (erts_analyze_utf8_x s None m = (ERTS_UTF8_OK_MAX_CHARS, pos, n, left, latin1) \<longleftrightarrow>
      (\<exists>cs r. list_all scalar cs \<and> length cs = m \<and> r \<noteq> [] \<and> s = utf8 cs @ r \<and> pos = length (utf8 cs) \<and> n = m \<and> left = None \<and> latin1 = latin1_count cs))"
proof (intro conjI iffI)
  assume e: "erts_analyze_utf8_x s None m = (ERTS_UTF8_OK, pos, n, left, latin1)"
  then obtain cs where cs: "list_all scalar cs" "s = utf8 cs" "length cs \<le> m" using analyze_accepts [OF e assms] by auto
  then show "\<exists>cs. list_all scalar cs \<and> length cs \<le> m \<and> s = utf8 cs \<and> pos = length s \<and> n = length cs \<and> left = None \<and> latin1 = latin1_count cs"
    using e analyze_valid [OF cs(1) assms] by (intro exI [of _ cs]) simp
next
  assume e: "erts_analyze_utf8_x s None m = (ERTS_UTF8_OK_MAX_CHARS, pos, n, left, latin1)"
  then obtain cs r where cs: "list_all scalar cs" "s = utf8 cs @ r" "length cs = m" "r \<noteq> []" using analyze_accepts [OF e assms] by auto
  then show "\<exists>cs r. list_all scalar cs \<and> length cs = m \<and> r \<noteq> [] \<and> s = utf8 cs @ r \<and> pos = length (utf8 cs) \<and> n = m \<and> left = None \<and> latin1 = latin1_count cs"
    using e analyze_max [OF cs(1,3) assms cs(4)] by (intro exI [of _ cs] exI [of _ r]) simp
qed (use analyze_valid [OF _ assms] analyze_max [OF _ _ assms] in auto)

text \<open>Witness of C9: the two bytes of e with an acute accent.\<close>

theorem utf8_analysis_exact_witness: "erts_analyze_utf8_x [0xC3, 0xA9] None 255 = (ERTS_UTF8_OK, 2, 1, None, 1)"
proof -
  have "\<exists>cs. list_all scalar cs \<and> length cs \<le> 255 \<and> [0xC3, 0xA9] = utf8 cs \<and> (2 :: nat) = length [0xC3 :: u8, 0xA9] \<and> (1 :: nat) = length cs
      \<and> None = (None :: int option) \<and> 1 = latin1_count cs"
    by (rule exI [of _ "[233]"]) (simp add: scalar_def utf8_def utf8_enc_def latin1_count_def)
  then show ?thesis using utf8_analysis_exact [of 255 "[0xC3, 0xA9]" 2 1 None 1] by simp
qed

end
