(* ===== verification/AtomTable.thy ===== *)
theory AtomTable
  imports IndexTableThms Utf8 ErlTerm
begin

text \<open>
  The table of atoms (\<^verbatim>\<open>atom.h\<close>, \<^verbatim>\<open>atom.c\<close>): an index table of the names in UTF-8, the conversion from
  Latin-1, the checks of encoding and length, the terms that stand for atoms, and the comparison of
  two atoms (\<^verbatim>\<open>erl_utils.h\<close>). The locks only make the operations atomic. The names of the predefined
  atoms are generated when the emulator is built, and are a parameter.
\<close>

subsection \<open>Data\<close>

text \<open>
  A template and an object of the table: the bytes at \<open>u.name\<close> or in the binary \<open>u.bin\<close> are \<open>u_name\<close>. Fields a
  template leaves unset are 0; no function reads them.
\<close>

record Atom = IndexSlot +
  a_len :: int
  latin1_chars :: int
  ord0 :: int
  u_name :: "u8 list"

record AtomTab =
  erts_atom_table :: IndexTable
  atom_store :: "Atom objstore"
  atom_space :: u64

datatype ErtsAtomEncoding = ERTS_ATOM_ENC_7BIT_ASCII | ERTS_ATOM_ENC_LATIN1 | ERTS_ATOM_ENC_UTF8

definition MAX_ATOM_CHARACTERS :: nat where "MAX_ATOM_CHARACTERS = 255"
definition MAX_ATOM_SZ_LIMIT :: nat where "MAX_ATOM_SZ_LIMIT = 4 * MAX_ATOM_CHARACTERS"
definition ATOM_BAD_ENCODING_ERROR :: int where "ATOM_BAD_ENCODING_ERROR = - 1"
definition ATOM_MAX_CHARS_ERROR :: int where "ATOM_MAX_CHARS_ERROR = - 2"
definition ATOM_SIZE :: nat where "ATOM_SIZE = 3000"

text \<open>The conversion to \<open>Sint16\<close>.\<close>

definition Sint16 :: "int \<Rightarrow> int" where "Sint16 n = sint (of_int n :: u16)"

definition make_atom :: "int \<Rightarrow> eterm" where "make_atom x = push_bit 6 (of_int x) + 0xB"
definition is_atom :: "eterm \<Rightarrow> bool" where "is_atom x \<longleftrightarrow> x AND 0x3F = 0xB"
definition atom_val :: "eterm \<Rightarrow> nat" where "atom_val x = unat (drop_bit 6 x)"

subsection \<open>The functions of the hash table\<close>

definition hashpjw :: "u64 \<Rightarrow> u8 \<Rightarrow> u64" where
  "hashpjw h v =
     (let h = push_bit 4 h + ucast v; g = h AND 0xf0000000 in
      if g \<noteq> 0 then (h XOR drop_bit 24 g) XOR g else h)"

text \<open>Two bytes of UTF-8 that encode a character of Latin-1 count as that character.\<close>

fun hash_bytes :: "u8 list \<Rightarrow> u64 \<Rightarrow> u64" where
  "hash_bytes [] h = h"
| "hash_bytes [v] h = hashpjw h v"
| "hash_bytes (v # w # p) h =
     (if v AND 0xFE = 0xC2 \<and> w AND 0xC0 = 0x80 then hash_bytes p (hashpjw h (push_bit 6 v OR (w AND 0x3F)))
      else hash_bytes (w # p) (hashpjw h v))"

definition atom_hash :: "Atom \<Rightarrow> u64" where
  "atom_hash a = hash_bytes (take (nat (a_len a)) (u_name a)) 0"

text \<open>The order of two blocks of \<open>n\<close> bytes; only the sign of the result is specified.\<close>

fun sys_memcmp :: "u8 list \<Rightarrow> u8 list \<Rightarrow> nat \<Rightarrow> int" where
  "sys_memcmp (x # xs) (y # ys) (Suc n) = (if x = y then sys_memcmp xs ys n else if x < y then - 1 else 1)"
| "sys_memcmp xs ys n = 0"

definition atom_cmp :: "Atom \<Rightarrow> Atom \<Rightarrow> int" where
  "atom_cmp tmpl x =
     (if a_len tmpl = a_len x \<and> take (nat (a_len tmpl)) (u_name tmpl) = take (nat (a_len tmpl)) (u_name x) then 0 else 1)"

text \<open>The first byte, or 0 past the end of the name.\<close>

definition ord_byte :: "u8 list \<Rightarrow> nat \<Rightarrow> int" where
  "ord_byte cs i = (if i < length cs then uint (cs ! i) else 0)"

definition ordinal :: "u8 list \<Rightarrow> int" where
  "ordinal cs = push_bit 23 (ord_byte cs 0) + push_bit 15 (ord_byte cs 1) + push_bit 7 (ord_byte cs 2) + drop_bit 1 (ord_byte cs 3)"

definition atom_alloc :: "Atom \<Rightarrow> Atom" where
  "atom_alloc tmpl =
     (let text = take (nat (a_len tmpl)) (u_name tmpl) in
      \<lparr>index = - 1, a_len = a_len tmpl, latin1_chars = latin1_chars tmpl, ord0 = ordinal text, u_name = text\<rparr>)"

definition atom_funs :: "Atom HashFunctions" where
  "atom_funs = \<lparr>fun_hash = atom_hash, fun_cmp = atom_cmp, fun_alloc = atom_alloc\<rparr>"

subsection \<open>From Latin-1 to UTF-8\<close>

fun latin1_convert :: "u8 list \<Rightarrow> u8 list" where
  "latin1_convert [] = []"
| "latin1_convert (chr # cs) =
     (if chr AND 0x80 = 0 then chr # latin1_convert cs
      else (0xC0 OR drop_bit 6 chr) # (0x80 OR (chr AND 0x3F)) # latin1_convert cs)"

definition latin1_to_utf8 :: "u8 list \<Rightarrow> nat \<Rightarrow> u8 list \<times> nat" where
  "latin1_to_utf8 src len =
     (let i = length (takeWhile (\<lambda>c. c AND 0x80 = 0) (take len src)) in
      if i = len then (src, len)
      else let conv_buf = take i src @ latin1_convert (drop i (take len src)) in (conv_buf, length conv_buf))"

subsection \<open>Putting and finding atoms\<close>

definition atom_tmpl :: "u8 list \<Rightarrow> int \<Rightarrow> int \<Rightarrow> Atom" where
  "atom_tmpl text tlen latin1 = \<lparr>index = 0, a_len = Sint16 tlen, latin1_chars = latin1, ord0 = 0, u_name = text\<rparr>"

text \<open>
  The table is searched and changed through the functions above; the text space grows by the length of an
  object that is allocated. A template whose length is negative makes the hash function read outside
  of the name, which is undefined.
\<close>

definition atom_index_get :: "Atom \<Rightarrow> AtomTab \<Rightarrow> int option" where
  "atom_index_get a s = (if a_len a < 0 then None else index_get atom_funs a (erts_atom_table s) (atom_store s))"

definition atom_index_put :: "addr \<Rightarrow> Atom \<Rightarrow> AtomTab \<Rightarrow> (int option \<times> AtomTab) option" where
  "atom_index_put b a s =
     (if a_len a < 0 then None
      else do {
        (i, t, st) \<leftarrow> index_put atom_funs b a (erts_atom_table s) (atom_store s);
        Some (i, \<lparr>erts_atom_table = t, atom_store = st,
          atom_space = (if nobjs (htable t) > nobjs (htable (erts_atom_table s)) then atom_space s + of_int (a_len a) else atom_space s)\<rparr>)
      })"

text \<open>The first switch of \<open>erts_atom_put_index\<close>: an error, or the text, its length and the Latin-1 characters.\<close>

definition put_encode :: "u8 list \<Rightarrow> nat \<Rightarrow> ErtsAtomEncoding \<Rightarrow> bool \<Rightarrow> int + u8 list \<times> nat \<times> int" where
  "put_encode name tlen enc trunc =
     (case enc of
        ERTS_ATOM_ENC_7BIT_ASCII \<Rightarrow>
          (if tlen > MAX_ATOM_CHARACTERS \<and> \<not> trunc then Inl ATOM_MAX_CHARS_ERROR
           else let tlen = (if tlen > MAX_ATOM_CHARACTERS then MAX_ATOM_CHARACTERS else tlen) in Inr (name, tlen, int tlen))
      | ERTS_ATOM_ENC_LATIN1 \<Rightarrow>
          (if tlen > MAX_ATOM_CHARACTERS \<and> \<not> trunc then Inl ATOM_MAX_CHARS_ERROR
           else let tlen = (if tlen > MAX_ATOM_CHARACTERS then MAX_ATOM_CHARACTERS else tlen);
                    (text, n) = latin1_to_utf8 name tlen in Inr (text, n, int tlen))
      | ERTS_ATOM_ENC_UTF8 \<Rightarrow>
          (if tlen > MAX_ATOM_SZ_LIMIT \<and> \<not> trunc then Inl ATOM_MAX_CHARS_ERROR else Inr (name, tlen, - 1)))"

text \<open>The check of a text that is not in the table yet.\<close>

definition put_verify :: "u8 list \<Rightarrow> nat \<Rightarrow> int \<Rightarrow> ErtsAtomEncoding \<Rightarrow> bool \<Rightarrow> int + nat \<times> int" where
  "put_verify text tlen latin1 enc trunc =
     (if enc = ERTS_ATOM_ENC_UTF8 then
        (let (res, pos, no_chars, _, latin1) = erts_analyze_utf8_x (take tlen text) None MAX_ATOM_CHARACTERS in
         case res of
           ERTS_UTF8_OK \<Rightarrow> Inr (tlen, latin1)
         | ERTS_UTF8_OK_MAX_CHARS \<Rightarrow> (if \<not> trunc then Inl ATOM_MAX_CHARS_ERROR else Inr (pos, latin1))
         | _ \<Rightarrow> Inl ATOM_BAD_ENCODING_ERROR)
      else Inr (tlen, latin1))"

text \<open>
  \<open>b\<close> is the address a new object gets. The result is \<open>None\<close> when a read is undefined, and the index is \<open>None\<close>
  when the emulator exits because the table is full.
\<close>

definition erts_atom_put_index ::
    "addr \<Rightarrow> u8 list \<Rightarrow> int \<Rightarrow> ErtsAtomEncoding \<Rightarrow> bool \<Rightarrow> AtomTab \<Rightarrow> (int option \<times> AtomTab) option" where
  "erts_atom_put_index b name len enc trunc s =
     (if len < 0 \<and> \<not> trunc then Some (Some ATOM_MAX_CHARS_ERROR, s)
      else let tlen = (if len < 0 then 0 else nat len) in
      if length name < tlen then None
      else case put_encode name tlen enc trunc of
        Inl e \<Rightarrow> Some (Some e, s)
      | Inr (text, tlen, latin1) \<Rightarrow> do {
          aix \<leftarrow> atom_index_get (atom_tmpl text (int tlen) 0) s;
          if aix \<ge> 0 then Some (Some aix, s)
          else case put_verify text tlen latin1 enc trunc of
            Inl e \<Rightarrow> Some (Some e, s)
          | Inr (tlen, latin1) \<Rightarrow> atom_index_put b (atom_tmpl text (int tlen) (Sint16 latin1)) s
        })"

definition erts_atom_put ::
    "addr \<Rightarrow> u8 list \<Rightarrow> int \<Rightarrow> ErtsAtomEncoding \<Rightarrow> bool \<Rightarrow> AtomTab \<Rightarrow> (eterm option \<times> AtomTab) option" where
  "erts_atom_put b name len enc trunc s = do {
     (aix, s) \<leftarrow> erts_atom_put_index b name len enc trunc s;
     Some (map_option (\<lambda>i. if i \<ge> 0 then make_atom i else THE_NON_VALUE) aix, s)
   }"

definition am_atom_put :: "addr \<Rightarrow> u8 list \<Rightarrow> int \<Rightarrow> AtomTab \<Rightarrow> (eterm option \<times> AtomTab) option" where
  "am_atom_put b name len s = erts_atom_put b name len ERTS_ATOM_ENC_7BIT_ASCII True s"

definition atom_table_size :: "AtomTab \<Rightarrow> int" where
  "atom_table_size s = entries (erts_atom_table s)"

definition erts_atom_get_text_space_sizes :: "AtomTab \<Rightarrow> u64 \<times> u64" where
  "erts_atom_get_text_space_sizes s = (atom_space s, atom_space s)"

definition erts_get_atom_limit :: "AtomTab \<Rightarrow> int" where
  "erts_get_atom_limit s = limit (erts_atom_table s)"

text \<open>The switch of \<open>erts_atom_get\<close>: the template, if the name can be one of an atom.\<close>

definition get_encode :: "u8 list \<Rightarrow> nat \<Rightarrow> ErtsAtomEncoding \<Rightarrow> Atom option" where
  "get_encode name len enc =
     (case enc of
        ERTS_ATOM_ENC_LATIN1 \<Rightarrow>
          (if len > MAX_ATOM_CHARACTERS then None
           else let (text, n) = latin1_to_utf8 name len in Some (atom_tmpl text (int n) 0))
      | ERTS_ATOM_ENC_7BIT_ASCII \<Rightarrow>
          (if len > MAX_ATOM_CHARACTERS \<or> \<not> list_all (\<lambda>c. c AND 0x80 = 0) (take len name) then None
           else Some (atom_tmpl name (int len) 0))
      | ERTS_ATOM_ENC_UTF8 \<Rightarrow> (if len > MAX_ATOM_SZ_LIMIT then None else Some (atom_tmpl name (int len) 0)))"

text \<open>The atom, if the result is 1.\<close>

definition erts_atom_get :: "u8 list \<Rightarrow> nat \<Rightarrow> ErtsAtomEncoding \<Rightarrow> AtomTab \<Rightarrow> eterm option option" where
  "erts_atom_get name len enc s =
     (if length name < len then None
      else case get_encode name len enc of
        None \<Rightarrow> Some None
      | Some a \<Rightarrow> do { i \<leftarrow> atom_index_get a s; Some (if i < 0 then None else Some (make_atom i)) })"

text \<open>The predefined names with the addresses of their objects.\<close>

fun init_names :: "(addr \<times> u8 list) list \<Rightarrow> nat \<Rightarrow> AtomTab \<Rightarrow> (bool \<times> AtomTab) option" where
  "init_names [] i s = Some (True, s)"
| "init_names ((b, name) # names) i s = do {
     (ix, s) \<leftarrow> atom_index_put b ((atom_tmpl name (int (length name)) (Sint16 (int (length name))))\<lparr>index := int i\<rparr>) s;
     (if ix = None then Some (False, s) else init_names names (i + 1) s)
   }"

text \<open>The flag is false when the emulator exits because the table cannot hold the names.\<close>

definition init_atom_table :: "nat \<Rightarrow> (addr \<times> u8 list) list \<Rightarrow> Atom objstore \<Rightarrow> (bool \<times> AtomTab) option" where
  "init_atom_table erts_atom_table_size erl_atom_names st = do {
     t \<leftarrow> erts_index_init ATOM_SIZE erts_atom_table_size;
     init_names erl_atom_names 0 \<lparr>erts_atom_table = t, atom_store = st, atom_space = 0\<rparr>
   }"

subsection \<open>Reading atoms\<close>

definition atom_tab :: "AtomTab \<Rightarrow> nat \<Rightarrow> Atom option" where
  "atom_tab s i = do { p \<leftarrow> erts_index_lookup (erts_atom_table s) i; e \<leftarrow> atom_store s p; Some (obj e) }"

definition erts_atom_get_name :: "Atom \<Rightarrow> u8 list" where
  "erts_atom_get_name a = u_name a"

definition erts_is_atom_utf8_bytes :: "u8 list \<Rightarrow> eterm \<Rightarrow> AtomTab \<Rightarrow> bool option" where
  "erts_is_atom_utf8_bytes text term s =
     (if \<not> is_atom term then Some False
      else do {
        a \<leftarrow> atom_tab s (atom_val term);
        Some (int (length text) = a_len a \<and> sys_memcmp (erts_atom_get_name a) text (length text) = 0)
      })"

text \<open>
  The loops of \<open>erts_is_atom_str\<close> from \<open>i\<close> on; the string is what is before its NUL. Reading past the NUL, or past
  the end of a name, is undefined.
\<close>

fun str_latin1 :: "u8 list \<Rightarrow> u8 list \<Rightarrow> bool option" where
  "str_latin1 [] s = Some (s = [])"
| "str_latin1 (a # name) [] =
     (if a \<noteq> 0xC0 then Some False
      else (case name of [] \<Rightarrow> None | a' # _ \<Rightarrow> if a' \<noteq> 0x80 then Some False else None))"
| "str_latin1 (a # name) (c # s) =
     (if a < 0x80 then (if a \<noteq> c then Some False else str_latin1 name s)
      else if a \<noteq> 0xC0 OR drop_bit 6 c then Some False
      else (case name of
              [] \<Rightarrow> None
            | a' # name' \<Rightarrow> (if a' \<noteq> 0x80 OR (c AND 0x3F) then Some False else str_latin1 name' s)))"

fun str_bytes :: "u8 list \<Rightarrow> u8 list \<Rightarrow> bool" where
  "str_bytes [] s = (s = [])"
| "str_bytes (a # name) [] = False"
| "str_bytes (a # name) (c # s) = (if a \<noteq> c then False else str_bytes name s)"

definition erts_is_atom_str :: "u8 list \<Rightarrow> eterm \<Rightarrow> bool \<Rightarrow> AtomTab \<Rightarrow> bool option" where
  "erts_is_atom_str str term is_latin1 s =
     (if \<not> is_atom term then Some False
      else do {
        a \<leftarrow> atom_tab s (atom_val term);
        let name = take (nat (a_len a)) (erts_atom_get_name a);
        if is_latin1 then str_latin1 name str else Some (str_bytes name str)
      })"

definition erts_is_atom_index_ok :: "nat \<Rightarrow> AtomTab \<Rightarrow> bool" where
  "erts_is_atom_index_ok ix s \<longleftrightarrow> int ix < entries (erts_atom_table s)"

definition cmp_names :: "Atom \<Rightarrow> Atom \<Rightarrow> int" where
  "cmp_names aa bb =
     (let diff = ord0 aa - ord0 bb in
      if diff \<noteq> 0 then diff
      else let name_a = drop 3 (erts_atom_get_name aa); name_b = drop 3 (erts_atom_get_name bb);
               len_a = a_len aa - 3; len_b = a_len bb - 3;
               diff = (if len_a > 0 \<and> len_b > 0 then sys_memcmp name_a name_b (nat (min len_a len_b)) else 0) in
      if diff \<noteq> 0 then diff else len_a - len_b)"

definition erts_cmp_atoms :: "eterm \<Rightarrow> eterm \<Rightarrow> AtomTab \<Rightarrow> int option" where
  "erts_cmp_atoms a b s = do {
     aa \<leftarrow> atom_tab s (atom_val a);
     bb \<leftarrow> atom_tab s (atom_val b);
     Some (cmp_names aa bb)
   }"

end
