(* ===== verification/AtomTableThms.thy ===== *)
theory AtomTableThms
  imports AtomTable
begin

text \<open>
  The table of atoms refines a list of names: an atom is the place of its name. All names in the table are
  valid UTF-8 of at most 255 characters, so that a name found by the first lookup needs no check.
  The comparison of two atoms is the lexicographic order of their names.
\<close>

subsection \<open>The functions of the table have keys\<close>

definition atom_key :: "Atom \<Rightarrow> int \<times> u8 list" where
  "atom_key a = (a_len a, take (nat (a_len a)) (u_name a))"

lemma atom_key_inj: "atom_cmp t x = 0 \<longleftrightarrow> atom_key t = atom_key x"
  by (auto simp: atom_cmp_def atom_key_def)

lemma atom_key_hash: "atom_key t = atom_key x \<Longrightarrow> atom_hash t = atom_hash x"
  by (auto simp: atom_key_def atom_hash_def)

lemma atom_key_alloc: "atom_key (atom_alloc t) = atom_key t"
  by (simp add: atom_key_def atom_alloc_def Let_def)

interpretation atoms: index_functions atom_funs atom_key
proof
  fix t x i
  show "fun_cmp atom_funs t x = 0 \<longleftrightarrow> atom_key t = atom_key x" by (simp add: atom_funs_def atom_key_inj)
  show "fun_hash atom_funs t = fun_hash atom_funs x" if "atom_key t = atom_key x" using atom_key_hash [OF that] by (simp add: atom_funs_def)
  show "atom_key (fun_alloc atom_funs t) = atom_key t" by (simp add: atom_funs_def atom_key_alloc)
  show "atom_key (x\<lparr>index := i\<rparr>) = atom_key x" by (simp add: atom_key_def)
  show "index (fun_alloc atom_funs x) = - 1" by (simp add: atom_funs_def atom_alloc_def Let_def)
qed

subsection \<open>Atoms as terms\<close>

lemma atom_val_make_atom:
  assumes "0 \<le> i" "i < 2 ^ 58"
  shows "atom_val (make_atom i) = nat i" "is_atom (make_atom i)"
proof -
  have "make_atom i = of_int (64 * i + 11)" by (simp add: make_atom_def push_bit_eq_mult)
  then have "uint (make_atom i) = (64 * i + 11) mod 2 ^ 64" by (simp only: uint_word_of_int) simp
  then have u: "uint (make_atom i) = 64 * i + 11" using assms by simp
  have "uint (drop_bit 6 (make_atom i)) = i" using u assms by (simp only: unsigned_drop_bit_eq) (simp add: drop_bit_eq_div take_bit_eq_mod)
  then show "atom_val (make_atom i) = nat i" by (simp add: atom_val_def unat_eq_nat_uint)
  have "make_atom i AND 0x3F = take_bit 6 (make_atom i)" by (simp add: take_bit_eq_mask mask_eq_exp_minus_1)
  then have "uint (make_atom i AND 0x3F) = take_bit 6 (uint (make_atom i))" by (simp only: unsigned_take_bit_eq)
  then have "uint (make_atom i AND 0x3F) = 11" using u by (simp add: take_bit_eq_mod)
  then show "is_atom (make_atom i)" by (simp add: is_atom_def word_uint_eq_iff)
qed

subsection \<open>Names\<close>

definition valid_name :: "nat list \<Rightarrow> bool" where
  "valid_name cs \<longleftrightarrow> list_all scalar cs \<and> length cs \<le> 255"

lemma utf8_length: "length (utf8 cs) \<le> 4 * length cs"
proof (induction cs)
  case (Cons c cs)
  have "length (utf8_enc c) \<le> 4" by (simp add: utf8_enc_def)
  then show ?case using Cons by simp
qed simp

lemma Sint16_id: "0 \<le> n \<Longrightarrow> n < 2 ^ 15 \<Longrightarrow> Sint16 n = n"
  by (simp add: Sint16_def signed_of_int signed_take_bit_int_eq_self)

lemma utf8_ascii: "list_all (\<lambda>c. unat c < 128) s \<Longrightarrow> utf8 (map unat s) = s"
  by (induction s) (simp_all add: utf8_enc_def)

text \<open>The two bytes of a character of Latin-1.\<close>

lemma latin1_words:
  "0xC0 OR drop_bit 6 b = 0xC0 + (of_nat (unat b div 64) :: u8)" "0x80 OR (b AND 0x3F) = 0x80 + (of_nat (unat b mod 64) :: u8)" for b :: u8
proof -
  have l: "unat b < 256" using unsigned_less [of b, where ?'a = nat] by simp
  have m: "(0xC0 :: u8) = NOT (mask 6)" "(0x80 :: u8) = NOT (mask 7)" "(0x3F :: u8) = mask 6" by (simp_all add: mask_eq_exp_minus_1)
  have "NOT (mask 6) AND drop_bit 6 b = (0 :: u8)" "NOT (mask 7) AND (b AND mask 6) = (0 :: u8)"
    by (rule bit_word_eqI; auto simp add: bit_simps simp del: mask_numeral dest: bit_imp_le_length)+
  then have "0xC0 AND drop_bit 6 b = (0 :: u8)" "0x80 AND (b AND 0x3F) = (0 :: u8)" unfolding m .
  then have "0xC0 OR drop_bit 6 b = 0xC0 + drop_bit 6 b" "0x80 OR (b AND 0x3F) = 0x80 + (b AND 0x3F)"
    by (simp_all add: disjunctive_add_eq_or)
  moreover have "drop_bit 6 b = of_nat (unat b div 64)" "b AND 0x3F = of_nat (unat b mod 64)"
    using low_masks(4) [of b] l unat_drop_bit_eq [of 6 b]
    by (simp_all add: word_unat_eq_iff unat_u8, simp add: drop_bit_eq_div)
  ultimately show "0xC0 OR drop_bit 6 b = 0xC0 + (of_nat (unat b div 64) :: u8)" "0x80 OR (b AND 0x3F) = 0x80 + (of_nat (unat b mod 64) :: u8)"
    by simp_all
qed

lemma latin1_unat: "unat (0xC0 OR drop_bit 6 b) = 192 + unat b div 64" "unat (0x80 OR (b AND 0x3F)) = 128 + unat b mod 64" for b :: u8
proof -
  have "unat b < 256" using unsigned_less [of b, where ?'a = nat] by simp
  then show "unat (0xC0 OR drop_bit 6 b) = 192 + unat b div 64" unfolding latin1_words(1) by (intro unat_offset) simp
  show "unat (0x80 OR (b AND 0x3F)) = 128 + unat b mod 64" unfolding latin1_words(2) by (intro unat_offset) simp
qed

lemma latin1_byte:
  assumes "\<not> unat (b :: u8) < 128"
  shows "utf8_enc (unat b) = [0xC0 OR drop_bit 6 b, 0x80 OR (b AND 0x3F)]"
proof -
  have "unat b < 256" using unsigned_less [of b, where ?'a = nat] by simp
  then show ?thesis using assms unfolding latin1_words by (simp add: utf8_enc_def)
qed

lemma latin1_convert_utf8: "latin1_convert s = utf8 (map unat s)"
proof (induction s)
  case (Cons b s)
  have "utf8_enc (unat b) = [b]" if "unat b < 128" using that by (simp add: utf8_enc_def)
  then show ?case using Cons latin1_byte [of b] by (cases "unat b < 128") (simp_all only: latin1_convert.simps high_masks(1) list.map utf8_Cons, simp_all)
qed simp

lemma latin1_to_utf8_ok:
  assumes "latin1_to_utf8 src len = (text, n)" "len \<le> length src"
  shows "n \<le> length text" "take n text = utf8 (map unat (take len src))"
proof -
  define i where "i = length (takeWhile (\<lambda>c. c AND 0x80 = 0) (take len src))"
  have i: "takeWhile (\<lambda>c. c AND 0x80 = 0) (take len src) = take i (take len src)" unfolding i_def by (rule takeWhile_eq_take)
  have "list_all (\<lambda>c. c AND 0x80 = 0) (take i (take len src))"
    unfolding i [symmetric] list_all_iff by (blast dest: set_takeWhileD)
  then have a: "list_all (\<lambda>c. unat c < 128) (take i (take len src))" unfolding high_masks(1) .
  have le: "i \<le> len" using length_takeWhile_le [of "\<lambda>c. c AND 0x80 = 0" "take len src"] by (simp add: i_def)
  have "utf8 (map unat (take len src)) = utf8 (map unat (take i (take len src))) @ utf8 (map unat (drop i (take len src)))"
    by (metis append_take_drop_id map_append utf8_append)
  then have e: "utf8 (map unat (take len src)) = take i src @ latin1_convert (drop i (take len src))"
    using utf8_ascii [OF a] le by (simp add: latin1_convert_utf8 min_absorb1)
  have "n \<le> length text \<and> take n text = utf8 (map unat (take len src))"
  proof (cases "i = len")
    case True
    then have "text = src" "n = len" using assms(1) unfolding latin1_to_utf8_def Let_def i_def [symmetric] by simp_all
    then show ?thesis using e True assms(2) by simp
  next
    case False
    then have "text = utf8 (map unat (take len src))" "n = length text"
      using assms(1) unfolding latin1_to_utf8_def Let_def i_def [symmetric] e by auto
    then show ?thesis by simp
  qed
  then show "n \<le> length text" "take n text = utf8 (map unat (take len src))" by simp_all
qed

subsection \<open>The invariant\<close>

text \<open>An object of the table: a valid name with what \<open>atom_alloc\<close> computes of it.\<close>

definition atom_wf :: "Atom \<Rightarrow> bool" where
  "atom_wf x \<longleftrightarrow> (\<exists>cs. valid_name cs \<and> u_name x = utf8 cs \<and> latin1_chars x = latin1_count cs)
     \<and> a_len x = int (length (u_name x)) \<and> ord0 x = ordinal (u_name x)"

definition atom_state :: "AtomTab \<Rightarrow> IndexTable \<times> Atom objstore" where
  "atom_state s = (erts_atom_table s, atom_store s)"

text \<open>The names with the addresses of their objects, in the order of the numbers.\<close>

definition atom_list :: "AtomTab \<Rightarrow> (addr \<times> u8 list) list" where
  "atom_list s = map (\<lambda>(p, x). (p, u_name x)) (index_list (atom_state s))"

definition atoms_ok :: "nat \<Rightarrow> AtomTab \<Rightarrow> bool" where
  "atoms_ok lim s \<longleftrightarrow> index_ok lim atom_funs atom_key (atom_state s) \<and> (\<forall>(p, x) \<in> set (index_list (atom_state s)). atom_wf x)
     \<and> atom_space s = of_nat (sum_list (map (length \<circ> snd) (atom_list s)))"

lemma valid_name_length:
  assumes "valid_name cs"
  shows "length (utf8 cs) \<le> 1020"
  using utf8_length [of cs] assms by (simp add: valid_name_def)

lemma place_map: "inj f \<Longrightarrow> place (f k) (map f xs) = place k xs"
  by (induction xs) (auto simp: inj_def)

lemma place_absent: "k \<notin> set xs \<Longrightarrow> place k xs = length xs"
  by (induction xs) auto

text \<open>The keys of the table are the names.\<close>

abbreviation name_key :: "u8 list \<Rightarrow> int \<times> u8 list" where "name_key n \<equiv> (int (length n), n)"

lemma atom_keys:
  assumes "atoms_ok lim s"
  shows "map (key_at atom_key (atom_store s)) (index_objs (erts_atom_table s)) = map name_key (map snd (atom_list s))"
proof -
  have "atom_key x = name_key (u_name x)" if "(p, x) \<in> set (index_list (atom_state s))" for p x
  proof -
    have "atom_wf x" using assms that by (auto simp: atoms_ok_def)
    then show ?thesis by (simp add: atom_wf_def atom_key_def)
  qed
  then have "map (atom_key \<circ> snd) (index_list (atom_state s)) = map name_key (map snd (atom_list s))"
    by (auto simp: atom_list_def case_prod_beta)
  then show ?thesis unfolding atom_state_def index_list_keys .
qed

lemma name_found:
  assumes "atoms_ok lim s"
  shows "name_key n \<in> set (map (key_at atom_key (atom_store s)) (index_objs (erts_atom_table s))) \<longleftrightarrow> n \<in> set (map snd (atom_list s))"
    "place (name_key n) (map (key_at atom_key (atom_store s)) (index_objs (erts_atom_table s))) = place n (map snd (atom_list s))"
proof -
  have "inj name_key" by (auto simp: inj_def)
  then show "place (name_key n) (map (key_at atom_key (atom_store s)) (index_objs (erts_atom_table s))) = place n (map snd (atom_list s))"
    unfolding atom_keys [OF assms] by (rule place_map)
  show "name_key n \<in> set (map (key_at atom_key (atom_store s)) (index_objs (erts_atom_table s))) \<longleftrightarrow> n \<in> set (map snd (atom_list s))"
    unfolding atom_keys [OF assms] by auto
qed

lemma tmpl_key:
  assumes "tlen \<le> length text" "tlen < 2 ^ 15"
  shows "atom_key (atom_tmpl text (int tlen) l) = name_key (take tlen text)" "a_len (atom_tmpl text (int tlen) l) = int tlen"
  using assms by (simp_all add: atom_key_def atom_tmpl_def Sint16_id)

lemma atom_index_get_ok:
  assumes ok: "atoms_ok lim s" and t: "tlen \<le> length text" "tlen < 2 ^ 15"
  shows "atom_index_get (atom_tmpl text (int tlen) l) s
    = Some (if take tlen text \<in> set (map snd (atom_list s)) then int (place (take tlen text) (map snd (atom_list s))) else - 1)"
proof -
  have r: "index_rel atom_funs atom_key (erts_atom_table s) (atom_store s) (index_objs (erts_atom_table s))"
    using ok by (simp add: atoms_ok_def index_ok_def atom_state_def)
  show ?thesis using atoms.index_get_ok [OF r, of "atom_tmpl text (int tlen) l"] tmpl_key [OF t, of l] name_found [OF ok, of "take tlen text"]
    by (simp add: atom_index_get_def)
qed

text \<open>The state of a table with the objects \<open>ps\<close>.\<close>

lemma rel_state:
  fixes sp :: u64
  assumes r: "index_rel atom_funs atom_key t st ps"
  defines "s \<equiv> \<lparr>erts_atom_table = t, atom_store = st, atom_space = sp\<rparr>"
  shows "nobjs (htable t) = int (length ps)" "atom_list s = map (\<lambda>p. (p, u_name (obj (the (st p))))) ps"
    "atoms_ok lim s \<longleftrightarrow> limit t = int lim \<and> (\<forall>p \<in> set ps. atom_wf (obj (the (st p)))) \<and> sp = of_nat (sum_list (map (length \<circ> snd) (atom_list s)))"
proof -
  have o: "index_objs t = ps" by (rule index_rel_objs [OF r])
  have "hash_ok atom_funs atom_key (htable t) st" using r by (simp add: index_rel_def)
  then show "nobjs (htable t) = int (length ps)" using index_rel_facts(2) [OF r] by (simp add: hash_ok_def)
  show "atom_list s = map (\<lambda>p. (p, u_name (obj (the (st p))))) ps" by (simp add: s_def atom_list_def index_list_def atom_state_def o)
  show "atoms_ok lim s \<longleftrightarrow> limit t = int lim \<and> (\<forall>p \<in> set ps. atom_wf (obj (the (st p)))) \<and> sp = of_nat (sum_list (map (length \<circ> snd) (atom_list s)))"
    using r by (simp add: s_def atoms_ok_def index_ok_def index_list_def atom_state_def o)
qed

lemma atom_alloc_wf:
  assumes "tlen \<le> length text" "take tlen text = utf8 cs" "valid_name cs"
  shows "atom_wf ((atom_alloc ((atom_tmpl text (int tlen) (latin1_count cs))\<lparr>index := j\<rparr>))\<lparr>index := i\<rparr>)"
    "u_name (atom_alloc ((atom_tmpl text (int tlen) (latin1_count cs))\<lparr>index := j\<rparr>)) = utf8 cs"
proof -
  have "length (take tlen text) = tlen" using assms(1) by simp
  then have l: "tlen = length (utf8 cs)" unfolding assms(2) by simp
  then have "Sint16 (int tlen) = int tlen" using valid_name_length [OF assms(3)] by (simp add: Sint16_id)
  then show "atom_wf ((atom_alloc ((atom_tmpl text (int tlen) (latin1_count cs))\<lparr>index := j\<rparr>))\<lparr>index := i\<rparr>)"
    "u_name (atom_alloc ((atom_tmpl text (int tlen) (latin1_count cs))\<lparr>index := j\<rparr>)) = utf8 cs"
    using assms l by (auto simp: atom_alloc_def atom_tmpl_def atom_wf_def Let_def)
qed

text \<open>Putting a valid name.\<close>

lemma atom_index_put_ok:
  fixes j :: int
  assumes ok: "atoms_ok lim s" and t: "tlen \<le> length text" "take tlen text = utf8 cs" "valid_name cs"
    and room: "b \<notin> fst ` set (atom_list s)" "length (atom_list s) < 2 ^ 27" "length (atom_list s) < capacity lim"
  defines "a \<equiv> (atom_tmpl text (int tlen) (latin1_count cs))\<lparr>index := j\<rparr>" and "ns \<equiv> map snd (atom_list s)"
  shows "\<exists>s'. atom_index_put b a s = Some (Some (int (place (utf8 cs) ns)), s') \<and> atoms_ok lim s'
    \<and> atom_list s' = (if utf8 cs \<in> set ns then atom_list s else atom_list s @ [(b, utf8 cs)])"
proof -
  obtain tab st sp where s: "s = \<lparr>erts_atom_table = tab, atom_store = st, atom_space = sp\<rparr>" by (cases s)
  define ps where "ps = index_objs tab"
  have r: "index_rel atom_funs atom_key tab st ps" and l: "limit tab = int lim"
    using ok by (simp_all add: atoms_ok_def index_ok_def atom_state_def ps_def s)
  have len: "tlen = length (utf8 cs)" using arg_cong [OF t(2), of length] t(1) by simp
  then have tl: "tlen < 2 ^ 15" using valid_name_length [OF t(3)] by simp
  have key: "atom_key a = name_key (utf8 cs)" "a_len a = int (length (utf8 cs))"
    using t(1,2) len Sint16_id [of "int tlen"] tl by (simp_all add: a_def atom_key_def atom_tmpl_def)
  note st = rel_state(1) [OF r] rel_state(2,3) [OF r, where sp = sp, folded s]
  have b: "b \<notin> set ps" "length ps < 2 ^ 27" "length ps < capacity (nat (limit tab))"
    using room l unfolding st(2) by (auto simp: image_image)
  note found = name_found [OF ok, unfolded s AtomTab.simps, folded ps_def, folded s, of "utf8 cs", folded ns_def]
  obtain i t' st' ps' where p: "index_put atom_funs b a tab st = Some (Some (int i), t', st')" "index_rel atom_funs atom_key t' st' ps'" "limit t' = limit tab"
    and c: "if atom_key a \<in> set (map (key_at atom_key st) ps) then i = place (atom_key a) (map (key_at atom_key st) ps) \<and> ps' = ps \<and> st' = st
       else i = length ps \<and> ps' = ps @ [b]
         \<and> st' b = Some \<lparr>hvalue = fun_hash atom_funs a, obj = (fun_alloc atom_funs a)\<lparr>index := int (length ps)\<rparr>\<rparr> \<and> (\<forall>x. x \<noteq> b \<longrightarrow> st' x = st x)"
    using atoms.index_put_room [OF r b, of a] by blast
  define sp' where "sp' = (if nobjs (htable t') > nobjs (htable tab) then sp + of_int (a_len a) else sp)"
  define s' where "s' = \<lparr>erts_atom_table = t', atom_store = st', atom_space = sp'\<rparr>"
  note st' = rel_state(1) [OF p(2)] rel_state(2,3) [OF p(2), where sp = sp', folded s'_def]
  have put: "atom_index_put b a s = Some (Some (int i), s')" using p(1) key(2) by (simp add: atom_index_put_def s s'_def sp'_def)
  show ?thesis
  proof (cases "utf8 cs \<in> set ns")
    case True
    then have e: "i = place (utf8 cs) ns" "ps' = ps" "st' = st" using c found unfolding key(1) by auto
    have "atom_list s' = atom_list s" using e st(2) st'(2) by simp
    moreover have "sp' = sp" using st(1) st'(1) e(2) by (simp add: sp'_def)
    ultimately show ?thesis using put True e ok st(3) [of lim] st'(3) [of lim] p(3) by auto
  next
    case False
    then have e: "i = length ps" "ps' = ps @ [b]" "\<forall>x. x \<noteq> b \<longrightarrow> st' x = st x"
        "st' b = Some \<lparr>hvalue = fun_hash atom_funs a, obj = (atom_alloc a)\<lparr>index := int (length ps)\<rparr>\<rparr>"
      using c found unfolding key(1) by (auto simp: atom_funs_def)
    have keep: "\<forall>x \<in> set ps. st' x = st x" using e(3) b(1) by metis
    note wf = atom_alloc_wf(1) [OF t, where j = j and i = "int (length ps)", folded a_def] atom_alloc_wf(2) [OF t, where j = j, folded a_def]
    have al: "atom_list s' = atom_list s @ [(b, utf8 cs)]" using e(2,4) keep wf(2) unfolding st(2) st'(2) by simp
    have "sp' = sp + of_nat (length (utf8 cs))" using st(1) st'(1) e(2) key(2) by (simp add: sp'_def)
    then have "atoms_ok lim s'" using ok st(3) [of lim] st'(3) [of lim] p(3) e(2,4) keep wf(1) al by simp
    moreover have "i = place (utf8 cs) ns" using False e(1) place_absent [of "utf8 cs" ns] by (simp add: ns_def st(2))
    ultimately show ?thesis using put False al by auto
  qed
qed

subsection \<open>The name a call puts\<close>

text \<open>
  The name in UTF-8, or the error. A name in Latin-1 (or ASCII) has a character for each byte; the analysis of
  UTF-8 tells whether the bytes are an encoding of at most 255 characters, or start with 255 characters.
\<close>

definition put_name :: "u8 list \<Rightarrow> int \<Rightarrow> ErtsAtomEncoding \<Rightarrow> bool \<Rightarrow> int + u8 list" where
  "put_name name len enc trunc =
     (if len < 0 then (if trunc then Inr [] else Inl ATOM_MAX_CHARS_ERROR)
      else let text = take (nat len) name in
      if enc = ERTS_ATOM_ENC_UTF8 then
        (if len > 1020 \<and> \<not> trunc then Inl ATOM_MAX_CHARS_ERROR
         else let (res, pos, _) = erts_analyze_utf8_x text None 255 in
         if res = ERTS_UTF8_OK then Inr text
         else if res = ERTS_UTF8_OK_MAX_CHARS then (if trunc then Inr (take pos text) else Inl ATOM_MAX_CHARS_ERROR)
         else Inl ATOM_BAD_ENCODING_ERROR)
      else if length text > 255 \<and> \<not> trunc then Inl ATOM_MAX_CHARS_ERROR
      else Inr (utf8 (take 255 (map unat text))))"

text \<open>
  What is asked of the bytes: they are there, ASCII is ASCII, and the length fits the 16-bit field \<open>len\<close> of an atom.
  The last is not checked by \<open>erts_atom_put_index\<close>: with truncation a longer name reaches the field.
\<close>

definition name_pre :: "u8 list \<Rightarrow> int \<Rightarrow> ErtsAtomEncoding \<Rightarrow> bool" where
  "name_pre name len enc \<longleftrightarrow> len \<le> int (length name) \<and> len < 2 ^ 15
     \<and> (enc = ERTS_ATOM_ENC_7BIT_ASCII \<longrightarrow> list_all (\<lambda>c. unat c < 128) (take (nat len) name))"

lemma latin1_valid: "length s \<le> 255 \<Longrightarrow> valid_name (map unat s) \<and> latin1_count (map unat s) = int (length s)" for s :: "u8 list"
proof -
  assume l: "length s \<le> 255"
  have "unat b < 256" for b :: u8 using unsigned_less [of b, where ?'a = nat] by simp
  then have "list_all (\<lambda>c. c < 256) (map unat s)" by (simp add: list_all_iff)
  moreover from this have "list_all scalar (map unat s)" by (auto simp: list_all_iff scalar_def)
  ultimately show ?thesis using l by (simp add: valid_name_def latin1_count_def)
qed

text \<open>The first switch: a valid text for Latin-1.\<close>

lemma put_encode_latin1:
  assumes pre: "name_pre name (int tlen) enc" and enc: "enc \<noteq> ERTS_ATOM_ENC_UTF8"
  shows "put_encode name tlen enc trunc = Inl ATOM_MAX_CHARS_ERROR \<and> put_name name (int tlen) enc trunc = Inl ATOM_MAX_CHARS_ERROR
    \<or> (\<exists>text n cs. put_encode name tlen enc trunc = Inr (text, n, latin1_count cs) \<and> put_name name (int tlen) enc trunc = Inr (utf8 cs)
         \<and> n \<le> length text \<and> take n text = utf8 cs \<and> valid_name cs)"
proof -
  have l: "tlen \<le> length name" using pre by (simp add: name_pre_def)
  define m where "m = (if tlen > 255 then 255 else tlen)"
  define cs where "cs = map (unat :: u8 \<Rightarrow> nat) (take m name)"
  have m: "take 255 (map unat (take tlen name)) = cs" "m \<le> length name" "m \<le> 255" using l by (auto simp: m_def cs_def take_map)
  have cs: "valid_name cs" "latin1_count cs = int m" using latin1_valid [of "take m name"] m(2,3) unfolding cs_def by auto
  show ?thesis
  proof (cases "tlen > 255 \<and> \<not> trunc")
    case True
    then show ?thesis using enc l by (cases enc) (simp_all add: put_encode_def put_name_def MAX_ATOM_CHARACTERS_def)
  next
    case no: False
    then have name: "put_name name (int tlen) enc trunc = Inr (utf8 cs)" using enc l by (auto simp: put_name_def m(1))
    show ?thesis
    proof (cases enc)
      case ERTS_ATOM_ENC_7BIT_ASCII
      have "set (take m name) \<subseteq> set (take tlen name)" by (rule set_take_subset_set_take) (simp add: m_def)
      then have "list_all (\<lambda>c. unat c < 128) (take m name)"
        using pre ERTS_ATOM_ENC_7BIT_ASCII by (auto simp: name_pre_def list_all_iff dest: subsetD)
      then have "take m name = utf8 cs" using utf8_ascii by (simp add: cs_def)
      moreover have "put_encode name tlen enc trunc = Inr (name, m, int m)"
        using no ERTS_ATOM_ENC_7BIT_ASCII by (simp add: put_encode_def m_def MAX_ATOM_CHARACTERS_def)
      ultimately show ?thesis using name cs m(2) by (intro disjI2 exI [of _ name] exI [of _ m] exI [of _ cs]) simp
    next
      case ERTS_ATOM_ENC_LATIN1
      obtain tx n where t: "latin1_to_utf8 name m = (tx, n)" by (cases "latin1_to_utf8 name m")
      have "put_encode name tlen enc trunc = Inr (tx, n, int m)"
        using no ERTS_ATOM_ENC_LATIN1 t by (auto simp: put_encode_def MAX_ATOM_CHARACTERS_def m_def split: if_splits)
      then show ?thesis using name cs latin1_to_utf8_ok [OF t m(2), folded cs_def] by (intro disjI2 exI [of _ tx] exI [of _ n] exI [of _ cs]) simp
    qed (use enc in simp)
  qed
qed

lemma analysis_cases:
  obtains (ok) cs n left where "erts_analyze_utf8_x s None 255 = (ERTS_UTF8_OK, length s, n, left, latin1_count cs)" "s = utf8 cs" "valid_name cs"
  | (max) cs r n left where "erts_analyze_utf8_x s None 255 = (ERTS_UTF8_OK_MAX_CHARS, length (utf8 cs), n, left, latin1_count cs)"
      "s = utf8 cs @ r" "valid_name cs"
  | (bad) res x where "erts_analyze_utf8_x s None 255 = (res, x)" "res \<noteq> ERTS_UTF8_OK" "res \<noteq> ERTS_UTF8_OK_MAX_CHARS"
proof -
  obtain res pos n left l where e: "erts_analyze_utf8_x s None 255 = (res, pos, n, left, l)" by (metis prod_cases5)
  show ?thesis
  proof (cases "res = ERTS_UTF8_OK \<or> res = ERTS_UTF8_OK_MAX_CHARS")
    case True
    obtain cs r where c: "list_all scalar cs" "s = utf8 cs @ r" "pos = length (utf8 cs)" "l = latin1_count cs"
        "if res = ERTS_UTF8_OK then r = [] \<and> length cs \<le> 255 else r \<noteq> [] \<and> length cs = 255"
      using analyze_accepts [OF e _ True] by auto
    then have "valid_name cs" by (auto simp: valid_name_def split: if_splits)
    then show ?thesis using that(1) [of n left cs] that(2) [of cs n left r] c e True by (auto split: if_splits)
  next
    case False
    then show ?thesis using that(3) e by auto
  qed
qed

subsection \<open>Putting a name\<close>

definition add_name :: "addr \<Rightarrow> u8 list \<Rightarrow> (addr \<times> u8 list) list \<Rightarrow> (addr \<times> u8 list) list" where
  "add_name b n l = (if n \<in> set (map snd l) then l else l @ [(b, n)])"

definition room :: "nat \<Rightarrow> addr \<Rightarrow> (addr \<times> u8 list) list \<Rightarrow> bool" where
  "room lim b l \<longleftrightarrow> b \<notin> fst ` set l \<and> length l < 2 ^ 27 \<and> length l < capacity lim"

lemma put_valid:
  assumes ok: "atoms_ok lim s" and t: "tlen \<le> length text" "take tlen text = utf8 cs" "valid_name cs" and rm: "room lim b (atom_list s)"
  shows "\<exists>s'. atom_index_put b (atom_tmpl text (int tlen) (Sint16 (latin1_count cs))) s = Some (Some (int (place (utf8 cs) (map snd (atom_list s)))), s')
    \<and> atoms_ok lim s' \<and> atom_list s' = add_name b (utf8 cs) (atom_list s)"
proof -
  have "latin1_count cs = - 1 \<or> 0 \<le> latin1_count cs \<and> latin1_count cs \<le> 255" using t(3) by (auto simp: latin1_count_def valid_name_def)
  then have "Sint16 (latin1_count cs) = latin1_count cs" using Sint16_id [of "latin1_count cs"] by (auto simp: Sint16_def)
  moreover have "(atom_tmpl text (int tlen) (latin1_count cs))\<lparr>index := 0\<rparr> = atom_tmpl text (int tlen) (latin1_count cs)"
    by (simp add: atom_tmpl_def)
  ultimately show ?thesis using atom_index_put_ok [OF ok t, where j = 0 and b = b] rm by (auto simp: room_def add_name_def)
qed

text \<open>The result of a put of a name.\<close>

definition put_result :: "addr \<Rightarrow> int + u8 list \<Rightarrow> (addr \<times> u8 list) list \<Rightarrow> int \<times> (addr \<times> u8 list) list" where
  "put_result b r l = (case r of Inl e \<Rightarrow> (e, l) | Inr n \<Rightarrow> (int (place n (map snd l)), add_name b n l))"

lemma put_latin1:
  assumes ok: "atoms_ok lim s" and pre: "name_pre name (int tlen) enc" and rm: "room lim b (atom_list s)" and enc: "enc \<noteq> ERTS_ATOM_ENC_UTF8"
  shows "\<exists>s'. erts_atom_put_index b name (int tlen) enc trunc s = Some (Some (fst (put_result b (put_name name (int tlen) enc trunc) (atom_list s))), s')
    \<and> atoms_ok lim s' \<and> atom_list s' = snd (put_result b (put_name name (int tlen) enc trunc) (atom_list s))"
  using put_encode_latin1 [OF pre enc, of trunc]
proof (elim disjE exE conjE)
  assume "put_encode name tlen enc trunc = Inl ATOM_MAX_CHARS_ERROR" "put_name name (int tlen) enc trunc = Inl ATOM_MAX_CHARS_ERROR"
  then show ?thesis using ok pre by (auto simp: erts_atom_put_index_def put_result_def name_pre_def)
next
  fix tx n cs
  assume p: "put_encode name tlen enc trunc = Inr (tx, n, latin1_count cs)" "put_name name (int tlen) enc trunc = Inr (utf8 cs)"
    and t: "n \<le> length tx" "take n tx = utf8 cs" "valid_name cs"
  have "n < 2 ^ 15" using valid_name_length [OF t(3)] t(1) unfolding t(2) [symmetric] by simp
  note get = atom_index_get_ok [OF ok t(1) this, of 0, unfolded t(2)]
  show ?thesis
  proof (cases "utf8 cs \<in> set (map snd (atom_list s))")
    case True
    then have "erts_atom_put_index b name (int tlen) enc trunc s = Some (Some (int (place (utf8 cs) (map snd (atom_list s)))), s)"
      using get p(1) pre by (simp add: erts_atom_put_index_def name_pre_def)
    then show ?thesis using p(2) ok True by (simp add: put_result_def add_name_def)
  next
    case False
    then have "erts_atom_put_index b name (int tlen) enc trunc s = atom_index_put b (atom_tmpl tx (int n) (Sint16 (latin1_count cs))) s"
      using get p(1) pre enc by (simp add: erts_atom_put_index_def name_pre_def put_verify_def)
    then show ?thesis using put_valid [OF ok t rm] p(2) by (simp add: put_result_def)
  qed
qed

text \<open>Every name in the table is valid, so the one that is found needs no check.\<close>

lemma names_valid:
  assumes "atoms_ok lim s" "n \<in> set (map snd (atom_list s))"
  shows "\<exists>cs. valid_name cs \<and> n = utf8 cs"
  using assms by (fastforce simp: atoms_ok_def atom_list_def atom_wf_def)

lemma put_utf8:
  assumes ok: "atoms_ok lim s" and pre: "name_pre name (int tlen) ERTS_ATOM_ENC_UTF8" and rm: "room lim b (atom_list s)"
  defines "enc \<equiv> ERTS_ATOM_ENC_UTF8"
  shows "\<exists>s'. erts_atom_put_index b name (int tlen) enc trunc s = Some (Some (fst (put_result b (put_name name (int tlen) enc trunc) (atom_list s))), s')
    \<and> atoms_ok lim s' \<and> atom_list s' = snd (put_result b (put_name name (int tlen) enc trunc) (atom_list s))"
proof -
  have l: "tlen \<le> length name" "tlen < 2 ^ 15" using pre by (simp_all add: name_pre_def)
  note get = atom_index_get_ok [OF ok l, of 0]
  consider (long) "tlen > 1020" "\<not> trunc" | (found) "tlen \<le> 1020 \<or> trunc" "take tlen name \<in> set (map snd (atom_list s))"
    | (new) "tlen \<le> 1020 \<or> trunc" "take tlen name \<notin> set (map snd (atom_list s))" by linarith
  then show ?thesis
  proof cases
    case long
    then show ?thesis using ok l
      by (auto simp: erts_atom_put_index_def put_result_def put_encode_def put_name_def enc_def MAX_ATOM_SZ_LIMIT_def MAX_ATOM_CHARACTERS_def)
  next
    case found
    obtain cs where cs: "valid_name cs" "take tlen name = utf8 cs" using names_valid [OF ok found(2)] by blast
    then have "put_name name (int tlen) enc trunc = Inr (utf8 cs)"
      using found(1) analyze_valid [of cs 255] by (auto simp: put_name_def enc_def valid_name_def)
    moreover have "erts_atom_put_index b name (int tlen) enc trunc s = Some (Some (int (place (utf8 cs) (map snd (atom_list s)))), s)"
      using found get l cs(2)
      by (auto simp: erts_atom_put_index_def put_encode_def enc_def MAX_ATOM_SZ_LIMIT_def MAX_ATOM_CHARACTERS_def)
    ultimately show ?thesis using ok found(2) cs(2) by (simp add: put_result_def add_name_def)
  next
    case new
    have tail: "erts_atom_put_index b name (int tlen) enc trunc s =
      (case put_verify name tlen (- 1) enc trunc of Inl e \<Rightarrow> Some (Some e, s) | Inr (tlen, latin1) \<Rightarrow> atom_index_put b (atom_tmpl name (int tlen) (Sint16 latin1)) s)"
      using new get l by (auto simp: erts_atom_put_index_def put_encode_def enc_def MAX_ATOM_SZ_LIMIT_def MAX_ATOM_CHARACTERS_def)
    show ?thesis
    proof (cases rule: analysis_cases [of "take tlen name"])
      case (ok cs n left)
      then have "put_name name (int tlen) enc trunc = Inr (utf8 cs)" "put_verify name tlen (- 1) enc trunc = Inr (tlen, latin1_count cs)"
        using new(1) by (auto simp: put_name_def enc_def put_verify_def MAX_ATOM_CHARACTERS_def)
      then show ?thesis using tail put_valid [OF assms(1) l(1) ok(2,3) rm] by (simp add: put_result_def)
    next
      case (max cs r n left)
      have p: "length (utf8 cs) \<le> length name" "take (length (utf8 cs)) name = utf8 cs"
        using max(2) l(1) by (metis append_eq_conv_conj length_append length_take min.absorb2 le_add1 order_trans,
          metis append_eq_conv_conj length_append length_take min.absorb2 le_add1 take_take min.commute)
      show ?thesis
      proof (cases trunc)
        case True
        then have "put_name name (int tlen) enc trunc = Inr (utf8 cs)" "put_verify name tlen (- 1) enc trunc = Inr (length (utf8 cs), latin1_count cs)"
          using max(1,2) by (simp_all add: put_name_def enc_def put_verify_def MAX_ATOM_CHARACTERS_def)
        then show ?thesis using tail put_valid [OF assms(1) p max(3) rm] by (simp add: put_result_def)
      next
        case False
        then have "put_name name (int tlen) enc trunc = Inl ATOM_MAX_CHARS_ERROR" "put_verify name tlen (- 1) enc trunc = Inl ATOM_MAX_CHARS_ERROR"
          using max(1) new(1) by (simp_all add: put_name_def enc_def put_verify_def MAX_ATOM_CHARACTERS_def)
        then show ?thesis using tail assms(1) by (simp add: put_result_def)
      qed
    next
      case (bad res x)
      obtain pos n left latin1 where "x = (pos, n, left, latin1)" by (cases x)
      then have "put_name name (int tlen) enc trunc = Inl ATOM_BAD_ENCODING_ERROR" "put_verify name tlen (- 1) enc trunc = Inl ATOM_BAD_ENCODING_ERROR"
        using bad new(1) by (auto simp: put_name_def enc_def put_verify_def MAX_ATOM_CHARACTERS_def split: utf8_res.splits)
      then show ?thesis using tail assms(1) by (simp add: put_result_def)
    qed
  qed
qed

lemma erts_atom_put_index_ok:
  assumes ok: "atoms_ok lim s" and pre: "name_pre name len enc" and rm: "room lim b (atom_list s)"
  shows "\<exists>s'. erts_atom_put_index b name len enc trunc s = Some (Some (fst (put_result b (put_name name len enc trunc) (atom_list s))), s')
    \<and> atoms_ok lim s' \<and> atom_list s' = snd (put_result b (put_name name len enc trunc) (atom_list s))"
proof -
  have nat: "\<exists>s'. erts_atom_put_index b name (int tlen) enc trunc s = Some (Some (fst (put_result b (put_name name (int tlen) enc trunc) (atom_list s))), s')
      \<and> atoms_ok lim s' \<and> atom_list s' = snd (put_result b (put_name name (int tlen) enc trunc) (atom_list s))" if "name_pre name (int tlen) enc" for tlen
    using put_latin1 [OF ok that rm, of trunc] put_utf8 [OF ok _ rm, of name tlen trunc] that by (cases enc) auto
  consider "0 \<le> len" | "len < 0" "\<not> trunc" | "len < 0" trunc by linarith
  then show ?thesis
  proof cases
    case 1
    then show ?thesis using nat [of "nat len"] pre by simp
  next
    case 2
    then show ?thesis using ok by (simp add: erts_atom_put_index_def put_name_def put_result_def)
  next
    case 3
    then have "erts_atom_put_index b name len enc trunc s = erts_atom_put_index b name 0 enc trunc s" by (simp add: erts_atom_put_index_def)
    moreover have "put_name name len enc trunc = put_name name 0 enc trunc"
      using 3 analyze_valid [of "[]" 255] by (simp add: put_name_def)
    moreover have "name_pre name (int 0) enc" by (simp add: name_pre_def)
    ultimately show ?thesis using nat [of 0] by simp
  qed
qed

subsection \<open>Finding a name\<close>

definition get_name :: "u8 list \<Rightarrow> nat \<Rightarrow> ErtsAtomEncoding \<Rightarrow> u8 list option" where
  "get_name name len enc =
     (let text = take len name in
      case enc of
        ERTS_ATOM_ENC_LATIN1 \<Rightarrow> (if len > 255 then None else Some (utf8 (map unat text)))
      | ERTS_ATOM_ENC_7BIT_ASCII \<Rightarrow> (if len > 255 \<or> \<not> list_all (\<lambda>c. unat c < 128) text then None else Some text)
      | ERTS_ATOM_ENC_UTF8 \<Rightarrow> (if len > 1020 then None else Some text))"

lemma get_encode_ok:
  assumes "len \<le> length name"
  shows "get_encode name len enc = None \<and> get_name name len enc = None
    \<or> (\<exists>tx n. get_encode name len enc = Some (atom_tmpl tx (int n) 0) \<and> get_name name len enc = Some (take n tx) \<and> n \<le> length tx \<and> n < 2 ^ 15)"
proof (cases enc)
  case ERTS_ATOM_ENC_LATIN1
  obtain tx n where t: "latin1_to_utf8 name len = (tx, n)" by (cases "latin1_to_utf8 name len")
  note ok = latin1_to_utf8_ok [OF t assms]
  show ?thesis
  proof (cases "len > 255")
    case True
    then show ?thesis using ERTS_ATOM_ENC_LATIN1 by (simp add: get_encode_def get_name_def MAX_ATOM_CHARACTERS_def)
  next
    case False
    have "n = length (utf8 (map (unat :: u8 \<Rightarrow> nat) (take len name)))" using arg_cong [OF ok(2), of length] ok(1) by simp
    then have "n < 2 ^ 15" using False assms utf8_length [of "map (unat :: u8 \<Rightarrow> nat) (take len name)"] by simp
    then show ?thesis using ERTS_ATOM_ENC_LATIN1 t ok False
      by (intro disjI2 exI [of _ tx] exI [of _ n]) (simp add: get_encode_def get_name_def MAX_ATOM_CHARACTERS_def)
  qed
next
  case ERTS_ATOM_ENC_7BIT_ASCII
  show ?thesis
  proof (cases "len > 255 \<or> \<not> list_all (\<lambda>c. unat c < 128) (take len name)")
    case True
    then show ?thesis using ERTS_ATOM_ENC_7BIT_ASCII by (auto simp: get_encode_def get_name_def MAX_ATOM_CHARACTERS_def high_masks(1))
  next
    case False
    then show ?thesis using ERTS_ATOM_ENC_7BIT_ASCII assms
      by (intro disjI2 exI [of _ name] exI [of _ len]) (auto simp: get_encode_def get_name_def MAX_ATOM_CHARACTERS_def high_masks(1))
  qed
next
  case ERTS_ATOM_ENC_UTF8
  then show ?thesis using assms
    by (cases "len > 1020") (auto simp: get_encode_def get_name_def MAX_ATOM_CHARACTERS_def MAX_ATOM_SZ_LIMIT_def intro!: exI [of _ name] exI [of _ len])
qed

definition get_result :: "u8 list option \<Rightarrow> u8 list list \<Rightarrow> eterm option" where
  "get_result n ns = (case n of None \<Rightarrow> None | Some n \<Rightarrow> if n \<in> set ns then Some (make_atom (int (place n ns))) else None)"

lemma erts_atom_get_ok:
  assumes ok: "atoms_ok lim s" and l: "len \<le> length name"
  shows "erts_atom_get name len enc s = Some (get_result (get_name name len enc) (map snd (atom_list s)))"
  using get_encode_ok [OF l, of enc]
proof (elim disjE exE conjE)
  assume "get_encode name len enc = None" "get_name name len enc = None"
  then show ?thesis using l by (simp add: erts_atom_get_def get_result_def)
next
  fix tx n
  assume g: "get_encode name len enc = Some (atom_tmpl tx (int n) 0)" "get_name name len enc = Some (take n tx)" "n \<le> length tx" "n < 2 ^ 15"
  show ?thesis using atom_index_get_ok [OF ok g(3,4), of 0] g(1,2) l by (simp add: erts_atom_get_def get_result_def)
qed

lemma atom_tab_ok:
  assumes ok: "atoms_ok lim s" and i: "i < length (atom_list s)"
  shows "\<exists>x. atom_tab s i = Some x \<and> atom_wf x \<and> u_name x = snd (atom_list s ! i)"
proof -
  define ps where "ps = index_objs (erts_atom_table s)"
  have r: "index_rel atom_funs atom_key (erts_atom_table s) (atom_store s) ps" using ok by (simp add: atoms_ok_def index_ok_def atom_state_def ps_def)
  have i': "i < length ps" using i by (simp add: atom_list_def index_list_def atom_state_def ps_def)
  define x where "x = snd (index_list (atom_state s) ! i)"
  have "index_step atom_funs (ILookup i) (atom_state s) = (Some (Entry (fst (index_list (atom_state s) ! i)) x), atom_state s)"
    using atoms.istep_lookup [OF r ps_def i'] by (simp add: atom_state_def x_def)
  then have "atom_tab s i = Some x"
    by (auto simp: index_step_def atom_tab_def atom_state_def Option.bind_eq_Some_conv split: option.splits Option.bind_splits)
  moreover have "index_list (atom_state s) ! i \<in> set (index_list (atom_state s))" using i by (intro nth_mem) (simp add: atom_list_def)
  then have "atom_wf x" using ok unfolding atoms_ok_def x_def by (metis (no_types, lifting) case_prodE snd_conv)
  moreover have "u_name x = snd (atom_list s ! i)" using i by (simp add: atom_list_def x_def case_prod_beta)
  ultimately show ?thesis by blast
qed

lemma names_distinct:
  assumes ok: "atoms_ok lim s"
  shows "distinct (map snd (atom_list s))"
proof -
  have r: "index_rel atom_funs atom_key (erts_atom_table s) (atom_store s) (index_objs (erts_atom_table s))"
    using ok by (simp add: atoms_ok_def index_ok_def atom_state_def)
  have "distinct (map name_key (map snd (atom_list s)))" using index_rel_facts(4) [OF r] unfolding atom_keys [OF ok] .
  then show ?thesis by (simp only: distinct_map)
qed

subsection \<open>Names that do not fit the length field\<close>

text \<open>
  The first lookup of \<open>erts_atom_put_index\<close> is made before the name is truncated: the length goes through 16 bits.
  From 32768 bytes on it is negative, and the hash function reads outside of the name; from 65536 on it
  is the length of a short prefix, and a put of a long name gives the atom of that prefix.
\<close>

lemma Sint16_mod: "Sint16 n = (n + 32768) mod 65536 - 32768"
  by (simp add: Sint16_def signed_of_int signed_take_bit_eq_take_bit_shift take_bit_eq_mod)

lemma put_long_name_undefined:
  assumes "2 ^ 15 \<le> len" "len < 2 ^ 16" "len \<le> int (length name)"
  shows "erts_atom_put_index b name len ERTS_ATOM_ENC_UTF8 True s = None"
proof -
  have "(len + 32768) mod 65536 = (len - 32768 + 65536) mod 65536" by (simp add: add.commute)
  also have "\<dots> = len - 32768" using assms(1,2) unfolding mod_add_self2 by (intro mod_pos_pos_trivial) simp_all
  finally have "Sint16 len = len - 65536" by (simp add: Sint16_mod)
  then have "Sint16 len < 0" using assms(2) by simp
  then show ?thesis using assms by (simp add: erts_atom_put_index_def put_encode_def atom_index_get_def atom_tmpl_def Let_def)
qed

lemma put_long_name_gives_prefix:
  assumes ok: "atoms_ok lim s" and n: "n < 2 ^ 15" "2 ^ 16 + n \<le> length name" and p: "take n name \<in> set (map snd (atom_list s))"
  shows "erts_atom_put_index b name (2 ^ 16 + int n) ERTS_ATOM_ENC_UTF8 True s = Some (Some (int (place (take n name) (map snd (atom_list s)))), s)"
proof -
  have "Sint16 (65536 + int n) = Sint16 (int n)"
    using mod_add_self2 [of "int n + 32768" 65536] unfolding Sint16_mod by (simp add: ac_simps)
  then have "atom_tmpl name (65536 + int n) 0 = atom_tmpl name (int n) 0" by (simp add: atom_tmpl_def)
  then have "atom_index_get (atom_tmpl name (65536 + int n) 0) s = Some (int (place (take n name) (map snd (atom_list s))))"
    using atom_index_get_ok [OF ok _ n(1), of name 0] n p by simp
  moreover have "nat (65536 + int n) = 65536 + n" by linarith
  ultimately show ?thesis using n(2) by (simp add: erts_atom_put_index_def put_encode_def)
qed

subsection \<open>Tests of names\<close>

lemma memcmp_eq: "length xs = length ys \<Longrightarrow> sys_memcmp xs ys (length ys) = 0 \<longleftrightarrow> xs = ys"
  by (induction xs ys rule: list_induct2) simp_all

lemma erts_is_atom_utf8_bytes_ok:
  assumes ok: "atoms_ok lim s" and i: "is_atom a" "atom_val a < length (atom_list s)"
  shows "erts_is_atom_utf8_bytes bs a s = Some (bs = snd (atom_list s ! atom_val a))"
proof -
  obtain x where x: "atom_tab s (atom_val a) = Some x" "atom_wf x" "u_name x = snd (atom_list s ! atom_val a)"
    using atom_tab_ok [OF ok i(2)] by blast
  have "int (length bs) = a_len x \<and> sys_memcmp (u_name x) bs (length bs) = 0 \<longleftrightarrow> bs = u_name x"
    using x(2) memcmp_eq [of "u_name x" bs] by (metis atom_wf_def of_nat_eq_iff)
  then show ?thesis using x i(1) by (simp add: erts_is_atom_utf8_bytes_def erts_atom_get_name_def)
qed

lemma str_bytes_ok: "str_bytes name str \<longleftrightarrow> name = str"
  by (induction name str rule: str_bytes.induct) auto

text \<open>The bytes of a character that is not ASCII, and of one of Latin-1.\<close>

lemma enc_bytes:
  assumes "scalar c" "128 \<le> c"
  shows "\<exists>x r. utf8_enc c = x # r \<and> 194 \<le> unat x \<and> (c < 256 \<longrightarrow> r = [0x80 OR (of_nat c AND 0x3F)] \<and> x = 0xC0 OR drop_bit 6 (of_nat c))
    \<and> (256 \<le> c \<longrightarrow> 196 \<le> unat x)"
proof -
  have "\<exists>x r. utf8_enc c = x # r \<and> 194 \<le> unat x \<and> (256 \<le> c \<longrightarrow> 196 \<le> unat x)"
  proof (cases "c < 0x800")
    case True
    then show ?thesis using assms by (auto simp: utf8_enc_def unat_offset)
  next
    case False
    have "c div 4096 \<le> 15 \<or> 65536 \<le> c" "c div 262144 \<le> 4" using assms(1) by (auto simp: scalar_def)
    then show ?thesis using False assms(1) by (auto simp: utf8_enc_def unat_offset)
  qed
  moreover have "utf8_enc c = [0xC0 OR drop_bit 6 (of_nat c), 0x80 OR (of_nat c AND 0x3F)]" if "c < 256"
    using latin1_byte [of "of_nat c"] that assms(2) by (simp add: unat_u8)
  ultimately show ?thesis by auto
qed

text \<open>The test of a string in Latin-1 compares the characters; it never reads past an end.\<close>

lemma str_latin1_ok: "list_all scalar cs \<Longrightarrow> str_latin1 (utf8 cs) str = Some (cs = map unat str)"
proof (induction cs arbitrary: str)
  case Nil
  then show ?case by simp
next
  case (Cons c cs)
  have IH: "str_latin1 (utf8 cs) s = Some (cs = map unat s)" for s using Cons by simp
  show ?case
  proof (cases "c < 128")
    case True
    then have e: "utf8_enc c = [of_nat c]" "unat (of_nat c :: u8) = c" by (simp_all add: utf8_enc_def unat_u8)
    show ?thesis
    proof (cases str)
      case Nil
      have "(of_nat c :: u8) \<noteq> 0xC0" using e(2) True by (auto simp: word_unat_eq_iff)
      then show ?thesis using Nil e by simp
    next
      case (Cons d s)
      have "of_nat c < (0x80 :: u8)" using e(2) True by (simp add: word_less_nat_alt)
      then show ?thesis using Cons e IH [of s] by (auto simp: word_unat_eq_iff)
    qed
  next
    case False
    then obtain x r where x: "utf8_enc c = x # r" "194 \<le> unat x" "c < 256 \<longrightarrow> r = [0x80 OR (of_nat c AND 0x3F)] \<and> x = 0xC0 OR drop_bit 6 (of_nat c)"
        "256 \<le> c \<longrightarrow> 196 \<le> unat x" using enc_bytes [of c] Cons.prems by auto
    show ?thesis
    proof (cases str)
      case Nil
      then show ?thesis using x(1,2) by (auto simp: byte_eq_iff)
    next
      case (Cons d s)
      have nx: "\<not> x < 0x80" using x(2) by (simp add: byte_eq_iff)
      show ?thesis
      proof (cases "x = 0xC0 OR drop_bit 6 d")
        case True
        have d: "unat x = 192 + unat d div 64" unfolding True by (rule latin1_unat)
        have ud: "unat d < 256" using unsigned_less [of d, where ?'a = nat] by simp
        then have c: "c < 256" using d x(4) by linarith
        then have r: "r = [0x80 OR (of_nat c AND 0x3F)]" "unat x = 192 + c div 64" using x(3) latin1_unat(1) [of "of_nat c"] by (simp_all add: unat_u8)
        have "0x80 OR (of_nat c AND 0x3F) = 0x80 OR (d AND 0x3F) \<longleftrightarrow> c mod 64 = unat d mod 64"
          using latin1_unat(2) [of d] latin1_unat(2) [of "of_nat c"] c by (auto simp: byte_eq_iff(1) unat_u8)
        then have "0x80 OR (of_nat c AND 0x3F) = 0x80 OR (d AND 0x3F) \<longleftrightarrow> c = unat d"
          using d r(2) by (metis add_left_cancel div_mult_mod_eq)
        then show ?thesis using Cons x(1) nx True r(1) IH [of s] by auto
      next
        case no: False
        have "c \<noteq> unat d" using no x(3) latin1_byte [of d] unsigned_less [of d, where ?'a = nat] by auto
        then show ?thesis using Cons x(1) nx no by simp
      qed
    qed
  qed
qed

subsection \<open>The order of atoms\<close>

text \<open>The lexicographic order of byte strings.\<close>

abbreviation name_less :: "u8 list \<Rightarrow> u8 list \<Rightarrow> bool" where "name_less \<equiv> ord_class.lexordp"

lemma byte_range: "0 \<le> ord_byte cs i" "ord_byte cs i < 256"
  using unsigned_less [of "cs ! i", where ?'a = int] by (auto simp: ord_byte_def)

text \<open>The ordinal, byte by byte: what the last \<open>k\<close> bytes it takes add up to.\<close>

fun ord_part :: "nat \<Rightarrow> u8 list \<Rightarrow> int" where
  "ord_part 0 cs = ord_byte cs 0 div 2"
| "ord_part (Suc k) cs = ord_byte cs 0 * 2 ^ (8 * k + 7) + ord_part k (tl cs)"

lemma ord_byte_tl: "ord_byte (tl cs) i = ord_byte cs (Suc i)"
  by (cases cs) (auto simp: ord_byte_def)

lemma ordinal_part: "ordinal cs = ord_part 3 cs"
  by (simp add: ordinal_def numeral_3_eq_3 numeral_2_eq_2 ord_byte_tl push_bit_eq_mult drop_bit_eq_div)

lemma ord_part_range: "0 \<le> ord_part k cs \<and> ord_part k cs < 2 ^ (8 * k + 7)"
proof (induction k arbitrary: cs)
  case 0
  then show ?case using byte_range [of cs 0] by simp
next
  case (Suc k)
  define m where "m = (2 :: int) ^ (8 * k + 7)"
  have "ord_byte cs 0 * m \<le> 255 * m" "0 \<le> ord_byte cs 0 * m" using byte_range [of cs 0] by (simp_all add: m_def)
  moreover have "(2 :: int) ^ (8 * Suc k + 7) = 256 * m" by (simp add: m_def power_add)
  ultimately show ?case using Suc [of "tl cs"] by (simp only: ord_part.simps flip: m_def) linarith
qed

lemma lex_split:
  fixes a b x y m :: int
  assumes "0 \<le> x" "x < m" "0 \<le> y" "y < m"
  shows "a * m + x < b * m + y \<longleftrightarrow> a < b \<or> a = b \<and> x < y" "a * m + x = b * m + y \<longleftrightarrow> a = b \<and> x = y"
proof -
  have less: "c * m + u < d * m + v" if "c < d" "0 \<le> v" "u < m" for c d u v :: int
  proof -
    have "(c + 1) * m \<le> d * m" using that(1) assms by (intro mult_right_mono) simp_all
    then show ?thesis using that(2,3) by (simp add: algebra_simps)
  qed
  show "a * m + x < b * m + y \<longleftrightarrow> a < b \<or> a = b \<and> x < y" "a * m + x = b * m + y \<longleftrightarrow> a = b \<and> x = y"
    using less [of a b y x] less [of b a x y] assms by (cases a b rule: linorder_cases; force)+
qed

lemma byte_less_lex: "ord_byte xs 0 < ord_byte ys 0 \<Longrightarrow> name_less xs ys"
  by (cases xs; cases ys) (auto simp: ord_byte_def word_less_alt)

lemma ord_part_less: "ord_part k xs < ord_part k ys \<Longrightarrow> name_less xs ys"
proof (induction k arbitrary: xs ys)
  case 0
  then show ?case by (intro byte_less_lex) simp
next
  case (Suc k)
  have "ord_byte xs 0 < ord_byte ys 0 \<or> ord_byte xs 0 = ord_byte ys 0 \<and> ord_part k (tl xs) < ord_part k (tl ys)"
    using Suc.prems lex_split(1) [of "ord_part k (tl xs)" "2 ^ (8 * k + 7)" "ord_part k (tl ys)" "ord_byte xs 0" "ord_byte ys 0"]
      ord_part_range [of k "tl xs"] ord_part_range [of k "tl ys"] by simp
  then show ?case
  proof
    assume e: "ord_byte xs 0 = ord_byte ys 0 \<and> ord_part k (tl xs) < ord_part k (tl ys)"
    then have "name_less (tl xs) (tl ys)" by (intro Suc.IH) simp
    then show ?thesis using e by (cases xs; cases ys) (auto simp: ord_byte_def word_less_alt)
  qed (rule byte_less_lex)
qed

lemma ord_part_eq: "ord_part k xs = ord_part k ys \<Longrightarrow> i < k \<Longrightarrow> ord_byte xs i = ord_byte ys i"
proof (induction k arbitrary: xs ys i)
  case (Suc k)
  have "ord_byte xs 0 = ord_byte ys 0" "ord_part k (tl xs) = ord_part k (tl ys)"
    using Suc.prems(1) lex_split(2) [of "ord_part k (tl xs)" "2 ^ (8 * k + 7)" "ord_part k (tl ys)" "ord_byte xs 0" "ord_byte ys 0"]
      ord_part_range [of k "tl xs"] ord_part_range [of k "tl ys"] by simp_all
  then show ?case using Suc.IH [of "tl xs" "tl ys" "i - 1"] Suc.prems(2) by (cases i) (simp_all add: ord_byte_tl)
qed simp

text \<open>The comparison of the rest: the common length, then the lengths.\<close>

lemma memcmp_lex:
  defines "c \<equiv> \<lambda>xs ys. let d = sys_memcmp xs ys (min (length xs) (length ys)) in if d \<noteq> 0 then d else int (length xs) - int (length ys)"
  shows "(c xs ys < 0 \<longleftrightarrow> name_less xs ys) \<and> (c xs ys = 0 \<longleftrightarrow> xs = ys)"
proof (induction xs arbitrary: ys)
  case Nil
  then show ?case by (cases ys) (auto simp: c_def)
next
  case (Cons x xs)
  show ?case
  proof (cases ys)
    case (Cons y ys')
    then show ?thesis using Cons.IH [of ys'] by (cases x y rule: linorder_cases) (auto simp: c_def Let_def split: if_splits)
  qed (simp add: c_def)
qed

lemma name_less_prefix: "name_less xs (xs @ ys) \<longleftrightarrow> ys \<noteq> []" "\<not> name_less (xs @ ys) xs"
  by (induction xs) (auto simp: neq_Nil_conv)

lemma name_less_append: "name_less (ps @ xs) (ps @ ys) \<longleftrightarrow> name_less xs ys"
  by (induction ps) auto

text \<open>The first bytes agree.\<close>

lemma take_eq_bytes:
  assumes "\<forall>i < 3. ord_byte xs i = ord_byte ys i" "k \<le> 3" "k \<le> length xs" "k \<le> length ys"
  shows "take k xs = take k ys"
proof (rule nth_equalityI)
  show "length (take k xs) = length (take k ys)" using assms by simp
  fix i
  assume i: "i < length (take k xs)"
  then have "i < 3" "i < length xs" "i < length ys" using assms by auto
  then show "take k xs ! i = take k ys ! i" using assms(1) i by (auto simp: ord_byte_def word_uint_eq_iff)
qed

lemma shorter_is_less:
  assumes "take (min (length xs) (length ys)) xs = take (min (length xs) (length ys)) ys"
  shows "name_less xs ys \<longleftrightarrow> length xs < length ys" "xs = ys \<longleftrightarrow> length xs = length ys"
proof -
  have "(name_less xs ys \<longleftrightarrow> length xs < length ys) \<and> (xs = ys \<longleftrightarrow> length xs = length ys)"
  proof (cases "length xs \<le> length ys")
    case True
    then have "ys = xs @ drop (length xs) ys" using assms append_take_drop_id [of "length xs" ys] by (simp add: min_absorb1)
    then obtain zs where "ys = xs @ zs" by blast
    then show ?thesis using name_less_prefix(1) [of xs zs] by simp
  next
    case False
    then have "xs = ys @ drop (length ys) xs" using assms append_take_drop_id [of "length ys" xs] by (simp add: min_absorb2)
    then obtain zs where "xs = ys @ zs" by blast
    then show ?thesis using name_less_prefix(2) [of ys zs] by auto
  qed
  then show "name_less xs ys \<longleftrightarrow> length xs < length ys" "xs = ys \<longleftrightarrow> length xs = length ys" by simp_all
qed

lemma cmp_names_lex:
  assumes a: "atom_wf aa" "atom_wf bb"
  shows "cmp_names aa bb < 0 \<longleftrightarrow> name_less (u_name aa) (u_name bb)" "cmp_names aa bb = 0 \<longleftrightarrow> u_name aa = u_name bb"
proof -
  define xs ys where "xs = u_name aa" and "ys = u_name bb"
  have w: "ord0 aa = ord_part 3 xs" "ord0 bb = ord_part 3 ys" "a_len aa = int (length xs)" "a_len bb = int (length ys)"
    using a by (simp_all add: atom_wf_def ordinal_part xs_def ys_def)
  have "(cmp_names aa bb < 0 \<longleftrightarrow> name_less xs ys) \<and> (cmp_names aa bb = 0 \<longleftrightarrow> xs = ys)"
  proof (cases "ord_part 3 xs = ord_part 3 ys")
    case False
    then have c: "cmp_names aa bb = ord_part 3 xs - ord_part 3 ys" using w by (simp add: cmp_names_def)
    have "\<not> name_less xs ys" if "name_less ys xs" using that lexordp_antisym by blast
    then show ?thesis using c False ord_part_less [of 3 xs ys] ord_part_less [of 3 ys xs] by (cases "ord_part 3 xs < ord_part 3 ys") auto
  next
    case True
    then have b: "\<forall>i < 3. ord_byte xs i = ord_byte ys i" using ord_part_eq by blast
    show ?thesis
    proof (cases "length xs > 3 \<and> length ys > 3")
      case True
      define us vs where "us = drop 3 xs" and "vs = drop 3 ys"
      have "take 3 xs = take 3 ys" using take_eq_bytes [OF b, of 3] True by simp
      then have s: "xs = take 3 ys @ us" "ys = take 3 ys @ vs" unfolding us_def vs_def by (metis append_take_drop_id)+
      have l: "length xs = 3 + length us" "length ys = 3 + length vs" using True by (simp_all add: us_def vs_def)
      have "cmp_names aa bb = (let d = sys_memcmp us vs (min (length us) (length vs)) in if d \<noteq> 0 then d else int (length us) - int (length vs))"
      proof -
        have "a_len aa - 3 = int (length us)" "a_len bb - 3 = int (length vs)" "0 < length us" "0 < length vs" using w l True by auto
        moreover have "nat (min (int (length us)) (int (length vs))) = min (length us) (length vs)" by linarith
        ultimately show ?thesis using w(1,2) \<open>ord_part 3 xs = ord_part 3 ys\<close>
          by (simp only: cmp_names_def erts_atom_get_name_def Let_def xs_def [symmetric] ys_def [symmetric] us_def [symmetric] vs_def [symmetric]) simp
      qed
      then show ?thesis using memcmp_lex [of us vs] name_less_append [of "take 3 ys" us vs] s by (metis same_append_eq)
    next
      case False
      then have c: "cmp_names aa bb = int (length xs) - int (length ys)" using w \<open>ord_part 3 xs = ord_part 3 ys\<close> by (auto simp: cmp_names_def Let_def)
      have "take (min (length xs) (length ys)) xs = take (min (length xs) (length ys)) ys" using False by (intro take_eq_bytes [OF b]) auto
      from shorter_is_less [OF this] show ?thesis using c by auto
    qed
  qed
  then show "cmp_names aa bb < 0 \<longleftrightarrow> name_less (u_name aa) (u_name bb)" "cmp_names aa bb = 0 \<longleftrightarrow> u_name aa = u_name bb"
    by (simp_all add: xs_def ys_def)
qed

end
