(* ===== verification/AtomProps.thy ===== *)
theory AtomProps
  imports AtomTableThms
begin

text \<open>
  The properties of the hash table, the index table, the analysis of UTF-8 and the table of atoms, with
  the functions of the atoms as the client of the tables.
\<close>

subsection \<open>The initial table\<close>

text \<open>The predefined names: ASCII, not too long, with distinct addresses and room for all.\<close>

fun init_pre :: "nat \<Rightarrow> (addr \<times> u8 list) list \<Rightarrow> (addr \<times> u8 list) list \<Rightarrow> bool" where
  "init_pre lim [] l = True"
| "init_pre lim ((b, n) # names) l \<longleftrightarrow>
     room lim b l \<and> length n \<le> 255 \<and> list_all (\<lambda>c. unat c < 128) n \<and> init_pre lim names (add_name b n l)"

fun init_list :: "(addr \<times> u8 list) list \<Rightarrow> (addr \<times> u8 list) list \<Rightarrow> (addr \<times> u8 list) list" where
  "init_list [] l = l"
| "init_list ((b, n) # names) l = init_list names (add_name b n l)"

lemma init_names_ok:
  assumes "atoms_ok lim s" "init_pre lim names (atom_list s)"
  shows "\<exists>s'. init_names names i s = Some (True, s') \<and> atoms_ok lim s' \<and> atom_list s' = init_list names (atom_list s)"
  using assms
proof (induction names arbitrary: i s)
  case Nil
  then show ?case by simp
next
  case (Cons x names)
  obtain b n where x: "x = (b, n)" by (cases x)
  define cs where "cs = map (unat :: u8 \<Rightarrow> nat) n"
  have n: "valid_name cs" "utf8 cs = n" "latin1_count cs = int (length n)" "room lim b (atom_list s)"
    using Cons.prems(2) latin1_valid [of n] utf8_ascii [of n] by (simp_all add: x cs_def)
  have "Sint16 (int (length n)) = int (length n)" using Cons.prems(2) by (simp add: Sint16_id x)
  then obtain s1 where s1: "atom_index_put b ((atom_tmpl n (int (length n)) (Sint16 (int (length n))))\<lparr>index := int i\<rparr>) s
      = Some (Some (int (place n (map snd (atom_list s)))), s1)" "atoms_ok lim s1" "atom_list s1 = add_name b n (atom_list s)"
    using atom_index_put_ok [OF Cons.prems(1), of "length n" n cs b "int i"] n by (auto simp: room_def add_name_def)
  then show ?case using Cons.IH [OF s1(2), of "i + 1"] Cons.prems(2) by (simp add: x)
qed

lemma init_atom_table_ok:
  assumes "init_pre lim names []"
  shows "\<exists>s. init_atom_table lim names st = Some (True, s) \<and> atoms_ok lim s \<and> atom_list s = init_list names []"
proof -
  obtain t where t: "erts_index_init ATOM_SIZE lim = Some t" "index_rel atom_funs atom_key t st []" "limit t = int lim"
    using erts_index_init_ok [of ATOM_SIZE lim atom_funs atom_key st] by (auto simp: ATOM_SIZE_def)
  define s where "s = \<lparr>erts_atom_table = t, atom_store = st, atom_space = 0\<rparr>"
  have "atom_list s = []" "atoms_ok lim s" using rel_state(2,3) [OF t(2), where sp = 0, folded s_def] t(3) by simp_all
  then show ?thesis using init_names_ok [of lim s names 0] assms t(1) by (simp add: init_atom_table_def flip: s_def)
qed

subsection \<open>Refinement of a list of names\<close>

datatype atom_cmd = APut addr "u8 list" int ErtsAtomEncoding bool | AGet "u8 list" nat ErtsAtomEncoding | AName eterm

datatype atom_out = AtomTerm eterm | AtomFound "eterm option" | AtomText "u8 list"

definition atom_step :: "atom_cmd \<Rightarrow> AtomTab \<Rightarrow> atom_out option \<times> AtomTab" where
  "atom_step c s =
     (case (case c of
        APut b name len enc trunc \<Rightarrow> do { (t, s') \<leftarrow> erts_atom_put b name len enc trunc s; t \<leftarrow> t; Some (AtomTerm t, s') }
      | AGet name len enc \<Rightarrow> do { r \<leftarrow> erts_atom_get name len enc s; Some (AtomFound r, s) }
      | AName a \<Rightarrow> do { x \<leftarrow> atom_tab s (atom_val a); Some (AtomText (erts_atom_get_name x), s) })
     of None \<Rightarrow> (None, s) | Some (out, s') \<Rightarrow> (Some out, s'))"

definition names_step :: "atom_cmd \<Rightarrow> (addr \<times> u8 list) list \<Rightarrow> atom_out option \<times> (addr \<times> u8 list) list" where
  "names_step c l =
     (case c of
        APut b name len enc trunc \<Rightarrow>
          (case put_name name len enc trunc of
             Inl e \<Rightarrow> (Some (AtomTerm THE_NON_VALUE), l)
           | Inr n \<Rightarrow> (Some (AtomTerm (make_atom (int (place n (map snd l))))), add_name b n l))
      | AGet name len enc \<Rightarrow> (Some (AtomFound (get_result (get_name name len enc) (map snd l))), l)
      | AName a \<Rightarrow> (Some (AtomText (snd (l ! atom_val a))), l))"

definition atom_pre :: "nat \<Rightarrow> atom_cmd \<Rightarrow> (addr \<times> u8 list) list \<Rightarrow> bool" where
  "atom_pre lim c l =
     (case c of
        APut b name len enc trunc \<Rightarrow> name_pre name len enc \<and> room lim b l
      | AGet name len enc \<Rightarrow> len \<le> length name
      | AName a \<Rightarrow> atom_val a < length l)"

fun atom_pre_run :: "nat \<Rightarrow> atom_cmd list \<Rightarrow> (addr \<times> u8 list) list \<Rightarrow> bool" where
  "atom_pre_run lim [] l = True"
| "atom_pre_run lim (c # cs) l \<longleftrightarrow> atom_pre lim c l \<and> atom_pre_run lim cs (snd (names_step c l))"

lemma put_name_error: "put_name name len enc trunc = Inl e \<Longrightarrow> e < 0"
  by (auto simp: put_name_def ATOM_MAX_CHARS_ERROR_def ATOM_BAD_ENCODING_ERROR_def Let_def split: if_splits prod.splits)

lemma atom_step_ok:
  assumes ok: "atoms_ok lim s" and pre: "atom_pre lim c (atom_list s)"
  shows "fst (atom_step c s) = fst (names_step c (atom_list s)) \<and> atom_list (snd (atom_step c s)) = snd (names_step c (atom_list s))
    \<and> atoms_ok lim (snd (atom_step c s))"
proof (cases c)
  case (APut b name len enc trunc)
  then obtain s' where "erts_atom_put_index b name len enc trunc s = Some (Some (fst (put_result b (put_name name len enc trunc) (atom_list s))), s')"
      "atoms_ok lim s'" "atom_list s' = snd (put_result b (put_name name len enc trunc) (atom_list s))"
    using erts_atom_put_index_ok [OF ok, of name len enc b trunc] pre by (auto simp: atom_pre_def)
  then show ?thesis using APut put_name_error [of name len enc trunc]
    by (cases "put_name name len enc trunc") (auto simp: atom_step_def names_step_def erts_atom_put_def put_result_def)
next
  case (AGet name len enc)
  then show ?thesis using erts_atom_get_ok [OF ok, of len name enc] pre ok by (simp add: atom_step_def names_step_def atom_pre_def)
next
  case (AName a)
  then obtain x where "atom_tab s (atom_val a) = Some x" "u_name x = snd (atom_list s ! atom_val a)"
    using atom_tab_ok [OF ok, of "atom_val a"] pre by (auto simp: atom_pre_def)
  then show ?thesis using AName ok by (simp add: atom_step_def names_step_def erts_atom_get_name_def)
qed

interpretation atom_table: data_refinement "atoms_ok lim" atom_list "atom_pre lim" atom_step names_step for lim
  by unfold_locales (use atom_step_ok in blast)+

lemma atom_pre_run_iff: "atom_pre_run lim cs l \<longleftrightarrow> atom_table.pre_run lim cs l"
  by (induction cs arbitrary: l) simp_all

text \<open>
  C24. From the predefined names on, for names of fewer than 2^15 bytes (the code does not check the length, and
  keeps it in 16 bits) and while the table has room, every sequence of \<open>erts_atom_put\<close>, \<open>erts_atom_get\<close> and reading of names acts on
  a list of names. A put gives the atom that is the place of the name in the list, in UTF-8 whatever the
  encoding was, adds it if it is new, truncates it to 255 characters if that is asked for, and is
  \<open>THE_NON_VALUE\<close> for a name that is too long or badly encoded, also when the name is looked up before it is
  checked; a get finds exactly the names that are there. The text space is the sum of the lengths.
\<close>

theorem atom_table_is_a_list_of_names:
  assumes "init_pre lim names []" "atom_pre_run lim cs (init_list names [])"
  shows "\<exists>s. init_atom_table lim names st = Some (True, s)
    \<and> fst (run atom_step cs s) = fst (run names_step cs (init_list names []))
    \<and> atom_list (snd (run atom_step cs s)) = snd (run names_step cs (init_list names []))
    \<and> atom_space (snd (run atom_step cs s)) = of_nat (sum_list (map (length \<circ> snd) (snd (run names_step cs (init_list names [])))))"
proof -
  obtain s where s: "init_atom_table lim names st = Some (True, s)" "atoms_ok lim s" "atom_list s = init_list names []"
    using init_atom_table_ok [OF assms(1)] by blast
  have r: "fst (run atom_step cs s) = fst (run names_step cs (atom_list s))" "atom_list (snd (run atom_step cs s)) = snd (run names_step cs (atom_list s))"
      "atoms_ok lim (snd (run atom_step cs s))"
    using atom_table.run_refines [OF s(2), of cs] assms(2) by (simp_all add: s(3) atom_pre_run_iff)
  then have "atom_space (snd (run atom_step cs s)) = of_nat (sum_list (map (length \<circ> snd) (snd (run names_step cs (atom_list s)))))"
    unfolding atoms_ok_def by metis
  then show ?thesis using r s(1,3) by simp
qed

text \<open>
  C29. The comparison of two atoms, by the ordinal of the first 31 bits and only then by the bytes, is
  negative exactly when the name of the first is lexicographically less than that of the second, and 0
  exactly when they are the same atom.
\<close>

theorem atoms_compare_by_name:
  assumes "atoms_ok lim s" "atom_val a < length (atom_list s)" "atom_val b < length (atom_list s)"
  shows "\<exists>d. erts_cmp_atoms a b s = Some d
    \<and> (d < 0 \<longleftrightarrow> name_less (snd (atom_list s ! atom_val a)) (snd (atom_list s ! atom_val b)))
    \<and> (d = 0 \<longleftrightarrow> atom_val a = atom_val b)"
proof -
  obtain aa where a: "atom_tab s (atom_val a) = Some aa" "atom_wf aa" "u_name aa = snd (atom_list s ! atom_val a)"
    using atom_tab_ok [OF assms(1,2)] by blast
  obtain bb where b: "atom_tab s (atom_val b) = Some bb" "atom_wf bb" "u_name bb = snd (atom_list s ! atom_val b)"
    using atom_tab_ok [OF assms(1,3)] by blast
  have "snd (atom_list s ! atom_val a) = snd (atom_list s ! atom_val b) \<longleftrightarrow> atom_val a = atom_val b"
    using nth_eq_iff_index_eq [OF names_distinct [OF assms(1)], of "atom_val a" "atom_val b"] assms(2,3) by simp
  then show ?thesis using a b cmp_names_lex [OF a(2) b(2)] by (simp add: erts_cmp_atoms_def)
qed

subsection \<open>Witnesses\<close>

text \<open>A template with the name a.\<close>

abbreviation tmpl_a :: Atom where "tmpl_a \<equiv> \<lparr>index = 0, a_len = 1, latin1_chars = 1, ord0 = 0, u_name = [97]\<rparr>"

text \<open>Witness of C18: an atom is put, found, erased and not found.\<close>

theorem hash_table_is_a_map_witness:
  "\<exists>h. hash_init 3 = Some h \<and> fst (run (hash_step atom_funs) [Put 1 tmpl_a, Get tmpl_a, Erase tmpl_a, Get tmpl_a] (h, Map.empty))
    = [Some (Found (Some (1, atom_alloc tmpl_a))), Some (Found (Some (1, atom_alloc tmpl_a))), Some (Erased True), Some (Found None)]"
proof -
  have "hash_pre_run atom_funs atom_key [Put 1 tmpl_a, Get tmpl_a, Erase tmpl_a, Get tmpl_a] Map.empty"
    by (simp add: hash_pre_def map_step_def)
  from hash_table_is_a_map [OF atoms.hash_functions_axioms _ this, of 3] show ?thesis
    by (auto simp: map_step_def atom_funs_def)
qed

text \<open>Witness of C21: the number is given once, and again after it was erased.\<close>

theorem index_table_is_a_list_witness:
  "\<exists>t. erts_index_init 10 10 = Some t
    \<and> fst (run (index_step atom_funs) [IPut 1 tmpl_a, IPut 2 tmpl_a, IErase 0, IGet tmpl_a, IPut 2 tmpl_a] (t, Map.empty))
      = [Some (Number 0), Some (Number 0), Some Done, Some (Number (- 1)), Some (Number 0)]"
proof -
  have k: "atom_key ((fun_alloc atom_funs tmpl_a)\<lparr>index := 0\<rparr>) = atom_key tmpl_a" by (simp add: atom_funs_def atom_alloc_def atom_key_def Let_def)
  have "index_pre_run 10 atom_funs atom_key [IPut 1 tmpl_a, IPut 2 tmpl_a, IErase 0, IGet tmpl_a, IPut 2 tmpl_a] []"
    by (simp add: index_pre_def list_step_def Let_def k capacity_def)
  from index_table_is_a_list [OF atoms.index_functions_axioms _ this, of 10] show ?thesis
    by (auto simp: list_step_def Let_def k)
qed

text \<open>Witness of C24: a Latin-1 name is put, found and read as UTF-8, and a negative length is an error.\<close>

theorem atom_table_is_a_list_of_names_witness:
  "\<exists>s. init_atom_table 1024 [(0, [97])] Map.empty = Some (True, s)
    \<and> fst (run atom_step [APut 1 [0xE9] 1 ERTS_ATOM_ENC_LATIN1 False, APut 2 [] (- 1) ERTS_ATOM_ENC_UTF8 False,
          AGet [0xC3, 0xA9] 2 ERTS_ATOM_ENC_UTF8, AName (make_atom 1)] s)
      = [Some (AtomTerm (make_atom 1)), Some (AtomTerm THE_NON_VALUE), Some (AtomFound (Some (make_atom 1))), Some (AtomText [0xC3, 0xA9])]"
proof -
  let ?cs = "[APut 1 [0xE9] 1 ERTS_ATOM_ENC_LATIN1 False, APut 2 [] (- 1) ERTS_ATOM_ENC_UTF8 False,
    AGet [0xC3, 0xA9] 2 ERTS_ATOM_ENC_UTF8, AName (make_atom 1)]"
  have v: "atom_val (make_atom 1) = 1" using atom_val_make_atom(1) [of 1] by simp
  note e = add_name_def init_list.simps put_name_def get_name_def get_result_def utf8_def utf8_enc_def names_step_def Let_def v
  have i: "init_pre 1024 [(0, [97])] []" by (simp add: room_def capacity_def)
  have "atom_pre_run 1024 ?cs (init_list [(0, [97])] [])"
    by (simp add: e atom_pre_def name_pre_def room_def capacity_def)
  from atom_table_is_a_list_of_names [OF i this, of Map.empty] show ?thesis by (auto simp: e)
qed

text \<open>Witness of C29: b is not less than a, although its number is.\<close>

theorem atoms_compare_by_name_witness:
  "\<exists>s d. init_atom_table 1024 [(0, [98]), (1, [97])] Map.empty = Some (True, s)
    \<and> erts_cmp_atoms (make_atom 1) (make_atom 0) s = Some d \<and> d < 0"
proof -
  have "init_pre 1024 [(0, [98]), (1, [97])] []" by (simp add: room_def capacity_def add_name_def)
  then obtain s where s: "init_atom_table 1024 [(0, [98]), (1, [97])] Map.empty = Some (True, s)" "atoms_ok 1024 s" "atom_list s = [(0, [98]), (1, [97])]"
    using init_atom_table_ok [of 1024 "[(0, [98]), (1, [97])]" Map.empty] by (auto simp: add_name_def)
  have v: "atom_val (make_atom 1) = 1" "atom_val (make_atom 0) = 0" using atom_val_make_atom(1) [of 1] atom_val_make_atom(1) [of 0] by simp_all
  show ?thesis using atoms_compare_by_name [OF s(2), of "make_atom 1" "make_atom 0"] s(1,3) by (auto simp: v)
qed

end
