(* ===== verification/ModuleTable.thy ===== *)
theory ModuleTable
  imports AtomTableThms "HOL-Library.Sublist"
begin

text \<open>
  The tables of loaded modules (\<^verbatim>\<open>module.c\<close>, \<^verbatim>\<open>module.h\<close>), three index tables of which one is active and one is
  prepared while code is loaded, and the code indices that tell which (\<^verbatim>\<open>code_ix.c\<close>). The objects of all
  tables live in one store. The counter of bytes in use, the locks, and the sealing of code pages
  are left out.
\<close>

subsection \<open>Data\<close>

record erl_module_instance =
  code_hdr :: ptr
  code_length :: int
  catches :: u32
  nif :: ptr
  num_breakpoints :: int
  num_traced_exports :: int
  executable_region :: ptr
  writable_region :: ptr
  metadata :: ptr
  unsealed :: int

record Module = IndexSlot +
  module_atom :: int
  seen :: int
  curr :: erl_module_instance
  old :: erl_module_instance
  on_load :: ptr

text \<open>The tables are indexed by the code indices, below \<open>ERTS_NUM_CODE_IX\<close>.\<close>

record ModuleTabs =
  module_tables :: "nat \<Rightarrow> IndexTable"
  module_store :: "Module objstore"
  entries_at_start_staging :: int
  the_active_code_index :: nat
  the_staging_code_index :: nat

definition MODULE_SIZE :: nat where "MODULE_SIZE = 50"
definition MODULE_LIMIT :: nat where "MODULE_LIMIT = 64 * 1024"
definition ERTS_NUM_CODE_IX :: nat where "ERTS_NUM_CODE_IX = 3"
definition BEAM_CATCHES_NIL :: u32 where "BEAM_CATCHES_NIL = - 1"

subsection \<open>The functions of the hash table\<close>

definition module_hash :: "Module \<Rightarrow> u64" where
  "module_hash x = of_int (module_atom x)"

definition module_cmp :: "Module \<Rightarrow> Module \<Rightarrow> int" where
  "module_cmp tmpl x = (if module_atom tmpl \<noteq> module_atom x then 1 else 0)"

definition erts_module_instance_init :: "erl_module_instance \<Rightarrow> erl_module_instance" where
  "erts_module_instance_init modi =
     modi\<lparr>code_hdr := None, code_length := 0, catches := BEAM_CATCHES_NIL, nif := None, num_breakpoints := 0,
          num_traced_exports := 0, unsealed := 0\<rparr>"

text \<open>What memory holds that was not written yet; no function reads it.\<close>

definition raw_instance :: erl_module_instance where
  "raw_instance = \<lparr>code_hdr = None, code_length = 0, catches = 0, nif = None, num_breakpoints = 0, num_traced_exports = 0,
     executable_region = None, writable_region = None, metadata = None, unsealed = 0\<rparr>"

definition module_tmpl :: "int \<Rightarrow> Module" where
  "module_tmpl m = \<lparr>index = 0, module_atom = m, seen = 0, curr = raw_instance, old = raw_instance, on_load = None\<rparr>"

definition module_alloc :: "Module \<Rightarrow> Module" where
  "module_alloc tmpl =
     \<lparr>index = - 1, module_atom = module_atom tmpl, seen = 0, curr = erts_module_instance_init raw_instance,
      old = erts_module_instance_init raw_instance, on_load = None\<rparr>"

definition module_funs :: "Module HashFunctions" where
  "module_funs = \<lparr>fun_hash = module_hash, fun_cmp = module_cmp, fun_alloc = module_alloc\<rparr>"

subsection \<open>Operations on the tables\<close>

definition init_module_table :: "Module objstore \<Rightarrow> ModuleTabs option" where
  "init_module_table st = do {
     t \<leftarrow> erts_index_init MODULE_SIZE MODULE_LIMIT;
     Some \<lparr>module_tables = (\<lambda>_. t), module_store = st, entries_at_start_staging = 0,
           the_active_code_index = 0, the_staging_code_index = 0\<rparr>
   }"

text \<open>The object of a module: its address, if there is one.\<close>

definition erts_get_module :: "eterm \<Rightarrow> nat \<Rightarrow> ModuleTabs \<Rightarrow> ptr option" where
  "erts_get_module m code_ix s = do {
     ix \<leftarrow> index_get module_funs (module_tmpl (int (atom_val m))) (module_tables s code_ix) (module_store s);
     (if ix = - 1 then Some None
      else do { p \<leftarrow> erts_index_lookup (module_tables s code_ix) (nat ix); Some (Some p) })
   }"

text \<open>The address is \<open>None\<close> when the emulator exits because the table is full.\<close>

definition put_module :: "addr \<Rightarrow> eterm \<Rightarrow> nat \<Rightarrow> ModuleTabs \<Rightarrow> (ptr \<times> ModuleTabs) option" where
  "put_module b m code_ix s = do {
     (p, t, st) \<leftarrow> index_put_entry module_funs b (module_tmpl (int (atom_val m))) (module_tables s code_ix) (module_store s);
     Some (p, s\<lparr>module_tables := (module_tables s)(code_ix := t), module_store := st\<rparr>)
   }"

definition erts_put_module :: "addr \<Rightarrow> eterm \<Rightarrow> ModuleTabs \<Rightarrow> (ptr \<times> ModuleTabs) option" where
  "erts_put_module b m s = put_module b m (the_staging_code_index s) s"

definition module_code :: "nat \<Rightarrow> nat \<Rightarrow> ModuleTabs \<Rightarrow> addr option" where
  "module_code i code_ix s = erts_index_lookup (module_tables s code_ix) i"

definition module_code_size :: "nat \<Rightarrow> ModuleTabs \<Rightarrow> int" where
  "module_code_size code_ix s = entries (module_tables s code_ix)"

subsection \<open>Staging\<close>

definition copied :: "Module \<Rightarrow> Module \<Rightarrow> Module" where
  "copied dst src = dst\<lparr>curr := curr src, old := old src, on_load := on_load src\<rparr>"

definition copy_module :: "addr \<Rightarrow> addr \<Rightarrow> Module objstore \<Rightarrow> Module objstore option" where
  "copy_module dst_mod src_mod st = do {
     d \<leftarrow> st dst_mod;
     x \<leftarrow> st src_mod;
     Some (st(dst_mod \<mapsto> d\<lparr>obj := copied (obj d) (obj x)\<rparr>))
   }"

text \<open>The loop over the modules that are in both tables.\<close>

fun copy_loop :: "IndexTable \<Rightarrow> IndexTable \<Rightarrow> nat \<Rightarrow> nat \<Rightarrow> Module objstore \<Rightarrow> Module objstore option" where
  "copy_loop src dst i 0 st = Some st"
| "copy_loop src dst i (Suc n) st = do {
     src_mod \<leftarrow> erts_index_lookup src i;
     dst_mod \<leftarrow> erts_index_lookup dst i;
     st \<leftarrow> copy_module dst_mod src_mod st;
     copy_loop src dst (i + 1) n st
   }"

text \<open>
  The loop over the new modules; \<open>al i\<close> is the address the \<open>i\<close>-th module gets in the staging table. The flag
  is false when the emulator exits because the table is full.
\<close>

fun put_loop :: "(nat \<Rightarrow> addr) \<Rightarrow> IndexTable \<Rightarrow> nat \<Rightarrow> nat \<Rightarrow> IndexTable \<Rightarrow> Module objstore
    \<Rightarrow> (bool \<times> IndexTable \<times> Module objstore) option" where
  "put_loop al src i 0 dst st = Some (True, dst, st)"
| "put_loop al src i (Suc n) dst st = do {
     src_mod \<leftarrow> erts_index_lookup src i;
     e \<leftarrow> st src_mod;
     (p, dst, st) \<leftarrow> index_put_entry module_funs (al i) (obj e) dst st;
     (case p of
        None \<Rightarrow> Some (False, dst, st)
      | Some dst_mod \<Rightarrow> do {
          st \<leftarrow> copy_module dst_mod src_mod st;
          put_loop al src (i + 1) n dst st
        })
   }"

definition module_start_staging :: "(nat \<Rightarrow> addr) \<Rightarrow> ModuleTabs \<Rightarrow> (bool \<times> ModuleTabs) option" where
  "module_start_staging al s = do {
     let src = module_tables s (the_active_code_index s);
     let dst = module_tables s (the_staging_code_index s);
     st \<leftarrow> copy_loop src dst 0 (nat (entries dst)) (module_store s);
     (ok, dst, st) \<leftarrow> put_loop al src (nat (entries dst)) (nat (entries src) - nat (entries dst)) dst st;
     Some (ok, s\<lparr>module_tables := (module_tables s)(the_staging_code_index s := dst), module_store := st,
       entries_at_start_staging := entries dst\<rparr>)
   }"

definition module_end_staging :: "bool \<Rightarrow> ModuleTabs \<Rightarrow> ModuleTabs option" where
  "module_end_staging commit s =
     (if commit then Some s
      else do {
        (t, st) \<leftarrow> index_erase_latest_from module_funs (nat (entries_at_start_staging s))
          (module_tables s (the_staging_code_index s)) (module_store s);
        Some (s\<lparr>module_tables := (module_tables s)(the_staging_code_index s := t), module_store := st\<rparr>)
      })"

text \<open>The change of the indices when staged code becomes active.\<close>

definition erts_commit_staging_code_ix :: "ModuleTabs \<Rightarrow> ModuleTabs" where
  "erts_commit_staging_code_ix s =
     (let ix = the_staging_code_index s in
      s\<lparr>the_active_code_index := ix, the_staging_code_index := (ix + 1) mod ERTS_NUM_CODE_IX\<rparr>)"

end
