(* ===== verification/ModuleThms.thy ===== *)
theory ModuleThms
  imports ModuleTable
begin

text \<open>
  Loading of code prepares a table while the active one stays as it is: starting makes the staging table a
  copy of the active one, aborting takes the new modules out again, and a commit makes the
  staging table the active one. All tables number the modules alike.
\<close>

subsection \<open>The functions of the table have keys\<close>

interpretation modules: index_functions module_funs module_atom
  by unfold_locales (simp_all add: module_funs_def module_cmp_def module_hash_def module_alloc_def)

subsection \<open>Objects that change but keep their key and number\<close>

definition same_entry :: "Module objstore \<Rightarrow> Module objstore \<Rightarrow> addr \<Rightarrow> bool" where
  "same_entry st st' p \<longleftrightarrow> (\<exists>e e'. st p = Some e \<and> st' p = Some e' \<and> hvalue e' = hvalue e
     \<and> module_atom (obj e') = module_atom (obj e) \<and> index (obj e') = index (obj e))"

lemma module_stored:
  assumes "index_rel module_funs module_atom t st ps" "p \<in> set ps"
  shows "\<exists>e. st p = Some e \<and> hvalue e = module_hash (obj e)"
  using hash_ok_stored [of module_funs module_atom "htable t" st] assms index_rel_facts(1) [OF assms(1)]
  by (auto simp: index_rel_def stored_def module_funs_def)

lemma index_rel_upd:
  assumes r: "index_rel module_funs module_atom t st ps" and u: "\<forall>p \<in> set ps. same_entry st st' p"
  shows "index_rel module_funs module_atom t st' ps"
proof -
  have s: "set ps = set (objects (htable t))" by (rule index_rel_facts [OF r])
  have ok: "hash_ok module_funs module_atom (htable t) st" using r by (simp add: index_rel_def)
  have k: "key_at module_atom st' p = key_at module_atom st p" if "p \<in> set ps" for p
    using u that by (force simp: same_entry_def key_at_def)
  have pl: "bucket_placed module_funs st' (htable t) i b" if b: "bucket_placed module_funs st (htable t) i b" "b \<in> set ps" for i b
  proof -
    obtain e where "st b = Some e" "hvalue e = module_hash (obj e)" "unat (hash_get_slot (htable t) (hvalue e)) = i"
      using b(1) by (auto simp: bucket_placed_def module_funs_def)
    then show ?thesis using bspec [OF u b(2)] by (auto simp: same_entry_def bucket_placed_def module_funs_def module_hash_def)
  qed
  have km: "map (key_at module_atom st') (objects (htable t)) = map (key_at module_atom st) (objects (htable t))" using k s by simp
  have "distinct (map (key_at module_atom st') (objects (htable t)))" unfolding km using ok by (simp add: hash_ok_def)
  moreover have "bucket_placed module_funs st' (htable t) i b" if "i < length (bucket (htable t))" "b \<in> set (bucket (htable t) ! i)" for i b
    using pl [of i b] ok chain_objects [OF that] that s unfolding hash_ok_def by blast
  ultimately have "hash_ok module_funs module_atom (htable t) st'" using ok by (simp add: hash_ok_def)
  moreover have "index (obj (the (st' (ps ! i)))) = int i" if "i < length ps" for i
    using r that bspec [OF u nth_mem [OF that]] by (auto simp: index_rel_def same_entry_def)
  ultimately show ?thesis using r by (simp add: index_rel_def)
qed

lemma same_entry_refl: "index_rel module_funs module_atom t st ps \<Longrightarrow> p \<in> set ps \<Longrightarrow> st' p = st p \<Longrightarrow> same_entry st st' p"
  using module_stored [of t st ps p] by (auto simp: same_entry_def)

lemma index_rel_frame:
  assumes "index_rel module_funs module_atom t st ps" "\<forall>p \<in> set ps. st' p = st p"
  shows "index_rel module_funs module_atom t st' ps"
  using index_rel_upd [OF assms(1), of st'] same_entry_refl [OF assms(1)] assms(2) by blast

subsection \<open>The loops of the start of staging\<close>

text \<open>What a table holds of a module.\<close>

definition content_at :: "Module objstore \<Rightarrow> addr \<Rightarrow> int \<times> erl_module_instance \<times> erl_module_instance \<times> ptr" where
  "content_at st p = (let x = obj (the (st p)) in (module_atom x, curr x, old x, on_load x))"

lemma copy_loop_ok:
  assumes "index_rel module_funs module_atom src st ps" "index_rel module_funs module_atom dst st qs" "set ps \<inter> set qs = {}"
    "i + n \<le> length ps" "i + n \<le> length qs"
    "\<forall>j. i \<le> j \<and> j < i + n \<longrightarrow> key_at module_atom st (ps ! j) = key_at module_atom st (qs ! j)"
  shows "\<exists>st'. copy_loop src dst i n st = Some st' \<and> (\<forall>x. x \<notin> set qs \<longrightarrow> st' x = st x) \<and> (\<forall>q \<in> set qs. same_entry st st' q)
    \<and> (\<forall>j < length qs. content_at st' (qs ! j) = (if i \<le> j \<and> j < i + n then content_at st (ps ! j) else content_at st (qs ! j)))"
  using assms
proof (induction n arbitrary: i st)
  case 0
  then show ?case using same_entry_refl [OF 0(2)] by auto
next
  case (Suc n)
  have l: "i < length ps" "i < length qs" using Suc.prems(4,5) by simp_all
  have lk: "erts_index_lookup src i = Some (ps ! i)" "erts_index_lookup dst i = Some (qs ! i)"
    using Suc.prems(1,2) l by (simp_all add: index_rel_def)
  obtain d x where dx: "st (qs ! i) = Some d" "st (ps ! i) = Some x"
    using module_stored [OF Suc.prems(2) nth_mem [OF l(2)]] module_stored [OF Suc.prems(1) nth_mem [OF l(1)]] by blast
  define st1 where "st1 = st(qs ! i \<mapsto> d\<lparr>obj := copied (obj d) (obj x)\<rparr>)"
  have cp: "copy_module (qs ! i) (ps ! i) st = Some st1" using dx by (simp add: copy_module_def st1_def)
  have q: "qs ! i \<in> set qs" "qs ! i \<notin> set ps" using Suc.prems(3) nth_mem [OF l(2)] by auto
  have keep: "st1 y = st y" if "y \<noteq> qs ! i" for y using that by (simp add: st1_def)
  have same: "same_entry st st1 y" if "y \<in> set qs" for y
    using that dx(1) same_entry_refl [OF Suc.prems(2) that] keep by (cases "y = qs ! i") (auto simp: same_entry_def st1_def copied_def)
  have rel: "index_rel module_funs module_atom src st1 ps" "index_rel module_funs module_atom dst st1 qs"
    using index_rel_frame [OF Suc.prems(1), of st1] keep q(2) index_rel_upd [OF Suc.prems(2), of st1] same by (metis, metis)
  have key: "key_at module_atom st1 y = key_at module_atom st y" for y using dx(1) by (simp add: key_at_def st1_def copied_def)
  obtain st2 where st2: "copy_loop src dst (i + 1) n st1 = Some st2" "\<forall>y. y \<notin> set qs \<longrightarrow> st2 y = st1 y" "\<forall>y \<in> set qs. same_entry st1 st2 y"
      "\<forall>j < length qs. content_at st2 (qs ! j) = (if i + 1 \<le> j \<and> j < i + 1 + n then content_at st1 (ps ! j) else content_at st1 (qs ! j))"
    using Suc.IH [OF rel Suc.prems(3), of "i + 1"] Suc.prems(4,5,6) key by auto
  have "content_at st2 (qs ! j) = (if i \<le> j \<and> j < i + Suc n then content_at st (ps ! j) else content_at st (qs ! j))" if j: "j < length qs" for j
  proof (cases "j = i")
    case True
    have "module_atom (obj d) = module_atom (obj x)" using Suc.prems(6) dx by (force simp: key_at_def)
    then show ?thesis using True st2(4) j dx by (simp add: content_at_def st1_def copied_def Let_def)
  next
    case False
    then have "qs ! j \<noteq> qs ! i" using index_rel_facts(3) [OF Suc.prems(2)] j l by (simp add: nth_eq_iff_index_eq)
    moreover have "ps ! j \<noteq> qs ! i" if "j < length ps" using nth_mem [OF that] q(2) by auto
    ultimately show ?thesis using False st2(4) j keep Suc.prems(4) by (auto simp: content_at_def)
  qed
  moreover have "\<forall>y \<in> set qs. same_entry st st2 y" using same st2(3) by (fastforce simp: same_entry_def)
  moreover have "\<forall>y. y \<notin> set qs \<longrightarrow> st2 y = st y" using st2(2) keep q(1) by metis
  ultimately show ?case using lk cp st2(1) by (intro exI [of _ st2]) auto
qed

lemma module_capacity: "capacity MODULE_LIMIT = 65536"
  by (simp add: capacity_def MODULE_LIMIT_def)

text \<open>One new module: it is put and filled.\<close>

lemma put_copy_ok:
  assumes r: "index_rel module_funs module_atom src st ps" "index_rel module_funs module_atom dst st qs"
    and i: "i < length ps" "length qs = i" "i < 65536" "limit dst = int MODULE_LIMIT"
    and k: "key_at module_atom st (ps ! i) \<notin> set (map (key_at module_atom st) qs)" and b: "b \<notin> set ps" "b \<notin> set qs"
  shows "\<exists>e dst' st1 st'. st (ps ! i) = Some e \<and> index_put_entry module_funs b (obj e) dst st = Some (Some b, dst', st1) \<and> copy_module b (ps ! i) st1 = Some st'
    \<and> index_rel module_funs module_atom dst' st' (qs @ [b]) \<and> index_rel module_funs module_atom src st' ps \<and> limit dst' = limit dst
    \<and> (\<forall>x. x \<noteq> b \<longrightarrow> st' x = st x) \<and> content_at st' b = content_at st (ps ! i)"
proof -
  obtain e where e: "st (ps ! i) = Some e" using module_stored [OF r(1) nth_mem [OF i(1)]] by blast
  have nk: "module_atom (obj e) \<notin> set (map (key_at module_atom st) qs)" using k e by (simp add: key_at_def)
  have n: "pages_ok dst" "entries dst = int (length qs)" "entries dst \<le> t_size dst" using r(2) by (auto simp: index_rel_def)
  have lim: "entries dst < limit dst \<or> entries dst < t_size dst" using room_iff [OF n] i(2-4) module_capacity by simp
  have l: "length qs < 2 ^ 27" using i(2,3) by simp
  obtain dst' st1 where p: "index_put_entry module_funs b (obj e) dst st = Some (Some b, dst', st1)" "index_rel module_funs module_atom dst' st1 (qs @ [b])"
      "limit dst' = limit dst" "\<forall>x. x \<noteq> b \<longrightarrow> st1 x = st x"
      "st1 b = Some \<lparr>hvalue = fun_hash module_funs (obj e), obj = (fun_alloc module_funs (obj e))\<lparr>index := entries dst\<rparr>\<rparr>"
    using modules.index_put_new [OF r(2) b(2) l nk lim] by blast
  define d where "d = \<lparr>hvalue = fun_hash module_funs (obj e), obj = (fun_alloc module_funs (obj e))\<lparr>index := entries dst\<rparr>\<rparr>"
  define st' where "st' = st1(b \<mapsto> d\<lparr>obj := copied (obj d) (obj e)\<rparr>)"
  have "ps ! i \<noteq> b" using b(1) nth_mem [OF i(1)] by auto
  then have c: "copy_module b (ps ! i) st1 = Some st'" using p(4,5) e by (simp add: copy_module_def st'_def d_def)
  have keep: "\<forall>x. x \<noteq> b \<longrightarrow> st' x = st x" using p(4) by (simp add: st'_def)
  have "same_entry st1 st' x" if "x \<in> set (qs @ [b])" for x
    using that same_entry_refl [OF p(2) that, of st'] p(5) by (cases "x = b") (auto simp: same_entry_def st'_def d_def copied_def)
  then have "index_rel module_funs module_atom dst' st' (qs @ [b])" using index_rel_upd [OF p(2)] by blast
  moreover have "index_rel module_funs module_atom src st' ps" using index_rel_frame [OF r(1), of st'] keep b(1) by metis
  moreover have "content_at st' b = content_at st (ps ! i)"
    using e by (simp add: content_at_def st'_def d_def copied_def Let_def module_funs_def module_alloc_def)
  ultimately show ?thesis using e p(1,3) c keep by blast
qed

lemma put_loop_ok:
  assumes "index_rel module_funs module_atom src st ps" "index_rel module_funs module_atom dst st qs"
    "length qs = i" "i + n = length ps" "length ps \<le> 65536" "limit dst = int MODULE_LIMIT"
    "map (key_at module_atom st) qs = map (key_at module_atom st) (take i ps)"
    "inj_on al {i..<i + n}" "al ` {i..<i + n} \<inter> (set ps \<union> set qs) = {}"
  shows "\<exists>dst' st'. put_loop al src i n dst st = Some (True, dst', st') \<and> index_rel module_funs module_atom dst' st' (qs @ map al [i..<i + n])
    \<and> limit dst' = limit dst \<and> (\<forall>x. x \<notin> al ` {i..<i + n} \<longrightarrow> st' x = st x)
    \<and> (\<forall>j. i \<le> j \<and> j < i + n \<longrightarrow> content_at st' (al j) = content_at st (ps ! j))"
  using assms
proof (induction n arbitrary: i dst st qs)
  case 0
  then show ?case by auto
next
  case (Suc n)
  have i: "i < length ps" "i < 65536" using Suc.prems(4,5) by simp_all
  have "al i \<in> al ` {i..<i + Suc n}" by simp
  then have a: "al i \<notin> set ps" "al i \<notin> set qs" using Suc.prems(9) by blast+
  have d: "distinct (map (key_at module_atom st) ps)" by (rule index_rel_facts [OF Suc.prems(1)])
  have "key_at module_atom st (ps ! i) \<notin> set (map (key_at module_atom st) (take i ps))"
  proof -
    have "map (key_at module_atom st) (take (Suc i) ps) = map (key_at module_atom st) (take i ps) @ [key_at module_atom st (ps ! i)]"
      by (simp add: take_Suc_conv_app_nth [OF i(1)])
    moreover have "distinct (map (key_at module_atom st) (take (Suc i) ps))" using d by (metis distinct_take take_map)
    ultimately show ?thesis by (metis distinct_append disjoint_insert(1) list.set(2))
  qed
  then have k: "key_at module_atom st (ps ! i) \<notin> set (map (key_at module_atom st) qs)" unfolding Suc.prems(7) .
  obtain e dst1 st0 st1 where s: "st (ps ! i) = Some e" "index_put_entry module_funs (al i) (obj e) dst st = Some (Some (al i), dst1, st0)"
      "copy_module (al i) (ps ! i) st0 = Some st1" "index_rel module_funs module_atom dst1 st1 (qs @ [al i])" "index_rel module_funs module_atom src st1 ps"
      "limit dst1 = limit dst" "\<forall>x. x \<noteq> al i \<longrightarrow> st1 x = st x" "content_at st1 (al i) = content_at st (ps ! i)"
    using put_copy_ok [OF Suc.prems(1,2) i(1) Suc.prems(3) i(2) Suc.prems(6) k a] by blast
  have keep: "st1 x = st x" if "x \<in> set ps \<or> x \<in> set qs" for x using s(7) a that by metis
  have ke: "map (key_at module_atom st1) (qs @ [al i]) = map (key_at module_atom st1) (take (i + 1) ps)"
  proof -
    have "map (key_at module_atom st1) qs = map (key_at module_atom st) qs" using keep by (simp add: key_at_def)
    moreover have "map (key_at module_atom st1) (take i ps) = map (key_at module_atom st) (take i ps)"
      using keep by (auto simp: key_at_def dest: in_set_takeD)
    moreover have "key_at module_atom st1 (al i) = key_at module_atom st1 (ps ! i)"
      using s(8) keep [of "ps ! i"] nth_mem [OF i(1)] by (simp add: content_at_def key_at_def Let_def)
    ultimately show ?thesis using Suc.prems(7) by (simp add: take_Suc_conv_app_nth [OF i(1)])
  qed
  have inj: "inj_on al {i + 1..<i + 1 + n}" "al ` {i + 1..<i + 1 + n} \<inter> (set ps \<union> set (qs @ [al i])) = {}"
  proof -
    show "inj_on al {i + 1..<i + 1 + n}" using Suc.prems(8) by (rule inj_on_subset) auto
    have "al j \<noteq> al i" if "j \<in> {i + 1..<i + 1 + n}" for j using inj_onD [OF Suc.prems(8), of j i] that by auto
    then have "al i \<notin> al ` {i + 1..<i + 1 + n}" by (metis imageE)
    moreover have "al ` {i + 1..<i + 1 + n} \<subseteq> al ` {i..<i + Suc n}" by (intro image_mono) auto
    ultimately show "al ` {i + 1..<i + 1 + n} \<inter> (set ps \<union> set (qs @ [al i])) = {}" using Suc.prems(9) by auto
  qed
  obtain dst2 st2 where t: "put_loop al src (i + 1) n dst1 st1 = Some (True, dst2, st2)"
      "index_rel module_funs module_atom dst2 st2 ((qs @ [al i]) @ map al [i + 1..<i + 1 + n])" "limit dst2 = limit dst1"
      "\<forall>x. x \<notin> al ` {i + 1..<i + 1 + n} \<longrightarrow> st2 x = st1 x" "\<forall>j. i + 1 \<le> j \<and> j < i + 1 + n \<longrightarrow> content_at st2 (al j) = content_at st1 (ps ! j)"
    using Suc.IH [OF s(5,4) _ _ Suc.prems(5) _ ke inj] Suc.prems(3,4,6) s(6) by auto
  have "[i..<i + Suc n] = i # [i + 1..<i + 1 + n]" by (simp add: upt_conv_Cons)
  moreover have "erts_index_lookup src i = Some (ps ! i)" using Suc.prems(1) i(1) by (simp add: index_rel_def)
  moreover have "\<forall>x. x \<notin> al ` {i..<i + Suc n} \<longrightarrow> st2 x = st x"
  proof (intro allI impI)
    fix x
    assume "x \<notin> al ` {i..<i + Suc n}"
    then have "x \<noteq> al i" "x \<notin> al ` {i + 1..<i + 1 + n}" by auto
    then show "st2 x = st x" using t(4) s(7) by metis
  qed
  moreover have "content_at st2 (al j) = content_at st (ps ! j)" if j: "i \<le> j" "j < i + Suc n" for j
  proof (cases "j = i")
    case True
    have "al i \<notin> al ` {i + 1..<i + 1 + n}" using inj(2) by auto
    then show ?thesis using True t(4) s(8) by (simp add: content_at_def)
  next
    case False
    have "st1 (ps ! j) = st (ps ! j)" using keep nth_mem [of j ps] j Suc.prems(4) by simp
    then show ?thesis using False t(5) j by (simp add: content_at_def)
  qed
  ultimately show ?case using s(1,2,3,6) t(1,2,3) by (intro exI [of _ dst2] exI [of _ st2]) auto
qed

text \<open>The two loops together make the staging table a copy of the active one.\<close>

lemma keys_prefix:
  assumes pk: "prefix (map (key_at module_atom st) qs) (map (key_at module_atom st) ps)"
  shows "length qs \<le> length ps" "map (key_at module_atom st) qs = map (key_at module_atom st) (take (length qs) ps)"
    "j < length qs \<Longrightarrow> key_at module_atom st (ps ! j) = key_at module_atom st (qs ! j)"
proof -
  show len: "length qs \<le> length ps" using prefix_length_le [OF pk] by simp
  show tk: "map (key_at module_atom st) qs = map (key_at module_atom st) (take (length qs) ps)"
    using pk by (metis length_map prefix_def append_eq_conv_conj take_map)
  show "key_at module_atom st (ps ! j) = key_at module_atom st (qs ! j)" if "j < length qs"
    using arg_cong [OF tk, of "\<lambda>xs. xs ! j"] that len by simp
qed

lemma copied_keys:
  assumes same: "\<forall>q \<in> set qs. same_entry st st' q" and keep: "\<forall>p \<in> set ps. st' p = st p"
    and tk: "map (key_at module_atom st) qs = map (key_at module_atom st) (take (length qs) ps)"
  shows "map (key_at module_atom st') qs = map (key_at module_atom st') (take (length qs) ps)"
proof -
  have "map (key_at module_atom st') qs = map (key_at module_atom st) qs"
    using same by (intro map_cong refl) (force simp: same_entry_def key_at_def)
  moreover have "map (key_at module_atom st') (take (length qs) ps) = map (key_at module_atom st) (take (length qs) ps)"
    using keep by (intro map_cong refl) (auto simp: key_at_def dest: in_set_takeD)
  ultimately show ?thesis using tk by simp
qed

lemma stage_loops_ok:
  assumes r: "index_rel module_funs module_atom src st ps" "index_rel module_funs module_atom dst st qs" and dj: "set ps \<inter> set qs = {}"
    and pk: "prefix (map (key_at module_atom st) qs) (map (key_at module_atom st) ps)"
    and l: "length ps \<le> 65536" and lim: "limit dst = int MODULE_LIMIT" and al: "inj al" "range al \<inter> (set ps \<union> set qs) = {}"
  defines "n \<equiv> length ps - length qs" and "ns \<equiv> qs @ map al [length qs..<length ps]"
  shows "\<exists>st1 dst' st2. copy_loop src dst 0 (length qs) st = Some st1 \<and> put_loop al src (length qs) n dst st1 = Some (True, dst', st2)
    \<and> index_rel module_funs module_atom dst' st2 ns \<and> limit dst' = int MODULE_LIMIT \<and> (\<forall>x. x \<notin> set ns \<longrightarrow> st2 x = st x)
    \<and> map (content_at st2) ns = map (content_at st) ps"
proof -
  note kp = keys_prefix [OF pk]
  obtain st1 where c: "copy_loop src dst 0 (length qs) st = Some st1" "\<forall>x. x \<notin> set qs \<longrightarrow> st1 x = st x"
      "\<forall>q \<in> set qs. same_entry st st1 q" "\<forall>j < length qs. content_at st1 (qs ! j) = content_at st (ps ! j)"
    using copy_loop_ok [OF r dj, of 0 "length qs"] kp by auto
  have keep: "\<forall>x \<in> set ps. st1 x = st x" using c(2) dj by blast
  have r1: "index_rel module_funs module_atom src st1 ps" "index_rel module_funs module_atom dst st1 qs"
    using index_rel_frame [OF r(1) keep] index_rel_upd [OF r(2) c(3)] by blast+
  have n: "length qs + n = length ps" using kp(1) by (simp add: n_def)
  have aln: "inj_on al {length qs..<length qs + n}" "al ` {length qs..<length qs + n} \<inter> (set ps \<union> set qs) = {}"
    using inj_on_subset [OF al(1)] al(2) by blast+
  obtain dst' st2 where p: "put_loop al src (length qs) n dst st1 = Some (True, dst', st2)" "index_rel module_funs module_atom dst' st2 ns"
      "limit dst' = int MODULE_LIMIT" "\<forall>x. x \<notin> al ` {length qs..<length ps} \<longrightarrow> st2 x = st1 x"
      "\<forall>j. length qs \<le> j \<and> j < length ps \<longrightarrow> content_at st2 (al j) = content_at st1 (ps ! j)"
    using put_loop_ok [OF r1 refl n l lim copied_keys [OF c(3) keep kp(2)] aln] lim unfolding ns_def n by metis
  have "map (content_at st2) ns = map (content_at st) ps"
  proof (rule nth_equalityI)
    show ln: "length (map (content_at st2) ns) = length (map (content_at st) ps)" using kp(1) by (simp add: ns_def)
    fix j
    assume "j < length (map (content_at st2) ns)"
    then have j: "j < length ps" "j < length ns" using ln by simp_all
    have "content_at st2 (ns ! j) = content_at st (ps ! j)"
    proof (cases "j < length qs")
      case True
      then have "qs ! j \<notin> al ` {length qs..<length ps}" using al(2) nth_mem [OF True] by blast
      then show ?thesis using True c(4) p(4) by (simp add: ns_def nth_append content_at_def)
    next
      case False
      then have "ns ! j = al j" using j by (simp add: ns_def nth_append)
      then show ?thesis using False p(5) j(1) bspec [OF keep nth_mem [OF j(1)]] by (simp add: content_at_def)
    qed
    then show "map (content_at st2) ns ! j = map (content_at st) ps ! j" using j by simp
  qed
  moreover have "\<forall>x. x \<notin> set ns \<longrightarrow> st2 x = st x" using p(4) c(2) by (auto simp: ns_def)
  ultimately show ?thesis using c(1) p(1,2,3) by blast
qed

end
