(* ===== verification/ModuleProps.thy ===== *)
theory ModuleProps
  imports ModuleThms
begin

text \<open>
  The protocol of code loading on the three module tables, as a relation of steps: the start of staging,
  puts into the staging table, its end by a commit or an abort, and, at any time, writes of the rest of the
  emulator to the fields of a module. Its invariant is proved by induction over the reachable states.
\<close>

subsection \<open>Views of the tables\<close>

definition objs :: "nat \<Rightarrow> ModuleTabs \<Rightarrow> addr list" where
  "objs ix s = index_objs (module_tables s ix)"

definition mods :: "nat \<Rightarrow> ModuleTabs \<Rightarrow> int list" where
  "mods ix s = map (key_at module_atom (module_store s)) (objs ix s)"

definition contents :: "nat \<Rightarrow> ModuleTabs \<Rightarrow> (int \<times> erl_module_instance \<times> erl_module_instance \<times> ptr) list" where
  "contents ix s = map (content_at (module_store s)) (objs ix s)"

lemma mods_contents: "mods ix s = map fst (contents ix s)"
  by (simp add: mods_def contents_def content_at_def key_at_def Let_def)

definition table_rel :: "nat \<Rightarrow> ModuleTabs \<Rightarrow> bool" where
  "table_rel ix s \<longleftrightarrow> index_rel module_funs module_atom (module_tables s ix) (module_store s) (objs ix s)
     \<and> limit (module_tables s ix) = int MODULE_LIMIT"

definition mods_ok :: "ModuleTabs \<Rightarrow> bool" where
  "mods_ok s \<longleftrightarrow> the_active_code_index s < 3 \<and> the_staging_code_index s < 3 \<and> (\<forall>ix < 3. table_rel ix s)
     \<and> (\<forall>ix < 3. \<forall>jx < 3. ix \<noteq> jx \<longrightarrow> set (objs ix s) \<inter> set (objs jx s) = {})"

definition fresh_addr :: "addr \<Rightarrow> ModuleTabs \<Rightarrow> bool" where
  "fresh_addr b s \<longleftrightarrow> (\<forall>ix < 3. b \<notin> set (objs ix s))"

lemma table_length: "table_rel ix s \<Longrightarrow> length (objs ix s) \<le> 65536"
  using module_capacity by (auto simp: table_rel_def index_rel_def pages_ok_def capacity_def)

text \<open>A change of one table that leaves the objects of the others.\<close>

lemma mods_ok_upd:
  assumes ok: "mods_ok s" and ix: "ix < 3" and r: "index_rel module_funs module_atom t st ps" and l: "limit t = int MODULE_LIMIT"
    and new: "\<forall>p \<in> set ps. p \<in> set (objs ix s) \<or> fresh_addr p s" and keep: "\<forall>jx < 3. jx \<noteq> ix \<longrightarrow> (\<forall>p \<in> set (objs jx s). st p = module_store s p)"
  defines "s' \<equiv> s\<lparr>module_tables := (module_tables s)(ix := t), module_store := st\<rparr>"
  shows "mods_ok s'" "objs ix s' = ps" "\<forall>jx < 3. jx \<noteq> ix \<longrightarrow> contents jx s' = contents jx s \<and> objs jx s' = objs jx s"
proof -
  show o: "objs ix s' = ps" using index_rel_objs [OF r] by (simp add: objs_def s'_def)
  have oj: "objs jx s' = objs jx s" if "jx \<noteq> ix" for jx using that by (simp add: objs_def s'_def)
  then show "\<forall>jx < 3. jx \<noteq> ix \<longrightarrow> contents jx s' = contents jx s \<and> objs jx s' = objs jx s"
    using keep by (auto simp: contents_def s'_def content_at_def)
  have "table_rel jx s'" if jx: "jx < 3" for jx
  proof (cases "jx = ix")
    case True
    then show ?thesis using r l o by (simp add: table_rel_def s'_def)
  next
    case False
    have "index_rel module_funs module_atom (module_tables s jx) (module_store s) (objs jx s)"
      using ok jx by (simp add: mods_ok_def table_rel_def)
    from index_rel_frame [OF this] have "index_rel module_funs module_atom (module_tables s jx) st (objs jx s)" using keep jx False by blast
    then show ?thesis using ok jx False oj by (simp add: mods_ok_def table_rel_def s'_def)
  qed
  moreover have "set (objs i s') \<inter> set (objs j s') = {}" if "i < 3" "j < 3" "i \<noteq> j" for i j
  proof -
    have d: "set (objs a s) \<inter> set (objs c s) = {}" if "a < 3" "c < 3" "a \<noteq> c" for a c using ok that by (simp add: mods_ok_def)
    have x: "set ps \<inter> set (objs c s) = {}" if "c < 3" "c \<noteq> ix" for c using new d [OF ix that(1)] that by (auto simp: fresh_addr_def)
    consider "i = ix" | "j = ix" | "i \<noteq> ix" "j \<noteq> ix" by blast
    then show ?thesis using o oj x [of i] x [of j] d [of i j] that by cases auto
  qed
  ultimately show "mods_ok s'" using ok by (auto simp: mods_ok_def s'_def)
qed

lemma views_simps [simp]:
  "objs ix (s\<lparr>entries_at_start_staging := n\<rparr>) = objs ix s" "mods ix (s\<lparr>entries_at_start_staging := n\<rparr>) = mods ix s"
  "contents ix (s\<lparr>entries_at_start_staging := n\<rparr>) = contents ix s" "mods_ok (s\<lparr>entries_at_start_staging := n\<rparr>) = mods_ok s"
  by (simp_all add: objs_def mods_def contents_def mods_ok_def table_rel_def)

subsection \<open>The protocol\<close>

text \<open>
  The emulator boots with both indices 0 and leaves that phase by a commit. The loader, the purger and others
  write to the modules they looked up, at any time and in any table, but never to their name and number.
\<close>

definition write_module :: "addr \<Rightarrow> erl_module_instance \<Rightarrow> erl_module_instance \<Rightarrow> ptr \<Rightarrow> ModuleTabs \<Rightarrow> ModuleTabs" where
  "write_module p c d l s =
     s\<lparr>module_store := (module_store s)(p := map_option (\<lambda>e. e\<lparr>obj := (obj e)\<lparr>curr := c, old := d, on_load := l\<rparr>\<rparr>) (module_store s p))\<rparr>"

datatype phase = Boot | Idle | Staging

inductive code_step :: "phase \<times> ModuleTabs \<Rightarrow> phase \<times> ModuleTabs \<Rightarrow> bool" where
  put: "ph \<noteq> Idle \<Longrightarrow> fresh_addr b s \<Longrightarrow> erts_put_module b m s = Some (Some p, s') \<Longrightarrow> code_step (ph, s) (ph, s')"
| start: "inj al \<Longrightarrow> (\<And>i. fresh_addr (al i) s) \<Longrightarrow> module_start_staging al s = Some (True, s') \<Longrightarrow> code_step (Idle, s) (Staging, s')"
| abort: "module_end_staging False s = Some s' \<Longrightarrow> code_step (Staging, s) (Idle, s')"
| commit: "ph \<noteq> Idle \<Longrightarrow> module_end_staging True s = Some s' \<Longrightarrow> code_step (ph, s) (Idle, erts_commit_staging_code_ix s')"
| wr: "code_step (ph, s) (ph, write_module p c d l s)"

inductive code_reach :: "phase \<times> ModuleTabs \<Rightarrow> bool" where
  init: "init_module_table st = Some s \<Longrightarrow> code_reach (Boot, s)"
| step: "code_reach x \<Longrightarrow> code_step x y \<Longrightarrow> code_reach y"

inductive_cases code_stepE: "code_step x y"

definition code_inv :: "phase \<Rightarrow> ModuleTabs \<Rightarrow> bool" where
  "code_inv ph s \<longleftrightarrow> mods_ok s \<and>
     (let a = the_active_code_index s; b = the_staging_code_index s in
      case ph of
        Boot \<Rightarrow> a = 0 \<and> b = 0 \<and> (\<forall>ix < 3. ix \<noteq> 0 \<longrightarrow> objs ix s = [])
      | Idle \<Rightarrow> a \<noteq> b \<and> (\<forall>ix < 3. prefix (mods ix s) (mods a s))
      | Staging \<Rightarrow> a \<noteq> b \<and> (\<forall>ix < 3. ix \<noteq> b \<longrightarrow> prefix (mods ix s) (mods a s)) \<and> prefix (mods a s) (mods b s)
          \<and> entries_at_start_staging s = int (length (objs a s)))"

lemma start_staging_ok:
  assumes inv: "code_inv Idle s" and al: "inj al" "\<And>i. fresh_addr (al i) s"
  shows "\<exists>s'. module_start_staging al s = Some (True, s') \<and> code_inv Staging s'
    \<and> the_active_code_index s' = the_active_code_index s \<and> the_staging_code_index s' = the_staging_code_index s
    \<and> contents (the_staging_code_index s) s' = contents (the_active_code_index s) s
    \<and> (\<forall>ix < 3. ix \<noteq> the_staging_code_index s \<longrightarrow> contents ix s' = contents ix s)"
proof -
  define a b st ps qs where "a = the_active_code_index s" and "b = the_staging_code_index s" and "st = module_store s"
    and "ps = objs a s" and "qs = objs b s"
  have ok: "mods_ok s" and ab: "a < 3" "b < 3" "a \<noteq> b" and pre: "\<forall>ix < 3. prefix (mods ix s) (mods a s)"
    using inv by (auto simp: code_inv_def Let_def a_def b_def) (auto simp: mods_ok_def)
  have r: "index_rel module_funs module_atom (module_tables s a) st ps" "index_rel module_funs module_atom (module_tables s b) st qs"
    and lim: "limit (module_tables s b) = int MODULE_LIMIT"
    using ok ab by (auto simp: mods_ok_def table_rel_def st_def ps_def qs_def)
  have dj: "set ps \<inter> set qs = {}" using ok ab by (auto simp: mods_ok_def ps_def qs_def)
  have pk: "prefix (map (key_at module_atom st) qs) (map (key_at module_atom st) ps)"
    using pre ab by (simp add: mods_def ps_def qs_def st_def)
  have fr: "range al \<inter> set (objs ix s) = {}" if "ix < 3" for ix using al(2) that by (auto simp: fresh_addr_def)
  have l: "length ps \<le> 65536" using table_length [of a s] ok ab by (simp add: mods_ok_def ps_def)
  define ns where "ns = qs @ map al [length qs..<length ps]"
  have alr: "range al \<inter> (set ps \<union> set qs) = {}" using fr [OF ab(1)] fr [OF ab(2)] unfolding ps_def qs_def by blast
  obtain st1 dst st2 where p: "copy_loop (module_tables s a) (module_tables s b) 0 (length qs) st = Some st1"
      "put_loop al (module_tables s a) (length qs) (length ps - length qs) (module_tables s b) st1 = Some (True, dst, st2)"
      "index_rel module_funs module_atom dst st2 ns" "limit dst = int MODULE_LIMIT" "\<forall>x. x \<notin> set ns \<longrightarrow> st2 x = st x"
      "map (content_at st2) ns = map (content_at st) ps"
    using stage_loops_ok [OF r dj pk l lim al(1) alr, folded ns_def] by blast
  define s1 where "s1 = s\<lparr>module_tables := (module_tables s)(b := dst), module_store := st2\<rparr>"
  define s' where "s' = s1\<lparr>entries_at_start_staging := entries dst\<rparr>"
  have e: "entries (module_tables s a) = int (length ps)" "entries (module_tables s b) = int (length qs)" "entries dst = int (length ns)"
    using r p(3) by (auto simp: index_rel_def)
  have run: "module_start_staging al s = Some (True, s')"
    using p(1,2) e(1,2) by (simp add: module_start_staging_def s'_def s1_def a_def [symmetric] b_def [symmetric] st_def [symmetric])
  have new: "\<forall>q \<in> set ns. q \<in> set (objs b s) \<or> fresh_addr q s" using al(2) by (auto simp: ns_def qs_def)
  have kp: "st2 x = module_store s x" if jx: "jx < 3" "jx \<noteq> b" "x \<in> set (objs jx s)" for jx x
  proof -
    have "set qs \<inter> set (objs jx s) = {}" using ok jx ab(2) by (auto simp: mods_ok_def qs_def)
    then have "x \<notin> set ns" using fr [OF jx(1)] jx(3) by (auto simp: ns_def)
    then show ?thesis using p(5) by (simp add: st_def)
  qed
  have u: "mods_ok s1" "objs b s1 = ns" "\<forall>jx < 3. jx \<noteq> b \<longrightarrow> contents jx s1 = contents jx s \<and> objs jx s1 = objs jx s"
    using mods_ok_upd [OF ok ab(2) p(3,4) new] kp by (auto simp: s1_def)
  have "module_store s' = st2" by (simp add: s'_def s1_def)
  then have cont: "contents b s' = contents a s" using u(2) p(6) by (simp add: contents_def s'_def ps_def st_def)
  moreover have other: "\<forall>ix < 3. ix \<noteq> b \<longrightarrow> contents ix s' = contents ix s \<and> objs ix s' = objs ix s" using u(3) by (simp add: s'_def)
  moreover have "the_active_code_index s' = a" "the_staging_code_index s' = b" by (simp_all add: s'_def s1_def a_def b_def)
  moreover have "length ns = length ps" using arg_cong [OF p(6), of length] by simp
  then have "entries_at_start_staging s' = int (length (objs a s'))" using e(3) other ab by (simp add: s'_def ps_def)
  moreover have "mods_ok s'" using u(1) by (simp add: s'_def)
  ultimately have "code_inv Staging s'" using pre ab by (simp add: code_inv_def mods_contents Let_def)
  then show ?thesis using run cont other unfolding a_def [symmetric] b_def [symmetric] by (intro exI [of _ s']) (simp add: s'_def s1_def a_def b_def)
qed

text \<open>A put changes only the staging table, where it adds an empty module if there is none of that name.\<close>

definition new_content :: "int \<Rightarrow> int \<times> erl_module_instance \<times> erl_module_instance \<times> ptr" where
  "new_content m = (m, erts_module_instance_init raw_instance, erts_module_instance_init raw_instance, None)"

lemma put_entry_cases:
  assumes r: "index_rel module_funs module_atom t st ps" and l: "limit t = int MODULE_LIMIT" "length ps \<le> 65536" and b: "b \<notin> set ps"
    and p: "index_put_entry module_funs b (module_tmpl m) t st = Some (Some p, t', st')"
  shows "t' = t \<and> st' = st
    \<or> index_rel module_funs module_atom t' st' (ps @ [b]) \<and> limit t' = limit t \<and> (\<forall>x. x \<noteq> b \<longrightarrow> st' x = st x) \<and> content_at st' b = new_content m"
proof (cases "m \<in> set (map (key_at module_atom st) ps)")
  case True
  then have "module_atom (module_tmpl m) \<in> set (map (key_at module_atom st) ps)" by (simp add: module_tmpl_def)
  from modules.index_put_old [OF r b _ this] show ?thesis using p l(2) by simp
next
  case False
  then have k: "module_atom (module_tmpl m) \<notin> set (map (key_at module_atom st) ps)" by (simp add: module_tmpl_def)
  have n: "pages_ok t" "entries t = int (length ps)" "entries t \<le> t_size t" "length ps < 2 ^ 27" using r l(2) by (auto simp: index_rel_def)
  have "length ps \<noteq> capacity (nat (limit t))" using modules.index_put_full [OF r b n(4) k] p by auto
  then have "length ps < capacity (nat (limit t))" using l module_capacity by simp
  then have "entries t < limit t \<or> entries t < t_size t" using room_iff [OF n(1-3)] by simp
  from modules.index_put_new [OF r b n(4) k this] show ?thesis
    using p by (auto simp: content_at_def new_content_def module_funs_def module_alloc_def module_tmpl_def Let_def)
qed

lemma put_module_ok:
  assumes ok: "mods_ok s" and b: "fresh_addr b s" and p: "erts_put_module b m s = Some (Some p, s')"
  shows "mods_ok s' \<and> the_active_code_index s' = the_active_code_index s \<and> the_staging_code_index s' = the_staging_code_index s
    \<and> entries_at_start_staging s' = entries_at_start_staging s
    \<and> prefix (contents (the_staging_code_index s) s) (contents (the_staging_code_index s) s')
    \<and> set (objs (the_staging_code_index s) s') \<subseteq> insert b (set (objs (the_staging_code_index s) s))
    \<and> (\<forall>ix < 3. ix \<noteq> the_staging_code_index s \<longrightarrow> contents ix s' = contents ix s \<and> objs ix s' = objs ix s)"
proof -
  define x where "x = the_staging_code_index s"
  have x: "x < 3" and r: "index_rel module_funs module_atom (module_tables s x) (module_store s) (objs x s)" and l: "limit (module_tables s x) = int MODULE_LIMIT"
    using ok by (auto simp: mods_ok_def table_rel_def x_def)
  have bx: "b \<notin> set (objs x s)" "length (objs x s) \<le> 65536" using b x table_length [of x s] ok by (auto simp: fresh_addr_def mods_ok_def)
  obtain t st where t: "index_put_entry module_funs b (module_tmpl (int (atom_val m))) (module_tables s x) (module_store s) = Some (Some p, t, st)"
      "s' = s\<lparr>module_tables := (module_tables s)(x := t), module_store := st\<rparr>"
    using p by (auto simp: erts_put_module_def put_module_def x_def split: Option.bind_splits)
  from put_entry_cases [OF r l bx(2,1) t(1)] show ?thesis
  proof
    assume "t = module_tables s x \<and> st = module_store s"
    then have "s' = s" using t(2) by simp
    then show ?thesis using ok by auto
  next
    assume n: "index_rel module_funs module_atom t st (objs x s @ [b]) \<and> limit t = limit (module_tables s x)
      \<and> (\<forall>y. y \<noteq> b \<longrightarrow> st y = module_store s y) \<and> content_at st b = new_content (int (atom_val m))"
    have keep: "st y = module_store s y" if "jx < 3" "y \<in> set (objs jx s)" for jx y using n b that by (auto simp: fresh_addr_def)
    note u = mods_ok_upd [OF ok x, of t st "objs x s @ [b]", folded t(2)]
    have u: "mods_ok s'" "objs x s' = objs x s @ [b]" "\<forall>jx < 3. jx \<noteq> x \<longrightarrow> contents jx s' = contents jx s \<and> objs jx s' = objs jx s"
      using u n l b keep by auto
    moreover have "contents x s' = contents x s @ [new_content (int (atom_val m))]"
      using u(2) t(2) n keep [OF x] by (simp add: contents_def content_at_def)
    ultimately show ?thesis using t(2) by (simp add: x_def [symmetric])
  qed
qed

text \<open>An abort leaves the modules that were there when staging started.\<close>

lemma abort_ok:
  assumes inv: "code_inv Staging s"
  shows "\<exists>s'. module_end_staging False s = Some s' \<and> code_inv Idle s'
    \<and> the_active_code_index s' = the_active_code_index s \<and> the_staging_code_index s' = the_staging_code_index s
    \<and> mods (the_staging_code_index s) s' = mods (the_active_code_index s) s
    \<and> prefix (contents (the_staging_code_index s) s') (contents (the_staging_code_index s) s)
    \<and> (\<forall>ix < 3. ix \<noteq> the_staging_code_index s \<longrightarrow> contents ix s' = contents ix s)"
proof -
  define a x where "a = the_active_code_index s" and "x = the_staging_code_index s"
  have ok: "mods_ok s" and ax: "a \<noteq> x" and pre: "\<forall>ix < 3. ix \<noteq> x \<longrightarrow> prefix (mods ix s) (mods a s)"
    and pc: "prefix (mods a s) (mods x s)" and n: "entries_at_start_staging s = int (length (objs a s))"
    using inv by (auto simp: code_inv_def Let_def a_def x_def)
  have x: "a < 3" "x < 3" and r: "index_rel module_funs module_atom (module_tables s x) (module_store s) (objs x s)" and l: "limit (module_tables s x) = int MODULE_LIMIT"
    using ok by (auto simp: mods_ok_def table_rel_def a_def x_def)
  define k where "k = length (objs a s)"
  have k: "k \<le> length (objs x s)" using prefix_length_le [OF pc] by (simp add: mods_def k_def)
  obtain t st where e: "index_erase_latest_from module_funs k (module_tables s x) (module_store s) = Some (t, st)"
      "index_rel module_funs module_atom t st (take k (objs x s))" "limit t = limit (module_tables s x)" "\<forall>b. b \<notin> set (drop k (objs x s)) \<longrightarrow> st b = module_store s b"
    using modules.index_erase_ok [OF r k] by blast
  define s' where "s' = s\<lparr>module_tables := (module_tables s)(x := t), module_store := st\<rparr>"
  have run: "module_end_staging False s = Some s'" using e(1) n by (simp add: module_end_staging_def s'_def x_def [symmetric] k_def)
  have "st p = module_store s p" if "jx < 3" "jx \<noteq> x" "p \<in> set (objs jx s)" for jx p
  proof -
    have "set (objs jx s) \<inter> set (objs x s) = {}" using ok that x(2) by (simp add: mods_ok_def)
    then show ?thesis using e(4) that(3) in_set_dropD [of p k "objs x s"] by blast
  qed
  moreover have "\<forall>p \<in> set (take k (objs x s)). p \<in> set (objs x s) \<or> fresh_addr p s" by (auto dest: in_set_takeD)
  ultimately have u: "mods_ok s'" "objs x s' = take k (objs x s)" "\<forall>jx < 3. jx \<noteq> x \<longrightarrow> contents jx s' = contents jx s \<and> objs jx s' = objs jx s"
    using mods_ok_upd [OF ok x(2) e(2), folded s'_def] e(3) l by auto
  have "set (take k (objs x s)) \<inter> set (drop k (objs x s)) = {}"
    using set_take_disj_set_drop_if_distinct [OF index_rel_facts(3) [OF r], of k k] by simp
  then have "\<forall>p \<in> set (take k (objs x s)). st p = module_store s p" using e(4) by blast
  then have c: "contents x s' = take k (contents x s)" using u(2) by (simp add: contents_def s'_def take_map content_at_def)
  then have "mods x s' = take k (mods x s)" by (simp add: mods_contents take_map)
  also have "take k (mods x s) = mods a s" using pc by (auto simp: prefix_def k_def mods_def)
  finally have m: "mods x s' = mods a s" .
  have i: "the_active_code_index s' = a" "the_staging_code_index s' = x" by (simp_all add: s'_def a_def x_def)
  have "mods ix s' = (if ix = x then mods a s else mods ix s)" if "ix < 3" for ix using m u(3) that by (simp add: mods_contents)
  then have "code_inv Idle s'" using u(1) i ax x pre by (auto simp: code_inv_def Let_def)
  moreover have "prefix (contents x s') (contents x s)" unfolding c by (rule take_is_prefix)
  ultimately show ?thesis using run m u(3) i unfolding a_def [symmetric] x_def [symmetric] by blast
qed

lemma commit_inv:
  assumes inv: "code_inv ph s" "ph \<noteq> Idle"
  shows "code_inv Idle (erts_commit_staging_code_ix s)"
proof -
  define s' where "s' = erts_commit_staging_code_ix s"
  have i: "the_active_code_index s' = the_staging_code_index s" "the_staging_code_index s' = (the_staging_code_index s + 1) mod 3"
    by (simp_all add: s'_def erts_commit_staging_code_ix_def Let_def ERTS_NUM_CODE_IX_def)
  have v: "objs ix s' = objs ix s" "mods ix s' = mods ix s" "table_rel ix s' = table_rel ix s" for ix
    by (simp_all add: s'_def erts_commit_staging_code_ix_def Let_def objs_def mods_def table_rel_def)
  have ok: "mods_ok s" using inv by (simp add: code_inv_def)
  then have x: "the_staging_code_index s < 3" by (simp add: mods_ok_def)
  then have "(the_staging_code_index s + 1) mod 3 \<noteq> the_staging_code_index s" "(the_staging_code_index s + 1) mod 3 < 3" by presburger+
  moreover have "prefix (mods ix s) (mods (the_staging_code_index s) s)" if "ix < 3" for ix
  proof (cases ph)
    case Boot
    then show ?thesis using inv(1) that by (cases "ix = 0") (auto simp: code_inv_def mods_def)
  next
    case Staging
    then have "prefix (mods (the_active_code_index s) s) (mods (the_staging_code_index s) s)"
      using inv(1) by (simp add: code_inv_def Let_def)
    then show ?thesis using Staging inv(1) that prefix_order.order_trans
      by (cases "ix = the_staging_code_index s") (auto simp: code_inv_def Let_def)
  qed (use inv(2) in simp)
  ultimately show ?thesis using ok v i x by (simp add: code_inv_def mods_ok_def flip: s'_def)
qed

lemma put_inv:
  assumes inv: "code_inv ph s" "ph \<noteq> Idle" and b: "fresh_addr b s" and p: "erts_put_module b m s = Some (Some p, s')"
  shows "code_inv ph s'"
proof -
  have ok: "mods_ok s" using inv by (simp add: code_inv_def)
  note u = put_module_ok [OF ok b p]
  show ?thesis
  proof (cases ph)
    case Boot
    then show ?thesis using inv(1) u by (auto simp: code_inv_def Let_def)
  next
    case Staging
    have a: "the_active_code_index s < 3" using ok by (simp add: mods_ok_def)
    have "prefix (mods (the_staging_code_index s) s) (mods (the_staging_code_index s) s')"
      using u by (simp add: mods_contents map_mono_prefix)
    then show ?thesis using a Staging inv(1) u prefix_order.order_trans by (auto simp: code_inv_def Let_def mods_contents)
  qed (use inv(2) in simp)
qed

lemma write_inv: "code_inv ph (write_module p c d l s) = code_inv ph s"
proof -
  define s' where "s' = write_module p c d l s"
  have o: "objs ix s' = objs ix s" for ix by (simp add: s'_def write_module_def objs_def)
  have k: "key_at module_atom (module_store s') q = key_at module_atom (module_store s) q" for q
    by (cases "module_store s p") (auto simp: s'_def write_module_def key_at_def)
  then have m: "mods ix s' = mods ix s" for ix using o by (simp add: mods_def)
  have i: "the_active_code_index s' = the_active_code_index s" "the_staging_code_index s' = the_staging_code_index s"
      "entries_at_start_staging s' = entries_at_start_staging s" "module_tables s' = module_tables s"
    by (simp_all add: s'_def write_module_def)
  have "same_entry (module_store s) (module_store s') q" if "module_store s q \<noteq> None" for q
    using that by (auto simp: same_entry_def s'_def write_module_def)
  moreover have "same_entry (module_store s') (module_store s) q" if "module_store s' q \<noteq> None" for q
    using that by (auto simp: same_entry_def s'_def write_module_def split: if_splits)
  ultimately have "index_rel module_funs module_atom t (module_store s') qs = index_rel module_funs module_atom t (module_store s) qs" for t qs
    using index_rel_upd module_stored by (metis option.distinct(1))
  then have "table_rel ix s' = table_rel ix s" for ix using o i by (simp add: table_rel_def)
  then show ?thesis unfolding s'_def [symmetric] using i o m by (simp add: code_inv_def mods_ok_def Let_def cong: phase.case_cong)
qed

lemma init_inv:
  assumes "init_module_table st = Some s"
  shows "code_inv Boot s"
proof -
  obtain t where t: "erts_index_init MODULE_SIZE MODULE_LIMIT = Some t" "index_rel module_funs module_atom t st []" "limit t = int MODULE_LIMIT"
    using erts_index_init_ok [of MODULE_SIZE MODULE_LIMIT module_funs module_atom st] by (auto simp: MODULE_SIZE_def)
  then have s: "s = \<lparr>module_tables = (\<lambda>_. t), module_store = st, entries_at_start_staging = 0, the_active_code_index = 0, the_staging_code_index = 0\<rparr>"
    using assms by (simp add: init_module_table_def)
  then have "objs ix s = []" for ix using index_rel_objs [OF t(2)] by (simp add: objs_def)
  then show ?thesis using t(2,3) s by (simp add: code_inv_def mods_ok_def table_rel_def)
qed

lemma code_reach_inv: "code_reach x \<Longrightarrow> code_inv (fst x) (snd x)"
proof (induction rule: code_reach.induct)
  case (init st s)
  then show ?case using init_inv by simp
next
  case (step x y)
  from step.hyps(2) show ?case
  proof (cases rule: code_step.cases)
    case (put ph b s m p s')
    then show ?thesis using put_inv [of ph s b m p s'] step.IH by simp
  next
    case (start al s s')
    then show ?thesis using start_staging_ok [of s al] step.IH by auto
  next
    case (abort s s')
    then show ?thesis using abort_ok [of s] step.IH by auto
  next
    case (commit ph s s')
    then show ?thesis using commit_inv [of ph s] step.IH by (simp add: module_end_staging_def)
  next
    case (wr ph s p c d l)
    then show ?thesis using write_inv step.IH by simp
  qed
qed

text \<open>
  C8. In every state code loading can reach, the tables number their modules alike. Outside of staging, a start
  with fresh memory returns and makes the staging table a copy of the active one, with the same modules,
  code and \<open>on_load\<close> state in the same order. During staging the staging table has the modules of the active one
  first and then the new ones; an abort returns and takes exactly the new ones out, a put leaves the modules there are,
  and a commit makes the staging table the active one. Neither start, abort nor puts change what the
  active table holds.
\<close>

theorem module_staging:
  assumes "code_reach (ph, s)"
  defines "a \<equiv> the_active_code_index s" and "b \<equiv> the_staging_code_index s"
  shows "(ph = Idle \<longrightarrow> (\<forall>ix < 3. prefix (mods ix s) (mods a s))
      \<and> (\<forall>al. inj al \<and> (\<forall>i. fresh_addr (al i) s) \<longrightarrow>
          (\<exists>s'. module_start_staging al s = Some (True, s') \<and> contents b s' = contents a s \<and> contents a s' = contents a s)))
    \<and> (ph = Staging \<longrightarrow> prefix (mods a s) (mods b s)
      \<and> (\<exists>s'. module_end_staging False s = Some s' \<and> mods b s' = mods a s \<and> prefix (contents b s') (contents b s)
          \<and> contents a s' = contents a s)
      \<and> the_active_code_index (erts_commit_staging_code_ix s) = b \<and> contents b (erts_commit_staging_code_ix s) = contents b s
      \<and> (\<forall>addr m p s'. fresh_addr addr s \<and> erts_put_module addr m s = Some (Some p, s') \<longrightarrow>
          contents a s' = contents a s \<and> prefix (contents b s) (contents b s')))"
proof -
  have inv: "code_inv ph s" using code_reach_inv [OF assms(1)] by simp
  then have ok: "mods_ok s" and a3: "a < 3" by (auto simp: code_inv_def mods_ok_def a_def)
  have ne: "a \<noteq> b" if "ph \<noteq> Boot" using inv that by (cases ph) (auto simp: code_inv_def Let_def a_def b_def)
  have "contents b (erts_commit_staging_code_ix s) = contents b s" "the_active_code_index (erts_commit_staging_code_ix s) = b"
    by (simp_all add: erts_commit_staging_code_ix_def Let_def contents_def objs_def b_def)
  moreover have "\<exists>s'. module_start_staging al s = Some (True, s') \<and> contents b s' = contents a s \<and> contents a s' = contents a s"
    if "ph = Idle" "inj al" "\<forall>i. fresh_addr (al i) s" for al
    using start_staging_ok [of s al] inv that a3 ne unfolding a_def b_def by auto
  moreover have "\<exists>s'. module_end_staging False s = Some s' \<and> mods b s' = mods a s \<and> prefix (contents b s') (contents b s) \<and> contents a s' = contents a s"
    if "ph = Staging"
    using abort_ok [of s] inv that a3 ne unfolding a_def b_def by auto
  moreover have "contents a s' = contents a s \<and> prefix (contents b s) (contents b s')"
    if "ph = Staging" "fresh_addr x s" "erts_put_module x m s = Some (Some p, s')" for x m p s'
    using put_module_ok [OF ok that(2,3)] a3 ne that(1) unfolding a_def b_def by auto
  moreover have "ph = Idle \<longrightarrow> (\<forall>ix < 3. prefix (mods ix s) (mods a s))" "ph = Staging \<longrightarrow> prefix (mods a s) (mods b s)"
    using inv by (auto simp: code_inv_def Let_def a_def b_def)
  ultimately show ?thesis by auto
qed

text \<open>A put returns while there is room.\<close>

lemma put_module_total:
  fixes m :: eterm
  assumes ok: "mods_ok s" and b: "fresh_addr b s" and room: "length (objs (the_staging_code_index s) s) < 65536"
  defines "x \<equiv> the_staging_code_index s" and "n \<equiv> int (atom_val m)"
  shows "\<exists>p s'. erts_put_module b m s = Some (Some p, s')
    \<and> contents x s' = (if n \<in> set (mods x s) then contents x s else contents x s @ [new_content n])"
proof -
  have x: "x < 3" and r: "index_rel module_funs module_atom (module_tables s x) (module_store s) (objs x s)" and l: "limit (module_tables s x) = int MODULE_LIMIT"
    using ok by (auto simp: mods_ok_def table_rel_def x_def)
  have bx: "b \<notin> set (objs x s)" "length (objs x s) < 2 ^ 27" using b x room by (auto simp: fresh_addr_def x_def)
  have k: "module_atom (module_tmpl n) = n" by (simp add: module_tmpl_def)
  show ?thesis
  proof (cases "n \<in> set (mods x s)")
    case True
    then have "module_atom (module_tmpl n) \<in> set (map (key_at module_atom (module_store s)) (objs x s))" using k by (simp add: mods_def)
    from modules.index_put_old [OF r bx this] show ?thesis using True by (auto simp: erts_put_module_def put_module_def x_def n_def contents_def objs_def)
  next
    case False
    then have nk: "module_atom (module_tmpl n) \<notin> set (map (key_at module_atom (module_store s)) (objs x s))" using k by (simp add: mods_def)
    have "pages_ok (module_tables s x)" "entries (module_tables s x) = int (length (objs x s))" "entries (module_tables s x) \<le> t_size (module_tables s x)"
      using r by (auto simp: index_rel_def)
    from room_iff [OF this] have "entries (module_tables s x) < limit (module_tables s x) \<or> entries (module_tables s x) < t_size (module_tables s x)"
      using l room module_capacity by (simp add: x_def)
    from modules.index_put_new [OF r bx nk this] obtain t st where p: "index_put_entry module_funs b (module_tmpl n) (module_tables s x) (module_store s) = Some (Some b, t, st)"
        "index_rel module_funs module_atom t st (objs x s @ [b])" "\<forall>y. y \<noteq> b \<longrightarrow> st y = module_store s y"
        "st b = Some \<lparr>hvalue = fun_hash module_funs (module_tmpl n), obj = (fun_alloc module_funs (module_tmpl n))\<lparr>index := entries (module_tables s x)\<rparr>\<rparr>"
      by blast
    define s' where "s' = s\<lparr>module_tables := (module_tables s)(x := t), module_store := st\<rparr>"
    have "objs x s' = objs x s @ [b]" "module_store s' = st" using index_rel_objs [OF p(2)] by (simp_all add: objs_def s'_def)
    moreover have "map (content_at st) (objs x s) = map (content_at (module_store s)) (objs x s)" using p(3) bx(1) by (intro map_cong refl) (auto simp: content_at_def)
    moreover have "content_at st b = new_content n" using p(4) k by (simp add: content_at_def new_content_def module_funs_def module_alloc_def Let_def)
    ultimately have "contents x s' = contents x s @ [new_content n]" by (simp add: contents_def)
    then show ?thesis using p(1) False by (auto simp: erts_put_module_def put_module_def s'_def x_def n_def)
  qed
qed

text \<open>Looking a module up gives the object of that name, if there is one.\<close>

lemma erts_get_module_ok:
  assumes ok: "mods_ok s" and ix: "ix < 3"
  shows "erts_get_module m ix s = Some (if int (atom_val m) \<in> set (mods ix s) then Some (objs ix s ! place (int (atom_val m)) (mods ix s)) else None)"
proof -
  have r: "index_rel module_funs module_atom (module_tables s ix) (module_store s) (objs ix s)" using ok ix by (simp add: mods_ok_def table_rel_def)
  have "place (int (atom_val m)) (mods ix s) < length (objs ix s)" if "int (atom_val m) \<in> set (mods ix s)"
    using that place_less [of "int (atom_val m)" "mods ix s"] by (simp add: mods_def)
  then show ?thesis using modules.index_get_ok [OF r, of "module_tmpl (int (atom_val m))"] r
    by (auto simp: erts_get_module_def module_tmpl_def mods_def index_rel_def)
qed

text \<open>Witness of C8: a module is put while the emulator boots, and a first staging copies it.\<close>

theorem module_staging_witness:
  "\<exists>s s'. code_reach (Idle, s) \<and> module_start_staging (\<lambda>i. i + 1) s = Some (True, s')
    \<and> contents (the_staging_code_index s) s' = [new_content 5] \<and> contents (the_active_code_index s) s' = [new_content 5]"
proof -
  obtain t where t: "erts_index_init MODULE_SIZE MODULE_LIMIT = Some t" "index_rel module_funs module_atom t Map.empty []"
    using erts_index_init_ok [of MODULE_SIZE MODULE_LIMIT module_funs module_atom Map.empty] by (auto simp: MODULE_SIZE_def)
  define s0 where "s0 = \<lparr>module_tables = (\<lambda>_. t), module_store = Map.empty, entries_at_start_staging = 0, the_active_code_index = 0, the_staging_code_index = 0\<rparr>"
  have s0: "init_module_table Map.empty = Some s0" using t(1) by (simp add: init_module_table_def s0_def)
  have o: "objs ix s0 = []" for ix using index_rel_objs [OF t(2)] by (simp add: objs_def s0_def)
  have ok: "mods_ok s0" using init_inv [OF s0] by (simp add: code_inv_def)
  have fr: "fresh_addr 0 s0" using o by (simp add: fresh_addr_def)
  have ix0: "the_staging_code_index s0 = 0" "the_active_code_index s0 = 0" by (simp_all add: s0_def)
  have v: "atom_val (make_atom 5) = 5" using atom_val_make_atom(1) [of 5] by simp
  obtain p s1 where s1: "erts_put_module 0 (make_atom 5) s0 = Some (Some p, s1)" "contents 0 s1 = [new_content 5]"
    using put_module_total [OF ok fr, of "make_atom 5"] o ix0 by (auto simp: contents_def mods_def v)
  note u = put_module_ok [OF ok fr s1(1)]
  define s where "s = erts_commit_staging_code_ix s1"
  have ix: "the_active_code_index s = 0" "the_staging_code_index s = 1"
    using u ix0 by (simp_all add: s_def erts_commit_staging_code_ix_def Let_def ERTS_NUM_CODE_IX_def)
  have os: "objs i s = objs i s1" "contents i s = contents i s1" for i
    by (simp_all add: s_def erts_commit_staging_code_ix_def Let_def objs_def contents_def)
  have "code_reach (Boot, s1)" using code_reach.step [OF code_reach.init [OF s0] code_step.put [OF _ fr s1(1)]] by simp
  then have reach: "code_reach (Idle, s)"
    using code_reach.step [OF _ code_step.commit [of Boot s1 s1]] by (simp add: module_end_staging_def s_def)
  have "fresh_addr (i + 1) s" for i :: nat
  proof -
    have "objs ix s = []" if "ix < 3" "ix \<noteq> 0" for ix using u that o ix0 os by auto
    moreover have "set (objs 0 s) \<subseteq> {0}" using u o [of 0] ix0 os(1) [of 0] by simp
    ultimately show ?thesis unfolding fresh_addr_def by (metis One_nat_def Suc_eq_plus1 empty_iff list.set(1) nat.distinct(1) singletonD subsetD)
  qed
  then obtain s' where "module_start_staging (\<lambda>i. i + 1) s = Some (True, s')" "contents 1 s' = contents 0 s" "contents 0 s' = contents 0 s"
    using module_staging [OF reach] ix by (auto simp: inj_def)
  then show ?thesis using reach ix os(2) s1(2) by (intro exI [of _ s] exI [of _ s']) simp
qed

end
