(* ===== verification/CodeIx.thy ===== *)
theory CodeIx
  imports Prelude
begin

text \<open>
  The permissions to modify and to stage code (\<^verbatim>\<open>code_ix.c\<close>): locks that a process or an auxiliary job holds over
  several calls, with a queue of waiters to whom a release hands the permission over. Every call holds the
  mutex of the permission while it looks at it, so a call is one step. A handover reads and sets the extra
  flags of the waiter by compare and exchange, which the model does at once. The checks of a build for
  debugging are left out.
\<close>

unbundle bit_operations_syntax

subsection \<open>Data\<close>

text \<open>The two static permissions.\<close>

datatype permission = code_mod_permission | code_stage_permission

record code_permission_queue_item =
  qi_p :: ptr
  qi_aux_func :: ptr
  qi_aux_arg :: ptr

text \<open>The fields \<open>first\<close> and \<open>tail_p\<close> are the list of waiters.\<close>

record code_permission =
  owner :: ptr
  aux_func :: ptr
  aux_arg :: ptr
  seized :: bool
  waiters :: "code_permission_queue_item list"
  xstate_handover_flg :: u32

text \<open>What the permissions use of a process: its extra flags, whether it exits, how often it is suspended, its references.\<close>

record CodeProc =
  xstate :: u32
  exiting :: bool
  rcount :: nat
  refc :: nat

text \<open>Auxiliary jobs that were scheduled are in a list.\<close>

record CodeIx =
  perms :: "permission \<Rightarrow> code_permission"
  cprocs :: "addr \<Rightarrow> CodeProc option"
  aux_work :: "(ptr \<times> ptr) list"

definition ERTS_PXSFLG_HANDOVER_CODE_MOD_PERM :: u32 where "ERTS_PXSFLG_HANDOVER_CODE_MOD_PERM = push_bit 9 1"
definition ERTS_PXSFLG_HANDOVER_CODE_STAGE_PERM :: u32 where "ERTS_PXSFLG_HANDOVER_CODE_STAGE_PERM = push_bit 10 1"
definition ERTS_PXSFLG_GC :: u32 where "ERTS_PXSFLG_GC = push_bit 11 1"

subsection \<open>Start\<close>

definition code_permission_init :: "u32 \<Rightarrow> code_permission" where
  "code_permission_init flg =
     \<lparr>owner = None, aux_func = None, aux_arg = None, seized = False, waiters = [], xstate_handover_flg = flg\<rparr>"

definition handover_flg_of :: "permission \<Rightarrow> u32" where
  "handover_flg_of pm =
     (case pm of code_mod_permission \<Rightarrow> ERTS_PXSFLG_HANDOVER_CODE_MOD_PERM
      | code_stage_permission \<Rightarrow> ERTS_PXSFLG_HANDOVER_CODE_STAGE_PERM)"

definition erts_code_ix_init :: "(addr \<Rightarrow> CodeProc option) \<Rightarrow> CodeIx" where
  "erts_code_ix_init ps = \<lparr>perms = (\<lambda>pm. code_permission_init (handover_flg_of pm)), cprocs = ps, aux_work = []\<rparr>"

subsection \<open>Processes\<close>

definition upd_perm :: "permission \<Rightarrow> (code_permission \<Rightarrow> code_permission) \<Rightarrow> CodeIx \<Rightarrow> CodeIx" where
  "upd_perm pm f s = s\<lparr>perms := (perms s)(pm := f (perms s pm))\<rparr>"

definition upd_proc :: "addr \<Rightarrow> (CodeProc \<Rightarrow> CodeProc) \<Rightarrow> CodeIx \<Rightarrow> CodeIx option" where
  "upd_proc p f s = do { pr \<leftarrow> cprocs s p; Some (s\<lparr>cprocs := (cprocs s)(p \<mapsto> f pr)\<rparr>) }"

definition erts_suspend :: "addr \<Rightarrow> CodeIx \<Rightarrow> CodeIx option" where
  "erts_suspend p = upd_proc p (\<lambda>pr. pr\<lparr>rcount := rcount pr + 1\<rparr>)"

definition erts_resume :: "addr \<Rightarrow> CodeIx \<Rightarrow> CodeIx option" where
  "erts_resume p = upd_proc p (\<lambda>pr. pr\<lparr>rcount := rcount pr - 1\<rparr>)"

definition erts_proc_inc_refc :: "addr \<Rightarrow> CodeIx \<Rightarrow> CodeIx option" where
  "erts_proc_inc_refc p = upd_proc p (\<lambda>pr. pr\<lparr>refc := refc pr + 1\<rparr>)"

text \<open>The last reference frees the process.\<close>

definition erts_proc_dec_refc :: "addr \<Rightarrow> CodeIx \<Rightarrow> CodeIx option" where
  "erts_proc_dec_refc p s = do {
     pr \<leftarrow> cprocs s p;
     Some (s\<lparr>cprocs := (cprocs s)(p := if refc pr \<le> 1 then None else Some (pr\<lparr>refc := refc pr - 1\<rparr>))\<rparr>)
   }"

subsection \<open>Seizing\<close>

definition enqueue_waiter :: "permission \<Rightarrow> ptr \<Rightarrow> ptr \<Rightarrow> ptr \<Rightarrow> CodeIx \<Rightarrow> CodeIx option" where
  "enqueue_waiter pm c_p af aa s = do {
     (qitem, s) \<leftarrow>
       (case c_p of
          Some p \<Rightarrow> do {
            s \<leftarrow> erts_proc_inc_refc p s;
            s \<leftarrow> erts_suspend p s;
            Some (\<lparr>qi_p = Some p, qi_aux_func = None, qi_aux_arg = None\<rparr>, s)
          }
        | None \<Rightarrow> Some (\<lparr>qi_p = None, qi_aux_func = af, qi_aux_arg = aa\<rparr>, s));
     Some (upd_perm pm (\<lambda>q. q\<lparr>waiters := waiters q @ [qitem]\<rparr>) s)
   }"

definition seize_locked :: "permission \<Rightarrow> ptr \<Rightarrow> ptr \<Rightarrow> ptr \<Rightarrow> CodeIx \<Rightarrow> (bool \<times> CodeIx) option" where
  "seize_locked pm c_p af aa s =
     (let perm = perms s pm in
      if \<not> seized perm then
        Some (True, upd_perm pm (\<lambda>q. q\<lparr>owner := c_p, aux_func := af, aux_arg := aa, seized := True\<rparr>) s)
      else if af \<noteq> None \<and> af = aux_func perm \<and> aa = aux_arg perm then Some (True, s)
      else do {
        s \<leftarrow> enqueue_waiter pm c_p af aa s;
        Some (False, s)
      })"

definition try_seize_code_permission :: "permission \<Rightarrow> ptr \<Rightarrow> ptr \<Rightarrow> ptr \<Rightarrow> CodeIx \<Rightarrow> (bool \<times> CodeIx) option" where
  "try_seize_code_permission pm c_p af aa s =
     (case c_p of
        None \<Rightarrow> seize_locked pm c_p af aa s
      | Some p \<Rightarrow> do {
          pr \<leftarrow> cprocs s p;
          (if xstate pr AND xstate_handover_flg (perms s pm) \<noteq> 0 then do {
             s \<leftarrow> upd_proc p (\<lambda>pr. pr\<lparr>xstate := xstate pr AND NOT (xstate_handover_flg (perms s pm))\<rparr>) s;
             Some (True, s)
           }
           else seize_locked pm c_p af aa s)
        })"

subsection \<open>Releasing\<close>

text \<open>One waiter, taken from the queue.\<close>

definition hand_over_proc :: "permission \<Rightarrow> addr \<Rightarrow> CodeIx \<Rightarrow> CodeIx option" where
  "hand_over_proc pm p s = do {
     pr \<leftarrow> cprocs s p;
     s \<leftarrow> (if exiting pr then Some s
           else do {
             s \<leftarrow> (if xstate pr AND ERTS_PXSFLG_GC = 0 then do {
                     s \<leftarrow> upd_proc p (\<lambda>pr. pr\<lparr>xstate := xstate pr OR xstate_handover_flg (perms s pm)\<rparr>) s;
                     Some (upd_perm pm (\<lambda>q. q\<lparr>seized := True, owner := Some p\<rparr>) s)
                   }
                   else Some s);
             erts_resume p s
           });
     erts_proc_dec_refc p s
   }"

definition hand_over :: "permission \<Rightarrow> code_permission_queue_item \<Rightarrow> CodeIx \<Rightarrow> CodeIx option" where
  "hand_over pm qitem s =
     (case qi_p qitem of
        Some p \<Rightarrow> hand_over_proc pm p s
      | None \<Rightarrow>
          Some ((upd_perm pm (\<lambda>q. q\<lparr>seized := True, aux_func := qi_aux_func qitem, aux_arg := qi_aux_arg qitem\<rparr>) s)
            \<lparr>aux_work := aux_work s @ [(qi_aux_func qitem, qi_aux_arg qitem)]\<rparr>))"

fun release_loop :: "permission \<Rightarrow> code_permission_queue_item list \<Rightarrow> CodeIx \<Rightarrow> CodeIx option" where
  "release_loop pm [] s = Some s"
| "release_loop pm (qitem # rest) s =
     (if seized (perms s pm) then Some s
      else do {
        s \<leftarrow> hand_over pm qitem (upd_perm pm (\<lambda>q. q\<lparr>waiters := rest\<rparr>) s);
        release_loop pm rest s
      })"

definition release_code_permission :: "permission \<Rightarrow> CodeIx \<Rightarrow> CodeIx option" where
  "release_code_permission pm s =
     release_loop pm (waiters (perms s pm))
       (upd_perm pm (\<lambda>q. q\<lparr>seized := False, owner := None, aux_func := None, aux_arg := None\<rparr>) s)"

subsection \<open>The calls of the emulator\<close>

definition erts_try_seize_code_mod_permission_aux :: "ptr \<Rightarrow> ptr \<Rightarrow> CodeIx \<Rightarrow> (bool \<times> CodeIx) option" where
  "erts_try_seize_code_mod_permission_aux af aa = try_seize_code_permission code_mod_permission None af aa"

definition erts_try_seize_code_mod_permission :: "addr \<Rightarrow> CodeIx \<Rightarrow> (bool \<times> CodeIx) option" where
  "erts_try_seize_code_mod_permission p = try_seize_code_permission code_mod_permission (Some p) None None"

definition erts_release_code_mod_permission :: "CodeIx \<Rightarrow> CodeIx option" where
  "erts_release_code_mod_permission = release_code_permission code_mod_permission"

definition erts_try_seize_code_stage_permission :: "addr \<Rightarrow> CodeIx \<Rightarrow> (bool \<times> CodeIx) option" where
  "erts_try_seize_code_stage_permission p = try_seize_code_permission code_stage_permission (Some p) None None"

definition erts_release_code_stage_permission :: "CodeIx \<Rightarrow> CodeIx option" where
  "erts_release_code_stage_permission = release_code_permission code_stage_permission"

definition erts_try_seize_code_load_permission :: "addr \<Rightarrow> CodeIx \<Rightarrow> (bool \<times> CodeIx) option" where
  "erts_try_seize_code_load_permission p s = do {
     (ok, s) \<leftarrow> try_seize_code_permission code_stage_permission (Some p) None None s;
     (if \<not> ok then Some (False, s)
      else do {
        (ok, s) \<leftarrow> try_seize_code_permission code_mod_permission (Some p) None None s;
        (if ok then Some (True, s)
         else do { s \<leftarrow> erts_release_code_stage_permission s; Some (False, s) })
      })
   }"

definition erts_release_code_load_permission :: "CodeIx \<Rightarrow> CodeIx option" where
  "erts_release_code_load_permission s = do {
     s \<leftarrow> erts_release_code_mod_permission s;
     erts_release_code_stage_permission s
   }"

definition reject_one :: "permission \<Rightarrow> u32 \<Rightarrow> u32 \<Rightarrow> addr \<Rightarrow> CodeIx \<Rightarrow> CodeIx option" where
  "reject_one pm flg x p s =
     (if x AND flg \<noteq> 0 then do {
        s \<leftarrow> release_code_permission pm s;
        upd_proc p (\<lambda>pr. pr\<lparr>xstate := xstate pr AND NOT flg\<rparr>) s
      }
      else Some s)"

definition erts_reject_code_permissions :: "addr \<Rightarrow> CodeIx \<Rightarrow> CodeIx option" where
  "erts_reject_code_permissions p s = do {
     pr \<leftarrow> cprocs s p;
     s \<leftarrow> reject_one code_mod_permission ERTS_PXSFLG_HANDOVER_CODE_MOD_PERM (xstate pr) p s;
     reject_one code_stage_permission ERTS_PXSFLG_HANDOVER_CODE_STAGE_PERM (xstate pr) p s
   }"

text \<open>A process that starts or ends a garbage collection (\<^verbatim>\<open>erl_gc.c\<close>), and one that exits (\<^verbatim>\<open>erl_process.c\<close>).\<close>

definition set_proc_state_gc :: "addr \<Rightarrow> bool \<Rightarrow> CodeIx \<Rightarrow> CodeIx option" where
  "set_proc_state_gc p is_garbing s =
     (if is_garbing then do {
        pr \<leftarrow> cprocs s p;
        s \<leftarrow> upd_proc p (\<lambda>pr. pr\<lparr>xstate := xstate pr OR ERTS_PXSFLG_GC\<rparr>) s;
        (if xstate pr AND (ERTS_PXSFLG_HANDOVER_CODE_MOD_PERM OR ERTS_PXSFLG_HANDOVER_CODE_STAGE_PERM) \<noteq> 0
         then erts_reject_code_permissions p s else Some s)
      }
      else upd_proc p (\<lambda>pr. pr\<lparr>xstate := xstate pr AND NOT ERTS_PXSFLG_GC\<rparr>) s)"

definition exit_reject :: "addr \<Rightarrow> CodeIx \<Rightarrow> CodeIx option" where
  "exit_reject p s = do {
     pr \<leftarrow> cprocs s p;
     (if xstate pr AND (ERTS_PXSFLG_HANDOVER_CODE_MOD_PERM OR ERTS_PXSFLG_HANDOVER_CODE_STAGE_PERM) \<noteq> 0
      then erts_reject_code_permissions p s else Some s)
   }"

end
