(* ===== verification/CodeIxThms.thy ===== *)
theory CodeIxThms
  imports CodeIx
begin

text \<open>
  What the operations on code permissions keep, relative to the set of the holders: those who were told that
  they have the permission and did not release it yet.
\<close>

subsection \<open>Flags\<close>

primrec flag_bit :: "permission \<Rightarrow> nat" where
  "flag_bit code_mod_permission = 9"
| "flag_bit code_stage_permission = 10"

lemma handover_flg: "handover_flg_of pm = 2 ^ flag_bit pm"
  by (cases pm) (simp_all add: handover_flg_of_def ERTS_PXSFLG_HANDOVER_CODE_MOD_PERM_def ERTS_PXSFLG_HANDOVER_CODE_STAGE_PERM_def)

lemma flag_bit_simps [simp]: "flag_bit pm < 32" "flag_bit pm \<noteq> 11" "flag_bit pm = flag_bit pm' \<longleftrightarrow> pm = pm'"
  by (cases pm; cases pm'; simp)+

lemma flag_tests:
  fixes x :: u32
  assumes "n < 32"
  shows "x AND 2 ^ n = 0 \<longleftrightarrow> \<not> bit x n" "bit (x OR 2 ^ n) m \<longleftrightarrow> bit x m \<or> m = n"
    "bit (x AND NOT (2 ^ n)) m \<longleftrightarrow> bit x m \<and> m \<noteq> n"
proof -
  show "x AND 2 ^ n = 0 \<longleftrightarrow> \<not> bit x n" using assms unfolding bit_eq_iff [of "x AND 2 ^ n" 0] by (auto simp: bit_simps)
  show "bit (x OR 2 ^ n) m \<longleftrightarrow> bit x m \<or> m = n" using assms by (auto simp: bit_simps)
  show "bit (x AND NOT (2 ^ n)) m \<longleftrightarrow> bit x m \<and> m \<noteq> n"
    using assms bit_imp_le_length [of x m] by (auto simp: bit_simps)
qed

lemma gc_flag: "x AND ERTS_PXSFLG_GC = 0 \<longleftrightarrow> \<not> bit x 11" "ERTS_PXSFLG_GC = 2 ^ 11"
  by (simp_all only: ERTS_PXSFLG_GC_def push_bit_of_1 flag_tests)

lemma gc_bits: "bit (x OR ERTS_PXSFLG_GC) n \<longleftrightarrow> bit x n \<or> n = 11" "bit (x AND NOT ERTS_PXSFLG_GC) n \<longleftrightarrow> bit x n \<and> n \<noteq> 11"
  unfolding gc_flag(2) by (simp_all only: flag_tests)

lemma handover_flags:
  fixes x :: u32
  shows "x AND (ERTS_PXSFLG_HANDOVER_CODE_MOD_PERM OR ERTS_PXSFLG_HANDOVER_CODE_STAGE_PERM) \<noteq> 0 \<longleftrightarrow> (\<exists>pm. bit x (flag_bit pm))"
proof -
  have "x AND (ERTS_PXSFLG_HANDOVER_CODE_MOD_PERM OR ERTS_PXSFLG_HANDOVER_CODE_STAGE_PERM) = 0 \<longleftrightarrow> \<not> bit x 9 \<and> \<not> bit x 10"
    unfolding ERTS_PXSFLG_HANDOVER_CODE_MOD_PERM_def ERTS_PXSFLG_HANDOVER_CODE_STAGE_PERM_def
    by (simp only: push_bit_of_1 bit.conj_disj_distrib or_eq_0_iff flag_tests)
  also have "\<dots> \<longleftrightarrow> \<not> (\<exists>pm. bit x (flag_bit pm))" by (metis flag_bit.simps permission.exhaust)
  finally show ?thesis by blast
qed

subsection \<open>The invariant\<close>

datatype holder = ProcHolder addr | AuxHolder ptr ptr

fun holds :: "holder \<Rightarrow> code_permission \<Rightarrow> bool" where
  "holds (ProcHolder p) q = (owner q = Some p)"
| "holds (AuxHolder f a) q = (owner q = None \<and> aux_func q = f \<and> aux_arg q = a)"

lemma holds_waiters [simp]: "holds h (q\<lparr>waiters := ws\<rparr>) = holds h q"
  by (cases h) simp_all

lemma holds_unique: "holds h q \<Longrightarrow> holds h' q \<Longrightarrow> h = h'"
  by (cases h; cases h') auto

definition flag :: "permission \<Rightarrow> addr \<Rightarrow> CodeIx \<Rightarrow> bool" where
  "flag pm p s = (case cprocs s p of None \<Rightarrow> False | Some pr \<Rightarrow> bit (xstate pr) (flag_bit pm))"

text \<open>
  One permission. The processes of \<open>X\<close> keep a flag for a permission they have given up.
\<close>

definition handed :: "permission \<Rightarrow> CodeIx \<Rightarrow> bool" where
  "handed pm s \<longleftrightarrow> (case owner (perms s pm) of Some p \<Rightarrow> flag pm p s
     | None \<Rightarrow> (aux_func (perms s pm), aux_arg (perms s pm)) \<in> set (aux_work s))"

definition perm_seized :: "permission \<Rightarrow> CodeIx \<Rightarrow> (holder \<times> permission) set \<Rightarrow> bool" where
  "perm_seized pm s G \<longleftrightarrow> seized (perms s pm) \<and> (owner (perms s pm) = None \<longleftrightarrow> aux_func (perms s pm) \<noteq> None)
     \<and> (\<forall>h. (h, pm) \<in> G \<longrightarrow> holds h (perms s pm)) \<and> ((\<exists>h. (h, pm) \<in> G) \<or> handed pm s)"

definition perm_idle :: "permission \<Rightarrow> CodeIx \<Rightarrow> (holder \<times> permission) set \<Rightarrow> bool" where
  "perm_idle pm s G \<longleftrightarrow> \<not> seized (perms s pm) \<and> owner (perms s pm) = None \<and> aux_func (perms s pm) = None \<and> aux_arg (perms s pm) = None
     \<and> (\<forall>h. (h, pm) \<notin> G)"

definition flags_ok :: "permission \<Rightarrow> addr set \<Rightarrow> CodeIx \<Rightarrow> (holder \<times> permission) set \<Rightarrow> bool" where
  "flags_ok pm X s G \<longleftrightarrow> xstate_handover_flg (perms s pm) = 2 ^ flag_bit pm
     \<and> (\<forall>p. p \<notin> X \<and> flag pm p s \<longrightarrow> owner (perms s pm) = Some p \<and> (\<forall>h. (h, pm) \<notin> G))"

definition perm_ok :: "permission \<Rightarrow> addr set \<Rightarrow> CodeIx \<Rightarrow> (holder \<times> permission) set \<Rightarrow> bool" where
  "perm_ok pm X s G \<longleftrightarrow> flags_ok pm X s G \<and> (perm_seized pm s G \<or> perm_idle pm s G \<and> waiters (perms s pm) = [])"

text \<open>The processes: who waits is there and suspended, and whoever waits, owns or may run is not freed.\<close>

definition qcount :: "addr \<Rightarrow> CodeIx \<Rightarrow> nat" where
  "qcount p s = count_list (map qi_p (waiters (perms s code_mod_permission))) (Some p)
     + count_list (map qi_p (waiters (perms s code_stage_permission))) (Some p)"

definition needed :: "addr \<Rightarrow> CodeProc \<Rightarrow> (holder \<times> permission) set \<Rightarrow> bool" where
  "needed p pr G \<longleftrightarrow> \<not> exiting pr \<or> (\<exists>pm. bit (xstate pr) (flag_bit pm)) \<or> (\<exists>pm. (ProcHolder p, pm) \<in> G)"

definition proc_ok :: "addr \<Rightarrow> CodeIx \<Rightarrow> (holder \<times> permission) set \<Rightarrow> bool" where
  "proc_ok p s G \<longleftrightarrow> (case cprocs s p of
      None \<Rightarrow> qcount p s = 0 \<and> (\<forall>pm. (ProcHolder p, pm) \<notin> G)
    | Some pr \<Rightarrow> 0 < refc pr \<and> qcount p s + (if needed p pr G then 1 else 0) \<le> refc pr \<and> (\<not> exiting pr \<longrightarrow> qcount p s \<le> rcount pr))"

definition items_ok :: "CodeIx \<Rightarrow> bool" where
  "items_ok s \<longleftrightarrow> (\<forall>pm. \<forall>qi \<in> set (waiters (perms s pm)). qi_p qi = None \<longleftrightarrow> qi_aux_func qi \<noteq> None)"

definition procs_ok :: "CodeIx \<Rightarrow> (holder \<times> permission) set \<Rightarrow> bool" where
  "procs_ok s G \<longleftrightarrow> items_ok s \<and> (\<forall>p. proc_ok p s G)"

definition code_ix_inv :: "CodeIx \<Rightarrow> (holder \<times> permission) set \<Rightarrow> bool" where
  "code_ix_inv s G \<longleftrightarrow> procs_ok s G \<and> (\<forall>pm. perm_ok pm {} s G)"

lemma items_ok_sub: "items_ok s \<Longrightarrow> (\<And>pm. set (waiters (perms s' pm)) \<subseteq> set (waiters (perms s pm))) \<Longrightarrow> items_ok s'"
  unfolding items_ok_def by blast

lemma proc_ok_cong:
  assumes "cprocs s' p = cprocs s p" "qcount p s' = qcount p s" "\<And>pm. (ProcHolder p, pm) \<in> G' \<longleftrightarrow> (ProcHolder p, pm) \<in> G"
  shows "proc_ok p s' G' = proc_ok p s G"
  using assms by (simp add: proc_ok_def needed_def split: option.splits)

lemma qcount_pos: "qi \<in> set (waiters (perms s pm)) \<Longrightarrow> qi_p qi = Some p \<Longrightarrow> 0 < qcount p s"
  by (rule ccontr, cases pm) (auto simp: qcount_def count_list_0_iff image_iff)

text \<open>Facts about one permission depend only on its own fields, its flags and the scheduled jobs.\<close>

lemma perm_ok_frame:
  assumes "perm_ok pm X s G" "perms s' pm = perms s pm" "\<And>p. flag pm p s' = flag pm p s"
    "set (aux_work s) \<subseteq> set (aux_work s')" "\<And>h. (h, pm) \<in> G' \<longleftrightarrow> (h, pm) \<in> G"
  shows "perm_ok pm X s' G'"
  using assms unfolding perm_ok_def flags_ok_def perm_seized_def perm_idle_def handed_def
  by (auto split: option.splits)

subsection \<open>Taking a waiter from the queue\<close>

definition eligible :: "CodeIx \<Rightarrow> code_permission_queue_item \<Rightarrow> bool" where
  "eligible s qi = (case qi_p qi of None \<Rightarrow> True
     | Some p \<Rightarrow> (case cprocs s p of None \<Rightarrow> False | Some pr \<Rightarrow> \<not> exiting pr \<and> \<not> bit (xstate pr) 11))"

definition dequeued :: "CodeProc \<Rightarrow> CodeProc" where
  "dequeued pr = pr\<lparr>rcount := (if exiting pr then rcount pr else rcount pr - 1), refc := refc pr - 1\<rparr>"

definition dequeue :: "permission \<Rightarrow> code_permission_queue_item list \<Rightarrow> addr \<Rightarrow> CodeProc \<Rightarrow> CodeIx \<Rightarrow> CodeIx" where
  "dequeue pm rest p pr s = s\<lparr>perms := (perms s)(pm := (perms s pm)\<lparr>waiters := rest\<rparr>),
     cprocs := (cprocs s)(p := if refc pr \<le> 1 then None else Some (dequeued pr))\<rparr>"

lemma hand_over_skip:
  assumes "qi_p qi = Some p" "cprocs s p = Some pr" "\<not> eligible s qi"
  shows "hand_over pm qi (upd_perm pm (\<lambda>q. q\<lparr>waiters := rest\<rparr>) s) = Some (dequeue pm rest p pr s)"
  using assms by (auto simp: hand_over_def hand_over_proc_def upd_perm_def dequeue_def dequeued_def eligible_def erts_resume_def
    upd_proc_def erts_proc_dec_refc_def gc_flag(1))

lemma flag_dequeue:
  assumes "cprocs s p = Some pr" "refc pr \<le> 1 \<Longrightarrow> \<not> bit (xstate pr) (flag_bit pm')"
  shows "flag pm' x (dequeue pm rest p pr s) = flag pm' x s"
  using assms by (auto simp: flag_def dequeue_def dequeued_def)

lemma qcount_dequeue:
  assumes "waiters (perms s pm) = qi # rest" "qi_p qi = Some p"
  shows "qcount x s = qcount x (dequeue pm rest p pr s) + (if x = p then 1 else 0)"
  using assms by (cases pm) (auto simp: qcount_def dequeue_def)

lemma procs_ok_dequeue:
  assumes ok: "procs_ok s G" and w: "waiters (perms s pm) = qi # rest" "qi_p qi = Some p" and pr: "cprocs s p = Some pr"
  shows "procs_ok (dequeue pm rest p pr s) G" "needed p pr G \<Longrightarrow> 1 < refc pr"
proof -
  define s' where "s' = dequeue pm rest p pr s"
  have q: "qcount x s = qcount x s' + (if x = p then 1 else 0)" for x unfolding s'_def by (rule qcount_dequeue [OF w])
  have c: "cprocs s' p = (if refc pr \<le> 1 then None else Some (dequeued pr))" "x \<noteq> p \<Longrightarrow> cprocs s' x = cprocs s x" for x
    by (simp_all add: s'_def dequeue_def)
  have p: "proc_ok p s G" using ok by (simp add: procs_ok_def)
  then show "1 < refc pr" if "needed p pr G" using pr that q [of p] by (simp add: proc_ok_def)
  have n: "needed p (dequeued pr) G = needed p pr G" by (simp add: needed_def dequeued_def)
  have h: "needed p pr G" if "(ProcHolder p, pm') \<in> G" for pm' using that by (auto simp: needed_def)
  have "proc_ok x s' G" for x
  proof (cases "x = p")
    case True
    have "proc_ok p s' G" using p pr q [of p] h n c(1) by (auto simp: proc_ok_def) (auto simp: dequeued_def)
    then show ?thesis using True by simp
  next
    case False
    then have "proc_ok x s' G = proc_ok x s G" using proc_ok_cong [OF c(2), of x G] q [of x] by simp
    then show ?thesis using ok by (simp add: procs_ok_def)
  qed
  moreover have "items_ok s'" by (rule items_ok_sub [of s]) (use ok w(1) in \<open>auto simp: procs_ok_def s'_def dequeue_def\<close>)
  ultimately show "procs_ok (dequeue pm rest p pr s) G" by (simp add: procs_ok_def s'_def)
qed

text \<open>A waiter that can take the permission.\<close>

definition give_proc :: "permission \<Rightarrow> code_permission_queue_item list \<Rightarrow> addr \<Rightarrow> CodeProc \<Rightarrow> CodeIx \<Rightarrow> CodeIx" where
  "give_proc pm rest p pr s = s\<lparr>perms := (perms s)(pm := (perms s pm)\<lparr>waiters := rest, seized := True, owner := Some p\<rparr>),
     cprocs := (cprocs s)(p \<mapsto> dequeued (pr\<lparr>xstate := xstate pr OR 2 ^ flag_bit pm\<rparr>))\<rparr>"

lemma hand_over_give:
  assumes "qi_p qi = Some p" "cprocs s p = Some pr" "eligible s qi" "xstate_handover_flg (perms s pm) = 2 ^ flag_bit pm" "1 < refc pr"
  shows "hand_over pm qi (upd_perm pm (\<lambda>q. q\<lparr>waiters := rest\<rparr>) s) = Some (give_proc pm rest p pr s)"
  using assms by (auto simp: hand_over_def hand_over_proc_def upd_perm_def give_proc_def dequeued_def eligible_def erts_resume_def
    upd_proc_def erts_proc_dec_refc_def gc_flag(1))

lemma flag_give:
  assumes "cprocs s p = Some pr"
  shows "flag pm' x (give_proc pm rest p pr s) \<longleftrightarrow> flag pm' x s \<or> x = p \<and> pm' = pm"
  using assms by (auto simp: flag_def give_proc_def dequeued_def flag_tests)

lemma procs_ok_give:
  assumes ok: "procs_ok s G" and w: "waiters (perms s pm) = qi # rest" "qi_p qi = Some p" and pr: "cprocs s p = Some pr" "\<not> exiting pr"
  shows "procs_ok (give_proc pm rest p pr s) G" "1 < refc pr"
proof -
  define s' where "s' = dequeue pm rest p pr s"
  define s2 where "s2 = give_proc pm rest p pr s"
  have "needed p pr G" using pr by (simp add: needed_def)
  then show r: "1 < refc pr" by (rule procs_ok_dequeue [OF ok w pr(1)])
  have d: "procs_ok s' G" unfolding s'_def by (rule procs_ok_dequeue [OF ok w pr(1)])
  have q: "qcount x s2 = qcount x s'" for x
    by (cases pm) (simp_all add: qcount_def give_proc_def dequeue_def s'_def s2_def)
  have c: "cprocs s' p = Some (dequeued pr)" "cprocs s2 p = Some (dequeued (pr\<lparr>xstate := xstate pr OR 2 ^ flag_bit pm\<rparr>))"
      "x \<noteq> p \<Longrightarrow> cprocs s2 x = cprocs s' x" for x
    using r by (simp_all add: s'_def s2_def dequeue_def give_proc_def)
  have "proc_ok x s2 G" for x
  proof (cases "x = p")
    case True
    have "proc_ok p s' G" using d by (simp add: procs_ok_def)
    then have "proc_ok p s2 G" using q [of p] pr(2) c(1,2) by (simp add: proc_ok_def needed_def dequeued_def)
    then show ?thesis using True by simp
  next
    case False
    then show ?thesis using proc_ok_cong [OF c(3) q, of x G] d by (simp add: procs_ok_def)
  qed
  moreover have "items_ok s2" by (rule items_ok_sub [of s]) (use ok w(1) in \<open>auto simp: procs_ok_def s2_def give_proc_def\<close>)
  ultimately show "procs_ok (give_proc pm rest p pr s) G" by (simp add: procs_ok_def s2_def)
qed

text \<open>An auxiliary job that waits is scheduled.\<close>

definition give_aux :: "permission \<Rightarrow> code_permission_queue_item list \<Rightarrow> code_permission_queue_item \<Rightarrow> CodeIx \<Rightarrow> CodeIx" where
  "give_aux pm rest qi s = s\<lparr>perms := (perms s)(pm := (perms s pm)\<lparr>waiters := rest, seized := True, aux_func := qi_aux_func qi, aux_arg := qi_aux_arg qi\<rparr>),
     aux_work := aux_work s @ [(qi_aux_func qi, qi_aux_arg qi)]\<rparr>"

lemma hand_over_aux:
  assumes "qi_p qi = None"
  shows "hand_over pm qi (upd_perm pm (\<lambda>q. q\<lparr>waiters := rest\<rparr>) s) = Some (give_aux pm rest qi s)"
  using assms by (simp add: hand_over_def upd_perm_def give_aux_def)

lemma procs_ok_aux:
  assumes ok: "procs_ok s G" and w: "waiters (perms s pm) = qi # rest" "qi_p qi = None"
  shows "procs_ok (give_aux pm rest qi s) G"
proof -
  have "qcount x (give_aux pm rest qi s) = qcount x s" for x using w by (cases pm) (auto simp: qcount_def give_aux_def)
  moreover have "cprocs (give_aux pm rest qi s) = cprocs s" by (simp add: give_aux_def)
  moreover have "items_ok (give_aux pm rest qi s)" by (rule items_ok_sub [of s]) (use ok w(1) in \<open>auto simp: procs_ok_def give_aux_def\<close>)
  ultimately show ?thesis using ok proc_ok_cong [of "give_aux pm rest qi s" _ s G G] by (simp add: procs_ok_def)
qed

subsection \<open>Release\<close>

text \<open>What a release leaves of the processes and of the other permission.\<close>

definition kept :: "permission \<Rightarrow> (holder \<times> permission) set \<Rightarrow> CodeIx \<Rightarrow> CodeIx \<Rightarrow> bool" where
  "kept pm G s s' \<longleftrightarrow> (\<forall>pm'. pm' \<noteq> pm \<longrightarrow> perms s' pm' = perms s pm' \<and> (\<forall>x. flag pm' x s' = flag pm' x s))
     \<and> set (aux_work s) \<subseteq> set (aux_work s')
     \<and> (\<forall>x pr. cprocs s x = Some pr \<and> needed x pr G \<longrightarrow> (\<exists>pr'. cprocs s' x = Some pr' \<and> exiting pr' = exiting pr
         \<and> (\<forall>n. n \<noteq> flag_bit pm \<longrightarrow> bit (xstate pr') n = bit (xstate pr) n)))"

lemma kept_refl: "kept pm G s s"
  by (auto simp: kept_def)

lemma kept_dequeue:
  assumes "cprocs s p = Some pr" "needed p pr G \<Longrightarrow> 1 < refc pr"
  shows "kept pm G s (dequeue pm rest p pr s)"
proof -
  have "flag pm' x (dequeue pm rest p pr s) = flag pm' x s" for pm' x
    using assms by (intro flag_dequeue) (auto simp: needed_def)
  then show ?thesis using assms by (auto simp: kept_def dequeue_def dequeued_def)
qed

lemma kept_trans:
  assumes k: "kept pm G s (dequeue pm rest p pr s)" "kept pm G (dequeue pm rest p pr s) s'" and pr: "cprocs s p = Some pr" "needed p pr G \<Longrightarrow> 1 < refc pr"
  shows "kept pm G s s'"
proof -
  have n: "needed x y' G" if "cprocs (dequeue pm rest p pr s) x = Some y'" "cprocs s x = Some y" "needed x y G" for x y y'
    using that pr by (cases "x = p") (auto simp: dequeue_def dequeued_def needed_def split: if_splits)
  then show ?thesis using k unfolding kept_def by (smt (verit, best) subset_trans)
qed

text \<open>Who gets the permission: the first waiter that neither exits nor collects garbage.\<close>

definition passed_on :: "permission \<Rightarrow> CodeIx \<Rightarrow> code_permission_queue_item list \<Rightarrow> CodeIx \<Rightarrow> bool" where
  "passed_on pm s qs s' \<longleftrightarrow>
     (case dropWhile (\<lambda>qi. \<not> eligible s qi) qs of
        [] \<Rightarrow> \<not> seized (perms s' pm) \<and> waiters (perms s' pm) = []
      | qi # rest \<Rightarrow> seized (perms s' pm) \<and> waiters (perms s' pm) = rest \<and> owner (perms s' pm) = qi_p qi
          \<and> (qi_p qi = None \<longrightarrow> aux_func (perms s' pm) = qi_aux_func qi \<and> aux_arg (perms s' pm) = qi_aux_arg qi)
          \<and> handed pm s')"

lemma eligible_dequeue:
  assumes "qi_p qi = Some p" "cprocs s p = Some pr" "\<not> eligible s qi"
  shows "eligible (dequeue pm rest p pr s) = eligible s"
  using assms by (auto simp: fun_eq_iff eligible_def dequeue_def dequeued_def split: option.splits)

lemma release_seized: "seized (perms s pm) \<Longrightarrow> release_loop pm qs s = Some s"
  by (cases qs) simp_all

definition release_post :: "permission \<Rightarrow> addr set \<Rightarrow> (holder \<times> permission) set \<Rightarrow> code_permission_queue_item list \<Rightarrow> CodeIx \<Rightarrow> CodeIx \<Rightarrow> bool" where
  "release_post pm X G qs s s' \<longleftrightarrow> procs_ok s' G \<and> perm_ok pm X s' G \<and> kept pm G s s' \<and> passed_on pm s qs s'"

lemma release_post_give:
  assumes i: "perm_idle pm s G" "flags_ok pm X s G" "procs_ok s G" "waiters (perms s pm) = qi # rest" and e: "eligible s qi" and p: "qi_p qi = Some p"
  shows "\<exists>s'. release_loop pm (qi # rest) s = Some s' \<and> release_post pm X G (qi # rest) s s'"
proof -
  obtain pr where pr: "cprocs s p = Some pr" "\<not> exiting pr" using e p by (auto simp: eligible_def split: option.splits)
  note g = procs_ok_give [OF i(3,4) p pr]
  have f: "xstate_handover_flg (perms s pm) = 2 ^ flag_bit pm" "x \<notin> X \<Longrightarrow> \<not> flag pm x s" for x using i(1,2) by (auto simp: flags_ok_def perm_idle_def)
  define s' where "s' = give_proc pm rest p pr s"
  have fl: "flag pm' x s' \<longleftrightarrow> flag pm' x s \<or> x = p \<and> pm' = pm" for pm' x unfolding s'_def by (rule flag_give [OF pr(1)])
  have q: "perms s' pm = (perms s pm)\<lparr>waiters := rest, seized := True, owner := Some p\<rparr>" by (simp add: s'_def give_proc_def)
  have "release_loop pm (qi # rest) s = Some s'"
    using i(1) hand_over_give [OF p pr(1) e f(1) g(2)] q by (simp add: perm_idle_def s'_def release_seized)
  moreover have "perm_ok pm X s' G" using i(1) f fl q by (auto simp: perm_ok_def flags_ok_def perm_seized_def perm_idle_def handed_def)
  moreover have "kept pm G s s'" using fl pr unfolding kept_def by (auto simp: s'_def give_proc_def dequeued_def flag_tests)
  moreover have "passed_on pm s (qi # rest) s'" using e p q fl by (simp add: passed_on_def handed_def)
  ultimately show ?thesis using g(1) by (auto simp: release_post_def s'_def)
qed

lemma release_post_aux:
  assumes i: "perm_idle pm s G" "flags_ok pm X s G" "procs_ok s G" "waiters (perms s pm) = qi # rest" and p: "qi_p qi = None"
  shows "\<exists>s'. release_loop pm (qi # rest) s = Some s' \<and> release_post pm X G (qi # rest) s s'"
proof -
  have e: "eligible s qi" using p by (simp add: eligible_def)
  have a: "qi_aux_func qi \<noteq> None" using i(3,4) p unfolding procs_ok_def items_ok_def by (metis list.set_intros(1))
  define s' where "s' = give_aux pm rest qi s"
  have fl: "flag pm' x s' = flag pm' x s" for pm' x by (simp add: s'_def give_aux_def flag_def)
  have q: "perms s' pm = (perms s pm)\<lparr>waiters := rest, seized := True, aux_func := qi_aux_func qi, aux_arg := qi_aux_arg qi\<rparr>"
      "aux_work s' = aux_work s @ [(qi_aux_func qi, qi_aux_arg qi)]" by (simp_all add: s'_def give_aux_def)
  have "release_loop pm (qi # rest) s = Some s'"
    using i(1) hand_over_aux [OF p] q by (simp add: perm_idle_def s'_def release_seized)
  moreover have "perm_ok pm X s' G" using i(1,2) fl q a by (auto simp: perm_ok_def flags_ok_def perm_seized_def perm_idle_def handed_def)
  moreover have "kept pm G s s'" using fl unfolding kept_def by (auto simp: s'_def give_aux_def)
  moreover have "passed_on pm s (qi # rest) s'" using e p q i(1) by (simp add: passed_on_def handed_def perm_idle_def)
  ultimately show ?thesis using procs_ok_aux [OF i(3,4) p] by (auto simp: release_post_def s'_def)
qed

lemma release_loop_ok:
  assumes "perm_idle pm s G" "flags_ok pm X s G" "procs_ok s G" "waiters (perms s pm) = qs"
  shows "\<exists>s'. release_loop pm qs s = Some s' \<and> release_post pm X G qs s s'"
  using assms
proof (induction qs arbitrary: s)
  case Nil
  then show ?case by (simp add: release_post_def perm_ok_def passed_on_def kept_refl perm_idle_def)
next
  case (Cons qi rest)
  show ?case
  proof (cases "eligible s qi")
    case True
    then show ?thesis using release_post_give [OF Cons.prems] release_post_aux [OF Cons.prems] by (cases "qi_p qi") auto
  next
    case False
    then obtain p where p: "qi_p qi = Some p" by (auto simp: eligible_def split: option.splits)
    have "0 < qcount p s" using qcount_pos [of qi s pm p] Cons.prems(4) p by simp
    moreover have "proc_ok p s G" using Cons.prems(3) by (simp add: procs_ok_def)
    ultimately obtain pr where pr: "cprocs s p = Some pr" by (cases "cprocs s p") (auto simp: proc_ok_def)
    define s1 where "s1 = dequeue pm rest p pr s"
    note d = procs_ok_dequeue [OF Cons.prems(3,4) p pr]
    have k: "kept pm G s s1" unfolding s1_def by (rule kept_dequeue [OF pr d(2)])
    have fl: "flag pm' x s1 = flag pm' x s" for pm' x unfolding s1_def using d(2) by (intro flag_dequeue [OF pr]) (auto simp: needed_def)
    have q: "perms s1 pm = (perms s pm)\<lparr>waiters := rest\<rparr>" by (simp add: s1_def dequeue_def)
    have "perm_idle pm s1 G" "flags_ok pm X s1 G" "procs_ok s1 G" "waiters (perms s1 pm) = rest"
      using Cons.prems(1,2) q fl d(1) by (auto simp: perm_idle_def flags_ok_def s1_def)
    from Cons.IH [OF this] obtain s' where s': "release_loop pm rest s1 = Some s'" "release_post pm X G rest s1 s'" by blast
    have "release_loop pm (qi # rest) s = Some s'"
      using Cons.prems(1) s'(1) hand_over_skip [OF p pr False] by (simp add: perm_idle_def s1_def)
    moreover have "passed_on pm s (qi # rest) s'"
      using s'(2) False eligible_dequeue [OF p pr False] by (simp add: release_post_def passed_on_def s1_def)
    moreover have "kept pm G s s'" using kept_trans [OF k [unfolded s1_def] _ pr d(2)] s'(2) by (simp add: release_post_def s1_def)
    ultimately show ?thesis using s'(2) by (auto simp: release_post_def)
  qed
qed

lemma procs_ok_less:
  assumes ok: "procs_ok s G" and le: "G' \<subseteq> G" and c: "cprocs s' = cprocs s" "\<And>pm. waiters (perms s' pm) = waiters (perms s pm)"
  shows "procs_ok s' G'"
proof -
  have "proc_ok p s' G'" for p
  proof -
    have "proc_ok p s G" using ok by (simp add: procs_ok_def)
    moreover have "qcount p s' = qcount p s" using c(2) by (simp add: qcount_def)
    ultimately show ?thesis using c(1) le by (auto simp: proc_ok_def needed_def split: option.splits if_splits)
  qed
  moreover have "items_ok s'" using ok c(2) by (simp add: procs_ok_def items_ok_def)
  ultimately show ?thesis by (simp add: procs_ok_def)
qed

definition reset :: "permission \<Rightarrow> CodeIx \<Rightarrow> CodeIx" where
  "reset pm s = upd_perm pm (\<lambda>q. q\<lparr>seized := False, owner := None, aux_func := None, aux_arg := None\<rparr>) s"

lemma reset_simps [simp]:
  "cprocs (reset pm s) = cprocs s" "aux_work (reset pm s) = aux_work s" "waiters (perms (reset pm s) pm') = waiters (perms s pm')"
  "pm' \<noteq> pm \<Longrightarrow> perms (reset pm s) pm' = perms s pm'" "flag pm' x (reset pm s) = flag pm' x s" "eligible (reset pm s) = eligible s"
  by (simp_all add: reset_def upd_perm_def flag_def eligible_def [abs_def] cong: option.case_cong)

lemma release_from_reset:
  assumes ok: "procs_ok s G" "G' \<subseteq> G" "\<forall>pm'. pm' \<noteq> pm \<longrightarrow> perm_ok pm' {} s G" "\<forall>h pm'. pm' \<noteq> pm \<longrightarrow> (h, pm') \<in> G' \<longleftrightarrow> (h, pm') \<in> G"
    and no: "\<forall>h. (h, pm) \<notin> G'" "\<forall>x. x \<notin> X \<longrightarrow> \<not> flag pm x s" and f: "xstate_handover_flg (perms s pm) = 2 ^ flag_bit pm"
  shows "\<exists>s'. release_code_permission pm s = Some s' \<and> release_post pm X G' (waiters (perms s pm)) (reset pm s) s' \<and> (\<forall>pm'. pm' \<noteq> pm \<longrightarrow> perm_ok pm' {} s' G')"
proof -
  have "perm_idle pm (reset pm s) G'" "flags_ok pm X (reset pm s) G'"
    using no f by (auto simp: perm_idle_def flags_ok_def) (simp_all add: reset_def upd_perm_def)
  moreover have "procs_ok (reset pm s) G'" using procs_ok_less [OF ok(1,2)] by simp
  ultimately obtain s' where s': "release_loop pm (waiters (perms s pm)) (reset pm s) = Some s'" "release_post pm X G' (waiters (perms s pm)) (reset pm s) s'"
    using release_loop_ok [of pm "reset pm s" G' X] by force
  have "perm_ok pm' {} s' G'" if "pm' \<noteq> pm" for pm'
    using perm_ok_frame [of pm' "{}" s G s' G'] ok(3,4) s'(2) that by (simp add: release_post_def kept_def)
  then show ?thesis using s' by (auto simp: release_code_permission_def reset_def)
qed

lemma release_ok:
  assumes inv: "code_ix_inv s G" and h: "(h, pm) \<in> G"
  shows "\<exists>s'. release_code_permission pm s = Some s' \<and> code_ix_inv s' (G - {(h, pm)}) \<and> passed_on pm s (waiters (perms s pm)) s'"
proof -
  have p: "perm_ok pm {} s G" "\<forall>pm'. pm' \<noteq> pm \<longrightarrow> perm_ok pm' {} s G" "procs_ok s G" using inv by (auto simp: code_ix_inv_def)
  then have "perm_seized pm s G" using h by (auto simp: perm_ok_def perm_idle_def)
  then have "h' = h" if "(h', pm) \<in> G" for h' using holds_unique that h unfolding perm_seized_def by blast
  then have no: "\<forall>h'. (h', pm) \<notin> G - {(h, pm)}" by auto
  have f: "\<forall>x. x \<notin> {} \<longrightarrow> \<not> flag pm x s" "xstate_handover_flg (perms s pm) = 2 ^ flag_bit pm" using p(1) h by (auto simp: perm_ok_def flags_ok_def)
  obtain s' where s': "release_code_permission pm s = Some s'" "release_post pm {} (G - {(h, pm)}) (waiters (perms s pm)) (reset pm s) s'"
      "\<forall>pm'. pm' \<noteq> pm \<longrightarrow> perm_ok pm' {} s' (G - {(h, pm)})"
    using release_from_reset [OF p(3) _ p(2) _ no f] by auto
  have "perm_ok pm' {} s' (G - {(h, pm)})" for pm' using s'(2,3) by (cases "pm' = pm") (simp_all add: release_post_def)
  moreover have "passed_on pm s (waiters (perms s pm)) s'" using s'(2) by (simp add: release_post_def passed_on_def)
  ultimately show ?thesis using s'(1,2) by (simp add: code_ix_inv_def release_post_def)
qed

subsection \<open>Rejection\<close>

lemma clear_flag_ok:
  assumes ok: "procs_ok s G" "perm_ok pm {p} s G" "\<forall>pm'. pm' \<noteq> pm \<longrightarrow> perm_ok pm' {} s G" and pr: "cprocs s p = Some pr"
    and o: "owner (perms s pm) \<noteq> Some p" and x: "\<And>n. bit x n \<longleftrightarrow> bit (xstate pr) n \<and> n \<noteq> flag_bit pm"
  shows "code_ix_inv (s\<lparr>cprocs := (cprocs s)(p \<mapsto> pr\<lparr>xstate := x\<rparr>)\<rparr>) G"
proof -
  define s' where "s' = s\<lparr>cprocs := (cprocs s)(p \<mapsto> pr\<lparr>xstate := x\<rparr>)\<rparr>"
  have fl: "flag pm' y s' \<longleftrightarrow> flag pm' y s \<and> \<not> (y = p \<and> pm' = pm)" for pm' y using pr x by (auto simp: s'_def flag_def)
  have e: "perms s' = perms s" "aux_work s' = aux_work s" by (simp_all add: s'_def)
  have "perm_ok pm' {} s' G" for pm'
  proof (cases "pm' = pm")
    case True
    have "handed pm s' = handed pm s" using o fl e by (auto simp: handed_def split: option.splits)
    then have "perm_ok pm {} s' G" using ok(2) e fl by (auto simp: perm_ok_def flags_ok_def perm_seized_def perm_idle_def)
    then show ?thesis using True by simp
  next
    case False
    then show ?thesis using perm_ok_frame [of pm' "{}" s G s' G] ok(3) fl e by simp
  qed
  moreover have "proc_ok y s' G" for y
  proof (cases "y = p")
    case True
    have "needed p pr G" if "needed p (pr\<lparr>xstate := x\<rparr>) G" using that x by (auto simp: needed_def)
    moreover have "proc_ok p s G" "qcount p s' = qcount p s" using ok(1) e by (simp_all add: procs_ok_def qcount_def)
    ultimately have "proc_ok p s' G" using pr by (auto simp: proc_ok_def s'_def split: if_splits)
    then show ?thesis using True by simp
  next
    case False
    then have "cprocs s' y = cprocs s y" "qcount y s' = qcount y s" using e by (simp_all add: s'_def qcount_def)
    then show ?thesis using proc_ok_cong [of s' y s G G] ok(1) by (simp add: procs_ok_def)
  qed
  moreover have "items_ok s'" using ok(1) e by (simp add: procs_ok_def items_ok_def)
  ultimately show ?thesis unfolding s'_def [symmetric] by (simp add: code_ix_inv_def procs_ok_def)
qed

lemma passed_on_ineligible:
  assumes "passed_on pm s qs s'" "perm_ok pm X s' G" "\<And>qi. qi_p qi = Some p \<Longrightarrow> \<not> eligible s qi"
  shows "owner (perms s' pm) \<noteq> Some p"
proof (cases "dropWhile (\<lambda>qi. \<not> eligible s qi) qs")
  case Nil
  then have "\<not> seized (perms s' pm)" using assms(1) unfolding passed_on_def Nil by simp
  then show ?thesis using assms(2) by (auto simp: perm_ok_def perm_seized_def perm_idle_def)
next
  case (Cons qi rest)
  then have "eligible s qi" using hd_dropWhile [of "\<lambda>qi. \<not> eligible s qi" qs] by simp
  then show ?thesis using assms(1,3) Cons by (auto simp: passed_on_def)
qed

lemma reject_one_ok:
  assumes inv: "code_ix_inv s G" and pr: "cprocs s p = Some pr" "exiting pr \<or> bit (xstate pr) 11"
    and x: "bit x (flag_bit pm) = bit (xstate pr) (flag_bit pm)" and f: "flg = 2 ^ flag_bit pm"
  shows "\<exists>s' pr'. reject_one pm flg x p s = Some s' \<and> code_ix_inv s' G \<and> cprocs s' p = Some pr' \<and> exiting pr' = exiting pr
    \<and> (\<forall>n. bit (xstate pr') n \<longleftrightarrow> bit (xstate pr) n \<and> n \<noteq> flag_bit pm)"
proof (cases "bit x (flag_bit pm)")
  case False
  then have "reject_one pm flg x p s = Some s" using f by (simp add: reject_one_def flag_tests)
  then show ?thesis using inv pr(1) False x by (intro exI [of _ s] exI [of _ pr]) auto
next
  case True
  have p: "perm_ok pm {} s G" "\<forall>pm'. pm' \<noteq> pm \<longrightarrow> perm_ok pm' {} s G" "procs_ok s G" using inv by (auto simp: code_ix_inv_def)
  have fp: "flag pm p s" using True x pr(1) by (simp add: flag_def)
  then have w: "owner (perms s pm) = Some p" "\<forall>h. (h, pm) \<notin> G" "\<forall>y. y \<notin> {p} \<longrightarrow> \<not> flag pm y s" "xstate_handover_flg (perms s pm) = 2 ^ flag_bit pm"
    using p(1) unfolding perm_ok_def flags_ok_def by (simp_all, metis option.inject)
  obtain s1 where s1: "release_code_permission pm s = Some s1" "release_post pm {p} G (waiters (perms s pm)) (reset pm s) s1" "\<forall>pm'. pm' \<noteq> pm \<longrightarrow> perm_ok pm' {} s1 G"
    using release_from_reset [OF p(3) subset_refl p(2) _ w(2,3,4)] by auto
  have n: "needed p pr G" using True x by (auto simp: needed_def)
  obtain pr1 where pr1: "cprocs s1 p = Some pr1" "exiting pr1 = exiting pr" "\<forall>n. n \<noteq> flag_bit pm \<longrightarrow> bit (xstate pr1) n = bit (xstate pr) n"
  proof -
    have "kept pm G (reset pm s) s1" using s1(2) by (simp add: release_post_def)
    then have "\<exists>pr'. cprocs s1 p = Some pr' \<and> exiting pr' = exiting pr \<and> (\<forall>n. n \<noteq> flag_bit pm \<longrightarrow> bit (xstate pr') n = bit (xstate pr) n)"
      using pr(1) n unfolding kept_def reset_simps by blast
    then show ?thesis using that by blast
  qed
  have "owner (perms s1 pm) \<noteq> Some p"
    using s1(2) pr by (intro passed_on_ineligible [of pm "reset pm s" "waiters (perms s pm)" s1 "{p}" G]) (auto simp: release_post_def eligible_def)
  from clear_flag_ok [OF _ _ s1(3) pr1(1) this, of "xstate pr1 AND NOT flg"]
  have "code_ix_inv (s1\<lparr>cprocs := (cprocs s1)(p \<mapsto> pr1\<lparr>xstate := xstate pr1 AND NOT flg\<rparr>)\<rparr>) G"
    using s1(2) f by (simp add: release_post_def flag_tests)
  moreover have "reject_one pm flg x p s = Some (s1\<lparr>cprocs := (cprocs s1)(p \<mapsto> pr1\<lparr>xstate := xstate pr1 AND NOT flg\<rparr>)\<rparr>)"
    using True f s1(1) pr1(1) by (simp add: reject_one_def flag_tests upd_proc_def)
  ultimately show ?thesis using pr1 f by (auto simp: flag_tests)
qed

lemma reject_ok:
  assumes inv: "code_ix_inv s G" and pr: "cprocs s p = Some pr" "exiting pr \<or> bit (xstate pr) 11"
  shows "\<exists>s' pr'. erts_reject_code_permissions p s = Some s' \<and> code_ix_inv s' G \<and> cprocs s' p = Some pr' \<and> exiting pr' = exiting pr
    \<and> (\<forall>pm. \<not> flag pm p s')"
proof -
  have f: "ERTS_PXSFLG_HANDOVER_CODE_MOD_PERM = 2 ^ flag_bit code_mod_permission" "ERTS_PXSFLG_HANDOVER_CODE_STAGE_PERM = 2 ^ flag_bit code_stage_permission"
    by (simp_all add: ERTS_PXSFLG_HANDOVER_CODE_MOD_PERM_def ERTS_PXSFLG_HANDOVER_CODE_STAGE_PERM_def)
  obtain s1 pr1 where s1: "reject_one code_mod_permission ERTS_PXSFLG_HANDOVER_CODE_MOD_PERM (xstate pr) p s = Some s1" "code_ix_inv s1 G"
      "cprocs s1 p = Some pr1" "exiting pr1 = exiting pr" "\<forall>n. bit (xstate pr1) n \<longleftrightarrow> bit (xstate pr) n \<and> n \<noteq> 9"
    using reject_one_ok [OF inv pr refl f(1)] by auto
  obtain s2 pr2 where s2: "reject_one code_stage_permission ERTS_PXSFLG_HANDOVER_CODE_STAGE_PERM (xstate pr) p s1 = Some s2" "code_ix_inv s2 G"
      "cprocs s2 p = Some pr2" "exiting pr2 = exiting pr1" "\<forall>n. bit (xstate pr2) n \<longleftrightarrow> bit (xstate pr1) n \<and> n \<noteq> 10"
    using reject_one_ok [OF s1(2,3) _ _ f(2), of "xstate pr"] pr(2) s1(4,5) by auto
  have "\<not> flag pm p s2" for pm using s2(3,5) s1(5) by (cases pm) (simp_all add: flag_def)
  then show ?thesis using pr(1) s1 s2 by (simp add: erts_reject_code_permissions_def)
qed

subsection \<open>Seizing\<close>

definition holder_of :: "ptr \<Rightarrow> ptr \<Rightarrow> ptr \<Rightarrow> holder" where
  "holder_of c_p af aa = (case c_p of Some p \<Rightarrow> ProcHolder p | None \<Rightarrow> AuxHolder af aa)"

text \<open>A caller: a job, or a process that is there and does not exit.\<close>

definition caller :: "ptr \<Rightarrow> ptr \<Rightarrow> CodeIx \<Rightarrow> bool" where
  "caller c_p af s \<longleftrightarrow> (c_p = None \<longleftrightarrow> af \<noteq> None) \<and> (\<forall>p. c_p = Some p \<longrightarrow> (\<exists>pr. cprocs s p = Some pr \<and> \<not> exiting pr))"

lemma procs_ok_grant:
  assumes ok: "procs_ok s G" and c: "caller c_p af s" and e: "cprocs s' = cprocs s" "\<And>pm. waiters (perms s' pm) = waiters (perms s pm)"
  shows "procs_ok s' (insert (holder_of c_p af aa, pm) G)"
proof -
  have s': "procs_ok s' G" using procs_ok_less [OF ok subset_refl e] .
  have "proc_ok p s' (insert (holder_of c_p af aa, pm) G)" for p
  proof -
    have o: "proc_ok p s' G" using s' by (simp add: procs_ok_def)
    show ?thesis
    proof (cases "c_p = Some p")
      case True
      then obtain pr where "cprocs s' p = Some pr" "\<not> exiting pr" using c e by (auto simp: caller_def)
      then show ?thesis using o by (simp add: proc_ok_def needed_def)
    next
      case False
      then have "(ProcHolder p, pm') \<in> insert (holder_of c_p af aa, pm) G \<longleftrightarrow> (ProcHolder p, pm') \<in> G" for pm'
        by (auto simp: holder_of_def split: option.splits)
      then show ?thesis using o proc_ok_cong [OF refl refl, of p "insert (holder_of c_p af aa, pm) G" G s'] by blast
    qed
  qed
  then show ?thesis using s' by (simp add: procs_ok_def)
qed

text \<open>The caller gets the permission: what must hold of it afterwards.\<close>

lemma grant_ok:
  assumes inv: "code_ix_inv s G" and c: "caller c_p af s" and e: "cprocs s' = cprocs s" "\<And>pm. waiters (perms s' pm) = waiters (perms s pm)"
      "aux_work s' = aux_work s" "\<And>pm'. pm' \<noteq> pm \<Longrightarrow> perms s' pm' = perms s pm'" "xstate_handover_flg (perms s' pm) = xstate_handover_flg (perms s pm)"
    and h: "seized (perms s' pm)" "holds (holder_of c_p af aa) (perms s' pm)" "owner (perms s' pm) = None \<longleftrightarrow> aux_func (perms s' pm) \<noteq> None"
    and no: "\<And>x. \<not> flag pm x s" "\<And>h. (h, pm) \<in> G \<Longrightarrow> h = holder_of c_p af aa"
  shows "code_ix_inv s' (insert (holder_of c_p af aa, pm) G)"
proof -
  have fl: "flag pm' x s' = flag pm' x s" for pm' x using e(1) by (simp add: flag_def)
  have p: "perm_ok pm' {} s G" "procs_ok s G" for pm' using inv by (auto simp: code_ix_inv_def)
  have "perm_ok pm' {} s' (insert (holder_of c_p af aa, pm) G)" for pm'
  proof (cases "pm' = pm")
    case True
    have "perm_ok pm {} s' (insert (holder_of c_p af aa, pm) G)"
      using h no fl e(5) p(1) [of pm] by (auto simp: perm_ok_def perm_seized_def flags_ok_def)
    then show ?thesis using True by simp
  next
    case False
    then show ?thesis using perm_ok_frame [of pm' "{}" s G s' "insert (holder_of c_p af aa, pm) G"] p(1) e fl by simp
  qed
  then show ?thesis using procs_ok_grant [OF p(2) c e(1,2)] by (simp add: code_ix_inv_def)
qed

text \<open>The caller waits.\<close>

lemma perm_ok_enqueue:
  assumes "perm_ok pm' {} s G" "seized (perms s pm)" "perms s' = (perms s)(pm := (perms s pm)\<lparr>waiters := ws\<rparr>)" "aux_work s' = aux_work s"
    "\<And>x. flag pm' x s' = flag pm' x s"
  shows "perm_ok pm' {} s' G"
  using assms by (cases "pm' = pm") (auto simp: perm_ok_def flags_ok_def perm_seized_def perm_idle_def handed_def split: option.splits)

lemma enqueue_ok:
  assumes inv: "code_ix_inv s G" and c: "caller c_p af s" and z: "seized (perms s pm)"
  shows "\<exists>s'. enqueue_waiter pm c_p af aa s = Some s' \<and> code_ix_inv s' G \<and> caller c_p af s'"
proof (cases c_p)
  case None
  define s' where "s' = upd_perm pm (\<lambda>q. q\<lparr>waiters := waiters q @ [\<lparr>qi_p = None, qi_aux_func = af, qi_aux_arg = aa\<rparr>]\<rparr>) s"
  have e: "enqueue_waiter pm c_p af aa s = Some s'" using None by (simp add: enqueue_waiter_def s'_def)
  have f: "cprocs s' = cprocs s" "perms s' = (perms s)(pm := (perms s pm)\<lparr>waiters := waiters (perms s pm) @ [\<lparr>qi_p = None, qi_aux_func = af, qi_aux_arg = aa\<rparr>]\<rparr>)"
      "aux_work s' = aux_work s" by (simp_all add: s'_def upd_perm_def)
  have "qcount x s' = qcount x s" for x using f(2) by (cases pm) (simp_all add: qcount_def)
  then have "proc_ok x s' G" for x using inv proc_ok_cong [of s' x s G G] f(1) by (simp add: code_ix_inv_def procs_ok_def)
  moreover have "items_ok s'" using inv f(2) c None by (auto simp: code_ix_inv_def procs_ok_def items_ok_def caller_def)
  moreover have "perm_ok pm' {} s' G" for pm'
    using perm_ok_enqueue [of pm' s G pm s'] inv z f by (simp add: code_ix_inv_def flag_def)
  ultimately show ?thesis using e c None f(1) by (auto simp: code_ix_inv_def procs_ok_def caller_def)
next
  case (Some p)
  then obtain pr where pr: "cprocs s p = Some pr" "\<not> exiting pr" using c by (auto simp: caller_def)
  define s' where "s' = upd_perm pm (\<lambda>q. q\<lparr>waiters := waiters q @ [\<lparr>qi_p = Some p, qi_aux_func = None, qi_aux_arg = None\<rparr>]\<rparr>)
    (s\<lparr>cprocs := (cprocs s)(p \<mapsto> pr\<lparr>refc := refc pr + 1, rcount := rcount pr + 1\<rparr>)\<rparr>)"
  have e: "enqueue_waiter pm c_p af aa s = Some s'" using Some pr(1) by (simp add: enqueue_waiter_def erts_suspend_def erts_proc_inc_refc_def upd_proc_def s'_def)
  have f: "cprocs s' = (cprocs s)(p \<mapsto> pr\<lparr>refc := refc pr + 1, rcount := rcount pr + 1\<rparr>)" "aux_work s' = aux_work s"
      "perms s' = (perms s)(pm := (perms s pm)\<lparr>waiters := waiters (perms s pm) @ [\<lparr>qi_p = Some p, qi_aux_func = None, qi_aux_arg = None\<rparr>]\<rparr>)"
    by (simp_all add: s'_def upd_perm_def)
  have fl: "flag pm' x s' = flag pm' x s" for pm' x using f(1) pr(1) by (simp add: flag_def)
  have q: "qcount x s' = qcount x s + (if x = p then 1 else 0)" for x using f(3) by (cases pm) (simp_all add: qcount_def)
  have "proc_ok x s' G" for x
  proof (cases "x = p")
    case True
    have "proc_ok p s G" using inv by (simp add: code_ix_inv_def procs_ok_def)
    then have "proc_ok p s' G" using q [of p] f(1) pr by (simp add: proc_ok_def needed_def)
    then show ?thesis using True by simp
  next
    case False
    then show ?thesis using inv proc_ok_cong [of s' x s G G] f(1) q [of x] by (simp add: code_ix_inv_def procs_ok_def)
  qed
  moreover have "items_ok s'" using inv f(3) by (auto simp: code_ix_inv_def procs_ok_def items_ok_def)
  moreover have "perm_ok pm' {} s' G" for pm' using perm_ok_enqueue [of pm' s G pm s'] inv z f(2,3) fl by (simp add: code_ix_inv_def)
  ultimately show ?thesis using e c Some f(1) pr by (auto simp: code_ix_inv_def procs_ok_def caller_def)
qed

text \<open>The answer is positive only when nobody else has the permission.\<close>

definition answered :: "permission \<Rightarrow> holder \<Rightarrow> (holder \<times> permission) set \<Rightarrow> bool \<Rightarrow> CodeIx \<Rightarrow> bool" where
  "answered pm h G ok s' \<longleftrightarrow> code_ix_inv s' (if ok then insert (h, pm) G else G) \<and> (ok \<longrightarrow> (\<forall>h'. (h', pm) \<in> G \<longrightarrow> h' = h))"

lemma seize_locked_ok:
  assumes inv: "code_ix_inv s G" and c: "caller c_p af s" and nf: "\<And>p. c_p = Some p \<Longrightarrow> \<not> flag pm p s"
  shows "\<exists>ok s'. seize_locked pm c_p af aa s = Some (ok, s') \<and> answered pm (holder_of c_p af aa) G ok s' \<and> caller c_p af s'"
proof -
  have p: "perm_ok pm {} s G" using inv by (simp add: code_ix_inv_def)
  consider (free) "\<not> seized (perms s pm)" | (mine) "seized (perms s pm)" "af \<noteq> None" "af = aux_func (perms s pm)" "aa = aux_arg (perms s pm)"
    | (taken) "seized (perms s pm)" "\<not> (af \<noteq> None \<and> af = aux_func (perms s pm) \<and> aa = aux_arg (perms s pm))" by blast
  then show ?thesis
  proof cases
    case free
    define s' where "s' = upd_perm pm (\<lambda>q. q\<lparr>owner := c_p, aux_func := af, aux_arg := aa, seized := True\<rparr>) s"
    have i: "perm_idle pm s G" using p free by (auto simp: perm_ok_def perm_seized_def)
    then have n: "\<not> flag pm x s" "(h, pm) \<notin> G" for x h using p by (auto simp: perm_ok_def flags_ok_def perm_idle_def)
    have "code_ix_inv s' (insert (holder_of c_p af aa, pm) G)"
      using c n by (intro grant_ok [OF inv c]) (auto simp: s'_def upd_perm_def holder_of_def caller_def split: option.splits)
    moreover have "caller c_p af s'" using c by (simp add: caller_def s'_def upd_perm_def)
    moreover have "seize_locked pm c_p af aa s = Some (True, s')" using free by (simp add: seize_locked_def s'_def)
    ultimately show ?thesis using n by (auto simp: answered_def)
  next
    case mine
    have o: "owner (perms s pm) = None" "c_p = None" "perm_seized pm s G" using p mine c by (auto simp: perm_ok_def perm_seized_def perm_idle_def caller_def)
    have n: "\<not> flag pm x s" for x using p o(1) by (auto simp: perm_ok_def flags_ok_def)
    have hl: "holds (holder_of c_p af aa) (perms s pm)" using o mine by (simp add: holder_of_def)
    then have "h = holder_of c_p af aa" if "(h, pm) \<in> G" for h using o(3) that holds_unique unfolding perm_seized_def by blast
    moreover from this have "code_ix_inv s (insert (holder_of c_p af aa, pm) G)"
      using o mine n hl by (intro grant_ok [OF inv c]) auto
    ultimately have "answered pm (holder_of c_p af aa) G True s" unfolding answered_def by simp
    moreover have "seize_locked pm c_p af aa s = Some (True, s)" using mine by (simp add: seize_locked_def)
    ultimately show ?thesis using c by blast
  next
    case taken
    obtain s' where s': "enqueue_waiter pm c_p af aa s = Some s'" "code_ix_inv s' G" "caller c_p af s'"
      using enqueue_ok [OF inv c taken(1)] by blast
    have "seize_locked pm c_p af aa s = Some (False, s')" unfolding seize_locked_def Let_def using taken s'(1) by (simp del: not_None_eq)
    moreover have "answered pm (holder_of c_p af aa) G False s'" using s'(2) by (simp add: answered_def)
    ultimately show ?thesis using s'(3) by blast
  qed
qed

lemma try_seize_ok:
  assumes inv: "code_ix_inv s G" and c: "caller c_p af s"
  shows "\<exists>ok s'. try_seize_code_permission pm c_p af aa s = Some (ok, s') \<and> answered pm (holder_of c_p af aa) G ok s' \<and> caller c_p af s'"
proof (cases c_p)
  case None
  then show ?thesis using seize_locked_ok [OF inv c] by (simp add: try_seize_code_permission_def)
next
  case (Some p)
  then obtain pr where pr: "cprocs s p = Some pr" "\<not> exiting pr" using c by (auto simp: caller_def)
  have ok: "perm_ok pm {} s G" using inv by (simp add: code_ix_inv_def)
  then have f: "xstate_handover_flg (perms s pm) = 2 ^ flag_bit pm" by (simp add: perm_ok_def flags_ok_def)
  show ?thesis
  proof (cases "flag pm p s")
    case False
    then show ?thesis using seize_locked_ok [OF inv c, of pm aa] Some pr(1) f by (simp add: try_seize_code_permission_def flag_def flag_tests)
  next
    case True
    define s' where "s' = s\<lparr>cprocs := (cprocs s)(p \<mapsto> pr\<lparr>xstate := xstate pr AND NOT (2 ^ flag_bit pm)\<rparr>)\<rparr>"
    have run: "try_seize_code_permission pm c_p af aa s = Some (True, s')"
      using Some pr(1) f True by (simp add: try_seize_code_permission_def flag_def flag_tests upd_proc_def s'_def)
    have o: "owner (perms s pm) = Some p" "(h, pm) \<notin> G" for h using True ok by (auto simp: perm_ok_def flags_ok_def)
    have fl: "flag pm' x s' \<longleftrightarrow> flag pm' x s \<and> \<not> (x = p \<and> pm' = pm)" for pm' x using pr(1) by (auto simp: s'_def flag_def flag_tests)
    have e: "perms s' = perms s" "aux_work s' = aux_work s" by (simp_all add: s'_def)
    have s: "perm_seized pm s G" using ok o(1) by (auto simp: perm_ok_def perm_idle_def)
    have "proc_ok x s' G" for x
    proof (cases "x = p")
      case True
      have "proc_ok p s G" "qcount p s' = qcount p s" using inv e by (simp_all add: code_ix_inv_def procs_ok_def qcount_def)
      then have "proc_ok p s' G" using pr by (simp add: proc_ok_def needed_def s'_def)
      then show ?thesis using True by simp
    next
      case False
      then have "cprocs s' x = cprocs s x" "qcount x s' = qcount x s" using e by (simp_all add: s'_def qcount_def)
      then show ?thesis using inv proc_ok_cong [of s' x s G G] by (simp add: code_ix_inv_def procs_ok_def)
    qed
    moreover have "items_ok s'" using inv e by (simp add: code_ix_inv_def procs_ok_def items_ok_def)
    moreover have c': "caller c_p af s'" using c Some pr by (simp add: caller_def s'_def)
    ultimately have "procs_ok s' (insert (ProcHolder p, pm) G)"
      using procs_ok_grant [of s' G c_p af s' aa pm] Some by (simp add: procs_ok_def holder_of_def)
    moreover have "perm_ok pm' {} s' (insert (ProcHolder p, pm) G)" for pm'
    proof (cases "pm' = pm")
      case True
      have "\<not> flag pm x s'" for x using fl o(1) ok by (auto simp: perm_ok_def flags_ok_def)
      then have "perm_ok pm {} s' (insert (ProcHolder p, pm) G)" using s o e f by (auto simp: perm_ok_def flags_ok_def perm_seized_def)
      then show ?thesis using True by simp
    next
      case False
      then show ?thesis using perm_ok_frame [of pm' "{}" s G s' "insert (ProcHolder p, pm) G"] inv fl e by (simp add: code_ix_inv_def)
    qed
    ultimately have "answered pm (holder_of c_p af aa) G True s'" using Some o(2) by (simp add: answered_def code_ix_inv_def holder_of_def)
    then show ?thesis using run c' by blast
  qed
qed

end
