(* ===== verification/CodeIxProps.thy ===== *)
theory CodeIxProps
  imports CodeIxThms
begin

text \<open>
  The protocol of the code permissions: any number of processes and auxiliary jobs seize, wait for and release
  them, are suspended and resumed by others, collect garbage and exit, in any order.
\<close>

subsection \<open>Changes of a process\<close>

lemma inv_upd_proc:
  assumes inv: "code_ix_inv s G" and fl: "\<And>pm. flag pm p (s\<lparr>cprocs := (cprocs s)(p := x)\<rparr>) = flag pm p s"
    and p: "proc_ok p (s\<lparr>cprocs := (cprocs s)(p := x)\<rparr>) G"
  shows "code_ix_inv (s\<lparr>cprocs := (cprocs s)(p := x)\<rparr>) G"
proof -
  define s' where "s' = s\<lparr>cprocs := (cprocs s)(p := x)\<rparr>"
  have e: "perms s' = perms s" "aux_work s' = aux_work s" by (simp_all add: s'_def)
  have "flag pm y s' = flag pm y s" for pm y using fl by (cases "y = p") (simp_all add: s'_def flag_def)
  then have "perm_ok pm {} s' G" for pm using perm_ok_frame [of pm "{}" s G s' G] inv e by (simp add: code_ix_inv_def)
  moreover have "proc_ok y s' G" for y
  proof (cases "y = p")
    case True
    then show ?thesis using p by (simp add: s'_def)
  next
    case False
    then have "cprocs s' y = cprocs s y" "qcount y s' = qcount y s" by (simp_all add: s'_def qcount_def)
    then show ?thesis using inv proc_ok_cong [of s' y s G G] by (simp add: code_ix_inv_def procs_ok_def)
  qed
  moreover have "items_ok s'" using inv e by (simp add: code_ix_inv_def procs_ok_def items_ok_def)
  ultimately show ?thesis by (simp add: code_ix_inv_def procs_ok_def s'_def)
qed

lemma qcount_upd [simp]: "qcount p (s\<lparr>cprocs := c\<rparr>) = qcount p s" "qcount p (s\<lparr>aux_work := w\<rparr>) = qcount p s"
  by (simp_all add: qcount_def)

lemma proc_waits:
  assumes "code_ix_inv s G" "cprocs s p = Some pr" "\<not> exiting pr"
  shows "qcount p s \<le> rcount pr"
proof -
  have "proc_ok p s G" using assms(1) by (simp add: code_ix_inv_def procs_ok_def)
  then show ?thesis using assms(2,3) by (simp add: proc_ok_def)
qed

lemma inv_upd_some:
  assumes inv: "code_ix_inv s G" and pr: "cprocs s p = Some pr" and x: "\<And>pm. bit (xstate pr') (flag_bit pm) = bit (xstate pr) (flag_bit pm)"
    and e: "exiting pr \<Longrightarrow> exiting pr'" "refc pr' = refc pr" "\<not> exiting pr' \<Longrightarrow> qcount p s \<le> rcount pr'"
  shows "code_ix_inv (s\<lparr>cprocs := (cprocs s)(p \<mapsto> pr')\<rparr>) G"
proof (rule inv_upd_proc [OF inv])
  show "flag pm p (s\<lparr>cprocs := (cprocs s)(p \<mapsto> pr')\<rparr>) = flag pm p s" for pm using pr x by (simp add: flag_def)
  have "proc_ok p s G" using inv by (simp add: code_ix_inv_def procs_ok_def)
  moreover have "needed p pr G" if "needed p pr' G" using that x e(1) by (auto simp: needed_def)
  ultimately show "proc_ok p (s\<lparr>cprocs := (cprocs s)(p \<mapsto> pr')\<rparr>) G" using pr e(2,3) by (auto simp: proc_ok_def split: if_splits)
qed

subsection \<open>The protocol\<close>

definition running :: "addr \<Rightarrow> CodeIx \<Rightarrow> bool" where
  "running p s = (case cprocs s p of None \<Rightarrow> False | Some pr \<Rightarrow> \<not> exiting pr \<and> rcount pr = 0 \<and> \<not> bit (xstate pr) 11)"

type_synonym perm_state = "CodeIx \<times> (holder \<times> permission) set"

inductive perm_step :: "perm_state \<Rightarrow> perm_state \<Rightarrow> bool" where
  seize: "running p s \<Longrightarrow> (ProcHolder p, pm) \<notin> G \<Longrightarrow> try_seize_code_permission pm (Some p) None None s = Some (ok, s')
    \<Longrightarrow> perm_step (s, G) (s', if ok then insert (ProcHolder p, pm) G else G)"
| seize_load: "running p s \<Longrightarrow> (\<And>pm. (ProcHolder p, pm) \<notin> G) \<Longrightarrow> erts_try_seize_code_load_permission p s = Some (ok, s')
    \<Longrightarrow> perm_step (s, G) (s', if ok then insert (ProcHolder p, code_mod_permission) (insert (ProcHolder p, code_stage_permission) G) else G)"
| seize_aux: "f \<noteq> None \<Longrightarrow> erts_try_seize_code_mod_permission_aux f a s = Some (ok, s')
    \<Longrightarrow> perm_step (s, G) (s', if ok then insert (AuxHolder f a, code_mod_permission) G else G)"
| release: "(h, pm) \<in> G \<Longrightarrow> release_code_permission pm s = Some s' \<Longrightarrow> perm_step (s, G) (s', G - {(h, pm)})"
| release_load: "(h, code_mod_permission) \<in> G \<Longrightarrow> (h, code_stage_permission) \<in> G \<Longrightarrow> erts_release_code_load_permission s = Some s'
    \<Longrightarrow> perm_step (s, G) (s', G - {(h, code_mod_permission)} - {(h, code_stage_permission)})"
| gc: "cprocs s p \<noteq> None \<Longrightarrow> set_proc_state_gc p garbing s = Some s' \<Longrightarrow> perm_step (s, G) (s', G)"
| exits: "upd_proc p (\<lambda>pr. pr\<lparr>exiting := True\<rparr>) s = Some s' \<Longrightarrow> perm_step (s, G) (s', G)"
| reject: "cprocs s p = Some pr \<Longrightarrow> exiting pr \<Longrightarrow> exit_reject p s = Some s' \<Longrightarrow> perm_step (s, G) (s', G)"
| unref: "cprocs s p = Some pr \<Longrightarrow> \<not> needed p pr G \<Longrightarrow> qcount p s < refc pr \<Longrightarrow> erts_proc_dec_refc p s = Some s' \<Longrightarrow> perm_step (s, G) (s', G)"
| suspend: "erts_suspend p s = Some s' \<Longrightarrow> perm_step (s, G) (s', G)"
| resume: "cprocs s p = Some pr \<Longrightarrow> qcount p s < rcount pr \<Longrightarrow> erts_resume p s = Some s' \<Longrightarrow> perm_step (s, G) (s', G)"
| spawn: "cprocs s p = None \<Longrightarrow> perm_step (s, G) (s\<lparr>cprocs := (cprocs s)(p \<mapsto> \<lparr>xstate = 0, exiting = False, rcount = 0, refc = 1\<rparr>)\<rparr>, G)"

inductive perm_reach :: "perm_state \<Rightarrow> bool" where
  init: "perm_reach (erts_code_ix_init Map.empty, {})"
| step: "perm_reach x \<Longrightarrow> perm_step x y \<Longrightarrow> perm_reach y"

lemma init_ok: "code_ix_inv (erts_code_ix_init Map.empty) {}"
  by (simp add: code_ix_inv_def procs_ok_def items_ok_def proc_ok_def qcount_def perm_ok_def flags_ok_def perm_idle_def flag_def
      erts_code_ix_init_def code_permission_init_def handover_flg)

lemma running_caller: "running p s \<Longrightarrow> caller (Some p) None s"
  by (auto simp: running_def caller_def split: option.splits)

lemma seize_load_ok:
  assumes inv: "code_ix_inv s G" and c: "caller (Some p) None s" and n: "\<And>pm. (ProcHolder p, pm) \<notin> G"
  shows "\<exists>ok s'. erts_try_seize_code_load_permission p s = Some (ok, s')
    \<and> code_ix_inv s' (if ok then insert (ProcHolder p, code_mod_permission) (insert (ProcHolder p, code_stage_permission) G) else G)"
proof -
  obtain ok1 s1 where s1: "try_seize_code_permission code_stage_permission (Some p) None None s = Some (ok1, s1)"
      "answered code_stage_permission (ProcHolder p) G ok1 s1" "caller (Some p) None s1"
    using try_seize_ok [OF inv c, of code_stage_permission None] by (auto simp: holder_of_def)
  show ?thesis
  proof (cases ok1)
    case False
    then show ?thesis using s1 by (intro exI [of _ False] exI [of _ s1]) (simp add: erts_try_seize_code_load_permission_def answered_def)
  next
    case True
    then have i1: "code_ix_inv s1 (insert (ProcHolder p, code_stage_permission) G)" using s1(2) by (simp add: answered_def)
    obtain ok2 s2 where s2: "try_seize_code_permission code_mod_permission (Some p) None None s1 = Some (ok2, s2)"
        "answered code_mod_permission (ProcHolder p) (insert (ProcHolder p, code_stage_permission) G) ok2 s2"
      using try_seize_ok [OF i1 s1(3), of code_mod_permission None] by (auto simp: holder_of_def)
    show ?thesis
    proof (cases ok2)
      case True
      then show ?thesis using s1(1) \<open>ok1\<close> s2
        by (intro exI [of _ True] exI [of _ s2]) (simp add: erts_try_seize_code_load_permission_def answered_def)
    next
      case False
      then have "code_ix_inv s2 (insert (ProcHolder p, code_stage_permission) G)" using s2(2) by (simp add: answered_def)
      from release_ok [OF this, of "ProcHolder p" code_stage_permission] obtain s3
        where "release_code_permission code_stage_permission s2 = Some s3" "code_ix_inv s3 G" using n [of code_stage_permission] by auto
      then show ?thesis using s1(1) \<open>ok1\<close> s2(1) False
        by (intro exI [of _ False] exI [of _ s3]) (simp add: erts_try_seize_code_load_permission_def erts_release_code_stage_permission_def)
    qed
  qed
qed

lemma set_gc_ok:
  assumes inv: "code_ix_inv s G" and p: "cprocs s p \<noteq> None"
  shows "\<exists>s'. set_proc_state_gc p garbing s = Some s' \<and> code_ix_inv s' G"
proof -
  obtain pr where pr: "cprocs s p = Some pr" using p by blast
  have r: "qcount p s \<le> rcount pr" if "\<not> exiting pr" by (rule proc_waits [OF inv pr that])
  have g: "code_ix_inv (s\<lparr>cprocs := (cprocs s)(p \<mapsto> pr\<lparr>xstate := x\<rparr>)\<rparr>) G" if "x = xstate pr OR ERTS_PXSFLG_GC \<or> x = xstate pr AND NOT ERTS_PXSFLG_GC" for x
    using that r by (intro inv_upd_some [OF inv pr]) (auto simp: gc_bits)
  show ?thesis
  proof (cases garbing)
    case False
    then show ?thesis using g [of "xstate pr AND NOT ERTS_PXSFLG_GC"] pr by (simp add: set_proc_state_gc_def upd_proc_def)
  next
    case True
    define s1 where "s1 = s\<lparr>cprocs := (cprocs s)(p \<mapsto> pr\<lparr>xstate := xstate pr OR ERTS_PXSFLG_GC\<rparr>)\<rparr>"
    have i: "code_ix_inv s1 G" unfolding s1_def by (rule g) simp
    have c: "cprocs s1 p = Some (pr\<lparr>xstate := xstate pr OR ERTS_PXSFLG_GC\<rparr>)" by (simp add: s1_def)
    from reject_ok [OF i c] obtain s2 where "erts_reject_code_permissions p s1 = Some s2" "code_ix_inv s2 G" by (auto simp: gc_bits)
    moreover have "upd_proc p (\<lambda>pr. pr\<lparr>xstate := xstate pr OR ERTS_PXSFLG_GC\<rparr>) s = Some s1" using pr by (simp add: upd_proc_def s1_def)
    ultimately show ?thesis using True pr i by (auto simp: set_proc_state_gc_def)
  qed
qed

lemma dec_refc_ok:
  assumes inv: "code_ix_inv s G" and pr: "cprocs s p = Some pr" "\<not> needed p pr G" "qcount p s < refc pr"
  shows "\<exists>s'. erts_proc_dec_refc p s = Some s' \<and> code_ix_inv s' G"
proof -
  define x where "x = (if refc pr \<le> 1 then None else Some (pr\<lparr>refc := refc pr - 1\<rparr>))"
  have "code_ix_inv (s\<lparr>cprocs := (cprocs s)(p := x)\<rparr>) G"
  proof (rule inv_upd_proc [OF inv])
    show "flag pm p (s\<lparr>cprocs := (cprocs s)(p := x)\<rparr>) = flag pm p s" for pm using pr(1,2) by (auto simp: flag_def x_def needed_def)
    have "\<not> needed p (pr\<lparr>refc := refc pr - 1\<rparr>) G" using pr(2) by (simp add: needed_def)
    then show "proc_ok p (s\<lparr>cprocs := (cprocs s)(p := x)\<rparr>) G" using pr(2,3) by (auto simp: proc_ok_def x_def) (simp_all add: needed_def)
  qed
  then show ?thesis using pr(1) by (simp add: erts_proc_dec_refc_def x_def)
qed

lemma perm_step_inv:
  assumes "perm_step x y" "code_ix_inv (fst x) (snd x)"
  shows "code_ix_inv (fst y) (snd y)"
  using assms
proof (cases rule: perm_step.cases)
  case (seize p s pm G ok s')
  then show ?thesis using try_seize_ok [OF _ running_caller, of s G p pm None] assms(2) by (auto simp: answered_def holder_of_def)
next
  case (seize_load p s G ok s')
  then show ?thesis using seize_load_ok [OF _ running_caller, of s G p] assms(2) by auto
next
  case (seize_aux f a s ok s' G)
  have "caller None f s" using seize_aux(3) by (simp add: caller_def)
  with seize_aux show ?thesis using try_seize_ok [of s G None f code_mod_permission a] assms(2)
    by (auto simp: erts_try_seize_code_mod_permission_aux_def answered_def holder_of_def)
next
  case (release h pm G s s')
  then show ?thesis using release_ok [of s G h pm] assms(2) by auto
next
  case (release_load h G s s')
  then obtain s1 where s1: "release_code_permission code_mod_permission s = Some s1" "code_ix_inv s1 (G - {(h, code_mod_permission)})"
    using release_ok [of s G h code_mod_permission] assms(2) by auto
  then show ?thesis using release_ok [OF s1(2), of h code_stage_permission] release_load
    by (auto simp: erts_release_code_load_permission_def erts_release_code_mod_permission_def erts_release_code_stage_permission_def)
next
  case (gc s p garbing s' G)
  then show ?thesis using set_gc_ok [of s G p garbing] assms(2) by auto
next
  case (exits p s s' G)
  then show ?thesis using assms(2) by (auto simp: upd_proc_def intro!: inv_upd_some split: Option.bind_splits)
next
  case (reject s p pr s' G)
  then show ?thesis using reject_ok [of s G p pr] assms(2) by (auto simp: exit_reject_def split: if_splits)
next
  case (unref s p pr G s')
  then show ?thesis using dec_refc_ok [of s G p pr] assms(2) by auto
next
  case (suspend p s s' G)
  then obtain pr where pr: "cprocs s p = Some pr" "s' = s\<lparr>cprocs := (cprocs s)(p \<mapsto> pr\<lparr>rcount := rcount pr + 1\<rparr>)\<rparr>"
    by (auto simp: erts_suspend_def upd_proc_def split: Option.bind_splits)
  have inv: "code_ix_inv s G" using suspend(1) assms(2) by simp
  have "code_ix_inv s' G" unfolding pr(2) by (rule inv_upd_some [OF inv pr(1)]) (use proc_waits [OF inv pr(1)] in auto)
  then show ?thesis using suspend(2) by simp
next
  case (resume s p pr s' G)
  then show ?thesis using assms(2) by (auto simp: erts_resume_def upd_proc_def intro!: inv_upd_some split: Option.bind_splits)
next
  case (spawn s p G)
  have "proc_ok p s G" using spawn(1) assms(2) by (simp add: code_ix_inv_def procs_ok_def)
  then show ?thesis using spawn assms(2) inv_upd_proc [of s G p "Some \<lparr>xstate = 0, exiting = False, rcount = 0, refc = 1\<rparr>"]
    by (simp add: flag_def proc_ok_def)
qed

lemma perm_reach_inv: "perm_reach x \<Longrightarrow> code_ix_inv (fst x) (snd x)"
proof (induction rule: perm_reach.induct)
  case init
  then show ?case using init_ok by simp
next
  case (step x y)
  then show ?case using perm_step_inv by blast
qed

lemma inv_flag:
  assumes "code_ix_inv s G" "flag pm p s"
  shows "owner (perms s pm) = Some p" "(h, pm) \<notin> G"
  using assms by (auto simp: code_ix_inv_def perm_ok_def flags_ok_def)

lemma inv_waiter:
  assumes inv: "code_ix_inv s G" and qi: "qi \<in> set (waiters (perms s pm))" "qi_p qi = Some p"
  shows "\<exists>pr. cprocs s p = Some pr \<and> (\<not> exiting pr \<longrightarrow> 0 < rcount pr)"
proof -
  have q: "0 < qcount p s" by (rule qcount_pos [OF qi])
  have "proc_ok p s G" using inv by (simp add: code_ix_inv_def procs_ok_def)
  then obtain pr where "cprocs s p = Some pr" using q by (cases "cprocs s p") (auto simp: proc_ok_def)
  then show ?thesis using proc_waits [OF inv] q by force
qed

text \<open>
  C19. In every state the protocol can reach: a code permission has at most one holder; a permission that was handed
  over to a process has no holder, and no other process has it; while somebody waits, the permission is
  held or handed over; a waiting process is not freed, and is suspended unless it exits. A release
  returns and passes the permission on to the first waiter that neither exits nor collects garbage, and to nobody if
  there is none. An attempt to seize a permission returns, and is granted only if nobody else holds it.
\<close>

theorem code_permissions_exclusive:
  assumes "perm_reach (s, G)"
  shows "(\<forall>h h'. (h, pm) \<in> G \<and> (h', pm) \<in> G \<longrightarrow> h = h')
    \<and> (\<forall>p. flag pm p s \<longrightarrow> (\<forall>h. (h, pm) \<notin> G) \<and> (\<forall>p'. flag pm p' s \<longrightarrow> p' = p))
    \<and> (waiters (perms s pm) \<noteq> [] \<longrightarrow> (\<exists>h. (h, pm) \<in> G) \<or> handed pm s)
    \<and> (\<forall>qi p. qi \<in> set (waiters (perms s pm)) \<and> qi_p qi = Some p \<longrightarrow> (\<exists>pr. cprocs s p = Some pr \<and> (\<not> exiting pr \<longrightarrow> 0 < rcount pr)))
    \<and> (\<forall>h. (h, pm) \<in> G \<longrightarrow> (\<exists>s'. release_code_permission pm s = Some s' \<and> passed_on pm s (waiters (perms s pm)) s'))
    \<and> (\<forall>c_p af aa. caller c_p af s \<longrightarrow> (\<exists>ok s'. try_seize_code_permission pm c_p af aa s = Some (ok, s')
        \<and> (ok \<longrightarrow> (\<forall>h. (h, pm) \<in> G \<longrightarrow> h = holder_of c_p af aa))))"
proof -
  have inv: "code_ix_inv s G" using perm_reach_inv [OF assms] by simp
  then have p: "perm_ok pm {} s G" by (simp add: code_ix_inv_def)
  have "h = h'" if "(h, pm) \<in> G" "(h', pm) \<in> G" for h h'
    using p that holds_unique unfolding perm_ok_def perm_seized_def perm_idle_def by blast
  moreover have "(\<exists>h. (h, pm) \<in> G) \<or> handed pm s" if "waiters (perms s pm) \<noteq> []"
    using p that by (auto simp: perm_ok_def perm_seized_def)
  moreover have "p' = p" if "flag pm p s" "flag pm p' s" for p p' using inv_flag(1) [OF inv that(1)] inv_flag(1) [OF inv that(2)] by simp
  moreover have "\<exists>s'. release_code_permission pm s = Some s' \<and> passed_on pm s (waiters (perms s pm)) s'" if "(h, pm) \<in> G" for h
    using release_ok [OF inv that] by blast
  moreover have "\<exists>ok s'. try_seize_code_permission pm c_p af aa s = Some (ok, s') \<and> (ok \<longrightarrow> (\<forall>h. (h, pm) \<in> G \<longrightarrow> h = holder_of c_p af aa))"
    if "caller c_p af s" for c_p af aa
    using try_seize_ok [OF inv that, of pm aa] by (auto simp: answered_def)
  ultimately show ?thesis using inv_flag(2) [OF inv] inv_waiter [OF inv] by blast
qed

subsection \<open>Runs\<close>

text \<open>Processes 1, 2 and 3 of an emulator that just started.\<close>

definition new_proc :: CodeProc where
  "new_proc = \<lparr>xstate = 0, exiting = False, rcount = 0, refc = 1\<rparr>"

definition started :: CodeIx where
  "started = erts_code_ix_init [1 \<mapsto> new_proc, 2 \<mapsto> new_proc, 3 \<mapsto> new_proc]"

lemma started_reach: "perm_reach (started, {})"
proof -
  have "perm_reach ((erts_code_ix_init Map.empty)\<lparr>cprocs := [1 \<mapsto> new_proc, 2 \<mapsto> new_proc, 3 \<mapsto> new_proc]\<rparr>, {})"
    using perm_reach.step [OF perm_reach.step [OF perm_reach.step [OF perm_reach.init perm_step.spawn [of _ 1]] perm_step.spawn [of _ 2]] perm_step.spawn [of _ 3]]
    by (simp add: erts_code_ix_init_def new_proc_def)
  then show ?thesis by (simp add: started_def erts_code_ix_init_def)
qed

lemmas run_simps = try_seize_code_permission_def seize_locked_def enqueue_waiter_def erts_proc_inc_refc_def erts_suspend_def erts_resume_def
  upd_proc_def upd_perm_def release_code_permission_def hand_over_def hand_over_proc_def erts_proc_dec_refc_def gc_flag(1)
  started_def erts_code_ix_init_def code_permission_init_def handover_flg new_proc_def Let_def

text \<open>Process 1 has the permission and process 2 waits.\<close>

definition one_waits :: CodeIx where
  "one_waits = upd_perm code_mod_permission (\<lambda>q. q\<lparr>owner := Some 1, seized := True,
       waiters := [\<lparr>qi_p = Some 2, qi_aux_func = None, qi_aux_arg = None\<rparr>]\<rparr>)
     (started\<lparr>cprocs := (cprocs started)(2 \<mapsto> new_proc\<lparr>rcount := 1, refc := 1 + 1\<rparr>)\<rparr>)"

lemma one_waits_reach: "perm_reach (one_waits, {(ProcHolder 1, code_mod_permission)})"
proof -
  define s1 where "s1 = upd_perm code_mod_permission (\<lambda>q. q\<lparr>owner := Some 1, seized := True\<rparr>) started"
  have "try_seize_code_permission code_mod_permission (Some 1) None None started = Some (True, s1)"
    by (simp add: run_simps s1_def)
  from perm_reach.step [OF started_reach perm_step.seize [OF _ _ this]] have r1: "perm_reach (s1, {(ProcHolder 1, code_mod_permission)})"
    by (simp add: running_def run_simps)
  have "try_seize_code_permission code_mod_permission (Some 2) None None s1 = Some (False, one_waits)"
    by (simp add: run_simps s1_def one_waits_def)
  from perm_reach.step [OF r1 perm_step.seize [OF _ _ this]] show ?thesis by (simp add: running_def run_simps s1_def)
qed

text \<open>Witness of C19: when process 1 releases, process 2 gets the permission.\<close>

theorem code_permissions_exclusive_witness:
  "\<exists>s'. release_code_permission code_mod_permission one_waits = Some s'
    \<and> owner (perms s' code_mod_permission) = Some 2 \<and> flag code_mod_permission 2 s' \<and> waiters (perms s' code_mod_permission) = []"
proof -
  obtain s' where s': "release_code_permission code_mod_permission one_waits = Some s'"
      "passed_on code_mod_permission one_waits (waiters (perms one_waits code_mod_permission)) s'"
    using code_permissions_exclusive [OF one_waits_reach, of code_mod_permission,
        THEN conjunct2, THEN conjunct2, THEN conjunct2, THEN conjunct2, THEN conjunct1, rule_format, of "ProcHolder 1"] by auto
  have "waiters (perms one_waits code_mod_permission) = [\<lparr>qi_p = Some 2, qi_aux_func = None, qi_aux_arg = None\<rparr>]" "cprocs one_waits 2 = Some (new_proc\<lparr>rcount := 1, refc := 1 + 1\<rparr>)"
    by (simp_all add: one_waits_def upd_perm_def)
  then show ?thesis using s' by (auto simp: passed_on_def eligible_def handed_def new_proc_def)
qed

text \<open>
  The permissions do not exclude a deadlock. A process that waits for the permission to load code waits for the
  modification permission without the staging permission, and once it was handed the former over it keeps it while
  it waits for the latter. A purger holds the staging permission when it asks for the other one.
\<close>

lemma code_permissions_deadlock:
  "\<exists>s. perm_reach (s, {(ProcHolder 2, code_stage_permission)})
    \<and> owner (perms s code_stage_permission) = Some 2 \<and> map qi_p (waiters (perms s code_stage_permission)) = [Some 1]
    \<and> owner (perms s code_mod_permission) = Some 1 \<and> flag code_mod_permission 1 s \<and> map qi_p (waiters (perms s code_mod_permission)) = [Some 2]
    \<and> \<not> running 1 s \<and> \<not> running 2 s"
proof -
  define a1 where "a1 = snd (the (try_seize_code_permission code_mod_permission (Some 3) None None started))"
  have "try_seize_code_permission code_mod_permission (Some 3) None None started = Some (True, a1)" by (simp add: run_simps a1_def)
  from perm_reach.step [OF started_reach perm_step.seize [OF _ _ this]] have r1: "perm_reach (a1, {(ProcHolder 3, code_mod_permission)})"
    by (simp add: running_def run_simps)
  note a1 = a1_def [simplified run_simps, simplified]
  define a2 where "a2 = snd (the (erts_try_seize_code_load_permission 1 a1))"
  have "erts_try_seize_code_load_permission 1 a1 = Some (False, a2)"
    by (simp add: run_simps a1 a2_def erts_try_seize_code_load_permission_def erts_release_code_stage_permission_def)
  from perm_reach.step [OF r1 perm_step.seize_load [OF _ _ this]] have r2: "perm_reach (a2, {(ProcHolder 3, code_mod_permission)})"
    by (simp add: running_def a1)
  note a2 = a2_def [unfolded erts_try_seize_code_load_permission_def erts_release_code_stage_permission_def, simplified run_simps a1, simplified]
  define a3 where "a3 = the (release_code_permission code_mod_permission a2)"
  have "release_code_permission code_mod_permission a2 = Some a3" by (simp add: run_simps a2 a3_def)
  from perm_reach.step [OF r2 perm_step.release [OF _ this]] have r3: "perm_reach (a3, {})" by fastforce
  note a3 = a3_def [simplified run_simps a2, simplified, simplified run_simps, simplified]
  define a4 where "a4 = snd (the (try_seize_code_permission code_stage_permission (Some 2) None None a3))"
  have "try_seize_code_permission code_stage_permission (Some 2) None None a3 = Some (True, a4)" by (simp add: run_simps a3 a4_def)
  from perm_reach.step [OF r3 perm_step.seize [OF _ _ this]] have r4: "perm_reach (a4, {(ProcHolder 2, code_stage_permission)})"
    by (simp add: running_def a3)
  note a4 = a4_def [simplified run_simps a3, simplified]
  define a5 where "a5 = snd (the (erts_try_seize_code_load_permission 1 a4))"
  have "erts_try_seize_code_load_permission 1 a4 = Some (False, a5)"
    by (simp add: run_simps a4 a5_def erts_try_seize_code_load_permission_def)
  from perm_reach.step [OF r4 perm_step.seize_load [OF _ _ this]] have r5: "perm_reach (a5, {(ProcHolder 2, code_stage_permission)})"
    by (simp add: running_def a4)
  note a5 = a5_def [unfolded erts_try_seize_code_load_permission_def, simplified run_simps a4, simplified]
  define a6 where "a6 = snd (the (try_seize_code_permission code_mod_permission (Some 2) None None a5))"
  have "try_seize_code_permission code_mod_permission (Some 2) None None a5 = Some (False, a6)" by (simp add: run_simps a5 a6_def)
  from perm_reach.step [OF r5 perm_step.seize [OF _ _ this]] have r6: "perm_reach (a6, {(ProcHolder 2, code_stage_permission)})"
    by (simp add: running_def a5)
  note a6 = a6_def [simplified run_simps a5, simplified]
  show ?thesis using r6 by (intro exI [of _ a6] conjI) (simp_all add: a6 flag_def running_def)
qed

end
