(* ===== verification/Spec2Isabelle.thy ===== *)
theory Spec2Isabelle
  imports PonBif PonTimer PonCondition PonEts PonGcThms TimerBumpThms BigProps ErlArithProps AtomProps ModuleProps CodeIxProps
begin

text \<open>
  PON-BEAM: the notification-oriented parts of an Erlang/OTP 30 emulator, and the emulator's timer
  wheel, bignum library, arithmetic on terms, and tables of atoms they live beside.

  \<^bold>\<open>The program.\<close> PON-BEAM changes the C runtime system (\<^verbatim>\<open>src/otp/erts\<close>) so that parts of it are driven
  by notifications. Its own code is in \<^verbatim>\<open>erts/emulator/beam/pon_*.c\<close> and
  \<^verbatim>\<open>erts/include/internal/pon_*.h\<close>, in the BIFs of \<^verbatim>\<open>bif.c\<close>, and in hooks in \<^verbatim>\<open>erl_process.c\<close> and
  \<^verbatim>\<open>time.c\<close>. Erlang code reaches it through BIFs; the scheduler through the condition (wake-ups) and the
  wheel (timeouts); each process has its premises and its collector graph, freed when it exits.

  \<^bold>\<open>The theories\<close> and the code they model:

  \<^item> \<open>Prelude\<close>: C integers as words, signed \<open>int\<close>s with their overflow, arrays, undefined behaviour as \<open>None\<close>, the locale
    \<open>data_refinement\<close> of a component that implements an abstract one.
  \<^item> \<open>PonStats\<close>: the statistics counters (\<^verbatim>\<open>pon_stats.h\<close>).
  \<^item> \<open>PonEts\<close>: the watchers of ETS keys (\<^verbatim>\<open>pon_ets.c\<close>). The hash table of linked lists refines a
    set of registrations, and its \<open>int\<close> counters do not overflow below \<open>INT_MAX\<close> of them (C1, C2).
  \<^item> \<open>PonGc\<close>, \<open>PonGcMark\<close>, \<open>PonGcSweep\<close>, \<open>PonGcThms\<close>: the collector graph (\<^verbatim>\<open>pon_gc.c\<close>) on a heap of
    nodes with their reference and root arrays. Marking reaches exactly the reachable nodes and sweeping
    frees exactly the others (C3, C4); steps, counters, and the failures of capacity, removal and
    allocation the code has (C5 to C7, \<open>pon_gc_remove_ref_drops_second\<close>, \<open>pon_gc_node_create_dangling\<close>).
  \<^item> \<open>PonTimer\<close>: the timers on file descriptors (\<^verbatim>\<open>pon_timer.c\<close>, \<^verbatim>\<open>pon_instigation.h\<close>) over a small
    kernel of timerfd and epoll objects (C10 to C12).
  \<^item> \<open>PonCondition\<close>: the wake-up of idle schedulers (\<^verbatim>\<open>pon_condition.c\<close>), as an interleaving of the atomic
    steps of several threads. An operation that runs alone is one of a stack (C13); under any interleaving
    each process is delivered once (C14), but a wake-up can be lost (C15) unless notifications are atomic (C16).
  \<^item> \<open>ErlTerm\<close>: tagged words (\<^verbatim>\<open>erl_term.h\<close>, 64-bit). \<open>PonPremise\<close>: the premises of a receive
    (\<^verbatim>\<open>pon_premise.c\<close>) over terms in memory (C17, \<open>erts_pon_note_message_consumed_clears\<close>), and the lazy state of
    the type queues (\<^verbatim>\<open>erl_message.h\<close>).
  \<^item> \<open>PonBif\<close>: the BIFs (\<^verbatim>\<open>bif.c\<close>, \<^verbatim>\<open>erl_bif_info.c\<close>) and the process hooks, composed of the operations of
    the collector and of the premises (C20, C22, C23): no access leaves an array, the growing array of
    ids included. The exit of a process frees all of it (C25).
  \<^item> \<open>TimerWheel\<close>, \<open>TimerWheelInv\<close>, \<open>TimerWheelThms\<close>, \<open>TimerWheelReach\<close>: the timer wheel with the PON
    deadline cache (\<^verbatim>\<open>time.c\<close>) on its doubly linked lists, slot counts and minimum positions. Setting and
    cancelling refine a finite map whose timers are those linked into the slots (C26), before the first bump
    the answer for the next timeout is never too late (C27), the search over empty slots ends (C28) and reads one element past its array (\<open>scnt_skip_reads_past_end\<close>).
  \<^item> \<open>TimerBump\<close>, \<open>TimerBumpThms\<close>: bumping the wheel, with yields and restarts; the timeout procedures are a
    parameter and may set and cancel timers. No timer fires before its tick, and the lists and counts stay
    right, whatever happened to the wheel before (C40).
  \<^item> \<open>BigDigits\<close>, \<open>BigThms\<close>, \<open>BigMul\<close>, \<open>BigBits\<close>, \<open>BigShift\<close>: the digit vectors of bignums (\<^verbatim>\<open>big.c\<close>) in the
    build with 128-bit double digits, and the numbers they stand for.
  \<^item> \<open>BigDiv\<close>, \<open>BigDivThms\<close>: the schoolbook division with its remainder that changes sign: it returns, within
    its vectors, with the quotient and the remainder. \<open>BigBz\<close>, \<open>BigBzThms\<close>: the division of Burnikel and
    Ziegler, the buffer it works in, and the dispatch between the two.
  \<^item> \<open>BigTerm\<close>, \<open>BigTermThms\<close>, \<open>BigOps\<close>: integers as terms. The operations on bignums satisfy one contract, the
    locale \<open>big_operation\<close>: the term of the exact result, or \<open>NIL\<close> when it is too large.
  \<^item> \<open>BigProps\<close>: the fast algorithms return the digits of the schoolbook ones (C30, C31), round trips and
    conversions (C37, C38), and at most one term for each integer (C39).
  \<^item> \<open>ErlArith\<close>, \<open>ErlArithThms\<close>, \<open>ErlArithProps\<close>: the operators on terms (\<^verbatim>\<open>erl_arith.c\<close>), with their conversions
    between small integers and bignums, reductions and errors. On integers they are exact for all sizes
    (C32 to C35), and on other terms they raise \<open>badarith\<close> (C36). Doubles are a parameter.

  \<^item> \<open>HashTable\<close>, \<open>HashTableThms\<close>: the general hash table (\<^verbatim>\<open>hash.c\<close>, \<^verbatim>\<open>hash.h\<close>), over a store of objects. For
    every client that keeps the contract of the locale \<open>hash_functions\<close> it refines a finite map, however
    it grows and shrinks (C18). \<open>IndexTable\<close>, \<open>IndexTableThms\<close>: the index table (\<^verbatim>\<open>index.c\<close>) on a hash table and
    pages of pointers; with the locale \<open>index_functions\<close>, an extension, it refines a list (C21).
  \<^item> \<open>Utf8\<close>: the analysis of UTF-8 (\<^verbatim>\<open>erl_unicode.c\<close>) accepts exactly the encodings of Unicode (C9).
  \<^item> \<open>AtomTable\<close>, \<open>AtomTableThms\<close>, \<open>AtomProps\<close>: the atoms (\<^verbatim>\<open>atom.c\<close>, \<^verbatim>\<open>atom.h\<close>, \<^verbatim>\<open>erl_utils.h\<close>), a client of the two
    tables (the interpretation \<open>atoms\<close>). The table refines a list of names (C24) and the comparison of two
    atoms is the order of their names (C29).
  \<^item> \<open>ModuleTable\<close>, \<open>ModuleThms\<close>, \<open>ModuleProps\<close>: the tables of modules (\<^verbatim>\<open>module.c\<close>), three index tables (the
    interpretation \<open>modules\<close>) whose roles rotate with the code indices (\<^verbatim>\<open>code_ix.c\<close>). Over all sequences of starts,
    puts, writes, commits and aborts they number their modules alike, and staging never disturbs the active table (C8).
  \<^item> \<open>CodeIx\<close>, \<open>CodeIxThms\<close>, \<open>CodeIxProps\<close>: the permissions to modify and to stage code (\<^verbatim>\<open>code_ix.c\<close>). Under any interleaving of
    processes and jobs that seize, wait, release, collect garbage and exit, they exclude each other and a release serves
    the first waiter it can (C19); \<open>code_permissions_deadlock\<close> is a run that ends in a cycle of waiting.

  \<^bold>\<open>Conventions.\<close> A routine that may run outside its memory, use a freed object or not return is an
  \<open>option\<close>; a theorem that it returns \<open>Some\<close> says that this does not happen. Loops over pointers and
  unbounded searches are \<open>partial_function\<close>s; there is no fuel. Counters that wrap are words, and signed \<open>int\<close>s
  whose value matters are checked for overflow. Some theorems have bounds on sizes: fewer than 2^27 objects in a hash or
  index table (the code itself goes on to 1.6 * 2^27, where the next size makes it compute 8 * 2^28 in an \<open>int\<close>),
  2^15 bytes of the name of an atom and 2^15 references of a collector node (16-bit fields that the code does not
  check), 2^30 roots and elements of a list of objects, 2^62 ids. Two counters are taken as unbounded
  because no operation reads them into a result: the collector's \<open>gray_count\<close>, whose \<open>int\<close> would overflow
  with 2^31 gray nodes at once, and the lengths of the type queues. The slot counts of the wheel are a total function, so that the read past
  their end is harmless in the model (\<open>scnt_skip_reads_past_end\<close>). Predicates such as \<open>bterm_ok\<close>, \<open>gc_wf\<close> and
  \<open>tw_inv\<close> are specifications, not code. Answers of the operating system (clock, file descriptors, allocation failures) come
  from functions in the state. Every error return of the code is a branch of the model.

  \<^bold>\<open>What is not modelled.\<close> The rest of the emulator (interpreter and JIT, process scheduling, signal queues,
  ETS tables, the copying collector, code loading but for its module tables and permissions, distribution, drivers, NIFs) is Erlang/OTP's and is reached
  by the PON code only through the calls above. In \<^verbatim>\<open>big.c\<close> the conversion to and from
  text, with its Barrett division, and the conversion from floats are left out; in \<^verbatim>\<open>time.c\<close> the debugging checks;
  of \<^verbatim>\<open>erl_unicode.c\<close> only the analysis is modelled, and of the tables not the printing and the sizes in bytes. Code under \<open>#if 0\<close> is not part of the
  program. Scheduler accounting, locks around single-threaded parts and the layout of results on the process
  heap are left out of the operations that have them.
\<close>

end
